(* ===== verification/Comm_Prelude.thy ===== *)
theory Comm_Prelude
  imports Main "HOL-Library.Word" "HOL-Library.Sublist"
begin

text \<open>
  Shared vocabulary of the development: bytes, the faults a C++ operation can run into
  (out-of-bounds access, null dereference, division by zero, use after free), the result type
  of a fallible operation, the machine integers of an LP64 target written as \<open>nat\<close> and
  \<open>int\<close> with their wrap-around (\<open>size_t\<close>, \<open>off_t\<close>, \<open>int\<close>), memory copies on byte lists, and the
  generic list lemmas the components use.

  Assertions: \<^verbatim>\<open>ASSERT\<close>, \<^verbatim>\<open>ASSERT2\<close> and \<^verbatim>\<open>xassert2\<close> of src/mars/comm only write a log line
  in a build without \<^verbatim>\<open>DEBUG\<close> (\<^verbatim>\<open>sg_enable_assert\<close> is 0 in assert/__assert.c), so they have no
  counterpart in the definitions: every definition models the control flow of the release build.
\<close>

section \<open>Bytes, faults, results\<close>

type_synonym byte = "8 word"
type_synonym bytes = "byte list"

datatype fault =
    Out_Of_Bounds
  | Null_Deref
  | Div_By_Zero
  | Use_After_Free
  | Empty_Container

type_synonym 'a result = "fault + 'a"

definition rbind :: "'a result \<Rightarrow> ('a \<Rightarrow> 'b result) \<Rightarrow> 'b result" where
  "rbind r f = (case r of Inl e \<Rightarrow> Inl e | Inr x \<Rightarrow> f x)"

lemma rbind_simps [simp]:
  "rbind (Inl e) f = Inl e"
  "rbind (Inr x) f = f x"
  by (simp_all add: rbind_def)

lemma rbind_Inr [simp]: "rbind r Inr = r"
  by (cases r) simp_all

lemma rbind_eq_Inr_iff: "rbind r f = Inr y \<longleftrightarrow> (\<exists>x. r = Inr x \<and> f x = Inr y)"
  by (cases r) auto

section \<open>Machine integers\<close>

text \<open>
  \<open>size_t\<close> and \<open>uint64_t\<close> values are naturals below \<open>2 ^ 64\<close>; \<open>off_t\<close> and \<open>int64_t\<close> values are
  integers in \<open>- 2 ^ 63 ..< 2 ^ 63\<close>; \<open>int\<close> values lie in \<open>- 2 ^ 31 ..< 2 ^ 31\<close>. The functions below
  are the conversions of C++ to these types.
\<close>

definition to_size :: "int \<Rightarrow> nat" where
  "to_size x = nat (x mod 2 ^ 64)"

definition to_off :: "int \<Rightarrow> int" where
  "to_off x = (x + 2 ^ 63) mod 2 ^ 64 - 2 ^ 63"

definition to_uint :: "int \<Rightarrow> nat" where
  "to_uint x = nat (x mod 2 ^ 32)"

definition to_int :: "int \<Rightarrow> int" where
  "to_int x = (x + 2 ^ 31) mod 2 ^ 32 - 2 ^ 31"

lemma to_size_id: "0 \<le> x \<Longrightarrow> x < 2 ^ 64 \<Longrightarrow> to_size x = nat x"
  by (simp add: to_size_def)

lemma to_size_of_nat [simp]: "n < 2 ^ 64 \<Longrightarrow> to_size (int n) = n"
  by (simp add: to_size_def)

lemma to_size_less: "to_size x < 2 ^ 64"
  by (simp add: to_size_def nat_less_iff)

lemma to_off_id: "- (2 ^ 63) \<le> x \<Longrightarrow> x < 2 ^ 63 \<Longrightarrow> to_off x = x"
  by (simp add: to_off_def)

lemma to_off_range: "- (2 ^ 63) \<le> to_off x \<and> to_off x < 2 ^ 63"
proof -
  have "0 \<le> (x + 2 ^ 63) mod 2 ^ 64" "(x + 2 ^ 63) mod 2 ^ 64 < (2 ^ 64 :: int)" by simp_all
  then show ?thesis by (simp add: to_off_def)
qed

lemma to_uint_id: "0 \<le> x \<Longrightarrow> x < 2 ^ 32 \<Longrightarrow> to_uint x = nat x"
  by (simp add: to_uint_def)

lemma to_uint_less: "to_uint x < 2 ^ 32"
  by (simp add: to_uint_def nat_less_iff)

lemma to_int_id: "- (2 ^ 31) \<le> x \<Longrightarrow> x < 2 ^ 31 \<Longrightarrow> to_int x = x"
  by (simp add: to_int_def)

lemma round_up_bounds:
  assumes "0 < (u :: nat)"
  shows "n \<le> (n + u - 1) div u * u" "(n + u - 1) div u * u \<le> n + u - 1"
proof -
  have eq: "(n + u - 1) div u * u + (n + u - 1) mod u = n + u - 1" by simp
  have "(n + u - 1) mod u \<le> u - 1" using assms by (metis Suc_pred' less_Suc_eq_le mod_less_divisor)
  with eq assms show "n \<le> (n + u - 1) div u * u" by linarith
  show "(n + u - 1) div u * u \<le> n + u - 1" by simp
qed

section \<open>Memory copies on byte lists\<close>

text \<open>\<open>overwrite p d xs\<close> is the block \<open>xs\<close> after \<^verbatim>\<open>memcpy(xs + p, d, len(d))\<close> inside its bounds.\<close>

definition overwrite :: "nat \<Rightarrow> 'a list \<Rightarrow> 'a list \<Rightarrow> 'a list" where
  "overwrite p d xs = take p xs @ d @ drop (p + length d) xs"

lemma length_overwrite [simp]: "p + length d \<le> length xs \<Longrightarrow> length (overwrite p d xs) = length xs"
  by (simp add: overwrite_def)

lemma overwrite_Nil [simp]: "overwrite p [] xs = xs"
  by (simp add: overwrite_def)

lemma take_overwrite_end:
  "p + length d \<le> length xs \<Longrightarrow> take (p + length d) (overwrite p d xs) = take p xs @ d"
  by (simp add: overwrite_def)

lemma take_overwrite:
  assumes "p + length d \<le> n" "n \<le> length xs"
  shows "take n (overwrite p d xs) = overwrite p d (take n xs)"
proof -
  from assms have "p \<le> n" "min n p = p" "min (n - p) (length d) = length d" by simp_all
  with assms show ?thesis by (simp add: overwrite_def drop_take)
qed

lemma overwrite_at_end:
  "overwrite (length xs) d xs = xs @ d"
  by (simp add: overwrite_def)

lemma take_take_overwrite:
  "p + length d \<le> length xs \<Longrightarrow> take p (overwrite p d xs) = take p xs"
  by (simp add: overwrite_def)

lemma drop_overwrite:
  "p \<le> length xs \<Longrightarrow> drop p (overwrite p d xs) = d @ drop (p + length d) xs"
  by (simp add: overwrite_def)

section \<open>Bytes as numbers\<close>

lemma unat_byte_less: "unat (x :: byte) < 256"
  using unsigned_less [of x] by simp

lemma unat_byte_le: "unat (x :: byte) \<le> 255"
  using unat_byte_less [of x] by simp

section \<open>Automation collections\<close>

text \<open>
  \<open>buf_defs\<close> holds the unfolding equations of the two buffer classes, \<open>buf_laws\<close> their
  functional laws; the other components add to the collections named after them.
\<close>

named_theorems buf_defs
named_theorems buf_laws

lemma find_SomeD: "find P xs = Some x \<Longrightarrow> x \<in> set xs \<and> P x"
  by (auto simp: find_Some_iff)

lemma distinct_map_middle:
  assumes "distinct (map f (us @ w # vs))" "x \<in> set (us @ vs)"
  shows "f x \<noteq> f w"
proof -
  have "f x \<in> f ` set (us @ vs)" "f w \<notin> f ` set (us @ vs)" using assms by auto
  then show ?thesis by metis
qed

end
