(* ===== verification/MQ_Types.thy ===== *)
theory MQ_Types
  imports Comm_Prelude
begin

text \<open>
  The data of the message queue (src/mars/comm/messagequeue/message_queue.h and the structs at the head of
  message_queue.cc). Queue ids and titles are 64-bit words, sequence numbers 32-bit words that wrap
  around, times are milliseconds (\<open>uint64_t\<close> as \<open>nat\<close>, \<open>int64_t\<close> as \<open>int\<close>). The two \<^verbatim>\<open>boost::any\<close> bodies
  of a message have the type \<open>'a option\<close>, a handler closure the type \<open>'h\<close>: both are the caller's.
  A \<^verbatim>\<open>MessageWrapper*\<close> is the wrapper together with the address \<open>mw_addr\<close> it was allocated at;
  condition variables are addresses too (\<open>None\<close> for a null \<^verbatim>\<open>shared_ptr\<close>).
\<close>

section \<open>Identifiers\<close>

type_synonym MessageQueue_t = "64 word"
type_synonym MessageTitle_t = "64 word"
type_synonym addr = nat

definition KInvalidQueueID :: MessageQueue_t where
  "KInvalidQueueID = 0"

record MessageHandler_t =
  mh_queue :: MessageQueue_t
  mh_seq :: "32 word"

definition isbroadcast :: "MessageHandler_t \<Rightarrow> bool" where
  "isbroadcast h \<longleftrightarrow> 0 = mh_seq h"

record MessagePost_t =
  mp_reg :: MessageHandler_t
  mp_seq :: "32 word"

definition KNullHandler :: MessageHandler_t where
  "KNullHandler = \<lparr>mh_queue = KInvalidQueueID, mh_seq = 0\<rparr>"

definition KNullPost :: MessagePost_t where
  "KNullPost = \<lparr>mp_reg = KNullHandler, mp_seq = 0\<rparr>"

definition Post2Handler :: "MessagePost_t \<Rightarrow> MessageHandler_t" where
  "Post2Handler p = mp_reg p"

definition Handler2Queue :: "MessageHandler_t \<Rightarrow> MessageQueue_t" where
  "Handler2Queue h = mh_queue h"

section \<open>Messages and their timing\<close>

record 'a Message =
  msg_title :: MessageTitle_t
  msg_body1 :: "'a option"
  msg_body2 :: "'a option"
  msg_anr_timeout :: int

text \<open>Two messages are equal for the queue when their titles are, whatever their bodies.\<close>

definition Message_eq :: "'a Message \<Rightarrow> 'a Message \<Rightarrow> bool" where
  "Message_eq m1 m2 \<longleftrightarrow> msg_title m1 = msg_title m2"

definition Message_mk :: "MessageTitle_t \<Rightarrow> 'a option \<Rightarrow> 'a option \<Rightarrow> 'a Message" where
  "Message_mk t b1 b2 = \<lparr>msg_title = t, msg_body1 = b1, msg_body2 = b2,
     msg_anr_timeout = 10 * 60 * 1000\<rparr>"

text \<open>A message that carries a function to invoke: the closure is its first body.\<close>

definition Message_func :: "MessageTitle_t \<Rightarrow> 'a \<Rightarrow> 'a Message" where
  "Message_func t f = Message_mk t (Some f) None"

datatype TMessageTiming = kAfter | kPeriod | kImmediately

record MessageTiming =
  mt_type :: TMessageTiming
  mt_after :: int
  mt_period :: int

definition Timing_full :: "TMessageTiming \<Rightarrow> int \<Rightarrow> int \<Rightarrow> MessageTiming" where
  "Timing_full t a p = \<lparr>mt_type = t, mt_after = a, mt_period = p\<rparr>"

definition Timing_period :: "int \<Rightarrow> int \<Rightarrow> MessageTiming" where
  "Timing_period a p = \<lparr>mt_type = kPeriod, mt_after = a, mt_period = p\<rparr>"

definition Timing_after :: "int \<Rightarrow> MessageTiming" where
  "Timing_after a = \<lparr>mt_type = kAfter, mt_after = a, mt_period = 0\<rparr>"

definition KDefTiming :: MessageTiming where
  "KDefTiming = \<lparr>mt_type = kImmediately, mt_after = 0, mt_period = 0\<rparr>"

section \<open>Wrappers, run loops, queues\<close>

record 'a MessageWrapper =
  mw_addr :: addr
  mw_postid :: MessagePost_t
  mw_message :: "'a Message"
  mw_timing :: MessageTiming
  mw_periodstatus :: TMessageTiming
  mw_record_time :: nat
  mw_wait_end_cond :: "addr option"

text \<open>A handler is the queue's own \<^verbatim>\<open>__AsyncInvokeHandler\<close> or a closure of the caller.\<close>

datatype 'h MessageHandler = AsyncInvokeHandler | UserHandler 'h

record 'h HandlerWrapper =
  hw_reg :: MessageHandler_t
  hw_handler :: "'h MessageHandler"
  hw_recvbroadcast :: bool

text \<open>\<open>rl_message\<close> is \<^verbatim>\<open>runing_message\<close>: the address of the wrapper whose message is running.\<close>

record RunLoopInfo =
  rl_cond :: addr
  rl_message_id :: MessagePost_t
  rl_message :: "addr option"
  rl_handler :: "MessageHandler_t list"

record ('a, 'h) MessageQueueContent =
  mc_invoke_reg :: MessageHandler_t
  mc_breakflag :: bool
  mc_breaker :: "addr option"
  mc_message :: "'a MessageWrapper list"
  mc_handler :: "'h HandlerWrapper list"
  mc_runloop :: "RunLoopInfo list"

definition MessageQueueContent_new :: "('a, 'h) MessageQueueContent" where
  "MessageQueueContent_new = \<lparr>mc_invoke_reg = KNullHandler, mc_breakflag = False, mc_breaker = None,
     mc_message = [], mc_handler = [], mc_runloop = []\<rparr>"

text \<open>
  The globals of message_queue.cc guarded by \<^verbatim>\<open>sg_messagequeue_map_mutex\<close>: the sequence counter \<^verbatim>\<open>s_seq\<close>
  of \<^verbatim>\<open>__MakeSeq\<close> and the map of queues; beside them the allocator (the next unused address) and the
  trace of condition variables notified so far.
\<close>

record ('a, 'h) mq_state =
  sg_seq :: "32 word"
  sg_map :: "MessageQueue_t \<rightharpoonup> ('a, 'h) MessageQueueContent"
  sg_fresh :: addr
  sg_signals :: "addr list"

definition mq_init :: "('a, 'h) mq_state" where
  "mq_init = \<lparr>sg_seq = 0, sg_map = Map.empty, sg_fresh = 0, sg_signals = []\<rparr>"

section \<open>Elementary steps\<close>

definition MakeSeq :: "('a, 'h) mq_state \<Rightarrow> 32 word \<times> ('a, 'h) mq_state" where
  "MakeSeq s = (sg_seq s + 1, s\<lparr>sg_seq := sg_seq s + 1\<rparr>)"

definition new_addr :: "('a, 'h) mq_state \<Rightarrow> addr \<times> ('a, 'h) mq_state" where
  "new_addr s = (sg_fresh s, s\<lparr>sg_fresh := Suc (sg_fresh s)\<rparr>)"

definition notify :: "addr \<Rightarrow> ('a, 'h) mq_state \<Rightarrow> ('a, 'h) mq_state" where
  "notify c s = s\<lparr>sg_signals := sg_signals s @ [c]\<rparr>"

text \<open>\<^verbatim>\<open>content.breaker->Notify(lock)\<close>: the breaker must not be a null pointer.\<close>

definition notify_breaker ::
  "('a, 'h) MessageQueueContent \<Rightarrow> ('a, 'h) mq_state \<Rightarrow> ('a, 'h) mq_state result" where
  "notify_breaker c s = (case mc_breaker c of None \<Rightarrow> Inl Null_Deref | Some k \<Rightarrow> Inr (notify k s))"

text \<open>The constructor of \<^verbatim>\<open>MessageWrapper\<close>; \<open>now\<close> is the value of \<^verbatim>\<open>gettickcount()\<close>.\<close>

definition MessageWrapper_new ::
  "nat \<Rightarrow> MessageHandler_t \<Rightarrow> 'a Message \<Rightarrow> MessageTiming \<Rightarrow> 32 word \<Rightarrow> addr \<Rightarrow> 'a MessageWrapper" where
  "MessageWrapper_new now hid m t sq a =
     \<lparr>mw_addr = a, mw_postid = \<lparr>mp_reg = hid, mp_seq = sq\<rparr>, mw_message = m, mw_timing = t,
      mw_periodstatus = (if kImmediately \<noteq> mt_type t then kAfter else kImmediately),
      mw_record_time = (if kImmediately \<noteq> mt_type t then now else 0),
      mw_wait_end_cond = None\<rparr>"

text \<open>The destructor wakes whoever waits for the message to end.\<close>

definition MessageWrapper_delete :: "'a MessageWrapper \<Rightarrow> ('a, 'h) mq_state \<Rightarrow> ('a, 'h) mq_state" where
  "MessageWrapper_delete w s = (case mw_wait_end_cond w of None \<Rightarrow> s | Some c \<Rightarrow> notify c s)"

definition HandlerWrapper_new ::
  "'h MessageHandler \<Rightarrow> bool \<Rightarrow> MessageQueue_t \<Rightarrow> 32 word \<Rightarrow> 'h HandlerWrapper" where
  "HandlerWrapper_new h recvbroadcast q sq =
     \<lparr>hw_reg = \<lparr>mh_queue = q, mh_seq = sq\<rparr>, hw_handler = h, hw_recvbroadcast = recvbroadcast\<rparr>"

definition RunLoopInfo_new :: "addr \<Rightarrow> RunLoopInfo" where
  "RunLoopInfo_new c = \<lparr>rl_cond = c, rl_message_id = KNullPost, rl_message = None, rl_handler = []\<rparr>"

text \<open>\<^verbatim>\<open>gettickspan\<close> of src/mars/comm/time_utils.c at the current tick \<open>now\<close>.\<close>

definition gettickspan :: "nat \<Rightarrow> nat \<Rightarrow> int" where
  "gettickspan now old_tick = (if old_tick > now then 0 else to_off (int now - int old_tick))"

end
