(* ===== verification/MQ_Api.thy ===== *)
theory MQ_Api
  imports MQ_Types
begin

text \<open>
  The operations of the message queue (src/mars/comm/messagequeue/message_queue.cc), each one critical section
  under \<^verbatim>\<open>sg_messagequeue_map_mutex\<close>: a function from the global state to its result and the next
  state. \<open>now\<close> is the reading of \<^verbatim>\<open>gettickcount()\<close> in the section, \<open>tid\<close> the calling thread. An operation
  that blocks on a condition variable returns the condition it blocks on.
\<close>

definition set_content ::
  "MessageQueue_t \<Rightarrow> ('a, 'h) MessageQueueContent \<Rightarrow> ('a, 'h) mq_state \<Rightarrow> ('a, 'h) mq_state" where
  "set_content q c s = s\<lparr>sg_map := (sg_map s)(q \<mapsto> c)\<rparr>"

section \<open>Looking queues up\<close>

definition CurrentThreadMessageQueue :: "MessageQueue_t \<Rightarrow> ('a, 'h) mq_state \<Rightarrow> MessageQueue_t" where
  "CurrentThreadMessageQueue tid s = (if sg_map s tid = None then KInvalidQueueID else tid)"

definition TID2MessageQueue :: "MessageQueue_t \<Rightarrow> ('a, 'h) mq_state \<Rightarrow> MessageQueue_t" where
  "TID2MessageQueue tid s = (if sg_map s tid = None then KInvalidQueueID else tid)"

definition MessageQueue2TID :: "MessageQueue_t \<Rightarrow> ('a, 'h) mq_state \<Rightarrow> 64 word" where
  "MessageQueue2TID q s = (if sg_map s q = None then 0 else q)"

definition DefAsyncInvokeHandler :: "MessageQueue_t \<Rightarrow> ('a, 'h) mq_state \<Rightarrow> MessageHandler_t" where
  "DefAsyncInvokeHandler q s =
     (case sg_map s q of None \<Rightarrow> KNullHandler | Some c \<Rightarrow> mc_invoke_reg c)"

definition CurrentCond :: "MessageQueue_t \<Rightarrow> ('a, 'h) mq_state \<Rightarrow> addr option" where
  "CurrentCond tid s = (case sg_map s tid of None \<Rightarrow> None | Some c \<Rightarrow> mc_breaker c)"

section \<open>Waiting for a running message\<close>

datatype wait_outcome = Returns | Blocks_On addr

definition WaitForRunningLockEnd_post ::
  "MessageQueue_t \<Rightarrow> MessagePost_t \<Rightarrow> ('a, 'h) mq_state \<Rightarrow> wait_outcome" where
  "WaitForRunningLockEnd_post tid p s =
     (let q = Handler2Queue (Post2Handler p) in
      if q = CurrentThreadMessageQueue tid s then Returns
      else case sg_map s q of None \<Rightarrow> Returns
      | Some c \<Rightarrow>
          if mc_runloop c = [] then Returns
          else case find (\<lambda>v. p = rl_message_id v) (mc_runloop c) of
                 None \<Rightarrow> Returns | Some v \<Rightarrow> Blocks_On (rl_cond v))"

definition WaitForRunningLockEnd_queue ::
  "MessageQueue_t \<Rightarrow> MessageQueue_t \<Rightarrow> ('a, 'h) mq_state \<Rightarrow> wait_outcome" where
  "WaitForRunningLockEnd_queue tid q s =
     (if q = CurrentThreadMessageQueue tid s then Returns
      else case sg_map s q of None \<Rightarrow> Returns
      | Some c \<Rightarrow>
          (case mc_runloop c of [] \<Rightarrow> Returns
           | v # _ \<Rightarrow> if KNullPost = rl_message_id v then Returns else Blocks_On (rl_cond v)))"

definition WaitForRunningLockEnd_handler ::
  "MessageQueue_t \<Rightarrow> MessageHandler_t \<Rightarrow> ('a, 'h) mq_state \<Rightarrow> wait_outcome" where
  "WaitForRunningLockEnd_handler tid h s =
     (let q = Handler2Queue h in
      if q = CurrentThreadMessageQueue tid s then Returns
      else case sg_map s q of None \<Rightarrow> Returns
      | Some c \<Rightarrow>
          (case find (\<lambda>v. h \<in> set (rl_handler v)) (mc_runloop c) of
             None \<Rightarrow> Returns | Some v \<Rightarrow> Blocks_On (rl_cond v)))"

section \<open>Breaking a loop, installing handlers\<close>

definition BreakMessageQueueRunloop ::
  "MessageQueue_t \<Rightarrow> ('a, 'h) mq_state \<Rightarrow> ('a, 'h) mq_state result" where
  "BreakMessageQueueRunloop q s =
     (case sg_map s q of None \<Rightarrow> Inr s
      | Some c \<Rightarrow> let c' = c\<lparr>mc_breakflag := True\<rparr> in notify_breaker c' (set_content q c' s))"

definition InstallMessageHandler ::
  "'h MessageHandler \<Rightarrow> bool \<Rightarrow> MessageQueue_t \<Rightarrow> ('a, 'h) mq_state \<Rightarrow> MessageHandler_t \<times> ('a, 'h) mq_state" where
  "InstallMessageHandler h recvbroadcast q s =
     (case sg_map s q of None \<Rightarrow> (KNullHandler, s)
      | Some c \<Rightarrow>
          let (sq, s1) = MakeSeq s; w = HandlerWrapper_new h recvbroadcast q sq
          in (hw_reg w, set_content q (c\<lparr>mc_handler := mc_handler c @ [w]\<rparr>) s1))"

definition UnInstallMessageHandler ::
  "MessageHandler_t \<Rightarrow> ('a, 'h) mq_state \<Rightarrow> ('a, 'h) mq_state" where
  "UnInstallMessageHandler hid s =
     (if 0 = mh_queue hid \<or> 0 = mh_seq hid then s
      else case sg_map s (mh_queue hid) of None \<Rightarrow> s
      | Some c \<Rightarrow>
          (case List.extract (\<lambda>w. hid = hw_reg w) (mc_handler c) of
             None \<Rightarrow> s
           | Some (us, _, vs) \<Rightarrow> set_content (mh_queue hid) (c\<lparr>mc_handler := us @ vs\<rparr>) s))"

definition InstallAsyncHandler ::
  "MessageQueue_t \<Rightarrow> ('a, 'h) mq_state \<Rightarrow> MessageHandler_t \<times> ('a, 'h) mq_state" where
  "InstallAsyncHandler q s = InstallMessageHandler AsyncInvokeHandler False q s"

section \<open>Posting\<close>

text \<open>\<^verbatim>\<open>content.lst_message.push_back(...); content.breaker->Notify(lock); return ...->postid\<close>\<close>

definition push_message ::
  "MessageQueue_t \<Rightarrow> ('a, 'h) MessageQueueContent \<Rightarrow> 'a MessageWrapper \<Rightarrow> ('a, 'h) mq_state
    \<Rightarrow> (MessagePost_t \<times> ('a, 'h) mq_state) result" where
  "push_message q c w s =
     (let c' = c\<lparr>mc_message := mc_message c @ [w]\<rparr>
      in rbind (notify_breaker c' (set_content q c' s)) (\<lambda>s'. Inr (mw_postid w, s')))"

definition PostMessage ::
  "nat \<Rightarrow> MessageHandler_t \<Rightarrow> 'a Message \<Rightarrow> MessageTiming \<Rightarrow> ('a, 'h) mq_state
    \<Rightarrow> (MessagePost_t \<times> ('a, 'h) mq_state) result" where
  "PostMessage now hid m t s =
     (case sg_map s (mh_queue hid) of None \<Rightarrow> Inr (KNullPost, s)
      | Some c \<Rightarrow>
          let (sq, s1) = MakeSeq s; (a, s2) = new_addr s1
          in push_message (mh_queue hid) c (MessageWrapper_new now hid m t sq a) s2)"

definition SingletonMessage ::
  "bool \<Rightarrow> nat \<Rightarrow> MessageHandler_t \<Rightarrow> 'a Message \<Rightarrow> MessageTiming \<Rightarrow> ('a, 'h) mq_state
    \<Rightarrow> (MessagePost_t \<times> ('a, 'h) mq_state) result" where
  "SingletonMessage replace now hid m t s =
     (case sg_map s (mh_queue hid) of None \<Rightarrow> Inr (KNullPost, s)
      | Some c \<Rightarrow>
          (case List.extract (\<lambda>w. mp_reg (mw_postid w) = hid \<and> Message_eq (mw_message w) m) (mc_message c) of
             Some (us, w, vs) \<Rightarrow>
               if replace then
                 let c' = c\<lparr>mc_message := us @ vs\<rparr>;
                     s1 = MessageWrapper_delete w s;
                     (sq, s2) = (if 0 \<noteq> mp_seq (mw_postid w) then (mp_seq (mw_postid w), s1) else MakeSeq s1);
                     (a, s3) = new_addr s2
                 in push_message (mh_queue hid) c' (MessageWrapper_new now hid m t sq a) s3
               else Inr (mw_postid w, s)
           | None \<Rightarrow>
               let (sq, s1) = MakeSeq s; (a, s2) = new_addr s1
               in push_message (mh_queue hid) c (MessageWrapper_new now hid m t sq a) s2))"

definition BroadcastMessage ::
  "nat \<Rightarrow> MessageQueue_t \<Rightarrow> 'a Message \<Rightarrow> MessageTiming \<Rightarrow> ('a, 'h) mq_state
    \<Rightarrow> (MessagePost_t \<times> ('a, 'h) mq_state) result" where
  "BroadcastMessage now q m t s =
     (case sg_map s q of None \<Rightarrow> Inr (KNullPost, s)
      | Some c \<Rightarrow>
          let reg = \<lparr>mh_queue = q, mh_seq = 0\<rparr>;
              (sq, s1) = MakeSeq s; (a, s2) = new_addr s1
          in push_message q c (MessageWrapper_new now reg m t sq a) s2)"

definition ComputerWaitTime :: "nat \<Rightarrow> 'a MessageWrapper \<Rightarrow> int" where
  "ComputerWaitTime now w =
     (let wait_time =
        (case mt_type (mw_timing w) of
           kImmediately \<Rightarrow> 0
         | kAfter \<Rightarrow> to_off (mt_after (mw_timing w) - gettickspan now (mw_record_time w))
         | kPeriod \<Rightarrow>
             (case mw_periodstatus w of
                kAfter \<Rightarrow> to_off (mt_after (mw_timing w) - gettickspan now (mw_record_time w))
              | kPeriod \<Rightarrow> to_off (mt_period (mw_timing w) - gettickspan now (mw_record_time w))
              | kImmediately \<Rightarrow> 0))
      in if 0 < wait_time then wait_time else 0)"

definition FasterMessage ::
  "nat \<Rightarrow> MessageHandler_t \<Rightarrow> 'a Message \<Rightarrow> MessageTiming \<Rightarrow> ('a, 'h) mq_state
    \<Rightarrow> (MessagePost_t \<times> ('a, 'h) mq_state) result" where
  "FasterMessage now hid m t s =
     (case sg_map s (mh_queue hid) of None \<Rightarrow> Inr (KNullPost, s)
      | Some c \<Rightarrow>
          let (sq, s1) = MakeSeq s; (a, s2) = new_addr s1; nw = MessageWrapper_new now hid m t sq a
          in (case List.extract (\<lambda>w. mp_reg (mw_postid w) = hid \<and> Message_eq (mw_message w) m) (mc_message c) of
                Some (us, w, vs) \<Rightarrow>
                  if ComputerWaitTime now w < ComputerWaitTime now nw
                  then Inr (mw_postid w, MessageWrapper_delete nw s2)
                  else push_message (mh_queue hid) (c\<lparr>mc_message := us @ vs\<rparr>)
                         (nw\<lparr>mw_postid := mw_postid w\<rparr>) (MessageWrapper_delete w s2)
              | None \<Rightarrow> push_message (mh_queue hid) c nw s2))"

text \<open>The wrappers around \<^verbatim>\<open>PostMessage\<close> that invoke a function (message_queue.h).\<close>

definition AsyncInvoke ::
  "nat \<Rightarrow> 'a \<Rightarrow> MessageTitle_t \<Rightarrow> MessageHandler_t \<Rightarrow> ('a, 'h) mq_state
    \<Rightarrow> (MessagePost_t \<times> ('a, 'h) mq_state) result" where
  "AsyncInvoke now f title hid s = PostMessage now hid (Message_func title f) KDefTiming s"

definition AsyncInvokeAfter ::
  "nat \<Rightarrow> int \<Rightarrow> 'a \<Rightarrow> MessageTitle_t \<Rightarrow> MessageHandler_t \<Rightarrow> ('a, 'h) mq_state
    \<Rightarrow> (MessagePost_t \<times> ('a, 'h) mq_state) result" where
  "AsyncInvokeAfter now after f title hid s =
     PostMessage now hid (Message_func title f) (Timing_full kAfter after 0) s"

definition AsyncInvokePeriod ::
  "nat \<Rightarrow> int \<Rightarrow> int \<Rightarrow> 'a \<Rightarrow> MessageTitle_t \<Rightarrow> MessageHandler_t \<Rightarrow> ('a, 'h) mq_state
    \<Rightarrow> (MessagePost_t \<times> ('a, 'h) mq_state) result" where
  "AsyncInvokePeriod now after period f title hid s =
     PostMessage now hid (Message_func title f) (Timing_full kPeriod after period) s"

section \<open>Finding and cancelling\<close>

definition FoundMessage :: "MessagePost_t \<Rightarrow> ('a, 'h) mq_state \<Rightarrow> bool" where
  "FoundMessage p s =
     (case sg_map s (Handler2Queue (Post2Handler p)) of None \<Rightarrow> False
      | Some c \<Rightarrow>
          if mc_runloop c = [] then False
          else find (\<lambda>v. p = rl_message_id v) (mc_runloop c) \<noteq> None
             \<or> (\<exists>w \<in> set (mc_message c). p = mw_postid w))"

definition CancelMessage_post ::
  "MessagePost_t \<Rightarrow> ('a, 'h) mq_state \<Rightarrow> bool \<times> ('a, 'h) mq_state" where
  "CancelMessage_post p s =
     (if 0 = mh_queue (mp_reg p) \<or> 0 = mp_seq p then (False, s)
      else case sg_map s (mh_queue (mp_reg p)) of None \<Rightarrow> (False, s)
      | Some c \<Rightarrow>
          (case List.extract (\<lambda>w. p = mw_postid w) (mc_message c) of
             None \<Rightarrow> (False, s)
           | Some (us, w, vs) \<Rightarrow>
               (True, set_content (mh_queue (mp_reg p)) (c\<lparr>mc_message := us @ vs\<rparr>)
                        (MessageWrapper_delete w s))))"

text \<open>The loop that deletes and erases every matching wrapper.\<close>

definition erase_all ::
  "('a MessageWrapper \<Rightarrow> bool) \<Rightarrow> MessageQueue_t \<Rightarrow> ('a, 'h) MessageQueueContent \<Rightarrow> ('a, 'h) mq_state
    \<Rightarrow> ('a, 'h) mq_state" where
  "erase_all P q c s =
     set_content q (c\<lparr>mc_message := filter (\<lambda>w. \<not> P w) (mc_message c)\<rparr>)
       (fold MessageWrapper_delete (filter P (mc_message c)) s)"

definition CancelMessage_handler :: "MessageHandler_t \<Rightarrow> ('a, 'h) mq_state \<Rightarrow> ('a, 'h) mq_state" where
  "CancelMessage_handler hid s =
     (if 0 = mh_queue hid then s
      else case sg_map s (mh_queue hid) of None \<Rightarrow> s
      | Some c \<Rightarrow> erase_all (\<lambda>w. hid = mp_reg (mw_postid w)) (mh_queue hid) c s)"

definition CancelMessage_title ::
  "MessageHandler_t \<Rightarrow> MessageTitle_t \<Rightarrow> ('a, 'h) mq_state \<Rightarrow> ('a, 'h) mq_state" where
  "CancelMessage_title hid title s =
     (if 0 = mh_queue hid then s
      else case sg_map s (mh_queue hid) of None \<Rightarrow> s
      | Some c \<Rightarrow> erase_all (\<lambda>w. hid = mp_reg (mw_postid w) \<and> title = msg_title (mw_message w))
                    (mh_queue hid) c s)"

section \<open>Waiting for a message\<close>

text \<open>
  \<^verbatim>\<open>WaitMessage\<close> returns, blocks on a condition variable (and returns true once notified), or, on the
  queue's own thread, runs a nested loop until the message is no longer pending.
\<close>

datatype wait_result = WR_Return bool | WR_Block addr | WR_RunLoop

definition WaitMessage ::
  "MessageQueue_t \<Rightarrow> MessagePost_t \<Rightarrow> ('a, 'h) mq_state \<Rightarrow> wait_result \<times> ('a, 'h) mq_state" where
  "WaitMessage tid p s =
     (let q = Handler2Queue (Post2Handler p); is_in_mq = (q = CurrentThreadMessageQueue tid s) in
      case sg_map s q of None \<Rightarrow> (WR_Return False, s)
      | Some c \<Rightarrow>
          (case List.extract (\<lambda>w. p = mw_postid w) (mc_message c) of
             None \<Rightarrow>
               (case find (\<lambda>v. p = rl_message_id v) (mc_runloop c) of
                  None \<Rightarrow> (WR_Return True, s)
                | Some v \<Rightarrow> if is_in_mq then (WR_Return False, s) else (WR_Block (rl_cond v), s))
           | Some (us, w, vs) \<Rightarrow>
               if is_in_mq then (WR_RunLoop, s)
               else (case mw_wait_end_cond w of
                       Some k \<Rightarrow> (WR_Block k, s)
                     | None \<Rightarrow>
                         let (k, s1) = new_addr s
                         in (WR_Block k,
                             set_content q (c\<lparr>mc_message := us @ w\<lparr>mw_wait_end_cond := Some k\<rparr> # vs\<rparr>) s1))))"

definition WaitMessage_done :: "MessagePost_t \<Rightarrow> ('a, 'h) mq_state \<Rightarrow> bool" where
  "WaitMessage_done p s =
     (case sg_map s (Handler2Queue (Post2Handler p)) of None \<Rightarrow> True
      | Some c \<Rightarrow> find (\<lambda>w. p = mw_postid w) (mc_message c) = None)"

section \<open>What is running\<close>

text \<open>
  \<^verbatim>\<open>lst_runloop_info.back()\<close> on an empty list is undefined behaviour. \<^verbatim>\<open>RunningMessage\<close> returns a reference:
  the address of the wrapper, \<open>None\<close> for \<^verbatim>\<open>KNullMessage\<close>.
\<close>

definition RunningMessage :: "MessageQueue_t \<Rightarrow> ('a, 'h) mq_state \<Rightarrow> addr option result" where
  "RunningMessage tid s =
     (case sg_map s tid of None \<Rightarrow> Inr None
      | Some c \<Rightarrow> if mc_runloop c = [] then Inl Empty_Container else Inr (rl_message (last (mc_runloop c))))"

definition RunningMessageID :: "MessageQueue_t \<Rightarrow> ('a, 'h) mq_state \<Rightarrow> MessagePost_t result" where
  "RunningMessageID q s =
     (case sg_map s q of None \<Rightarrow> Inr KNullPost
      | Some c \<Rightarrow> if mc_runloop c = [] then Inl Empty_Container else Inr (rl_message_id (last (mc_runloop c))))"

section \<open>Creating and releasing queues\<close>

definition CreateMessageQueueInfo ::
  "addr option \<Rightarrow> MessageQueue_t \<Rightarrow> ('a, 'h) mq_state \<Rightarrow> MessageQueue_t \<times> ('a, 'h) mq_state" where
  "CreateMessageQueueInfo breaker tid s =
     (case sg_map s tid of Some _ \<Rightarrow> (tid, s)
      | None \<Rightarrow>
          let (sq, s1) = MakeSeq s;
              h = HandlerWrapper_new AsyncInvokeHandler False tid sq;
              (b, s2) = (case breaker of Some k \<Rightarrow> (k, s1) | None \<Rightarrow> new_addr s1)
          in (tid, set_content tid
                (MessageQueueContent_new\<lparr>mc_handler := [h], mc_invoke_reg := hw_reg h, mc_breaker := Some b\<rparr>) s2))"

definition ReleaseMessageQueueInfo :: "MessageQueue_t \<Rightarrow> ('a, 'h) mq_state \<Rightarrow> ('a, 'h) mq_state" where
  "ReleaseMessageQueueInfo tid s =
     (case sg_map s tid of None \<Rightarrow> s
      | Some c \<Rightarrow> (fold MessageWrapper_delete (mc_message c) s)\<lparr>sg_map := (sg_map s)(tid := None)\<rparr>)"

section \<open>ScopeRegister\<close>

definition ScopeRegister_Cancel :: "MessageHandler_t \<Rightarrow> ('a, 'h) mq_state \<Rightarrow> ('a, 'h) mq_state" where
  "ScopeRegister_Cancel reg s = CancelMessage_handler reg (UnInstallMessageHandler reg s)"

definition ScopeRegister_CancelAndWait ::
  "MessageQueue_t \<Rightarrow> MessageHandler_t \<Rightarrow> ('a, 'h) mq_state \<Rightarrow> wait_outcome \<times> ('a, 'h) mq_state" where
  "ScopeRegister_CancelAndWait tid reg s =
     (let s' = ScopeRegister_Cancel reg s in (WaitForRunningLockEnd_handler tid reg s', s'))"

end
