(* ===== verification/MQ_RunLoop.thy ===== *)
theory MQ_RunLoop
  imports MQ_Api
begin

text \<open>
  \<^verbatim>\<open>RunLoop::Run\<close> (src/mars/comm/messagequeue/message_queue.cc) as the steps between which it releases the
  mutex: entering the loop, one locked pass over the queue (\<open>Run_iter\<close>), the invocation of one handler,
  the end of a dispatch. The control state says where the loop stands. A one-shot message is taken out
  of the queue and owned by the loop until its end; a periodic one stays in the queue and the loop
  holds a pointer to it while the handlers run unlocked. A pass reads the clock once where the code reads
  it anew for every message.

  The lemmas give the scheduling contract of a pass: which message is taken, what is left in the
  queue, and how long the loop may sleep when nothing is due.
\<close>

section \<open>Choosing a message\<close>

datatype 'a msg_ref = Owned "'a MessageWrapper" | Shared addr

text \<open>
  The loop over \<^verbatim>\<open>lst_message\<close>: the message taken with its wrapper, the list afterwards, and the time
  to wait accumulated over the messages passed by.
\<close>

fun pick :: "nat \<Rightarrow> int \<Rightarrow> 'a MessageWrapper list
    \<Rightarrow> ('a msg_ref \<times> 'a MessageWrapper) option \<times> 'a MessageWrapper list \<times> int" where
  "pick now wait_time [] = (None, [], wait_time)"
| "pick now wait_time (w # ws) =
     (let go_on = (\<lambda>wt. let (r, ws', wt') = pick now wt ws in (r, w # ws', wt'));
          time_cost = gettickspan now (mw_record_time w)
      in case mt_type (mw_timing w) of
           kImmediately \<Rightarrow> (Some (Owned w, w), ws, wait_time)
         | kAfter \<Rightarrow>
             if mt_after (mw_timing w) \<le> time_cost then (Some (Owned w, w), ws, wait_time)
             else go_on (min wait_time (to_off (mt_after (mw_timing w) - time_cost)))
         | kPeriod \<Rightarrow>
             (case mw_periodstatus w of
                kAfter \<Rightarrow>
                  if mt_after (mw_timing w) \<le> time_cost then
                    let w' = w\<lparr>mw_record_time := now, mw_periodstatus := kPeriod\<rparr>
                    in (Some (Shared (mw_addr w), w'), w' # ws, wait_time)
                  else go_on (min wait_time (to_off (mt_after (mw_timing w) - time_cost)))
              | kPeriod \<Rightarrow>
                  if mt_period (mw_timing w) \<le> time_cost then
                    let w' = w\<lparr>mw_record_time := now\<rparr>
                    in (Some (Shared (mw_addr w), w'), w' # ws, wait_time)
                  else go_on (min wait_time (to_off (mt_period (mw_timing w) - time_cost)))
              | kImmediately \<Rightarrow> go_on wait_time))"

definition fits_handler :: "MessagePost_t \<Rightarrow> 'h HandlerWrapper \<Rightarrow> bool" where
  "fits_handler p h \<longleftrightarrow> mp_reg p = hw_reg h \<or> (hw_recvbroadcast h \<and> isbroadcast (mp_reg p))"

section \<open>The loop\<close>

datatype ('a, 'h) rl_pc =
    RL_Top
  | RL_Wait int
  | RL_Dispatch "'a msg_ref" MessagePost_t "'h HandlerWrapper list"
  | RL_Done

text \<open>\<^verbatim>\<open>sg_messagequeue_map[id]\<close>: the entry, default-constructed when absent.\<close>

definition content_at :: "MessageQueue_t \<Rightarrow> ('a, 'h) mq_state \<Rightarrow> ('a, 'h) MessageQueueContent" where
  "content_at q s = (case sg_map s q of None \<Rightarrow> MessageQueueContent_new | Some c \<Rightarrow> c)"

definition Run_enter :: "MessageQueue_t \<Rightarrow> ('a, 'h) mq_state \<Rightarrow> MessageQueue_t \<times> ('a, 'h) mq_state" where
  "Run_enter tid s =
     (let q = CurrentThreadMessageQueue tid s; c = content_at q s; (k, s1) = new_addr s
      in (q, set_content q (c\<lparr>mc_runloop := mc_runloop c @ [RunLoopInfo_new k]\<rparr>) s1))"

text \<open>The start of a pass: the loop's record is cleared and whoever waits for the message to end is woken.\<close>

definition Run_clear :: "MessageQueue_t \<Rightarrow> ('a, 'h) mq_state \<Rightarrow> ('a, 'h) mq_state result" where
  "Run_clear q s =
     (let c = content_at q s in
      if mc_runloop c = [] then Inl Empty_Container
      else
        let rl = last (mc_runloop c)
        in Inr (notify (rl_cond rl)
             (set_content q (c\<lparr>mc_runloop := butlast (mc_runloop c)
                @ [rl\<lparr>rl_message_id := KNullPost, rl_message := None, rl_handler := []\<rparr>]\<rparr>) s)))"

text \<open>The exit of the loop: its record is popped, and the queue released with the outermost loop.\<close>

definition Run_exit ::
  "MessageQueue_t \<Rightarrow> MessageQueue_t \<Rightarrow> ('a, 'h) MessageQueueContent \<Rightarrow> ('a, 'h) mq_state
    \<Rightarrow> ('a, 'h) mq_state" where
  "Run_exit tid q c s =
     (let c' = c\<lparr>mc_runloop := butlast (mc_runloop c)\<rparr>; s' = set_content q c' s
      in if mc_runloop c' = [] then ReleaseMessageQueueInfo tid s' else s')"

text \<open>Taking a message: the handlers it fits are copied and the loop's record says what is running.\<close>

definition Run_take ::
  "MessageQueue_t \<Rightarrow> ('a, 'h) MessageQueueContent \<Rightarrow> 'a msg_ref \<Rightarrow> 'a MessageWrapper
    \<Rightarrow> 'a MessageWrapper list \<Rightarrow> ('a, 'h) mq_state \<Rightarrow> ('a, 'h) rl_pc \<times> ('a, 'h) mq_state" where
  "Run_take q c r w ws s =
     (let fit = filter (fits_handler (mw_postid w)) (mc_handler c);
          rl = last (mc_runloop c);
          rl' = rl\<lparr>rl_message_id := mw_postid w, rl_message := Some (mw_addr w),
                   rl_handler := rl_handler rl @ map hw_reg fit\<rparr>
      in (RL_Dispatch r (mw_postid w) fit,
          set_content q (c\<lparr>mc_message := ws, mc_runloop := butlast (mc_runloop c) @ [rl']\<rparr>) s))"

text \<open>
  One locked pass. \<open>duty\<close> and \<open>brk\<close> are the optional functions the loop was constructed with; the
  first may change the state, the second only reads it.
\<close>

definition Run_iter ::
  "(('a, 'h) mq_state \<Rightarrow> ('a, 'h) mq_state) option \<Rightarrow> (('a, 'h) mq_state \<Rightarrow> bool) option
    \<Rightarrow> MessageQueue_t \<Rightarrow> MessageQueue_t \<Rightarrow> nat \<Rightarrow> ('a, 'h) mq_state
    \<Rightarrow> (('a, 'h) rl_pc \<times> ('a, 'h) mq_state) result" where
  "Run_iter duty brk tid q now s =
     rbind (Run_clear q s) (\<lambda>s1.
       let s2 = (case duty of None \<Rightarrow> s1 | Some f \<Rightarrow> f s1) in
       case sg_map s2 q of None \<Rightarrow> Inl Use_After_Free
       | Some c \<Rightarrow>
           if mc_runloop c = [] then Inl Empty_Container
           else if mc_breakflag c \<or> (case brk of None \<Rightarrow> False | Some f \<Rightarrow> f s2)
           then Inr (RL_Done, Run_exit tid q c s2)
           else (case pick now (10 * 60 * 1000) (mc_message c) of
                   (Some (r, w), ws, _) \<Rightarrow> Inr (Run_take q c r w ws s2)
                 | (None, _, wait_time) \<Rightarrow>
                     if mc_breaker c = None then Inl Null_Deref else Inr (RL_Wait wait_time, s2)))"

text \<open>A handler call: the handler, the post id and the message it is given.\<close>

type_synonym ('a, 'h) hcall = "'h MessageHandler \<times> MessagePost_t \<times> 'a Message"

text \<open>
  The next handler of a dispatch. \<open>eff\<close> is what a handler does to the message it gets by reference.
  For a periodic message the loop's pointer is followed: the wrapper must still be in the queue.
\<close>

fun Run_invoke ::
  "('h MessageHandler \<Rightarrow> MessagePost_t \<Rightarrow> 'a Message \<Rightarrow> 'a Message) \<Rightarrow> MessageQueue_t
    \<Rightarrow> ('a, 'h) rl_pc \<Rightarrow> ('a, 'h) mq_state
    \<Rightarrow> (('a, 'h) hcall \<times> ('a, 'h) rl_pc \<times> ('a, 'h) mq_state) result option" where
  "Run_invoke eff q (RL_Dispatch (Owned w) p (h # hs)) s =
     Some (Inr ((hw_handler h, mw_postid w, mw_message w),
       RL_Dispatch (Owned (w\<lparr>mw_message := eff (hw_handler h) (mw_postid w) (mw_message w)\<rparr>)) p hs, s))"
| "Run_invoke eff q (RL_Dispatch (Shared a) p (h # hs)) s =
     Some (let c = content_at q s in
       case List.extract (\<lambda>w. mw_addr w = a) (mc_message c) of
         None \<Rightarrow> Inl Use_After_Free
       | Some (us, w, vs) \<Rightarrow>
           let w' = w\<lparr>mw_message := eff (hw_handler h) (mw_postid w) (mw_message w)\<rparr>
           in Inr ((hw_handler h, mw_postid w, mw_message w), RL_Dispatch (Shared a) p hs,
                   set_content q (c\<lparr>mc_message := us @ w' # vs\<rparr>) s))"
| "Run_invoke eff q _ s = None"

text \<open>After the last handler: \<^verbatim>\<open>if (delmessage) delete messagewrapper\<close>.\<close>

fun Run_finish :: "('a, 'h) rl_pc \<Rightarrow> ('a, 'h) mq_state \<Rightarrow> (('a, 'h) rl_pc \<times> ('a, 'h) mq_state) option" where
  "Run_finish (RL_Dispatch (Owned w) p []) s = Some (RL_Top, MessageWrapper_delete w s)"
| "Run_finish (RL_Dispatch (Shared a) p []) s = Some (RL_Top, s)"
| "Run_finish _ s = None"

section \<open>When a message is due\<close>

text \<open>The statuses the constructor and the loop give a wrapper.\<close>

definition well_timed :: "'a MessageWrapper \<Rightarrow> bool" where
  "well_timed w \<longleftrightarrow>
     (mt_type (mw_timing w) = kPeriod \<longrightarrow> mw_periodstatus w = kAfter \<or> mw_periodstatus w = kPeriod)"

text \<open>The delay that applies to the wrapper now, and whether it has passed.\<close>

definition delay :: "'a MessageWrapper \<Rightarrow> int" where
  "delay w = (if mt_type (mw_timing w) = kPeriod \<and> mw_periodstatus w = kPeriod
              then mt_period (mw_timing w) else mt_after (mw_timing w))"

definition due :: "nat \<Rightarrow> 'a MessageWrapper \<Rightarrow> bool" where
  "due now w \<longleftrightarrow> mt_type (mw_timing w) = kImmediately \<or> delay w \<le> gettickspan now (mw_record_time w)"

definition remaining :: "nat \<Rightarrow> 'a MessageWrapper \<Rightarrow> int" where
  "remaining now w = to_off (delay w - gettickspan now (mw_record_time w))"

definition one_shot :: "'a MessageWrapper \<Rightarrow> bool" where
  "one_shot w \<longleftrightarrow> mt_type (mw_timing w) \<noteq> kPeriod"

text \<open>A periodic wrapper after it has been chosen: its period starts now.\<close>

definition rearm :: "nat \<Rightarrow> 'a MessageWrapper \<Rightarrow> 'a MessageWrapper" where
  "rearm now w = w\<lparr>mw_record_time := now, mw_periodstatus := kPeriod\<rparr>"

lemma rearm_simps [simp]:
  "mw_addr (rearm now w) = mw_addr w" "mw_postid (rearm now w) = mw_postid w"
  "mw_message (rearm now w) = mw_message w" "mw_timing (rearm now w) = mw_timing w"
  "mw_wait_end_cond (rearm now w) = mw_wait_end_cond w"
  "mw_periodstatus (rearm now w) = kPeriod" "mw_record_time (rearm now w) = now"
  by (simp_all add: rearm_def)

lemma rearm_period: "mw_periodstatus w = kPeriod \<Longrightarrow> w\<lparr>mw_record_time := now\<rparr> = rearm now w"
  by (cases w) (simp add: rearm_def)

lemma pick_Cons_not_due:
  assumes "well_timed w" "\<not> due now w"
  shows "pick now wt (w # ws) =
    (let (r, ws', wt') = pick now (min wt (remaining now w)) ws in (r, w # ws', wt'))"
  using assms
  by (auto simp: due_def well_timed_def remaining_def delay_def Let_def split: TMessageTiming.splits)

lemma pick_Cons_due:
  assumes "well_timed w" "due now w"
  shows "pick now wt (w # ws) =
    (if one_shot w then (Some (Owned w, w), ws, wt)
     else (Some (Shared (mw_addr w), rearm now w), rearm now w # ws, wt))"
  using assms rearm_period [of w now]
  by (cases "mt_type (mw_timing w)"; cases "mw_periodstatus w")
    (simp_all add: due_def well_timed_def one_shot_def delay_def Let_def flip: rearm_def)

declare pick.simps(2) [simp del]

lemma pick_none_due:
  assumes "\<forall>w \<in> set ws. well_timed w \<and> \<not> due now w"
  shows "pick now wt ws = (None, ws, Min (insert wt (remaining now ` set ws)))"
  using assms
proof (induction ws arbitrary: wt)
  case Nil
  then show ?case by simp
next
  case (Cons w ws)
  have "Min (insert (min wt (remaining now w)) (remaining now ` set ws))
      = Min (insert wt (insert (remaining now w) (remaining now ` set ws)))"
    by (cases "ws = []") (simp_all add: Min_insert min.assoc)
  with Cons show ?case by (simp add: pick_Cons_not_due)
qed

lemma pick_first_due:
  assumes "\<forall>u \<in> set us. well_timed u \<and> \<not> due now u" "well_timed w" "due now w"
  shows "\<exists>wt'. pick now wt (us @ w # vs) =
    (if one_shot w then (Some (Owned w, w), us @ vs, wt')
     else (Some (Shared (mw_addr w), rearm now w), us @ rearm now w # vs, wt'))"
  using assms
proof (induction us arbitrary: wt)
  case Nil
  then show ?case using pick_Cons_due [of w now wt vs] by auto
next
  case (Cons u us)
  then obtain wt' where "pick now (min wt (remaining now u)) (us @ w # vs) =
      (if one_shot w then (Some (Owned w, w), us @ vs, wt')
       else (Some (Shared (mw_addr w), rearm now w), us @ rearm now w # vs, wt'))"
    by fastforce
  with Cons.prems show ?case by (simp add: pick_Cons_not_due)
qed

text \<open>A queue either has a first due message or none that is due.\<close>

lemma due_cases:
  obtains (none) "\<forall>w \<in> set ws. \<not> due now w"
  | (first) us w vs where "ws = us @ w # vs" "\<forall>u \<in> set us. \<not> due now u" "due now w"
  using split_list_first_prop [of ws "due now"] by metis

end
