(* ===== verification/MQ_Laws.thy ===== *)
theory MQ_Laws
  imports MQ_RunLoop
begin

text \<open>
  The contract of the queue operations. The invariant \<open>mq_inv\<close> says that a queue only holds messages
  and handlers addressed to it, that its breaker is not null, that wrappers have distinct addresses and
  that their period status is one the loop knows. \<open>waited i k s\<close> says that some thread waits on
  condition \<open>k\<close> for a pending message. The locale \<open>mq_op\<close> is the contract every operation satisfies:
  it does not fault, keeps the invariant, and never drops a waiter without waking it. It is
  interpreted for every operation of \<open>MQ_Api\<close>.
\<close>

section \<open>Projections\<close>

lemma set_content_proj [simp]:
  "sg_map (set_content q c s) = (sg_map s)(q \<mapsto> c)" "sg_fresh (set_content q c s) = sg_fresh s"
  "sg_signals (set_content q c s) = sg_signals s" "sg_seq (set_content q c s) = sg_seq s"
  by (simp_all add: set_content_def)

lemma notify_proj [simp]:
  "sg_map (notify k s) = sg_map s" "sg_fresh (notify k s) = sg_fresh s"
  "sg_signals (notify k s) = sg_signals s @ [k]" "sg_seq (notify k s) = sg_seq s"
  by (simp_all add: notify_def)

lemma MakeSeq_proj [simp]:
  "fst (MakeSeq s) = sg_seq s + 1" "sg_map (snd (MakeSeq s)) = sg_map s"
  "sg_fresh (snd (MakeSeq s)) = sg_fresh s" "sg_signals (snd (MakeSeq s)) = sg_signals s"
  "sg_seq (snd (MakeSeq s)) = sg_seq s + 1"
  by (simp_all add: MakeSeq_def)

lemma new_addr_proj [simp]:
  "fst (new_addr s) = sg_fresh s" "sg_map (snd (new_addr s)) = sg_map s"
  "sg_fresh (snd (new_addr s)) = Suc (sg_fresh s)" "sg_signals (snd (new_addr s)) = sg_signals s"
  "sg_seq (snd (new_addr s)) = sg_seq s"
  by (simp_all add: new_addr_def)

lemma delete_proj [simp]:
  "sg_map (MessageWrapper_delete w s) = sg_map s" "sg_fresh (MessageWrapper_delete w s) = sg_fresh s"
  "sg_seq (MessageWrapper_delete w s) = sg_seq s"
  "sg_signals (MessageWrapper_delete w s)
    = sg_signals s @ (case mw_wait_end_cond w of None \<Rightarrow> [] | Some k \<Rightarrow> [k])"
  by (simp_all add: MessageWrapper_delete_def split: option.splits)

lemma fold_delete_proj [simp]:
  "sg_map (fold MessageWrapper_delete ws s) = sg_map s"
  "sg_fresh (fold MessageWrapper_delete ws s) = sg_fresh s"
  "sg_seq (fold MessageWrapper_delete ws s) = sg_seq s"
  by (induction ws arbitrary: s) simp_all

lemma fold_delete_signals:
  "sg_signals (fold MessageWrapper_delete ws s)
    = sg_signals s @ List.map_filter mw_wait_end_cond ws"
  by (induction ws arbitrary: s) (simp_all add: map_filter_simps split: option.splits)

lemma wrapper_new_proj [simp]:
  "mw_addr (MessageWrapper_new now hid m t sq a) = a"
  "mw_postid (MessageWrapper_new now hid m t sq a) = \<lparr>mp_reg = hid, mp_seq = sq\<rparr>"
  "mw_message (MessageWrapper_new now hid m t sq a) = m"
  "mw_timing (MessageWrapper_new now hid m t sq a) = t"
  "mw_wait_end_cond (MessageWrapper_new now hid m t sq a) = None"
  "well_timed (MessageWrapper_new now hid m t sq a)"
  by (simp_all add: MessageWrapper_new_def well_timed_def)

lemma handler_new_proj [simp]:
  "hw_reg (HandlerWrapper_new h b q sq) = \<lparr>mh_queue = q, mh_seq = sq\<rparr>"
  "hw_handler (HandlerWrapper_new h b q sq) = h" "hw_recvbroadcast (HandlerWrapper_new h b q sq) = b"
  by (simp_all add: HandlerWrapper_new_def)

section \<open>The invariant\<close>

definition wrapper_inv :: "MessageQueue_t \<Rightarrow> addr \<Rightarrow> 'a MessageWrapper \<Rightarrow> bool" where
  "wrapper_inv q fresh w \<longleftrightarrow>
     mh_queue (mp_reg (mw_postid w)) = q \<and> well_timed w \<and> mw_addr w < fresh"

definition queue_inv :: "MessageQueue_t \<Rightarrow> addr \<Rightarrow> ('a, 'h) MessageQueueContent \<Rightarrow> bool" where
  "queue_inv q fresh c \<longleftrightarrow>
     (\<forall>w \<in> set (mc_message c). wrapper_inv q fresh w) \<and> distinct (map mw_addr (mc_message c))
     \<and> (\<forall>h \<in> set (mc_handler c). mh_queue (hw_reg h) = q) \<and> mc_breaker c \<noteq> None"

definition mq_inv :: "('a, 'h) mq_state \<Rightarrow> bool" where
  "mq_inv s \<longleftrightarrow> (\<forall>q c. sg_map s q = Some c \<longrightarrow> queue_inv q (sg_fresh s) c)"

lemma mq_inv_init: "mq_inv mq_init"
  by (simp add: mq_inv_def mq_init_def)

lemma mq_invD: "mq_inv s \<Longrightarrow> sg_map s q = Some c \<Longrightarrow> queue_inv q (sg_fresh s) c"
  by (simp add: mq_inv_def)

lemma queue_inv_mono: "queue_inv q f c \<Longrightarrow> f \<le> f' \<Longrightarrow> queue_inv q f' c"
  by (fastforce simp: queue_inv_def wrapper_inv_def)

lemma mq_inv_update:
  assumes "mq_inv s" "sg_map s' = (sg_map s)(q \<mapsto> c')" "sg_fresh s \<le> sg_fresh s'"
    "queue_inv q (sg_fresh s') c'"
  shows "mq_inv s'"
  using assms by (auto simp: mq_inv_def intro: queue_inv_mono split: if_splits)

lemma mq_inv_same_map:
  "mq_inv s \<Longrightarrow> sg_map s' = sg_map s \<Longrightarrow> sg_fresh s \<le> sg_fresh s' \<Longrightarrow> mq_inv s'"
  by (auto simp: mq_inv_def intro: queue_inv_mono)

lemma mq_inv_erase:
  "mq_inv s \<Longrightarrow> sg_map s' = (sg_map s)(q := None) \<Longrightarrow> sg_fresh s \<le> sg_fresh s' \<Longrightarrow> mq_inv s'"
  by (auto simp: mq_inv_def intro: queue_inv_mono split: if_splits)

text \<open>Adding a wrapper at an unused address, removing wrappers, replacing one in place.\<close>

lemma queue_inv_push:
  assumes "queue_inv q f c" "f \<le> mw_addr w" "wrapper_inv q f' w"
  shows "queue_inv q f' (c\<lparr>mc_message := mc_message c @ [w]\<rparr>)"
proof -
  have "f \<le> f'" using assms(2,3) by (simp add: wrapper_inv_def)
  then have "queue_inv q f' c" using queue_inv_mono [OF assms(1)] by simp
  moreover have "mw_addr w \<notin> mw_addr ` set (mc_message c)"
    using assms(1,2) by (fastforce simp: queue_inv_def wrapper_inv_def)
  ultimately show ?thesis using assms(3) by (auto simp: queue_inv_def)
qed

lemma queue_inv_filter:
  "queue_inv q f c \<Longrightarrow> queue_inv q f (c\<lparr>mc_message := filter P (mc_message c)\<rparr>)"
  by (auto simp: queue_inv_def distinct_map intro: inj_on_subset)

lemma queue_inv_remove:
  "queue_inv q f c \<Longrightarrow> mc_message c = us @ w # vs \<Longrightarrow> queue_inv q f (c\<lparr>mc_message := us @ vs\<rparr>)"
  by (auto simp: queue_inv_def)

lemma queue_inv_replace:
  assumes "queue_inv q f c" "mc_message c = us @ w # vs" "mw_addr w' = mw_addr w" "wrapper_inv q f w'"
  shows "queue_inv q f (c\<lparr>mc_message := us @ w' # vs\<rparr>)"
  using assms by (auto simp: queue_inv_def)

lemma queue_inv_other_fields [simp]:
  "queue_inv q f (c\<lparr>mc_breakflag := b\<rparr>) = queue_inv q f c"
  "queue_inv q f (c\<lparr>mc_runloop := rl\<rparr>) = queue_inv q f c"
  by (simp_all add: queue_inv_def)

section \<open>Waiters\<close>

text \<open>Some thread waits on condition \<open>k\<close> for the end of message \<open>i\<close>, one of these.\<close>

definition waits :: "MessagePost_t \<Rightarrow> addr \<Rightarrow> 'a MessageWrapper list \<Rightarrow> bool" where
  "waits i k ws \<longleftrightarrow> (\<exists>w \<in> set ws. mw_postid w = i \<and> mw_wait_end_cond w = Some k)"

definition waited :: "MessagePost_t \<Rightarrow> addr \<Rightarrow> ('a, 'h) mq_state \<Rightarrow> bool" where
  "waited i k s \<longleftrightarrow> (\<exists>q c. sg_map s q = Some c \<and> waits i k (mc_message c))"

text \<open>Condition \<open>k\<close> has been notified between the states \<open>s\<close> and \<open>s'\<close>.\<close>

definition woken :: "('a, 'h) mq_state \<Rightarrow> addr \<Rightarrow> ('a, 'h) mq_state \<Rightarrow> bool" where
  "woken s k s' \<longleftrightarrow> k \<in> set (drop (length (sg_signals s)) (sg_signals s'))"

lemma woken_append: "sg_signals s' = sg_signals s @ xs \<Longrightarrow> woken s k s' \<longleftrightarrow> k \<in> set xs"
  by (simp add: woken_def)

lemma woken_mono:
  assumes "woken s k s1" "prefix (sg_signals s1) (sg_signals s2)"
  shows "woken s k s2"
  using assms by (auto simp: woken_def elim!: prefixE)

lemma woken_trans:
  assumes "woken s1 k s2" "prefix (sg_signals s) (sg_signals s1)"
  shows "woken s k s2"
proof -
  have "length (sg_signals s) \<le> length (sg_signals s1)" using assms(2) by (rule prefix_length_le)
  then show ?thesis using assms(1) set_drop_subset_set_drop by (fastforce simp: woken_def)
qed

lemma waited_update:
  assumes "waited i k s" "sg_map s' = (sg_map s)(q \<mapsto> c')"
    "\<And>c. sg_map s q = Some c \<Longrightarrow> waits i k (mc_message c) \<Longrightarrow> waits i k (mc_message c') \<or> woken s k s'"
  shows "waited i k s' \<or> woken s k s'"
proof -
  obtain q0 c0 where q0: "sg_map s q0 = Some c0" "waits i k (mc_message c0)"
    using assms(1) by (auto simp: waited_def)
  show ?thesis
  proof (cases "q0 = q")
    case True
    then show ?thesis using q0 assms(2,3) by (auto simp: waited_def)
  next
    case False
    then have "sg_map s' q0 = Some c0" using q0 assms(2) by simp
    then show ?thesis using q0 by (auto simp: waited_def)
  qed
qed

lemma waited_same_map: "waited i k s \<Longrightarrow> sg_map s' = sg_map s \<Longrightarrow> waited i k s'"
  by (simp add: waited_def)

lemma waits_append [simp]: "waits i k (xs @ ys) \<longleftrightarrow> waits i k xs \<or> waits i k ys"
  by (auto simp: waits_def)

lemma waits_Cons [simp]: "waits i k (w # ws) \<longleftrightarrow> mw_postid w = i \<and> mw_wait_end_cond w = Some k \<or> waits i k ws"
  by (auto simp: waits_def)

lemma waits_Nil [simp]: "\<not> waits i k []"
  by (simp add: waits_def)

lemma waits_filter_split: "waits i k ws \<Longrightarrow> waits i k (filter P ws) \<or> waits i k (filter (\<lambda>w. \<not> P w) ws)"
  by (auto simp: waits_def)

lemma map_filter_waits: "waits i k ws \<Longrightarrow> k \<in> set (List.map_filter mw_wait_end_cond ws)"
  by (induction ws) (auto simp: map_filter_simps split: option.splits)

section \<open>The contract of an operation\<close>

locale mq_op =
  fixes f :: "('a, 'h) mq_state \<Rightarrow> ('r \<times> ('a, 'h) mq_state) result"
  assumes total: "mq_inv s \<Longrightarrow> \<exists>r s'. f s = Inr (r, s')"
    and keeps_inv: "mq_inv s \<Longrightarrow> f s = Inr (r, s') \<Longrightarrow> mq_inv s'"
    and wakes: "mq_inv s \<Longrightarrow> f s = Inr (r, s') \<Longrightarrow> waited i k s \<Longrightarrow> waited i k s' \<or> woken s k s'"
    and signals_grow: "mq_inv s \<Longrightarrow> f s = Inr (r, s') \<Longrightarrow> prefix (sg_signals s) (sg_signals s')"
begin

lemma waiter_safe:
  assumes "mq_inv s" "f s = Inr (r, s')" "prefix (sg_signals s0) (sg_signals s)"
    "waited i k s \<or> woken s0 k s"
  shows "waited i k s' \<or> woken s0 k s'"
  using assms(4)
proof
  assume "waited i k s"
  with wakes [OF assms(1,2)] show ?thesis using woken_trans [OF _ assms(3)] by blast
next
  assume "woken s0 k s"
  with signals_grow [OF assms(1,2)] show ?thesis using woken_mono by blast
qed

end

text \<open>A convenient way to establish the contract: one result state with the four properties.\<close>

lemma mq_opI:
  assumes "\<And>s. mq_inv s \<Longrightarrow> \<exists>r s'. f s = Inr (r, s') \<and> mq_inv s'
      \<and> prefix (sg_signals s) (sg_signals s')
      \<and> (\<forall>i k. waited i k s \<longrightarrow> waited i k s' \<or> woken s k s')"
  shows "mq_op f"
proof
  fix s :: "('a, 'b) mq_state"
  assume s: "mq_inv s"
  note a = assms [OF s]
  then show "\<exists>r s'. f s = Inr (r, s')" by blast
  fix r s' assume f: "f s = Inr (r, s')"
  with a show "mq_inv s'" by auto
  from a f show "prefix (sg_signals s) (sg_signals s')" by auto
  fix i k assume "waited i k s"
  with a f show "waited i k s' \<or> woken s k s'" by auto
qed

section \<open>Every operation satisfies the contract\<close>

lemma push_message_eq:
  assumes "mc_breaker c = Some k"
  shows "push_message q c w s =
    Inr (mw_postid w, notify k (set_content q (c\<lparr>mc_message := mc_message c @ [w]\<rparr>) s))"
  using assms by (simp add: push_message_def notify_breaker_def)

text \<open>
  The common tail of the posting operations: \<open>c'\<close> is the queue after a possible removal, \<open>s1\<close> the
  state in which the new wrapper has been allocated.
\<close>

lemma push_message_ok:
  assumes inv: "mq_inv s" and c: "sg_map s q = Some c" and c': "queue_inv q (sg_fresh s) c'"
    and s1: "sg_map s1 = sg_map s" "sg_fresh s1 = Suc (sg_fresh s)" "prefix (sg_signals s) (sg_signals s1)"
    and w: "mw_addr w = sg_fresh s" "mh_queue (mp_reg (mw_postid w)) = q" "well_timed w"
    and lost: "\<And>i k. waits i k (mc_message c) \<Longrightarrow> waits i k (mc_message c') \<or> woken s k s1"
  shows "\<exists>r s'. push_message q c' w s1 = Inr (r, s') \<and> mq_inv s'
      \<and> prefix (sg_signals s) (sg_signals s')
      \<and> (\<forall>i k. waited i k s \<longrightarrow> waited i k s' \<or> woken s k s')"
proof -
  obtain b where b: "mc_breaker c' = Some b" using c' by (auto simp: queue_inv_def)
  let ?c = "c'\<lparr>mc_message := mc_message c' @ [w]\<rparr>"
  let ?s = "notify b (set_content q ?c s1)"
  have "wrapper_inv q (sg_fresh ?s) w" using w s1 by (simp add: wrapper_inv_def)
  then have "queue_inv q (sg_fresh ?s) ?c"
    using c' w by (intro queue_inv_push [of q "sg_fresh s"]) auto
  then have "mq_inv ?s"
    using s1 by (intro mq_inv_update [OF inv]) auto
  moreover have "waited i k ?s \<or> woken s k ?s" if "waited i k s" for i k
    using lost s1 c by (intro waited_update [OF that, of ?s q ?c]) (auto simp: woken_def)
  ultimately show ?thesis using b s1 by (auto simp: push_message_eq)
qed

lemma extract_SomeD: "List.extract P xs = Some (us, x, vs) \<Longrightarrow> xs = us @ x # vs \<and> P x \<and> (\<forall>y \<in> set us. \<not> P y)"
  by (auto simp: extract_Some_iff)

lemma unchanged_ok:
  "mq_inv s \<Longrightarrow> mq_inv s \<and> prefix (sg_signals s) (sg_signals s) \<and> (\<forall>i k. waited i k s \<longrightarrow> waited i k s \<or> woken s k s)"
  by simp

lemma PostMessage_op: "mq_op (PostMessage now hid m t)"
proof (rule mq_opI)
  fix s :: "('a, 'h) mq_state" assume inv: "mq_inv s"
  show "\<exists>r s'. PostMessage now hid m t s = Inr (r, s') \<and> mq_inv s'
      \<and> prefix (sg_signals s) (sg_signals s') \<and> (\<forall>i k. waited i k s \<longrightarrow> waited i k s' \<or> woken s k s')"
  proof (cases "sg_map s (mh_queue hid)")
    case None
    then show ?thesis using inv by (simp add: PostMessage_def)
  next
    case (Some c)
    then show ?thesis
      using push_message_ok [OF inv Some mq_invD [OF inv Some], of "snd (new_addr (snd (MakeSeq s)))"
          "MessageWrapper_new now hid m t (sg_seq s + 1) (sg_fresh s)"]
      by (simp add: PostMessage_def case_prod_beta)
  qed
qed

lemma BroadcastMessage_op: "mq_op (BroadcastMessage now q m t)"
proof (rule mq_opI)
  fix s :: "('a, 'h) mq_state" assume inv: "mq_inv s"
  show "\<exists>r s'. BroadcastMessage now q m t s = Inr (r, s') \<and> mq_inv s'
      \<and> prefix (sg_signals s) (sg_signals s') \<and> (\<forall>i k. waited i k s \<longrightarrow> waited i k s' \<or> woken s k s')"
  proof (cases "sg_map s q")
    case None
    then show ?thesis using inv by (simp add: BroadcastMessage_def)
  next
    case (Some c)
    then show ?thesis
      using push_message_ok [OF inv Some mq_invD [OF inv Some], of "snd (new_addr (snd (MakeSeq s)))"
          "MessageWrapper_new now \<lparr>mh_queue = q, mh_seq = 0\<rparr> m t (sg_seq s + 1) (sg_fresh s)"]
      by (simp add: BroadcastMessage_def case_prod_beta Let_def)
  qed
qed

lemma SingletonMessage_op: "mq_op (SingletonMessage replace now hid m t)"
proof (rule mq_opI)
  fix s :: "('a, 'h) mq_state" assume inv: "mq_inv s"
  let ?P = "\<lambda>w. mp_reg (mw_postid w) = hid \<and> Message_eq (mw_message w) m"
  show "\<exists>r s'. SingletonMessage replace now hid m t s = Inr (r, s') \<and> mq_inv s'
      \<and> prefix (sg_signals s) (sg_signals s') \<and> (\<forall>i k. waited i k s \<longrightarrow> waited i k s' \<or> woken s k s')"
  proof (cases "sg_map s (mh_queue hid)")
    case None
    then show ?thesis using inv by (simp add: SingletonMessage_def)
  next
    case c: (Some c)
    note qi = mq_invD [OF inv c]
    show ?thesis
    proof (cases "List.extract ?P (mc_message c)")
      case None
      then show ?thesis
        using c push_message_ok [OF inv c qi, of "snd (new_addr (snd (MakeSeq s)))"
            "MessageWrapper_new now hid m t (sg_seq s + 1) (sg_fresh s)"]
        by (simp add: SingletonMessage_def case_prod_beta)
    next
      case (Some x)
      obtain us w vs where x: "x = (us, w, vs)" by (cases x) auto
      with Some have split: "mc_message c = us @ w # vs"
        using extract_SomeD [of ?P "mc_message c" us w vs] by simp
      let ?c = "c\<lparr>mc_message := us @ vs\<rparr>"
      have qc: "queue_inv (mh_queue hid) (sg_fresh s) ?c"
        using queue_inv_remove [OF qi split] .
      define s2 where "s2 = (if 0 \<noteq> mp_seq (mw_postid w)
          then (mp_seq (mw_postid w), MessageWrapper_delete w s) else MakeSeq (MessageWrapper_delete w s))"
      have s2: "sg_map (snd s2) = sg_map s" "sg_fresh (snd s2) = sg_fresh s"
          "prefix (sg_signals s) (sg_signals (snd s2))"
          "mw_wait_end_cond w = Some k \<Longrightarrow> woken s k (snd s2)" for k
        by (auto simp: s2_def woken_def)
      show ?thesis
      proof (cases replace)
        case False
        then show ?thesis using c Some x inv by (simp add: SingletonMessage_def)
      next
        case True
        then have "SingletonMessage replace now hid m t s = push_message (mh_queue hid) ?c
            (MessageWrapper_new now hid m t (fst s2) (sg_fresh s)) (snd (new_addr (snd s2)))"
          using c Some x s2(2) by (simp add: SingletonMessage_def Let_def case_prod_beta s2_def)
        moreover have "waits i k (mc_message ?c) \<or> woken s k (snd (new_addr (snd s2)))"
          if "waits i k (mc_message c)" for i k
          using that split s2(4) [of k] by (auto simp: woken_def)
        ultimately show ?thesis
          using push_message_ok [OF inv c qc, of "snd (new_addr (snd s2))"
              "MessageWrapper_new now hid m t (fst s2) (sg_fresh s)"] s2(1,2,3)
          by simp
      qed
    qed
  qed
qed

lemma FasterMessage_op: "mq_op (FasterMessage now hid m t)"
proof (rule mq_opI)
  fix s :: "('a, 'h) mq_state" assume inv: "mq_inv s"
  let ?P = "\<lambda>w. mp_reg (mw_postid w) = hid \<and> Message_eq (mw_message w) m"
  let ?s = "snd (new_addr (snd (MakeSeq s)))"
  let ?w = "MessageWrapper_new now hid m t (sg_seq s + 1) (sg_fresh s)"
  show "\<exists>r s'. FasterMessage now hid m t s = Inr (r, s') \<and> mq_inv s'
      \<and> prefix (sg_signals s) (sg_signals s') \<and> (\<forall>i k. waited i k s \<longrightarrow> waited i k s' \<or> woken s k s')"
  proof (cases "sg_map s (mh_queue hid)")
    case None
    then show ?thesis using inv by (simp add: FasterMessage_def)
  next
    case c: (Some c)
    note qi = mq_invD [OF inv c]
    show ?thesis
    proof (cases "List.extract ?P (mc_message c)")
      case None
      then show ?thesis
        using c push_message_ok [OF inv c qi, of ?s ?w]
        by (simp add: FasterMessage_def case_prod_beta Let_def)
    next
      case (Some x)
      obtain us w vs where x: "x = (us, w, vs)" by (cases x) auto
      with Some have split: "mc_message c = us @ w # vs" "mp_reg (mw_postid w) = hid"
        using extract_SomeD [of ?P "mc_message c" us w vs] by simp_all
      let ?c = "c\<lparr>mc_message := us @ vs\<rparr>"
      show ?thesis
      proof (cases "ComputerWaitTime now w < ComputerWaitTime now ?w")
        case True
        then have "FasterMessage now hid m t s = Inr (mw_postid w, MessageWrapper_delete ?w ?s)"
          using c Some x by (simp add: FasterMessage_def case_prod_beta Let_def)
        moreover have "mq_inv (MessageWrapper_delete ?w ?s)"
          by (rule mq_inv_same_map [OF inv]) simp_all
        ultimately show ?thesis
          using waited_same_map [of _ _ s "MessageWrapper_delete ?w ?s"] by simp
      next
        case False
        then have "FasterMessage now hid m t s = push_message (mh_queue hid) ?c
            (?w\<lparr>mw_postid := mw_postid w\<rparr>) (MessageWrapper_delete w ?s)"
          using c Some x by (simp add: FasterMessage_def case_prod_beta Let_def)
        moreover have "waits i k (mc_message ?c) \<or> woken s k (MessageWrapper_delete w ?s)"
          if "waits i k (mc_message c)" for i k
          using that split(1) by (auto simp: woken_def)
        moreover have "well_timed (?w\<lparr>mw_postid := mw_postid w\<rparr>)"
          by (simp add: well_timed_def MessageWrapper_new_def)
        ultimately show ?thesis
          using push_message_ok [OF inv c queue_inv_remove [OF qi split(1)], of "MessageWrapper_delete w ?s"
              "?w\<lparr>mw_postid := mw_postid w\<rparr>"] split(2)
          by simp
      qed
    qed
  qed
qed

text \<open>Replacing the contents of one queue, with the waiters it lost already woken.\<close>

lemma set_content_ok:
  assumes "mq_inv s" "sg_map s q = Some c" "sg_map s1 = sg_map s" "sg_fresh s \<le> sg_fresh s1"
    "prefix (sg_signals s) (sg_signals s1)" "queue_inv q (sg_fresh s1) c'"
    "\<And>i k. waits i k (mc_message c) \<Longrightarrow> waits i k (mc_message c') \<or> woken s k s1"
  shows "mq_inv (set_content q c' s1)
    \<and> prefix (sg_signals s) (sg_signals (set_content q c' s1))
    \<and> (\<forall>i k. waited i k s \<longrightarrow> waited i k (set_content q c' s1) \<or> woken s k (set_content q c' s1))"
proof (intro conjI allI impI)
  show "mq_inv (set_content q c' s1)"
    using assms by (intro mq_inv_update [OF assms(1), of _ q c']) auto
  show "prefix (sg_signals s) (sg_signals (set_content q c' s1))" using assms by simp
  fix i k assume "waited i k s"
  then show "waited i k (set_content q c' s1) \<or> woken s k (set_content q c' s1)"
    using assms by (intro waited_update [of i k s _ q c']) (auto simp: woken_def)
qed

lemma CancelMessage_post_op: "mq_op (\<lambda>s. Inr (CancelMessage_post p s))"
proof (rule mq_opI)
  fix s :: "('a, 'h) mq_state" assume inv: "mq_inv s"
  let ?q = "mh_queue (mp_reg p)"
  show "\<exists>r s'. Inr (CancelMessage_post p s) = Inr (r, s') \<and> mq_inv s'
      \<and> prefix (sg_signals s) (sg_signals s') \<and> (\<forall>i k. waited i k s \<longrightarrow> waited i k s' \<or> woken s k s')"
  proof (cases "0 = ?q \<or> 0 = mp_seq p \<or> sg_map s ?q = None")
    case True
    then show ?thesis using inv by (auto simp: CancelMessage_post_def)
  next
    case False
    then obtain c where c: "sg_map s ?q = Some c" by auto
    show ?thesis
    proof (cases "List.extract (\<lambda>w. p = mw_postid w) (mc_message c)")
      case None
      then show ?thesis using inv c False by (auto simp: CancelMessage_post_def)
    next
      case (Some x)
      obtain us w vs where x: "x = (us, w, vs)" by (cases x) auto
      with Some have split: "mc_message c = us @ w # vs"
        using extract_SomeD [of "\<lambda>w. p = mw_postid w" "mc_message c" us w vs] by simp
      have "waits i k (us @ vs) \<or> woken s k (MessageWrapper_delete w s)" if "waits i k (mc_message c)" for i k
        using that split by (auto simp: woken_def)
      then show ?thesis
        using c False Some x
          set_content_ok [OF inv c, of "MessageWrapper_delete w s" "c\<lparr>mc_message := us @ vs\<rparr>"]
          queue_inv_remove [OF mq_invD [OF inv c] split]
        by (intro exI [of _ True]) (simp add: CancelMessage_post_def)
    qed
  qed
qed

lemma erase_all_ok:
  assumes inv: "mq_inv s" and c: "sg_map s q = Some c"
  shows "mq_inv (erase_all P q c s) \<and> prefix (sg_signals s) (sg_signals (erase_all P q c s))
    \<and> (\<forall>i k. waited i k s \<longrightarrow> waited i k (erase_all P q c s) \<or> woken s k (erase_all P q c s))"
  unfolding erase_all_def
proof (rule set_content_ok [OF inv c])
  let ?s = "fold MessageWrapper_delete (filter P (mc_message c)) s"
  show "sg_map ?s = sg_map s" "sg_fresh s \<le> sg_fresh ?s" by simp_all
  show "prefix (sg_signals s) (sg_signals ?s)" by (simp add: fold_delete_signals)
  show "queue_inv q (sg_fresh ?s) (c\<lparr>mc_message := filter (\<lambda>w. \<not> P w) (mc_message c)\<rparr>)"
    using queue_inv_filter [OF mq_invD [OF inv c]] by simp
  fix i k assume "waits i k (mc_message c)"
  then show "waits i k (mc_message (c\<lparr>mc_message := filter (\<lambda>w. \<not> P w) (mc_message c)\<rparr>)) \<or> woken s k ?s"
    using waits_filter_split [of i k "mc_message c" P] map_filter_waits [of i k "filter P (mc_message c)"]
    by (auto simp: woken_def fold_delete_signals)
qed

lemma CancelMessage_handler_op: "mq_op (\<lambda>s. Inr ((), CancelMessage_handler hid s))"
proof (rule mq_opI)
  fix s :: "('a, 'h) mq_state" assume inv: "mq_inv s"
  then show "\<exists>r s'. Inr ((), CancelMessage_handler hid s) = Inr (r, s') \<and> mq_inv s'
      \<and> prefix (sg_signals s) (sg_signals s') \<and> (\<forall>i k. waited i k s \<longrightarrow> waited i k s' \<or> woken s k s')"
    using erase_all_ok [OF inv]
    by (auto simp: CancelMessage_handler_def split: option.splits)
qed

lemma CancelMessage_title_op: "mq_op (\<lambda>s. Inr ((), CancelMessage_title hid title s))"
proof (rule mq_opI)
  fix s :: "('a, 'h) mq_state" assume inv: "mq_inv s"
  then show "\<exists>r s'. Inr ((), CancelMessage_title hid title s) = Inr (r, s') \<and> mq_inv s'
      \<and> prefix (sg_signals s) (sg_signals s') \<and> (\<forall>i k. waited i k s \<longrightarrow> waited i k s' \<or> woken s k s')"
    using erase_all_ok [OF inv]
    by (auto simp: CancelMessage_title_def split: option.splits)
qed

lemma BreakMessageQueueRunloop_op:
  "mq_op (\<lambda>s. rbind (BreakMessageQueueRunloop q s) (\<lambda>s'. Inr ((), s')))"
proof (rule mq_opI)
  fix s :: "('a, 'h) mq_state" assume inv: "mq_inv s"
  show "\<exists>r s'. rbind (BreakMessageQueueRunloop q s) (\<lambda>s'. Inr ((), s')) = Inr (r, s') \<and> mq_inv s'
      \<and> prefix (sg_signals s) (sg_signals s') \<and> (\<forall>i k. waited i k s \<longrightarrow> waited i k s' \<or> woken s k s')"
  proof (cases "sg_map s q")
    case None
    then show ?thesis using inv by (simp add: BreakMessageQueueRunloop_def)
  next
    case (Some c)
    obtain b where b: "mc_breaker c = Some b" using mq_invD [OF inv Some] by (auto simp: queue_inv_def)
    let ?s = "set_content q (c\<lparr>mc_breakflag := True\<rparr>) s"
    have ok: "mq_inv ?s \<and> prefix (sg_signals s) (sg_signals ?s)
        \<and> (\<forall>i k. waited i k s \<longrightarrow> waited i k ?s \<or> woken s k ?s)"
      using mq_invD [OF inv Some] by (intro set_content_ok [OF inv Some]) simp_all
    then have "mq_inv ?s" by (rule conjunct1)
    then have "mq_inv (notify b ?s)" by (rule mq_inv_same_map) simp_all
    moreover have "waited i k (notify b ?s) \<or> woken s k (notify b ?s)" if "waited i k s" for i k
    proof -
      have "waited i k ?s \<or> woken s k ?s" using ok that by blast
      then show ?thesis by (auto simp: woken_def dest: waited_same_map [of i k ?s "notify b ?s"])
    qed
    moreover have "rbind (BreakMessageQueueRunloop q s) (\<lambda>s'. Inr ((), s')) = Inr ((), notify b ?s)"
      using Some b by (simp add: BreakMessageQueueRunloop_def notify_breaker_def)
    moreover have "prefix (sg_signals s) (sg_signals (notify b ?s))" by auto
    ultimately show ?thesis by blast
  qed
qed

lemma InstallMessageHandler_op: "mq_op (\<lambda>s :: ('a, 'h) mq_state. Inr (InstallMessageHandler h b q s))"
proof (rule mq_opI)
  fix s :: "('a, 'h) mq_state" assume inv: "mq_inv s"
  show "\<exists>r s'. Inr (InstallMessageHandler h b q s) = Inr (r, s') \<and> mq_inv s'
      \<and> prefix (sg_signals s) (sg_signals s') \<and> (\<forall>i k. waited i k s \<longrightarrow> waited i k s' \<or> woken s k s')"
  proof (cases "sg_map s q")
    case None
    then show ?thesis using inv by (simp add: InstallMessageHandler_def)
  next
    case (Some c)
    let ?h = "HandlerWrapper_new h b q (sg_seq s + 1)"
    have "queue_inv q (sg_fresh s) (c\<lparr>mc_handler := mc_handler c @ [?h]\<rparr>)"
      using mq_invD [OF inv Some] by (auto simp: queue_inv_def)
    then show ?thesis
      using Some set_content_ok [OF inv Some, of "snd (MakeSeq s)" "c\<lparr>mc_handler := mc_handler c @ [?h]\<rparr>"]
      by (simp add: InstallMessageHandler_def case_prod_beta Let_def)
  qed
qed

lemma UnInstallMessageHandler_op: "mq_op (\<lambda>s. Inr ((), UnInstallMessageHandler hid s))"
proof (rule mq_opI)
  fix s :: "('a, 'h) mq_state" assume inv: "mq_inv s"
  let ?r = "UnInstallMessageHandler hid s"
  have "mq_inv ?r \<and> prefix (sg_signals s) (sg_signals ?r) \<and> (\<forall>i k. waited i k s \<longrightarrow> waited i k ?r \<or> woken s k ?r)"
  proof (cases "?r = s")
    case False
    then obtain c us w vs where c: "sg_map s (mh_queue hid) = Some c"
      and ex: "List.extract (\<lambda>w. hid = hw_reg w) (mc_handler c) = Some (us, w, vs)"
      and r: "?r = set_content (mh_queue hid) (c\<lparr>mc_handler := us @ vs\<rparr>) s"
      by (auto simp: UnInstallMessageHandler_def split: option.splits if_splits)
    have split: "mc_handler c = us @ w # vs" using extract_SomeD [OF ex] by simp
    show ?thesis unfolding r
      using mq_invD [OF inv c] split by (intro set_content_ok [OF inv c]) (auto simp: queue_inv_def)
  qed (use inv in simp)
  then show "\<exists>r s'. Inr ((), ?r) = Inr (r, s') \<and> mq_inv s'
      \<and> prefix (sg_signals s) (sg_signals s') \<and> (\<forall>i k. waited i k s \<longrightarrow> waited i k s' \<or> woken s k s')"
    by blast
qed

lemma CreateMessageQueueInfo_op: "mq_op (\<lambda>s. Inr (CreateMessageQueueInfo breaker tid s))"
proof (rule mq_opI)
  fix s :: "('a, 'h) mq_state" assume inv: "mq_inv s"
  obtain r s' where r: "CreateMessageQueueInfo breaker tid s = (r, s')" by fastforce
  have "mq_inv s' \<and> prefix (sg_signals s) (sg_signals s') \<and> (\<forall>i k. waited i k s \<longrightarrow> waited i k s' \<or> woken s k s')"
  proof (cases "sg_map s tid")
    case (Some c)
    with r inv show ?thesis by (simp add: CreateMessageQueueInfo_def)
  next
    case None
    then obtain c where s': "sg_map s' = (sg_map s)(tid \<mapsto> c)" "sg_fresh s \<le> sg_fresh s'"
        "sg_signals s' = sg_signals s" "queue_inv tid (sg_fresh s') c"
      using r by (auto simp: CreateMessageQueueInfo_def case_prod_beta Let_def queue_inv_def
        MessageQueueContent_new_def split: option.splits)
    then show ?thesis using None mq_inv_update [OF inv s'(1)] waited_update [of _ _ s s' tid c] by auto
  qed
  with r show "\<exists>r s'. Inr (CreateMessageQueueInfo breaker tid s) = Inr (r, s') \<and> mq_inv s'
      \<and> prefix (sg_signals s) (sg_signals s') \<and> (\<forall>i k. waited i k s \<longrightarrow> waited i k s' \<or> woken s k s')"
    by simp
qed

lemma ReleaseMessageQueueInfo_op: "mq_op (\<lambda>s. Inr ((), ReleaseMessageQueueInfo tid s))"
proof (rule mq_opI)
  fix s :: "('a, 'h) mq_state" assume inv: "mq_inv s"
  let ?r = "ReleaseMessageQueueInfo tid s"
  have "mq_inv ?r \<and> prefix (sg_signals s) (sg_signals ?r) \<and> (\<forall>i k. waited i k s \<longrightarrow> waited i k ?r \<or> woken s k ?r)"
  proof (cases "sg_map s tid")
    case None
    then show ?thesis using inv by (simp add: ReleaseMessageQueueInfo_def)
  next
    case (Some c)
    then have r: "sg_map ?r = (sg_map s)(tid := None)" "sg_fresh ?r = sg_fresh s"
        "sg_signals ?r = sg_signals s @ List.map_filter mw_wait_end_cond (mc_message c)"
      by (simp_all add: ReleaseMessageQueueInfo_def fold_delete_signals)
    have "waited i k ?r \<or> woken s k ?r" if k: "waited i k s" for i k
    proof -
      obtain q d where q: "sg_map s q = Some d" "waits i k (mc_message d)" using k by (auto simp: waited_def)
      show ?thesis
      proof (cases "q = tid")
        case True
        with q Some show ?thesis using r(3) map_filter_waits [of i k "mc_message c"] by (simp add: woken_def)
      next
        case False
        with q r(1) have "sg_map ?r q = Some d" by simp
        with q(2) show ?thesis by (auto simp: waited_def)
      qed
    qed
    then show ?thesis using r mq_inv_erase [OF inv r(1)] by simp
  qed
  then show "\<exists>r s'. Inr ((), ?r) = Inr (r, s') \<and> mq_inv s'
      \<and> prefix (sg_signals s) (sg_signals s') \<and> (\<forall>i k. waited i k s \<longrightarrow> waited i k s' \<or> woken s k s')"
    by blast
qed

lemma WaitMessage_op: "mq_op (\<lambda>s. Inr (WaitMessage tid p s))"
proof (rule mq_opI)
  fix s :: "('a, 'h) mq_state" assume inv: "mq_inv s"
  obtain r s' where r: "WaitMessage tid p s = (r, s')" by fastforce
  have "mq_inv s' \<and> prefix (sg_signals s) (sg_signals s') \<and> (\<forall>i k. waited i k s \<longrightarrow> waited i k s' \<or> woken s k s')"
  proof (cases "s' = s")
    case False
    let ?q = "Handler2Queue (Post2Handler p)"
    from False r obtain c us w vs where c: "sg_map s ?q = Some c" and split: "mc_message c = us @ w # vs"
      and w: "mw_wait_end_cond w = None"
      and s': "s' = set_content ?q (c\<lparr>mc_message := us @ w\<lparr>mw_wait_end_cond := Some (sg_fresh s)\<rparr> # vs\<rparr>)
        (snd (new_addr s))"
      by (auto simp: WaitMessage_def case_prod_beta Let_def dest: extract_SomeD split: option.splits if_splits)
    have qi: "queue_inv ?q (Suc (sg_fresh s)) c" using queue_inv_mono [OF mq_invD [OF inv c]] by simp
    then have "queue_inv ?q (Suc (sg_fresh s))
        (c\<lparr>mc_message := us @ w\<lparr>mw_wait_end_cond := Some (sg_fresh s)\<rparr> # vs\<rparr>)"
      using split by (intro queue_inv_replace [OF qi split]) (auto simp: queue_inv_def wrapper_inv_def well_timed_def)
    then show ?thesis unfolding s' using split w by (intro set_content_ok [OF inv c]) auto
  qed (use inv in simp)
  with r show "\<exists>r s'. Inr (WaitMessage tid p s) = Inr (r, s') \<and> mq_inv s'
      \<and> prefix (sg_signals s) (sg_signals s') \<and> (\<forall>i k. waited i k s \<longrightarrow> waited i k s' \<or> woken s k s')"
    by simp
qed

section \<open>The operations as instances of the contract\<close>

interpretation post_op: mq_op "PostMessage now hid m t" for now hid m t
  by (rule PostMessage_op)

interpretation singleton_op: mq_op "SingletonMessage replace now hid m t" for replace now hid m t
  by (rule SingletonMessage_op)

interpretation broadcast_op: mq_op "BroadcastMessage now q m t" for now q m t
  by (rule BroadcastMessage_op)

interpretation faster_op: mq_op "FasterMessage now hid m t" for now hid m t
  by (rule FasterMessage_op)

interpretation cancel_op: mq_op "\<lambda>s. Inr (CancelMessage_post p s)" for p
  by (rule CancelMessage_post_op)

interpretation cancel_handler_op: mq_op "\<lambda>s. Inr ((), CancelMessage_handler hid s)" for hid
  by (rule CancelMessage_handler_op)

interpretation cancel_title_op: mq_op "\<lambda>s. Inr ((), CancelMessage_title hid title s)" for hid title
  by (rule CancelMessage_title_op)

interpretation break_op: mq_op "\<lambda>s. rbind (BreakMessageQueueRunloop q s) (\<lambda>s'. Inr ((), s'))" for q
  by (rule BreakMessageQueueRunloop_op)

interpretation install_op: mq_op "\<lambda>s. Inr (InstallMessageHandler h b q s)" for h b q
  by (rule InstallMessageHandler_op)

interpretation uninstall_op: mq_op "\<lambda>s. Inr ((), UnInstallMessageHandler hid s)" for hid
  by (rule UnInstallMessageHandler_op)

interpretation create_op: mq_op "\<lambda>s. Inr (CreateMessageQueueInfo breaker tid s)" for breaker tid
  by (rule CreateMessageQueueInfo_op)

interpretation release_op: mq_op "\<lambda>s. Inr ((), ReleaseMessageQueueInfo tid s)" for tid
  by (rule ReleaseMessageQueueInfo_op)

interpretation wait_op: mq_op "\<lambda>s. Inr (WaitMessage tid p s)" for tid p
  by (rule WaitMessage_op)

end
