(* ===== verification/MQ_Clients.thy ===== *)
theory MQ_Clients
  imports MQ_Laws
begin

text \<open>
  The calls a client makes, as data, and their common contract: beside \<open>mq_op\<close>, a client's call leaves
  the records of the running loops alone. The locale \<open>mq_client_op\<close> extends \<open>mq_op\<close> by that law and is
  interpreted for every call.
\<close>

section \<open>API calls\<close>

datatype ('a, 'h) mq_call =
    C_Post nat MessageHandler_t "'a Message" MessageTiming
  | C_Singleton bool nat MessageHandler_t "'a Message" MessageTiming
  | C_Broadcast nat MessageQueue_t "'a Message" MessageTiming
  | C_Faster nat MessageHandler_t "'a Message" MessageTiming
  | C_Cancel MessagePost_t
  | C_CancelHandler MessageHandler_t
  | C_CancelTitle MessageHandler_t MessageTitle_t
  | C_Break MessageQueue_t
  | C_Install "'h MessageHandler" bool MessageQueue_t
  | C_UnInstall MessageHandler_t
  | C_Create "addr option" MessageQueue_t
  | C_Wait MessageQueue_t MessagePost_t

definition after :: "('r \<times> 's) result \<Rightarrow> (unit \<times> 's) result" where
  "after x = rbind x (\<lambda>(_, s). Inr ((), s))"

primrec api_call :: "('a, 'h) mq_call \<Rightarrow> ('a, 'h) mq_state \<Rightarrow> (unit \<times> ('a, 'h) mq_state) result" where
  "api_call (C_Post now hid m t) s = after (PostMessage now hid m t s)"
| "api_call (C_Singleton r now hid m t) s = after (SingletonMessage r now hid m t s)"
| "api_call (C_Broadcast now q m t) s = after (BroadcastMessage now q m t s)"
| "api_call (C_Faster now hid m t) s = after (FasterMessage now hid m t s)"
| "api_call (C_Cancel p) s = after (Inr (CancelMessage_post p s))"
| "api_call (C_CancelHandler hid) s = Inr ((), CancelMessage_handler hid s)"
| "api_call (C_CancelTitle hid title) s = Inr ((), CancelMessage_title hid title s)"
| "api_call (C_Break q) s = rbind (BreakMessageQueueRunloop q s) (\<lambda>s'. Inr ((), s'))"
| "api_call (C_Install h b q) s = after (Inr (InstallMessageHandler h b q s))"
| "api_call (C_UnInstall hid) s = Inr ((), UnInstallMessageHandler hid s)"
| "api_call (C_Create breaker tid) s = after (Inr (CreateMessageQueueInfo breaker tid s))"
| "api_call (C_Wait tid p) s = after (Inr (WaitMessage tid p s))"

section \<open>Operations of clients leave the run loops alone\<close>

definition loops_of :: "MessageQueue_t \<Rightarrow> ('a, 'h) mq_state \<Rightarrow> RunLoopInfo list" where
  "loops_of q s = (case sg_map s q of None \<Rightarrow> [] | Some c \<Rightarrow> mc_runloop c)"

lemma loops_of_same_map: "sg_map s' = sg_map s \<Longrightarrow> loops_of q s' = loops_of q s"
  by (simp add: loops_of_def)

lemma loops_of_elementary [simp]:
  "loops_of q (MessageWrapper_delete w s) = loops_of q s" "loops_of q (notify k s) = loops_of q s"
  "loops_of q (snd (MakeSeq s)) = loops_of q s" "loops_of q (snd (new_addr s)) = loops_of q s"
  by (simp_all add: loops_of_def)

lemma loops_of_set_content: "loops_of q (set_content q' c s) = (if q = q' then mc_runloop c else loops_of q s)"
  by (simp add: loops_of_def)

locale mq_client_op = mq_op f
  for f :: "('a, 'h) mq_state \<Rightarrow> ('r \<times> ('a, 'h) mq_state) result" +
  assumes keeps_loops: "f s = Inr (r, s') \<Longrightarrow> loops_of q s' = loops_of q s"
begin

lemma client_after: "mq_client_op (\<lambda>s. after (f s))"
proof
  fix s r s' k i q
  show "mq_inv s \<Longrightarrow> \<exists>r s'. after (f s) = Inr (r, s')" using total [of s] by (auto simp: after_def)
  assume "after (f s) = Inr (r, s')"
  then obtain r0 where f: "f s = Inr (r0, s')" by (auto simp: after_def rbind_eq_Inr_iff)
  show "loops_of q s' = loops_of q s" using keeps_loops [OF f] .
  assume s: "mq_inv s"
  show "mq_inv s'" "prefix (sg_signals s) (sg_signals s')"
    using keeps_inv [OF s f] signals_grow [OF s f] by simp_all
  show "waited i k s \<Longrightarrow> waited i k s' \<or> woken s k s'" using wakes [OF s f] .
qed

end

lemma push_message_loops:
  assumes "push_message q c w s1 = Inr (r, s')" "sg_map s1 = sg_map s"
    "sg_map s q = Some d" "mc_runloop c = mc_runloop d"
  shows "loops_of q' s' = loops_of q' s"
  using assms by (auto simp: push_message_def notify_breaker_def loops_of_def split: option.splits if_splits)

lemma set_content_loops:
  "sg_map s1 = sg_map s \<Longrightarrow> sg_map s q = Some d \<Longrightarrow> mc_runloop c = mc_runloop d
    \<Longrightarrow> loops_of q' (set_content q c s1) = loops_of q' s"
  by (auto simp: loops_of_def)

interpretation post_c: mq_client_op "PostMessage now hid m t" for now hid m t
  by unfold_locales
    (auto simp: PostMessage_def case_prod_beta Let_def split: option.splits elim!: push_message_loops)

interpretation broadcast_c: mq_client_op "BroadcastMessage now q m t" for now q m t
  by unfold_locales
    (auto simp: BroadcastMessage_def case_prod_beta Let_def split: option.splits elim!: push_message_loops)

interpretation singleton_c: mq_client_op "SingletonMessage r now hid m t" for r now hid m t
  by unfold_locales
    (auto simp: SingletonMessage_def case_prod_beta Let_def split: option.splits if_splits elim!: push_message_loops)

interpretation faster_c: mq_client_op "FasterMessage now hid m t" for now hid m t
  by unfold_locales
    (auto simp: FasterMessage_def case_prod_beta Let_def split: option.splits if_splits
      elim!: push_message_loops)

interpretation cancel_c: mq_client_op "\<lambda>s. Inr (CancelMessage_post p s)" for p
  by unfold_locales
    (auto simp: CancelMessage_post_def split: option.splits if_splits intro!: set_content_loops)

interpretation cancel_handler_c: mq_client_op "\<lambda>s. Inr ((), CancelMessage_handler hid s)" for hid
  by unfold_locales
    (auto simp: CancelMessage_handler_def erase_all_def split: option.splits if_splits intro!: set_content_loops)

interpretation cancel_title_c: mq_client_op "\<lambda>s. Inr ((), CancelMessage_title hid title s)" for hid title
  by unfold_locales
    (auto simp: CancelMessage_title_def erase_all_def split: option.splits if_splits intro!: set_content_loops)

interpretation break_c: mq_client_op "\<lambda>s. rbind (BreakMessageQueueRunloop q s) (\<lambda>s'. Inr ((), s'))" for q
  by unfold_locales
    (auto simp: BreakMessageQueueRunloop_def notify_breaker_def Let_def rbind_eq_Inr_iff loops_of_def
      split: option.splits if_splits)

interpretation install_c: mq_client_op "\<lambda>s. Inr (InstallMessageHandler h b q s)" for h b q
  by unfold_locales
    (auto simp: InstallMessageHandler_def case_prod_beta Let_def split: option.splits intro!: set_content_loops)

interpretation uninstall_c: mq_client_op "\<lambda>s. Inr ((), UnInstallMessageHandler hid s)" for hid
  by unfold_locales
    (auto simp: UnInstallMessageHandler_def split: option.splits if_splits intro!: set_content_loops)

interpretation create_c: mq_client_op "\<lambda>s. Inr (CreateMessageQueueInfo breaker tid s)" for breaker tid
  by unfold_locales
    (auto simp: CreateMessageQueueInfo_def case_prod_beta Let_def loops_of_def MessageQueueContent_new_def
      split: option.splits if_splits)

interpretation wait_c: mq_client_op "\<lambda>s. Inr (WaitMessage tid p s)" for tid p
  by unfold_locales
    (auto simp: WaitMessage_def case_prod_beta Let_def split: option.splits if_splits intro!: set_content_loops)

lemma api_call_client: "mq_client_op (api_call c)"
  by (cases c)
    (simp_all add: api_call.simps [abs_def] post_c.client_after broadcast_c.client_after singleton_c.client_after
      faster_c.client_after cancel_c.client_after install_c.client_after create_c.client_after
      wait_c.client_after cancel_handler_c.mq_client_op_axioms cancel_title_c.mq_client_op_axioms
      break_c.mq_client_op_axioms uninstall_c.mq_client_op_axioms)

interpretation api: mq_client_op "api_call c" for c
  by (rule api_call_client)

end
