(* ===== verification/MQ_System.thy ===== *)
theory MQ_System
  imports MQ_Clients
begin

text \<open>
  The message queue as a concurrent system: the global state together with the control state of the
  run loops of every thread (innermost first). A step is one critical section: a client's call made by
  any thread at any time, handlers included, or a step of the innermost loop of a thread. Interleavings
  are sequences of such steps. A loop that waits may pass at any time, which covers notifications,
  timeouts and spurious wake-ups.

  Over all reachable states: the invariant holds, the only faults are the stale pointer to a periodic
  message cancelled during its dispatch and the question for the running message of a queue on which no
  loop runs, and a thread that waits for a message is woken by
  the time that message is neither pending nor running.
\<close>

section \<open>One pass of a loop\<close>

definition cleared :: "RunLoopInfo \<Rightarrow> RunLoopInfo" where
  "cleared rl = rl\<lparr>rl_message_id := KNullPost, rl_message := None, rl_handler := []\<rparr>"

lemma cleared_cond [simp]: "rl_cond (cleared rl) = rl_cond rl"
  by (simp add: cleared_def)

definition pass_content :: "('a, 'h) MessageQueueContent \<Rightarrow> ('a, 'h) MessageQueueContent" where
  "pass_content c = c\<lparr>mc_runloop := butlast (mc_runloop c) @ [cleared (last (mc_runloop c))]\<rparr>"

definition pass_state ::
  "MessageQueue_t \<Rightarrow> ('a, 'h) MessageQueueContent \<Rightarrow> ('a, 'h) mq_state \<Rightarrow> ('a, 'h) mq_state" where
  "pass_state q c s = notify (rl_cond (last (mc_runloop c))) (set_content q (pass_content c) s)"

lemma pass_content_proj [simp]:
  "mc_message (pass_content c) = mc_message c" "mc_handler (pass_content c) = mc_handler c"
  "mc_breaker (pass_content c) = mc_breaker c" "mc_breakflag (pass_content c) = mc_breakflag c"
  "butlast (mc_runloop (pass_content c)) = butlast (mc_runloop c)"
  "last (mc_runloop (pass_content c)) = cleared (last (mc_runloop c))"
  "mc_runloop (pass_content c) \<noteq> []"
  "queue_inv q f (pass_content c) = queue_inv q f c"
  by (simp_all add: pass_content_def)

lemma pass_state_proj [simp]:
  "sg_map (pass_state q c s) = (sg_map s)(q \<mapsto> pass_content c)" "sg_fresh (pass_state q c s) = sg_fresh s"
  "sg_signals (pass_state q c s) = sg_signals s @ [rl_cond (last (mc_runloop c))]"
  by (simp_all add: pass_state_def)

lemma Run_clear_eq:
  assumes "sg_map s q = Some c" "mc_runloop c \<noteq> []"
  shows "Run_clear q s = Inr (pass_state q c s)"
  using assms by (simp add: Run_clear_def content_at_def pass_state_def pass_content_def cleared_def Let_def)

definition breaks :: "(('a, 'h) mq_state \<Rightarrow> bool) option \<Rightarrow> ('a, 'h) MessageQueueContent \<Rightarrow> ('a, 'h) mq_state \<Rightarrow> bool" where
  "breaks brk c s \<longleftrightarrow> mc_breakflag c \<or> (case brk of None \<Rightarrow> False | Some f \<Rightarrow> f s)"

lemma Run_iter_eq:
  assumes "sg_map s q = Some c" "mc_runloop c \<noteq> []" "mc_breaker c \<noteq> None"
  shows "Run_iter None brk tid q now s =
    (if breaks brk c (pass_state q c s) then Inr (RL_Done, Run_exit tid q (pass_content c) (pass_state q c s))
     else case pick now (10 * 60 * 1000) (mc_message c) of
       (Some (r, w), ws, _) \<Rightarrow> Inr (Run_take q (pass_content c) r w ws (pass_state q c s))
     | (None, _, wait_time) \<Rightarrow> Inr (RL_Wait wait_time, pass_state q c s))"
  using assms
  by (auto simp: Run_iter_def Run_clear_eq breaks_def split: option.split prod.split)

section \<open>Messages being run\<close>

definition running :: "MessagePost_t \<Rightarrow> addr \<Rightarrow> ('a, 'h) mq_state \<Rightarrow> bool" where
  "running i k s \<longleftrightarrow> (\<exists>q. \<exists>rl \<in> set (loops_of q s). rl_message_id rl = i \<and> rl_cond rl = k)"

fun pc_holds :: "MessagePost_t \<Rightarrow> addr \<Rightarrow> ('a, 'h) rl_pc \<Rightarrow> bool" where
  "pc_holds i k (RL_Dispatch (Owned w) _ _) \<longleftrightarrow> mw_postid w = i \<and> mw_wait_end_cond w = Some k"
| "pc_holds i k _ \<longleftrightarrow> False"

lemma running_update:
  assumes "running i k s" "\<And>q'. q' \<noteq> q \<Longrightarrow> loops_of q' s' = loops_of q' s"
    "\<And>rl. rl \<in> set (loops_of q s) \<Longrightarrow> rl_message_id rl = i \<Longrightarrow> rl_cond rl = k
      \<Longrightarrow> rl \<in> set (loops_of q s') \<or> woken s k s'"
  shows "running i k s' \<or> woken s k s'"
proof -
  obtain q0 rl where q0: "rl \<in> set (loops_of q0 s)" "rl_message_id rl = i" "rl_cond rl = k"
    using assms(1) by (auto simp: running_def)
  show ?thesis
  proof (cases "q0 = q")
    case True
    then show ?thesis using q0 assms(3) [of rl] by (auto simp: running_def)
  next
    case False
    then have "rl \<in> set (loops_of q0 s')" using q0 assms(2) by simp
    then show ?thesis using q0 by (auto simp: running_def)
  qed
qed

text \<open>What a pass does with the messages: a one-shot message moves from the queue to the loop.\<close>

lemma pick_waits:
  assumes "pick now wt ws = (r, ws', wt')" "\<forall>w \<in> set ws. well_timed w" "waits i k ws"
  shows "waits i k ws' \<or> (\<exists>w. r = Some (Owned w, w) \<and> mw_postid w = i \<and> mw_wait_end_cond w = Some k)"
proof (cases rule: due_cases [of ws now])
  case none
  then show ?thesis using assms pick_none_due [of ws now wt] by simp
next
  case (first us w vs)
  then have "well_timed w" "\<forall>u \<in> set us. well_timed u \<and> \<not> due now u" using assms(2) by auto
  with first assms show ?thesis using pick_first_due [of us now w wt vs] by (auto split: if_splits)
qed

lemma pick_queue_inv:
  assumes "pick now wt (mc_message c) = (r, ws', wt')" "queue_inv q f c"
  shows "queue_inv q f (c\<lparr>mc_message := ws'\<rparr>)"
proof (cases rule: due_cases [of "mc_message c" now])
  case none
  then have "pick now wt (mc_message c) = (None, mc_message c, Min (insert wt (remaining now ` set (mc_message c))))"
    using assms(2) by (intro pick_none_due) (auto simp: queue_inv_def wrapper_inv_def)
  then show ?thesis using assms by simp
next
  case (first us w vs)
  then have w: "wrapper_inv q f w" "\<forall>u \<in> set us. well_timed u \<and> \<not> due now u"
    using assms(2) by (auto simp: queue_inv_def wrapper_inv_def)
  then have "wrapper_inv q f (rearm now w)" by (auto simp: wrapper_inv_def well_timed_def)
  then have "queue_inv q f (c\<lparr>mc_message := us @ rearm now w # vs\<rparr>)"
    using queue_inv_replace [OF assms(2) first(1)] by simp
  moreover have "queue_inv q f (c\<lparr>mc_message := us @ vs\<rparr>)"
    using queue_inv_remove [OF assms(2) first(1)] .
  ultimately show ?thesis
    using assms(1) first w pick_first_due [of us now w wt vs] by (auto simp: wrapper_inv_def split: if_splits)
qed

section \<open>The contract of a pass\<close>

text \<open>
  \<open>pass_ok q s s' pc n\<close>: from \<open>s\<close> a pass of the loop of queue \<open>q\<close> has led to \<open>s'\<close> and the control state
  \<open>pc\<close>, with \<open>n\<close> loops left on the queue; nobody who waited has been forgotten.
\<close>

definition pass_ok ::
  "MessageQueue_t \<Rightarrow> ('a, 'h) mq_state \<Rightarrow> ('a, 'h) mq_state \<Rightarrow> ('a, 'h) rl_pc \<Rightarrow> nat \<Rightarrow> bool" where
  "pass_ok q s s' pc n \<longleftrightarrow>
     mq_inv s' \<and> prefix (sg_signals s) (sg_signals s') \<and> length (loops_of q s') = n
     \<and> (\<forall>q'. q' \<noteq> q \<longrightarrow> loops_of q' s' = loops_of q' s)
     \<and> (\<forall>i k. waited i k s \<longrightarrow> waited i k s' \<or> pc_holds i k pc \<or> woken s k s')
     \<and> (\<forall>i k. running i k s \<longrightarrow> running i k s' \<or> woken s k s')"

lemma in_butlast_or_last: "xs \<noteq> [] \<Longrightarrow> x \<in> set xs \<Longrightarrow> x \<in> set (butlast xs) \<or> x = last xs"
  by (induction xs) (auto split: if_splits)

lemma pass_running:
  assumes c: "sg_map s q = Some c" "mc_runloop c \<noteq> []"
    and s': "\<And>q'. q' \<noteq> q \<Longrightarrow> loops_of q' s' = loops_of q' s"
      "set (butlast (mc_runloop c)) \<subseteq> set (loops_of q s')"
      "prefix (sg_signals (pass_state q c s)) (sg_signals s')"
    and r: "running i k s"
  shows "running i k s' \<or> woken s k s'"
proof (rule running_update [OF r s'(1)])
  fix rl assume rl: "rl \<in> set (loops_of q s)" "rl_cond rl = k"
  have "woken s k s'" if "rl = last (mc_runloop c)"
    by (rule woken_mono [OF _ s'(3)]) (use rl that in \<open>simp add: woken_def\<close>)
  then show "rl \<in> set (loops_of q s') \<or> woken s k s'"
    using rl c s'(2) in_butlast_or_last [of "mc_runloop c" rl] by (auto simp: loops_of_def)
qed

lemma pass_wait_ok:
  assumes inv: "mq_inv s" and c: "sg_map s q = Some c" "mc_runloop c \<noteq> []"
  shows "pass_ok q s (pass_state q c s) pc (length (mc_runloop c))"
proof -
  have "mq_inv (pass_state q c s)"
    using mq_invD [OF inv c(1)] by (intro mq_inv_update [OF inv, of _ q "pass_content c"]) simp_all
  moreover have "waited i k s \<Longrightarrow> waited i k (pass_state q c s) \<or> woken s k (pass_state q c s)" for i k
    using c by (intro waited_update [of i k s _ q "pass_content c"]) simp_all
  moreover have "running i k s \<Longrightarrow> running i k (pass_state q c s) \<or> woken s k (pass_state q c s)" for i k
    by (rule pass_running [OF c]) (auto simp: loops_of_def pass_content_def)
  ultimately show ?thesis using c by (auto simp: pass_ok_def loops_of_def pass_content_def)
qed

lemma pass_take_ok:
  assumes inv: "mq_inv s" and c: "sg_map s q = Some c" "mc_runloop c \<noteq> []"
    and p: "pick now wt (mc_message c) = (Some (r, w), ws, wt')"
  shows "pass_ok q s (snd (Run_take q (pass_content c) r w ws (pass_state q c s)))
      (fst (Run_take q (pass_content c) r w ws (pass_state q c s))) (length (mc_runloop c))"
proof -
  let ?t = "Run_take q (pass_content c) r w ws (pass_state q c s)"
  note qi = mq_invD [OF inv c(1)]
  obtain c' where m: "sg_map (snd ?t) = (sg_map s)(q \<mapsto> c')" "sg_fresh (snd ?t) = sg_fresh s"
      "sg_signals (snd ?t) = sg_signals (pass_state q c s)" "mc_message c' = ws"
      "length (mc_runloop c') = length (mc_runloop c)"
      "set (butlast (mc_runloop c)) \<subseteq> set (mc_runloop c')" "queue_inv q (sg_fresh s) c'"
  proof (rule that)
    let ?c = "the (sg_map (snd ?t) q)"
    show "sg_map (snd ?t) = (sg_map s)(q \<mapsto> ?c)" "sg_fresh (snd ?t) = sg_fresh s"
      "sg_signals (snd ?t) = sg_signals (pass_state q c s)" "mc_message ?c = ws"
      "length (mc_runloop ?c) = length (mc_runloop c)"
      "set (butlast (mc_runloop c)) \<subseteq> set (mc_runloop ?c)"
      using c by (auto simp: Run_take_def Let_def)
    show "queue_inv q (sg_fresh s) ?c"
      using pick_queue_inv [OF p qi] by (simp add: Run_take_def Let_def queue_inv_def)
  qed
  from m(7) have "mq_inv (snd ?t)" using m by (intro mq_inv_update [OF inv m(1)]) simp_all
  moreover have "waited i k (snd ?t) \<or> pc_holds i k (fst ?t) \<or> woken s k (snd ?t)" if "waited i k s" for i k
  proof (cases "waits i k (mc_message c)")
    case True
    have "\<forall>w \<in> set (mc_message c). well_timed w" using qi by (auto simp: queue_inv_def wrapper_inv_def)
    from pick_waits [OF p this True] show ?thesis
      using m(1,4) by (auto simp: waited_def Run_take_def Let_def)
  next
    case False
    then show ?thesis using waited_update [OF that m(1)] c by auto
  qed
  moreover have "running i k s \<Longrightarrow> running i k (snd ?t) \<or> woken s k (snd ?t)" for i k
    using m by (intro pass_running [OF c]) (auto simp: loops_of_def)
  ultimately show ?thesis using m by (auto simp: pass_ok_def loops_of_def)
qed

lemma pass_exit_ok:
  assumes inv: "mq_inv s" and c: "sg_map s q = Some c" "mc_runloop c \<noteq> []"
  shows "pass_ok q s (Run_exit q q (pass_content c) (pass_state q c s)) RL_Done (length (mc_runloop c) - 1)"
proof -
  let ?c = "pass_content c\<lparr>mc_runloop := butlast (mc_runloop c)\<rparr>"
  define s1 where "s1 = set_content q ?c (pass_state q c s)"
  have m: "sg_map s1 = (sg_map s)(q \<mapsto> ?c)" "sg_fresh s1 = sg_fresh s"
      "sg_signals s1 = sg_signals (pass_state q c s)" by (simp_all add: s1_def)
  have inv1: "mq_inv s1"
    using mq_invD [OF inv c(1)] m by (intro mq_inv_update [OF inv m(1)]) simp_all
  have w1: "waited i k s \<Longrightarrow> waited i k s1 \<or> woken s k s1" for i k
    using c by (intro waited_update [of i k s _ q ?c]) (simp_all add: m)
  have r1: "running i k s \<Longrightarrow> running i k s1 \<or> woken s k s1" for i k
    using m by (intro pass_running [OF c]) (auto simp: loops_of_def)
  have p1: "prefix (sg_signals s) (sg_signals s1)" by (simp add: m)
  show ?thesis
  proof (cases "butlast (mc_runloop c) = []")
    case False
    then have "Run_exit q q (pass_content c) (pass_state q c s) = s1"
      by (simp add: Run_exit_def s1_def)
    then show ?thesis using inv1 w1 r1 p1 m by (auto simp: pass_ok_def loops_of_def)
  next
    case True
    let ?s = "ReleaseMessageQueueInfo q s1"
    have e: "Run_exit q q (pass_content c) (pass_state q c s) = ?s"
      using True by (simp add: Run_exit_def s1_def)
    have m2: "sg_map ?s = (sg_map s)(q := None)"
      using m by (simp add: ReleaseMessageQueueInfo_def)
    have l: "length (mc_runloop c) - 1 = 0" using True by (metis length_butlast list.size(3))
    have "mq_inv ?s" "prefix (sg_signals s1) (sg_signals ?s)"
      using release_op.keeps_inv [OF inv1 refl] release_op.signals_grow [OF inv1 refl] .
    moreover have "waited i k ?s \<or> woken s k ?s" if "waited i k s" for i k
      using release_op.waiter_safe [OF inv1 refl p1 w1 [OF that]] .
    moreover have "running i k s \<Longrightarrow> running i k ?s \<or> woken s k ?s" for i k
      using m m2 True \<open>prefix (sg_signals s1) (sg_signals ?s)\<close>
      by (intro pass_running [OF c]) (auto simp: loops_of_def)
    ultimately show ?thesis
      unfolding e using m2 l p1 prefix_order.order_trans [of "sg_signals s" "sg_signals s1"]
      by (auto simp: pass_ok_def loops_of_def)
  qed
qed

lemma Run_iter_ok:
  assumes inv: "mq_inv s" and l: "loops_of q s \<noteq> []"
  shows "\<exists>pc s'. Run_iter None brk q q now s = Inr (pc, s')
    \<and> pass_ok q s s' pc (if pc = RL_Done then length (loops_of q s) - 1 else length (loops_of q s))"
proof -
  obtain c where c: "sg_map s q = Some c" "mc_runloop c \<noteq> []" and lc: "loops_of q s = mc_runloop c"
    using l by (auto simp: loops_of_def split: option.splits)
  have "mc_breaker c \<noteq> None" using mq_invD [OF inv c(1)] by (simp add: queue_inv_def)
  note eq = Run_iter_eq [OF c this, of brk q now]
  show ?thesis
  proof (cases "breaks brk c (pass_state q c s)")
    case True
    then show ?thesis using eq pass_exit_ok [OF inv c] lc by simp
  next
    case False
    obtain r ws wt where p: "pick now (10 * 60 * 1000) (mc_message c) = (r, ws, wt)" by (cases "pick now (10 * 60 * 1000) (mc_message c)") auto
    show ?thesis
    proof (cases r)
      case None
      then show ?thesis using False eq p pass_wait_ok [OF inv c, of "RL_Wait wt"] lc by simp
    next
      case (Some x)
      obtain mr w where x: "x = (mr, w)" by (cases x)
      then show ?thesis
        using False eq p Some pass_take_ok [OF inv c, of now "10 * 60 * 1000" mr w ws wt] lc
        by (auto simp: Run_take_def Let_def)
    qed
  qed
qed

section \<open>The transition system\<close>

type_synonym ('a, 'h) frame = "(('a, 'h) mq_state \<Rightarrow> bool) option \<times> ('a, 'h) rl_pc"

type_synonym ('a, 'h) effect = "'h MessageHandler \<Rightarrow> MessagePost_t \<Rightarrow> 'a Message \<Rightarrow> 'a Message"

record ('a, 'h) sys =
  sys_mq :: "('a, 'h) mq_state"
  sys_loops :: "MessageQueue_t \<Rightarrow> ('a, 'h) frame list"

definition sys_init :: "('a, 'h) sys" where
  "sys_init = \<lparr>sys_mq = mq_init, sys_loops = (\<lambda>_. [])\<rparr>"

datatype ('a, 'h) event =
    E_Call "('a, 'h) mq_call"
  | E_RunningMessage MessageQueue_t
  | E_RunningMessageID MessageQueue_t
  | E_Enter MessageQueue_t "(('a, 'h) mq_state \<Rightarrow> bool) option"
  | E_Iter MessageQueue_t nat
  | E_Invoke MessageQueue_t
  | E_Finish MessageQueue_t

text \<open>A thread enters a loop when it runs none, or from within a handler.\<close>

fun may_enter :: "('a, 'h) frame list \<Rightarrow> bool" where
  "may_enter [] = True"
| "may_enter ((_, RL_Dispatch _ _ _) # _) = True"
| "may_enter _ = False"

fun at_pass :: "('a, 'h) rl_pc \<Rightarrow> bool" where
  "at_pass RL_Top = True"
| "at_pass (RL_Wait _) = True"
| "at_pass _ = False"

definition set_loops :: "MessageQueue_t \<Rightarrow> ('a, 'h) frame list \<Rightarrow> ('a, 'h) mq_state \<Rightarrow> ('a, 'h) sys \<Rightarrow> ('a, 'h) sys" where
  "set_loops tid fs s st = \<lparr>sys_mq = s, sys_loops = (sys_loops st)(tid := fs)\<rparr>"

text \<open>\<open>None\<close>: the event cannot happen in this state; \<open>Some (Inl e)\<close>: it faults.\<close>

fun sys_step :: "('a, 'h) effect \<Rightarrow> ('a, 'h) event \<Rightarrow> ('a, 'h) sys \<Rightarrow> ('a, 'h) sys result option" where
  "sys_step eff (E_Call c) st =
     Some (rbind (api_call c (sys_mq st)) (\<lambda>(_, s). Inr (st\<lparr>sys_mq := s\<rparr>)))"
| "sys_step eff (E_RunningMessage tid) st = Some (rbind (RunningMessage tid (sys_mq st)) (\<lambda>_. Inr st))"
| "sys_step eff (E_RunningMessageID q) st = Some (rbind (RunningMessageID q (sys_mq st)) (\<lambda>_. Inr st))"
| "sys_step eff (E_Enter tid brk) st =
     (if sg_map (sys_mq st) tid \<noteq> None \<and> may_enter (sys_loops st tid)
      then Some (Inr (set_loops tid ((brk, RL_Top) # sys_loops st tid) (snd (Run_enter tid (sys_mq st))) st))
      else None)"
| "sys_step eff (E_Iter tid now) st =
     (case sys_loops st tid of [] \<Rightarrow> None
      | (brk, pc) # fs \<Rightarrow>
          if at_pass pc
          then Some (rbind (Run_iter None brk tid tid now (sys_mq st))
                 (\<lambda>(pc', s). Inr (set_loops tid (if pc' = RL_Done then fs else (brk, pc') # fs) s st)))
          else None)"
| "sys_step eff (E_Invoke tid) st =
     (case sys_loops st tid of [] \<Rightarrow> None
      | (brk, pc) # fs \<Rightarrow>
          (case Run_invoke eff tid pc (sys_mq st) of None \<Rightarrow> None
           | Some x \<Rightarrow> Some (rbind x (\<lambda>(_, pc', s). Inr (set_loops tid ((brk, pc') # fs) s st)))))"
| "sys_step eff (E_Finish tid) st =
     (case sys_loops st tid of [] \<Rightarrow> None
      | (brk, pc) # fs \<Rightarrow>
          (case Run_finish pc (sys_mq st) of None \<Rightarrow> None
           | Some (pc', s) \<Rightarrow> Some (Inr (set_loops tid ((brk, pc') # fs) s st))))"

inductive mq_run :: "('a, 'h) effect \<Rightarrow> ('a, 'h) sys \<Rightarrow> ('a, 'h) event list \<Rightarrow> ('a, 'h) sys \<Rightarrow> bool"
  for eff :: "('a, 'h) effect" and st0 :: "('a, 'h) sys" where
  run_nil: "mq_run eff st0 [] st0"
| run_step: "mq_run eff st0 es st \<Longrightarrow> sys_step eff e st = Some (Inr st') \<Longrightarrow> mq_run eff st0 (es @ [e]) st'"

inductive_cases mq_run_snocE: "mq_run eff st0 (es @ [e]) st"

text \<open>The same runs as an executable function.\<close>

fun run_events :: "('a, 'h) effect \<Rightarrow> ('a, 'h) event list \<Rightarrow> ('a, 'h) sys \<Rightarrow> ('a, 'h) sys option" where
  "run_events eff [] st = Some st"
| "run_events eff (e # es) st =
     (case sys_step eff e st of Some (Inr st') \<Rightarrow> run_events eff es st' | _ \<Rightarrow> None)"

lemma run_events_from:
  assumes "mq_run eff st0 es0 st" "run_events eff es st = Some st'"
  shows "mq_run eff st0 (es0 @ es) st'"
  using assms
proof (induction es arbitrary: es0 st)
  case Nil
  then show ?case by simp
next
  case (Cons e es)
  then obtain st1 where 1: "sys_step eff e st = Some (Inr st1)" "run_events eff es st1 = Some st'"
    by (auto split: option.splits sum.splits)
  with Cons.IH [of "es0 @ [e]" st1] run_step [OF Cons.prems(1) 1(1)] show ?case by simp
qed

lemma run_events_run: "run_events eff es st = Some st' \<Longrightarrow> mq_run eff st es st'"
  using run_events_from [OF run_nil] by fastforce

section \<open>The invariant and the waiters along a run\<close>

definition sys_inv :: "('a, 'h) sys \<Rightarrow> bool" where
  "sys_inv st \<longleftrightarrow>
     mq_inv (sys_mq st) \<and> (\<forall>q. length (sys_loops st q) = length (loops_of q (sys_mq st)))"

text \<open>
  Message \<open>i\<close> has not ended, and its end will notify \<open>k\<close>: it is pending, being run, or owned by a loop.
\<close>

definition unfinished :: "MessagePost_t \<Rightarrow> addr \<Rightarrow> ('a, 'h) sys \<Rightarrow> bool" where
  "unfinished i k st \<longleftrightarrow>
     waited i k (sys_mq st) \<or> running i k (sys_mq st)
     \<or> (\<exists>tid. \<exists>f \<in> set (sys_loops st tid). pc_holds i k (snd f))"

definition step_ok :: "('a, 'h) sys \<Rightarrow> ('a, 'h) sys \<Rightarrow> bool" where
  "step_ok st st' \<longleftrightarrow> sys_inv st' \<and> prefix (sg_signals (sys_mq st)) (sg_signals (sys_mq st'))
     \<and> (\<forall>i k. unfinished i k st \<longrightarrow> unfinished i k st' \<or> woken (sys_mq st) k (sys_mq st'))"

lemma set_loops_proj [simp]:
  "sys_mq (set_loops tid fs s st) = s" "sys_loops (set_loops tid fs s st) = (sys_loops st)(tid := fs)"
  by (simp_all add: set_loops_def)

lemma running_same_loops: "(\<And>q. loops_of q s' = loops_of q s) \<Longrightarrow> running i k s' = running i k s"
  by (simp add: running_def)

lemma call_step_ok:
  assumes inv: "sys_inv st" and c: "api_call c (sys_mq st) = Inr (r, s)"
  shows "step_ok st (st\<lparr>sys_mq := s\<rparr>)"
proof -
  have i: "mq_inv (sys_mq st)" using inv by (simp add: sys_inv_def)
  have "loops_of q s = loops_of q (sys_mq st)" for q using api.keeps_loops [OF c] .
  then show ?thesis
    using inv api.keeps_inv [OF i c] api.signals_grow [OF i c] api.wakes [OF i c]
      running_same_loops [of s "sys_mq st"]
    by (fastforce simp: step_ok_def sys_inv_def unfinished_def)
qed

text \<open>A step of the innermost loop of a thread.\<close>

lemma loop_step_ok:
  assumes inv: "sys_inv st" and fs: "sys_loops st tid = f # fs"
    and s: "mq_inv s" "prefix (sg_signals (sys_mq st)) (sg_signals s)"
      "length (loops_of tid s) = length fs'"
      "\<And>q. q \<noteq> tid \<Longrightarrow> loops_of q s = loops_of q (sys_mq st)"
    and sub: "set fs \<subseteq> set fs'"
    and w: "\<And>i k. waited i k (sys_mq st) \<Longrightarrow>
        waited i k s \<or> (\<exists>g \<in> set fs'. pc_holds i k (snd g)) \<or> woken (sys_mq st) k s"
    and r: "\<And>i k. running i k (sys_mq st) \<Longrightarrow> running i k s \<or> woken (sys_mq st) k s"
    and h: "\<And>i k. pc_holds i k (snd f) \<Longrightarrow>
        (\<exists>g \<in> set fs'. pc_holds i k (snd g)) \<or> woken (sys_mq st) k s"
  shows "step_ok st (set_loops tid fs' s st)"
proof -
  let ?st = "set_loops tid fs' s st"
  have "sys_inv ?st" using inv s by (simp add: sys_inv_def)
  moreover have "unfinished i k ?st \<or> woken (sys_mq st) k s" if u: "unfinished i k st" for i k
  proof -
    consider "waited i k (sys_mq st)" | "running i k (sys_mq st)"
      | t g where "g \<in> set (sys_loops st t)" "pc_holds i k (snd g)"
      using u by (auto simp: unfinished_def)
    then show ?thesis
    proof cases
      case 1
      from w [OF this] show ?thesis
        by (auto simp: unfinished_def intro: exI [of _ tid])
    next
      case 2
      from r [OF this] show ?thesis by (auto simp: unfinished_def)
    next
      case 3
      show ?thesis
      proof (cases "t = tid")
        case True
        with 3 fs sub h [of i k] show ?thesis by (auto simp: unfinished_def intro: exI [of _ tid])
      next
        case False
        with 3 show ?thesis by (auto simp: unfinished_def intro!: exI [of _ t])
      qed
    qed
  qed
  ultimately show ?thesis using s(2) by (simp add: step_ok_def)
qed

lemma iter_step_ok:
  assumes inv: "sys_inv st" and fs: "sys_loops st tid = (brk, pc) # fs" and pc: "at_pass pc"
  shows "\<exists>pc' s. Run_iter None brk tid tid now (sys_mq st) = Inr (pc', s)
    \<and> step_ok st (set_loops tid (if pc' = RL_Done then fs else (brk, pc') # fs) s st)"
proof -
  have l: "length (loops_of tid (sys_mq st)) = Suc (length fs)"
    using inv fs by (auto simp: sys_inv_def dest: spec [of _ tid])
  then have ne: "loops_of tid (sys_mq st) \<noteq> []" by auto
  have i: "mq_inv (sys_mq st)" using inv by (simp add: sys_inv_def)
  obtain pc' s where e: "Run_iter None brk tid tid now (sys_mq st) = Inr (pc', s)"
    and ok: "pass_ok tid (sys_mq st) s pc' (if pc' = RL_Done then length fs else Suc (length fs))"
    using Run_iter_ok [OF i ne, unfolded l diff_Suc_1, of brk now] by blast
  have h: "\<not> pc_holds i k pc" for i k using pc by (cases pc) simp_all
  have w: "waited i k (sys_mq st) \<Longrightarrow> waited i k s \<or> pc_holds i k pc' \<or> woken (sys_mq st) k s" for i k
    using ok by (simp add: pass_ok_def)
  have "step_ok st (set_loops tid (if pc' = RL_Done then fs else (brk, pc') # fs) s st)"
  proof (rule loop_step_ok [OF inv fs])
    fix i k assume "waited i k (sys_mq st)"
    from w [OF this] show "waited i k s
        \<or> (\<exists>g \<in> set (if pc' = RL_Done then fs else (brk, pc') # fs). pc_holds i k (snd g))
        \<or> woken (sys_mq st) k s"
      by auto
  qed (use ok h in \<open>auto simp: pass_ok_def\<close>)
  with e show ?thesis by blast
qed

lemma enter_step_ok:
  assumes inv: "sys_inv st" and q: "sg_map (sys_mq st) tid \<noteq> None"
  shows "step_ok st (set_loops tid ((brk, RL_Top) # sys_loops st tid) (snd (Run_enter tid (sys_mq st))) st)"
proof -
  let ?s = "snd (Run_enter tid (sys_mq st))"
  obtain c where c: "sg_map (sys_mq st) tid = Some c" using q by auto
  have i: "mq_inv (sys_mq st)" using inv by (simp add: sys_inv_def)
  define d where "d = c\<lparr>mc_runloop := mc_runloop c @ [RunLoopInfo_new (sg_fresh (sys_mq st))]\<rparr>"
  have m: "sg_map ?s = (sg_map (sys_mq st))(tid \<mapsto> d)" "sg_fresh ?s = Suc (sg_fresh (sys_mq st))"
      "sg_signals ?s = sg_signals (sys_mq st)"
    using c by (simp_all add: Run_enter_def CurrentThreadMessageQueue_def content_at_def Let_def
        case_prod_beta d_def)
  have "queue_inv tid (sg_fresh ?s) d"
    using queue_inv_mono [OF mq_invD [OF i c], of "sg_fresh ?s"] m(2) by (simp add: d_def)
  then have "mq_inv ?s" using m by (intro mq_inv_update [OF i m(1)]) simp_all
  moreover have "length (loops_of q ?s) = (if q = tid then Suc (length (sys_loops st tid)) else length (sys_loops st q))" for q
    using inv m(1) c by (auto simp: sys_inv_def loops_of_def d_def dest: spec [of _ tid])
  moreover have "waited i k (sys_mq st) \<Longrightarrow> waited i k ?s" for i k
    using waited_update [OF _ m(1), of i k] c m(3) by (auto simp: d_def woken_def)
  moreover have "running i k (sys_mq st) \<Longrightarrow> running i k ?s" for i k
    using running_update [of i k "sys_mq st" tid ?s] m c by (auto simp: loops_of_def d_def woken_def)
  moreover have "set (sys_loops st t) \<subseteq> set (((sys_loops st)(tid := (brk, RL_Top) # sys_loops st tid)) t)" for t
    by auto
  ultimately show ?thesis
    using m(3) unfolding step_ok_def sys_inv_def unfinished_def set_loops_proj
    by (intro conjI allI impI) (simp, simp, simp, blast)
qed

lemma finish_step_ok:
  assumes inv: "sys_inv st" and fs: "sys_loops st tid = (brk, pc) # fs"
    and f: "Run_finish pc (sys_mq st) = Some (pc', s)"
  shows "step_ok st (set_loops tid ((brk, pc') # fs) s st)"
proof -
  have m: "sg_map s = sg_map (sys_mq st)" "sg_fresh s = sg_fresh (sys_mq st)"
      "prefix (sg_signals (sys_mq st)) (sg_signals s)"
      "pc_holds i k pc \<Longrightarrow> woken (sys_mq st) k s" for i k
    using f by (auto simp: woken_def elim: Run_finish.elims)
  then have "loops_of q s = loops_of q (sys_mq st)" for q by (simp add: loops_of_def)
  moreover have "mq_inv s" using inv m by (auto simp: sys_inv_def intro: mq_inv_same_map)
  moreover have "length (loops_of tid (sys_mq st)) = Suc (length fs)"
    using inv fs by (auto simp: sys_inv_def dest: spec [of _ tid])
  ultimately show ?thesis
    using m by (intro loop_step_ok [OF inv fs]) (auto simp: running_def waited_def)
qed

text \<open>Calling a handler with an owned message, and with a message still in the queue.\<close>

lemma invoke_step_ok:
  assumes inv: "sys_inv st" and fs: "sys_loops st tid = (brk, pc) # fs"
    and f: "Run_invoke eff tid pc (sys_mq st) = Some (Inr (call, pc', s))"
  shows "step_ok st (set_loops tid ((brk, pc') # fs) s st)"
proof -
  have i: "mq_inv (sys_mq st)" using inv by (simp add: sys_inv_def)
  have l: "length (loops_of tid (sys_mq st)) = Suc (length fs)"
    using inv fs by (auto simp: sys_inv_def dest: spec [of _ tid])
  have "s = sys_mq st \<or> (\<exists>c us w vs m. sg_map (sys_mq st) tid = Some c \<and> mc_message c = us @ w # vs
      \<and> s = set_content tid (c\<lparr>mc_message := us @ w\<lparr>mw_message := m\<rparr> # vs\<rparr>) (sys_mq st))"
    using f l extract_SomeD
    by (fastforce simp: Let_def content_at_def loops_of_def split: option.splits elim!: Run_invoke.elims)
  then have s: "mq_inv s \<and> prefix (sg_signals (sys_mq st)) (sg_signals s)
      \<and> (\<forall>i k. waited i k (sys_mq st) \<longrightarrow> waited i k s \<or> woken (sys_mq st) k s)
      \<and> (\<forall>q. loops_of q s = loops_of q (sys_mq st))"
  proof (elim disjE exE conjE)
    fix c us w vs m
    assume c: "sg_map (sys_mq st) tid = Some c" and split: "mc_message c = us @ w # vs"
      and s: "s = set_content tid (c\<lparr>mc_message := us @ w\<lparr>mw_message := m\<rparr> # vs\<rparr>) (sys_mq st)"
    have "queue_inv tid (sg_fresh (sys_mq st)) (c\<lparr>mc_message := us @ w\<lparr>mw_message := m\<rparr> # vs\<rparr>)"
      using mq_invD [OF i c] split
      by (intro queue_inv_replace [OF mq_invD [OF i c] split]) (auto simp: queue_inv_def wrapper_inv_def well_timed_def)
    then show ?thesis
      unfolding s using set_content_ok [OF i c, of "sys_mq st"] split c by (auto simp: loops_of_def)
  qed (use i in simp)
  have h: "pc_holds i k pc \<Longrightarrow> pc_holds i k pc'" for i k
    using f by (auto simp: Let_def split: option.splits elim!: Run_invoke.elims)
  show ?thesis
    by (rule loop_step_ok [OF inv fs]) (use s l h in \<open>auto simp: running_def\<close>)
qed

lemma step_ok_refl: "sys_inv st \<Longrightarrow> step_ok st st"
  by (simp add: step_ok_def)

theorem sys_step_ok:
  assumes inv: "sys_inv st" and "sys_step eff e st = Some (Inr st')"
  shows "step_ok st st'"
  using assms(2)
proof (cases e)
  case (E_Call c)
  with assms(2) call_step_ok [OF inv] show ?thesis by (auto simp: rbind_eq_Inr_iff)
next
  case (E_RunningMessage tid)
  with assms(2) step_ok_refl [OF inv] show ?thesis by (auto simp: rbind_eq_Inr_iff)
next
  case (E_RunningMessageID q)
  with assms(2) step_ok_refl [OF inv] show ?thesis by (auto simp: rbind_eq_Inr_iff)
next
  case (E_Enter tid brk)
  with assms(2) enter_step_ok [OF inv] show ?thesis by (auto split: if_splits)
next
  case (E_Iter tid now)
  with assms(2) obtain brk pc fs where fs: "sys_loops st tid = (brk, pc) # fs" "at_pass pc"
    by (auto split: list.splits if_splits)
  from iter_step_ok [OF inv fs, of now] E_Iter fs assms(2) show ?thesis by auto
next
  case (E_Invoke tid)
  with assms(2) invoke_step_ok [OF inv] show ?thesis
    by (auto simp: rbind_eq_Inr_iff split: list.splits option.splits)
next
  case (E_Finish tid)
  with assms(2) finish_step_ok [OF inv] show ?thesis by (auto split: list.splits option.splits)
qed

lemma mq_run_ok:
  assumes "mq_run eff st es st'" "sys_inv st"
  shows "step_ok st st'"
  using assms
proof (induction rule: mq_run.induct)
  case run_nil
  then show ?case by (simp add: step_ok_def)
next
  case (run_step es st1 e st2)
  then have a: "step_ok st st1" by simp
  then have "sys_inv st1" by (simp add: step_ok_def)
  then have b: "step_ok st1 st2" using run_step.hyps(2) by (rule sys_step_ok)
  show ?case
    using a b unfolding step_ok_def
    by (blast intro: prefix_order.order_trans woken_mono woken_trans)
qed

lemma sys_inv_init: "sys_inv sys_init"
  using mq_inv_init by (simp add: sys_inv_def sys_init_def loops_of_def mq_init_def)

lemma mq_run_inv: "mq_run eff sys_init es st \<Longrightarrow> sys_inv st"
  using mq_run_ok sys_inv_init by (auto simp: step_ok_def)

text \<open>Message \<open>i\<close> is neither pending in a queue, nor run by a loop, nor owned by one.\<close>

definition gone :: "MessagePost_t \<Rightarrow> ('a, 'h) sys \<Rightarrow> bool" where
  "gone i st \<longleftrightarrow>
     (\<forall>q c. sg_map (sys_mq st) q = Some c \<longrightarrow>
        (\<forall>w \<in> set (mc_message c). mw_postid w \<noteq> i) \<and> (\<forall>rl \<in> set (mc_runloop c). rl_message_id rl \<noteq> i))
     \<and> (\<forall>tid brk w p hs. (brk, RL_Dispatch (Owned w) p hs) \<in> set (sys_loops st tid) \<longrightarrow> mw_postid w \<noteq> i)"

lemma gone_finished:
  assumes "gone i st"
  shows "\<not> unfinished i k st"
proof -
  have "\<not> pc_holds i k pc" if "(brk, pc) \<in> set (sys_loops st tid)" for tid brk pc
    using assms that unfolding gone_def by (cases "(i, k, pc)" rule: pc_holds.cases) (simp_all, metis)
  moreover have "\<not> waited i k (sys_mq st)"
    using assms unfolding gone_def waited_def waits_def by blast
  moreover have "\<not> (rl_message_id rl = i \<and> rl_cond rl = k)" if "rl \<in> set (loops_of q (sys_mq st))" for q rl
    using assms that unfolding gone_def by (cases "sg_map (sys_mq st) q") (simp_all add: loops_of_def)
  ultimately show ?thesis unfolding unfinished_def running_def by fastforce
qed

lemma WaitMessage_blocks:
  assumes "WaitMessage tid p s = (WR_Block k, s')"
  shows "waited p k s' \<or> running p k s'"
proof -
  let ?q = "Handler2Queue (Post2Handler p)"
  obtain c where c: "sg_map s ?q = Some c"
    using assms by (auto simp: WaitMessage_def Let_def split: option.splits)
  show ?thesis
  proof (cases "List.extract (\<lambda>w. p = mw_postid w) (mc_message c)")
    case None
    then obtain rl where "find (\<lambda>v. p = rl_message_id v) (mc_runloop c) = Some rl" "k = rl_cond rl" "s' = s"
      using assms c by (auto simp: WaitMessage_def Let_def split: option.splits if_splits)
    then have "running p k s'" using c
      by (auto simp: running_def loops_of_def dest!: find_SomeD intro!: exI [of _ ?q])
    then show ?thesis ..
  next
    case (Some x)
    obtain us w vs where x: "x = (us, w, vs)" by (cases x) auto
    note split = extract_SomeD [OF Some [unfolded x]]
    then have "waits p k (mc_message (the (sg_map s' ?q)))" "sg_map s' ?q \<noteq> None"
      using assms c Some x
      by (auto simp: WaitMessage_def Let_def case_prod_beta split: option.splits if_splits)
    then have "waited p k s'" unfolding waited_def by (metis option.collapse)
    then show ?thesis ..
  qed
qed

lemma rbind_eq_Inl_iff: "rbind r f = Inl e \<longleftrightarrow> r = Inl e \<or> (\<exists>x. r = Inr x \<and> f x = Inl e)"
  by (cases r) auto

lemma no_loop:
  assumes "sys_inv st" "sg_map (sys_mq st) q = Some c" "mc_runloop c = []"
  shows "sys_loops st q = []"
  using assms by (auto simp: sys_inv_def loops_of_def dest: spec [of _ q])

lemma sys_step_fault:
  assumes inv: "sys_inv st" and "sys_step eff e st = Some (Inl err)"
  shows "(\<exists>tid a p hs. e = E_Invoke tid \<and> err = Use_After_Free
      \<and> snd (hd (sys_loops st tid)) = RL_Dispatch (Shared a) p hs
      \<and> (\<forall>c. sg_map (sys_mq st) tid = Some c \<longrightarrow> (\<forall>w \<in> set (mc_message c). mw_addr w \<noteq> a)))
    \<or> (\<exists>q. (e = E_RunningMessage q \<or> e = E_RunningMessageID q) \<and> err = Empty_Container
      \<and> sg_map (sys_mq st) q \<noteq> None \<and> sys_loops st q = [])"
  using assms(2)
proof (cases e)
  case (E_Call c)
  have "mq_inv (sys_mq st)" using inv by (simp add: sys_inv_def)
  from api.total [OF this, of c] E_Call assms(2) show ?thesis by auto
next
  case (E_RunningMessage q)
  then have "RunningMessage q (sys_mq st) = Inl err" using assms(2) by (simp add: rbind_eq_Inl_iff)
  then show ?thesis
    using E_RunningMessage no_loop [OF inv, of q] by (auto simp: RunningMessage_def split: option.splits if_splits)
next
  case (E_RunningMessageID q)
  then have "RunningMessageID q (sys_mq st) = Inl err" using assms(2) by (simp add: rbind_eq_Inl_iff)
  then show ?thesis
    using E_RunningMessageID no_loop [OF inv, of q] by (auto simp: RunningMessageID_def split: option.splits if_splits)
next
  case (E_Enter tid brk)
  with assms(2) show ?thesis by (auto split: if_splits)
next
  case (E_Iter tid now)
  with assms(2) obtain brk pc fs where fs: "sys_loops st tid = (brk, pc) # fs" "at_pass pc"
    by (auto split: list.splits if_splits)
  from iter_step_ok [OF inv fs, of now] E_Iter fs assms(2) show ?thesis by auto
next
  case (E_Invoke tid)
  then obtain brk pc fs where fs: "sys_loops st tid = (brk, pc) # fs"
    and i: "Run_invoke eff tid pc (sys_mq st) = Some (Inl err)"
    using assms(2) by (auto simp: rbind_def split: list.splits option.splits sum.splits)
  then obtain a p h hs where pc: "pc = RL_Dispatch (Shared a) p (h # hs)"
    by (auto elim!: Run_invoke.elims)
  with i have "err = Use_After_Free" "List.extract (\<lambda>w. mw_addr w = a) (mc_message (content_at tid (sys_mq st))) = None"
    by (auto simp: Let_def split: option.splits)
  with E_Invoke fs pc show ?thesis by (auto simp: extract_None_iff content_at_def)
next
  case (E_Finish tid)
  with assms(2) show ?thesis by (auto split: list.splits option.splits)
qed

end
