(* ===== verification/MQ_Props.thy ===== *)
theory MQ_Props
  imports MQ_System
begin

text \<open>
  What the message queue promises its users, as theorems over the operations of \<open>MQ_Api\<close>, the passes of
  \<open>MQ_RunLoop\<close> and the runs of \<open>MQ_System\<close>: scheduling, sleeping, breaking, posting, replacing,
  cancelling, waiting, and the one fault that a run can meet.
\<close>

section \<open>Concrete states for the witnesses\<close>

definition ex_hid :: MessageHandler_t where
  "ex_hid = \<lparr>mh_queue = 7, mh_seq = 1\<rparr>"

definition ex_msg :: "nat Message" where
  "ex_msg = Message_mk 3 (Some 5) None"

text \<open>A queue whose loop has been entered, at tick 100, with the messages \<open>ws\<close>.\<close>

definition ex_wrapper :: "addr \<Rightarrow> 32 word \<Rightarrow> MessageTiming \<Rightarrow> nat MessageWrapper" where
  "ex_wrapper a sq t = MessageWrapper_new 100 ex_hid ex_msg t sq a"

definition ex_content :: "nat MessageWrapper list \<Rightarrow> (nat, nat) MessageQueueContent" where
  "ex_content ws =
     \<lparr>mc_invoke_reg = ex_hid, mc_breakflag = False, mc_breaker = Some 0, mc_message = ws,
      mc_handler = [HandlerWrapper_new AsyncInvokeHandler False 7 1], mc_runloop = [RunLoopInfo_new 1]\<rparr>"

definition ex_state :: "nat MessageWrapper list \<Rightarrow> (nat, nat) mq_state" where
  "ex_state ws = \<lparr>sg_seq = 1, sg_map = [7 \<mapsto> ex_content ws], sg_fresh = 10, sg_signals = []\<rparr>"

lemma ex_state_inv:
  assumes "\<forall>w \<in> set ws. mh_queue (mp_reg (mw_postid w)) = 7 \<and> well_timed w \<and> mw_addr w < 10"
    "distinct (map mw_addr ws)"
  shows "mq_inv (ex_state ws)"
  using assms by (auto simp: mq_inv_def ex_state_def ex_content_def queue_inv_def wrapper_inv_def)

lemma ex_state_proj [simp]:
  "sg_map (ex_state ws) = [7 \<mapsto> ex_content ws]" "sg_signals (ex_state ws) = []"
  "sg_fresh (ex_state ws) = 10" "sg_seq (ex_state ws) = 1"
  by (simp_all add: ex_state_def)

lemma ex_content_proj [simp]:
  "mc_message (ex_content ws) = ws" "mc_runloop (ex_content ws) = [RunLoopInfo_new 1]"
  "mc_handler (ex_content ws) = [HandlerWrapper_new AsyncInvokeHandler False 7 1]"
  "mc_breakflag (ex_content ws) = False" "mc_breaker (ex_content ws) = Some 0"
  by (simp_all add: ex_content_def)

lemma ex_wrapper_proj [simp]:
  "mw_addr (ex_wrapper a sq t) = a" "mw_postid (ex_wrapper a sq t) = \<lparr>mp_reg = ex_hid, mp_seq = sq\<rparr>"
  "mw_message (ex_wrapper a sq t) = ex_msg" "mw_timing (ex_wrapper a sq t) = t"
  "mw_wait_end_cond (ex_wrapper a sq t) = None" "well_timed (ex_wrapper a sq t)"
  "mw_record_time (ex_wrapper a sq t) = (if kImmediately \<noteq> mt_type t then 100 else 0)"
  "mw_periodstatus (ex_wrapper a sq t) = (if kImmediately \<noteq> mt_type t then kAfter else kImmediately)"
  "mh_queue ex_hid = 7" "mh_seq ex_hid = 1"
  by (simp_all add: ex_wrapper_def ex_hid_def) (simp_all add: MessageWrapper_new_def)

lemma timing_proj [simp]:
  "mt_type (Timing_after a) = kAfter" "mt_after (Timing_after a) = a"
  "mt_type (Timing_period a p) = kPeriod" "mt_after (Timing_period a p) = a" "mt_period (Timing_period a p) = p"
  "mt_type KDefTiming = kImmediately"
  by (simp_all add: Timing_after_def Timing_period_def KDefTiming_def)

lemmas due_defs = due_def delay_def one_shot_def gettickspan_def to_off_def

section \<open>Scheduling\<close>

text \<open>
  C8: A pass of a run loop that is not broken takes the first message of the queue that is due. A
  one-shot message leaves the queue and is owned by the loop, a periodic one stays in its place with its
  period restarted; the order of all other messages is unchanged. The message is dispatched to
  exactly the handlers it fits, in the order they were installed, and the loop's record names the
  message and those handlers.
\<close>

theorem Run_iter_takes_first_due:
  assumes inv: "mq_inv s" and c: "sg_map s q = Some c" "mc_runloop c \<noteq> []"
    and nb: "\<not> breaks brk c (pass_state q c s)"
    and ms: "mc_message c = us @ w # vs" and us: "\<forall>u \<in> set us. \<not> due now u" and w: "due now w"
  shows "\<exists>s' c'. Run_iter None brk tid q now s =
      Inr (RL_Dispatch (if one_shot w then Owned w else Shared (mw_addr w)) (mw_postid w)
             (filter (fits_handler (mw_postid w)) (mc_handler c)), s')
    \<and> sg_map s' = (sg_map s)(q \<mapsto> c')
    \<and> mc_message c' = (if one_shot w then us @ vs else us @ rearm now w # vs)
    \<and> mc_handler c' = mc_handler c
    \<and> rl_message_id (last (mc_runloop c')) = mw_postid w
    \<and> rl_handler (last (mc_runloop c')) = map hw_reg (filter (fits_handler (mw_postid w)) (mc_handler c))"
proof -
  note qi = mq_invD [OF inv c(1)]
  then have wt: "\<forall>u \<in> set us. well_timed u \<and> \<not> due now u" "well_timed w" "mc_breaker c \<noteq> None"
    using ms us by (auto simp: queue_inv_def wrapper_inv_def)
  then obtain wt' where "pick now (10 * 60 * 1000) (mc_message c) =
      (if one_shot w then (Some (Owned w, w), us @ vs, wt')
       else (Some (Shared (mw_addr w), rearm now w), us @ rearm now w # vs, wt'))"
    using pick_first_due [of us now w "10 * 60 * 1000" vs] w ms by auto
  then show ?thesis
    using Run_iter_eq [OF c wt(3), of brk tid now] nb c
    by (auto simp: Run_take_def Let_def cleared_def)
qed

theorem Run_iter_takes_first_due_witness:
  "\<exists>s' c'. Run_iter None None 7 7 130 (ex_state [ex_wrapper 2 5 (Timing_after 50), ex_wrapper 3 6 (Timing_period 20 40)]) =
      Inr (RL_Dispatch (Shared 3) \<lparr>mp_reg = ex_hid, mp_seq = 6\<rparr>
             [HandlerWrapper_new AsyncInvokeHandler False 7 1], s')
    \<and> sg_map s' 7 = Some c' \<and> map mw_record_time (mc_message c') = [100, 130]"
proof -
  let ?w = "ex_wrapper 3 6 (Timing_period 20 40)"
  let ?u = "ex_wrapper 2 5 (Timing_after 50)"
  have "mq_inv (ex_state [?u, ?w])"
    by (rule ex_state_inv) simp_all
  moreover have "due 130 ?w" "\<not> due 130 ?u" "\<not> one_shot ?w" by (simp_all add: due_defs)
  moreover have "fits_handler \<lparr>mp_reg = ex_hid, mp_seq = 6\<rparr> (HandlerWrapper_new AsyncInvokeHandler False 7 1)"
    by (simp add: fits_handler_def ex_hid_def)
  ultimately show ?thesis
    using Run_iter_takes_first_due [of "ex_state [?u, ?w]" 7 "ex_content [?u, ?w]" None "[?u]" ?w "[]" 130 7]
    by (auto simp: breaks_def)
qed

text \<open>Ticks and delays below \<open>2^63\<close>, and no message recorded in the future.\<close>

definition in_time :: "nat \<Rightarrow> 'a MessageWrapper \<Rightarrow> bool" where
  "in_time now w \<longleftrightarrow> mw_record_time w \<le> now \<and> delay w < 2 ^ 63"

lemma gettickspan_eq: "old \<le> now \<Longrightarrow> now < 2 ^ 63 \<Longrightarrow> gettickspan now old = int now - int old"
  by (simp add: gettickspan_def to_off_id)

lemma remaining_eq:
  assumes "in_time now w" "now < 2 ^ 63" "\<not> due now w"
  shows "remaining now w = delay w + int (mw_record_time w) - int now" "0 < remaining now w"
proof -
  have g: "gettickspan now (mw_record_time w) = int now - int (mw_record_time w)"
    using assms gettickspan_eq by (simp add: in_time_def)
  have "int now - int (mw_record_time w) < delay w" using assms(3) g by (simp add: due_def)
  moreover have "0 \<le> int now - int (mw_record_time w)" "delay w < 2 ^ 63" using assms(1) by (simp_all add: in_time_def)
  ultimately show "remaining now w = delay w + int (mw_record_time w) - int now" "0 < remaining now w"
    unfolding remaining_def g by (simp_all add: to_off_id)
qed

lemma due_later:
  assumes "in_time now w" "\<not> due now w" "now \<le> now'" "now' < 2 ^ 63"
  shows "due now' w \<longleftrightarrow> remaining now w \<le> int (now' - now)"
proof -
  have "mt_type (mw_timing w) \<noteq> kImmediately" using assms(2) by (auto simp: due_def)
  then have "due now' w \<longleftrightarrow> delay w \<le> int now' - int (mw_record_time w)"
    using assms gettickspan_eq [of "mw_record_time w" now'] by (simp add: due_def in_time_def)
  then show ?thesis using remaining_eq(1) [OF assms(1) _ assms(2)] assms(3,4) by auto
qed

text \<open>
  When no message is due the pass changes nothing but the loop's own record and the loop sleeps for
  a time between 1 ms and 10 minutes that is exactly right: no pending message becomes due before the
  sleep ends, and unless the sleep is the 10 minutes cap some message is due when it ends.
\<close>

theorem Run_iter_sleeps:
  assumes inv: "mq_inv s" and c: "sg_map s q = Some c" "mc_runloop c \<noteq> []"
    and nb: "\<not> breaks brk c (pass_state q c s)"
    and nd: "\<forall>w \<in> set (mc_message c). \<not> due now w \<and> in_time now w" and now: "now + 600000 < 2 ^ 63"
  shows "\<exists>t. Run_iter None brk tid q now s = Inr (RL_Wait (int t), pass_state q c s)
    \<and> 0 < t \<and> t \<le> 600000
    \<and> (\<forall>w \<in> set (mc_message c). \<forall>d < t. \<not> due (now + d) w)
    \<and> (t = 600000 \<or> (\<exists>w \<in> set (mc_message c). due (now + t) w))"
proof -
  let ?A = "insert 600000 (remaining now ` set (mc_message c))"
  define m where "m = Min ?A"
  have qi: "\<forall>w \<in> set (mc_message c). well_timed w" "mc_breaker c \<noteq> None"
    using mq_invD [OF inv c(1)] by (auto simp: queue_inv_def wrapper_inv_def)
  have p: "pick now (10 * 60 * 1000) (mc_message c) = (None, mc_message c, m)"
    using pick_none_due [of "mc_message c" now "10 * 60 * 1000"] qi nd by (simp add: m_def)
  have m_in: "m \<in> ?A" unfolding m_def by (rule Min_in) simp_all
  have m_le: "m \<le> x" if "x \<in> ?A" for x unfolding m_def using that by (intro Min_le) simp_all
  have "0 < m" using m_in nd now remaining_eq(2) [of now] by auto
  moreover have "m \<le> 600000" by (rule m_le) simp
  moreover have "\<not> due (now + d) w" if "w \<in> set (mc_message c)" "int d < m" for w d
    using that nd now m_le [of "remaining now w"] \<open>m \<le> 600000\<close> due_later [of now w "now + d"] by auto
  moreover have "m = 600000 \<or> (\<exists>w \<in> set (mc_message c). due (now + nat m) w)"
  proof (cases "m = 600000")
    case False
    then obtain w where w: "w \<in> set (mc_message c)" "m = remaining now w" using m_in by auto
    then show ?thesis
      using nd now \<open>0 < m\<close> \<open>m \<le> 600000\<close> due_later [of now w "now + nat m"] by (auto intro!: bexI [of _ w])
  qed simp
  ultimately show ?thesis
    using Run_iter_eq [OF c qi(2), of brk tid now] nb p
    by (intro exI [of _ "nat m"]) auto
qed

theorem Run_iter_sleeps_witness:
  "\<exists>t. Run_iter None None 7 7 130 (ex_state [ex_wrapper 2 5 (Timing_after 50)]) =
      Inr (RL_Wait (int t), pass_state 7 (ex_content [ex_wrapper 2 5 (Timing_after 50)])
        (ex_state [ex_wrapper 2 5 (Timing_after 50)]))
    \<and> 0 < t \<and> t \<le> 600000
    \<and> (\<forall>d < t. \<not> due (130 + d) (ex_wrapper 2 5 (Timing_after 50)))
    \<and> (t = 600000 \<or> due (130 + t) (ex_wrapper 2 5 (Timing_after 50)))"
proof -
  let ?u = "ex_wrapper 2 5 (Timing_after 50)"
  have "mq_inv (ex_state [?u])" by (rule ex_state_inv) simp_all
  moreover have "\<not> due 130 ?u" by (simp add: due_defs)
  moreover have "in_time 130 ?u" by (simp add: in_time_def delay_def)
  ultimately show ?thesis
    using Run_iter_sleeps [of "ex_state [?u]" 7 "ex_content [?u]" None 130 7]
    by (simp add: breaks_def)
qed

section \<open>Breaking\<close>

text \<open>
  C27: A queue on which one loop runs is torn down when it is broken: right after \<open>BreakMessageQueueRunloop\<close> the
  next pass of that loop ends it and removes the queue and nothing else; every thread that waits for one
  of its pending messages, and every thread that waits for the message just run, has been notified.
\<close>

theorem Break_ends_loop:
  assumes inv: "mq_inv s" and c: "sg_map s q = Some c" "mc_runloop c = [rl]"
    and b: "BreakMessageQueueRunloop q s = Inr s1"
  shows "\<exists>s'. Run_iter None brk q q now s1 = Inr (RL_Done, s')
    \<and> sg_map s' = (sg_map s)(q := None) \<and> woken s1 (rl_cond rl) s'
    \<and> (\<forall>w \<in> set (mc_message c). \<forall>k. mw_wait_end_cond w = Some k \<longrightarrow> woken s1 k s')"
proof -
  obtain k where k: "mc_breaker c = Some k" using mq_invD [OF inv c(1)] by (auto simp: queue_inv_def)
  let ?c = "c\<lparr>mc_breakflag := True\<rparr>"
  have s1: "s1 = notify k (set_content q ?c s)"
    using b c k by (simp add: BreakMessageQueueRunloop_def notify_breaker_def)
  define s' where "s' = Run_exit q q (pass_content ?c) (pass_state q ?c s1)"
  have "Run_iter None brk q q now s1 = Inr (RL_Done, s')"
    using Run_iter_eq [of s1 q ?c brk q now] c k by (simp add: s1 breaks_def s'_def)
  moreover have "s' = ReleaseMessageQueueInfo q (set_content q (pass_content ?c\<lparr>mc_runloop := []\<rparr>) (pass_state q ?c s1))"
    using c by (simp add: s'_def Run_exit_def)
  then have "sg_map s' = (sg_map s)(q := None)"
    "sg_signals s' = sg_signals s1 @ rl_cond rl # List.map_filter mw_wait_end_cond (mc_message c)"
    using c by (simp_all add: ReleaseMessageQueueInfo_def fold_delete_signals s1)
  moreover have "k \<in> set (List.map_filter mw_wait_end_cond (mc_message c))"
    if "w \<in> set (mc_message c)" "mw_wait_end_cond w = Some k" for w k
    using that map_filter_waits [of "mw_postid w" k "mc_message c"] by (auto simp: waits_def)
  ultimately show ?thesis by (auto simp: woken_def)
qed

theorem Break_ends_loop_witness:
  "\<exists>s1 s'. BreakMessageQueueRunloop 7 (ex_state [ex_wrapper 2 5 KDefTiming]) = Inr s1
    \<and> Run_iter None None 7 7 130 s1 = Inr (RL_Done, s') \<and> sg_map s' = Map.empty \<and> woken s1 1 s'"
proof -
  let ?s = "ex_state [ex_wrapper 2 5 KDefTiming]"
  have "mq_inv ?s" by (rule ex_state_inv) simp_all
  moreover obtain s1 where "BreakMessageQueueRunloop 7 ?s = Inr s1"
    by (simp add: BreakMessageQueueRunloop_def notify_breaker_def)
  ultimately show ?thesis
    using Break_ends_loop [of ?s 7 "ex_content [ex_wrapper 2 5 KDefTiming]" "RunLoopInfo_new 1" s1 None 130]
    by (auto simp: RunLoopInfo_new_def)
qed

section \<open>Posting, replacing, cancelling\<close>

definition matching :: "MessageHandler_t \<Rightarrow> 'a Message \<Rightarrow> 'a MessageWrapper \<Rightarrow> bool" where
  "matching hid m w \<longleftrightarrow> mp_reg (mw_postid w) = hid \<and> Message_eq (mw_message w) m"

text \<open>
  Posting to a live queue never fails: the id returned names the handler and the next sequence
  number, the message is appended behind all others, the loop is notified, and no other queue changes.
  Cancelling by that id, when no other pending message has it, returns true, puts the message list back
  as it was and leaves nothing under that id.
\<close>

theorem PostMessage_then_cancel:
  assumes inv: "mq_inv s" and c: "sg_map s (mh_queue hid) = Some c"
    and nz: "mh_queue hid \<noteq> 0" "sg_seq s + 1 \<noteq> 0"
    and new: "\<forall>w \<in> set (mc_message c). mw_postid w \<noteq> \<lparr>mp_reg = hid, mp_seq = sg_seq s + 1\<rparr>"
  shows "\<exists>p s' c' w k s2. PostMessage now hid m t s = Inr (p, s')
    \<and> p = \<lparr>mp_reg = hid, mp_seq = sg_seq s + 1\<rparr>
    \<and> sg_map s' = (sg_map s)(mh_queue hid \<mapsto> c') \<and> mc_message c' = mc_message c @ [w]
    \<and> mw_postid w = p \<and> mw_message w = m \<and> mw_timing w = t
    \<and> mc_breaker c = Some k \<and> sg_signals s' = sg_signals s @ [k]
    \<and> CancelMessage_post p s' = (True, s2) \<and> sg_map s2 = sg_map s"
proof -
  obtain k where k: "mc_breaker c = Some k" using mq_invD [OF inv c] by (auto simp: queue_inv_def)
  let ?w = "MessageWrapper_new now hid m t (sg_seq s + 1) (sg_fresh s)"
  let ?p = "\<lparr>mp_reg = hid, mp_seq = sg_seq s + 1\<rparr>"
  let ?c = "c\<lparr>mc_message := mc_message c @ [?w]\<rparr>"
  obtain s' where post: "PostMessage now hid m t s = Inr (?p, s')"
    and s': "sg_map s' = (sg_map s)(mh_queue hid \<mapsto> ?c)" "sg_signals s' = sg_signals s @ [k]"
    using c k by (simp add: PostMessage_def case_prod_beta push_message_eq)
  have "List.extract (\<lambda>w. ?p = mw_postid w) (mc_message ?c) = Some (mc_message c, ?w, [])"
    using new by (auto simp: extract_Some_iff)
  moreover have "c\<lparr>mc_message := mc_message c\<rparr> = c" by simp
  ultimately have "CancelMessage_post ?p s' = (True, set_content (mh_queue hid) c (MessageWrapper_delete ?w s'))"
    using s'(1) nz by (simp add: CancelMessage_post_def)
  moreover have "sg_map (set_content (mh_queue hid) c (MessageWrapper_delete ?w s')) = sg_map s"
    using s'(1) c by (simp add: fun_upd_idem)
  ultimately show ?thesis
    using post s' k
    by (rule_tac x = ?p in exI, rule_tac x = s' in exI, rule_tac x = ?c in exI, rule_tac x = ?w in exI,
        rule_tac x = k in exI) simp
qed

theorem PostMessage_then_cancel_witness:
  "\<exists>s' s2. PostMessage 130 ex_hid ex_msg KDefTiming (ex_state [ex_wrapper 2 1 KDefTiming])
      = Inr (\<lparr>mp_reg = ex_hid, mp_seq = 2\<rparr>, s') \<and> sg_signals s' = [0]
    \<and> CancelMessage_post \<lparr>mp_reg = ex_hid, mp_seq = 2\<rparr> s' = (True, s2)
    \<and> sg_map s2 = sg_map (ex_state [ex_wrapper 2 1 KDefTiming])"
proof -
  let ?s = "ex_state [ex_wrapper 2 1 KDefTiming]"
  have "mq_inv ?s" by (rule ex_state_inv) simp_all
  then show ?thesis
    using PostMessage_then_cancel [of ?s ex_hid "ex_content [ex_wrapper 2 1 KDefTiming]" 130 ex_msg KDefTiming]
    by auto
qed

text \<open>
  \<open>SingletonMessage\<close> keeps at most one pending message per handler and title: afterwards exactly
  one matches (when at most one did before), the messages that do not match are untouched and in
  order, and the id returned is the id of that message. When one was pending its id is kept, whether it
  is replaced or not.
\<close>

theorem SingletonMessage_unique:
  assumes inv: "mq_inv s" and c: "sg_map s (mh_queue hid) = Some c"
    and one: "length (filter (matching hid m) (mc_message c)) \<le> 1"
    and seq: "\<forall>w \<in> set (mc_message c). mp_seq (mw_postid w) \<noteq> 0"
  shows "\<exists>p s' c' w. SingletonMessage replace now hid m t s = Inr (p, s')
    \<and> sg_map s' = (sg_map s)(mh_queue hid \<mapsto> c')
    \<and> filter (matching hid m) (mc_message c') = [w] \<and> mw_postid w = p
    \<and> filter (\<lambda>w. \<not> matching hid m w) (mc_message c') = filter (\<lambda>w. \<not> matching hid m w) (mc_message c)
    \<and> (\<forall>v \<in> set (mc_message c). matching hid m v \<longrightarrow> mw_postid v = p \<and> (\<not> replace \<longrightarrow> w = v))
    \<and> (replace \<longrightarrow> mw_message w = m \<and> mw_timing w = t)"
proof -
  obtain k where k: "mc_breaker c = Some k" using mq_invD [OF inv c] by (auto simp: queue_inv_def)
  have P: "(\<lambda>w. mp_reg (mw_postid w) = hid \<and> Message_eq (mw_message w) m) = matching hid m"
    by (auto simp: matching_def)
  have new: "matching hid m (MessageWrapper_new now hid m t sq a)" for sq a
    by (simp add: matching_def Message_eq_def)
  show ?thesis
  proof (cases "List.extract (matching hid m) (mc_message c)")
    case None
    then have none: "\<forall>v \<in> set (mc_message c). \<not> matching hid m v" by (auto simp: extract_None_iff)
    then have "filter (matching hid m) (mc_message c) = []" by (simp add: filter_empty_conv)
    then show ?thesis
      using c k None new none
      by (auto simp: SingletonMessage_def P case_prod_beta push_message_eq intro!: exI)
  next
    case (Some x)
    obtain us w vs where x: "x = (us, w, vs)" by (cases x) auto
    note sp = extract_SomeD [OF Some [unfolded x]]
    then have none: "filter (matching hid m) us = []" "filter (matching hid m) vs = []"
      using one by (simp_all add: filter_empty_conv)
    then have only: "v = w" if "v \<in> set (mc_message c)" "matching hid m v" for v
      using that sp by (auto simp: filter_empty_conv)
    show ?thesis
    proof (cases replace)
      case False
      then have eq: "SingletonMessage replace now hid m t s = Inr (mw_postid w, s)"
        using c Some x by (simp add: SingletonMessage_def P)
      have m: "sg_map s = (sg_map s)(mh_queue hid \<mapsto> c)" using c by (simp add: fun_upd_idem)
      have f: "filter (matching hid m) (mc_message c) = [w]" using none sp by simp
      show ?thesis
        by (rule exI, rule exI, rule exI [of _ c], rule exI [of _ w], intro conjI, rule eq, rule m, rule f)
          (use only False in auto)
    next
      case True
      have "mp_reg (mw_postid w) = hid" "mp_seq (mw_postid w) \<noteq> 0" using sp seq by (auto simp: matching_def)
      let ?w = "MessageWrapper_new now hid m t (mp_seq (mw_postid w)) (sg_fresh s)"
      let ?c = "c\<lparr>mc_message := us @ vs @ [?w]\<rparr>"
      have id: "mw_postid ?w = mw_postid w" using \<open>mp_reg (mw_postid w) = hid\<close> by simp
      define s' where "s' = notify k (set_content (mh_queue hid) ?c (snd (new_addr (MessageWrapper_delete w s))))"
      have "SingletonMessage replace now hid m t s = Inr (mw_postid ?w, s')"
        using True c k Some x \<open>mp_seq (mw_postid w) \<noteq> 0\<close>
        by (simp add: SingletonMessage_def P case_prod_beta Let_def push_message_eq s'_def)
      then have s': "SingletonMessage replace now hid m t s = Inr (mw_postid w, s')"
          "sg_map s' = (sg_map s)(mh_queue hid \<mapsto> ?c)"
        unfolding id by (simp_all add: s'_def)
      show ?thesis
      proof (intro exI conjI)
        show "SingletonMessage replace now hid m t s = Inr (mw_postid w, s')"
          "sg_map s' = (sg_map s)(mh_queue hid \<mapsto> ?c)" "mw_postid ?w = mw_postid w" by (rule s' id)+
        show "filter (matching hid m) (mc_message ?c) = [?w]" using none new by simp
        show "filter (\<lambda>w. \<not> matching hid m w) (mc_message ?c) = filter (\<lambda>w. \<not> matching hid m w) (mc_message c)"
          using sp new by simp
        show "\<forall>v \<in> set (mc_message c). matching hid m v \<longrightarrow> mw_postid v = mw_postid w \<and> (\<not> replace \<longrightarrow> ?w = v)"
          using only True by auto
        show "replace \<longrightarrow> mw_message ?w = m \<and> mw_timing ?w = t" by simp
      qed
    qed
  qed
qed

theorem SingletonMessage_unique_witness:
  "\<exists>p s' c' w. SingletonMessage True 130 ex_hid ex_msg KDefTiming (ex_state [ex_wrapper 2 5 (Timing_after 50)])
      = Inr (p, s') \<and> sg_map s' 7 = Some c' \<and> filter (matching ex_hid ex_msg) (mc_message c') = [w]
    \<and> mw_postid w = p \<and> p = \<lparr>mp_reg = ex_hid, mp_seq = 5\<rparr> \<and> mw_timing w = KDefTiming"
proof -
  let ?u = "ex_wrapper 2 5 (Timing_after 50)"
  have "mq_inv (ex_state [?u])" by (rule ex_state_inv) simp_all
  moreover have "matching ex_hid ex_msg ?u" by (simp add: matching_def Message_eq_def)
  ultimately show ?thesis
    using SingletonMessage_unique [of "ex_state [?u]" ex_hid "ex_content [?u]" ex_msg True 130 KDefTiming]
    by fastforce
qed

text \<open>
  \<open>FasterMessage\<close> brings a pending message forward and never puts it off: the only matching message
  keeps its id, and the time it still has to wait is the smaller of what it had and what the new
  timing asks for; all other messages are untouched.
\<close>

theorem FasterMessage_min_wait:
  assumes inv: "mq_inv s" and c: "sg_map s (mh_queue hid) = Some c"
    and one: "filter (matching hid m) (mc_message c) = [w]"
  shows "\<exists>s' c' w'. FasterMessage now hid m t s = Inr (mw_postid w, s')
    \<and> sg_map s' (mh_queue hid) = Some c' \<and> filter (matching hid m) (mc_message c') = [w']
    \<and> mw_postid w' = mw_postid w
    \<and> ComputerWaitTime now w' = min (ComputerWaitTime now w)
         (ComputerWaitTime now (MessageWrapper_new now hid m t (sg_seq s + 1) (sg_fresh s)))
    \<and> filter (\<lambda>w. \<not> matching hid m w) (mc_message c') = filter (\<lambda>w. \<not> matching hid m w) (mc_message c)"
proof -
  obtain k where k: "mc_breaker c = Some k" using mq_invD [OF inv c] by (auto simp: queue_inv_def)
  have P: "(\<lambda>w. mp_reg (mw_postid w) = hid \<and> Message_eq (mw_message w) m) = matching hid m"
    by (auto simp: matching_def)
  let ?n = "MessageWrapper_new now hid m t (sg_seq s + 1) (sg_fresh s)"
  let ?s2 = "snd (new_addr (snd (MakeSeq s)))"
  have "w \<in> set (filter (matching hid m) (mc_message c))" using one by simp
  then have "List.extract (matching hid m) (mc_message c) \<noteq> None" by (auto simp: extract_None_iff)
  then obtain us v vs where ex: "List.extract (matching hid m) (mc_message c) = Some (us, v, vs)" by auto
  note sp = extract_SomeD [OF ex]
  have none: "v = w" "filter (matching hid m) us = []" "filter (matching hid m) vs = []"
    using one sp by (auto simp: filter_empty_conv append_eq_Cons_conv)
  show ?thesis
  proof (cases "ComputerWaitTime now w < ComputerWaitTime now ?n")
    case True
    then have "FasterMessage now hid m t s = Inr (mw_postid w, MessageWrapper_delete ?n ?s2)"
      using c ex none by (simp add: FasterMessage_def P case_prod_beta Let_def)
    then show ?thesis using c one True by (auto intro!: exI)
  next
    case False
    let ?w = "?n\<lparr>mw_postid := mw_postid w\<rparr>"
    let ?c = "c\<lparr>mc_message := us @ vs @ [?w]\<rparr>"
    define s' where "s' = notify k (set_content (mh_queue hid) ?c (MessageWrapper_delete w ?s2))"
    have eq: "FasterMessage now hid m t s = Inr (mw_postid w, s')"
      using c ex none False k by (simp add: FasterMessage_def P case_prod_beta Let_def push_message_eq s'_def)
    have "matching hid m ?w" using sp none by (simp add: matching_def Message_eq_def)
    then have f: "filter (matching hid m) (mc_message ?c) = [?w]"
        "filter (\<lambda>w. \<not> matching hid m w) (mc_message ?c) = filter (\<lambda>w. \<not> matching hid m w) (mc_message c)"
      using sp none by simp_all
    have cw: "ComputerWaitTime now ?w = ComputerWaitTime now ?n" by (simp add: ComputerWaitTime_def split: TMessageTiming.splits)
    show ?thesis
      by (rule exI, rule exI [of _ ?c], rule exI [of _ ?w], intro conjI, rule eq)
        (use f cw False in \<open>simp_all add: s'_def\<close>)
  qed
qed

theorem FasterMessage_min_wait_witness:
  "\<exists>s' c' w'. FasterMessage 130 ex_hid ex_msg (Timing_after 5) (ex_state [ex_wrapper 2 5 (Timing_after 50)])
      = Inr (\<lparr>mp_reg = ex_hid, mp_seq = 5\<rparr>, s') \<and> sg_map s' 7 = Some c'
    \<and> filter (matching ex_hid ex_msg) (mc_message c') = [w'] \<and> ComputerWaitTime 130 w' = 5"
proof -
  let ?u = "ex_wrapper 2 5 (Timing_after 50)"
  have "mq_inv (ex_state [?u])" by (rule ex_state_inv) simp_all
  moreover have "matching ex_hid ex_msg ?u" by (simp add: matching_def Message_eq_def)
  moreover have "ComputerWaitTime 130 ?u = 20"
    "ComputerWaitTime 130 (MessageWrapper_new 130 ex_hid ex_msg (Timing_after 5) sq a) = 5" for sq a
    by (simp_all add: ComputerWaitTime_def MessageWrapper_new_def gettickspan_def to_off_def)
  ultimately show ?thesis
    using FasterMessage_min_wait [of "ex_state [?u]" ex_hid "ex_content [?u]" ex_msg ?u 130 "Timing_after 5"]
    by fastforce
qed

definition titled :: "MessageHandler_t \<Rightarrow> MessageTitle_t \<Rightarrow> 'a MessageWrapper \<Rightarrow> bool" where
  "titled hid title w \<longleftrightarrow> mp_reg (mw_postid w) = hid \<and> msg_title (mw_message w) = title"

text \<open>
  Cancelling by handler and title removes exactly the pending messages that match, keeps the order of
  the others and all other queues, and wakes every thread that waits for a removed message.
\<close>

theorem CancelMessage_title_exact:
  assumes "sg_map s (mh_queue hid) = Some c" "mh_queue hid \<noteq> 0"
  shows "\<exists>c'. sg_map (CancelMessage_title hid title s) = (sg_map s)(mh_queue hid \<mapsto> c')
    \<and> mc_message c' = filter (\<lambda>w. \<not> titled hid title w) (mc_message c)
    \<and> mc_handler c' = mc_handler c \<and> mc_runloop c' = mc_runloop c
    \<and> (\<forall>w \<in> set (mc_message c). \<forall>k. titled hid title w \<and> mw_wait_end_cond w = Some k
         \<longrightarrow> woken s k (CancelMessage_title hid title s))"
proof -
  let ?P = "titled hid title"
  have P: "(\<lambda>w. hid = mp_reg (mw_postid w) \<and> title = msg_title (mw_message w)) = ?P"
    by (auto simp: titled_def)
  have "CancelMessage_title hid title s = erase_all ?P (mh_queue hid) c s"
    using assms(1,2) by (simp add: CancelMessage_title_def P)
  moreover have "k \<in> set (List.map_filter mw_wait_end_cond (filter ?P (mc_message c)))"
    if "w \<in> set (mc_message c)" "?P w" "mw_wait_end_cond w = Some k" for w k
    using that map_filter_waits [of "mw_postid w" k "filter ?P (mc_message c)"] by (auto simp: waits_def)
  ultimately show ?thesis by (auto simp: erase_all_def woken_def fold_delete_signals)
qed

theorem CancelMessage_title_exact_witness:
  "\<exists>c'. sg_map (CancelMessage_title ex_hid 3 (ex_state [ex_wrapper 2 5 KDefTiming])) = [7 \<mapsto> c'] \<and> mc_message c' = []"
  using CancelMessage_title_exact [of "ex_state [ex_wrapper 2 5 KDefTiming]" ex_hid
      "ex_content [ex_wrapper 2 5 KDefTiming]" 3]
  by (auto simp: titled_def ex_msg_def Message_mk_def)

text \<open>
  Cancelling a scoped registration takes the handler out of service for good: with distinct
  registrations in the queue, no pending message is addressed to it and no installed handler has it, so no
  later pass runs it; and the caller either returns because no loop is running the handler, or
  waits on the condition of a loop that is.
\<close>

theorem ScopeRegister_CancelAndWait_retires:
  assumes c: "sg_map s (mh_queue reg) = Some c" and nz: "mh_queue reg \<noteq> 0" "mh_seq reg \<noteq> 0"
    and d: "distinct (map hw_reg (mc_handler c))"
    and r: "ScopeRegister_CancelAndWait tid reg s = (out, s')" and tid: "tid \<noteq> mh_queue reg"
  shows "\<exists>c'. sg_map s' = (sg_map s)(mh_queue reg \<mapsto> c')
    \<and> (\<forall>w \<in> set (mc_message c'). mp_reg (mw_postid w) \<noteq> reg)
    \<and> (\<forall>h \<in> set (mc_handler c'). hw_reg h \<noteq> reg)
    \<and> (case out of
         Returns \<Rightarrow> \<forall>rl \<in> set (mc_runloop c'). reg \<notin> set (rl_handler rl)
       | Blocks_On k \<Rightarrow> \<exists>rl \<in> set (mc_runloop c'). rl_cond rl = k \<and> reg \<in> set (rl_handler rl))"
proof -
  define hs where "hs = (case List.extract (\<lambda>w. reg = hw_reg w) (mc_handler c) of
      None \<Rightarrow> mc_handler c | Some (us, _, vs) \<Rightarrow> us @ vs)"
  have hs: "\<forall>h \<in> set hs. hw_reg h \<noteq> reg"
  proof (cases "List.extract (\<lambda>w. reg = hw_reg w) (mc_handler c)")
    case None
    then have "hs = mc_handler c" by (simp add: hs_def)
    with None show ?thesis by (auto simp: extract_None_iff)
  next
    case (Some x)
    obtain us w vs where x: "x = (us, w, vs)" by (cases x) auto
    with Some have "mc_handler c = us @ w # vs" "reg = hw_reg w" by (auto dest: extract_SomeD)
    then show ?thesis using d Some x distinct_map_middle [of hw_reg us w vs] by (auto simp: hs_def)
  qed
  have u: "sg_map (UnInstallMessageHandler reg s) = (sg_map s)(mh_queue reg \<mapsto> c\<lparr>mc_handler := hs\<rparr>)"
    using c nz by (auto simp: UnInstallMessageHandler_def hs_def fun_upd_idem split: option.splits)
  define c' where "c' = c\<lparr>mc_handler := hs, mc_message := filter (\<lambda>w. \<not> reg = mp_reg (mw_postid w)) (mc_message c)\<rparr>"
  have s': "s' = CancelMessage_handler reg (UnInstallMessageHandler reg s)"
      "out = WaitForRunningLockEnd_handler tid reg s'"
    using r by (auto simp: ScopeRegister_CancelAndWait_def ScopeRegister_Cancel_def Let_def)
  have m: "sg_map s' = (sg_map s)(mh_queue reg \<mapsto> c')"
    using nz by (simp add: s'(1) CancelMessage_handler_def u erase_all_def c'_def)
  have "mh_queue reg \<noteq> CurrentThreadMessageQueue tid s'"
    using tid nz by (auto simp: CurrentThreadMessageQueue_def KInvalidQueueID_def)
  then have "case out of
         Returns \<Rightarrow> \<forall>rl \<in> set (mc_runloop c'). reg \<notin> set (rl_handler rl)
       | Blocks_On k \<Rightarrow> \<exists>rl \<in> set (mc_runloop c'). rl_cond rl = k \<and> reg \<in> set (rl_handler rl)"
    unfolding s'(2) using m
    by (auto simp: WaitForRunningLockEnd_handler_def Handler2Queue_def Let_def find_None_iff
        dest!: find_SomeD split: option.splits)
  moreover have "\<forall>w \<in> set (mc_message c'). mp_reg (mw_postid w) \<noteq> reg" "mc_handler c' = hs"
    by (auto simp: c'_def)
  ultimately show ?thesis using m hs by auto
qed

theorem ScopeRegister_CancelAndWait_retires_witness:
  "\<exists>out s' c'. ScopeRegister_CancelAndWait 9 ex_hid (ex_state [ex_wrapper 2 5 KDefTiming]) = (out, s')
    \<and> sg_map s' 7 = Some c' \<and> (\<forall>h \<in> set (mc_handler c'). hw_reg h \<noteq> ex_hid)"
proof -
  obtain out s' where "ScopeRegister_CancelAndWait 9 ex_hid (ex_state [ex_wrapper 2 5 KDefTiming]) = (out, s')"
    by fastforce
  with ScopeRegister_CancelAndWait_retires [of "ex_state [ex_wrapper 2 5 KDefTiming]" ex_hid
      "ex_content [ex_wrapper 2 5 KDefTiming]" 9 out s']
  show ?thesis by auto
qed

section \<open>Whole runs\<close>

text \<open>
  C2: Whatever calls clients make and however they interleave with the run loops of all threads, the
  invariant of the queues holds: messages and handlers sit in the queue they are addressed to, wrappers
  have distinct addresses, breakers are not null, and every queue has as many loop records as its
  thread has loops running.
\<close>

theorem reachable_invariant:
  "mq_run eff sys_init es st \<Longrightarrow> sys_inv st"
  by (rule mq_run_inv)

theorem reachable_invariant_witness:
  "\<exists>st. mq_run (\<lambda>_ _ m. m) sys_init [E_Call (C_Create None 7), E_Enter 7 None] (st :: (nat, nat) sys) \<and> sys_inv st"
proof -
  have "\<exists>st. run_events (\<lambda>_ _ m. m) [E_Call (C_Create None 7), E_Enter 7 None] (sys_init :: (nat, nat) sys) = Some st"
    unfolding not_None_eq [symmetric] by code_simp
  then show ?thesis using run_events_run reachable_invariant by blast
qed

text \<open>
  C16: No run ever faults on entering a loop, in a pass of a loop, at the end of a dispatch or in a call
  of the interface, but for two cases. The call of a handler with a periodic message that is no longer in
  the queue, whose wrapper has been deleted, uses freed memory. \<^verbatim>\<open>RunningMessage\<close> and
  \<^verbatim>\<open>RunningMessageID\<close> read the last element of an empty list when the queue they ask about exists and
  no loop runs on it.
\<close>

theorem reachable_only_fault:
  assumes "mq_run eff sys_init es st" "sys_step eff e st = Some (Inl err)"
  shows "(\<exists>tid a p hs. e = E_Invoke tid \<and> err = Use_After_Free
      \<and> snd (hd (sys_loops st tid)) = RL_Dispatch (Shared a) p hs
      \<and> (\<forall>c. sg_map (sys_mq st) tid = Some c \<longrightarrow> (\<forall>w \<in> set (mc_message c). mw_addr w \<noteq> a)))
    \<or> (\<exists>q. (e = E_RunningMessage q \<or> e = E_RunningMessageID q) \<and> err = Empty_Container
      \<and> sg_map (sys_mq st) q \<noteq> None \<and> sys_loops st q = [])"
  using sys_step_fault [OF mq_run_inv [OF assms(1)] assms(2)] .

definition ex_cancel_run :: "(nat, nat) event list" where
  "ex_cancel_run = [E_Call (C_Create None 7), E_Enter 7 None,
     E_Call (C_Post 100 ex_hid ex_msg (Timing_period 0 40)), E_Iter 7 130,
     E_Call (C_Cancel \<lparr>mp_reg = ex_hid, mp_seq = 2\<rparr>)]"

theorem reachable_only_fault_witness:
  "\<exists>st a p hs. mq_run (\<lambda>_ _ m. m) sys_init ex_cancel_run st
    \<and> sys_step (\<lambda>_ _ m. m) (E_Invoke 7) st = Some (Inl Use_After_Free)
    \<and> snd (hd (sys_loops st 7)) = RL_Dispatch (Shared a) p hs"
proof -
  have "case run_events (\<lambda>_ _ m. m) ex_cancel_run sys_init of None \<Rightarrow> False
      | Some st \<Rightarrow> (case sys_step (\<lambda>_ _ m. m) (E_Invoke 7) st of Some (Inl e) \<Rightarrow> True | _ \<Rightarrow> False)"
    by code_simp
  then obtain st e where st: "run_events (\<lambda>_ _ m. m) ex_cancel_run sys_init = Some st"
    and e: "sys_step (\<lambda>_ _ m. m) (E_Invoke 7) st = Some (Inl e)"
    by (auto split: option.splits sum.splits)
  from reachable_only_fault [OF run_events_run [OF st] e] run_events_run [OF st] e
  show ?thesis by blast
qed

text \<open>
  C1: No lost wake-up: when \<open>WaitMessage\<close> blocks on a condition in a reachable state, then in any later
  state in which the message is neither pending, nor being run, nor owned by a loop, that condition
  has been notified after the wait began.
\<close>

theorem WaitMessage_no_lost_wakeup:
  assumes run: "mq_run eff sys_init es st" and w: "WaitMessage tid p (sys_mq st) = (WR_Block k, s1)"
    and run': "mq_run eff (st\<lparr>sys_mq := s1\<rparr>) es' st'" and g: "gone p st'"
  shows "woken s1 k (sys_mq st')"
proof -
  have inv: "sys_inv st" using mq_run_inv [OF run] .
  have "api_call (C_Wait tid p) (sys_mq st) = Inr ((), s1)" using w by (simp add: after_def)
  from call_step_ok [OF inv this] have "sys_inv (st\<lparr>sys_mq := s1\<rparr>)" by (simp add: step_ok_def)
  then have "step_ok (st\<lparr>sys_mq := s1\<rparr>) st'" using mq_run_ok [OF run'] by blast
  moreover have "unfinished p k (st\<lparr>sys_mq := s1\<rparr>)"
    using WaitMessage_blocks [OF w] by (auto simp: unfinished_def)
  ultimately show ?thesis using gone_finished [OF g, of k] by (auto simp: step_ok_def)
qed

definition ex_wait_run :: "(nat, nat) event list" where
  "ex_wait_run = [E_Call (C_Create None 7), E_Enter 7 None, E_Call (C_Post 100 ex_hid ex_msg KDefTiming)]"

definition ex_wait_post :: MessagePost_t where
  "ex_wait_post = \<lparr>mp_reg = ex_hid, mp_seq = 2\<rparr>"

text \<open>The message is cancelled while thread 9 waits for it: the queue is then empty.\<close>

theorem WaitMessage_no_lost_wakeup_witness:
  "\<exists>st k s1 st'. mq_run (\<lambda>_ _ m. m) sys_init ex_wait_run st
    \<and> WaitMessage 9 ex_wait_post (sys_mq st) = (WR_Block k, s1)
    \<and> mq_run (\<lambda>_ _ m. m) (st\<lparr>sys_mq := s1\<rparr>) [E_Call (C_Cancel ex_wait_post)] st'
    \<and> gone ex_wait_post st' \<and> woken s1 k (sys_mq st')"
proof -
  let ?eff = "\<lambda>_ _ m. m :: nat Message"
  define mq where "mq = sys_mq (the (run_events ?eff ex_wait_run sys_init))"
  define s1 where "s1 = snd (WaitMessage 9 ex_wait_post mq)"
  define mq' where "mq' = snd (CancelMessage_post ex_wait_post s1)"
  let ?loops = "(\<lambda>_. [])(7 := [(None, RL_Top)])"
  note defs = ex_wait_run_def sys_init_def mq_init_def after_def CreateMessageQueueInfo_def Run_enter_def
    PostMessage_def push_message_def notify_breaker_def Let_def case_prod_beta MakeSeq_def new_addr_def
    set_content_def notify_def CurrentThreadMessageQueue_def content_at_def MessageQueueContent_new_def
    set_loops_def ex_hid_def
  have st: "run_events ?eff ex_wait_run sys_init = Some \<lparr>sys_mq = mq, sys_loops = ?loops\<rparr>"
    unfolding mq_def by (simp add: defs)
  obtain c where c: "sg_map mq = [7 \<mapsto> c]" "sg_fresh mq = 3"
      "mc_message c = [MessageWrapper_new 100 ex_hid ex_msg KDefTiming 2 2]" "mc_runloop c = [RunLoopInfo_new 1]"
    unfolding mq_def by (simp add: defs numeral_2_eq_2 numeral_3_eq_3)
  let ?w = "MessageWrapper_new 100 ex_hid ex_msg KDefTiming 2 2\<lparr>mw_wait_end_cond := Some 3\<rparr>"
  have w: "WaitMessage 9 ex_wait_post mq = (WR_Block 3, s1)" "sg_map s1 = [7 \<mapsto> c\<lparr>mc_message := [?w]\<rparr>]"
    using c by (simp_all add: s1_def WaitMessage_def ex_wait_post_def Handler2Queue_def Post2Handler_def
        CurrentThreadMessageQueue_def KInvalidQueueID_def Let_def extract_Cons_code case_prod_beta)
  have can: "CancelMessage_post ex_wait_post s1 = (True, mq')" "sg_map mq' = [7 \<mapsto> c\<lparr>mc_message := []\<rparr>]"
    using w(2) by (simp_all add: mq'_def CancelMessage_post_def ex_wait_post_def extract_Cons_code)
  let ?st = "\<lparr>sys_mq = mq, sys_loops = ?loops\<rparr> :: (nat, nat) sys"
  have r: "mq_run ?eff (?st\<lparr>sys_mq := s1\<rparr>) [E_Call (C_Cancel ex_wait_post)] (?st\<lparr>sys_mq := mq'\<rparr>)"
    by (rule run_events_run) (simp add: can after_def)
  have g: "gone ex_wait_post (?st\<lparr>sys_mq := mq'\<rparr>)"
    using c can by (simp add: gone_def ex_wait_post_def RunLoopInfo_new_def KNullPost_def KNullHandler_def
        KInvalidQueueID_def)
  have "mq_run ?eff sys_init ex_wait_run ?st" using st by (rule run_events_run)
  with WaitMessage_no_lost_wakeup [OF this _ r g] w(1) r g show ?thesis
    by (metis sys.select_convs(1) sys.update_convs(1))
qed

text \<open>
  A periodic message cancelled while the loop is about to call its handler leaves the loop with a
  dangling pointer: \<open>CancelMessage\<close> deletes the wrapper although the dispatch still refers to it, and the
  next handler call reads freed memory.
\<close>

theorem Cancel_during_dispatch_dangles:
  assumes inv: "mq_inv s" and c: "sg_map s q = Some c" and ms: "mc_message c = us @ w # vs"
    and first: "\<forall>u \<in> set us. mw_postid u \<noteq> mw_postid w" and nz: "q \<noteq> 0" "mp_seq (mw_postid w) \<noteq> 0"
  shows "\<exists>s'. CancelMessage_post (mw_postid w) s = (True, s')
    \<and> Run_invoke eff q (RL_Dispatch (Shared (mw_addr w)) (mw_postid w) (h # hs)) s' = Some (Inl Use_After_Free)"
proof -
  have q: "mh_queue (mp_reg (mw_postid w)) = q" and d: "distinct (map mw_addr (mc_message c))"
    using mq_invD [OF inv c] ms by (auto simp: queue_inv_def wrapper_inv_def)
  let ?c = "c\<lparr>mc_message := us @ vs\<rparr>"
  have "List.extract (\<lambda>v. mw_postid w = mw_postid v) (mc_message c) = Some (us, w, vs)"
    using ms first by (auto simp: extract_Some_iff)
  then have "CancelMessage_post (mw_postid w) s = (True, set_content q ?c (MessageWrapper_delete w s))"
    using c q nz by (simp add: CancelMessage_post_def)
  moreover have "List.extract (\<lambda>v. mw_addr v = mw_addr w) (mc_message ?c) = None"
    using d ms distinct_map_middle [of mw_addr us w vs] by (auto simp: extract_None_iff)
  ultimately show ?thesis by (simp add: content_at_def)
qed

theorem Cancel_during_dispatch_dangles_witness:
  "\<exists>s'. CancelMessage_post \<lparr>mp_reg = ex_hid, mp_seq = 6\<rparr> (ex_state [ex_wrapper 3 6 (Timing_period 20 40)]) = (True, s')
    \<and> Run_invoke (\<lambda>_ _ m. m) 7 (RL_Dispatch (Shared 3) \<lparr>mp_reg = ex_hid, mp_seq = 6\<rparr>
        [HandlerWrapper_new AsyncInvokeHandler False 7 1]) s' = Some (Inl Use_After_Free)"
proof -
  let ?w = "ex_wrapper 3 6 (Timing_period 20 40)"
  have "mq_inv (ex_state [?w])" by (rule ex_state_inv) simp_all
  then show ?thesis
    using Cancel_during_dispatch_dangles [of "ex_state [?w]" 7 "ex_content [?w]" "[]" ?w "[]" "\<lambda>_ _ m. m"
        "HandlerWrapper_new AsyncInvokeHandler False 7 1" "[]"]
    by simp
qed

end
