(* ===== verification/Byte_Sink.thy ===== *)
theory Byte_Sink
  imports Comm_Prelude
begin

text \<open>
  The interface the packers and the HTTP builder rely on: something bytes can be appended to. Both
  buffer classes of src/mars/comm provide it (\<^verbatim>\<open>AutoBuffer::Write\<close> and \<^verbatim>\<open>PtrBuffer::Write\<close> with a
  byte range), and the templates of basepacker.cc are instantiated with either.
  \<open>out\<close> is what lies before the cursor, \<open>room\<close> how many bytes may still be appended.
\<close>

fun put_all :: "('b \<Rightarrow> bytes \<Rightarrow> 'b result) \<Rightarrow> 'b \<Rightarrow> bytes list \<Rightarrow> 'b result" where
  "put_all put b [] = Inr b"
| "put_all put b (d # ds) = rbind (put b d) (\<lambda>b'. put_all put b' ds)"

locale byte_sink =
  fixes put :: "'b \<Rightarrow> bytes \<Rightarrow> 'b result"
    and out :: "'b \<Rightarrow> bytes"
    and room :: "'b \<Rightarrow> nat"
    and sink_inv :: "'b \<Rightarrow> bool"
  assumes put_ok: "sink_inv b \<Longrightarrow> length d \<le> room b \<Longrightarrow>
    \<exists>b'. put b d = Inr b' \<and> sink_inv b' \<and> out b' = out b @ d \<and> room b' = room b - length d"
begin

lemma put_all_ok:
  "sink_inv b \<Longrightarrow> length (concat ds) \<le> room b \<Longrightarrow>
    \<exists>b'. put_all put b ds = Inr b' \<and> sink_inv b' \<and> out b' = out b @ concat ds
      \<and> room b' = room b - length (concat ds)"
proof (induction ds arbitrary: b)
  case Nil
  then show ?case by simp
next
  case (Cons d ds)
  from Cons.prems have "length d \<le> room b" by simp
  then obtain c where c: "put b d = Inr c" "sink_inv c" "out c = out b @ d" "room c = room b - length d"
    using put_ok [OF Cons.prems(1)] by blast
  have "length (concat ds) \<le> room c" using Cons.prems(2) c(4) by simp
  then obtain e where "put_all put c ds = Inr e" "sink_inv e" "out e = out c @ concat ds"
      "room e = room c - length (concat ds)"
    using Cons.IH [OF c(2)] by blast
  with c show ?case by simp
qed

lemma put_two_ok:
  assumes "sink_inv b" "length d1 + length d2 \<le> room b"
  shows "\<exists>b'. rbind (put b d1) (\<lambda>c. put c d2) = Inr b' \<and> sink_inv b' \<and> out b' = out b @ d1 @ d2
    \<and> room b' = room b - (length d1 + length d2)"
  using put_all_ok [of b "[d1, d2]"] assms by simp

lemma put_three_ok:
  assumes "sink_inv b" "length d1 + length d2 + length d3 \<le> room b"
  shows "\<exists>b'. rbind (put b d1) (\<lambda>c. rbind (put c d2) (\<lambda>e. put e d3)) = Inr b' \<and> sink_inv b'
    \<and> out b' = out b @ d1 @ d2 @ d3 \<and> room b' = room b - (length d1 + length d2 + length d3)"
  using put_all_ok [of b "[d1, d2, d3]"] assms by (simp add: add.assoc)

end

end
