(* ===== verification/Ptr_Buffer.thy ===== *)
theory Ptr_Buffer
  imports Byte_Sink
begin

text \<open>
  The bounded buffer \<^verbatim>\<open>PtrBuffer\<close> (src/mars/comm/ptrbuffer.h, ptrbuffer.cc): a view of memory it does not
  own. \<open>pb_parray\<close> is the memory behind the pointer, as far as it may be accessed (\<open>None\<close> for a null
  pointer); \<open>pb_length\<close> and \<open>pb_max_length\<close> are what the view claims. Accesses beyond the memory are
  \<open>Inl Out_Of_Bounds\<close>. The buffer never grows: a write past \<open>pb_max_length\<close> is cut.

  The lemmas show that the class invariant \<open>wf_ptr\<close> is kept, what a write and a read do, and that the
  buffer is a \<open>byte_sink\<close> up to its maximal length. Its \<^verbatim>\<open>Seek\<close> compares the cursor through a cast to
  32 bits, which bounds the cursor only while it is below \<open>2 ^ 32\<close>.
\<close>

section \<open>State and operations\<close>

datatype PTSeek = kSeekStart | kSeekCur | kSeekEnd

record PtrBuffer =
  pb_parray :: "bytes option"
  pb_pos :: int
  pb_length :: nat
  pb_max_length :: nat

definition PB_Reset :: "PtrBuffer \<Rightarrow> PtrBuffer" where
  "PB_Reset b = \<lparr>pb_parray = None, pb_pos = 0, pb_length = 0, pb_max_length = 0\<rparr>"

definition PtrBuffer_null :: PtrBuffer where
  "PtrBuffer_null = \<lparr>pb_parray = None, pb_pos = 0, pb_length = 0, pb_max_length = 0\<rparr>"

definition PtrBuffer_max :: "bytes option \<Rightarrow> nat \<Rightarrow> nat \<Rightarrow> PtrBuffer" where
  "PtrBuffer_max ptr len maxlen =
     \<lparr>pb_parray = ptr, pb_pos = 0, pb_length = len, pb_max_length = maxlen\<rparr>"

definition PtrBuffer_len :: "bytes option \<Rightarrow> nat \<Rightarrow> PtrBuffer" where
  "PtrBuffer_len ptr len = \<lparr>pb_parray = ptr, pb_pos = 0, pb_length = len, pb_max_length = len\<rparr>"

definition PB_Pos :: "PtrBuffer \<Rightarrow> int" where
  "PB_Pos b = pb_pos b"

definition PB_PosLength :: "PtrBuffer \<Rightarrow> nat" where
  "PB_PosLength b = to_size (int (pb_length b) - pb_pos b)"

definition PB_Length :: "PtrBuffer \<Rightarrow> nat" where
  "PB_Length b = pb_length b"

definition PB_MaxLength :: "PtrBuffer \<Rightarrow> nat" where
  "PB_MaxLength b = pb_max_length b"

definition pb_block :: "PtrBuffer \<Rightarrow> bytes" where
  "pb_block b = (case pb_parray b of None \<Rightarrow> [] | Some a \<Rightarrow> a)"

text \<open>\<open>n\<close> bytes read through \<^verbatim>\<open>Ptr() + off\<close>, and bytes copied there.\<close>

definition PB_bytes_at :: "PtrBuffer \<Rightarrow> int \<Rightarrow> nat \<Rightarrow> bytes result" where
  "PB_bytes_at b off n =
     (if n = 0 then Inr []
      else if 0 \<le> off \<and> nat off + n \<le> length (pb_block b)
      then Inr (take n (drop (nat off) (pb_block b)))
      else Inl Out_Of_Bounds)"

definition PB_memcpy :: "PtrBuffer \<Rightarrow> int \<Rightarrow> bytes \<Rightarrow> PtrBuffer result" where
  "PB_memcpy b off d =
     (if d = [] then Inr b
      else if 0 \<le> off \<and> nat off + length d \<le> length (pb_block b)
      then Inr (b\<lparr>pb_parray := Some (overwrite (nat off) d (pb_block b))\<rparr>)
      else Inl Out_Of_Bounds)"

definition PB_PosPtr_bytes :: "PtrBuffer \<Rightarrow> nat \<Rightarrow> bytes result" where
  "PB_PosPtr_bytes b n = PB_bytes_at b (PB_Pos b) n"

definition PB_Seek :: "PtrBuffer \<Rightarrow> int \<Rightarrow> PTSeek \<Rightarrow> PtrBuffer" where
  "PB_Seek b offset origin =
     (let p = (case origin of
                 kSeekStart \<Rightarrow> offset
               | kSeekCur \<Rightarrow> to_off (pb_pos b + offset)
               | kSeekEnd \<Rightarrow> to_off (int (pb_length b) + offset));
          p' = (if p < 0 then 0 else p);
          p'' = (if to_uint p' > pb_length b then int (pb_length b) else p')
      in b\<lparr>pb_pos := p''\<rparr>)"

definition PB_Write_at :: "PtrBuffer \<Rightarrow> bytes \<Rightarrow> int \<Rightarrow> PtrBuffer result" where
  "PB_Write_at b d p =
     (let copylen = min (length d) (to_size (int (pb_max_length b) - p))
      in PB_memcpy (b\<lparr>pb_length := max (pb_length b) (to_size (int copylen + p))\<rparr>) p (take copylen d))"

definition PB_Write :: "PtrBuffer \<Rightarrow> bytes \<Rightarrow> PtrBuffer result" where
  "PB_Write b d = rbind (PB_Write_at b d (PB_Pos b)) (\<lambda>b'. Inr (PB_Seek b' (to_off (int (length d))) kSeekCur))"

definition PB_Read_at :: "PtrBuffer \<Rightarrow> nat \<Rightarrow> int \<Rightarrow> bytes result" where
  "PB_Read_at b n p =
     (let nRead = min (to_size (int (PB_Length b) - p)) n in PB_PosPtr_bytes b nRead)"

definition PB_Read :: "PtrBuffer \<Rightarrow> nat \<Rightarrow> (bytes \<times> PtrBuffer) result" where
  "PB_Read b n =
     rbind (PB_Read_at b n (PB_Pos b)) (\<lambda>d. Inr (d, PB_Seek b (to_off (int (length d))) kSeekCur))"

definition PB_Length_set :: "PtrBuffer \<Rightarrow> int \<Rightarrow> nat \<Rightarrow> PtrBuffer" where
  "PB_Length_set b p n =
     PB_Seek (b\<lparr>pb_length := (if pb_max_length b < n then pb_max_length b else n)\<rparr>) p kSeekStart"

definition PB_Attach_max :: "PtrBuffer \<Rightarrow> bytes option \<Rightarrow> nat \<Rightarrow> nat \<Rightarrow> PtrBuffer" where
  "PB_Attach_max b ptr len maxlen =
     (PB_Reset b)\<lparr>pb_parray := ptr, pb_length := len, pb_max_length := maxlen\<rparr>"

definition PB_Attach :: "PtrBuffer \<Rightarrow> bytes option \<Rightarrow> nat \<Rightarrow> PtrBuffer" where
  "PB_Attach b ptr len = PB_Attach_max b ptr len len"

section \<open>The class invariant\<close>

definition wf_ptr :: "PtrBuffer \<Rightarrow> bool" where
  "wf_ptr b \<longleftrightarrow>
     0 \<le> pb_pos b \<and> pb_pos b \<le> int (pb_length b) \<and> pb_length b \<le> pb_max_length b
     \<and> pb_max_length b \<le> length (pb_block b) \<and> pb_max_length b < 2 ^ 31"

definition pb_content :: "PtrBuffer \<Rightarrow> bytes" where
  "pb_content b = take (pb_length b) (pb_block b)"

definition pb_written :: "PtrBuffer \<Rightarrow> bytes" where
  "pb_written b = take (nat (pb_pos b)) (pb_block b)"

definition pb_room :: "PtrBuffer \<Rightarrow> nat" where
  "pb_room b = pb_max_length b - nat (pb_pos b)"

lemma pb_block_update [simp]:
  "pb_block (b\<lparr>pb_parray := Some x\<rparr>) = x" "pb_block (b\<lparr>pb_pos := p\<rparr>) = pb_block b"
  "pb_block (b\<lparr>pb_length := n\<rparr>) = pb_block b"
  by (simp_all add: pb_block_def)

lemma PB_Seek_proj [simp]:
  "pb_block (PB_Seek b off k) = pb_block b" "pb_length (PB_Seek b off k) = pb_length b"
  "pb_max_length (PB_Seek b off k) = pb_max_length b"
  by (simp_all add: PB_Seek_def Let_def)

lemma PB_Seek_range:
  assumes "pb_length b < 2 ^ 31" "0 \<le> pb_pos b" "pb_pos b \<le> int (pb_length b)"
    "- (2 ^ 31) \<le> off" "off < 2 ^ 31"
  shows "0 \<le> pb_pos (PB_Seek b off k)" "pb_pos (PB_Seek b off k) \<le> int (pb_length b)"
proof -
  have "to_off (pb_pos b + off) = pb_pos b + off" "to_off (int (pb_length b) + off) = int (pb_length b) + off"
    using assms by (simp_all add: to_off_id)
  then show "0 \<le> pb_pos (PB_Seek b off k)" "pb_pos (PB_Seek b off k) \<le> int (pb_length b)"
    using assms by (auto simp: PB_Seek_def Let_def to_uint_id split: PTSeek.splits)
qed

lemma PB_Seek_cur:
  assumes "pb_length b < 2 ^ 31" "0 \<le> pb_pos b" "0 \<le> off" "pb_pos b + off \<le> int (pb_length b)"
  shows "pb_pos (PB_Seek b off kSeekCur) = pb_pos b + off"
  using assms by (auto simp: PB_Seek_def Let_def to_off_id to_uint_id)

lemma PB_Write_cut:
  assumes wf: "wf_ptr b" and d: "length d < 2 ^ 31"
  shows "\<exists>b'. PB_Write b d = Inr b' \<and> wf_ptr b' \<and> pb_written b' = pb_written b @ take (pb_room b) d
    \<and> pb_max_length b' = pb_max_length b
    \<and> pb_pos b' = pb_pos b + int (min (length d) (pb_room b))"
proof -
  define p where "p = nat (pb_pos b)"
  define k where "k = min (length d) (pb_room b)"
  let ?blk = "pb_block b"
  have p: "pb_pos b = int p" "p \<le> pb_length b" "pb_length b \<le> pb_max_length b"
      "pb_max_length b \<le> length ?blk" "pb_max_length b < 2 ^ 31"
    using wf by (auto simp: wf_ptr_def p_def nat_le_iff)
  have r: "pb_room b = pb_max_length b - p" by (simp add: pb_room_def p_def)
  have kk: "p + k \<le> pb_max_length b" "k \<le> length d" using p r by (auto simp: k_def)
  have c: "min (length d) (to_size (int (pb_max_length b) - int p)) = k"
    using p r by (simp add: k_def to_size_id nat_diff_distrib)
  have t: "to_size (int k + int p) = p + k" using kk p by (simp add: to_size_id)
  define b1 where "b1 = b\<lparr>pb_length := max (pb_length b) (p + k), pb_parray := Some (overwrite p (take k d) ?blk)\<rparr>"
  have "PB_Write_at b d (pb_pos b) = Inr b1 \<or> (k = 0 \<and> PB_Write_at b d (pb_pos b) = Inr b)"
    using p kk c t by (auto simp: PB_Write_at_def PB_memcpy_def Let_def b1_def)
  then obtain b2 where b2: "PB_Write_at b d (pb_pos b) = Inr b2" "pb_block b2 = overwrite p (take k d) ?blk"
      "pb_length b2 = max (pb_length b) (p + k)" "pb_max_length b2 = pb_max_length b" "pb_pos b2 = int p"
    using p by (fastforce simp: b1_def pb_block_def)
  have o: "to_off (int (length d)) = int (length d)" using d by (simp add: to_off_id)
  have pos: "pb_pos (PB_Seek b2 (int (length d)) kSeekCur) = int (p + k)"
  proof (cases "length d \<le> pb_room b")
    case True
    then have "k = length d" by (simp add: k_def)
    then show ?thesis using b2 p kk by (subst PB_Seek_cur) simp_all
  next
    case False
    then have "p + k = pb_max_length b" using r p by (simp add: k_def)
    moreover from False have "pb_max_length b < p + length d" using r by simp
    ultimately show ?thesis using b2 p d by (simp add: PB_Seek_def Let_def to_off_id to_uint_id)
  qed
  let ?b = "PB_Seek b2 (int (length d)) kSeekCur"
  have "PB_Write b d = Inr ?b" using b2 o by (simp add: PB_Write_def PB_Pos_def)
  moreover have "wf_ptr ?b" using b2 pos p kk by (simp add: wf_ptr_def)
  moreover have "take k d = take (pb_room b) d" by (simp add: k_def take_all_iff min_def)
  moreover have "take (p + k) (overwrite p (take k d) ?blk) = take p ?blk @ take k d"
    using take_overwrite_end [of p "take k d" ?blk] kk p by (simp add: min_absorb2)
  ultimately have "PB_Write b d = Inr ?b" "wf_ptr ?b" "pb_written ?b = pb_written b @ take (pb_room b) d"
    using pos b2 p by (simp_all add: pb_written_def nat_add_distrib)
  then show ?thesis using b2 pos p k_def by auto
qed

lemma PB_Write_ok:
  assumes "wf_ptr b" "length d \<le> pb_room b"
  shows "\<exists>b'. PB_Write b d = Inr b' \<and> wf_ptr b' \<and> pb_written b' = pb_written b @ d
    \<and> pb_room b' = pb_room b - length d"
proof -
  have "length d < 2 ^ 31" using assms by (auto simp: wf_ptr_def pb_room_def)
  from PB_Write_cut [OF assms(1) this] obtain b' where b': "PB_Write b d = Inr b'" "wf_ptr b'"
      "pb_written b' = pb_written b @ take (pb_room b) d" "pb_max_length b' = pb_max_length b"
      "pb_pos b' = pb_pos b + int (min (length d) (pb_room b))"
    by blast
  have "0 \<le> pb_pos b" using assms(1) by (simp add: wf_ptr_def)
  then have "pb_room b' = pb_room b - length d"
    using b'(4,5) assms(2) by (simp add: pb_room_def nat_add_distrib)
  with b' assms(2) show ?thesis by simp
qed

interpretation pb: byte_sink PB_Write pb_written pb_room wf_ptr
  by unfold_locales (rule PB_Write_ok)

lemma PB_Read_ok:
  assumes wf: "wf_ptr b"
  shows "\<exists>b'. PB_Read b n = Inr (take n (drop (nat (pb_pos b)) (pb_content b)), b') \<and> wf_ptr b'
    \<and> pb_content b' = pb_content b
    \<and> pb_pos b' = pb_pos b + int (min n (pb_length b - nat (pb_pos b)))"
proof -
  define p where "p = nat (pb_pos b)"
  have p: "pb_pos b = int p" "p \<le> pb_length b" "pb_length b \<le> pb_max_length b"
      "pb_max_length b \<le> length (pb_block b)" "pb_max_length b < 2 ^ 31"
    using wf by (auto simp: wf_ptr_def p_def nat_le_iff)
  let ?k = "min (pb_length b - p) n"
  let ?d = "take n (drop p (pb_content b))"
  have "to_size (int (pb_length b) - int p) = pb_length b - p"
    using p by (simp add: to_size_id nat_diff_distrib)
  then have r: "PB_Read_at b n (pb_pos b) = Inr ?d"
    using p by (auto simp: PB_Read_at_def PB_PosPtr_bytes_def PB_bytes_at_def PB_Length_def PB_Pos_def
        Let_def pb_content_def drop_take min.commute)
  have l: "length ?d = ?k" using p by (simp add: pb_content_def min.commute)
  have pos: "pb_pos (PB_Seek b (int ?k) kSeekCur) = int (p + ?k)"
    using p by (subst PB_Seek_cur) auto
  have "to_off (int ?k) = int ?k" using p by (intro to_off_id) auto
  then have "PB_Read b n = Inr (?d, PB_Seek b (int ?k) kSeekCur)"
    using r l by (simp add: PB_Read_def PB_Pos_def)
  moreover have "wf_ptr (PB_Seek b (int ?k) kSeekCur)" using p pos by (simp add: wf_ptr_def)
  ultimately show ?thesis using p pos by (auto simp: pb_content_def min.commute)
qed

section \<open>What the buffer promises\<close>

definition ex_ptr :: PtrBuffer where
  "ex_ptr = PtrBuffer_max (Some [0, 0, 0, 0]) 0 4"

text \<open>
  A write never leaves the memory of the view: as many bytes as fit below the maximal length are
  placed at the cursor, the rest is dropped, the invariant is kept, and seeking back to where the
  write started and reading gives exactly the bytes that were kept.
\<close>

theorem PtrBuffer_write_read:
  assumes wf: "wf_ptr b" and d: "length d < 2 ^ 31"
  shows "\<exists>b1 b2. PB_Write b d = Inr b1 \<and> wf_ptr b1
    \<and> pb_pos b1 = pb_pos b + int (min (length d) (pb_room b))
    \<and> PB_Read (PB_Seek b1 (pb_pos b) kSeekStart) (min (length d) (pb_room b)) = Inr (take (pb_room b) d, b2)
    \<and> wf_ptr b2 \<and> pb_pos b2 = pb_pos b1"
proof -
  let ?k = "min (length d) (pb_room b)"
  obtain b1 where b1: "PB_Write b d = Inr b1" "wf_ptr b1" "pb_written b1 = pb_written b @ take (pb_room b) d"
      "pb_pos b1 = pb_pos b + int ?k"
    using PB_Write_cut [OF wf d] by blast
  define p where "p = nat (pb_pos b)"
  have p: "pb_pos b = int p" "p \<le> length (pb_block b)" "pb_length b1 < 2 ^ 31" "p + ?k \<le> pb_length b1"
      "pb_length b1 \<le> length (pb_block b1)"
    using wf b1(2,4) by (auto simp: wf_ptr_def p_def nat_le_iff)
  let ?b = "PB_Seek b1 (pb_pos b) kSeekStart"
  have pos: "pb_pos ?b = int p" using p by (simp add: PB_Seek_def Let_def to_uint_id)
  have wf1: "wf_ptr ?b" using b1(2) pos p by (simp add: wf_ptr_def)
  have "take (p + ?k) (pb_block b1) = take p (pb_block b) @ take (pb_room b) d"
    using b1(3,4) p by (simp add: pb_written_def nat_add_distrib)
  then have "drop p (take (p + ?k) (pb_block b1)) = take (pb_room b) d" using p(2) by simp
  moreover have "take ?k (drop p (pb_content ?b)) = drop p (take (p + ?k) (pb_block b1))"
    using p(4) by (simp add: pb_content_def drop_take min_absorb1)
  ultimately have "take ?k (drop (nat (pb_pos ?b)) (pb_content ?b)) = take (pb_room b) d" using pos by simp
  moreover have "min ?k (pb_length ?b - nat (pb_pos ?b)) = ?k" using p(4) pos by simp
  ultimately show ?thesis using PB_Read_ok [OF wf1, of ?k] b1 pos p(1) by auto
qed

theorem PtrBuffer_write_read_witness:
  "\<exists>b1 b2. PB_Write ex_ptr [1, 2, 3, 4, 5, 6] = Inr b1 \<and> wf_ptr b1
    \<and> PB_Read (PB_Seek b1 0 kSeekStart) 4 = Inr ([1, 2, 3, 4], b2)"
proof -
  have "wf_ptr ex_ptr" by (simp add: ex_ptr_def wf_ptr_def PtrBuffer_max_def pb_block_def)
  moreover have "min (length [1 :: byte, 2, 3, 4, 5, 6]) (pb_room ex_ptr) = 4" "pb_pos ex_ptr = 0"
      "take (pb_room ex_ptr) [1, 2, 3, 4, 5, 6] = [1 :: byte, 2, 3, 4]"
    by (simp_all add: ex_ptr_def PtrBuffer_max_def pb_room_def)
  ultimately show ?thesis using PtrBuffer_write_read [of ex_ptr "[1, 2, 3, 4, 5, 6]"] by auto
qed

text \<open>
  \<open>Seek\<close> does not bound the cursor: the comparison with the length casts the cursor to 32 bits, so a
  seek to \<open>2 ^ 32\<close> is left where it is on every buffer, however short.
\<close>

theorem PtrBuffer_Seek_escapes:
  "pb_pos (PB_Seek b (2 ^ 32) kSeekStart) = 2 ^ 32"
  by (simp add: PB_Seek_def Let_def to_uint_def)

end
