(* ===== verification/Adler32.thy ===== *)
theory Adler32
  imports Comm_Prelude
begin

text \<open>
  The checksum of src/mars/comm/adler32.c: two running sums kept in \<^verbatim>\<open>unsigned long\<close> variables (64 bits,
  written as \<open>nat\<close>; \<open>sums_bound\<close> shows that they stay below \<open>2 ^ 32\<close>), with the special cases for one
  byte and fewer than 16 bytes, the blocks of \<open>NMAX\<close> bytes between reductions and the unrolled steps of
  16 bytes. \<open>None\<close> is a null buffer.

  \<open>adler32_ref\<close> is the textbook definition that reduces after every byte; the optimised routine
  computes the same value, and checksums of consecutive pieces chain.
\<close>

unbundle bit_operations_syntax

definition BASE :: nat where
  "BASE = 65521"

definition NMAX :: nat where
  "NMAX = 5552"

definition DO1 :: "byte \<Rightarrow> nat \<times> nat \<Rightarrow> nat \<times> nat" where
  "DO1 x p = (let adler = fst p + unat x in (adler, snd p + adler))"

text \<open>\<^verbatim>\<open>while (len--) { adler += *buf++; sum2 += adler; }\<close>\<close>

definition sums :: "bytes \<Rightarrow> nat \<times> nat \<Rightarrow> nat \<times> nat" where
  "sums buf p = fold DO1 buf p"

definition DO16 :: "bytes \<Rightarrow> nat \<times> nat \<Rightarrow> nat \<times> nat" where
  "DO16 buf p = sums (take 16 buf) p"

text \<open>\<^verbatim>\<open>do { DO16(buf); buf += 16; } while (--n)\<close>\<close>

fun do16_times :: "nat \<Rightarrow> bytes \<Rightarrow> nat \<times> nat \<Rightarrow> nat \<times> nat" where
  "do16_times 0 buf p = p"
| "do16_times (Suc n) buf p = do16_times n (drop 16 buf) (DO16 buf p)"

text \<open>\<^verbatim>\<open>while (len >= 16) { len -= 16; DO16(buf); buf += 16; }\<close> and the bytes left over.\<close>

fun while16 :: "bytes \<Rightarrow> nat \<times> nat \<Rightarrow> nat \<times> nat" where
  "while16 buf p = (if 16 \<le> length buf then while16 (drop 16 buf) (DO16 buf p) else sums buf p)"

declare while16.simps [simp del]

definition MODs :: "nat \<times> nat \<Rightarrow> nat \<times> nat" where
  "MODs p = (fst p mod BASE, snd p mod BASE)"

function blocks :: "bytes \<Rightarrow> nat \<times> nat \<Rightarrow> bytes \<times> (nat \<times> nat)" where
  "blocks buf p =
     (if NMAX \<le> length buf then blocks (drop NMAX buf) (MODs (do16_times (NMAX div 16) buf p)) else (buf, p))"
  by auto
termination by (relation "measure (length \<circ> fst)") (auto simp: NMAX_def)

declare blocks.simps [simp del]

definition recombine :: "nat \<times> nat \<Rightarrow> nat" where
  "recombine p = fst p OR push_bit 16 (snd p)"

definition adler32 :: "nat \<Rightarrow> bytes option \<Rightarrow> nat" where
  "adler32 adler buf =
     (let sum2 = take_bit 16 (drop_bit 16 adler); a = take_bit 16 adler in
      case buf of
        None \<Rightarrow> 1
      | Some b \<Rightarrow>
          if length b = 1 then
            let a1 = a + unat (hd b); a2 = (if BASE \<le> a1 then a1 - BASE else a1);
                s1 = sum2 + a2; s2 = (if BASE \<le> s1 then s1 - BASE else s1)
            in recombine (a2, s2)
          else if length b < 16 then
            let p = sums b (a, sum2)
            in recombine (if BASE \<le> fst p then fst p - BASE else fst p, snd p mod BASE)
          else
            let (rest, p) = blocks b (a, sum2)
            in recombine (if rest \<noteq> [] then MODs (while16 rest p) else p))"

section \<open>The reference definition\<close>

definition step_ref :: "byte \<Rightarrow> nat \<times> nat \<Rightarrow> nat \<times> nat" where
  "step_ref x p = (let a = (fst p + unat x) mod BASE in (a, (snd p + a) mod BASE))"

definition sums_ref :: "bytes \<Rightarrow> nat \<times> nat \<Rightarrow> nat \<times> nat" where
  "sums_ref buf p = fold step_ref buf p"

definition adler32_ref :: "nat \<Rightarrow> bytes \<Rightarrow> nat" where
  "adler32_ref adler buf =
     (let p = sums_ref buf (adler mod 65536, adler div 65536 mod 65536) in fst p + 65536 * snd p)"

text \<open>A checksum value: both halves reduced.\<close>

definition is_adler :: "nat \<Rightarrow> bool" where
  "is_adler a \<longleftrightarrow> a mod 65536 < BASE \<and> a div 65536 < BASE"

section \<open>The unrolled loops are the plain loop\<close>

lemma sums_append: "sums (xs @ ys) p = sums ys (sums xs p)"
  by (simp add: sums_def)

lemma sums_Nil [simp]: "sums [] p = p"
  by (simp add: sums_def)

lemma sums_take_drop: "sums (drop n xs) (sums (take n xs) p) = sums xs p"
  using sums_append [of "take n xs" "drop n xs" p] by simp

lemma do16_times_sums: "do16_times n buf p = sums (take (16 * n) buf) p"
proof (induction n arbitrary: buf p)
  case (Suc n)
  have "take (16 * Suc n) buf = take 16 buf @ take (16 * n) (drop 16 buf)"
    using take_add [of 16 "16 * n" buf] by simp
  with Suc show ?case by (simp add: DO16_def sums_append)
qed simp

lemma while16_sums: "while16 buf p = sums buf p"
proof (induction buf p rule: while16.induct)
  case (1 buf p)
  then show ?case by (subst while16.simps) (simp add: DO16_def sums_take_drop)
qed

text \<open>Sums up to multiples of \<open>BASE\<close>.\<close>

definition cong :: "nat \<times> nat \<Rightarrow> nat \<times> nat \<Rightarrow> bool" where
  "cong p q \<longleftrightarrow> fst p mod BASE = fst q mod BASE \<and> snd p mod BASE = snd q mod BASE"

lemma cong_trans: "cong p q \<Longrightarrow> cong q r \<Longrightarrow> cong p r"
  by (simp add: cong_def)

lemma cong_MODs: "cong (MODs p) p"
  by (simp add: cong_def MODs_def)

lemma cong_DO1: "cong p q \<Longrightarrow> cong (DO1 x p) (DO1 x q)"
  by (simp add: cong_def DO1_def Let_def) (metis mod_add_cong)

lemma cong_sums: "cong p q \<Longrightarrow> cong (sums xs p) (sums xs q)"
  unfolding sums_def by (induction xs arbitrary: p q) (simp_all add: cong_DO1)

lemma cong_step_ref: "cong p q \<Longrightarrow> cong (DO1 x p) (step_ref x q)"
  by (simp add: cong_def DO1_def step_ref_def Let_def mod_simps) (metis mod_add_cong)

lemma cong_sums_ref: "cong p q \<Longrightarrow> cong (sums xs p) (sums_ref xs q)"
  unfolding sums_def sums_ref_def by (induction xs arbitrary: p q) (simp_all add: cong_step_ref)

lemma blocks_cong:
  "blocks buf p = (rest, q) \<Longrightarrow> \<exists>done. buf = done @ rest \<and> cong q (sums done p) \<and> (done = [] \<and> q = p \<or> q = MODs q)"
proof (induction buf p arbitrary: rest q rule: blocks.induct)
  case (1 buf p)
  show ?case
  proof (cases "NMAX \<le> length buf")
    case True
    let ?p = "MODs (do16_times (NMAX div 16) buf p)"
    have b: "blocks (drop NMAX buf) ?p = (rest, q)" using 1(2) True by (simp add: blocks.simps [of buf])
    have e: "do16_times (NMAX div 16) buf p = sums (take NMAX buf) p" by (simp add: do16_times_sums NMAX_def)
    from 1(1) [OF True b] obtain d where d: "drop NMAX buf = d @ rest" "cong q (sums d ?p)"
        "d = [] \<and> q = ?p \<or> q = MODs q" by blast
    have "cong (sums d ?p) (sums d (sums (take NMAX buf) p))" unfolding e by (rule cong_sums [OF cong_MODs])
    then have "cong q (sums (take NMAX buf @ d) p)" using d(2) cong_trans by (auto simp: sums_append)
    moreover have "buf = (take NMAX buf @ d) @ rest" using d(1) by (metis append.assoc append_take_drop_id)
    moreover have "q = MODs q" using d(3) by (auto simp: MODs_def)
    ultimately show ?thesis by blast
  next
    case False
    then show ?thesis using 1(2) by (auto simp: blocks.simps [of buf] cong_def)
  qed
qed

section \<open>No overflow\<close>

lemma sums_bound:
  assumes "sums xs (a, s) = (a', s')"
  shows "a' \<le> a + 255 * length xs
    \<and> 2 * s' \<le> 2 * s + 2 * length xs * a + 255 * (length xs * (length xs + 1))"
  using assms
proof (induction xs arbitrary: a s)
  case Nil
  then show ?case by simp
next
  case (Cons x xs)
  have x: "unat x \<le> 255" by (rule unat_byte_le)
  let ?a = "a + unat x" and ?n = "length xs"
  have "sums xs (?a, s + ?a) = (a', s')" using Cons.prems by (simp add: sums_def DO1_def Let_def)
  then have i: "a' \<le> ?a + 255 * ?n" "2 * s' \<le> 2 * (s + ?a) + 2 * ?n * ?a + 255 * (?n * (?n + 1))"
    using Cons.IH by blast+
  have "unat x * 2 + ?n * (unat x * 2) \<le> 510 + ?n * 510" using x by (intro add_mono mult_le_mono2) simp_all
  then have "2 * (s + ?a) + 2 * ?n * ?a + 255 * (?n * (?n + 1))
      \<le> 2 * s + 2 * (?n + 1) * a + 255 * ((?n + 1) * (?n + 2))"
    by (simp add: algebra_simps)
  then show ?case using i x by simp
qed

section \<open>The optimised routine\<close>

definition reduced :: "nat \<times> nat \<Rightarrow> bool" where
  "reduced p \<longleftrightarrow> fst p < BASE \<and> snd p < BASE"

lemma reduced_unique: "reduced p \<Longrightarrow> reduced q \<Longrightarrow> cong p q \<Longrightarrow> p = q"
  by (cases p, cases q) (simp add: reduced_def cong_def)

lemma reduced_step_ref: "reduced (step_ref x p)"
  by (simp add: reduced_def step_ref_def Let_def BASE_def)

lemma reduced_sums_ref: "reduced p \<Longrightarrow> reduced (sums_ref xs p)"
  unfolding sums_ref_def by (induction xs arbitrary: p) (simp_all add: reduced_step_ref)

lemma reduced_MODs: "reduced (MODs p)"
  by (simp add: reduced_def MODs_def BASE_def)

lemma recombine_halves:
  assumes l: "fst p < 2 ^ 16"
  shows "recombine p = fst p + 65536 * snd p"
proof -
  from l have "take_bit 16 (fst p) = fst p" by (simp add: take_bit_nat_eq_self)
  then have "\<not> (bit (fst p) n \<and> bit (push_bit 16 (snd p)) n)" for n
    by (metis bit_push_bit_iff bit_take_bit_iff leD)
  then have "fst p + push_bit 16 (snd p) = fst p OR push_bit 16 (snd p)"
    by (intro disjunctive_add) auto
  moreover have "push_bit 16 (snd p) = 65536 * snd p" by (simp add: push_bit_eq_mult)
  ultimately show ?thesis by (simp add: recombine_def)
qed

lemma recombine_eq: "reduced p \<Longrightarrow> recombine p = fst p + 65536 * snd p"
  by (rule recombine_halves) (simp add: reduced_def BASE_def)

lemma single_reduce:
  assumes "a < 2 * BASE"
  shows "(if BASE \<le> a then a - BASE else a) = a mod BASE"
  using assms by (auto simp: mod_if le_mod_geq)

text \<open>The sums before the final recombination, on every path of the routine.\<close>

lemma adler32_sums:
  assumes p: "reduced (take_bit 16 a, take_bit 16 (drop_bit 16 a))"
  shows "adler32 a (Some b) = recombine (sums_ref b (take_bit 16 a, take_bit 16 (drop_bit 16 a)))"
proof -
  let ?p = "(take_bit 16 a, take_bit 16 (drop_bit 16 a)) :: nat \<times> nat"
  have ref: "cong (sums b ?p) (sums_ref b ?p)" by (rule cong_sums_ref) (simp add: cong_def)
  have red: "reduced (sums_ref b ?p)" using reduced_sums_ref [OF p] .
  have final: "q = sums_ref b ?p" if "reduced q" "cong q (sums b ?p)" for q
    using reduced_unique [OF that(1) red] cong_trans [OF that(2) ref] by simp
  consider (one) "length b = 1" | (short) "length b \<noteq> 1" "length b < 16" | (long) "16 \<le> length b" by linarith
  then show ?thesis
  proof cases
    case one
    then obtain x where x: "b = [x]" by (auto simp: length_Suc_conv)
    let ?a = "(fst ?p + unat x) mod BASE"
    have "fst ?p + unat x < 2 * BASE" "snd ?p + ?a < 2 * BASE"
      using p unat_byte_le [of x] mod_less_divisor [of BASE "fst ?p + unat x"]
      by (auto simp: reduced_def BASE_def)
    note s = this [unfolded fst_conv snd_conv, THEN single_reduce]
    have "adler32 a (Some b) = recombine (?a, (snd ?p + ?a) mod BASE)"
      using x by (simp add: adler32_def Let_def s split del: if_split cong del: if_weak_cong)
    then show ?thesis using x by (simp add: sums_ref_def step_ref_def Let_def)
  next
    case short
    obtain a' s' where s: "sums b ?p = (a', s')" by fastforce
    have "255 * length b \<le> 255 * 15" using short by simp
    then have "a' < 2 * BASE" using sums_bound [OF s] p by (simp add: reduced_def BASE_def)
    then have "adler32 a (Some b) = recombine (MODs (sums b ?p))"
      using short s by (auto simp: adler32_def Let_def MODs_def le_mod_geq)
    then show ?thesis using final [OF reduced_MODs cong_MODs] by simp
  next
    case long
    obtain rest q where b: "blocks b ?p = (rest, q)" by (cases "blocks b ?p")
    from blocks_cong [OF b] obtain d where d: "b = d @ rest" "cong q (sums d ?p)" "d = [] \<and> q = ?p \<or> q = MODs q"
      by blast
    have e: "adler32 a (Some b) = recombine (if rest \<noteq> [] then MODs (while16 rest q) else q)"
      using long b by (simp add: adler32_def Let_def)
    show ?thesis
    proof (cases "rest = []")
      case True
      then have "reduced q" using d long reduced_MODs by (metis append_Nil2 list.size(3) not_numeral_le_zero)
      then show ?thesis using e True d final [of q] by simp
    next
      case False
      have "cong (MODs (while16 rest q)) (sums b ?p)"
        using cong_trans [OF cong_MODs cong_sums [OF d(2), of rest]] by (simp add: while16_sums d(1) sums_append)
      then show ?thesis using e False final [OF reduced_MODs] by simp
    qed
  qed
qed

lemma is_adler_halves:
  assumes "is_adler a"
  shows "take_bit 16 a = a mod 65536" "take_bit 16 (drop_bit 16 a) = a div 65536"
    "reduced (a mod 65536, a div 65536)" "a div 65536 mod 65536 = a div 65536"
  using assms by (simp_all add: is_adler_def reduced_def take_bit_nat_def drop_bit_nat_def BASE_def)

lemma adler32_is_ref:
  assumes "is_adler a"
  shows "adler32 a (Some b) = adler32_ref a b" "is_adler (adler32 a (Some b))"
proof -
  note h = is_adler_halves [OF assms]
  have r: "reduced (sums_ref b (a mod 65536, a div 65536))" using reduced_sums_ref [OF h(3)] .
  show "adler32 a (Some b) = adler32_ref a b"
    using adler32_sums [of a b] h recombine_eq [OF r] by (simp add: adler32_ref_def Let_def)
  then show "is_adler (adler32 a (Some b))"
    using r h(4) by (auto simp: adler32_ref_def Let_def is_adler_def reduced_def BASE_def)
qed

lemma adler32_append:
  assumes "is_adler a"
  shows "adler32 (adler32 a (Some xs)) (Some ys) = adler32 a (Some (xs @ ys))"
proof -
  note h = is_adler_halves [OF assms]
  let ?p = "sums_ref xs (a mod 65536, a div 65536)"
  have r: "fst ?p < 65536" using reduced_sums_ref [OF h(3), of xs] by (simp add: reduced_def BASE_def)
  have r2: "snd ?p < 65536" using reduced_sums_ref [OF h(3), of xs] by (simp add: reduced_def BASE_def)
  have "adler32_ref a xs = fst ?p + 65536 * snd ?p" using h(4) by (simp add: adler32_ref_def Let_def)
  then have "adler32_ref a xs mod 65536 = fst ?p" "adler32_ref a xs div 65536 mod 65536 = snd ?p"
    using r r2 by simp_all
  then have "adler32_ref (adler32_ref a xs) ys = adler32_ref a (xs @ ys)"
    using h(4) by (simp add: adler32_ref_def Let_def sums_ref_def)
  then show ?thesis using adler32_is_ref [OF assms] adler32_is_ref by metis
qed

section \<open>What the checksum promises\<close>

text \<open>
  C26: On every length the optimised routine (single byte, short input, blocks of 5552 bytes with one
  reduction each, unrolled steps of 16) computes the textbook checksum, and within a block the sums of an
  implementation with 32-bit words do not overflow.
\<close>

theorem adler32_correct:
  assumes "is_adler a"
  shows "adler32 a (Some b) = adler32_ref a b
    \<and> (\<forall>c a' s'. length c \<le> NMAX \<and> sums c (a mod 65536, a div 65536) = (a', s') \<longrightarrow> a' < 2 ^ 32 \<and> s' < 2 ^ 32)"
proof (intro conjI allI impI; (elim conjE)?)
  show "adler32 a (Some b) = adler32_ref a b" using adler32_is_ref [OF assms] by simp
  fix c a' s' assume c: "length c \<le> NMAX" "sums c (a mod 65536, a div 65536) = (a', s')"
  have "length c * (length c + 1) \<le> NMAX * (NMAX + 1)" "length c * (a mod 65536) \<le> NMAX * (BASE - 1)"
    using c(1) assms by (intro mult_le_mono; auto simp: is_adler_def)+
  then have "a' < 2 ^ 32 \<and> s' < 2 ^ 32"
    using sums_bound [OF c(2)] c(1) assms by (auto simp: is_adler_def BASE_def NMAX_def)
  then show "a' < 2 ^ 32" "s' < 2 ^ 32" by simp_all
qed

theorem adler32_correct_witness:
  "adler32 1 (Some (replicate 20 7)) = adler32_ref 1 (replicate 20 7)"
  using adler32_correct [of 1 "replicate 20 7"] by (simp add: is_adler_def BASE_def)

section \<open>Combining two checksums\<close>

definition combine_reduce1 :: "nat \<Rightarrow> nat" where
  "combine_reduce1 x = (let y = (if BASE < x then x - BASE else x) in if BASE < y then y - BASE else y)"

definition combine_reduce2 :: "nat \<Rightarrow> nat" where
  "combine_reduce2 x = (let y = (if 2 * BASE < x then x - 2 * BASE else x) in if BASE < y then y - BASE else y)"

definition adler32_combine :: "nat \<Rightarrow> nat \<Rightarrow> nat \<Rightarrow> nat" where
  "adler32_combine adler1 adler2 len2 =
     (let rem = len2 mod BASE;
          sum1 = take_bit 16 adler1;
          sum2 = rem * sum1 mod BASE;
          sum1 = sum1 + take_bit 16 adler2 + BASE - 1;
          sum2 = sum2 + take_bit 16 (drop_bit 16 adler1) + take_bit 16 (drop_bit 16 adler2) + BASE - rem in
      recombine (combine_reduce1 sum1, combine_reduce2 sum2))"

text \<open>The comparisons are strict, so a sum that is 0 comes out as \<open>BASE\<close>.\<close>

definition or_BASE :: "nat \<Rightarrow> nat" where
  "or_BASE x = (if x = 0 then BASE else x)"

lemma or_BASE_mod: "0 < x \<Longrightarrow> x \<le> BASE \<Longrightarrow> x = or_BASE (x mod BASE)"
  by (cases "x = BASE") (auto simp: or_BASE_def)

lemma combine_range:
  "0 < x \<Longrightarrow> x \<le> 3 * BASE \<Longrightarrow> 0 < combine_reduce1 x \<and> combine_reduce1 x \<le> BASE"
  "0 < x \<Longrightarrow> x \<le> 4 * BASE \<Longrightarrow> 0 < combine_reduce2 x \<and> combine_reduce2 x \<le> BASE"
  by (auto simp: combine_reduce1_def combine_reduce2_def Let_def)

lemma combine_mod: "combine_reduce1 x mod BASE = x mod BASE" "combine_reduce2 x mod BASE = x mod BASE"
proof -
  have sub: "(y - n * BASE) mod BASE = y mod BASE" if "n * BASE \<le> y" for n y
    using that by (metis le_add_diff_inverse2 mod_mult_self1)
  from sub [of 1] show "combine_reduce1 x mod BASE = x mod BASE" by (simp add: combine_reduce1_def Let_def)
  from sub [of 1] sub [of 2 x] show "combine_reduce2 x mod BASE = x mod BASE" by (simp add: combine_reduce2_def Let_def)
qed

lemma combine_reduced:
  "0 < x \<Longrightarrow> x \<le> 3 * BASE \<Longrightarrow> combine_reduce1 x = or_BASE (x mod BASE)"
  "0 < x \<Longrightarrow> x \<le> 4 * BASE \<Longrightarrow> combine_reduce2 x = or_BASE (x mod BASE)"
  using or_BASE_mod [OF conjunct1 [OF combine_range(1)] conjunct2 [OF combine_range(1)]]
    or_BASE_mod [OF conjunct1 [OF combine_range(2)] conjunct2 [OF combine_range(2)]] by (simp_all only: combine_mod)

text \<open>The sums of a second piece from those it has on its own.\<close>

lemma sums_shift: "sums ys (a + d, b + e) = (fst (sums ys (a, b)) + d, snd (sums ys (a, b)) + e + length ys * d)"
proof (induction ys arbitrary: a b e)
  case (Cons y ys)
  have "sums (y # ys) (a + d, b + e) = sums ys (a + unat y + d, b + (a + unat y) + (e + d))"
    by (simp add: sums_def DO1_def Let_def ac_simps)
  moreover have "sums (y # ys) (a, b) = sums ys (a + unat y, b + (a + unat y))" by (simp add: sums_def DO1_def Let_def)
  ultimately show ?case using Cons.IH [of "a + unat y" "b + (a + unat y)" "e + d"] by simp
qed simp

lemma adler32_halves:
  assumes "is_adler a"
  shows "adler32 a (Some b) mod 65536 = fst (sums b (a mod 65536, a div 65536)) mod BASE"
    "adler32 a (Some b) div 65536 = snd (sums b (a mod 65536, a div 65536)) mod BASE"
proof -
  note h = is_adler_halves [OF assms]
  let ?p = "(a mod 65536, a div 65536)"
  have r: "reduced (sums_ref b ?p)" using reduced_sums_ref [OF h(3)] .
  have "cong (sums b ?p) (sums_ref b ?p)" by (rule cong_sums_ref) (simp add: cong_def)
  then have "sums_ref b ?p = MODs (sums b ?p)" using r by (simp add: cong_def reduced_def MODs_def prod_eq_iff)
  then have "adler32 a (Some b) = fst (MODs (sums b ?p)) + 65536 * snd (MODs (sums b ?p))"
    using adler32_is_ref(1) [OF assms, of b] h(4) by (simp add: adler32_ref_def Let_def)
  moreover have "fst (MODs (sums b ?p)) < 65536" using reduced_MODs [of "sums b ?p"] by (simp add: reduced_def BASE_def)
  ultimately show "adler32 a (Some b) mod 65536 = fst (sums b ?p) mod BASE"
    "adler32 a (Some b) div 65536 = snd (sums b ?p) mod BASE" by (simp_all add: MODs_def)
qed

text \<open>The two sums before the last reductions.\<close>

lemma combine_sums:
  fixes a1 b1 a2 b2 n :: nat
  shows "(a1 mod BASE + a2 mod BASE + BASE - 1) mod BASE = (a2 + (a1 + BASE - 1)) mod BASE"
    "((n mod BASE) * (a1 mod BASE) mod BASE + b1 mod BASE + b2 mod BASE + BASE - n mod BASE) mod BASE
      = (b2 + b1 + n * (a1 + BASE - 1)) mod BASE"
proof -
  have B: "1 \<le> BASE" by (simp add: BASE_def)
  then have shift: "q + BASE - 1 = q + (BASE - 1)" for q by simp
  show "(a1 mod BASE + a2 mod BASE + BASE - 1) mod BASE = (a2 + (a1 + BASE - 1)) mod BASE"
  proof -
    have "(a1 mod BASE + a2 mod BASE + (BASE - 1)) mod BASE = (a1 + a2 + (BASE - 1)) mod BASE"
      by (intro mod_add_cong) simp_all
    then show ?thesis unfolding shift by (simp add: ac_simps)
  qed
  let ?l = "(n mod BASE) * (a1 mod BASE) mod BASE + b1 mod BASE + b2 mod BASE + BASE - n mod BASE"
  let ?r = "b2 + b1 + n * (a1 + BASE - 1)"
  have "n mod BASE \<le> BASE" using B by (simp add: less_imp_le)
  then have "n mod BASE \<le> q + BASE" for q by (rule trans_le_add2)
  then have "int ?l = int n mod int BASE * (int a1 mod int BASE) mod int BASE + int b1 mod int BASE + int b2 mod int BASE + int BASE
      - int n mod int BASE"
    by (simp add: of_nat_diff of_nat_mod)
  also have "\<dots> mod int BASE = (int n * int a1 + int b1 + int b2 + int BASE - int n) mod int BASE"
    by (intro mod_diff_cong mod_add_cong) (simp_all add: mod_simps)
  also have "\<dots> = (int n * int a1 + int b1 + int b2 + int BASE - int n + (int n - 1) * int BASE) mod int BASE" by simp
  also have "int n * int a1 + int b1 + int b2 + int BASE - int n + (int n - 1) * int BASE = int ?r"
  proof -
    have "int (a1 + BASE - 1) = int a1 + int BASE - 1" using B by (simp add: of_nat_diff)
    then show ?thesis by (simp only: of_nat_add of_nat_mult) (simp add: algebra_simps)
  qed
  finally show "?l mod BASE = ?r mod BASE" by (metis of_nat_eq_iff of_nat_mod)
qed

lemma combine_bounds:
  fixes B :: nat
  assumes "1 < B" "u < B" "v < B"
  shows "0 < u + v + B - 1" "u + v + B - 1 \<le> 3 * B"
    and "w < B \<Longrightarrow> n < B \<Longrightarrow> 0 < u + v + w + B - n" "w < B \<Longrightarrow> n < B \<Longrightarrow> u + v + w + B - n \<le> 4 * B"
  using assms by simp_all

lemma equal_halves: "r = c \<longleftrightarrow> r mod 65536 = c mod 65536 \<and> r div 65536 = (c div 65536 :: nat)"
  by (metis div_mult_mod_eq)

lemma or_BASE_eq: "or_BASE z = z \<longleftrightarrow> z \<noteq> 0"
  by (simp add: or_BASE_def BASE_def)

text \<open>The checksum of two pieces from the checksums of each: both halves are right up to \<open>BASE\<close>, and the result is the
  checksum exactly when neither half of that is 0; a half that is 0 comes out as 65521.\<close>

theorem adler32_combine_correct:
  assumes "is_adler a"
  shows "let c = adler32 a (Some (xs @ ys)); r = adler32_combine (adler32 a (Some xs)) (adler32 1 (Some ys)) (length ys) in
      r mod 65536 = or_BASE (c mod 65536) \<and> r div 65536 = or_BASE (c div 65536)
      \<and> (r = c \<longleftrightarrow> c mod 65536 \<noteq> 0 \<and> c div 65536 \<noteq> 0)"
proof -
  let ?p = "(a mod 65536, a div 65536)" and ?n = "length ys"
  define a1 b1 a2 b2 where p: "a1 = fst (sums xs ?p)" "b1 = snd (sums xs ?p)" "a2 = fst (sums ys (1, 0))" "b2 = snd (sums ys (1, 0))"
  have one: "is_adler 1" by (simp add: is_adler_def BASE_def)
  define c d where c: "c = adler32 a (Some xs)" and d: "d = adler32 1 (Some ys)"
  have c_ok: "is_adler c" and d_ok: "is_adler d" using adler32_is_ref(2) assms one by (auto simp: c d)
  have c': "c mod 65536 = a1 mod BASE" "c div 65536 = b1 mod BASE" using adler32_halves [OF assms, of xs] by (simp_all add: c p)
  have d': "d mod 65536 = a2 mod BASE" "d div 65536 = b2 mod BASE" using adler32_halves [OF one, of ys] by (simp_all add: d p)
  let ?x = "a1 mod BASE + a2 mod BASE + BASE - 1"
  let ?y = "(?n mod BASE) * (a1 mod BASE) mod BASE + b1 mod BASE + b2 mod BASE + BASE - ?n mod BASE"
  have B: "z mod BASE < BASE" "1 < BASE" for z by (simp_all add: BASE_def)
  have bounds: "0 < ?x" "?x \<le> 3 * BASE" "0 < ?y" "?y \<le> 4 * BASE"
    by (rule combine_bounds [OF B(2) B(1) B(1)] combine_bounds(3,4) [OF B(2) B(1) B(1) B(1) B(1)])+
  have r: "adler32_combine c d ?n = recombine (or_BASE (?x mod BASE), or_BASE (?y mod BASE))"
    unfolding adler32_combine_def Let_def is_adler_halves(1,2) [OF c_ok] is_adler_halves(1,2) [OF d_ok] c' d'
      combine_reduced(1) [OF bounds(1,2)] combine_reduced(2) [OF bounds(3,4)] ..
  have "cong (a1, b1) (1 + (a1 + BASE - 1), 0 + b1)" using B(2) by (simp add: cong_def)
  from cong_sums [OF this, of ys, unfolded sums_shift]
  have "cong (sums ys (a1, b1)) (a2 + (a1 + BASE - 1), b2 + b1 + ?n * (a1 + BASE - 1))" by (simp only: p)
  moreover have "sums ys (a1, b1) = sums (xs @ ys) ?p" by (simp add: sums_append p)
  ultimately have "cong (sums (xs @ ys) ?p) (a2 + (a1 + BASE - 1), b2 + b1 + ?n * (a1 + BASE - 1))" by simp
  then have whole: "adler32 a (Some (xs @ ys)) mod 65536 = ?x mod BASE" "adler32 a (Some (xs @ ys)) div 65536 = ?y mod BASE"
    using adler32_halves [OF assms, of "xs @ ys"] combine_sums(1) [of a1 a2] combine_sums(2) [of ?n a1 b1 b2]
    by (simp_all only: cong_def fst_conv snd_conv)
  have small: "or_BASE (z mod BASE) < 65536" for z using B(1) [of z] by (auto simp: or_BASE_def BASE_def)
  have rec: "recombine (u, v) mod 65536 = u" "recombine (u, v) div 65536 = v" if "u < 65536" for u v
    using recombine_halves [of "(u, v)"] that by (simp_all only: fst_conv snd_conv) simp_all
  let ?c = "adler32 a (Some (xs @ ys))" and ?r = "adler32_combine c d ?n"
  have halves: "?r mod 65536 = or_BASE (?c mod 65536)" "?r div 65536 = or_BASE (?c div 65536)"
    unfolding r whole using rec [OF small] by simp_all
  moreover have "?r = ?c \<longleftrightarrow> ?c mod 65536 \<noteq> 0 \<and> ?c div 65536 \<noteq> 0"
    unfolding equal_halves [of ?r ?c] halves or_BASE_eq ..
  ultimately show ?thesis unfolding Let_def c d by blast
qed

theorem adler32_combine_correct_witness:
  "adler32_combine (adler32 1 (Some [7, 8])) (adler32 1 (Some [9])) 1 = adler32 1 (Some [7, 8, 9])"
proof -
  have "adler32 1 (Some [7, 8, 9]) = 3211289" by (simp add: adler32_def sums_def DO1_def BASE_def recombine_def)
  then show ?thesis using adler32_combine_correct [of 1 "[7, 8]" "[9]"] by (simp add: is_adler_def BASE_def Let_def)
qed

end
