(* ===== verification/Base_Packer.thy ===== *)
theory Base_Packer
  imports Auto_Buffer Ptr_Buffer Adler32
begin

text \<open>
  The packet formats of src/mars/comm/basepacker.h and basepacker.cc: the length-prefixed packets of the
  \<^verbatim>\<open>SimplePack\<close> templates (16 and 32-bit lengths) and the long-link packet with its 16-byte head. A value in
  network byte order is a byte list, so \<^verbatim>\<open>hton\<close> followed by a raw copy is \<open>net_bytes\<close> and a raw read followed
  by \<^verbatim>\<open>ntoh\<close> is \<open>net_val\<close>. A raw buffer is its byte list; reading beyond it is \<open>Inl Out_Of_Bounds\<close>. The
  template over the buffer class is a function over the class's write operation, and its lemmas are proved
  once for every \<open>byte_sink\<close>. A C string is given by its bytes without the terminator. The error codes that
  the source writes as \<^verbatim>\<open>__LINE__\<close> are those line numbers.
\<close>

section \<open>Network byte order\<close>

fun net_bytes :: "nat \<Rightarrow> nat \<Rightarrow> bytes" where
  "net_bytes 0 n = []"
| "net_bytes (Suc w) n = net_bytes w (n div 256) @ [of_nat n]"

definition net_val :: "bytes \<Rightarrow> nat" where
  "net_val bs = foldl (\<lambda>a x. a * 256 + unat x) 0 bs"

lemma length_net_bytes [simp]: "length (net_bytes w n) = w"
  by (induction w arbitrary: n) simp_all

lemma net_val_snoc: "net_val (bs @ [x]) = net_val bs * 256 + unat x"
  by (simp add: net_val_def)

lemma net_val_net_bytes [simp]: "net_val (net_bytes w n) = n mod 256 ^ w"
proof (induction w arbitrary: n)
  case 0
  then show ?case by (simp add: net_val_def)
next
  case (Suc w)
  have "unat (of_nat n :: byte) = n mod 256" by (simp add: unat_of_nat)
  with Suc show ?case by (simp add: net_val_snoc mod_mult2_eq)
qed

lemma net_val_less: "net_val bs < 256 ^ length bs"
proof (induction bs rule: rev_induct)
  case Nil
  then show ?case by (simp add: net_val_def)
next
  case (snoc x bs)
  then show ?case using unat_byte_less [of x] by (simp add: net_val_snoc)
qed

section \<open>Length-prefixed packets\<close>

definition SIMPLE_CONTINUE :: int where
  "SIMPLE_CONTINUE = -2"

definition SIMPLE_CONTINUE_DATA :: int where
  "SIMPLE_CONTINUE_DATA = -1"

definition SIMPLE_OK :: int where
  "SIMPLE_OK = 0"

text \<open>\<open>w\<close> is \<^verbatim>\<open>sizeof(T)\<close>.\<close>

definition SimplePackLength :: "nat \<Rightarrow> nat \<Rightarrow> nat" where
  "SimplePackLength w datalen = (datalen + w) mod 256 ^ w"

definition SimplePack :: "nat \<Rightarrow> ('b \<Rightarrow> bytes \<Rightarrow> 'b result) \<Rightarrow> bytes \<Rightarrow> 'b \<Rightarrow> 'b result" where
  "SimplePack w put data outbuf =
     rbind (put outbuf (net_bytes w (SimplePackLength w (length data)))) (\<lambda>b. put b data)"

text \<open>\<open>n\<close> bytes of a raw buffer from \<open>off\<close>.\<close>

definition raw_slice :: "bytes \<Rightarrow> nat \<Rightarrow> nat \<Rightarrow> bytes result" where
  "raw_slice raw off n =
     (if n = 0 then Inr [] else if off + n \<le> length raw then Inr (take n (drop off raw)) else Inl Out_Of_Bounds)"

definition SimpleUnpack :: "nat \<Rightarrow> bytes \<Rightarrow> nat \<Rightarrow> AutoBuffer \<Rightarrow> (int \<times> nat \<times> AutoBuffer) result" where
  "SimpleUnpack w raw packlen data =
     (if w > length raw then Inr (SIMPLE_CONTINUE, packlen, data)
      else
        let packlen' = net_val (take w raw) in
        if packlen' > length raw then Inr (SIMPLE_CONTINUE_DATA, packlen', data)
        else rbind (raw_slice raw w (to_size (int packlen' - int w))) (\<lambda>d.
               rbind (Write data d) (\<lambda>data'. Inr (SIMPLE_OK, packlen', data'))))"

definition SimpleUnpack_ptr :: "nat \<Rightarrow> bytes \<Rightarrow> nat \<Rightarrow> PtrBuffer \<Rightarrow> int \<times> nat \<times> PtrBuffer" where
  "SimpleUnpack_ptr w raw packlen data =
     (if w > length raw then (SIMPLE_CONTINUE, packlen, data)
      else
        let packlen' = net_val (take w raw) in
        if packlen' > length raw then (SIMPLE_CONTINUE_DATA, packlen', data)
        else let n = to_size (int packlen' - int w)
             in (SIMPLE_OK, packlen', PB_Attach_max data (Some (drop w raw)) n n))"

definition SimpleShortPackLength :: "nat \<Rightarrow> nat" where
  "SimpleShortPackLength datalen = SimplePackLength 2 datalen"

definition SimpleShortPack :: "bytes \<Rightarrow> AutoBuffer \<Rightarrow> AutoBuffer result" where
  "SimpleShortPack data outbuf = SimplePack 2 Write data outbuf"

definition SimpleShortUnpack :: "bytes \<Rightarrow> nat \<Rightarrow> AutoBuffer \<Rightarrow> (int \<times> nat \<times> AutoBuffer) result" where
  "SimpleShortUnpack raw packlen data = SimpleUnpack 2 raw packlen data"

definition SimpleShortUnpack_ptr :: "bytes \<Rightarrow> nat \<Rightarrow> PtrBuffer \<Rightarrow> int \<times> nat \<times> PtrBuffer" where
  "SimpleShortUnpack_ptr raw packlen data = SimpleUnpack_ptr 2 raw packlen data"

definition SimpleIntPackLength :: "nat \<Rightarrow> nat" where
  "SimpleIntPackLength datalen = SimplePackLength 4 datalen"

definition SimpleIntPack :: "bytes \<Rightarrow> AutoBuffer \<Rightarrow> AutoBuffer result" where
  "SimpleIntPack data outbuf = SimplePack 4 Write data outbuf"

definition SimpleIntUnpack :: "bytes \<Rightarrow> nat \<Rightarrow> AutoBuffer \<Rightarrow> (int \<times> nat \<times> AutoBuffer) result" where
  "SimpleIntUnpack raw packlen data = SimpleUnpack 4 raw packlen data"

definition SimpleIntUnpack_ptr :: "bytes \<Rightarrow> nat \<Rightarrow> PtrBuffer \<Rightarrow> int \<times> nat \<times> PtrBuffer" where
  "SimpleIntUnpack_ptr raw packlen data = SimpleUnpack_ptr 4 raw packlen data"

section \<open>Long-link packets\<close>

definition LONGLINKPACK_CONTINUE :: int where
  "LONGLINKPACK_CONTINUE = -3"

definition LONGLINKPACK_CONTINUE_HEAD :: int where
  "LONGLINKPACK_CONTINUE_HEAD = -2"

definition LONGLINKPACK_CONTINUE_data :: int where
  "LONGLINKPACK_CONTINUE_data = -1"

definition LONGLINKPACK_OK :: int where
  "LONGLINKPACK_OK = 0"

record LongLinkPack =
  lp_magic :: byte
  lp_ver :: byte
  lp_head_length :: byte
  lp_url_length :: byte
  lp_total_length :: nat
  lp_sequence :: nat
  lp_hash :: nat

text \<open>The packed struct in memory, its three words in network order, and back.\<close>

definition st_bytes :: "LongLinkPack \<Rightarrow> bytes" where
  "st_bytes st = [lp_magic st, lp_ver st, lp_head_length st, lp_url_length st]
     @ net_bytes 4 (lp_total_length st) @ net_bytes 4 (lp_sequence st) @ net_bytes 4 (lp_hash st)"

definition st_of :: "bytes \<Rightarrow> LongLinkPack" where
  "st_of raw =
     \<lparr>lp_magic = raw ! 0, lp_ver = raw ! 1, lp_head_length = raw ! 2, lp_url_length = raw ! 3,
      lp_total_length = net_val (take 4 (drop 4 raw)), lp_sequence = net_val (take 4 (drop 8 raw)),
      lp_hash = net_val (take 4 (drop 12 raw))\<rparr>"

definition sizeof_LongLinkPack :: nat where
  "sizeof_LongLinkPack = 16"

definition strnlen :: "bytes \<Rightarrow> nat \<Rightarrow> nat" where
  "strnlen s n = min (length s) n"

definition Packer_hash :: "bytes \<Rightarrow> bytes \<Rightarrow> bool \<Rightarrow> nat" where
  "Packer_hash u data dohash =
     (if dohash then
        let h = adler32 0 (Some u) mod 2 ^ 32
        in if 0 < length data then adler32 h (Some (take (length data mod 2 ^ 32) data)) mod 2 ^ 32 else h
      else 0)"

definition Packer_Pack :: "bytes \<Rightarrow> nat \<Rightarrow> bytes \<Rightarrow> AutoBuffer \<Rightarrow> bool \<Rightarrow> AutoBuffer result" where
  "Packer_Pack url sequence data outbuf dohash =
     (let url_size = strnlen url 128;
          total = (sizeof_LongLinkPack + url_size + length data) mod 2 ^ 32
      in rbind (AllocWrite outbuf total True) (\<lambda>b.
         let st = \<lparr>lp_magic = of_nat (sizeof_LongLinkPack + url_size + total), lp_ver = 1,
                   lp_head_length = of_nat sizeof_LongLinkPack, lp_url_length = of_nat url_size,
                   lp_total_length = total, lp_sequence = sequence,
                   lp_hash = Packer_hash (take url_size url) data dohash\<rparr>
         in rbind (Write b (st_bytes st)) (\<lambda>b1.
            rbind (Write b1 (take url_size url)) (\<lambda>b2. Write b2 data))))"

record unpack_ref =
  uo_url :: bytes
  uo_sequence :: nat
  uo_packlen :: nat

text \<open>
  The two overloads of \<^verbatim>\<open>Packer_Unpack\<close> differ in the lines they report and in what they do with the
  payload: \<open>err\<close> are the four line numbers, the payload is its offset and length.
\<close>

definition Packer_Unpack_check ::
  "int \<times> int \<times> int \<times> int \<Rightarrow> bytes \<Rightarrow> unpack_ref \<Rightarrow> (int \<times> unpack_ref \<times> (nat \<times> nat) option) result" where
  "Packer_Unpack_check err raw r =
     (case err of (l_magic, l_short, l_long, l_hash) \<Rightarrow>
      if length raw < sizeof_LongLinkPack then Inr (LONGLINKPACK_CONTINUE, r, None)
      else
        let st = st_of raw; head = unat (lp_head_length st); url = unat (lp_url_length st);
            total = lp_total_length st
        in if of_nat (head + url + total) \<noteq> lp_magic st then Inr (l_magic, r, None)
           else if url + head > total then Inr (l_short, r, None)
           else if 1024 * 1024 < total then Inr (l_long, r, None)
           else if url + head > length raw then Inr (LONGLINKPACK_CONTINUE_HEAD, r, None)
           else rbind (raw_slice raw head url) (\<lambda>u.
             let r' = \<lparr>uo_url = u, uo_sequence = lp_sequence st, uo_packlen = total\<rparr>
             in if total > length raw then Inr (LONGLINKPACK_CONTINUE_data, r', None)
                else rbind (raw_slice raw head (total - head)) (\<lambda>h.
                  if lp_hash st \<noteq> 0 \<and> lp_hash st \<noteq> adler32 0 (Some h) then Inr (l_hash, r', None)
                  else Inr (LONGLINKPACK_OK, r', Some (head + url, total - (head + url))))))"

definition Packer_Unpack ::
  "bytes \<Rightarrow> unpack_ref \<Rightarrow> AutoBuffer \<Rightarrow> (int \<times> unpack_ref \<times> AutoBuffer) result" where
  "Packer_Unpack raw r data =
     rbind (Packer_Unpack_check (184, 186, 188, 198) raw r) (\<lambda>(code, r', p).
       case p of None \<Rightarrow> Inr (code, r', data)
       | Some (off, n) \<Rightarrow>
           rbind (raw_slice raw off n) (\<lambda>d. rbind (Write data d) (\<lambda>data'. Inr (code, r', data'))))"

definition Packer_Unpack_ptr ::
  "bytes \<Rightarrow> unpack_ref \<Rightarrow> PtrBuffer \<Rightarrow> (int \<times> unpack_ref \<times> PtrBuffer) result" where
  "Packer_Unpack_ptr raw r data =
     rbind (Packer_Unpack_check (214, 216, 218, 228) raw r) (\<lambda>(code, r', p).
       case p of None \<Rightarrow> Inr (code, r', data)
       | Some (off, n) \<Rightarrow> Inr (code, r', PB_Attach data (Some (drop off raw)) n))"

section \<open>Packing into any sink\<close>

context byte_sink
begin

lemma SimplePack_ok:
  assumes "sink_inv b" "length data + w \<le> room b"
  shows "\<exists>b'. SimplePack w put data b = Inr b' \<and> sink_inv b'
    \<and> out b' = out b @ net_bytes w (SimplePackLength w (length data)) @ data
    \<and> room b' = room b - (length data + w)"
  using put_two_ok [of b "net_bytes w (SimplePackLength w (length data))" data] assms
  by (simp add: SimplePack_def add.commute)

end

lemma SimplePackLength_id: "n + w < 256 ^ w \<Longrightarrow> SimplePackLength w n = n + w"
  by (simp add: SimplePackLength_def)

lemma SimpleUnpack_packet:
  assumes "length data + w < 256 ^ w" "sink_ok b" "length data \<le> sink_room b" "w \<le> 8"
  shows "\<exists>b'. SimpleUnpack w (net_bytes w (SimplePackLength w (length data)) @ data @ rest) pl b
      = Inr (SIMPLE_OK, length data + w, b')
    \<and> sink_ok b' \<and> written b' = written b @ data"
proof -
  obtain b' where b': "Write b data = Inr b'" "sink_ok b'" "written b' = written b @ data"
    using ab.put_ok [OF assms(2,3)] by blast
  have "length data < 2 ^ 62" using assms(3) by (simp add: sink_room_def)
  then have "to_size (int (length data + w) - int w) = length data" by (simp add: to_size_id)
  then show ?thesis
    using assms(1) b' by (auto simp: SimpleUnpack_def SimplePackLength_id Let_def raw_slice_def)
qed

section \<open>The long-link packet\<close>

lemma raw_slice_prefix:
  assumes "length pre = off" "prefix xs (ys @ zs)" "length ys \<le> length xs"
  shows "raw_slice (pre @ xs) off (length ys) = Inr ys"
proof -
  have "xs = take (length xs) (ys @ zs)" using assms(2) by (metis append_eq_conv_conj prefix_def)
  then have "take (length ys) xs = take (length ys) (take (length xs) (ys @ zs))" by simp
  then have "take (length ys) xs = ys" using assms(3) by (simp add: min_absorb1)
  with assms show ?thesis by (auto simp: raw_slice_def)
qed

lemma length_st_bytes [simp]: "length (st_bytes st) = 16"
  by (simp add: st_bytes_def)

lemma st_of_st_bytes:
  assumes "lp_total_length st < 2 ^ 32" "lp_sequence st < 2 ^ 32" "lp_hash st < 2 ^ 32"
  shows "st_of (st_bytes st @ xs) = st"
  using assms by (cases st) (simp add: st_of_def st_bytes_def nth_Cons')

definition pack_hash :: "bytes \<Rightarrow> bytes \<Rightarrow> bool \<Rightarrow> nat" where
  "pack_hash url data dohash = (if dohash then adler32 0 (Some (take 128 url @ data)) else 0)"

definition pack_head :: "bytes \<Rightarrow> nat \<Rightarrow> bytes \<Rightarrow> bool \<Rightarrow> LongLinkPack" where
  "pack_head url sequence data dohash =
     (let n = 16 + length (take 128 url) in
      \<lparr>lp_magic = of_nat (n + (n + length data)), lp_ver = 1, lp_head_length = 16,
       lp_url_length = of_nat (length (take 128 url)), lp_total_length = n + length data,
       lp_sequence = sequence, lp_hash = pack_hash url data dohash\<rparr>)"

definition packet :: "bytes \<Rightarrow> nat \<Rightarrow> bytes \<Rightarrow> bool \<Rightarrow> bytes" where
  "packet url sequence data dohash = st_bytes (pack_head url sequence data dohash) @ take 128 url @ data"

lemma length_packet: "length (packet url sequence data dohash) = 16 + length (take 128 url) + length data"
  by (simp add: packet_def st_bytes_def)

lemma is_adler_0: "is_adler 0"
  by (simp add: is_adler_def BASE_def)

lemma adler_less: "is_adler a \<Longrightarrow> a < 2 ^ 32"
proof -
  assume "is_adler a"
  then have "a mod 65536 < 65521" "a div 65536 < 65521" by (simp_all add: is_adler_def BASE_def)
  moreover have "a = a div 65536 * 65536 + a mod 65536" by (rule div_mult_mod_eq [symmetric])
  ultimately have "a < 4294967296" by linarith
  then show ?thesis by simp
qed

lemma pack_hash_less: "pack_hash url data dohash < 2 ^ 32"
  using adler_less [OF adler32_is_ref(2) [OF is_adler_0]] by (simp add: pack_hash_def)

text \<open>The checksum is computed in two pieces when packing and in one when unpacking.\<close>

lemma pack_hash_pieces:
  assumes "length data < 2 ^ 32"
  shows "Packer_hash (take 128 url) data dohash = pack_hash url data dohash"
proof -
  have l: "adler32 0 (Some xs) mod 2 ^ 32 = adler32 0 (Some xs)" for xs
    using adler_less [OF adler32_is_ref(2) [OF is_adler_0]] by simp
  show ?thesis
    using assms l adler32_append [OF is_adler_0, of "take 128 url" data] by (auto simp: pack_hash_def Packer_hash_def Let_def)
qed

lemma Packer_Pack_ok:
  assumes b: "sink_ok b" and room: "144 + length data \<le> sink_room b" and d: "length data < 2 ^ 31"
  shows "\<exists>b'. Packer_Pack url sequence data b dohash = Inr b' \<and> sink_ok b'
    \<and> written b' = written b @ packet url sequence data dohash"
proof -
  let ?u = "take 128 url" and ?n = "16 + length (take 128 url) + length data"
  have sn: "strnlen url 128 = length ?u" by (simp add: strnlen_def)
  have u: "take (length ?u) url = ?u" by (simp add: take_all_iff min_def)
  have n: "?n mod 2 ^ 32 = ?n" "?n \<le> sink_room b" using d room by (simp_all)
  have "fits b ?n" using n(2) b by (simp add: fits_def sink_ok_def sink_room_def)
  then obtain c where c: "AllocWrite b ?n True = Inr c" "wf_buf c" "cursor c = cursor b"
      "length (content c) = max (length (content b)) (cursor b + ?n)"
      "take (length (content b)) (content c) = content b"
    using AllocWrite_ok [of b ?n] b by (auto simp: sink_ok_def)
  have "cursor b \<le> length (content b)" using b cursor_le by (simp add: sink_ok_def)
  then have w: "written c = written b" using c(3,5) by (metis min_absorb1 take_take written_def)
  have sc: "sink_ok c" "sink_room c = sink_room b"
    using b c n(2) by (auto simp: sink_ok_def sink_room_def)
  let ?st = "pack_head url sequence data dohash"
  have h: "Packer_Pack url sequence data b dohash =
      rbind (Write c (st_bytes ?st)) (\<lambda>b1. rbind (Write b1 ?u) (\<lambda>b2. Write b2 data))"
    using c(1) n(1) pack_hash_pieces [of data url dohash] d
    by (simp add: Packer_Pack_def sn u sizeof_LongLinkPack_def pack_head_def Let_def add.assoc del: length_take)
  have "length (st_bytes ?st) + length ?u + length data \<le> sink_room c"
    using n(2) sc(2) by (simp add: st_bytes_def)
  from ab.put_three_ok [OF sc(1) this] h w show ?thesis by (auto simp: packet_def)
qed

lemma pack_head_proj [simp]:
  "unat (lp_head_length (pack_head url sequence data dohash)) = 16"
  "unat (lp_url_length (pack_head url sequence data dohash)) = length (take 128 url)"
  "lp_total_length (pack_head url sequence data dohash) = 16 + length (take 128 url) + length data"
  "lp_sequence (pack_head url sequence data dohash) = sequence"
  "lp_hash (pack_head url sequence data dohash) = pack_hash url data dohash"
  "lp_magic (pack_head url sequence data dohash)
    = of_nat (16 + length (take 128 url) + (16 + length (take 128 url) + length data))"
  by (simp_all add: pack_head_def Let_def unat_of_nat)

text \<open>The head of any buffer that starts with the 16 bytes of a packet's head.\<close>

lemma Packer_Unpack_check_packet:
  assumes t: "16 + length (take 128 url) + length data \<le> 1024 * 1024" and sq: "sequence < 2 ^ 32"
    and raw: "raw = st_bytes (pack_head url sequence data dohash) @ xs"
    and pre: "prefix xs (take 128 url @ data @ rest)"
  shows "Packer_Unpack_check err raw r =
    (if length xs < length (take 128 url) then Inr (LONGLINKPACK_CONTINUE_HEAD, r, None)
     else
       let r' = \<lparr>uo_url = take 128 url, uo_sequence = sequence,
                 uo_packlen = 16 + length (take 128 url) + length data\<rparr>
       in if length xs < length (take 128 url @ data) then Inr (LONGLINKPACK_CONTINUE_data, r', None)
          else Inr (LONGLINKPACK_OK, r', Some (16 + length (take 128 url), length data)))"
proof -
  let ?st = "pack_head url sequence data dohash" and ?u = "take 128 url"
  have l: "length (st_bytes ?st) = 16" by (simp add: st_bytes_def)
  have st: "st_of raw = ?st"
    unfolding raw using t sq pack_hash_less by (intro st_of_st_bytes) simp_all
  obtain err1 err2 err3 err4 where e: "err = (err1, err2, err3, err4)" by (cases err) auto
  have u: "raw_slice raw 16 (length ?u) = Inr ?u" if "length ?u \<le> length xs"
    using raw_slice_prefix [OF l pre that] by (simp add: raw)
  have ud: "raw_slice raw 16 (length ?u + length data) = Inr (?u @ data)" if "length (?u @ data) \<le> length xs"
    using raw_slice_prefix [OF l _ that, of rest] pre by (simp add: raw)
  have h: "pack_hash url data dohash = 0 \<or> pack_hash url data dohash = adler32 0 (Some (?u @ data))"
    by (simp add: pack_hash_def)
  have m: "of_nat (16 + length ?u + (16 + length ?u + length data)) = lp_magic ?st"
    by (simp only: pack_head_proj)
  have len: "length raw = 16 + length xs" by (simp add: raw l)
  consider (head) "length xs < length ?u" | (data) "length ?u \<le> length xs" "length xs < length (?u @ data)"
    | (all) "length (?u @ data) \<le> length xs" by linarith
  then show ?thesis
  proof cases
    case head
    then show ?thesis using t m
      by (simp add: Packer_Unpack_check_def e st len sizeof_LongLinkPack_def del: length_take of_nat_add)
  next
    case data
    then show ?thesis using t m u
      by (simp add: Packer_Unpack_check_def e st len sizeof_LongLinkPack_def Let_def del: length_take of_nat_add)
  next
    case all
    then show ?thesis using t m u ud h
      by (auto simp: Packer_Unpack_check_def e st len sizeof_LongLinkPack_def Let_def simp del: length_take of_nat_add)
  qed
qed

section \<open>What the packers promise\<close>

definition ex_sink :: AutoBuffer where
  "ex_sink = AutoBuffer_new 128"

lemma ex_sink_ok: "sink_ok ex_sink" "sink_room ex_sink = 2 ^ 62 - 1"
  by (simp_all add: ex_sink_def AutoBuffer_new_def sink_ok_def sink_room_def wf_buf_def content_def cursor_def
      ab_block_def PTRDIFF_MAX_def)

text \<open>
  C15: A packet that was packed is unpacked to what went in, whatever follows it in the stream: url (its
  first 128 bytes), sequence number, length of the packet and payload, with or without checksum, as long as
  the packet is within the 1 MB that the unpacker accepts.
\<close>

theorem Packer_roundtrip:
  assumes b: "sink_ok b" "144 + length data \<le> sink_room b"
    and t: "16 + length (take 128 url) + length data \<le> 1024 * 1024" and sq: "sequence < 2 ^ 32"
    and ob: "sink_ok ob" "length data \<le> sink_room ob"
  shows "\<exists>b' pkt. Packer_Pack url sequence data b dohash = Inr b' \<and> written b' = written b @ pkt
    \<and> (\<exists>ob'. Packer_Unpack (pkt @ rest) r ob =
          Inr (LONGLINKPACK_OK, \<lparr>uo_url = take 128 url, uo_sequence = sequence, uo_packlen = length pkt\<rparr>, ob')
        \<and> written ob' = written ob @ data)"
proof -
  let ?u = "take 128 url" and ?pkt = "packet url sequence data dohash"
  have "length data < 2 ^ 31" using t by simp
  from Packer_Pack_ok [OF b this] obtain b' where
    "Packer_Pack url sequence data b dohash = Inr b'" "written b' = written b @ ?pkt" by blast
  moreover have "Packer_Unpack_check (184, 186, 188, 198) (?pkt @ rest) r = Inr (LONGLINKPACK_OK,
      \<lparr>uo_url = ?u, uo_sequence = sequence, uo_packlen = length ?pkt\<rparr>, Some (16 + length ?u, length data))"
    using Packer_Unpack_check_packet [OF t sq, of "?pkt @ rest" dohash "?u @ data @ rest" rest]
    by (simp add: packet_def Let_def del: length_take)
  moreover have "raw_slice (?pkt @ rest) (16 + length ?u) (length data) = Inr data"
    using raw_slice_prefix [of "st_bytes (pack_head url sequence data dohash) @ ?u" _ "data @ rest" data rest]
    by (simp add: packet_def del: length_take)
  moreover obtain ob' where "Write ob data = Inr ob'" "written ob' = written ob @ data"
    using ab.put_ok [OF ob] by blast
  ultimately have "Packer_Pack url sequence data b dohash = Inr b' \<and> written b' = written b @ ?pkt
    \<and> (\<exists>ob'. Packer_Unpack (?pkt @ rest) r ob =
          Inr (LONGLINKPACK_OK, \<lparr>uo_url = ?u, uo_sequence = sequence, uo_packlen = length ?pkt\<rparr>, ob')
        \<and> written ob' = written ob @ data)"
    by (simp add: Packer_Unpack_def)
  then show ?thesis by blast
qed

theorem Packer_roundtrip_witness:
  "\<exists>b' pkt. Packer_Pack [47, 97] 9 [1, 2, 3] ex_sink True = Inr b' \<and> written b' = written ex_sink @ pkt
    \<and> (\<exists>ob'. Packer_Unpack (pkt @ [0]) \<lparr>uo_url = [], uo_sequence = 0, uo_packlen = 0\<rparr> ex_sink =
          Inr (LONGLINKPACK_OK, \<lparr>uo_url = [47, 97], uo_sequence = 9, uo_packlen = length pkt\<rparr>, ob')
        \<and> written ob' = written ex_sink @ [1, 2, 3])"
  using Packer_roundtrip [OF ex_sink_ok(1), of "[1, 2, 3]" "[47, 97]" 9 ex_sink True "[0]"
      "\<lparr>uo_url = [], uo_sequence = 0, uo_packlen = 0\<rparr>"] ex_sink_ok
  by simp

text \<open>
  An incomplete packet is recognised as such: on every strict prefix of a packet the unpacker asks for
  more input with one of the three continue codes and leaves the output buffer alone.
\<close>

theorem Packer_Unpack_incomplete:
  assumes t: "16 + length (take 128 url) + length data \<le> 1024 * 1024" and sq: "sequence < 2 ^ 32"
    and p: "strict_prefix raw (packet url sequence data dohash)"
  shows "\<exists>code r'. Packer_Unpack raw r ob = Inr (code, r', ob)
    \<and> code \<in> {LONGLINKPACK_CONTINUE, LONGLINKPACK_CONTINUE_HEAD, LONGLINKPACK_CONTINUE_data}"
proof (cases "length raw < 16")
  case True
  then show ?thesis by (simp add: Packer_Unpack_def Packer_Unpack_check_def sizeof_LongLinkPack_def)
next
  case False
  let ?st = "st_bytes (pack_head url sequence data dohash)" and ?u = "take 128 url"
  have l: "length ?st = 16" by (simp add: st_bytes_def)
  have pre: "prefix raw (?st @ ?u @ data)" "length raw < length (?st @ ?u @ data)"
    using p prefix_length_less [OF p] by (auto simp: packet_def strict_prefix_def)
  define xs where "xs = drop 16 raw"
  have raw: "raw = ?st @ xs"
  proof -
    have "raw = take (length raw) (?st @ ?u @ data)" using pre(1) by (metis append_eq_conv_conj prefix_def)
    then have "take 16 raw = take 16 (take (length raw) (?st @ ?u @ data))" by simp
    then have "take 16 raw = ?st" using False l by (simp add: min_absorb1)
    then show ?thesis unfolding xs_def by (metis append_take_drop_id)
  qed
  then have "prefix xs (?u @ data @ [])" "length xs < length (?u @ data)" using pre l by simp_all
  with Packer_Unpack_check_packet [OF t sq raw this(1), of "(184, 186, 188, 198)" r]
  show ?thesis by (simp add: Packer_Unpack_def Let_def del: length_take)
qed

theorem Packer_Unpack_incomplete_witness:
  "\<exists>code r'. Packer_Unpack (take 17 (packet [47, 97] 9 [1, 2, 3] True))
      \<lparr>uo_url = [], uo_sequence = 0, uo_packlen = 0\<rparr> ex_sink = Inr (code, r', ex_sink)
    \<and> code \<in> {LONGLINKPACK_CONTINUE, LONGLINKPACK_CONTINUE_HEAD, LONGLINKPACK_CONTINUE_data}"
proof -
  have "strict_prefix (take 17 (packet [47, 97] 9 [1, 2, 3] True)) (packet [47, 97] 9 [1, 2, 3] True)"
    by (auto simp: strict_prefix_def take_is_prefix length_packet dest: arg_cong [of _ _ length])
  from Packer_Unpack_incomplete [OF _ _ this] show ?thesis by simp
qed

text \<open>
  The unpacker is safe on any bytes from the network: it never reads outside the buffer it is given, it
  stores at most 1 MB, and the payload it stores lies inside the input.
\<close>

theorem Packer_Unpack_safe:
  assumes ob: "sink_ok ob" "1024 * 1024 \<le> sink_room ob"
  shows "\<exists>code r' ob' d. Packer_Unpack raw r ob = Inr (code, r', ob') \<and> sink_ok ob'
    \<and> written ob' = written ob @ d \<and> sublist d raw \<and> length d \<le> 1024 * 1024
    \<and> (code \<noteq> LONGLINKPACK_OK \<longrightarrow> ob' = ob)"
proof -
  have s: "\<exists>d. raw_slice raw off n = Inr d \<and> sublist d raw \<and> length d = n" if "n = 0 \<or> off + n \<le> length raw" for off n
    using that sublist_take [of n "drop off raw"] sublist_drop [of off raw]
    by (auto simp: raw_slice_def intro: sublist_order.order_trans)
  have "\<exists>code r' p. Packer_Unpack_check (184, 186, 188, 198) raw r = Inr (code, r', p)
      \<and> (case p of None \<Rightarrow> True
          | Some (off, n) \<Rightarrow> code = LONGLINKPACK_OK \<and> off + n \<le> length raw \<and> n \<le> 1024 * 1024)"
  proof -
    define st where "st = st_of raw"
    obtain u where u: "raw_slice raw (unat (lp_head_length st)) (unat (lp_url_length st)) = Inr u"
      if "unat (lp_url_length st) + unat (lp_head_length st) \<le> length raw"
      using s [of "unat (lp_url_length st)" "unat (lp_head_length st)"] by (auto simp: add.commute)
    obtain h where h: "raw_slice raw (unat (lp_head_length st)) (lp_total_length st - unat (lp_head_length st)) = Inr h"
      if "lp_total_length st \<le> length raw" "unat (lp_head_length st) \<le> lp_total_length st"
      using s [of "lp_total_length st - unat (lp_head_length st)" "unat (lp_head_length st)"] by fastforce
    show ?thesis
      using u h by (auto simp: Packer_Unpack_check_def Let_def not_less not_le simp flip: st_def)
  qed
  then obtain code r' p where c: "Packer_Unpack_check (184, 186, 188, 198) raw r = Inr (code, r', p)"
    and p: "case p of None \<Rightarrow> True
        | Some (off, n) \<Rightarrow> code = LONGLINKPACK_OK \<and> off + n \<le> length raw \<and> n \<le> 1024 * 1024"
    by blast
  show ?thesis
  proof (cases p)
    case None
    then show ?thesis using c ob by (auto simp: Packer_Unpack_def intro!: exI [of _ "[]"])
  next
    case (Some x)
    obtain off n where x: "x = (off, n)" by (cases x)
    with p Some have q: "code = LONGLINKPACK_OK" "off + n \<le> length raw" "n \<le> 1024 * 1024" by auto
    from s [of n off] q obtain d where d: "raw_slice raw off n = Inr d" "sublist d raw" "length d = n" by blast
    have "length d \<le> sink_room ob" using d q ob by simp
    from ab.put_ok [OF ob(1) this] c Some x d q show ?thesis by (auto simp: Packer_Unpack_def)
  qed
qed

theorem Packer_Unpack_safe_witness:
  "\<exists>code r' ob'. Packer_Unpack (replicate 40 255) \<lparr>uo_url = [], uo_sequence = 0, uo_packlen = 0\<rparr> ex_sink
    = Inr (code, r', ob') \<and> sink_ok ob'"
  using Packer_Unpack_safe [OF ex_sink_ok(1), of "replicate 40 255" "\<lparr>uo_url = [], uo_sequence = 0, uo_packlen = 0\<rparr>"]
    ex_sink_ok(2) by fastforce

text \<open>
  The length-prefixed packets round trip in both widths and from both kinds of output buffer: what
  \<open>SimplePack\<close> appends to an \<open>AutoBuffer\<close> or a \<open>PtrBuffer\<close> is unpacked to the data, and the view the
  other overload attaches shows exactly the data.
\<close>

theorem SimplePack_roundtrip:
  assumes w: "w = 2 \<or> w = 4" and d: "length data + w < 256 ^ w"
    and b: "sink_ok b" "length data + w \<le> sink_room b" and q: "wf_ptr q" "length data + w \<le> pb_room q"
    and ob: "sink_ok ob" "length data \<le> sink_room ob"
  shows "\<exists>pkt b' q' ob' view. SimplePack w Write data b = Inr b' \<and> written b' = written b @ pkt
    \<and> SimplePack w PB_Write data q = Inr q' \<and> pb_written q' = pb_written q @ pkt
    \<and> SimpleUnpack w (pkt @ rest) pl ob = Inr (SIMPLE_OK, length pkt, ob') \<and> written ob' = written ob @ data
    \<and> SimpleUnpack_ptr w (pkt @ rest) pl vb = (SIMPLE_OK, length pkt, view) \<and> pb_content view = data"
proof -
  let ?pkt = "net_bytes w (SimplePackLength w (length data)) @ data"
  obtain b' where 1: "SimplePack w Write data b = Inr b'" "written b' = written b @ ?pkt"
    using ab.SimplePack_ok [OF b] by auto
  obtain q' where 2: "SimplePack w PB_Write data q = Inr q'" "pb_written q' = pb_written q @ ?pkt"
    using pb.SimplePack_ok [OF q] by auto
  have "w \<le> 8" using w by auto
  from SimpleUnpack_packet [OF d ob this, of rest pl] obtain ob' where
    3: "SimpleUnpack w (?pkt @ rest) pl ob = Inr (SIMPLE_OK, length ?pkt, ob')" "written ob' = written ob @ data"
    by (auto simp: add.commute)
  have "length data < 2 ^ 32" using w d by auto
  then have "to_size (int (length data)) = length data" by simp
  then have 4: "SimpleUnpack_ptr w (?pkt @ rest) pl vb = (SIMPLE_OK, length ?pkt,
      PB_Attach_max vb (Some (data @ rest)) (length data) (length data))"
    using d by (simp add: SimpleUnpack_ptr_def SimplePackLength_id Let_def add.commute)
  have "pb_content (PB_Attach_max vb (Some (data @ rest)) (length data) (length data)) = data"
    by (simp add: PB_Attach_max_def PB_Reset_def pb_content_def pb_block_def)
  with 1 2 3 4 show ?thesis by blast
qed

theorem SimplePack_roundtrip_witness:
  "\<exists>pkt b' ob'. SimplePack 2 Write [8, 9] ex_sink = Inr b' \<and> written b' = written ex_sink @ pkt
    \<and> SimpleUnpack 2 (pkt @ [1]) 0 ex_sink = Inr (SIMPLE_OK, length pkt, ob') \<and> written ob' = written ex_sink @ [8, 9]"
proof -
  have "wf_ptr ex_ptr" "pb_room ex_ptr = 4"
    by (simp_all add: ex_ptr_def PtrBuffer_max_def wf_ptr_def pb_block_def pb_room_def)
  then show ?thesis
    using SimplePack_roundtrip [of 2 "[8, 9]" ex_sink ex_ptr ex_sink "[1]" 0 ex_ptr] ex_sink_ok by fastforce
qed

text \<open>
  A packet whose length field is smaller than the field itself breaks both unpackers: the subtraction
  wraps around, so the copying overload reads beyond the input and the attaching overload returns a
  view of almost \<open>2 ^ 64\<close> bytes over it.
\<close>

theorem SimpleUnpack_underflow:
  assumes "w \<le> length raw" "net_val (take w raw) < w" "w \<le> 4" "length raw < 2 ^ 63"
  shows "SimpleUnpack w raw pl ob = Inl Out_Of_Bounds
    \<and> (\<exists>view. SimpleUnpack_ptr w raw pl vb = (SIMPLE_OK, net_val (take w raw), view)
          \<and> 2 ^ 64 - 4 \<le> pb_length view)"
proof -
  let ?n = "to_size (int (net_val (take w raw)) - int w)"
  define x where "x = int (net_val (take w raw)) - int w"
  have "x mod 2 ^ 64 = (x + 2 ^ 64) mod 2 ^ 64" by simp
  also have "\<dots> = x + 2 ^ 64" using assms(2,3) by (intro mod_pos_pos_trivial) (simp_all add: x_def)
  finally have "(int (net_val (take w raw)) - int w) mod 2 ^ 64 = int (net_val (take w raw)) - int w + 2 ^ 64"
    by (simp add: x_def)
  then have n: "2 ^ 64 - 4 \<le> ?n" using assms(2,3) by (simp add: to_size_def)
  have le: "net_val (take w raw) \<le> length raw" using assms(1,2) by simp
  show ?thesis
    using n le assms(1,4)
    by (simp add: SimpleUnpack_def SimpleUnpack_ptr_def Let_def raw_slice_def PB_Attach_max_def)
qed

theorem SimpleUnpack_underflow_witness:
  "SimpleUnpack 2 [0, 1] 0 ex_sink = Inl Out_Of_Bounds"
  using SimpleUnpack_underflow [of 2 "[0, 1]" 0 ex_sink] by (simp add: net_val_def)

end
