(* ===== verification/Base64.thy ===== *)
theory Base64
  imports Comm_Prelude
begin

text \<open>
  The base64 codec of src/mars/comm/crypt/ibase64.cc. The two conversion tables are built by the loop of
  \<^verbatim>\<open>init_conversion_tables\<close>; encoder and decoder run over blocks of three and four bytes. The result is the
  \<open>int\<close> that the function returns and the bytes it has written from the start of the target.
\<close>

unbundle bit_operations_syntax

section \<open>The tables\<close>

record tables =
  tb_value :: byte
  tb_offset :: byte
  base64_to_char :: bytes
  char_to_base64 :: bytes

definition init_step :: "nat \<Rightarrow> tables \<Rightarrow> tables" where
  "init_step index t =
     (let t' = (if index = 26 then t\<lparr>tb_value := 97, tb_offset := 26\<rparr>
                else if index = 52 then t\<lparr>tb_value := 48, tb_offset := 52\<rparr> else t);
          c = tb_value t' + of_nat index - tb_offset t'
      in t'\<lparr>base64_to_char := (base64_to_char t')[index := c],
            char_to_base64 := (char_to_base64 t')[unat c := of_nat index]\<rparr>)"

definition init_conversion_tables :: tables where
  "init_conversion_tables =
     (let t = fold init_step [0..<62] \<lparr>tb_value = 65, tb_offset = 0,
                base64_to_char = replicate 64 0, char_to_base64 = replicate 128 0\<rparr>
      in t\<lparr>base64_to_char := (base64_to_char t)[62 := 43, 63 := 47],
           char_to_base64 := (char_to_base64 t)[43 := 62, 47 := 63]\<rparr>)"

definition enc :: "byte \<Rightarrow> byte" where
  "enc v = base64_to_char init_conversion_tables ! unat v"

text \<open>The decoder's table has 128 entries.\<close>

definition dec :: "byte \<Rightarrow> byte result" where
  "dec c = (if unat c < 128 then Inr (char_to_base64 init_conversion_tables ! unat c) else Inl Out_Of_Bounds)"

section \<open>The loops\<close>

text \<open>One pass of the encoder's loop; the tests against \<^verbatim>\<open>nSize\<close> ask whether source bytes are left.\<close>

definition encode_block :: "byte \<Rightarrow> bytes \<Rightarrow> bytes \<times> bytes" where
  "encode_block x s1 =
     (let c1 = enc (drop_bit 2 x);
          v2 = push_bit 4 (x AND 0x03);
          c2 = enc (case s1 of [] \<Rightarrow> v2 | y # _ \<Rightarrow> v2 OR drop_bit 4 (y AND 0xF0));
          (c3, s2) = (case s1 of [] \<Rightarrow> (61, [])
            | y # t \<Rightarrow>
                let v3 = push_bit 2 (y AND 0x0F)
                in (enc (case t of [] \<Rightarrow> v3 | z # _ \<Rightarrow> v3 OR drop_bit 6 (z AND 0xC0)), t));
          (c4, s3) = (case s2 of [] \<Rightarrow> (61, []) | z # u \<Rightarrow> (enc (z AND 0x3F), u))
      in ([c1, c2, c3, c4], s3))"

fun encode_loop :: "nat \<Rightarrow> bytes \<Rightarrow> bytes" where
  "encode_loop 0 src = []"
| "encode_loop (Suc n) [] = []"
| "encode_loop (Suc n) (x # s1) = (let (cs, s3) = encode_block x s1 in cs @ encode_loop n s3)"

definition EncodeBase64 :: "bytes \<Rightarrow> int \<times> bytes" where
  "EncodeBase64 src =
     (if src = [] then (0, [])
      else
        let n = length src div 3; nb_block = (if n * 3 \<noteq> length src then n + 1 else n);
            target_size = to_int (int nb_block * 4)
        in (target_size, encode_loop nb_block src @ [0]))"

definition decode_block :: "byte \<Rightarrow> byte \<Rightarrow> byte \<Rightarrow> byte \<Rightarrow> bytes result" where
  "decode_block a b c d =
     rbind (dec a) (\<lambda>va. rbind (dec b) (\<lambda>vb. rbind (dec c) (\<lambda>vc. rbind (dec d) (\<lambda>vd.
       Inr [push_bit 2 va + drop_bit 4 (vb AND 0x30),
            push_bit 4 (vb AND 0x0F) + drop_bit 2 (vc AND 0x3C),
            push_bit 6 (vc AND 0x03) + vd]))))"

fun decode_loop :: "bytes \<Rightarrow> bytes result" where
  "decode_loop (a # b # c # d # s) =
     rbind (decode_block a b c d) (\<lambda>bs. rbind (decode_loop s) (\<lambda>rest. Inr (bs @ rest)))"
| "decode_loop _ = Inr []"

definition trailing_pads :: "bytes \<Rightarrow> nat" where
  "trailing_pads src = length (takeWhile (\<lambda>c. c = 61) (rev src))"

definition DecodeBase64 :: "bytes \<Rightarrow> (int \<times> bytes) result" where
  "DecodeBase64 src =
     (if src = [] then Inr (0, [])
      else
        let nb_block = length src div 4; target_size = to_int (int nb_block * 3)
        in rbind (decode_loop src) (\<lambda>out.
             Inr (to_int (target_size - int (trailing_pads src)), out @ [0])))"

section \<open>Facts about single bytes\<close>

definition b2c :: bytes where
  "b2c = [
     65, 66, 67, 68, 69, 70, 71, 72, 73, 74, 75, 76, 77, 78, 79, 80, 81, 82, 83, 84, 85, 86, 87, 88, 89,
     90, 97, 98, 99, 100, 101, 102, 103, 104, 105, 106, 107, 108, 109, 110, 111, 112, 113, 114, 115, 116,
     117, 118, 119, 120, 121, 122, 48, 49, 50, 51, 52, 53, 54, 55, 56, 57, 43, 47]"

definition c2b :: bytes where
  "c2b = [
     0, 0, 0, 0, 0, 0, 0, 0, 0, 0, 0, 0, 0, 0, 0, 0, 0, 0, 0, 0, 0, 0, 0, 0, 0, 0, 0, 0, 0, 0, 0, 0, 0, 0,
     0, 0, 0, 0, 0, 0, 0, 0, 0, 62, 0, 0, 0, 63, 52, 53, 54, 55, 56, 57, 58, 59, 60, 61, 0, 0, 0, 0, 0, 0,
     0, 0, 1, 2, 3, 4, 5, 6, 7, 8, 9, 10, 11, 12, 13, 14, 15, 16, 17, 18, 19, 20, 21, 22, 23, 24, 25, 0, 0,
     0, 0, 0, 0, 26, 27, 28, 29, 30, 31, 32, 33, 34, 35, 36, 37, 38, 39, 40, 41, 42, 43, 44, 45, 46, 47,
     48, 49, 50, 51, 0, 0, 0, 0, 0]"

lemma tables_eq:
  "base64_to_char init_conversion_tables = b2c" "char_to_base64 init_conversion_tables = c2b"
  by code_simp+

lemma dec_enc_all:
  "list_all (\<lambda>n. unat (b2c ! n) < 128 \<and> c2b ! unat (b2c ! n) = of_nat n \<and> b2c ! n \<noteq> 61) [0..<64]"
  by code_simp

lemma dec_enc:
  assumes "unat v < 64"
  shows "dec (enc v) = Inr v" "enc v \<noteq> 61"
proof -
  have "unat v \<in> set [0..<64]" using assms by simp
  then have "unat (b2c ! unat v) < 128 \<and> c2b ! unat (b2c ! unat v) = of_nat (unat v) \<and> b2c ! unat v \<noteq> 61"
    using dec_enc_all unfolding list_all_iff by blast
  then show "dec (enc v) = Inr v" "enc v \<noteq> 61" by (simp_all add: dec_def enc_def tables_eq)
qed

lemma dec_pad: "dec 61 = Inr 0"
  by (simp add: dec_def tables_eq c2b_def)

lemma masks:
  "(x AND 0x03) = take_bit 2 (x :: byte)" "(x AND 0x0F) = take_bit 4 x" "(x AND 0x3F) = take_bit 6 x"
  by (simp_all add: take_bit_eq_mask mask_eq_exp_minus_1)

lemma high_parts:
  "drop_bit 4 (x AND 0xF0) = drop_bit 4 (x :: byte)" "drop_bit 6 (x AND 0xC0) = drop_bit 6 x"
proof -
  have "drop_bit 4 (x AND 0xF0) = take_bit 4 (drop_bit 4 x)" "drop_bit 6 (x AND 0xC0) = take_bit 2 (drop_bit 6 x)"
    by (simp_all add: take_bit_eq_mask mask_eq_exp_minus_1)
  moreover have "take_bit 4 (drop_bit 4 x) = drop_bit 4 x" "take_bit 2 (drop_bit 6 x) = drop_bit 6 x"
    using take_bit_word_eq_self [of 8 x] by (simp_all add: take_bit_drop_bit)
  ultimately show "drop_bit 4 (x AND 0xF0) = drop_bit 4 x" "drop_bit 6 (x AND 0xC0) = drop_bit 6 x" by simp_all
qed

lemma take_high: "take_bit 4 (drop_bit 4 x) = drop_bit 4 (x :: byte)" "take_bit 2 (drop_bit 6 x) = drop_bit 6 x"
  using take_bit_word_eq_self [of 8 x] by (simp_all add: take_bit_drop_bit)

lemma split_byte: "push_bit n (drop_bit n x) + take_bit n x = (x :: byte)"
  using bits_ident [of n x] by simp

lemma unat_parts:
  "unat (take_bit 2 (x :: byte)) < 4" "unat (take_bit 4 x) < 16" "unat (take_bit 6 x) < 64"
  "unat (drop_bit 2 x) < 64" "unat (drop_bit 4 x) < 16" "unat (drop_bit 6 x) < 4"
  using unat_byte_less [of x]
  by (simp_all add: unsigned_take_bit_eq take_bit_nat_def unsigned_drop_bit_eq drop_bit_nat_def)

text \<open>The second and third character of a block mix bits of two source bytes.\<close>

lemma second_all:
  "list_all (\<lambda>a. list_all (\<lambda>b. let v = (push_bit 4 (of_nat a) OR of_nat b :: byte) in
     drop_bit 4 (v AND 0x30) = of_nat a \<and> v AND 0x0F = of_nat b \<and> unat v < 64) [0..<16]) [0..<4]"
  by code_simp

lemma third_all:
  "list_all (\<lambda>a. list_all (\<lambda>b. let v = (push_bit 2 (of_nat a) OR of_nat b :: byte) in
     drop_bit 2 (v AND 0x3C) = of_nat a \<and> v AND 0x03 = of_nat b \<and> unat v < 64) [0..<4]) [0..<16]"
  by code_simp

lemma second:
  assumes "unat (a :: byte) < 4" "unat b < 16"
  shows "drop_bit 4 ((push_bit 4 a OR b) AND 0x30) = a" "(push_bit 4 a OR b) AND 0x0F = b"
    "unat (push_bit 4 a OR b) < 64"
  using second_all [unfolded list_all_iff Let_def, THEN bspec, of "unat a", THEN bspec, of "unat b"] assms
  by simp_all

lemma third:
  assumes "unat (a :: byte) < 16" "unat b < 4"
  shows "drop_bit 2 ((push_bit 2 a OR b) AND 0x3C) = a" "(push_bit 2 a OR b) AND 0x03 = b"
    "unat (push_bit 2 a OR b) < 64"
  using third_all [unfolded list_all_iff Let_def, THEN bspec, of "unat a", THEN bspec, of "unat b"] assms
  by simp_all

section \<open>Blocks\<close>

fun blocks3 :: "bytes \<Rightarrow> nat" where
  "blocks3 (x # y # z # s) = Suc (blocks3 s)"
| "blocks3 [] = 0"
| "blocks3 _ = 1"

fun pads :: "bytes \<Rightarrow> nat" where
  "pads (x # y # z # s) = pads s"
| "pads [] = 0"
| "pads [x] = 2"
| "pads [x, y] = 1"

lemma blocks3_eq:
  "(if length src div 3 * 3 \<noteq> length src then length src div 3 + 1 else length src div 3) = blocks3 src"
  by (induction src rule: blocks3.induct) (auto simp: div_add_self2 split: if_splits)

lemma encode_block_full:
  "encode_block x (y # z # s) =
    ([enc (drop_bit 2 x), enc (push_bit 4 (take_bit 2 x) OR drop_bit 4 y),
      enc (push_bit 2 (take_bit 4 y) OR drop_bit 6 z), enc (take_bit 6 z)], s)"
  by (simp add: encode_block_def masks high_parts take_high)

lemma encode_block_two:
  "encode_block x [y] =
    ([enc (drop_bit 2 x), enc (push_bit 4 (take_bit 2 x) OR drop_bit 4 y), enc (push_bit 2 (take_bit 4 y) OR 0), 61], [])"
  by (simp add: encode_block_def masks high_parts take_high)

lemma encode_block_one:
  "encode_block x [] = ([enc (drop_bit 2 x), enc (push_bit 4 (take_bit 2 x) OR 0), 61, 61], [])"
  by (simp add: encode_block_def masks high_parts take_high)

lemma decode_block_vals:
  assumes "dec a = Inr va" "dec b = Inr vb" "dec c = Inr vc" "dec d = Inr vd"
    "drop_bit 4 (vb AND 0x30) = x2" "vb AND 0x0F = y4" "drop_bit 2 (vc AND 0x3C) = y4'" "vc AND 0x03 = z2"
  shows "decode_block a b c d = Inr [push_bit 2 va + x2, push_bit 4 y4 + y4', push_bit 6 z2 + vd]"
  unfolding decode_block_def assms(1-4) rbind_simps assms(5-8) ..

lemma decode_block_full:
  "decode_block (enc (drop_bit 2 x)) (enc (push_bit 4 (take_bit 2 x) OR drop_bit 4 y))
     (enc (push_bit 2 (take_bit 4 y) OR drop_bit 6 z)) (enc (take_bit 6 z)) = Inr [x, y, z]"
  using decode_block_vals [OF dec_enc(1) [OF unat_parts(4)] dec_enc(1) [OF second(3) [OF unat_parts(1,5)]]
      dec_enc(1) [OF third(3) [OF unat_parts(2,6)]] dec_enc(1) [OF unat_parts(3)]
      second(1,2) [OF unat_parts(1,5)] third(1,2) [OF unat_parts(2,6)], of x x y y z z]
  by (simp only: split_byte)

lemma zero_small: "unat (0 :: byte) < 4" "unat (0 :: byte) < 16"
  by simp_all

lemma zero_masks: "drop_bit 2 ((0 :: byte) AND 0x3C) = 0" "(0 :: byte) AND 0x03 = 0"
  by simp_all

lemma decode_block_two:
  "decode_block (enc (drop_bit 2 x)) (enc (push_bit 4 (take_bit 2 x) OR drop_bit 4 y))
     (enc (push_bit 2 (take_bit 4 y) OR 0)) 61 = Inr [x, y, 0]"
  using decode_block_vals [OF dec_enc(1) [OF unat_parts(4)] dec_enc(1) [OF second(3) [OF unat_parts(1,5)]]
      dec_enc(1) [OF third(3) [OF unat_parts(2) zero_small(1)]] dec_pad
      second(1,2) [OF unat_parts(1,5)] third(1,2) [OF unat_parts(2) zero_small(1)], of x x y y]
  by (simp only: split_byte push_bit_of_0 add_0)

lemma decode_block_one:
  "decode_block (enc (drop_bit 2 x)) (enc (push_bit 4 (take_bit 2 x) OR 0)) 61 61 = Inr [x, 0, 0]"
  using decode_block_vals [OF dec_enc(1) [OF unat_parts(4)] dec_enc(1) [OF second(3) [OF unat_parts(1) zero_small(2)]]
      dec_pad dec_pad second(1,2) [OF unat_parts(1) zero_small(2)] zero_masks, of x x]
  by (simp only: split_byte push_bit_of_0 add_0)

lemmas enc_not_pad = dec_enc(2) [OF unat_parts(3)] dec_enc(2) [OF second(3) [OF unat_parts(1) zero_small(2)]]
  dec_enc(2) [OF third(3) [OF unat_parts(2) zero_small(1)]]

lemma replicate_pads_two: "replicate 2 (x :: byte) = [x, x]"
  by (simp add: numeral_2_eq_2)

text \<open>The encoding of a nonempty source: a character, then as many pads as the last block lacks bytes.\<close>

lemma encode_loop_spec:
  assumes "src \<noteq> []"
  shows "\<exists>body c. encode_loop (blocks3 src) src = body @ c # replicate (pads src) 61 \<and> c \<noteq> 61
    \<and> length (body @ c # replicate (pads src) 61) = 4 * blocks3 src
    \<and> decode_loop (body @ c # replicate (pads src) 61) = Inr (src @ replicate (pads src) 0)"
  using assms
proof (induction src rule: blocks3.induct [case_names full empty one two])
  case (full x y z s)
  show ?case
  proof (cases "s = []")
    case True
    let ?b = "[enc (drop_bit 2 x), enc (push_bit 4 (take_bit 2 x) OR drop_bit 4 y),
        enc (push_bit 2 (take_bit 4 y) OR drop_bit 6 z)]"
    show ?thesis
      by (intro exI [of _ ?b] exI [of _ "enc (take_bit 6 z)"])
        (use True in \<open>simp add: encode_block_full decode_block_full enc_not_pad\<close>)
  next
    case False
    with full obtain body c where b: "encode_loop (blocks3 s) s = body @ c # replicate (pads s) 61" "c \<noteq> 61"
        "length (body @ c # replicate (pads s) 61) = 4 * blocks3 s"
        "decode_loop (body @ c # replicate (pads s) 61) = Inr (s @ replicate (pads s) 0)"
      by blast
    show ?thesis
      by (intro exI [of _ "fst (encode_block x (y # z # s)) @ body"] exI [of _ c])
        (use b in \<open>simp add: encode_block_full decode_block_full\<close>)
  qed
next
  case empty
  then show ?case by simp
next
  case (one x)
  show ?case
    by (intro exI [of _ "[enc (drop_bit 2 x)]"] exI [of _ "enc (push_bit 4 (take_bit 2 x) OR 0)"])
      (simp add: encode_block_one decode_block_one enc_not_pad replicate_pads_two del: or.right_neutral)
next
  case (two x y)
  show ?case
    by (intro exI [of _ "[enc (drop_bit 2 x), enc (push_bit 4 (take_bit 2 x) OR drop_bit 4 y)]"]
        exI [of _ "enc (push_bit 2 (take_bit 4 y) OR 0)"])
      (simp add: encode_block_two decode_block_two enc_not_pad del: or.right_neutral)
qed

lemma trailing_pads_eq: "c \<noteq> 61 \<Longrightarrow> trailing_pads (body @ c # replicate k 61) = k"
  by (simp add: trailing_pads_def takeWhile_append2 takeWhile_append)

lemma length_pads: "length src + pads src = 3 * blocks3 src"
  by (induction src rule: pads.induct) simp_all

section \<open>What the codec promises\<close>

text \<open>
  Decoding what was encoded gives the source back: the encoder writes four characters per started block
  of three bytes and a terminator, the decoder returns the length of the source and its bytes.
\<close>

theorem Base64_roundtrip:
  assumes "length src < 2 ^ 29"
  shows "\<exists>n t. EncodeBase64 src = (n, t) \<and> n = 4 * int ((length src + 2) div 3)
    \<and> (\<exists>out. DecodeBase64 (take (nat n) t) = Inr (int (length src), out) \<and> take (length src) out = src)"
proof (cases "src = []")
  case True
  then show ?thesis by (simp add: EncodeBase64_def DecodeBase64_def)
next
  case False
  obtain body c where b: "encode_loop (blocks3 src) src = body @ c # replicate (pads src) 61" "c \<noteq> 61"
      "length (body @ c # replicate (pads src) 61) = 4 * blocks3 src"
      "decode_loop (body @ c # replicate (pads src) 61) = Inr (src @ replicate (pads src) 0)"
    using encode_loop_spec [OF False] by blast
  let ?t = "body @ c # replicate (pads src) 61"
  have nb: "blocks3 src = (length src + 2) div 3" by (simp flip: blocks3_eq) linarith
  have ranges: "to_int (int (blocks3 src) * 4) = 4 * int (blocks3 src)"
      "to_int (int (blocks3 src) * 3) = 3 * int (blocks3 src)"
    using assms nb by (simp_all add: to_int_id)
  have e: "EncodeBase64 src = (4 * int (blocks3 src), ?t @ [0])"
    using False b(1) ranges(1) by (simp add: EncodeBase64_def Let_def blocks3_eq)
  have "3 * int (blocks3 src) - int (pads src) = int (length src)" using length_pads [of src] by simp
  then have "DecodeBase64 ?t = Inr (int (length src), (src @ replicate (pads src) 0) @ [0])"
    using b(2,3,4) ranges(2) assms
    by (simp add: DecodeBase64_def trailing_pads_eq to_int_id)
  moreover have "take (nat (4 * int (blocks3 src))) (?t @ [0]) = ?t"
  proof -
    have "nat (4 * int (blocks3 src)) = length ?t" using b(3) by (simp add: nat_mult_distrib)
    then show ?thesis by (metis append_eq_conv_conj)
  qed
  moreover have "take (length src) ((src @ replicate (pads src) 0) @ [0]) = src" by simp
  ultimately have "DecodeBase64 (take (nat (4 * int (blocks3 src))) (?t @ [0]))
      = Inr (int (length src), (src @ replicate (pads src) 0) @ [0])" by metis
  then show ?thesis unfolding e nb by (intro exI conjI) (rule refl, rule refl, assumption, simp)
qed

theorem Base64_roundtrip_witness:
  "\<exists>t. EncodeBase64 [77, 97] = (4, t)
    \<and> (\<exists>out. DecodeBase64 (take 4 t) = Inr (2, out) \<and> take 2 out = [77, 97])"
proof -
  have l: "length [77, 97 :: byte] = 2" by simp
  show ?thesis using Base64_roundtrip [of "[77, 97]", unfolded l] by simp
qed

text \<open>
  The decoder's table has 128 entries but is indexed by bytes: on a block with a byte of 128 or more the
  decoder reads outside the table.
\<close>

theorem DecodeBase64_out_of_table:
  assumes "128 \<le> unat a"
  shows "DecodeBase64 (a # b # c # d # s) = Inl Out_Of_Bounds"
  using assms by (simp add: DecodeBase64_def decode_block_def dec_def Let_def)

theorem DecodeBase64_out_of_table_witness:
  "DecodeBase64 [200, 65, 65, 65] = Inl Out_Of_Bounds"
  using DecodeBase64_out_of_table [of 200 65 65 65 "[]"] by simp

end
