(* ===== verification/Cpp_String.thy ===== *)
theory Cpp_String
  imports Comm_Prelude
begin

text \<open>
  What the sources use of \<^verbatim>\<open>std::string\<close> and of the C character and number functions. A string is a
  \<open>char list\<close> (one \<open>char\<close> per byte), a position \<open>nat\<close>, \<open>npos\<close> is \<open>None\<close>. The C locale is assumed for
  \<^verbatim>\<open>isspace\<close>, \<^verbatim>\<open>tolower\<close> and \<^verbatim>\<open>toupper\<close>.
\<close>

section \<open>Searching\<close>

definition str_find :: "string \<Rightarrow> string \<Rightarrow> nat \<Rightarrow> nat option" where
  "str_find s sub pos = find (\<lambda>i. prefix sub (drop i s)) [pos..<Suc (length s)]"

definition str_rfind :: "string \<Rightarrow> string \<Rightarrow> nat option" where
  "str_rfind s sub = find (\<lambda>i. prefix sub (drop i s)) (rev [0..<Suc (length s)])"

definition find_first_of :: "string \<Rightarrow> string \<Rightarrow> nat \<Rightarrow> nat option" where
  "find_first_of s ds pos = find (\<lambda>i. s ! i \<in> set ds) [pos..<length s]"

definition find_first_not_of :: "string \<Rightarrow> string \<Rightarrow> nat \<Rightarrow> nat option" where
  "find_first_not_of s ds pos = find (\<lambda>i. s ! i \<notin> set ds) [pos..<length s]"

definition substr :: "string \<Rightarrow> nat \<Rightarrow> nat \<Rightarrow> string" where
  "substr s pos n = take n (drop pos s)"

lemma find_upt_None: "find P [a..<b] = None \<longleftrightarrow> (\<forall>i. a \<le> i \<and> i < b \<longrightarrow> \<not> P i)"
  by (auto simp: find_None_iff)

lemma find_upt_Some:
  "find P [a..<b] = Some i \<longleftrightarrow> a \<le> i \<and> i < b \<and> P i \<and> (\<forall>j. a \<le> j \<and> j < i \<longrightarrow> \<not> P j)"
proof
  assume "find P [a..<b] = Some i"
  then obtain k where k: "k < length [a..<b]" "P ([a..<b] ! k)" "i = [a..<b] ! k" "\<forall>j < k. \<not> P ([a..<b] ! j)"
    by (auto simp: find_Some_iff)
  have "\<not> P j" if "a \<le> j" "j < i" for j
    using k(4) [THEN spec, of "j - a"] k(1,3) that by simp
  with k show "a \<le> i \<and> i < b \<and> P i \<and> (\<forall>j. a \<le> j \<and> j < i \<longrightarrow> \<not> P j)" by simp
next
  assume a: "a \<le> i \<and> i < b \<and> P i \<and> (\<forall>j. a \<le> j \<and> j < i \<longrightarrow> \<not> P j)"
  then show "find P [a..<b] = Some i" by (auto simp: find_Some_iff intro!: exI [of _ "i - a"])
qed

lemma find_rev_upt_Some:
  "find P (rev [0..<n]) = Some i \<longleftrightarrow> i < n \<and> P i \<and> (\<forall>j. i < j \<and> j < n \<longrightarrow> \<not> P j)"
  by (induction n) (auto simp: less_Suc_eq)

lemma prefix_drop_bound: "prefix sub (drop i s) \<Longrightarrow> i \<le> length s \<Longrightarrow> i + length sub \<le> length s"
  by (auto dest: prefix_length_le)

lemma suffix_iff_drop:
  "suffix sub s \<longleftrightarrow> length sub \<le> length s \<and> prefix sub (drop (length s - length sub) s)"
proof
  assume "suffix sub s"
  then obtain zs where "s = zs @ sub" by (auto simp: suffix_def)
  then show "length sub \<le> length s \<and> prefix sub (drop (length s - length sub) s)" by simp
next
  assume a: "length sub \<le> length s \<and> prefix sub (drop (length s - length sub) s)"
  then obtain ys where ys: "drop (length s - length sub) s = sub @ ys" by (auto simp: prefix_def)
  then have "length sub = length (sub @ ys)" using a by (metis diff_diff_cancel length_drop)
  then show "suffix sub s" using ys suffix_drop [of "length s - length sub" s] by simp
qed

lemma str_find_0_iff: "str_find s sub 0 = Some 0 \<longleftrightarrow> prefix sub s"
  by (simp add: str_find_def find_upt_Some del: upt_Suc)

lemma str_find_SomeD:
  assumes "str_find s sub pos = Some i"
  shows "pos \<le> i" "i + length sub \<le> length s" "take (length sub) (drop i s) = sub"
    "\<And>j. pos \<le> j \<Longrightarrow> j < i \<Longrightarrow> \<not> prefix sub (drop j s)"
proof -
  have a: "pos \<le> i" "i \<le> length s" "prefix sub (drop i s)" "\<forall>j. pos \<le> j \<and> j < i \<longrightarrow> \<not> prefix sub (drop j s)"
    using assms by (auto simp: str_find_def find_upt_Some simp del: upt_Suc)
  then show "pos \<le> i" "\<And>j. pos \<le> j \<Longrightarrow> j < i \<Longrightarrow> \<not> prefix sub (drop j s)" by auto
  show "i + length sub \<le> length s" using a prefix_drop_bound by blast
  show "take (length sub) (drop i s) = sub" using a(3) by (auto simp: prefix_def)
qed

section \<open>Characters\<close>

definition isspace :: "char \<Rightarrow> bool" where
  "isspace c \<longleftrightarrow> of_char c = (32 :: nat) \<or> (9 \<le> (of_char c :: nat) \<and> (of_char c :: nat) \<le> 13)"

definition isdigit :: "char \<Rightarrow> bool" where
  "isdigit c \<longleftrightarrow> 48 \<le> (of_char c :: nat) \<and> (of_char c :: nat) \<le> 57"

definition isupper :: "char \<Rightarrow> bool" where
  "isupper c \<longleftrightarrow> 65 \<le> (of_char c :: nat) \<and> (of_char c :: nat) \<le> 90"

definition islower :: "char \<Rightarrow> bool" where
  "islower c \<longleftrightarrow> 97 \<le> (of_char c :: nat) \<and> (of_char c :: nat) \<le> 122"

definition tolower :: "char \<Rightarrow> char" where
  "tolower c = (if isupper c then char_of (of_char c + 32 :: nat) else c)"

definition toupper :: "char \<Rightarrow> char" where
  "toupper c = (if islower c then char_of (of_char c - 32 :: nat) else c)"

lemma of_char_less: "(of_char c :: nat) < 256"
  by (rule nat_of_char_less_256)

lemma tolower_idem: "tolower (tolower c) = tolower c"
  by (simp add: tolower_def isupper_def)

section \<open>Hexadecimal and decimal numbers\<close>

text \<open>The digits of \<^verbatim>\<open>%02x\<close> and \<^verbatim>\<open>%02X\<close> for one byte.\<close>

definition hexdigit :: "nat \<Rightarrow> char" where
  "hexdigit d = (if d < 10 then char_of (48 + d) else char_of (87 + d))"

definition HEXdigit :: "nat \<Rightarrow> char" where
  "HEXdigit d = (if d < 10 then char_of (48 + d) else char_of (55 + d))"

definition hexval :: "char \<Rightarrow> nat option" where
  "hexval c = (if isdigit c then Some (of_char c - 48)
     else if 97 \<le> (of_char c :: nat) \<and> (of_char c :: nat) \<le> 102 then Some (of_char c - 87)
     else if 65 \<le> (of_char c :: nat) \<and> (of_char c :: nat) \<le> 70 then Some (of_char c - 55)
     else None)"

lemma hexval_hexdigit: "d < 16 \<Longrightarrow> hexval (hexdigit d) = Some d"
  by (simp add: hexval_def hexdigit_def isdigit_def)

lemma hexval_HEXdigit: "d < 16 \<Longrightarrow> hexval (HEXdigit d) = Some d"
  by (simp add: hexval_def HEXdigit_def isdigit_def)

fun hex_run :: "string \<Rightarrow> nat \<Rightarrow> nat" where
  "hex_run [] acc = acc"
| "hex_run (c # cs) acc = (case hexval c of None \<Rightarrow> acc | Some v \<Rightarrow> hex_run cs (acc * 16 + v))"

text \<open>
  \<^verbatim>\<open>strtol(s, NULL, 16)\<close>: leading white space, a sign, an optional \<^verbatim>\<open>0x\<close> that is followed by a digit,
  then hexadecimal digits, saturating at \<^verbatim>\<open>LONG_MAX\<close> and \<^verbatim>\<open>LONG_MIN\<close>.
\<close>

definition skip_0x :: "string \<Rightarrow> string" where
  "skip_0x s = (case s of z # x # d # cs \<Rightarrow>
     if z = CHR ''0'' \<and> (x = CHR ''x'' \<or> x = CHR ''X'') \<and> hexval d \<noteq> None then d # cs else s | _ \<Rightarrow> s)"

definition strtol16 :: "string \<Rightarrow> int" where
  "strtol16 s =
     (let t = dropWhile isspace s in
      case t of [] \<Rightarrow> 0
      | c # cs \<Rightarrow>
          if c = CHR ''-'' then max (- (2 ^ 63)) (- int (hex_run (skip_0x cs) 0))
          else if c = CHR ''+'' then min (2 ^ 63 - 1) (int (hex_run (skip_0x cs) 0))
          else min (2 ^ 63 - 1) (int (hex_run (skip_0x t) 0)))"

fun dec_run :: "string \<Rightarrow> nat \<Rightarrow> nat" where
  "dec_run [] acc = acc"
| "dec_run (c # cs) acc = (if isdigit c then dec_run cs (acc * 10 + (of_char c - 48)) else acc)"

text \<open>\<^verbatim>\<open>strtol(s, 0, 10)\<close>\<close>

definition strtol10 :: "string \<Rightarrow> int" where
  "strtol10 s =
     (let t = dropWhile isspace s in
      case t of [] \<Rightarrow> 0
      | c # cs \<Rightarrow>
          if c = CHR ''-'' then max (- (2 ^ 63)) (- int (dec_run cs 0))
          else if c = CHR ''+'' then min (2 ^ 63 - 1) (int (dec_run cs 0))
          else min (2 ^ 63 - 1) (int (dec_run t 0)))"

text \<open>The decimal digits of a number, as \<^verbatim>\<open>%d\<close> and \<^verbatim>\<open>%u\<close> print them.\<close>

fun digits :: "nat \<Rightarrow> string" where
  "digits n = (if n < 10 then [char_of (48 + n)] else digits (n div 10) @ [char_of (48 + n mod 10)])"

declare digits.simps [simp del]

lemma digits_isdigit: "c \<in> set (digits n) \<Longrightarrow> isdigit c"
proof (induction n rule: digits.induct)
  case (1 n)
  then show ?case
    by (cases "n < 10") (auto simp: digits.simps [of n] isdigit_def)
qed

lemma digits_nonempty [simp]: "digits n \<noteq> []"
  by (subst digits.simps) simp

lemma dec_run_append:
  "(\<And>c. c \<in> set xs \<Longrightarrow> isdigit c) \<Longrightarrow> dec_run (xs @ ys) acc = dec_run ys (dec_run xs acc)"
  by (induction xs arbitrary: acc) simp_all

lemma dec_run_digits: "dec_run (digits n) 0 = n"
proof (induction n rule: digits.induct)
  case (1 n)
  show ?case
  proof (cases "n < 10")
    case True
    then show ?thesis by (simp add: digits.simps [of n] isdigit_def)
  next
    case False
    then show ?thesis
      using 1 digits_isdigit by (simp add: digits.simps [of n] dec_run_append isdigit_def)
  qed
qed

lemma dec_run_stop: "(c = [] \<or> \<not> isdigit (hd c)) \<Longrightarrow> dec_run (digits n @ c) 0 = n"
  using digits_isdigit by (cases c) (auto simp: dec_run_append dec_run_digits)

lemma isdigit_not_space: "isdigit c \<Longrightarrow> \<not> isspace c"
  by (auto simp: isdigit_def isspace_def)

lemma strtol10_digits:
  assumes "n < 2 ^ 63" "c = [] \<or> \<not> isdigit (hd c)"
  shows "strtol10 (digits n @ c) = int n"
proof -
  obtain d ds where d: "digits n = d # ds" by (cases "digits n") auto
  then have "isdigit d" using digits_isdigit [of d n] by simp
  then have "\<not> isspace d" "d \<noteq> CHR ''-''" "d \<noteq> CHR ''+''"
    by (auto simp: isdigit_not_space) (auto simp: isdigit_def)
  then show ?thesis
    using assms dec_run_stop [of c n] d by (simp add: strtol10_def Let_def)
qed

section \<open>C strings and bytes\<close>

text \<open>The characters before the first NUL: what \<^verbatim>\<open>c_str()\<close> shows to the C functions.\<close>

definition c_str :: "string \<Rightarrow> string" where
  "c_str s = takeWhile (\<lambda>c. c \<noteq> CHR 0x00) s"

lemma c_str_id: "CHR 0x00 \<notin> set s \<Longrightarrow> c_str s = s"
  by (auto simp: c_str_def takeWhile_eq_all_conv)

lemma c_str_no_NUL: "CHR 0x00 \<notin> set (c_str s)"
  by (auto simp: c_str_def dest: set_takeWhileD)

lemma c_str_idem [simp]: "c_str (c_str s) = c_str s"
  by (simp add: c_str_id c_str_no_NUL)

lemma c_str_append: "CHR 0x00 \<notin> set s \<Longrightarrow> c_str (s @ t) = s @ c_str t"
  by (induction s) (auto simp: c_str_def)

text \<open>\<^verbatim>\<open>%d\<close>\<close>

definition print_int :: "int \<Rightarrow> string" where
  "print_int i = (if i < 0 then CHR ''-'' # digits (nat (- i)) else digits (nat i))"

lemma print_int_chars: "c \<in> set (print_int i) \<Longrightarrow> isdigit c \<or> c = CHR ''-''"
  by (auto simp: print_int_def digits_isdigit split: if_splits)

lemma print_int_no: 
  "CHR 0x00 \<notin> set (print_int i)" "CHR '' '' \<notin> set (print_int i)" "CHR 0x0A \<notin> set (print_int i)"
  "print_int i \<noteq> []"
  using print_int_chars [of "CHR 0x00" i] print_int_chars [of "CHR '' ''" i] print_int_chars [of "CHR 0x0A" i]
  by (auto simp: isdigit_def) (simp add: print_int_def split: if_splits)

lemma strtol10_print_int:
  assumes "- (2 ^ 63) \<le> i" "i < 2 ^ 63"
  shows "strtol10 (print_int i) = i"
proof (cases "i < 0")
  case True
  have "\<not> isspace CHR ''-''" by (simp add: isspace_def)
  with True assms dec_run_stop [of "[]" "nat (- i)"] show ?thesis
    by (simp add: print_int_def strtol10_def)
next
  case False
  with assms strtol10_digits [of "nat i" "[]"] show ?thesis by (simp add: print_int_def nat_less_iff)
qed

text \<open>A byte of a buffer read as a \<^verbatim>\<open>char\<close>, and back.\<close>

definition chr :: "byte \<Rightarrow> char" where
  "chr w = char_of (unat w)"

definition byte_of :: "char \<Rightarrow> byte" where
  "byte_of c = of_nat (of_char c)"

abbreviation chars :: "bytes \<Rightarrow> string" where
  "chars d \<equiv> map chr d"

abbreviation bytes_of :: "string \<Rightarrow> bytes" where
  "bytes_of s \<equiv> map byte_of s"

lemma chr_byte_of [simp]: "chr (byte_of c) = c"
proof -
  have "unat (of_nat (of_char c) :: byte) = of_char c"
    using of_char_less [of c] by (simp add: unsigned_of_nat take_bit_nat_eq_self)
  then show ?thesis by (simp add: chr_def byte_of_def)
qed

lemma byte_of_chr [simp]: "byte_of (chr w) = w"
  using unat_byte_less [of w] by (simp add: chr_def byte_of_def)

lemma chr_comp [simp]: "chr \<circ> byte_of = id" "byte_of \<circ> chr = id"
  by (simp_all add: fun_eq_iff)

lemma chars_bytes_of [simp]: "chars (bytes_of s) = s"
  by (simp add: comp_def)

lemma bytes_of_chars [simp]: "bytes_of (chars d) = d"
  by (simp add: comp_def)

section \<open>Hexadecimal numbers as \<^verbatim>\<open>%x\<close> prints them\<close>

fun hexdigits :: "nat \<Rightarrow> string" where
  "hexdigits n = (if n < 16 then [hexdigit n] else hexdigits (n div 16) @ [hexdigit (n mod 16)])"

declare hexdigits.simps [simp del]

lemma hexdigits_hexval: "c \<in> set (hexdigits n) \<Longrightarrow> \<exists>d. hexval c = Some d"
proof (induction n rule: hexdigits.induct)
  case (1 n)
  then show ?case
    by (cases "n < 16") (auto simp: hexdigits.simps [of n] hexval_hexdigit)
qed

lemma hexdigits_nonempty [simp]: "hexdigits n \<noteq> []"
  by (subst hexdigits.simps) simp

lemma hexval_not_special:
  assumes "hexval c = Some d"
  shows "\<not> isspace c" "c \<noteq> CHR ''-''" "c \<noteq> CHR ''+''" "c \<noteq> CHR ''x''" "c \<noteq> CHR ''X''" "c \<noteq> CHR 0x00"
    "c \<noteq> CHR 0x0A" "c \<noteq> CHR 0x0D"
  using assms by (auto simp: hexval_def isdigit_def isspace_def split: if_splits)

lemma hex_run_append:
  "(\<And>c. c \<in> set xs \<Longrightarrow> hexval c \<noteq> None) \<Longrightarrow> hex_run (xs @ ys) acc = hex_run ys (hex_run xs acc)"
proof (induction xs arbitrary: acc)
  case (Cons x xs)
  then obtain v where "hexval x = Some v" by force
  with Cons show ?case by simp
qed simp

lemma hex_run_hexdigits: "hex_run (hexdigits n) 0 = n"
proof (induction n rule: hexdigits.induct)
  case (1 n)
  show ?case
  proof (cases "n < 16")
    case True
    then show ?thesis by (simp add: hexdigits.simps [of n] hexval_hexdigit)
  next
    case False
    have "hex_run (hexdigits (n div 16) @ [hexdigit (n mod 16)]) 0 = n"
      using 1 [OF False] hexdigits_hexval by (subst hex_run_append) (auto simp: hexval_hexdigit)
    with False show ?thesis by (simp add: hexdigits.simps [of n])
  qed
qed

lemma strtol16_hexdigits:
  assumes "n < 2 ^ 63"
  shows "strtol16 (hexdigits n) = int n"
proof -
  obtain c cs where c: "hexdigits n = c # cs" by (cases "hexdigits n") auto
  obtain d where d: "hexval c = Some d" using hexdigits_hexval [of c n] c by auto
  have "skip_0x (c # cs) = c # cs"
  proof (cases cs)
    case (Cons x xs)
    then obtain e where "hexval x = Some e" using hexdigits_hexval [of x n] c by auto
    from hexval_not_special(4,5) [OF this] Cons show ?thesis by (cases xs) (simp_all add: skip_0x_def)
  qed (simp add: skip_0x_def)
  then show ?thesis
    using hexval_not_special [OF d] c assms hex_run_hexdigits [of n]
    by (simp add: strtol16_def)
qed

end
