(* ===== verification/Str_Util.thy ===== *)
theory Str_Util
  imports Cpp_String
begin

text \<open>
  The string utilities of src/mars/comm/strutil.h and strutil.cc. The macros that generate the
  \<^verbatim>\<open>std::string\<close> and \<^verbatim>\<open>std::wstring\<close> versions are modelled by their \<^verbatim>\<open>std::string\<close> instance. The iterator
  loops are the standard list functions they compute (\<open>dropWhile\<close> for the scan over white space), the
  \<^verbatim>\<open>Tokenizer\<close> keeps its offset and last token as its state and \<^verbatim>\<open>SplitToken\<close> loops over \<^verbatim>\<open>NextToken\<close>.
\<close>

section \<open>Encoding a URL\<close>

definition url_plain :: "char \<Rightarrow> bool" where
  "url_plain ch \<longleftrightarrow> isupper ch \<or> islower ch \<or> isdigit ch
     \<or> ch = CHR ''.'' \<or> ch = CHR ''-'' \<or> ch = CHR ''_'' \<or> ch = CHR ''*''"

definition percent :: "char \<Rightarrow> string" where
  "percent ch = CHR ''%'' # [HEXdigit (of_char ch div 16), HEXdigit (of_char ch mod 16)]"

fun URLEncode :: "string \<Rightarrow> string \<Rightarrow> string" where
  "URLEncode [] encode_url = encode_url"
| "URLEncode (ch # url) encode_url =
     URLEncode url
       (if url_plain ch then encode_url @ [ch]
        else if ch = CHR '' '' then encode_url @ ''+''
        else encode_url @ percent ch)"

section \<open>Trimming and case\<close>

definition TrimLeft :: "string \<Rightarrow> string" where
  "TrimLeft str = dropWhile isspace str"

text \<open>The scan from the right: \<open>n\<close> characters are still in view.\<close>

fun trim_right_at :: "string \<Rightarrow> nat \<Rightarrow> string" where
  "trim_right_at t 0 = []"
| "trim_right_at t (Suc n) = (if \<not> isspace (t ! n) then take (Suc n) t else trim_right_at t n)"

definition TrimRight :: "string \<Rightarrow> string" where
  "TrimRight str = (if str = [] then str else trim_right_at str (length str))"

definition Trim :: "string \<Rightarrow> string" where
  "Trim str =
     (let t = dropWhile isspace str in if t = [] then [] else trim_right_at t (length t))"

definition ToLower :: "string \<Rightarrow> string" where
  "ToLower str = map tolower str"

definition ToUpper :: "string \<Rightarrow> string" where
  "ToUpper str = map toupper str"

definition StartsWith :: "string \<Rightarrow> string \<Rightarrow> bool" where
  "StartsWith str sub \<longleftrightarrow> str_find str sub 0 = Some 0"

definition EndsWith :: "string \<Rightarrow> string \<Rightarrow> bool" where
  "EndsWith str sub = (case str_rfind str sub of None \<Rightarrow> False
     | Some i \<Rightarrow> i = to_size (int (length str) - int (length sub)))"

section \<open>Tokens\<close>

record Tokenizer =
  tk_offset :: nat
  tk_string :: string
  tk_token :: string
  tk_delimiters :: string

definition default_delimiters :: string where
  "default_delimiters = '' '' @ [char_of (9 :: nat), char_of (10 :: nat), char_of (13 :: nat)] @ '';:,.?''"

definition Tokenizer_new :: "string \<Rightarrow> string \<Rightarrow> Tokenizer" where
  "Tokenizer_new str delimiters =
     \<lparr>tk_offset = 0, tk_string = str, tk_token = [], tk_delimiters = delimiters\<rparr>"

definition Tokenizer_Reset :: "Tokenizer \<Rightarrow> Tokenizer" where
  "Tokenizer_Reset t = t\<lparr>tk_offset := 0\<rparr>"

definition NextToken_delims :: "string \<Rightarrow> Tokenizer \<Rightarrow> bool \<times> Tokenizer" where
  "NextToken_delims delimiters t =
     (case find_first_not_of (tk_string t) delimiters (tk_offset t) of
        None \<Rightarrow> (False, t\<lparr>tk_offset := length (tk_string t)\<rparr>)
      | Some i \<Rightarrow>
          (case find_first_of (tk_string t) delimiters i of
             None \<Rightarrow> (True, t\<lparr>tk_token := substr (tk_string t) i (length (tk_string t) - i),
                             tk_offset := length (tk_string t)\<rparr>)
           | Some j \<Rightarrow> (True, t\<lparr>tk_token := substr (tk_string t) i (j - i), tk_offset := j\<rparr>)))"

definition NextToken :: "Tokenizer \<Rightarrow> bool \<times> Tokenizer" where
  "NextToken t = NextToken_delims (tk_delimiters t) t"

lemma NextToken_progress:
  assumes "NextToken t = (True, t')"
  shows "tk_offset t < tk_offset t'" "tk_offset t' \<le> length (tk_string t')" "tk_string t' = tk_string t"
    "tk_delimiters t' = tk_delimiters t"
proof -
  obtain i where i: "find_first_not_of (tk_string t) (tk_delimiters t) (tk_offset t) = Some i"
    using assms by (auto simp: NextToken_def NextToken_delims_def split: option.splits)
  then have i': "tk_offset t \<le> i" "i < length (tk_string t)" "tk_string t ! i \<notin> set (tk_delimiters t)"
    by (auto simp: find_first_not_of_def find_upt_Some)
  have j: "i < j" "j < length (tk_string t)" if "find_first_of (tk_string t) (tk_delimiters t) i = Some j" for j
    using that i'(3) by (auto simp: find_first_of_def find_upt_Some le_less)
  show "tk_offset t < tk_offset t'" "tk_offset t' \<le> length (tk_string t')" "tk_string t' = tk_string t"
    "tk_delimiters t' = tk_delimiters t"
    using assms i i' j by (auto simp: NextToken_def NextToken_delims_def split: option.splits)
qed

lemma NextToken_measure:
  assumes "(True, t') = NextToken t"
  shows "length (tk_string t') - tk_offset t' < length (tk_string t) - tk_offset t"
  using NextToken_progress [OF assms [symmetric]] by simp

function split_loop :: "Tokenizer \<Rightarrow> string list \<Rightarrow> string list" where
  "split_loop t ss =
     (case NextToken t of (True, t') \<Rightarrow> split_loop t' (ss @ [tk_token t']) | (False, _) \<Rightarrow> ss)"
  by auto
termination
  by (relation "measure (\<lambda>(t, _). length (tk_string t) - tk_offset t)") (auto simp: NextToken_measure)

declare split_loop.simps [simp del]

definition SplitToken :: "string \<Rightarrow> string \<Rightarrow> string list \<Rightarrow> string list" where
  "SplitToken str delimiters ss = split_loop (Tokenizer_new str delimiters) ss"

text \<open>The loop over the iterators; \<open>None\<close> when the function returns false and leaves the result alone.\<close>

fun merge_loop :: "string list \<Rightarrow> string \<Rightarrow> string \<Rightarrow> string" where
  "merge_loop [] delimiter result = result"
| "merge_loop (x # xs) delimiter result =
     merge_loop xs delimiter (if xs \<noteq> [] then (result @ x) @ delimiter else result @ x)"

definition MergeToken :: "string list \<Rightarrow> string \<Rightarrow> string option" where
  "MergeToken tokens delimiter =
     (if tokens = [] then None else if delimiter = [] then None else Some (merge_loop tokens delimiter []))"

section \<open>Hexadecimal strings\<close>

fun Hex2Str_loop :: "string \<Rightarrow> string \<Rightarrow> string" where
  "Hex2Str_loop [] outstr = outstr"
| "Hex2Str_loop (c # cs) outstr =
     Hex2Str_loop cs (outstr @ [hexdigit (of_char c div 16), hexdigit (of_char c mod 16)])"

definition Hex2Str :: "string \<Rightarrow> string" where
  "Hex2Str str = Hex2Str_loop str []"

text \<open>\<open>tmp\<close> is a C string: it ends at the first zero byte.\<close>

definition hex_pair :: "char \<Rightarrow> char \<Rightarrow> char" where
  "hex_pair a b = char_of (nat (strtol16 (takeWhile (\<lambda>c. c \<noteq> char_of (0 :: nat)) [a, b]) mod 256))"

fun Str2Hex_loop :: "nat \<Rightarrow> string \<Rightarrow> string" where
  "Str2Hex_loop (Suc n) (a # b # cs) = hex_pair a b # Str2Hex_loop n cs"
| "Str2Hex_loop _ _ = []"

definition Str2Hex :: "string \<Rightarrow> string" where
  "Str2Hex str = (let len = length str div 2 in Str2Hex_loop (if len > 64 then 64 else len) str)"

definition ReplaceChar :: "string \<Rightarrow> char \<Rightarrow> char \<Rightarrow> string" where
  "ReplaceChar input_str be_replaced replace_with =
     map (\<lambda>c. if be_replaced = c then replace_with else c) input_str"

section \<open>Trimming\<close>

lemma trim_right_at_spec:
  assumes "n \<le> length t"
  shows "trim_right_at t n = rev (dropWhile isspace (rev (take n t)))"
  using assms by (induction n) (simp_all add: take_Suc_conv_app_nth)

lemma Trim_spec: "Trim str = rev (dropWhile isspace (rev (dropWhile isspace str)))"
  by (simp add: Trim_def Let_def trim_right_at_spec del: dropWhile_eq_Nil_conv)

lemma hd_last_rev_dropWhile:
  assumes "t = rev (dropWhile P (rev (dropWhile P s)))" "t \<noteq> []"
  shows "\<not> P (hd t)" "\<not> P (last t)"
proof -
  let ?u = "dropWhile P s"
  have ne: "dropWhile P (rev ?u) \<noteq> []" using assms by auto
  show "\<not> P (last t)" using hd_dropWhile [OF ne] assms by (simp add: last_rev)
  have "rev ?u = takeWhile P (rev ?u) @ dropWhile P (rev ?u)" by simp
  then have "?u = t @ rev (takeWhile P (rev ?u))" using assms(1) by (metis rev_append rev_rev_ident)
  moreover from this have "?u \<noteq> []" using assms(2) by (metis append_is_Nil_conv)
  ultimately show "\<not> P (hd t)" using hd_dropWhile [of P s] assms(2) by (metis hd_append2)
qed

text \<open>
  \<open>Trim\<close> removes exactly the white space at both ends: the string is white space, the result, white
  space, and the result does not begin or end with white space; trimming left and then right is the
  same.
\<close>

theorem Trim_exact:
  "\<exists>l r. str = l @ Trim str @ r \<and> (\<forall>c \<in> set (l @ r). isspace c)
    \<and> (Trim str = [] \<or> \<not> isspace (hd (Trim str)) \<and> \<not> isspace (last (Trim str)))
    \<and> Trim str = TrimRight (TrimLeft str)"
proof -
  let ?u = "dropWhile isspace str"
  have "rev ?u = takeWhile isspace (rev ?u) @ dropWhile isspace (rev ?u)" by simp
  then have u: "?u = Trim str @ rev (takeWhile isspace (rev ?u))" unfolding Trim_spec by (metis rev_append rev_rev_ident)
  have "str = takeWhile isspace str @ ?u" by simp
  with u have "str = takeWhile isspace str @ Trim str @ rev (takeWhile isspace (rev ?u))" by simp
  moreover have "\<forall>c \<in> set (takeWhile isspace str @ rev (takeWhile isspace (rev ?u))). isspace c"
    by (auto dest: set_takeWhileD)
  moreover have "Trim str = TrimRight (TrimLeft str)"
    by (simp add: Trim_def TrimRight_def TrimLeft_def Let_def del: dropWhile_eq_Nil_conv)
  ultimately show ?thesis using hd_last_rev_dropWhile [OF Trim_spec] by metis
qed

theorem Trim_exact_witness:
  "\<exists>l r. '' ab'' = l @ Trim '' ab'' @ r \<and> (\<forall>c \<in> set (l @ r). isspace c)"
  using Trim_exact [of "'' ab''"] by blast

text \<open>
  \<open>StartsWith\<close> and \<open>EndsWith\<close>, which search for the first and the last occurrence, decide whether the
  string begins or ends with the other.
\<close>

theorem StartsWith_EndsWith:
  assumes "length str < 2 ^ 64"
  shows "StartsWith str sub = prefix sub str \<and> EndsWith str sub = suffix sub str"
proof
  show "StartsWith str sub = prefix sub str" by (simp add: StartsWith_def str_find_0_iff)
  let ?P = "\<lambda>i. prefix sub (drop i str)"
  show "EndsWith str sub = suffix sub str"
  proof (cases "str_rfind str sub")
    case None
    then have "\<forall>i \<le> length str. \<not> ?P i"
      by (auto simp: str_rfind_def find_None_iff simp del: upt_Suc)
    then have "\<not> suffix sub str" unfolding suffix_iff_drop by auto
    with None show ?thesis by (simp add: EndsWith_def)
  next
    case (Some i)
    then have i: "i \<le> length str" "?P i" "\<forall>j. i < j \<and> j < Suc (length str) \<longrightarrow> \<not> ?P j"
      by (auto simp: str_rfind_def find_rev_upt_Some simp del: upt_Suc)
    have le: "i + length sub \<le> length str" using prefix_drop_bound [OF i(2,1)] .
    let ?e = "length str - length sub"
    have sz: "to_size (int (length str) - int (length sub)) = ?e"
      using le assms by (simp add: to_size_id nat_diff_distrib)
    have suf: "suffix sub str \<longleftrightarrow> ?P ?e"
      unfolding suffix_iff_drop using le by simp
    have "?P ?e \<longrightarrow> ?e \<le> i" using i(3) le by (metis diff_le_self le_imp_less_Suc not_le)
    then show ?thesis using Some suf sz i(2) le by (auto simp: EndsWith_def)
  qed
qed

theorem StartsWith_EndsWith_witness:
  "StartsWith ''abcab'' ''ab'' = prefix ''ab'' ''abcab'' \<and> EndsWith ''abcab'' ''ab'' = suffix ''ab'' ''abcab''"
  using StartsWith_EndsWith [of "''abcab''" "''ab''"] by simp

section \<open>Tokens\<close>

text \<open>The reference: skip delimiters, take a token, go on.\<close>

function tokens :: "string \<Rightarrow> string \<Rightarrow> string list" where
  "tokens ds s =
     (let t = dropWhile (\<lambda>c. c \<in> set ds) s in
      if t = [] then [] else takeWhile (\<lambda>c. c \<notin> set ds) t # tokens ds (dropWhile (\<lambda>c. c \<notin> set ds) t))"
  by auto
termination
proof (relation "measure (\<lambda>(_, s). length s)")
  fix ds s t assume t: "t = dropWhile (\<lambda>c. c \<in> set ds) s" "t \<noteq> []"
  from t(2) obtain c cs where c: "t = c # cs" by (cases t) auto
  have "hd t \<notin> set ds" unfolding t(1) by (rule hd_dropWhile) (use t in simp)
  then have "length (dropWhile (\<lambda>c. c \<notin> set ds) t) < length t"
    using c length_dropWhile_le [of "\<lambda>c. c \<notin> set ds" cs] by simp
  also have "length t \<le> length s" using t length_dropWhile_le by metis
  finally show "((ds, dropWhile (\<lambda>c. c \<notin> set ds) t), ds, s) \<in> measure (\<lambda>(_, s). length s)" by simp
qed simp

declare tokens.simps [simp del]

lemma find_at:
  assumes "off \<le> length s"
  shows "find (\<lambda>i. P (s ! i)) [off..<length s] =
    (if dropWhile (\<lambda>c. \<not> P c) (drop off s) = [] then None
     else Some (off + length (takeWhile (\<lambda>c. \<not> P c) (drop off s))))"
proof -
  define k where "k = length (takeWhile (\<lambda>c. \<not> P c) (drop off s))"
  have before: "\<not> P (s ! j)" if "off \<le> j" "j < off + k" for j
  proof -
    have j: "j - off < length (takeWhile (\<lambda>c. \<not> P c) (drop off s))" using that by (simp add: k_def)
    then have "takeWhile (\<lambda>c. \<not> P c) (drop off s) ! (j - off) = s ! j"
      using that assms takeWhile_nth [OF j] by simp
    with nth_mem [OF j] show ?thesis by (auto dest: set_takeWhileD)
  qed
  show ?thesis
  proof (cases "dropWhile (\<lambda>c. \<not> P c) (drop off s) = []")
    case True
    then have "\<forall>c \<in> set (drop off s). \<not> P c" by (simp del: set_drop_subset)
    then have "\<not> P (s ! i)" if "off \<le> i" "i < length s" for i
      using that nth_mem [of "i - off" "drop off s"] by auto
    with True show ?thesis by (auto simp: find_upt_None)
  next
    case False
    have k: "off + k < length s"
    proof -
      have "length (takeWhile (\<lambda>c. \<not> P c) (drop off s)) + length (dropWhile (\<lambda>c. \<not> P c) (drop off s)) = length (drop off s)"
        by (metis length_append takeWhile_dropWhile_id)
      moreover have "0 < length (dropWhile (\<lambda>c. \<not> P c) (drop off s))" using False by blast
      ultimately show ?thesis unfolding k_def length_drop using assms by linarith
    qed
    have "P (s ! (off + k))"
      using hd_dropWhile [OF False] False assms by (simp add: dropWhile_eq_drop hd_drop_conv_nth k_def add.commute)
    then have "find (\<lambda>i. P (s ! i)) [off..<length s] = Some (off + k)"
      using k before by (simp add: find_upt_Some)
    with False show ?thesis by (simp add: k_def del: dropWhile_eq_Nil_conv)
  qed
qed

lemma NextToken_tokens:
  assumes "tk_offset t \<le> length (tk_string t)"
  shows "let rest = dropWhile (\<lambda>c. c \<in> set (tk_delimiters t)) (drop (tk_offset t) (tk_string t)) in
    if rest = [] then fst (NextToken t) = False
    else \<exists>t'. NextToken t = (True, t') \<and> tk_token t' = takeWhile (\<lambda>c. c \<notin> set (tk_delimiters t)) rest
      \<and> drop (tk_offset t') (tk_string t') = dropWhile (\<lambda>c. c \<notin> set (tk_delimiters t)) rest"
proof -
  define s ds off where d: "s = tk_string t" "ds = tk_delimiters t" "off = tk_offset t"
  define rest where "rest = dropWhile (\<lambda>c. c \<in> set ds) (drop off s)"
  define i where "i = off + length (takeWhile (\<lambda>c. c \<in> set ds) (drop off s))"
  have off: "off \<le> length s" using assms by (simp add: d)
  have i: "i \<le> length s" "drop i s = rest"
  proof -
    have "length (takeWhile (\<lambda>c. c \<in> set ds) (drop off s)) \<le> length (drop off s)" by (rule length_takeWhile_le)
    then show "i \<le> length s" using off by (simp add: i_def)
    show "drop i s = rest" by (simp add: i_def rest_def dropWhile_eq_drop add.commute)
  qed
  have f1: "find_first_not_of s ds off = (if rest = [] then None else Some i)"
    using find_at [OF off, of "\<lambda>c. c \<notin> set ds"] by (simp add: find_first_not_of_def rest_def i_def del: dropWhile_eq_Nil_conv)
  have f2: "find_first_of s ds i = (if dropWhile (\<lambda>c. c \<notin> set ds) rest = [] then None
      else Some (i + length (takeWhile (\<lambda>c. c \<notin> set ds) rest)))"
    using find_at [OF i(1), of "\<lambda>c. c \<in> set ds"] i(2) by (simp add: find_first_of_def del: dropWhile_eq_Nil_conv)
  have all: "takeWhile (\<lambda>c. c \<notin> set ds) rest = rest" if "dropWhile (\<lambda>c. c \<notin> set ds) rest = []"
    using that by (metis append_Nil2 takeWhile_dropWhile_id)
  have tk: "take (length (takeWhile (\<lambda>c. c \<notin> set ds) rest)) rest = takeWhile (\<lambda>c. c \<notin> set ds) rest"
    by (metis append_eq_conv_conj takeWhile_dropWhile_id)
  have dw: "drop (length (takeWhile (\<lambda>c. c \<notin> set ds) rest)) rest = dropWhile (\<lambda>c. c \<notin> set ds) rest"
    by (simp add: dropWhile_eq_drop)
  have "if rest = [] then fst (NextToken t) = False
    else \<exists>t'. NextToken t = (True, t') \<and> tk_token t' = takeWhile (\<lambda>c. c \<notin> set ds) rest
      \<and> drop (tk_offset t') (tk_string t') = dropWhile (\<lambda>c. c \<notin> set ds) rest"
  proof (cases "rest = []")
    case True
    with f1 show ?thesis by (simp add: NextToken_def NextToken_delims_def flip: d)
  next
    case False
    show ?thesis
    proof (cases "dropWhile (\<lambda>c. c \<notin> set ds) rest = []")
      case True
      have dq: "drop i s = takeWhile (\<lambda>c. c \<notin> set ds) rest" using all [OF True] i(2) by metis
      then have "length (takeWhile (\<lambda>c. c \<notin> set ds) rest) \<le> length s - i" by (metis length_drop order_refl)
      then have "NextToken t = (True, t\<lparr>tk_token := takeWhile (\<lambda>c. c \<notin> set ds) rest, tk_offset := length s\<rparr>)"
        using f1 f2 False True dq
        by (simp add: NextToken_def NextToken_delims_def substr_def flip: d del: dropWhile_eq_Nil_conv)
      then show ?thesis using False True by (simp flip: d del: dropWhile_eq_Nil_conv)
    next
      case ne: False
      let ?k = "length (takeWhile (\<lambda>c. c \<notin> set ds) rest)"
      have "NextToken t = (True, t\<lparr>tk_token := take ?k (drop i s), tk_offset := i + ?k\<rparr>)"
        using f1 f2 False ne by (simp add: NextToken_def NextToken_delims_def substr_def flip: d del: dropWhile_eq_Nil_conv)
      moreover have "drop (i + ?k) s = dropWhile (\<lambda>c. c \<notin> set ds) rest" using dw i(2) by (metis add.commute drop_drop)
      ultimately show ?thesis using False tk i(2) by (simp flip: d del: dropWhile_eq_Nil_conv)
    qed
  qed
  then show ?thesis unfolding Let_def rest_def d .
qed

lemma split_loop_tokens:
  "tk_offset t \<le> length (tk_string t) \<Longrightarrow>
    split_loop t ss = ss @ tokens (tk_delimiters t) (drop (tk_offset t) (tk_string t))"
proof (induction t ss rule: split_loop.induct)
  case (1 t ss)
  let ?rest = "dropWhile (\<lambda>c. c \<in> set (tk_delimiters t)) (drop (tk_offset t) (tk_string t))"
  note n = NextToken_tokens [OF 1(2), unfolded Let_def]
  show ?case
  proof (cases "?rest = []")
    case True
    then have "\<exists>t'. NextToken t = (False, t')" using n by (cases "NextToken t") simp
    then show ?thesis using True by (auto simp: split_loop.simps [of t] tokens.simps)
  next
    case False
    then obtain t' where t': "NextToken t = (True, t')" "tk_token t' = takeWhile (\<lambda>c. c \<notin> set (tk_delimiters t)) ?rest"
        "drop (tk_offset t') (tk_string t') = dropWhile (\<lambda>c. c \<notin> set (tk_delimiters t)) ?rest"
      using n by (simp del: dropWhile_eq_Nil_conv) blast
    have "split_loop t' (ss @ [tk_token t']) = (ss @ [tk_token t']) @ tokens (tk_delimiters t') (drop (tk_offset t') (tk_string t'))"
      using 1(1) [OF t'(1) [symmetric]] NextToken_progress(2) [OF t'(1)] by simp
    moreover have "tokens (tk_delimiters t) (drop (tk_offset t) (tk_string t)) =
        takeWhile (\<lambda>c. c \<notin> set (tk_delimiters t)) ?rest
        # tokens (tk_delimiters t) (dropWhile (\<lambda>c. c \<notin> set (tk_delimiters t)) ?rest)"
      using False by (subst tokens.simps) (simp add: Let_def del: dropWhile_eq_Nil_conv)
    ultimately show ?thesis
      using t' NextToken_progress(4) [OF t'(1)] by (simp add: split_loop.simps [of t])
  qed
qed

lemma SplitToken_eq: "SplitToken str ds ss = ss @ tokens ds str"
  by (simp add: SplitToken_def split_loop_tokens Tokenizer_new_def)

lemma tokens_props:
  "(\<forall>t \<in> set (tokens ds s). t \<noteq> [] \<and> set t \<inter> set ds = {}) \<and> concat (tokens ds s) = filter (\<lambda>c. c \<notin> set ds) s"
proof (induction ds s rule: tokens.induct)
  case (1 ds s)
  let ?t = "dropWhile (\<lambda>c. c \<in> set ds) s"
  have skip: "filter (\<lambda>c. c \<notin> set ds) s = filter (\<lambda>c. c \<notin> set ds) ?t"
    by (induction s) auto
  show ?case
  proof (cases "?t = []")
    case True
    then have "tokens ds s = []" by (simp add: tokens.simps [of ds s])
    with True skip show ?thesis by simp
  next
    case False
    let ?w = "takeWhile (\<lambda>c. c \<notin> set ds) ?t" and ?r = "dropWhile (\<lambda>c. c \<notin> set ds) ?t"
    have e: "tokens ds s = ?w # tokens ds ?r"
      using False by (simp add: tokens.simps [of ds s] Let_def del: dropWhile_eq_Nil_conv)
    have ne: "?w \<noteq> []" using hd_dropWhile [OF False] False by (cases ?t) auto
    have w: "filter (\<lambda>c. c \<notin> set ds) ?w = ?w" "set ?w \<inter> set ds = {}"
      by (auto simp: filter_id_conv dest: set_takeWhileD)
    have "filter (\<lambda>c. c \<notin> set ds) ?t = ?w @ filter (\<lambda>c. c \<notin> set ds) ?r"
      using w(1) by (metis filter_append takeWhile_dropWhile_id)
    then show ?thesis using 1 [OF refl False] e ne w(2) skip by simp
  qed
qed

text \<open>One token in front of a delimiter.\<close>

lemma tokens_cons:
  assumes "x \<noteq> []" "set x \<inter> set ds = {}" "y = [] \<or> hd y \<in> set ds"
  shows "tokens ds (x @ y) = x # tokens ds y"
proof -
  have "dropWhile (\<lambda>c. c \<in> set ds) (x @ y) = x @ y" using assms(1,2) by (cases x) auto
  moreover have "takeWhile (\<lambda>c. c \<notin> set ds) (x @ y) = x" "dropWhile (\<lambda>c. c \<notin> set ds) (x @ y) = y"
    using assms(2,3) by (cases y; auto simp: takeWhile_append dropWhile_append)+
  ultimately show ?thesis using assms(1) by (subst tokens.simps) (simp add: Let_def)
qed

lemma tokens_skip: "set d \<subseteq> set ds \<Longrightarrow> tokens ds (d @ y) = tokens ds y"
proof -
  assume "set d \<subseteq> set ds"
  then have "dropWhile (\<lambda>c. c \<in> set ds) (d @ y) = dropWhile (\<lambda>c. c \<in> set ds) y"
    by (induction d) auto
  then show ?thesis by (simp add: tokens.simps [of ds "d @ y"] tokens.simps [of ds y])
qed

lemma merge_loop_acc: "merge_loop xs d r = r @ merge_loop xs d []"
proof (induction xs arbitrary: r)
  case (Cons x xs)
  show ?case unfolding merge_loop.simps by (subst (1 2) Cons) simp
qed simp

lemma tokens_merge:
  assumes "\<forall>x \<in> set xs. x \<noteq> [] \<and> set x \<inter> set ds = {}" "d \<noteq> []" "set d \<subseteq> set ds"
  shows "tokens ds (merge_loop xs d []) = xs"
  using assms(1)
proof (induction xs)
  case Nil
  then show ?case by (simp add: tokens.simps)
next
  case (Cons x xs)
  show ?case
  proof (cases "xs = []")
    case True
    then show ?thesis using Cons.prems tokens_cons [of x ds "[]"] by (simp add: tokens.simps [of ds "[]"])
  next
    case False
    have "hd (d @ merge_loop xs d []) \<in> set ds" using assms(2,3) by (cases d) auto
    then have "tokens ds (x @ d @ merge_loop xs d []) = x # tokens ds (merge_loop xs d [])"
      using Cons.prems tokens_cons [of x ds "d @ merge_loop xs d []"] tokens_skip [OF assms(3)] by simp
    moreover have "merge_loop (x # xs) d [] = x @ d @ merge_loop xs d []"
      using False merge_loop_acc [of xs d "x @ d"] by simp
    ultimately show ?thesis using Cons by simp
  qed
qed

text \<open>
  \<open>SplitToken\<close> always ends and appends the tokens of the string: none is empty, none contains a
  delimiter, and put together they are the string without its delimiters. Splitting what \<open>MergeToken\<close> has
  joined gives the tokens back when they are non-empty and free of delimiters.
\<close>

theorem SplitToken_correct:
  "\<exists>ts. SplitToken str ds ss = ss @ ts \<and> (\<forall>t \<in> set ts. t \<noteq> [] \<and> set t \<inter> set ds = {})
    \<and> concat ts = filter (\<lambda>c. c \<notin> set ds) str
    \<and> (\<forall>xs d. xs \<noteq> [] \<and> (\<forall>x \<in> set xs. x \<noteq> [] \<and> set x \<inter> set ds = {}) \<and> d \<noteq> [] \<and> set d \<subseteq> set ds
        \<longrightarrow> (\<exists>s. MergeToken xs d = Some s \<and> SplitToken s ds [] = xs))"
  using tokens_props [of ds str] tokens_merge
  by (intro exI [of _ "tokens ds str"]) (simp add: SplitToken_eq MergeToken_def)

theorem SplitToken_correct_witness:
  "\<exists>s. MergeToken [''a'', ''bc''] ''; '' = Some s \<and> SplitToken s '' ;,'' [] = [''a'', ''bc'']"
  using SplitToken_correct [of "[]" "'' ;,''" "[]"]
  by (auto dest!: spec [of _ "[''a'', ''bc'']"] dest: spec [of _ "''; ''"])

section \<open>URL encoding\<close>

text \<open>The inverse, as a specification: \<^verbatim>\<open>+\<close> is a space, \<^verbatim>\<open>%XY\<close> the byte with that code.\<close>

fun url_decode :: "string \<Rightarrow> string" where
  "url_decode [] = []"
| "url_decode (c # a # b # cs) =
     (if c = CHR ''%'' then char_of (the (hexval a) * 16 + the (hexval b)) # url_decode cs
      else (if c = CHR ''+'' then CHR '' '' else c) # url_decode (a # b # cs))"
| "url_decode (c # cs) = (if c = CHR ''+'' then CHR '' '' else c) # url_decode cs"

lemma url_decode_plain: "c \<noteq> CHR ''%'' \<Longrightarrow> url_decode (c # cs) = (if c = CHR ''+'' then CHR '' '' else c) # url_decode cs"
  by (cases cs rule: url_decode.cases) simp_all

lemma URLEncode_acc: "URLEncode url acc = acc @ URLEncode url []"
proof (induction url arbitrary: acc)
  case (Cons ch url)
  show ?case unfolding URLEncode.simps by (subst (1 2) Cons) simp
qed simp

lemma url_plain_not: "url_plain c \<Longrightarrow> c \<noteq> CHR ''%'' \<and> c \<noteq> CHR ''+''"
  by (auto simp: url_plain_def isupper_def islower_def isdigit_def)

lemma HEXdigit_plain: "d < 16 \<Longrightarrow> url_plain (HEXdigit d)"
  by (auto simp: url_plain_def HEXdigit_def isupper_def isdigit_def)

text \<open>
  URL encoding loses nothing and is safe: the encoding is appended to what was there, it can be decoded
  to the original, and it consists of letters, digits and the six characters \<open>. - _ * + %\<close> only.
\<close>

theorem URLEncode_correct:
  "\<exists>e. URLEncode url acc = acc @ e \<and> url_decode e = url
    \<and> (\<forall>c \<in> set e. url_plain c \<or> c = CHR ''+'' \<or> c = CHR ''%'')"
proof -
  have "url_decode (URLEncode url []) = url
      \<and> (\<forall>c \<in> set (URLEncode url []). url_plain c \<or> c = CHR ''+'' \<or> c = CHR ''%'')"
  proof (induction url)
    case (Cons ch url)
    have d: "the (hexval (HEXdigit (of_char ch div 16))) * 16 + the (hexval (HEXdigit (of_char ch mod 16))) = (of_char ch :: nat)"
      using of_char_less [of ch] by (simp add: hexval_HEXdigit less_mult_imp_div_less)
    have h: "url_plain (HEXdigit (of_char ch div 16))" "url_plain (HEXdigit (of_char ch mod 16))"
      using of_char_less [of ch] by (auto intro!: HEXdigit_plain simp: less_mult_imp_div_less)
    consider "url_plain ch" | "\<not> url_plain ch" "ch = CHR '' ''" | "\<not> url_plain ch" "ch \<noteq> CHR '' ''" by blast
    then show ?case
    proof cases
      case 1
      then have "URLEncode (ch # url) [] = ch # URLEncode url []" using URLEncode_acc [of url "[ch]"] by simp
      then show ?thesis using Cons 1 url_plain_not [OF 1] by (simp add: url_decode_plain)
    next
      case 2
      then have "URLEncode (ch # url) [] = CHR ''+'' # URLEncode url []" using URLEncode_acc [of url "''+''"] by simp
      then show ?thesis using Cons 2 by (simp add: url_decode_plain)
    next
      case 3
      then have "URLEncode (ch # url) [] = percent ch @ URLEncode url []" using URLEncode_acc [of url "percent ch"] by simp
      then show ?thesis using Cons h d by (simp add: percent_def)
    qed
  qed simp
  then show ?thesis using URLEncode_acc [of url acc] by blast
qed

theorem URLEncode_correct_witness:
  "\<exists>e. URLEncode ''a/b c'' ''x='' = ''x='' @ e \<and> url_decode e = ''a/b c''"
  using URLEncode_correct [of "''a/b c''" "''x=''"] by blast

section \<open>Hexadecimal strings, back and forth\<close>

lemma Hex2Str_acc: "Hex2Str_loop s acc = acc @ Hex2Str_loop s []"
proof (induction s arbitrary: acc)
  case (Cons c s)
  show ?case unfolding Hex2Str_loop.simps by (subst (1 2) Cons) simp
qed simp

lemma hexdigit_not_special:
  "d < 16 \<Longrightarrow> \<not> isspace (hexdigit d) \<and> hexdigit d \<noteq> CHR ''-'' \<and> hexdigit d \<noteq> CHR ''+''
    \<and> hexdigit d \<noteq> CHR ''x'' \<and> hexdigit d \<noteq> CHR ''X'' \<and> hexdigit d \<noteq> char_of (0 :: nat)"
  by (auto simp: hexdigit_def isspace_def dest: arg_cong [of _ _ "of_char :: char \<Rightarrow> nat"])

lemma hex_pair_hexdigits:
  assumes "a < 16" "b < 16"
  shows "hex_pair (hexdigit a) (hexdigit b) = char_of (a * 16 + b)"
  using hexdigit_not_special [OF assms(1)] hexdigit_not_special [OF assms(2)] hexval_hexdigit [OF assms(1)]
    hexval_hexdigit [OF assms(2)] assms
  by (simp add: hex_pair_def strtol16_def Let_def skip_0x_def nat_mod_distrib)

lemma length_Hex2Str: "length (Hex2Str_loop s []) = 2 * length s"
proof (induction s)
  case (Cons c s)
  then show ?case using Hex2Str_acc [of s "[hexdigit (of_char c div 16), hexdigit (of_char c mod 16)]"] by simp
qed simp

lemma Str2Hex_loop_Hex2Str: "Str2Hex_loop n (Hex2Str_loop s []) = take n s"
proof (induction s arbitrary: n)
  case Nil
  then show ?case by (cases n) simp_all
next
  case (Cons c s)
  have l: "of_char c div 16 < (16 :: nat)" using of_char_less [of c] by (simp add: less_mult_imp_div_less)
  have e: "Hex2Str_loop (c # s) [] = hexdigit (of_char c div 16) # hexdigit (of_char c mod 16) # Hex2Str_loop s []"
    using Hex2Str_acc [of s "[hexdigit (of_char c div 16), hexdigit (of_char c mod 16)]"] by simp
  show ?case
  proof (cases n)
    case (Suc m)
    have "hex_pair (hexdigit (of_char c div 16)) (hexdigit (of_char c mod 16)) = c"
      using hex_pair_hexdigits [OF l, of "of_char c mod 16"] by simp
    then show ?thesis unfolding e using Cons.IH [of m] Suc by simp
  qed (simp add: e)
qed

text \<open>
  Reading back the hexadecimal form of a byte string gives its first 64 bytes: \<open>Str2Hex\<close> has a buffer of
  64 bytes and silently drops the rest, so the round trip is exact only up to that length.
\<close>

theorem Hex_roundtrip:
  "length (Hex2Str s) = 2 * length s \<and> Str2Hex (Hex2Str s) = take 64 s"
proof -
  have l: "length (Hex2Str s) div 2 = length s" by (simp add: Hex2Str_def length_Hex2Str)
  have "Str2Hex (Hex2Str s) = take (if length s > 64 then 64 else length s) s"
    unfolding Str2Hex_def l Let_def by (simp add: Hex2Str_def Str2Hex_loop_Hex2Str)
  then show ?thesis by (simp add: Hex2Str_def length_Hex2Str)
qed

end
