(* ===== verification/Http_Lines.thy ===== *)
theory Http_Lines
  imports Str_Util
begin

text \<open>
  The first line of an HTTP message (src/mars/comm/http.h, http.cc): versions, methods, \<^verbatim>\<open>RequestLine\<close>
  and \<^verbatim>\<open>StatusLine\<close> with their printers and parsers. \<^verbatim>\<open>FromString\<close> returns its result and the object
  it leaves, which on a failure may be half updated. A printer that indexes its name table out of
  range is \<open>Inl Out_Of_Bounds\<close>.
\<close>

section \<open>Constants and enumerations\<close>

definition KStringSpace :: string where "KStringSpace = '' ''"
definition KStringCRLF :: string where "KStringCRLF = [CHR 0x0D, CHR 0x0A]"
definition KStringColon :: string where "KStringColon = '':''"

datatype THttpVersion = kVersion_0_9 | kVersion_1_0 | kVersion_1_1 | kVersion_2_0 | kVersion_Unknow

definition http_versions :: "THttpVersion list" where
  "http_versions = [kVersion_0_9, kVersion_1_0, kVersion_1_1, kVersion_2_0, kVersion_Unknow]"

definition kHttpVersionString :: "THttpVersion \<Rightarrow> string" where
  "kHttpVersionString v = (case v of
      kVersion_0_9 \<Rightarrow> ''HTTP/0.9''
    | kVersion_1_0 \<Rightarrow> ''HTTP/1.0''
    | kVersion_1_1 \<Rightarrow> ''HTTP/1.1''
    | kVersion_2_0 \<Rightarrow> ''HTTP/2''
    | kVersion_Unknow \<Rightarrow> ''version_unknown'')"

datatype TCsMode = kRequest | kRespond

datatype THttpMethod =
  kUnknown | kGet | kPost | kOptions | kHead | kPut | kDelete | kTrace | kConnect | kMax

definition http_methods :: "THttpMethod list" where
  "http_methods = [kUnknown, kGet, kPost, kOptions, kHead, kPut, kDelete, kTrace, kConnect]"

definition kHttpMethodString :: "THttpMethod \<Rightarrow> string result" where
  "kHttpMethodString m = (case m of
      kUnknown \<Rightarrow> Inr ''UNKNOWN''
    | kGet \<Rightarrow> Inr ''GET''
    | kPost \<Rightarrow> Inr ''POST''
    | kOptions \<Rightarrow> Inr ''OPTIONS''
    | kHead \<Rightarrow> Inr ''HEAD''
    | kPut \<Rightarrow> Inr ''PUT''
    | kDelete \<Rightarrow> Inr ''DELETE''
    | kTrace \<Rightarrow> Inr ''TRACE''
    | kConnect \<Rightarrow> Inr ''CONNECT''
    | kMax \<Rightarrow> Inl Out_Of_Bounds)"

text \<open>The search loops over the two name tables; \<^verbatim>\<open>strcmp\<close> sees the characters up to a NUL.\<close>

definition GetHttpVersion :: "string \<Rightarrow> THttpVersion" where
  "GetHttpVersion s =
     (case find (\<lambda>v. c_str s = kHttpVersionString v) http_versions of
        Some v \<Rightarrow> v
      | None \<Rightarrow> kVersion_Unknow)"

definition find_method :: "string \<Rightarrow> THttpMethod" where
  "find_method s =
     (case find (\<lambda>m. Inr (c_str s) = kHttpMethodString m) http_methods of
        Some m \<Rightarrow> m
      | None \<Rightarrow> kUnknown)"

section \<open>The request line\<close>

record RequestLine =
  rl_http_method :: THttpMethod
  rl_req_url :: string
  rl_http_version :: THttpVersion

definition RequestLine_default :: RequestLine where
  "RequestLine_default = \<lparr>rl_http_method = kGet, rl_req_url = [], rl_http_version = kVersion_1_0\<rparr>"

definition RequestLine_new :: "THttpMethod \<Rightarrow> string \<Rightarrow> THttpVersion \<Rightarrow> RequestLine" where
  "RequestLine_new m url v = \<lparr>rl_http_method = m, rl_req_url = c_str url, rl_http_version = v\<rparr>"

definition RequestLine_set_Method :: "RequestLine \<Rightarrow> THttpMethod \<Rightarrow> RequestLine" where
  "RequestLine_set_Method r m = r\<lparr>rl_http_method := m\<rparr>"

definition RequestLine_set_Version :: "RequestLine \<Rightarrow> THttpVersion \<Rightarrow> RequestLine" where
  "RequestLine_set_Version r v = r\<lparr>rl_http_version := v\<rparr>"

definition RequestLine_set_Url :: "RequestLine \<Rightarrow> string \<Rightarrow> RequestLine" where
  "RequestLine_set_Url r u = r\<lparr>rl_req_url := u\<rparr>"

definition RequestLine_ToString :: "RequestLine \<Rightarrow> string result" where
  "RequestLine_ToString r =
     rbind (kHttpMethodString (rl_http_method r)) (\<lambda>m.
       Inr (m @ KStringSpace @ rl_req_url r @ KStringSpace
            @ kHttpVersionString (rl_http_version r) @ KStringCRLF))"

definition RequestLine_FromString :: "RequestLine \<Rightarrow> string \<Rightarrow> bool \<times> RequestLine" where
  "RequestLine_FromString r requestline =
     (case str_find requestline KStringCRLF 0 of
        None \<Rightarrow> (False, r)
      | Some pos \<Rightarrow>
          let strVer = SplitToken (substr requestline 0 pos) KStringSpace [] in
          if length strVer < 3 then (False, r)
          else
            let httpmethod = find_method (strVer ! 0) in
            if httpmethod = kUnknown then (False, r)
            else
              let r' = r\<lparr>rl_http_method := httpmethod, rl_req_url := strVer ! 1,
                         rl_http_version := GetHttpVersion (strVer ! 2)\<rparr>
              in if rl_http_version r' = kVersion_Unknow then (False, r') else (True, r'))"

section \<open>The status line\<close>

record StatusLine =
  sl_http_version :: THttpVersion
  sl_statuscode :: int
  sl_reason_phrase :: string

definition StatusLine_default :: StatusLine where
  "StatusLine_default = \<lparr>sl_http_version = kVersion_1_0, sl_statuscode = 0, sl_reason_phrase = []\<rparr>"

definition StatusLine_new :: "THttpVersion \<Rightarrow> int \<Rightarrow> string \<Rightarrow> StatusLine" where
  "StatusLine_new v code reason =
     \<lparr>sl_http_version = v, sl_statuscode = code, sl_reason_phrase = reason\<rparr>"

definition StatusLine_set_Version :: "StatusLine \<Rightarrow> THttpVersion \<Rightarrow> StatusLine" where
  "StatusLine_set_Version s v = s\<lparr>sl_http_version := v\<rparr>"

definition StatusLine_set_StatusCode :: "StatusLine \<Rightarrow> int \<Rightarrow> StatusLine" where
  "StatusLine_set_StatusCode s c = s\<lparr>sl_statuscode := c\<rparr>"

definition StatusLine_set_ReasonPhrase :: "StatusLine \<Rightarrow> string \<Rightarrow> StatusLine" where
  "StatusLine_set_ReasonPhrase s x = s\<lparr>sl_reason_phrase := x\<rparr>"

definition StatusLine_ToString :: "StatusLine \<Rightarrow> string" where
  "StatusLine_ToString s =
     kHttpVersionString (sl_http_version s) @ KStringSpace @ print_int (sl_statuscode s)
     @ KStringSpace @ sl_reason_phrase s @ KStringCRLF"

definition StatusLine_FromString :: "StatusLine \<Rightarrow> string \<Rightarrow> bool \<times> StatusLine" where
  "StatusLine_FromString s statusline =
     (case str_find statusline KStringCRLF 0 of
        None \<Rightarrow> (False, s)
      | Some pos \<Rightarrow>
          let strVer = SplitToken (substr statusline 0 pos) KStringSpace [] in
          if length strVer < 2 then (False, s)
          else
            let s1 = s\<lparr>sl_http_version := GetHttpVersion (strVer ! 0)\<rparr> in
            if sl_http_version s1 = kVersion_Unknow then (False, s1)
            else
              let s2 = s1\<lparr>sl_statuscode := to_int (strtol10 (c_str (strVer ! 1)))\<rparr> in
              (True, if length strVer = 3 then s2\<lparr>sl_reason_phrase := strVer ! 2\<rparr> else s2))"

section \<open>Lines\<close>

text \<open>A piece of a line: no CRLF inside.\<close>

definition no_crlf :: "string \<Rightarrow> bool" where
  "no_crlf s \<longleftrightarrow> str_find s KStringCRLF 0 = None"

lemma prefix_crlf_iff:
  "prefix KStringCRLF (drop i s) \<longleftrightarrow> Suc i < length s \<and> s ! i = CHR 0x0D \<and> s ! Suc i = CHR 0x0A"
proof (cases "Suc i < length s")
  case True
  then have "drop i s = s ! i # s ! Suc i # drop (Suc (Suc i)) s" by (simp add: Cons_nth_drop_Suc)
  with True show ?thesis by (auto simp: KStringCRLF_def)
next
  case False
  then have "length (drop i s) < 2" by simp
  with False show ?thesis by (auto simp: KStringCRLF_def dest: prefix_length_le)
qed

lemma no_crlf_iff:
  "no_crlf s \<longleftrightarrow> (\<forall>i. Suc i < length s \<longrightarrow> s ! i = CHR 0x0D \<longrightarrow> s ! Suc i \<noteq> CHR 0x0A)"
  by (auto simp: no_crlf_def str_find_def find_upt_None prefix_crlf_iff simp del: upt_Suc)

lemma no_crlf_append:
  assumes "no_crlf a" "no_crlf b" "b = [] \<or> hd b \<noteq> CHR 0x0A"
  shows "no_crlf (a @ b)"
  unfolding no_crlf_iff
proof (intro allI impI)
  fix i assume i: "Suc i < length (a @ b)" "(a @ b) ! i = CHR 0x0D"
  consider "Suc i < length a" | "Suc i = length a" | "length a \<le> i" by linarith
  then show "(a @ b) ! Suc i \<noteq> CHR 0x0A"
  proof cases
    case 1 then show ?thesis using assms(1) i by (simp add: no_crlf_iff nth_append)
  next
    case 2 then show ?thesis using assms(3) i by (auto simp: nth_append hd_conv_nth)
  next
    case 3 then show ?thesis using assms(2) i
      by (auto simp: no_crlf_iff nth_append Suc_diff_le dest: spec [of _ "i - length a"])
  qed
qed

lemma no_crlf_lf: "CHR 0x0A \<notin> set s \<Longrightarrow> no_crlf s"
  by (auto simp: no_crlf_iff dest: nth_mem)

lemma no_crlf_Cons: "no_crlf s \<Longrightarrow> c \<noteq> CHR 0x0D \<Longrightarrow> no_crlf (c # s)"
  by (simp add: no_crlf_iff nth_Cons split: nat.split)

text \<open>Words joined by characters other than CR and LF.\<close>

lemma no_crlf_join: "no_crlf a \<Longrightarrow> no_crlf b \<Longrightarrow> c \<noteq> CHR 0x0D \<Longrightarrow> c \<noteq> CHR 0x0A \<Longrightarrow> no_crlf (a @ c # b)"
  by (intro no_crlf_append no_crlf_Cons) auto

text \<open>The first CRLF of a text that starts with a line is the one that ends the line.\<close>

lemma str_find_crlf:
  assumes "no_crlf a"
  shows "str_find (p @ a @ KStringCRLF @ t) KStringCRLF (length p) = Some (length p + length a)"
proof -
  let ?s = "a @ KStringCRLF @ t"
  have at: "prefix KStringCRLF (drop i (p @ ?s)) \<longleftrightarrow> prefix KStringCRLF (drop (i - length p) ?s)"
    if "length p \<le> i" for i using that by simp
  have "\<not> prefix KStringCRLF (drop i ?s)" if "i < length a" for i
    unfolding prefix_crlf_iff using that assms
    by (cases "Suc i = length a") (auto simp: no_crlf_iff nth_append KStringCRLF_def)
  moreover have "prefix KStringCRLF (drop (length a) ?s)" by simp
  ultimately show ?thesis
    by (auto simp: str_find_def find_upt_Some at simp del: upt_Suc drop_append)
qed

lemma str_find_crlf_0: "no_crlf a \<Longrightarrow> str_find (a @ KStringCRLF @ t) KStringCRLF 0 = Some (length a)"
  using str_find_crlf [of a "[]" t] by simp

section \<open>Round trips\<close>

lemma version_name:
  "GetHttpVersion (kHttpVersionString v) = v" "CHR 0x0A \<notin> set (kHttpVersionString v)"
  "CHR '' '' \<notin> set (kHttpVersionString v)" "kHttpVersionString v \<noteq> []"
  by (cases v; simp add: GetHttpVersion_def kHttpVersionString_def http_versions_def c_str_def)+

lemma method_name:
  assumes "m \<noteq> kUnknown" "m \<noteq> kMax"
  shows "\<exists>n. kHttpMethodString m = Inr n \<and> find_method n = m \<and> CHR 0x0A \<notin> set n \<and> CHR '' '' \<notin> set n \<and> n \<noteq> []
    \<and> \<not> prefix ''HTTP/'' n"
  using assms by (cases m) (simp_all add: find_method_def kHttpMethodString_def http_methods_def c_str_def)

text \<open>Tokens of a line whose first two words are followed by one space each.\<close>

lemma tokens_two:
  assumes "a \<noteq> []" "CHR '' '' \<notin> set a" "b \<noteq> []" "CHR '' '' \<notin> set b"
  shows "SplitToken (a @ KStringSpace @ b @ KStringSpace @ c) KStringSpace [] = a # b # tokens KStringSpace c"
proof -
  have sp: "tokens KStringSpace (KStringSpace @ x) = tokens KStringSpace x" for x
    by (rule tokens_skip) simp
  show ?thesis
    using assms tokens_cons [of a KStringSpace "KStringSpace @ b @ KStringSpace @ c"]
      tokens_cons [of b KStringSpace "KStringSpace @ c"]
    by (simp add: SplitToken_eq sp) (simp add: KStringSpace_def)
qed

lemma tokens_single: "x \<noteq> [] \<Longrightarrow> CHR '' '' \<notin> set x \<Longrightarrow> tokens KStringSpace x = [x]"
  using tokens_cons [of x KStringSpace "[]"] by (simp add: KStringSpace_def tokens.simps [of _ "[]"])

lemma RequestLine_reparse:
  assumes "rl_http_method r \<noteq> kUnknown" "rl_http_method r \<noteq> kMax" "rl_http_version r \<noteq> kVersion_Unknow"
    "rl_req_url r \<noteq> []" "CHR '' '' \<notin> set (rl_req_url r)" "no_crlf (rl_req_url r)"
  shows "\<exists>s. RequestLine_ToString r = Inr s \<and> RequestLine_FromString r0 (s @ rest) = (True, r)"
proof -
  obtain n where n: "kHttpMethodString (rl_http_method r) = Inr n" "find_method n = rl_http_method r"
      "CHR 0x0A \<notin> set n" "CHR '' '' \<notin> set n" "n \<noteq> []"
    using method_name [OF assms(1,2)] by blast
  let ?u = "rl_req_url r" and ?v = "kHttpVersionString (rl_http_version r)"
  let ?l = "n @ KStringSpace @ ?u @ KStringSpace @ ?v"
  have sp: "KStringSpace = '' ''" by (simp add: KStringSpace_def)
  have "no_crlf ?l"
    using assms(6) n(3) version_name(2) by (simp add: sp no_crlf_join no_crlf_lf)
  then have "str_find ((?l @ KStringCRLF) @ rest) KStringCRLF 0 = Some (length ?l)"
    using str_find_crlf_0 [of ?l rest] by simp
  moreover have "SplitToken (substr ((?l @ KStringCRLF) @ rest) 0 (length ?l)) KStringSpace [] = [n, ?u, ?v]"
    using tokens_two [of n ?u ?v] n(4,5) assms(4,5) version_name(3,4)
    by (simp add: substr_def tokens_single)
  ultimately have "RequestLine_FromString r0 ((?l @ KStringCRLF) @ rest) = (True, r)"
    using n(2) assms(1,3) by (simp add: RequestLine_FromString_def version_name(1) Let_def)
  then show ?thesis using n(1) by (simp add: RequestLine_ToString_def)
qed

text \<open>
  A request line survives printing and parsing: for every method of the table but the unknown one,
  every known version and every non-empty URL without a space or a CRLF, \<open>ToString\<close> succeeds and
  \<open>FromString\<close> reads the same request line back from any text that starts with what was printed,
  whatever object it is called on.
\<close>

theorem RequestLine_roundtrip:
  assumes "rl_http_method r \<noteq> kUnknown" "rl_http_method r \<noteq> kMax" "rl_http_version r \<noteq> kVersion_Unknow"
    "rl_req_url r \<noteq> []" "CHR '' '' \<notin> set (rl_req_url r)" "no_crlf (rl_req_url r)"
  shows "\<exists>s. RequestLine_ToString r = Inr s \<and> RequestLine_FromString r0 (s @ rest) = (True, r)"
  using assms by (rule RequestLine_reparse)

theorem RequestLine_roundtrip_witness:
  "\<exists>s. RequestLine_ToString (RequestLine_new kPost ''/cgi-bin/micromsg'' kVersion_1_1) = Inr s
    \<and> RequestLine_FromString RequestLine_default (s @ ''Host: a'')
      = (True, RequestLine_new kPost ''/cgi-bin/micromsg'' kVersion_1_1)"
  by (rule RequestLine_roundtrip) (simp_all add: RequestLine_new_def c_str_def no_crlf_lf)

text \<open>
  Printing and parsing a status line keeps the version and every status code of the \<open>int\<close> range,
  and keeps the reason phrase exactly when it is a single word: with no word or with several
  (as in \<^verbatim>\<open>Not Found\<close>) the parser reports success and the object keeps the reason phrase it had.
\<close>

theorem StatusLine_roundtrip:
  assumes "sl_http_version s \<noteq> kVersion_Unknow" "- (2 ^ 31) \<le> sl_statuscode s" "sl_statuscode s < 2 ^ 31"
    "no_crlf (sl_reason_phrase s)"
  shows "StatusLine_FromString s0 (StatusLine_ToString s @ rest) =
    (True, \<lparr>sl_http_version = sl_http_version s, sl_statuscode = sl_statuscode s,
            sl_reason_phrase = (case SplitToken (sl_reason_phrase s) KStringSpace [] of
              [w] \<Rightarrow> w | _ \<Rightarrow> sl_reason_phrase s0)\<rparr>)"
proof -
  let ?v = "kHttpVersionString (sl_http_version s)" and ?c = "print_int (sl_statuscode s)"
  let ?x = "sl_reason_phrase s"
  let ?l = "?v @ KStringSpace @ ?c @ KStringSpace @ ?x"
  have sp: "KStringSpace = '' ''" by (simp add: KStringSpace_def)
  have "no_crlf ?l"
    using assms(4) print_int_no(3) version_name(2) by (simp add: sp no_crlf_join no_crlf_lf)
  then have f: "str_find (StatusLine_ToString s @ rest) KStringCRLF 0 = Some (length ?l)"
    using str_find_crlf_0 [of ?l rest] by (simp add: StatusLine_ToString_def)
  have t: "SplitToken (substr (StatusLine_ToString s @ rest) 0 (length ?l)) KStringSpace []
      = ?v # ?c # tokens KStringSpace ?x"
    using tokens_two [of ?v ?c ?x] version_name(3,4) print_int_no(2,4)
    by (simp add: substr_def StatusLine_ToString_def)
  have c: "to_int (strtol10 (c_str ?c)) = sl_statuscode s"
    using assms(2,3) print_int_no(1) by (simp add: c_str_id strtol10_print_int to_int_id)
  show ?thesis
    unfolding StatusLine_FromString_def f option.case t Let_def SplitToken_eq [of ?x]
    using assms(1) c by (simp add: version_name(1) split: list.split)
qed

theorem StatusLine_roundtrip_witness:
  "StatusLine_FromString StatusLine_default (StatusLine_ToString (StatusLine_new kVersion_1_1 200 ''OK''))
     = (True, StatusLine_new kVersion_1_1 200 ''OK'')
   \<and> StatusLine_FromString StatusLine_default (StatusLine_ToString (StatusLine_new kVersion_1_1 404 ''Not Found''))
     = (True, StatusLine_new kVersion_1_1 404 [])"
  using StatusLine_roundtrip [of "StatusLine_new kVersion_1_1 200 ''OK''" StatusLine_default "[]"]
    StatusLine_roundtrip [of "StatusLine_new kVersion_1_1 404 ''Not Found''" StatusLine_default "[]"]
  by (simp add: StatusLine_new_def StatusLine_default_def no_crlf_lf SplitToken_eq tokens.simps KStringSpace_def)

end
