(* ===== verification/Http_Headers.thy ===== *)
theory Http_Headers
  imports Http_Lines "HOL-Library.List_Lexorder"
begin

text \<open>
  The header fields of an HTTP message (\<^verbatim>\<open>HeaderFields\<close>, \<^verbatim>\<open>less\<close> and \<^verbatim>\<open>__ParserHeaders\<close> of
  src/mars/comm/http.cc). The \<^verbatim>\<open>std::map\<close> with the comparison \<^verbatim>\<open>less\<close> is the list of its pairs in
  iteration order: \<open>map_insert\<close> and \<open>map_find\<close> walk it with the comparison only. The interface
  \<open>first_wins_map\<close> says what the map promises to its clients (an insertion never replaces a value),
  and the header parser is proved against it.
\<close>

section \<open>Case-insensitive comparison\<close>

text \<open>\<^verbatim>\<open>strcasecmp\<close> on the characters before the terminating NULs.\<close>

fun strcasecmp :: "string \<Rightarrow> string \<Rightarrow> int" where
  "strcasecmp [] [] = 0"
| "strcasecmp [] (d # ds) = - int (of_char (tolower d))"
| "strcasecmp (c # cs) [] = int (of_char (tolower c))"
| "strcasecmp (c # cs) (d # ds) =
     (if tolower c = tolower d then strcasecmp cs ds
      else int (of_char (tolower c)) - int (of_char (tolower d)))"

definition http_less :: "string \<Rightarrow> string \<Rightarrow> bool" where
  "http_less x y \<longleftrightarrow> 0 > strcasecmp (c_str x) (c_str y)"

section \<open>The map\<close>

type_synonym header_map = "(string \<times> string) list"

fun map_insert :: "header_map \<Rightarrow> string \<Rightarrow> string \<Rightarrow> header_map" where
  "map_insert [] k v = [(k, v)]"
| "map_insert ((k', v') # m) k v =
     (if http_less k' k then (k', v') # map_insert m k v
      else if http_less k k' then (k, v) # (k', v') # m
      else (k', v') # m)"

fun map_find :: "header_map \<Rightarrow> string \<Rightarrow> string option" where
  "map_find [] k = None"
| "map_find ((k', v') # m) k =
     (if http_less k' k then map_find m k
      else if http_less k k' then None
      else Some v')"

section \<open>HeaderFields\<close>

record HeaderFields =
  hf_headers :: header_map

definition HeaderFields_empty :: HeaderFields where
  "HeaderFields_empty = \<lparr>hf_headers = []\<rparr>"

definition KStringHost :: string where "KStringHost = ''Host''"
definition KStringAccept :: string where "KStringAccept = ''Accept''"
definition KStringUserAgent :: string where "KStringUserAgent = ''User-Agent''"
definition KStringCacheControl :: string where "KStringCacheControl = ''Cache-Control''"
definition KStringConnection :: string where "KStringConnection = ''Connection''"
definition KStringContentType :: string where "KStringContentType = ''Content-Type''"
definition KStringContentLength :: string where "KStringContentLength = ''Content-Length''"
definition KStringTransferEncoding :: string where "KStringTransferEncoding = ''Transfer-Encoding''"
definition KStringAcceptEncoding :: string where "KStringAcceptEncoding = ''Accept-Encoding''"
definition KStringContentRange :: string where "KStringContentRange = ''Content-Range''"

definition KStringChunked :: string where "KStringChunked = ''chunked''"
definition KStringClose :: string where "KStringClose = ''close''"
definition KStringKeepalive :: string where "KStringKeepalive = ''Keep-Alive''"
definition KStringAcceptAll :: string where "KStringAcceptAll = ''*/*''"
definition KStringAcceptEncodingDeflate :: string where "KStringAcceptEncodingDeflate = ''deflate''"
definition KStringAcceptEncodingGzip :: string where "KStringAcceptEncodingGzip = ''gzip''"
definition KStringNoCache :: string where "KStringNoCache = ''no-cache''"
definition KStringOctetType :: string where "KStringOctetType = ''application/octet-stream''"

definition MakeContentLength :: "int \<Rightarrow> string \<times> string" where
  "MakeContentLength len = (KStringContentLength, print_int len)"

definition MakeTransferEncodingChunked :: "string \<times> string" where
  "MakeTransferEncodingChunked = (KStringTransferEncoding, KStringChunked)"

definition MakeConnectionClose :: "string \<times> string" where
  "MakeConnectionClose = (KStringConnection, KStringClose)"

definition MakeConnectionKeepalive :: "string \<times> string" where
  "MakeConnectionKeepalive = (KStringConnection, KStringKeepalive)"

definition MakeAcceptAll :: "string \<times> string" where
  "MakeAcceptAll = (KStringAccept, KStringAcceptAll)"

definition MakeAcceptEncodingDefalte :: "string \<times> string" where
  "MakeAcceptEncodingDefalte = (KStringAcceptEncoding, KStringAcceptEncodingDeflate)"

definition MakeAcceptEncodingGzip :: "string \<times> string" where
  "MakeAcceptEncodingGzip = (KStringAcceptEncoding, KStringAcceptEncodingGzip)"

definition MakeCacheControlNoCache :: "string \<times> string" where
  "MakeCacheControlNoCache = (KStringCacheControl, KStringNoCache)"

definition MakeContentTypeOctetStream :: "string \<times> string" where
  "MakeContentTypeOctetStream = (KStringContentType, KStringOctetType)"

text \<open>
  The three overloads of \<^verbatim>\<open>HeaderFiled\<close>: C strings, a pair, all the fields of another object. The
  lookup hands out a C string.
\<close>

definition HeaderFiled :: "HeaderFields \<Rightarrow> string \<Rightarrow> string \<Rightarrow> HeaderFields" where
  "HeaderFiled h name value = h\<lparr>hf_headers := map_insert (hf_headers h) (c_str name) (c_str value)\<rparr>"

definition HeaderFiled_pair :: "HeaderFields \<Rightarrow> string \<times> string \<Rightarrow> HeaderFields" where
  "HeaderFiled_pair h p = h\<lparr>hf_headers := map_insert (hf_headers h) (fst p) (snd p)\<rparr>"

definition HeaderFiled_fields :: "HeaderFields \<Rightarrow> HeaderFields \<Rightarrow> HeaderFields" where
  "HeaderFiled_fields h g =
     h\<lparr>hf_headers := fold (\<lambda>(k, v) m. map_insert m k v) (hf_headers g) (hf_headers h)\<rparr>"

definition HeaderField :: "HeaderFields \<Rightarrow> string \<Rightarrow> string option" where
  "HeaderField h key = map_option c_str (map_find (hf_headers h) (c_str key))"

definition IsTransferEncodingChunked :: "HeaderFields \<Rightarrow> bool" where
  "IsTransferEncodingChunked h =
     (case HeaderField h KStringTransferEncoding of
        None \<Rightarrow> False
      | Some transferEncoding \<Rightarrow> strcasecmp transferEncoding KStringChunked = 0)"

definition ContentLength :: "HeaderFields \<Rightarrow> int" where
  "ContentLength h =
     (case HeaderField h KStringContentLength of
        None \<Rightarrow> 0
      | Some strContentLength \<Rightarrow> to_int (strtol10 strContentLength))"

text \<open>The result and the values left in the three output parameters.\<close>

definition ContentRange :: "HeaderFields \<Rightarrow> bool \<times> int \<times> int \<times> int" where
  "ContentRange h =
     (case HeaderField h KStringContentRange of
        None \<Rightarrow> (False, 0, 0, 0)
      | Some content_range \<Rightarrow>
          if \<not> StartsWith content_range ''bytes '' then (False, 0, 0, 0)
          else
            let bytes = Trim (substr content_range 6 (length content_range)) in
            case str_find bytes ''-'' 0 of
              None \<Rightarrow> (False, 0, 0, 0)
            | Some range_start \<Rightarrow>
                let start = to_int (strtol10 (c_str (substr bytes 0 range_start))) in
                case str_find bytes ''/'' (range_start + 1) of
                  None \<Rightarrow> (False, start, 0, 0)
                | Some range_end \<Rightarrow>
                    (True, start,
                     to_int (strtol10 (c_str (substr bytes (range_start + 1) (range_end - range_start - 1)))),
                     to_int (strtol10 (c_str (substr bytes (range_end + 1) (length bytes))))))"

definition HeaderFields_ToString :: "HeaderFields \<Rightarrow> string" where
  "HeaderFields_ToString h =
     concat (map (\<lambda>(k, v). k @ KStringColon @ KStringSpace @ v @ KStringCRLF) (hf_headers h))"

section \<open>Parsing a header block\<close>

text \<open>
  The position of a failed search is \<^verbatim>\<open>npos\<close>, the largest \<open>size_t\<close>, and \<^verbatim>\<open>npos + 1\<close> wraps to 0: a line
  without a colon becomes a field whose name and whose value are the whole line.
\<close>

definition npos :: nat where
  "npos = 2 ^ 64 - 1"

definition parse_header_line :: "string \<Rightarrow> HeaderFields \<Rightarrow> HeaderFields" where
  "parse_header_line line headers =
     (case find_first_not_of line KStringColon 0 of
        None \<Rightarrow> headers
      | Some _ \<Rightarrow>
          let nameend = (case find_first_of line KStringColon 0 of None \<Rightarrow> npos | Some i \<Rightarrow> i);
              name = substr line 0 nameend;
              valuebegin = to_size (int nameend + int (length KStringColon))
          in if length line > valuebegin then
               let value = substr line valuebegin (length line)
               in HeaderFiled headers (c_str (Trim name)) (c_str (Trim value))
             else headers)"

function ParserHeaders_loop :: "string \<Rightarrow> nat \<Rightarrow> HeaderFields \<Rightarrow> HeaderFields" where
  "ParserHeaders_loop s linebegin headers =
     (case str_find s KStringCRLF linebegin of
        None \<Rightarrow> headers
      | Some lineend \<Rightarrow>
          ParserHeaders_loop s (lineend + length KStringCRLF)
            (parse_header_line (substr s linebegin (lineend - linebegin)) headers))"
  by auto
termination
proof (relation "measure (\<lambda>(s, pos, _). length s - pos)")
  fix s linebegin lineend and headers :: HeaderFields
  assume "str_find s KStringCRLF linebegin = Some lineend"
  from str_find_SomeD(1,2) [OF this]
  show "((s, lineend + length KStringCRLF, parse_header_line (substr s linebegin (lineend - linebegin)) headers),
         s, linebegin, headers) \<in> measure (\<lambda>(s, pos, _). length s - pos)"
    by (simp add: KStringCRLF_def)
qed simp

declare ParserHeaders_loop.simps [simp del]

definition ParserHeaders :: "string \<Rightarrow> HeaderFields \<Rightarrow> bool \<times> HeaderFields" where
  "ParserHeaders s headers = (True, ParserHeaders_loop s 0 headers)"

section \<open>The order and the map\<close>

definition ckey :: "string \<Rightarrow> nat list" where
  "ckey k = map (\<lambda>c. of_char (tolower c)) (c_str k)"

lemma tolower_NUL: "c \<noteq> CHR 0x00 \<Longrightarrow> 0 < (of_char (tolower c) :: nat)"
proof -
  assume "c \<noteq> CHR 0x00"
  then have "(of_char c :: nat) \<noteq> of_char (CHR 0x00)" by (simp only: of_char_eq_iff not_False_eq_True)
  then show ?thesis using of_char_less [of c] by (auto simp: tolower_def isupper_def)
qed

lemma strcasecmp_less:
  "CHR 0x00 \<notin> set x \<Longrightarrow> CHR 0x00 \<notin> set y \<Longrightarrow>
    strcasecmp x y < 0 \<longleftrightarrow> map (\<lambda>c. of_char (tolower c) :: nat) x < map (\<lambda>c. of_char (tolower c)) y"
  by (induction x y rule: strcasecmp.induct) (auto intro!: tolower_NUL)

lemma strcasecmp_eq:
  "CHR 0x00 \<notin> set x \<Longrightarrow> CHR 0x00 \<notin> set y \<Longrightarrow>
    strcasecmp x y = 0 \<longleftrightarrow> map (\<lambda>c. of_char (tolower c) :: nat) x = map (\<lambda>c. of_char (tolower c)) y"
  by (induction x y rule: strcasecmp.induct) (auto simp: tolower_NUL less_imp_neq)

lemma http_less_key: "http_less x y \<longleftrightarrow> ckey x < ckey y"
  by (simp add: http_less_def ckey_def strcasecmp_less c_str_no_NUL)

lemma ckey_c_str [simp]: "ckey (c_str k) = ckey k"
  by (simp add: ckey_def)

definition map_sorted :: "header_map \<Rightarrow> bool" where
  "map_sorted m \<longleftrightarrow> sorted_wrt (\<lambda>p q. ckey (fst p) < ckey (fst q)) m"

lemma set_map_insert: "set (map_insert m k v) \<subseteq> insert (k, v) (set m)"
  by (induction m k v rule: map_insert.induct) auto

lemma map_insert_sorted: "map_sorted m \<Longrightarrow> map_sorted (map_insert m k v)"
proof (induction m)
  case (Cons p m)
  obtain k' v' where p: "p = (k', v')" by fastforce
  have m: "map_sorted m" "\<forall>q \<in> set m. ckey k' < ckey (fst q)"
    using Cons.prems p by (auto simp: map_sorted_def)
  show ?case
    using Cons m p set_map_insert [of m k v]
    by (auto simp: map_sorted_def http_less_key intro: less_trans)
qed (simp add: map_sorted_def)

lemma map_find_spec:
  "map_sorted m \<Longrightarrow> map_find m k = map_option snd (find (\<lambda>p. ckey (fst p) = ckey k) m)"
proof (induction m)
  case (Cons p m)
  obtain k' v' where p: "p = (k', v')" by fastforce
  have m: "map_sorted m" "\<And>q. q \<in> set m \<Longrightarrow> ckey k' < ckey (fst q)"
    using Cons.prems p by (auto simp: map_sorted_def)
  have "find (\<lambda>p. ckey (fst p) = ckey k) m = None" if "ckey k < ckey k'"
    using that m(2) by (fastforce simp: find_None_iff)
  with Cons m p show ?case by (auto simp: http_less_key)
qed simp

lemma map_find_insert:
  assumes "map_sorted m"
  shows "map_find (map_insert m k v) k' =
    (case map_find m k' of Some w \<Rightarrow> Some w | None \<Rightarrow> if ckey k = ckey k' then Some v else None)"
  using assms
proof (induction m)
  case (Cons p m)
  obtain k1 v1 where p: "p = (k1, v1)" by fastforce
  have "map_sorted m" using Cons.prems by (simp add: map_sorted_def)
  with Cons.IH p show ?case by (auto simp: http_less_key split: option.splits)
qed (auto simp: http_less_key)

text \<open>
  What a map of headers promises: looking a key up after an insertion finds the old value if there
  was one, and otherwise the new value for the keys the map identifies with the inserted one.
\<close>

locale first_wins_map =
  fixes ins :: "'m \<Rightarrow> 'k \<Rightarrow> 'v \<Rightarrow> 'm"
    and look :: "'m \<Rightarrow> 'k \<Rightarrow> 'w option"
    and view :: "'v \<Rightarrow> 'w"
    and same :: "'k \<Rightarrow> 'k \<Rightarrow> bool"
    and ok :: "'m \<Rightarrow> bool"
  assumes ins_ok: "ok m \<Longrightarrow> ok (ins m k v)"
    and look_ins: "ok m \<Longrightarrow>
      look (ins m k v) k' = (case look m k' of Some w \<Rightarrow> Some w | None \<Rightarrow> if same k k' then Some (view v) else None)"
begin

lemma ins_all_ok: "ok m \<Longrightarrow> ok (fold (\<lambda>(k, v) m. ins m k v) kvs m)"
  by (induction kvs arbitrary: m) (auto simp: ins_ok)

lemma look_ins_all:
  "ok m \<Longrightarrow> look (fold (\<lambda>(k, v) m. ins m k v) kvs m) k' =
    (case look m k' of Some w \<Rightarrow> Some w | None \<Rightarrow>  map_option (view \<circ> snd) (find (\<lambda>p. same (fst p) k') kvs))"
proof (induction kvs arbitrary: m)
  case (Cons p kvs)
  obtain k v where p: "p = (k, v)" by fastforce
  show ?case using Cons.IH [OF ins_ok [OF Cons.prems]] Cons.prems p
    by (simp add: look_ins comp_def split: option.splits)
qed (simp split: option.splits)

end

definition same_key :: "string \<Rightarrow> string \<Rightarrow> bool" where
  "same_key a b \<longleftrightarrow> ckey a = ckey b"

definition hf_ok :: "HeaderFields \<Rightarrow> bool" where
  "hf_ok h \<longleftrightarrow> map_sorted (hf_headers h) \<and> (\<forall>(k, v) \<in> set (hf_headers h). CHR 0x00 \<notin> set k \<and> CHR 0x00 \<notin> set v)"

interpretation hdr: first_wins_map map_insert map_find "\<lambda>v. v" same_key map_sorted
  by unfold_locales (simp_all add: map_insert_sorted map_find_insert same_key_def)

lemma HeaderFields_empty_ok: "hf_ok HeaderFields_empty"
  by (simp add: hf_ok_def HeaderFields_empty_def map_sorted_def)

lemma HeaderFiled_ok: "hf_ok h \<Longrightarrow> hf_ok (HeaderFiled h n v)"
  using set_map_insert [of "hf_headers h" "c_str n" "c_str v"]
  by (fastforce simp: hf_ok_def HeaderFiled_def map_insert_sorted c_str_no_NUL)

text \<open>The public operations offer the same promise, on C strings.\<close>

interpretation fields: first_wins_map HeaderFiled HeaderField c_str same_key hf_ok
proof unfold_locales
  fix h :: HeaderFields and k v k' :: string
  assume h: "hf_ok h"
  show "hf_ok (HeaderFiled h k v)" using h by (rule HeaderFiled_ok)
  have "map_sorted (hf_headers h)" using h by (simp add: hf_ok_def)
  then show "HeaderField (HeaderFiled h k v) k' =
      (case HeaderField h k' of Some w \<Rightarrow> Some w | None \<Rightarrow> if same_key k k' then Some (c_str v) else None)"
    by (simp add: HeaderField_def HeaderFiled_def hdr.look_ins same_key_def split: option.splits)
qed

section \<open>The parser of a header block\<close>

lemma find_first_at:
  assumes "\<And>c. c \<in> set a \<Longrightarrow> \<not> P c" "P x"
  shows "find (\<lambda>i. P ((a @ x # b) ! i)) [0..<length (a @ x # b)] = Some (length a)"
  using assms by (auto simp: find_upt_Some nth_append simp del: upt_Suc)

lemma parse_header_line_colon:
  assumes "n \<noteq> []" "CHR '':'' \<notin> set n" "length n < 2 ^ 63"
  shows "parse_header_line (n @ KStringColon @ v) h = (if v = [] then h else HeaderFiled h (Trim n) (Trim v))"
proof -
  let ?l = "n @ KStringColon @ v"
  obtain c n' where n: "n = c # n'" using assms(1) by (cases n) auto
  have "find_first_not_of ?l KStringColon 0 = Some 0"
    using assms(2) n find_first_at [of "[]" "\<lambda>c. c \<notin> set KStringColon" c "n' @ KStringColon @ v"]
    by (auto simp: find_first_not_of_def KStringColon_def simp del: upt_Suc)
  moreover have "find_first_of ?l KStringColon 0 = Some (length n)"
    using assms(2) find_first_at [of n "\<lambda>c. c \<in> set KStringColon" "CHR '':''" v]
    by (auto simp: find_first_of_def KStringColon_def simp del: upt_Suc)
  moreover have "to_size (int (length n) + 1) = Suc (length n)"
    using assms(3) to_size_of_nat [of "Suc (length n)"] by (simp add: add.commute)
  ultimately show ?thesis
    by (simp add: parse_header_line_def Let_def KStringColon_def substr_def HeaderFiled_def)
qed

lemma parse_header_line_bare:
  "n \<noteq> [] \<Longrightarrow> CHR '':'' \<notin> set n \<Longrightarrow> length n < 2 ^ 63 \<Longrightarrow> parse_header_line (n @ KStringColon) h = h"
  using parse_header_line_colon [of n "[]" h] by simp

lemma parse_header_line_Nil [simp]: "parse_header_line [] h = h"
  by (simp add: parse_header_line_def find_first_not_of_def)

lemma ParserHeaders_loop_lines:
  assumes "no_crlf rest" "\<forall>l \<in> set ls. no_crlf l"
  shows "ParserHeaders_loop (p @ concat (map (\<lambda>l. l @ KStringCRLF) ls) @ rest) (length p) h
    = fold parse_header_line ls h"
  using assms(2)
proof (induction ls arbitrary: p h)
  case Nil
  have "find (\<lambda>i. prefix KStringCRLF (drop i (p @ rest))) [length p..<Suc (length (p @ rest))] = None"
    using assms(1)
    by (auto simp: no_crlf_def str_find_def find_upt_None simp del: upt_Suc dest: spec [of _ "_ - length p"])
  then show ?case by (subst ParserHeaders_loop.simps) (simp add: str_find_def del: upt_Suc)
next
  case (Cons l ls)
  let ?t = "concat (map (\<lambda>l. l @ KStringCRLF) ls) @ rest"
  have s: "p @ concat (map (\<lambda>l. l @ KStringCRLF) (l # ls)) @ rest = p @ l @ KStringCRLF @ ?t" by simp
  have f: "str_find (p @ l @ KStringCRLF @ ?t) KStringCRLF (length p) = Some (length p + length l)"
    using Cons.prems by (intro str_find_crlf) simp
  have "substr (p @ l @ KStringCRLF @ ?t) (length p) (length p + length l - length p) = l"
    by (simp add: substr_def)
  then show ?case
    unfolding s using Cons.IH [of "p @ l @ KStringCRLF"] Cons.prems
    by (subst ParserHeaders_loop.simps) (simp add: f add.assoc)
qed

lemma ParserHeaders_lines:
  "\<forall>l \<in> set ls. no_crlf l \<Longrightarrow>
    ParserHeaders (concat (map (\<lambda>l. l @ KStringCRLF) ls) @ KStringCRLF) h = (True, fold parse_header_line ls h)"
  using ParserHeaders_loop_lines [of "[]" "ls @ [[]]" "[]" h]
  by (simp add: ParserHeaders_def no_crlf_lf)

text \<open>The text of a header block, and the conditions under which its lines are read as fields. A line with nothing behind its colon is
  no field.\<close>

definition header_text :: "(string \<times> string) list \<Rightarrow> string" where
  "header_text nvs = concat (map (\<lambda>(n, v). n @ KStringColon @ v @ KStringCRLF) nvs) @ KStringCRLF"

definition field_ok :: "string \<times> string \<Rightarrow> bool" where
  "field_ok p \<longleftrightarrow> fst p \<noteq> [] \<and> CHR '':'' \<notin> set (fst p) \<and> no_crlf (fst p) \<and> length (fst p) < 2 ^ 63 \<and> no_crlf (snd p)"

definition has_value :: "string \<times> string \<Rightarrow> bool" where
  "has_value p \<longleftrightarrow> snd p \<noteq> []"

lemma ParserHeaders_text:
  assumes "\<forall>p \<in> set nvs. field_ok p"
  shows "ParserHeaders (header_text nvs) h =
    (True, fold (\<lambda>(n, v) h. HeaderFiled h n v) (map (\<lambda>(n, v). (Trim n, Trim v)) (filter has_value nvs)) h)"
proof -
  let ?ls = "map (\<lambda>(n, v). n @ KStringColon @ v) nvs"
  have "header_text nvs = concat (map (\<lambda>l. l @ KStringCRLF) ?ls) @ KStringCRLF"
    by (simp add: header_text_def comp_def case_prod_unfold)
  moreover have "\<forall>l \<in> set ?ls. no_crlf l"
    using assms by (auto simp: field_ok_def KStringColon_def intro!: no_crlf_join)
  ultimately have "ParserHeaders (header_text nvs) h = (True, fold parse_header_line ?ls h)"
    by (simp only: ParserHeaders_lines)
  moreover have "fold parse_header_line ?ls h
      = fold (\<lambda>(n, v) h. HeaderFiled h n v) (map (\<lambda>(n, v). (Trim n, Trim v)) (filter has_value nvs)) h"
    using assms
    by (induction nvs arbitrary: h) (auto simp: field_ok_def has_value_def parse_header_line_colon parse_header_line_bare)
  ultimately show ?thesis by simp
qed

text \<open>
  C28: parsing a header block keeps the first of several fields with the same name, compares names without
  regard to case and white space around them, and trims the values: after any block of lines
  \<^verbatim>\<open>name:value\<close>, whose names are not empty and have no colon, a lookup finds the value the object had before, or
  else that of the first line of the block with that name that has something behind its colon. A line with
  nothing there, not even white space, is dropped.
\<close>

theorem ParserHeaders_lookup:
  assumes "hf_ok h" "\<forall>p \<in> set nvs. field_ok p"
  shows "\<exists>h'. ParserHeaders (header_text nvs) h = (True, h') \<and> hf_ok h'
    \<and> HeaderField h' key = (case HeaderField h key of
        Some w \<Rightarrow> Some w
      | None \<Rightarrow> map_option (\<lambda>(n, v). c_str (Trim v)) (find (\<lambda>(n, v). same_key (Trim n) key \<and> v \<noteq> []) nvs))"
proof -
  have "map_option (c_str \<circ> snd) (find (\<lambda>p. same_key (fst p) key) (map (\<lambda>(n, v). (Trim n, Trim v)) (filter has_value nvs)))
      = map_option (\<lambda>(n, v). c_str (Trim v)) (find (\<lambda>(n, v). same_key (Trim n) key \<and> v \<noteq> []) nvs)"
    by (induction nvs) (auto simp: has_value_def)
  note find_trim = this
  show ?thesis
    unfolding ParserHeaders_text [OF assms(2)]
    by (intro exI conjI, rule refl, rule fields.ins_all_ok [OF assms(1)])
      (simp only: fields.look_ins_all [OF assms(1)] find_trim)
qed

theorem ParserHeaders_lookup_witness:
  "\<exists>h'. ParserHeaders (header_text [(''Content-length'', []), (''Host'', '' a''), (''content-LENGTH'', ''  12 ''), (''Content-Length'', ''7'')])
      HeaderFields_empty = (True, h') \<and> hf_ok h' \<and> HeaderField h' KStringContentLength = Some ''12''"
proof -
  have "\<forall>p \<in> set [(''Content-length'', []), (''Host'', '' a''), (''content-LENGTH'', ''  12 ''), (''Content-Length'', ''7'')]. field_ok p"
    by (simp add: field_ok_def no_crlf_lf)
  note ParserHeaders_lookup [OF HeaderFields_empty_ok this, of KStringContentLength]
  moreover have "\<not> same_key (Trim ''Host'') KStringContentLength"
    "same_key (Trim ''content-LENGTH'') KStringContentLength" "c_str (Trim ''  12 '') = ''12''"
    "HeaderField HeaderFields_empty KStringContentLength = None"
    by (simp_all add: same_key_def ckey_def c_str_def Trim_def KStringContentLength_def isspace_def
        tolower_def isupper_def HeaderField_def HeaderFields_empty_def)
  ultimately show ?thesis by simp
qed

section \<open>Printing and parsing\<close>

lemma map_insert_last:
  "\<forall>p \<in> set m. ckey (fst p) < ckey k \<Longrightarrow> map_insert m k v = m @ [(k, v)]"
  by (induction m k v rule: map_insert.induct) (simp_all add: http_less_key)

lemma fold_insert_sorted:
  "map_sorted (m @ kvs) \<Longrightarrow> fold (\<lambda>(k, v) m. map_insert m k v) kvs m = m @ kvs"
proof (induction kvs arbitrary: m)
  case (Cons p kvs)
  obtain k v where p: "p = (k, v)" by fastforce
  have "map_insert m k v = m @ [(k, v)]"
    using Cons.prems p by (intro map_insert_last) (auto simp: map_sorted_def sorted_wrt_append)
  then show ?case using Cons p by simp
qed simp

lemma fold_HeaderFiled:
  assumes "\<forall>(k, v) \<in> set kvs. CHR 0x00 \<notin> set k \<and> CHR 0x00 \<notin> set v"
  shows "fold (\<lambda>(n, v) h. HeaderFiled h n v) kvs h
    = h\<lparr>hf_headers := fold (\<lambda>(k, v) m. map_insert m k v) kvs (hf_headers h)\<rparr>"
  using assms by (induction kvs arbitrary: h) (auto simp: HeaderFiled_def c_str_id)

definition printable :: "string \<times> string \<Rightarrow> bool" where
  "printable p \<longleftrightarrow> fst p \<noteq> [] \<and> CHR '':'' \<notin> set (fst p) \<and> no_crlf (fst p) \<and> length (fst p) < 2 ^ 63
     \<and> Trim (fst p) = fst p \<and> no_crlf (snd p) \<and> Trim (snd p) = snd p"

lemma HeaderFields_reparse:
  assumes "hf_ok h" "\<forall>p \<in> set (hf_headers h). printable p"
  shows "ParserHeaders (HeaderFields_ToString h @ KStringCRLF) HeaderFields_empty = (True, h)"
proof -
  let ?nvs = "map (\<lambda>(k, v). (k, KStringSpace @ v)) (hf_headers h)"
  have t: "HeaderFields_ToString h @ KStringCRLF = header_text ?nvs"
    by (simp add: HeaderFields_ToString_def header_text_def comp_def case_prod_unfold)
  have ok: "\<forall>p \<in> set ?nvs. field_ok p"
    using assms(2) by (auto simp: printable_def field_ok_def KStringSpace_def intro!: no_crlf_Cons)
  have "Trim (KStringSpace @ v) = Trim v" for v
    by (simp add: KStringSpace_def Trim_def isspace_def)
  then have "map (\<lambda>(n, v). (Trim n, Trim v)) ?nvs = hf_headers h"
    using assms(2) by (auto simp: printable_def intro!: map_idI)
  moreover have "filter has_value ?nvs = ?nvs" by (auto simp: has_value_def KStringSpace_def filter_id_conv)
  moreover have "fold (\<lambda>(k, v) m. map_insert m k v) (hf_headers h) [] = hf_headers h"
    using fold_insert_sorted [of "[]" "hf_headers h"] assms(1) by (simp add: hf_ok_def)
  ultimately show ?thesis
    using assms(1) unfolding t ParserHeaders_text [OF ok]
    by (simp add: fold_HeaderFiled hf_ok_def HeaderFields_empty_def)
qed

text \<open>
  A set of header fields survives printing and parsing: if the names are non-empty, trimmed and free of
  colons and CRLFs and the values trimmed and free of CRLFs, then parsing what \<open>ToString\<close> prints,
  followed by the empty line, into an empty object gives the same fields in the same order.
\<close>

theorem HeaderFields_roundtrip:
  assumes "hf_ok h" "\<forall>p \<in> set (hf_headers h). printable p"
  shows "ParserHeaders (HeaderFields_ToString h @ KStringCRLF) HeaderFields_empty = (True, h)"
  using assms by (rule HeaderFields_reparse)

theorem HeaderFields_roundtrip_witness:
  "ParserHeaders (HeaderFields_ToString \<lparr>hf_headers = [(''Accept'', ''*/*''), (''Host'', ''a.b'')]\<rparr> @ KStringCRLF)
     HeaderFields_empty = (True, \<lparr>hf_headers = [(''Accept'', ''*/*''), (''Host'', ''a.b'')]\<rparr>)"
  by (rule HeaderFields_roundtrip)
    (simp_all add: hf_ok_def map_sorted_def ckey_def c_str_def tolower_def isupper_def printable_def
      no_crlf_lf Trim_def isspace_def)

section \<open>Content-Range\<close>

lemma prefix_char_iff: "prefix [c] (drop i s) \<longleftrightarrow> i < length s \<and> s ! i = c"
  by (cases "i < length s") (auto simp: Cons_nth_drop_Suc [symmetric])

lemma str_find_char:
  assumes "c \<notin> set a"
  shows "str_find (p @ a @ c # b) [c] (length p) = Some (length p + length a)"
proof -
  have "(p @ a @ c # b) ! j \<noteq> c" if "length p \<le> j" "j < length p + length a" for j
    using that assms by (auto simp: nth_append dest: nth_mem)
  then show ?thesis
    by (simp add: str_find_def find_upt_Some prefix_char_iff nth_append del: upt_Suc drop_append)
qed

text \<open>
  \<open>ContentRange\<close> reads \<^verbatim>\<open>bytes a-b/t\<close>: for all numbers in the range of \<open>int\<close> it reports success and
  yields the three numbers; without the field it fails and yields zeros.
\<close>

theorem ContentRange_correct:
  assumes "a < 2 ^ 31" "b < 2 ^ 31" "t < 2 ^ 31"
  shows "(HeaderField h KStringContentRange
            = Some (''bytes '' @ digits a @ ''-'' @ digits b @ ''/'' @ digits t) \<longrightarrow>
          ContentRange h = (True, int a, int b, int t))
    \<and> (HeaderField h KStringContentRange = None \<longrightarrow> ContentRange h = (False, 0, 0, 0))"
proof -
  let ?r = "digits a @ ''-'' @ digits b @ ''/'' @ digits t"
  have no: "CHR ''-'' \<notin> set (digits n)" "CHR ''/'' \<notin> set (digits n)" "CHR 0x00 \<notin> set (digits n)" for n
    using digits_isdigit [of "CHR ''-''" n] digits_isdigit [of "CHR ''/''" n] digits_isdigit [of "CHR 0x00" n]
    by (auto simp: isdigit_def)
  have hd: "\<not> isspace (hd (digits n @ s))" "\<not> isspace (last (digits n))" for n s
    using digits_isdigit [of "hd (digits n)" n] digits_isdigit [of "last (digits n)" n]
    by (simp_all add: isdigit_not_space)
  have lead: "dropWhile isspace (digits n @ s) = digits n @ s" for n s
    using hd(1) [of n s] unfolding dropWhile_eq_self_iff by simp
  have "last ?r = last (digits t)" by simp
  then have trail: "dropWhile isspace (rev ?r) = rev ?r"
    using hd(2) [of t] unfolding dropWhile_eq_self_iff hd_rev by simp
  have trim: "Trim ?r = ?r" using lead trail by (simp only: Trim_spec rev_rev_ident)
  have st: "StartsWith (''bytes '' @ ?r) ''bytes ''" by (simp add: StartsWith_def str_find_0_iff)
  have num: "to_int (strtol10 (c_str (digits n))) = int n" if "n < 2 ^ 31" for n
    using that strtol10_digits [of n "[]"] no(3) by (simp add: c_str_id to_int_id)
  have f1: "str_find ?r ''-'' 0 = Some (length (digits a))"
    using str_find_char [of "CHR ''-''" "digits a" "[]"] no by simp
  have f2: "str_find ?r ''/'' (length (digits a) + 1) = Some (length (digits a) + 1 + length (digits b))"
    using str_find_char [of "CHR ''/''" "digits b" "digits a @ ''-''" "digits t"] no by simp
  have "ContentRange h = (True, int a, int b, int t)"
    if "HeaderField h KStringContentRange = Some (''bytes '' @ ?r)"
    unfolding ContentRange_def that option.case
    using st trim f1 f2 num assms by (simp add: substr_def)
  then show ?thesis by (simp add: ContentRange_def)
qed

theorem ContentRange_correct_witness:
  "ContentRange (HeaderFiled HeaderFields_empty ''content-range'' ''bytes 0-99/100'') = (True, 0, 99, 100)"
proof -
  let ?h = "HeaderFiled HeaderFields_empty ''content-range'' ''bytes 0-99/100''"
  have d: "digits 0 = ''0''" "digits 99 = ''99''" "digits 100 = ''100''" by code_simp+
  have "HeaderField ?h KStringContentRange
      = Some (''bytes '' @ digits 0 @ ''-'' @ digits 99 @ ''/'' @ digits 100)"
    by (simp add: HeaderField_def HeaderFiled_def HeaderFields_empty_def http_less_key ckey_def c_str_def
        KStringContentRange_def tolower_def isupper_def d)
  then show ?thesis using ContentRange_correct [of 0 99 100 ?h] by simp
qed

text \<open>
  A line without a colon is not ignored: the search for the colon yields \<^verbatim>\<open>npos\<close>, \<^verbatim>\<open>npos + 1\<close> wraps to 0, and
  the whole line becomes both the name and the value of a field.
\<close>

theorem parse_header_line_no_colon:
  assumes "line \<noteq> []" "CHR '':'' \<notin> set line" "length line < 2 ^ 63"
  shows "parse_header_line line h = HeaderFiled h (Trim line) (Trim line)"
proof -
  obtain c cs where l: "line = c # cs" using assms(1) by (cases line) auto
  have "find_first_not_of line KStringColon 0 = Some 0"
    using assms(2) l by (auto simp: find_first_not_of_def KStringColon_def find_upt_Some simp del: upt_Suc)
  moreover have "find_first_of line KStringColon 0 = None"
    using assms(2) by (auto simp: find_first_of_def KStringColon_def find_upt_None dest: nth_mem)
  ultimately show ?thesis
    using assms(1,3) by (simp add: parse_header_line_def npos_def to_size_def KStringColon_def substr_def
        HeaderFiled_def)
qed

theorem parse_header_line_no_colon_witness:
  "parse_header_line ''keep-alive'' HeaderFields_empty = \<lparr>hf_headers = [(''keep-alive'', ''keep-alive'')]\<rparr>"
  using parse_header_line_no_colon [of "''keep-alive''" HeaderFields_empty]
  by (simp add: HeaderFiled_def HeaderFields_empty_def Trim_def isspace_def c_str_def)

end
