(* ===== verification/Http_Builder.thy ===== *)
theory Http_Builder
  imports Http_Headers Auto_Buffer
begin

text \<open>
  Building an HTTP message (src/mars/comm/http.h, http.cc): the body providers and \<^verbatim>\<open>Builder\<close>. The
  builder holds pointers to providers; an object store maps the addresses of the live
  \<^verbatim>\<open>BufferBodyProvider\<close> objects to their buffer, and deleting one removes it from the store. A stream
  body is a user's class: its state and its two methods \<open>HaveData\<close> and \<open>Data\<close> are arguments of the
  definitions that call them.
\<close>

section \<open>Body providers\<close>

type_synonym addr = nat
type_synonym providers = "addr \<rightharpoonup> AutoBuffer"

text \<open>
  \<^verbatim>\<open>BufferBodyProvider\<close>: the object is its buffer. \<open>Data\<close> and \<open>FillData\<close> have the same body: they write
  the buffer into \<^verbatim>\<open>_body\<close> and empty it.
\<close>

definition BufferBodyProvider_FillData :: "AutoBuffer \<Rightarrow> AutoBuffer \<Rightarrow> (bool \<times> AutoBuffer \<times> AutoBuffer) result" where
  "BufferBodyProvider_FillData buffer body =
     (if ab_parray buffer = None then Inr (False, buffer, body)
      else rbind (Write_buf body buffer) (\<lambda>body'. Inr (True, Reset buffer, body')))"

definition BufferBodyProvider_Data :: "AutoBuffer \<Rightarrow> AutoBuffer \<Rightarrow> (bool \<times> AutoBuffer \<times> AutoBuffer) result" where
  "BufferBodyProvider_Data buffer body =
     (if ab_parray buffer = None then Inr (False, buffer, body)
      else rbind (Write_buf body buffer) (\<lambda>body'. Inr (True, Reset buffer, body')))"

definition BufferBodyProvider_Length :: "AutoBuffer \<Rightarrow> nat" where
  "BufferBodyProvider_Length buffer = Length buffer"

definition EofData :: string where
  "EofData = ''0'' @ KStringCRLF @ KStringCRLF"

definition AppendHeader :: "AutoBuffer \<Rightarrow> nat \<Rightarrow> AutoBuffer result" where
  "AppendHeader body n = Write body (bytes_of (hexdigits (to_uint (int n)) @ KStringCRLF))"

definition AppendTail :: "AutoBuffer \<Rightarrow> AutoBuffer result" where
  "AppendTail body = Write body (bytes_of KStringCRLF)"

section \<open>Builder\<close>

record Builder =
  bd_csmode :: TCsMode
  bd_statusline :: StatusLine
  bd_requestline :: RequestLine
  bd_headfields :: HeaderFields
  bd_blockbody :: "addr option"
  bd_streambody :: "addr option"
  bd_is_manage_body :: bool

definition Builder_new :: "TCsMode \<Rightarrow> Builder" where
  "Builder_new mode = \<lparr>bd_csmode = mode, bd_statusline = StatusLine_default,
     bd_requestline = RequestLine_default, bd_headfields = HeaderFields_empty,
     bd_blockbody = None, bd_streambody = None, bd_is_manage_body = False\<rparr>"

text \<open>The destructor: the addresses it deletes.\<close>

definition Builder_delete :: "Builder \<Rightarrow> addr list" where
  "Builder_delete b =
     (if bd_is_manage_body b then
        (case bd_blockbody b of None \<Rightarrow> [] | Some p \<Rightarrow> [p])
        @ (case bd_streambody b of None \<Rightarrow> [] | Some p \<Rightarrow> [p])
      else [])"

text \<open>The setters of the body: the builder and the addresses they delete.\<close>

definition Builder_BlockBody :: "Builder \<Rightarrow> addr option \<Rightarrow> bool \<Rightarrow> Builder \<times> addr list" where
  "Builder_BlockBody b body manage =
     (if bd_streambody b \<noteq> None then (b, [])
      else
        (b\<lparr>bd_blockbody := body, bd_is_manage_body := manage\<rparr>,
         case bd_blockbody b of None \<Rightarrow> [] | Some p \<Rightarrow> if manage then [p] else []))"

definition Builder_StreamBody :: "Builder \<Rightarrow> addr option \<Rightarrow> bool \<Rightarrow> Builder \<times> addr list" where
  "Builder_StreamBody b body manage =
     (if bd_blockbody b \<noteq> None then (b, [])
      else
        (b\<lparr>bd_streambody := body, bd_is_manage_body := manage\<rparr>,
         case bd_streambody b of None \<Rightarrow> [] | Some p \<Rightarrow> if manage then [p] else []))"

definition HeaderToBuffer :: "Builder \<Rightarrow> AutoBuffer \<Rightarrow> (bool \<times> AutoBuffer) result" where
  "HeaderToBuffer b header =
     rbind (if bd_csmode b = kRequest then RequestLine_ToString (bd_requestline b)
            else Inr (StatusLine_ToString (bd_statusline b))) (\<lambda>firstline.
       if firstline = [] then Inr (False, header)
       else
         let strheaders = HeaderFields_ToString (bd_headfields b) in
         if strheaders = [] then Inr (False, header)
         else
           rbind (Write header (bytes_of firstline)) (\<lambda>h1.
           rbind (Write h1 (bytes_of strheaders)) (\<lambda>h2.
           rbind (Write h2 (bytes_of KStringCRLF)) (\<lambda>h3. Inr (True, h3)))))"

text \<open>
  \<^verbatim>\<open>HttpToBuffer\<close>: \<open>objs\<close> are the block providers, \<open>st\<close> the state of the stream provider with its methods
  \<open>have_data\<close> and \<open>data\<close>. The pairs that \<^verbatim>\<open>MakeContentLength\<close> and \<^verbatim>\<open>MakeTransferEncodingChunked\<close> return
  are discarded by the source, so they leave no trace here.
\<close>

definition HttpToBuffer ::
  "('s \<Rightarrow> bool) \<Rightarrow> ('s \<Rightarrow> AutoBuffer \<Rightarrow> (bool \<times> 's \<times> AutoBuffer) result)
    \<Rightarrow> Builder \<Rightarrow> providers \<Rightarrow> 's \<Rightarrow> AutoBuffer \<Rightarrow> (bool \<times> providers \<times> 's \<times> AutoBuffer) result" where
  "HttpToBuffer have_data data b objs st http =
     (case bd_blockbody b of
        Some p \<Rightarrow>
          (case objs p of
             None \<Rightarrow> Inl Use_After_Free
           | Some body \<Rightarrow>
               if BufferBodyProvider_Length body > 0 then
                 rbind (HeaderToBuffer b http) (\<lambda>(ok, http1).
                   if \<not> ok then Inr (False, objs, st, http1)
                   else
                     rbind (BufferBodyProvider_FillData body http1) (\<lambda>(ok2, body', http2).
                       Inr (ok2, objs(p \<mapsto> body'), st, http2)))
               else Inr (True, objs, st, http))
      | None \<Rightarrow>
          (case bd_streambody b of
             Some p \<Rightarrow>
               rbind (HeaderToBuffer b http) (\<lambda>(ok, http1).
                 if \<not> ok then Inr (False, objs, st, http1)
                 else if have_data st then
                   rbind (data st http1) (\<lambda>(ok2, st', http2). Inr (ok2, objs, st', http2))
                 else Inr (True, objs, st, http1))
           | None \<Rightarrow> rbind (HeaderToBuffer b http) (\<lambda>(ok, http1). Inr (ok, objs, st, http1))))"

section \<open>What a builder writes\<close>

definition head_text :: "Builder \<Rightarrow> string result" where
  "head_text b =
     rbind (if bd_csmode b = kRequest then RequestLine_ToString (bd_requestline b)
            else Inr (StatusLine_ToString (bd_statusline b))) (\<lambda>firstline.
       Inr (firstline @ HeaderFields_ToString (bd_headfields b) @ KStringCRLF))"

lemma firstline_nonempty:
  "RequestLine_ToString r = Inr s \<Longrightarrow> s \<noteq> []" "StatusLine_ToString l \<noteq> []"
  by (auto simp: RequestLine_ToString_def rbind_eq_Inr_iff StatusLine_ToString_def KStringCRLF_def)

lemma HeaderFields_ToString_Nil: "HeaderFields_ToString h = [] \<longleftrightarrow> hf_headers h = []"
  by (cases "hf_headers h") (auto simp: HeaderFields_ToString_def KStringCRLF_def)

lemma HeaderToBuffer_ok:
  assumes "sink_ok http" "head_text b = Inr t" "hf_headers (bd_headfields b) \<noteq> []"
    "length t \<le> sink_room http"
  shows "\<exists>http'. HeaderToBuffer b http = Inr (True, http') \<and> sink_ok http'
    \<and> written http' = written http @ bytes_of t \<and> sink_room http' = sink_room http - length t"
proof -
  obtain f where f: "(if bd_csmode b = kRequest then RequestLine_ToString (bd_requestline b)
      else Inr (StatusLine_ToString (bd_statusline b))) = Inr f"
    and t: "t = f @ HeaderFields_ToString (bd_headfields b) @ KStringCRLF"
    using assms(2) by (auto simp: head_text_def rbind_eq_Inr_iff)
  have ne: "f \<noteq> []" using f firstline_nonempty by (auto split: if_splits)
  obtain e where "rbind (Write http (bytes_of f)) (\<lambda>c. rbind (Write c (bytes_of (HeaderFields_ToString (bd_headfields b))))
      (\<lambda>e. Write e (bytes_of KStringCRLF))) = Inr e" "sink_ok e" "written e = written http @ bytes_of t"
      "sink_room e = sink_room http - length t"
    using ab.put_three_ok [OF assms(1), of "bytes_of f" "bytes_of (HeaderFields_ToString (bd_headfields b))"
        "bytes_of KStringCRLF"] assms(4) t by (auto simp: add.assoc)
  then show ?thesis
    using f ne assms(3) by (auto simp: HeaderToBuffer_def HeaderFields_ToString_Nil rbind_eq_Inr_iff Let_def)
qed

lemma HttpToBuffer_writes:
  assumes "bd_blockbody b = Some p" "objs p = Some body" "wf_buf body" "content body \<noteq> []"
    "head_text b = Inr t" "hf_headers (bd_headfields b) \<noteq> []"
    "sink_ok http" "length t + length (content body) \<le> sink_room http"
  shows "\<exists>http'. HttpToBuffer have_data data b objs st http = Inr (True, objs(p \<mapsto> Reset body), st, http')
    \<and> sink_ok http' \<and> written http' = written http @ bytes_of t @ content body"
proof -
  have L: "length (content body) = ab_length body" using length_content [OF assms(3)] .
  obtain h1 where h1: "HeaderToBuffer b http = Inr (True, h1)" "sink_ok h1"
      "written h1 = written http @ bytes_of t" "sink_room h1 = sink_room http - length t"
    using HeaderToBuffer_ok [OF assms(7,5,6)] assms(8) by auto
  have "Ptr_bytes body 0 (Length body) = Inr (content body)"
    using Ptr_bytes_content [OF assms(3), of 0 "Length body"] L by (simp add: Length_def)
  moreover have "length (content body) \<le> sink_room h1" using h1(4) assms(8) by linarith
  then obtain h2 where h2: "Write h1 (content body) = Inr h2" "sink_ok h2"
      "written h2 = written h1 @ content body"
    using ab.put_ok [OF h1(2)] by blast
  ultimately have "Write_buf h1 body = Inr h2" by (simp add: Write_buf_def)
  moreover have "ab_parray body \<noteq> None"
    using assms(4) by (auto simp: content_def ab_block_def split: option.splits)
  moreover have "0 < ab_length body" using assms(4) L by (metis length_greater_0_conv)
  ultimately show ?thesis
    using h1 h2 assms(1,2)
    by (auto simp: HttpToBuffer_def BufferBodyProvider_Length_def Length_def BufferBodyProvider_FillData_def)
qed

text \<open>
  \<open>HttpToBuffer\<close> with a non-empty block body writes the first line, the header fields as they were set, the
  empty line and the body, and empties the provider. In particular no \<^verbatim>\<open>Content-Length\<close> is added: the pair
  that \<open>MakeContentLength\<close> returns is dropped, so a message built without an explicit field does not
  announce its length.
\<close>

theorem HttpToBuffer_block:
  assumes "bd_blockbody b = Some p" "objs p = Some body" "wf_buf body" "content body \<noteq> []"
    "head_text b = Inr t" "hf_headers (bd_headfields b) \<noteq> []"
    "sink_ok http" "length t + length (content body) \<le> sink_room http"
  shows "\<exists>http'. HttpToBuffer have_data data b objs st http = Inr (True, objs(p \<mapsto> Reset body), st, http')
    \<and> sink_ok http' \<and> written http' = written http @ bytes_of t @ content body"
  using assms by (rule HttpToBuffer_writes)

definition ex_builder :: Builder where
  "ex_builder = (Builder_new kRequest)\<lparr>bd_requestline := RequestLine_new kPost ''/'' kVersion_1_1,
     bd_headfields := HeaderFiled HeaderFields_empty ''Host'' ''a'', bd_blockbody := Some 7\<rparr>"

definition ex_body :: AutoBuffer where
  "ex_body = \<lparr>ab_parray = Some [104, 105], ab_pos = 2, ab_length = 2, ab_capacity = 2, ab_malloc_unitsize = 128\<rparr>"

lemma sink_ok_new: "sink_ok (AutoBuffer_new 128)" "sink_room (AutoBuffer_new 128) = 2 ^ 62 - 1"
  by (simp_all add: sink_ok_def sink_room_def wf_buf_new)

theorem HttpToBuffer_block_witness:
  "\<exists>http'. HttpToBuffer (\<lambda>_. False) (\<lambda>s b. Inr (False, s, b)) ex_builder [7 \<mapsto> ex_body] () (AutoBuffer_new 128)
      = Inr (True, [7 \<mapsto> Reset ex_body], (), http') \<and> sink_ok http'
    \<and> written http' = bytes_of (''POST / HTTP/1.1'' @ KStringCRLF @ ''Host: a'' @ KStringCRLF @ KStringCRLF @ ''hi'')"
proof -
  let ?t = "''POST / HTTP/1.1'' @ KStringCRLF @ ''Host: a'' @ KStringCRLF @ KStringCRLF"
  have t: "head_text ex_builder = Inr ?t"
    by (simp add: head_text_def ex_builder_def Builder_new_def RequestLine_ToString_def RequestLine_new_def
        kHttpMethodString_def kHttpVersionString_def KStringSpace_def KStringColon_def HeaderFields_ToString_def HeaderFiled_def
        HeaderFields_empty_def c_str_def)
  have b: "wf_buf ex_body" "content ex_body = [104, 105]" "bytes_of ''hi'' = [104, 105]"
    by (simp_all add: ex_body_def wf_buf_def ab_block_def content_def PTRDIFF_MAX_def byte_of_def)
  have e: "bd_blockbody ex_builder = Some 7" "hf_headers (bd_headfields ex_builder) \<noteq> []"
    by (simp_all add: ex_builder_def HeaderFiled_def HeaderFields_empty_def)
  have l: "length ?t + length (content ex_body) \<le> sink_room (AutoBuffer_new 128)"
    by (simp add: b sink_ok_new KStringCRLF_def)
  from HttpToBuffer_block [OF e(1) _ b(1) _ t e(2) sink_ok_new(1) l, of "[7 \<mapsto> ex_body]"] b(2,3)
  show ?thesis by (fastforce simp del: byte_of_def)
qed

text \<open>
  \<open>BlockBody\<close> decides by the flag of the new body whether to delete the old one: a body the builder does not
  manage is deleted when a managed one replaces it, and the managed one is lost without being deleted
  when an unmanaged one replaces it.
\<close>

theorem Builder_BlockBody_ownership:
  "(let (b1, d1) = Builder_BlockBody (Builder_new mode) (Some p) False; (b2, d2) = Builder_BlockBody b1 (Some q) True
    in d1 @ d2 = [p] \<and> Builder_delete b2 = [q])
   \<and> (let (b1, d1) = Builder_BlockBody (Builder_new mode) (Some p) True; (b2, d2) = Builder_BlockBody b1 (Some q) False
      in d1 @ d2 @ Builder_delete b2 = [])"
  by (simp add: Builder_BlockBody_def Builder_new_def Builder_delete_def)

end
