(* ===== verification/Http_Parser.thy ===== *)
theory Http_Parser
  imports Http_Builder
begin

text \<open>
  The incremental HTTP parser (\<^verbatim>\<open>Parser\<close>, \<^verbatim>\<open>BodyReceiver\<close>, \<^verbatim>\<open>MemoryBodyReceiver\<close> and \<^verbatim>\<open>string_strnstr\<close> of
  src/mars/comm/http.h and http.cc). One pass of the \<^verbatim>\<open>while (true)\<close> loop of \<^verbatim>\<open>Recv\<close> is a step that says
  whether the loop returns or goes on; the loop itself is a partial function, \<open>None\<close> when it never
  returns. Searches run over the memory of the buffer from the given pointer to the end of the
  allocated block, so a search that is given too large a length is seen to leave the valid bytes,
  and is \<open>Inl Out_Of_Bounds\<close> when it leaves the block.
\<close>

section \<open>Searching a buffer\<close>

definition strnlen_mem :: "string \<Rightarrow> nat \<Rightarrow> nat result" where
  "strnlen_mem mem n =
     (let k = length (takeWhile (\<lambda>c. c \<noteq> CHR 0x00) mem) in
      if n \<le> k then Inr n else if k < length mem then Inr k else Inl Out_Of_Bounds)"

text \<open>The loop of \<^verbatim>\<open>string_strnstr\<close>: \<open>pos1\<close> characters are left at offset \<open>src\<close>.\<close>

fun strnstr_loop :: "string \<Rightarrow> string \<Rightarrow> nat \<Rightarrow> nat \<Rightarrow> nat option" where
  "strnstr_loop mem sfind src 0 = None"
| "strnstr_loop mem sfind src (Suc pos1) =
     (if Suc pos1 < length sfind then None
      else if take (length sfind) (drop src mem) = sfind then Some src
      else strnstr_loop mem sfind (Suc src) pos1)"

definition string_strnstr :: "string option \<Rightarrow> string \<Rightarrow> int \<Rightarrow> nat option result" where
  "string_strnstr src sfind pos1 =
     (case src of
        None \<Rightarrow> Inr None
      | Some mem \<Rightarrow>
          if sfind = [] then Inr (Some 0)
          else
            rbind (strnlen_mem mem (to_size pos1)) (\<lambda>n.
              let l1 = to_int (int n);
                  pos1' = (if pos1 > l1 then l1 else pos1)
              in Inr (strnstr_loop mem sfind 0 (nat pos1'))))"

text \<open>The memory at \<^verbatim>\<open>Ptr()\<close> plus an offset, to the end of the block.\<close>

definition ptr_mem :: "AutoBuffer \<Rightarrow> nat \<Rightarrow> string option" where
  "ptr_mem b off = map_option (\<lambda>a. chars (drop off a)) (ab_parray b)"

definition KStringCRLFCRLF :: string where
  "KStringCRLFCRLF = KStringCRLF @ KStringCRLF"

section \<open>Body receivers\<close>

text \<open>
  \<open>br_body\<close> is \<open>None\<close> for the base class, which only counts, and the referenced buffer for a
  \<^verbatim>\<open>MemoryBodyReceiver\<close>. \<open>AppendData r src off n\<close> receives \<open>n\<close> bytes at offset \<open>off\<close> of the buffer
  \<open>src\<close>; the base class does not look at them.
\<close>

record BodyReceiver =
  br_total_length :: nat
  br_body :: "AutoBuffer option"

definition BodyReceiver_new :: BodyReceiver where
  "BodyReceiver_new = \<lparr>br_total_length = 0, br_body = None\<rparr>"

definition MemoryBodyReceiver_new :: "AutoBuffer \<Rightarrow> BodyReceiver" where
  "MemoryBodyReceiver_new buf = \<lparr>br_total_length = 0, br_body = Some buf\<rparr>"

definition AppendData :: "BodyReceiver \<Rightarrow> AutoBuffer \<Rightarrow> int \<Rightarrow> nat \<Rightarrow> BodyReceiver result" where
  "AppendData r src off n =
     (let r' = r\<lparr>br_total_length := to_size (int (br_total_length r) + int n)\<rparr> in
      case br_body r of
        None \<Rightarrow> Inr r'
      | Some body \<Rightarrow>
          rbind (Ptr_bytes src off n) (\<lambda>d.
          rbind (Write body d) (\<lambda>body'. Inr (r'\<lparr>br_body := Some body'\<rparr>))))"

definition EndData :: "BodyReceiver \<Rightarrow> BodyReceiver" where
  "EndData r = r"

definition BodyReceiver_Length :: "BodyReceiver \<Rightarrow> nat" where
  "BodyReceiver_Length r = br_total_length r"

section \<open>The parser\<close>

datatype TRecvStatus =
  kStart | kFirstLine | kFirstLineError | kHeaderFields | kHeaderFieldsError | kBody | kBodyError | kEnd

fun status_num :: "TRecvStatus \<Rightarrow> nat" where
  "status_num kStart = 0"
| "status_num kFirstLine = 1"
| "status_num kFirstLineError = 2"
| "status_num kHeaderFields = 3"
| "status_num kHeaderFieldsError = 4"
| "status_num kBody = 5"
| "status_num kBodyError = 6"
| "status_num kEnd = 7"

lemma status_num_inj: "status_num a = status_num b \<Longrightarrow> a = b"
  by (cases a; cases b) simp_all

instantiation TRecvStatus :: linorder
begin

definition less_eq_TRecvStatus :: "TRecvStatus \<Rightarrow> TRecvStatus \<Rightarrow> bool" where
  "less_eq_TRecvStatus a b \<longleftrightarrow> status_num a \<le> status_num b"

definition less_TRecvStatus :: "TRecvStatus \<Rightarrow> TRecvStatus \<Rightarrow> bool" where
  "less_TRecvStatus a b \<longleftrightarrow> status_num a < status_num b"

instance
  by standard (auto simp: less_eq_TRecvStatus_def less_TRecvStatus_def intro: status_num_inj)

end

record Parser =
  ps_recvstatus :: TRecvStatus
  ps_recvbuf :: AutoBuffer
  ps_headerbuf :: AutoBuffer
  ps_response_header_ready :: bool
  ps_csmode :: TCsMode
  ps_statusline :: StatusLine
  ps_requestline :: RequestLine
  ps_headfields :: HeaderFields
  ps_bodyreceiver :: "BodyReceiver option"
  ps_is_manage_body :: bool
  ps_headerlength :: nat

definition Parser_new :: "BodyReceiver option \<Rightarrow> bool \<Rightarrow> Parser" where
  "Parser_new body manage = \<lparr>ps_recvstatus = kStart, ps_recvbuf = AutoBuffer_new 128,
     ps_headerbuf = AutoBuffer_new 128, ps_response_header_ready = False, ps_csmode = kRespond,
     ps_statusline = StatusLine_default, ps_requestline = RequestLine_default,
     ps_headfields = HeaderFields_empty, ps_bodyreceiver = body, ps_is_manage_body = manage,
     ps_headerlength = 0\<rparr>"

text \<open>
  The copy of the head of the message at the start of \<^verbatim>\<open>Recv\<close>: at most 4096 bytes of each call until the
  empty line has been seen.
\<close>

definition Recv_header_copy :: "Parser \<Rightarrow> bytes \<Rightarrow> Parser result" where
  "Recv_header_copy p d =
     (if ps_recvstatus p < kBody \<and> Length (ps_headerbuf p) < 4096 \<and> \<not> ps_response_header_ready p then
        rbind (Write (ps_headerbuf p) (take (min (length d) 4096) d)) (\<lambda>hb.
          if Length hb > 4 then
            rbind (string_strnstr (ptr_mem hb 0) KStringCRLFCRLF (to_int (int (Length hb)))) (\<lambda>pos.
              Inr (case pos of
                     None \<Rightarrow> p\<lparr>ps_headerbuf := hb\<rparr>
                   | Some i \<Rightarrow> p\<lparr>ps_headerbuf := Length_set hb 0 (i + 4), ps_response_header_ready := True\<rparr>))
          else Inr (p\<lparr>ps_headerbuf := hb\<rparr>))
      else Inr p)"

text \<open>The choice between a status line and a request line: success, and the three fields it may set.\<close>

definition parse_first_line ::
  "TCsMode \<Rightarrow> StatusLine \<Rightarrow> RequestLine \<Rightarrow> string \<Rightarrow> bool \<times> TCsMode \<times> StatusLine \<times> RequestLine" where
  "parse_first_line mode sl rl firstline =
     (if StartsWith firstline ''HTTP/'' then
        (case StatusLine_FromString sl firstline of
           (ok, sl') \<Rightarrow> (ok, if ok then kRespond else mode, sl', rl))
      else
        (case RequestLine_FromString rl firstline of
           (ok, rl') \<Rightarrow> (ok, if ok then kRequest else mode, sl, rl')))"

datatype flow = Return | Continue

text \<open>\<^verbatim>\<open>case kStart: case kFirstLine:\<close>\<close>

definition Recv_first_line :: "Parser \<Rightarrow> (flow \<times> Parser) result" where
  "Recv_first_line p =
     (let buf = ps_recvbuf p; len = Length buf in
      rbind (string_strnstr (ptr_mem buf 0) KStringCRLF (to_int (int len))) (\<lambda>pos.
        case pos of
          None \<Rightarrow>
            if 8 * 1024 < len then Inr (Return, p\<lparr>ps_recvstatus := kFirstLineError\<rparr>)
            else Inr (Return, p\<lparr>ps_recvstatus := kFirstLine\<rparr>)
        | Some i \<Rightarrow>
            let firstlinelength = i + 2 in
            rbind (Ptr_bytes buf 0 firstlinelength) (\<lambda>line.
              case parse_first_line (ps_csmode p) (ps_statusline p) (ps_requestline p) (chars line) of
                (ok, mode, sl, rl) \<Rightarrow>
                  let p1 = p\<lparr>ps_csmode := mode, ps_statusline := sl, ps_requestline := rl\<rparr> in
                  if \<not> ok then Inr (Return, p1\<lparr>ps_recvstatus := kFirstLineError\<rparr>)
                  else
                    rbind (Write (ps_headerbuf p1) line) (\<lambda>hb.
                    rbind (string_strnstr (ptr_mem buf 0) KStringCRLFCRLF (to_int (int len))) (\<lambda>pos2.
                      if pos2 = Some i then
                        rbind (Move buf (- (int firstlinelength + 2))) (\<lambda>buf'.
                          Inr (Continue, p1\<lparr>ps_headerbuf := hb, ps_recvstatus := kBody, ps_recvbuf := buf'\<rparr>))
                      else
                        rbind (Move buf (- int firstlinelength)) (\<lambda>buf'.
                          Inr (Continue, p1\<lparr>ps_headerbuf := hb, ps_recvstatus := kHeaderFields, ps_recvbuf := buf'\<rparr>)))))))"

text \<open>\<^verbatim>\<open>case kHeaderFields:\<close>\<close>

definition Recv_header_fields :: "Parser \<Rightarrow> (flow \<times> Parser) result" where
  "Recv_header_fields p =
     (let buf = ps_recvbuf p; len = Length buf in
      rbind (string_strnstr (ptr_mem buf 0) KStringCRLFCRLF (to_int (int len))) (\<lambda>pos.
        case pos of
          None \<Rightarrow>
            if 128 * 1024 < len then Inr (Return, p\<lparr>ps_recvstatus := kHeaderFieldsError\<rparr>)
            else Inr (Return, p)
        | Some i \<Rightarrow>
            let headerslength = i + 4 in
            rbind (Ptr_bytes buf 0 headerslength) (\<lambda>headers.
              case ParserHeaders (chars headers) (ps_headfields p) of
                (ret, h) \<Rightarrow>
                  let p1 = p\<lparr>ps_headfields := h\<rparr> in
                  if \<not> ret then Inr (Return, p1\<lparr>ps_recvstatus := kHeaderFieldsError\<rparr>)
                  else
                    rbind (Write (ps_headerbuf p1) headers) (\<lambda>hb.
                    rbind (Move buf (- int headerslength)) (\<lambda>buf'.
                      Inr (Continue, p1\<lparr>ps_recvstatus := kBody, ps_headerbuf := hb, ps_recvbuf := buf'\<rparr>))))))"

section \<open>The body\<close>

text \<open>
  One pass over the body with a receiver, for the buffer \<open>b\<close> that is being consumed; \<open>checked\<close> is the
  length the test before the trailer of the last chunk looks at. The result is the flow (\<open>Return\<close> for the
  early returns), the status, the receiver and the rest of the buffer.
\<close>

definition body_chunk ::
  "TRecvStatus \<Rightarrow> BodyReceiver \<Rightarrow> AutoBuffer \<Rightarrow> nat \<Rightarrow> (flow \<times> TRecvStatus \<times> BodyReceiver \<times> AutoBuffer) result" where
  "body_chunk status r b checked =
     rbind (string_strnstr (ptr_mem b 0) KStringCRLF (to_int (int (Length b)))) (\<lambda>chunkSizeEnd.
       case chunkSizeEnd of
         None \<Rightarrow> Inr (Return, status, r, b)
       | Some sizeLen \<Rightarrow>
           rbind (Ptr_bytes b 0 sizeLen) (\<lambda>sz.
             let chunkSize = strtol16 (c_str (Trim (chars sz))) in
             if chunkSize \<noteq> 0 then
               if int (Length b) < to_off (chunkSize + int sizeLen + 4) then Inr (Return, status, r, b)
               else
                 let chunkBegin = int sizeLen + 2; chunkEnd = chunkBegin + chunkSize in
                 rbind (Ptr_bytes b chunkEnd 1) (\<lambda>c1.
                   if c1 \<noteq> [13] then Inr (Return, kBodyError, r, b)
                   else
                     rbind (Ptr_bytes b (chunkEnd + 1) 1) (\<lambda>c2.
                       if c2 \<noteq> [10] then Inr (Return, kBodyError, r, b)
                       else
                         rbind (AppendData r b chunkBegin (to_size chunkSize)) (\<lambda>r'.
                         rbind (Move b (- (chunkEnd + 2))) (\<lambda>b'. Inr (Continue, status, r', b')))))
             else if checked < to_uint (int sizeLen + 4) then Inr (Return, status, r, b)
             else
               rbind (string_strnstr (ptr_mem b (sizeLen + 2)) KStringCRLF (to_int (int (Length b)))) (\<lambda>trailerEnd.
                 case trailerEnd of
                   None \<Rightarrow> Inr (Return, status, r, b)
                 | Some t \<Rightarrow>
                     rbind (Move b (- (int (sizeLen + 2 + t) + 2))) (\<lambda>b'.
                       Inr (Continue, kEnd, EndData r, b')))))"

definition body_length ::
  "HeaderFields \<Rightarrow> TRecvStatus \<Rightarrow> BodyReceiver \<Rightarrow> AutoBuffer \<Rightarrow> (flow \<times> TRecvStatus \<times> BodyReceiver \<times> AutoBuffer) result" where
  "body_length h status r b =
     (let contentLength = ContentLength h;
          appendlen = (if to_int (int (Length b) + int (BodyReceiver_Length r)) \<le> contentLength
                       then to_int (int (Length b))
                       else to_int (contentLength - to_int (int (BodyReceiver_Length r))))
      in rbind (AppendData r b 0 (to_size appendlen)) (\<lambda>r'.
         rbind (Move b (- appendlen)) (\<lambda>b'.
           if to_int (int (BodyReceiver_Length r')) = contentLength then Inr (Return, kEnd, EndData r', b')
           else Inr (Continue, status, r', b'))))"

definition recv_body ::
  "HeaderFields \<Rightarrow> TRecvStatus \<Rightarrow> BodyReceiver \<Rightarrow> AutoBuffer \<Rightarrow> nat
    \<Rightarrow> (flow \<times> TRecvStatus \<times> BodyReceiver \<times> AutoBuffer) result" where
  "recv_body h status r b checked =
     (if IsTransferEncodingChunked h then body_chunk status r b checked else body_length h status r b)"

text \<open>\<^verbatim>\<open>case kBody:\<close>\<close>

definition Recv_body :: "Parser \<Rightarrow> (flow \<times> Parser) result" where
  "Recv_body p =
     rbind (case ps_bodyreceiver p of
              None \<Rightarrow> Inr (Continue, p)
            | Some r \<Rightarrow>
                rbind (recv_body (ps_headfields p) (ps_recvstatus p) r (ps_recvbuf p) (Length (ps_recvbuf p)))
                  (\<lambda>(fl, st, r', b'). Inr (fl, p\<lparr>ps_recvstatus := st, ps_bodyreceiver := Some r', ps_recvbuf := b'\<rparr>)))
       (\<lambda>(fl, p'). Inr (if fl = Return \<or> Length (ps_recvbuf p') = 0 then Return else Continue, p'))"

section \<open>Recv on a block of bytes\<close>

definition Recv_step :: "Parser \<Rightarrow> (flow \<times> Parser) result" where
  "Recv_step p =
     (case ps_recvstatus p of
        kStart \<Rightarrow> Recv_first_line p
      | kFirstLine \<Rightarrow> Recv_first_line p
      | kHeaderFields \<Rightarrow> Recv_header_fields p
      | kBody \<Rightarrow> Recv_body p
      | kEnd \<Rightarrow> Inr (Return, p)
      | _ \<Rightarrow> Inr (Continue, p))"

partial_function (option) Recv_loop :: "Parser \<Rightarrow> Parser result option" where
  "Recv_loop p =
     (case Recv_step p of
        Inl e \<Rightarrow> Some (Inl e)
      | Inr (fl, p') \<Rightarrow> (case fl of Return \<Rightarrow> Some (Inr p') | Continue \<Rightarrow> Recv_loop p'))"

declare Recv_loop.simps [code]

definition Recv :: "Parser \<Rightarrow> bytes \<Rightarrow> Parser result option" where
  "Recv p d =
     (if d = [] then Some (Inr p)
      else
        case rbind (Recv_header_copy p d) (\<lambda>p1.
               rbind (Write (ps_recvbuf p1) d) (\<lambda>buf. Inr (p1\<lparr>ps_recvbuf := buf\<rparr>))) of
          Inl e \<Rightarrow> Some (Inl e)
        | Inr p2 \<Rightarrow> Recv_loop p2)"

section \<open>Recv on a buffer of the caller\<close>

definition RecvBuf_first_line :: "Parser \<Rightarrow> AutoBuffer \<Rightarrow> (flow \<times> Parser \<times> AutoBuffer) result" where
  "RecvBuf_first_line p buf =
     (let len = Length buf in
      rbind (string_strnstr (ptr_mem buf 0) KStringCRLF (to_int (int len))) (\<lambda>pos.
        case pos of
          None \<Rightarrow>
            if 8 * 1024 < len then Inr (Return, p\<lparr>ps_recvstatus := kFirstLineError\<rparr>, buf)
            else Inr (Return, p\<lparr>ps_recvstatus := kFirstLine\<rparr>, buf)
        | Some i \<Rightarrow>
            let firstlinelength = i + 2 in
            rbind (Ptr_bytes buf 0 firstlinelength) (\<lambda>line.
              case parse_first_line (ps_csmode p) (ps_statusline p) (ps_requestline p) (chars line) of
                (ok, mode, sl, rl) \<Rightarrow>
                  let p1 = p\<lparr>ps_csmode := mode, ps_statusline := sl, ps_requestline := rl\<rparr> in
                  if \<not> ok then Inr (Return, p1\<lparr>ps_recvstatus := kFirstLineError\<rparr>, buf)
                  else
                    rbind (Move buf (- int firstlinelength)) (\<lambda>buf'.
                      Inr (Continue, p1\<lparr>ps_recvstatus := kHeaderFields\<rparr>, buf')))))"

definition RecvBuf_header_fields :: "Parser \<Rightarrow> AutoBuffer \<Rightarrow> (flow \<times> Parser \<times> AutoBuffer) result" where
  "RecvBuf_header_fields p buf =
     (let len = Length buf in
      rbind (string_strnstr (ptr_mem buf 0) KStringCRLFCRLF (to_int (int len))) (\<lambda>pos.
        case pos of
          None \<Rightarrow>
            if 128 * 1024 < len then Inr (Return, p\<lparr>ps_recvstatus := kHeaderFieldsError\<rparr>, buf)
            else Inr (Return, p, buf)
        | Some i \<Rightarrow>
            let headerslength = i + 4 in
            rbind (Ptr_bytes buf 0 headerslength) (\<lambda>headers.
              case ParserHeaders (chars headers) (ps_headfields p) of
                (ret, h) \<Rightarrow>
                  let p1 = p\<lparr>ps_headfields := h\<rparr> in
                  if \<not> ret then Inr (Return, p1\<lparr>ps_recvstatus := kHeaderFieldsError\<rparr>, buf)
                  else
                    rbind (Move buf (- int headerslength)) (\<lambda>buf'.
                      Inr (Continue, p1\<lparr>ps_recvstatus := kBody, ps_headerlength := headerslength\<rparr>, buf')))))"

definition RecvBuf_body :: "Parser \<Rightarrow> AutoBuffer \<Rightarrow> (flow \<times> Parser \<times> AutoBuffer) result" where
  "RecvBuf_body p buf =
     rbind (case ps_bodyreceiver p of
              None \<Rightarrow> Inr (Continue, p, buf)
            | Some r \<Rightarrow>
                rbind (recv_body (ps_headfields p) (ps_recvstatus p) r buf (Length (ps_recvbuf p)))
                  (\<lambda>(fl, st, r', b'). Inr (fl, p\<lparr>ps_recvstatus := st, ps_bodyreceiver := Some r'\<rparr>, b')))
       (\<lambda>(fl, p', buf'). Inr (if fl = Return \<or> Length buf' = 0 then Return else Continue, p', buf'))"

definition RecvBuf_step :: "Parser \<Rightarrow> AutoBuffer \<Rightarrow> (flow \<times> Parser \<times> AutoBuffer) result" where
  "RecvBuf_step p buf =
     (case ps_recvstatus p of
        kStart \<Rightarrow> RecvBuf_first_line p buf
      | kFirstLine \<Rightarrow> RecvBuf_first_line p buf
      | kHeaderFields \<Rightarrow> RecvBuf_header_fields p buf
      | kBody \<Rightarrow> RecvBuf_body p buf
      | kEnd \<Rightarrow> Inr (Return, p, buf)
      | _ \<Rightarrow> Inr (Continue, p, buf))"

partial_function (option) RecvBuf_loop :: "Parser \<Rightarrow> AutoBuffer \<Rightarrow> (Parser \<times> AutoBuffer) result option" where
  "RecvBuf_loop p buf =
     (case RecvBuf_step p buf of
        Inl e \<Rightarrow> Some (Inl e)
      | Inr (fl, p', buf') \<Rightarrow> (case fl of Return \<Rightarrow> Some (Inr (p', buf')) | Continue \<Rightarrow> RecvBuf_loop p' buf'))"

declare RecvBuf_loop.simps [code]

definition RecvBuf :: "Parser \<Rightarrow> AutoBuffer \<Rightarrow> (Parser \<times> AutoBuffer) result option" where
  "RecvBuf p buf =
     (if ab_parray buf = None \<or> Length buf = 0 then Some (Inr (p, buf))
      else
        case rbind (Ptr_bytes buf 0 (min (Length buf) 4096)) (\<lambda>d. Recv_header_copy p d) of
          Inl e \<Rightarrow> Some (Inl e)
        | Inr p1 \<Rightarrow> RecvBuf_loop p1 buf)"

section \<open>Queries\<close>

definition FirstLineReady :: "Parser \<Rightarrow> bool" where
  "FirstLineReady p \<longleftrightarrow> kFirstLineError < ps_recvstatus p"

definition FieldsReady :: "Parser \<Rightarrow> bool" where
  "FieldsReady p \<longleftrightarrow> kHeaderFieldsError < ps_recvstatus p"

definition BodyReady :: "Parser \<Rightarrow> bool" where
  "BodyReady p \<longleftrightarrow> kBodyError < ps_recvstatus p"

definition BodyRecving :: "Parser \<Rightarrow> bool" where
  "BodyRecving p \<longleftrightarrow> kBody = ps_recvstatus p"

definition Parser_Error :: "Parser \<Rightarrow> bool" where
  "Parser_Error p \<longleftrightarrow> kFirstLineError = ps_recvstatus p \<or> kHeaderFieldsError = ps_recvstatus p
     \<or> kBodyError = ps_recvstatus p"

definition Success :: "Parser \<Rightarrow> bool" where
  "Success p \<longleftrightarrow> kEnd = ps_recvstatus p"

text \<open>The destructor: whether it deletes the receiver.\<close>

definition Parser_delete :: "Parser \<Rightarrow> bool" where
  "Parser_delete p \<longleftrightarrow> ps_is_manage_body p \<and> ps_bodyreceiver p \<noteq> None"

end
