(* ===== verification/Http_Search.thy ===== *)
theory Http_Search
  imports Http_Parser
begin

text \<open>
  The searches of the parser on the valid bytes of a buffer: what \<^verbatim>\<open>string_strnstr\<close> finds is what
  \<^verbatim>\<open>std::string::find\<close> would find in the bytes up to the first NUL, and where the first CRLF and the first
  empty line of a well-formed head are.
\<close>

section \<open>The search on memory is the search on a string\<close>

lemma strnstr_loop_find:
  assumes "sub \<noteq> []" "src + n \<le> length mem"
  shows "strnstr_loop mem sub src n = find (\<lambda>i. take (length sub) (drop i mem) = sub) [src..<Suc (src + n) - length sub]"
  using assms(2)
proof (induction n arbitrary: src)
  case 0
  then show ?case using assms(1) by (cases sub) simp_all
next
  case (Suc n)
  show ?case
  proof (cases "Suc n < length sub")
    case True
    then show ?thesis by simp
  next
    case False
    then have "[src..<Suc (src + Suc n) - length sub] = src # [Suc src..<Suc (Suc src + n) - length sub]"
      by (subst upt_conv_Cons) auto
    with False Suc show ?thesis by simp
  qed
qed

lemma prefix_take_iff: "prefix sub x \<longleftrightarrow> take (length sub) x = sub"
  by (metis append_eq_conv_conj append_take_drop_id prefix_def)

lemma str_find_limit:
  assumes "sub \<noteq> []" "l \<le> length mem"
  shows "str_find (take l mem) sub 0 = find (\<lambda>i. take (length sub) (drop i mem) = sub) [0..<Suc l - length sub]"
proof -
  let ?P = "\<lambda>i. prefix sub (drop i (take l mem))" and ?Q = "\<lambda>i. take (length sub) (drop i mem) = sub"
  have eq: "?P i \<longleftrightarrow> ?Q i \<and> i + length sub \<le> l" if "i \<le> l" for i
  proof
    assume p: "?P i"
    then have "i + length sub \<le> l" using prefix_drop_bound [OF p] that assms(2) by simp
    with p show "?Q i \<and> i + length sub \<le> l" by (simp add: prefix_take_iff drop_take min_absorb1)
  next
    assume "?Q i \<and> i + length sub \<le> l"
    moreover from this have "length sub \<le> l - i" by arith
    ultimately show "?P i" by (simp add: prefix_take_iff drop_take min_absorb1)
  qed
  have nz: "0 < length sub" using assms(1) by simp
  show ?thesis
  proof (cases "find ?Q [0..<Suc l - length sub]")
    case None
    then have "\<forall>i. i < Suc l - length sub \<longrightarrow> \<not> ?Q i" by (simp add: find_upt_None)
    then have "\<forall>i. i < Suc l \<longrightarrow> \<not> ?P i" using eq nz by auto
    then have "str_find (take l mem) sub 0 = None"
      using assms(2) by (simp add: str_find_def find_upt_None min_absorb2 del: upt_Suc)
    then show ?thesis using None by simp
  next
    case (Some i)
    then have i: "i < Suc l - length sub" "?Q i" "\<forall>j < i. \<not> ?Q j" by (auto simp: find_upt_Some)
    then have "?P i" "\<forall>j < i. \<not> ?P j" using eq nz by auto
    then have "str_find (take l mem) sub 0 = Some i"
      using i(1) assms(2) by (simp add: str_find_def find_upt_Some min_absorb2 del: upt_Suc)
    then show ?thesis using Some by simp
  qed
qed

lemma string_strnstr_eq:
  assumes "sub \<noteq> []" "n \<le> length mem" "n < 2 ^ 31"
  shows "string_strnstr (Some mem) sub (int n) = Inr (str_find (c_str (take n mem)) sub 0)"
proof -
  define k where "k = length (c_str mem)"
  define l where "l = min n k"
  have len: "length (takeWhile (\<lambda>c. c \<noteq> CHR 0x00) mem) = k" by (simp add: k_def c_str_def)
  have kl: "k \<le> length mem" by (simp add: k_def c_str_def length_takeWhile_le)
  have "strnlen_mem mem n = Inr l"
    using assms(2) kl by (auto simp: strnlen_mem_def len l_def Let_def)
  moreover have "to_int (int l) = int l" using assms(3) by (auto simp: l_def intro!: to_int_id)
  moreover have "c_str (take n mem) = take l mem"
  proof -
    have "c_str (take n mem) = take n (c_str mem)" 
      by (induction mem arbitrary: n) (auto simp: c_str_def take_Cons split: nat.split)
    also have "c_str mem = take k mem" using takeWhile_eq_take [of "\<lambda>c. c \<noteq> CHR 0x00" mem] by (simp add: k_def c_str_def)
    finally show ?thesis by (simp add: l_def min.commute)
  qed
  moreover have "strnstr_loop mem sub 0 l = str_find (take l mem) sub 0"
    using strnstr_loop_find [OF assms(1), of 0 l mem] str_find_limit [OF assms(1), of l mem] kl by (simp add: l_def)
  ultimately show ?thesis
    using assms by (cases "n \<le> k") (simp_all add: string_strnstr_def l_def)
qed

lemma search_content:
  assumes "wf_buf b" "length (content b) < 2 ^ 31" "sub \<noteq> []"
  shows "string_strnstr (ptr_mem b 0) sub (to_int (int (Length b))) = Inr (str_find (c_str (chars (content b))) sub 0)"
proof -
  have L: "length (content b) = ab_length b" using length_content [OF assms(1)] .
  have id: "to_int (int (Length b)) = int (Length b)" using assms(2) L by (simp add: Length_def to_int_id)
  show ?thesis
  proof (cases "ab_parray b")
    case None
    then have "content b = []" by (simp add: content_def ab_block_def)
    with None assms(3) show ?thesis
      by (simp add: ptr_mem_def string_strnstr_def str_find_def c_str_def)
  next
    case (Some a)
    then have "content b = take (Length b) a" "Length b \<le> length a"
      using assms(1) by (simp_all add: content_def ab_block_def Length_def wf_buf_def)
    then show ?thesis
      using Some string_strnstr_eq [OF assms(3), of "Length b" "chars a"] id assms(2) L
      by (simp add: ptr_mem_def take_map Length_def)
  qed
qed

section \<open>First occurrences\<close>

lemma str_find_iff:
  "str_find s sub 0 = Some i \<longleftrightarrow> prefix sub (drop i s) \<and> i \<le> length s \<and> (\<forall>j < i. \<not> prefix sub (drop j s))"
  by (auto simp: str_find_def find_upt_Some less_Suc_eq_le simp del: upt_Suc)

lemma str_find_None_iff: "str_find s sub 0 = None \<longleftrightarrow> (\<forall>j \<le> length s. \<not> prefix sub (drop j s))"
  by (auto simp: str_find_def find_upt_None less_Suc_eq_le simp del: upt_Suc)

lemma prefix_drop_append:
  "j + length sub \<le> length s \<Longrightarrow> prefix sub (drop j (s @ t)) \<longleftrightarrow> prefix sub (drop j s)"
  by (simp add: prefix_take_iff)

text \<open>What is found does not depend on what follows, and is not found before it is complete.\<close>

lemma str_find_append:
  assumes "str_find s sub 0 = Some i"
  shows "str_find (s @ t) sub 0 = Some i"
proof -
  have b: "i + length sub \<le> length s" "prefix sub (drop i s)" "\<forall>j < i. \<not> prefix sub (drop j s)"
    using str_find_SomeD(2) [OF assms] assms by (auto simp: str_find_iff)
  then show ?thesis
    using prefix_drop_append [of _ sub s t] by (auto simp: str_find_iff)
qed

lemma str_find_incomplete:
  assumes "str_find s sub 0 = Some i" "n < i + length sub"
  shows "str_find (take n s) sub 0 = None"
proof (rule ccontr)
  assume "str_find (take n s) sub 0 \<noteq> None"
  then obtain k where k: "str_find (take n s) sub 0 = Some k" by blast
  then have "str_find (take n s @ drop n s) sub 0 = Some k" by (rule str_find_append)
  then have "k = i" using assms(1) by simp
  then show False using str_find_SomeD(2) [OF k] assms(2) by simp
qed

section \<open>The head of a message\<close>

lemma crlf_at_line: "no_crlf l \<Longrightarrow> i < length l \<Longrightarrow> \<not> prefix KStringCRLF (drop i (l @ KStringCRLF @ t))"
  using str_find_crlf_0 [of l t] by (auto simp: str_find_iff simp del: drop_append)

lemma crlf2_iff: "prefix KStringCRLFCRLF (drop i s) \<longleftrightarrow>
    prefix KStringCRLF (drop i s) \<and> prefix KStringCRLF (drop (Suc (Suc i)) s)"
proof -
  have "drop 2 (drop i s) = drop (Suc (Suc i)) s" by simp
  then show ?thesis
    unfolding KStringCRLFCRLF_def prefix_def KStringCRLF_def
    by (metis (no_types, lifting) append_Cons append_Nil drop_Suc_Cons drop0 numeral_2_eq_2)
qed

text \<open>The lines of a header block, each with its CRLF, and the empty line at the end.\<close>

lemma str_find_empty_line:
  assumes "ls \<noteq> []" "\<forall>l \<in> set ls. l \<noteq> [] \<and> no_crlf l"
  shows "str_find (concat (map (\<lambda>l. l @ KStringCRLF) ls) @ KStringCRLF) KStringCRLFCRLF 0
    = Some (length (concat (map (\<lambda>l. l @ KStringCRLF) ls)) - 2)"
  using assms
proof (induction ls)
  case (Cons l ls)
  let ?t = "concat (map (\<lambda>l. l @ KStringCRLF) ls) @ KStringCRLF"
  let ?s = "l @ KStringCRLF @ ?t"
  have l: "l \<noteq> []" "no_crlf l" using Cons.prems by auto
  have at: "\<not> prefix KStringCRLFCRLF (drop i ?s)" if "i < length l" for i
    using crlf_at_line [OF l(2) that] by (simp only: crlf2_iff) blast
  have lf: "\<not> prefix KStringCRLF (drop (Suc (length l)) ?s)"
    by (simp add: KStringCRLF_def)
  have sh: "drop (Suc (Suc (length l + j))) ?s = drop j ?t" for j
    by (simp add: KStringCRLF_def)
  show ?case
  proof (cases "ls = []")
    case True
    have "prefix KStringCRLFCRLF (drop (length l) ?s)" using True by (simp add: KStringCRLFCRLF_def)
    then show ?thesis
      using at True by (simp add: str_find_iff KStringCRLF_def del: drop_append)
  next
    case False
    define k where "k = length (concat (map (\<lambda>l. l @ KStringCRLF) ls)) - 2"
    obtain l' ls' where ls: "ls = l' # ls'" using False by (cases ls) auto
    have k2: "2 \<le> length (concat (map (\<lambda>l. l @ KStringCRLF) ls))" by (simp add: ls KStringCRLF_def)
    have IH: "prefix KStringCRLFCRLF (drop k ?t)" "k \<le> length ?t" "\<forall>j < k. \<not> prefix KStringCRLFCRLF (drop j ?t)"
      using Cons.IH [OF False] Cons.prems by (auto simp: str_find_iff k_def)
    have l': "l' \<noteq> []" "no_crlf l'" using Cons.prems ls by auto
    have "\<not> prefix KStringCRLF (drop 0 ?t)"
      using crlf_at_line [OF l'(2), of 0] l'(1) by (simp add: ls)
    then have here: "\<not> prefix KStringCRLFCRLF (drop (length l) ?s)"
      using sh [of 0] by (simp only: crlf2_iff) simp
    have "prefix KStringCRLFCRLF (drop (length l + 2 + k) ?s)" using IH(1) sh [of k] by simp
    moreover have "\<not> prefix KStringCRLFCRLF (drop j ?s)" if "j < length l + 2 + k" for j
    proof -
      consider "j < length l" | "j = length l" | "j = Suc (length l)" | "Suc (Suc (length l)) \<le> j" by linarith
      then show ?thesis
      proof cases
        case 3 then show ?thesis using lf by (simp only: crlf2_iff) blast
      next
        case 4
        then obtain m where "j = Suc (Suc (length l + m))" by (metis add_Suc le_Suc_ex)
        then show ?thesis using IH(3) sh [of m] that by simp
      qed (use at here in simp_all)
    qed
    ultimately have "str_find ?s KStringCRLFCRLF 0 = Some (length l + 2 + k)"
      using IH(2) by (simp add: str_find_iff KStringCRLF_def del: drop_append)
    moreover have "concat (map (\<lambda>l. l @ KStringCRLF) (l # ls)) @ KStringCRLF = ?s" by simp
    moreover have "length (concat (map (\<lambda>l. l @ KStringCRLF) (l # ls))) - 2 = length l + 2 + k"
      using k2 by (simp add: k_def KStringCRLF_def)
    ultimately show ?thesis by simp
  qed
qed simp

end
