(* ===== verification/Http_Recv.thy ===== *)
theory Http_Recv
  imports Http_Search
begin

text \<open>
  The incremental parser on well-formed messages. \<open>parser_at\<close> describes a parser by its status, the bytes it
  has not consumed yet and the body it has delivered; one lemma per case of the \<^verbatim>\<open>switch\<close> of \<^verbatim>\<open>Recv\<close>
  moves between such states. The interface \<open>body_decoder\<close> says what the head of the parser needs of the two ways
  of transferring a body; inside it, a message is proved to be parsed to its end however it is cut into
  the blocks passed to \<^verbatim>\<open>Recv\<close>.
\<close>

section \<open>Buffers of the parser\<close>

text \<open>A buffer that is only appended to and consumed from the front: its cursor is at the end.\<close>

definition rb_ok :: "bytes \<Rightarrow> AutoBuffer \<Rightarrow> bool" where
  "rb_ok c b \<longleftrightarrow> wf_buf b \<and> content b = c \<and> cursor b = length c \<and> ab_malloc_unitsize b = 128 \<and> 128 dvd ab_capacity b"

definition hb_ok :: "nat \<Rightarrow> AutoBuffer \<Rightarrow> bool" where
  "hb_ok N b \<longleftrightarrow> wf_buf b \<and> length (content b) \<le> N"

text \<open>The allocation unit divides the capacity: blocks are only ever grown by \<^verbatim>\<open>FitSize\<close>.\<close>

lemma FitSize_unit:
  assumes "FitSize b n = Inr b'" "ab_malloc_unitsize b = 128" "128 dvd ab_capacity b"
  shows "ab_malloc_unitsize b' = 128 \<and> 128 dvd ab_capacity b'"
proof -
  have "128 dvd to_size (int k * 128)" for k
  proof -
    have "int k * 128 mod 2 ^ 64 = (int k mod 2 ^ 57) * 128" by (simp add: mod_mult_mult2 [symmetric])
    then show ?thesis by (simp add: to_size_def nat_mult_distrib)
  qed
  with assms show ?thesis by (auto simp: FitSize_def Let_def split: if_splits)
qed

lemma memcpy_unit:
  "memcpy_to b off d = Inr b' \<Longrightarrow> ab_malloc_unitsize b' = ab_malloc_unitsize b \<and> ab_capacity b' = ab_capacity b"
  by (auto simp: memcpy_to_def split: if_splits)

lemma Write_unit:
  assumes "Write b d = Inr b'" "ab_malloc_unitsize b = 128" "128 dvd ab_capacity b"
  shows "ab_malloc_unitsize b' = 128 \<and> 128 dvd ab_capacity b'"
  using assms by (auto simp: Write_def Write_at_def Let_def rbind_eq_Inr_iff dest!: memcpy_unit FitSize_unit)

lemma Move_unit:
  assumes "Move b (- int n) = Inr b'" "ab_malloc_unitsize b = 128" "128 dvd ab_capacity b"
  shows "ab_malloc_unitsize b' = 128 \<and> 128 dvd ab_capacity b'"
  using assms by (auto simp: Move_def Let_def rbind_eq_Inr_iff dest!: memcpy_unit)

lemma rb_Write:
  assumes "rb_ok c b" "length c + length d < 2 ^ 31"
  shows "\<exists>b'. Write b d = Inr b' \<and> rb_ok (c @ d) b'"
  using Write_ok [of b d] Write_unit [of b d] assms by (auto simp: rb_ok_def fits_def overwrite_at_end)

lemma rb_Move:
  assumes "rb_ok (x @ c) b" "length x < 2 ^ 31"
  shows "\<exists>b'. Move b (- int (length x)) = Inr b' \<and> rb_ok c b'"
  using Move_left_ok [of b "length x"] Move_unit [of b "length x"] assms by (auto simp: rb_ok_def)

lemma rb_Ptr:
  "rb_ok c b \<Longrightarrow> off + n \<le> length c \<Longrightarrow> Ptr_bytes b (int off) n = Inr (take n (drop off c))"
  using Ptr_bytes_content [of b off n] by (simp add: rb_ok_def)

lemma rb_Ptr_front: "rb_ok (x @ c) b \<Longrightarrow> n = length x \<Longrightarrow> Ptr_bytes b 0 n = Inr x"
  using rb_Ptr [of "x @ c" b 0 "length x"] by simp

lemma rb_Length: "rb_ok c b \<Longrightarrow> Length b = length c"
  using length_content [of b] by (simp add: rb_ok_def Length_def)

lemma rb_search:
  "rb_ok c b \<Longrightarrow> length c < 2 ^ 31 \<Longrightarrow> sub \<noteq> [] \<Longrightarrow>
    string_strnstr (ptr_mem b 0) sub (to_int (int (length c))) = Inr (str_find (c_str (chars c)) sub 0)"
  using search_content [of b sub] rb_Length [of c b] by (simp add: rb_ok_def)

lemma rb_search_Length:
  "rb_ok c b \<Longrightarrow> length c < 2 ^ 31 \<Longrightarrow> sub \<noteq> [] \<Longrightarrow>
    string_strnstr (ptr_mem b 0) sub (to_int (int (Length b))) = Inr (str_find (c_str (chars c)) sub 0)"
  using rb_search rb_Length by simp

lemma hb_Write:
  assumes "hb_ok N b" "N + length d < 2 ^ 31"
  shows "\<exists>b'. Write b d = Inr b' \<and> hb_ok (N + length d) b'"
proof -
  have "cursor b \<le> length (content b)" using assms(1) cursor_le by (simp add: hb_ok_def)
  moreover from this obtain b' where "Write b d = Inr b'" "wf_buf b'" "content b' = overwrite (cursor b) d (content b)"
    using Write_ok [of b d] assms by (auto simp: hb_ok_def fits_def)
  ultimately show ?thesis using assms(1) by (auto simp: hb_ok_def overwrite_def)
qed

section \<open>The body receiver\<close>

text \<open>A \<^verbatim>\<open>MemoryBodyReceiver\<close> that has received \<open>bod\<close> after the bytes \<open>w0\<close> its buffer held before.\<close>

definition rcv_ok :: "bytes \<Rightarrow> bytes \<Rightarrow> BodyReceiver option \<Rightarrow> bool" where
  "rcv_ok w0 bod ro \<longleftrightarrow> (\<exists>r bb. ro = Some r \<and> br_total_length r = length bod \<and> br_body r = Some bb
     \<and> sink_ok bb \<and> written bb = w0 @ bod)"

lemma rcv_ok_new: "sink_ok bb \<Longrightarrow> rcv_ok (written bb) [] (Some (MemoryBodyReceiver_new bb))"
  by (simp add: rcv_ok_def MemoryBodyReceiver_new_def)

lemma sink_room_written: "sink_ok bb \<Longrightarrow> sink_room bb = 2 ^ 62 - 1 - length (written bb)"
  using cursor_le [of bb] by (simp add: sink_room_def sink_ok_def written_def)

lemma AppendData_ok:
  assumes "rcv_ok w0 bod (Some r)" "rb_ok c b" "off + n \<le> length c" "length w0 + length bod + n < 2 ^ 61"
  shows "\<exists>r'. AppendData r b (int off) n = Inr r' \<and> rcv_ok w0 (bod @ take n (drop off c)) (Some r')"
proof -
  obtain bb where r: "br_total_length r = length bod" "br_body r = Some bb" "sink_ok bb" "written bb = w0 @ bod"
    using assms(1) by (auto simp: rcv_ok_def)
  let ?d = "take n (drop off c)"
  have d: "length ?d = n" using assms(3) by simp
  have "length ?d \<le> sink_room bb" using assms(4) r(3,4) d by (simp add: sink_room_written)
  then obtain bb' where "Write bb ?d = Inr bb'" "sink_ok bb'" "written bb' = written bb @ ?d"
    using ab.put_ok [OF r(3)] by blast
  moreover have "to_size (int (length bod) + int n) = length bod + n"
    using to_size_of_nat [of "length bod + n"] assms(4) by simp
  ultimately show ?thesis
    using r d rb_Ptr [OF assms(2,3)] by (auto simp: AppendData_def rcv_ok_def Let_def)
qed

section \<open>States of the parser\<close>

definition parser_at :: "bytes \<Rightarrow> nat \<Rightarrow> TRecvStatus \<Rightarrow> bytes \<Rightarrow> bytes \<Rightarrow> Parser \<Rightarrow> bool" where
  "parser_at w0 N st c bod p \<longleftrightarrow> ps_recvstatus p = st \<and> rb_ok c (ps_recvbuf p) \<and> hb_ok N (ps_headerbuf p)
     \<and> rcv_ok w0 bod (ps_bodyreceiver p)"

definition parsed :: "Parser \<Rightarrow> TCsMode \<times> StatusLine \<times> RequestLine \<times> HeaderFields" where
  "parsed p = (ps_csmode p, ps_statusline p, ps_requestline p, ps_headfields p)"

lemma parser_at_new:
  assumes "sink_ok bb"
  shows "parser_at (written bb) 8192 kStart [] [] (Parser_new (Some (MemoryBodyReceiver_new bb)) manage)"
  using rcv_ok_new [OF assms] by (simp add: parser_at_def Parser_new_def rb_ok_def hb_ok_def wf_buf_new) (simp add: AutoBuffer_new_def)

lemma c_str_prefix: "prefix (c_str s) s"
  by (simp add: c_str_def takeWhile_is_prefix)

lemma header_copy_ok:
  assumes "hb_ok N (ps_headerbuf p)" "8192 \<le> N"
  shows "\<exists>hb ready. Recv_header_copy p d = Inr (p\<lparr>ps_headerbuf := hb, ps_response_header_ready := ready\<rparr>) \<and> hb_ok N hb"
proof (cases "ps_recvstatus p < kBody \<and> Length (ps_headerbuf p) < 4096 \<and> \<not> ps_response_header_ready p")
  case False
  with assms show ?thesis
    by (intro exI [of _ "ps_headerbuf p"] exI [of _ "ps_response_header_ready p"]) (auto simp: Recv_header_copy_def)
next
  case True
  let ?d = "take (min (length d) 4096) d"
  have "wf_buf (ps_headerbuf p)" using assms(1) by (simp add: hb_ok_def)
  then have "hb_ok 4096 (ps_headerbuf p)" using True length_content by (simp add: hb_ok_def Length_def)
  moreover have "4096 + length ?d < 2 ^ 31" by simp
  ultimately obtain hb where hb: "Write (ps_headerbuf p) ?d = Inr hb" "hb_ok (4096 + length ?d) hb"
    using hb_Write by blast
  then have wf: "wf_buf hb" "length (content hb) \<le> 8192" by (auto simp: hb_ok_def)
  let ?s = "str_find (c_str (chars (content hb))) KStringCRLFCRLF 0"
  have srch: "string_strnstr (ptr_mem hb 0) KStringCRLFCRLF (to_int (int (Length hb))) = Inr ?s"
    using wf by (intro search_content) (auto simp: KStringCRLFCRLF_def KStringCRLF_def)
  have cut: "hb_ok N (Length_set hb 0 (i + 4))" if "?s = Some i" for i
  proof -
    have "i + 4 \<le> length (content hb)"
      using str_find_SomeD(2) [OF that] prefix_length_le [OF c_str_prefix [of "chars (content hb)"]]
      by (simp add: KStringCRLFCRLF_def KStringCRLF_def)
    then show ?thesis
      using Length_set_ok [OF wf(1), of "i + 4" 0] wf length_content [OF wf(1)] assms(2)
      by (auto simp: hb_ok_def wf_buf_def)
  qed
  have keep: "hb_ok N hb" using wf assms(2) by (simp add: hb_ok_def)
  show ?thesis
  proof (cases "4 < Length hb \<and> ?s \<noteq> None")
    case True
    then obtain i where "?s = Some i" by blast
    then show ?thesis
      using True \<open>ps_recvstatus p < kBody \<and> Length (ps_headerbuf p) < 4096 \<and> \<not> ps_response_header_ready p\<close> hb(1) srch cut
      by (intro exI [of _ "Length_set hb 0 (i + 4)"] exI [of _ True]) (simp add: Recv_header_copy_def)
  next
    case False
    then show ?thesis
      using \<open>ps_recvstatus p < kBody \<and> Length (ps_headerbuf p) < 4096 \<and> \<not> ps_response_header_ready p\<close> hb(1) srch keep
      by (intro exI [of _ hb] exI [of _ False]) (auto simp: Recv_header_copy_def)
  qed
qed

lemma Recv_header_copy_ok:
  assumes "parser_at w0 N st c bod p" "8192 \<le> N" "N < 2 ^ 30"
  shows "\<exists>p'. Recv_header_copy p d = Inr p' \<and> parser_at w0 N st c bod p' \<and> parsed p' = parsed p"
  using header_copy_ok [of N p d] assms(1,2) by (auto simp: parser_at_def parsed_def)

text \<open>The loop goes on where its step does, and returns where its step does.\<close>

lemma Recv_loop_Return: "Recv_step p = Inr (Return, p') \<Longrightarrow> Recv_loop p = Some (Inr p')"
  by (subst Recv_loop.simps) simp

lemma Recv_loop_Continue: "Recv_step p = Inr (Continue, p') \<Longrightarrow> Recv_loop p = Recv_loop p'"
  by (subst Recv_loop.simps) simp

lemma Recv_loop_fault: "Recv_step p = Inl e \<Longrightarrow> Recv_loop p = Some (Inl e)"
  by (subst Recv_loop.simps) simp

section \<open>The first line\<close>

lemma crlf_nonempty [simp]: "KStringCRLF \<noteq> []" "KStringCRLFCRLF \<noteq> []"
  by (simp_all add: KStringCRLF_def KStringCRLFCRLF_def)

lemma first_line_wait:
  assumes "parser_at w0 N st c bod p" "st = kStart \<or> st = kFirstLine" "length c \<le> 8192"
    "str_find (c_str (chars c)) KStringCRLF 0 = None"
  shows "\<exists>p'. Recv_step p = Inr (Return, p') \<and> parser_at w0 N kFirstLine c bod p' \<and> parsed p' = parsed p"
proof -
  have rb: "rb_ok c (ps_recvbuf p)" using assms(1) by (simp add: parser_at_def)
  have "Recv_first_line p = Inr (Return, p\<lparr>ps_recvstatus := kFirstLine\<rparr>)"
    using rb_search [OF rb, of KStringCRLF] assms(3,4) rb_Length [OF rb] by (simp add: Recv_first_line_def Let_def)
  then have "Recv_step p = Inr (Return, p\<lparr>ps_recvstatus := kFirstLine\<rparr>)"
    using assms(1,2) by (auto simp: Recv_step_def parser_at_def)
  with assms(1) show ?thesis by (simp add: parser_at_def parsed_def)
qed

lemma first_line_done:
  assumes at: "parser_at w0 N st (f @ c) bod p" "st = kStart \<or> st = kFirstLine"
    and f: "chars f = l @ KStringCRLF" "no_crlf l" "CHR 0x00 \<notin> set l"
    and ok: "parse_first_line (ps_csmode p) (ps_statusline p) (ps_requestline p) (chars f) = (True, mode, sl, rl)"
    and c: "\<not> prefix KStringCRLF (chars c)"
    and len: "length (f @ c) < 2 ^ 30" "N < 2 ^ 30"
  shows "\<exists>p'. Recv_step p = Inr (Continue, p') \<and> parser_at w0 (N + length f) kHeaderFields c bod p'
    \<and> parsed p' = (mode, sl, rl, ps_headfields p)"
proof -
  have rb: "rb_ok (f @ c) (ps_recvbuf p)" and hb: "hb_ok N (ps_headerbuf p)"
    using at(1) by (simp_all add: parser_at_def)
  have lf: "length f = length l + 2" using arg_cong [OF f(1), of length] by (simp add: KStringCRLF_def)
  have cs: "c_str (chars (f @ c)) = l @ KStringCRLF @ c_str (chars c)"
    using c_str_append [of "l @ KStringCRLF" "chars c"] f(1,3) by (simp add: KStringCRLF_def)
  have s1: "str_find (c_str (chars (f @ c))) KStringCRLF 0 = Some (length l)"
    unfolding cs by (rule str_find_crlf_0 [OF f(2)])
  have s2: "str_find (c_str (chars (f @ c))) KStringCRLFCRLF 0 \<noteq> Some (length l)"
  proof
    assume "str_find (c_str (chars (f @ c))) KStringCRLFCRLF 0 = Some (length l)"
    then have "prefix KStringCRLFCRLF (drop (length l) (l @ KStringCRLF @ c_str (chars c)))"
      unfolding cs by (simp only: str_find_iff)
    then have "prefix KStringCRLF (c_str (chars c))" by (simp add: KStringCRLFCRLF_def)
    with c c_str_prefix show False using prefix_order.trans by blast
  qed
  have n: "length f + length c < 2 ^ 31" using len by simp
  obtain buf where mv: "Move (ps_recvbuf p) (- int (length f)) = Inr buf" "rb_ok c buf"
    using rb_Move [OF rb] n by auto
  obtain hb' where hb': "Write (ps_headerbuf p) f = Inr hb'" "hb_ok (N + length f) hb'"
    using hb_Write [OF hb, of f] len by auto
  let ?p = "p\<lparr>ps_csmode := mode, ps_statusline := sl, ps_requestline := rl, ps_headerbuf := hb',
              ps_recvstatus := kHeaderFields, ps_recvbuf := buf\<rparr>"
  have "Recv_first_line p = Inr (Continue, ?p)"
    using rb_search [OF rb, of KStringCRLF] rb_search [OF rb, of KStringCRLFCRLF] n rb_Length [OF rb]
      s1 s2 lf rb_Ptr_front [OF rb, of "length f"] mv(1) hb'(1) ok
    by (simp add: Recv_first_line_def Let_def)
  then have "Recv_step p = Inr (Continue, ?p)" using at by (auto simp: Recv_step_def parser_at_def)
  with at(1) mv(2) hb'(2) show ?thesis by (simp add: parser_at_def parsed_def)
qed

section \<open>The header fields\<close>

lemma fields_wait:
  assumes "parser_at w0 N kHeaderFields c bod p" "length c \<le> 131072"
    "str_find (c_str (chars c)) KStringCRLFCRLF 0 = None"
  shows "Recv_step p = Inr (Return, p)"
proof -
  have rb: "rb_ok c (ps_recvbuf p)" using assms(1) by (simp add: parser_at_def)
  have "Recv_header_fields p = Inr (Return, p)"
    using rb_search [OF rb, of KStringCRLFCRLF] assms(2,3) rb_Length [OF rb]
    by (simp add: Recv_header_fields_def Let_def)
  with assms(1) show ?thesis by (simp add: Recv_step_def parser_at_def)
qed

lemma fields_done:
  assumes at: "parser_at w0 N kHeaderFields (g @ c) bod p"
    and g: "str_find (chars g) KStringCRLFCRLF 0 = Some (length g - 4)" "CHR 0x00 \<notin> set (chars g)"
    and ok: "ParserHeaders (chars g) (ps_headfields p) = (True, h)"
    and len: "length (g @ c) < 2 ^ 30" "N < 2 ^ 30"
  shows "\<exists>p'. Recv_step p = Inr (Continue, p') \<and> parser_at w0 (N + length g) kBody c bod p'
    \<and> parsed p' = (ps_csmode p, ps_statusline p, ps_requestline p, h)"
proof -
  have rb: "rb_ok (g @ c) (ps_recvbuf p)" and hb: "hb_ok N (ps_headerbuf p)"
    using at by (simp_all add: parser_at_def)
  have "length g - 4 + 4 \<le> length g" using str_find_SomeD(2) [OF g(1)] by (simp add: KStringCRLFCRLF_def KStringCRLF_def)
  then have g4: "length g - 4 + 4 = length g" by simp
  have cs: "c_str (chars (g @ c)) = chars g @ c_str (chars c)" using c_str_append [OF g(2)] by simp
  have s: "str_find (c_str (chars (g @ c))) KStringCRLFCRLF 0 = Some (length g - 4)"
    unfolding cs by (rule str_find_append [OF g(1)])
  have n: "length g + length c < 2 ^ 31" using len by simp
  obtain buf where mv: "Move (ps_recvbuf p) (- int (length g)) = Inr buf" "rb_ok c buf"
    using rb_Move [OF rb] n by auto
  obtain hb' where hb': "Write (ps_headerbuf p) g = Inr hb'" "hb_ok (N + length g) hb'"
    using hb_Write [OF hb, of g] len by auto
  let ?p = "p\<lparr>ps_headfields := h, ps_recvstatus := kBody, ps_headerbuf := hb', ps_recvbuf := buf\<rparr>"
  have "Recv_header_fields p = Inr (Continue, ?p)"
    using rb_search [OF rb, of KStringCRLFCRLF] n rb_Length [OF rb]
      s rb_Ptr_front [OF rb, of "length g"] mv(1) hb'(1) ok g4
    by (simp add: Recv_header_fields_def Let_def)
  then have "Recv_step p = Inr (Continue, ?p)" using at by (simp add: Recv_step_def parser_at_def)
  with at mv(2) hb'(2) show ?thesis by (simp add: parser_at_def parsed_def)
qed

section \<open>The interface to the body\<close>

text \<open>
  A way of transferring a body: \<open>wire m\<close> are the bytes after the head for a message \<open>m\<close>, \<open>payload m\<close> the body they
  stand for. After a part \<open>w\<close> of the wire bytes has been received, \<open>bod m w\<close> has been delivered and \<open>pend m w\<close>
  waits in the buffer. The law says that the loop, entered in the body state with new bytes \<open>d\<close>, returns, and
  is either at the end of the message or has consumed all it can.
\<close>

locale body_decoder =
  fixes ok :: "HeaderFields \<Rightarrow> 'm \<Rightarrow> bool"
    and wire payload :: "'m \<Rightarrow> bytes"
    and pend bod :: "'m \<Rightarrow> bytes \<Rightarrow> bytes"
  assumes pend_Nil: "pend m [] = []"
    and bod_Nil: "bod m [] = []"
    and pend_le: "length (pend m w) \<le> length w"
    and bod_wire: "ok h m \<Longrightarrow> bod m (wire m) = payload m"
    and body_loop: "ok (ps_headfields p) m \<Longrightarrow> parser_at w0 N kBody (pend m w @ d) (bod m w) p \<Longrightarrow>
      prefix (w @ d) (wire m) \<Longrightarrow> length (wire m) < 2 ^ 30 \<Longrightarrow> length w0 < 2 ^ 60 \<Longrightarrow>
      \<exists>p'. Recv_loop p = Some (Inr p') \<and> parsed p' = parsed p
        \<and> (if w @ d = wire m then parser_at w0 N kEnd [] (payload m) p'
           else parser_at w0 N kBody (pend m (w @ d)) (bod m (w @ d)) p')"

fun Recv_all :: "Parser \<Rightarrow> bytes list \<Rightarrow> Parser result option" where
  "Recv_all p [] = Some (Inr p)"
| "Recv_all p (d # ds) = (case Recv p d of Some (Inr p') \<Rightarrow> Recv_all p' ds | x \<Rightarrow> x)"

text \<open>
  The head of a message for a parser that starts with the fields \<open>m0\<close>: the first line \<open>f\<close> and the header block \<open>g\<close>,
  and what they are parsed to.
\<close>

definition head_ok ::
  "TCsMode \<times> StatusLine \<times> RequestLine \<times> HeaderFields \<Rightarrow> bytes \<Rightarrow> bytes
    \<Rightarrow> TCsMode \<times> StatusLine \<times> RequestLine \<times> HeaderFields \<Rightarrow> bool" where
  "head_ok m0 f g m1 \<longleftrightarrow>
     (case m0 of (mode0, sl0, rl0, h0) \<Rightarrow> case m1 of (mode, sl, rl, h) \<Rightarrow>
        parse_first_line mode0 sl0 rl0 (chars f) = (True, mode, sl, rl) \<and> ParserHeaders (chars g) h0 = (True, h))
     \<and> CHR 0x00 \<notin> set (chars f) \<and> CHR 0x00 \<notin> set (chars g)
     \<and> str_find (chars f) KStringCRLF 0 = Some (length f - 2)
     \<and> str_find (chars g) KStringCRLFCRLF 0 = Some (length g - 4) \<and> \<not> prefix KStringCRLF (chars g)
     \<and> length f \<le> 8192 \<and> length g \<le> 131072"

lemma head_okD:
  assumes "head_ok (mode0, sl0, rl0, h0) f g (mode, sl, rl, h)"
  shows "parse_first_line mode0 sl0 rl0 (chars f) = (True, mode, sl, rl)" "ParserHeaders (chars g) h0 = (True, h)"
    "CHR 0x00 \<notin> set (chars f)" "CHR 0x00 \<notin> set (chars g)"
    "str_find (chars f) KStringCRLF 0 = Some (length f - 2)"
    "str_find (chars g) KStringCRLFCRLF 0 = Some (length g - 4)" "\<not> prefix KStringCRLF (chars g)"
    "length f \<le> 8192" "length g \<le> 131072"
  using assms by (simp_all add: head_ok_def)

lemma first_line_split:
  assumes "str_find s KStringCRLF 0 = Some (length s - 2)"
  shows "\<exists>l. s = l @ KStringCRLF \<and> no_crlf l"
proof -
  define l where "l = take (length s - 2) s"
  note f = str_find_SomeD [OF assms]
  have "2 \<le> length s" using f(2) by (simp add: KStringCRLF_def)
  moreover from this have "drop (length s - 2) s = KStringCRLF" using f(3) by (simp add: KStringCRLF_def)
  ultimately have s: "s = l @ KStringCRLF" by (metis append_take_drop_id l_def)
  have "length l < length s - 2 + length KStringCRLF" using f(2) by (simp add: l_def KStringCRLF_def)
  then have "no_crlf l" unfolding no_crlf_def l_def using str_find_incomplete [OF assms] f(2) by (simp add: KStringCRLF_def)
  with s show ?thesis by blast
qed

text \<open>A part of a text without NUL in which the search would succeed only at the very end.\<close>

lemma search_part:
  assumes "str_find (chars g) sub 0 = Some (length g - length sub)" "CHR 0x00 \<notin> set (chars g)"
    "prefix c g" "length c < length g"
  shows "str_find (c_str (chars c)) sub 0 = None"
proof -
  have c: "c = take (length c) g" using assms(3) by (metis append_eq_conv_conj prefix_def)
  then have "chars c = take (length c) (chars g)" by (metis take_map)
  moreover have "CHR 0x00 \<notin> set (chars c)" using assms(2) set_take_subset calculation by (metis in_mono)
  moreover have "length c < length g - length sub + length sub" using str_find_SomeD(2) [OF assms(1)] assms(4) by simp
  ultimately show ?thesis using str_find_incomplete [OF assms(1)] by (metis c_str_id)
qed

lemma prefix_append_cases:
  assumes "prefix c (g @ w)"
  obtains "prefix c g" "length c < length g" | d where "c = g @ d" "prefix d w"
proof (cases "length c < length g")
  case True
  then have "prefix c g" using assms by (auto simp: prefix_append)
  then show ?thesis using that(1) True by blast
next
  case False
  then have "c = g @ drop (length g) c" "prefix (drop (length g) c) w"
    using assms by (auto simp: prefix_append) (auto simp: prefix_def)
  then show ?thesis using that(2) by blast
qed

lemma prefix_front_split:
  assumes "prefix (u @ d) (f @ r)" "length f \<le> length u"
  shows "u = f @ drop (length f) u"
proof -
  have "prefix u (f @ r)" using assms(1) by (metis append_prefixD)
  then show ?thesis using assms(2) by (cases rule: prefix_append_cases) auto
qed

text \<open>A call of \<^verbatim>\<open>Recv\<close> enters the loop with the new bytes behind the pending ones.\<close>

lemma Recv_enters_loop:
  assumes "parser_at w0 N st c b p" "8192 \<le> N" "N < 2 ^ 30" "length c + length d < 2 ^ 31" "d \<noteq> []"
  shows "\<exists>p'. Recv p d = Recv_loop p' \<and> parser_at w0 N st (c @ d) b p' \<and> parsed p' = parsed p"
proof -
  obtain p1 where p1: "Recv_header_copy p d = Inr p1" "parser_at w0 N st c b p1" "parsed p1 = parsed p"
    using Recv_header_copy_ok [OF assms(1-3)] by blast
  then have "rb_ok c (ps_recvbuf p1)" by (simp add: parser_at_def)
  then obtain buf where "Write (ps_recvbuf p1) d = Inr buf" "rb_ok (c @ d) buf"
    using rb_Write assms(4) by blast
  with p1 assms(5) show ?thesis
    by (intro exI [of _ "p1\<lparr>ps_recvbuf := buf\<rparr>"]) (simp add: Recv_def parser_at_def parsed_def)
qed

section \<open>Any message, cut anywhere\<close>

context body_decoder
begin

text \<open>The parser after the part \<open>u\<close> of the message \<open>f @ g @ wire m\<close>.\<close>

definition progress where
  "progress m0 f g m1 m w0 u p \<longleftrightarrow>
     (case m1 of (mode, sl, rl, h) \<Rightarrow>
        if length u < length f then
          (\<exists>st. (st = kStart \<or> st = kFirstLine) \<and> parser_at w0 8192 st u [] p) \<and> parsed p = m0
        else if length u < length f + length g then
          parser_at w0 (8192 + length f) kHeaderFields (drop (length f) u) [] p
          \<and> parsed p = (mode, sl, rl, snd (snd (snd m0)))
        else
          parsed p = m1
          \<and> (if drop (length f + length g) u = wire m
             then parser_at w0 (8192 + length f + length g) kEnd [] (payload m) p
             else parser_at w0 (8192 + length f + length g) kBody (pend m (drop (length f + length g) u))
                    (bod m (drop (length f + length g) u)) p))"

lemma loop_body:
  assumes "ok h m" "parsed p = (mode, sl, rl, h)" "length (wire m) < 2 ^ 30" "length w0 < 2 ^ 60"
    "parser_at w0 (8192 + length f + length g) kBody (pend m w @ d) (bod m w) p" "prefix (w @ d) (wire m)"
  shows "\<exists>p'. Recv_loop p = Some (Inr p') \<and> progress m0 f g (mode, sl, rl, h) m w0 (f @ g @ w @ d) p'"
proof -
  have "ok (ps_headfields p) m" using assms(1,2) by (simp add: parsed_def)
  from body_loop [OF this assms(5,6,3,4)] show ?thesis
    using assms(2) by (fastforce simp: progress_def)
qed

lemma loop_fields:
  assumes h: "head_ok (mode0, sl0, rl0, h0) f g (mode, sl, rl, h)" "ok h m"
    and len: "length (wire m) < 2 ^ 29" "length w0 < 2 ^ 60"
    and p: "parser_at w0 (8192 + length f) kHeaderFields c [] p" "parsed p = (mode, sl, rl, h0)"
    and c: "prefix c (g @ wire m)"
  shows "\<exists>p'. Recv_loop p = Some (Inr p') \<and> progress (mode0, sl0, rl0, h0) f g (mode, sl, rl, h) m w0 (f @ c) p'"
  using c
proof (cases rule: prefix_append_cases)
  case 1
  have "length KStringCRLFCRLF = 4" by (simp add: KStringCRLFCRLF_def KStringCRLF_def)
  then have "str_find (c_str (chars c)) KStringCRLFCRLF 0 = None"
    using search_part [OF _ head_okD(4) [OF h(1)] 1] head_okD(6) [OF h(1)] by simp
  then have "Recv_step p = Inr (Return, p)"
    using fields_wait [OF p(1)] 1(2) head_okD(9) [OF h(1)] by simp
  then show ?thesis using Recv_loop_Return p 1(2) by (auto simp: progress_def)
next
  case (2 d)
  have "length d \<le> length (wire m)" using 2(2) by (rule prefix_length_le)
  then have "length (g @ d) < 2 ^ 30" "8192 + length f < 2 ^ 30" using head_okD(8,9) [OF h(1)] len(1) by simp_all
  moreover have "ParserHeaders (chars g) (ps_headfields p) = (True, h)"
    using head_okD(2) [OF h(1)] p(2) by (simp add: parsed_def)
  ultimately obtain p' where p': "Recv_step p = Inr (Continue, p')"
      "parser_at w0 (8192 + length f + length g) kBody d [] p'" "parsed p' = (mode, sl, rl, h)"
    using fields_done [OF p(1) [unfolded 2(1)] head_okD(6,4) [OF h(1)]] p(2) by (auto simp: parsed_def)
  have "length (wire m) < 2 ^ 30" using len(1) by simp
  from loop_body [OF h(2) p'(3) this len(2), of f g "[]" d] p'(2) 2
  show ?thesis using Recv_loop_Continue [OF p'(1)] by (simp add: pend_Nil bod_Nil)
qed

lemma loop_first:
  assumes h: "head_ok (mode0, sl0, rl0, h0) f g (mode, sl, rl, h)" "ok h m"
    and len: "length (wire m) < 2 ^ 29" "length w0 < 2 ^ 60"
    and p: "parser_at w0 8192 st c [] p" "st = kStart \<or> st = kFirstLine" "parsed p = (mode0, sl0, rl0, h0)"
    and c: "prefix c (f @ g @ wire m)"
  shows "\<exists>p'. Recv_loop p = Some (Inr p') \<and> progress (mode0, sl0, rl0, h0) f g (mode, sl, rl, h) m w0 c p'"
  using c
proof (cases rule: prefix_append_cases)
  case 1
  have "length KStringCRLF = 2" by (simp add: KStringCRLF_def)
  then have "str_find (c_str (chars c)) KStringCRLF 0 = None"
    using search_part [OF _ head_okD(3) [OF h(1)] 1] head_okD(5) [OF h(1)] by simp
  then obtain p' where "Recv_step p = Inr (Return, p')" "parser_at w0 8192 kFirstLine c [] p'" "parsed p' = parsed p"
    using first_line_wait [OF p(1,2)] 1(2) head_okD(8) [OF h(1)] by auto
  then show ?thesis using Recv_loop_Return p(3) 1(2) by (auto simp: progress_def)
next
  case (2 d)
  obtain l where l: "chars f = l @ KStringCRLF" "no_crlf l"
    using first_line_split [of "chars f"] head_okD(5) [OF h(1)] by auto
  have nul: "CHR 0x00 \<notin> set l" using head_okD(3) [OF h(1)] unfolding l(1) by simp
  have "length d \<le> length (g @ wire m)" using 2(2) by (rule prefix_length_le)
  then have "length (f @ d) < 2 ^ 30" using head_okD(8,9) [OF h(1)] len(1) by simp
  moreover have "\<not> prefix KStringCRLF (chars d)"
  proof
    assume "prefix KStringCRLF (chars d)"
    moreover have "prefix (chars d) (chars (g @ wire m))" using 2(2) by (rule map_mono_prefix)
    ultimately have "prefix KStringCRLF (chars g @ chars (wire m))" using prefix_order.trans by fastforce
    moreover have "length KStringCRLF \<le> length (chars g)"
      using str_find_SomeD(2) [OF head_okD(6) [OF h(1)]] by (simp add: KStringCRLFCRLF_def)
    ultimately show False using head_okD(7) [OF h(1)] by (simp add: prefix_take_iff)
  qed
  ultimately obtain p' where p': "Recv_step p = Inr (Continue, p')"
      "parser_at w0 (8192 + length f) kHeaderFields d [] p'" "parsed p' = (mode, sl, rl, h0)"
    using first_line_done [OF p(1) [unfolded 2(1)] p(2) l nul] head_okD(1) [OF h(1)] p(3)
    by (auto simp: parsed_def)
  from loop_fields [OF h len p'(2,3) 2(2)] show ?thesis
    using Recv_loop_Continue [OF p'(1)] 2(1) by simp
qed

lemma Recv_progress:
  assumes h: "head_ok (mode0, sl0, rl0, h0) f g (mode, sl, rl, h)" "ok h m"
    and len: "length (wire m) < 2 ^ 29" "length w0 < 2 ^ 60"
    and p: "progress (mode0, sl0, rl0, h0) f g (mode, sl, rl, h) m w0 u p"
    and u: "prefix (u @ d) (f @ g @ wire m)"
  shows "\<exists>p'. Recv p d = Some (Inr p') \<and> progress (mode0, sl0, rl0, h0) f g (mode, sl, rl, h) m w0 (u @ d) p'"
proof (cases "d = []")
  case True
  then show ?thesis using p by (simp add: Recv_def)
next
  case False
  have sz: "length f \<le> 8192" "length g \<le> 131072" "length u + length d \<le> length f + length g + length (wire m)"
    using head_okD(8,9) [OF h(1)] prefix_length_le [OF u] by simp_all
  then have lu: "length u + length d < 2 ^ 30" using len(1) by simp
  consider "length u < length f" | "length f \<le> length u" "length u < length f + length g"
    | "length f + length g \<le> length u" by linarith
  then show ?thesis
  proof cases
    case 1
    then obtain st where st: "st = kStart \<or> st = kFirstLine" "parser_at w0 8192 st u [] p" "parsed p = (mode0, sl0, rl0, h0)"
      using p by (auto simp: progress_def)
    have "length u + length d < 2 ^ 31" using lu by simp
    then obtain p' where "Recv p d = Recv_loop p'" "parser_at w0 8192 st (u @ d) [] p'" "parsed p' = parsed p"
      using Recv_enters_loop [OF st(2) _ _ _ False] by auto
    then show ?thesis using loop_first [OF h len(1,2) _ st(1) _ u] st(3) by metis
  next
    case 2
    define c where "c = drop (length f) u"
    have uc: "u = f @ c" unfolding c_def using prefix_front_split [OF u 2(1)] .
    have st: "parser_at w0 (8192 + length f) kHeaderFields c [] p" "parsed p = (mode, sl, rl, h0)"
      using p 2 by (auto simp: progress_def c_def)
    have "length c + length d < 2 ^ 31" "8192 + length f < 2 ^ 30" using lu sz by (simp_all add: c_def)
    then obtain p' where p': "Recv p d = Recv_loop p'" "parser_at w0 (8192 + length f) kHeaderFields (c @ d) [] p'"
        "parsed p' = parsed p"
      using Recv_enters_loop [OF st(1) _ _ _ False] by auto
    have "prefix (c @ d) (g @ wire m)" using u by (simp add: uc)
    from loop_fields [OF h len(1,2) p'(2) _ this] p' st(2) show ?thesis by (simp add: uc)
  next
    case 3
    define w where "w = drop (length f + length g) u"
    have "prefix (u @ d) ((f @ g) @ wire m)" "length (f @ g) \<le> length u" using u 3 by simp_all
    from prefix_front_split [OF this] have uw: "u = f @ g @ w" by (simp add: w_def)
    have pw: "prefix (w @ d) (wire m)" using u by (simp add: uw)
    then have "w \<noteq> wire m" using False by (auto simp: prefix_def)
    then have st: "parser_at w0 (8192 + length f + length g) kBody (pend m w) (bod m w) p" "parsed p = (mode, sl, rl, h)"
      using p 3 by (auto simp: progress_def w_def)
    have "length (pend m w) + length d < 2 ^ 31" "8192 + length f + length g < 2 ^ 30"
      using lu sz pend_le [of m w] by (simp_all add: uw)
    then obtain p' where p': "Recv p d = Recv_loop p'"
        "parser_at w0 (8192 + length f + length g) kBody (pend m w @ d) (bod m w) p'" "parsed p' = parsed p"
      using Recv_enters_loop [OF st(1) _ _ _ False] by auto
    have "length (wire m) < 2 ^ 30" using len(1) by simp
    from loop_body [OF h(2) _ this len(2) p'(2) pw] p' st(2) show ?thesis by (simp add: uw)
  qed
qed

lemma Recv_all_progress:
  assumes h: "head_ok (mode0, sl0, rl0, h0) f g (mode, sl, rl, h)" "ok h m"
    and len: "length (wire m) < 2 ^ 29" "length w0 < 2 ^ 60"
  shows "progress (mode0, sl0, rl0, h0) f g (mode, sl, rl, h) m w0 u p \<Longrightarrow> u @ concat ds = f @ g @ wire m \<Longrightarrow>
    \<exists>p'. Recv_all p ds = Some (Inr p') \<and> progress (mode0, sl0, rl0, h0) f g (mode, sl, rl, h) m w0 (f @ g @ wire m) p'"
proof (induction ds arbitrary: u p)
  case (Cons d ds)
  have "(u @ d) @ concat ds = f @ g @ wire m" using Cons.prems(2) by simp
  then have "prefix (u @ d) (f @ g @ wire m)" by (metis prefixI)
  then obtain p1 where "Recv p d = Some (Inr p1)"
      "progress (mode0, sl0, rl0, h0) f g (mode, sl, rl, h) m w0 (u @ d) p1"
    using Recv_progress [OF h len Cons.prems(1)] by blast
  then show ?case using Cons.IH [of "u @ d" p1] Cons.prems(2) by simp
qed simp

text \<open>The whole message, from a new parser.\<close>

lemma Recv_all_message:
  assumes h: "head_ok (kRespond, StatusLine_default, RequestLine_default, HeaderFields_empty) f g (mode, sl, rl, h)" "ok h m"
    and len: "length (wire m) < 2 ^ 29" "length (written bb) < 2 ^ 60"
    and bb: "sink_ok bb" and ds: "concat ds = f @ g @ wire m"
  shows "\<exists>p' N. Recv_all (Parser_new (Some (MemoryBodyReceiver_new bb)) manage) ds = Some (Inr p')
    \<and> parsed p' = (mode, sl, rl, h) \<and> parser_at (written bb) N kEnd [] (payload m) p'"
proof -
  let ?p = "Parser_new (Some (MemoryBodyReceiver_new bb)) manage"
  have "2 \<le> length f"
    using str_find_SomeD(2) [OF head_okD(5) [OF h(1)]] by (simp add: KStringCRLF_def)
  then have "progress (kRespond, StatusLine_default, RequestLine_default, HeaderFields_empty) f g (mode, sl, rl, h) m (written bb) [] ?p"
    using parser_at_new [OF bb, of manage] by (auto simp: progress_def parsed_def Parser_new_def)
  from Recv_all_progress [OF h len this, of ds] ds show ?thesis
    by (auto simp: progress_def)
qed

end

end
