(* ===== verification/Http_Bodies.thy ===== *)
theory Http_Bodies
  imports Http_Recv
begin

text \<open>
  The two ways of transferring a body, as instances of the interface \<open>body_decoder\<close>: a body whose length is
  announced by \<^verbatim>\<open>Content-Length\<close> and a body sent in chunks as \<^verbatim>\<open>IStreamBodyProvider::AppendHeader\<close>,
  \<^verbatim>\<open>AppendTail\<close> and \<^verbatim>\<open>EofData\<close> write them. The properties at the end say that the parser reads both, however the
  message is cut; when the loop of \<^verbatim>\<open>Recv\<close> returns and when it does not; and what a hostile body can do.
\<close>

lemma Recv_body_step:
  assumes "ps_recvstatus p = kBody" "ps_bodyreceiver p = Some r"
    "recv_body (ps_headfields p) kBody r (ps_recvbuf p) (Length (ps_recvbuf p)) = Inr (fl, st, r', b')"
  shows "Recv_step p = Inr (if fl = Return \<or> Length b' = 0 then Return else Continue,
    p\<lparr>ps_recvstatus := st, ps_bodyreceiver := Some r', ps_recvbuf := b'\<rparr>)"
  using assms by (simp add: Recv_step_def Recv_body_def)

lemma parser_at_receiver:
  assumes "parser_at w0 N st c bod p"
  obtains r where "ps_bodyreceiver p = Some r" "rcv_ok w0 bod (Some r)" "rb_ok c (ps_recvbuf p)"
    "br_total_length r = length bod"
  using assms by (auto simp: parser_at_def rcv_ok_def)

section \<open>Content-Length\<close>

definition length_ok :: "HeaderFields \<Rightarrow> bytes \<Rightarrow> bool" where
  "length_ok h m \<longleftrightarrow> \<not> IsTransferEncodingChunked h \<and> ContentLength h = int (length m)"

lemma body_length_step:
  assumes "length_ok h m" "rcv_ok w0 w (Some r)" "rb_ok d b" "prefix (w @ d) m" "length m < 2 ^ 30" "length w0 < 2 ^ 60"
  shows "\<exists>r' b'. recv_body h kBody r b n = Inr (if w @ d = m then Return else Continue, if w @ d = m then kEnd else kBody, r', b')
    \<and> rcv_ok w0 (w @ d) (Some r') \<and> rb_ok [] b'"
proof -
  have tot: "br_total_length r = length w" using assms(2) by (auto simp: rcv_ok_def)
  have le: "length w + length d \<le> length m" using prefix_length_le [OF assms(4)] by simp
  then have ints: "to_int (int (length d) + int (length w)) = int (length d) + int (length w)"
      "to_int (int (length d)) = int (length d)" "to_size (int (length d)) = length d"
    using assms(5) by (auto intro!: to_int_id)
  obtain r' where r': "AppendData r b 0 (length d) = Inr r'" "rcv_ok w0 (w @ d) (Some r')"
    using AppendData_ok [OF assms(2,3), of 0 "length d"] le assms(5,6) by auto
  obtain b' where b': "Move b (- int (length d)) = Inr b'" "rb_ok [] b'"
    using rb_Move [of d "[]" b] assms(3,5) le by auto
  have tot': "br_total_length r' = length w + length d" using r'(2) by (auto simp: rcv_ok_def)
  have "to_int (int (length w) + int (length d)) = int (length w) + int (length d)"
    using le assms(5) by (auto intro!: to_int_id)
  moreover have "length w + length d = length m \<longleftrightarrow> w @ d = m"
    using assms(4) by (auto simp: prefix_def)
  ultimately have fin: "to_int (int (BodyReceiver_Length r')) = int (length m) \<longleftrightarrow> w @ d = m"
    unfolding BodyReceiver_Length_def tot' of_nat_add by linarith
  have "recv_body h kBody r b n = rbind (AppendData r b 0 (length d)) (\<lambda>r'. rbind (Move b (- int (length d))) (\<lambda>b'.
      if to_int (int (BodyReceiver_Length r')) = int (length m) then Inr (Return, kEnd, EndData r', b')
      else Inr (Continue, kBody, r', b')))"
    using assms(1) tot ints le rb_Length [OF assms(3)]
    by (simp add: recv_body_def length_ok_def body_length_def BodyReceiver_Length_def)
  with r' b' fin show ?thesis by (cases "w @ d = m") (auto simp: EndData_def)
qed

interpretation cl: body_decoder length_ok "\<lambda>m. m" "\<lambda>m. m" "\<lambda>_ _. []" "\<lambda>_ w. w"
proof unfold_locales
  fix p m w0 N w d
  assume a: "length_ok (ps_headfields p) m" "parser_at w0 N kBody ([] @ d) w p" "prefix (w @ d) m"
    "length m < 2 ^ 30" "length w0 < 2 ^ 60"
  obtain r where r: "ps_bodyreceiver p = Some r" "rcv_ok w0 w (Some r)" "rb_ok d (ps_recvbuf p)"
    using a(2) by (auto elim: parser_at_receiver)
  obtain r' b' where s: "recv_body (ps_headfields p) kBody r (ps_recvbuf p) (Length (ps_recvbuf p))
      = Inr (if w @ d = m then Return else Continue, if w @ d = m then kEnd else kBody, r', b')"
      "rcv_ok w0 (w @ d) (Some r')" "rb_ok [] b'"
    using body_length_step [OF a(1) r(2,3) a(3-5)] by blast
  have "Length b' = 0" using rb_Length [OF s(3)] by simp
  then have "Recv_loop p = Some (Inr (p\<lparr>ps_recvstatus := if w @ d = m then kEnd else kBody,
      ps_bodyreceiver := Some r', ps_recvbuf := b'\<rparr>))"
    using Recv_body_step [OF _ r(1) s(1)] a(2) by (intro Recv_loop_Return) (simp add: parser_at_def)
  then show "\<exists>p'. Recv_loop p = Some (Inr p') \<and> parsed p' = parsed p
      \<and> (if w @ d = m then parser_at w0 N kEnd [] m p' else parser_at w0 N kBody [] (w @ d) p')"
    using a(2) s(2,3) by (auto simp: parser_at_def parsed_def)
qed simp_all

section \<open>Chunks\<close>

definition chunk_bytes :: "bytes \<Rightarrow> bytes" where
  "chunk_bytes d = bytes_of (hexdigits (length d) @ KStringCRLF) @ d @ bytes_of KStringCRLF"

definition chunk_wire :: "bytes list \<Rightarrow> bytes" where
  "chunk_wire cs = concat (map chunk_bytes cs) @ bytes_of EofData"

definition chunks_ok :: "HeaderFields \<Rightarrow> bytes list \<Rightarrow> bool" where
  "chunks_ok h cs \<longleftrightarrow> IsTransferEncodingChunked h \<and> [] \<notin> set cs"

fun pend_chunks :: "bytes list \<Rightarrow> bytes \<Rightarrow> bytes" where
  "pend_chunks [] w = w"
| "pend_chunks (c # cs) w =
     (if length (chunk_bytes c) \<le> length w then pend_chunks cs (drop (length (chunk_bytes c)) w) else w)"

fun bod_chunks :: "bytes list \<Rightarrow> bytes \<Rightarrow> bytes" where
  "bod_chunks [] w = []"
| "bod_chunks (c # cs) w =
     (if length (chunk_bytes c) \<le> length w then c @ bod_chunks cs (drop (length (chunk_bytes c)) w) else [])"

lemma chunk_wire_simps [simp]:
  "chunk_wire [] = bytes_of EofData" "chunk_wire (c # cs) = chunk_bytes c @ chunk_wire cs"
  by (simp_all add: chunk_wire_def)

lemma length_chunk: "length (chunk_bytes d) = length (hexdigits (length d)) + length d + 4"
  by (simp add: chunk_bytes_def KStringCRLF_def)

lemma pend_chunks_le: "length (pend_chunks cs w) \<le> length w"
  by (induction cs w rule: pend_chunks.induct) auto

lemma chunks_Nil: "pend_chunks cs [] = []" "bod_chunks cs [] = []"
  by (cases cs; simp add: length_chunk)+

lemma bod_chunks_wire: "bod_chunks cs (chunk_wire cs) = concat cs"
  by (induction cs) simp_all

text \<open>The size line of a chunk.\<close>

lemma size_line:
  assumes "length d < 2 ^ 30"
  shows "str_find (hexdigits (length d) @ KStringCRLF @ t) KStringCRLF 0 = Some (length (hexdigits (length d)))"
    "CHR 0x00 \<notin> set (hexdigits (length d) @ KStringCRLF)"
    "strtol16 (c_str (Trim (hexdigits (length d)))) = int (length d)"
proof -
  let ?h = "hexdigits (length d)"
  have v: "\<not> isspace c \<and> c \<noteq> CHR 0x00 \<and> c \<noteq> CHR 0x0A" if "c \<in> set ?h" for c
    using hexdigits_hexval [OF that] hexval_not_special by blast
  then have "CHR 0x0A \<notin> set ?h" by blast
  then show "str_find (?h @ KStringCRLF @ t) KStringCRLF 0 = Some (length ?h)"
    by (intro str_find_crlf_0 no_crlf_lf)
  have nul: "CHR 0x00 \<notin> set ?h" using v by blast
  then show "CHR 0x00 \<notin> set (?h @ KStringCRLF)" by (simp add: KStringCRLF_def)
  have "dropWhile isspace ?h = ?h" "dropWhile isspace (rev ?h) = rev ?h"
    using v [of "hd ?h"] v [of "last ?h"] unfolding dropWhile_eq_self_iff by (simp_all add: hd_rev)
  then have "Trim ?h = ?h" by (simp add: Trim_spec)
  then show "strtol16 (c_str (Trim ?h)) = int (length d)"
    using nul assms by (simp add: c_str_id strtol16_hexdigits)
qed

lemma chunk_wait_size:
  assumes "rb_ok x b" "prefix x (bytes_of (hexdigits (length d) @ KStringCRLF))"
    "length x < length (hexdigits (length d)) + 2" "length d < 2 ^ 30" "length x < 2 ^ 31"
  shows "body_chunk st r b n = Inr (Return, st, r, b)"
proof -
  let ?g = "bytes_of (hexdigits (length d) @ KStringCRLF)"
  have l: "length KStringCRLF = 2" "length ?g = length (hexdigits (length d)) + 2" by (simp_all add: KStringCRLF_def)
  have "str_find (chars ?g) KStringCRLF 0 = Some (length ?g - length KStringCRLF)"
    using size_line(1) [OF assms(4), of "[]"] l by simp
  moreover have "CHR 0x00 \<notin> set (chars ?g)" using size_line(2) [OF assms(4)] by simp
  ultimately have "str_find (c_str (chars x)) KStringCRLF 0 = None"
    using assms(2,3) l(2) by (intro search_part [of ?g]) simp_all
  then show ?thesis
    using rb_search [OF assms(1,5), of KStringCRLF] rb_Length [OF assms(1)] by (simp add: body_chunk_def)
qed

text \<open>A complete size line: the chunk waits for its data, or is delivered.\<close>

lemma chunk_size_found:
  assumes "rb_ok (bytes_of (hexdigits (length d) @ KStringCRLF) @ y) b" "length d < 2 ^ 30"
    "length (hexdigits (length d)) + length y < 2 ^ 30"
  shows "string_strnstr (ptr_mem b 0) KStringCRLF (to_int (int (Length b))) = Inr (Some (length (hexdigits (length d))))"
    "Ptr_bytes b 0 (length (hexdigits (length d))) = Inr (bytes_of (hexdigits (length d)))"
    "Length b = length (hexdigits (length d)) + 2 + length y"
proof -
  let ?h = "hexdigits (length d)" and ?x = "bytes_of (hexdigits (length d) @ KStringCRLF) @ y"
  have lx: "length ?x = length ?h + 2 + length y" by (simp add: KStringCRLF_def)
  show L: "Length b = length ?h + 2 + length y" using rb_Length [OF assms(1)] lx by simp
  have "chars ?x = (?h @ KStringCRLF) @ chars y" by simp
  then have "c_str (chars ?x) = ?h @ KStringCRLF @ c_str (chars y)"
    using c_str_append [OF size_line(2) [OF assms(2)], of "chars y"] by simp
  then show "string_strnstr (ptr_mem b 0) KStringCRLF (to_int (int (Length b))) = Inr (Some (length ?h))"
    using rb_search_Length [OF assms(1), of KStringCRLF] lx size_line(1) [OF assms(2)] assms(3) by simp
  show "Ptr_bytes b 0 (length ?h) = Inr (bytes_of ?h)"
    using rb_Ptr_front [of "bytes_of ?h" "bytes_of KStringCRLF @ y" b "length ?h"] assms(1) by simp
qed

lemma chunk_wait_data:
  assumes "rb_ok (bytes_of (hexdigits (length d) @ KStringCRLF) @ y) b" "d \<noteq> []" "length (chunk_bytes d) < 2 ^ 29"
    "length y < length d + 2"
  shows "body_chunk st r b n = Inr (Return, st, r, b)"
proof -
  let ?h = "hexdigits (length d)"
  have sz: "length d < 2 ^ 30" "length ?h + length y < 2 ^ 30" using assms(3,4) by (simp_all add: length_chunk)
  note found = chunk_size_found [OF assms(1) sz]
  have "to_off (int (length d) + int (length ?h) + 4) = int (length d) + int (length ?h) + 4"
    using assms(3) by (intro to_off_id) (simp_all add: length_chunk)
  then show ?thesis
    using found size_line(3) [OF sz(1)] assms(2,4) by (simp add: body_chunk_def)
qed

lemma bytes_crlf: "bytes_of KStringCRLF = [13, 10]"
  by (simp add: KStringCRLF_def byte_of_def)

lemma chunk_deliver:
  assumes "rb_ok (chunk_bytes d @ y) b" "rcv_ok w0 bod (Some r)" "d \<noteq> []" "length (chunk_bytes d @ y) < 2 ^ 30"
    "length w0 + length bod + length d < 2 ^ 61"
  shows "\<exists>r' b'. body_chunk st r b n = Inr (Continue, st, r', b') \<and> rcv_ok w0 (bod @ d) (Some r') \<and> rb_ok y b'"
proof -
  let ?h = "hexdigits (length d)"
  define e where "e = length ?h"
  have x: "chunk_bytes d @ y = bytes_of (?h @ KStringCRLF) @ (d @ [13, 10] @ y)"
    by (simp add: chunk_bytes_def bytes_crlf)
  have le: "length (bytes_of (?h @ KStringCRLF)) = e + 2" by (simp add: e_def KStringCRLF_def)
  have sz: "length d < 2 ^ 30" "length ?h + length (d @ [13, 10] @ y) < 2 ^ 30"
    using assms(4) by (simp_all add: length_chunk)
  note found = chunk_size_found [OF assms(1) [unfolded x] sz]
  have off: "to_off (int (length d) + int e + 4) = int (length d) + int e + 4"
    using assms(4) by (intro to_off_id) (simp_all add: length_chunk e_def)
  have dr: "drop (e + 2 + length d) (chunk_bytes d @ y) = [13, 10] @ y" "take (length d) (drop (e + 2) (chunk_bytes d @ y)) = d"
    unfolding x using le by simp_all
  have lc: "e + 2 + length d + 2 + length y = length (chunk_bytes d @ y)" by (simp add: length_chunk e_def)
  have p1: "Ptr_bytes b (int (e + 2 + length d)) 1 = Inr [13]"
    using rb_Ptr [OF assms(1), of "e + 2 + length d" 1] lc dr(1) by simp
  have p2: "Ptr_bytes b (int (e + 2 + length d + 1)) 1 = Inr [10]"
    using rb_Ptr [OF assms(1), of "e + 2 + length d + 1" 1] lc dr(1) drop_drop [of 1 "e + 2 + length d" "chunk_bytes d @ y"]
    by (simp add: add.commute)
  obtain r' where r': "AppendData r b (int (e + 2)) (length d) = Inr r'" "rcv_ok w0 (bod @ d) (Some r')"
    using AppendData_ok [OF assms(2,1), of "e + 2" "length d"] lc dr(2) assms(5) by auto
  obtain b' where b': "Move b (- int (length (chunk_bytes d))) = Inr b'" "rb_ok y b'"
    using rb_Move [OF assms(1)] assms(4) by auto
  have mv: "int e + 2 + int (length d) + 2 = int (length (chunk_bytes d))" by (simp add: length_chunk e_def)
  have L: "\<not> int (Length b) < int (length d) + int e + 4" using found(3) by (simp add: e_def)
  have "Ptr_bytes b (int e + 2 + int (length d)) 1 = Inr [13]" "Ptr_bytes b (int e + 2 + int (length d) + 1) 1 = Inr [10]"
    "AppendData r b (int e + 2) (length d) = Inr r'" "Move b (- (int e + 2 + int (length d) + 2)) = Inr b'"
    using p1 p2 r'(1) b'(1) mv by (simp_all add: ac_simps)
  then have "body_chunk st r b n = Inr (Continue, st, r', b')"
    using found(1,2) size_line(3) [OF sz(1)] assms(3) off L sz(1) by (simp add: body_chunk_def Let_def flip: e_def)
  then show ?thesis using r'(2) b'(2) by blast
qed

section \<open>The last chunk\<close>

lemma eof_bytes: "bytes_of EofData = bytes_of ''0'' @ [13, 10] @ [13, 10]" "EofData = ''0'' @ KStringCRLF @ KStringCRLF"
  by (simp_all add: EofData_def bytes_crlf)

lemma eof_size: "strtol16 (c_str (Trim ''0'')) = 0"
  by (simp add: c_str_def Trim_def isspace_def strtol16_def skip_0x_def hexval_def isdigit_def)

lemma eof_wait:
  assumes "rb_ok x b" "prefix x (bytes_of EofData)" "x \<noteq> bytes_of EofData" "n = length x"
  shows "body_chunk st r b n = Inr (Return, st, r, b)"
proof -
  have x: "x = take (length x) (bytes_of EofData)" using assms(2) by (metis append_eq_conv_conj prefix_def)
  have l5: "length (bytes_of EofData) = 5" by (simp add: EofData_def KStringCRLF_def)
  then have lt: "length x < 5" using prefix_length_le [OF assms(2)] x assms(3) by (metis le_neq_implies_less take_all order_refl)
  have cx: "chars x = take (length x) EofData" using arg_cong [OF x, of chars] by (simp add: take_map [symmetric])
  have srch: "string_strnstr (ptr_mem b 0) KStringCRLF (to_int (int (Length b))) = Inr (str_find (c_str (chars x)) KStringCRLF 0)"
    using rb_search_Length [OF assms(1), of KStringCRLF] lt by simp
  show ?thesis
  proof (cases "length x < 3")
    case True
    have "str_find (''0'' @ KStringCRLF) KStringCRLF 0 = Some 1"
      using str_find_crlf_0 [of "''0''" "[]"] by (simp add: no_crlf_lf)
    then have "str_find EofData KStringCRLF 0 = Some 1" using str_find_append by (fastforce simp: EofData_def)
    then have "str_find (take (length x) EofData) KStringCRLF 0 = None"
      by (rule str_find_incomplete) (use True in \<open>simp add: KStringCRLF_def\<close>)
    moreover have "CHR 0x00 \<notin> set (take (length x) EofData)"
      by (auto simp: EofData_def KStringCRLF_def dest: in_set_takeD)
    ultimately show ?thesis using srch cx by (simp add: body_chunk_def c_str_id)
  next
    case False
    then have "length x = 3 \<or> length x = 4" using lt by arith
    then obtain y where "chars x = ''0'' @ KStringCRLF @ y" "CHR 0x00 \<notin> set (chars x)" "take 1 x = bytes_of ''0''"
      using cx arg_cong [OF x, of "take 1"] by (auto simp: EofData_def KStringCRLF_def)
    then have "str_find (c_str (chars x)) KStringCRLF 0 = Some 1" "Ptr_bytes b 0 1 = Inr (bytes_of ''0'')"
      using str_find_crlf_0 [of "''0''" y] rb_Ptr [OF assms(1), of 0 1] False by (simp_all add: no_crlf_lf c_str_id)
    then show ?thesis using srch eof_size lt assms(4) by (simp add: body_chunk_def to_uint_def)
  qed
qed

lemma eof_done:
  assumes "rb_ok (bytes_of EofData) b"
  shows "\<exists>b'. body_chunk st r b 5 = Inr (Continue, kEnd, r, b') \<and> rb_ok [] b'"
proof -
  obtain a where a: "ab_parray b = Some a" "take 5 a = bytes_of EofData" "128 \<le> length a"
  proof -
    have "content b = bytes_of EofData" "wf_buf b" "128 dvd ab_capacity b" using assms by (simp_all add: rb_ok_def)
    moreover have "ab_length b = 5" using rb_Length [OF assms] by (simp add: Length_def EofData_def KStringCRLF_def)
    ultimately show thesis
      using that by (cases "ab_parray b") (auto simp: content_def ab_block_def wf_buf_def EofData_def dest: dvd_imp_le)
  qed
  have L: "Length b = 5" using rb_Length [OF assms] by (simp add: EofData_def KStringCRLF_def)
  have i5: "to_int 5 = 5" by (simp add: to_int_def)
  have "c_str (chars (bytes_of EofData)) = ''0'' @ KStringCRLF @ KStringCRLF"
    by (simp add: EofData_def KStringCRLF_def c_str_def)
  then have s1: "string_strnstr (ptr_mem b 0) KStringCRLF (to_int (int (Length b))) = Inr (Some 1)"
    using rb_search_Length [OF assms, of KStringCRLF] str_find_crlf_0 [of "''0''" KStringCRLF]
    by (simp add: no_crlf_lf EofData_def KStringCRLF_def)
  have p0: "Ptr_bytes b 0 1 = Inr (bytes_of ''0'')" using rb_Ptr [OF assms, of 0 1] by (simp add: EofData_def)
  define u where "u = drop 2 (take 5 (drop 3 a))"
  have "take 2 (take 5 (drop 3 a)) = drop 3 (take 5 a)" by (simp add: drop_take)
  also have "\<dots> = bytes_of KStringCRLF" unfolding a(2) by (simp add: EofData_def KStringCRLF_def)
  finally have "chars (take 5 (drop 3 a)) = KStringCRLF @ chars u"
    unfolding u_def by (metis append_take_drop_id chars_bytes_of map_append)
  then have "str_find (c_str (take 5 (chars (drop 3 a)))) KStringCRLF 0 = Some 0"
    using c_str_append [of KStringCRLF "chars u"] str_find_crlf_0 [of "[]" "c_str (chars u)"]
    by (simp add: take_map KStringCRLF_def no_crlf_lf)
  then have s2: "string_strnstr (ptr_mem b 3) KStringCRLF 5 = Inr (Some 0)"
    using string_strnstr_eq [of KStringCRLF 5 "chars (drop 3 a)"] a(1,3) by (simp add: ptr_mem_def)
  obtain b' where b': "Move b (- 5) = Inr b'" "rb_ok [] b'"
    using rb_Move [of "bytes_of EofData" "[]" b] assms by (auto simp: EofData_def KStringCRLF_def)
  have "body_chunk st r b 5 = Inr (Continue, kEnd, r, b')"
    using s1 p0 eof_size s2 b'(1) L i5 by (simp add: body_chunk_def to_uint_def EndData_def numeral_3_eq_3)
  then show ?thesis using b'(2) by blast
qed

section \<open>The loop on chunks\<close>

lemma chunk_step:
  assumes "parser_at w0 N kBody x bod p" "IsTransferEncodingChunked (ps_headfields p)" "ps_bodyreceiver p = Some r"
    "body_chunk kBody r (ps_recvbuf p) (length x) = Inr (fl, st, r', b')"
  shows "Recv_step p = Inr (if fl = Return \<or> Length b' = 0 then Return else Continue,
    p\<lparr>ps_recvstatus := st, ps_bodyreceiver := Some r', ps_recvbuf := b'\<rparr>)"
  using assms rb_Length [of x "ps_recvbuf p"] by (intro Recv_body_step) (simp_all add: recv_body_def parser_at_def)

lemma chunk_loop:
  assumes "parser_at w0 N kBody x bod p" "prefix x (chunk_wire cs)" "IsTransferEncodingChunked (ps_headfields p)"
    "[] \<notin> set cs" "length (chunk_wire cs) < 2 ^ 29" "length w0 + length bod + length (chunk_wire cs) < 2 ^ 61"
  shows "\<exists>p'. Recv_loop p = Some (Inr p') \<and> parsed p' = parsed p
    \<and> (if x = chunk_wire cs then parser_at w0 N kEnd [] (bod @ concat cs) p'
       else parser_at w0 N kBody (pend_chunks cs x) (bod @ bod_chunks cs x) p')"
  using assms
proof (induction cs arbitrary: x bod p)
  case Nil
  obtain r where r: "ps_bodyreceiver p = Some r" "rcv_ok w0 bod (Some r)" "rb_ok x (ps_recvbuf p)"
    using parser_at_receiver [OF Nil.prems(1)] by metis
  show ?case
  proof (cases "x = bytes_of EofData")
    case True
    obtain b' where b': "body_chunk kBody r (ps_recvbuf p) 5 = Inr (Continue, kEnd, r, b')" "rb_ok [] b'"
      using eof_done r(3) True by blast
    have "length x = 5" by (simp add: True EofData_def KStringCRLF_def)
    then have "Recv_step p = Inr (Return, p\<lparr>ps_recvstatus := kEnd, ps_bodyreceiver := Some r, ps_recvbuf := b'\<rparr>)"
      using chunk_step [OF Nil.prems(1,3) r(1)] b'(1) rb_Length [OF b'(2)] by simp
    from Recv_loop_Return [OF this] show ?thesis
      using True Nil.prems(1) b'(2) r by (simp add: parser_at_def parsed_def)
  next
    case False
    have "body_chunk kBody r (ps_recvbuf p) (length x) = Inr (Return, kBody, r, ps_recvbuf p)"
      using Nil.prems(2) False by (intro eof_wait [OF r(3)]) simp_all
    from Recv_loop_Return [OF chunk_step [OF Nil.prems(1,3) r(1) this, simplified]] show ?thesis
      using False Nil.prems(1) r by (simp add: parser_at_def parsed_def)
  qed
next
  case (Cons c cs)
  obtain r where r: "ps_bodyreceiver p = Some r" "rcv_ok w0 bod (Some r)" "rb_ok x (ps_recvbuf p)"
    using parser_at_receiver [OF Cons.prems(1)] by metis
  have c: "c \<noteq> []" "[] \<notin> set cs" using Cons.prems(4) by auto
  have sz: "length (chunk_bytes c) < 2 ^ 29" "length c < 2 ^ 30" using Cons.prems(5) by (simp_all add: length_chunk)
  from Cons.prems(2) have "prefix x (chunk_bytes c @ chunk_wire cs)" by simp
  then show ?case
  proof (cases rule: prefix_append_cases)
    case 1
    let ?g = "bytes_of (hexdigits (length c) @ KStringCRLF)"
    have "prefix x (?g @ c @ bytes_of KStringCRLF)" using 1(1) by (simp add: chunk_bytes_def)
    then have "body_chunk kBody r (ps_recvbuf p) (length x) = Inr (Return, kBody, r, ps_recvbuf p)"
    proof (cases rule: prefix_append_cases)
      case 1
      then show ?thesis using sz \<open>length x < length (chunk_bytes c)\<close>
        by (intro chunk_wait_size [OF r(3), of c]) (simp_all add: KStringCRLF_def)
    next
      case (2 y)
      have "length y < length c + 2" using 1(2) 2(1) by (simp add: length_chunk KStringCRLF_def)
      then show ?thesis using chunk_wait_data [OF r(3) [unfolded 2(1)] c(1) sz(1)] by simp
    qed
    from Recv_loop_Return [OF chunk_step [OF Cons.prems(1,3) r(1) this, simplified]] show ?thesis
      using 1(2) Cons.prems(1) r by (auto simp: parser_at_def parsed_def)
  next
    case (2 y)
    have ly: "length y \<le> length (chunk_wire cs)" using prefix_length_le [OF 2(2)] .
    have cc: "length c \<le> length (chunk_bytes c)" by (simp add: length_chunk)
    obtain r' b' where d: "body_chunk kBody r (ps_recvbuf p) (length x) = Inr (Continue, kBody, r', b')"
        "rcv_ok w0 (bod @ c) (Some r')" "rb_ok y b'"
      using chunk_deliver [OF r(3) [unfolded 2(1)] r(2) c(1)] ly cc Cons.prems(5,6) by fastforce
    let ?p = "p\<lparr>ps_recvstatus := kBody, ps_bodyreceiver := Some r', ps_recvbuf := b'\<rparr>"
    have p': "parser_at w0 N kBody y (bod @ c) ?p" "parsed ?p = parsed p" "IsTransferEncodingChunked (ps_headfields ?p)"
      using Cons.prems(1,3) d(2,3) by (simp_all add: parser_at_def parsed_def)
    show ?thesis
    proof (cases "y = []")
      case True
      then have "Recv_step p = Inr (Return, ?p)"
        using chunk_step [OF Cons.prems(1,3) r(1) d(1)] rb_Length [OF d(3)] by simp
      from Recv_loop_Return [OF this] show ?thesis
        using p' True 2(1) by (simp add: chunks_Nil chunk_wire_def EofData_def)
    next
      case False
      then have "Recv_step p = Inr (Continue, ?p)"
        using chunk_step [OF Cons.prems(1,3) r(1) d(1)] rb_Length [OF d(3)] by simp
      moreover obtain p2 where "Recv_loop ?p = Some (Inr p2)" "parsed p2 = parsed ?p"
          "if y = chunk_wire cs then parser_at w0 N kEnd [] ((bod @ c) @ concat cs) p2
           else parser_at w0 N kBody (pend_chunks cs y) ((bod @ c) @ bod_chunks cs y) p2"
        using Cons.IH [OF p'(1) 2(2) p'(3) c(2)] Cons.prems(5,6) cc by fastforce
      ultimately show ?thesis using Recv_loop_Continue 2(1) p'(2) by (cases "y = chunk_wire cs") simp_all
    qed
  qed
qed

lemma chunk_body_loop:
  assumes "chunks_ok (ps_headfields p) cs" "parser_at w0 N kBody (pend_chunks cs w @ d) (b0 @ bod_chunks cs w) p"
    "prefix (w @ d) (chunk_wire cs)" "length (chunk_wire cs) < 2 ^ 29"
    "length w0 + length b0 + length (chunk_wire cs) < 2 ^ 61"
  shows "\<exists>p'. Recv_loop p = Some (Inr p') \<and> parsed p' = parsed p
    \<and> (if w @ d = chunk_wire cs then parser_at w0 N kEnd [] (b0 @ concat cs) p'
       else parser_at w0 N kBody (pend_chunks cs (w @ d)) (b0 @ bod_chunks cs (w @ d)) p')"
  using assms
proof (induction cs arbitrary: w b0)
  case Nil
  then show ?case using chunk_loop [of w0 N "w @ d" b0 p "[]"] by (simp add: chunks_ok_def)
next
  case (Cons c cs)
  show ?case
  proof (cases "length (chunk_bytes c) \<le> length w")
    case False
    then show ?thesis using chunk_loop [of w0 N "w @ d" b0 p "c # cs"] Cons.prems by (simp add: chunks_ok_def)
  next
    case True
    define v where "v = drop (length (chunk_bytes c)) w"
    have w: "w = chunk_bytes c @ v" using prefix_front_split [of w d "chunk_bytes c" "chunk_wire cs"] Cons.prems(3) True
      by (simp add: v_def)
    have "length w0 + length (b0 @ c) + length (chunk_wire cs) < 2 ^ 61"
      using Cons.prems(5) by (simp add: length_chunk)
    then obtain p' where "Recv_loop p = Some (Inr p')" "parsed p' = parsed p"
        "if v @ d = chunk_wire cs then parser_at w0 N kEnd [] ((b0 @ c) @ concat cs) p'
         else parser_at w0 N kBody (pend_chunks cs (v @ d)) ((b0 @ c) @ bod_chunks cs (v @ d)) p'"
      using Cons.IH [of v "b0 @ c"] Cons.prems by (auto simp: w chunks_ok_def)
    then show ?thesis by (cases "v @ d = chunk_wire cs") (simp_all add: w)
  qed
qed

interpretation chunked: body_decoder
  "\<lambda>h cs. chunks_ok h cs \<and> length (chunk_wire cs) < 2 ^ 29" chunk_wire concat pend_chunks bod_chunks
proof unfold_locales
  fix p cs w0 N w d
  assume a: "chunks_ok (ps_headfields p) cs \<and> length (chunk_wire cs) < 2 ^ 29"
    "parser_at w0 N kBody (pend_chunks cs w @ d) (bod_chunks cs w) p" "prefix (w @ d) (chunk_wire cs)" "length w0 < 2 ^ 60"
  then show "\<exists>p'. Recv_loop p = Some (Inr p') \<and> parsed p' = parsed p
      \<and> (if w @ d = chunk_wire cs then parser_at w0 N kEnd [] (concat cs) p'
         else parser_at w0 N kBody (pend_chunks cs (w @ d)) (bod_chunks cs (w @ d)) p')"
    using chunk_body_loop [of p cs w0 N w d "[]", unfolded append_Nil] by simp
qed (simp_all add: chunks_Nil pend_chunks_le bod_chunks_wire)

section \<open>Messages\<close>

text \<open>What a parser that has received a whole message holds.\<close>

lemma parser_at_end:
  assumes "parser_at w0 N kEnd [] bod p"
  shows "Success p" "content (ps_recvbuf p) = []"
    "\<exists>r bb. ps_bodyreceiver p = Some r \<and> br_body r = Some bb \<and> br_total_length r = length bod \<and> written bb = w0 @ bod"
  using assms by (auto simp: parser_at_def rb_ok_def rcv_ok_def Success_def)

text \<open>The head that a request line and header fields are printed as is well formed.\<close>

definition request_ok :: "RequestLine \<Rightarrow> bool" where
  "request_ok r \<longleftrightarrow> rl_http_method r \<noteq> kUnknown \<and> rl_http_method r \<noteq> kMax \<and> rl_http_version r \<noteq> kVersion_Unknow
     \<and> rl_req_url r \<noteq> [] \<and> CHR '' '' \<notin> set (rl_req_url r) \<and> CHR 0x00 \<notin> set (rl_req_url r) \<and> no_crlf (rl_req_url r)
     \<and> length (rl_req_url r) \<le> 8000"

definition fields_ok :: "HeaderFields \<Rightarrow> bool" where
  "fields_ok h \<longleftrightarrow> hf_ok h \<and> hf_headers h \<noteq> [] \<and> (\<forall>p \<in> set (hf_headers h). printable p)
     \<and> length (HeaderFields_ToString h) \<le> 131070"

lemma request_line_text:
  assumes "request_ok r" "RequestLine_ToString r = Inr s"
  shows "parse_first_line mode0 sl0 rl0 s = (True, kRequest, sl0, r)" "CHR 0x00 \<notin> set s"
    "str_find s KStringCRLF 0 = Some (length s - 2)" "length s \<le> 8192"
proof -
  obtain n where n: "kHttpMethodString (rl_http_method r) = Inr n" "CHR 0x0A \<notin> set n" "CHR 0x00 \<notin> set n"
      "\<not> prefix ''HTTP/'' (n @ KStringSpace @ t)" "length n \<le> 7" for t
    using assms(1) by (cases "rl_http_method r") (simp_all add: request_ok_def kHttpMethodString_def KStringSpace_def)
  let ?l = "n @ KStringSpace @ rl_req_url r @ KStringSpace @ kHttpVersionString (rl_http_version r)"
  have s: "s = ?l @ KStringCRLF" using assms(2) n(1) by (auto simp: RequestLine_ToString_def)
  have v: "CHR 0x00 \<notin> set (kHttpVersionString (rl_http_version r))" "length (kHttpVersionString (rl_http_version r)) \<le> 15"
    by (cases "rl_http_version r"; simp add: kHttpVersionString_def)+
  have "no_crlf ?l"
    using assms(1) n(2) version_name(2) by (simp add: KStringSpace_def request_ok_def no_crlf_join no_crlf_lf)
  then show "str_find s KStringCRLF 0 = Some (length s - 2)"
    unfolding s using str_find_crlf_0 [of ?l "[]"] by (simp add: KStringCRLF_def)
  show "CHR 0x00 \<notin> set s" "length s \<le> 8192"
    unfolding s using assms(1) n(3,5) v by (simp_all add: request_ok_def KStringSpace_def KStringCRLF_def)
  have "\<not> StartsWith s ''HTTP/''" using n(4) by (simp add: s StartsWith_def str_find_0_iff)
  moreover have "RequestLine_FromString rl0 (s @ []) = (True, r)"
    using RequestLine_reparse [of r rl0 "[]"] assms by (auto simp: request_ok_def)
  ultimately show "parse_first_line mode0 sl0 rl0 s = (True, kRequest, sl0, r)" by (simp add: parse_first_line_def)
qed

lemma header_block_text:
  assumes "fields_ok h"
  defines "t \<equiv> HeaderFields_ToString h @ KStringCRLF"
  shows "ParserHeaders t HeaderFields_empty = (True, h)" "CHR 0x00 \<notin> set t"
    "str_find t KStringCRLFCRLF 0 = Some (length t - 4)" "\<not> prefix KStringCRLF t" "length t \<le> 131072"
proof -
  let ?ls = "map (\<lambda>(k, v). k @ KStringColon @ KStringSpace @ v) (hf_headers h)"
  have t: "t = concat (map (\<lambda>l. l @ KStringCRLF) ?ls) @ KStringCRLF"
    by (simp add: t_def HeaderFields_ToString_def comp_def case_prod_unfold)
  have ls: "?ls \<noteq> []" "\<forall>l \<in> set ?ls. l \<noteq> [] \<and> no_crlf l"
    using assms(1) by (auto simp: fields_ok_def printable_def KStringColon_def KStringSpace_def intro!: no_crlf_join no_crlf_Cons)
  have len: "length t = length (concat (map (\<lambda>l. l @ KStringCRLF) ?ls)) + 2" unfolding t by (simp add: KStringCRLF_def)
  show "ParserHeaders t HeaderFields_empty = (True, h)"
    unfolding t_def using assms(1) by (intro HeaderFields_reparse) (auto simp: fields_ok_def)
  show "str_find t KStringCRLFCRLF 0 = Some (length t - 4)"
    using str_find_empty_line [OF ls] len unfolding t by simp
  show "CHR 0x00 \<notin> set t"
    using assms(1) by (auto simp: t_def HeaderFields_ToString_def fields_ok_def hf_ok_def KStringColon_def KStringSpace_def KStringCRLF_def)
  show "length t \<le> 131072" using assms(1) by (simp add: t_def fields_ok_def KStringCRLF_def)
  obtain l ls' where l: "?ls = l # ls'" using ls(1) by (cases ?ls) auto
  then have "l \<noteq> []" "no_crlf l" using ls(2) by (metis list.set_intros(1))+
  then show "\<not> prefix KStringCRLF t"
    using crlf_at_line [of l 0 "concat (map (\<lambda>l. l @ KStringCRLF) ls') @ KStringCRLF"] unfolding t l by simp
qed

lemma head_ok_request:
  assumes "request_ok r" "RequestLine_ToString r = Inr s" "fields_ok h"
  shows "head_ok (mode0, sl0, rl0, HeaderFields_empty) (bytes_of s) (bytes_of (HeaderFields_ToString h @ KStringCRLF))
    (kRequest, sl0, r, h)"
  unfolding head_ok_def chars_bytes_of length_map prod.case
  using request_line_text [OF assms(1,2)] header_block_text [OF assms(3)] by simp

text \<open>A request and two sets of fields for the examples.\<close>

definition ex_request :: RequestLine where
  "ex_request = RequestLine_new kPost ''/'' kVersion_1_1"

definition ex_line :: string where
  "ex_line = ''POST / HTTP/1.1'' @ KStringCRLF"

definition ex_fields :: "string \<Rightarrow> string \<Rightarrow> HeaderFields" where
  "ex_fields n v = \<lparr>hf_headers = [(n, v)]\<rparr>"

lemma ex_request_ok: "request_ok ex_request" "RequestLine_ToString ex_request = Inr ex_line"
  by (simp_all add: request_ok_def ex_request_def RequestLine_new_def c_str_def no_crlf_lf RequestLine_ToString_def
      kHttpMethodString_def kHttpVersionString_def ex_line_def KStringSpace_def)

lemma ex_fields_text: "HeaderFields_ToString (ex_fields n v) = n @ '': '' @ v @ KStringCRLF"
  by (simp add: HeaderFields_ToString_def ex_fields_def KStringColon_def KStringSpace_def)

lemma ex_length_ok: "fields_ok (ex_fields ''Content-Length'' ''5'')"
    "\<not> IsTransferEncodingChunked (ex_fields ''Content-Length'' ''5'')" "ContentLength (ex_fields ''Content-Length'' ''5'') = 5"
proof -
  show "fields_ok (ex_fields ''Content-Length'' ''5'')"
    by (simp add: fields_ok_def ex_fields_def hf_ok_def map_sorted_def printable_def no_crlf_lf Trim_def isspace_def
        HeaderFields_ToString_def KStringColon_def KStringSpace_def KStringCRLF_def)
  have "HeaderField (ex_fields ''Content-Length'' ''5'') KStringTransferEncoding = None"
    "HeaderField (ex_fields ''Content-Length'' ''5'') KStringContentLength = Some ''5''"
    by (simp_all add: HeaderField_def ex_fields_def http_less_key ckey_def c_str_def tolower_def isupper_def
        KStringTransferEncoding_def KStringContentLength_def)
  then show "\<not> IsTransferEncodingChunked (ex_fields ''Content-Length'' ''5'')" "ContentLength (ex_fields ''Content-Length'' ''5'') = 5"
    by (simp_all add: IsTransferEncodingChunked_def ContentLength_def strtol10_def isspace_def isdigit_def to_int_def)
qed

lemma ex_chunked_ok: "fields_ok (ex_fields ''transfer-encoding'' ''Chunked'')"
    "IsTransferEncodingChunked (ex_fields ''transfer-encoding'' ''Chunked'')"
proof -
  show "fields_ok (ex_fields ''transfer-encoding'' ''Chunked'')"
    by (simp add: fields_ok_def ex_fields_def hf_ok_def map_sorted_def printable_def no_crlf_lf Trim_def isspace_def
        HeaderFields_ToString_def KStringColon_def KStringSpace_def KStringCRLF_def)
  have "HeaderField (ex_fields ''transfer-encoding'' ''Chunked'') KStringTransferEncoding = Some ''Chunked''"
    by (simp add: HeaderField_def ex_fields_def http_less_key ckey_def c_str_def tolower_def isupper_def
        KStringTransferEncoding_def)
  then show "IsTransferEncodingChunked (ex_fields ''transfer-encoding'' ''Chunked'')"
    by (simp add: IsTransferEncodingChunked_def KStringChunked_def tolower_def isupper_def)
qed

text \<open>
  C11: a message with a \<^verbatim>\<open>Content-Length\<close> is parsed however it is cut into blocks: if the first line \<open>f\<close> and the header
  block \<open>g\<close> are well formed and parse to \<open>m\<close>, and the fields announce the length of the body, then passing
  the message to \<^verbatim>\<open>Recv\<close> in any blocks, empty ones included, returns each time, ends in success with exactly
  the parsed head and appends exactly the body to the receiver's buffer, with nothing left over.
\<close>

theorem Recv_content_length:
  assumes "head_ok (kRespond, StatusLine_default, RequestLine_default, HeaderFields_empty) f g (mode, sl, rl, h)"
    "\<not> IsTransferEncodingChunked h" "ContentLength h = int (length body)" "length body < 2 ^ 29"
    "sink_ok bb" "length (written bb) < 2 ^ 60" "concat ds = f @ g @ body"
  shows "\<exists>p r bb'. Recv_all (Parser_new (Some (MemoryBodyReceiver_new bb)) manage) ds = Some (Inr p) \<and> Success p
    \<and> parsed p = (mode, sl, rl, h) \<and> content (ps_recvbuf p) = [] \<and> ps_bodyreceiver p = Some r \<and> br_body r = Some bb'
    \<and> br_total_length r = length body \<and> written bb' = written bb @ body"
proof -
  have "length_ok h body" using assms(2,3) by (simp add: length_ok_def)
  from cl.Recv_all_message [OF assms(1) this assms(4,6,5,7)] parser_at_end show ?thesis by metis
qed

theorem Recv_content_length_witness:
  "\<exists>p r bb'. Recv_all (Parser_new (Some (MemoryBodyReceiver_new (AutoBuffer_new 128))) True)
      [bytes_of ''POST / HTT'', [], bytes_of (''P/1.1'' @ KStringCRLF @ ''Content-Length: 5'' @ KStringCRLF @ KStringCRLF @ ''he''), bytes_of ''llo'']
      = Some (Inr p) \<and> Success p
    \<and> parsed p = (kRequest, StatusLine_default, ex_request, ex_fields ''Content-Length'' ''5'') \<and> content (ps_recvbuf p) = []
    \<and> ps_bodyreceiver p = Some r \<and> br_body r = Some bb' \<and> br_total_length r = length (bytes_of ''hello'')
    \<and> written bb' = written (AutoBuffer_new 128) @ bytes_of ''hello''"
  by (rule Recv_content_length [OF head_ok_request [OF ex_request_ok ex_length_ok(1)] ex_length_ok(2) _ _ sink_ok_new(1)])
    (simp_all add: ex_length_ok(3) ex_line_def ex_fields_text)

text \<open>
  C9: a message sent in chunks is parsed however it is cut: with a chunked \<^verbatim>\<open>Transfer-Encoding\<close>, passing the head,
  any non-empty chunks as \<open>AppendHeader\<close> and \<open>AppendTail\<close> frame them and \<open>EofData\<close> to \<^verbatim>\<open>Recv\<close> in any blocks
  ends in success and appends exactly the data of the chunks, in order, to the receiver's buffer.
\<close>

theorem Recv_chunked:
  assumes "head_ok (kRespond, StatusLine_default, RequestLine_default, HeaderFields_empty) f g (mode, sl, rl, h)"
    "IsTransferEncodingChunked h" "[] \<notin> set cs" "length (chunk_wire cs) < 2 ^ 29"
    "sink_ok bb" "length (written bb) < 2 ^ 60" "concat ds = f @ g @ chunk_wire cs"
  shows "\<exists>p r bb'. Recv_all (Parser_new (Some (MemoryBodyReceiver_new bb)) manage) ds = Some (Inr p) \<and> Success p
    \<and> parsed p = (mode, sl, rl, h) \<and> content (ps_recvbuf p) = [] \<and> ps_bodyreceiver p = Some r \<and> br_body r = Some bb'
    \<and> br_total_length r = length (concat cs) \<and> written bb' = written bb @ concat cs"
proof -
  have "chunks_ok h cs \<and> length (chunk_wire cs) < 2 ^ 29" using assms(2-4) by (simp add: chunks_ok_def)
  from chunked.Recv_all_message [OF assms(1) this assms(4,6,5,7)] parser_at_end show ?thesis by metis
qed

theorem Recv_chunked_witness:
  "\<exists>p r bb'. Recv_all (Parser_new (Some (MemoryBodyReceiver_new (AutoBuffer_new 128))) True)
      [bytes_of (ex_line @ ''transfer-encoding: Chunked'' @ KStringCRLF @ KStringCRLF @ ''2''),
       bytes_of (KStringCRLF @ ''hi'' @ KStringCRLF @ ''0'' @ KStringCRLF @ KStringCRLF)]
      = Some (Inr p) \<and> Success p
    \<and> parsed p = (kRequest, StatusLine_default, ex_request, ex_fields ''transfer-encoding'' ''Chunked'') \<and> content (ps_recvbuf p) = []
    \<and> ps_bodyreceiver p = Some r \<and> br_body r = Some bb' \<and> br_total_length r = length (concat [bytes_of ''hi''])
    \<and> written bb' = written (AutoBuffer_new 128) @ concat [bytes_of ''hi'']"
  by (rule Recv_chunked [OF head_ok_request [OF ex_request_ok ex_chunked_ok(1)] ex_chunked_ok(2) _ _ sink_ok_new(1)])
    (simp_all add: ex_fields_text chunk_bytes_def
      hexdigits.simps hexdigit_def EofData_def KStringCRLF_def byte_of_def)

end
