(* ===== verification/Http_Loop.thy ===== *)
theory Http_Loop
  imports Http_Bodies
begin

text \<open>
  When \<^verbatim>\<open>Recv\<close> returns, whatever the bytes, and three ways in which it does not do what its callers
  expect: it never returns when it is called again after an error, the overload on a buffer of the
  caller never sees the end of a chunked body, and the search for the trailer of the last chunk leaves the
  allocated block.
\<close>

section \<open>Conversions\<close>

lemma to_int_cong: "x mod 2 ^ 32 = y mod 2 ^ 32 \<Longrightarrow> to_int x = to_int y"
  unfolding to_int_def by (metis mod_add_left_eq)

lemma to_int_mod: "to_int x mod 2 ^ 32 = x mod 2 ^ 32"
  by (simp add: to_int_def mod_diff_left_eq)

lemma to_size_mod: "int (to_size x) mod 2 ^ 32 = x mod 2 ^ 32"
proof -
  have "(2 :: int) ^ 32 dvd 2 ^ 64" by (rule le_imp_power_dvd) simp
  then show ?thesis by (simp add: to_size_def mod_mod_cancel)
qed

lemma to_int_idem: "to_int (to_int x) = to_int x"
  by (rule to_int_cong) (rule to_int_mod)

lemma ContentLength_int: "to_int (ContentLength h) = ContentLength h"
  by (simp add: ContentLength_def to_int_idem split: option.split) (simp add: to_int_def)

lemma AppendData_total:
  "AppendData r b off n = Inr r' \<Longrightarrow> br_total_length r' = to_size (int (br_total_length r) + int n)"
  by (auto simp: AppendData_def Let_def rbind_eq_Inr_iff split: option.splits)

section \<open>Progress of one pass\<close>

lemma Move_shorter:
  assumes "wf_buf b" "n < 2 ^ 63" "Move b (- int n) = Inr b'"
  shows "wf_buf b' \<and> Length b' = Length b - n"
  using Move_left_ok [OF assms(1,2)] assms(3) length_content [OF assms(1)] length_content [of b']
  by (auto simp: Length_def)

lemma search_bound:
  assumes "wf_buf b" "Length b < 2 ^ 31" "sub \<noteq> []"
    "string_strnstr (ptr_mem b 0) sub (to_int (int (Length b))) = Inr (Some i)"
  shows "i + length sub \<le> Length b"
proof -
  have L: "length (content b) = Length b" using length_content [OF assms(1)] by (simp add: Length_def)
  then have "str_find (c_str (chars (content b))) sub 0 = Some i"
    using search_content [OF assms(1) _ assms(3)] assms(2,4) by simp
  from str_find_SomeD(2) [OF this] show ?thesis
    using prefix_length_le [OF c_str_prefix [of "chars (content b)"]] L by simp
qed

lemma body_length_returns:
  assumes "wf_buf b" "Length b < 2 ^ 31" "body_length h st r b = Inr (Continue, st', r', b')"
  shows "Length b' = 0"
proof (rule ccontr)
  assume ne: "Length b' \<noteq> 0"
  let ?cl = "ContentLength h"
  define k where "k = (if to_int (int (Length b) + int (br_total_length r)) \<le> ?cl then to_int (int (Length b))
    else to_int (?cl - to_int (int (br_total_length r))))"
  have s: "AppendData r b 0 (to_size k) = Inr r'" "Move b (- k) = Inr b'" "to_int (int (br_total_length r')) \<noteq> ?cl"
    using assms(3) by (auto simp: body_length_def BodyReceiver_Length_def Let_def k_def rbind_eq_Inr_iff split: if_splits)
  have kL: "k \<noteq> int (Length b)"
    using Move_shorter [OF assms(1), of "Length b" b'] s(2) assms(2) ne by auto
  have "to_int (int (Length b)) = int (Length b)" using assms(2) by (simp add: to_int_id)
  with kL have k: "k = to_int (?cl - to_int (int (br_total_length r)))" by (auto simp: k_def split: if_splits)
  have "int (br_total_length r') mod 2 ^ 32 = (int (br_total_length r) + int (to_size k)) mod 2 ^ 32"
    unfolding AppendData_total [OF s(1)] by (rule to_size_mod)
  also have "\<dots> = (int (br_total_length r) + k) mod 2 ^ 32" by (metis mod_add_right_eq to_size_mod)
  also have "\<dots> = (int (br_total_length r) + (?cl - to_int (int (br_total_length r)))) mod 2 ^ 32"
    unfolding k by (metis mod_add_right_eq to_int_mod)
  also have "\<dots> = (int (br_total_length r) + ?cl - int (br_total_length r)) mod 2 ^ 32"
    by (metis add_diff_eq mod_diff_right_eq to_int_mod)
  finally have "to_int (int (br_total_length r')) = to_int ?cl" by (intro to_int_cong) simp
  with s(3) show False by (simp add: ContentLength_int)
qed

lemma body_chunk_progress:
  assumes "wf_buf b" "Length b < 2 ^ 31" "body_chunk kBody r b n = Inr (Continue, st, r', b')"
  shows "st = kEnd \<or> st = kBody \<and> wf_buf b' \<and> Length b' < Length b"
proof -
  obtain e where e: "string_strnstr (ptr_mem b 0) KStringCRLF (to_int (int (Length b))) = Inr (Some e)"
    using assms(3) by (auto simp: body_chunk_def rbind_eq_Inr_iff split: option.splits)
  have pos: "0 < Length b" using search_bound [OF assms(1,2) _ e] by (simp add: KStringCRLF_def)
  have blk: "length (ab_block b) \<le> 2 ^ 63 - 1" using assms(1) by (simp add: wf_buf_def PTRDIFF_MAX_def)
  have "st = kEnd \<or> st = kBody \<and> (\<exists>k c1 c2. Ptr_bytes b k 1 = Inr c1 \<and> Ptr_bytes b (k + 1) 1 = Inr c2 \<and> Move b (- (k + 2)) = Inr b')"
    using assms(3) by (auto simp: body_chunk_def e Let_def rbind_eq_Inr_iff split: if_splits option.splits)
  then show ?thesis
  proof (elim disjE conjE exE)
    fix k c1 c2 assume k: "Ptr_bytes b k 1 = Inr c1" "Ptr_bytes b (k + 1) 1 = Inr c2" "Move b (- (k + 2)) = Inr b'" "st = kBody"
    have "0 \<le> k" "k + 2 \<le> 2 ^ 63 - 1" using k(1,2) blk by (auto simp: Ptr_bytes_def split: if_splits)
    then have "k + 2 = int (nat (k + 2))" "2 \<le> nat (k + 2)" "nat (k + 2) < 2 ^ 63" by (simp_all add: nat_less_iff)
    then obtain m where "k + 2 = int m" "2 \<le> m" "m < 2 ^ 63" by blast
    then show ?thesis using Move_shorter [OF assms(1), of m b'] k(3,4) pos by simp
  qed simp
qed

lemma flow_not_Return [simp]: "fl \<noteq> Return \<longleftrightarrow> fl = Continue"
  by (cases fl) simp_all

section \<open>The loop returns, or has failed before\<close>

text \<open>A parser that has not failed, on a buffer below 2 GiB; after the end of the message nothing is asked of it.\<close>

definition live :: "Parser \<Rightarrow> bool" where
  "live p \<longleftrightarrow> ps_recvstatus p = kEnd
     \<or> \<not> Parser_Error p \<and> ps_bodyreceiver p \<noteq> None \<and> wf_buf (ps_recvbuf p) \<and> Length (ps_recvbuf p) < 2 ^ 31"

fun stage :: "TRecvStatus \<Rightarrow> nat" where
  "stage kStart = 3"
| "stage kFirstLine = 3"
| "stage kHeaderFields = 2"
| "stage kBody = 1"
| "stage _ = 0"

lemma first_line_progress:
  assumes "wf_buf (ps_recvbuf p)" "Length (ps_recvbuf p) < 2 ^ 31" "Recv_first_line p = Inr (Continue, p')"
  shows "(ps_recvstatus p' = kBody \<or> ps_recvstatus p' = kHeaderFields) \<and> wf_buf (ps_recvbuf p')
    \<and> Length (ps_recvbuf p') < 2 ^ 31 \<and> ps_bodyreceiver p' = ps_bodyreceiver p"
proof -
  let ?b = "ps_recvbuf p"
  obtain i where i: "string_strnstr (ptr_mem ?b 0) KStringCRLF (to_int (int (Length ?b))) = Inr (Some i)"
    using assms(3) by (auto simp: Recv_first_line_def Let_def rbind_eq_Inr_iff split: option.splits if_splits)
  have step: "(ps_recvstatus p' = kBody \<or> ps_recvstatus p' = kHeaderFields) \<and> ps_bodyreceiver p' = ps_bodyreceiver p
      \<and> (Move ?b (- 4 - int i) = Inr (ps_recvbuf p') \<or> Move ?b (- 2 - int i) = Inr (ps_recvbuf p'))"
  proof -
    obtain line where "Ptr_bytes ?b 0 (i + 2) = Inr line"
      using assms(3) i by (auto simp: Recv_first_line_def Let_def rbind_eq_Inr_iff)
    moreover obtain good mode sl rl where
      "parse_first_line (ps_csmode p) (ps_statusline p) (ps_requestline p) (chars line) = (good, mode, sl, rl)"
      by (metis prod_cases4)
    ultimately show ?thesis
      using assms(3) i by (auto simp: Recv_first_line_def Let_def rbind_eq_Inr_iff split: if_splits)
  qed
  have "i + 4 < 2 ^ 63" "i + 2 < 2 ^ 63" using search_bound [OF assms(1,2) _ i] assms(2) by simp_all
  moreover have "- 4 - int i = - int (i + 4)" "- 2 - int i = - int (i + 2)" by simp_all
  ultimately have "\<exists>n. n < 2 ^ 63 \<and> Move ?b (- int n) = Inr (ps_recvbuf p')
      \<and> (ps_recvstatus p' = kBody \<or> ps_recvstatus p' = kHeaderFields) \<and> ps_bodyreceiver p' = ps_bodyreceiver p"
    using step by metis
  then obtain n where n: "n < 2 ^ 63" "Move ?b (- int n) = Inr (ps_recvbuf p')"
      "ps_recvstatus p' = kBody \<or> ps_recvstatus p' = kHeaderFields" "ps_bodyreceiver p' = ps_bodyreceiver p" by blast
  from Move_shorter [OF assms(1) n(1,2)] n(3,4) assms(2) show ?thesis by simp
qed

lemma header_fields_progress:
  assumes "wf_buf (ps_recvbuf p)" "Length (ps_recvbuf p) < 2 ^ 31" "Recv_header_fields p = Inr (Continue, p')"
  shows "ps_recvstatus p' = kBody \<and> wf_buf (ps_recvbuf p')
    \<and> Length (ps_recvbuf p') < 2 ^ 31 \<and> ps_bodyreceiver p' = ps_bodyreceiver p"
proof -
  let ?b = "ps_recvbuf p"
  obtain i where i: "string_strnstr (ptr_mem ?b 0) KStringCRLFCRLF (to_int (int (Length ?b))) = Inr (Some i)"
    using assms(3) by (auto simp: Recv_header_fields_def Let_def rbind_eq_Inr_iff split: option.splits if_splits)
  have "i + 4 < 2 ^ 63" using search_bound [OF assms(1,2) _ i] assms(2) by simp
  moreover have "Move ?b (- int (i + 4)) = Inr (ps_recvbuf p') \<and> ps_recvstatus p' = kBody \<and> ps_bodyreceiver p' = ps_bodyreceiver p"
  proof -
    obtain d where d: "Ptr_bytes ?b 0 (i + 4) = Inr d"
      using assms(3) i by (auto simp: Recv_header_fields_def Let_def rbind_eq_Inr_iff)
    obtain h where "ParserHeaders (chars d) (ps_headfields p) = (True, h)" by (simp add: ParserHeaders_def)
    with d show ?thesis
      using assms(3) i by (auto simp: Recv_header_fields_def Let_def rbind_eq_Inr_iff)
  qed
  ultimately show ?thesis using Move_shorter [OF assms(1), of "i + 4" "ps_recvbuf p'"] assms(2) by auto
qed

lemma body_progress:
  assumes "wf_buf (ps_recvbuf p)" "Length (ps_recvbuf p) < 2 ^ 31" "ps_recvstatus p = kBody" "ps_bodyreceiver p \<noteq> None"
    "Recv_body p = Inr (Continue, p')"
  shows "ps_recvstatus p' = kEnd \<or> ps_recvstatus p' = kBody \<and> wf_buf (ps_recvbuf p')
    \<and> Length (ps_recvbuf p') < Length (ps_recvbuf p) \<and> ps_bodyreceiver p' \<noteq> None"
proof -
  obtain r where r: "ps_bodyreceiver p = Some r" using assms(4) by blast
  obtain st r' b' where s: "recv_body (ps_headfields p) kBody r (ps_recvbuf p) (Length (ps_recvbuf p)) = Inr (Continue, st, r', b')"
      "p' = p\<lparr>ps_recvstatus := st, ps_bodyreceiver := Some r', ps_recvbuf := b'\<rparr>" "Length b' \<noteq> 0"
    using assms(3,5) r by (auto simp: Recv_body_def rbind_eq_Inr_iff split: if_splits)
  show ?thesis
  proof (cases "IsTransferEncodingChunked (ps_headfields p)")
    case True
    with s(1) have "body_chunk kBody r (ps_recvbuf p) (Length (ps_recvbuf p)) = Inr (Continue, st, r', b')"
      by (simp add: recv_body_def)
    from body_chunk_progress [OF assms(1,2) this] s(2) show ?thesis by simp
  next
    case False
    with s(1) have "body_length (ps_headfields p) kBody r (ps_recvbuf p) = Inr (Continue, st, r', b')"
      by (simp add: recv_body_def)
    from body_length_returns [OF assms(1,2) this] s(3) show ?thesis by simp
  qed
qed

lemma Recv_step_progress:
  assumes "live p" "Recv_step p = Inr (Continue, p')"
  shows "live p' \<and> (p', p) \<in> measures [\<lambda>p. stage (ps_recvstatus p), \<lambda>p. Length (ps_recvbuf p)]"
proof (cases "ps_recvstatus p")
  case kStart
  with assms first_line_progress [of p p'] show ?thesis by (auto simp: live_def Recv_step_def Parser_Error_def)
next
  case kFirstLine
  with assms first_line_progress [of p p'] show ?thesis by (auto simp: live_def Recv_step_def Parser_Error_def)
next
  case kHeaderFields
  with assms header_fields_progress [of p p'] show ?thesis by (auto simp: live_def Recv_step_def Parser_Error_def)
next
  case kBody
  with assms body_progress [of p p'] show ?thesis by (auto simp: live_def Recv_step_def Parser_Error_def)
qed (use assms in \<open>auto simp: live_def Recv_step_def Parser_Error_def\<close>)

lemma Recv_loop_live:
  assumes "live p"
  shows "\<exists>x. Recv_loop p = Some x"
  using assms
proof (induction p rule: wf_induct_rule [OF wf_measures [of "[\<lambda>p. stage (ps_recvstatus p), \<lambda>p. Length (ps_recvbuf p)]"]])
  case (1 p)
  show ?case
  proof (cases "Recv_step p")
    case (Inl e)
    then show ?thesis by (simp add: Recv_loop_fault)
  next
    case (Inr x)
    obtain fl p' where x: "x = (fl, p')" by fastforce
    show ?thesis
    proof (cases fl)
      case Return
      then show ?thesis using Inr x by (simp add: Recv_loop_Return)
    next
      case Continue
      then show ?thesis using Recv_step_progress [OF 1(2)] 1(1) Inr x by (simp add: Recv_loop_Continue)
    qed
  qed
qed

lemma Recv_loop_error:
  assumes "Recv_loop p = Some y"
  shows "\<not> Parser_Error p"
proof (rule Recv_loop.raw_induct [where P = "\<lambda>p _. \<not> Parser_Error p", OF _ assms])
  fix loop p y
  assume ih: "\<And>q z. loop q = Some z \<Longrightarrow> \<not> Parser_Error q"
    and s: "(case Recv_step p of Inl e \<Rightarrow> Some (Inl e)
      | Inr (Return, p') \<Rightarrow> Some (Inr p') | Inr (Continue, p') \<Rightarrow> loop p') = Some y"
  show "\<not> Parser_Error p"
  proof
    assume e: "Parser_Error p"
    then have "Recv_step p = Inr (Continue, p)" by (auto simp: Recv_step_def Parser_Error_def)
    with s have "loop p = Some y" by simp
    from ih [OF this] e show False by simp
  qed
qed

text \<open>
  C25: \<^verbatim>\<open>Recv\<close> returns, normally or with a memory fault, exactly when it is given no bytes or the parser has not
  failed before: with a body receiver, of either class, the loop ends in every state and for every input that is,
  with the bytes still pending, below 2 GiB; but once \<open>Error()\<close> holds, the \<^verbatim>\<open>default\<close> case of the switch goes round
  for ever.
\<close>

theorem Recv_returns_iff:
  assumes "rb_ok c (ps_recvbuf p)" "wf_buf (ps_headerbuf p)" "length c + length d < 2 ^ 31" "ps_bodyreceiver p \<noteq> None"
  shows "(\<exists>x. Recv p d = Some x) \<longleftrightarrow> d = [] \<or> \<not> Parser_Error p"
proof (cases "d = []")
  case True
  then show ?thesis by (simp add: Recv_def)
next
  case False
  let ?N = "max (length (content (ps_headerbuf p))) 8192"
  have "hb_ok ?N (ps_headerbuf p)" using assms(2) by (simp add: hb_ok_def)
  then obtain hb ready where h: "Recv_header_copy p d = Inr (p\<lparr>ps_headerbuf := hb, ps_response_header_ready := ready\<rparr>)"
    using header_copy_ok [of ?N p d] by auto
  obtain buf where b: "Write (ps_recvbuf p) d = Inr buf" "rb_ok (c @ d) buf" using rb_Write [OF assms(1,3)] by blast
  let ?p = "p\<lparr>ps_headerbuf := hb, ps_response_header_ready := ready, ps_recvbuf := buf\<rparr>"
  have e: "Recv p d = Recv_loop ?p" using False h b(1) by (simp add: Recv_def)
  have st: "Parser_Error ?p \<longleftrightarrow> Parser_Error p" by (simp add: Parser_Error_def)
  have "Length buf < 2 ^ 31" "wf_buf buf" using b(2) assms(3) rb_Length [OF b(2)] by (auto simp: rb_ok_def)
  then have "\<not> Parser_Error p \<Longrightarrow> live ?p" using st assms(4) by (simp add: live_def)
  then show ?thesis using Recv_loop_live Recv_loop_error st e False by metis
qed

theorem Recv_returns_iff_witness:
  "(\<exists>x. Recv (Parser_new (Some BodyReceiver_new) True) [71, 69] = Some x)
   \<and> \<not> (\<exists>x. Recv ((Parser_new (Some (MemoryBodyReceiver_new (AutoBuffer_new 128))) True)\<lparr>ps_recvstatus := kFirstLineError\<rparr>)
            [71, 69] = Some x)"
proof -
  let ?p = "Parser_new (Some (MemoryBodyReceiver_new (AutoBuffer_new 128))) True" and ?q = "Parser_new (Some BodyReceiver_new) True"
  have "rb_ok [] (ps_recvbuf ?p)" "wf_buf (ps_headerbuf ?p)"
    using parser_at_new [OF sink_ok_new(1), of True] by (simp_all add: parser_at_def hb_ok_def)
  then have a: "rb_ok [] (ps_recvbuf ?p)" "wf_buf (ps_headerbuf ?p)" "rb_ok [] (ps_recvbuf ?q)" "wf_buf (ps_headerbuf ?q)"
    by (simp_all add: Parser_new_def)
  have "(\<exists>x. Recv ?q [71, 69] = Some x) \<longleftrightarrow> [71, 69] = ([] :: bytes) \<or> \<not> Parser_Error ?q"
    by (rule Recv_returns_iff [OF a(3,4)]) (simp_all add: Parser_new_def)
  moreover have "(\<exists>x. Recv (?p\<lparr>ps_recvstatus := kFirstLineError\<rparr>) [71, 69] = Some x)
      \<longleftrightarrow> [71, 69] = ([] :: bytes) \<or> \<not> Parser_Error (?p\<lparr>ps_recvstatus := kFirstLineError\<rparr>)"
    using a(1,2) by (intro Recv_returns_iff [of "[]"]) (simp_all add: Parser_new_def)
  ultimately show ?thesis by (simp add: Parser_Error_def Parser_new_def)
qed

section \<open>The trailer of the last chunk\<close>

text \<open>A buffer of one allocation unit that is filled to the last byte.\<close>

lemma Write_fills_unit:
  assumes "rb_ok [] b" "ab_capacity b \<le> 128" "length d = 128"
  shows "\<exists>b'. Write b d = Inr b' \<and> rb_ok d b' \<and> ab_parray b' = Some d"
proof -
  obtain b' where b': "Write b d = Inr b'" "rb_ok d b'" using rb_Write [OF assms(1), of d] assms(3) by auto
  have c: "wf_buf b" "ab_malloc_unitsize b = 128" "Pos b = 0"
    using assms(1) int_cursor [of b] by (simp_all add: rb_ok_def Pos_def)
  obtain b1 where f: "FitSize b 128 = Inr b1" using FitSize_ok [OF c(1), of 128] by auto
  then have cap: "ab_capacity b1 = 128"
    using assms(2) c(2) by (auto simp: FitSize_def to_size_def Let_def split: if_splits)
  have "Write_at b 0 d = memcpy_to (b1\<lparr>ab_length := max 128 (ab_length b1)\<rparr>) 0 d"
    using f assms(3) by (simp add: Write_at_def to_size_def)
  then have "ab_capacity b' = 128"
    using b'(1) c(3) cap by (auto simp: Write_def rbind_eq_Inr_iff dest!: memcpy_unit)
  then have "ab_length b' = 128" "length (ab_block b') = 128" "take (ab_length b') (ab_block b') = d" "ab_parray b' \<noteq> None"
    using b'(2) rb_Length [OF b'(2)] assms(3)
    by (auto simp: rb_ok_def wf_buf_def content_def Length_def ab_block_def split: option.splits)
  then have "ab_parray b' = Some d" by (auto simp: ab_block_def)
  with b' show ?thesis by blast
qed

text \<open>
  The search for the trailer of the last chunk reads past the allocated block: it is given the length of the
  whole buffer but starts after the size line. When a last chunk with an unfinished trailer fills the block and
  contains no NUL, which a peer can arrange, \<^verbatim>\<open>Recv\<close> reads outside it.
\<close>

theorem Recv_trailer_overread:
  assumes "ps_recvstatus p = kBody" "IsTransferEncodingChunked (ps_headfields p)" "ps_bodyreceiver p = Some r"
    "rb_ok [] (ps_recvbuf p)" "ab_capacity (ps_recvbuf p) \<le> 128" "length t = 125" "0 \<notin> set t"
  shows "Recv p (bytes_of (''0'' @ KStringCRLF) @ t) = Some (Inl Out_Of_Bounds)"
proof -
  let ?d = "bytes_of (''0'' @ KStringCRLF) @ t"
  have ld: "length ?d = 128" using assms(6) by (simp add: KStringCRLF_def)
  obtain b where b: "Write (ps_recvbuf p) ?d = Inr b" "rb_ok ?d b" "ab_parray b = Some ?d"
    using Write_fills_unit [OF assms(4,5) ld] by blast
  let ?p = "p\<lparr>ps_recvbuf := b\<rparr>"
  have nul: "CHR 0x00 \<notin> set (chars t)"
  proof
    assume "CHR 0x00 \<in> set (chars t)"
    then obtain w where "w \<in> set t" "byte_of (chr w) = byte_of (CHR 0x00)" by auto
    then show False using assms(7) by (simp add: byte_of_def [of "CHR 0x00"])
  qed
  have L: "Length b = 128" using rb_Length [OF b(2)] ld by simp
  have "string_strnstr (ptr_mem b 0) KStringCRLF (to_int (int (Length b))) = Inr (str_find (c_str (chars ?d)) KStringCRLF 0)"
    using rb_search_Length [OF b(2)] ld by simp
  moreover have "c_str (chars ?d) = ''0'' @ KStringCRLF @ chars t"
    using nul by (simp add: c_str_id KStringCRLF_def)
  ultimately have s1: "string_strnstr (ptr_mem b 0) KStringCRLF (to_int (int (Length b))) = Inr (Some 1)"
    using str_find_crlf_0 [of "''0''" "chars t"] by (simp add: no_crlf_lf)
  have "ptr_mem b 3 = Some (chars t)" using b(3) by (simp add: ptr_mem_def KStringCRLF_def)
  moreover have "length (takeWhile (\<lambda>c. c \<noteq> CHR 0x00) (chars t)) = 125"
    by (metis c_str_def c_str_id nul assms(6) length_map)
  then have "strnlen_mem (chars t) 128 = Inl Out_Of_Bounds" using assms(6) by (simp add: strnlen_mem_def)
  ultimately have s2: "string_strnstr (ptr_mem b 3) KStringCRLF (to_int (int (Length b))) = Inl Out_Of_Bounds"
    using L by (simp add: string_strnstr_def to_int_def to_size_def)
  have p0: "Ptr_bytes b 0 1 = Inr (bytes_of ''0'')" using rb_Ptr [OF b(2), of 0 1] by simp
  have "body_chunk kBody r b 128 = Inl Out_Of_Bounds"
    using s1 s2 p0 eof_size by (simp add: body_chunk_def to_uint_def numeral_3_eq_3)
  then have "Recv_step ?p = Inl Out_Of_Bounds"
    using assms(1-3) L by (simp add: Recv_step_def Recv_body_def recv_body_def)
  moreover have "Recv p ?d = Recv_loop ?p"
    using assms(1) b(1) by (simp add: Recv_def Recv_header_copy_def)
  ultimately show ?thesis by (simp only: Recv_loop_fault)
qed

theorem Recv_trailer_overread_witness:
  "Recv ((Parser_new (Some BodyReceiver_new) True)\<lparr>ps_recvstatus := kBody,
      ps_headfields := ex_fields ''transfer-encoding'' ''Chunked''\<rparr>)
    (bytes_of (''0'' @ KStringCRLF) @ replicate 125 88) = Some (Inl Out_Of_Bounds)"
proof -
  have "rb_ok [] (AutoBuffer_new 128)" by (simp add: rb_ok_def wf_buf_new) (simp add: AutoBuffer_new_def)
  then show ?thesis
    by (intro Recv_trailer_overread [of _ BodyReceiver_new])
      (simp_all add: Parser_new_def ex_chunked_ok(2), simp add: AutoBuffer_new_def)
qed

section \<open>Chunks through the overload on a buffer\<close>

definition never_ends :: "Parser \<Rightarrow> bool" where
  "never_ends p \<longleftrightarrow> Length (ps_recvbuf p) = 0 \<and> \<not> (Success p \<and> IsTransferEncodingChunked (ps_headfields p))"

lemma RecvBuf_first_line_keeps:
  assumes "RecvBuf_first_line p buf = Inr (fl, p', buf')" "never_ends p" "\<not> Success p" "wf_buf buf" "Length buf < 2 ^ 31"
  shows "never_ends p' \<and> \<not> Success p' \<and> (fl = Continue \<longrightarrow> wf_buf buf' \<and> Length buf' < 2 ^ 31)"
proof (cases "string_strnstr (ptr_mem buf 0) KStringCRLF (to_int (int (Length buf)))")
  case (Inr pos)
  show ?thesis
  proof (cases pos)
    case None
    then show ?thesis using assms Inr
      by (auto simp: RecvBuf_first_line_def Let_def never_ends_def Success_def split: if_splits)
  next
    case (Some i)
    obtain line where d: "Ptr_bytes buf 0 (i + 2) = Inr line"
      using assms(1) Inr Some by (auto simp: RecvBuf_first_line_def Let_def rbind_eq_Inr_iff)
    obtain good mode sl rl where "parse_first_line (ps_csmode p) (ps_statusline p) (ps_requestline p) (chars line) = (good, mode, sl, rl)"
      by (metis prod_cases4)
    with assms(1) Inr Some d have "fl = Continue \<longrightarrow> Move buf (- int (i + 2)) = Inr buf'"
      "ps_recvbuf p' = ps_recvbuf p" "ps_recvstatus p' \<noteq> kEnd"
      by (auto simp: RecvBuf_first_line_def Let_def rbind_eq_Inr_iff split: if_splits)
    moreover have "i + 2 < 2 ^ 63" using search_bound [OF assms(4,5), of KStringCRLF i] assms(5) Inr Some by simp
    ultimately show ?thesis
      using Move_shorter [OF assms(4), of "i + 2" buf'] assms(2,5) by (auto simp: never_ends_def Success_def)
  qed
qed (use assms(1) in \<open>simp add: RecvBuf_first_line_def\<close>)

lemma RecvBuf_header_fields_keeps:
  assumes "RecvBuf_header_fields p buf = Inr (fl, p', buf')" "never_ends p" "ps_recvstatus p = kHeaderFields"
    "wf_buf buf" "Length buf < 2 ^ 31"
  shows "never_ends p' \<and> (fl = Continue \<longrightarrow> wf_buf buf' \<and> Length buf' < 2 ^ 31)"
proof (cases "string_strnstr (ptr_mem buf 0) KStringCRLFCRLF (to_int (int (Length buf)))")
  case (Inr pos)
  show ?thesis
  proof (cases pos)
    case None
    then show ?thesis using assms Inr
      by (auto simp: RecvBuf_header_fields_def Let_def never_ends_def Success_def split: if_splits)
  next
    case (Some i)
    obtain d where d: "Ptr_bytes buf 0 (i + 4) = Inr d"
      using assms(1) Inr Some by (auto simp: RecvBuf_header_fields_def Let_def rbind_eq_Inr_iff)
    obtain h where "ParserHeaders (chars d) (ps_headfields p) = (True, h)" by (simp add: ParserHeaders_def)
    with assms(1) Inr Some d have "Move buf (- int (i + 4)) = Inr buf'"
      "ps_recvbuf p' = ps_recvbuf p" "ps_recvstatus p' \<noteq> kEnd"
      by (auto simp: RecvBuf_header_fields_def Let_def rbind_eq_Inr_iff)
    moreover have "i + 4 < 2 ^ 63" using search_bound [OF assms(4,5), of KStringCRLFCRLF i] assms(5) Inr Some by simp
    ultimately show ?thesis
      using Move_shorter [OF assms(4), of "i + 4" buf'] assms(2,5) by (auto simp: never_ends_def Success_def)
  qed
qed (use assms(1) in \<open>simp add: RecvBuf_header_fields_def\<close>)

text \<open>The last chunk is never accepted when the length that is tested is that of an empty buffer.\<close>

lemma body_chunk_unchecked:
  assumes "body_chunk kBody r b 0 = Inr (fl, st, r', b')" "wf_buf b" "Length b < 2 ^ 31"
  shows "st \<noteq> kEnd \<and> (fl = Continue \<longrightarrow> wf_buf b' \<and> Length b' < 2 ^ 31)"
proof -
  have "st \<noteq> kEnd"
  proof
    assume st: "st = kEnd"
    obtain e where e: "string_strnstr (ptr_mem b 0) KStringCRLF (to_int (int (Length b))) = Inr (Some e)"
      using assms(1) st by (auto simp: body_chunk_def rbind_eq_Inr_iff split: option.splits)
    have "e < 2 ^ 31" using search_bound [OF assms(2,3) _ e] assms(3) by simp
    then have "0 < to_uint (int e + 4)" by (simp add: to_uint_def)
    then show False using assms(1) e st
      by (auto simp: body_chunk_def Let_def rbind_eq_Inr_iff split: if_splits)
  qed
  moreover have "wf_buf b' \<and> Length b' < 2 ^ 31" if "fl = Continue"
    using body_chunk_progress [OF assms(2,3), of r 0 st r' b'] assms(1,3) that \<open>st \<noteq> kEnd\<close> by auto
  ultimately show ?thesis by blast
qed

lemma RecvBuf_body_keeps:
  assumes "RecvBuf_body p buf = Inr (fl, p', buf')" "never_ends p" "ps_recvstatus p = kBody"
    "wf_buf buf" "Length buf < 2 ^ 31"
  shows "never_ends p' \<and> (fl = Continue \<longrightarrow> wf_buf buf' \<and> Length buf' < 2 ^ 31)"
proof (cases "ps_bodyreceiver p")
  case None
  then show ?thesis using assms by (auto simp: RecvBuf_body_def)
next
  case (Some r)
  have len: "Length (ps_recvbuf p) = 0" using assms(2) by (simp add: never_ends_def)
  obtain fl0 st r' where s: "recv_body (ps_headfields p) kBody r buf 0 = Inr (fl0, st, r', buf')"
      "p' = p\<lparr>ps_recvstatus := st, ps_bodyreceiver := Some r'\<rparr>" "fl = Continue \<longrightarrow> fl0 = Continue \<and> Length buf' \<noteq> 0"
    using assms(1,3) Some len by (auto simp: RecvBuf_body_def rbind_eq_Inr_iff split: if_splits)
  show ?thesis
  proof (cases "IsTransferEncodingChunked (ps_headfields p)")
    case True
    with s(1) have "body_chunk kBody r buf 0 = Inr (fl0, st, r', buf')" by (simp add: recv_body_def)
    from body_chunk_unchecked [OF this assms(4,5)] s(2,3) assms(2) show ?thesis
      by (auto simp: never_ends_def Success_def)
  next
    case False
    with s(1) have "body_length (ps_headfields p) kBody r buf = Inr (fl0, st, r', buf')" by (simp add: recv_body_def)
    with body_length_returns [OF assms(4,5), of "ps_headfields p" kBody r st r' buf'] s(2,3) assms(2) False show ?thesis
      by (auto simp: never_ends_def)
  qed
qed

lemma RecvBuf_step_keeps:
  assumes "RecvBuf_step p buf = Inr (fl, p', buf')" "never_ends p" "wf_buf buf" "Length buf < 2 ^ 31"
  shows "never_ends p' \<and> (fl = Continue \<longrightarrow> wf_buf buf' \<and> Length buf' < 2 ^ 31)"
  using assms RecvBuf_first_line_keeps [of p buf fl p' buf'] RecvBuf_header_fields_keeps [of p buf fl p' buf']
    RecvBuf_body_keeps [of p buf fl p' buf']
  by (cases "ps_recvstatus p") (auto simp: RecvBuf_step_def Success_def)

lemma RecvBuf_loop_keeps:
  assumes "RecvBuf_loop p buf = Some y" "never_ends p" "wf_buf buf" "Length buf < 2 ^ 31" "y = Inr (p', buf')"
  shows "never_ends p'"
proof -
  have "never_ends p \<longrightarrow> wf_buf buf \<longrightarrow> Length buf < 2 ^ 31 \<longrightarrow> (\<forall>p' buf'. y = Inr (p', buf') \<longrightarrow> never_ends p')"
  proof (rule RecvBuf_loop.raw_induct [where P = "\<lambda>p buf y. never_ends p \<longrightarrow> wf_buf buf \<longrightarrow> Length buf < 2 ^ 31
        \<longrightarrow> (\<forall>p' buf'. y = Inr (p', buf') \<longrightarrow> never_ends p')", OF _ assms(1)])
    fix loop p buf y
    assume ih: "\<And>q b z. loop q b = Some z \<Longrightarrow> never_ends q \<longrightarrow> wf_buf b \<longrightarrow> Length b < 2 ^ 31
        \<longrightarrow> (\<forall>p' buf'. z = Inr (p', buf') \<longrightarrow> never_ends p')"
      and s: "(case RecvBuf_step p buf of Inl e \<Rightarrow> Some (Inl e)
        | Inr (fl, p', buf') \<Rightarrow> (case fl of Return \<Rightarrow> Some (Inr (p', buf')) | Continue \<Rightarrow> loop p' buf')) = Some y"
    show "never_ends p \<longrightarrow> wf_buf buf \<longrightarrow> Length buf < 2 ^ 31 \<longrightarrow> (\<forall>p' buf'. y = Inr (p', buf') \<longrightarrow> never_ends p')"
    proof (cases "RecvBuf_step p buf")
      case (Inl e)
      then show ?thesis using s by auto
    next
      case (Inr x)
      obtain fl q b where x: "x = (fl, q, b)" by (metis prod_cases3)
      note keeps = RecvBuf_step_keeps [of p buf fl q b, OF Inr [unfolded x]]
      show ?thesis
      proof (cases fl)
        case Return
        then have "y = Inr (q, b)" using s Inr x by simp
        then show ?thesis using keeps by simp
      next
        case Continue
        then have "loop q b = Some y" using s Inr x by simp
        from ih [OF this] show ?thesis using keeps Continue by blast
      qed
    qed
  qed
  with assms show ?thesis by simp
qed

lemma Recv_header_copy_keeps: "Recv_header_copy p d = Inr p' \<Longrightarrow>
    ps_recvbuf p' = ps_recvbuf p \<and> ps_recvstatus p' = ps_recvstatus p \<and> ps_headfields p' = ps_headfields p"
  by (auto simp: Recv_header_copy_def rbind_eq_Inr_iff split: if_splits option.splits)

text \<open>
  The overload \<^verbatim>\<open>Recv(AutoBuffer&)\<close> never finishes a chunked message: before it accepts the last chunk it compares
  the length of the parser's own buffer, which this overload never fills, and not that of the buffer it
  reads. Whatever it is given, a parser whose own buffer is empty does not reach success with a chunked body.
\<close>

theorem RecvBuf_chunked_never_ends:
  assumes "Length (ps_recvbuf p) = 0" "\<not> Success p" "wf_buf buf" "Length buf < 2 ^ 31"
    "RecvBuf p buf = Some (Inr (p', buf'))"
  shows "Length (ps_recvbuf p') = 0 \<and> \<not> (Success p' \<and> IsTransferEncodingChunked (ps_headfields p'))"
proof (cases "ab_parray buf = None \<or> Length buf = 0")
  case True
  then show ?thesis using assms by (auto simp: RecvBuf_def)
next
  case False
  then obtain d p1 where d: "Ptr_bytes buf 0 (min (Length buf) 4096) = Inr d" "Recv_header_copy p d = Inr p1"
      "RecvBuf_loop p1 buf = Some (Inr (p', buf'))"
    using assms(5) by (auto simp: RecvBuf_def rbind_def split: sum.splits)
  have "never_ends p1" using Recv_header_copy_keeps [OF d(2)] assms(1,2) by (simp add: never_ends_def Success_def)
  from RecvBuf_loop_keeps [OF d(3) this assms(3,4) refl] show ?thesis by (simp add: never_ends_def)
qed

text \<open>The buffer of a caller, holding one block of bytes.\<close>

definition ex_buffer :: "bytes \<Rightarrow> AutoBuffer" where
  "ex_buffer d = \<lparr>ab_parray = Some d, ab_pos = 0, ab_length = length d, ab_capacity = length d, ab_malloc_unitsize = 128\<rparr>"

lemma ex_buffer_eof:
  "body_chunk st r (ex_buffer (bytes_of EofData)) 0 = Inr (Return, st, r, ex_buffer (bytes_of EofData))"
  "wf_buf (ex_buffer (bytes_of EofData))" "Length (ex_buffer (bytes_of EofData)) = 5"
proof -
  let ?b = "ex_buffer (bytes_of EofData)"
  have b: "wf_buf ?b" "content ?b = bytes_of EofData" "Length ?b = 5"
    by (simp_all add: ex_buffer_def wf_buf_def ab_block_def PTRDIFF_MAX_def content_def Length_def EofData_def KStringCRLF_def)
  have "c_str (chars (bytes_of EofData)) = ''0'' @ KStringCRLF @ KStringCRLF"
    by (simp add: EofData_def KStringCRLF_def c_str_def)
  then have s: "string_strnstr (ptr_mem ?b 0) KStringCRLF (to_int (int (Length ?b))) = Inr (Some 1)"
    using search_content [OF b(1), of KStringCRLF] str_find_crlf_0 [of "''0''" KStringCRLF] b(2)
    by (simp add: no_crlf_lf EofData_def KStringCRLF_def)
  have "Ptr_bytes ?b 0 1 = Inr (bytes_of ''0'')"
    by (simp add: Ptr_bytes_def ex_buffer_def ab_block_def EofData_def)
  with s show "body_chunk st r ?b 0 = Inr (Return, st, r, ?b)"
    using eof_size by (simp add: body_chunk_def to_uint_def)
  from b show "wf_buf ?b" "Length ?b = 5" by simp_all
qed

definition ex_chunked_parser :: Parser where
  "ex_chunked_parser = (Parser_new (Some BodyReceiver_new) True)\<lparr>ps_recvstatus := kBody,
     ps_headfields := ex_fields ''transfer-encoding'' ''Chunked''\<rparr>"

theorem RecvBuf_chunked_never_ends_witness:
  "\<exists>p' buf'. RecvBuf ex_chunked_parser (ex_buffer (bytes_of EofData)) = Some (Inr (p', buf'))
    \<and> Length (ps_recvbuf p') = 0 \<and> \<not> (Success p' \<and> IsTransferEncodingChunked (ps_headfields p'))"
proof -
  let ?p = ex_chunked_parser and ?b = "ex_buffer (bytes_of EofData)"
  have l: "Length (ps_recvbuf ?p) = 0" "\<not> Success ?p"
    by (simp_all add: ex_chunked_parser_def Parser_new_def Length_def AutoBuffer_new_def Success_def)
  then have "RecvBuf_step ?p ?b = Inr (Return, ?p, ?b)"
    using ex_buffer_eof(1) by (simp add: RecvBuf_step_def RecvBuf_body_def recv_body_def ex_chunked_parser_def
        Parser_new_def ex_chunked_ok(2))
  then have "RecvBuf_loop ?p ?b = Some (Inr (?p, ?b))" by (simp add: RecvBuf_loop.simps)
  moreover have "ab_parray ?b \<noteq> None" "Ptr_bytes ?b 0 (min (Length ?b) 4096) = Inr (bytes_of EofData)"
    by (simp_all add: ex_buffer_def Ptr_bytes_def Length_def ab_block_def EofData_def KStringCRLF_def)
  moreover have "Recv_header_copy ?p d = Inr ?p" for d
    by (simp add: Recv_header_copy_def ex_chunked_parser_def Parser_new_def)
  ultimately have "RecvBuf ?p ?b = Some (Inr (?p, ?b))" using ex_buffer_eof(3) by (simp add: RecvBuf_def)
  from this RecvBuf_chunked_never_ends [OF l ex_buffer_eof(2) _ this] ex_buffer_eof(3) show ?thesis by auto
qed

end
