(* ===== verification/Freq_Limit.thy ===== *)
theory Freq_Limit
  imports Comm_Prelude
begin

text \<open>
  \<^verbatim>\<open>CommFrequencyLimit\<close> of src/mars/comm/comm_frequency_limit.h and comm_frequency_limit.cc: the object with
  its list of touch times (a \<^verbatim>\<open>std::list\<close>, the oldest first), its constructor, \<^verbatim>\<open>Check\<close> and
  \<^verbatim>\<open>__DelOlderTouchTime\<close>. The result of \<^verbatim>\<open>gettickcount()\<close> is an argument of \<open>Check\<close>; the times are
  \<open>uint64_t\<close>, so differences wrap (\<open>to_size\<close>). The reference is a sliding window over the whole history of
  the calls that passed.
\<close>

section \<open>The object and its operations\<close>

record CommFrequencyLimit =
  fl_count :: nat
  fl_time_span :: nat
  fl_touch_times :: "nat list"

definition CommFrequencyLimit_new :: "nat \<Rightarrow> nat \<Rightarrow> CommFrequencyLimit" where
  "CommFrequencyLimit_new count span = \<lparr>fl_count = count, fl_time_span = span, fl_touch_times = []\<rparr>"

fun DelOlderTouchTime :: "nat \<Rightarrow> nat \<Rightarrow> nat list \<Rightarrow> nat list" where
  "DelOlderTouchTime time span [] = []"
| "DelOlderTouchTime time span (t # ts) =
     (if span < to_size (int time - int t) then DelOlderTouchTime time span ts else t # ts)"

definition amend_times :: "nat \<Rightarrow> nat list \<Rightarrow> nat list" where
  "amend_times now ts =
     (if ts \<noteq> [] \<and> now < hd ts then replicate (length ts) (to_size (int now - 1)) else ts)"

definition Check :: "CommFrequencyLimit \<Rightarrow> nat \<Rightarrow> CommFrequencyLimit \<times> bool" where
  "Check l now =
     (let ts = amend_times now (fl_touch_times l) in
      if length ts \<le> fl_count l then (l\<lparr>fl_touch_times := ts @ [now]\<rparr>, True)
      else if to_size (int now - int (hd ts)) \<le> fl_time_span l then (l\<lparr>fl_touch_times := ts\<rparr>, False)
      else (l\<lparr>fl_touch_times := DelOlderTouchTime now (fl_time_span l) ts @ [now]\<rparr>, True))"

section \<open>Runs of calls and the sliding window\<close>

text \<open>The answers to the calls of \<open>Check\<close> at the given times.\<close>

fun Check_run :: "CommFrequencyLimit \<Rightarrow> nat list \<Rightarrow> CommFrequencyLimit \<times> bool list" where
  "Check_run l [] = (l, [])"
| "Check_run l (now # nows) =
     (case Check l now of (l', ok) \<Rightarrow> case Check_run l' nows of (l'', oks) \<Rightarrow> (l'', ok # oks))"

text \<open>
  The reference keeps every time at which a call passed and lets a call pass when at most \<open>count\<close> of them lie in the
  last \<open>span\<close> milliseconds.
\<close>

definition in_window :: "nat \<Rightarrow> nat \<Rightarrow> nat list \<Rightarrow> nat" where
  "in_window span now hist = length (filter (\<lambda>t. now \<le> t + span) hist)"

fun window_run :: "nat \<Rightarrow> nat \<Rightarrow> nat list \<Rightarrow> nat list \<Rightarrow> bool list" where
  "window_run count span hist [] = []"
| "window_run count span hist (now # nows) =
     (let ok = in_window span now hist \<le> count
      in ok # window_run count span (if ok then hist @ [now] else hist) nows)"

section \<open>The invariant\<close>

text \<open>
  With a clock that does not go back the list is the end of the history, never longer than \<open>fl_count + 1\<close>, and what was
  deleted from it has left the window.
\<close>

definition tracks :: "CommFrequencyLimit \<Rightarrow> nat list \<Rightarrow> nat \<Rightarrow> bool" where
  "tracks l hist now \<longleftrightarrow>
     (\<exists>old. hist = old @ fl_touch_times l \<and> (\<forall>t\<in>set old. t + fl_time_span l < now))
     \<and> length (fl_touch_times l) \<le> Suc (fl_count l) \<and> sorted hist \<and> (\<forall>t\<in>set hist. t \<le> now) \<and> now < 2 ^ 64"

lemma to_size_diff: "t \<le> now \<Longrightarrow> now < 2 ^ 64 \<Longrightarrow> to_size (int now - int t) = now - t"
  by (simp add: to_size_id nat_diff_distrib)

lemma DelOlderTouchTime_dropWhile:
  assumes "\<forall>t\<in>set ts. t \<le> now" "now < 2 ^ 64"
  shows "DelOlderTouchTime now span ts = dropWhile (\<lambda>t. t + span < now) ts"
  using assms
proof (induction ts)
  case (Cons t ts)
  then have "to_size (int now - int t) = now - t" by (simp add: to_size_diff)
  with Cons show ?case by auto
qed simp

lemma in_window_le: "in_window span now hist \<le> length hist"
  by (simp add: in_window_def)

lemma in_window_old: "\<forall>t\<in>set old. t + span < now \<Longrightarrow> in_window span now (old @ ts) = in_window span now ts"
  by (auto simp: in_window_def filter_empty_conv)

lemma in_window_all: "\<forall>t\<in>set ts. now \<le> t + span \<Longrightarrow> in_window span now ts = length ts"
  by (simp add: in_window_def)

lemma tracks_later: "tracks l hist now \<Longrightarrow> now \<le> now' \<Longrightarrow> now' < 2 ^ 64 \<Longrightarrow> tracks l hist now'"
  by (fastforce simp: tracks_def)

lemma Check_frame: "Check l now = (l', ok) \<Longrightarrow> fl_count l' = fl_count l \<and> fl_time_span l' = fl_time_span l"
  by (auto simp: Check_def Let_def split: if_splits)

lemma tracks_snoc:
  assumes "hist = old @ ts" "\<forall>t\<in>set old. t + fl_time_span l < now" "length ts \<le> fl_count l"
    "sorted (hist @ [now])" "\<forall>t\<in>set hist. t \<le> now" "now < 2 ^ 64"
  shows "tracks (l\<lparr>fl_touch_times := ts @ [now]\<rparr>) (hist @ [now]) now"
proof -
  have "hist @ [now] = old @ (ts @ [now])" using assms(1) by simp
  with assms(2-) show ?thesis unfolding tracks_def by (intro conjI exI [of _ old]) auto
qed

lemma Check_tracks:
  assumes tr: "tracks l hist now"
  shows "\<exists>l'. Check l now = (l', in_window (fl_time_span l) now hist \<le> fl_count l)
     \<and> tracks l' (if in_window (fl_time_span l) now hist \<le> fl_count l then hist @ [now] else hist) now"
proof -
  let ?ts = "fl_touch_times l" and ?span = "fl_time_span l" and ?n = "fl_count l"
  from tr obtain old where old: "hist = old @ ?ts" "\<forall>t\<in>set old. t + ?span < now"
    and len: "length ?ts \<le> Suc ?n" and srt: "sorted hist" and le: "\<forall>t\<in>set hist. t \<le> now" and now: "now < 2 ^ 64"
    by (auto simp: tracks_def)
  have tsle: "\<forall>t\<in>set ?ts. t \<le> now" using le old(1) by simp
  have am: "amend_times now ?ts = ?ts" using tsle by (cases ?ts) (auto simp: amend_times_def)
  have win: "in_window ?span now hist = in_window ?span now ?ts" using old by (simp add: in_window_old)
  have srt': "sorted (hist @ [now])" using srt le by (simp add: sorted_append)
  show ?thesis
  proof (cases "length ?ts \<le> ?n")
    case True
    then have ok: "in_window ?span now hist \<le> ?n" using in_window_le [of ?span now ?ts] win by simp
    have "Check l now = (l\<lparr>fl_touch_times := ?ts @ [now]\<rparr>, True)" using True am by (simp add: Check_def)
    with ok tracks_snoc [OF old True srt' le now] show ?thesis by simp
  next
    case False
    with len have full: "length ?ts = Suc ?n" by simp
    then obtain t0 ts where ts: "?ts = t0 # ts" by (cases ?ts) auto
    have t0: "\<forall>t\<in>set ?ts. t0 \<le> t" using srt old(1) ts by (simp add: sorted_append)
    have d: "to_size (int now - int (hd ?ts)) = now - t0" using tsle ts now by (simp add: to_size_diff)
    show ?thesis
    proof (cases "now \<le> t0 + ?span")
      case True
      then have "in_window ?span now ?ts = Suc ?n"
        using t0 full by (subst in_window_all) (auto intro: order_trans)
      moreover have "Check l now = (l\<lparr>fl_touch_times := ?ts\<rparr>, False)"
        using True False am d by (simp add: Check_def Let_def le_diff_conv)
      ultimately show ?thesis using tr win by (simp add: tracks_def)
    next
      case out: False
      let ?rest = "dropWhile (\<lambda>t. t + ?span < now) ts"
      have del: "DelOlderTouchTime now ?span ?ts = ?rest"
        using out ts DelOlderTouchTime_dropWhile [OF tsle now] by simp
      have "Check l now = (l\<lparr>fl_touch_times := ?rest @ [now]\<rparr>, True)"
        using out False am d del by (simp add: Check_def Let_def le_diff_conv)
      moreover have "in_window ?span now ?ts \<le> ?n"
        using out ts full in_window_le [of ?span now ts] by (simp add: in_window_def)
      moreover have "hist = (old @ t0 # takeWhile (\<lambda>t. t + ?span < now) ts) @ ?rest"
        using old(1) ts by simp
      moreover have "\<forall>t\<in>set (old @ t0 # takeWhile (\<lambda>t. t + ?span < now) ts). t + ?span < now"
        using old(2) out by (auto dest: set_takeWhileD)
      moreover have "length ?rest \<le> ?n" using full ts length_dropWhile_le [of _ ts] by (metis Suc_inject length_Cons)
      ultimately have "Check l now = (l\<lparr>fl_touch_times := ?rest @ [now]\<rparr>, True)"
          "in_window ?span now ?ts \<le> ?n" "tracks (l\<lparr>fl_touch_times := ?rest @ [now]\<rparr>) (hist @ [now]) now"
        using srt' le now by (simp_all only: tracks_snoc)
      then show ?thesis using win by simp
    qed
  qed
qed

lemma Check_run_tracks:
  assumes "tracks l hist now0" "sorted (now0 # nows)" "\<forall>t\<in>set nows. t < 2 ^ 64"
  shows "snd (Check_run l nows) = window_run (fl_count l) (fl_time_span l) hist nows"
  using assms
proof (induction nows arbitrary: l hist now0)
  case (Cons now nows)
  let ?ok = "in_window (fl_time_span l) now hist \<le> fl_count l"
  from Cons.prems have "tracks l hist now" by (auto intro: tracks_later)
  then obtain l' where l': "Check l now = (l', ?ok)" "tracks l' (if ?ok then hist @ [now] else hist) now"
    using Check_tracks by blast
  from Cons.IH [OF l'(2)] Cons.prems
  have "snd (Check_run l' nows) = window_run (fl_count l') (fl_time_span l') (if ?ok then hist @ [now] else hist) nows"
    by simp
  with l'(1) Check_frame [OF l'(1)] show ?case
    by (cases "Check_run l' nows") (simp add: Let_def)
qed simp

lemma length_DelOlderTouchTime: "length (DelOlderTouchTime now span ts) \<le> length ts"
  by (induction ts) auto

text \<open>The list is bounded whatever the clock does, also when \<open>Check\<close> amends it.\<close>

lemma Check_bounded:
  assumes "length (fl_touch_times l) \<le> Suc (fl_count l)"
  shows "length (fl_touch_times (fst (Check l now))) \<le> Suc (fl_count l)"
proof (cases "amend_times now (fl_touch_times l)")
  case (Cons t ts)
  have "length (amend_times now (fl_touch_times l)) = length (fl_touch_times l)" by (simp add: amend_times_def)
  with Cons assms length_DelOlderTouchTime [of now "fl_time_span l" ts] show ?thesis
    by (auto simp: Check_def Let_def)
qed (simp add: Check_def)

lemma Check_run_bounded:
  "length (fl_touch_times l) \<le> Suc (fl_count l) \<Longrightarrow> length (fl_touch_times (fst (Check_run l nows))) \<le> Suc (fl_count l)"
proof (induction nows arbitrary: l)
  case (Cons now nows)
  obtain l' ok where c: "Check l now = (l', ok)" by (cases "Check l now")
  from Cons.IH [of l'] Check_bounded [OF Cons.prems, of now] Check_frame [OF c] c
  show ?case by (cases "Check_run l' nows") simp
qed simp

text \<open>
  C31: with a clock that does not go back, the answers of a fresh limiter are those of the sliding window over the whole
  history: a call passes when at most \<open>count\<close> calls passed in the last \<open>span\<close> milliseconds, so that \<open>count + 1\<close> calls
  pass within a span; and the list never holds more than \<open>count + 1\<close> times.
\<close>

theorem Check_sliding_window:
  assumes "sorted nows" "\<forall>t\<in>set nows. t < 2 ^ 64"
  shows "snd (Check_run (CommFrequencyLimit_new count span) nows) = window_run count span [] nows
    \<and> length (fl_touch_times (fst (Check_run (CommFrequencyLimit_new count span) nows))) \<le> Suc count"
proof -
  have "tracks (CommFrequencyLimit_new count span) [] 0" by (simp add: tracks_def CommFrequencyLimit_new_def)
  from Check_run_tracks [OF this] Check_run_bounded [of "CommFrequencyLimit_new count span" nows] assms
  show ?thesis by (simp add: CommFrequencyLimit_new_def)
qed

theorem Check_sliding_window_witness:
  "(snd (Check_run (CommFrequencyLimit_new 1 10) [0, 3, 10, 11, 12, 14]) = window_run 1 10 [] [0, 3, 10, 11, 12, 14]
     \<and> length (fl_touch_times (fst (Check_run (CommFrequencyLimit_new 1 10) [0, 3, 10, 11, 12, 14]))) \<le> Suc 1)
   \<and> window_run 1 10 [] [0, 3, 10, 11, 12, 14] = [True, True, False, True, False, True]"
proof (rule conjI)
  have "sorted [0, 3, 10, 11, 12, 14 :: nat]" "\<forall>t\<in>set [0, 3, 10, 11, 12, 14 :: nat]. t < 2 ^ 64" by simp_all
  then show "snd (Check_run (CommFrequencyLimit_new 1 10) [0, 3, 10, 11, 12, 14]) = window_run 1 10 [] [0, 3, 10, 11, 12, 14]
     \<and> length (fl_touch_times (fst (Check_run (CommFrequencyLimit_new 1 10) [0, 3, 10, 11, 12, 14]))) \<le> Suc 1"
    by (rule Check_sliding_window)
  show "window_run 1 10 [] [0, 3, 10, 11, 12, 14] = [True, True, False, True, False, True]" by code_simp
qed

end
