(* ===== verification/Sys_Io.thy ===== *)
theory Sys_Io
  imports Comm_Prelude "HOL-Library.Multiset"
begin

text \<open>
  The operating system below the socket code. What the kernel answers to a call is not part of the repository, so it is a
  parameter: an environment \<open>env\<close> gives for every call an arbitrary answer that may depend on everything that was called
  and answered before (the log, the newest event first). A computation \<open>'a io\<close> takes the log and returns \<open>None\<close> when it
  does not come back, a fault, or its value with the longer log. The program's file descriptors are read off the log:
  \<open>opened\<close> and \<open>closed\<close> are the multisets of the descriptors that \<^verbatim>\<open>socket\<close> returned and that were passed to \<^verbatim>\<open>close\<close>.

  The numbers of \<^verbatim>\<open><errno.h>\<close> and \<^verbatim>\<open><poll.h>\<close> are those of Linux.
\<close>

section \<open>Descriptors and error numbers\<close>

type_synonym socket = int

definition INVALID_SOCKET :: socket where "INVALID_SOCKET = - 1"

definition ETIMEDOUT :: int where "ETIMEDOUT = 110"
definition EINPROGRESS :: int where "EINPROGRESS = 115"
definition EAGAIN :: int where "EAGAIN = 11"
definition EWOULDBLOCK :: int where "EWOULDBLOCK = 11"

definition IS_NOBLOCK_CONNECT_ERRNO :: "int \<Rightarrow> bool" where
  "IS_NOBLOCK_CONNECT_ERRNO err \<longleftrightarrow> err = EINPROGRESS"

definition IS_NOBLOCK_WRITE_ERRNO :: "int \<Rightarrow> bool" where
  "IS_NOBLOCK_WRITE_ERRNO err \<longleftrightarrow> err = EAGAIN \<or> err = EWOULDBLOCK"

definition IS_NOBLOCK_READ_ERRNO :: "int \<Rightarrow> bool" where
  "IS_NOBLOCK_READ_ERRNO err \<longleftrightarrow> err = EAGAIN \<or> err = EWOULDBLOCK"

definition IS_NOBLOCK_SEND_ERRNO :: "int \<Rightarrow> bool" where
  "IS_NOBLOCK_SEND_ERRNO err \<longleftrightarrow> IS_NOBLOCK_WRITE_ERRNO err"

section \<open>Calls and their answers\<close>

record pollfd =
  pfd_fd :: socket
  pfd_events :: "16 word"
  pfd_revents :: "16 word"

datatype fcntl_cmd = F_GETFL | F_SETFL int

datatype sockopt = TCP_MAXSEG | TCP_NODELAY | SO_REUSEADDR | IPV6_V6ONLY

text \<open>The calls of the socket code, with what was answered; the last group are the calls of an \<^verbatim>\<open>MComplexConnect\<close>.\<close>

datatype event =
    Tick nat
  | Errno int
  | Pipe "(socket \<times> socket) option"
  | Fcntl socket fcntl_cmd int
  | Pipe_write socket bytes int
  | Pipe_read socket nat int
  | Close_fd socket
  | Socket socket
  | Connect socket int
  | Getsockopt_error socket "int option"
  | Setsockopt socket sockopt int int
  | Send socket bytes int
  | Recv_from socket nat "bytes option"
  | Poll_fds "pollfd list" int int
  | OnShouldVerify nat bool
  | OnCreated nat socket
  | OnConnect nat socket
  | OnConnected nat socket int int
  | OnVerifySend nat socket bool
  | OnVerifyRecv nat socket bytes bool
  | OnVerifyTimeout int
  | OnFinished nat socket int int int int

type_synonym log = "event list"

record env =
  env_tick :: "log \<Rightarrow> nat"
  env_errno :: "log \<Rightarrow> int"
  env_pipe :: "log \<Rightarrow> (socket \<times> socket) option"
  env_fcntl :: "log \<Rightarrow> socket \<Rightarrow> fcntl_cmd \<Rightarrow> int"
  env_write :: "log \<Rightarrow> socket \<Rightarrow> bytes \<Rightarrow> int"
  env_read :: "log \<Rightarrow> socket \<Rightarrow> nat \<Rightarrow> int"
  env_socket :: "log \<Rightarrow> socket"
  env_connect :: "log \<Rightarrow> socket \<Rightarrow> int"
  env_so_error :: "log \<Rightarrow> socket \<Rightarrow> int option"
  env_setsockopt :: "log \<Rightarrow> socket \<Rightarrow> sockopt \<Rightarrow> int \<Rightarrow> int"
  env_send :: "log \<Rightarrow> socket \<Rightarrow> bytes \<Rightarrow> int"
  env_recv :: "log \<Rightarrow> socket \<Rightarrow> nat \<Rightarrow> bytes option"
  env_poll :: "log \<Rightarrow> pollfd list \<Rightarrow> int \<Rightarrow> int \<times> (nat \<Rightarrow> 16 word)"
  env_inet_addr :: "string \<Rightarrow> byte \<times> byte \<times> byte \<times> byte"

section \<open>Computations\<close>

type_synonym 'a io = "log \<Rightarrow> ('a \<times> log) result option"

definition io_return :: "'a \<Rightarrow> 'a io" where
  "io_return x = (\<lambda>h. Some (Inr (x, h)))"

definition io_bind :: "'a io \<Rightarrow> ('a \<Rightarrow> 'b io) \<Rightarrow> 'b io" where
  "io_bind m f = (\<lambda>h. case m h of
     None \<Rightarrow> None
   | Some (Inl e) \<Rightarrow> Some (Inl e)
   | Some (Inr (x, h')) \<Rightarrow> f x h')"

definition io_then :: "'a io \<Rightarrow> 'b io \<Rightarrow> 'b io" where
  "io_then m n = io_bind m (\<lambda>_. n)"

definition io_lift :: "'a result \<Rightarrow> 'a io" where
  "io_lift r = (\<lambda>h. case r of Inl e \<Rightarrow> Some (Inl e) | Inr x \<Rightarrow> Some (Inr (x, h)))"

text \<open>A call: ask the environment, log the call with its answer.\<close>

definition io_call :: "(log \<Rightarrow> 'a) \<Rightarrow> ('a \<Rightarrow> event) \<Rightarrow> 'a io" where
  "io_call ask ev = (\<lambda>h. Some (Inr (ask h, ev (ask h) # h)))"

definition io_log :: "event \<Rightarrow> unit io" where
  "io_log ev = (\<lambda>h. Some (Inr ((), ev # h)))"

definition gettickcount :: "env \<Rightarrow> nat io" where
  "gettickcount E = io_call (env_tick E) Tick"

definition socket_errno :: "env \<Rightarrow> int io" where
  "socket_errno E = io_call (env_errno E) Errno"

definition socket_open :: "env \<Rightarrow> socket io" where
  "socket_open E = io_call (env_socket E) Socket"

definition socket_close :: "socket \<Rightarrow> unit io" where
  "socket_close s = io_log (Close_fd s)"

definition fcntl :: "env \<Rightarrow> socket \<Rightarrow> fcntl_cmd \<Rightarrow> int io" where
  "fcntl E fd c = io_call (\<lambda>h. env_fcntl E h fd c) (Fcntl fd c)"

definition connect_to :: "env \<Rightarrow> socket \<Rightarrow> int io" where
  "connect_to E s = io_call (\<lambda>h. env_connect E h s) (Connect s)"

definition getsockopt_error :: "env \<Rightarrow> socket \<Rightarrow> int option io" where
  "getsockopt_error E s = io_call (\<lambda>h. env_so_error E h s) (Getsockopt_error s)"

definition setsockopt :: "env \<Rightarrow> socket \<Rightarrow> sockopt \<Rightarrow> int \<Rightarrow> int io" where
  "setsockopt E s opt v = io_call (\<lambda>h. env_setsockopt E h s opt v) (Setsockopt s opt v)"

definition send_to :: "env \<Rightarrow> socket \<Rightarrow> bytes \<Rightarrow> int io" where
  "send_to E s d = io_call (\<lambda>h. env_send E h s d) (Send s d)"

definition recv_from :: "env \<Rightarrow> socket \<Rightarrow> nat \<Rightarrow> bytes option io" where
  "recv_from E s n = io_call (\<lambda>h. env_recv E h s n) (Recv_from s n)"

definition poll_fds :: "env \<Rightarrow> pollfd list \<Rightarrow> int \<Rightarrow> (int \<times> (nat \<Rightarrow> 16 word)) io" where
  "poll_fds E fds msec = io_call (\<lambda>h. env_poll E h fds msec) (\<lambda>(ret, _). Poll_fds fds msec ret)"

section \<open>Postconditions\<close>

text \<open>
  \<open>io_post m h Q\<close>: if \<open>m\<close>, started with the log \<open>h\<close>, returns, its value and the new log satisfy \<open>Q\<close>.
  \<open>io_total m h\<close>: it returns, without a fault. The simplifier turns a computation into its verification condition.
\<close>

definition io_post :: "'a io \<Rightarrow> log \<Rightarrow> ('a \<Rightarrow> log \<Rightarrow> bool) \<Rightarrow> bool" where
  "io_post m h Q \<longleftrightarrow> (\<forall>x h'. m h = Some (Inr (x, h')) \<longrightarrow> Q x h')"

definition io_total :: "'a io \<Rightarrow> log \<Rightarrow> bool" where
  "io_total m h \<longleftrightarrow> (\<exists>x h'. m h = Some (Inr (x, h')))"

named_theorems io_wp

lemma io_post_return [io_wp]: "io_post (io_return x) h Q \<longleftrightarrow> Q x h"
  by (simp add: io_post_def io_return_def)

lemma io_bind_eq_Inr:
  "io_bind m f h = Some (Inr (y, h'')) \<longleftrightarrow> (\<exists>x h'. m h = Some (Inr (x, h')) \<and> f x h' = Some (Inr (y, h'')))"
  by (auto simp: io_bind_def split: option.splits sum.splits)

lemma io_post_bind [io_wp]: "io_post (io_bind m f) h Q \<longleftrightarrow> io_post m h (\<lambda>x h'. io_post (f x) h' Q)"
  by (auto simp: io_post_def io_bind_eq_Inr)

lemma io_post_then [io_wp]: "io_post (io_then m n) h Q \<longleftrightarrow> io_post m h (\<lambda>_ h'. io_post n h' Q)"
  by (simp add: io_then_def io_post_bind)

lemma io_post_lift [io_wp]: "io_post (io_lift r) h Q \<longleftrightarrow> (\<forall>x. r = Inr x \<longrightarrow> Q x h)"
  by (cases r) (auto simp: io_post_def io_lift_def)

lemma io_post_call [io_wp]: "io_post (io_call ask ev) h Q \<longleftrightarrow> Q (ask h) (ev (ask h) # h)"
  by (simp add: io_post_def io_call_def)

lemma io_post_log [io_wp]: "io_post (io_log ev) h Q \<longleftrightarrow> Q () (ev # h)"
  by (simp add: io_post_def io_log_def)

lemma io_post_if [io_wp]: "io_post (if c then m else n) h Q \<longleftrightarrow> (c \<longrightarrow> io_post m h Q) \<and> (\<not> c \<longrightarrow> io_post n h Q)"
  by simp

lemma io_post_case_option [io_wp]:
  "io_post (case x of None \<Rightarrow> m | Some y \<Rightarrow> f y) h Q
    \<longleftrightarrow> (x = None \<longrightarrow> io_post m h Q) \<and> (\<forall>y. x = Some y \<longrightarrow> io_post (f y) h Q)"
  by (cases x) auto

lemma io_post_case_prod [io_wp]:
  "io_post (case x of (a, b) \<Rightarrow> f a b) h Q \<longleftrightarrow> (\<forall>a b. x = (a, b) \<longrightarrow> io_post (f a b) h Q)"
  by (cases x) auto

lemma io_post_mono: "io_post m h Q \<Longrightarrow> (\<And>x h'. Q x h' \<Longrightarrow> R x h') \<Longrightarrow> io_post m h R"
  by (auto simp: io_post_def)

lemma io_post_conj: "io_post m h (\<lambda>x h'. Q x h' \<and> R x h') \<longleftrightarrow> io_post m h Q \<and> io_post m h R"
  by (auto simp: io_post_def)

lemma io_postD: "io_post m h Q \<Longrightarrow> m h = Some (Inr (x, h')) \<Longrightarrow> Q x h'"
  by (simp add: io_post_def)

lemma io_total_return [simp]: "io_total (io_return x) h"
  by (simp add: io_total_def io_return_def)

lemma io_total_call [simp]: "io_total (io_call ask ev) h"
  by (simp add: io_total_def io_call_def)

lemma io_total_log [simp]: "io_total (io_log ev) h"
  by (simp add: io_total_def io_log_def)

lemma io_total_bind: "io_total (io_bind m f) h \<longleftrightarrow> io_total m h \<and> io_post m h (\<lambda>x h'. io_total (f x) h')"
  by (auto simp: io_total_def io_post_def io_bind_eq_Inr)

lemma io_total_then: "io_total (io_then m n) h \<longleftrightarrow> io_total m h \<and> io_post m h (\<lambda>x h'. io_total n h')"
  by (simp add: io_then_def io_total_bind)

lemma io_total_lift: "io_total (io_lift r) h \<longleftrightarrow> (\<exists>x. r = Inr x)"
  by (cases r) (auto simp: io_total_def io_lift_def)

text \<open>\<open>io_returns m\<close>: whatever the log, it comes back, with a fault or with a value and a log that is not shorter.\<close>

definition io_returns :: "'a io \<Rightarrow> bool" where
  "io_returns m \<longleftrightarrow> (\<forall>h. m h \<noteq> None \<and> (\<forall>x h'. m h = Some (Inr (x, h')) \<longrightarrow> length h \<le> length h'))"

named_theorems io_ret

lemma io_returns_basic [io_ret]:
  "io_returns (io_return x)" "io_returns (io_call ask ev)" "io_returns (io_log e)"
  by (simp_all add: io_returns_def io_return_def io_call_def io_log_def)

lemma io_returns_lift [io_ret]: "io_returns (io_lift r)"
  by (cases r) (simp_all add: io_returns_def io_lift_def)

lemma io_returns_bind [io_ret]: "io_returns m \<Longrightarrow> (\<And>x. io_returns (f x)) \<Longrightarrow> io_returns (io_bind m f)"
  by (auto simp: io_returns_def io_bind_def split: option.splits sum.splits) (meson order_trans)

lemma io_returns_post: "io_returns m \<Longrightarrow> io_post m h (\<lambda>_ h'. length h \<le> length h')"
  by (simp add: io_returns_def io_post_def)

lemma io_returns_then [io_ret]: "io_returns m \<Longrightarrow> io_returns n \<Longrightarrow> io_returns (io_then m n)"
  by (simp add: io_then_def io_returns_bind)

lemma io_returns_if [io_ret]: "(c \<Longrightarrow> io_returns m) \<Longrightarrow> (\<not> c \<Longrightarrow> io_returns n) \<Longrightarrow> io_returns (if c then m else n)"
  by simp

lemma io_returns_case_option [io_ret]:
  "(x = None \<Longrightarrow> io_returns m) \<Longrightarrow> (\<And>y. x = Some y \<Longrightarrow> io_returns (f y)) \<Longrightarrow> io_returns (case x of None \<Rightarrow> m | Some y \<Rightarrow> f y)"
  by (cases x) auto

lemma io_returns_case_prod [io_ret]:
  "(\<And>a b. x = (a, b) \<Longrightarrow> io_returns (f a b)) \<Longrightarrow> io_returns (case x of (a, b) \<Rightarrow> f a b)"
  by (cases x) auto

lemma io_returns_Let [io_ret]: "io_returns (f x) \<Longrightarrow> io_returns (Let x f)"
  by simp

lemma io_post_True [simp]: "io_post m h (\<lambda>_ _. True)"
  by (simp add: io_post_def)

lemmas sys_calls = gettickcount_def socket_errno_def socket_open_def socket_close_def fcntl_def connect_to_def
  getsockopt_error_def setsockopt_def send_to_def recv_from_def poll_fds_def

section \<open>The descriptors of a log\<close>

fun opened :: "log \<Rightarrow> socket multiset" where
  "opened [] = {#}"
| "opened (e # h) = (case e of Socket s \<Rightarrow> (if s = INVALID_SOCKET then opened h else add_mset s (opened h)) | _ \<Rightarrow> opened h)"

fun closed :: "log \<Rightarrow> socket multiset" where
  "closed [] = {#}"
| "closed (e # h) = (case e of Close_fd s \<Rightarrow> add_mset s (closed h) | _ \<Rightarrow> closed h)"

definition fd_event :: "event \<Rightarrow> bool" where
  "fd_event e \<longleftrightarrow> (case e of Socket _ \<Rightarrow> True | Close_fd _ \<Rightarrow> True | _ \<Rightarrow> False)"

text \<open>\<open>quiet h h'\<close>: \<open>h'\<close> extends \<open>h\<close> by calls that neither open nor close a descriptor.\<close>

definition quiet :: "log \<Rightarrow> log \<Rightarrow> bool" where
  "quiet h h' \<longleftrightarrow> (\<exists>es. h' = es @ h \<and> (\<forall>e\<in>set es. \<not> fd_event e))"

text \<open>At every moment of the log at most \<open>n\<close> descriptors are open.\<close>

fun peak :: "nat \<Rightarrow> log \<Rightarrow> bool" where
  "peak n [] \<longleftrightarrow> True"
| "peak n (e # h) \<longleftrightarrow> peak n h \<and> size (opened (e # h)) \<le> size (closed (e # h)) + n"

lemma quiet_refl [simp]: "quiet h h"
  by (auto simp: quiet_def)

lemma quiet_Cons: "\<not> fd_event e \<Longrightarrow> quiet h h' \<Longrightarrow> quiet h (e # h')"
  by (auto simp: quiet_def intro: exI [of _ "e # _"])

lemma quiet_trans: "quiet h h' \<Longrightarrow> quiet h' h'' \<Longrightarrow> quiet h h''"
  by (auto simp: quiet_def)

lemma quiet_set: "quiet h h' \<Longrightarrow> set h \<subseteq> set h'"
  by (auto simp: quiet_def)

text \<open>The moments of a log: what it was after each of its calls. A log that is continued keeps its moments.\<close>

fun moments :: "log \<Rightarrow> log set" where
  "moments [] = {[]}"
| "moments (e # h) = insert (e # h) (moments h)"

lemma moments_self [simp]: "h \<in> moments h"
  by (cases h) simp_all

lemma moments_append: "moments h \<subseteq> moments (es @ h)"
  by (induction es) auto

lemma quiet_moments: "quiet h h' \<Longrightarrow> moments h \<subseteq> moments h'"
  using moments_append by (auto simp: quiet_def)

lemma moments_set: "g \<in> moments h \<Longrightarrow> set g \<subseteq> set h"
  by (induction h) auto

lemma moments_mono: "moments h \<subseteq> moments h' \<Longrightarrow> e \<in> set h \<Longrightarrow> e \<in> set h'"
  using moments_set [of h h'] moments_self [of h] by blast

lemma opened_quiet_event: "\<not> fd_event e \<Longrightarrow> opened (e # h) = opened h"
  by (cases e) (simp_all add: fd_event_def)

lemma closed_quiet_event: "\<not> fd_event e \<Longrightarrow> closed (e # h) = closed h"
  by (cases e) (simp_all add: fd_event_def)

lemma quiet_fds: "quiet h h' \<Longrightarrow> opened h' = opened h \<and> closed h' = closed h"
proof -
  have "\<forall>e\<in>set es. \<not> fd_event e \<Longrightarrow> opened (es @ h) = opened h \<and> closed (es @ h) = closed h" for es
    by (induction es) (simp_all add: opened_quiet_event closed_quiet_event del: opened.simps(2) closed.simps(2))
  then show "quiet h h' \<Longrightarrow> ?thesis" by (auto simp: quiet_def)
qed

lemma quiet_peak:
  assumes "quiet h h'" "peak n h" "size (opened h) \<le> size (closed h) + n"
  shows "peak n h'"
proof -
  have "\<forall>e\<in>set es. \<not> fd_event e \<Longrightarrow> peak n (es @ h)" for es
  proof (induction es)
    case Nil
    then show ?case using assms(2) by simp
  next
    case (Cons e es)
    then have "quiet h ((e # es) @ h)" by (auto simp: quiet_def)
    with quiet_fds [OF this] Cons assms(3) show ?case by simp
  qed
  with assms(1) show ?thesis by (auto simp: quiet_def)
qed

lemma fd_event_simps [simp]:
  "\<not> fd_event (Tick t)" "\<not> fd_event (Errno e)" "\<not> fd_event (Fcntl s c r)" "\<not> fd_event (Connect s r)"
  "\<not> fd_event (Getsockopt_error s r')" "\<not> fd_event (Setsockopt s opt v r)" "\<not> fd_event (Send s d r)" "\<not> fd_event (Recv_from s n o')"
  "\<not> fd_event (Poll_fds vs m r)" "\<not> fd_event (Pipe_read s n r)" "\<not> fd_event (OnShouldVerify i b)"
  "\<not> fd_event (OnCreated i s)" "\<not> fd_event (OnConnect i s)" "\<not> fd_event (OnConnected i s r q)"
  "\<not> fd_event (OnVerifySend i s b)" "\<not> fd_event (OnVerifyRecv i s d b)" "\<not> fd_event (OnVerifyTimeout r)"
  "\<not> fd_event (OnFinished i s r q u v)" "fd_event (Socket s)" "fd_event (Close_fd s)"
  by (simp_all add: fd_event_def)

end
