(* ===== verification/Socket_Poll.thy ===== *)
theory Socket_Poll
  imports Sys_Io
begin

text \<open>
  Waiting for sockets: \<^verbatim>\<open>SocketBreaker\<close> (unix/socket/socketbreaker.cc), \<^verbatim>\<open>PollEvent\<close> and \<^verbatim>\<open>SocketPoll\<close>
  (unix/socket/socketpoll.h, socketpoll.cc), \<^verbatim>\<open>SocketSelect\<close> (unix/socket/socketselect.cc, the part that is compiled)
  and the two helpers of socket/unix_socket.cc that the connections use. The breaker is shared by reference in the code;
  here it is a field of the poll object, which only reads its descriptor and, with \<^verbatim>\<open>autoclear_\<close>, clears it. The bits of
  \<^verbatim>\<open>poll\<close> are a 16 bit word, as in \<^verbatim>\<open>struct pollfd\<close>. The specification of the set of events is a map from descriptors
  to the requested bits.
\<close>

unbundle bit_operations_syntax

section \<open>The breaker\<close>

record SocketBreaker =
  brk_pipe0 :: socket
  brk_pipe1 :: socket
  brk_create_success :: bool
  brk_broken :: bool

definition O_NONBLOCK :: int where "O_NONBLOCK = 2048"

definition no_pipe :: "SocketBreaker \<Rightarrow> SocketBreaker" where
  "no_pipe b = b\<lparr>brk_pipe0 := - 1, brk_pipe1 := - 1, brk_create_success := False\<rparr>"

definition close_both :: "socket \<Rightarrow> socket \<Rightarrow> unit io" where
  "close_both p0 p1 = io_then (socket_close p0) (socket_close p1)"

definition ReCreate :: "env \<Rightarrow> SocketBreaker \<Rightarrow> (SocketBreaker \<times> bool) io" where
  "ReCreate E b = io_bind (io_call (env_pipe E) Pipe) (\<lambda>r. case r of
       None \<Rightarrow> io_return (no_pipe b, False)
     | Some (p0, p1) \<Rightarrow>
         io_bind (fcntl E p0 F_GETFL) (\<lambda>flags0.
         io_bind (fcntl E p1 F_GETFL) (\<lambda>flags1.
           if flags0 < 0 \<or> flags1 < 0 then io_then (close_both p0 p1) (io_return (no_pipe b, False))
           else
             io_bind (fcntl E p0 (F_SETFL (flags0 OR O_NONBLOCK))) (\<lambda>ret0.
             io_bind (fcntl E p1 (F_SETFL (flags1 OR O_NONBLOCK))) (\<lambda>ret1.
               if - 1 = ret1 \<or> - 1 = ret0 then io_then (close_both p0 p1) (io_return (no_pipe b, False))
               else io_return (b\<lparr>brk_pipe0 := p0, brk_pipe1 := p1, brk_create_success := True\<rparr>, True))))))"

definition SocketBreaker_new :: "env \<Rightarrow> SocketBreaker io" where
  "SocketBreaker_new E =
     io_bind (ReCreate E \<lparr>brk_pipe0 = - 1, brk_pipe1 = - 1, brk_create_success = True, brk_broken = False\<rparr>)
       (\<lambda>(b, _). io_return b)"

definition Breaker_Break :: "env \<Rightarrow> SocketBreaker \<Rightarrow> (SocketBreaker \<times> bool) io" where
  "Breaker_Break E b =
     (if brk_broken b then io_return (b, True)
      else io_bind (io_call (\<lambda>h. env_write E h (brk_pipe1 b) [49]) (Pipe_write (brk_pipe1 b) [49])) (\<lambda>ret.
        let broken = \<not> (ret < 0 \<or> ret \<noteq> 1) in io_return (b\<lparr>brk_broken := broken\<rparr>, broken)))"

definition Breaker_Clear :: "env \<Rightarrow> SocketBreaker \<Rightarrow> (SocketBreaker \<times> bool) io" where
  "Breaker_Clear E b =
     io_bind (io_call (\<lambda>h. env_read E h (brk_pipe0 b) 128) (Pipe_read (brk_pipe0 b) 128)) (\<lambda>ret.
       if ret < 0 then io_return (b, False) else io_return (b\<lparr>brk_broken := False\<rparr>, True))"

definition Breaker_Close :: "SocketBreaker \<Rightarrow> SocketBreaker io" where
  "Breaker_Close b =
     io_then (if 0 \<le> brk_pipe1 b then socket_close (brk_pipe1 b) else io_return ())
    (io_then (if 0 \<le> brk_pipe0 b then socket_close (brk_pipe0 b) else io_return ())
       (io_return (b\<lparr>brk_broken := True\<rparr>)))"

definition BreakerFD :: "SocketBreaker \<Rightarrow> socket" where
  "BreakerFD b = brk_pipe0 b"

section \<open>Events\<close>

definition POLLIN :: "16 word" where "POLLIN = 1"
definition POLLOUT :: "16 word" where "POLLOUT = 4"
definition POLLERR :: "16 word" where "POLLERR = 8"
definition POLLHUP :: "16 word" where "POLLHUP = 16"
definition POLLNVAL :: "16 word" where "POLLNVAL = 32"

record PollEvent =
  pe_poll_event :: pollfd
  pe_user_data :: nat

definition has_bits :: "pollfd \<Rightarrow> 16 word \<Rightarrow> bool" where
  "has_bits v m \<longleftrightarrow> pfd_revents v AND m \<noteq> 0"

definition Readable :: "PollEvent \<Rightarrow> bool" where "Readable e = has_bits (pe_poll_event e) POLLIN"
definition Writealbe :: "PollEvent \<Rightarrow> bool" where "Writealbe e = has_bits (pe_poll_event e) POLLOUT"
definition HangUp :: "PollEvent \<Rightarrow> bool" where "HangUp e = has_bits (pe_poll_event e) POLLHUP"
definition PollEvent_Error :: "PollEvent \<Rightarrow> bool" where "PollEvent_Error e = has_bits (pe_poll_event e) POLLERR"
definition PollEvent_Invalid :: "PollEvent \<Rightarrow> bool" where "PollEvent_Invalid e = has_bits (pe_poll_event e) POLLNVAL"
definition PollEvent_FD :: "PollEvent \<Rightarrow> socket" where "PollEvent_FD e = pfd_fd (pe_poll_event e)"

section \<open>The set of polled descriptors\<close>

text \<open>A user data pointer is a number, 0 is \<^verbatim>\<open>NULL\<close>.\<close>

record SocketPoll =
  sp_breaker :: SocketBreaker
  sp_autoclear :: bool
  sp_events :: "pollfd list"
  sp_user_data :: "socket \<Rightarrow> nat option"
  sp_triggered :: "PollEvent list"
  sp_ret :: int
  sp_errno :: int

definition SocketPoll_new :: "SocketBreaker \<Rightarrow> bool \<Rightarrow> SocketPoll" where
  "SocketPoll_new b autoclear =
     \<lparr>sp_breaker = b, sp_autoclear = autoclear,
      sp_events = [\<lparr>pfd_fd = BreakerFD b, pfd_events = POLLIN, pfd_revents = 0\<rparr>],
      sp_user_data = Map.empty, sp_triggered = [], sp_ret = 0, sp_errno = 0\<rparr>"

text \<open>\<^verbatim>\<open>std::find_if\<close> for a descriptor, as a position.\<close>

fun find_fd :: "socket \<Rightarrow> pollfd list \<Rightarrow> nat option" where
  "find_fd fd [] = None"
| "find_fd fd (v # vs) = (if pfd_fd v = fd then Some 0 else map_option Suc (find_fd fd vs))"

definition AddEvent :: "socket \<Rightarrow> bool \<Rightarrow> bool \<Rightarrow> nat \<Rightarrow> SocketPoll \<Rightarrow> SocketPoll" where
  "AddEvent fd read write user_data p =
     (let ev = \<lparr>pfd_fd = fd, pfd_events = (if read then POLLIN else 0) OR (if write then POLLOUT else 0), pfd_revents = 0\<rparr>
      in p\<lparr>sp_events := (case find_fd fd (sp_events p) of None \<Rightarrow> sp_events p @ [ev] | Some i \<Rightarrow> (sp_events p)[i := ev]),
           sp_user_data := (sp_user_data p)(fd \<mapsto> user_data)\<rparr>)"

definition set_bits :: "bool \<Rightarrow> 16 word \<Rightarrow> pollfd \<Rightarrow> pollfd" where
  "set_bits active m v =
     (if active then v\<lparr>pfd_events := pfd_events v OR m\<rparr> else v\<lparr>pfd_events := pfd_events v AND NOT m\<rparr>)"

definition ReadEvent :: "socket \<Rightarrow> bool \<Rightarrow> SocketPoll \<Rightarrow> SocketPoll" where
  "ReadEvent fd active p =
     (case find_fd fd (sp_events p) of
        None \<Rightarrow> AddEvent fd active False 0 p
      | Some i \<Rightarrow> p\<lparr>sp_events := (sp_events p)[i := set_bits active POLLIN (sp_events p ! i)]\<rparr>)"

definition WriteEvent :: "socket \<Rightarrow> bool \<Rightarrow> SocketPoll \<Rightarrow> SocketPoll" where
  "WriteEvent fd active p =
     (case find_fd fd (sp_events p) of
        None \<Rightarrow> AddEvent fd False active 0 p
      | Some i \<Rightarrow> p\<lparr>sp_events := (sp_events p)[i := set_bits active POLLOUT (sp_events p ! i)]\<rparr>)"

definition NullEvent :: "socket \<Rightarrow> SocketPoll \<Rightarrow> SocketPoll" where
  "NullEvent fd p = (case find_fd fd (sp_events p) of None \<Rightarrow> AddEvent fd False False 0 p | Some _ \<Rightarrow> p)"

definition DelEvent :: "socket \<Rightarrow> SocketPoll \<Rightarrow> SocketPoll" where
  "DelEvent fd p =
     p\<lparr>sp_events := (case find_fd fd (sp_events p) of
          None \<Rightarrow> sp_events p
        | Some i \<Rightarrow> take i (sp_events p) @ drop (Suc i) (sp_events p)),
       sp_user_data := (sp_user_data p)(fd := None)\<rparr>"

definition ClearEvent :: "SocketPoll \<Rightarrow> SocketPoll result" where
  "ClearEvent p =
     (case sp_events p of
        [] \<Rightarrow> Inl Empty_Container
      | v # _ \<Rightarrow> Inr (p\<lparr>sp_events := [v], sp_user_data := Map.empty\<rparr>))"

text \<open>
  The loop over the events after \<^verbatim>\<open>poll\<close>: the events but the first that were answered are triggered; reading the user data of
  a descriptor inserts \<^verbatim>\<open>NULL\<close> when there is none.
\<close>

fun trigger :: "pollfd list \<Rightarrow> (socket \<Rightarrow> nat option) \<Rightarrow> (socket \<Rightarrow> nat option) \<times> PollEvent list" where
  "trigger [] ud = (ud, [])"
| "trigger (v # vs) ud =
     (if pfd_revents v = 0 then trigger vs ud
      else
        let x = (case ud (pfd_fd v) of None \<Rightarrow> 0 | Some x \<Rightarrow> x) in
        case trigger vs (ud(pfd_fd v \<mapsto> x)) of
          (ud', es) \<Rightarrow> (ud', \<lparr>pe_poll_event = v, pe_user_data = x\<rparr> # es))"

definition answer_revents :: "(nat \<Rightarrow> 16 word) \<Rightarrow> pollfd list \<Rightarrow> pollfd list" where
  "answer_revents answer vs = map (\<lambda>i. (vs ! i)\<lparr>pfd_revents := answer i\<rparr>) [0..<length vs]"

definition Poll :: "env \<Rightarrow> SocketPoll \<Rightarrow> int \<Rightarrow> (SocketPoll \<times> int) io" where
  "Poll E p msec0 =
     (let msec = (if msec0 < - 1 then 0 else msec0);
          p0 = p\<lparr>sp_triggered := [], sp_errno := 0, sp_ret := 0, sp_events := answer_revents (\<lambda>_. 0) (sp_events p)\<rparr> in
      io_bind (io_lift (if sp_events p = [] then Inl Empty_Container else Inr ())) (\<lambda>_.
      io_bind (poll_fds E (sp_events p0) msec) (\<lambda>(ret, answer).
        let p1 = p0\<lparr>sp_ret := ret, sp_events := answer_revents answer (sp_events p0)\<rparr> in
        io_bind
          (if ret < 0 then io_bind (socket_errno E) (\<lambda>e. io_return (p1\<lparr>sp_errno := e\<rparr>))
           else if ret = 0 then io_return p1
           else case trigger (tl (sp_events p1)) (sp_user_data p1) of
                  (ud, es) \<Rightarrow> io_return (p1\<lparr>sp_user_data := ud, sp_triggered := es\<rparr>)) (\<lambda>p2.
        io_bind
          (if sp_autoclear p2 then io_bind (Breaker_Clear E (sp_breaker p2)) (\<lambda>(b, _). io_return (p2\<lparr>sp_breaker := b\<rparr>))
           else io_return p2) (\<lambda>p3.
        io_return (p3, sp_ret p3))))))"

definition BreakerIsError :: "SocketPoll \<Rightarrow> bool result" where
  "BreakerIsError p =
     (case sp_events p of
        [] \<Rightarrow> Inl Empty_Container
      | v # _ \<Rightarrow> Inr (has_bits v POLLNVAL \<or> has_bits v POLLERR))"

definition BreakerIsBreak :: "SocketPoll \<Rightarrow> bool result" where
  "BreakerIsBreak p = (case sp_events p of [] \<Rightarrow> Inl Empty_Container | v # _ \<Rightarrow> Inr (has_bits v POLLIN))"

section \<open>Consigning one set to another\<close>

definition Consign :: "SocketPoll \<Rightarrow> SocketPoll \<Rightarrow> bool \<Rightarrow> (SocketPoll \<times> bool) result" where
  "Consign p consignor recover =
     (case sp_events consignor of
        [] \<Rightarrow> Inl Empty_Container
      | v # _ \<Rightarrow>
          let it = find_fd (pfd_fd v) (sp_events p); n = length (sp_events consignor) in
          if recover then
            case it of
              None \<Rightarrow> Inr (p, False)
            | Some i \<Rightarrow>
                if length (sp_events p) < i + n then Inl Out_Of_Bounds
                else Inr (p\<lparr>sp_events := take i (sp_events p) @ drop (i + n) (sp_events p)\<rparr>, True)
          else if it \<noteq> None then Inr (p, False)
          else Inr (p\<lparr>sp_events := sp_events p @ sp_events consignor\<rparr>, True))"

text \<open>
  The loop of \<^verbatim>\<open>ConsignReport\<close> over the events of the consignor: \<open>first\<close> is its first descriptor, \<open>vs\<close> what
  \<^verbatim>\<open>find_it\<close> walks over. The result is the new events, user data, triggered events and their count. When the first
  descriptor was answered, \<^verbatim>\<open>continue\<close> leaves \<^verbatim>\<open>find_it\<close> where it is.
\<close>

fun report_loop ::
  "socket \<Rightarrow> pollfd list \<Rightarrow> pollfd list \<Rightarrow> (socket \<Rightarrow> nat option)
    \<Rightarrow> (pollfd list \<times> (socket \<Rightarrow> nat option) \<times> PollEvent list \<times> nat) result" where
  "report_loop first [] vs ud = Inr ([], ud, [], 0)"
| "report_loop first (i # is) [] ud = Inl Out_Of_Bounds"
| "report_loop first (i # is) (v # vs) ud =
     (if pfd_revents v \<noteq> 0 then
        let i' = i\<lparr>pfd_revents := pfd_revents v\<rparr> in
        if pfd_fd i' = first then
          rbind (report_loop first is (v # vs) ud) (\<lambda>(is', ud', es, n). Inr (i' # is', ud', es, Suc n))
        else
          let x = (case ud (pfd_fd i') of None \<Rightarrow> 0 | Some x \<Rightarrow> x) in
          rbind (report_loop first is vs (ud(pfd_fd i' \<mapsto> x)))
            (\<lambda>(is', ud', es, n). Inr (i' # is', ud', \<lparr>pe_poll_event = i', pe_user_data = x\<rparr> # es, Suc n))
      else rbind (report_loop first is vs ud) (\<lambda>(is', ud', es, n). Inr (i # is', ud', es, n)))"

definition clear_consignor :: "env \<Rightarrow> SocketPoll \<Rightarrow> SocketPoll io" where
  "clear_consignor E c =
     (if sp_autoclear c then io_bind (Breaker_Clear E (sp_breaker c)) (\<lambda>(b, _). io_return (c\<lparr>sp_breaker := b\<rparr>))
      else io_return c)"

definition ConsignReport :: "env \<Rightarrow> SocketPoll \<Rightarrow> SocketPoll \<Rightarrow> int \<Rightarrow> (SocketPoll \<times> bool) io" where
  "ConsignReport E p c timeout =
     (case sp_events c of
        [] \<Rightarrow> io_lift (Inl Empty_Container)
      | v # _ \<Rightarrow>
          (case find_fd (pfd_fd v) (sp_events p) of
             None \<Rightarrow> io_return (c, False)
           | Some k \<Rightarrow>
               io_bind (io_lift (report_loop (pfd_fd v) (sp_events c) (drop k (sp_events p)) (sp_user_data c)))
                 (\<lambda>(is', ud', es, n).
                   let c1 = c\<lparr>sp_events := is', sp_user_data := ud', sp_triggered := sp_triggered c @ es\<rparr> in
                   if sp_ret p < 0 then
                     io_bind (clear_consignor E (c1\<lparr>sp_ret := sp_ret p, sp_errno := sp_errno p\<rparr>)) (\<lambda>c2. io_return (c2, True))
                   else if 0 < n then
                     io_bind (clear_consignor E (c1\<lparr>sp_ret := int n, sp_errno := 0\<rparr>)) (\<lambda>c2. io_return (c2, True))
                   else if timeout \<le> 0 then
                     io_bind (clear_consignor E (c1\<lparr>sp_ret := 0, sp_errno := sp_errno p\<rparr>)) (\<lambda>c2. io_return (c2, True))
                   else io_return (c1, False))))"

section \<open>SocketSelect\<close>

text \<open>A \<^verbatim>\<open>SocketSelect\<close> is its poll object; each of its operations is one of that object.\<close>

type_synonym SocketSelect = SocketPoll

definition SocketSelect_new :: "SocketBreaker \<Rightarrow> bool \<Rightarrow> SocketSelect" where
  "SocketSelect_new b autoclear = SocketPoll_new b autoclear"

definition PreSelect_clear :: "SocketSelect \<Rightarrow> SocketSelect result" where "PreSelect_clear s = ClearEvent s"
definition Select_msec :: "env \<Rightarrow> SocketSelect \<Rightarrow> int \<Rightarrow> (SocketSelect \<times> int) io" where "Select_msec E s msec = Poll E s msec"
definition Select :: "env \<Rightarrow> SocketSelect \<Rightarrow> (SocketSelect \<times> int) io" where "Select E s = Select_msec E s (- 1)"
definition Read_FD_SET :: "socket \<Rightarrow> SocketSelect \<Rightarrow> SocketSelect" where "Read_FD_SET fd s = ReadEvent fd True s"
definition Write_FD_SET :: "socket \<Rightarrow> SocketSelect \<Rightarrow> SocketSelect" where "Write_FD_SET fd s = WriteEvent fd True s"
definition Exception_FD_SET :: "socket \<Rightarrow> SocketSelect \<Rightarrow> SocketSelect" where "Exception_FD_SET fd s = NullEvent fd s"

definition Read_FD_ISSET :: "SocketSelect \<Rightarrow> socket \<Rightarrow> bool" where
  "Read_FD_ISSET s fd = (case find (\<lambda>e. PollEvent_FD e = fd) (sp_triggered s) of
     None \<Rightarrow> False | Some e \<Rightarrow> Readable e \<or> HangUp e)"

definition Write_FD_ISSET :: "SocketSelect \<Rightarrow> socket \<Rightarrow> bool" where
  "Write_FD_ISSET s fd = (case find (\<lambda>e. PollEvent_FD e = fd) (sp_triggered s) of
     None \<Rightarrow> False | Some e \<Rightarrow> Writealbe e)"

definition Exception_FD_ISSET :: "SocketSelect \<Rightarrow> socket \<Rightarrow> bool" where
  "Exception_FD_ISSET s fd = (case find (\<lambda>e. PollEvent_FD e = fd) (sp_triggered s) of
     None \<Rightarrow> False | Some e \<Rightarrow> PollEvent_Error e \<or> PollEvent_Invalid e)"

definition IsException :: "SocketSelect \<Rightarrow> bool result" where "IsException s = BreakerIsError s"
definition IsBreak :: "SocketSelect \<Rightarrow> bool result" where "IsBreak s = BreakerIsBreak s"

section \<open>The set of events as a map\<close>

fun bits_map :: "pollfd list \<Rightarrow> socket \<Rightarrow> (16 word) option" where
  "bits_map [] = Map.empty"
| "bits_map (v # vs) = (bits_map vs)(pfd_fd v \<mapsto> pfd_events v)"

definition interest :: "SocketPoll \<Rightarrow> socket \<Rightarrow> (16 word) option" where
  "interest p = bits_map (sp_events p)"

definition poll_ok :: "socket \<Rightarrow> SocketPoll \<Rightarrow> bool" where
  "poll_ok fd p \<longleftrightarrow> sp_events p \<noteq> [] \<and> pfd_fd (hd (sp_events p)) = fd \<and> distinct (map pfd_fd (sp_events p))"

datatype poll_op = Op_Add socket bool bool nat | Op_Read socket bool | Op_Write socket bool | Op_Null socket
  | Op_Del socket | Op_Clear

fun poll_step :: "poll_op \<Rightarrow> SocketPoll \<Rightarrow> SocketPoll result" where
  "poll_step (Op_Add fd r w ud) p = Inr (AddEvent fd r w ud p)"
| "poll_step (Op_Read fd a) p = Inr (ReadEvent fd a p)"
| "poll_step (Op_Write fd a) p = Inr (WriteEvent fd a p)"
| "poll_step (Op_Null fd) p = Inr (NullEvent fd p)"
| "poll_step (Op_Del fd) p = Inr (DelEvent fd p)"
| "poll_step Op_Clear p = ClearEvent p"

fun poll_run :: "poll_op list \<Rightarrow> SocketPoll \<Rightarrow> SocketPoll result" where
  "poll_run [] p = Inr p"
| "poll_run (x # xs) p = rbind (poll_step x p) (poll_run xs)"

definition bits_of :: "bool \<Rightarrow> bool \<Rightarrow> 16 word" where
  "bits_of r w = (if r then POLLIN else 0) OR (if w then POLLOUT else 0)"

definition update_bits :: "socket \<Rightarrow> bool \<Rightarrow> 16 word \<Rightarrow> (socket \<Rightarrow> (16 word) option) \<Rightarrow> socket \<Rightarrow> (16 word) option" where
  "update_bits fd active bits m =
     (let old = (case m fd of None \<Rightarrow> 0 | Some x \<Rightarrow> x) in m(fd \<mapsto> (if active then old OR bits else old AND NOT bits)))"

fun poll_spec :: "socket \<Rightarrow> poll_op \<Rightarrow> (socket \<Rightarrow> (16 word) option) \<Rightarrow> socket \<Rightarrow> (16 word) option" where
  "poll_spec b (Op_Add fd r w ud) m = m(fd \<mapsto> bits_of r w)"
| "poll_spec b (Op_Read fd a) m = update_bits fd a POLLIN m"
| "poll_spec b (Op_Write fd a) m = update_bits fd a POLLOUT m"
| "poll_spec b (Op_Null fd) m = (if m fd = None then m(fd \<mapsto> 0) else m)"
| "poll_spec b (Op_Del fd) m = m(fd := None)"
| "poll_spec b Op_Clear m = m |` {b}"

lemma find_fd_None_iff: "find_fd fd vs = None \<longleftrightarrow> fd \<notin> pfd_fd ` set vs"
  by (induction vs) auto

lemma find_fd_SomeD: "find_fd fd vs = Some i \<Longrightarrow> i < length vs \<and> pfd_fd (vs ! i) = fd"
  by (induction vs arbitrary: i) (auto split: if_splits)

lemma bits_map_None: "bits_map vs fd = None \<longleftrightarrow> fd \<notin> pfd_fd ` set vs"
  by (induction vs) (auto simp: image_iff)

lemma distinct_fds_Cons_nth:
  "distinct (map pfd_fd (w # vs)) \<Longrightarrow> j < length vs \<Longrightarrow> pfd_fd w \<noteq> pfd_fd (vs ! j)"
  by (auto simp: image_iff)

lemma bits_map_nth:
  "distinct (map pfd_fd vs) \<Longrightarrow> i < length vs \<Longrightarrow> bits_map vs (pfd_fd (vs ! i)) = Some (pfd_events (vs ! i))"
proof (induction vs arbitrary: i)
  case (Cons w vs)
  then show ?case
  proof (cases i)
    case (Suc j)
    with Cons.prems have "pfd_fd w \<noteq> pfd_fd (vs ! j)" using distinct_fds_Cons_nth by simp
    with Suc Cons show ?thesis by auto
  qed simp
qed simp

lemma bits_map_snoc:
  "pfd_fd v \<notin> pfd_fd ` set vs \<Longrightarrow> bits_map (vs @ [v]) = (bits_map vs)(pfd_fd v \<mapsto> pfd_events v)"
  by (induction vs) (auto simp: fun_upd_twist)

lemma bits_map_update:
  "distinct (map pfd_fd vs) \<Longrightarrow> i < length vs \<Longrightarrow> pfd_fd v = pfd_fd (vs ! i) \<Longrightarrow>
    bits_map (vs[i := v]) = (bits_map vs)(pfd_fd v \<mapsto> pfd_events v)"
proof (induction vs arbitrary: i)
  case (Cons w vs)
  then show ?case
  proof (cases i)
    case (Suc j)
    with Cons.prems have "pfd_fd w \<noteq> pfd_fd v" using distinct_fds_Cons_nth by simp
    with Suc Cons show ?thesis by (auto simp: fun_upd_twist)
  qed (auto simp: fun_eq_iff)
qed simp

lemma bits_map_delete:
  "distinct (map pfd_fd vs) \<Longrightarrow> i < length vs \<Longrightarrow>
    bits_map (take i vs @ drop (Suc i) vs) = (bits_map vs)(pfd_fd (vs ! i) := None)"
proof (induction vs arbitrary: i)
  case (Cons w vs)
  then show ?case
  proof (cases i)
    case 0
    with Cons.prems have "bits_map vs (pfd_fd w) = None" by (simp add: bits_map_None)
    with 0 show ?thesis by (auto simp: fun_eq_iff)
  next
    case (Suc j)
    with Cons.prems have "pfd_fd w \<noteq> pfd_fd (vs ! j)" using distinct_fds_Cons_nth by simp
    with Suc Cons show ?thesis by (auto simp: fun_upd_twist)
  qed
qed simp

lemma distinct_delete: "distinct (map f vs) \<Longrightarrow> distinct (map f (take i vs @ drop (Suc i) vs))"
proof -
  assume d: "distinct (map f vs)"
  have "set (drop (Suc i) (map f vs)) \<subseteq> set (drop i (map f vs))" by (rule set_drop_subset_set_drop) simp
  moreover have "set (take i (map f vs)) \<inter> set (drop i (map f vs)) = {}"
    using d by (metis append_take_drop_id distinct_append)
  ultimately show ?thesis using d by (auto simp: take_map drop_map [symmetric] simp flip: drop_map take_map)
qed

lemma distinct_fds_update:
  "distinct (map pfd_fd vs) \<Longrightarrow> i < length vs \<Longrightarrow> pfd_fd v = pfd_fd (vs ! i) \<Longrightarrow> map pfd_fd (vs[i := v]) = map pfd_fd vs"
  by (metis length_map list_update_id map_update nth_map)

section \<open>Refinement of the map by the list\<close>

lemma SocketPoll_new_ok: "poll_ok (BreakerFD b) (SocketPoll_new b ac)"
  by (simp add: poll_ok_def SocketPoll_new_def)

lemma poll_ok_find_hd: "poll_ok b p \<Longrightarrow> find_fd fd (sp_events p) = None \<Longrightarrow> fd \<noteq> b"
  by (auto simp: poll_ok_def find_fd_None_iff)

lemma poll_ok_append:
  "poll_ok b p \<Longrightarrow> find_fd (pfd_fd v) (sp_events p) = None \<Longrightarrow> sp_events p' = sp_events p @ [v] \<Longrightarrow> poll_ok b p'"
  by (auto simp: poll_ok_def find_fd_None_iff)

lemma poll_ok_update:
  assumes "poll_ok b p" "find_fd fd (sp_events p) = Some i" "pfd_fd v = fd" "sp_events p' = (sp_events p)[i := v]"
  shows "poll_ok b p'"
proof -
  have i: "i < length (sp_events p)" "pfd_fd (sp_events p ! i) = fd" using find_fd_SomeD [OF assms(2)] by auto
  then have "map pfd_fd (sp_events p') = map pfd_fd (sp_events p)"
    using assms by (simp add: distinct_fds_update poll_ok_def)
  with assms(1) show ?thesis unfolding poll_ok_def by (metis hd_map list.map_disc_iff)
qed

lemma interest_append:
  "find_fd (pfd_fd v) (sp_events p) = None \<Longrightarrow> sp_events p' = sp_events p @ [v] \<Longrightarrow>
    interest p' = (interest p)(pfd_fd v \<mapsto> pfd_events v)"
  by (simp add: interest_def bits_map_snoc find_fd_None_iff)

lemma interest_update:
  assumes "poll_ok b p" "find_fd fd (sp_events p) = Some i" "pfd_fd v = fd" "sp_events p' = (sp_events p)[i := v]"
  shows "interest p' = (interest p)(fd \<mapsto> pfd_events v)"
  using find_fd_SomeD [OF assms(2)] assms by (simp add: interest_def bits_map_update poll_ok_def)

lemma interest_found:
  "poll_ok b p \<Longrightarrow> find_fd fd (sp_events p) = Some i \<Longrightarrow> interest p fd = Some (pfd_events (sp_events p ! i))"
  using bits_map_nth by (fastforce simp: interest_def poll_ok_def dest: find_fd_SomeD)

lemma interest_None: "find_fd fd (sp_events p) = None \<longleftrightarrow> interest p fd = None"
  by (simp add: interest_def bits_map_None find_fd_None_iff)

lemma AddEvent_ok:
  assumes "poll_ok b p"
  shows "poll_ok b (AddEvent fd r w ud p) \<and> interest (AddEvent fd r w ud p) = (interest p)(fd \<mapsto> bits_of r w)"
proof (cases "find_fd fd (sp_events p)")
  case None
  let ?v = "\<lparr>pfd_fd = fd, pfd_events = bits_of r w, pfd_revents = 0\<rparr>"
  from None have "sp_events (AddEvent fd r w ud p) = sp_events p @ [?v]"
    by (simp add: AddEvent_def Let_def bits_of_def)
  with None assms poll_ok_append [of b p ?v] interest_append [of ?v p] show ?thesis by simp
next
  case (Some i)
  let ?v = "\<lparr>pfd_fd = fd, pfd_events = bits_of r w, pfd_revents = 0\<rparr>"
  from Some have "sp_events (AddEvent fd r w ud p) = (sp_events p)[i := ?v]"
    by (simp add: AddEvent_def Let_def bits_of_def)
  with Some assms poll_ok_update [of b p fd i ?v] interest_update [of b p fd i ?v] show ?thesis by simp
qed

text \<open>The two operations that set or clear one bit share their proof.\<close>

lemma set_bits_ok:
  assumes "poll_ok b p" "find_fd fd (sp_events p) = Some i"
    "sp_events p' = (sp_events p)[i := set_bits a m (sp_events p ! i)]"
  shows "poll_ok b p' \<and> interest p' = update_bits fd a m (interest p)"
proof -
  let ?v = "set_bits a m (sp_events p ! i)"
  have "pfd_fd ?v = fd" using find_fd_SomeD [OF assms(2)] by (simp add: set_bits_def)
  moreover have "pfd_events ?v = (if a then pfd_events (sp_events p ! i) OR m else pfd_events (sp_events p ! i) AND NOT m)"
    by (simp add: set_bits_def)
  ultimately show ?thesis
    using poll_ok_update [OF assms(1,2) _ assms(3)] interest_update [OF assms(1,2) _ assms(3)] interest_found [OF assms(1,2)]
    by (simp add: update_bits_def)
qed

lemma ReadEvent_ok:
  assumes "poll_ok b p"
  shows "poll_ok b (ReadEvent fd a p) \<and> interest (ReadEvent fd a p) = update_bits fd a POLLIN (interest p)"
proof (cases "find_fd fd (sp_events p)")
  case None
  with interest_None [of fd p] AddEvent_ok [OF assms, of fd a False 0] show ?thesis
    by (simp add: ReadEvent_def update_bits_def bits_of_def)
next
  case (Some i)
  then show ?thesis by (intro set_bits_ok [OF assms Some]) (simp add: ReadEvent_def)
qed

lemma WriteEvent_ok:
  assumes "poll_ok b p"
  shows "poll_ok b (WriteEvent fd a p) \<and> interest (WriteEvent fd a p) = update_bits fd a POLLOUT (interest p)"
proof (cases "find_fd fd (sp_events p)")
  case None
  with interest_None [of fd p] AddEvent_ok [OF assms, of fd False a 0] show ?thesis
    by (simp add: WriteEvent_def update_bits_def bits_of_def)
next
  case (Some i)
  then show ?thesis by (intro set_bits_ok [OF assms Some]) (simp add: WriteEvent_def)
qed

lemma NullEvent_ok:
  assumes "poll_ok b p"
  shows "poll_ok b (NullEvent fd p) \<and> interest (NullEvent fd p) = poll_spec b (Op_Null fd) (interest p)"
  using assms interest_None [of fd p] AddEvent_ok [OF assms, of fd False False 0]
  by (cases "find_fd fd (sp_events p)") (auto simp: NullEvent_def bits_of_def)

lemma DelEvent_ok:
  assumes "poll_ok b p" "fd \<noteq> b"
  shows "poll_ok b (DelEvent fd p) \<and> interest (DelEvent fd p) = (interest p)(fd := None)"
proof (cases "find_fd fd (sp_events p)")
  case None
  then have "sp_events (DelEvent fd p) = sp_events p" by (simp add: DelEvent_def)
  moreover have "interest p fd = None" using None interest_None by blast
  ultimately show ?thesis using assms by (auto simp: poll_ok_def interest_def fun_eq_iff)
next
  case (Some i)
  then have i: "i < length (sp_events p)" "pfd_fd (sp_events p ! i) = fd" by (auto dest: find_fd_SomeD)
  have d: "sp_events (DelEvent fd p) = take i (sp_events p) @ drop (Suc i) (sp_events p)"
    using Some by (simp add: DelEvent_def)
  have "i \<noteq> 0" using i assms by (metis hd_conv_nth poll_ok_def)
  then have "take i (sp_events p) \<noteq> []" "hd (take i (sp_events p)) = hd (sp_events p)" using assms(1) by (auto simp: poll_ok_def)
  with assms(1) i d distinct_delete [of pfd_fd "sp_events p" i] bits_map_delete [of "sp_events p" i]
  show ?thesis by (simp add: poll_ok_def interest_def)
qed

lemma ClearEvent_ok:
  assumes "poll_ok b p"
  shows "\<exists>p'. ClearEvent p = Inr p' \<and> poll_ok b p' \<and> interest p' = interest p |` {b}"
proof -
  from assms obtain v vs where v: "sp_events p = v # vs" "pfd_fd v = b" "distinct (map pfd_fd (v # vs))"
    by (cases "sp_events p") (auto simp: poll_ok_def)
  then show ?thesis by (auto simp: ClearEvent_def poll_ok_def interest_def restrict_map_def fun_eq_iff)
qed

lemma poll_step_refines:
  assumes "poll_ok b p" "\<forall>fd. x = Op_Del fd \<longrightarrow> fd \<noteq> b"
  shows "\<exists>p'. poll_step x p = Inr p' \<and> poll_ok b p' \<and> interest p' = poll_spec b x (interest p)"
  using assms AddEvent_ok ReadEvent_ok WriteEvent_ok NullEvent_ok DelEvent_ok ClearEvent_ok
  by (cases x) (simp_all del: poll_spec.simps(4))

lemma poll_run_refines:
  "poll_ok b p \<Longrightarrow> Op_Del b \<notin> set xs \<Longrightarrow>
    \<exists>p'. poll_run xs p = Inr p' \<and> poll_ok b p' \<and> interest p' = fold (poll_spec b) xs (interest p)"
proof (induction xs arbitrary: p)
  case (Cons x xs)
  then obtain p1 where "poll_step x p = Inr p1" "poll_ok b p1" "interest p1 = poll_spec b x (interest p)"
    using poll_step_refines [of b p x] by auto
  with Cons show ?case by fastforce
qed simp

text \<open>
  C29: the vector of events is a map from descriptors to requested bits. Every sequence of \<^verbatim>\<open>AddEvent\<close>, \<^verbatim>\<open>ReadEvent\<close>,
  \<^verbatim>\<open>WriteEvent\<close>, \<^verbatim>\<open>NullEvent\<close>, \<^verbatim>\<open>DelEvent\<close> and \<^verbatim>\<open>ClearEvent\<close> on a fresh
  \<^verbatim>\<open>SocketPoll\<close> that does not delete its breaker runs without a fault, keeps one entry per descriptor with the breaker in
  front, and ends with the map that the specification computes.
\<close>

theorem SocketPoll_refines:
  assumes "Op_Del (BreakerFD b) \<notin> set xs"
  shows "\<exists>p. poll_run xs (SocketPoll_new b autoclear) = Inr p \<and> poll_ok (BreakerFD b) p
    \<and> interest p = fold (poll_spec (BreakerFD b)) xs [BreakerFD b \<mapsto> POLLIN]"
proof -
  have "interest (SocketPoll_new b autoclear) = [BreakerFD b \<mapsto> POLLIN]"
    by (simp add: interest_def SocketPoll_new_def)
  with poll_run_refines [OF SocketPoll_new_ok assms, of autoclear] show ?thesis by simp
qed

definition ex_breaker :: SocketBreaker where
  "ex_breaker = \<lparr>brk_pipe0 = 3, brk_pipe1 = 4, brk_create_success = True, brk_broken = False\<rparr>"

theorem SocketPoll_refines_witness:
  "\<exists>p. poll_run [Op_Write 7 True, Op_Null 7, Op_Read 7 True, Op_Write 7 False, Op_Del 9] (SocketPoll_new ex_breaker False) = Inr p
    \<and> poll_ok 3 p \<and> interest p 7 = Some POLLIN"
proof -
  have "BreakerFD ex_breaker = 3" by (simp add: BreakerFD_def ex_breaker_def)
  moreover have "Op_Del 3 \<notin> set [Op_Write 7 True, Op_Null 7, Op_Read 7 True, Op_Write 7 False, Op_Del 9]" by simp
  ultimately obtain p where "poll_run [Op_Write 7 True, Op_Null 7, Op_Read 7 True, Op_Write 7 False, Op_Del 9] (SocketPoll_new ex_breaker False) = Inr p"
    "poll_ok 3 p" "interest p = fold (poll_spec 3) [Op_Write 7 True, Op_Null 7, Op_Read 7 True, Op_Write 7 False, Op_Del 9] [3 \<mapsto> POLLIN]"
    using SocketPoll_refines [of ex_breaker "[Op_Write 7 True, Op_Null 7, Op_Read 7 True, Op_Write 7 False, Op_Del 9]" False] by auto
  then show ?thesis by (auto simp: update_bits_def POLLIN_def POLLOUT_def)
qed

section \<open>What a poll reports\<close>

definition isset :: "SocketSelect \<Rightarrow> socket \<Rightarrow> 16 word \<Rightarrow> bool" where
  "isset s fd m = (case find (\<lambda>v. pfd_fd v = fd) (map pe_poll_event (sp_triggered s)) of
     None \<Rightarrow> False | Some v \<Rightarrow> has_bits v m)"

lemma find_map_event:
  "find (\<lambda>v. pfd_fd v = fd) (map pe_poll_event es) = map_option pe_poll_event (find (\<lambda>e. PollEvent_FD e = fd) es)"
  by (induction es) (auto simp: PollEvent_FD_def)

lemma FD_ISSET_isset:
  "Read_FD_ISSET s fd \<longleftrightarrow> isset s fd POLLIN \<or> isset s fd POLLHUP"
  "Write_FD_ISSET s fd \<longleftrightarrow> isset s fd POLLOUT"
  "Exception_FD_ISSET s fd \<longleftrightarrow> isset s fd POLLERR \<or> isset s fd POLLNVAL"
  by (auto simp: Read_FD_ISSET_def Write_FD_ISSET_def Exception_FD_ISSET_def isset_def find_map_event Readable_def
      HangUp_def Writealbe_def PollEvent_Error_def PollEvent_Invalid_def split: option.splits)

lemma trigger_events: "map pe_poll_event (snd (trigger vs ud)) = filter (\<lambda>v. pfd_revents v \<noteq> 0) vs"
proof (induction vs arbitrary: ud)
  case (Cons v vs)
  then show ?case by (simp add: Let_def split: prod.splits) (metis snd_conv)
qed simp

lemma find_answered:
  "distinct (map pfd_fd vs) \<Longrightarrow> i < length vs \<Longrightarrow>
    find (\<lambda>v. pfd_fd v = pfd_fd (vs ! i)) (filter (\<lambda>v. pfd_revents v \<noteq> 0) vs)
      = (if pfd_revents (vs ! i) = 0 then None else Some (vs ! i))"
proof (induction vs arbitrary: i)
  case (Cons w vs)
  show ?case
  proof (cases i)
    case 0
    have "find (\<lambda>v. pfd_fd v = pfd_fd w) (filter (\<lambda>v. pfd_revents v \<noteq> 0) vs) = None"
      using Cons.prems(1) by (simp add: find_None_iff) (metis image_eqI)
    with 0 show ?thesis by simp
  next
    case (Suc j)
    with Cons.prems have "pfd_fd w \<noteq> pfd_fd (vs ! j)" using distinct_fds_Cons_nth by simp
    with Suc Cons show ?thesis by simp
  qed
qed simp

lemma answer_revents_simps [simp]:
  "length (answer_revents a vs) = length vs"
  "i < length vs \<Longrightarrow> answer_revents a vs ! i = (vs ! i)\<lparr>pfd_revents := a i\<rparr>"
  "answer_revents a vs = [] \<longleftrightarrow> vs = []"
  by (simp_all add: answer_revents_def)

lemma map_answer_revents [simp]:
  "map pfd_fd (answer_revents a vs) = map pfd_fd vs" "map pfd_events (answer_revents a vs) = map pfd_events vs"
  by (simp_all add: list_eq_iff_nth_eq)

lemma bits_map_cong:
  "map pfd_fd vs = map pfd_fd ws \<Longrightarrow> map pfd_events vs = map pfd_events ws \<Longrightarrow> bits_map vs = bits_map ws"
proof (induction vs arbitrary: ws)
  case (Cons v vs)
  then obtain w ws' where ws: "ws = w # ws'" by (cases ws) simp_all
  with Cons have "bits_map vs = bits_map ws'" by simp
  with ws Cons.prems show ?case by simp
qed simp

text \<open>The answer of the kernel to \<open>Poll\<close>.\<close>

definition poll_answer :: "env \<Rightarrow> log \<Rightarrow> SocketPoll \<Rightarrow> int \<Rightarrow> int \<times> (nat \<Rightarrow> 16 word)" where
  "poll_answer E h p msec =
     env_poll E h (answer_revents (\<lambda>_. 0) (sp_events p)) (if msec < - 1 then 0 else msec)"

definition polled :: "SocketPoll \<Rightarrow> (int \<times> (nat \<Rightarrow> 16 word)) \<Rightarrow> SocketPoll \<Rightarrow> bool" where
  "polled p ans p' \<longleftrightarrow>
     sp_events p' = answer_revents (snd ans) (sp_events p) \<and> sp_ret p' = fst ans
     \<and> map pe_poll_event (sp_triggered p')
        = (if 0 < fst ans then filter (\<lambda>v. pfd_revents v \<noteq> 0) (tl (sp_events p')) else [])"

lemma answer_twice: "answer_revents a (answer_revents a' vs) = answer_revents a vs"
  by (simp add: list_eq_iff_nth_eq)

lemma Poll_polled:
  assumes "sp_events p \<noteq> []"
  shows "\<exists>p' h'. Poll E p msec h = Some (Inr ((p', fst (poll_answer E h p msec)), h')) \<and> polled p (poll_answer E h p msec) p'
    \<and> sp_autoclear p' = sp_autoclear p \<and> (\<not> sp_autoclear p \<longrightarrow> sp_breaker p' = sp_breaker p)"
proof -
  obtain ret a where a: "poll_answer E h p msec = (ret, a)" by (cases "poll_answer E h p msec")
  have t: "map pe_poll_event (snd (trigger (tl vs) ud)) = filter (\<lambda>v. pfd_revents v \<noteq> 0) (tl vs)" for vs ud
    by (rule trigger_events)
  show ?thesis
    using a assms t [of "answer_revents a (sp_events p)" "sp_user_data p"]
    by (auto simp: Poll_def poll_answer_def Let_def io_bind_def io_lift_def io_call_def io_return_def poll_fds_def socket_errno_def
        Breaker_Clear_def polled_def answer_twice split: prod.splits)
qed

lemma polled_ok: "poll_ok b p \<Longrightarrow> polled p ans p' \<Longrightarrow> poll_ok b p' \<and> interest p' = interest p"
proof -
  assume "poll_ok b p" "polled p ans p'"
  then have e: "sp_events p' = answer_revents (snd ans) (sp_events p)" "sp_events p \<noteq> []"
    by (auto simp: polled_def poll_ok_def)
  then have "map pfd_fd (sp_events p') = map pfd_fd (sp_events p)" "interest p' = interest p"
    by (simp_all add: interest_def bits_map_cong [of "answer_revents (snd ans) (sp_events p)" "sp_events p"])
  with \<open>poll_ok b p\<close> e show ?thesis by (metis hd_map answer_revents_simps(3) poll_ok_def)
qed

lemma polled_isset:
  assumes "poll_ok b p" "polled p ans p'" "0 < i" "i < length (sp_events p)"
  shows "isset p' (pfd_fd (sp_events p ! i)) m \<longleftrightarrow> 0 < fst ans \<and> snd ans i AND m \<noteq> 0"
proof -
  let ?vs = "tl (sp_events p')"
  have e: "sp_events p' = answer_revents (snd ans) (sp_events p)" using assms(2) by (simp add: polled_def)
  have d: "distinct (map pfd_fd ?vs)" using assms(1) e by (simp add: poll_ok_def distinct_tl map_tl)
  have i: "i - 1 < length ?vs" "?vs ! (i - 1) = (sp_events p ! i)\<lparr>pfd_revents := snd ans i\<rparr>"
    using assms(3,4) e by (simp_all add: nth_tl)
  from find_answered [OF d i(1)] i(2)
  have "find (\<lambda>v. pfd_fd v = pfd_fd (sp_events p ! i)) (filter (\<lambda>v. pfd_revents v \<noteq> 0) ?vs)
      = (if snd ans i = 0 then None else Some ((sp_events p ! i)\<lparr>pfd_revents := snd ans i\<rparr>))" by simp
  then show ?thesis using assms(2) by (auto simp: isset_def polled_def has_bits_def)
qed

lemma polled_isset_other:
  assumes "poll_ok b p" "polled p ans p'" "interest p fd = None \<or> fd = b"
  shows "\<not> isset p' fd m"
proof -
  have e: "sp_events p' = answer_revents (snd ans) (sp_events p)" using assms(2) by (simp add: polled_def)
  from polled_ok [OF assms(1,2)] have ok: "poll_ok b p'" "interest p' = interest p" by auto
  obtain v vs where v: "sp_events p' = v # vs" "pfd_fd v = b" "b \<notin> pfd_fd ` set vs"
    using ok(1) by (cases "sp_events p'") (auto simp: poll_ok_def)
  moreover have "interest p' fd = None \<or> fd = b" using assms(3) ok(2) by simp
  ultimately have "fd \<notin> pfd_fd ` set (tl (sp_events p'))"
    by (auto simp: interest_def bits_map_None split: if_splits)
  then have "find (\<lambda>v. pfd_fd v = fd) (filter (\<lambda>v. pfd_revents v \<noteq> 0) (tl (sp_events p'))) = None"
    by (force simp: find_None_iff)
  then show ?thesis using assms(2) by (auto simp: isset_def polled_def)
qed

text \<open>
  After \<^verbatim>\<open>Poll\<close> the three \<^verbatim>\<open>FD_ISSET\<close> tests report, for every descriptor of the set but the breaker, exactly what
  the kernel answered for its entry (readable also when the peer hung up, an exception when the descriptor is in error or
  invalid), nothing for other descriptors or when the call failed or timed out, and \<^verbatim>\<open>IsBreak\<close> what it answered for the
  breaker; the requested bits are untouched.
\<close>

theorem Poll_reports:
  assumes "poll_ok b p" "poll_answer E h p msec = (ret, a)"
  shows "\<exists>p' h'. Poll E p msec h = Some (Inr ((p', ret), h')) \<and> poll_ok b p' \<and> interest p' = interest p
    \<and> (\<forall>i. 0 < i \<and> i < length (sp_events p) \<longrightarrow>
         (let fd = pfd_fd (sp_events p ! i) in
            (Read_FD_ISSET p' fd \<longleftrightarrow> 0 < ret \<and> (a i AND POLLIN \<noteq> 0 \<or> a i AND POLLHUP \<noteq> 0))
          \<and> (Write_FD_ISSET p' fd \<longleftrightarrow> 0 < ret \<and> a i AND POLLOUT \<noteq> 0)
          \<and> (Exception_FD_ISSET p' fd \<longleftrightarrow> 0 < ret \<and> (a i AND POLLERR \<noteq> 0 \<or> a i AND POLLNVAL \<noteq> 0))))
    \<and> (\<forall>fd. interest p fd = None \<or> fd = b \<longrightarrow>
         \<not> Read_FD_ISSET p' fd \<and> \<not> Write_FD_ISSET p' fd \<and> \<not> Exception_FD_ISSET p' fd)
    \<and> IsBreak p' = Inr (a 0 AND POLLIN \<noteq> 0)"
proof -
  have ne: "sp_events p \<noteq> []" using assms(1) by (simp add: poll_ok_def)
  obtain p' h' where P: "Poll E p msec h = Some (Inr ((p', ret), h'))" and pd: "polled p (ret, a) p'"
    using Poll_polled [OF ne, of E msec h] assms(2) by auto
  have "sp_events p' = (hd (sp_events p))\<lparr>pfd_revents := a 0\<rparr> # tl (sp_events p')"
  proof -
    have e: "sp_events p' = answer_revents a (sp_events p)" using pd by (simp add: polled_def)
    then have "hd (sp_events p') = (hd (sp_events p))\<lparr>pfd_revents := a 0\<rparr>" using ne by (simp add: hd_conv_nth)
    with e ne show ?thesis by (metis answer_revents_simps(3) list.collapse)
  qed
  then have "IsBreak p' = Inr (a 0 AND POLLIN \<noteq> 0)"
    by (cases "sp_events p'") (simp_all add: IsBreak_def BreakerIsBreak_def has_bits_def)
  with P polled_ok [OF assms(1) pd] polled_isset [OF assms(1) pd] polled_isset_other [OF assms(1) pd] show ?thesis
    by (auto simp: FD_ISSET_isset Let_def)
qed

definition ex_env :: "(log \<Rightarrow> pollfd list \<Rightarrow> int \<Rightarrow> int \<times> (nat \<Rightarrow> 16 word)) \<Rightarrow> env" where
  "ex_env poll = \<lparr>env_tick = length, env_errno = (\<lambda>_. EAGAIN), env_pipe = (\<lambda>_. None), env_fcntl = (\<lambda>_ _ _. 0),
     env_write = (\<lambda>_ _ d. int (length d)), env_read = (\<lambda>_ _ _. 1), env_socket = (\<lambda>_. 7), env_connect = (\<lambda>_ _. 0),
     env_so_error = (\<lambda>_ _. Some 0), env_setsockopt = (\<lambda>_ _ _ _. 0), env_send = (\<lambda>_ _ d. int (length d)), env_recv = (\<lambda>_ _ _. None), env_poll = poll,
     env_inet_addr = (\<lambda>_. (127, 0, 0, 1))\<rparr>"

definition ex_poll :: SocketPoll where
  "ex_poll = ReadEvent 7 True (SocketPoll_new ex_breaker False)"

lemma ex_poll_simps:
  "poll_ok 3 ex_poll" "sp_events ex_poll = [\<lparr>pfd_fd = 3, pfd_events = 1, pfd_revents = 0\<rparr>, \<lparr>pfd_fd = 7, pfd_events = 1, pfd_revents = 0\<rparr>]"
  by (simp_all add: ex_poll_def ReadEvent_def AddEvent_def SocketPoll_new_def BreakerFD_def ex_breaker_def POLLIN_def poll_ok_def)

theorem Poll_reports_witness:
  "\<exists>p' h'. Poll (ex_env (\<lambda>_ _ _. (1, \<lambda>i. if i = 1 then POLLIN else 0))) ex_poll 50 [] = Some (Inr ((p', 1), h'))
    \<and> Read_FD_ISSET p' 7 \<and> \<not> Write_FD_ISSET p' 7 \<and> IsBreak p' = Inr False"
proof -
  let ?E = "ex_env (\<lambda>_ _ _. (1, \<lambda>i. if i = 1 then POLLIN else 0))"
  have "poll_answer ?E [] ex_poll 50 = (1, \<lambda>i. if i = 1 then POLLIN else 0)" by (simp add: poll_answer_def ex_env_def)
  from Poll_reports [OF ex_poll_simps(1) this] obtain p' h' where
    P: "Poll ?E ex_poll 50 [] = Some (Inr ((p', 1), h'))"
    and i: "\<forall>i. 0 < i \<and> i < length (sp_events ex_poll) \<longrightarrow>
      (Read_FD_ISSET p' (pfd_fd (sp_events ex_poll ! i)) \<longleftrightarrow> (if i = 1 then POLLIN else 0) AND POLLIN \<noteq> 0
         \<or> (if i = 1 then POLLIN else 0) AND POLLHUP \<noteq> 0)
      \<and> (Write_FD_ISSET p' (pfd_fd (sp_events ex_poll ! i)) \<longleftrightarrow> (if i = 1 then POLLIN else 0) AND POLLOUT \<noteq> 0)"
    and b: "IsBreak p' = Inr False"
    by (auto simp: Let_def)
  from i [rule_format, of 1] P b show ?thesis by (auto simp: ex_poll_simps(2) POLLIN_def POLLHUP_def POLLOUT_def)
qed

section \<open>Reporting to a consignor\<close>

text \<open>
  When the first descriptor of the consignor (its breaker) was answered, \<^verbatim>\<open>ConsignReport\<close> does not step past it, so that
  the next descriptor of the consignor is reported with what the kernel answered for the breaker, whatever it answered for
  the descriptor itself.
\<close>

theorem ConsignReport_misaligned:
  assumes "sp_events c = [c0, c1]" "pfd_fd c1 \<noteq> pfd_fd c0" "sp_events p = p0 # v0 # v1 # vs"
    "pfd_fd p0 \<noteq> pfd_fd c0" "pfd_fd v0 = pfd_fd c0" "pfd_revents v0 \<noteq> 0" "0 \<le> sp_ret p" "\<not> sp_autoclear c"
  shows "\<exists>c' e. ConsignReport E p c timeout h = Some (Inr ((c', True), h)) \<and> sp_ret c' = 2
    \<and> sp_triggered c' = sp_triggered c @ [e] \<and> pe_poll_event e = c1\<lparr>pfd_revents := pfd_revents v0\<rparr>"
  using assms
  by (auto simp: ConsignReport_def clear_consignor_def io_bind_def io_lift_def io_return_def Let_def)

theorem ConsignReport_misaligned_witness:
  "let p = (SocketPoll_new ex_breaker False)\<lparr>sp_ret := 1, sp_events := [\<lparr>pfd_fd = 3, pfd_events = 1, pfd_revents = 0\<rparr>,
          \<lparr>pfd_fd = 5, pfd_events = 1, pfd_revents = 1\<rparr>, \<lparr>pfd_fd = 7, pfd_events = 1, pfd_revents = 0\<rparr>]\<rparr>;
       c = ex_poll\<lparr>sp_events := [\<lparr>pfd_fd = 5, pfd_events = 1, pfd_revents = 0\<rparr>, \<lparr>pfd_fd = 7, pfd_events = 1, pfd_revents = 0\<rparr>]\<rparr>
   in \<exists>c' e. ConsignReport (ex_env (\<lambda>_ _ _. (0, \<lambda>_. 0))) p c 1 [] = Some (Inr ((c', True), [])) \<and> sp_ret c' = 2
     \<and> sp_triggered c' = sp_triggered c @ [e] \<and> pe_poll_event e = \<lparr>pfd_fd = 7, pfd_events = 1, pfd_revents = 1\<rparr>"
proof -
  have "\<not> sp_autoclear ex_poll" by (simp add: ex_poll_def ReadEvent_def AddEvent_def SocketPoll_new_def)
  with ConsignReport_misaligned [of "ex_poll\<lparr>sp_events := [\<lparr>pfd_fd = 5, pfd_events = 1, pfd_revents = 0\<rparr>, \<lparr>pfd_fd = 7, pfd_events = 1, pfd_revents = 0\<rparr>]\<rparr>"
      "\<lparr>pfd_fd = 5, pfd_events = 1, pfd_revents = 0\<rparr>" "\<lparr>pfd_fd = 7, pfd_events = 1, pfd_revents = 0\<rparr>"
      "(SocketPoll_new ex_breaker False)\<lparr>sp_ret := 1, sp_events := [\<lparr>pfd_fd = 3, pfd_events = 1, pfd_revents = 0\<rparr>,
          \<lparr>pfd_fd = 5, pfd_events = 1, pfd_revents = 1\<rparr>, \<lparr>pfd_fd = 7, pfd_events = 1, pfd_revents = 0\<rparr>]\<rparr>"
      "\<lparr>pfd_fd = 3, pfd_events = 1, pfd_revents = 0\<rparr>" "\<lparr>pfd_fd = 5, pfd_events = 1, pfd_revents = 1\<rparr>"
      "\<lparr>pfd_fd = 7, pfd_events = 1, pfd_revents = 0\<rparr>" "[]"]
  show ?thesis by (simp add: Let_def)
qed

section \<open>A breaker that was closed\<close>

text \<open>
  \<^verbatim>\<open>Close\<close> sets \<^verbatim>\<open>broken_\<close> and \<^verbatim>\<open>ReCreate\<close> does not reset it: after closing and creating the pipe again, \<^verbatim>\<open>Break\<close>
  answers true without writing to the new pipe, so that no poll on it is woken.
\<close>

lemma Breaker_Close_broken: "io_post (Breaker_Close b) h (\<lambda>b1 _. brk_broken b1)"
  by (simp add: Breaker_Close_def io_wp sys_calls)

lemma ReCreate_keeps_broken: "io_post (ReCreate E b) h (\<lambda>r _. brk_broken (fst r) = brk_broken b)"
  by (simp add: ReCreate_def io_wp sys_calls close_both_def no_pipe_def)

lemma Break_after_ReCreate:
  "io_post (io_bind (Breaker_Close b) (ReCreate E)) h
     (\<lambda>(b2, _) h'. Breaker_Break E b2 h' = Some (Inr ((b2, True), h')))"
  unfolding io_post_bind
proof (rule io_post_mono [OF Breaker_Close_broken])
  fix b1 :: SocketBreaker and h1
  assume "brk_broken b1"
  with ReCreate_keeps_broken [of E b1 h1]
  show "io_post (ReCreate E b1) h1 (\<lambda>(b2, _) h'. Breaker_Break E b2 h' = Some (Inr ((b2, True), h')))"
    by (elim io_post_mono) (auto simp: Breaker_Break_def io_return_def)
qed

end
