(* ===== verification/Io_Loop.thy ===== *)
theory Io_Loop
  imports Socket_Poll
begin

text \<open>
  The loops \<^verbatim>\<open>while (true)\<close> around a \<^verbatim>\<open>SocketSelect\<close>: a pass tells whether the loop is left. The rule for an invariant, and the
  rule by which a signalled breaker ends the loop.
\<close>

section \<open>Loops\<close>

partial_function (option) io_loop ::
  "('s \<Rightarrow> log \<Rightarrow> ((bool \<times> 's) \<times> log) result option) \<Rightarrow> 's \<Rightarrow> log \<Rightarrow> ('s \<times> log) result option" where
  "io_loop pass st h =
     (case pass st h of
        None \<Rightarrow> None
      | Some r \<Rightarrow> (case r of
          Inl e \<Rightarrow> Some (Inl e)
        | Inr x \<Rightarrow> (case x of (y, h') \<Rightarrow> (case y of (stop, st') \<Rightarrow>
            if stop then Some (Inr (st', h')) else io_loop pass st' h'))))"

declare io_loop.simps [code]

text \<open>The rule of the loop: an invariant, and what holds when it is left.\<close>

lemma io_loop_inv:
  assumes "io_loop pass st h = Some (Inr (st', h'))" "I st h"
    and step: "\<And>st h. I st h \<Longrightarrow> io_post (pass st) h (\<lambda>(stop, st1) h1. (stop \<longrightarrow> Q st1 h1) \<and> (\<not> stop \<longrightarrow> I st1 h1))"
  shows "Q st' h'"
proof -
  have "pass = pass \<longrightarrow> I st h \<longrightarrow> (\<forall>st1 h1. (Inr (st', h') :: (_ \<times> log) result) = Inr (st1, h1) \<longrightarrow> Q st1 h1)"
  proof (rule io_loop.raw_induct
      [where P = "\<lambda>p st h r. p = pass \<longrightarrow> I st h \<longrightarrow> (\<forall>st1 h1. r = Inr (st1, h1) \<longrightarrow> Q st1 h1)", OF _ assms(1)])
    fix loop p st h r
    assume IH: "\<And>p st h r. loop p st h = Some r \<Longrightarrow> p = pass \<longrightarrow> I st h \<longrightarrow> (\<forall>st1 h1. r = Inr (st1, h1) \<longrightarrow> Q st1 h1)"
      and eq: "(case p st h of
        None \<Rightarrow> None
      | Some r \<Rightarrow> (case r of
          Inl e \<Rightarrow> Some (Inl e)
        | Inr x \<Rightarrow> (case x of (y, h') \<Rightarrow> (case y of (stop, st') \<Rightarrow>
            if stop then Some (Inr (st', h')) else loop p st' h')))) = Some r"
    show "p = pass \<longrightarrow> I st h \<longrightarrow> (\<forall>st1 h1. r = Inr (st1, h1) \<longrightarrow> Q st1 h1)"
    proof (intro impI allI)
      fix st2 h2
      assume p: "p = pass" and I: "I st h" and r: "r = Inr (st2, h2)"
      from eq r obtain stop st1 h1 where 1: "pass st h = Some (Inr ((stop, st1), h1))"
        "(if stop then Some (Inr (st1, h1)) else loop pass st1 h1) = Some (Inr (st2, h2))"
        unfolding p by (auto split: option.splits sum.splits prod.splits)
      from io_postD [OF step [OF I] 1(1)] 1(2) IH show "Q st2 h2" by (cases stop) auto
    qed
  qed
  with assms(2) show ?thesis by blast
qed

text \<open>The rule for its end: passes that come back and lengthen the log, and that stop once it is long.\<close>

lemma io_loop_ends:
  assumes inv: "I st h" and ret: "\<And>st h. I st h \<Longrightarrow> pass st h \<noteq> None"
    and longer: "\<And>st h. I st h \<Longrightarrow> io_post (pass st) h (\<lambda>(stop, st') h'. length h < length h' \<and> (\<not> stop \<longrightarrow> I st' h'))"
    and stops: "\<And>st h. I st h \<Longrightarrow> N \<le> length h \<Longrightarrow> io_post (pass st) h (\<lambda>(stop, _) _. stop)"
    and faults: "\<And>st h e. I st h \<Longrightarrow> pass st h = Some (Inl e) \<Longrightarrow> F (Inl e)" and fine: "\<And>x. F (Inr x)"
  shows "\<exists>r. io_loop pass st h = Some r \<and> F r"
  using inv
proof (induction "N - length h" arbitrary: st h rule: less_induct)
  case less
  obtain r where r: "pass st h = Some r" using ret [OF less.prems] by blast
  show ?case
  proof (cases r)
    case (Inl e)
    with r faults [OF less.prems] show ?thesis by (simp add: io_loop.simps [of pass st h])
  next
    case (Inr x)
    obtain stop st' h' where x: "x = ((stop, st'), h')" by (metis prod.exhaust)
    have l: "length h < length h'" "\<not> stop \<Longrightarrow> I st' h'" using io_postD [OF longer [OF less.prems]] r Inr x by blast+
    have "\<not> stop \<Longrightarrow> \<not> N \<le> length h" using io_postD [OF stops [OF less.prems]] r Inr x by fastforce
    then have "\<not> stop \<Longrightarrow> N - length h' < N - length h" using l by linarith
    then have "\<not> stop \<Longrightarrow> \<exists>r. io_loop pass st' h' = Some r \<and> F r" using less l by blast
    with r Inr x fine show ?thesis by (cases stop) (simp_all add: io_loop.simps [of pass st h])
  qed
qed

lemma io_loop_returns:
  assumes "\<And>st h. pass st h \<noteq> None" "\<And>st h. io_post (pass st) h (\<lambda>_ h'. length h < length h')"
    and "\<And>st h. N \<le> length h \<Longrightarrow> io_post (pass st) h (\<lambda>(stop, _) _. stop)"
  shows "\<exists>r. io_loop pass st h = Some r"
  using io_loop_ends [where I = "\<lambda>_ _. True" and F = "\<lambda>_. True" and N = N and pass = pass and st = st and h = h] assms
  by (simp add: case_prod_unfold)

lemma io_loop_total:
  assumes "I st h" "\<And>st h. I st h \<Longrightarrow> io_total (pass st) h"
    and "\<And>st h. I st h \<Longrightarrow> io_post (pass st) h (\<lambda>(stop, st') h'. length h < length h' \<and> (\<not> stop \<longrightarrow> I st' h'))"
    and "\<And>st h. I st h \<Longrightarrow> N \<le> length h \<Longrightarrow> io_post (pass st) h (\<lambda>(stop, _) _. stop)"
  shows "io_total (io_loop pass st) h"
proof -
  have "\<exists>r. io_loop pass st h = Some r \<and> (\<exists>x. r = Inr x)"
    by (rule io_loop_ends [where I = I and N = N, OF assms(1) _ assms(3,4)])
      (use assms(2) in \<open>force simp: io_total_def\<close>)+
  then show ?thesis by (auto simp: io_total_def)
qed

section \<open>Waiting for the breaker\<close>

lemma Poll_quiet: "io_post (Poll E p msec) h (\<lambda>_ h'. quiet h h')"
  unfolding Poll_def Breaker_Clear_def sys_calls
  by (auto simp: io_wp Let_def intro!: quiet_Cons split: prod.splits)

text \<open>The first entry of the set is the breaker and asks for \<^verbatim>\<open>POLLIN\<close>.\<close>

definition watches :: "SocketBreaker \<Rightarrow> SocketSelect \<Rightarrow> bool" where
  "watches brk sel \<longleftrightarrow> (\<exists>v vs. sp_events sel = v # vs \<and> pfd_fd v = BreakerFD brk \<and> pfd_events v AND POLLIN \<noteq> 0)"

lemma or_keeps_bit: "(w :: 16 word) AND m \<noteq> 0 \<Longrightarrow> (w OR k) AND m \<noteq> 0"
  by (simp add: bit.conj_disj_distrib2 or_eq_0_iff)

lemma set_bits_keeps: "pfd_fd (set_bits True m v) = pfd_fd v"
  "pfd_events v AND k \<noteq> 0 \<Longrightarrow> pfd_events (set_bits True m v) AND k \<noteq> 0"
  by (simp_all add: set_bits_def or_keeps_bit)

lemma watches_AddEvent: "watches brk sel \<Longrightarrow> find_fd fd (sp_events sel) = None \<Longrightarrow> watches brk (AddEvent fd r w u sel)"
  by (auto simp: watches_def AddEvent_def)

lemma watches_set:
  "watches brk sel \<Longrightarrow> watches brk (sel\<lparr>sp_events := (sp_events sel)[i := set_bits True m (sp_events sel ! i)]\<rparr>)"
  by (cases i) (auto simp: watches_def set_bits_keeps)

lemma watches_FD_SET:
  assumes "watches brk sel"
  shows "watches brk (Read_FD_SET fd sel)" "watches brk (Write_FD_SET fd sel)" "watches brk (Exception_FD_SET fd sel)"
  using assms by (auto simp: Read_FD_SET_def Write_FD_SET_def Exception_FD_SET_def ReadEvent_def WriteEvent_def NullEvent_def
      watches_AddEvent watches_set split: option.splits)

lemma watches_new: "PreSelect_clear (SocketSelect_new brk False) = Inr sel \<Longrightarrow> watches brk sel"
  by (auto simp: PreSelect_clear_def ClearEvent_def SocketSelect_new_def SocketPoll_new_def watches_def POLLIN_def)

lemma io_bind_comes_back: "m h \<noteq> None \<Longrightarrow> (\<And>x h'. f x h' \<noteq> None) \<Longrightarrow> io_bind m f h \<noteq> None"
  by (auto simp: io_bind_def split: option.splits sum.splits)

lemma io_returnsD: "io_returns m \<Longrightarrow> m h \<noteq> None"
  by (simp add: io_returns_def)

lemma io_post_any: "(\<And>x h'. Q x h') \<Longrightarrow> io_post m h Q"
  by (simp add: io_post_def)

text \<open>
  From the \<open>N\<close>-th call on, a \<^verbatim>\<open>poll\<close> that waits for the breaker first reports it as readable, or fails.
\<close>

definition broken_from :: "env \<Rightarrow> SocketBreaker \<Rightarrow> nat \<Rightarrow> bool" where
  "broken_from E brk N \<longleftrightarrow> (\<forall>h v vs msec. N \<le> length h \<longrightarrow> pfd_fd v = BreakerFD brk \<longrightarrow> pfd_events v AND POLLIN \<noteq> 0 \<longrightarrow>
     fst (env_poll E h (v # vs) msec) < 0 \<or> snd (env_poll E h (v # vs) msec) 0 AND POLLIN \<noteq> 0)"

lemma Poll_breaks:
  assumes "watches brk sel" "broken_from E brk N" "N \<le> length h"
  shows "io_post (Poll E sel msec) h (\<lambda>(sel', ret) _. ret < 0 \<or> IsBreak sel' = Inr True)"
proof -
  obtain v vs where v: "sp_events sel = v # vs" "pfd_fd v = BreakerFD brk" "pfd_events v AND POLLIN \<noteq> 0"
    using assms(1) by (auto simp: watches_def)
  let ?ans = "poll_answer E h sel msec"
  have ne: "sp_events sel \<noteq> []" using v(1) by simp
  obtain p' h' where P: "Poll E sel msec h = Some (Inr ((p', fst ?ans), h'))" "polled sel ?ans p'"
    using Poll_polled [OF ne] by blast
  obtain w ws where w: "answer_revents (\<lambda>_. 0) (v # vs) = w # ws" by (cases "answer_revents (\<lambda>_. 0) (v # vs)") simp_all
  moreover have "answer_revents (\<lambda>_. 0) (v # vs) ! 0 = v\<lparr>pfd_revents := 0\<rparr>" by (subst answer_revents_simps) simp_all
  ultimately have "pfd_fd w = BreakerFD brk" "pfd_events w AND POLLIN \<noteq> 0" using v(2,3) by simp_all
  with assms(2,3) have ans: "fst ?ans < 0 \<or> snd ?ans 0 AND POLLIN \<noteq> 0"
    unfolding poll_answer_def v(1) w broken_from_def by blast
  have "hd (sp_events p') = (v\<lparr>pfd_revents := snd ?ans 0\<rparr>)" "sp_events p' \<noteq> []"
    using P(2) v(1) by (simp_all add: polled_def hd_conv_nth)
  then have "IsBreak p' = Inr (snd ?ans 0 AND POLLIN \<noteq> 0)"
    by (cases "sp_events p'") (simp_all add: IsBreak_def BreakerIsBreak_def has_bits_def)
  with ans P(1) show ?thesis by (auto simp: io_post_def)
qed

end
