(* ===== verification/Tcp_Fsm.thy ===== *)
theory Tcp_Fsm
  imports Io_Loop Auto_Buffer
begin

text \<open>
  \<^verbatim>\<open>TcpClientFSM\<close> of src/mars/comm/socket/tcpclient_fsm.h and tcpclient_fsm.cc: one connection that is driven by
  \<^verbatim>\<open>PreSelect\<close> before and \<^verbatim>\<open>AfterSelect\<close> after every \<^verbatim>\<open>select\<close>. The class is abstract: a record of its virtual
  functions (\<open>tcp_class\<close>) stands for the dynamic class, and a derived class extends the record \<open>TcpClientFSM\<close> with its
  fields. \<^verbatim>\<open>send_buf_\<close> and \<^verbatim>\<open>recv_buf_\<close>, which the code hands to the callbacks by reference, are fields of the object.
  The calls that only log (\<^verbatim>\<open>xinfo2\<close>, \<^verbatim>\<open>socket_strerror\<close>, \<^verbatim>\<open>getsockname\<close>) and \<^verbatim>\<open>socket_fix_tcp_mss\<close>, which sets an
  option of the descriptor, have no counterpart.
\<close>

section \<open>The object\<close>

datatype TSocketStatus = EStart | EConnecting | EReadWrite | EEnd

record socket_address =
  sa_ip :: string
  sa_port :: nat

record TcpClientFSM =
  tf_status :: TSocketStatus
  tf_last_status :: TSocketStatus
  tf_error :: int
  tf_remote_close :: bool
  tf_request_send :: bool
  tf_addr :: socket_address
  tf_sock :: socket
  tf_start_connecttime :: nat
  tf_end_connecttime :: nat
  tf_send_buf :: AutoBuffer
  tf_recv_buf :: AutoBuffer

record 'f tcp_class =
  vt_OnCreate :: "'f \<Rightarrow> 'f io"
  vt_OnConnect :: "'f \<Rightarrow> 'f io"
  vt_OnConnected :: "int \<Rightarrow> 'f \<Rightarrow> 'f io"
  vt_OnRecv :: "int \<Rightarrow> 'f \<Rightarrow> 'f io"
  vt_OnRequestSend :: "'f \<Rightarrow> 'f io"
  vt_OnSend :: "int \<Rightarrow> 'f \<Rightarrow> 'f io"
  vt_OnClose :: "TSocketStatus \<Rightarrow> int \<Rightarrow> bool \<Rightarrow> 'f \<Rightarrow> 'f io"
  vt_ConnectTimeout :: "'f \<Rightarrow> int io"
  vt_ReadWriteTimeout :: "'f \<Rightarrow> int io"

definition INT_MAX :: int where "INT_MAX = 2 ^ 31 - 1"

definition TcpClientFSM_new :: "socket_address \<Rightarrow> TcpClientFSM" where
  "TcpClientFSM_new addr =
     \<lparr>tf_status = EStart, tf_last_status = EStart, tf_error = 0, tf_remote_close = False, tf_request_send = False,
      tf_addr = addr, tf_sock = INVALID_SOCKET, tf_start_connecttime = 0, tf_end_connecttime = 0,
      tf_send_buf = AutoBuffer_new 128, tf_recv_buf = AutoBuffer_new 128\<rparr>"

definition TcpClientFSM_RequestSend :: "'x TcpClientFSM_scheme \<Rightarrow> 'x TcpClientFSM_scheme" where
  "TcpClientFSM_RequestSend f = f\<lparr>tf_request_send := True\<rparr>"

definition TcpClientFSM_set_Status :: "TSocketStatus \<Rightarrow> 'x TcpClientFSM_scheme \<Rightarrow> 'x TcpClientFSM_scheme" where
  "TcpClientFSM_set_Status st f = f\<lparr>tf_last_status := st, tf_status := st\<rparr>"

definition TcpClientFSM_set_Socket :: "socket \<Rightarrow> 'x TcpClientFSM_scheme \<Rightarrow> 'x TcpClientFSM_scheme" where
  "TcpClientFSM_set_Socket s f = f\<lparr>tf_sock := s\<rparr>"

definition IsEndStatus :: "'x TcpClientFSM_scheme \<Rightarrow> bool" where
  "IsEndStatus f \<longleftrightarrow> tf_status f = EEnd"

definition Rtt :: "'x TcpClientFSM_scheme \<Rightarrow> int" where
  "Rtt f = to_int (int (to_size (int (tf_end_connecttime f) - int (tf_start_connecttime f))))"

section \<open>Helpers of unix_socket.cc\<close>

definition socket_set_nobio :: "env \<Rightarrow> socket \<Rightarrow> int io" where
  "socket_set_nobio E fd = io_bind (fcntl E fd F_GETFL) (\<lambda>ret.
     if 0 \<le> ret then fcntl E fd (F_SETFL (ret OR O_NONBLOCK)) else io_return ret)"

definition socket_error :: "env \<Rightarrow> socket \<Rightarrow> int io" where
  "socket_error E s = io_bind (getsockopt_error E s) (\<lambda>r. case r of Some e \<Rightarrow> io_return e | None \<Rightarrow> socket_errno E)"

section \<open>Closing\<close>

definition TcpClientFSM_Close :: "('x TcpClientFSM_scheme) tcp_class \<Rightarrow> bool \<Rightarrow> 'x TcpClientFSM_scheme \<Rightarrow> ('x TcpClientFSM_scheme) io" where
  "TcpClientFSM_Close vt notify f =
     (if tf_sock f = INVALID_SOCKET then io_return f
      else io_then (socket_close (tf_sock f))
        (let f1 = f\<lparr>tf_sock := INVALID_SOCKET\<rparr> in
         if tf_remote_close f \<or> tf_error f \<noteq> 0 then io_return f1
         else
           let f2 = f1\<lparr>tf_last_status := tf_status f1, tf_status := EEnd, tf_error := 0\<rparr> in
           if notify then vt_OnClose vt (tf_last_status f2) 0 (tf_remote_close f2) f2 else io_return f2))"

definition TcpClientFSM_delete :: "('x TcpClientFSM_scheme) tcp_class \<Rightarrow> 'x TcpClientFSM_scheme \<Rightarrow> unit io" where
  "TcpClientFSM_delete vt f = io_bind (TcpClientFSM_Close vt False f) (\<lambda>_. io_return ())"

text \<open>\<^verbatim>\<open>last_status_ = status_; status_ = st;\<close>\<close>

definition goto_status :: "TSocketStatus \<Rightarrow> 'x TcpClientFSM_scheme \<Rightarrow> 'x TcpClientFSM_scheme" where
  "goto_status st f = f\<lparr>tf_last_status := tf_status f, tf_status := st\<rparr>"

section \<open>Before the select\<close>

definition start_connect :: "env \<Rightarrow> 'x TcpClientFSM_scheme \<Rightarrow> SocketSelect \<Rightarrow> ('x TcpClientFSM_scheme \<times> SocketSelect) io" where
  "start_connect E f sel =
     io_bind (gettickcount E) (\<lambda>t. let f1 = f\<lparr>tf_start_connecttime := t\<rparr> in
     io_bind (connect_to E (tf_sock f1)) (\<lambda>ret.
     io_bind (if ret \<noteq> 0 then io_bind (socket_errno E) (\<lambda>e. io_return (\<not> IS_NOBLOCK_CONNECT_ERRNO e)) else io_return False)
       (\<lambda>failed.
         if failed then
           io_bind (gettickcount E) (\<lambda>t'.
           io_bind (socket_errno E) (\<lambda>e. io_return (f1\<lparr>tf_end_connecttime := t', tf_error := e\<rparr>, sel)))
         else io_return (f1, Exception_FD_SET (tf_sock f1) (Write_FD_SET (tf_sock f1) sel)))))"

text \<open>The two outcomes of \<^verbatim>\<open>socket\<close>.\<close>

definition open_failed ::
  "env \<Rightarrow> ('x TcpClientFSM_scheme) tcp_class \<Rightarrow> 'x TcpClientFSM_scheme \<Rightarrow> ('x TcpClientFSM_scheme) io" where
  "open_failed E vt f =
     io_bind (socket_errno E) (\<lambda>e.
       let f1 = goto_status EEnd (f\<lparr>tf_error := e\<rparr>) in vt_OnClose vt (tf_last_status f1) (tf_error f1) False f1)"

definition connect_opened ::
  "env \<Rightarrow> ('x TcpClientFSM_scheme) tcp_class \<Rightarrow> 'x TcpClientFSM_scheme \<Rightarrow> SocketSelect \<Rightarrow> ('x TcpClientFSM_scheme \<times> SocketSelect) io" where
  "connect_opened E vt f sel =
     io_bind (socket_set_nobio E (tf_sock f)) (\<lambda>r.
     io_bind (if r \<noteq> 0 then io_bind (socket_errno E) (\<lambda>e. io_return (f\<lparr>tf_error := e\<rparr>)) else io_return f) (\<lambda>f1.
       if tf_error f1 \<noteq> 0 then io_return (goto_status EEnd f1, sel)
       else
         io_bind (start_connect E f1 sel) (\<lambda>(f2, sel').
           if tf_error f2 \<noteq> 0 then io_return (goto_status EEnd f2, sel')
           else io_bind (vt_OnConnect vt (goto_status EConnecting f2)) (\<lambda>f3. io_return (f3, sel')))))"

definition PreConnectSelect ::
  "env \<Rightarrow> ('x TcpClientFSM_scheme) tcp_class \<Rightarrow> 'x TcpClientFSM_scheme \<Rightarrow> SocketSelect \<Rightarrow> ('x TcpClientFSM_scheme \<times> SocketSelect) io" where
  "PreConnectSelect E vt f sel =
     io_bind (vt_OnCreate vt f) (\<lambda>f1.
     io_bind (socket_open E) (\<lambda>s. let f2 = f1\<lparr>tf_sock := s\<rparr> in
       if s = INVALID_SOCKET then io_bind (open_failed E vt f2) (\<lambda>f3. io_return (f3, sel))
       else connect_opened E vt f2 sel))"

definition PreReadWriteSelect :: "'x TcpClientFSM_scheme \<Rightarrow> SocketSelect \<Rightarrow> SocketSelect" where
  "PreReadWriteSelect f sel =
     (let sel1 = Exception_FD_SET (tf_sock f) (Read_FD_SET (tf_sock f) sel) in
      if 0 < Length (tf_send_buf f) \<or> tf_request_send f then Write_FD_SET (tf_sock f) sel1 else sel1)"

definition PreSelect ::
  "env \<Rightarrow> ('x TcpClientFSM_scheme) tcp_class \<Rightarrow> 'x TcpClientFSM_scheme \<Rightarrow> SocketSelect \<Rightarrow> ('x TcpClientFSM_scheme \<times> SocketSelect) io" where
  "PreSelect E vt f sel =
     (case tf_status f of
        EStart \<Rightarrow> PreConnectSelect E vt f sel
      | EConnecting \<Rightarrow> io_return (f, Exception_FD_SET (tf_sock f) (Write_FD_SET (tf_sock f) sel))
      | EReadWrite \<Rightarrow> io_return (f, PreReadWriteSelect f sel)
      | EEnd \<Rightarrow> io_return (f, sel))"

section \<open>After the select\<close>

definition AfterConnectSelect ::
  "env \<Rightarrow> ('x TcpClientFSM_scheme) tcp_class \<Rightarrow> SocketSelect \<Rightarrow> 'x TcpClientFSM_scheme \<Rightarrow> ('x TcpClientFSM_scheme) io" where
  "AfterConnectSelect E vt sel f =
     io_bind (vt_ConnectTimeout vt f) (\<lambda>timeout.
       if Exception_FD_ISSET sel (tf_sock f) then
         io_bind (socket_error E (tf_sock f)) (\<lambda>e.
         io_bind (gettickcount E) (\<lambda>t. io_return (goto_status EEnd (f\<lparr>tf_error := e, tf_end_connecttime := t\<rparr>))))
       else
         io_bind (socket_error E (tf_sock f)) (\<lambda>e. let f1 = f\<lparr>tf_error := e\<rparr> in
           if e \<noteq> 0 then
             io_bind (gettickcount E) (\<lambda>t. io_return (goto_status EEnd (f1\<lparr>tf_end_connecttime := t\<rparr>)))
           else if Write_FD_ISSET sel (tf_sock f1) then
             io_bind (gettickcount E) (\<lambda>t.
               let f2 = goto_status EReadWrite (f1\<lparr>tf_end_connecttime := t\<rparr>) in vt_OnConnected vt (Rtt f2) f2)
           else if timeout \<le> 0 then
             io_bind (gettickcount E) (\<lambda>t.
               io_return (goto_status EEnd (f1\<lparr>tf_end_connecttime := t, tf_error := ETIMEDOUT\<rparr>)))
           else io_return f1))"

text \<open>The part of \<^verbatim>\<open>AfterReadWriteSelect\<close> on a writable descriptor; the flag says that it returns early.\<close>

definition write_ready :: "env \<Rightarrow> ('x TcpClientFSM_scheme) tcp_class \<Rightarrow> 'x TcpClientFSM_scheme \<Rightarrow> ('x TcpClientFSM_scheme \<times> bool) io" where
  "write_ready E vt f =
     io_bind (if tf_request_send f \<and> Length (tf_send_buf f) = 0 then vt_OnRequestSend vt (f\<lparr>tf_request_send := False\<rparr>)
              else io_return f) (\<lambda>f1.
     io_bind (io_lift (Ptr_bytes (tf_send_buf f1) 0 (Length (tf_send_buf f1)))) (\<lambda>d.
     io_bind (send_to E (tf_sock f1) d) (\<lambda>ret.
       if 0 < ret then
         io_bind (io_lift (Move (tf_send_buf f1) (- ret))) (\<lambda>b.
         io_bind (vt_OnSend vt ret (f1\<lparr>tf_send_buf := b\<rparr>)) (\<lambda>f2. io_return (f2, False)))
       else
         io_bind (socket_errno E) (\<lambda>e.
           if IS_NOBLOCK_SEND_ERRNO e then io_return (f1, False)
           else io_bind (socket_errno E) (\<lambda>e'. io_return (goto_status EEnd (f1\<lparr>tf_error := e'\<rparr>), True))))))"

definition recv_room :: "AutoBuffer \<Rightarrow> AutoBuffer result" where
  "recv_room b =
     (let free = to_size (int (Capacity b) - int (Length b)) in
      if free < 8 * 1024 then AddCapacity b (to_size (16 * 1024 - int free)) else Inr b)"

definition read_ready :: "env \<Rightarrow> ('x TcpClientFSM_scheme) tcp_class \<Rightarrow> 'x TcpClientFSM_scheme \<Rightarrow> ('x TcpClientFSM_scheme \<times> bool) io" where
  "read_ready E vt f =
     io_bind (io_lift (recv_room (tf_recv_buf f))) (\<lambda>b. let f1 = f\<lparr>tf_recv_buf := b\<rparr> in
     io_bind (recv_from E (tf_sock f1) (to_size (int (Capacity b) - int (Length b)))) (\<lambda>r.
       case r of
         None \<Rightarrow>
           io_bind (socket_errno E) (\<lambda>e.
             if IS_NOBLOCK_READ_ERRNO e then io_return (f1, False)
             else io_bind (socket_errno E) (\<lambda>e'. io_return (goto_status EEnd (f1\<lparr>tf_error := e'\<rparr>), True)))
       | Some d \<Rightarrow>
           if d \<noteq> [] then
             io_bind (io_lift (memcpy_to b (int (Length b)) d)) (\<lambda>b'.
               let f2 = f1\<lparr>tf_recv_buf := Length_set b' (Pos b') (to_size (int (Length b') + int (length d)))\<rparr> in
               io_bind (vt_OnRecv vt (int (length d)) f2) (\<lambda>f3. io_return (f3, False)))
           else io_return (goto_status EEnd (f1\<lparr>tf_error := 0, tf_remote_close := True\<rparr>), True)))"

definition AfterReadWriteSelect ::
  "env \<Rightarrow> ('x TcpClientFSM_scheme) tcp_class \<Rightarrow> SocketSelect \<Rightarrow> 'x TcpClientFSM_scheme \<Rightarrow> ('x TcpClientFSM_scheme) io" where
  "AfterReadWriteSelect E vt sel f =
     io_bind (vt_ReadWriteTimeout vt f) (\<lambda>timeout.
       if Exception_FD_ISSET sel (tf_sock f) then
         io_bind (socket_error E (tf_sock f)) (\<lambda>e. io_return (goto_status EEnd (f\<lparr>tf_error := e\<rparr>)))
       else
         io_bind (if Write_FD_ISSET sel (tf_sock f) then write_ready E vt f else io_return (f, False)) (\<lambda>(f1, done1).
           if done1 then io_return f1
           else
             io_bind (if Read_FD_ISSET sel (tf_sock f1) then read_ready E vt f1 else io_return (f1, False)) (\<lambda>(f2, done2).
               if done2 then io_return f2
               else if \<not> Write_FD_ISSET sel (tf_sock f2) \<and> \<not> Read_FD_ISSET sel (tf_sock f2) \<and> timeout \<le> 0 then
                 io_return (goto_status EEnd (f2\<lparr>tf_error := ETIMEDOUT\<rparr>))
               else io_return f2)))"

definition AfterSelect ::
  "env \<Rightarrow> ('x TcpClientFSM_scheme) tcp_class \<Rightarrow> SocketSelect \<Rightarrow> 'x TcpClientFSM_scheme \<Rightarrow> ('x TcpClientFSM_scheme) io" where
  "AfterSelect E vt sel f =
     io_bind (if tf_status f = EConnecting then AfterConnectSelect E vt sel f
              else if tf_status f = EReadWrite then AfterReadWriteSelect E vt sel f
              else io_return f) (\<lambda>f1.
       if tf_status f1 = EEnd \<and> tf_sock f1 \<noteq> INVALID_SOCKET then vt_OnClose vt (tf_last_status f1) (tf_error f1) False f1
       else io_return f1)"

definition TcpClientFSM_Timeout :: "('x TcpClientFSM_scheme) tcp_class \<Rightarrow> 'x TcpClientFSM_scheme \<Rightarrow> int io" where
  "TcpClientFSM_Timeout vt f =
     (case tf_status f of
        EConnecting \<Rightarrow> vt_ConnectTimeout vt f
      | EReadWrite \<Rightarrow> vt_ReadWriteTimeout vt f
      | EEnd \<Rightarrow> io_return 0
      | EStart \<Rightarrow> io_return INT_MAX)"

section \<open>What a callback may do\<close>

text \<open>
  A callback leaves the connection part of the object alone, opens and closes no descriptor and keeps an invariant \<open>I\<close>
  between the fields of the derived class and the log.
\<close>

definition same_conn :: "'x TcpClientFSM_scheme \<Rightarrow> 'x TcpClientFSM_scheme \<Rightarrow> bool" where
  "same_conn f f' \<longleftrightarrow> tf_status f' = tf_status f \<and> tf_last_status f' = tf_last_status f \<and> tf_error f' = tf_error f
     \<and> tf_remote_close f' = tf_remote_close f \<and> tf_sock f' = tf_sock f"

abbreviation fsm_more :: "'x TcpClientFSM_scheme \<Rightarrow> 'x" where
  "fsm_more \<equiv> TcpClientFSM.more"

definition held :: "'x TcpClientFSM_scheme \<Rightarrow> socket multiset" where
  "held f = (if tf_sock f = INVALID_SOCKET then {#} else {#tf_sock f#})"

text \<open>The account of one connection: \<open>R\<close> are the descriptors the other connections hold, \<open>n\<close> bounds them all.\<close>

definition acct :: "nat \<Rightarrow> socket multiset \<Rightarrow> log \<Rightarrow> 'x TcpClientFSM_scheme \<Rightarrow> bool" where
  "acct n R h f \<longleftrightarrow> opened h = closed h + held f + R \<and> peak n h \<and> size (held f) + size R \<le> n"

text \<open>
  The connection of \<open>s\<close> came up: after a \<^verbatim>\<open>connect\<close> on \<open>s\<close>, \<^verbatim>\<open>SO_ERROR\<close> of \<open>s\<close> was read as 0 (or it could not be
  read and \<^verbatim>\<open>errno\<close> was 0, which \<^verbatim>\<open>socket_error\<close> hands on as well).
\<close>

definition established :: "socket \<Rightarrow> log \<Rightarrow> bool" where
  "established s h \<longleftrightarrow> (\<exists>g r. Connect s r \<in> set g
     \<and> (Getsockopt_error s (Some 0) # g \<in> moments h \<or> Errno 0 # Getsockopt_error s None # g \<in> moments h))"

lemma established_later: "established s h \<Longrightarrow> moments h \<subseteq> moments h' \<Longrightarrow> established s h'"
  unfolding established_def by blast

definition conn_ok :: "log \<Rightarrow> 'x TcpClientFSM_scheme \<Rightarrow> bool" where
  "conn_ok h f \<longleftrightarrow>
     (tf_status f = EStart \<longrightarrow> tf_sock f = INVALID_SOCKET)
   \<and> (tf_status f \<in> {EConnecting, EReadWrite} \<longrightarrow> tf_sock f \<noteq> INVALID_SOCKET \<and> (\<exists>r. Connect (tf_sock f) r \<in> set h))
   \<and> (tf_status f = EReadWrite \<longrightarrow> established (tf_sock f) h)
   \<and> (tf_status f \<noteq> EEnd \<longrightarrow> tf_error f = 0 \<and> \<not> tf_remote_close f)"

lemma same_conn_refl [simp]: "same_conn f f"
  by (simp add: same_conn_def)

lemma acct_quiet: "acct n R h f \<Longrightarrow> quiet h h' \<Longrightarrow> tf_sock f' = tf_sock f \<Longrightarrow> acct n R h' f'"
  by (auto simp: acct_def held_def quiet_fds quiet_peak)

lemma acct_event: "acct n R h f \<Longrightarrow> \<not> fd_event e \<Longrightarrow> tf_sock f' = tf_sock f \<Longrightarrow> acct n R (e # h) f'"
  by (rule acct_quiet) (auto intro: quiet_Cons)

lemma acct_close:
  "acct n R h f \<Longrightarrow> tf_sock f \<noteq> INVALID_SOCKET \<Longrightarrow> tf_sock f' = INVALID_SOCKET \<Longrightarrow> acct n R (Close_fd (tf_sock f) # h) f'"
  by (auto simp: acct_def held_def)

lemma acct_open:
  "acct n R h f \<Longrightarrow> tf_sock f = INVALID_SOCKET \<Longrightarrow> size R < n \<Longrightarrow> tf_sock f' = s \<Longrightarrow> acct n R (Socket s # h) f'"
  by (auto simp: acct_def held_def)

lemma conn_ok_later: "conn_ok h f \<Longrightarrow> moments h \<subseteq> moments h' \<Longrightarrow> same_conn f f' \<Longrightarrow> conn_ok h' f'"
  by (auto simp: conn_ok_def same_conn_def intro: moments_mono established_later)

locale tcp_callbacks =
  fixes vt :: "('x TcpClientFSM_scheme) tcp_class" and I :: "'x TcpClientFSM_scheme \<Rightarrow> log \<Rightarrow> bool"
  assumes I_later: "I f h \<Longrightarrow> fsm_more f' = fsm_more f \<Longrightarrow> moments h \<subseteq> moments h'
      \<Longrightarrow> tf_sock f' = tf_sock f \<or> tf_sock f' = INVALID_SOCKET \<Longrightarrow> tf_status f' = EStart \<longrightarrow> tf_status f = EStart \<Longrightarrow> I f' h'"
    and I_open: "I f h \<Longrightarrow> fsm_more f' = fsm_more f \<Longrightarrow> moments h \<subseteq> moments h' \<Longrightarrow> tf_status f = EStart \<Longrightarrow> I f' h'"
    and OnCreate: "I f h \<Longrightarrow> io_post (vt_OnCreate vt f) h (\<lambda>f' h'. same_conn f f' \<and> quiet h h' \<and> I f' h')"
    and OnConnect: "I f h \<Longrightarrow> io_post (vt_OnConnect vt f) h (\<lambda>f' h'. same_conn f f' \<and> quiet h h' \<and> I f' h')"
    and OnConnected: "I f h \<Longrightarrow> io_post (vt_OnConnected vt n f) h (\<lambda>f' h'. same_conn f f' \<and> quiet h h' \<and> I f' h')"
    and OnRecv: "I f h \<Longrightarrow> conn_ok h f \<Longrightarrow> tf_status f = EReadWrite \<Longrightarrow> io_post (vt_OnRecv vt n f) h (\<lambda>f' h'. same_conn f f' \<and> quiet h h' \<and> I f' h')"
    and OnRequestSend: "I f h \<Longrightarrow> io_post (vt_OnRequestSend vt f) h (\<lambda>f' h'. same_conn f f' \<and> quiet h h' \<and> I f' h')"
    and OnSend: "I f h \<Longrightarrow> io_post (vt_OnSend vt n f) h (\<lambda>f' h'. same_conn f f' \<and> quiet h h' \<and> I f' h')"
    and OnClose: "I f h \<Longrightarrow> io_post (vt_OnClose vt st n u f) h (\<lambda>f' h'. same_conn f f' \<and> quiet h h' \<and> I f' h')"
    and ConnectTimeout: "io_post (vt_ConnectTimeout vt f) h (\<lambda>_ h'. quiet h h')"
    and ReadWriteTimeout: "io_post (vt_ReadWriteTimeout vt f) h (\<lambda>_ h'. quiet h h')"
begin

text \<open>
  What holds between two calls for one connection, and the rule for a callback in the middle of an operation.
\<close>

definition fsm_inv :: "nat \<Rightarrow> socket multiset \<Rightarrow> log \<Rightarrow> 'x TcpClientFSM_scheme \<Rightarrow> bool" where
  "fsm_inv n R h f \<longleftrightarrow> acct n R h f \<and> I f h"

lemma fsm_inv_event:
  "fsm_inv n R h f \<Longrightarrow> \<not> fd_event e \<Longrightarrow> tf_sock f' = tf_sock f \<Longrightarrow> fsm_more f' = fsm_more f
    \<Longrightarrow> tf_status f' = EStart \<longrightarrow> tf_status f = EStart \<Longrightarrow> fsm_inv n R (e # h) f'"
  using I_later [of f h f' "e # h"] by (auto simp: fsm_inv_def intro: acct_event)

lemma fsm_inv_upd:
  "fsm_inv n R h f \<Longrightarrow> tf_sock f' = tf_sock f \<Longrightarrow> fsm_more f' = fsm_more f
    \<Longrightarrow> tf_status f' = EStart \<longrightarrow> tf_status f = EStart \<Longrightarrow> fsm_inv n R h f'"
  using I_later [of f h f' h] by (auto simp: fsm_inv_def intro: acct_quiet)

lemma fsm_inv_close:
  "fsm_inv n R h f \<Longrightarrow> tf_sock f \<noteq> INVALID_SOCKET \<Longrightarrow> tf_sock f' = INVALID_SOCKET \<Longrightarrow> fsm_more f' = fsm_more f
    \<Longrightarrow> tf_status f' = EStart \<longrightarrow> tf_status f = EStart \<Longrightarrow> fsm_inv n R (Close_fd (tf_sock f) # h) f'"
  using I_later [of f h f' "Close_fd (tf_sock f) # h"] by (auto simp: fsm_inv_def intro: acct_close)

lemma fsm_inv_open:
  "fsm_inv n R h f \<Longrightarrow> tf_sock f = INVALID_SOCKET \<Longrightarrow> size R < n \<Longrightarrow> tf_sock f' = s \<Longrightarrow> fsm_more f' = fsm_more f
    \<Longrightarrow> tf_status f = EStart \<Longrightarrow> fsm_inv n R (Socket s # h) f'"
  using I_open [of f h f' "Socket s # h"] by (auto simp: fsm_inv_def intro: acct_open)

lemma callback_rule:
  assumes "\<And>f h. I f h \<Longrightarrow> io_post (m f) h (\<lambda>f' h'. same_conn f f' \<and> quiet h h' \<and> I f' h')"
    and "fsm_inv n R h f"
    and "\<And>f' h'. same_conn f f' \<Longrightarrow> moments h \<subseteq> moments h' \<Longrightarrow> fsm_inv n R h' f' \<Longrightarrow> Q f' h'"
  shows "io_post (m f) h Q"
proof (rule io_post_mono [OF assms(1)])
  show "I f h" using assms(2) by (simp add: fsm_inv_def)
next
  fix f' h'
  assume "same_conn f f' \<and> quiet h h' \<and> I f' h'"
  with assms(2) show "Q f' h'"
    by (intro assms(3)) (auto simp: fsm_inv_def same_conn_def intro: acct_quiet quiet_moments [THEN subsetD])
qed

lemmas cb_rules = callback_rule [OF OnCreate] callback_rule [OF OnConnect] callback_rule [OF OnConnected]
  callback_rule [OF OnRequestSend] callback_rule [OF OnSend] callback_rule [OF OnClose]

lemma timeout_rules:
  assumes "fsm_inv n R h f" "\<And>t h'. moments h \<subseteq> moments h' \<Longrightarrow> fsm_inv n R h' f \<Longrightarrow> Q t h'"
  shows "io_post (vt_ConnectTimeout vt f) h Q" "io_post (vt_ReadWriteTimeout vt f) h Q"
proof -
  have *: "Q t h'" if q: "quiet h h'" for t h'
  proof (rule assms(2))
    show sub: "moments h \<subseteq> moments h'" using quiet_moments [OF q] .
    show "fsm_inv n R h' f"
      using assms(1) acct_quiet [OF _ q refl, of n R f] I_later [OF _ refl sub, of f] by (simp add: fsm_inv_def)
  qed
  show "io_post (vt_ConnectTimeout vt f) h Q" by (rule io_post_mono [OF ConnectTimeout *])
  show "io_post (vt_ReadWriteTimeout vt f) h Q" by (rule io_post_mono [OF ReadWriteTimeout *])
qed

text \<open>The postcondition of an operation on the connection \<open>f\<close> that ended it or left it going.\<close>

definition goes_on :: "nat \<Rightarrow> socket multiset \<Rightarrow> log \<Rightarrow> 'x TcpClientFSM_scheme \<Rightarrow> log \<Rightarrow> bool" where
  "goes_on n R h f' h' \<longleftrightarrow> fsm_inv n R h' f' \<and> conn_ok h' f' \<and> moments h \<subseteq> moments h' \<and> tf_status f' \<noteq> EStart"

lemma goes_on_callback: "same_conn f f' \<Longrightarrow> moments h1 \<subseteq> moments h' \<Longrightarrow> goes_on n R h f h1 \<Longrightarrow> fsm_inv n R h' f' \<Longrightarrow> goes_on n R h f' h'"
  using conn_ok_later [of h1 f h' f'] by (auto simp: goes_on_def same_conn_def)

lemma goes_on_base: "goes_on n R h1 f h' \<Longrightarrow> moments h \<subseteq> moments h1 \<Longrightarrow> goes_on n R h f h'"
  by (auto simp: goes_on_def)

lemma goes_on_End:
  "fsm_inv n R h' f \<Longrightarrow> moments h \<subseteq> moments h' \<Longrightarrow> tf_status f' = EEnd \<Longrightarrow> tf_sock f' = tf_sock f \<Longrightarrow> fsm_more f' = fsm_more f
    \<Longrightarrow> goes_on n R h f' h'"
  by (auto simp: goes_on_def conn_ok_def intro: fsm_inv_upd)

lemma start_connect_inv:
  assumes "fsm_inv n R h f"
  shows "io_post (start_connect E f sel) h (\<lambda>(f', _) h'. fsm_inv n R h' f' \<and> moments h \<subseteq> moments h' \<and> tf_status f' = tf_status f
     \<and> tf_sock f' = tf_sock f \<and> tf_remote_close f' = tf_remote_close f \<and> (\<exists>r. Connect (tf_sock f) r \<in> set h'))"
  using assms unfolding start_connect_def sys_calls
  by (auto simp: io_wp Let_def intro!: fsm_inv_event [where f = f])

lemma open_failed_inv:
  assumes "fsm_inv n R h f"
  shows "io_post (open_failed E vt f) h (goes_on n R h)"
  unfolding open_failed_def sys_calls
  by (simp add: io_wp Let_def, rule callback_rule [OF OnClose])
    (auto simp: goto_status_def same_conn_def intro!: fsm_inv_event [OF assms] goes_on_End)

lemma connect_opened_inv:
  assumes inv: "fsm_inv n R h f" and s: "tf_sock f \<noteq> INVALID_SOCKET" "\<not> tf_remote_close f"
  shows "io_post (connect_opened E vt f sel) h (\<lambda>(f', _). goes_on n R h f')"
proof -
  have nobio: "io_post (socket_set_nobio E (tf_sock f)) h (\<lambda>_ h'. fsm_inv n R h' f \<and> moments h \<subseteq> moments h')"
    using inv unfolding socket_set_nobio_def sys_calls by (auto simp: io_wp intro!: fsm_inv_event)
  have err: "io_post (if r \<noteq> 0 then io_bind (socket_errno E) (\<lambda>e. io_return (f\<lparr>tf_error := e\<rparr>)) else io_return f) h1
      (\<lambda>f' h'. fsm_inv n R h' f' \<and> moments h1 \<subseteq> moments h' \<and> tf_sock f' = tf_sock f \<and> \<not> tf_remote_close f')"
    if "fsm_inv n R h1 f" for r h1
    using that s unfolding sys_calls by (auto simp: io_wp intro!: fsm_inv_event)
  have conn: "io_post (io_bind (start_connect E f1 sel) (\<lambda>(f2, sel').
        if tf_error f2 \<noteq> 0 then io_return (goto_status EEnd f2, sel')
        else io_bind (vt_OnConnect vt (goto_status EConnecting f2)) (\<lambda>f3. io_return (f3, sel')))) h1 (\<lambda>(f', _). goes_on n R h1 f')"
    if f1: "fsm_inv n R h1 f1" "tf_sock f1 \<noteq> INVALID_SOCKET" "\<not> tf_remote_close f1" for f1 h1
    unfolding io_post_bind
  proof (rule io_post_mono [OF start_connect_inv [OF f1(1)]], clarsimp simp: io_wp, intro conjI impI)
    fix f2 h2 r
    assume f2: "fsm_inv n R h2 f2" "moments h1 \<subseteq> moments h2" "tf_sock f2 = tf_sock f1" "tf_remote_close f2 = tf_remote_close f1"
      "Connect (tf_sock f1) r \<in> set h2"
    show "goes_on n R h1 (goto_status EEnd f2) h2"
      using f2 by (intro goes_on_End [of n R h2 f2]) (simp_all add: goto_status_def)
    assume "tf_error f2 = 0"
    with f2 f1 have g: "goes_on n R h1 (goto_status EConnecting f2) h2"
      by (auto simp: goes_on_def conn_ok_def goto_status_def intro: fsm_inv_upd [of n R h2 f2])
    show "io_post (vt_OnConnect vt (goto_status EConnecting f2)) h2 (goes_on n R h1)"
      by (rule callback_rule [OF OnConnect]) (use g in \<open>auto simp: goes_on_def [of n R h1 "goto_status _ _"] intro: goes_on_callback\<close>)
  qed
  show ?thesis
    unfolding connect_opened_def io_post_bind
  proof (rule io_post_mono [OF nobio], clarify, rule io_post_mono [OF err], assumption, clarify)
    fix h1 f1 h2
    assume f1: "moments h \<subseteq> moments h1" "fsm_inv n R h2 f1" "moments h1 \<subseteq> moments h2" "tf_sock f1 = tf_sock f" "\<not> tf_remote_close f1"
    then have hh: "moments h \<subseteq> moments h2" by blast
    have e: "goes_on n R h (goto_status EEnd f1) h2"
      using f1 hh by (intro goes_on_End [of n R h2 f1]) (simp_all add: goto_status_def)
    from conn [of h2 f1] f1 s e hh
    show "io_post (if tf_error f1 \<noteq> 0 then io_return (goto_status EEnd f1, sel)
        else io_bind (start_connect E f1 sel) (\<lambda>(f2, sel').
          if tf_error f2 \<noteq> 0 then io_return (goto_status EEnd f2, sel')
          else io_bind (vt_OnConnect vt (goto_status EConnecting f2)) (\<lambda>f3. io_return (f3, sel')))) h2
        (\<lambda>(f', _). goes_on n R h f')"
      by (auto simp: io_post_return elim!: io_post_mono intro: goes_on_base)
  qed
qed

lemma PreConnectSelect_inv:
  assumes inv: "fsm_inv n R h f" "conn_ok h f" "tf_status f = EStart" "size R < n"
  shows "io_post (PreConnectSelect E vt f sel) h (\<lambda>(f', _). goes_on n R h f')"
  unfolding PreConnectSelect_def io_post_bind
proof (rule callback_rule [OF OnCreate inv(1)])
  fix f1 h1
  assume f1: "same_conn f f1" "moments h \<subseteq> moments h1" "fsm_inv n R h1 f1"
  let ?s = "env_socket E h1"
  have f2: "fsm_inv n R (Socket ?s # h1) (f1\<lparr>tf_sock := ?s\<rparr>)"
    using f1 inv by (intro fsm_inv_open [of n R h1 f1]) (auto simp: same_conn_def conn_ok_def)
  have hh: "moments h \<subseteq> moments (Socket ?s # h1)" using f1 by auto
  have rc: "\<not> tf_remote_close (f1\<lparr>tf_sock := ?s\<rparr>)" using f1 inv by (simp add: same_conn_def conn_ok_def)
  have failed: "io_post (open_failed E vt (f1\<lparr>tf_sock := ?s\<rparr>)) (Socket ?s # h1) (goes_on n R h)"
    by (rule io_post_mono [OF open_failed_inv [OF f2]]) (erule goes_on_base [OF _ hh])
  have opened: "?s \<noteq> INVALID_SOCKET \<Longrightarrow>
      io_post (connect_opened E vt (f1\<lparr>tf_sock := ?s\<rparr>) sel) (Socket ?s # h1) (\<lambda>(f', _). goes_on n R h f')"
    by (rule io_post_mono [OF connect_opened_inv [OF f2 _ rc]]) (auto elim: goes_on_base [OF _ hh])
  show "io_post (socket_open E) h1 (\<lambda>s h'. io_post (let f2 = f1\<lparr>tf_sock := s\<rparr> in
       if s = INVALID_SOCKET then io_bind (open_failed E vt f2) (\<lambda>f3. io_return (f3, sel))
       else connect_opened E vt f2 sel) h' (\<lambda>(f', _). goes_on n R h f'))"
    using failed opened by (auto simp: socket_open_def io_wp Let_def elim!: io_post_mono)
qed

text \<open>\<open>PreSelect\<close>: only a connection that has not started opens a descriptor.\<close>

lemma PreSelect_inv:
  assumes "fsm_inv n R h f" "conn_ok h f" "tf_status f = EStart \<Longrightarrow> size R < n"
  shows "io_post (PreSelect E vt f sel) h (\<lambda>(f', _). goes_on n R h f')"
  using assms PreConnectSelect_inv [OF assms(1,2)]
  by (cases "tf_status f") (auto simp: PreSelect_def io_post_return goes_on_def)

lemma socket_error_inv:
  "fsm_inv n R h f \<Longrightarrow> io_post (socket_error E s) h (\<lambda>e h'. fsm_inv n R h' f \<and> moments h \<subseteq> moments h' \<and> (e = 0 \<longrightarrow> (\<exists>r. Connect s r \<in> set h) \<longrightarrow> established s h'))"
  unfolding socket_error_def sys_calls by (auto simp: io_wp established_def intro!: fsm_inv_event)

lemma AfterConnectSelect_inv:
  assumes inv: "fsm_inv n R h f" "conn_ok h f" "tf_status f = EConnecting"
  shows "io_post (AfterConnectSelect E vt sel f) h (\<lambda>f'. goes_on n R h f')"
  unfolding AfterConnectSelect_def io_post_bind
proof (rule timeout_rules(1) [OF inv(1)])
  fix timeout h1
  assume h1: "moments h \<subseteq> moments h1" "fsm_inv n R h1 f"
  have ended: "goes_on n R h (goto_status EEnd (f\<lparr>tf_error := e, tf_end_connecttime := t\<rparr>)) (Tick t' # h2)"
    if "moments h1 \<subseteq> moments h2" "fsm_inv n R h2 f" for e t t' h2
    using that h1 by (intro goes_on_End [OF fsm_inv_event [OF that(2)], of _ f]) (auto simp: goto_status_def)
  have timed_out: "goes_on n R h (goto_status EEnd (f\<lparr>tf_end_connecttime := t, tf_error := e\<rparr>)) (Tick t' # h2)"
    if "moments h1 \<subseteq> moments h2" "fsm_inv n R h2 f" for e t t' h2
    using ended [OF that, where e = e and t = t and t' = t'] by (cases f) simp
  have up: "io_post (vt_OnConnected vt k (goto_status EReadWrite (f\<lparr>tf_error := 0, tf_end_connecttime := t\<rparr>))) (Tick t' # h2) (goes_on n R h)"
    if h2: "moments h1 \<subseteq> moments h2" "fsm_inv n R h2 f" "(\<exists>r. Connect (tf_sock f) r \<in> set h1) \<longrightarrow> established (tf_sock f) h2" for t t' h2 k
  proof -
    have c: "\<exists>r. Connect (tf_sock f) r \<in> set h1" using inv h1(1) by (auto simp: conn_ok_def intro: moments_mono)
    have e: "established (tf_sock f) (Tick t' # h2)" using h2(3) c by (auto intro: established_later)
    let ?f = "goto_status EReadWrite (f\<lparr>tf_error := 0, tf_end_connecttime := t\<rparr>)"
    have "fsm_inv n R (Tick t' # h2) ?f" using h2 by (auto simp: goto_status_def intro!: fsm_inv_event [of n R h2 f])
    moreover from this have "goes_on n R h ?f (Tick t' # h2)"
      using h1 h2 c e inv by (auto simp: goes_on_def conn_ok_def goto_status_def dest: moments_mono [OF h2(1)])
    ultimately show ?thesis by (auto intro!: callback_rule [OF OnConnected] intro: goes_on_callback)
  qed
  have same: "goes_on n R h (f\<lparr>tf_error := 0\<rparr>) h2" if "moments h1 \<subseteq> moments h2" "fsm_inv n R h2 f" for h2
    using that h1 inv fsm_inv_upd [OF that(2), of "f\<lparr>tf_error := 0\<rparr>"]
    by (auto simp: goes_on_def conn_ok_def intro: moments_mono)
  show "io_post (if Exception_FD_ISSET sel (tf_sock f) then
         io_bind (socket_error E (tf_sock f)) (\<lambda>e.
         io_bind (gettickcount E) (\<lambda>t. io_return (goto_status EEnd (f\<lparr>tf_error := e, tf_end_connecttime := t\<rparr>))))
       else
         io_bind (socket_error E (tf_sock f)) (\<lambda>e. let f1 = f\<lparr>tf_error := e\<rparr> in
           if e \<noteq> 0 then
             io_bind (gettickcount E) (\<lambda>t. io_return (goto_status EEnd (f1\<lparr>tf_end_connecttime := t\<rparr>)))
           else if Write_FD_ISSET sel (tf_sock f1) then
             io_bind (gettickcount E) (\<lambda>t.
               let f2 = goto_status EReadWrite (f1\<lparr>tf_end_connecttime := t\<rparr>) in vt_OnConnected vt (Rtt f2) f2)
           else if timeout \<le> 0 then
             io_bind (gettickcount E) (\<lambda>t.
               io_return (goto_status EEnd (f1\<lparr>tf_end_connecttime := t, tf_error := ETIMEDOUT\<rparr>)))
           else io_return f1)) h1 (goes_on n R h)"
    using ended timed_out up same
    by (auto simp: io_wp Let_def gettickcount_def intro!: io_post_mono [OF socket_error_inv [OF h1(2)]])
qed

text \<open>A connection that is up, and the postcondition of the two halves of \<open>AfterReadWriteSelect\<close>.\<close>

definition up :: "nat \<Rightarrow> socket multiset \<Rightarrow> log \<Rightarrow> 'x TcpClientFSM_scheme \<Rightarrow> log \<Rightarrow> bool" where
  "up n R h f h' \<longleftrightarrow> goes_on n R h f h' \<and> tf_status f = EReadWrite"

lemma up_event: "up n R h f h1 \<Longrightarrow> \<not> fd_event e \<Longrightarrow> up n R h f (e # h1)"
  using conn_ok_later [of h1 f "e # h1" f] by (auto simp: up_def goes_on_def intro: fsm_inv_event)

lemma up_upd:
  "up n R h f h' \<Longrightarrow> tf_status f' = tf_status f \<Longrightarrow> tf_sock f' = tf_sock f \<Longrightarrow> tf_error f' = tf_error f
    \<Longrightarrow> tf_remote_close f' = tf_remote_close f \<Longrightarrow> fsm_more f' = fsm_more f \<Longrightarrow> up n R h f' h'"
  by (auto simp: up_def goes_on_def conn_ok_def intro: fsm_inv_upd)

lemma up_End:
  "up n R h f h' \<Longrightarrow> tf_status f' = EEnd \<Longrightarrow> tf_sock f' = tf_sock f \<Longrightarrow> fsm_more f' = fsm_more f \<Longrightarrow> goes_on n R h f' h'"
  by (auto simp: up_def goes_on_def conn_ok_def intro: fsm_inv_upd)

lemma up_callback:
  assumes "up n R h f h1" "\<And>f' h'. up n R h f' h' \<Longrightarrow> Q f' h'"
    and "I f h1 \<Longrightarrow> conn_ok h1 f \<Longrightarrow> tf_status f = EReadWrite \<Longrightarrow>
      io_post (m f) h1 (\<lambda>f' h'. same_conn f f' \<and> quiet h1 h' \<and> I f' h')"
  shows "io_post (m f) h1 Q"
proof (rule io_post_mono [OF assms(3)])
  show "I f h1" "conn_ok h1 f" "tf_status f = EReadWrite" using assms(1) by (auto simp: up_def goes_on_def fsm_inv_def)
  fix f' h'
  assume post: "same_conn f f' \<and> quiet h1 h' \<and> I f' h'"
  then have "fsm_inv n R h' f'" "moments h1 \<subseteq> moments h'"
    using assms(1) quiet_moments [of h1 h'] by (auto simp: up_def goes_on_def fsm_inv_def same_conn_def intro: acct_quiet)
  with post assms(1) goes_on_callback [of f f' h1 h' n R h] show "Q f' h'"
    by (intro assms(2)) (auto simp: up_def same_conn_def)
qed

lemma write_ready_inv:
  assumes "up n R h f h1"
  shows "io_post (write_ready E vt f) h1 (\<lambda>(f', d) h'. goes_on n R h f' h' \<and> (\<not> d \<longrightarrow> up n R h f' h'))"
proof -
  have req: "io_post (if c then vt_OnRequestSend vt (f\<lparr>tf_request_send := False\<rparr>) else io_return f) h1 (up n R h)" for c
    using assms by (auto simp: io_wp intro!: up_callback [OF up_upd [OF assms] _ OnRequestSend])
  have sent: "io_post (vt_OnSend vt r (f1\<lparr>tf_send_buf := b\<rparr>)) h2 (up n R h)" if "up n R h f1 h2" for f1 h2 r b
    by (rule up_callback [OF up_upd [OF that] _ OnSend]) simp_all
  have failed: "goes_on n R h (goto_status EEnd (f1\<lparr>tf_error := e\<rparr>)) h2" if "up n R h f1 h2" for f1 h2 e
    by (rule up_End [OF that]) (simp_all add: goto_status_def)
  have go: "goes_on n R h f1 h2" if "up n R h f1 h2" for f1 h2 using that by (simp add: up_def)
  show ?thesis
    unfolding write_ready_def io_post_bind
    by (rule io_post_mono [OF req])
      (auto simp: io_wp sys_calls intro!: up_event go failed io_post_mono [OF sent])
qed

lemma read_ready_inv:
  assumes "up n R h f h1"
  shows "io_post (read_ready E vt f) h1 (\<lambda>(f', d) h'. goes_on n R h f' h' \<and> (\<not> d \<longrightarrow> up n R h f' h'))"
proof -
  have room: "up n R h (f\<lparr>tf_recv_buf := b\<rparr>) h1" for b by (rule up_upd [OF assms]) simp_all
  have got: "io_post (vt_OnRecv vt k (f\<lparr>tf_recv_buf := b\<rparr>)) h2 (up n R h)" if "up n R h f h2" for h2 k b
    by (rule up_callback [OF up_upd [OF that] _ OnRecv]) simp_all
  have failed: "goes_on n R h (goto_status EEnd (f\<lparr>tf_recv_buf := b, tf_error := e\<rparr>)) h2" if "up n R h f h2" for h2 e b
    by (rule up_End [OF that]) (simp_all add: goto_status_def)
  have finished: "goes_on n R h (goto_status EEnd (f\<lparr>tf_recv_buf := b, tf_error := 0, tf_remote_close := True\<rparr>)) h2" if "up n R h f h2" for h2 b
    by (rule up_End [OF that]) (simp_all add: goto_status_def)
  have go: "goes_on n R h f1 h2" if "up n R h f1 h2" for f1 h2 using that by (simp add: up_def)
  show ?thesis
    unfolding read_ready_def using assms room
    by (auto simp: io_wp sys_calls Let_def intro!: up_event failed finished io_post_mono [OF got] intro: go)
qed

lemma AfterReadWriteSelect_inv:
  assumes inv: "fsm_inv n R h f" "conn_ok h f" "tf_status f = EReadWrite"
  shows "io_post (AfterReadWriteSelect E vt sel f) h (\<lambda>f'. goes_on n R h f')"
  unfolding AfterReadWriteSelect_def io_post_bind
proof (rule timeout_rules(2) [OF inv(1)])
  fix timeout h1
  assume h1: "moments h \<subseteq> moments h1" "fsm_inv n R h1 f"
  then have f: "up n R h f h1" using inv by (auto simp: up_def goes_on_def intro: conn_ok_later)
  have ended: "goes_on n R h (goto_status EEnd (f2\<lparr>tf_error := e\<rparr>)) h2" if "up n R h f2 h2" for e f2 h2
    by (rule up_End [OF that]) (simp_all add: goto_status_def)
  have exc: "io_post (socket_error E (tf_sock f)) h1 (\<lambda>e h'. goes_on n R h (goto_status EEnd (f\<lparr>tf_error := e\<rparr>)) h')"
    unfolding socket_error_def sys_calls using f by (auto simp: io_wp intro!: ended up_event)
  have w: "io_post (if c then write_ready E vt f else io_return (f, False)) h1 (\<lambda>(f', d) h'. goes_on n R h f' h' \<and> (\<not> d \<longrightarrow> up n R h f' h'))" for c
    using f write_ready_inv [OF f] by (simp add: io_wp up_def)
  have r: "io_post (if c then read_ready E vt f2 else io_return (f2, False)) h2 (\<lambda>(f', d) h'. goes_on n R h f' h' \<and> (\<not> d \<longrightarrow> up n R h f' h'))"
    if "up n R h f2 h2" for f2 h2 c
    using that read_ready_inv [OF that] by (simp add: io_wp up_def)
  have reading: "io_post (io_bind (if c then read_ready E vt f1 else io_return (f1, False)) (\<lambda>(f2, done2).
       if done2 then io_return f2
       else if \<not> Write_FD_ISSET sel (tf_sock f2) \<and> \<not> Read_FD_ISSET sel (tf_sock f2) \<and> timeout \<le> 0 then
         io_return (goto_status EEnd (f2\<lparr>tf_error := ETIMEDOUT\<rparr>))
       else io_return f2)) h2 (goes_on n R h)" if "up n R h f1 h2" for f1 h2 c
    unfolding io_post_bind by (rule io_post_mono [OF r [OF that]]) (auto simp: io_wp ended)
  have writing: "io_post (io_bind (if c then write_ready E vt f else io_return (f, False)) (\<lambda>(f1, done1).
       if done1 then io_return f1
       else
         io_bind (if Read_FD_ISSET sel (tf_sock f1) then read_ready E vt f1 else io_return (f1, False)) (\<lambda>(f2, done2).
           if done2 then io_return f2
           else if \<not> Write_FD_ISSET sel (tf_sock f2) \<and> \<not> Read_FD_ISSET sel (tf_sock f2) \<and> timeout \<le> 0 then
             io_return (goto_status EEnd (f2\<lparr>tf_error := ETIMEDOUT\<rparr>))
           else io_return f2))) h1 (goes_on n R h)" for c
  proof (subst io_post_bind, rule io_post_mono [OF w], clarify)
    fix f1 d h2
    assume "goes_on n R h f1 h2" "\<not> d \<longrightarrow> up n R h f1 h2"
    then show "io_post (if d then io_return f1
       else
         io_bind (if Read_FD_ISSET sel (tf_sock f1) then read_ready E vt f1 else io_return (f1, False)) (\<lambda>(f2, done2).
           if done2 then io_return f2
           else if \<not> Write_FD_ISSET sel (tf_sock f2) \<and> \<not> Read_FD_ISSET sel (tf_sock f2) \<and> timeout \<le> 0 then
             io_return (goto_status EEnd (f2\<lparr>tf_error := ETIMEDOUT\<rparr>))
           else io_return f2)) h2 (goes_on n R h)"
      by (cases d) (simp_all only: if_True if_False io_post_return reading simp_thms)
  qed
  show "io_post (if Exception_FD_ISSET sel (tf_sock f) then
         io_bind (socket_error E (tf_sock f)) (\<lambda>e. io_return (goto_status EEnd (f\<lparr>tf_error := e\<rparr>)))
       else
         io_bind (if Write_FD_ISSET sel (tf_sock f) then write_ready E vt f else io_return (f, False)) (\<lambda>(f1, done1).
           if done1 then io_return f1
           else
             io_bind (if Read_FD_ISSET sel (tf_sock f1) then read_ready E vt f1 else io_return (f1, False)) (\<lambda>(f2, done2).
               if done2 then io_return f2
               else if \<not> Write_FD_ISSET sel (tf_sock f2) \<and> \<not> Read_FD_ISSET sel (tf_sock f2) \<and> timeout \<le> 0 then
                 io_return (goto_status EEnd (f2\<lparr>tf_error := ETIMEDOUT\<rparr>))
               else io_return f2))) h1 (goes_on n R h)"
    using exc writing by (simp add: io_wp)
qed

text \<open>\<open>AfterSelect\<close> on a connection that has started.\<close>

lemma AfterSelect_inv:
  assumes inv: "fsm_inv n R h f" "conn_ok h f"
  shows "io_post (AfterSelect E vt sel f) h
    (\<lambda>f' h'. fsm_inv n R h' f' \<and> conn_ok h' f' \<and> moments h \<subseteq> moments h' \<and> (tf_status f \<noteq> EStart \<longrightarrow> tf_status f' \<noteq> EStart))"
  (is "io_post _ _ ?Q")
proof -
  have closing: "io_post (if tf_status f1 = EEnd \<and> tf_sock f1 \<noteq> INVALID_SOCKET
      then vt_OnClose vt (tf_last_status f1) (tf_error f1) False f1 else io_return f1) h1 ?Q"
    if f1: "fsm_inv n R h1 f1" "conn_ok h1 f1" "moments h \<subseteq> moments h1" "tf_status f \<noteq> EStart \<longrightarrow> tf_status f1 \<noteq> EStart" for f1 h1
  proof -
    have "io_post (vt_OnClose vt st e u f1) h1 ?Q" for st e u
      by (rule callback_rule [OF OnClose f1(1)], assumption)
        (use f1 in \<open>auto simp: same_conn_def intro: conn_ok_later\<close>)
    with f1 show ?thesis by (simp add: io_wp)
  qed
  have "io_post (if tf_status f = EConnecting then AfterConnectSelect E vt sel f
              else if tf_status f = EReadWrite then AfterReadWriteSelect E vt sel f
              else io_return f) h ?Q"
    using inv io_post_mono [OF AfterConnectSelect_inv [OF inv], of ?Q E sel]
      io_post_mono [OF AfterReadWriteSelect_inv [OF inv], of ?Q E sel]
    by (auto simp: io_wp goes_on_def)
  then show ?thesis
    unfolding AfterSelect_def io_post_bind by (rule io_post_mono) (use closing in blast)
qed

text \<open>\<open>Close\<close> and the destructor give the descriptor back.\<close>

lemma Close_inv:
  assumes "fsm_inv n R h f"
  shows "io_post (TcpClientFSM_Close vt notify f) h (\<lambda>f' h'. fsm_inv n R h' f' \<and> moments h \<subseteq> moments h' \<and> tf_sock f' = INVALID_SOCKET)"
  using assms unfolding TcpClientFSM_Close_def
  by (auto simp: io_wp Let_def sys_calls same_conn_def intro!: callback_rule [OF OnClose] fsm_inv_close)

lemma delete_inv:
  assumes "fsm_inv n R h f"
  shows "io_post (TcpClientFSM_delete vt f) h
    (\<lambda>_ h'. opened h' = closed h' + R \<and> peak n h' \<and> size R \<le> n \<and> moments h \<subseteq> moments h')"
  unfolding TcpClientFSM_delete_def io_wp
  by (rule io_post_mono [OF Close_inv [OF assms]]) (auto simp: fsm_inv_def acct_def held_def)

end

section \<open>Operations come back\<close>

locale tcp_returning =
  fixes vt :: "('x TcpClientFSM_scheme) tcp_class"
  assumes callbacks_return:
    "io_returns (vt_OnCreate vt f)" "io_returns (vt_OnConnect vt f)" "io_returns (vt_OnConnected vt n f)"
    "io_returns (vt_OnRecv vt n f)" "io_returns (vt_OnRequestSend vt f)" "io_returns (vt_OnSend vt n f)"
    "io_returns (vt_OnClose vt st n u f)" "io_returns (vt_ConnectTimeout vt f)" "io_returns (vt_ReadWriteTimeout vt f)"
begin

lemma PreSelect_returns: "io_returns (PreSelect E vt f sel)"
  unfolding PreSelect_def PreConnectSelect_def open_failed_def connect_opened_def start_connect_def socket_set_nobio_def sys_calls
  by (cases "tf_status f") (simp_all, (intro io_ret callbacks_return)+)

lemma AfterConnectSelect_returns: "io_returns (AfterConnectSelect E vt sel f)"
  unfolding AfterConnectSelect_def socket_error_def sys_calls by (intro io_ret callbacks_return)

lemma AfterReadWriteSelect_returns: "io_returns (AfterReadWriteSelect E vt sel f)"
  unfolding AfterReadWriteSelect_def write_ready_def read_ready_def socket_error_def sys_calls
  by (intro io_ret callbacks_return)

lemma AfterSelect_returns: "io_returns (AfterSelect E vt sel f)"
  unfolding AfterSelect_def by (intro io_ret callbacks_return AfterConnectSelect_returns AfterReadWriteSelect_returns)

lemma Close_returns: "io_returns (TcpClientFSM_Close vt notify f)"
  unfolding TcpClientFSM_Close_def sys_calls by (intro io_ret callbacks_return)

lemma delete_returns: "io_returns (TcpClientFSM_delete vt f)"
  unfolding TcpClientFSM_delete_def by (intro io_ret Close_returns)

lemma Timeout_returns: "io_returns (TcpClientFSM_Timeout vt f)"
  unfolding TcpClientFSM_Timeout_def by (cases "tf_status f") (simp_all add: io_ret callbacks_return)

end

end
