(* ===== verification/Conn_Check.thy ===== *)
theory Conn_Check
  imports Tcp_Fsm Http_Builder Http_Parser Base64
begin

text \<open>
  The three connections of src/mars/comm/socket/complexconnect.cc: \<^verbatim>\<open>ConnectCheckFSM\<close>, which connects and lets the
  observer (\<^verbatim>\<open>MComplexConnect\<close>) verify the peer, and its two derived classes that first ask a proxy for the connection,
  \<^verbatim>\<open>ConnectHttpTunelCheckFSM\<close> (the request \<^verbatim>\<open>CONNECT\<close>, built with \<^verbatim>\<open>http::Builder\<close>, the answer read with
  \<^verbatim>\<open>http::Parser\<close>) and \<^verbatim>\<open>ConnectSocks5CheckFSM\<close>. Each class is a record that extends its base and a value of
  \<open>tcp_class\<close> with its virtual functions. The observer is code of the user: what it answers is a parameter that may
  depend on the log; a null observer is \<open>None\<close>.
\<close>

section \<open>The observer\<close>

record observer =
  ob_ShouldVerify :: "log \<Rightarrow> nat \<Rightarrow> socket_address \<Rightarrow> bool"
  ob_VerifySend :: "log \<Rightarrow> nat \<Rightarrow> socket_address \<Rightarrow> AutoBuffer \<Rightarrow> bool \<times> AutoBuffer"
  ob_VerifyRecv :: "log \<Rightarrow> nat \<Rightarrow> socket_address \<Rightarrow> AutoBuffer \<Rightarrow> bool"

text \<open>\<^verbatim>\<open>observer_ && observer_->OnShouldVerify(index, addr)\<close>, and the other tests of this form.\<close>

definition should_verify :: "observer option \<Rightarrow> nat \<Rightarrow> socket_address \<Rightarrow> bool io" where
  "should_verify ob i addr = (case ob of
     None \<Rightarrow> io_return False
   | Some x \<Rightarrow> io_call (\<lambda>h. ob_ShouldVerify x h i addr) (OnShouldVerify i))"

definition verify_recv :: "observer option \<Rightarrow> nat \<Rightarrow> socket_address \<Rightarrow> socket \<Rightarrow> AutoBuffer \<Rightarrow> bool io" where
  "verify_recv ob i addr s b = (case ob of
     None \<Rightarrow> io_return False
   | Some x \<Rightarrow> io_call (\<lambda>h. ob_VerifyRecv x h i addr b) (OnVerifyRecv i s (content b)))"

definition verify_send :: "observer \<Rightarrow> nat \<Rightarrow> socket_address \<Rightarrow> socket \<Rightarrow> AutoBuffer \<Rightarrow> (bool \<times> AutoBuffer) io" where
  "verify_send x i addr s b = io_call (\<lambda>h. ob_VerifySend x h i addr b) (\<lambda>(ok, _). OnVerifySend i s ok)"

definition tell :: "observer option \<Rightarrow> event \<Rightarrow> unit io" where
  "tell ob e = (case ob of None \<Rightarrow> io_return () | Some _ \<Rightarrow> io_log e)"

section \<open>ConnectCheckFSM\<close>

datatype TCheckStatus = ECheckInit | EConnProxySucc | EProxyHttpTunelConnSvrReq | EProxySocks5GreetReq
  | EProxySocks5GreetSucc | EProxySocks5AuthReq | EProxySocks5AuthSucc | EProxySocks5ConnSvrReq
  | EProxyConnSvrSucc | ECheckOK | ECheckFail

record ConnectCheckFSM = TcpClientFSM +
  cc_connect_timeout :: nat
  cc_index :: nat
  cc_check_status :: TCheckStatus
  cc_checkfintime :: nat

type_synonym 'x check_fsm = "'x ConnectCheckFSM_scheme"

definition ConnectCheckFSM_new :: "observer option \<Rightarrow> socket_address \<Rightarrow> nat \<Rightarrow> nat \<Rightarrow> ConnectCheckFSM io" where
  "ConnectCheckFSM_new ob addr timeout index =
     io_bind (should_verify ob index addr) (\<lambda>v.
       io_return (TcpClientFSM.extend (TcpClientFSM_new addr)
         \<lparr>cc_connect_timeout = timeout, cc_index = index, cc_check_status = (if v then ECheckInit else ECheckOK),
          cc_checkfintime = 0\<rparr>))"

definition TotalRtt :: "'x check_fsm \<Rightarrow> int" where
  "TotalRtt f = to_int (int (to_size (int (cc_checkfintime f) - int (tf_start_connecttime f))))"

definition check_OnCreate :: "observer option \<Rightarrow> 'x check_fsm \<Rightarrow> 'x check_fsm io" where
  "check_OnCreate ob f = io_then (tell ob (OnCreated (cc_index f) (tf_sock f))) (io_return f)"

definition check_OnConnect :: "observer option \<Rightarrow> 'x check_fsm \<Rightarrow> 'x check_fsm io" where
  "check_OnConnect ob f = io_then (tell ob (OnConnect (cc_index f) (tf_sock f))) (io_return f)"

definition check_OnConnected :: "env \<Rightarrow> observer option \<Rightarrow> int \<Rightarrow> 'x check_fsm \<Rightarrow> 'x check_fsm io" where
  "check_OnConnected E ob rtt f =
     io_bind (gettickcount E) (\<lambda>t. let f1 = f\<lparr>cc_checkfintime := t\<rparr> in
       case ob of
         None \<Rightarrow> io_return f1
       | Some x \<Rightarrow>
           io_then (io_log (OnConnected (cc_index f1) (tf_sock f1) 0 rtt))
             (if cc_check_status f1 = ECheckOK then io_return f1
              else
                io_bind (verify_send x (cc_index f1) (tf_addr f1) (tf_sock f1) (tf_send_buf f1)) (\<lambda>(ok, b).
                  let f2 = f1\<lparr>tf_send_buf := b\<rparr> in
                  io_return (if ok then f2 else f2\<lparr>cc_check_status := ECheckFail\<rparr>))))"

definition check_OnRecv :: "env \<Rightarrow> observer option \<Rightarrow> int \<Rightarrow> 'x check_fsm \<Rightarrow> 'x check_fsm io" where
  "check_OnRecv E ob n f =
     (case ob of
        None \<Rightarrow> io_return f
      | Some _ \<Rightarrow>
          if cc_check_status f = ECheckOK then io_return f
          else
            io_bind (verify_recv ob (cc_index f) (tf_addr f) (tf_sock f) (tf_recv_buf f)) (\<lambda>ok.
            io_bind (gettickcount E) (\<lambda>t.
              io_return (f\<lparr>cc_check_status := (if ok then ECheckOK else ECheckFail), cc_checkfintime := t\<rparr>))))"

definition check_OnClose :: "env \<Rightarrow> observer option \<Rightarrow> TSocketStatus \<Rightarrow> int \<Rightarrow> bool \<Rightarrow> 'x check_fsm \<Rightarrow> 'x check_fsm io" where
  "check_OnClose E ob st err userclose f =
     io_bind (gettickcount E) (\<lambda>t. let f1 = f\<lparr>cc_checkfintime := t\<rparr> in
       if ob \<noteq> None \<and> \<not> userclose then
         if st = EConnecting then
           io_then (tell ob (OnConnected (cc_index f1) (tf_sock f1) err (TotalRtt f1))) (io_return f1)
         else if st = EReadWrite \<and> ETIMEDOUT = err then
           io_bind (gettickcount E) (\<lambda>t'. let f2 = f1\<lparr>cc_checkfintime := t'\<rparr> in
             io_then (tell ob (OnVerifyTimeout (to_int (int (to_size (int (cc_checkfintime f2) - int (tf_end_connecttime f2)))))))
               (io_return f2))
         else io_return f1
       else io_return f1)"

text \<open>The timeouts; \<^verbatim>\<open>int\<close> arithmetic wraps at 32 bits.\<close>

definition ConnectAbsTimeout :: "'x check_fsm \<Rightarrow> int" where
  "ConnectAbsTimeout f = to_int (int (cc_connect_timeout f))"

definition ReadWriteAbsTimeout :: "'x check_fsm \<Rightarrow> int" where
  "ReadWriteAbsTimeout f = max 1000 (min (to_int (6 * Rtt f)) (to_int (ConnectAbsTimeout f - Rtt f)))"

definition check_ConnectTimeout :: "env \<Rightarrow> 'x check_fsm \<Rightarrow> int io" where
  "check_ConnectTimeout E f =
     io_bind (gettickcount E) (\<lambda>now.
       io_return (to_int (int (to_size (int (tf_start_connecttime f) + ConnectAbsTimeout f - int now)))))"

definition check_ReadWriteTimeout :: "env \<Rightarrow> 'x check_fsm \<Rightarrow> int io" where
  "check_ReadWriteTimeout E f =
     io_bind (gettickcount E) (\<lambda>now.
       io_return (to_int (int (to_size (int (tf_end_connecttime f) + ReadWriteAbsTimeout f - int now)))))"

definition check_class :: "env \<Rightarrow> observer option \<Rightarrow> ('x check_fsm) tcp_class" where
  "check_class E ob =
     \<lparr>vt_OnCreate = check_OnCreate ob, vt_OnConnect = check_OnConnect ob, vt_OnConnected = check_OnConnected E ob,
      vt_OnRecv = check_OnRecv E ob, vt_OnRequestSend = io_return, vt_OnSend = (\<lambda>_. io_return),
      vt_OnClose = check_OnClose E ob, vt_ConnectTimeout = check_ConnectTimeout E,
      vt_ReadWriteTimeout = check_ReadWriteTimeout E\<rparr>"

section \<open>Through a proxy\<close>

record ProxyCheckFSM = ConnectCheckFSM +
  px_destaddr :: socket_address
  px_username :: string
  px_password :: string

text \<open>The constructors of the two classes: that of the base on the address of the proxy, then the status.\<close>

definition ProxyCheckFSM_new ::
  "observer option \<Rightarrow> socket_address \<Rightarrow> socket_address \<Rightarrow> string \<Rightarrow> string \<Rightarrow> nat \<Rightarrow> nat \<Rightarrow> ProxyCheckFSM io" where
  "ProxyCheckFSM_new ob destaddr proxy_addr username pwd timeout index =
     io_bind (ConnectCheckFSM_new ob proxy_addr timeout index) (\<lambda>f.
       io_return (ConnectCheckFSM.extend (f\<lparr>cc_check_status := ECheckInit\<rparr>)
         \<lparr>px_destaddr = destaddr, px_username = username, px_password = pwd\<rparr>))"

text \<open>\<^verbatim>\<open>_OnConnected\<close>, the same in both classes.\<close>

definition proxy_OnConnected :: "env \<Rightarrow> observer option \<Rightarrow> int \<Rightarrow> 'x ProxyCheckFSM_scheme \<Rightarrow> 'x ProxyCheckFSM_scheme io" where
  "proxy_OnConnected E ob rtt f =
     io_bind (gettickcount E) (\<lambda>t. let f1 = f\<lparr>cc_checkfintime := t\<rparr> in
     io_then (tell ob (OnConnected (cc_index f1) (tf_sock f1) 0 rtt))
       (io_return (if cc_check_status f1 = ECheckOK then f1
                   else f1\<lparr>tf_request_send := True, cc_check_status := EConnProxySucc\<rparr>)))"

section \<open>The callbacks keep to the contract\<close>

text \<open>
  What the log shows when the check of connection number \<open>i\<close> has succeeded. Either nobody wanted to verify: there is no
  observer, or (without a proxy, where the constructor asks) it answered that it need not. Or, on the descriptor \<open>s\<close> of
  the connection after it had come up, the observer accepted what the peer sent, or (\<open>via\<close> a proxy, which is asked for
  the peer first) it answered then that it need not verify; what it said before does not count.
\<close>

definition waived :: "observer option \<Rightarrow> bool \<Rightarrow> nat \<Rightarrow> log \<Rightarrow> bool" where
  "waived ob via i h \<longleftrightarrow> ob = None \<or> \<not> via \<and> OnShouldVerify i False \<in> set h"

definition approved :: "bool \<Rightarrow> nat \<Rightarrow> socket \<Rightarrow> log \<Rightarrow> bool" where
  "approved via i s h \<longleftrightarrow> (\<exists>g. established s g \<and>
     ((\<exists>d. OnVerifyRecv i s d True # g \<in> moments h) \<or> via \<and> OnShouldVerify i False # g \<in> moments h))"

definition checked :: "observer option \<Rightarrow> bool \<Rightarrow> nat \<Rightarrow> 'x check_fsm \<Rightarrow> log \<Rightarrow> bool" where
  "checked ob via i f h \<longleftrightarrow> cc_index f = i \<and>
     (cc_check_status f = ECheckOK \<longrightarrow> waived ob via i h \<or>
        tf_status f \<noteq> EStart \<and> (tf_sock f \<noteq> INVALID_SOCKET \<longrightarrow> approved via i (tf_sock f) h))"

lemma more_check_fields:
  "fsm_more f' = fsm_more f \<Longrightarrow> cc_index f' = cc_index f \<and> cc_check_status f' = cc_check_status (f :: 'x check_fsm)"
  by (cases f; cases f') simp

lemma waived_later: "waived ob via i h \<Longrightarrow> moments h \<subseteq> moments h' \<Longrightarrow> waived ob via i h'"
  by (auto simp: waived_def intro: moments_mono)

lemma approved_later: "approved via i s h \<Longrightarrow> moments h \<subseteq> moments h' \<Longrightarrow> approved via i s h'"
  unfolding approved_def by blast

lemma checked_later:
  "checked ob via i f h \<Longrightarrow> fsm_more f' = fsm_more f \<Longrightarrow> moments h \<subseteq> moments h'
    \<Longrightarrow> tf_sock f' = tf_sock f \<or> tf_sock f' = INVALID_SOCKET \<Longrightarrow> tf_status f' = EStart \<longrightarrow> tf_status f = EStart
    \<Longrightarrow> checked ob via i f' h'"
  using more_check_fields [of f' f] by (auto simp: checked_def intro: waived_later approved_later)

lemma checked_open:
  "checked ob via i f h \<Longrightarrow> fsm_more f' = fsm_more f \<Longrightarrow> moments h \<subseteq> moments h' \<Longrightarrow> tf_status f = EStart \<Longrightarrow> checked ob via i f' h'"
  using more_check_fields [of f' f] by (auto simp: checked_def intro: waived_later)

text \<open>The state after a callback that does not settle the check, and after one that does.\<close>

lemma checked_same:
  "checked ob via i f h \<Longrightarrow> same_conn f f' \<Longrightarrow> cc_index f' = cc_index f
    \<Longrightarrow> cc_check_status f' = ECheckOK \<longrightarrow> cc_check_status f = ECheckOK \<Longrightarrow> moments h \<subseteq> moments h' \<Longrightarrow> checked ob via i f' h'"
  by (auto simp: checked_def same_conn_def intro: waived_later approved_later)

lemma approved_now:
  "established s h \<Longrightarrow> approved via i s (Tick t # OnVerifyRecv i s d True # h)"
  "established s h \<Longrightarrow> approved True i s (Tick t # OnShouldVerify i False # h)"
  unfolding approved_def by (intro exI [of _ h], auto)+

definition step_ok :: "observer option \<Rightarrow> bool \<Rightarrow> nat \<Rightarrow> 'x check_fsm \<Rightarrow> log \<Rightarrow> 'x check_fsm \<Rightarrow> log \<Rightarrow> bool" where
  "step_ok ob via i f h f' h' \<longleftrightarrow> same_conn f f' \<and> quiet h h' \<and> checked ob via i f' h'"

lemmas observer_calls = should_verify_def verify_recv_def verify_send_def tell_def gettickcount_def

lemma step_okI:
  "checked ob via i f h \<Longrightarrow> same_conn f f' \<Longrightarrow> cc_index f' = cc_index f
    \<Longrightarrow> cc_check_status f' = ECheckOK \<longrightarrow> cc_check_status f = ECheckOK \<Longrightarrow> quiet h h' \<Longrightarrow> step_ok ob via i f h f' h'"
  by (simp add: step_ok_def checked_same [OF _ _ _ _ quiet_moments])

lemmas step_defs = step_ok_def same_conn_def checked_def approved_now

lemma check_OnCreate_ok: "checked ob via i f h \<Longrightarrow> io_post (check_OnCreate ob f) h (step_ok ob via i f h)"
  unfolding check_OnCreate_def observer_calls
  by (auto simp: io_wp same_conn_def intro!: step_okI quiet_Cons split: option.splits)

lemma check_OnConnect_ok: "checked ob via i f h \<Longrightarrow> io_post (check_OnConnect ob f) h (step_ok ob via i f h)"
  unfolding check_OnConnect_def observer_calls
  by (auto simp: io_wp same_conn_def intro!: step_okI quiet_Cons split: option.splits)

lemma check_OnConnected_ok: "checked ob via i f h \<Longrightarrow> io_post (check_OnConnected E ob rtt f) h (step_ok ob via i f h)"
  unfolding check_OnConnected_def observer_calls
  by (auto simp: io_wp same_conn_def Let_def intro!: step_okI quiet_Cons split: option.splits prod.splits)

lemma check_OnRecv_ok:
  assumes "checked ob via i f h" "conn_ok h f" "tf_status f = EReadWrite"
  shows "io_post (check_OnRecv E ob n f) h (step_ok ob via i f h)"
proof -
  have s: "established (tf_sock f) h" using assms(2,3) by (simp add: conn_ok_def)
  from assms show ?thesis
    unfolding check_OnRecv_def observer_calls
    by (auto simp: io_wp step_defs approved_now [OF s] intro!: quiet_Cons split: option.splits)
qed

lemma check_OnClose_ok: "checked ob via i f h \<Longrightarrow> io_post (check_OnClose E ob st e u f) h (step_ok ob via i f h)"
  unfolding check_OnClose_def observer_calls
  by (auto simp: io_wp same_conn_def Let_def intro!: step_okI quiet_Cons split: option.splits)

lemma check_return_ok: "checked ob via i f h \<Longrightarrow> io_post (io_return f) h (step_ok ob via i f h)"
  by (simp add: io_wp step_ok_def)

lemma check_timeouts_quiet:
  "io_post (check_ConnectTimeout E f) h (\<lambda>_ h'. quiet h h')" "io_post (check_ReadWriteTimeout E f) h (\<lambda>_ h'. quiet h h')"
  by (simp_all add: check_ConnectTimeout_def check_ReadWriteTimeout_def gettickcount_def io_wp quiet_Cons)

lemmas check_callbacks_ok = check_OnCreate_ok check_OnConnect_ok check_OnConnected_ok check_OnRecv_ok check_OnClose_ok check_return_ok

interpretation check: tcp_callbacks "check_class E ob" "checked ob via i" for E ob via i
  by (unfold_locales, erule (4) checked_later, erule (3) checked_open)
    (use check_callbacks_ok [unfolded step_ok_def] in \<open>simp_all add: check_class_def check_timeouts_quiet\<close>)

lemma observer_calls_return:
  "io_returns (should_verify ob i addr)" "io_returns (verify_recv ob i addr s b)" "io_returns (verify_send x i addr s b)"
  "io_returns (tell ob e)" "io_returns (gettickcount E)"
  unfolding observer_calls by (intro io_ret)+

lemma check_callbacks_return:
  "io_returns (check_OnCreate ob f)" "io_returns (check_OnConnect ob f)" "io_returns (check_OnConnected E ob n f)"
  "io_returns (check_OnRecv E ob n f)" "io_returns (check_OnClose E ob st n u f)"
  "io_returns (check_ConnectTimeout E f)" "io_returns (check_ReadWriteTimeout E f)"
  unfolding check_OnCreate_def check_OnConnect_def check_OnConnected_def check_OnRecv_def check_OnClose_def
    check_ConnectTimeout_def check_ReadWriteTimeout_def
  by (intro io_ret observer_calls_return)+

interpretation check: tcp_returning "check_class E ob" for E ob
  by unfold_locales (simp_all add: check_class_def check_callbacks_return io_ret)

end
