(* ===== verification/Conn_Proxy.thy ===== *)
theory Conn_Proxy
  imports Conn_Check
begin

text \<open>
  The two proxy connections of src/mars/comm/socket/complexconnect.cc: \<^verbatim>\<open>ConnectHttpTunelCheckFSM\<close> and
  \<^verbatim>\<open>ConnectSocks5CheckFSM\<close>. Both send a request whenever the socket is writable and \<^verbatim>\<open>request_send_\<close> is set
  (\<^verbatim>\<open>_OnRequestSend\<close>) and step on with what they receive (\<^verbatim>\<open>_OnRecv\<close>); \<^verbatim>\<open>check_status_\<close> is the state of the
  handshake.
\<close>

section \<open>ConnectHttpTunelCheckFSM\<close>

definition kStringProxyConnection :: string where "kStringProxyConnection = ''Proxy-Connection''"
definition kStringProxyAuthorization :: string where "kStringProxyAuthorization = ''Proxy-Authorization''"
definition KStringMicroMessenger :: string where "KStringMicroMessenger = ''MicroMessenger Client''"

text \<open>\<^verbatim>\<open>snprintf\<close> into a buffer of \<open>n\<close> bytes keeps at most \<open>n - 1\<close> characters.\<close>

definition snprintf :: "nat \<Rightarrow> string \<Rightarrow> string" where
  "snprintf n s = take (n - 1) s"

definition ip_port :: "socket_address \<Rightarrow> string" where
  "ip_port a = snprintf 64 (sa_ip a @ '':'' @ print_int (int (sa_port a)))"

definition basic_auth :: "string \<Rightarrow> string \<Rightarrow> string" where
  "basic_auth username pwd =
     (case EncodeBase64 (bytes_of (username @ '':'' @ pwd)) of
        (retsize, dst) \<Rightarrow> snprintf 1024 (''Basic '' @ chars (take (nat retsize) dst)))"

definition connect_request :: "socket_address \<Rightarrow> string \<Rightarrow> string \<Rightarrow> Builder" where
  "connect_request dest username pwd =
     (let b0 = Builder_new kRequest;
          b1 = b0\<lparr>bd_requestline := RequestLine_set_Version (RequestLine_set_Url (RequestLine_set_Method (bd_requestline b0) kConnect)
                 (ip_port dest)) kVersion_1_1\<rparr>;
          h1 = HeaderFiled (bd_headfields b1) KStringHost (ip_port dest);
          h2 = HeaderFiled h1 kStringProxyConnection ''keep-alive'';
          h3 = HeaderFiled h2 KStringUserAgent KStringMicroMessenger;
          h4 = (if username \<noteq> [] \<and> pwd \<noteq> [] then HeaderFiled h3 kStringProxyAuthorization (basic_auth username pwd) else h3)
      in b1\<lparr>bd_headfields := h4\<rparr>)"

definition tunnel_OnRequestSend :: "observer option \<Rightarrow> 'x ProxyCheckFSM_scheme \<Rightarrow> 'x ProxyCheckFSM_scheme io" where
  "tunnel_OnRequestSend ob f =
     (if cc_check_status f = EConnProxySucc then
        io_bind (io_lift (HeaderToBuffer (connect_request (px_destaddr f) (px_username f) (px_password f)) (tf_send_buf f))) (\<lambda>(_, b).
          io_return (f\<lparr>tf_send_buf := b, cc_check_status := EProxyHttpTunelConnSvrReq\<rparr>))
      else if cc_check_status f = EProxyConnSvrSucc then
        let f1 = f\<lparr>tf_send_buf := Length_set (tf_send_buf f) 0 0\<rparr> in
        case ob of
          None \<Rightarrow> io_lift (Inl Null_Deref)
        | Some x \<Rightarrow>
            io_bind (verify_send x (cc_index f1) (px_destaddr f1) (tf_sock f1) (tf_send_buf f1)) (\<lambda>(ok, b).
              let f2 = f1\<lparr>tf_send_buf := b\<rparr> in io_return (if ok then f2 else f2\<lparr>cc_check_status := ECheckFail\<rparr>))
      else io_return f)"

text \<open>\<^verbatim>\<open>http::Parser parser; parser.Recv(_recv_buff.Ptr(), _recv_buff.Length())\<close>\<close>

definition parse_response :: "bytes \<Rightarrow> Parser io" where
  "parse_response d =
     (\<lambda>h. case Recv (Parser_new (Some BodyReceiver_new) True) d of
        None \<Rightarrow> None | Some (Inl e) \<Rightarrow> Some (Inl e) | Some (Inr p) \<Rightarrow> Some (Inr (p, h)))"

definition tunnel_OnRecv :: "env \<Rightarrow> observer option \<Rightarrow> int \<Rightarrow> 'x ProxyCheckFSM_scheme \<Rightarrow> 'x ProxyCheckFSM_scheme io" where
  "tunnel_OnRecv E ob n f =
     (if cc_check_status f = ECheckOK then io_return f
      else if cc_check_status f = EProxyHttpTunelConnSvrReq then
        io_bind (io_lift (Ptr_bytes (tf_recv_buf f) 0 (Length (tf_recv_buf f)))) (\<lambda>d.
        io_bind (parse_response d) (\<lambda>p.
          if ps_recvstatus p \<noteq> kEnd then io_return f
          else if sl_statuscode (ps_statusline p) = 200 then
            io_bind (should_verify ob (cc_index f) (tf_addr f)) (\<lambda>v.
            io_bind (gettickcount E) (\<lambda>t.
              io_return (f\<lparr>cc_check_status := (if v then EProxyConnSvrSucc else ECheckOK), tf_request_send := True,
                cc_checkfintime := t, tf_recv_buf := Reset (tf_recv_buf f)\<rparr>)))
          else io_return (f\<lparr>cc_check_status := ECheckFail\<rparr>)))
      else if cc_check_status f = EProxyConnSvrSucc then
        io_bind (verify_recv ob (cc_index f) (px_destaddr f) (tf_sock f) (tf_recv_buf f)) (\<lambda>ok.
        io_bind (gettickcount E) (\<lambda>t.
          io_return (f\<lparr>cc_check_status := (if ok then ECheckOK else ECheckFail), cc_checkfintime := t\<rparr>)))
      else io_return f)"

definition tunnel_class :: "env \<Rightarrow> observer option \<Rightarrow> ('x ProxyCheckFSM_scheme) tcp_class" where
  "tunnel_class E ob = (check_class E ob)
     \<lparr>vt_OnConnected := proxy_OnConnected E ob, vt_OnRecv := tunnel_OnRecv E ob, vt_OnRequestSend := tunnel_OnRequestSend ob\<rparr>"

section \<open>ConnectSocks5CheckFSM\<close>

definition kSocks5Version :: byte where "kSocks5Version = 0x05"
definition kSocks5AuthVersion :: byte where "kSocks5AuthVersion = 0x01"
definition kSockstNAuthMethos :: byte where "kSockstNAuthMethos = 0x01"
definition kSocks5NoAuth :: byte where "kSocks5NoAuth = 0x00"
definition kSocks5UsrNamePwdAuth :: byte where "kSocks5UsrNamePwdAuth = 0x02"
definition kSocks5RespStatus :: byte where "kSocks5RespStatus = 0x00"
definition kSocks5ConnectCmd :: byte where "kSocks5ConnectCmd = 0x01"
definition kSocks5RsvVal :: byte where "kSocks5RsvVal = 0x00"
definition kSocksATYPIPv4 :: byte where "kSocksATYPIPv4 = 0x01"
definition kSocksATYPHost :: byte where "kSocksATYPHost = 0x03"
definition kSocksATYPIPv6 :: byte where "kSocksATYPIPv6 = 0x04"

text \<open>A sequence of writes to the send buffer after \<^verbatim>\<open>_send_buff.Length(0, 0)\<close>.\<close>

fun write_all :: "AutoBuffer \<Rightarrow> bytes list \<Rightarrow> AutoBuffer result" where
  "write_all b [] = Inr b"
| "write_all b (d # ds) = rbind (Write b d) (\<lambda>b'. write_all b' ds)"

text \<open>The two bytes of \<^verbatim>\<open>htons(port)\<close> and the four of \<^verbatim>\<open>inet_addr\<close>, in memory order.\<close>

definition htons_bytes :: "nat \<Rightarrow> bytes" where
  "htons_bytes port = [of_nat (port div 256), of_nat port]"

definition inet_addr_bytes :: "env \<Rightarrow> string \<Rightarrow> bytes" where
  "inet_addr_bytes E ip = (case env_inet_addr E ip of (a, b, c, d) \<Rightarrow> [a, b, c, d])"

definition socks5_OnRequestSend :: "env \<Rightarrow> observer option \<Rightarrow> 'x ProxyCheckFSM_scheme \<Rightarrow> 'x ProxyCheckFSM_scheme io" where
  "socks5_OnRequestSend E ob f =
     (let user = px_username f; pwd = px_password f; cleared = Length_set (tf_send_buf f) 0 0 in
      if cc_check_status f = EConnProxySucc then
        io_bind (io_lift (write_all cleared
            [[kSocks5Version, kSockstNAuthMethos, if user = [] \<or> pwd = [] then kSocks5NoAuth else kSocks5UsrNamePwdAuth]])) (\<lambda>b.
          io_return (f\<lparr>tf_send_buf := b, cc_check_status := EProxySocks5GreetReq\<rparr>))
      else if cc_check_status f = EProxySocks5GreetSucc then
        if user = [] \<or> pwd = [] \<or> 255 < length user \<or> 255 < length pwd then io_return (f\<lparr>cc_check_status := ECheckFail\<rparr>)
        else
          io_bind (io_lift (write_all cleared
              [[kSocks5AuthVersion], [of_nat (length user)], bytes_of user, [of_nat (length pwd)], bytes_of pwd])) (\<lambda>b.
            io_return (f\<lparr>tf_send_buf := b, cc_check_status := EProxySocks5AuthReq\<rparr>))
      else if cc_check_status f = EProxySocks5AuthSucc then
        io_bind (io_lift (write_all cleared
            [[kSocks5Version, kSocks5ConnectCmd, kSocks5RsvVal, kSocksATYPIPv4],
             inet_addr_bytes E (sa_ip (px_destaddr f)), htons_bytes (sa_port (px_destaddr f))])) (\<lambda>b.
          io_return (f\<lparr>tf_send_buf := b, cc_check_status := EProxySocks5ConnSvrReq\<rparr>))
      else if cc_check_status f = EProxyConnSvrSucc then
        case ob of
          None \<Rightarrow> io_return f
        | Some x \<Rightarrow>
            io_bind (verify_send x (cc_index f) (px_destaddr f) (tf_sock f) (tf_send_buf f)) (\<lambda>(ok, b).
              let f2 = f\<lparr>tf_send_buf := b\<rparr> in io_return (if ok then f2 else f2\<lparr>cc_check_status := ECheckFail\<rparr>))
      else io_return f)"

text \<open>The byte at an offset of the received data: \<^verbatim>\<open>((uint8_t*)_recv_buff.Ptr())[i]\<close>.\<close>

definition byte_at :: "AutoBuffer \<Rightarrow> nat \<Rightarrow> byte result" where
  "byte_at b i = rbind (Ptr_bytes b (int i) 1) (\<lambda>d. Inr (hd d))"

definition cleared_recv :: "'x ProxyCheckFSM_scheme \<Rightarrow> 'x ProxyCheckFSM_scheme" where
  "cleared_recv f = f\<lparr>tf_recv_buf := Length_set (tf_recv_buf f) 0 0\<rparr>"

text \<open>The answers to the greeting and to the user name (\<^verbatim>\<open>EProxySocks5GreetReq\<close>, \<^verbatim>\<open>EProxySocks5AuthReq\<close>).\<close>

definition socks5_greet_answer :: "'x ProxyCheckFSM_scheme \<Rightarrow> 'x ProxyCheckFSM_scheme result" where
  "socks5_greet_answer f =
     (let b = tf_recv_buf f in
      if Length b < 2 then Inr f
      else
        rbind (byte_at b 0) (\<lambda>ver. rbind (byte_at b 1) (\<lambda>method.
          if kSocks5Version \<noteq> ver then Inr (f\<lparr>cc_check_status := ECheckFail\<rparr>)
          else if kSocks5NoAuth = method then
            Inr (cleared_recv (f\<lparr>cc_check_status := EProxySocks5AuthSucc, tf_request_send := True\<rparr>))
          else if kSocks5UsrNamePwdAuth = method then
            Inr (cleared_recv (f\<lparr>cc_check_status := EProxySocks5GreetSucc, tf_request_send := True\<rparr>))
          else Inr (cleared_recv (f\<lparr>cc_check_status := ECheckFail\<rparr>)))))"

definition socks5_auth_answer :: "'x ProxyCheckFSM_scheme \<Rightarrow> 'x ProxyCheckFSM_scheme result" where
  "socks5_auth_answer f =
     (let b = tf_recv_buf f in
      if Length b < 2 then Inr f
      else
        rbind (byte_at b 0) (\<lambda>ver. rbind (byte_at b 1) (\<lambda>status.
          if kSocks5AuthVersion \<noteq> ver \<or> kSocks5RespStatus \<noteq> status then Inr (f\<lparr>cc_check_status := ECheckFail\<rparr>)
          else Inr (cleared_recv (f\<lparr>cc_check_status := EProxySocks5AuthSucc, tf_request_send := True\<rparr>)))))"

text \<open>The answer to the request: \<open>None\<close> while it is incomplete, otherwise whether the proxy has connected.\<close>

definition socks5_connect_answer :: "AutoBuffer \<Rightarrow> bool option result" where
  "socks5_connect_answer b =
     (if Length b < 4 then Inr None
      else
        rbind (byte_at b 3) (\<lambda>atyp.
          if kSocksATYPIPv4 = atyp \<and> Length b < 6 + 4 then Inr None
          else
            rbind (if kSocksATYPHost = atyp then rbind (byte_at b 4) (\<lambda>l. Inr (Length b < 6 + 1 + unat l)) else Inr False) (\<lambda>short.
              if short then Inr None
              else if kSocksATYPIPv6 = atyp \<and> Length b < 6 + 16 then Inr None
              else
                rbind (byte_at b 0) (\<lambda>ver. rbind (byte_at b 1) (\<lambda>status.
                  Inr (Some (kSocks5Version = ver \<and> kSocks5RespStatus = status)))))))"

definition socks5_OnRecv :: "env \<Rightarrow> observer option \<Rightarrow> int \<Rightarrow> 'x ProxyCheckFSM_scheme \<Rightarrow> 'x ProxyCheckFSM_scheme io" where
  "socks5_OnRecv E ob n f =
     (if cc_check_status f = ECheckOK then io_return f
      else if cc_check_status f = EProxySocks5GreetReq then io_lift (socks5_greet_answer f)
      else if cc_check_status f = EProxySocks5AuthReq then io_lift (socks5_auth_answer f)
      else if cc_check_status f = EProxySocks5ConnSvrReq then
        io_bind (io_lift (socks5_connect_answer (tf_recv_buf f))) (\<lambda>answer. case answer of
          None \<Rightarrow> io_return f
        | Some connected \<Rightarrow>
            if \<not> connected then io_return (f\<lparr>cc_check_status := ECheckFail\<rparr>)
            else
              io_bind (should_verify ob (cc_index f) (px_destaddr f)) (\<lambda>v.
              io_bind (gettickcount E) (\<lambda>t.
                io_return (cleared_recv (f\<lparr>cc_check_status := (if v then EProxyConnSvrSucc else ECheckOK),
                  cc_checkfintime := t, tf_request_send := True\<rparr>)))))
      else if cc_check_status f = EProxyConnSvrSucc then
        io_bind (verify_recv ob (cc_index f) (px_destaddr f) (tf_sock f) (tf_recv_buf f)) (\<lambda>ok.
        io_bind (gettickcount E) (\<lambda>t.
          io_return (f\<lparr>cc_check_status := (if ok then ECheckOK else ECheckFail), cc_checkfintime := t\<rparr>)))
      else io_return f)"

definition socks5_class :: "env \<Rightarrow> observer option \<Rightarrow> ('x ProxyCheckFSM_scheme) tcp_class" where
  "socks5_class E ob = (check_class E ob)
     \<lparr>vt_OnConnected := proxy_OnConnected E ob, vt_OnRecv := socks5_OnRecv E ob, vt_OnRequestSend := socks5_OnRequestSend E ob\<rparr>"

section \<open>The callbacks keep to the contract\<close>

lemma proxy_OnConnected_ok: "checked ob via i f h \<Longrightarrow> io_post (proxy_OnConnected E ob rtt f) h (step_ok ob via i f h)"
  unfolding proxy_OnConnected_def observer_calls
  by (auto simp: io_wp same_conn_def Let_def intro!: step_okI quiet_Cons split: option.splits)

lemma parse_response_post [io_wp]: "(\<And>p. Q p h) \<Longrightarrow> io_post (parse_response d) h Q"
  by (auto simp: io_post_def parse_response_def split: option.splits sum.splits)

lemma tunnel_OnRequestSend_ok: "checked ob via i f h \<Longrightarrow> io_post (tunnel_OnRequestSend ob f) h (step_ok ob via i f h)"
  unfolding tunnel_OnRequestSend_def observer_calls
  by (auto simp: io_wp same_conn_def Let_def intro!: step_okI quiet_Cons split: option.splits prod.splits)

text \<open>What a proxy connection does when it settles the check: the descriptor is up by then.\<close>

lemma tunnel_OnRecv_ok:
  assumes "checked ob True i f h" "conn_ok h f" "tf_status f = EReadWrite"
  shows "io_post (tunnel_OnRecv E ob n f) h (step_ok ob True i f h)"
proof -
  have s: "established (tf_sock f) h" using assms(2,3) by (simp add: conn_ok_def)
  from assms show ?thesis
    unfolding tunnel_OnRecv_def observer_calls
    by (auto simp: io_wp step_defs Let_def approved_now [OF s] waived_def intro!: quiet_Cons parse_response_post split: option.splits)
qed

lemma socks5_OnRequestSend_ok: "checked ob via i f h \<Longrightarrow> io_post (socks5_OnRequestSend E ob f) h (step_ok ob via i f h)"
  unfolding socks5_OnRequestSend_def observer_calls
  by (auto simp: io_wp same_conn_def Let_def simp del: write_all.simps intro!: step_okI quiet_Cons split: option.splits prod.splits)

definition answer_frame :: "'x ProxyCheckFSM_scheme \<Rightarrow> 'x ProxyCheckFSM_scheme \<Rightarrow> bool" where
  "answer_frame f f' \<longleftrightarrow> same_conn f f' \<and> cc_index f' = cc_index f
     \<and> (cc_check_status f' = cc_check_status f \<or> cc_check_status f' \<noteq> ECheckOK)"

lemma answer_frame_simps [simp]:
  "answer_frame f f" "answer_frame f (f\<lparr>cc_check_status := ECheckFail\<rparr>)"
  "answer_frame f (cleared_recv (f\<lparr>cc_check_status := EProxySocks5AuthSucc, tf_request_send := True\<rparr>))"
  "answer_frame f (cleared_recv (f\<lparr>cc_check_status := EProxySocks5GreetSucc, tf_request_send := True\<rparr>))"
  "answer_frame f (cleared_recv (f\<lparr>cc_check_status := ECheckFail\<rparr>))"
  by (simp_all add: answer_frame_def same_conn_def cleared_recv_def)

lemma rbind_InrD: "rbind r f = Inr y \<Longrightarrow> \<exists>x. f x = Inr y"
  by (cases r) auto

lemma socks5_greet_answer_frame: "socks5_greet_answer f = Inr f' \<Longrightarrow> answer_frame f f'"
  unfolding socks5_greet_answer_def Let_def
  by (auto dest!: rbind_InrD split: if_split_asm)

lemma socks5_auth_answer_frame: "socks5_auth_answer f = Inr f' \<Longrightarrow> answer_frame f f'"
  unfolding socks5_auth_answer_def Let_def
  by (auto dest!: rbind_InrD split: if_split_asm)

lemma answer_frame_step: "checked ob via i f h \<Longrightarrow> answer_frame f f' \<Longrightarrow> step_ok ob via i f h f' h"
  by (rule step_okI) (auto simp: answer_frame_def)

lemmas socks5_answers_ok = answer_frame_step [OF _ socks5_greet_answer_frame] answer_frame_step [OF _ socks5_auth_answer_frame]

lemma socks5_OnRecv_ok:
  assumes c: "checked ob True i f h" and "conn_ok h f" "tf_status f = EReadWrite"
  shows "io_post (socks5_OnRecv E ob n f) h (step_ok ob True i f h)"
proof -
  have s: "established (tf_sock f) h" using assms(2,3) by (simp add: conn_ok_def)
  note a = socks5_answers_ok [OF c]
  from assms show ?thesis
    unfolding socks5_OnRecv_def observer_calls
    by (simp add: io_wp a)
      (auto simp: io_wp step_defs cleared_recv_def approved_now [OF s] waived_def intro!: quiet_Cons split: option.splits)
qed

lemmas proxy_callbacks_ok = check_callbacks_ok proxy_OnConnected_ok tunnel_OnRequestSend_ok tunnel_OnRecv_ok
  socks5_OnRequestSend_ok socks5_OnRecv_ok

interpretation tunnel: tcp_callbacks "tunnel_class E ob" "checked ob True i" for E ob i
  by (unfold_locales, erule (4) checked_later, erule (3) checked_open)
    (use proxy_callbacks_ok [unfolded step_ok_def] in \<open>simp_all add: tunnel_class_def check_class_def check_timeouts_quiet\<close>)

interpretation socks5: tcp_callbacks "socks5_class E ob" "checked ob True i" for E ob i
  by (unfold_locales, erule (4) checked_later, erule (3) checked_open)
    (use proxy_callbacks_ok [unfolded step_ok_def] in \<open>simp_all add: socks5_class_def check_class_def check_timeouts_quiet\<close>)

lemma proxy_callbacks_return:
  "io_returns (proxy_OnConnected E ob n f)" "io_returns (socks5_OnRecv E ob n f)" "io_returns (socks5_OnRequestSend E ob f)"
  unfolding proxy_OnConnected_def socks5_OnRecv_def socks5_OnRequestSend_def
  by (intro io_ret observer_calls_return)+

interpretation socks5: tcp_returning "socks5_class E ob" for E ob
  by unfold_locales (simp_all add: socks5_class_def check_class_def check_callbacks_return proxy_callbacks_return io_ret)

end
