(* ===== verification/Complex_Connect.thy ===== *)
theory Complex_Connect
  imports Conn_Proxy
begin

text \<open>
  \<^verbatim>\<open>ComplexConnect\<close> of src/mars/comm/socket/complexconnect.h and complexconnect.cc: \<^verbatim>\<open>ConnectImpatient\<close> connects to a list of
  addresses, starting one connection after the other while fewer than \<^verbatim>\<open>max_connect_\<close> are under way, and returns the
  first socket that is connected and verified. The loop is a partial function: it runs until it finds a socket, has
  tried everything, or \<^verbatim>\<open>select\<close> reports an error or the breaker. The loops over the connections are recursions over
  their indices; \<open>vt\<close> and \<open>mk\<close> stand for the class that the type of the proxy selects.
\<close>

section \<open>The object\<close>

record ComplexConnect =
  cx_timeout :: nat
  cx_interval :: nat
  cx_error_interval :: nat
  cx_max_connect :: nat
  cx_trycount :: nat
  cx_index :: int
  cx_errcode :: int
  cx_index_conn_rtt :: int
  cx_index_conn_totalcost :: int
  cx_totalcost :: int

definition ComplexConnect_new4 :: "nat \<Rightarrow> nat \<Rightarrow> nat \<Rightarrow> nat \<Rightarrow> ComplexConnect" where
  "ComplexConnect_new4 timeout interval error_interval max_connect =
     \<lparr>cx_timeout = timeout, cx_interval = interval, cx_error_interval = error_interval, cx_max_connect = max_connect,
      cx_trycount = 0, cx_index = - 1, cx_errcode = 0, cx_index_conn_rtt = 0, cx_index_conn_totalcost = 0, cx_totalcost = 0\<rparr>"

definition ComplexConnect_new2 :: "nat \<Rightarrow> nat \<Rightarrow> ComplexConnect" where
  "ComplexConnect_new2 timeout interval = ComplexConnect_new4 timeout interval interval 3"

definition ConnectTime :: "ComplexConnect \<Rightarrow> nat \<Rightarrow> int" where
  "ConnectTime cc index = to_int (int (to_uint (int index * int (cx_interval cc))))"

definition ConnectTimeout_at :: "ComplexConnect \<Rightarrow> nat \<Rightarrow> int" where
  "ConnectTimeout_at cc index = to_int (int (to_uint (ConnectTime cc index + int (cx_timeout cc))))"

datatype ProxyType = kProxyNone | kProxyHttpTunel | kProxySocks5 | kProxyHttp

section \<open>The local state of ConnectImpatient\<close>

text \<open>The object itself, \<^verbatim>\<open>vecsocketfsm\<close>, \<^verbatim>\<open>laststart_connecttime\<close>, \<^verbatim>\<open>lasterror\<close>, \<^verbatim>\<open>index\<close> and \<^verbatim>\<open>retsocket\<close>.\<close>

record 'f impatient =
  im_cc :: ComplexConnect
  im_vec :: "'f option list"
  im_laststart :: nat
  im_lasterror :: int
  im_next :: nat
  im_retsocket :: socket

definition isconnecting :: "('x TcpClientFSM_scheme) option \<Rightarrow> bool" where
  "isconnecting x = (case x of None \<Rightarrow> False | Some f \<Rightarrow> tf_sock f \<noteq> INVALID_SOCKET)"

definition runing_count :: "('x TcpClientFSM_scheme) option list \<Rightarrow> nat" where
  "runing_count vec = length (filter isconnecting vec)"

fun new_all :: "(nat \<Rightarrow> 'f io) \<Rightarrow> nat list \<Rightarrow> 'f option list io" where
  "new_all mk [] = io_return []"
| "new_all mk (i # is) = io_bind (mk i) (\<lambda>f. io_bind (new_all mk is) (\<lambda>fs. io_return (Some f # fs)))"

text \<open>\<^verbatim>\<open>(int)(gettickcount() - starttime)\<close>\<close>

definition elapsed :: "nat \<Rightarrow> nat \<Rightarrow> int" where
  "elapsed now start = to_int (int (to_size (int now - int start)))"

section \<open>Starting the next connection\<close>

definition next_connect_timeout :: "nat \<Rightarrow> 'f impatient \<Rightarrow> int" where
  "next_connect_timeout cur st =
     to_int (int (to_size ((if im_lasterror st = 0 then int (cx_interval (im_cc st)) else int (cx_error_interval (im_cc st)))
                            - int (to_size (int cur - int (im_laststart st))))))"

text \<open>The two tests before the connections are prepared: the new state and the timeout.\<close>

definition schedule :: "env \<Rightarrow> nat \<Rightarrow> ('x TcpClientFSM_scheme) impatient \<Rightarrow> (('x TcpClientFSM_scheme) impatient \<times> int) io" where
  "schedule E cur st =
     (let cc = im_cc st; nct = next_connect_timeout cur st; timeout = to_int (int (cx_timeout cc));
          runing = runing_count (im_vec st);
          room = im_next st < length (im_vec st) \<and> runing < cx_max_connect cc;
          timeout1 = (if room \<and> 0 < nct then min timeout nct else timeout) in
      if room \<and> nct \<le> 0 then
        let timeout2 = (if runing + 1 < cx_max_connect cc then min timeout1 (to_int (int (cx_interval cc))) else timeout1) in
        io_bind (gettickcount E) (\<lambda>t.
          io_return (st\<lparr>im_laststart := t, im_lasterror := 0, im_cc := cc\<lparr>cx_trycount := im_next st + 1\<rparr>,
                        im_next := im_next st + 1\<rparr>, timeout2))
      else io_return (st, timeout1))"

section \<open>Before and after the select\<close>

fun pre_all ::
  "env \<Rightarrow> ('x TcpClientFSM_scheme) tcp_class \<Rightarrow> nat list \<Rightarrow> ('x TcpClientFSM_scheme) option list \<Rightarrow> SocketSelect \<Rightarrow> int
    \<Rightarrow> (('x TcpClientFSM_scheme) option list \<times> SocketSelect \<times> int) io" where
  "pre_all E vt [] vec sel timeout = io_return (vec, sel, timeout)"
| "pre_all E vt (i # is) vec sel timeout =
     (case vec ! i of
        None \<Rightarrow> pre_all E vt is vec sel timeout
      | Some f \<Rightarrow>
          io_bind (PreSelect E vt f sel) (\<lambda>(f1, sel1).
          io_bind (TcpClientFSM_Timeout vt f1) (\<lambda>t. pre_all E vt is (vec[i := Some f1]) sel1 (min timeout t))))"

definition do_select :: "env \<Rightarrow> SocketSelect \<Rightarrow> int \<Rightarrow> (SocketSelect \<times> int) io" where
  "do_select E sel timeout = (if INT_MAX = timeout then Select E sel else Select_msec E sel (max 0 timeout))"

text \<open>\<^verbatim>\<open>if (_observer) _observer->OnFinished(...)\<close>\<close>

definition finish_report :: "env \<Rightarrow> observer option \<Rightarrow> nat \<Rightarrow> nat \<Rightarrow> 'x check_fsm \<Rightarrow> unit io" where
  "finish_report E ob start i f =
     (case ob of
        None \<Rightarrow> io_return ()
      | Some _ \<Rightarrow> io_bind (gettickcount E) (\<lambda>t.
          io_log (OnFinished i (tf_sock f) (tf_error f) (Rtt f) (TotalRtt f) (elapsed t start))))"

text \<open>A connection that ended or was refused, and the one that succeeded.\<close>

definition drop_conn :: "env \<Rightarrow> observer option \<Rightarrow> ('x check_fsm) tcp_class \<Rightarrow> nat \<Rightarrow> nat \<Rightarrow> 'x check_fsm \<Rightarrow> unit io" where
  "drop_conn E ob vt start i f =
     io_then (finish_report E ob start i f) (io_bind (TcpClientFSM_Close vt True f) (TcpClientFSM_delete vt))"

definition take_conn ::
  "env \<Rightarrow> observer option \<Rightarrow> ('x check_fsm) tcp_class \<Rightarrow> nat \<Rightarrow> nat \<Rightarrow> 'x check_fsm \<Rightarrow> ('x check_fsm) impatient \<Rightarrow> ('x check_fsm) impatient io" where
  "take_conn E ob vt start i f st =
     io_then (finish_report E ob start i f)
       (let st1 = st\<lparr>im_retsocket := tf_sock f, im_cc := (im_cc st)\<lparr>cx_index := int i, cx_index_conn_rtt := Rtt f,
              cx_index_conn_totalcost := TotalRtt f\<rparr>, im_vec := (im_vec st)[i := None]\<rparr> in
        io_then (TcpClientFSM_delete vt (TcpClientFSM_set_Socket INVALID_SOCKET f)) (io_return st1))"

fun after_all ::
  "env \<Rightarrow> observer option \<Rightarrow> ('x check_fsm) tcp_class \<Rightarrow> nat \<Rightarrow> SocketSelect \<Rightarrow> nat list \<Rightarrow> ('x check_fsm) impatient
    \<Rightarrow> ('x check_fsm) impatient io" where
  "after_all E ob vt start sel [] st = io_return st"
| "after_all E ob vt start sel (i # is) st =
     (case im_vec st ! i of
        None \<Rightarrow> after_all E ob vt start sel is st
      | Some f \<Rightarrow>
          io_bind (AfterSelect E vt sel f) (\<lambda>f1.
            if tf_status f1 = EEnd \<or> tf_status f1 = EReadWrite \<and> cc_check_status f1 = ECheckFail then
              io_then (drop_conn E ob vt start i f1)
                (after_all E ob vt start sel is (st\<lparr>im_vec := (im_vec st)[i := None], im_lasterror := - 1\<rparr>))
            else if tf_status f1 = EReadWrite \<and> cc_check_status f1 = ECheckOK then take_conn E ob vt start i f1 st
            else after_all E ob vt start sel is (st\<lparr>im_vec := (im_vec st)[i := Some f1]\<rparr>)))"

section \<open>The loop\<close>

text \<open>The tests after the select and the pass over the connections; the flag says that the loop is left.\<close>

definition pass_selected ::
  "env \<Rightarrow> observer option \<Rightarrow> ('x check_fsm) tcp_class \<Rightarrow> nat \<Rightarrow> SocketSelect \<Rightarrow> int \<Rightarrow> ('x check_fsm) impatient
    \<Rightarrow> (bool \<times> ('x check_fsm) impatient) io" where
  "pass_selected E ob vt start sel ret st =
     (if ret < 0 then io_return (True, st)
      else
        io_bind (io_lift (IsException sel)) (\<lambda>ex.
        if ex then io_return (True, st)
        else
          io_bind (io_lift (IsBreak sel)) (\<lambda>br.
          if br then io_return (True, st)
          else
            io_bind (after_all E ob vt start sel [0..<im_next st] st) (\<lambda>st1.
              io_return ((\<forall>x\<in>set (im_vec st1). x = None) \<or> im_retsocket st1 \<noteq> INVALID_SOCKET, st1)))))"

text \<open>One pass: the connections that were started are prepared, waited for and served.\<close>

definition pass_scheduled ::
  "env \<Rightarrow> observer option \<Rightarrow> ('x check_fsm) tcp_class \<Rightarrow> nat \<Rightarrow> SocketSelect \<Rightarrow> ('x check_fsm) impatient \<Rightarrow> int
    \<Rightarrow> (bool \<times> ('x check_fsm) impatient) io" where
  "pass_scheduled E ob vt start sel st timeout =
     io_bind (pre_all E vt [0..<im_next st] (im_vec st) sel timeout) (\<lambda>(vec, sel1, timeout1).
     io_bind (do_select E sel1 timeout1) (\<lambda>(sel2, ret).
       pass_selected E ob vt start sel2 ret (st\<lparr>im_vec := vec\<rparr>)))"

definition impatient_pass ::
  "env \<Rightarrow> observer option \<Rightarrow> ('x check_fsm) tcp_class \<Rightarrow> SocketBreaker \<Rightarrow> nat \<Rightarrow> ('x check_fsm) impatient
    \<Rightarrow> (bool \<times> ('x check_fsm) impatient) io" where
  "impatient_pass E ob vt brk start st =
     io_bind (gettickcount E) (\<lambda>cur.
     io_bind (io_lift (PreSelect_clear (SocketSelect_new brk False))) (\<lambda>sel.
     io_bind (schedule E cur st) (\<lambda>(st1, timeout). pass_scheduled E ob vt start sel st1 timeout)))"

text \<open>Closing what is left, and the whole function for one class of connections.\<close>

fun close_all :: "('x TcpClientFSM_scheme) tcp_class \<Rightarrow> ('x TcpClientFSM_scheme) option list \<Rightarrow> unit io" where
  "close_all vt [] = io_return ()"
| "close_all vt (x # xs) =
     (case x of
        None \<Rightarrow> close_all vt xs
      | Some f \<Rightarrow> io_then (io_bind (TcpClientFSM_Close vt False f) (TcpClientFSM_delete vt)) (close_all vt xs))"

definition reset_cc :: "ComplexConnect \<Rightarrow> ComplexConnect" where
  "reset_cc cc = cc\<lparr>cx_trycount := 0, cx_index := - 1, cx_errcode := 0, cx_index_conn_rtt := 0,
     cx_index_conn_totalcost := 0, cx_totalcost := 0\<rparr>"

text \<open>From the first reading of \<^verbatim>\<open>curtime\<close> on, with the connections in \<open>vec\<close>.\<close>

definition impatient_started ::
  "env \<Rightarrow> observer option \<Rightarrow> ('x check_fsm) tcp_class \<Rightarrow> SocketBreaker \<Rightarrow> ComplexConnect \<Rightarrow> nat
    \<Rightarrow> ('x check_fsm) option list \<Rightarrow> (ComplexConnect \<times> socket) io" where
  "impatient_started E ob vt brk cc start vec =
     io_bind (gettickcount E) (\<lambda>cur.
     let cc0 = reset_cc cc;
         st = \<lparr>im_cc = cc0, im_vec = vec,
               im_laststart = to_size (int cur - int (max (cx_interval cc0) (cx_error_interval cc0))),
               im_lasterror = 0, im_next = 0, im_retsocket = INVALID_SOCKET\<rparr> in
     io_bind (io_loop (impatient_pass E ob vt brk start) st) (\<lambda>st1.
     io_then (close_all vt (im_vec st1))
       (io_bind (gettickcount E) (\<lambda>t.
          io_return ((im_cc st1)\<lparr>cx_totalcost := elapsed t start\<rparr>, im_retsocket st1)))))"

definition impatient_run ::
  "env \<Rightarrow> observer option \<Rightarrow> ('x check_fsm) tcp_class \<Rightarrow> (nat \<Rightarrow> 'x check_fsm io) \<Rightarrow> nat \<Rightarrow> SocketBreaker
    \<Rightarrow> ComplexConnect \<Rightarrow> (ComplexConnect \<times> socket) io" where
  "impatient_run E ob vt mk n brk cc =
     (if n = 0 then io_return (reset_cc cc, INVALID_SOCKET)
      else
        io_bind (gettickcount E) (\<lambda>start.
        io_bind (new_all mk [0..<n]) (\<lambda>vec. impatient_started E ob vt brk cc start vec)))"

definition ConnectImpatient ::
  "env \<Rightarrow> observer option \<Rightarrow> socket_address list \<Rightarrow> SocketBreaker \<Rightarrow> ProxyType \<Rightarrow> socket_address option
    \<Rightarrow> string \<Rightarrow> string \<Rightarrow> ComplexConnect \<Rightarrow> (ComplexConnect \<times> socket) io" where
  "ConnectImpatient E ob vecaddr brk proxy_type proxy_addr username pwd cc =
     (let n = length vecaddr;
          via = (\<lambda>i. io_bind (io_lift (case proxy_addr of None \<Rightarrow> Inl Null_Deref | Some a \<Rightarrow> Inr a)) (\<lambda>a.
                  ProxyCheckFSM_new ob (vecaddr ! i) a username pwd (cx_timeout cc) i)) in
      case proxy_type of
        kProxyHttpTunel \<Rightarrow> impatient_run E ob (tunnel_class E ob) via n brk cc
      | kProxySocks5 \<Rightarrow> impatient_run E ob (socks5_class E ob) via n brk cc
      | _ \<Rightarrow> impatient_run E ob (check_class E ob)
               (\<lambda>i. ConnectCheckFSM_new ob (vecaddr ! i) (cx_timeout cc) i) n brk cc)"

end
