(* ===== verification/Complex_Inv.thy ===== *)
theory Complex_Inv
  imports Complex_Connect
begin

text \<open>
  The descriptors of \<^verbatim>\<open>ConnectImpatient\<close>: an account of what the connections hold is kept through every step of the
  loop, for every class of connections whose callbacks keep to the contract \<open>tcp_callbacks\<close>. The locale \<open>impatient_class\<close>
  states what the loop needs of the class and of its constructor; the three classes of the code are interpretations.
\<close>

section \<open>The descriptors of the connections\<close>

fun holds :: "('x TcpClientFSM_scheme) option list \<Rightarrow> socket multiset" where
  "holds [] = {#}"
| "holds (x # xs) = (case x of None \<Rightarrow> {#} | Some f \<Rightarrow> held f) + holds xs"

lemma holds_split:
  "i < length vec \<Longrightarrow> vec ! i = Some f \<Longrightarrow> holds vec = held f + holds (vec[i := None])"
proof (induction vec arbitrary: i)
  case (Cons x xs)
  then show ?case by (cases i) (auto simp: ac_simps)
qed simp

lemma holds_put:
  "i < length vec \<Longrightarrow> holds (vec[i := Some f]) = held f + holds (vec[i := None])"
proof (induction vec arbitrary: i)
  case (Cons x xs)
  then show ?case by (cases i) (auto simp: ac_simps)
qed simp

lemma size_held_le: "size (held f) \<le> 1"
  by (simp add: held_def)

lemma runing_count_holds: "runing_count vec = size (holds vec)"
  by (induction vec) (auto simp: runing_count_def isconnecting_def held_def split: option.splits)

lemma holds_None: "\<forall>x\<in>set vec. x = None \<Longrightarrow> holds vec = {#}"
  by (induction vec) auto

text \<open>The account of all connections; \<open>S\<close> is the descriptor that was taken out to be returned, if any.\<close>

definition books :: "nat \<Rightarrow> socket multiset \<Rightarrow> log \<Rightarrow> ('x TcpClientFSM_scheme) option list \<Rightarrow> bool" where
  "books n S h vec \<longleftrightarrow> opened h = closed h + holds vec + S \<and> peak n h \<and> size (holds vec) + size S \<le> n"

lemma books_acct:
  "i < length vec \<Longrightarrow> vec ! i = Some f \<Longrightarrow> books n S h vec \<Longrightarrow> acct n (holds (vec[i := None]) + S) h f"
  by (simp add: books_def acct_def holds_split ac_simps)

lemma acct_books:
  "i < length vec \<Longrightarrow> acct n (holds (vec[i := None]) + S) h f \<Longrightarrow> books n S h (vec[i := Some f])"
  by (simp add: books_def acct_def holds_put ac_simps)

lemma books_quiet: "books n S h vec \<Longrightarrow> quiet h h' \<Longrightarrow> books n S h' vec"
  by (auto simp: books_def quiet_fds intro: quiet_peak)

lemma update_NoneD: "vec[i := None] ! j = Some f \<Longrightarrow> j < length vec \<Longrightarrow> j \<noteq> i \<and> vec ! j = Some f"
  by (cases "i = j") auto

lemma update_SomeD: "vec[i := Some g] ! j = Some f \<Longrightarrow> j < length vec \<Longrightarrow> j = i \<and> f = g \<or> j \<noteq> i \<and> vec ! j = Some f"
  by (cases "i = j") auto

lemma do_select_quiet: "io_post (do_select E sel timeout) h (\<lambda>_ h'. quiet h h')"
  by (simp add: do_select_def Select_def Select_msec_def Poll_quiet)

section \<open>The loop over one class of connections\<close>

locale impatient_class =
  fixes ob :: "observer option" and via :: bool and vt :: "('x check_fsm) tcp_class" and mk :: "nat \<Rightarrow> 'x check_fsm io"
  assumes callbacks: "tcp_callbacks vt (checked ob via i)"
    and fresh: "io_post (mk i) h (\<lambda>f h'. quiet h h' \<and> checked ob via i f h' \<and> conn_ok h' f \<and> tf_status f = EStart)"
begin

text \<open>Every connection is consistent and the number \<open>i\<close> has the index \<open>i\<close>.\<close>

definition conns_ok :: "log \<Rightarrow> ('x check_fsm) option list \<Rightarrow> bool" where
  "conns_ok h vec \<longleftrightarrow> (\<forall>i f. i < length vec \<longrightarrow> vec ! i = Some f \<longrightarrow> conn_ok h f \<and> checked ob via i f h)"

definition started :: "('x check_fsm) option list \<Rightarrow> nat \<Rightarrow> bool" where
  "started vec k \<longleftrightarrow> (\<forall>i f. i < k \<longrightarrow> i < length vec \<longrightarrow> vec ! i = Some f \<longrightarrow> tf_status f \<noteq> EStart)"

definition unstarted :: "('x check_fsm) option list \<Rightarrow> nat \<Rightarrow> bool" where
  "unstarted vec k \<longleftrightarrow> (\<forall>i f. k \<le> i \<longrightarrow> i < length vec \<longrightarrow> vec ! i = Some f \<longrightarrow> tf_status f = EStart)"

abbreviation inv_at :: "nat \<Rightarrow> nat \<Rightarrow> socket multiset \<Rightarrow> log \<Rightarrow> 'x check_fsm \<Rightarrow> bool" where
  "inv_at i \<equiv> tcp_callbacks.fsm_inv (checked ob via i)"

lemmas inv_at_def = tcp_callbacks.fsm_inv_def [OF callbacks]

lemma conns_ok_later: "conns_ok h vec \<Longrightarrow> moments h \<subseteq> moments h' \<Longrightarrow> conns_ok h' vec"
  by (auto simp: conns_ok_def intro: conn_ok_later [OF _ _ same_conn_refl] checked_later)

lemma conns_ok_put:
  "conns_ok h vec \<Longrightarrow> moments h \<subseteq> moments h' \<Longrightarrow> conn_ok h' f \<Longrightarrow> checked ob via i f h' \<Longrightarrow> conns_ok h' (vec[i := Some f])"
  using conns_ok_later [of h vec h'] by (auto simp: conns_ok_def dest!: update_SomeD)

lemma conns_ok_drop: "conns_ok h vec \<Longrightarrow> moments h \<subseteq> moments h' \<Longrightarrow> conns_ok h' (vec[i := None])"
  using conns_ok_later [of h vec h'] by (auto simp: conns_ok_def dest!: update_NoneD)

lemma started_put: "started vec k \<Longrightarrow> tf_status f \<noteq> EStart \<Longrightarrow> started (vec[i := Some f]) k"
  by (auto simp: started_def dest!: update_SomeD)

lemma started_drop: "started vec k \<Longrightarrow> started (vec[i := None]) k"
  by (auto simp: started_def dest!: update_NoneD)

lemma unstarted_update: "unstarted vec k \<Longrightarrow> i < k \<Longrightarrow> unstarted (vec[i := x]) k"
  by (auto simp: unstarted_def nth_list_update)

lemma enter:
  assumes "i < length vec" "vec ! i = Some f" "books n S h vec" "conns_ok h vec"
  shows "inv_at i n (holds (vec[i := None]) + S) h f" "conn_ok h f"
  using assms books_acct [OF assms(1-3)] by (auto simp: inv_at_def conns_ok_def)

text \<open>Before the select only the last of the connections may be new.\<close>

definition ready :: "nat \<Rightarrow> nat \<Rightarrow> nat \<Rightarrow> ('x check_fsm) option list \<Rightarrow> bool" where
  "ready n k m vec \<longleftrightarrow> (\<forall>i f. i < m \<longrightarrow> i < length vec \<longrightarrow> vec ! i = Some f \<longrightarrow> tf_status f = EStart \<longrightarrow>
     Suc i = m \<and> k \<le> i \<and> size (holds vec) < n)"

lemma PreSelect_started:
  "tf_status f \<noteq> EStart \<Longrightarrow> io_post (PreSelect E vt f sel) h (\<lambda>(f', _) h'. f' = f \<and> h' = h)"
  by (cases "tf_status f") (simp_all add: PreSelect_def io_wp)

lemma Timeout_quiet: "io_post (TcpClientFSM_Timeout vt f) h (\<lambda>_ h'. quiet h h')"
  using tcp_callbacks.ConnectTimeout [OF callbacks] tcp_callbacks.ReadWriteTimeout [OF callbacks]
  by (simp add: TcpClientFSM_Timeout_def io_wp split: TSocketStatus.split)

lemmas goes_on_def' = tcp_callbacks.goes_on_def [OF callbacks]

text \<open>A connection goes back into the vector.\<close>

lemma put_back:
  assumes "i < length vec" "conns_ok h vec" "inv_at i n (holds (vec[i := None]) + S) h' f" "conn_ok h' f" "moments h \<subseteq> moments h'"
  shows "books n S h' (vec[i := Some f])" "conns_ok h' (vec[i := Some f])"
  using assms by (auto simp: inv_at_def intro: acct_books conns_ok_put)

lemma pre_all_inv:
  assumes "books n {#} h vec" "conns_ok h vec" "ready n k m vec" "started vec k" "unstarted vec m" "k \<le> m" "m \<le> length vec"
  shows "io_post (pre_all E vt [k..<m] vec sel t) h (\<lambda>(vec', _) h'. books n {#} h' vec' \<and> conns_ok h' vec' \<and> started vec' m
    \<and> unstarted vec' m \<and> length vec' = length vec \<and> moments h \<subseteq> moments h')"
  using assms
proof (induction "m - k" arbitrary: k h vec sel t)
  case 0
  then show ?case by (simp add: io_wp)
next
  case (Suc d)
  then have k: "k < m" "[k..<m] = k # [Suc k..<m]" "d = m - Suc k" "Suc k \<le> m" "k < length vec" by (auto simp: upt_conv_Cons)
  show ?case
  proof (cases "vec ! k")
    case None
    have "started vec (Suc k)" using Suc.prems(4) None by (auto simp: started_def less_Suc_eq)
    moreover have "ready n (Suc k) m vec" unfolding ready_def
    proof (intro allI impI)
      fix i f
      assume i: "i < m" "i < length vec" "vec ! i = Some f" "tf_status f = EStart"
      with None have "i \<noteq> k" by auto
      with i Suc.prems(3) show "Suc i = m \<and> Suc k \<le> i \<and> size (holds vec) < n"
        by (fastforce simp: ready_def)
    qed
    ultimately show ?thesis using Suc.hyps(1) [OF k(3) Suc.prems(1,2) _ _ Suc.prems(5) k(4) Suc.prems(7)] None by (simp add: k(2))
  next
    case (Some f)
    note f = enter [OF k(5) Some Suc.prems(1,2)]
    let ?R = "holds (vec[k := None]) + {#}"
    have new: "tf_status f = EStart \<Longrightarrow> size ?R < n \<and> Suc k = m"
      using Suc.prems(3) k(1,5) Some holds_split [OF k(5) Some] by (fastforce simp: ready_def)
    have step: "io_post (PreSelect E vt f sel) h (\<lambda>(f', _) h'. inv_at k n ?R h' f' \<and> conn_ok h' f' \<and> moments h \<subseteq> moments h'
        \<and> tf_status f' \<noteq> EStart)"
      by (rule io_post_mono [OF tcp_callbacks.PreSelect_inv [OF callbacks f]]) (use new in \<open>auto simp: goes_on_def'\<close>)
    have rest: "io_post (io_bind (TcpClientFSM_Timeout vt f1) (\<lambda>t'. pre_all E vt [Suc k..<m] (vec[k := Some f1]) sel1 (min t t'))) h1
        (\<lambda>(vec', _) h'. books n {#} h' vec' \<and> conns_ok h' vec' \<and> started vec' m \<and> unstarted vec' m \<and> length vec' = length vec \<and> moments h \<subseteq> moments h')"
      if f1: "inv_at k n ?R h1 f1" "conn_ok h1 f1" "moments h \<subseteq> moments h1" "tf_status f1 \<noteq> EStart" "tf_status f \<noteq> EStart \<Longrightarrow> f1 = f" for f1 sel1 h1
      unfolding io_post_bind
    proof (rule io_post_mono [OF Timeout_quiet])
      fix t' h2
      assume q: "quiet h1 h2"
      let ?v = "vec[k := Some f1]"
      have v: "books n {#} h1 ?v" "conns_ok h1 ?v" using put_back [OF k(5) Suc.prems(2) f1(1-3)] by auto
      have "started ?v (Suc k)"
        using Suc.prems(4) f1(4) k(5) by (auto simp: started_def less_Suc_eq dest!: update_SomeD)
      moreover have "ready n (Suc k) m ?v"
      proof (cases "tf_status f = EStart")
        case True
        then show ?thesis using new f1(4) Suc.prems(3) k(5)
          by (auto simp: ready_def less_Suc_eq dest!: update_SomeD)
      next
        case False
        then have "?v = vec" using f1(5) Some k(5) by (metis list_update_id)
        with False Some Suc.prems(3) show ?thesis
          by (auto simp: ready_def) (metis Suc_leI le_neq_implies_less option.inject)
      qed
      moreover have "unstarted ?v m" using Suc.prems(5) k(1) by (rule unstarted_update)
      ultimately show "io_post (pre_all E vt [Suc k..<m] ?v sel1 (min t t')) h2
        (\<lambda>(vec', _) h'. books n {#} h' vec' \<and> conns_ok h' vec' \<and> started vec' m \<and> unstarted vec' m \<and> length vec' = length vec \<and> moments h \<subseteq> moments h')"
        using Suc.hyps(1) [OF k(3) books_quiet [OF v(1) q] conns_ok_later [OF v(2) quiet_moments [OF q]] _ _ _ k(4), of sel1 "min t t'"]
          Suc.prems(7) f1(3) quiet_moments [OF q] by (auto elim!: io_post_mono)
    qed
    have same: "io_post (PreSelect E vt f sel) h (\<lambda>(f', _) h'. tf_status f \<noteq> EStart \<longrightarrow> f' = f)"
      using PreSelect_started [of f E sel h] by (auto simp: io_post_def)
    have both: "io_post (PreSelect E vt f sel) h (\<lambda>(f', _) h'. (inv_at k n ?R h' f' \<and> conn_ok h' f' \<and> moments h \<subseteq> moments h'
        \<and> tf_status f' \<noteq> EStart) \<and> (tf_status f \<noteq> EStart \<longrightarrow> f' = f))"
      using step same by (auto simp: io_post_def)
    show ?thesis
      unfolding k(2) pre_all.simps Some option.case io_post_bind
      by (rule io_post_mono [OF both]) (use rest in \<open>auto simp: io_post_bind\<close>)
  qed
qed

section \<open>After the select\<close>

lemma Close_then_delete:
  assumes "inv_at i n R h f"
  shows "io_post (io_bind (TcpClientFSM_Close vt notify f) (TcpClientFSM_delete vt)) h
    (\<lambda>_ h'. opened h' = closed h' + R \<and> peak n h' \<and> size R \<le> n \<and> moments h \<subseteq> moments h')"
  unfolding io_post_bind
  by (rule io_post_mono [OF tcp_callbacks.Close_inv [OF callbacks assms]])
    (auto elim!: io_post_mono [OF tcp_callbacks.delete_inv [OF callbacks]])

lemma finish_report_quiet: "io_post (finish_report E ob start i f) h (\<lambda>_ h'. quiet h h')"
  by (simp add: finish_report_def gettickcount_def io_wp quiet_Cons)

lemma inv_at_quiet: "inv_at i n R h f \<Longrightarrow> quiet h h' \<Longrightarrow> inv_at i n R h' f"
  by (auto simp: inv_at_def intro: acct_quiet checked_later [OF _ refl quiet_moments])

lemma drop_conn_inv:
  assumes "inv_at i n R h f"
  shows "io_post (drop_conn E ob vt start i f) h
    (\<lambda>_ h'. opened h' = closed h' + R \<and> peak n h' \<and> size R \<le> n \<and> moments h \<subseteq> moments h')"
  unfolding drop_conn_def io_post_then
proof (rule io_post_mono [OF finish_report_quiet])
  fix x h1
  assume q: "quiet h h1"
  show "io_post (io_bind (TcpClientFSM_Close vt True f) (TcpClientFSM_delete vt)) h1
      (\<lambda>_ h'. opened h' = closed h' + R \<and> peak n h' \<and> size R \<le> n \<and> moments h \<subseteq> moments h')"
    by (rule io_post_mono [OF Close_then_delete [OF inv_at_quiet [OF assms q]]]) (use quiet_moments [OF q] in auto)
qed

text \<open>The postcondition of the pass over the connections.\<close>

definition settled :: "nat \<Rightarrow> ('x check_fsm) impatient \<Rightarrow> log \<Rightarrow> bool" where
  "settled n st h \<longleftrightarrow>
     cx_max_connect (im_cc st) = n
   \<and> books n (if im_retsocket st = INVALID_SOCKET then {#} else {#im_retsocket st#}) h (im_vec st)
   \<and> conns_ok h (im_vec st) \<and> started (im_vec st) (im_next st) \<and> unstarted (im_vec st) (im_next st)
   \<and> im_next st \<le> length (im_vec st)
   \<and> (im_retsocket st = INVALID_SOCKET \<longrightarrow> cx_index (im_cc st) = - 1)
   \<and> (im_retsocket st \<noteq> INVALID_SOCKET \<longrightarrow>
        (\<exists>i<length (im_vec st). cx_index (im_cc st) = int i \<and> established (im_retsocket st) h
          \<and> (waived ob via i h \<or> approved via i (im_retsocket st) h)))"

lemma take_conn_inv:
  assumes st: "settled n st h0" "im_retsocket st = INVALID_SOCKET" "i < length (im_vec st)" "moments h0 \<subseteq> moments h" "i < im_next st"
    and f: "inv_at i n (holds ((im_vec st)[i := None])) h f" "conn_ok h f" "tf_status f = EReadWrite" "cc_check_status f = ECheckOK"
  shows "io_post (take_conn E ob vt start i f st) h
    (\<lambda>st' h'. settled n st' h' \<and> im_next st' = im_next st \<and> length (im_vec st') = length (im_vec st)
      \<and> im_retsocket st' \<noteq> INVALID_SOCKET)"
proof -
  have s: "tf_sock f \<noteq> INVALID_SOCKET" "established (tf_sock f) h" using f(2,3) by (auto simp: conn_ok_def)
  let ?v = "(im_vec st)[i := None]"
  have noclose: "TcpClientFSM_delete vt (TcpClientFSM_set_Socket INVALID_SOCKET f) = io_return ()"
    by (simp add: TcpClientFSM_delete_def TcpClientFSM_Close_def TcpClientFSM_set_Socket_def io_bind_def io_return_def)
  show ?thesis
    unfolding take_conn_def io_post_then
  proof (rule io_post_mono [OF finish_report_quiet], simp add: noclose io_wp Let_def)
    fix h1
    assume q: "quiet h h1"
    have sub: "moments h0 \<subseteq> moments h1" "moments h \<subseteq> moments h1" using st(4) quiet_moments [OF q] by auto
    from inv_at_quiet [OF f(1) q] have "books n {#tf_sock f#} h1 ?v" "checked ob via i f h1"
      using s(1) by (auto simp: inv_at_def acct_def books_def held_def)
    moreover from this(2) have "waived ob via i h1 \<or> approved via i (tf_sock f) h1" using f(4) s(1) by (auto simp: checked_def)
    moreover have "established (tf_sock f) h1" using s(2) sub(2) by (rule established_later)
    moreover have "conns_ok h1 ?v" "started ?v (im_next st)" "unstarted ?v (im_next st)"
      using st sub by (auto simp: settled_def intro: conns_ok_drop started_drop unstarted_update)
    ultimately show "settled n (st\<lparr>im_retsocket := tf_sock f, im_cc := (im_cc st)\<lparr>cx_index := int i, cx_index_conn_rtt := Rtt f,
         cx_index_conn_totalcost := TotalRtt f\<rparr>, im_vec := ?v\<rparr>) h1 \<and> tf_sock f \<noteq> INVALID_SOCKET"
      using st(1,3) s(1) by (auto simp: settled_def)
  qed
qed

lemma settled_put:
  assumes "settled n st h" "im_retsocket st = INVALID_SOCKET" "i < length (im_vec st)" "moments h \<subseteq> moments h'" "i < im_next st"
    and "inv_at i n (holds ((im_vec st)[i := None])) h' f" "conn_ok h' f" "tf_status f \<noteq> EStart"
  shows "settled n (st\<lparr>im_vec := (im_vec st)[i := Some f]\<rparr>) h'"
  using assms put_back [of i "im_vec st" h n "{#}" h' f]
  by (auto simp: settled_def intro: started_put unstarted_update)

lemma settled_drop:
  assumes "settled n st h" "im_retsocket st = INVALID_SOCKET" "i < length (im_vec st)" "moments h \<subseteq> moments h'" "i < im_next st"
    and "opened h' = closed h' + holds ((im_vec st)[i := None])" "peak n h'" "size (holds ((im_vec st)[i := None])) \<le> n"
  shows "settled n (st\<lparr>im_vec := (im_vec st)[i := None], im_lasterror := - 1\<rparr>) h'"
  using assms by (auto simp: settled_def books_def intro: conns_ok_drop started_drop unstarted_update)

lemma after_all_inv:
  assumes "settled n st h" "im_retsocket st = INVALID_SOCKET" "\<forall>i\<in>set is. i < im_next st"
  shows "io_post (after_all E ob vt start sel is st) h
    (\<lambda>st' h'. settled n st' h' \<and> im_next st' = im_next st \<and> length (im_vec st') = length (im_vec st))"
  using assms
proof (induction "is" arbitrary: st h)
  case Nil
  then show ?case by (simp add: io_wp)
next
  case (Cons i js)
  have i: "i < length (im_vec st)" "i < im_next st" using Cons.prems by (auto simp: settled_def)
  show ?case
  proof (cases "im_vec st ! i")
    case None
    with Cons show ?thesis by simp
  next
    case (Some f)
    let ?R = "holds ((im_vec st)[i := None])"
    have "books n {#} h (im_vec st)" "conns_ok h (im_vec st)" using Cons.prems by (auto simp: settled_def)
    note f = enter [OF i(1) Some this, simplified]
    have nst: "tf_status f \<noteq> EStart" using Cons.prems(1) Some i by (auto simp: settled_def started_def)
    have drop: "io_post (io_then (drop_conn E ob vt start i f1)
        (after_all E ob vt start sel js (st\<lparr>im_vec := (im_vec st)[i := None], im_lasterror := - 1\<rparr>))) h1
      (\<lambda>st' h'. settled n st' h' \<and> im_next st' = im_next st \<and> length (im_vec st') = length (im_vec st))"
      if "inv_at i n ?R h1 f1" "moments h \<subseteq> moments h1" for f1 h1
      unfolding io_post_then
    proof (rule io_post_mono [OF drop_conn_inv [OF that(1)]], elim conjE)
      fix h2
      assume h2: "opened h2 = closed h2 + ?R" "peak n h2" "size ?R \<le> n" "moments h1 \<subseteq> moments h2"
      have "settled n (st\<lparr>im_vec := (im_vec st)[i := None], im_lasterror := - 1\<rparr>) h2"
        using settled_drop [OF Cons.prems(1,2) i(1) _ i(2) h2(1-3)] that(2) h2(4) by auto
      from Cons.IH [OF this] Cons.prems(2,3)
      show "io_post (after_all E ob vt start sel js (st\<lparr>im_vec := (im_vec st)[i := None], im_lasterror := - 1\<rparr>)) h2
        (\<lambda>st' h'. settled n st' h' \<and> im_next st' = im_next st \<and> length (im_vec st') = length (im_vec st))" by simp
    qed
    have go_on: "io_post (after_all E ob vt start sel js (st\<lparr>im_vec := (im_vec st)[i := Some f1]\<rparr>)) h1
      (\<lambda>st' h'. settled n st' h' \<and> im_next st' = im_next st \<and> length (im_vec st') = length (im_vec st))"
      if "inv_at i n ?R h1 f1" "conn_ok h1 f1" "moments h \<subseteq> moments h1" "tf_status f1 \<noteq> EStart" for f1 h1
      using Cons.IH [OF settled_put [OF Cons.prems(1,2) i(1) that(3) i(2) that(1,2,4)]] Cons.prems(2,3) by simp
    have taken: "io_post (take_conn E ob vt start i f1 st) h1
      (\<lambda>st' h'. settled n st' h' \<and> im_next st' = im_next st \<and> length (im_vec st') = length (im_vec st))"
      if "inv_at i n ?R h1 f1" "conn_ok h1 f1" "moments h \<subseteq> moments h1" "tf_status f1 = EReadWrite" "cc_check_status f1 = ECheckOK" for f1 h1
      by (rule io_post_mono [OF take_conn_inv [OF Cons.prems(1,2) i(1) that(3) i(2) that(1,2,4,5)]]) simp
    show ?thesis
      unfolding after_all.simps Some option.case io_post_bind
      by (rule io_post_mono [OF tcp_callbacks.AfterSelect_inv [OF callbacks f]])
        (use drop go_on taken nst in \<open>simp only: io_post_if; blast\<close>)
  qed
qed

section \<open>One pass, the loop, the whole function\<close>

lemma schedule_ready:
  assumes "settled n st h" "im_retsocket st = INVALID_SOCKET"
  shows "io_post (schedule E cur st) h (\<lambda>(st1, _) h'. quiet h h' \<and> im_vec st1 = im_vec st \<and> im_retsocket st1 = INVALID_SOCKET
     \<and> cx_max_connect (im_cc st1) = n \<and> cx_index (im_cc st1) = - 1 \<and> im_next st1 \<le> length (im_vec st)
     \<and> ready n 0 (im_next st1) (im_vec st) \<and> unstarted (im_vec st) (im_next st1))"
proof -
  have same: "ready n 0 (im_next st) (im_vec st)" using assms(1) by (auto simp: settled_def ready_def started_def)
  have new: "ready n 0 (Suc (im_next st)) (im_vec st)" if "runing_count (im_vec st) < n"
    using assms(1) that by (auto simp: settled_def ready_def started_def runing_count_holds less_Suc_eq)
  have "unstarted (im_vec st) (Suc (im_next st))" using assms(1) by (auto simp: settled_def unstarted_def dest: Suc_leD)
  show ?thesis
    using assms same new \<open>unstarted _ _\<close> unfolding schedule_def Let_def
    by (auto simp: settled_def io_wp gettickcount_def quiet_Cons)
qed

lemma settled_quiet: "settled n st h \<Longrightarrow> quiet h h' \<Longrightarrow> settled n st h'"
  using quiet_moments [of h h'] by (auto simp: settled_def intro: books_quiet conns_ok_later established_later waived_later approved_later)

text \<open>What \<open>schedule\<close> establishes.\<close>

definition scheduled :: "nat \<Rightarrow> ('x check_fsm) option list \<Rightarrow> ('x check_fsm) impatient \<Rightarrow> log \<Rightarrow> bool" where
  "scheduled n vec st h \<longleftrightarrow> im_vec st = vec \<and> books n {#} h vec \<and> conns_ok h vec \<and> im_retsocket st = INVALID_SOCKET
     \<and> cx_max_connect (im_cc st) = n \<and> cx_index (im_cc st) = - 1 \<and> im_next st \<le> length vec
     \<and> ready n 0 (im_next st) vec \<and> unstarted vec (im_next st)"

definition passed :: "nat \<Rightarrow> nat \<Rightarrow> bool \<Rightarrow> ('x check_fsm) impatient \<Rightarrow> log \<Rightarrow> bool" where
  "passed n N stop st h \<longleftrightarrow> settled n st h \<and> length (im_vec st) = N \<and> (\<not> stop \<longrightarrow> im_retsocket st = INVALID_SOCKET)"

lemma schedule_scheduled:
  fixes st :: "('x check_fsm) impatient"
  assumes "settled n st h" "im_retsocket st = INVALID_SOCKET"
  shows "io_post (schedule E cur st) h (\<lambda>(st1, _) h'. scheduled n (im_vec st) st1 h')"
proof (rule io_post_mono [OF schedule_ready [OF assms]])
  fix x :: "('x check_fsm) impatient \<times> int" and h'
  assume "(case x of (st1, _) \<Rightarrow> \<lambda>h'. quiet h h' \<and> im_vec st1 = im_vec st \<and> im_retsocket st1 = INVALID_SOCKET
     \<and> cx_max_connect (im_cc st1) = n \<and> cx_index (im_cc st1) = - 1 \<and> im_next st1 \<le> length (im_vec st)
     \<and> ready n 0 (im_next st1) (im_vec st) \<and> unstarted (im_vec st) (im_next st1)) h'"
  moreover have "quiet h h' \<Longrightarrow> settled n st h'" by (rule settled_quiet [OF assms(1)])
  ultimately show "(case x of (st1, _) \<Rightarrow> \<lambda>h'. scheduled n (im_vec st) st1 h') h'"
    using assms(2) by (cases x) (simp add: scheduled_def settled_def)
qed

lemma pass_selected_inv:
  assumes "settled n st h" "im_retsocket st = INVALID_SOCKET"
  shows "io_post (pass_selected E ob vt start sel ret st) h (\<lambda>(stop, st'). passed n (length (im_vec st)) stop st')"
  unfolding pass_selected_def using assms
  by (auto simp: io_wp passed_def intro!: io_post_mono [OF after_all_inv [OF assms]])

lemma pass_scheduled_inv:
  assumes "scheduled n vec st h"
  shows "io_post (pass_scheduled E ob vt start sel st timeout) h (\<lambda>(stop, st'). passed n (length vec) stop st')"
proof -
  from assms have vec: "im_vec st = vec" by (simp add: scheduled_def)
  have post: "io_post (pre_all E vt [0..<im_next st] vec sel timeout) h (\<lambda>(vec', _) h'. settled n (st\<lparr>im_vec := vec'\<rparr>) h' \<and> length vec' = length vec)"
    using assms
    by (intro io_post_mono [OF pre_all_inv [where n = n]]) (auto simp: scheduled_def settled_def started_def)
  have "io_post (io_bind (do_select E sel1 t1) (\<lambda>(sel2, ret). pass_selected E ob vt start sel2 ret (st\<lparr>im_vec := vec'\<rparr>))) h1
      (\<lambda>(stop, st'). passed n (length vec) stop st')"
    if s: "settled n (st\<lparr>im_vec := vec'\<rparr>) h1" "length vec' = length vec" for vec' sel1 t1 h1
    unfolding io_post_bind
  proof (rule io_post_mono [OF do_select_quiet])
    fix x h2
    assume "quiet h1 h2"
    then have "settled n (st\<lparr>im_vec := vec'\<rparr>) h2" using settled_quiet [OF s(1)] by simp
    moreover have "im_retsocket (st\<lparr>im_vec := vec'\<rparr>) = INVALID_SOCKET" using assms by (simp add: scheduled_def)
    ultimately show "io_post (case x of (sel2, ret) \<Rightarrow> pass_selected E ob vt start sel2 ret (st\<lparr>im_vec := vec'\<rparr>)) h2
        (\<lambda>(stop, st'). passed n (length vec) stop st')"
      using pass_selected_inv [of n "st\<lparr>im_vec := vec'\<rparr>" h2] s(2) by (cases x) simp
  qed
  then show ?thesis
    unfolding pass_scheduled_def vec
    by (subst io_post_bind, intro io_post_mono [OF post]) auto
qed

lemma impatient_pass_inv:
  assumes "settled n st h" "im_retsocket st = INVALID_SOCKET"
  shows "io_post (impatient_pass E ob vt brk start st) h (\<lambda>(stop, st'). passed n (length (im_vec st)) stop st')"
proof -
  have s: "settled n st (Tick (env_tick E h) # h)" using settled_quiet [OF assms(1)] by (simp add: quiet_Cons)
  have "io_post (io_bind (schedule E cur st) (\<lambda>(st1, timeout). pass_scheduled E ob vt start sel st1 timeout)) (Tick (env_tick E h) # h)
      (\<lambda>(stop, st'). passed n (length (im_vec st)) stop st')" for cur sel
    unfolding io_post_bind
    by (rule io_post_mono [OF schedule_scheduled [OF s assms(2)]]) (auto intro!: pass_scheduled_inv)
  then show ?thesis
    unfolding impatient_pass_def gettickcount_def by (simp add: io_post_bind [of "io_call _ _"] io_post_bind [of "io_lift _"] io_post_call io_post_lift)
qed

text \<open>The result of the whole function.\<close>

definition outcome :: "nat \<Rightarrow> nat \<Rightarrow> ComplexConnect \<Rightarrow> socket \<Rightarrow> log \<Rightarrow> bool" where
  "outcome n N cc s h \<longleftrightarrow> opened h = closed h + (if s = INVALID_SOCKET then {#} else {#s#}) \<and> peak n h
     \<and> (s = INVALID_SOCKET \<longrightarrow> cx_index cc = - 1)
     \<and> (s \<noteq> INVALID_SOCKET \<longrightarrow> (\<exists>i<N. cx_index cc = int i \<and> established s h \<and> (waived ob via i h \<or> approved via i s h)))"

lemma new_all_fresh:
  "io_post (new_all mk is) h (\<lambda>vec h'. quiet h h' \<and> length vec = length is \<and>
     (\<forall>j<length is. \<exists>f. vec ! j = Some f \<and> checked ob via (is ! j) f h' \<and> conn_ok h' f \<and> tf_status f = EStart))"
proof (induction "is" arbitrary: h)
  case Nil
  then show ?case by (simp add: io_wp)
next
  case (Cons i js)
  show ?case
    unfolding new_all.simps io_post_bind io_post_return
  proof (rule io_post_mono [OF fresh], rule io_post_mono [OF Cons.IH], elim conjE, intro conjI)
    fix f :: "'x check_fsm" and h1 and vec :: "('x check_fsm) option list" and h2
    assume f: "quiet h h1" "checked ob via i f h1" "conn_ok h1 f" "tf_status f = EStart"
      and v: "quiet h1 h2" "length vec = length js"
        "\<forall>j<length js. \<exists>f. vec ! j = Some f \<and> checked ob via (js ! j) f h2 \<and> conn_ok h2 f \<and> tf_status f = EStart"
    show "quiet h h2" using f(1) v(1) by (rule quiet_trans)
    show "length (Some f # vec) = length (i # js)" using v(2) by simp
    have "checked ob via i f h2" "conn_ok h2 f"
      using f quiet_moments [OF v(1)] by (auto intro: checked_later conn_ok_later [OF _ _ same_conn_refl])
    with v(3) f(4) show "\<forall>j<length (i # js). \<exists>f'. (Some f # vec) ! j = Some f' \<and> checked ob via ((i # js) ! j) f' h2
        \<and> conn_ok h2 f' \<and> tf_status f' = EStart"
      by (auto simp: nth_Cons split: nat.splits)
  qed
qed

lemma fresh_later:
  assumes "\<forall>j<N. \<exists>f. vec ! j = Some f \<and> checked ob via (is ! j) f h \<and> conn_ok h f \<and> tf_status f = EStart" "moments h \<subseteq> moments h'"
  shows "\<forall>j<N. \<exists>f. vec ! j = Some f \<and> checked ob via (is ! j) f h' \<and> conn_ok h' f \<and> tf_status f = EStart"
  using assms checked_later [OF _ refl assms(2)] conn_ok_later [OF _ assms(2) same_conn_refl] by blast

lemma holds_fresh: "\<forall>j<length vec. \<exists>f. vec ! j = Some f \<and> held f = {#} \<Longrightarrow> holds vec = {#}"
proof (induction vec)
  case (Cons x xs)
  from Cons.prems have "\<exists>f. x = Some f \<and> held f = {#}" by (auto dest: spec [of _ 0])
  moreover have "\<forall>j<length xs. \<exists>f. xs ! j = Some f \<and> held f = {#}" using Cons.prems by (auto dest: spec [of _ "Suc _"])
  ultimately show ?case using Cons.IH by auto
qed simp

lemma close_all_books:
  assumes "books n S h vec" "\<forall>f. Some f \<in> set vec \<longrightarrow> (\<exists>i. checked ob via i f h)"
  shows "io_post (close_all vt vec) h (\<lambda>_ h'. opened h' = closed h' + S \<and> peak n h' \<and> size S \<le> n \<and> moments h \<subseteq> moments h')"
  using assms
proof (induction vec arbitrary: h)
  case Nil
  then show ?case by (simp add: io_wp books_def)
next
  case (Cons x xs)
  show ?case
  proof (cases x)
    case None
    with Cons show ?thesis by (simp add: books_def)
  next
    case (Some f)
    with Cons.prems(2) obtain i where "checked ob via i f h" by auto
    with Cons.prems(1) Some have f: "inv_at i n (holds xs + S) h f" by (simp add: inv_at_def books_def acct_def ac_simps)
    show ?thesis
      unfolding close_all.simps Some option.case io_post_then
    proof (rule io_post_mono [OF Close_then_delete [OF f]], elim conjE)
      fix h1
      assume h1: "opened h1 = closed h1 + (holds xs + S)" "peak n h1" "size (holds xs + S) \<le> n" "moments h \<subseteq> moments h1"
      then have "books n S h1 xs" by (simp add: books_def ac_simps)
      moreover have "\<forall>f. Some f \<in> set xs \<longrightarrow> (\<exists>i. checked ob via i f h1)"
        using Cons.prems(2) h1(4) checked_later [OF _ refl, of ob via _ _ h h1] by (metis list.set_intros(2))
      ultimately show "io_post (close_all vt xs) h1 (\<lambda>_ h'. opened h' = closed h' + S \<and> peak n h' \<and> size S \<le> n \<and> moments h \<subseteq> moments h')"
        using Cons.IH [of h1] h1(4) by (auto elim!: io_post_mono)
    qed
  qed
qed

lemma impatient_loop_settled:
  assumes "settled n st h" "im_retsocket st = INVALID_SOCKET"
  shows "io_post (io_loop (impatient_pass E ob vt brk start) st) h
    (\<lambda>st' h'. settled n st' h' \<and> length (im_vec st') = length (im_vec st))"
  unfolding io_post_def
proof (intro allI impI)
  fix st' h'
  assume "io_loop (impatient_pass E ob vt brk start) st h = Some (Inr (st', h'))"
  then have "passed n (length (im_vec st)) True st' h'"
  proof (rule io_loop_inv [where I = "passed n (length (im_vec st)) False"])
    show "passed n (length (im_vec st)) False st h" using assms by (simp add: passed_def)
    fix st1 h1
    assume "passed n (length (im_vec st)) False st1 h1"
    then have "settled n st1 h1" "im_retsocket st1 = INVALID_SOCKET" "length (im_vec st1) = length (im_vec st)"
      by (auto simp: passed_def)
    from impatient_pass_inv [OF this(1,2), unfolded this(3)]
    show "io_post (impatient_pass E ob vt brk start st1) h1 (\<lambda>(stop, st2) h2. (stop \<longrightarrow> passed n (length (im_vec st)) True st2 h2)
        \<and> (\<not> stop \<longrightarrow> passed n (length (im_vec st)) False st2 h2))"
      by (rule io_post_mono) auto
  qed
  then show "settled n st' h' \<and> length (im_vec st') = length (im_vec st)" by (simp add: passed_def)
qed

lemma impatient_run_outcome:
  "io_post (impatient_run E ob vt mk N brk cc) [] (\<lambda>(cc', s). outcome (cx_max_connect cc) N cc' s)"
proof (cases "N = 0")
  case True
  then show ?thesis by (simp add: impatient_run_def io_wp outcome_def reset_cc_def)
next
  case False
  let ?n = "cx_max_connect cc"
  have finish: "io_post (io_then (close_all vt (im_vec st1)) (io_bind (gettickcount E) (\<lambda>t.
       io_return ((im_cc st1)\<lparr>cx_totalcost := elapsed t start\<rparr>, im_retsocket st1)))) h1 (\<lambda>(cc', s). outcome ?n N cc' s)"
    if st1: "settled ?n st1 h1" "length (im_vec st1) = N" for st1 start h1
    unfolding io_post_then
  proof (rule io_post_mono [OF close_all_books])
    show "books ?n (if im_retsocket st1 = INVALID_SOCKET then {#} else {#im_retsocket st1#}) h1 (im_vec st1)"
      using st1(1) by (simp add: settled_def)
    show "\<forall>f. Some f \<in> set (im_vec st1) \<longrightarrow> (\<exists>i. checked ob via i f h1)"
      using st1(1) by (fastforce simp: settled_def conns_ok_def in_set_conv_nth)
    fix x h2
    assume h2: "opened h2 = closed h2 + (if im_retsocket st1 = INVALID_SOCKET then {#} else {#im_retsocket st1#}) \<and> peak ?n h2
      \<and> size (if im_retsocket st1 = INVALID_SOCKET then {#} else {#im_retsocket st1#}) \<le> ?n \<and> moments h1 \<subseteq> moments h2"
    then have sub: "moments h1 \<subseteq> moments (Tick (env_tick E h2) # h2)" by auto
    show "io_post (io_bind (gettickcount E) (\<lambda>t.
       io_return ((im_cc st1)\<lparr>cx_totalcost := elapsed t start\<rparr>, im_retsocket st1))) h2 (\<lambda>(cc', s). outcome ?n N cc' s)"
      using st1 h2 by (auto simp: io_wp gettickcount_def outcome_def settled_def intro: established_later [OF _ sub] waived_later [OF _ sub] approved_later [OF _ sub])
  qed
  have run: "io_post (io_bind (io_loop (impatient_pass E ob vt brk start) st) (\<lambda>st1.
        io_then (close_all vt (im_vec st1)) (io_bind (gettickcount E) (\<lambda>t.
          io_return ((im_cc st1)\<lparr>cx_totalcost := elapsed t start\<rparr>, im_retsocket st1))))) h1 (\<lambda>(cc', s). outcome ?n N cc' s)"
    if st: "settled ?n st h1" "im_retsocket st = INVALID_SOCKET" "length (im_vec st) = N" for st start h1
    unfolding io_post_bind [of "io_loop _ _"]
    by (rule io_post_mono [OF impatient_loop_settled [OF st(1,2)]]) (use finish st(3) in auto)
  have init: "settled ?n \<lparr>im_cc = reset_cc cc, im_vec = vec, im_laststart = ls, im_lasterror = 0, im_next = 0,
      im_retsocket = INVALID_SOCKET\<rparr> h1"
    if v: "quiet [Tick t] h1" "length vec = N"
      "\<forall>j<N. \<exists>f. vec ! j = Some f \<and> checked ob via ([0..<N] ! j) f h1 \<and> conn_ok h1 f \<and> tf_status f = EStart" for vec ls t h1
  proof -
    have "holds vec = {#}" by (rule holds_fresh) (use v in \<open>fastforce simp: conn_ok_def held_def\<close>)
    moreover have "opened h1 = {#}" "closed h1 = {#}" "peak ?n h1"
      using quiet_fds [OF v(1)] quiet_peak [OF v(1), of ?n] by auto
    ultimately have "books ?n {#} h1 vec" by (simp add: books_def)
    moreover have "conns_ok h1 vec" "unstarted vec 0" using v(2,3) by (fastforce simp: conns_ok_def unstarted_def)+
    ultimately show ?thesis by (simp add: settled_def reset_cc_def started_def)
  qed
  have later: "quiet [Tick t] (Tick t' # h1)" if "quiet [Tick t] h1" for t t' h1 using that by (simp add: quiet_Cons)
  have "io_post (new_all mk [0..<N]) [Tick (env_tick E [])] (\<lambda>vec h1. quiet [Tick (env_tick E [])] h1 \<and> length vec = N \<and>
     (\<forall>j<N. \<exists>f. vec ! j = Some f \<and> checked ob via ([0..<N] ! j) f h1 \<and> conn_ok h1 f \<and> tf_status f = EStart))"
    using new_all_fresh [of "[0..<N]"] by simp
  then have "io_post (new_all mk [0..<N]) [Tick (env_tick E [])] (\<lambda>vec h1. io_post (impatient_started E ob vt brk cc (env_tick E []) vec) h1
      (\<lambda>(cc', s). outcome ?n N cc' s))"
  proof (rule io_post_mono, elim conjE)
    fix vec :: "('x check_fsm) option list" and h1
    assume v: "quiet [Tick (env_tick E [])] h1" "length vec = N"
      "\<forall>j<N. \<exists>f. vec ! j = Some f \<and> checked ob via ([0..<N] ! j) f h1 \<and> conn_ok h1 f \<and> tf_status f = EStart"
    have "io_post (io_call (env_tick E) Tick) h1 (\<lambda>cur h2. quiet [Tick (env_tick E [])] h2 \<and>
        (\<forall>j<N. \<exists>f. vec ! j = Some f \<and> checked ob via ([0..<N] ! j) f h2 \<and> conn_ok h2 f \<and> tf_status f = EStart))"
      using v(1) fresh_later [OF v(3), of "Tick (env_tick E h1) # h1"] by (auto simp: io_post_call quiet_Cons)
    then show "io_post (impatient_started E ob vt brk cc (env_tick E []) vec) h1 (\<lambda>(cc', s). outcome ?n N cc' s)"
      unfolding impatient_started_def gettickcount_def [of E] io_post_bind [of "io_call (env_tick E) Tick"] Let_def
      by (rule io_post_mono) (rule run [unfolded gettickcount_def, OF init], use v(2) in auto)
  qed
  then show ?thesis
    using False by (simp add: impatient_run_def gettickcount_def io_post_bind io_post_call)
qed

end

section \<open>The classes of the code\<close>

lemma ConnectCheckFSM_new_fresh:
  "io_post (ConnectCheckFSM_new ob addr timeout i) h (\<lambda>f h'. quiet h h' \<and> checked ob False i f h' \<and> conn_ok h' f \<and> tf_status f = EStart)"
  unfolding ConnectCheckFSM_new_def observer_calls
  by (auto simp: io_wp TcpClientFSM_new_def TcpClientFSM.extend_def checked_def waived_def conn_ok_def intro!: quiet_Cons
      split: option.splits)

lemma ProxyCheckFSM_new_fresh:
  "io_post (ProxyCheckFSM_new ob dest proxy user pwd timeout i) h
     (\<lambda>f h'. quiet h h' \<and> checked ob True i f h' \<and> conn_ok h' f \<and> tf_status f = EStart)"
  unfolding ProxyCheckFSM_new_def io_post_bind io_post_return
  by (rule io_post_mono [OF ConnectCheckFSM_new_fresh])
    (auto simp: ConnectCheckFSM.extend_def checked_def conn_ok_def)

lemma via_proxy_fresh:
  "io_post (io_bind (io_lift r) (\<lambda>a. ProxyCheckFSM_new ob (dest i) a user pwd timeout i)) h
     (\<lambda>f h'. quiet h h' \<and> checked ob True i f h' \<and> conn_ok h' f \<and> tf_status f = EStart)"
  by (simp add: io_post_bind io_post_lift ProxyCheckFSM_new_fresh)

interpretation plain: impatient_class ob False "check_class E ob" "\<lambda>i. ConnectCheckFSM_new ob (dest i) timeout i" for E ob dest timeout
  by (intro impatient_class.intro check.tcp_callbacks_axioms ConnectCheckFSM_new_fresh)

interpretation via_tunnel: impatient_class ob True "tunnel_class E ob"
    "\<lambda>i. io_bind (io_lift r) (\<lambda>a. ProxyCheckFSM_new ob (dest i) a user pwd timeout i)" for E ob r dest user pwd timeout
  by (intro impatient_class.intro tunnel.tcp_callbacks_axioms via_proxy_fresh)

interpretation via_socks5: impatient_class ob True "socks5_class E ob"
    "\<lambda>i. io_bind (io_lift r) (\<lambda>a. ProxyCheckFSM_new ob (dest i) a user pwd timeout i)" for E ob r dest user pwd timeout
  by (intro impatient_class.intro socks5.tcp_callbacks_axioms via_proxy_fresh)

lemma ConnectImpatient_outcome:
  "io_post (ConnectImpatient E ob vecaddr brk pt proxy user pwd cc) []
     (\<lambda>(cc', s) h. opened h = closed h + (if s = INVALID_SOCKET then {#} else {#s#}) \<and> peak (cx_max_connect cc) h
       \<and> (s = INVALID_SOCKET \<longrightarrow> cx_index cc' = - 1)
       \<and> (s \<noteq> INVALID_SOCKET \<longrightarrow> (\<exists>i<length vecaddr. cx_index cc' = int i \<and> established s h \<and>
            (waived ob (pt \<in> {kProxyHttpTunel, kProxySocks5}) i h \<or> approved (pt \<in> {kProxyHttpTunel, kProxySocks5}) i s h))))"
  unfolding ConnectImpatient_def Let_def
  using plain.impatient_run_outcome [unfolded plain.outcome_def] via_tunnel.impatient_run_outcome [unfolded via_tunnel.outcome_def]
    via_socks5.impatient_run_outcome [unfolded via_socks5.outcome_def]
  by (cases pt) simp_all

end
