(* ===== verification/Complex_Live.thy ===== *)
theory Complex_Live
  imports Complex_Inv
begin

text \<open>
  When \<^verbatim>\<open>ConnectImpatient\<close> comes back: every operation of a pass returns, so the loop can only be left open by going round
  for ever; once the breaker is signalled (and stays so, nobody clears it) the next pass ends it.
\<close>

section \<open>The set of a pass waits for the breaker\<close>

lemma start_connect_watches:
  "watches brk sel \<Longrightarrow> io_post (start_connect E f sel) h (\<lambda>(_, sel') _. watches brk sel')"
  by (auto simp: start_connect_def io_wp sys_calls Let_def watches_FD_SET)

lemma connect_opened_watches:
  assumes "watches brk sel"
  shows "io_post (connect_opened E vt f sel) h (\<lambda>(_, sel') _. watches brk sel')"
proof -
  have "io_post (io_bind (start_connect E f1 sel) (\<lambda>(f2, sel').
           if tf_error f2 \<noteq> 0 then io_return (goto_status EEnd f2, sel')
           else io_bind (vt_OnConnect vt (goto_status EConnecting f2)) (\<lambda>f3. io_return (f3, sel')))) h1
      (\<lambda>(_, sel') _. watches brk sel')" for f1 h1
    unfolding io_post_bind [of "start_connect _ _ _"]
    by (rule io_post_mono [OF start_connect_watches [OF assms]]) (auto simp: io_wp intro!: io_post_any)
  note opened = this
  show ?thesis
    unfolding connect_opened_def io_post_bind [of "socket_set_nobio _ _"] io_post_bind [of "If _ _ _"]
    by (rule io_post_any, rule io_post_any) (simp add: io_post_return assms opened)
qed

lemma PreSelect_watches:
  assumes "watches brk sel"
  shows "io_post (PreSelect E vt f sel) h (\<lambda>(_, sel') _. watches brk sel')"
proof (cases "tf_status f")
  case EStart
  have "io_post (connect_opened E vt g sel) h' (\<lambda>(_, sel') _. watches brk sel')" for g h'
    by (rule connect_opened_watches [OF assms])
  with EStart assms show ?thesis
    by (simp add: PreSelect_def PreConnectSelect_def io_post_bind Let_def)
      (auto simp: io_wp intro!: io_post_any)
qed (simp_all add: PreSelect_def PreReadWriteSelect_def Let_def io_wp assms watches_FD_SET)

lemma pre_all_watches:
  "watches brk sel \<Longrightarrow> io_post (pre_all E vt is vec sel timeout) h (\<lambda>(_, sel', _) _. watches brk sel')"
proof (induction "is" arbitrary: vec sel timeout h)
  case Nil
  then show ?case by (simp add: io_wp)
next
  case (Cons i js)
  show ?case
  proof (cases "vec ! i")
    case None
    with Cons show ?thesis by simp
  next
    case (Some f)
    have "io_post (io_bind (TcpClientFSM_Timeout vt f1) (\<lambda>t. pre_all E vt js (vec[i := Some f1]) sel1 (min timeout t))) h1
        (\<lambda>(_, sel', _) _. watches brk sel')" if "watches brk sel1" for f1 sel1 h1
      unfolding io_post_bind by (intro io_post_any Cons.IH that)
    with Some show ?thesis
      by (simp add: io_post_bind [of "PreSelect _ _ _ _"]) (rule io_post_mono [OF PreSelect_watches [OF Cons.prems]], auto)
  qed
qed

section \<open>A signalled breaker ends the loop\<close>

lemma do_select_breaks:
  "watches brk sel \<Longrightarrow> broken_from E brk N \<Longrightarrow> N \<le> length h \<Longrightarrow>
    io_post (do_select E sel t) h (\<lambda>(sel', ret) _. ret < 0 \<or> IsBreak sel' = Inr True)"
  using Poll_breaks by (simp add: do_select_def Select_def Select_msec_def)

lemma pass_selected_breaks:
  "ret < 0 \<or> IsBreak sel = Inr True \<Longrightarrow> io_post (pass_selected E ob vt start sel ret st) h (\<lambda>(stop, _) _. stop)"
  by (auto simp: pass_selected_def io_wp)

section \<open>The passes of a class of connections that returns\<close>

context tcp_returning
begin

lemma schedule_returns: "io_returns (schedule E cur (st :: ('y TcpClientFSM_scheme) impatient))"
  unfolding schedule_def Let_def sys_calls by (intro io_ret)

lemma do_select_returns: "io_returns (do_select E sel t)"
  unfolding do_select_def Select_def Select_msec_def Poll_def Let_def Breaker_Clear_def sys_calls
  by (intro io_ret)

lemma pre_all_returns: "io_returns (pre_all E vt is vec sel timeout)"
proof (induction "is" arbitrary: vec sel timeout)
  case (Cons i js)
  then show ?case by (simp, intro io_ret PreSelect_returns Timeout_returns)
qed (simp add: io_ret)

lemma close_all_returns: "io_returns (close_all vt vec)"
  by (induction vec) (simp_all add: io_ret, intro io_ret Close_returns delete_returns)

end

locale impatient_returning = tcp_returning vt for vt :: "('x check_fsm) tcp_class" +
  fixes mk :: "nat \<Rightarrow> 'x check_fsm io"
  assumes mk_returns: "io_returns (mk i)"
begin

lemma new_all_returns: "io_returns (new_all mk is)"
  by (induction "is") (simp_all add: io_ret, intro io_ret mk_returns)

lemma conn_end_returns: "io_returns (drop_conn E ob vt start i f)" "io_returns (take_conn E ob vt start i f st)"
  unfolding drop_conn_def take_conn_def finish_report_def Let_def sys_calls
  by (intro io_ret Close_returns delete_returns)+

lemma after_all_returns: "io_returns (after_all E ob vt start sel is st)"
proof (induction "is" arbitrary: st)
  case (Cons i js)
  then show ?case by (simp, intro io_ret AfterSelect_returns conn_end_returns)
qed (simp add: io_ret)

lemma pass_selected_returns: "io_returns (pass_selected E ob vt start sel ret st)"
  unfolding pass_selected_def by (intro io_ret after_all_returns)

lemma pass_scheduled_returns: "io_returns (pass_scheduled E ob vt start sel st timeout)"
  unfolding pass_scheduled_def by (intro io_ret pre_all_returns do_select_returns pass_selected_returns)

lemma impatient_pass_returns: "impatient_pass E ob vt brk start st h \<noteq> None"
    "io_post (impatient_pass E ob vt brk start st) h (\<lambda>_ h'. length h < length h')"
proof -
  define m where "m cur = io_bind (io_lift (PreSelect_clear (SocketSelect_new brk False))) (\<lambda>sel.
     io_bind (schedule E cur st) (\<lambda>(st1, timeout). pass_scheduled E ob vt start sel st1 timeout))" for cur
  have m: "io_returns (m cur)" for cur
    unfolding m_def by (intro io_ret schedule_returns pass_scheduled_returns)
  have pass: "impatient_pass E ob vt brk start st h = m (env_tick E h) (Tick (env_tick E h) # h)"
    by (simp add: impatient_pass_def gettickcount_def io_bind_def io_call_def m_def)
  show "impatient_pass E ob vt brk start st h \<noteq> None" using m by (simp add: pass io_returns_def)
  show "io_post (impatient_pass E ob vt brk start st) h (\<lambda>_ h'. length h < length h')"
    using io_returns_post [OF m, of "env_tick E h" "Tick (env_tick E h) # h"] by (auto simp: io_post_def pass)
qed

lemma pass_scheduled_breaks:
  assumes "watches brk sel" "broken_from E brk N" "N \<le> length h"
  shows "io_post (pass_scheduled E ob vt start sel st timeout) h (\<lambda>(stop, _) _. stop)"
proof -
  have "io_post (pre_all E vt [0..<im_next st] (im_vec st) sel timeout) h (\<lambda>(_, sel1, _) h1. watches brk sel1 \<and> N \<le> length h1)"
    using io_post_conj [THEN iffD2, OF conjI [OF pre_all_watches [OF assms(1)] io_returns_post [OF pre_all_returns]]]
    by (rule io_post_mono) (use assms(3) in auto)
  then show ?thesis
    unfolding pass_scheduled_def io_post_bind [of "pre_all _ _ _ _ _ _"]
  proof (rule io_post_mono)
    fix x :: "('x check_fsm) option list \<times> SocketSelect \<times> int" and h1 :: log
    assume x: "(case x of (_, sel1, _) \<Rightarrow> \<lambda>h1. watches brk sel1 \<and> N \<le> length h1) h1"
    obtain vec sel1 t where v: "x = (vec, sel1, t)" by (metis prod_cases3)
    with x have w: "watches brk sel1" "N \<le> length h1" by auto
    show "io_post (case x of (vec, sel1, timeout1) \<Rightarrow> io_bind (do_select E sel1 timeout1) (\<lambda>(sel2, ret).
       pass_selected E ob vt start sel2 ret (st\<lparr>im_vec := vec\<rparr>))) h1 (\<lambda>(stop, _) _. stop)"
      unfolding v prod.case io_post_bind
      by (rule io_post_mono [OF do_select_breaks [OF w(1) assms(2) w(2)]]) (auto intro: pass_selected_breaks)
  qed
qed

lemma impatient_pass_breaks:
  assumes "broken_from E brk N" "N \<le> length h"
  shows "io_post (impatient_pass E ob vt brk start st) h (\<lambda>(stop, _) _. stop)"
proof -
  have "io_post (schedule E cur st) h1 (\<lambda>_ h2. N \<le> length h2)" if "N \<le> length h1" for cur h1
    by (rule io_post_mono [OF io_returns_post [OF schedule_returns]]) (use that in simp)
  then have "io_post (io_bind (schedule E cur st) (\<lambda>(st1, timeout). pass_scheduled E ob vt start sel st1 timeout)) h1
      (\<lambda>(stop, _) _. stop)" if "watches brk sel" "N \<le> length h1" for cur sel h1
    unfolding io_post_bind
    by (rule io_post_mono) (use that in \<open>auto intro: pass_scheduled_breaks [OF _ assms(1)]\<close>)
  then show ?thesis
    using assms(2) by (simp add: impatient_pass_def gettickcount_def io_post_bind [of "io_call _ _"] io_post_bind [of "io_lift _"]
        io_post_call io_post_lift watches_new)
qed

lemma impatient_run_returns:
  assumes "broken_from E brk N"
  shows "\<exists>r. impatient_run E ob vt mk n brk cc h = Some r"
proof -
  have loop: "io_loop (impatient_pass E ob vt brk start) st h \<noteq> None" for start st h
    using io_loop_returns [of "impatient_pass E ob vt brk start" N st h] impatient_pass_returns
      impatient_pass_breaks [OF assms] by auto
  have rest: "io_returns (io_then (close_all vt vec) (io_bind (gettickcount E) (\<lambda>t. io_return (g t))))"
    for vec and g :: "nat \<Rightarrow> ComplexConnect \<times> socket"
    unfolding sys_calls by (intro io_ret close_all_returns)
  have tick: "io_returns (gettickcount E)" unfolding sys_calls by (intro io_ret)
  have started: "impatient_started E ob vt brk cc start vec h \<noteq> None" for start vec h
    unfolding impatient_started_def Let_def
    by (intro io_bind_comes_back io_returnsD [OF tick] loop io_returnsD [OF rest])
  have "impatient_run E ob vt mk n brk cc h \<noteq> None"
    unfolding impatient_run_def
    by (cases "n = 0") (simp_all add: io_returnsD [OF io_returns_basic(1)] io_bind_comes_back io_returnsD [OF tick]
        io_returnsD [OF new_all_returns] started del: not_None_eq)
  then show ?thesis by blast
qed

end

section \<open>The classes of the code\<close>

lemma check_new_returns: "io_returns (ConnectCheckFSM_new ob addr timeout i)"
  unfolding ConnectCheckFSM_new_def by (intro io_ret observer_calls_return)

lemma proxy_new_returns: "io_returns (ProxyCheckFSM_new ob dest proxy user pwd timeout i)"
  unfolding ProxyCheckFSM_new_def by (intro io_ret check_new_returns)

interpretation plain_returning: impatient_returning "check_class E ob" "\<lambda>i. ConnectCheckFSM_new ob (dest i) timeout i"
  for E ob dest timeout
  by (intro impatient_returning.intro impatient_returning_axioms.intro check.tcp_returning_axioms check_new_returns)

interpretation via_socks5_returning: impatient_returning "socks5_class E ob"
    "\<lambda>i. io_bind (io_lift r) (\<lambda>a. ProxyCheckFSM_new ob (dest i) a user pwd timeout i)" for E ob r dest user pwd timeout
  by (intro impatient_returning.intro impatient_returning_axioms.intro socks5.tcp_returning_axioms io_ret proxy_new_returns)

lemma ConnectImpatient_returns:
  assumes "pt \<noteq> kProxyHttpTunel" "broken_from E brk N"
  shows "\<exists>r. ConnectImpatient E ob vecaddr brk pt proxy user pwd cc h = Some r"
  using assms(1) plain_returning.impatient_run_returns [OF assms(2)] via_socks5_returning.impatient_run_returns [OF assms(2)]
  by (cases pt) (simp_all add: ConnectImpatient_def Let_def)

end
