(* ===== verification/Complex_Props.thy ===== *)
theory Complex_Props
  imports Complex_Live
begin

text \<open>
  The two properties of \<^verbatim>\<open>ConnectImpatient\<close>: what it leaves open and returns (over all environments and observers), and
  that a signalled breaker brings it back.
\<close>

text \<open>
  C3: whatever the kernel, the peers and the observer answer, when \<^verbatim>\<open>ConnectImpatient\<close> returns every descriptor it
  opened is closed exactly once, except the one it returns; at no moment were more than \<^verbatim>\<open>max_connect_\<close> descriptors open;
  the index is -1 exactly when there is no socket. A returned socket was connected to and came up: \<^verbatim>\<open>SO_ERROR\<close> was read
  as 0 on it after the \<^verbatim>\<open>connect\<close>. And its check succeeded: there is no observer, or without a proxy it did not want
  this address verified, or after this socket had come up it accepted what was received on it, or (through a proxy) it
  said then that it need not be verified.
\<close>

theorem ConnectImpatient_descriptors:
  assumes "ConnectImpatient E ob vecaddr brk pt proxy user pwd cc [] = Some (Inr ((cc', s), h))"
  shows "opened h = closed h + (if s = INVALID_SOCKET then {#} else {#s#})
    \<and> peak (cx_max_connect cc) h
    \<and> (s = INVALID_SOCKET \<longleftrightarrow> cx_index cc' = - 1)
    \<and> (s \<noteq> INVALID_SOCKET \<longrightarrow>
        (\<exists>i<length vecaddr. cx_index cc' = int i \<and> established s h
          \<and> (waived ob (pt \<in> {kProxyHttpTunel, kProxySocks5}) i h \<or> approved (pt \<in> {kProxyHttpTunel, kProxySocks5}) i s h)))"
  using io_postD [OF ConnectImpatient_outcome assms] by auto

definition ex_address :: socket_address where
  "ex_address = \<lparr>sa_ip = ''10.0.0.1'', sa_port = 80\<rparr>"

definition ex_connect :: ComplexConnect where
  "ex_connect = ComplexConnect_new2 4000 1000"

text \<open>The kernel of the example reports the second descriptor of a set as writable: the connection is established.\<close>

definition ex_writable :: env where
  "ex_writable = ex_env (\<lambda>_ _ _. (1, \<lambda>i. if i = 1 then POLLOUT else 0))"

lemma ex_env_simps [simp]:
  "env_tick (ex_env p) = length" "env_errno (ex_env p) = (\<lambda>_. EAGAIN)" "env_fcntl (ex_env p) = (\<lambda>_ _ _. 0)"
  "env_socket (ex_env p) = (\<lambda>_. 7)" "env_connect (ex_env p) = (\<lambda>_ _. 0)" "env_so_error (ex_env p) = (\<lambda>_ _. Some 0)"
  "env_poll (ex_env p) = p"
  by (simp_all add: ex_env_def)

lemmas run_defs = io_bind_def io_then_def io_call_def io_return_def io_log_def io_lift_def sys_calls

lemma ex_connected:
  "case ConnectImpatient ex_writable None [ex_address] ex_breaker kProxyNone None [] [] ex_connect [] of
     Some (Inr ((cc', s), h)) \<Rightarrow> s = 7 | _ \<Rightarrow> False"
  apply (simp add: run_defs ConnectImpatient_def impatient_run_def ConnectCheckFSM_new_def ex_writable_def should_verify_def
    TcpClientFSM_new_def TcpClientFSM.defs ex_address_def ex_connect_def ComplexConnect_new2_def ComplexConnect_new4_def Let_def
    reset_cc_def impatient_started_def)
  apply (simp add: run_defs io_loop.simps impatient_pass_def schedule_def PreSelect_clear_def ClearEvent_def SocketSelect_new_def
    SocketPoll_new_def Let_def next_connect_timeout_def runing_count_def isconnecting_def to_int_def to_size_def to_uint_def INVALID_SOCKET_def
    pass_scheduled_def PreSelect_def PreConnectSelect_def check_class_def check_OnCreate_def tell_def connect_opened_def socket_set_nobio_def
    start_connect_def goto_status_def check_OnConnect_def TcpClientFSM_Timeout_def check_ConnectTimeout_def ConnectAbsTimeout_def)
  apply (simp add: run_defs do_select_def INT_MAX_def Select_msec_def Poll_def Let_def Exception_FD_SET_def Write_FD_SET_def WriteEvent_def
    NullEvent_def AddEvent_def BreakerFD_def ex_breaker_def POLLIN_def POLLOUT_def answer_revents_def)
  apply (simp add: run_defs pass_selected_def IsException_def BreakerIsError_def IsBreak_def BreakerIsBreak_def has_bits_def
    POLLERR_def POLLNVAL_def POLLIN_def AfterSelect_def AfterConnectSelect_def socket_error_def
    check_ConnectTimeout_def ConnectAbsTimeout_def FD_ISSET_isset isset_def POLLOUT_def check_OnConnected_def Let_def
    goto_status_def take_conn_def finish_report_def TcpClientFSM_delete_def TcpClientFSM_set_Socket_def TcpClientFSM_Close_def
    INVALID_SOCKET_def)
  done

theorem ConnectImpatient_descriptors_witness:
  "\<exists>cc' h. ConnectImpatient ex_writable None [ex_address] ex_breaker kProxyNone None [] [] ex_connect [] = Some (Inr ((cc', 7), h))
    \<and> opened h = closed h + {#7#} \<and> peak 3 h \<and> cx_index cc' = 0 \<and> established 7 h"
proof -
  obtain cc' h where r: "ConnectImpatient ex_writable None [ex_address] ex_breaker kProxyNone None [] [] ex_connect []
      = Some (Inr ((cc', 7), h))"
    using ex_connected by (auto split: option.splits sum.splits prod.splits)
  have "cx_max_connect ex_connect = 3" by (simp add: ex_connect_def ComplexConnect_new2_def ComplexConnect_new4_def)
  with ConnectImpatient_descriptors [OF r] r show ?thesis by (auto simp: INVALID_SOCKET_def)
qed

text \<open>
  C30: once the breaker is signalled, \<^verbatim>\<open>ConnectImpatient\<close> through no proxy, an HTTP proxy or a SOCKS5 proxy (not an
  HTTP tunnel, whose answer goes through the response parser) comes back, with its result or with a fault: if from
  some call on every \<^verbatim>\<open>poll\<close> whose first entry asks for the breaker reports it as readable (or fails), the loop is left,
  whatever the peers, the clock and the observer do.
\<close>

theorem ConnectImpatient_breaks:
  assumes "pt \<noteq> kProxyHttpTunel" "broken_from E brk N"
  shows "\<exists>r. ConnectImpatient E ob vecaddr brk pt proxy user pwd cc h = Some r"
  using assms by (rule ConnectImpatient_returns)

theorem ConnectImpatient_breaks_witness:
  "\<exists>r. ConnectImpatient (ex_env (\<lambda>h _ _. if 50 \<le> length h then (1, \<lambda>i. if i = 0 then POLLIN else 0) else (0, \<lambda>_. 0)))
     None [ex_address, ex_address] ex_breaker kProxyNone None [] [] ex_connect [] = Some r"
proof -
  have "broken_from (ex_env (\<lambda>h _ _. if 50 \<le> length h then (1, \<lambda>i. if i = 0 then POLLIN else 0) else (0, \<lambda>_. 0))) ex_breaker 50"
    by (simp add: broken_from_def ex_env_def POLLIN_def)
  then show ?thesis using ConnectImpatient_breaks [of kProxyNone] by simp
qed

end
