(* ===== verification/Conn_Props.thy ===== *)
theory Conn_Props
  imports Conn_Proxy Http_Recv
begin

text \<open>
  The SOCKS5 handshake of \<^verbatim>\<open>ConnectSocks5CheckFSM\<close>, read against the protocol: what is sent in each state, and that the
  answers of the proxy are understood however the network cuts them.
\<close>

section \<open>Receiving into the buffer of a connection\<close>

lemma recv_room_ok:
  assumes "wf_buf b" "length (content b) < 2 ^ 31"
  shows "\<exists>b'. recv_room b = Inr b' \<and> wf_buf b' \<and> content b' = content b \<and> Length b' = Length b
    \<and> length (content b) + 8192 \<le> Capacity b'"
proof -
  have L: "length (content b) = ab_length b" "ab_length b \<le> ab_capacity b" "ab_capacity b < 2 ^ 63"
    using assms(1) length_content by (auto simp: wf_buf_def PTRDIFF_MAX_val)
  have free: "to_size (int (Capacity b) - int (Length b)) = ab_capacity b - ab_length b"
    using L to_size_of_nat [of "ab_capacity b - ab_length b"] by (simp add: Capacity_def Length_def of_nat_diff)
  show ?thesis
  proof (cases "ab_capacity b - ab_length b < 8192")
    case False
    with assms L free show ?thesis by (simp add: recv_room_def Capacity_def)
  next
    case True
    have more: "to_size (16 * 1024 - int (ab_capacity b - ab_length b)) = 16384 - (ab_capacity b - ab_length b)"
      using True to_size_of_nat [of "16384 - (ab_capacity b - ab_length b)"] by (simp add: of_nat_diff)
    have "to_size (int (Capacity b) + int (16384 - (ab_capacity b - ab_length b))) = ab_length b + 16384"
      using True L assms(2) to_size_of_nat [of "ab_length b + 16384"] by (simp add: Capacity_def of_nat_diff add.commute)
    then have room: "recv_room b = FitSize b (ab_length b + 16384)"
      using True free more by (simp add: recv_room_def AddCapacity_def)
    have "ab_length b + 16384 \<le> 2 ^ 62" using L(1) assms(2) by simp
    from FitSize_ok [OF assms(1) this] obtain b' where b': "FitSize b (ab_length b + 16384) = Inr b'" "grown b (ab_length b + 16384) b'"
      by blast
    then show ?thesis
      using room grown_wf [OF assms(1) b'(2)] grown_content [OF assms(1) b'(2)] L
      by (auto simp: grown_def Length_def Capacity_def)
  qed
qed

lemma received_ok:
  assumes "wf_buf b" "length (content b) + length d \<le> Capacity b" "d \<noteq> []" "Length b + length d < 2 ^ 62"
  shows "\<exists>b'. memcpy_to b (int (Length b)) d = Inr b' \<and>
    (let r = Length_set b' (Pos b') (to_size (int (Length b') + int (length d))) in
       wf_buf r \<and> content r = content b @ d)"
proof -
  have L: "length (content b) = ab_length b" "length (ab_block b) = ab_capacity b"
    using assms(1) length_content by (auto simp: wf_buf_def)
  let ?b = "b\<lparr>ab_parray := Some (overwrite (ab_length b) d (ab_block b))\<rparr>"
  have m: "memcpy_to b (int (Length b)) d = Inr ?b" using assms L by (simp add: memcpy_to_def Length_def Capacity_def)
  have blk: "ab_block ?b = overwrite (ab_length b) d (ab_block b)" by (simp add: ab_block_def)
  have len: "length (overwrite (ab_length b) d (ab_block b)) = ab_capacity b"
    using L assms(2) by (simp add: Capacity_def)
  have sz: "to_size (int (Length ?b) + int (length d)) = ab_length b + length d"
    using assms(4) to_size_of_nat [of "ab_length b + length d"] by (simp add: Length_def)
  have wf: "wf_buf ?b" using assms(1) len blk by (simp add: wf_buf_def)
  have "take (ab_length b + length d) (overwrite (ab_length b) d (ab_block b)) = content b @ d"
    using L assms(2) by (simp add: overwrite_def content_def Capacity_def)
  then show ?thesis
    using m sz wf assms(1,2) L Length_set_ok [OF wf, of "ab_length b + length d" "Pos ?b"]
    by (auto simp: Let_def Pos_def wf_buf_def Capacity_def blk)
qed

lemma byte_at_content:
  assumes "wf_buf b" "i < length (content b)"
  shows "byte_at b i = Inr (content b ! i)"
  using Ptr_bytes_content [OF assms(1), of i 1] assms(2) by (simp add: byte_at_def hd_drop_conv_nth)

text \<open>The bytes the kernel has taken from a socket's sends, the oldest first.\<close>

fun wire :: "socket \<Rightarrow> log \<Rightarrow> bytes" where
  "wire s [] = []"
| "wire s (e # h) = wire s h @ (case e of Send s' d ret \<Rightarrow> (if s' = s then take (nat ret) d else []) | _ \<Rightarrow> [])"

section \<open>The answers of the proxy\<close>

text \<open>RFC 1928 and 1929: the length of the answer to a request, and what the first bytes of an answer mean.\<close>

definition answer_size :: "bytes \<Rightarrow> nat" where
  "answer_size c =
     (if c ! 3 = 1 then 10 else if c ! 3 = 3 then (if length c < 5 then 7 else 7 + unat (c ! 4)) else if c ! 3 = 4 then 22 else 4)"

definition socks5_answer :: "TCheckStatus \<Rightarrow> bytes \<Rightarrow> TCheckStatus option" where
  "socks5_answer st c =
     (if st = EProxySocks5GreetReq then
        if length c < 2 then None
        else Some (if c ! 0 \<noteq> 5 then ECheckFail else if c ! 1 = 0 then EProxySocks5AuthSucc
                   else if c ! 1 = 2 then EProxySocks5GreetSucc else ECheckFail)
      else if st = EProxySocks5AuthReq then
        if length c < 2 then None else Some (if c ! 0 = 1 \<and> c ! 1 = 0 then EProxySocks5AuthSucc else ECheckFail)
      else if length c < 4 \<or> length c < answer_size c then None
      else Some (if c ! 0 = 5 \<and> c ! 1 = 0 then EProxyConnSvrSucc else ECheckFail))"

definition same_peer :: "'x ProxyCheckFSM_scheme \<Rightarrow> 'x ProxyCheckFSM_scheme \<Rightarrow> bool" where
  "same_peer f f' \<longleftrightarrow> cc_index f' = cc_index f \<and> px_destaddr f' = px_destaddr f \<and> px_username f' = px_username f
     \<and> px_password f' = px_password f \<and> tf_send_buf f' = tf_send_buf f \<and> tf_sock f' = tf_sock f \<and> tf_status f' = tf_status f"

text \<open>More bytes do not change a decision.\<close>

lemma socks5_answer_stable: "socks5_answer st (c @ d) = None \<Longrightarrow> socks5_answer st c = None"
proof -
  have "length c \<ge> 4 \<Longrightarrow> length c \<ge> answer_size c \<Longrightarrow> answer_size (c @ d) = answer_size c"
    by (auto simp: answer_size_def nth_append split: if_splits)
  then show "socks5_answer st (c @ d) = None \<Longrightarrow> ?thesis"
    by (cases "4 \<le> length c \<and> answer_size c \<le> length c") (auto simp: socks5_answer_def split: if_splits)
qed

lemma socks5_greet_reads:
  assumes "wf_buf (tf_recv_buf f)" "content (tf_recv_buf f) = c"
  shows "\<exists>f'. socks5_greet_answer f = Inr f' \<and> wf_buf (tf_recv_buf f') \<and> same_peer f f' \<and>
    (case socks5_answer EProxySocks5GreetReq c of
       None \<Rightarrow> f' = f
     | Some st \<Rightarrow> cc_check_status f' = st \<and> (st \<noteq> ECheckFail \<longrightarrow> tf_request_send f' \<and> content (tf_recv_buf f') = []))"
  using assms length_content [OF assms(1)] byte_at_content [OF assms(1)] Length_set_ok [OF assms(1), of 0 0]
  by (auto simp: socks5_greet_answer_def socks5_answer_def Let_def Length_def cleared_recv_def same_peer_def kSocks5Version_def
      kSocks5NoAuth_def kSocks5UsrNamePwdAuth_def)

lemma socks5_auth_reads:
  assumes "wf_buf (tf_recv_buf f)" "content (tf_recv_buf f) = c"
  shows "\<exists>f'. socks5_auth_answer f = Inr f' \<and> wf_buf (tf_recv_buf f') \<and> same_peer f f' \<and>
    (case socks5_answer EProxySocks5AuthReq c of
       None \<Rightarrow> f' = f
     | Some st \<Rightarrow> cc_check_status f' = st \<and> (st \<noteq> ECheckFail \<longrightarrow> tf_request_send f' \<and> content (tf_recv_buf f') = []))"
  using assms length_content [OF assms(1)] byte_at_content [OF assms(1)] Length_set_ok [OF assms(1), of 0 0]
  by (auto simp: socks5_auth_answer_def socks5_answer_def Let_def Length_def cleared_recv_def same_peer_def kSocks5AuthVersion_def
      kSocks5RespStatus_def)

lemma socks5_connect_reads:
  assumes "wf_buf b" "content b = c" "5 \<le> ab_capacity b"
  shows "socks5_connect_answer b = Inr (map_option (\<lambda>st. st = EProxyConnSvrSucc) (socks5_answer EProxySocks5ConnSvrReq c))"
proof -
  note at = byte_at_content [OF assms(1)] and len = length_content [OF assms(1)]
  obtain l where l: "byte_at b 4 = Inr l"
    using assms(1,3) by (simp add: byte_at_def Ptr_bytes_def wf_buf_def)
  have l': "5 \<le> length c \<Longrightarrow> l = c ! 4" using at [of 4] l assms(2) by simp
  show ?thesis
    using at assms(2) len l l'
    by (auto simp: socks5_connect_answer_def socks5_answer_def answer_size_def Let_def Length_def kSocks5Version_def
        kSocks5RespStatus_def kSocksATYPIPv4_def kSocksATYPHost_def kSocksATYPIPv6_def)
qed

text \<open>The status after the proxy has connected: the observer may want to verify the connection to the server.\<close>

definition asked_to_verify :: "observer option \<Rightarrow> nat \<Rightarrow> socket_address \<Rightarrow> log \<Rightarrow> bool" where
  "asked_to_verify ob i addr h = (case ob of None \<Rightarrow> False | Some x \<Rightarrow> ob_ShouldVerify x h i addr)"

definition after_answer :: "bool \<Rightarrow> TCheckStatus \<Rightarrow> TCheckStatus" where
  "after_answer v st = (if st = EProxyConnSvrSucc \<and> \<not> v then ECheckOK else st)"

lemma socks5_OnRecv_reads:
  assumes "wf_buf (tf_recv_buf f)" "content (tf_recv_buf f) = c" "5 \<le> ab_capacity (tf_recv_buf f)"
    "cc_check_status f \<in> {EProxySocks5GreetReq, EProxySocks5AuthReq, EProxySocks5ConnSvrReq}"
  shows "\<exists>f' h'. socks5_OnRecv E ob n f h = Some (Inr (f', h')) \<and> wf_buf (tf_recv_buf f') \<and> same_peer f f' \<and> wire s h' = wire s h \<and>
    (case socks5_answer (cc_check_status f) c of
       None \<Rightarrow> f' = f
     | Some st \<Rightarrow> cc_check_status f' = after_answer (asked_to_verify ob (cc_index f) (px_destaddr f) h) st
         \<and> (st \<noteq> ECheckFail \<longrightarrow> tf_request_send f' \<and> content (tf_recv_buf f') = []))"
proof -
  have st: "socks5_answer EProxySocks5GreetReq c \<noteq> Some EProxyConnSvrSucc"
    "socks5_answer EProxySocks5AuthReq c \<noteq> Some EProxyConnSvrSucc"
    by (simp_all add: socks5_answer_def)
  consider "cc_check_status f = EProxySocks5GreetReq" | "cc_check_status f = EProxySocks5AuthReq"
    | "cc_check_status f = EProxySocks5ConnSvrReq" using assms(4) by blast
  then show ?thesis
  proof cases
    case 1
    with socks5_greet_reads [OF assms(1,2)] st(1) show ?thesis
      by (fastforce simp: socks5_OnRecv_def io_lift_def after_answer_def split: option.splits)
  next
    case 2
    with socks5_auth_reads [OF assms(1,2)] st(2) show ?thesis
      by (fastforce simp: socks5_OnRecv_def io_lift_def after_answer_def split: option.splits)
  next
    case 3
    have c: "socks5_answer EProxySocks5ConnSvrReq c = Some st \<Longrightarrow> st \<in> {EProxyConnSvrSucc, ECheckFail}" for st
      by (auto simp: socks5_answer_def split: if_splits)
    from 3 c assms(1) socks5_connect_reads [OF assms(1,2,3)] Length_set_ok [OF assms(1), of 0 0] show ?thesis
      by (auto simp: socks5_OnRecv_def io_lift_def io_bind_def io_return_def should_verify_def io_call_def gettickcount_def
          cleared_recv_def same_peer_def after_answer_def asked_to_verify_def split: option.splits)
  qed
qed

section \<open>Answers in pieces\<close>

text \<open>The answers of the kernel: it hands over \<open>d\<close>, it takes \<open>k\<close> bytes, the connection has come up. After the select it reports \<open>bits\<close> for
  the socket.\<close>

definition delivers :: "env \<Rightarrow> bytes \<Rightarrow> env" where
  "delivers E d = E\<lparr>env_recv := (\<lambda>_ _ _. Some d)\<rparr>"

definition takes :: "env \<Rightarrow> int \<Rightarrow> env" where
  "takes E k = E\<lparr>env_send := (\<lambda>_ _ _. k)\<rparr>"

definition comes_up :: "env \<Rightarrow> env" where
  "comes_up E = E\<lparr>env_so_error := (\<lambda>_ _. Some 0)\<rparr>"

definition reported :: "socket \<Rightarrow> 16 word \<Rightarrow> SocketSelect \<Rightarrow> SocketSelect" where
  "reported s bits sel = sel\<lparr>sp_triggered := [\<lparr>pe_poll_event = \<lparr>pfd_fd = s, pfd_events = bits, pfd_revents = bits\<rparr>, pe_user_data = 0\<rparr>]\<rparr>"

lemma reported_isset [simp]:
  "Read_FD_ISSET (reported s POLLIN sel) s" "\<not> Write_FD_ISSET (reported s POLLIN sel) s" "\<not> Exception_FD_ISSET (reported s POLLIN sel) s"
  "\<not> Read_FD_ISSET (reported s POLLOUT sel) s" "Write_FD_ISSET (reported s POLLOUT sel) s" "\<not> Exception_FD_ISSET (reported s POLLOUT sel) s"
  by (simp_all add: reported_def Read_FD_ISSET_def Write_FD_ISSET_def Exception_FD_ISSET_def PollEvent_FD_def Readable_def HangUp_def
      Writealbe_def PollEvent_Error_def PollEvent_Invalid_def has_bits_def POLLIN_def POLLOUT_def POLLERR_def POLLHUP_def POLLNVAL_def)

text \<open>Whether \<^verbatim>\<open>PreReadWriteSelect\<close> asks for a writable socket, in a set \<open>sel\<close> that does not have the socket yet.\<close>

definition asks_write :: "SocketSelect \<Rightarrow> 'x TcpClientFSM_scheme \<Rightarrow> bool" where
  "asks_write sel f \<longleftrightarrow> (case interest (PreReadWriteSelect f sel) (tf_sock f) of None \<Rightarrow> False | Some m \<Rightarrow> m AND POLLOUT \<noteq> 0)"

lemma asks_write_iff:
  assumes "poll_ok b sel" "interest sel (tf_sock f) = None"
  shows "asks_write sel f \<longleftrightarrow> 0 < Length (tf_send_buf f) \<or> tf_request_send f"
proof -
  let ?s = "tf_sock f"
  note r = ReadEvent_ok [OF assms(1), of ?s True]
  note n = NullEvent_ok [of b "ReadEvent ?s True sel" ?s]
  note w = WriteEvent_ok [of b "NullEvent ?s (ReadEvent ?s True sel)" ?s True]
  have i: "interest (NullEvent ?s (ReadEvent ?s True sel)) ?s = Some POLLIN" "poll_ok b (NullEvent ?s (ReadEvent ?s True sel))"
    using r n assms(2) by (simp_all add: update_bits_def Let_def)
  have "interest (WriteEvent ?s True (NullEvent ?s (ReadEvent ?s True sel))) ?s = Some (POLLIN OR POLLOUT)"
    using w i by (simp add: update_bits_def Let_def)
  then show ?thesis
    using i(1)
    by (simp add: asks_write_def PreReadWriteSelect_def Let_def Read_FD_SET_def Write_FD_SET_def Exception_FD_SET_def POLLIN_def POLLOUT_def)
qed

text \<open>One pass of the loop after the other: \<^verbatim>\<open>AfterSelect\<close> with a socket that is reported readable, or writable when \<^verbatim>\<open>PreReadWriteSelect\<close>
  has asked for that; without the request nothing is written any more.\<close>

fun read_passes :: "env \<Rightarrow> observer option \<Rightarrow> SocketSelect \<Rightarrow> bytes list \<Rightarrow> 'x ProxyCheckFSM_scheme \<Rightarrow> 'x ProxyCheckFSM_scheme io" where
  "read_passes E ob sel [] f = io_return f"
| "read_passes E ob sel (d # ds) f =
     io_bind (AfterSelect (delivers E d) (socks5_class E ob) (reported (tf_sock f) POLLIN (PreReadWriteSelect f sel)) f)
       (read_passes E ob sel ds)"

fun write_passes :: "env \<Rightarrow> observer option \<Rightarrow> SocketSelect \<Rightarrow> int list \<Rightarrow> 'x ProxyCheckFSM_scheme \<Rightarrow> 'x ProxyCheckFSM_scheme io" where
  "write_passes E ob sel [] f = io_return f"
| "write_passes E ob sel (k # ks) f =
     (if asks_write sel f
      then io_bind (AfterSelect (takes E k) (socks5_class E ob) (reported (tf_sock f) POLLOUT (PreReadWriteSelect f sel)) f)
             (write_passes E ob sel ks)
      else io_return f)"

text \<open>What the connection \<open>f\<close> has become after it received the bytes \<open>c\<close> of an answer.\<close>

definition understood :: "observer option \<Rightarrow> 'x ProxyCheckFSM_scheme \<Rightarrow> bytes \<Rightarrow> 'x ProxyCheckFSM_scheme \<Rightarrow> bool" where
  "understood ob f c f' \<longleftrightarrow> wf_buf (tf_recv_buf f') \<and> same_peer f f' \<and>
    (case socks5_answer (cc_check_status f) c of
       None \<Rightarrow> cc_check_status f' = cc_check_status f \<and> content (tf_recv_buf f') = c
     | Some st \<Rightarrow> (\<exists>h. cc_check_status f' = after_answer (asked_to_verify ob (cc_index f) (px_destaddr f) h) st)
         \<and> (st \<noteq> ECheckFail \<longrightarrow> tf_request_send f' \<and> content (tf_recv_buf f') = []))"

lemma read_ready_answer:
  assumes "wf_buf (tf_recv_buf f)" "content (tf_recv_buf f) = c" "d \<noteq> []" "length d \<le> 8192" "length c + length d < 2 ^ 30"
    "cc_check_status f \<in> {EProxySocks5GreetReq, EProxySocks5AuthReq, EProxySocks5ConnSvrReq}"
  shows "\<exists>f' h'. read_ready (delivers E d) (socks5_class E ob) f h = Some (Inr ((f', False), h')) \<and> understood ob f (c @ d) f'
    \<and> wire s h' = wire s h"
proof -
  obtain b where b: "recv_room (tf_recv_buf f) = Inr b" "wf_buf b" "content b = c" "length c + 8192 \<le> Capacity b"
    using recv_room_ok [OF assms(1)] assms(2,5) by auto
  have L: "Length b = length c" using length_content [OF b(2)] b(3) by (simp add: Length_def)
  obtain b' where b': "memcpy_to b (int (Length b)) d = Inr b'"
    and "let r = Length_set b' (Pos b') (to_size (int (Length b') + int (length d))) in wf_buf r \<and> content r = content b @ d"
    using received_ok [OF b(2) _ assms(3)] b(3,4) assms(4,5) L by auto
  moreover define r where "r = Length_set b' (Pos b') (to_size (int (Length b') + int (length d)))"
  ultimately have r: "wf_buf r" "content r = c @ d" using b(3) by (simp_all add: Let_def)
  have cap: "5 \<le> ab_capacity r" using memcpy_unit [OF b'] b(4) by (simp add: Capacity_def r_def)
  let ?n = "to_size (int (Capacity b) - int (Length b))"
  define g where "g = f\<lparr>tf_recv_buf := b, tf_recv_buf := r\<rparr>"
  let ?h = "Recv_from (tf_sock f) ?n (Some d) # h"
  have "wf_buf (tf_recv_buf g)" "content (tf_recv_buf g) = c @ d" "5 \<le> ab_capacity (tf_recv_buf g)"
    "cc_check_status g \<in> {EProxySocks5GreetReq, EProxySocks5AuthReq, EProxySocks5ConnSvrReq}"
    using r cap assms(6) by (simp_all add: g_def)
  from socks5_OnRecv_reads [OF this, of E ob _ _ s] obtain f' h' where f': "socks5_OnRecv E ob (int (length d)) g ?h = Some (Inr (f', h'))"
    "wf_buf (tf_recv_buf f')" "same_peer g f'" "wire s h' = wire s ?h"
    "case socks5_answer (cc_check_status g) (c @ d) of
       None \<Rightarrow> f' = g
     | Some st \<Rightarrow> cc_check_status f' = after_answer (asked_to_verify ob (cc_index g) (px_destaddr g) ?h) st
         \<and> (st \<noteq> ECheckFail \<longrightarrow> tf_request_send f' \<and> content (tf_recv_buf f') = [])"
    by blast
  have "read_ready (delivers E d) (socks5_class E ob) f h = Some (Inr ((f', False), h'))"
    using b(1) b' f'(1) assms(3)
    by (simp add: read_ready_def io_bind_def io_lift_def recv_from_def io_call_def delivers_def socks5_class_def io_return_def Let_def
        g_def r_def)
  moreover have "understood ob f (c @ d) f'"
    using f'(2-5) r(2) by (auto simp: understood_def same_peer_def g_def split: option.splits)
  moreover have "wire s h' = wire s h" using f'(4) by simp
  ultimately show ?thesis by blast
qed

text \<open>A pass is what its part does: the timeout is not looked at, and a connection that goes on is not closed.\<close>

lemma AfterSelect_reads:
  assumes "tf_status f = EReadWrite" "read_ready E' (socks5_class E ob) f (Tick (env_tick E h) # h) = Some (Inr ((f', False), h'))"
    "tf_status f' = EReadWrite" "tf_sock f' = tf_sock f"
  shows "AfterSelect E' (socks5_class E ob) (reported (tf_sock f) POLLIN sel) f h = Some (Inr (f', h'))"
  using assms
  by (simp add: AfterSelect_def AfterReadWriteSelect_def socks5_class_def check_class_def check_ReadWriteTimeout_def gettickcount_def
      io_bind_def io_call_def io_return_def)

lemma AfterSelect_writes:
  assumes "tf_status f = EReadWrite" "write_ready E' (socks5_class E ob) f (Tick (env_tick E h) # h) = Some (Inr ((f', False), h'))"
    "tf_status f' = EReadWrite" "tf_sock f' = tf_sock f"
  shows "AfterSelect E' (socks5_class E ob) (reported (tf_sock f) POLLOUT sel) f h = Some (Inr (f', h'))"
  using assms
  by (simp add: AfterSelect_def AfterReadWriteSelect_def socks5_class_def check_class_def check_ReadWriteTimeout_def gettickcount_def
      io_bind_def io_call_def io_return_def)

text \<open>However an answer is cut, the pieces before the last byte that matters only fill the buffer.\<close>

lemma read_passes_answer:
  assumes "wf_buf (tf_recv_buf f)" "content (tf_recv_buf f) = c" "ds \<noteq> []" "\<forall>d\<in>set ds. d \<noteq> [] \<and> length d \<le> 8192"
    "length c + length (concat ds) < 2 ^ 30" "cc_check_status f \<in> {EProxySocks5GreetReq, EProxySocks5AuthReq, EProxySocks5ConnSvrReq}"
    "socks5_answer (cc_check_status f) (c @ concat (butlast ds)) = None" "tf_status f = EReadWrite"
  shows "\<exists>f' h'. read_passes E ob sel ds f h = Some (Inr (f', h')) \<and> understood ob f (c @ concat ds) f' \<and> wire s h' = wire s h"
  using assms
proof (induction ds arbitrary: f c h)
  case Nil
  then show ?case by simp
next
  case (Cons d ds)
  have d: "d \<noteq> []" "length d \<le> 8192" "length c + length d < 2 ^ 30" using Cons.prems(4,5) by auto
  obtain g h2 where g: "read_ready (delivers E d) (socks5_class E ob) f (Tick (env_tick E h) # h) = Some (Inr ((g, False), h2))"
    "understood ob f (c @ d) g" "wire s h2 = wire s h"
    using read_ready_answer [OF Cons.prems(1,2) d Cons.prems(6), of E ob "Tick (env_tick E h) # h" s] by auto
  have st: "tf_status g = EReadWrite" "tf_sock g = tf_sock f" using g(2) Cons.prems(8) by (simp_all add: understood_def same_peer_def)
  note pass = AfterSelect_reads [OF Cons.prems(8) g(1) st]
  show ?case
  proof (cases "ds = []")
    case True
    with g(2,3) pass show ?thesis by (simp add: io_bind_def io_return_def)
  next
    case False
    then have n: "socks5_answer (cc_check_status f) ((c @ d) @ concat (butlast ds)) = None" using Cons.prems(7) by simp
    then have "socks5_answer (cc_check_status f) (c @ d) = None" by (rule socks5_answer_stable)
    with g(2) have w: "cc_check_status g = cc_check_status f" "content (tf_recv_buf g) = c @ d" "wf_buf (tf_recv_buf g)" "same_peer f g"
      by (simp_all add: understood_def)
    have pre: "\<forall>d\<in>set ds. d \<noteq> [] \<and> length d \<le> 8192" "length (c @ d) + length (concat ds) < 2 ^ 30"
      "cc_check_status g \<in> {EProxySocks5GreetReq, EProxySocks5AuthReq, EProxySocks5ConnSvrReq}"
      "socks5_answer (cc_check_status g) ((c @ d) @ concat (butlast ds)) = None"
      using Cons.prems(4-7) False w by simp_all
    from Cons.IH [OF w(3,2) False pre st(1)] obtain f' h' where f': "read_passes E ob sel ds g h2 = Some (Inr (f', h'))"
      "understood ob g ((c @ d) @ concat ds) f'" "wire s h' = wire s h2" by blast
    then have "understood ob f (c @ concat (d # ds)) f'" using w
      by (auto simp: understood_def same_peer_def split: option.splits)
    with pass f'(1,3) g(3) show ?thesis by (simp add: io_bind_def)
  qed
qed

section \<open>The requests\<close>

lemma write_all_put: "write_all b ds = put_all Write b ds"
  by (induction b ds rule: write_all.induct) simp_all

lemma cleared_writes:
  assumes "wf_buf b" "length (concat ds) < 2 ^ 62"
  shows "\<exists>b'. write_all (Length_set b 0 0) ds = Inr b' \<and> wf_buf b' \<and> content b' = concat ds"
proof -
  let ?b = "Length_set b 0 0"
  have b: "wf_buf ?b" "cursor ?b = 0" "content ?b = []" using Length_set_ok [OF assms(1), of 0 0] by simp_all
  have "\<exists>b'. write_all a ds = Inr b' \<and> wf_buf b' \<and> content b' = content a @ concat ds"
    if "wf_buf a" "cursor a = length (content a)" "length (content a) + length (concat ds) < 2 ^ 62" for a
    using that
  proof (induction ds arbitrary: a)
    case (Cons d ds)
    then have "fits a (length d)" by (simp add: fits_def)
    from Write_ok [OF Cons.prems(1) this] obtain a' where a': "Write a d = Inr a'" "wf_buf a'" "cursor a' = cursor a + length d"
      "content a' = overwrite (cursor a) d (content a)" by blast
    then have c: "content a' = content a @ d" using Cons.prems(2) by (simp add: overwrite_at_end)
    have "cursor a' = length (content a')" "length (content a') + length (concat ds) < 2 ^ 62"
      using a'(3) c Cons.prems(2,3) by simp_all
    from Cons.IH [OF a'(2) this] a'(1) c show ?case by auto
  qed simp
  from this [OF b(1)] b assms(2) show ?thesis by simp
qed

definition with_password :: "'x ProxyCheckFSM_scheme \<Rightarrow> bool" where
  "with_password f \<longleftrightarrow> px_username f \<noteq> [] \<and> px_password f \<noteq> []"

text \<open>The request of RFC 1928 or 1929 that belongs to a state, and the state in which its answer is awaited.\<close>

fun socks5_request :: "env \<Rightarrow> 'x ProxyCheckFSM_scheme \<Rightarrow> TCheckStatus \<Rightarrow> (bytes \<times> TCheckStatus) option" where
  "socks5_request E f EConnProxySucc = Some ([5, 1, if with_password f then 2 else 0], EProxySocks5GreetReq)"
| "socks5_request E f EProxySocks5GreetSucc =
     (if with_password f \<and> length (px_username f) \<le> 255 \<and> length (px_password f) \<le> 255
      then Some ([1, of_nat (length (px_username f))] @ bytes_of (px_username f)
                 @ [of_nat (length (px_password f))] @ bytes_of (px_password f), EProxySocks5AuthReq)
      else None)"
| "socks5_request E f EProxySocks5AuthSucc =
     Some ([5, 1, 0, 1] @ inet_addr_bytes E (sa_ip (px_destaddr f)) @ htons_bytes (sa_port (px_destaddr f)), EProxySocks5ConnSvrReq)"
| "socks5_request E f _ = None"

lemma socks5_OnRequestSend_request:
  assumes "wf_buf (tf_send_buf f)" "socks5_request E f (cc_check_status f) = Some (m, st)"
  shows "\<exists>b. socks5_OnRequestSend E ob f h = Some (Inr (f\<lparr>tf_send_buf := b, cc_check_status := st\<rparr>, h)) \<and> wf_buf b \<and> content b = m"
proof -
  consider "cc_check_status f = EConnProxySucc" | "cc_check_status f = EProxySocks5GreetSucc" | "cc_check_status f = EProxySocks5AuthSucc"
    using assms(2) by (cases "cc_check_status f") auto
  then show ?thesis
  proof cases
    case 1
    obtain b where b: "write_all (Length_set (tf_send_buf f) 0 0) [[kSocks5Version, kSockstNAuthMethos,
        if px_username f = [] \<or> px_password f = [] then kSocks5NoAuth else kSocks5UsrNamePwdAuth]] = Inr b" "wf_buf b"
      "content b = [5, 1, if with_password f then 2 else 0]"
      using cleared_writes [OF assms(1), of "[[kSocks5Version, kSockstNAuthMethos,
        if px_username f = [] \<or> px_password f = [] then kSocks5NoAuth else kSocks5UsrNamePwdAuth]]"]
      by (auto simp: with_password_def kSocks5Version_def kSockstNAuthMethos_def kSocks5NoAuth_def kSocks5UsrNamePwdAuth_def
          simp del: write_all.simps)
    show ?thesis
      by (rule exI [of _ b]) (use 1 assms(2) b in \<open>auto simp: socks5_OnRequestSend_def Let_def io_bind_def io_lift_def io_return_def
        simp del: write_all.simps\<close>)
  next
    case 2
    then have c: "with_password f" "length (px_username f) \<le> 255" "length (px_password f) \<le> 255"
      using assms(2) by (auto split: if_splits)
    obtain b where b: "write_all (Length_set (tf_send_buf f) 0 0) [[kSocks5AuthVersion], [of_nat (length (px_username f))],
        bytes_of (px_username f), [of_nat (length (px_password f))], bytes_of (px_password f)] = Inr b" "wf_buf b"
      "content b = [1, of_nat (length (px_username f))] @ bytes_of (px_username f)
         @ [of_nat (length (px_password f))] @ bytes_of (px_password f)"
      using cleared_writes [OF assms(1), of "[[kSocks5AuthVersion], [of_nat (length (px_username f))],
        bytes_of (px_username f), [of_nat (length (px_password f))], bytes_of (px_password f)]"] c
      by (auto simp: kSocks5AuthVersion_def simp del: write_all.simps)
    show ?thesis
      by (rule exI [of _ b]) (use 2 c assms(2) b in \<open>auto simp: socks5_OnRequestSend_def Let_def with_password_def io_bind_def
        io_lift_def io_return_def simp del: write_all.simps\<close>)
  next
    case 3
    obtain x1 x2 x3 x4 where ip: "inet_addr_bytes E (sa_ip (px_destaddr f)) = [x1, x2, x3, x4]"
      by (cases "env_inet_addr E (sa_ip (px_destaddr f))") (simp add: inet_addr_bytes_def)
    obtain b where b: "write_all (Length_set (tf_send_buf f) 0 0) [[kSocks5Version, kSocks5ConnectCmd, kSocks5RsvVal, kSocksATYPIPv4],
        inet_addr_bytes E (sa_ip (px_destaddr f)), htons_bytes (sa_port (px_destaddr f))] = Inr b" "wf_buf b"
      "content b = [5, 1, 0, 1] @ inet_addr_bytes E (sa_ip (px_destaddr f)) @ htons_bytes (sa_port (px_destaddr f))"
      using cleared_writes [OF assms(1), of "[[kSocks5Version, kSocks5ConnectCmd, kSocks5RsvVal, kSocksATYPIPv4],
        inet_addr_bytes E (sa_ip (px_destaddr f)), htons_bytes (sa_port (px_destaddr f))]"]
      by (auto simp: kSocks5Version_def kSocks5ConnectCmd_def kSocks5RsvVal_def kSocksATYPIPv4_def ip htons_bytes_def
          simp del: write_all.simps)
    show ?thesis
      by (rule exI [of _ b]) (use 3 assms(2) b in \<open>auto simp: socks5_OnRequestSend_def Let_def io_bind_def io_lift_def io_return_def
        simp del: write_all.simps\<close>)
  qed
qed

lemma socks5_request_cong:
  "px_username g = px_username f \<Longrightarrow> px_password g = px_password f \<Longrightarrow> px_destaddr g = px_destaddr f \<Longrightarrow>
    socks5_request E g st = socks5_request E f st"
  by (cases st) (simp_all add: with_password_def)

section \<open>Requests in pieces\<close>

lemma write_ready_sends:
  assumes "if tf_request_send f \<and> Length (tf_send_buf f) = 0
      then socks5_OnRequestSend E ob (f\<lparr>tf_request_send := False\<rparr>) h = Some (Inr (f1, h)) else f1 = f"
    and "wf_buf (tf_send_buf f1)" "content (tf_send_buf f1) = c" "0 < k" "k \<le> int (length c)"
  shows "\<exists>b. write_ready (takes E k) (socks5_class E ob) f h
      = Some (Inr ((f1\<lparr>tf_send_buf := b\<rparr>, False), Send (tf_sock f1) c k # h)) \<and> wf_buf b \<and> content b = drop (nat k) c"
proof -
  have L: "Length (tf_send_buf f1) = length c" "length c < 2 ^ 63"
    using length_content [OF assms(2)] assms(2,3) by (auto simp: Length_def wf_buf_def PTRDIFF_MAX_val)
  have p: "Ptr_bytes (tf_send_buf f1) 0 (Length (tf_send_buf f1)) = Inr c"
    using Ptr_bytes_content [OF assms(2), of 0 "length c"] assms(3) L(1) by simp
  have "nat k < 2 ^ 63" using assms(5) L(2) by linarith
  then obtain b where b: "Move (tf_send_buf f1) (- k) = Inr b" "wf_buf b" "content b = drop (nat k) c"
    using Move_left_ok [OF assms(2), of "nat k"] assms(3,4) by auto
  show ?thesis
    using assms(1,4) p b
    by (intro exI [of _ b])
      (auto simp: write_ready_def io_bind_def io_lift_def send_to_def io_call_def takes_def io_return_def socks5_class_def check_class_def)
qed

text \<open>The amounts the kernel takes: positive, \<open>n\<close> in all.\<close>

definition paces :: "int list \<Rightarrow> nat \<Rightarrow> bool" where
  "paces ks n \<longleftrightarrow> (\<forall>k\<in>set ks. 0 < k) \<and> sum_list ks = int n"

lemma paces_Cons:
  assumes "paces (k # ks) n"
  shows "0 < k" "k \<le> int n" "paces ks (n - nat k)"
proof -
  have "0 \<le> sum_list ks" using assms by (intro sum_list_nonneg) (auto simp: paces_def)
  then show "0 < k" "k \<le> int n" "paces ks (n - nat k)" using assms by (auto simp: paces_def)
qed

text \<open>A request that is in the buffer goes out, and nothing else.\<close>

lemma write_passes_rest:
  assumes "tf_status f = EReadWrite" "wf_buf (tf_send_buf f)" "content (tf_send_buf f) = c" "paces ks (length c)"
    and sel: "poll_ok b0 sel" "interest sel (tf_sock f) = None"
  shows "\<exists>b h'. write_passes E ob sel ks f h = Some (Inr (f\<lparr>tf_send_buf := b\<rparr>, h')) \<and> wf_buf b \<and> content b = []
    \<and> wire (tf_sock f) h' = wire (tf_sock f) h @ c"
  using assms
proof (induction ks arbitrary: f c h)
  case Nil
  then have "c = []" by (simp add: paces_def)
  with Nil show ?case by (intro exI [of _ "tf_send_buf f"] exI [of _ h]) (simp add: io_return_def)
next
  case (Cons k ks)
  note k = paces_Cons [OF Cons.prems(4)]
  have L: "Length (tf_send_buf f) = length c" "0 < length c"
    using length_content [OF Cons.prems(2)] Cons.prems(3) k(1,2) by (auto simp: Length_def)
  obtain b where b: "write_ready (takes E k) (socks5_class E ob) f (Tick (env_tick E h) # h)
      = Some (Inr ((f\<lparr>tf_send_buf := b\<rparr>, False), Send (tf_sock f) c k # Tick (env_tick E h) # h))" "wf_buf b" "content b = drop (nat k) c"
    using write_ready_sends [of f E ob "Tick (env_tick E h) # h" f c k] Cons.prems(2,3) k(1,2) L by auto
  have pass: "AfterSelect (takes E k) (socks5_class E ob) (reported (tf_sock f) POLLOUT (PreReadWriteSelect f sel)) f h
      = Some (Inr (f\<lparr>tf_send_buf := b\<rparr>, Send (tf_sock f) c k # Tick (env_tick E h) # h))"
    by (rule AfterSelect_writes [OF Cons.prems(1) b(1)]) (use Cons.prems(1) in simp_all)
  let ?g = "f\<lparr>tf_send_buf := b\<rparr>"
  have "tf_status ?g = EReadWrite" "wf_buf (tf_send_buf ?g)" "content (tf_send_buf ?g) = drop (nat k) c"
    "paces ks (length (drop (nat k) c))" "interest sel (tf_sock ?g) = None"
    using Cons.prems(1,6) b k(3) by simp_all
  from Cons.IH [OF this(1-4) sel(1) this(5), of "Send (tf_sock f) c k # Tick (env_tick E h) # h"]
  obtain b' h' where r: "write_passes E ob sel ks ?g (Send (tf_sock f) c k # Tick (env_tick E h) # h) = Some (Inr (f\<lparr>tf_send_buf := b'\<rparr>, h'))"
    "wf_buf b'" "content b' = []" "wire (tf_sock f) h' = wire (tf_sock f) (Send (tf_sock f) c k # Tick (env_tick E h) # h) @ drop (nat k) c"
    by auto
  have "asks_write sel f" using asks_write_iff [OF sel(1) Cons.prems(6)] L by simp
  with pass r(1) have "write_passes E ob sel (k # ks) f h = Some (Inr (f\<lparr>tf_send_buf := b'\<rparr>, h'))" by (simp add: io_bind_def)
  moreover have "wire (tf_sock f) h' = wire (tf_sock f) h @ c" using r(4) by simp
  ultimately show ?case using r(2,3) by blast
qed

text \<open>A request that the state machine has asked to send is written into the buffer by the first pass, and goes out.\<close>

lemma write_passes_request:
  assumes "tf_status f = EReadWrite" "tf_request_send f" "wf_buf (tf_send_buf f)" "content (tf_send_buf f) = []"
    and m: "socks5_request E f (cc_check_status f) = Some (m, st)" "paces ks (length m)"
    and sel: "poll_ok b0 sel" "interest sel (tf_sock f) = None"
  shows "\<exists>b h'. write_passes E ob sel ks f h
      = Some (Inr (f\<lparr>tf_request_send := False, tf_send_buf := b, cc_check_status := st\<rparr>, h'))
    \<and> wf_buf b \<and> content b = [] \<and> wire (tf_sock f) h' = wire (tf_sock f) h @ m"
proof -
  have "m \<noteq> []" using m(1) by (cases "cc_check_status f") (auto split: if_splits)
  then obtain k ks' where ks: "ks = k # ks'" using m(2) by (cases ks) (auto simp: paces_def)
  note k = paces_Cons [OF m(2) [unfolded ks]]
  let ?f = "f\<lparr>tf_request_send := False\<rparr>"
  have "socks5_request E ?f (cc_check_status ?f) = Some (m, st)" using m(1) socks5_request_cong [of ?f f E] by simp
  then obtain b0' where b0': "socks5_OnRequestSend E ob ?f (Tick (env_tick E h) # h)
      = Some (Inr (?f\<lparr>tf_send_buf := b0', cc_check_status := st\<rparr>, Tick (env_tick E h) # h))" "wf_buf b0'" "content b0' = m"
    using socks5_OnRequestSend_request [of ?f E m st ob "Tick (env_tick E h) # h"] assms(3) by auto
  have L: "Length (tf_send_buf f) = 0" using length_content [OF assms(3)] assms(4) by (simp add: Length_def)
  let ?f1 = "?f\<lparr>tf_send_buf := b0', cc_check_status := st\<rparr>"
  let ?h = "Send (tf_sock f) m k # Tick (env_tick E h) # h"
  obtain b where b: "write_ready (takes E k) (socks5_class E ob) f (Tick (env_tick E h) # h)
      = Some (Inr ((?f1\<lparr>tf_send_buf := b\<rparr>, False), ?h))" "wf_buf b" "content b = drop (nat k) m"
    using write_ready_sends [of f E ob "Tick (env_tick E h) # h" ?f1 m k] assms(2) b0' L k(1,2) by auto
  let ?g = "?f1\<lparr>tf_send_buf := b\<rparr>"
  have pass: "AfterSelect (takes E k) (socks5_class E ob) (reported (tf_sock f) POLLOUT (PreReadWriteSelect f sel)) f h = Some (Inr (?g, ?h))"
    by (rule AfterSelect_writes [OF assms(1) b(1)]) (use assms(1) in simp_all)
  have "tf_status ?g = EReadWrite" "wf_buf (tf_send_buf ?g)" "content (tf_send_buf ?g) = drop (nat k) m"
    "paces ks' (length (drop (nat k) m))" "interest sel (tf_sock ?g) = None"
    using assms(1) sel(2) b k(3) by simp_all
  from write_passes_rest [OF this(1-4) sel(1) this(5), of E ob ?h]
  obtain b' h' where r: "write_passes E ob sel ks' ?g ?h = Some (Inr (?g\<lparr>tf_send_buf := b'\<rparr>, h'))"
    "wf_buf b'" "content b' = []" "wire (tf_sock f) h' = wire (tf_sock f) ?h @ drop (nat k) m" by auto
  have "asks_write sel f" using asks_write_iff [OF sel] assms(2) by simp
  with pass r(1) ks have "write_passes E ob sel ks f h
      = Some (Inr (f\<lparr>tf_request_send := False, tf_send_buf := b', cc_check_status := st\<rparr>, h'))" by (simp add: io_bind_def)
  moreover have "wire (tf_sock f) h' = wire (tf_sock f) h @ m" using r(4) by simp
  ultimately show ?thesis using r(2,3) by blast
qed

section \<open>The handshake\<close>

text \<open>The rest of the life of a connection whose socket comes up: rounds of requests and answers in pieces.\<close>

fun dialogue :: "env \<Rightarrow> observer option \<Rightarrow> SocketSelect \<Rightarrow> (int list \<times> bytes list) list \<Rightarrow> 'x ProxyCheckFSM_scheme
    \<Rightarrow> 'x ProxyCheckFSM_scheme io" where
  "dialogue E ob sel [] f = io_return f"
| "dialogue E ob sel ((ks, ds) # rs) f =
     io_bind (write_passes E ob sel ks f) (\<lambda>f1. io_bind (read_passes E ob sel ds f1) (dialogue E ob sel rs))"

definition handshake :: "env \<Rightarrow> observer option \<Rightarrow> SocketSelect \<Rightarrow> (int list \<times> bytes list) list \<Rightarrow> 'x ProxyCheckFSM_scheme
    \<Rightarrow> 'x ProxyCheckFSM_scheme io" where
  "handshake E ob sel rs f =
     io_bind (AfterSelect (comes_up E) (socks5_class E ob) (reported (tf_sock f) POLLOUT sel) f) (dialogue E ob sel rs)"

text \<open>An answer in pieces none of which is empty, complete with the last piece only.\<close>

definition answers :: "TCheckStatus \<Rightarrow> bytes list \<Rightarrow> TCheckStatus \<Rightarrow> bool" where
  "answers st ds st' \<longleftrightarrow> ds \<noteq> [] \<and> (\<forall>d\<in>set ds. d \<noteq> [] \<and> length d \<le> 8192) \<and> length (concat ds) < 2 ^ 30
     \<and> socks5_answer st (concat (butlast ds)) = None \<and> socks5_answer st (concat ds) = Some st'"

definition ready :: "'x ProxyCheckFSM_scheme \<Rightarrow> bool" where
  "ready f \<longleftrightarrow> wf_buf (tf_send_buf f) \<and> content (tf_send_buf f) = [] \<and> wf_buf (tf_recv_buf f) \<and> content (tf_recv_buf f) = []"

text \<open>Before a request: connected, and the state machine wants to send.\<close>

definition eager :: "'x ProxyCheckFSM_scheme \<Rightarrow> bool" where
  "eager f \<longleftrightarrow> ready f \<and> tf_status f = EReadWrite \<and> tf_request_send f"

definition same_side :: "'x ProxyCheckFSM_scheme \<Rightarrow> 'x ProxyCheckFSM_scheme \<Rightarrow> bool" where
  "same_side f f' \<longleftrightarrow> cc_index f' = cc_index f \<and> px_destaddr f' = px_destaddr f \<and> px_username f' = px_username f
     \<and> px_password f' = px_password f \<and> tf_sock f' = tf_sock f"

lemma dialogue_round:
  assumes "eager f" "socks5_request E f (cc_check_status f) = Some (m, st)" "paces ks (length m)" "answers st ds st'" "st' \<noteq> ECheckFail"
    and sel: "poll_ok b0 sel" "interest sel (tf_sock f) = None"
  shows "\<exists>f' h' h1. dialogue E ob sel ((ks, ds) # rs) f h = dialogue E ob sel rs f' h' \<and> eager f' \<and> same_side f f'
    \<and> wire (tf_sock f) h' = wire (tf_sock f) h @ m
    \<and> cc_check_status f' = after_answer (asked_to_verify ob (cc_index f) (px_destaddr f) h1) st'"
proof -
  have st: "st \<in> {EProxySocks5GreetReq, EProxySocks5AuthReq, EProxySocks5ConnSvrReq}"
    using assms(2) by (cases "cc_check_status f") (auto split: if_splits)
  have f: "tf_status f = EReadWrite" "tf_request_send f" "wf_buf (tf_send_buf f)" "content (tf_send_buf f) = []"
    "wf_buf (tf_recv_buf f)" "content (tf_recv_buf f) = []"
    using assms(1) by (simp_all add: eager_def ready_def)
  obtain b h1 where w: "write_passes E ob sel ks f h = Some (Inr (f\<lparr>tf_request_send := False, tf_send_buf := b, cc_check_status := st\<rparr>, h1))"
      (is "_ = Some (Inr (?f1, h1))") "wf_buf b" "content b = []" "wire (tf_sock f) h1 = wire (tf_sock f) h @ m"
    using write_passes_request [OF f(1-4) assms(2,3) sel, of ob h] by blast
  have "\<exists>f2 h2. read_passes E ob sel ds ?f1 h1 = Some (Inr (f2, h2)) \<and> understood ob ?f1 ([] @ concat ds) f2
      \<and> wire (tf_sock f) h2 = wire (tf_sock f) h1"
    by (rule read_passes_answer) (use f assms(4) st in \<open>simp_all add: answers_def\<close>)
  then obtain f2 h2 where f2: "read_passes E ob sel ds ?f1 h1 = Some (Inr (f2, h2))" "understood ob ?f1 (concat ds) f2"
    "wire (tf_sock f) h2 = wire (tf_sock f) h1" by auto
  have "eager f2 \<and> same_side f f2 \<and> (\<exists>h'. cc_check_status f2 = after_answer (asked_to_verify ob (cc_index f) (px_destaddr f) h') st')"
    using f2(2) assms(4,5) w(2,3) f(1) by (auto simp: understood_def same_peer_def answers_def ready_def eager_def same_side_def)
  moreover have "dialogue E ob sel ((ks, ds) # rs) f h = dialogue E ob sel rs f2 h2" using w(1) f2(1) by (simp add: io_bind_def)
  ultimately show ?thesis using w(4) f2(3) by auto
qed

text \<open>The socket has come up: \<^verbatim>\<open>_OnConnected\<close> asks to send.\<close>

lemma AfterSelect_comes_up:
  assumes "tf_status f = EConnecting" "cc_check_status f = ECheckInit" "ready f"
  shows "\<exists>f' h'. AfterSelect (comes_up E) (socks5_class E ob) (reported (tf_sock f) POLLOUT sel) f h = Some (Inr (f', h'))
    \<and> eager f' \<and> same_side f f' \<and> cc_check_status f' = EConnProxySucc \<and> wire (tf_sock f) h' = wire (tf_sock f) h"
  using assms
  by (auto simp: AfterSelect_def AfterConnectSelect_def socks5_class_def check_class_def check_ConnectTimeout_def gettickcount_def
      socket_error_def getsockopt_error_def comes_up_def goto_status_def proxy_OnConnected_def tell_def io_bind_def io_then_def io_call_def
      io_log_def io_return_def Let_def eager_def ready_def same_side_def split: option.split)

text \<open>
  C32: the SOCKS5 handshake with a user name and a password, against a proxy that speaks RFC 1928 and 1929, from the moment the
  connection comes up: in each of three rounds the kernel takes the request in whatever pieces, as long as \<^verbatim>\<open>PreReadWriteSelect\<close> asks
  for a writable socket, and then delivers the answer in whatever pieces. The bytes that go out are the greeting that offers the
  password method, the user name and password with their lengths, and the request to connect to the destination, one per round;
  afterwards the connection is good, unless the observer wants to verify it first.
\<close>

theorem Socks5_handshake:
  assumes "tf_status f = EConnecting" "cc_check_status f = ECheckInit" "ready f" "px_username f \<noteq> []" "px_password f \<noteq> []"
    "length (px_username f) \<le> 255" "length (px_password f) \<le> 255" "poll_ok b0 sel" "interest sel (tf_sock f) = None"
    "answers EProxySocks5GreetReq g EProxySocks5GreetSucc" "answers EProxySocks5AuthReq a EProxySocks5AuthSucc"
    "answers EProxySocks5ConnSvrReq r EProxyConnSvrSucc"
    "paces k1 3" "paces k2 (3 + length (px_username f) + length (px_password f))" "paces k3 10"
  shows "\<exists>f' h' h1. handshake E ob sel [(k1, g), (k2, a), (k3, r)] f h = Some (Inr (f', h'))
    \<and> wire (tf_sock f) h' = wire (tf_sock f) h @ [5, 1, 2]
        @ [1, of_nat (length (px_username f))] @ bytes_of (px_username f) @ [of_nat (length (px_password f))] @ bytes_of (px_password f)
        @ [5, 1, 0, 1] @ inet_addr_bytes E (sa_ip (px_destaddr f)) @ htons_bytes (sa_port (px_destaddr f))
    \<and> tf_status f' = EReadWrite \<and> tf_sock f' = tf_sock f
    \<and> cc_check_status f' = (if asked_to_verify ob (cc_index f) (px_destaddr f) h1 then EProxyConnSvrSucc else ECheckOK)"
proof -
  let ?u = "px_username f" and ?p = "px_password f" and ?s = "tf_sock f"
  obtain f1 h1 where 1: "AfterSelect (comes_up E) (socks5_class E ob) (reported ?s POLLOUT sel) f h = Some (Inr (f1, h1))"
    "eager f1" "same_side f f1" "cc_check_status f1 = EConnProxySucc" "wire ?s h1 = wire ?s h"
    using AfterSelect_comes_up [OF assms(1-3)] by blast
  note s1 = 1(3) [unfolded same_side_def]
  have q: "socks5_request E f1 (cc_check_status f1) = Some ([5, 1, 2], EProxySocks5GreetReq)" "paces k1 (length [5, 1, 2 :: byte])"
    using 1 s1 assms(4,5,13) by (simp_all add: with_password_def numeral_3_eq_3)
  obtain f2 h2 where 2: "dialogue E ob sel [(k1, g), (k2, a), (k3, r)] f1 h1 = dialogue E ob sel [(k2, a), (k3, r)] f2 h2"
    "eager f2" "same_side f f2" "wire ?s h2 = wire ?s h1 @ [5, 1, 2]" "cc_check_status f2 = EProxySocks5GreetSucc"
    using dialogue_round [OF 1(2) q assms(10) _ assms(8), of ob "[(k2, a), (k3, r)]" h1] s1 assms(9)
    by (auto simp: after_answer_def same_side_def)
  note s2 = 2(3) [unfolded same_side_def]
  let ?auth = "[1, of_nat (length ?u)] @ bytes_of ?u @ [of_nat (length ?p)] @ bytes_of ?p"
  have q: "socks5_request E f2 (cc_check_status f2) = Some (?auth, EProxySocks5AuthReq)" "paces k2 (length ?auth)"
    using 2(5) s2 s1 assms(4-7,14) by (simp_all add: with_password_def numeral_3_eq_3)
  obtain f3 h3 where 3: "dialogue E ob sel [(k2, a), (k3, r)] f2 h2 = dialogue E ob sel [(k3, r)] f3 h3"
    "eager f3" "same_side f f3" "wire ?s h3 = wire ?s h2 @ ?auth" "cc_check_status f3 = EProxySocks5AuthSucc"
    using dialogue_round [OF 2(2) q assms(11) _ assms(8), of ob "[(k3, r)]" h2] s2 assms(9)
    by (auto simp: after_answer_def same_side_def)
  note s3 = 3(3) [unfolded same_side_def]
  let ?connect = "[5, 1, 0, 1] @ inet_addr_bytes E (sa_ip (px_destaddr f)) @ htons_bytes (sa_port (px_destaddr f))"
  have "length (inet_addr_bytes E ip) = 4" for ip by (simp add: inet_addr_bytes_def split: prod.split)
  then have "length ?connect = 10" by (simp add: htons_bytes_def)
  then have q: "socks5_request E f3 (cc_check_status f3) = Some (?connect, EProxySocks5ConnSvrReq)" "paces k3 (length ?connect)"
    using 3(5) s3 s2 s1 assms(15) by simp_all
  obtain f4 h4 h' where 4: "dialogue E ob sel [(k3, r)] f3 h3 = Some (Inr (f4, h4))"
    "eager f4" "same_side f f4" "wire ?s h4 = wire ?s h3 @ ?connect"
    "cc_check_status f4 = after_answer (asked_to_verify ob (cc_index f) (px_destaddr f) h') EProxyConnSvrSucc"
    using dialogue_round [OF 3(2) q assms(12) _ assms(8), of ob "[]" h3] s3 assms(9)
    by (auto simp: same_side_def io_return_def)
  have "handshake E ob sel [(k1, g), (k2, a), (k3, r)] f h = Some (Inr (f4, h4))"
    using 1(1) 2(1) 3(1) 4(1) by (simp only: handshake_def io_bind_def option.case sum.case prod.case)
  with 1(5) 2(4) 3(4) 4(2-5) show ?thesis
    by (intro exI [of _ f4] exI [of _ h4] exI [of _ h']) (simp add: after_answer_def eager_def same_side_def)
qed

definition ex_proxy_conn :: ProxyCheckFSM where
  "ex_proxy_conn = ConnectCheckFSM.extend
     (TcpClientFSM.extend ((TcpClientFSM_new \<lparr>sa_ip = ''10.0.0.2'', sa_port = 1080\<rparr>)\<lparr>tf_status := EConnecting, tf_sock := 7\<rparr>)
       \<lparr>cc_connect_timeout = 4000, cc_index = 0, cc_check_status = ECheckInit, cc_checkfintime = 0\<rparr>)
     \<lparr>px_destaddr = \<lparr>sa_ip = ''127.0.0.1'', sa_port = 443\<rparr>, px_username = ''me'', px_password = ''pw''\<rparr>"

definition ex_sel :: SocketSelect where
  "ex_sel = SocketSelect_new \<lparr>brk_pipe0 = 3, brk_pipe1 = 4, brk_create_success = True, brk_broken = False\<rparr> False"

theorem Socks5_handshake_witness:
  "\<exists>f' h'. handshake (ex_env (\<lambda>_ _ _. (0, \<lambda>_. 0))) None ex_sel
      [([3], [[5], [2]]), ([1, 6], [[1, 0]]), ([4, 6], [[5, 0, 0], [1, 10, 0, 0], [1, 0, 80]])] ex_proxy_conn [] = Some (Inr (f', h'))
    \<and> wire 7 h' = [5, 1, 2, 1, 2, 109, 101, 2, 112, 119, 5, 1, 0, 1, 127, 0, 0, 1, 1, 187] \<and> cc_check_status f' = ECheckOK"
proof -
  let ?f = ex_proxy_conn and ?E = "ex_env (\<lambda>_ _ _. (0, \<lambda>_. 0))"
  have f: "tf_status ?f = EConnecting" "cc_check_status ?f = ECheckInit" "ready ?f" "px_username ?f = ''me''" "px_password ?f = ''pw''"
    "px_destaddr ?f = \<lparr>sa_ip = ''127.0.0.1'', sa_port = 443\<rparr>" "tf_sock ?f = 7"
    using wf_buf_new [of 128]
    by (simp_all add: ex_proxy_conn_def ConnectCheckFSM.defs TcpClientFSM.defs TcpClientFSM_new_def ready_def)
  have a: "answers EProxySocks5GreetReq [[5], [2]] EProxySocks5GreetSucc" "answers EProxySocks5AuthReq [[1, 0]] EProxySocks5AuthSucc"
    "answers EProxySocks5ConnSvrReq [[5, 0, 0], [1, 10, 0, 0], [1, 0, 80]] EProxyConnSvrSucc"
    by (simp_all add: answers_def socks5_answer_def answer_size_def)
  have s: "poll_ok 3 ex_sel" "interest ex_sel (tf_sock ?f) = None"
    by (simp_all add: f(7) ex_sel_def SocketSelect_new_def SocketPoll_new_def poll_ok_def interest_def BreakerFD_def)
  have k: "paces [3] 3" "paces [1, 6] (3 + length (px_username ?f) + length (px_password ?f))" "paces [4, 6] 10"
    by (simp_all add: paces_def f)
  have len: "px_username ?f \<noteq> []" "px_password ?f \<noteq> []" "length (px_username ?f) \<le> 255" "length (px_password ?f) \<le> 255"
    by (simp_all add: f)
  have ms: "inet_addr_bytes ?E (sa_ip (px_destaddr ?f)) = [127, 0, 0, 1]" "htons_bytes (sa_port (px_destaddr ?f)) = [1, 187]"
    "bytes_of (px_username ?f) = [109, 101]" "bytes_of (px_password ?f) = [112, 119]"
    by (simp_all add: f inet_addr_bytes_def htons_bytes_def ex_env_def byte_of_def)
  from Socks5_handshake [OF f(1-3) len s a k, of ?E None "[]"] show ?thesis
    unfolding ms by (auto simp: asked_to_verify_def f)
qed

end
