(* ===== verification/Thread_Ref.thy ===== *)
theory Thread_Ref
  imports Comm_Prelude
begin

text \<open>
  \<^verbatim>\<open>Thread\<close> of src/mars/comm/unix/thread/thread.h with the condition variable of condition.h. A \<^verbatim>\<open>Thread\<close> object and the
  pthreads it starts share a reference-counted \<^verbatim>\<open>RunnableReference\<close>; whoever drops the last reference deletes it. Every
  access under the spin lock \<^verbatim>\<open>splock\<close> is one step; a pthread's routine is a program counter over the steps between
  them. Touching a deleted \<^verbatim>\<open>RunnableReference\<close> is the fault \<open>Use_After_Free\<close>. What the kernel answers to
  \<^verbatim>\<open>pthread_create\<close> is a parameter of the call; joining or detaching a pthread that was joined or detached before is
  recorded in \<open>tr_misuse\<close> (its effect is undefined).
\<close>

section \<open>State\<close>

record 'f RunnableReference =
  rr_target :: "'f option"
  rr_count :: int
  rr_tid :: nat
  rr_isjoined :: bool
  rr_isended :: bool
  rr_aftertime :: int
  rr_periodictime :: int
  rr_iscanceldelaystart :: bool
  rr_anyway_notify :: bool
  rr_isinthread :: bool
  rr_killsig :: int
  rr_thread_name :: string

datatype routine = R_Start | R_After | R_Periodic

text \<open>
  Where a pthread stands: before \<^verbatim>\<open>init\<close>; at the first test; entering \<^verbatim>\<open>Condition::wait\<close>, between its test of
  \<^verbatim>\<open>anyway_notify_\<close> and the system call, inside it, behind it; at the test before the target; in the target; at the test
  behind it; before \<^verbatim>\<open>cleanup\<close>; ended.
\<close>

datatype thread_pc = TP_Init | TP_First | TP_Enter | TP_Sleepy | TP_Blocked | TP_Leave | TP_Check | TP_Run | TP_Again
  | TP_Cleanup | TP_Ended

datatype handle = Joinable | Joined | Detached

record pthread =
  pt_routine :: routine
  pt_pc :: thread_pc
  pt_handle :: handle

record 'f threads =
  tr_ref :: "'f RunnableReference option"
  tr_object :: bool
  tr_outside_join :: bool
  tr_pthreads :: "nat \<rightharpoonup> pthread"
  tr_joiner :: "nat option"
  tr_runs :: "(nat \<times> 'f) list"
  tr_kills :: "(nat \<times> int) list"
  tr_misuse :: "nat list"

definition LONG_MAX :: int where "LONG_MAX = 2 ^ 63 - 1"
definition EDEADLK :: int where "EDEADLK = 35"
definition ESRCH :: int where "ESRCH = 3"

definition RunnableReference_new :: "'f option \<Rightarrow> 'f RunnableReference" where
  "RunnableReference_new target = \<lparr>rr_target = target, rr_count = 0, rr_tid = 0, rr_isjoined = False, rr_isended = True,
     rr_aftertime = LONG_MAX, rr_periodictime = LONG_MAX, rr_iscanceldelaystart = False, rr_anyway_notify = False,
     rr_isinthread = False, rr_killsig = 0, rr_thread_name = []\<rparr>"

definition Thread_new :: "'f option \<Rightarrow> string option \<Rightarrow> bool \<Rightarrow> 'f threads" where
  "Thread_new target name outside_join =
     \<lparr>tr_ref = Some ((RunnableReference_new target)\<lparr>rr_count := 1,
        rr_thread_name := (case name of None \<Rightarrow> [] | Some n \<Rightarrow> take 128 n)\<rparr>),
      tr_object = True, tr_outside_join = outside_join, tr_pthreads = Map.empty, tr_joiner = None, tr_runs = [],
      tr_kills = [], tr_misuse = []\<rparr>"

definition with_ref :: "'f threads \<Rightarrow> ('f RunnableReference \<Rightarrow> 'a result) \<Rightarrow> 'a result" where
  "with_ref s f = (case tr_ref s of None \<Rightarrow> Inl Use_After_Free | Some r \<Rightarrow> f r)"

definition set_ref :: "'f RunnableReference \<Rightarrow> 'f threads \<Rightarrow> 'f threads" where
  "set_ref r s = s\<lparr>tr_ref := Some r\<rparr>"

text \<open>\<^verbatim>\<open>RemoveRef\<close>: the last one deletes the object.\<close>

definition RemoveRef :: "'f threads \<Rightarrow> 'f threads result" where
  "RemoveRef s = with_ref s (\<lambda>r.
     let r' = r\<lparr>rr_count := rr_count r - 1\<rparr> in
     Inr (if rr_count r' = 0 then s\<lparr>tr_ref := None\<rparr> else set_ref r' s))"

section \<open>pthreads\<close>

text \<open>The answer of \<^verbatim>\<open>pthread_create\<close>: a new thread, or an error and what is then found in the place for the id.\<close>

datatype created = Created nat | Failed int nat

definition end_handle :: "handle \<Rightarrow> nat \<Rightarrow> 'f threads \<Rightarrow> 'f threads" where
  "end_handle hdl t s =
     (case tr_pthreads s t of
        Some p \<Rightarrow> if pt_handle p = Joinable then s\<lparr>tr_pthreads := (tr_pthreads s)(t \<mapsto> p\<lparr>pt_handle := hdl\<rparr>)\<rparr>
                  else s\<lparr>tr_misuse := t # tr_misuse s\<rparr>
      | None \<Rightarrow> s\<lparr>tr_misuse := t # tr_misuse s\<rparr>)"

definition detach_old :: "'f RunnableReference \<Rightarrow> 'f threads \<Rightarrow> 'f threads" where
  "detach_old r s = (if 0 \<noteq> rr_tid r \<and> \<not> rr_isjoined r then end_handle Detached (rr_tid r) s else s)"

definition spawn ::
  "routine \<Rightarrow> created \<Rightarrow> ('f RunnableReference \<Rightarrow> 'f RunnableReference) \<Rightarrow> 'f RunnableReference \<Rightarrow> 'f threads
    \<Rightarrow> (int \<times> 'f threads) result" where
  "spawn k out reset r s =
     (let r1 = r\<lparr>rr_count := rr_count r + 1\<rparr> in
      case out of
        Created t \<Rightarrow>
          Inr (0, (set_ref (r1\<lparr>rr_tid := t\<rparr>) s)
                    \<lparr>tr_pthreads := (tr_pthreads s)(t \<mapsto> \<lparr>pt_routine = k, pt_pc = TP_Init, pt_handle = Joinable\<rparr>)\<rparr>)
      | Failed e t \<Rightarrow>
          rbind (RemoveRef (set_ref (reset (r1\<lparr>rr_tid := t, rr_isended := True\<rparr>)) s)) (\<lambda>s'. Inr (e, s')))"

section \<open>The operations of a Thread\<close>

definition Thread_delete :: "'f threads \<Rightarrow> 'f threads result" where
  "Thread_delete s = with_ref s (\<lambda>r. RemoveRef ((detach_old r s)\<lparr>tr_object := False\<rparr>))"

definition isruning :: "'f threads \<Rightarrow> bool result" where
  "isruning s = with_ref s (\<lambda>r. Inr (\<not> rr_isended r))"

definition Thread_start :: "created \<Rightarrow> 'f threads \<Rightarrow> (int \<times> 'f threads) result" where
  "Thread_start out s = with_ref s (\<lambda>r.
     if \<not> rr_isended r then Inr (0, s)
     else spawn R_Start out id (r\<lparr>rr_isended := False, rr_isjoined := tr_outside_join s\<rparr>) (detach_old r s))"

definition Thread_start_op :: "'f \<Rightarrow> created \<Rightarrow> 'f threads \<Rightarrow> (int \<times> 'f threads) result" where
  "Thread_start_op f out s = with_ref s (\<lambda>r.
     if \<not> rr_isended r then Inr (0, s)
     else spawn R_Start out id (r\<lparr>rr_target := Some f, rr_isended := False, rr_isjoined := tr_outside_join s\<rparr>) (detach_old r s))"

definition Thread_start_after :: "int \<Rightarrow> created \<Rightarrow> 'f threads \<Rightarrow> (int \<times> 'f threads) result" where
  "Thread_start_after after out s = with_ref s (\<lambda>r.
     if \<not> rr_isended r then Inr (0, s)
     else spawn R_After out (\<lambda>r. r\<lparr>rr_aftertime := LONG_MAX\<rparr>)
            (r\<lparr>rr_anyway_notify := False, rr_isjoined := tr_outside_join s, rr_isended := False, rr_aftertime := after,
               rr_iscanceldelaystart := False\<rparr>) (detach_old r s))"

definition Thread_start_periodic :: "int \<Rightarrow> int \<Rightarrow> created \<Rightarrow> 'f threads \<Rightarrow> (int \<times> 'f threads) result" where
  "Thread_start_periodic after periodic out s = with_ref s (\<lambda>r.
     if \<not> rr_isended r then Inr (0, s)
     else spawn R_Periodic out (\<lambda>r. r\<lparr>rr_aftertime := LONG_MAX, rr_periodictime := LONG_MAX\<rparr>)
            (r\<lparr>rr_anyway_notify := False, rr_isended := False, rr_isjoined := tr_outside_join s, rr_iscanceldelaystart := False,
               rr_aftertime := after, rr_periodictime := periodic\<rparr>) (detach_old r s))"

text \<open>\<^verbatim>\<open>Condition::notifyAll(true)\<close>: the flag, and a broadcast, which reaches who is inside the system call.\<close>

definition wake :: "pthread \<Rightarrow> pthread" where
  "wake p = (if pt_pc p = TP_Blocked then p\<lparr>pt_pc := TP_Leave\<rparr> else p)"

definition notifyAll :: "'f RunnableReference \<Rightarrow> 'f threads \<Rightarrow> 'f threads" where
  "notifyAll r s = (set_ref (r\<lparr>rr_anyway_notify := True\<rparr>) s)\<lparr>tr_pthreads := map_option wake \<circ> tr_pthreads s\<rparr>"

text \<open>\<^verbatim>\<open>cancel_after\<close> and \<^verbatim>\<open>cancel_periodic\<close> have the same body.\<close>

definition Thread_cancel :: "'f threads \<Rightarrow> 'f threads result" where
  "Thread_cancel s = with_ref s (\<lambda>r.
     if rr_isended r then Inr s else Inr (notifyAll (r\<lparr>rr_iscanceldelaystart := True\<rparr>) s))"

text \<open>
  \<^verbatim>\<open>join\<close> called by the thread \<open>me\<close>: up to the unlock, and the return of \<^verbatim>\<open>pthread_join\<close>, for which \<open>tr_joiner\<close> is the thread
  waited for.
\<close>

definition Thread_join :: "nat \<Rightarrow> 'f threads \<Rightarrow> (int \<times> 'f threads) result" where
  "Thread_join me s = with_ref s (\<lambda>r.
     if rr_tid r = me then Inr (EDEADLK, s)
     else if \<not> rr_isended r then Inr (0, (set_ref (r\<lparr>rr_isjoined := True\<rparr>) s)\<lparr>tr_joiner := Some (rr_tid r)\<rparr>)
     else Inr (0, s))"

definition Thread_joined :: "nat \<Rightarrow> 'f threads \<Rightarrow> 'f threads" where
  "Thread_joined t s = (end_handle Joined t s)\<lparr>tr_joiner := None\<rparr>"

definition Thread_kill :: "int \<Rightarrow> 'f threads \<Rightarrow> (int \<times> 'f threads) result" where
  "Thread_kill sig s = with_ref s (\<lambda>r.
     if rr_isended r then Inr (ESRCH, s)
     else if \<not> rr_isinthread r then Inr (0, set_ref (r\<lparr>rr_killsig := sig\<rparr>) s)
     else Inr (0, s\<lparr>tr_kills := (rr_tid r, sig) # tr_kills s\<rparr>))"

section \<open>The routines of a pthread\<close>

definition goto_pc :: "nat \<Rightarrow> thread_pc \<Rightarrow> 'f threads \<Rightarrow> 'f threads" where
  "goto_pc t pc s = s\<lparr>tr_pthreads := (tr_pthreads s)(t := map_option (\<lambda>p. p\<lparr>pt_pc := pc\<rparr>) (tr_pthreads s t))\<rparr>"

definition begin_step :: "nat \<Rightarrow> 'f threads \<Rightarrow> 'f threads result" where
  "begin_step t s = with_ref s (\<lambda>r.
     let s1 = goto_pc t TP_First (set_ref (r\<lparr>rr_isinthread := True\<rparr>) s) in
     Inr (if 0 < rr_killsig r \<and> rr_killsig r \<le> 32 then s1\<lparr>tr_kills := (t, rr_killsig r) # tr_kills s1\<rparr> else s1))"

definition cleanup_step :: "nat \<Rightarrow> 'f threads \<Rightarrow> 'f threads result" where
  "cleanup_step t s = with_ref s (\<lambda>r.
     RemoveRef (goto_pc t TP_Ended (set_ref (r\<lparr>rr_isinthread := False, rr_killsig := 0, rr_isended := True\<rparr>) s)))"

text \<open>\<^verbatim>\<open>if (!runableref->iscanceldelaystart)\<close>\<close>

definition test_cancel :: "nat \<Rightarrow> thread_pc \<Rightarrow> thread_pc \<Rightarrow> 'f threads \<Rightarrow> 'f threads result" where
  "test_cancel t cancelled go_on s = with_ref s (\<lambda>r. Inr (goto_pc t (if rr_iscanceldelaystart r then cancelled else go_on) s))"

definition run_step :: "nat \<Rightarrow> routine \<Rightarrow> 'f threads \<Rightarrow> 'f threads result" where
  "run_step t k s = with_ref s (\<lambda>r. case rr_target r of
     None \<Rightarrow> Inl Null_Deref
   | Some f \<Rightarrow> Inr (goto_pc t (if k = R_Periodic then TP_Again else TP_Cleanup) (s\<lparr>tr_runs := (t, f) # tr_runs s\<rparr>)))"

text \<open>\<^verbatim>\<open>Condition::wait(lock, millisecond)\<close>: \<^verbatim>\<open>if (!atomic_cas32(&anyway_notify_, 0, 1))\<close>, and the reset behind the call.\<close>

definition enter_step :: "nat \<Rightarrow> 'f threads \<Rightarrow> 'f threads result" where
  "enter_step t s = with_ref s (\<lambda>r.
     Inr (if rr_anyway_notify r then goto_pc t TP_Leave (set_ref (r\<lparr>rr_anyway_notify := False\<rparr>) s) else goto_pc t TP_Sleepy s))"

definition leave_step :: "nat \<Rightarrow> 'f threads \<Rightarrow> 'f threads result" where
  "leave_step t s = with_ref s (\<lambda>r. Inr (goto_pc t TP_Check (set_ref (r\<lparr>rr_anyway_notify := False\<rparr>) s)))"

definition pthread_step :: "nat \<Rightarrow> pthread \<Rightarrow> 'f threads \<Rightarrow> 'f threads result" where
  "pthread_step t p s =
     (case pt_pc p of
        TP_Init \<Rightarrow> begin_step t s
      | TP_First \<Rightarrow> if pt_routine p = R_Start then Inr (goto_pc t TP_Run s) else test_cancel t TP_Cleanup TP_Enter s
      | TP_Enter \<Rightarrow> enter_step t s
      | TP_Sleepy \<Rightarrow> Inr (goto_pc t TP_Blocked s)
      | TP_Leave \<Rightarrow> leave_step t s
      | TP_Check \<Rightarrow> test_cancel t TP_Cleanup TP_Run s
      | TP_Run \<Rightarrow> run_step t (pt_routine p) s
      | TP_Again \<Rightarrow> test_cancel t TP_Check TP_Enter s
      | TP_Cleanup \<Rightarrow> cleanup_step t s
      | _ \<Rightarrow> Inr s)"

section \<open>Runs\<close>

datatype 'f thread_event =
    E_Start created
  | E_Start_op 'f created
  | E_Start_after int created
  | E_Start_periodic int int created
  | E_Cancel
  | E_Kill int
  | E_Join nat
  | E_Joined
  | E_Delete
  | E_Step nat
  | E_Timeout nat

definition state_of :: "('r \<times> 's) result \<Rightarrow> 's result" where
  "state_of x = rbind x (\<lambda>(_, s). Inr s)"

fun exec :: "'f thread_event \<Rightarrow> 'f threads \<Rightarrow> 'f threads result" where
  "exec (E_Start out) s = state_of (Thread_start out s)"
| "exec (E_Start_op f out) s = state_of (Thread_start_op f out s)"
| "exec (E_Start_after a out) s = state_of (Thread_start_after a out s)"
| "exec (E_Start_periodic a p out) s = state_of (Thread_start_periodic a p out s)"
| "exec E_Cancel s = Thread_cancel s"
| "exec (E_Kill sig) s = state_of (Thread_kill sig s)"
| "exec (E_Join me) s = state_of (Thread_join me s)"
| "exec E_Joined s = (case tr_joiner s of None \<Rightarrow> Inr s | Some t \<Rightarrow> Inr (Thread_joined t s))"
| "exec E_Delete s = Thread_delete s"
| "exec (E_Step t) s = (case tr_pthreads s t of None \<Rightarrow> Inr s | Some p \<Rightarrow> pthread_step t p s)"
| "exec (E_Timeout t) s = Inr (goto_pc t TP_Leave s)"

text \<open>
  What a client may do: use the object while it exists, set a target before starting it, and leave it alone while somebody
  joins it; \<^verbatim>\<open>pthread_create\<close> gives new ids. A pthread steps when it is not blocked; a blocked one may wake at any time.
\<close>

fun fresh_id :: "created \<Rightarrow> 'f threads \<Rightarrow> bool" where
  "fresh_id (Created t) s \<longleftrightarrow> t \<noteq> 0 \<and> tr_pthreads s t = None"
| "fresh_id (Failed e t) s \<longleftrightarrow> (\<forall>r. tr_ref s = Some r \<longrightarrow> t = rr_tid r)"

definition free_object :: "'f threads \<Rightarrow> bool" where
  "free_object s \<longleftrightarrow> tr_object s \<and> tr_joiner s = None"

definition has_target :: "'f threads \<Rightarrow> bool" where
  "has_target s \<longleftrightarrow> (\<forall>r. tr_ref s = Some r \<longrightarrow> rr_target r \<noteq> None)"

fun allowed :: "'f thread_event \<Rightarrow> 'f threads \<Rightarrow> bool" where
  "allowed (E_Start out) s \<longleftrightarrow> free_object s \<and> fresh_id out s \<and> has_target s"
| "allowed (E_Start_op f out) s \<longleftrightarrow> free_object s \<and> fresh_id out s"
| "allowed (E_Start_after a out) s \<longleftrightarrow> free_object s \<and> fresh_id out s \<and> has_target s"
| "allowed (E_Start_periodic a p out) s \<longleftrightarrow> free_object s \<and> fresh_id out s \<and> has_target s"
| "allowed E_Cancel s \<longleftrightarrow> tr_object s"
| "allowed (E_Kill sig) s \<longleftrightarrow> tr_object s"
| "allowed (E_Join me) s \<longleftrightarrow> free_object s \<and> \<not> tr_outside_join s"
| "allowed E_Joined s \<longleftrightarrow> (\<exists>t p. tr_joiner s = Some t \<and> tr_pthreads s t = Some p \<and> pt_pc p = TP_Ended)"
| "allowed E_Delete s \<longleftrightarrow> free_object s"
| "allowed (E_Step t) s \<longleftrightarrow> (\<exists>p. tr_pthreads s t = Some p \<and> pt_pc p \<notin> {TP_Blocked, TP_Ended})"
| "allowed (E_Timeout t) s \<longleftrightarrow> (\<exists>p. tr_pthreads s t = Some p \<and> pt_pc p = TP_Blocked)"

text \<open>Runs whose events all satisfy \<open>P\<close>.\<close>

inductive thread_run :: "('f thread_event \<Rightarrow> bool) \<Rightarrow> 'f threads \<Rightarrow> 'f threads \<Rightarrow> bool" for P s0 where
  run_refl: "thread_run P s0 s0"
| run_step: "thread_run P s0 s \<Longrightarrow> P e \<Longrightarrow> allowed e s \<Longrightarrow> exec e s = Inr s' \<Longrightarrow> thread_run P s0 s'"

end
