(* ===== verification/Thread_Safe.thy ===== *)
theory Thread_Safe
  imports Thread_Ref
begin

text \<open>
  The reference count of a \<^verbatim>\<open>Thread\<close>: over all interleavings of its client and its pthreads nobody touches a deleted
  \<^verbatim>\<open>RunnableReference\<close>, it is deleted when the last user goes, at most one pthread runs at a time, and every pthread is
  joined or detached once.
\<close>

section \<open>The invariant\<close>

definition is_live :: "'f threads \<Rightarrow> nat \<Rightarrow> bool" where
  "is_live s t \<longleftrightarrow> (\<exists>p. tr_pthreads s t = Some p \<and> pt_pc p \<noteq> TP_Ended)"

definition pc_of :: "'f threads \<Rightarrow> nat \<Rightarrow> thread_pc" where
  "pc_of s t = (case tr_pthreads s t of None \<Rightarrow> TP_Ended | Some p \<Rightarrow> pt_pc p)"

lemma is_live_pc: "is_live s t \<longleftrightarrow> pc_of s t \<noteq> TP_Ended"
  by (auto simp: is_live_def pc_of_def split: option.splits)

text \<open>The count is one for the object and one for the pthread that is not over.\<close>

definition ref_inv :: "'f threads \<Rightarrow> 'f RunnableReference \<Rightarrow> bool" where
  "ref_inv s r \<longleftrightarrow>
     (if rr_isended r then tr_object s \<and> rr_count r = 1 \<and> \<not> rr_isinthread r \<and> (\<forall>t. \<not> is_live s t)
      else rr_count r = (if tr_object s then 2 else 1) \<and> rr_tid r \<noteq> 0 \<and> rr_target r \<noteq> None
        \<and> (\<forall>t. is_live s t \<longleftrightarrow> t = rr_tid r) \<and> (rr_isinthread r \<longleftrightarrow> pc_of s (rr_tid r) \<noteq> TP_Init))"

definition joiner_inv :: "'f threads \<Rightarrow> bool" where
  "joiner_inv s \<longleftrightarrow> (\<forall>t. tr_joiner s = Some t \<longrightarrow> tr_object s \<and> tr_pthreads s t \<noteq> None
     \<and> (\<exists>r. tr_ref s = Some r \<and> rr_tid r = t))"

definition thread_inv :: "'f threads \<Rightarrow> bool" where
  "thread_inv s \<longleftrightarrow> joiner_inv s \<and>
     (case tr_ref s of None \<Rightarrow> \<not> tr_object s \<and> (\<forall>t. \<not> is_live s t) | Some r \<Rightarrow> ref_inv s r)"

lemma thread_inv_new: "thread_inv (Thread_new f name oj)"
  by (simp add: thread_inv_def joiner_inv_def ref_inv_def Thread_new_def RunnableReference_new_def is_live_def)

lemma thread_inv_object: "thread_inv s \<Longrightarrow> tr_object s \<Longrightarrow> \<exists>r. tr_ref s = Some r \<and> ref_inv s r"
  by (auto simp: thread_inv_def split: option.splits)

lemma thread_inv_live: "thread_inv s \<Longrightarrow> is_live s t \<Longrightarrow> \<exists>r. tr_ref s = Some r \<and> ref_inv s r \<and> \<not> rr_isended r \<and> rr_tid r = t"
  by (auto simp: thread_inv_def ref_inv_def split: option.splits if_splits)

section \<open>How the steps change the state\<close>

lemma set_ref_simps [simp]:
  "tr_ref (set_ref r s) = Some r" "tr_object (set_ref r s) = tr_object s" "tr_outside_join (set_ref r s) = tr_outside_join s"
  "tr_pthreads (set_ref r s) = tr_pthreads s" "tr_joiner (set_ref r s) = tr_joiner s" "tr_runs (set_ref r s) = tr_runs s"
  "tr_kills (set_ref r s) = tr_kills s" "tr_misuse (set_ref r s) = tr_misuse s"
  by (simp_all add: set_ref_def)

lemma goto_pc_simps [simp]:
  "tr_ref (goto_pc t pc s) = tr_ref s" "tr_object (goto_pc t pc s) = tr_object s" "tr_outside_join (goto_pc t pc s) = tr_outside_join s"
  "tr_joiner (goto_pc t pc s) = tr_joiner s" "tr_runs (goto_pc t pc s) = tr_runs s" "tr_kills (goto_pc t pc s) = tr_kills s"
  "tr_misuse (goto_pc t pc s) = tr_misuse s"
  "tr_pthreads (goto_pc t pc s) t' = (if t' = t then map_option (\<lambda>p. p\<lparr>pt_pc := pc\<rparr>) (tr_pthreads s t) else tr_pthreads s t')"
  by (simp_all add: goto_pc_def)

lemma end_handle_simps [simp]:
  "tr_ref (end_handle h t s) = tr_ref s" "tr_object (end_handle h t s) = tr_object s"
  "tr_outside_join (end_handle h t s) = tr_outside_join s" "tr_joiner (end_handle h t s) = tr_joiner s"
  "tr_runs (end_handle h t s) = tr_runs s"
  by (simp_all add: end_handle_def split: option.splits)

lemma pc_of_cong: "tr_pthreads s' = tr_pthreads s \<Longrightarrow> pc_of s' t = pc_of s t"
  by (simp add: pc_of_def)

lemma pc_of_end_handle [simp]: "pc_of (end_handle h t s) t' = pc_of s t'"
  "tr_pthreads (end_handle h t s) t' = None \<longleftrightarrow> tr_pthreads s t' = None"
  by (auto simp: pc_of_def end_handle_def split: option.splits)

lemma detach_old_simps [simp]:
  "tr_ref (detach_old r s) = tr_ref s" "tr_object (detach_old r s) = tr_object s" "tr_outside_join (detach_old r s) = tr_outside_join s"
  "tr_joiner (detach_old r s) = tr_joiner s" "pc_of (detach_old r s) t = pc_of s t" "tr_runs (detach_old r s) = tr_runs s"
  "tr_pthreads (detach_old r s) t = None \<longleftrightarrow> tr_pthreads s t = None"
  by (simp_all add: detach_old_def)

lemma pc_of_set_ref [simp]: "pc_of (set_ref r s) t = pc_of s t"
  by (simp add: pc_of_def)

lemma pc_of_goto [simp]: "pc_of (goto_pc t pc s) t' = (if t' = t \<and> tr_pthreads s t \<noteq> None then pc else pc_of s t')"
  by (auto simp: pc_of_def)

lemma pc_of_updates [simp]:
  "pc_of (s\<lparr>tr_object := b\<rparr>) t = pc_of s t" "pc_of (s\<lparr>tr_joiner := j\<rparr>) t = pc_of s t" "pc_of (s\<lparr>tr_runs := rs\<rparr>) t = pc_of s t"
  "pc_of (s\<lparr>tr_kills := ks\<rparr>) t = pc_of s t" "pc_of (s\<lparr>tr_ref := ro\<rparr>) t = pc_of s t"
  by (simp_all add: pc_of_def)

lemma pc_of_notifyAll [simp]: "pc_of (notifyAll r s) t = (if pc_of s t = TP_Blocked then TP_Leave else pc_of s t)"
  by (auto simp: pc_of_def notifyAll_def wake_def split: option.splits)

lemma notifyAll_simps [simp]:
  "tr_ref (notifyAll r s) = Some (r\<lparr>rr_anyway_notify := True\<rparr>)" "tr_object (notifyAll r s) = tr_object s"
  "tr_outside_join (notifyAll r s) = tr_outside_join s" "tr_joiner (notifyAll r s) = tr_joiner s" "tr_runs (notifyAll r s) = tr_runs s"
  "tr_pthreads (notifyAll r s) t = None \<longleftrightarrow> tr_pthreads s t = None" "tr_misuse (notifyAll r s) = tr_misuse s"
  by (simp_all add: notifyAll_def)

lemma live_SomeD: "pc_of s t \<noteq> TP_Ended \<Longrightarrow> \<exists>p. tr_pthreads s t = Some p"
  by (auto simp: pc_of_def split: option.splits)

lemmas thread_simps = thread_inv_def ref_inv_def joiner_inv_def is_live_pc with_ref_def RemoveRef_def Let_def

section \<open>Every event keeps the invariant and does not fault\<close>

definition safe :: "'f threads result \<Rightarrow> bool" where
  "safe x \<longleftrightarrow> (\<exists>s'. x = Inr s' \<and> thread_inv s')"

lemma safe_Inr [simp]: "safe (Inr s) \<longleftrightarrow> thread_inv s"
  by (simp add: safe_def)

text \<open>Starting: the reference is taken before the pthread exists and given back when there is none.\<close>

lemma spawn_safe:
  assumes inv: "thread_inv s" and obj: "free_object s" and fresh: "fresh_id out s" and ref: "tr_ref s = Some r0" "rr_isended r0"
    and r: "rr_count r = rr_count r0" "\<not> rr_isinthread r" "rr_target r \<noteq> None" "\<not> rr_isended r"
    and reset: "\<And>x. rr_count (reset x) = rr_count x" "\<And>x. rr_isended (reset x) = rr_isended x"
      "\<And>x. rr_isinthread (reset x) = rr_isinthread x"
  shows "safe (state_of (spawn k out reset r (detach_old r0 s)))"
proof (cases out)
  case (Created t)
  then have t: "t \<noteq> 0" "tr_pthreads s t = None" using fresh by auto
  let ?s = "detach_old r0 s"
  have "pc_of (x\<lparr>tr_pthreads := (tr_pthreads ?s)(t \<mapsto> \<lparr>pt_routine = k, pt_pc = TP_Init, pt_handle = Joinable\<rparr>)\<rparr>) t'
      = (if t' = t then TP_Init else pc_of s t')" for x :: "'a threads" and t'
    using detach_old_simps(5) [of r0 s t'] by (simp add: pc_of_def)
  with inv obj t ref r show ?thesis
    by (simp add: Created spawn_def state_of_def thread_simps free_object_def)
next
  case (Failed e t)
  with inv obj ref r reset show ?thesis
    by (auto simp: spawn_def state_of_def thread_simps free_object_def)
qed

lemma start_safe:
  assumes "thread_inv s" "allowed e s" "e = E_Start out \<or> e = E_Start_op f out \<or> e = E_Start_after a out \<or> e = E_Start_periodic a p out"
  shows "safe (exec e s)"
proof -
  have obj: "free_object s" and fresh: "fresh_id out s" using assms(2,3) by auto
  then obtain r where r: "tr_ref s = Some r" "ref_inv s r"
    using thread_inv_object [OF assms(1)] by (auto simp: free_object_def)
  show ?thesis
  proof (cases "rr_isended r")
    case False
    then show ?thesis using assms(1,3) r
      by (auto simp: Thread_start_def Thread_start_op_def Thread_start_after_def Thread_start_periodic_def with_ref_def state_of_def)
  next
    case True
    with r(2) have i: "\<not> rr_isinthread r" by (simp add: ref_inv_def)
    show ?thesis
      using assms(2,3) r True i has_target_def [of s]
      by (auto simp: Thread_start_def Thread_start_op_def Thread_start_after_def Thread_start_periodic_def with_ref_def
          intro!: spawn_safe [OF assms(1) obj fresh r(1) True])
  qed
qed

lemma cancel_inv:
  assumes "thread_inv s" "tr_ref s = Some r" "\<not> rr_isended r"
  shows "thread_inv (notifyAll (r\<lparr>rr_iscanceldelaystart := c\<rparr>) s)"
proof -
  have "is_live (notifyAll (r\<lparr>rr_iscanceldelaystart := c\<rparr>) s) t \<longleftrightarrow> is_live s t" for t by (simp add: is_live_pc)
  with assms show ?thesis by (simp add: thread_inv_def joiner_inv_def ref_inv_def)
qed

lemma client_safe:
  assumes "thread_inv s" "allowed e s" "e = E_Cancel \<or> e = E_Kill sig \<or> e = E_Join me \<or> e = E_Delete"
  shows "safe (exec e s)"
proof -
  have "tr_object s" using assms(2,3) by (auto simp: free_object_def)
  then obtain r where r: "tr_ref s = Some r" "ref_inv s r" using thread_inv_object [OF assms(1)] by auto
  note defs = Thread_cancel_def Thread_kill_def Thread_join_def Thread_delete_def state_of_def free_object_def
  from assms(3) show ?thesis
  proof (elim disjE)
    assume "e = E_Cancel"
    then show ?thesis using assms(1) r cancel_inv [OF assms(1) r(1)] by (auto simp: defs with_ref_def)
  next
    assume "e = E_Kill sig"
    with assms(1) r show ?thesis by (auto simp: defs thread_simps)
  next
    assume "e = E_Join me"
    with assms(1,2) r live_SomeD [of s "rr_tid r"] show ?thesis by (auto simp: defs thread_simps split: if_splits)
  next
    assume "e = E_Delete"
    with assms(1,2) r show ?thesis by (auto simp: defs thread_simps split: if_splits)
  qed
qed

lemma joined_safe: "thread_inv s \<Longrightarrow> safe (exec E_Joined s)"
  by (auto simp: Thread_joined_def thread_simps split: option.splits)

text \<open>A pthread that is not over holds a reference, so it finds the object.\<close>

lemma thread_inv_logs [simp]:
  "thread_inv (s\<lparr>tr_runs := rs\<rparr>) = thread_inv s" "thread_inv (s\<lparr>tr_kills := ks\<rparr>) = thread_inv s"
  "goto_pc t pc (s\<lparr>tr_runs := rs\<rparr>) = (goto_pc t pc s)\<lparr>tr_runs := rs\<rparr>"
  by (simp_all add: thread_inv_def ref_inv_def joiner_inv_def is_live_pc goto_pc_def split: option.splits)

lemma step_inv:
  assumes "thread_inv s" "tr_ref s = Some r" "\<not> rr_isended r" "rr_tid r = t" "pc \<notin> {TP_Init, TP_Ended}"
    "rr_count r' = rr_count r" "rr_tid r' = rr_tid r" "rr_target r' = rr_target r" "\<not> rr_isended r'" "rr_isinthread r'"
  shows "thread_inv (goto_pc t pc (set_ref r' s))"
proof -
  have "is_live s t" using assms(1-4) by (simp add: thread_inv_def ref_inv_def)
  then obtain p where p: "tr_pthreads s t = Some p" by (auto simp: is_live_def)
  then have "is_live (goto_pc t pc (set_ref r' s)) t' \<longleftrightarrow> is_live s t'" for t'
    using assms(5) \<open>is_live s t\<close> by (auto simp: is_live_pc)
  with assms p show ?thesis by (simp add: thread_inv_def joiner_inv_def ref_inv_def)
qed

lemma set_ref_same: "tr_ref s = Some r \<Longrightarrow> set_ref r s = s"
  by (simp add: set_ref_def)

lemma cleanup_safe:
  assumes "thread_inv s" "tr_ref s = Some r" "\<not> rr_isended r" "rr_tid r = t" "pc_of s t \<noteq> TP_Init"
  shows "safe (cleanup_step t s)"
proof -
  let ?s = "goto_pc t TP_Ended (set_ref (r\<lparr>rr_isinthread := False, rr_killsig := 0, rr_isended := True\<rparr>) s)"
  have "\<not> is_live ?s t'" for t'
    using assms(1-4) by (auto simp: is_live_pc thread_inv_def ref_inv_def pc_of_def split: option.splits)
  then have "pc_of ?s t' = TP_Ended" for t' by (simp add: is_live_pc)
  then show ?thesis
    using assms by (auto simp: cleanup_step_def with_ref_def RemoveRef_def Let_def thread_inv_def joiner_inv_def ref_inv_def is_live_pc
        simp del: pc_of_goto)
qed

lemma pthread_safe:
  assumes "thread_inv s" "tr_pthreads s t = Some p" "pt_pc p \<notin> {TP_Blocked, TP_Ended}"
  shows "safe (pthread_step t p s)"
proof -
  have pc: "pc_of s t = pt_pc p" using assms(2) by (simp add: pc_of_def)
  then have "is_live s t" using assms(3) by (simp add: is_live_pc)
  then obtain r where r: "tr_ref s = Some r" "ref_inv s r" "\<not> rr_isended r" "rr_tid r = t"
    using thread_inv_live [OF assms(1)] by blast
  then have inthread: "rr_isinthread r \<longleftrightarrow> pt_pc p \<noteq> TP_Init" and target: "\<exists>f. rr_target r = Some f"
    using pc by (auto simp: ref_inv_def)
  note step = step_inv [OF assms(1) r(1,3,4)]
  have stay: "thread_inv (goto_pc t pc s)" if "pc \<notin> {TP_Init, TP_Ended}" "pt_pc p \<noteq> TP_Init" for pc
    using step [OF that(1), of r] inthread that(2) r(3) by (simp add: set_ref_same [OF r(1)])
  have change: "thread_inv (goto_pc t pc (set_ref (r\<lparr>rr_anyway_notify := c\<rparr>) s))"
    if "pc \<notin> {TP_Init, TP_Ended}" "pt_pc p \<noteq> TP_Init" for pc c
    using step [OF that(1)] inthread that(2) r(3) by simp
  have init: "thread_inv (goto_pc t TP_First (set_ref (r\<lparr>rr_isinthread := True\<rparr>) s))"
    using step [of TP_First] r(3) by simp
  note defs = pthread_step_def begin_step_def test_cancel_def enter_step_def leave_step_def run_step_def with_ref_def Let_def
  show ?thesis
  proof (cases "pt_pc p = TP_Cleanup")
    case True
    then show ?thesis using cleanup_safe [OF assms(1) r(1,3,4)] pc by (simp add: pthread_step_def)
  next
    case False
    then show ?thesis
      using assms(3) target r(1) stay change init by (cases "pt_pc p") (auto simp: defs)
  qed
qed

lemma timeout_safe:
  assumes "thread_inv s" "pc_of s t = TP_Blocked"
  shows "thread_inv (goto_pc t TP_Leave s)"
proof -
  obtain r where r: "tr_ref s = Some r" "ref_inv s r" "\<not> rr_isended r" "rr_tid r = t"
    using thread_inv_live [OF assms(1), of t] assms(2) by (auto simp: is_live_pc)
  then show ?thesis
    using step_inv [OF assms(1) r(1,3,4), of TP_Leave r] assms(2) by (simp add: ref_inv_def set_ref_same)
qed

lemma exec_safe:
  assumes "thread_inv s" "allowed e s"
  shows "safe (exec e s)"
proof (cases e)
  case (E_Step t)
  then show ?thesis using assms pthread_safe [OF assms(1)] by auto
next
  case (E_Timeout t)
  then have "pc_of s t = TP_Blocked" using assms(2) by (auto simp: pc_of_def)
  with E_Timeout show ?thesis using timeout_safe [OF assms(1)] by simp
next
  case E_Joined
  then show ?thesis using joined_safe [OF assms(1)] by simp
qed (use assms start_safe client_safe in metis)+

lemma run_inv: "thread_run P (Thread_new f name oj) s \<Longrightarrow> thread_inv s"
proof (induction rule: thread_run.induct)
  case run_refl
  show ?case by (rule thread_inv_new)
next
  case (run_step s e s')
  then show ?case using exec_safe [of s e] by simp
qed

end
