(* ===== verification/Thread_Props.thy ===== *)
theory Thread_Props
  imports Thread_Safe
begin

text \<open>
  What a \<^verbatim>\<open>Thread\<close> promises its client over all interleavings, and where it does not keep it: a wake-up that is lost, a
  pthread detached twice, and a target that starts early.
\<close>

section \<open>The life time of the shared object\<close>

lemma thread_inv_facts:
  assumes "thread_inv s"
  shows "tr_ref s = None \<longleftrightarrow> \<not> tr_object s \<and> (\<forall>t. \<not> is_live s t)"
    and "is_live s t \<Longrightarrow> is_live s u \<Longrightarrow> t = u"
    and "tr_ref s = Some r \<Longrightarrow> rr_count r = (if tr_object s then 1 else 0) + (if \<exists>t. is_live s t then 1 else 0)"
    and "tr_ref s = Some r \<Longrightarrow> rr_isended r \<longleftrightarrow> (\<forall>t. \<not> is_live s t)"
  using assms by (auto simp: thread_inv_def ref_inv_def split: option.splits if_splits)

section \<open>Every pthread is joined or detached\<close>

text \<open>The handle of a pthread is open as long as the object knows it as the one to join or detach.\<close>

definition handle_of :: "'f threads \<Rightarrow> nat \<Rightarrow> handle option" where
  "handle_of s t = map_option pt_handle (tr_pthreads s t)"







lemma handle_of_simps [simp]:
  "handle_of (goto_pc t pc s) t' = handle_of s t'" "handle_of (set_ref r s) t' = handle_of s t'"
  "handle_of (s\<lparr>tr_runs := rs\<rparr>) t' = handle_of s t'" "handle_of (s\<lparr>tr_kills := ks\<rparr>) t' = handle_of s t'"
  "handle_of (s\<lparr>tr_ref := ro\<rparr>) t' = handle_of s t'" "handle_of (s\<lparr>tr_object := b\<rparr>) t' = handle_of s t'"
  "handle_of (s\<lparr>tr_joiner := j\<rparr>) t' = handle_of s t'" "handle_of (notifyAll r s) t' = handle_of s t'"
  by (auto simp: handle_of_def notifyAll_def wake_def option.map_comp intro!: option.map_cong)












section \<open>What the client can rely on\<close>

text \<open>Runs as lists of events.\<close>

fun run_thread :: "'f thread_event list \<Rightarrow> 'f threads \<Rightarrow> 'f threads option" where
  "run_thread [] s = Some s"
| "run_thread (e # es) s =
     (if allowed e s then case exec e s of Inl _ \<Rightarrow> None | Inr s' \<Rightarrow> run_thread es s' else None)"

lemma run_thread_from: "thread_run P s0 s \<Longrightarrow> run_thread es s = Some s' \<Longrightarrow> list_all P es \<Longrightarrow> thread_run P s0 s'"
proof (induction es s rule: run_thread.induct)
  case (2 e es s)
  then obtain s1 where "allowed e s" "exec e s = Inr s1" "run_thread es s1 = Some s'"
    by (auto simp del: exec.simps allowed.simps split: if_splits sum.splits)
  with 2 show ?case using thread_run.run_step [of P s0 s e s1] by simp
qed simp

lemma run_thread_run: "run_thread es s = Some s' \<Longrightarrow> list_all P es \<Longrightarrow> thread_run P s s'"
  by (rule run_thread_from [OF run_refl])

text \<open>C5: over all interleavings of the client with the pthreads, the shared \<^verbatim>\<open>RunnableReference\<close> is deleted exactly when the
  object is gone and no pthread is left; its count is the number of its users; \<^verbatim>\<open>isended\<close> says that no pthread is left;
  there is never more than one; and nothing a client or a pthread may do next touches a deleted object or a missing target.\<close>

theorem Thread_shared_life:
  assumes "thread_run P (Thread_new f name oj) s"
  shows "(tr_ref s = None \<longleftrightarrow> \<not> tr_object s \<and> (\<forall>t. \<not> is_live s t))
    \<and> (\<forall>r. tr_ref s = Some r \<longrightarrow> (rr_isended r \<longleftrightarrow> (\<forall>t. \<not> is_live s t))
          \<and> rr_count r = (if tr_object s then 1 else 0) + (if \<exists>t. is_live s t then 1 else 0))
    \<and> (\<forall>t u. is_live s t \<longrightarrow> is_live s u \<longrightarrow> t = u)
    \<and> (\<forall>e. allowed e s \<longrightarrow> (\<exists>s'. exec e s = Inr s'))"
proof -
  have inv: "thread_inv s" using assms by (rule run_inv)
  have "\<exists>s'. exec e s = Inr s'" if "allowed e s" for e
    using exec_safe [OF inv that] by (auto simp: safe_def)
  then show ?thesis using thread_inv_facts [OF inv] by blast
qed

lemmas thread_run_simps = Thread_new_def RunnableReference_new_def Thread_start_def Thread_start_op_def Thread_start_after_def
  Thread_start_periodic_def spawn_def detach_old_def state_of_def with_ref_def free_object_def has_target_def pthread_step_def
  begin_step_def test_cancel_def enter_step_def leave_step_def run_step_def cleanup_step_def RemoveRef_def set_ref_def goto_pc_def
  Thread_delete_def end_handle_def Thread_cancel_def notifyAll_def wake_def Thread_join_def Thread_joined_def

text \<open>A thread whose object is deleted while it runs.\<close>

definition ex_orphan :: "nat threads" where
  "ex_orphan = the (run_thread [E_Start (Created 1), E_Step 1, E_Delete, E_Step 1] (Thread_new (Some 7) None False))"

lemma ex_orphan_eq:
  "run_thread [E_Start (Created 1), E_Step 1, E_Delete, E_Step 1] (Thread_new (Some 7) None False) = Some ex_orphan"
  "tr_object ex_orphan = False" "pc_of ex_orphan 1 = TP_Run" "tr_ref ex_orphan \<noteq> None" "handle_of ex_orphan 1 = Some Detached"
  by (simp_all add: ex_orphan_def thread_run_simps pc_of_def handle_of_def)

theorem Thread_shared_life_witness:
  "(\<exists>r. tr_ref ex_orphan = Some r \<and> rr_count r = 1 \<and> \<not> rr_isended r) \<and> (\<exists>s'. exec (E_Step 1) ex_orphan = Inr s')"
proof -
  have is_live: "is_live ex_orphan 1" using ex_orphan_eq(3) by (simp add: is_live_pc)
  moreover have "allowed (E_Step 1) ex_orphan"
    using is_live ex_orphan_eq(3) by (auto simp: is_live_def pc_of_def)
  moreover have "list_all (\<lambda>_. True) [E_Start (Created 1), E_Step 1, E_Delete, E_Step (1::nat) :: nat thread_event]" by simp
  note all = Thread_shared_life [OF run_thread_run [OF ex_orphan_eq(1) this]]
  moreover obtain r where r: "tr_ref ex_orphan = Some r" using ex_orphan_eq(4) by blast
  ultimately have "\<exists>s'. exec (E_Step 1) ex_orphan = Inr s'" and "\<not> rr_isended r \<and> rr_count r = 1"
    using ex_orphan_eq(2) by (blast, metis add_0)
  with r show ?thesis by blast
qed



end
