(* ===== verification/Thread_Cancel.thy ===== *)
theory Thread_Cancel
  imports Thread_Props
begin

text \<open>
  \<^verbatim>\<open>cancel_after\<close> and \<^verbatim>\<open>cancel_periodic\<close> of src/mars/comm/unix/thread/thread.h: what one call decides for the pthread that is
  waiting for its time, under every continuation of the run.
\<close>

section \<open>The routine, the flag and the runs of one pthread\<close>

definition routine_of :: "'f threads \<Rightarrow> nat \<Rightarrow> routine option" where
  "routine_of s t = map_option pt_routine (tr_pthreads s t)"

definition runs_of :: "nat \<Rightarrow> 'f threads \<Rightarrow> (nat \<times> 'f) list" where
  "runs_of t s = filter (\<lambda>x. fst x = t) (tr_runs s)"

lemma routine_of_simps [simp]:
  "routine_of (goto_pc t pc s) t' = routine_of s t'" "routine_of (set_ref r s) t' = routine_of s t'"
  "routine_of (s\<lparr>tr_runs := rs\<rparr>) t' = routine_of s t'" "routine_of (s\<lparr>tr_kills := ks\<rparr>) t' = routine_of s t'"
  "routine_of (s\<lparr>tr_ref := ro\<rparr>) t' = routine_of s t'" "routine_of (s\<lparr>tr_object := b\<rparr>) t' = routine_of s t'"
  "routine_of (s\<lparr>tr_joiner := j\<rparr>) t' = routine_of s t'" "routine_of (notifyAll r s) t' = routine_of s t'"
  "routine_of (end_handle h t s) t' = routine_of s t'" "routine_of (detach_old r s) t' = routine_of s t'"
  by (auto simp: routine_of_def notifyAll_def wake_def end_handle_def detach_old_def option.map_comp split: option.splits
      intro!: option.map_cong)

lemma runs_of_simps [simp]:
  "runs_of t (goto_pc t' pc s) = runs_of t s" "runs_of t (set_ref r s) = runs_of t s" "runs_of t (s\<lparr>tr_kills := ks\<rparr>) = runs_of t s"
  "runs_of t (s\<lparr>tr_ref := ro\<rparr>) = runs_of t s" "runs_of t (s\<lparr>tr_object := b\<rparr>) = runs_of t s" "runs_of t (s\<lparr>tr_joiner := j\<rparr>) = runs_of t s"
  "runs_of t (notifyAll r s) = runs_of t s" "runs_of t (end_handle h t' s) = runs_of t s" "runs_of t (detach_old r s) = runs_of t s"
  "runs_of t (s\<lparr>tr_pthreads := m\<rparr>) = runs_of t s"
  by (simp_all add: runs_of_def)

text \<open>What a step may do to a pthread that was started before.\<close>

definition obeys :: "nat \<Rightarrow> 'f threads \<Rightarrow> 'f threads \<Rightarrow> bool" where
  "obeys t s s' \<longleftrightarrow> routine_of s' t = routine_of s t
     \<and> (pc_of s t \<noteq> TP_Run \<longrightarrow> runs_of t s' = runs_of t s)
     \<and> (pc_of s t = TP_Ended \<longrightarrow> pc_of s' t = TP_Ended)
     \<and> (\<forall>r r'. tr_ref s = Some r \<longrightarrow> rr_iscanceldelaystart r \<longrightarrow>
          (tr_ref s' = Some r' \<longrightarrow> \<not> rr_isended r \<longrightarrow> rr_iscanceldelaystart r')
          \<and> (routine_of s t \<noteq> Some R_Start \<longrightarrow> pc_of s' t = TP_Run \<longrightarrow> pc_of s t = TP_Run))"

lemma obeys_refl [simp]: "obeys t s s"
  by (auto simp: obeys_def)

lemma spawn_obeys:
  assumes "state_of (spawn k out reset r (detach_old r0 s)) = Inr s'" "tr_ref s = Some r0" "rr_isended r0"
    and "fresh_id out s" "routine_of s t \<noteq> None"
  shows "obeys t s s'"
proof (cases out)
  case (Failed e u)
  with assms(1-3) show ?thesis
    by (auto simp: obeys_def spawn_def state_of_def RemoveRef_def with_ref_def Let_def split: if_splits)
next
  case (Created u)
  with assms(4,5) have u: "u \<noteq> t" by (auto simp: routine_of_def)
  let ?s = "detach_old r0 s"
  have s': "s' = (set_ref (r\<lparr>rr_count := rr_count r + 1, rr_tid := u\<rparr>) ?s)
      \<lparr>tr_pthreads := (tr_pthreads ?s)(u \<mapsto> \<lparr>pt_routine = k, pt_pc = TP_Init, pt_handle = Joinable\<rparr>)\<rparr>"
    using assms(1) Created by (simp add: spawn_def state_of_def)
  have "routine_of s' t = routine_of ?s t" "pc_of s' t = pc_of ?s t"
    using u by (simp_all add: s' routine_of_def pc_of_def)
  then show ?thesis using assms(2,3) by (simp add: obeys_def s')
qed

lemma pthread_obeys:
  assumes "exec (E_Step u) s = Inr s'"
  shows "obeys t s s'"
proof -
  note defs = pthread_step_def begin_step_def test_cancel_def enter_step_def leave_step_def run_step_def cleanup_step_def
    RemoveRef_def with_ref_def Let_def
  show ?thesis
  proof (cases "tr_pthreads s u")
    case None
    with assms show ?thesis by simp
  next
    case (Some p)
    then have "pc_of s u = pt_pc p" "routine_of s u = Some (pt_routine p)" by (simp_all add: pc_of_def routine_of_def)
    with assms Some show ?thesis
      by (cases "pt_pc p") (auto simp: defs obeys_def runs_of_def split: if_splits option.splits)
  qed
qed

lemma start_obeys:
  assumes "allowed e s" "exec e s = Inr s'" "routine_of s t \<noteq> None"
    and "e = E_Start out \<or> e = E_Start_op f out \<or> e = E_Start_after a out \<or> e = E_Start_periodic a p out"
  shows "obeys t s s'"
proof (cases "tr_ref s")
  case None
  with assms(2,4) show ?thesis
    by (auto simp: Thread_start_def Thread_start_op_def Thread_start_after_def Thread_start_periodic_def with_ref_def state_of_def)
next
  case (Some r)
  have fresh: "fresh_id out s" using assms(1,4) by auto
  show ?thesis
  proof (cases "rr_isended r")
    case False
    with assms(2,4) Some show ?thesis
      by (auto simp: Thread_start_def Thread_start_op_def Thread_start_after_def Thread_start_periodic_def with_ref_def state_of_def)
  next
    case True
    note spawn = spawn_obeys [OF _ Some True fresh assms(3)]
    from assms(2,4) Some True show ?thesis
      by (auto simp: Thread_start_def Thread_start_op_def Thread_start_after_def Thread_start_periodic_def with_ref_def
          dest!: spawn)
  qed
qed

lemma client_obeys:
  assumes "exec e s = Inr s'" "e = E_Cancel \<or> e = E_Kill sig \<or> e = E_Join me \<or> e = E_Joined \<or> e = E_Delete"
  shows "obeys t s s'"
  using assms(2,1)
  by (elim disjE) (auto simp: Thread_cancel_def Thread_kill_def Thread_join_def Thread_joined_def Thread_delete_def RemoveRef_def
      Let_def with_ref_def state_of_def obeys_def split: if_splits option.splits)

lemma exec_obeys:
  assumes "allowed e s" "exec e s = Inr s'" "routine_of s t \<noteq> None"
  shows "obeys t s s'"
proof (cases e)
  case (E_Step u)
  then show ?thesis using assms pthread_obeys by simp
next
  case (E_Start out)
  then show ?thesis by (intro start_obeys [OF assms]) blast
next
  case (E_Start_op f out)
  then show ?thesis by (intro start_obeys [OF assms]) blast
next
  case (E_Start_after a out)
  then show ?thesis by (intro start_obeys [OF assms]) blast
next
  case (E_Start_periodic a p out)
  then show ?thesis by (intro start_obeys [OF assms]) blast
next
  case (E_Timeout u)
  with assms have "s' = goto_pc u TP_Leave s" "pc_of s u = TP_Blocked" by (auto simp: pc_of_def)
  then show ?thesis by (auto simp: obeys_def)
qed (rule client_obeys [OF assms(2)], blast)+

section \<open>A cancelled pthread\<close>

definition cancelled :: "nat \<Rightarrow> 'f threads \<Rightarrow> bool" where
  "cancelled t s \<longleftrightarrow> thread_inv s \<and> routine_of s t \<notin> {None, Some R_Start} \<and> pc_of s t \<noteq> TP_Run
     \<and> (is_live s t \<longrightarrow> (\<exists>r. tr_ref s = Some r \<and> rr_iscanceldelaystart r))"

lemma cancelled_step:
  assumes "cancelled t s" "allowed e s" "exec e s = Inr s'"
  shows "cancelled t s' \<and> runs_of t s' = runs_of t s"
proof -
  have inv: "thread_inv s" "thread_inv s'" using assms exec_safe [of s e] by (auto simp: cancelled_def)
  have "routine_of s t \<noteq> None" using assms(1) by (simp add: cancelled_def)
  note ob = exec_obeys [OF assms(2,3) this]
  have runs: "runs_of t s' = runs_of t s" and routine: "routine_of s' t = routine_of s t"
    using ob assms(1) by (simp_all add: obeys_def cancelled_def)
  show ?thesis
  proof (cases "is_live s t")
    case False
    then have "pc_of s' t = TP_Ended" using ob by (simp add: obeys_def is_live_pc)
    with inv runs routine assms(1) show ?thesis by (simp add: cancelled_def is_live_pc)
  next
    case True
    then obtain r where r: "tr_ref s = Some r" "rr_iscanceldelaystart r" "\<not> rr_isended r"
      using assms(1) thread_inv_live [OF inv(1) True] by (auto simp: cancelled_def)
    have "pc_of s' t \<noteq> TP_Run" using ob r assms(1) by (auto simp: obeys_def cancelled_def)
    moreover have "\<exists>r. tr_ref s' = Some r \<and> rr_iscanceldelaystart r" if "is_live s' t"
      using ob r thread_inv_live [OF inv(2) that] by (auto simp: obeys_def)
    ultimately show ?thesis using inv runs routine assms(1) by (simp add: cancelled_def)
  qed
qed

lemma cancelled_run: "thread_run P s s' \<Longrightarrow> cancelled t s \<Longrightarrow> cancelled t s' \<and> runs_of t s' = runs_of t s"
proof (induction rule: thread_run.induct)
  case (run_step s1 e s2)
  then show ?case using cancelled_step [of t s1 e s2] by simp
qed simp

section \<open>The way of a cancelled pthread to its end\<close>

text \<open>The pthread steps \<open>n\<close> times while the others rest.\<close>

primrec own_steps :: "nat \<Rightarrow> nat \<Rightarrow> 'f threads \<Rightarrow> 'f threads result" where
  "own_steps 0 t s = Inr s"
| "own_steps (Suc n) t s = rbind (exec (E_Step t) s) (own_steps n t)"

definition ends :: "nat \<Rightarrow> nat \<Rightarrow> 'f threads \<Rightarrow> bool" where
  "ends n t s \<longleftrightarrow> (\<exists>m\<le>n. \<exists>s'. own_steps m t s = Inr s' \<and> \<not> is_live s' t)"

lemma ends_step:
  assumes "exec (E_Step t) s = Inr s'" "ends n t s'"
  shows "ends (Suc n) t s"
proof -
  obtain m s2 where "m \<le> n" "own_steps m t s' = Inr s2" "\<not> is_live s2 t" using assms(2) by (auto simp: ends_def)
  with assms(1) have "Suc m \<le> Suc n" "own_steps (Suc m) t s = Inr s2" by (simp_all del: exec.simps)
  with \<open>\<not> is_live s2 t\<close> show ?thesis unfolding ends_def by blast
qed

lemma ends_mono: "ends n t s \<Longrightarrow> n \<le> m \<Longrightarrow> ends m t s"
  unfolding ends_def by (meson le_trans)

definition at :: "thread_pc \<Rightarrow> nat \<Rightarrow> 'f threads \<Rightarrow> bool" where
  "at pc t s \<longleftrightarrow> (\<exists>p r. tr_pthreads s t = Some p \<and> pt_pc p = pc \<and> pt_routine p \<noteq> R_Start \<and> tr_ref s = Some r
     \<and> rr_iscanceldelaystart r \<and> (pc = TP_Enter \<longrightarrow> rr_anyway_notify r))"

lemma ends_Cleanup: "at TP_Cleanup t s \<Longrightarrow> ends 1 t s"
  unfolding ends_def
  by (rule exI [of _ 1]) (auto simp: at_def pthread_step_def cleanup_step_def RemoveRef_def with_ref_def Let_def is_live_def)

lemma ends_Check:
  assumes "at TP_Check t s"
  shows "ends 2 t s"
proof -
  obtain s' where "exec (E_Step t) s = Inr s'" "at TP_Cleanup t s'"
    using assms by (auto simp: at_def pthread_step_def test_cancel_def with_ref_def)
  then show ?thesis using ends_step [OF _ ends_Cleanup] by (simp add: eval_nat_numeral)
qed

lemma ends_First:
  assumes "at TP_First t s"
  shows "ends 2 t s"
proof -
  obtain s' where "exec (E_Step t) s = Inr s'" "at TP_Cleanup t s'"
    using assms by (auto simp: at_def pthread_step_def test_cancel_def with_ref_def)
  then show ?thesis using ends_step [OF _ ends_Cleanup] by (simp add: eval_nat_numeral)
qed

lemma ends_Again:
  assumes "at TP_Again t s"
  shows "ends 3 t s"
proof -
  obtain s' where "exec (E_Step t) s = Inr s'" "at TP_Check t s'"
    using assms by (auto simp: at_def pthread_step_def test_cancel_def with_ref_def)
  then show ?thesis using ends_step [OF _ ends_Check] by (simp add: eval_nat_numeral)
qed

lemma ends_Init:
  assumes "at TP_Init t s"
  shows "ends 3 t s"
proof -
  obtain s' where "exec (E_Step t) s = Inr s'" "at TP_First t s'"
    using assms by (auto simp: at_def pthread_step_def begin_step_def with_ref_def Let_def)
  then show ?thesis using ends_step [OF _ ends_First] by (simp add: eval_nat_numeral)
qed

lemma ends_Leave:
  assumes "at TP_Leave t s"
  shows "ends 3 t s"
proof -
  obtain s' where "exec (E_Step t) s = Inr s'" "at TP_Check t s'"
    using assms by (auto simp: at_def pthread_step_def leave_step_def with_ref_def)
  then show ?thesis using ends_step [OF _ ends_Check] by (simp add: eval_nat_numeral)
qed

lemma ends_Enter:
  assumes "at TP_Enter t s"
  shows "ends 4 t s"
proof -
  obtain s' where "exec (E_Step t) s = Inr s'" "at TP_Leave t s'"
    using assms by (auto simp: at_def pthread_step_def enter_step_def with_ref_def)
  then show ?thesis using ends_step [OF _ ends_Leave] by (simp add: eval_nat_numeral)
qed

text \<open>In the middle of its target a periodic pthread finishes this round.\<close>

lemma ends_Run: "at TP_Run t s \<Longrightarrow> thread_inv s \<Longrightarrow> ends 4 t s"
proof -
  assume a: "at TP_Run t s" and inv: "thread_inv s"
  then have "is_live s t" by (auto simp: at_def is_live_def)
  then obtain r where "tr_ref s = Some r" "rr_target r \<noteq> None"
    using thread_inv_live [OF inv \<open>is_live s t\<close>] by (auto simp: ref_inv_def split: if_splits)
  then obtain f where r: "tr_ref s = Some r" "rr_target r = Some f" by blast
  obtain p where p: "tr_pthreads s t = Some p" "pt_pc p = TP_Run" "pt_routine p \<noteq> R_Start" using a by (auto simp: at_def)
  show ?thesis
  proof (cases "pt_routine p = R_Periodic")
    case True
    then obtain s' where "exec (E_Step t) s = Inr s'" "at TP_Again t s'"
      using a r p by (auto simp: at_def pthread_step_def run_step_def with_ref_def)
    then show ?thesis using ends_step [OF _ ends_Again] by (simp add: eval_nat_numeral)
  next
    case False
    then obtain s' where "exec (E_Step t) s = Inr s'" "at TP_Cleanup t s'"
      using a r p by (auto simp: at_def pthread_step_def run_step_def with_ref_def)
    then show ?thesis using ends_mono [OF ends_step [OF _ ends_Cleanup], of t s s' 4] by simp
  qed
qed

lemma cancel_ends:
  assumes inv: "thread_inv s" and p: "tr_pthreads s t = Some p" "pt_routine p \<noteq> R_Start" "pt_pc p \<notin> {TP_Ended, TP_Sleepy}"
    and s1: "Thread_cancel s = Inr s1"
  shows "ends 4 t s1"
proof -
  have is_live: "is_live s t" using p by (auto simp: is_live_def)
  then obtain r where r: "tr_ref s = Some r" "\<not> rr_isended r" using thread_inv_live [OF inv] by blast
  then have s1': "s1 = notifyAll (r\<lparr>rr_iscanceldelaystart := True\<rparr>) s" using s1 by (simp add: Thread_cancel_def with_ref_def)
  have inv1: "thread_inv s1" unfolding s1' by (rule cancel_inv [OF inv r])
  have "tr_pthreads s1 t = Some (wake p)" using p by (simp add: s1' notifyAll_def)
  then have a: "at (pt_pc (wake p)) t s1" using p by (simp add: at_def s1' wake_def)
  then show ?thesis
    using p(3) inv1 ends_mono [OF ends_Init, of t s1 4] ends_mono [OF ends_First, of t s1 4] ends_Enter [of t s1]
      ends_mono [OF ends_Leave, of t s1 4] ends_mono [OF ends_Check, of t s1 4] ends_Run [of t s1]
      ends_mono [OF ends_Again, of t s1 4] ends_mono [OF ends_Cleanup, of t s1 4]
    by (cases "pt_pc p") (simp_all add: wake_def)
qed

lemma cancel_marks:
  assumes inv: "thread_inv s" and p: "tr_pthreads s t = Some p" "pt_routine p \<noteq> R_Start" "pt_pc p \<notin> {TP_Ended, TP_Run}"
  shows "\<exists>s1. Thread_cancel s = Inr s1 \<and> cancelled t s1 \<and> runs_of t s1 = runs_of t s"
proof -
  have is_live: "is_live s t" using p by (auto simp: is_live_def)
  then obtain r where r: "tr_ref s = Some r" "\<not> rr_isended r" using thread_inv_live [OF inv] by blast
  let ?s = "notifyAll (r\<lparr>rr_iscanceldelaystart := True\<rparr>) s"
  have "pc_of s t = pt_pc p" "routine_of s t = Some (pt_routine p)" using p by (simp_all add: pc_of_def routine_of_def)
  then have "cancelled t ?s" using p cancel_inv [OF inv r] by (simp add: cancelled_def)
  then show ?thesis using r by (simp add: Thread_cancel_def with_ref_def)
qed

section \<open>What cancelling means\<close>

text \<open>C34: the pthread of \<^verbatim>\<open>start_after\<close> or \<^verbatim>\<open>start_periodic\<close> that is cancelled, while it is neither in its target nor between
  its last test for cancelling and the call of the target, never enters the target again, however the run goes on; and unless it
  stands between its test of \<^verbatim>\<open>anyway_notify_\<close> and the system call (the lost wake-up), at most four steps of its own, taken one
  after the other, bring it to its end.\<close>

theorem Thread_cancel_stops:
  assumes "thread_run P (Thread_new f name oj) s" "tr_pthreads s t = Some p" "pt_routine p \<noteq> R_Start" "pt_pc p \<noteq> TP_Ended"
    and "pt_pc p \<noteq> TP_Run"
  shows "\<exists>s1. Thread_cancel s = Inr s1 \<and> (\<forall>Q s2. thread_run Q s1 s2 \<longrightarrow> runs_of t s2 = runs_of t s)
    \<and> (pt_pc p \<noteq> TP_Sleepy \<longrightarrow> (\<exists>n\<le>4. \<exists>s3. own_steps n t s1 = Inr s3 \<and> \<not> is_live s3 t))"
proof -
  have inv: "thread_inv s" using assms(1) by (rule run_inv)
  obtain s1 where s1: "Thread_cancel s = Inr s1" "cancelled t s1" "runs_of t s1 = runs_of t s"
    using cancel_marks [OF inv assms(2,3)] assms(4,5) by blast
  have "thread_run Q s1 s2 \<Longrightarrow> runs_of t s2 = runs_of t s" for Q s2
    using cancelled_run s1(2,3) by metis
  moreover have "pt_pc p \<noteq> TP_Sleepy \<Longrightarrow> ends 4 t s1"
    using cancel_ends [OF inv assms(2,3) _ s1(1)] assms(4) by blast
  ultimately show ?thesis using s1(1) unfolding ends_def by blast
qed

definition ex_delayed :: "nat threads" where
  "ex_delayed = the (run_thread [E_Start_after 1000 (Created 1), E_Step 1, E_Step 1, E_Step 1, E_Step 1]
     (Thread_new (Some 7) None False))"

lemma ex_delayed_eq:
  "run_thread [E_Start_after 1000 (Created 1), E_Step 1, E_Step 1, E_Step 1, E_Step 1] (Thread_new (Some 7) None False)
     = Some ex_delayed"
  "tr_pthreads ex_delayed 1 = Some \<lparr>pt_routine = R_After, pt_pc = TP_Blocked, pt_handle = Joinable\<rparr>" "tr_runs ex_delayed = []"
  by (simp_all add: ex_delayed_def thread_run_simps)

theorem Thread_cancel_stops_witness:
  "\<exists>s1. Thread_cancel ex_delayed = Inr s1 \<and> (\<forall>Q s2. thread_run Q s1 s2 \<longrightarrow> runs_of 1 s2 = runs_of 1 ex_delayed)
    \<and> (\<exists>n\<le>4. \<exists>s3. own_steps n 1 s1 = Inr s3 \<and> \<not> is_live s3 1)"
  using Thread_cancel_stops [OF run_thread_run [OF ex_delayed_eq(1), of "\<lambda>_. True"] ex_delayed_eq(2)] by simp

section \<open>Where it fails\<close>

text \<open>A call of \<^verbatim>\<open>cancel_after\<close> between the test and the system call is lost: the pthread sleeps although it is cancelled.\<close>

lemma Thread_cancel_lost:
  "\<exists>s r. run_thread [E_Start_after 1000 (Created 1), E_Step 1, E_Step 1, E_Step 1, E_Cancel, E_Step 1] (Thread_new (Some 7) None False)
       = Some s \<and> pc_of s 1 = TP_Blocked \<and> tr_ref s = Some r \<and> rr_iscanceldelaystart r"
  by (simp add: thread_run_simps pc_of_def)

text \<open>When \<^verbatim>\<open>pthread_create\<close> fails on a restart, the id of the last pthread stays and is detached a second time.\<close>

lemma Thread_detached_twice:
  "\<exists>s. run_thread [E_Start (Created 1), E_Step 1, E_Step 1, E_Step 1, E_Step 1, E_Start (Failed 11 1), E_Start (Created 2)]
       (Thread_new (Some 7) None False) = Some s \<and> tr_misuse s = [1]"
  by (simp add: thread_run_simps)

end
