(* ===== verification/Block_Socket.thy ===== *)
theory Block_Socket
  imports Tcp_Fsm
begin

text \<open>
  The blocking calls of src/mars/comm/socket/block_socket.cc: connecting, sending and receiving over a non-blocking socket
  with a \<^verbatim>\<open>SocketSelect\<close>, and the socket options of socket/unix_socket.cc. \<^verbatim>\<open>_errcode\<close> is the second result.
  \<^verbatim>\<open>getNetInfo() == kWifi\<close> is the parameter \<open>wifi\<close>. The numbers of \<^verbatim>\<open><errno.h>\<close> are those of Linux.
\<close>

section \<open>Socket options\<close>

definition ENETDOWN :: int where "ENETDOWN = 100"
definition ENETUNREACH :: int where "ENETUNREACH = 101"

definition socket_set_tcp_mss :: "env \<Rightarrow> socket \<Rightarrow> int \<Rightarrow> int io" where
  "socket_set_tcp_mss E s mss = setsockopt E s TCP_MAXSEG mss"

definition socket_fix_tcp_mss :: "env \<Rightarrow> socket \<Rightarrow> int io" where
  "socket_fix_tcp_mss E s = socket_set_tcp_mss E s 1400"

text \<open>\<open>size\<close>: what the pointer points to, \<open>None\<close> for \<^verbatim>\<open>NULL\<close>; \<open>getsockopt\<close> gives the result and the value.\<close>

definition socket_get_tcp_mss :: "(socket \<Rightarrow> sockopt \<Rightarrow> int \<times> int) \<Rightarrow> socket \<Rightarrow> int option \<Rightarrow> int \<times> int option" where
  "socket_get_tcp_mss getsockopt sockfd size_ptr = (case size_ptr of
     None \<Rightarrow> (- 1, None)
   | Some _ \<Rightarrow> let (ret, v) = getsockopt sockfd TCP_MAXSEG in (ret, Some v))"

definition socket_disable_nagle :: "env \<Rightarrow> socket \<Rightarrow> int \<Rightarrow> int io" where
  "socket_disable_nagle E s nagle = setsockopt E s TCP_NODELAY nagle"

definition socket_reuseaddr :: "env \<Rightarrow> socket \<Rightarrow> int \<Rightarrow> int io" where
  "socket_reuseaddr E s optval = setsockopt E s SO_REUSEADDR optval"

definition socket_ipv6only :: "env \<Rightarrow> socket \<Rightarrow> int \<Rightarrow> int io" where
  "socket_ipv6only E s only = setsockopt E s IPV6_V6ONLY only"

definition socket_isnonetwork :: "int \<Rightarrow> int" where
  "socket_isnonetwork error = (if error = ENETDOWN then 1 else if error = ENETUNREACH then 1 else 0)"

text \<open>Where neither \<^verbatim>\<open>__APPLE__\<close> nor \<^verbatim>\<open>ANDROID\<close> is defined: the return value and \<^verbatim>\<open>*_nwriteLen\<close>.\<close>

definition socket_get_nwrite :: "socket \<Rightarrow> int \<times> int" where "socket_get_nwrite s = (0, - 1)"
definition socket_get_nread :: "socket \<Rightarrow> int \<times> int" where "socket_get_nread s = (0, - 1)"

definition socket_nwrite :: "socket \<Rightarrow> int" where
  "socket_nwrite s = (case socket_get_nwrite s of (ret, value) \<Rightarrow> if 0 = ret then value else ret)"

definition socket_nread :: "socket \<Rightarrow> int" where
  "socket_nread s = (case socket_get_nread s of (ret, value) \<Rightarrow> if 0 = ret then value else ret)"

section \<open>Connecting\<close>

definition give_up :: "socket \<Rightarrow> int \<Rightarrow> (socket \<times> int) io" where
  "give_up sock errcode = io_then (socket_close sock) (io_return (INVALID_SOCKET, errcode))"

definition Errno_of :: "SocketSelect \<Rightarrow> int" where "Errno_of sel = sp_errno sel"

text \<open>The choice between \<^verbatim>\<open>sel.Select(_timeout)\<close> and \<^verbatim>\<open>sel.Select()\<close>.\<close>

definition select_for :: "env \<Rightarrow> int \<Rightarrow> int \<Rightarrow> SocketSelect \<Rightarrow> (SocketSelect \<times> int) io" where
  "select_for E timeout msec sel = (if 0 \<le> timeout then Select_msec E sel msec else Select E sel)"

definition connect_selected :: "env \<Rightarrow> socket \<Rightarrow> SocketSelect \<Rightarrow> int \<Rightarrow> (socket \<times> int) io" where
  "connect_selected E sock sel ret =
     (if ret = 0 then give_up sock ETIMEDOUT
      else if ret < 0 then give_up sock (Errno_of sel)
      else
        io_bind (io_lift (IsException sel)) (\<lambda>ex. if ex then give_up sock 0
        else io_bind (io_lift (IsBreak sel)) (\<lambda>br. if br then give_up sock 0
        else if Exception_FD_ISSET sel sock then io_bind (socket_error E sock) (give_up sock)
        else if \<not> Write_FD_ISSET sel sock then io_bind (socket_error E sock) (give_up sock)
        else io_bind (socket_error E sock) (\<lambda>e. if 0 \<noteq> e then give_up sock e else io_return (sock, e)))))"

definition connect_wait :: "env \<Rightarrow> SocketBreaker \<Rightarrow> socket \<Rightarrow> int \<Rightarrow> (socket \<times> int) io" where
  "connect_wait E brk sock timeout =
     io_bind (io_lift (PreSelect_clear (SocketSelect_new brk False))) (\<lambda>sel.
     io_bind (select_for E timeout timeout (Exception_FD_SET sock (Write_FD_SET sock sel))) (\<lambda>(sel1, ret).
       connect_selected E sock sel1 ret))"

definition connect_start :: "env \<Rightarrow> SocketBreaker \<Rightarrow> socket \<Rightarrow> int \<Rightarrow> (socket \<times> int) io" where
  "connect_start E brk sock timeout =
     io_bind (connect_to E sock) (\<lambda>ret.
       if ret \<noteq> 0 then
         io_bind (socket_errno E) (\<lambda>e.
           if \<not> IS_NOBLOCK_CONNECT_ERRNO e then io_bind (socket_errno E) (give_up sock)
           else connect_wait E brk sock timeout)
       else connect_wait E brk sock timeout)"

definition connect_prepare :: "env \<Rightarrow> bool \<Rightarrow> SocketBreaker \<Rightarrow> socket \<Rightarrow> int \<Rightarrow> (socket \<times> int) io" where
  "connect_prepare E wifi brk sock timeout =
     io_bind (socket_set_nobio E sock) (\<lambda>ret.
       if ret \<noteq> 0 then io_bind (socket_errno E) (give_up sock)
       else
         io_then (if wifi then io_bind (socket_fix_tcp_mss E sock) (\<lambda>_. io_return ()) else io_return ())
           (connect_start E brk sock timeout))"

definition block_socket_connect :: "env \<Rightarrow> bool \<Rightarrow> SocketBreaker \<Rightarrow> int \<Rightarrow> (socket \<times> int) io" where
  "block_socket_connect E wifi brk timeout =
     io_bind (socket_open E) (\<lambda>sock.
       if sock = INVALID_SOCKET then io_bind (socket_errno E) (\<lambda>e. io_return (INVALID_SOCKET, e))
       else connect_prepare E wifi brk sock timeout)"

section \<open>Waiting\<close>

text \<open>
  What \<^verbatim>\<open>block_socket_send\<close> and \<^verbatim>\<open>block_socket_recv\<close> do between two calls: select with what is left of the time, take the
  time it has cost, and look at the result. \<open>W_Break\<close> carries \<^verbatim>\<open>sel.Errno()\<close>.
\<close>

datatype waited = W_Ready | W_Error int | W_Timeout | W_Break int

definition wait_result :: "env \<Rightarrow> bool \<Rightarrow> socket \<Rightarrow> SocketSelect \<Rightarrow> int \<Rightarrow> waited io" where
  "wait_result E reading sock sel ret =
     (if ret < 0 then io_return (W_Error (Errno_of sel))
      else if ret = 0 then io_return W_Timeout
      else
        io_bind (io_lift (IsException sel)) (\<lambda>ex. if ex then io_return (W_Break (Errno_of sel))
        else io_bind (io_lift (IsBreak sel)) (\<lambda>br. if br then io_return (W_Break (Errno_of sel))
        else if Exception_FD_ISSET sel sock then io_bind (socket_error E sock) (\<lambda>e. io_return (W_Error e))
        else if \<not> (if reading then Read_FD_ISSET sel sock else Write_FD_ISSET sel sock) then
          io_bind (socket_error E sock) (\<lambda>e. io_return (W_Error e))
        else io_return W_Ready)))"

definition wait_socket ::
  "env \<Rightarrow> bool \<Rightarrow> socket \<Rightarrow> int \<Rightarrow> nat \<Rightarrow> int \<Rightarrow> SocketSelect \<Rightarrow> (SocketSelect \<times> int \<times> waited) io" where
  "wait_socket E reading sock timeout start cost sel =
     io_bind (io_lift (PreSelect_clear sel)) (\<lambda>sel0.
     io_bind (select_for E timeout (if cost < timeout then to_int (timeout - cost) else 0)
         (Exception_FD_SET sock (if reading then Read_FD_SET sock sel0 else Write_FD_SET sock sel0))) (\<lambda>(sel1, ret).
     io_bind (gettickcount E) (\<lambda>t.
     io_bind (wait_result E reading sock sel1 ret) (\<lambda>w. io_return (sel1, to_int (int t - int start), w)))))"

section \<open>Sending\<close>

record sending =
  sn_cost :: int
  sn_sent :: nat
  sn_sel :: SocketSelect
  sn_return :: int
  sn_errcode :: int

definition send_stop :: "int \<Rightarrow> int \<Rightarrow> sending \<Rightarrow> (bool \<times> sending) io" where
  "send_stop ret errcode st = io_return (True, st\<lparr>sn_return := ret, sn_errcode := errcode\<rparr>)"

definition sent_st :: "sending \<Rightarrow> int \<Rightarrow> sending" where
  "sent_st st n = (if 0 < n then st\<lparr>sn_sent := to_size (int (sn_sent st) + n)\<rparr> else st)"

definition send_after :: "env \<Rightarrow> socket \<Rightarrow> bytes \<Rightarrow> int \<Rightarrow> nat \<Rightarrow> sending \<Rightarrow> (bool \<times> sending) io" where
  "send_after E sock buffer timeout start st1 =
     (if length buffer \<le> sn_sent st1 then send_stop (to_int (int (sn_sent st1))) 0 st1
      else
        io_bind (wait_socket E False sock timeout start (sn_cost st1) (sn_sel st1)) (\<lambda>(sel, cost, w).
          let st2 = st1\<lparr>sn_sel := sel, sn_cost := cost\<rparr> in
          case w of
            W_Error e \<Rightarrow> send_stop (- 1) e st2
          | W_Timeout \<Rightarrow> send_stop (to_int (int (sn_sent st1))) ETIMEDOUT st2
          | W_Break e \<Rightarrow> send_stop (to_int (int (sn_sent st1))) 0 st2
          | W_Ready \<Rightarrow> io_return (False, st2)))"

definition send_pass :: "env \<Rightarrow> socket \<Rightarrow> bytes \<Rightarrow> int \<Rightarrow> nat \<Rightarrow> sending \<Rightarrow> (bool \<times> sending) io" where
  "send_pass E sock buffer timeout start st =
     io_bind (send_to E sock (drop (sn_sent st) buffer)) (\<lambda>nwrite.
     io_bind (if nwrite = 0 then io_return True
              else if nwrite < 0 then io_bind (socket_errno E) (\<lambda>e. io_return (\<not> IS_NOBLOCK_SEND_ERRNO e))
              else io_return False) (\<lambda>failed.
       if failed then io_bind (socket_errno E) (\<lambda>e. send_stop (- 1) e st)
       else send_after E sock buffer timeout start (sent_st st nwrite)))"

definition block_socket_send :: "env \<Rightarrow> socket \<Rightarrow> bytes \<Rightarrow> SocketBreaker \<Rightarrow> int \<Rightarrow> (int \<times> int) io" where
  "block_socket_send E sock buffer brk timeout =
     io_bind (gettickcount E) (\<lambda>start.
     io_bind (io_loop (send_pass E sock buffer timeout start)
         \<lparr>sn_cost = 0, sn_sent = 0, sn_sel = SocketSelect_new brk False, sn_return = 0, sn_errcode = 0\<rparr>) (\<lambda>st.
       io_return (sn_return st, sn_errcode st)))"

section \<open>Receiving\<close>

record receiving =
  rv_cost :: int
  rv_len :: nat
  rv_buffer :: AutoBuffer
  rv_sel :: SocketSelect
  rv_return :: int
  rv_errcode :: int

definition recv_stop :: "int \<Rightarrow> int \<Rightarrow> receiving \<Rightarrow> (bool \<times> receiving) io" where
  "recv_stop ret errcode st = io_return (True, st\<lparr>rv_return := ret, rv_errcode := errcode\<rparr>)"

text \<open>\<^verbatim>\<open>_buffer.Length(_buffer.Pos(), _buffer.Length()+recv_len); return (int)recv_len;\<close>\<close>

definition recv_done :: "int \<Rightarrow> receiving \<Rightarrow> (bool \<times> receiving) io" where
  "recv_done errcode st =
     (let b = rv_buffer st in
      recv_stop (to_int (int (rv_len st))) errcode
        (st\<lparr>rv_buffer := Length_set b (Pos b) (to_size (int (Length b) + int (rv_len st)))\<rparr>))"

definition recv_arrived ::
  "env \<Rightarrow> socket \<Rightarrow> nat \<Rightarrow> int \<Rightarrow> bool \<Rightarrow> nat \<Rightarrow> receiving \<Rightarrow> (bool \<times> receiving) io" where
  "recv_arrived E sock max_size timeout wait_full_size start st =
     (if max_size \<le> rv_len st then recv_done 0 st
      else if 0 < rv_len st \<and> \<not> wait_full_size then recv_done 0 st
      else
        io_bind (wait_socket E True sock timeout start (rv_cost st) (rv_sel st)) (\<lambda>(sel, cost, w).
          let st1 = st\<lparr>rv_sel := sel, rv_cost := cost\<rparr> in
          case w of
            W_Error e \<Rightarrow> recv_stop (- 1) e st1
          | W_Timeout \<Rightarrow> recv_done ETIMEDOUT st1
          | W_Break e \<Rightarrow> recv_done e st1
          | W_Ready \<Rightarrow> io_return (False, st1)))"

definition recv_pass ::
  "env \<Rightarrow> socket \<Rightarrow> nat \<Rightarrow> int \<Rightarrow> bool \<Rightarrow> nat \<Rightarrow> receiving \<Rightarrow> (bool \<times> receiving) io" where
  "recv_pass E sock max_size timeout wait_full_size start st =
     io_bind (recv_from E sock (to_size (int max_size - int (rv_len st)))) (\<lambda>r. case r of
       None \<Rightarrow>
         io_bind (socket_errno E) (\<lambda>e.
           if \<not> IS_NOBLOCK_READ_ERRNO e then io_bind (socket_errno E) (\<lambda>e'. recv_stop (- 1) e' st)
           else recv_arrived E sock max_size timeout wait_full_size start st)
     | Some d \<Rightarrow>
         if d = [] then recv_done 0 st
         else
           let b = rv_buffer st in
           io_bind (io_lift (memcpy_to b (int (Length b) + int (rv_len st)) d)) (\<lambda>b'.
             recv_arrived E sock max_size timeout wait_full_size start
               (st\<lparr>rv_buffer := b', rv_len := to_size (int (rv_len st) + int (length d))\<rparr>)))"

definition recv_capacity :: "AutoBuffer \<Rightarrow> nat \<Rightarrow> AutoBuffer result" where
  "recv_capacity b max_size =
     (let free = to_size (int (Capacity b) - int (Length b)) in
      if free < max_size then AddCapacity b (to_size (int max_size - int free)) else Inr b)"

definition block_socket_recv ::
  "env \<Rightarrow> socket \<Rightarrow> AutoBuffer \<Rightarrow> nat \<Rightarrow> SocketBreaker \<Rightarrow> int \<Rightarrow> bool \<Rightarrow> (int \<times> int \<times> AutoBuffer) io" where
  "block_socket_recv E sock buffer max_size brk timeout wait_full_size =
     io_bind (gettickcount E) (\<lambda>start.
     io_bind (io_lift (recv_capacity buffer max_size)) (\<lambda>b.
     io_bind (io_loop (recv_pass E sock max_size timeout wait_full_size start)
         \<lparr>rv_cost = 0, rv_len = 0, rv_buffer = b, rv_sel = SocketSelect_new brk False, rv_return = 0, rv_errcode = 0\<rparr>) (\<lambda>st.
       io_return (rv_return st, rv_errcode st, rv_buffer st))))"

end
