(* ===== verification/Block_Props.thy ===== *)
theory Block_Props
  imports Block_Socket
begin

text \<open>
  What the calls of \<^verbatim>\<open>block_socket.cc\<close> promise, for every answer of the kernel: no descriptor is lost, the bytes that were
  sent or received are accounted for by the result, and a signalled breaker brings the call back.
\<close>

section \<open>Calls that neither open, close, send nor receive\<close>

definition data_event :: "event \<Rightarrow> bool" where
  "data_event e \<longleftrightarrow> (case e of Send _ _ _ \<Rightarrow> True | Recv_from _ _ _ \<Rightarrow> True | _ \<Rightarrow> fd_event e)"

definition silent :: "log \<Rightarrow> log \<Rightarrow> bool" where
  "silent h h' \<longleftrightarrow> (\<exists>es. h' = es @ h \<and> (\<forall>e\<in>set es. \<not> data_event e))"

lemma silent_refl [simp]: "silent h h"
  by (auto simp: silent_def)

lemma silent_Cons: "\<not> data_event e \<Longrightarrow> silent h h' \<Longrightarrow> silent h (e # h')"
  by (auto simp: silent_def intro: exI [of _ "e # _"])

lemma silent_trans: "silent h h' \<Longrightarrow> silent h' h'' \<Longrightarrow> silent h h''"
  by (auto simp: silent_def)

lemma fd_event_data: "fd_event e \<Longrightarrow> data_event e"
  by (cases e) (simp_all add: data_event_def)

lemma silent_quiet: "silent h h' \<Longrightarrow> quiet h h'"
  unfolding silent_def quiet_def using fd_event_data by blast

lemma silent_length: "silent h h' \<Longrightarrow> length h \<le> length h'"
  by (auto simp: silent_def)

lemma data_event_simps [simp]:
  "\<not> data_event (Tick t)" "\<not> data_event (Errno e)" "\<not> data_event (Fcntl s c r)" "\<not> data_event (Connect s r)"
  "\<not> data_event (Getsockopt_error s r')" "\<not> data_event (Setsockopt s opt v r)" "\<not> data_event (Poll_fds vs m r)"
  "\<not> data_event (Pipe_read s n r)"
  by (simp_all add: data_event_def)

text \<open>The bytes of a log that the kernel took from, and gave to, a descriptor.\<close>

fun sent_on :: "socket \<Rightarrow> log \<Rightarrow> bytes" where
  "sent_on s [] = []"
| "sent_on s (e # h) = sent_on s h @ (case e of Send s' d r \<Rightarrow> if s' = s then take (nat r) d else [] | _ \<Rightarrow> [])"

fun received_on :: "socket \<Rightarrow> log \<Rightarrow> bytes" where
  "received_on s [] = []"
| "received_on s (e # h) = received_on s h
     @ (case e of Recv_from s' n (Some d) \<Rightarrow> if s' = s then d else [] | _ \<Rightarrow> [])"

lemma silent_data: "silent h h' \<Longrightarrow> sent_on s h' = sent_on s h \<and> received_on s h' = received_on s h"
proof -
  have "\<forall>e\<in>set es. \<not> data_event e \<Longrightarrow> sent_on s (es @ h) = sent_on s h \<and> received_on s (es @ h) = received_on s h" for es
    by (induction es) (auto simp: data_event_def split: event.splits)
  then show "silent h h' \<Longrightarrow> ?thesis" by (auto simp: silent_def)
qed

section \<open>The select\<close>

lemma Poll_waits:
  assumes "watches brk sel"
  shows "io_total (Poll E sel msec) h"
    "io_post (Poll E sel msec) h (\<lambda>(sel', ret) h'. watches brk sel' \<and> silent h h' \<and> length h < length h')"
proof -
  obtain v vs where v: "sp_events sel = v # vs" "pfd_fd v = BreakerFD brk" "pfd_events v AND POLLIN \<noteq> 0"
    using assms(1) by (auto simp: watches_def)
  have ne: "sp_events sel \<noteq> []" using v(1) by simp
  obtain p' h' where P: "Poll E sel msec h = Some (Inr ((p', fst (poll_answer E h sel msec)), h'))"
      "polled sel (poll_answer E h sel msec) p'"
    using Poll_polled [OF ne] by blast
  then show "io_total (Poll E sel msec) h" by (simp add: io_total_def)
  have "sp_events p' \<noteq> []" "hd (sp_events p') = v\<lparr>pfd_revents := snd (poll_answer E h sel msec) 0\<rparr>"
    using P(2) v(1) by (simp_all add: polled_def hd_conv_nth)
  then have "watches brk p'" using v(2,3) by (cases "sp_events p'") (auto simp: watches_def)
  moreover have "io_post (Poll E sel msec) h (\<lambda>_ h'. silent h h' \<and> length h < length h')"
    unfolding Poll_def Breaker_Clear_def sys_calls
    by (auto simp: io_wp Let_def intro!: silent_Cons split: prod.splits)
  ultimately show "io_post (Poll E sel msec) h (\<lambda>(sel', ret) h'. watches brk sel' \<and> silent h h' \<and> length h < length h')"
    using P(1) by (auto simp: io_post_def)
qed

lemma select_for_waits:
  assumes "watches brk sel"
  shows "io_total (select_for E timeout msec sel) h"
    "io_post (select_for E timeout msec sel) h (\<lambda>(sel', ret) h'. watches brk sel' \<and> silent h h' \<and> length h < length h'
      \<and> (\<forall>N. broken_from E brk N \<longrightarrow> N \<le> length h \<longrightarrow> ret < 0 \<or> IsBreak sel' = Inr True))"
proof -
  have "io_post (Poll E sel m) h (\<lambda>(sel', ret) h'. watches brk sel' \<and> silent h h' \<and> length h < length h'
      \<and> (\<forall>N. broken_from E brk N \<longrightarrow> N \<le> length h \<longrightarrow> ret < 0 \<or> IsBreak sel' = Inr True))" for m
    using Poll_waits [OF assms, of E m h] Poll_breaks [OF assms, of E _ h m]
    unfolding io_post_def by (auto simp: case_prod_unfold)
  then show "io_post (select_for E timeout msec sel) h (\<lambda>(sel', ret) h'. watches brk sel' \<and> silent h h' \<and> length h < length h'
      \<and> (\<forall>N. broken_from E brk N \<longrightarrow> N \<le> length h \<longrightarrow> ret < 0 \<or> IsBreak sel' = Inr True))"
    by (simp add: select_for_def Select_msec_def Select_def)
  show "io_total (select_for E timeout msec sel) h"
    using Poll_waits [OF assms] by (simp add: select_for_def Select_msec_def Select_def)
qed

lemma PreSelect_watches_sel: "watches brk sel \<Longrightarrow> \<exists>sel'. PreSelect_clear sel = Inr sel' \<and> watches brk sel'"
  by (auto simp: PreSelect_clear_def ClearEvent_def watches_def)

lemma watches_IsBreak: "watches brk sel \<Longrightarrow> \<exists>e b. IsException sel = Inr e \<and> IsBreak sel = Inr b"
  by (auto simp: watches_def IsException_def BreakerIsError_def IsBreak_def BreakerIsBreak_def)

lemma watches_start: "watches brk (SocketSelect_new brk False)"
  by (simp add: watches_def SocketSelect_new_def SocketPoll_new_def POLLIN_def)

lemma socket_error_silent: "io_total (socket_error E s) h" "io_post (socket_error E s) h (\<lambda>_ h'. silent h h')"
  unfolding socket_error_def sys_calls
  by (auto simp: io_total_bind io_wp intro!: silent_Cons split: option.splits)

lemma wait_result_ok:
  assumes "watches brk sel"
  shows "io_total (wait_result E reading sock sel ret) h"
    "io_post (wait_result E reading sock sel ret) h (\<lambda>w h'. silent h h' \<and> (ret < 0 \<or> IsBreak sel = Inr True \<longrightarrow> w \<noteq> W_Ready))"
proof -
  obtain e b where "IsException sel = Inr e" "IsBreak sel = Inr b" using watches_IsBreak [OF assms] by blast
  then show "io_total (wait_result E reading sock sel ret) h"
    "io_post (wait_result E reading sock sel ret) h (\<lambda>w h'. silent h h' \<and> (ret < 0 \<or> IsBreak sel = Inr True \<longrightarrow> w \<noteq> W_Ready))"
    using socket_error_silent [of E sock h] by (auto simp: wait_result_def io_total_bind io_total_lift io_wp)
qed

lemma wait_socket_ok:
  assumes "watches brk sel"
  shows "io_total (wait_socket E reading sock timeout start cost sel) h"
    "io_post (wait_socket E reading sock timeout start cost sel) h (\<lambda>(sel', cost', w) h'. watches brk sel' \<and> silent h h'
      \<and> length h < length h' \<and> (\<forall>N. broken_from E brk N \<longrightarrow> N \<le> length h \<longrightarrow> w \<noteq> W_Ready))"
proof -
  obtain sel0 where s0: "PreSelect_clear sel = Inr sel0" "watches brk sel0" using PreSelect_watches_sel [OF assms] by blast
  define sel1 where "sel1 = Exception_FD_SET sock (if reading then Read_FD_SET sock sel0 else Write_FD_SET sock sel0)"
  have w1: "watches brk sel1" using s0(2) by (simp add: sel1_def watches_FD_SET)
  note ok = select_for_waits [OF w1, of E timeout "if cost < timeout then to_int (timeout - cost) else 0" h]
  show "io_total (wait_socket E reading sock timeout start cost sel) h"
    using ok by (auto simp: wait_socket_def io_total_bind io_total_lift io_wp s0 sel1_def [symmetric] gettickcount_def wait_result_ok
        elim!: io_post_mono)
  have "io_post (wait_result E reading sock sel' ret) (Tick t # h') (\<lambda>w h''. silent h h'' \<and> length h < length h''
      \<and> (\<forall>N. broken_from E brk N \<longrightarrow> N \<le> length h \<longrightarrow> w \<noteq> W_Ready))"
    if "watches brk sel'" "silent h h'" "length h < length h'"
      "\<forall>N. broken_from E brk N \<longrightarrow> N \<le> length h \<longrightarrow> ret < 0 \<or> IsBreak sel' = Inr True" for sel' ret t h'
  proof (rule io_post_mono [OF wait_result_ok(2) [OF that(1)]], elim conjE)
    fix w h''
    assume s: "silent (Tick t # h') h''" and w: "ret < 0 \<or> IsBreak sel' = Inr True \<longrightarrow> w \<noteq> W_Ready"
    have "silent h h''" by (rule silent_trans [OF silent_Cons [OF _ that(2)] s]) simp
    moreover have "length h < length h''" using silent_length [OF s] that(3) by simp
    ultimately show "silent h h'' \<and> length h < length h'' \<and> (\<forall>N. broken_from E brk N \<longrightarrow> N \<le> length h \<longrightarrow> w \<noteq> W_Ready)"
      using w that(4) by blast
  qed
  then show "io_post (wait_socket E reading sock timeout start cost sel) h (\<lambda>(sel', cost', w) h'. watches brk sel' \<and> silent h h'
      \<and> length h < length h' \<and> (\<forall>N. broken_from E brk N \<longrightarrow> N \<le> length h \<longrightarrow> w \<noteq> W_Ready))"
    using ok(2) unfolding wait_socket_def
    by (auto simp: io_wp s0 sel1_def [symmetric] gettickcount_def case_prod_unfold elim!: io_post_mono)
qed

section \<open>Connecting\<close>

text \<open>With the descriptor \<open>sock\<close> open: it is closed and refused, or given out with the error 0 that \<^verbatim>\<open>SO_ERROR\<close> told.\<close>

definition given_out :: "socket \<Rightarrow> log \<Rightarrow> socket \<times> int \<Rightarrow> log \<Rightarrow> bool" where
  "given_out sock h r h' \<longleftrightarrow> (case r of (s, e) \<Rightarrow>
     if s = INVALID_SOCKET then opened h' = opened h \<and> closed h' = add_mset sock (closed h)
     else s = sock \<and> e = 0 \<and> opened h' = opened h \<and> closed h' = closed h
       \<and> (hd h' = Getsockopt_error sock (Some 0) \<or> hd h' = Errno 0))"

lemma give_up_ok: "io_total (give_up sock e) h" "silent h0 h \<Longrightarrow> io_post (give_up sock e) h (given_out sock h0)"
proof -
  show "io_total (give_up sock e) h"
    by (simp add: give_up_def socket_close_def io_total_then io_wp)
  assume "silent h0 h"
  then have "opened h = opened h0 \<and> closed h = closed h0" using quiet_fds silent_quiet by blast
  then show "io_post (give_up sock e) h (given_out sock h0)"
    by (simp add: give_up_def socket_close_def io_wp given_out_def)
qed

lemma socket_error_hd:
  "io_post (socket_error E s) h (\<lambda>e h'. silent h h' \<and> (hd h' = Getsockopt_error s (Some e) \<or> hd h' = Errno e))"
  unfolding socket_error_def sys_calls
  by (auto simp: io_wp intro!: silent_Cons)

lemma connect_selected_ok:
  assumes "watches brk sel" "silent h0 h" "sock \<noteq> INVALID_SOCKET"
  shows "io_total (connect_selected E sock sel ret) h" "io_post (connect_selected E sock sel ret) h (given_out sock h0)"
proof -
  obtain e b where eb: "IsException sel = Inr e" "IsBreak sel = Inr b" using watches_IsBreak [OF assms(1)] by blast
  have gu: "io_post (io_bind (socket_error E sock) (give_up sock)) h (given_out sock h0)"
    unfolding io_post_bind
    by (rule io_post_mono [OF socket_error_silent(2)]) (rule give_up_ok(2), rule silent_trans [OF assms(2)])
  have last: "io_post (if 0 \<noteq> e then give_up sock e else io_return (sock, e)) h' (given_out sock h0)"
    if "silent h h'" "hd h' = Getsockopt_error sock (Some e) \<or> hd h' = Errno e" for e h'
    using give_up_ok(2) [OF silent_trans [OF assms(2) that(1)]] that(2) assms(3)
      quiet_fds [OF silent_quiet [OF silent_trans [OF assms(2) that(1)]]] by (auto simp: io_wp given_out_def)
  have ok: "io_post (io_bind (socket_error E sock) (\<lambda>e. if 0 \<noteq> e then give_up sock e else io_return (sock, e))) h (given_out sock h0)"
    unfolding io_post_bind by (rule io_post_mono [OF socket_error_hd]) (use last in blast)
  show "io_post (connect_selected E sock sel ret) h (given_out sock h0)"
    using give_up_ok(2) [OF assms(2)] gu ok by (simp add: connect_selected_def eb io_post_bind [of "io_lift _"] io_post_lift)
  show "io_total (connect_selected E sock sel ret) h"
    using socket_error_silent(1) give_up_ok(1)
    by (auto simp: connect_selected_def eb io_total_bind io_total_lift io_wp intro!: io_post_any)
qed

lemma connect_wait_ok:
  assumes "silent h0 h" "sock \<noteq> INVALID_SOCKET"
  shows "io_total (connect_wait E brk sock timeout) h" "io_post (connect_wait E brk sock timeout) h (given_out sock h0)"
proof -
  obtain sel where s: "PreSelect_clear (SocketSelect_new brk False) = Inr sel" "watches brk sel"
    using PreSelect_watches_sel [OF watches_start] by blast
  define sel1 where "sel1 = Exception_FD_SET sock (Write_FD_SET sock sel)"
  have w1: "watches brk sel1" using s(2) by (simp add: sel1_def watches_FD_SET)
  note sf = select_for_waits [OF w1, of E timeout timeout h]
  have next1: "silent h0 h'" if "silent h h'" for h' using silent_trans [OF assms(1) that] .
  show "io_total (connect_wait E brk sock timeout) h"
    unfolding connect_wait_def io_total_bind io_total_lift io_post_lift
    using s(1) sf connect_selected_ok(1) [OF _ next1 assms(2)]
    by (auto simp: sel1_def [symmetric] case_prod_unfold elim!: io_post_mono)
  show "io_post (connect_wait E brk sock timeout) h (given_out sock h0)"
    unfolding connect_wait_def io_post_bind io_post_lift
    using s(1) sf(2) connect_selected_ok(2) [OF _ next1 assms(2)]
    by (auto simp: sel1_def [symmetric] case_prod_unfold elim!: io_post_mono)
qed

lemma nobio_silent: "io_total (socket_set_nobio E s) h" "io_post (socket_set_nobio E s) h (\<lambda>_ h'. silent h h')"
  unfolding socket_set_nobio_def sys_calls by (auto simp: io_total_bind io_wp intro!: silent_Cons)

lemma mss_silent:
  "io_total (if wifi then io_bind (socket_fix_tcp_mss E s) (\<lambda>_. io_return ()) else io_return ()) h"
  "io_post (if wifi then io_bind (socket_fix_tcp_mss E s) (\<lambda>_. io_return ()) else io_return ()) h (\<lambda>_ h'. silent h h')"
  unfolding socket_fix_tcp_mss_def socket_set_tcp_mss_def sys_calls by (auto simp: io_total_bind io_wp intro!: silent_Cons)

lemma connect_prepare_ok:
  assumes "sock \<noteq> INVALID_SOCKET"
  shows "io_total (connect_prepare E wifi brk sock timeout) h"
    "io_post (connect_prepare E wifi brk sock timeout) h (given_out sock h)"
proof -
  have err: "io_total (io_bind (socket_errno E) (give_up sock)) h1"
    "silent h h1 \<Longrightarrow> io_post (io_bind (socket_errno E) (give_up sock)) h1 (given_out sock h)" for h1
    using give_up_ok(1) give_up_ok(2) [OF silent_Cons]
    by (simp_all add: socket_errno_def io_total_bind io_wp)
  have conn: "io_total (connect_wait E brk sock timeout) h1"
    "silent h h1 \<Longrightarrow> io_post (connect_wait E brk sock timeout) h1 (given_out sock h)" for h1
    using connect_wait_ok [OF _ assms(1)] silent_refl by blast+
  let ?c = "connect_start E brk sock timeout"
  have c: "io_total ?c h1" "silent h h1 \<Longrightarrow> io_post ?c h1 (given_out sock h)" for h1
    using err conn unfolding connect_start_def connect_to_def socket_errno_def
    by (auto simp: io_total_bind io_post_bind [of "io_call _ _"] io_post_call silent_Cons)
  let ?m = "if wifi then io_bind (socket_fix_tcp_mss E sock) (\<lambda>_. io_return ()) else io_return ()"
  have t: "io_total (io_then ?m ?c) h1" "silent h h1 \<Longrightarrow> io_post (io_then ?m ?c) h1 (given_out sock h)" for h1
  proof -
    show "io_total (io_then ?m ?c) h1"
      unfolding io_total_then using mss_silent(1) c(1) by (blast intro: io_post_any)
    assume "silent h h1"
    then show "io_post (io_then ?m ?c) h1 (given_out sock h)"
      unfolding io_post_then by (intro io_post_mono [OF mss_silent(2)] c(2)) (rule silent_trans)
  qed
  show "io_total (connect_prepare E wifi brk sock timeout) h"
    unfolding connect_prepare_def io_total_bind using nobio_silent(1) err(1) t(1) by (auto intro!: io_post_any)
  show "io_post (connect_prepare E wifi brk sock timeout) h (given_out sock h)"
    unfolding connect_prepare_def io_post_bind [of "socket_set_nobio _ _"]
    by (rule io_post_mono [OF nobio_silent(2)]) (use err(2) t(2) in simp)
qed

text \<open>\<^verbatim>\<open>block_socket_connect\<close> always comes back, whatever the kernel answers: with \<^verbatim>\<open>INVALID_SOCKET\<close> and every descriptor it
  opened closed again, or with the one descriptor it opened, the error 0, as the last call has told, and nothing closed.\<close>

theorem block_socket_connect_result:
  "\<exists>s e h'. block_socket_connect E wifi brk timeout h = Some (Inr ((s, e), h'))
    \<and> (if s = INVALID_SOCKET then (\<exists>M. opened h' = opened h + M \<and> closed h' = closed h + M)
       else opened h' = add_mset s (opened h) \<and> closed h' = closed h \<and> e = 0
         \<and> (hd h' = Getsockopt_error s (Some 0) \<or> hd h' = Errno 0))"
proof -
  let ?s = "env_socket E h"
  show ?thesis
  proof (cases "?s = INVALID_SOCKET")
    case True
    then have "block_socket_connect E wifi brk timeout h
        = Some (Inr ((INVALID_SOCKET, env_errno E (Socket ?s # h)), Errno (env_errno E (Socket ?s # h)) # Socket ?s # h))"
      by (simp add: block_socket_connect_def sys_calls io_bind_def io_call_def io_return_def)
    with True show ?thesis by auto
  next
    case False
    note m = connect_prepare_ok [OF False, of E wifi brk timeout "Socket ?s # h"]
    have run: "block_socket_connect E wifi brk timeout h = connect_prepare E wifi brk ?s timeout (Socket ?s # h)"
      using False by (simp add: block_socket_connect_def socket_open_def io_bind_def io_call_def)
    obtain s e h' where r: "block_socket_connect E wifi brk timeout h = Some (Inr ((s, e), h'))"
      and g: "given_out ?s (Socket ?s # h) (s, e) h'"
      unfolding run using m by (auto simp: io_total_def io_post_def)
    show ?thesis
    proof (cases "s = INVALID_SOCKET")
      case True
      then have "opened h' = opened h + {#?s#} \<and> closed h' = closed h + {#?s#}" using g False by (simp add: given_out_def)
      with r True show ?thesis by auto
    next
      case False2: False
      with g False r show ?thesis by (auto simp: given_out_def)
    qed
  qed
qed

section \<open>Loops that a breaker ends\<close>

text \<open>A pass that keeps \<open>I\<close>, leaves with \<open>Q\<close>, and leaves when the breaker is signalled.\<close>

lemma breakable_loop:
  assumes "I st h" and step: "\<And>st h. I st h \<Longrightarrow> io_total (pass st) h \<and> io_post (pass st) h (\<lambda>(stop, st') h'.
      length h < length h' \<and> (stop \<longrightarrow> Q st' h') \<and> (\<not> stop \<longrightarrow> I st' h') \<and> (\<forall>N. broken_from E brk N \<longrightarrow> N \<le> length h \<longrightarrow> stop))"
  shows "io_post (io_loop pass st) h Q" "broken_from E brk N \<Longrightarrow> io_total (io_loop pass st) h"
proof -
  have "io_post (pass st) h (\<lambda>(stop, st1) h1. (stop \<longrightarrow> Q st1 h1) \<and> (\<not> stop \<longrightarrow> I st1 h1))" if "I st h" for st h
    by (rule io_post_mono [OF conjunct2 [OF step [OF that]]]) auto
  then show "io_post (io_loop pass st) h Q"
    unfolding io_post_def [of "io_loop _ _"] using io_loop_inv [where I = I and Q = Q, OF _ assms(1)] by blast
  assume N: "broken_from E brk N"
  show "io_total (io_loop pass st) h"
  proof (rule io_loop_total [where I = I and N = N, OF assms(1)])
    fix st h assume I: "I st h"
    show "io_total (pass st) h" using step [OF I] by blast
    show "io_post (pass st) h (\<lambda>(stop, st') h'. length h < length h' \<and> (\<not> stop \<longrightarrow> I st' h'))"
      by (rule io_post_mono [OF conjunct2 [OF step [OF I]]]) auto
    show "N \<le> length h \<Longrightarrow> io_post (pass st) h (\<lambda>(stop, _) _. stop)"
      by (rule io_post_mono [OF conjunct2 [OF step [OF I]]]) (use N in auto)
  qed
qed

section \<open>Sending\<close>

text \<open>The kernel never takes more than it is given.\<close>

definition send_honest :: "env \<Rightarrow> bool" where
  "send_honest E \<longleftrightarrow> (\<forall>h s d. env_send E h s d \<le> int (length d))"

definition send_inv :: "SocketBreaker \<Rightarrow> socket \<Rightarrow> bytes \<Rightarrow> log \<Rightarrow> sending \<Rightarrow> log \<Rightarrow> bool" where
  "send_inv brk sock buffer h0 st h \<longleftrightarrow> watches brk (sn_sel st) \<and> sn_sent st \<le> length buffer
     \<and> sent_on sock h = sent_on sock h0 @ take (sn_sent st) buffer"

definition send_result :: "socket \<Rightarrow> bytes \<Rightarrow> log \<Rightarrow> int \<Rightarrow> int \<Rightarrow> log \<Rightarrow> bool" where
  "send_result sock buffer h0 ret e h \<longleftrightarrow> (\<exists>n\<le>length buffer. sent_on sock h = sent_on sock h0 @ take n buffer
     \<and> (ret = - 1 \<or> ret = int n \<and> (if n = length buffer then e = 0 else e = 0 \<or> e = ETIMEDOUT)))"

lemma sent_st_inv:
  assumes inv: "send_inv brk sock buffer h0 st h" and n: "n \<le> int (length buffer - sn_sent st)" and len: "length buffer < 2 ^ 31"
    and s: "silent (Send sock (drop (sn_sent st) buffer) n # h) h'"
  shows "send_inv brk sock buffer h0 (sent_st st n) h'"
proof -
  have i: "sn_sent st \<le> length buffer" using inv by (simp add: send_inv_def)
  have sz: "0 < n \<Longrightarrow> to_size (int (sn_sent st) + n) = sn_sent st + nat n"
    using n len i to_size_id [of "int (sn_sent st) + n"] by (simp add: nat_add_distrib)
  have "take (nat n) (drop (sn_sent st) buffer) = [] \<or> 0 < n" by (cases "0 < n") simp_all
  then show ?thesis
    using inv n sz silent_data [OF s, of sock] by (auto simp: send_inv_def sent_st_def take_add)
qed

lemma send_stop_post: "io_post (send_stop ret e st) h Q \<longleftrightarrow> Q (True, st\<lparr>sn_return := ret, sn_errcode := e\<rparr>) h"
  by (simp add: send_stop_def io_wp)

lemma send_stop_total [simp]: "io_total (send_stop ret e st) h"
  by (simp add: send_stop_def)

text \<open>What a pass leaves behind.\<close>

definition send_step :: "env \<Rightarrow> SocketBreaker \<Rightarrow> socket \<Rightarrow> bytes \<Rightarrow> log \<Rightarrow> log \<Rightarrow> bool \<times> sending \<Rightarrow> log \<Rightarrow> bool" where
  "send_step E brk sock buffer h0 h r h' \<longleftrightarrow> (case r of (stop, st) \<Rightarrow> length h < length h'
     \<and> (stop \<longrightarrow> send_result sock buffer h0 (sn_return st) (sn_errcode st) h')
     \<and> (\<not> stop \<longrightarrow> send_inv brk sock buffer h0 st h')
     \<and> (\<forall>N. broken_from E brk N \<longrightarrow> N \<le> length h \<longrightarrow> stop))"

lemma send_result_stop:
  assumes "send_inv brk sock buffer h0 st h" "length buffer < 2 ^ 31"
  shows "send_result sock buffer h0 (- 1) e h"
    "length buffer \<le> sn_sent st \<Longrightarrow> send_result sock buffer h0 (to_int (int (sn_sent st))) 0 h"
    "sn_sent st < length buffer \<Longrightarrow> e = 0 \<or> e = ETIMEDOUT \<Longrightarrow> send_result sock buffer h0 (to_int (int (sn_sent st))) e h"
  using assms to_int_id [of "int (sn_sent st)"] by (auto simp: send_result_def send_inv_def)

lemma send_after_total:
  assumes "send_inv brk sock buffer h0 st h"
  shows "io_total (send_after E sock buffer timeout start st) h"
proof -
  have w: "watches brk (sn_sel st)" using assms by (simp add: send_inv_def)
  show ?thesis
    using wait_socket_ok(1) [OF w]
    by (auto simp: send_after_def io_total_bind Let_def intro!: io_post_any split: waited.split)
qed

lemma send_after_ok:
  assumes inv: "send_inv brk sock buffer h0 st h1" and len: "length buffer < 2 ^ 31" "length h < length h1"
  shows "io_post (send_after E sock buffer timeout start st) h1 (send_step E brk sock buffer h0 h)"
proof -
  have w: "watches brk (sn_sel st)" using inv by (simp add: send_inv_def)
  note ws = wait_socket_ok [OF w, of E False sock timeout start "sn_cost st" h1]
  show ?thesis
  proof (cases "length buffer \<le> sn_sent st")
    case True
    then show ?thesis using send_result_stop(2) [OF inv len(1)] len(2) by (simp add: send_after_def send_stop_post send_step_def)
  next
    case False
    then have less: "sn_sent st < length buffer" by simp
    have "io_post (let st2 = st\<lparr>sn_sel := sel, sn_cost := cost\<rparr> in
          case w of
            W_Error e \<Rightarrow> send_stop (- 1) e st2
          | W_Timeout \<Rightarrow> send_stop (to_int (int (sn_sent st))) ETIMEDOUT st2
          | W_Break e \<Rightarrow> send_stop (to_int (int (sn_sent st))) 0 st2
          | W_Ready \<Rightarrow> io_return (False, st2)) h2 (send_step E brk sock buffer h0 h)"
      if "watches brk sel" "silent h1 h2" "length h1 < length h2" "\<forall>N. broken_from E brk N \<longrightarrow> N \<le> length h1 \<longrightarrow> w \<noteq> W_Ready"
      for sel cost w h2
    proof -
      let ?st = "st\<lparr>sn_sel := sel, sn_cost := cost\<rparr>"
      have inv2: "send_inv brk sock buffer h0 ?st h2"
        using inv that(1) silent_data [OF that(2)] by (simp add: send_inv_def)
      note res = send_result_stop [OF inv2 len(1)]
      show ?thesis
        using res(1) res(3) less inv2 that(3,4) len(2)
        by (cases w) (auto simp: send_stop_post send_step_def io_wp)
    qed
    then show ?thesis
      using False ws(2) by (auto simp: send_after_def io_post_bind case_prod_unfold elim!: io_post_mono)
  qed
qed

lemma send_pass_ok:
  assumes inv: "send_inv brk sock buffer h0 st h" and E: "send_honest E" and len: "length buffer < 2 ^ 31"
  shows "io_total (send_pass E sock buffer timeout start st) h"
    "io_post (send_pass E sock buffer timeout start st) h (send_step E brk sock buffer h0 h)"
proof -
  let ?d = "drop (sn_sent st) buffer"
  define n where "n = env_send E h sock ?d"
  have n: "n \<le> int (length buffer - sn_sent st)" using E unfolding send_honest_def n_def by (metis length_drop)
  have later: "send_inv brk sock buffer h0 (sent_st st n) h'" if "silent (Send sock ?d n # h) h'" for h'
    using sent_st_inv [OF inv n len that] .
  have fail: "send_inv brk sock buffer h0 st h'" if "silent (Send sock ?d n # h) h'" "n \<le> 0" for h'
    using later [OF that(1)] that(2) by (simp add: sent_st_def)
  note aft = send_after_total [OF later] send_after_ok [OF later len]
  show "io_total (send_pass E sock buffer timeout start st) h"
    using aft(1)
    by (auto simp: send_pass_def sys_calls io_total_bind io_wp n_def [symmetric] silent_Cons)
  have failed: "n = 0 \<or> n < 0" if "n \<noteq> 0 \<longrightarrow> \<not> 0 < n" using that by linarith
  show "io_post (send_pass E sock buffer timeout start st) h (send_step E brk sock buffer h0 h)"
    using aft(2) send_result_stop(1) [OF fail len]
    by (auto simp: send_pass_def sys_calls io_post_bind [of "io_call _ _"] io_post_bind [of "If _ _ _"] io_post_call io_post_if
        io_post_return n_def [symmetric] silent_Cons send_stop_post send_step_def)
qed

text \<open>C35: \<^verbatim>\<open>block_socket_send\<close> on a buffer below 2 GB: whatever comes back, what the kernel took is a prefix of the buffer, sent
  once and in order; a result other than -1 is the length of that prefix, with the error 0 when it is the whole buffer, and
  with 0 or \<^verbatim>\<open>ETIMEDOUT\<close> when it is not; and once the breaker is signalled it does come back.\<close>

theorem block_socket_send_result:
  assumes "send_honest E" "length buffer < 2 ^ 31"
  shows "(\<forall>ret e h'. block_socket_send E sock buffer brk timeout h = Some (Inr ((ret, e), h')) \<longrightarrow>
        (\<exists>n\<le>length buffer. sent_on sock h' = sent_on sock h @ take n buffer
          \<and> (ret = - 1 \<or> ret = int n \<and> (if n = length buffer then e = 0 else e = 0 \<or> e = ETIMEDOUT))))
    \<and> (\<forall>N. broken_from E brk N \<longrightarrow> (\<exists>r. block_socket_send E sock buffer brk timeout h = Some (Inr r)))"
proof -
  define st0 :: sending where
    "st0 = \<lparr>sn_cost = 0, sn_sent = 0, sn_sel = SocketSelect_new brk False, sn_return = 0, sn_errcode = 0\<rparr>"
  let ?start = "env_tick E h"
  let ?pass = "send_pass E sock buffer timeout ?start"
  let ?I = "send_inv brk sock buffer h" and ?h = "Tick ?start # h"
  have run: "block_socket_send E sock buffer brk timeout h
      = io_bind (io_loop ?pass st0) (\<lambda>st. io_return (sn_return st, sn_errcode st)) ?h"
    by (simp add: block_socket_send_def gettickcount_def io_bind_def io_call_def st0_def)
  have I0: "?I st0 ?h" by (simp add: send_inv_def st0_def watches_start)
  note loop = breakable_loop [where I = ?I and pass = ?pass and E = E and brk = brk
      and Q = "\<lambda>st h'. send_result sock buffer h (sn_return st) (sn_errcode st) h'", OF I0]
  have step: "io_total (?pass st) h1 \<and> io_post (?pass st) h1 (\<lambda>(stop, st1) h2. length h1 < length h2
      \<and> (stop \<longrightarrow> send_result sock buffer h (sn_return st1) (sn_errcode st1) h2) \<and> (\<not> stop \<longrightarrow> ?I st1 h2)
      \<and> (\<forall>N. broken_from E brk N \<longrightarrow> N \<le> length h1 \<longrightarrow> stop))" if "?I st h1" for st h1
    by (intro conjI send_pass_ok(1) [OF that assms] io_post_mono [OF send_pass_ok(2) [OF that assms]]) (auto simp: send_step_def)
  have "send_result sock buffer h ret e h'"
    if "block_socket_send E sock buffer brk timeout h = Some (Inr ((ret, e), h'))" for ret e h'
    using that io_postD [OF loop(1) [OF step]] unfolding run by (auto simp: io_bind_eq_Inr io_return_def)
  moreover have "\<exists>r. block_socket_send E sock buffer brk timeout h = Some (Inr r)" if "broken_from E brk N" for N
    using loop(2) [OF step that] by (auto simp: run io_total_def io_bind_def io_return_def)
  ultimately show ?thesis unfolding send_result_def by blast
qed

section \<open>Receiving\<close>

text \<open>The kernel never gives more than it is asked for.\<close>

definition recv_honest :: "env \<Rightarrow> bool" where
  "recv_honest E \<longleftrightarrow> (\<forall>h s n d. env_recv E h s n = Some d \<longrightarrow> length d \<le> n)"

text \<open>The buffer holds its old content \<open>c\<close> and behind it, not yet counted by its length, what has arrived.\<close>

definition recv_inv :: "SocketBreaker \<Rightarrow> socket \<Rightarrow> nat \<Rightarrow> bytes \<Rightarrow> nat \<Rightarrow> log \<Rightarrow> receiving \<Rightarrow> log \<Rightarrow> bool" where
  "recv_inv brk sock max_size c p h0 st h \<longleftrightarrow> watches brk (rv_sel st) \<and> wf_buf (rv_buffer st) \<and> content (rv_buffer st) = c
     \<and> cursor (rv_buffer st) = p \<and> length c + max_size \<le> ab_capacity (rv_buffer st) \<and> rv_len st \<le> max_size
     \<and> (\<exists>r. received_on sock h = received_on sock h0 @ r \<and> length r = rv_len st
          \<and> take (length c + rv_len st) (ab_block (rv_buffer st)) = c @ r)"

definition recv_result :: "socket \<Rightarrow> nat \<Rightarrow> bytes \<Rightarrow> nat \<Rightarrow> log \<Rightarrow> int \<Rightarrow> AutoBuffer \<Rightarrow> log \<Rightarrow> bool" where
  "recv_result sock max_size c p h0 ret b h \<longleftrightarrow> wf_buf b \<and> cursor b = p
     \<and> (\<exists>r. received_on sock h = received_on sock h0 @ r \<and> length r \<le> max_size
          \<and> (if ret = - 1 then content b = c else ret = int (length r) \<and> content b = c @ r))"

lemma recv_capacity_ok:
  assumes wf: "wf_buf b" and len: "length (content b) < 2 ^ 60" "max_size < 2 ^ 31"
  shows "\<exists>b'. recv_capacity b max_size = Inr b' \<and> wf_buf b' \<and> content b' = content b \<and> cursor b' = cursor b
    \<and> length (content b) + max_size \<le> ab_capacity b'"
proof -
  have L: "length (content b) = ab_length b" "ab_length b \<le> ab_capacity b" "ab_capacity b < 2 ^ 63"
    using wf length_content by (auto simp: wf_buf_def PTRDIFF_MAX_val)
  have free: "to_size (int (Capacity b) - int (Length b)) = ab_capacity b - ab_length b"
    using L to_size_of_nat [of "ab_capacity b - ab_length b"] by (simp add: Capacity_def Length_def of_nat_diff)
  show ?thesis
  proof (cases "ab_capacity b - ab_length b < max_size")
    case False
    with wf L free show ?thesis by (simp add: recv_capacity_def)
  next
    case True
    have more: "to_size (int max_size - int (ab_capacity b - ab_length b)) = max_size - (ab_capacity b - ab_length b)"
      using True len(2) to_size_of_nat [of "max_size - (ab_capacity b - ab_length b)"] by (simp add: of_nat_diff)
    have sum: "ab_capacity b + (max_size - (ab_capacity b - ab_length b)) = ab_length b + max_size" using True L by simp
    have "int (Capacity b) + int (max_size - (ab_capacity b - ab_length b)) = int (ab_length b + max_size)"
      unfolding sum [symmetric] by (simp add: Capacity_def)
    moreover have "ab_length b + max_size < 2 ^ 64" using L(1) len by simp
    ultimately have "to_size (int (Capacity b) + int (max_size - (ab_capacity b - ab_length b))) = ab_length b + max_size"
      by (simp only: to_size_of_nat)
    then have room: "recv_capacity b max_size = FitSize b (ab_length b + max_size)"
      using True free more by (simp add: recv_capacity_def AddCapacity_def)
    have "ab_length b + max_size \<le> 2 ^ 62" using L(1) len by simp
    from FitSize_ok [OF wf this] obtain b' where b': "FitSize b (ab_length b + max_size) = Inr b'" "grown b (ab_length b + max_size) b'"
      by blast
    then show ?thesis
      using room grown_wf [OF wf b'(2)] grown_content [OF wf b'(2)] L by (auto simp: grown_def cursor_def)
  qed
qed

lemma arrived_inv:
  assumes inv: "recv_inv brk sock max_size c p h0 st h" and d: "d \<noteq> []" "length d \<le> max_size - rv_len st"
    and len: "length c < 2 ^ 60" "max_size < 2 ^ 31"
  shows "\<exists>b'. memcpy_to (rv_buffer st) (int (Length (rv_buffer st)) + int (rv_len st)) d = Inr b'
    \<and> recv_inv brk sock max_size c p h0 (st\<lparr>rv_buffer := b', rv_len := to_size (int (rv_len st) + int (length d))\<rparr>)
        (Recv_from sock n (Some d) # h)"
proof -
  let ?b = "rv_buffer st" and ?o = "length c + rv_len st"
  obtain r where r: "received_on sock h = received_on sock h0 @ r" "length r = rv_len st" "take ?o (ab_block ?b) = c @ r"
    and i: "watches brk (rv_sel st)" "wf_buf ?b" "content ?b = c" "cursor ?b = p" "length c + max_size \<le> ab_capacity ?b"
      "rv_len st \<le> max_size"
    using inv by (auto simp: recv_inv_def)
  have L: "ab_length ?b = length c" "length (ab_block ?b) = ab_capacity ?b" using length_content [OF i(2)] i(2,3) by (simp_all add: wf_buf_def)
  have fit: "?o + length d \<le> length (ab_block ?b)" using L(2) i(5,6) d(2) by simp
  have n: "nat (int (Length ?b) + int (rv_len st)) = ?o" by (simp add: Length_def L nat_add_distrib)
  define b' where "b' = ?b\<lparr>ab_parray := Some (overwrite ?o d (ab_block ?b))\<rparr>"
  have m: "memcpy_to ?b (int (Length ?b) + int (rv_len st)) d = Inr b'"
    using d(1) fit by (simp add: memcpy_to_def n b'_def)
  have blk: "ab_block b' = overwrite ?o d (ab_block ?b)" by (simp add: b'_def ab_block_def)
  have same: "ab_pos b' = ab_pos ?b" "ab_length b' = length c" "ab_capacity b' = ab_capacity ?b" by (simp_all add: b'_def L)
  have "wf_buf b'" using i(2) fit L blk by (simp add: b'_def wf_buf_def)
  moreover have "take (?o + length d) (ab_block b') = c @ (r @ d)"
    unfolding blk take_overwrite_end [OF fit] r(3) by simp
  moreover from this have "content b' = c" unfolding content_def same
    by (metis append_take_drop_id append_eq_conv_conj take_take min.absorb1 le_add1 add.assoc)
  moreover have "to_size (int (rv_len st) + int (length d)) = rv_len st + length d"
    using d(2) i(6) len(2) to_size_of_nat [of "rv_len st + length d"] by simp
  ultimately show ?thesis
    using m i r d(2) same by (auto simp: recv_inv_def cursor_def add.assoc)
qed

lemma recv_done_result:
  assumes inv: "recv_inv brk sock max_size c p h0 st h" and len: "length c < 2 ^ 60" "max_size < 2 ^ 31"
  shows "io_post (recv_done e st) h (\<lambda>(stop, st') h'. stop \<and> h' = h \<and> recv_result sock max_size c p h0 (rv_return st') (rv_buffer st') h)"
proof -
  let ?b = "rv_buffer st"
  obtain r where r: "received_on sock h = received_on sock h0 @ r" "length r = rv_len st"
      "take (length c + rv_len st) (ab_block ?b) = c @ r"
    and i: "wf_buf ?b" "content ?b = c" "cursor ?b = p" "length c + max_size \<le> ab_capacity ?b" "rv_len st \<le> max_size"
    using inv by (auto simp: recv_inv_def)
  have L: "ab_length ?b = length c" using length_content [OF i(1)] i(2) by simp
  have sz: "to_size (int (Length ?b) + int (rv_len st)) = length c + rv_len st"
    using len i(5) L to_size_of_nat [of "length c + rv_len st"] by (simp add: Length_def)
  have pos: "0 \<le> Pos ?b" "Pos ?b \<le> int (length c + rv_len st)" using i(1) L by (simp_all add: wf_buf_def Pos_def)
  have ret: "to_int (int (rv_len st)) = int (rv_len st)" using len(2) i(5) to_int_id [of "int (rv_len st)"] by simp
  note ls = Length_set_ok [OF i(1) _ pos, simplified]
  show ?thesis
    using ls i r ret sz by (auto simp: recv_done_def recv_stop_def Let_def io_wp recv_result_def cursor_def Pos_def)
qed

definition recv_step ::
  "env \<Rightarrow> SocketBreaker \<Rightarrow> socket \<Rightarrow> nat \<Rightarrow> bytes \<Rightarrow> nat \<Rightarrow> log \<Rightarrow> log \<Rightarrow> bool \<times> receiving \<Rightarrow> log \<Rightarrow> bool" where
  "recv_step E brk sock max_size c p h0 h r h' \<longleftrightarrow> (case r of (stop, st) \<Rightarrow> length h < length h'
     \<and> (stop \<longrightarrow> recv_result sock max_size c p h0 (rv_return st) (rv_buffer st) h')
     \<and> (\<not> stop \<longrightarrow> recv_inv brk sock max_size c p h0 st h')
     \<and> (\<forall>N. broken_from E brk N \<longrightarrow> N \<le> length h \<longrightarrow> stop))"

lemma recv_stop_result:
  "recv_inv brk sock max_size c p h0 st h \<Longrightarrow> recv_result sock max_size c p h0 (- 1) (rv_buffer st) h"
  by (auto simp: recv_inv_def recv_result_def)

lemma recv_inv_silent:
  "recv_inv brk sock max_size c p h0 st h \<Longrightarrow> silent h h' \<Longrightarrow> watches brk sel
    \<Longrightarrow> recv_inv brk sock max_size c p h0 (st\<lparr>rv_sel := sel, rv_cost := cost\<rparr>) h'"
  using silent_data [of h h' sock] by (simp add: recv_inv_def)

lemma recv_total [simp]: "io_total (recv_stop ret e st) h" "io_total (recv_done e st) h"
  by (simp_all add: recv_stop_def recv_done_def Let_def)

lemma recv_done_step:
  assumes "recv_inv brk sock max_size c p h0 st h1" "length c < 2 ^ 60" "max_size < 2 ^ 31" "length h < length h1"
  shows "io_post (recv_done e st) h1 (recv_step E brk sock max_size c p h0 h)"
  by (rule io_post_mono [OF recv_done_result [OF assms(1-3)]]) (use assms(4) in \<open>auto simp: recv_step_def\<close>)

lemma recv_stop_step:
  assumes "recv_inv brk sock max_size c p h0 st h1" "length h < length h1"
  shows "io_post (recv_stop (- 1) e st) h1 (recv_step E brk sock max_size c p h0 h)"
  using recv_stop_result [OF assms(1)] assms(2) by (simp add: recv_stop_def io_wp recv_step_def)

lemma recv_arrived_ok:
  assumes inv: "recv_inv brk sock max_size c p h0 st h1" and len: "length c < 2 ^ 60" "max_size < 2 ^ 31"
  shows "io_total (recv_arrived E sock max_size timeout full start st) h1"
    "length h < length h1 \<Longrightarrow>
      io_post (recv_arrived E sock max_size timeout full start st) h1 (recv_step E brk sock max_size c p h0 h)"
proof -
  have w: "watches brk (rv_sel st)" using inv by (simp add: recv_inv_def)
  note ws = wait_socket_ok [OF w, of E True sock timeout start "rv_cost st" h1]
  show "io_total (recv_arrived E sock max_size timeout full start st) h1"
    using ws(1) by (auto simp: recv_arrived_def io_total_bind Let_def intro!: io_post_any split: waited.split)
  assume h: "length h < length h1"
  have "io_post (let st1 = st\<lparr>rv_sel := sel, rv_cost := cost\<rparr> in
        case w of
          W_Error e \<Rightarrow> recv_stop (- 1) e st1
        | W_Timeout \<Rightarrow> recv_done ETIMEDOUT st1
        | W_Break e \<Rightarrow> recv_done e st1
        | W_Ready \<Rightarrow> io_return (False, st1)) h2 (recv_step E brk sock max_size c p h0 h)"
    if "watches brk sel" "silent h1 h2" "length h1 < length h2" "\<forall>N. broken_from E brk N \<longrightarrow> N \<le> length h1 \<longrightarrow> w \<noteq> W_Ready"
    for sel cost w h2
  proof -
    note inv2 = recv_inv_silent [OF inv that(2,1)]
    have h2: "length h < length h2" using h that(3) by simp
    show ?thesis
      using recv_stop_step [OF inv2 h2] recv_done_step [OF inv2 len h2] inv2 h2 that(4) h
      by (cases w) (auto simp: io_wp recv_step_def)
  qed
  then show "io_post (recv_arrived E sock max_size timeout full start st) h1 (recv_step E brk sock max_size c p h0 h)"
    using ws(2) recv_done_step [OF inv len h]
    by (auto simp: recv_arrived_def io_post_bind case_prod_unfold elim!: io_post_mono)
qed

lemma recv_pass_ok:
  assumes inv: "recv_inv brk sock max_size c p h0 st h" and E: "recv_honest E" and len: "length c < 2 ^ 60" "max_size < 2 ^ 31"
  shows "io_total (recv_pass E sock max_size timeout full start st) h"
    "io_post (recv_pass E sock max_size timeout full start st) h (recv_step E brk sock max_size c p h0 h)"
proof -
  have n: "to_size (int max_size - int (rv_len st)) = max_size - rv_len st"
    using inv len(2) to_size_of_nat [of "max_size - rv_len st"] by (simp add: recv_inv_def of_nat_diff)
  let ?n = "max_size - rv_len st" and ?r = "env_recv E h sock (max_size - rv_len st)"
  have "io_total (recv_pass E sock max_size timeout full start st) h
    \<and> io_post (recv_pass E sock max_size timeout full start st) h (recv_step E brk sock max_size c p h0 h)"
  proof (cases ?r)
    case None
    have inv1: "recv_inv brk sock max_size c p h0 st (Errno e # Recv_from sock ?n None # h)" 
      "recv_inv brk sock max_size c p h0 st (Errno e' # Errno e # Recv_from sock ?n None # h)" for e e'
      using inv by (simp_all add: recv_inv_def)
    show ?thesis
      using recv_arrived_ok [OF inv1(1) len] recv_stop_step [OF inv1(2)]
      by (auto simp: recv_pass_def sys_calls io_total_bind io_post_bind [of "io_call _ _"] io_post_call io_post_if n None)
  next
    case (Some d)
    then have d: "length d \<le> ?n" using E by (simp add: recv_honest_def)
    show ?thesis
    proof (cases "d = []")
      case True
      have inv1: "recv_inv brk sock max_size c p h0 st (Recv_from sock ?n (Some []) # h)"
        using inv by (simp add: recv_inv_def)
      show ?thesis
        using recv_done_step [OF inv1 len, of h 0 E] True Some
        by (simp add: recv_pass_def sys_calls io_total_bind io_post_bind [of "io_call _ _"] io_post_call n)
    next
      case False
      obtain b' where b': "memcpy_to (rv_buffer st) (int (Length (rv_buffer st)) + int (rv_len st)) d = Inr b'"
        and inv1: "recv_inv brk sock max_size c p h0 (st\<lparr>rv_buffer := b', rv_len := to_size (int (rv_len st) + int (length d))\<rparr>)
          (Recv_from sock ?n (Some d) # h)"
        using arrived_inv [OF inv False d len] by blast
      show ?thesis
        using recv_arrived_ok [OF inv1 len] False Some b'
        by (simp add: recv_pass_def sys_calls io_total_bind io_total_lift io_post_bind [of "io_call _ _"] io_post_call
            io_post_bind [of "io_lift _"] io_post_lift n Let_def)
    qed
  qed
  then show "io_total (recv_pass E sock max_size timeout full start st) h"
    "io_post (recv_pass E sock max_size timeout full start st) h (recv_step E brk sock max_size c p h0 h)" by simp_all
qed

text \<open>\<^verbatim>\<open>block_socket_recv\<close> into a consistent buffer: whatever comes back, at most \<^verbatim>\<open>_max_size\<close> bytes were taken from the
  kernel; a result other than -1 is their number and they stand behind the old content; with -1 the buffer has its old
  content, and what had arrived is lost; the cursor has not moved; and once the breaker is signalled the call comes back.\<close>

theorem block_socket_recv_result:
  assumes "recv_honest E" "wf_buf b" "length (content b) < 2 ^ 60" "max_size < 2 ^ 31"
  shows "(\<forall>ret e b' h'. block_socket_recv E sock b max_size brk timeout full h = Some (Inr ((ret, e, b'), h')) \<longrightarrow>
        wf_buf b' \<and> cursor b' = cursor b
        \<and> (\<exists>r. received_on sock h' = received_on sock h @ r \<and> length r \<le> max_size
              \<and> (if ret = - 1 then content b' = content b else ret = int (length r) \<and> content b' = content b @ r)))
    \<and> (\<forall>N. broken_from E brk N \<longrightarrow> (\<exists>r. block_socket_recv E sock b max_size brk timeout full h = Some (Inr r)))"
proof -
  obtain b1 where b1: "recv_capacity b max_size = Inr b1" "wf_buf b1" "content b1 = content b" "cursor b1 = cursor b"
      "length (content b) + max_size \<le> ab_capacity b1"
    using recv_capacity_ok [OF assms(2-4)] by blast
  define st0 :: receiving where "st0 = \<lparr>rv_cost = 0, rv_len = 0, rv_buffer = b1, rv_sel = SocketSelect_new brk False,
    rv_return = 0, rv_errcode = 0\<rparr>"
  let ?start = "env_tick E h"
  let ?pass = "recv_pass E sock max_size timeout full ?start" and ?h = "Tick ?start # h"
  let ?I = "recv_inv brk sock max_size (content b) (cursor b) h"
  have run: "block_socket_recv E sock b max_size brk timeout full h
      = io_bind (io_loop ?pass st0) (\<lambda>st. io_return (rv_return st, rv_errcode st, rv_buffer st)) ?h"
    by (simp add: block_socket_recv_def gettickcount_def io_bind_def io_call_def io_lift_def b1(1) st0_def)
  have "take (length (content b)) (ab_block b1) = content b"
    using b1(2,3) length_content [OF b1(2)] by (simp add: content_def)
  then have I0: "?I st0 ?h" using b1 by (simp add: recv_inv_def st0_def watches_start)
  note loop = breakable_loop [where I = ?I and pass = ?pass and E = E and brk = brk
      and Q = "\<lambda>st h'. recv_result sock max_size (content b) (cursor b) h (rv_return st) (rv_buffer st) h'", OF I0]
  have step: "io_total (?pass st) h1 \<and> io_post (?pass st) h1 (\<lambda>(stop, st1) h2. length h1 < length h2
      \<and> (stop \<longrightarrow> recv_result sock max_size (content b) (cursor b) h (rv_return st1) (rv_buffer st1) h2)
      \<and> (\<not> stop \<longrightarrow> ?I st1 h2) \<and> (\<forall>N. broken_from E brk N \<longrightarrow> N \<le> length h1 \<longrightarrow> stop))" if "?I st h1" for st h1
    by (intro conjI recv_pass_ok(1) [OF that assms(1,3,4)] io_post_mono [OF recv_pass_ok(2) [OF that assms(1,3,4)]])
      (auto simp: recv_step_def)
  have "recv_result sock max_size (content b) (cursor b) h ret b' h'"
    if "block_socket_recv E sock b max_size brk timeout full h = Some (Inr ((ret, e, b'), h'))" for ret e b' h'
    using that io_postD [OF loop(1) [OF step]] unfolding run by (auto simp: io_bind_eq_Inr io_return_def)
  moreover have "\<exists>r. block_socket_recv E sock b max_size brk timeout full h = Some (Inr r)" if "broken_from E brk N" for N
    using loop(2) [OF step that] by (auto simp: run io_total_def io_bind_def io_return_def)
  ultimately show ?thesis unfolding recv_result_def by blast
qed

section \<open>Runs\<close>

text \<open>A kernel that takes at most three bytes at a time, gives two bytes at a time, and answers every select with a ready
  socket 7, or, from a moment on, with a signalled breaker.\<close>

definition ex_small :: "nat \<Rightarrow> env" where
  "ex_small n = (ex_env (\<lambda>h _ _. if n \<le> length h then (1, \<lambda>i. if i = 0 then POLLIN else 0)
      else (1, \<lambda>i. if i = 1 then POLLIN OR POLLOUT else 0)))
     \<lparr>env_send := \<lambda>_ _ d. int (min 3 (length d)), env_recv := \<lambda>_ _ n. Some (take n [104, 105])\<rparr>"

lemma ex_small_ok: "send_honest (ex_small n)" "recv_honest (ex_small n)" "broken_from (ex_small n) ex_breaker n"
  by (auto simp: ex_small_def send_honest_def recv_honest_def broken_from_def ex_env_def POLLIN_def)

theorem block_socket_send_result_witness:
  "\<exists>ret e h' n. block_socket_send (ex_small 3) 7 [104, 101, 108, 108, 111] ex_breaker (- 1) [] = Some (Inr ((ret, e), h'))
    \<and> sent_on 7 h' = take n [104, 101, 108, 108, 111] \<and> (ret = - 1 \<or> ret = int n)"
proof -
  have len: "length [104, 101, 108, 108, 111] < 2 ^ 31" by simp
  note all = block_socket_send_result [OF ex_small_ok(1) len, of 3 7 ex_breaker "- 1" "[]"]
  obtain x h' where r: "block_socket_send (ex_small 3) 7 [104, 101, 108, 108, 111] ex_breaker (- 1) [] = Some (Inr (x, h'))"
    using conjunct2 [OF all, rule_format, OF ex_small_ok(3)] by (metis surj_pair)
  moreover obtain ret e where "x = (ret, e)" by (cases x)
  ultimately show ?thesis using conjunct1 [OF all, rule_format, of ret e h'] by auto
qed

theorem block_socket_recv_result_witness:
  "\<exists>ret e b' h' r. block_socket_recv (ex_small 9) 7 (AutoBuffer_new 128) 5 ex_breaker (- 1) True [] = Some (Inr ((ret, e, b'), h'))
    \<and> received_on 7 h' = r \<and> length r \<le> 5 \<and> (ret = - 1 \<or> content b' = r)"
proof -
  have b: "wf_buf (AutoBuffer_new 128)" "length (content (AutoBuffer_new 128)) < 2 ^ 60" "(5 :: nat) < 2 ^ 31"
    by (simp_all add: wf_buf_new)
  note all = block_socket_recv_result [OF ex_small_ok(2) b, of 9 7 ex_breaker "- 1" True "[]"]
  obtain x h' where r: "block_socket_recv (ex_small 9) 7 (AutoBuffer_new 128) 5 ex_breaker (- 1) True [] = Some (Inr (x, h'))"
    using conjunct2 [OF all, rule_format, OF ex_small_ok(3)] by (metis surj_pair)
  moreover obtain ret e b' where "x = (ret, e, b')" by (cases x)
  ultimately show ?thesis using conjunct1 [OF all, rule_format, of ret e b' h'] by (auto split: if_splits)
qed

text \<open>An empty buffer: \<^verbatim>\<open>send\<close> takes nothing, which is treated as a failure with an \<^verbatim>\<open>errno\<close> that no call has set.\<close>

lemma block_socket_send_empty:
  assumes "env_send E (Tick (env_tick E h) # h) sock [] = 0"
  shows "\<exists>e h'. block_socket_send E sock [] brk timeout h = Some (Inr ((- 1, e), h'))"
  using assms
  by (simp add: block_socket_send_def send_pass_def send_stop_def sys_calls io_loop.simps io_bind_def io_call_def io_return_def)

end
