(* ===== verification/Alarm.thy ===== *)
theory Alarm
  imports MQ_Types
begin

text \<open>
  \<^verbatim>\<open>Alarm\<close> of src/mars/comm/alarm.h and alarm.cc (without the parts for Android). An alarm posts a delayed broadcast with a number
  of its own to the default queue; every alarm's handler sees every broadcast and looks for its number. The queues are seen
  through what their calls promise (\<open>MQ_Laws\<close>): a broadcast is handed once to every handler installed, an asynchronous call
  is made once, in order, unless \<^verbatim>\<open>CancelMessage\<close> takes it back before it is begun. The calls between the sections of \<^verbatim>\<open>sg_lock\<close>
  of different threads interleave as steps. The counters of a system belong to the specification.
\<close>

section \<open>State\<close>

datatype alarm_status = kInit | kStart | kCancel | kOnAlarm

text \<open>\<open>al_def_queue\<close>: \<^verbatim>\<open>reg_async_\<close> is installed on the default queue. \<open>al_thread\<close>: \<^verbatim>\<open>runthread_\<close> is running.\<close>

record Alarm =
  al_inthread :: bool
  al_seq :: int
  al_status :: alarm_status
  al_after :: int
  al_starttime :: nat
  al_endtime :: nat
  al_def_queue :: bool
  al_thread :: bool
  al_closing :: nat

definition INVAILD_SEQ :: int where "INVAILD_SEQ = 0"

definition Alarm_new :: "bool \<Rightarrow> bool \<Rightarrow> Alarm" where
  "Alarm_new inthread def_queue = \<lparr>al_inthread = inthread, al_seq = 0, al_status = kInit, al_after = 0, al_starttime = 0,
     al_endtime = 0, al_def_queue = def_queue, al_thread = False, al_closing = 0\<rparr>"

text \<open>What \<^verbatim>\<open>AsyncInvoke\<close> is given: \<^verbatim>\<open>OnAlarm\<close> with a message, or \<^verbatim>\<open>__Run\<close>.\<close>

datatype async_call = Call_OnAlarm int | Call_Run

text \<open>
  The alarms by number, the broadcasts that wait, the one in work with the alarms whose handlers are still to be called, the
  asynchronous calls that wait, and the one of each alarm in work.
\<close>

record alarm_system =
  as_sg_seq :: int
  as_alarms :: "nat \<rightharpoonup> Alarm"
  as_broadcasts :: "int list"
  as_dispatch :: "(int \<times> nat list) option"
  as_async :: "(nat \<times> async_call) list"
  as_running :: "nat \<rightharpoonup> async_call"
  as_started :: "nat \<Rightarrow> nat"
  as_ran :: "nat \<Rightarrow> nat"
  as_killed :: "nat \<Rightarrow> nat"
  as_lost :: "nat \<Rightarrow> nat"
  as_refused :: "nat \<Rightarrow> bool"

definition no_alarms :: alarm_system where
  "no_alarms = \<lparr>as_sg_seq = 1, as_alarms = Map.empty, as_broadcasts = [], as_dispatch = None, as_async = [],
     as_running = Map.empty, as_started = (\<lambda>_. 0), as_ran = (\<lambda>_. 0), as_killed = (\<lambda>_. 0), as_lost = (\<lambda>_. 0),
     as_refused = (\<lambda>_. False)\<rparr>"

definition bump :: "nat \<Rightarrow> nat \<Rightarrow> (nat \<Rightarrow> nat) \<Rightarrow> nat \<Rightarrow> nat" where
  "bump i n f = f(i := f i + n)"

definition with_alarm :: "nat \<Rightarrow> alarm_system \<Rightarrow> (Alarm \<Rightarrow> 'a result) \<Rightarrow> 'a result" where
  "with_alarm i s f = (case as_alarms s i of None \<Rightarrow> Inl Use_After_Free | Some a \<Rightarrow> f a)"

definition put_alarm :: "nat \<Rightarrow> Alarm \<Rightarrow> alarm_system \<Rightarrow> alarm_system" where
  "put_alarm i a s = s\<lparr>as_alarms := (as_alarms s)(i \<mapsto> a)\<rparr>"

section \<open>Operations\<close>

text \<open>\<open>posted\<close>: the broadcast was taken, otherwise \<^verbatim>\<open>BroadcastMessage\<close> returned \<^verbatim>\<open>KNullPost\<close>.\<close>

definition Alarm_Start :: "nat \<Rightarrow> int \<Rightarrow> nat \<Rightarrow> bool \<Rightarrow> alarm_system \<Rightarrow> (bool \<times> alarm_system) result" where
  "Alarm_Start i after now posted s = with_alarm i s (\<lambda>a.
     if INVAILD_SEQ \<noteq> al_seq a then Inr (False, s)
     else
       let seq = (if INVAILD_SEQ = as_sg_seq s then 1 else as_sg_seq s);
           s1 = s\<lparr>as_sg_seq := seq + 1\<rparr> in
       if \<not> posted then Inr (False, s1)
       else
         Inr (True, (put_alarm i (a\<lparr>al_status := kStart, al_starttime := now, al_endtime := 0, al_after := after, al_seq := seq\<rparr>) s1)
                      \<lparr>as_broadcasts := as_broadcasts s1 @ [seq], as_started := bump i 1 (as_started s1)\<rparr>))"

text \<open>\<^verbatim>\<open>CancelMessage(reg_async_.Get())\<close> takes back every call that waits for this handler.\<close>

definition cancel_async :: "nat \<Rightarrow> alarm_system \<Rightarrow> alarm_system" where
  "cancel_async i s = s\<lparr>as_async := filter (\<lambda>(j, c). j \<noteq> i) (as_async s),
     as_killed := bump i (length (filter (\<lambda>x. x = (i, Call_Run)) (as_async s))) (as_killed s)\<rparr>"

definition Alarm_Cancel :: "nat \<Rightarrow> nat \<Rightarrow> alarm_system \<Rightarrow> (bool \<times> alarm_system) result" where
  "Alarm_Cancel i now s = with_alarm i s (\<lambda>a.
     let s1 = cancel_async i s in
     if INVAILD_SEQ = al_seq a then Inr (True, s1)
     else
       Inr (True, (put_alarm i (a\<lparr>al_status := kCancel, al_endtime := now, al_seq := INVAILD_SEQ\<rparr>) s1)
                    \<lparr>as_killed := bump i 1 (as_killed s1)\<rparr>))"

definition IsWaiting :: "Alarm \<Rightarrow> bool" where "IsWaiting a \<longleftrightarrow> kStart = al_status a"
definition Alarm_Status :: "Alarm \<Rightarrow> alarm_status" where "Alarm_Status a = al_status a"
definition After :: "Alarm \<Rightarrow> int" where "After a = al_after a"

definition ElapseTime :: "nat \<Rightarrow> Alarm \<Rightarrow> int" where
  "ElapseTime now a =
     (if al_endtime a < al_starttime a then gettickspan now (al_starttime a)
      else to_off (int (al_endtime a) - int (al_starttime a)))"

text \<open>\<^verbatim>\<open>runthread_.start()\<close> does nothing while the thread is running, and fails when \<^verbatim>\<open>pthread_create\<close> does (not \<open>ok\<close>).\<close>

definition Alarm_Run :: "nat \<Rightarrow> alarm_system \<Rightarrow> alarm_system" where
  "Alarm_Run i s = s\<lparr>as_ran := bump i 1 (as_ran s)\<rparr>"

definition start_runthread :: "bool \<Rightarrow> nat \<Rightarrow> Alarm \<Rightarrow> alarm_system \<Rightarrow> alarm_system" where
  "start_runthread ok i a s =
     (if al_thread a \<or> \<not> ok then s\<lparr>as_lost := bump i 1 (as_lost s)\<rparr>
      else Alarm_Run i (put_alarm i (a\<lparr>al_thread := True\<rparr>) s))"

text \<open>\<open>here\<close>: the current thread is that of the queue of \<^verbatim>\<open>reg_async_\<close>. \<open>ok\<close>: \<^verbatim>\<open>AsyncInvoke\<close> takes the call (its queue exists), or the
  thread can be created; the result is not looked at. \<open>as_refused\<close> remembers the call of \<^verbatim>\<open>OnAlarm\<close> that was not taken.\<close>

definition OnAlarm :: "bool \<Rightarrow> bool \<Rightarrow> nat \<Rightarrow> int \<Rightarrow> nat \<Rightarrow> alarm_system \<Rightarrow> alarm_system result" where
  "OnAlarm here ok i seq now s = with_alarm i s (\<lambda>a.
     if \<not> here then
       Inr (if ok then s\<lparr>as_async := as_async s @ [(i, Call_OnAlarm seq)]\<rparr> else s\<lparr>as_refused := (as_refused s)(i := True)\<rparr>)
     else if al_seq a \<noteq> seq then Inr s
     else
       let a1 = a\<lparr>al_status := kOnAlarm, al_seq := INVAILD_SEQ, al_endtime := now\<rparr>;
           s1 = put_alarm i a1 s in
       Inr (if al_inthread a then start_runthread ok i a1 s1
            else if ok then s1\<lparr>as_async := as_async s1 @ [(i, Call_Run)]\<rparr>
            else s1\<lparr>as_lost := bump i 1 (as_lost s1)\<rparr>))"

text \<open>
  The destructor: \<^verbatim>\<open>Cancel()\<close>; \<^verbatim>\<open>reg_.CancelAndWait()\<close> and \<^verbatim>\<open>reg_async_.CancelAndWait()\<close>, which return when the handler is not at
  work; \<^verbatim>\<open>runthread_.join()\<close>. \<open>al_closing\<close> says how far it is.
\<close>

definition set_closing :: "nat \<Rightarrow> nat \<Rightarrow> alarm_system \<Rightarrow> alarm_system result" where
  "set_closing i n s = with_alarm i s (\<lambda>a. Inr (put_alarm i (a\<lparr>al_closing := n\<rparr>) s))"

definition Alarm_delete :: "nat \<Rightarrow> nat \<Rightarrow> alarm_system \<Rightarrow> alarm_system result" where
  "Alarm_delete i now s = rbind (Alarm_Cancel i now s) (\<lambda>(_, s1). set_closing i 1 s1)"

definition Alarm_unregistered :: "nat \<Rightarrow> alarm_system \<Rightarrow> alarm_system result" where
  "Alarm_unregistered i s = set_closing i 2 s"

definition Alarm_async_unregistered :: "nat \<Rightarrow> alarm_system \<Rightarrow> alarm_system result" where
  "Alarm_async_unregistered i s = set_closing i 3 (cancel_async i s)"

definition Alarm_gone :: "nat \<Rightarrow> alarm_system \<Rightarrow> alarm_system" where
  "Alarm_gone i s = s\<lparr>as_alarms := (as_alarms s)(i := None)\<rparr>"

section \<open>Runs\<close>

datatype alarm_event =
    A_New nat bool bool
  | A_Start nat int nat bool
  | A_Cancel nat nat
  | A_Deliver int "nat list"
  | A_Handle bool nat
  | A_Pop nat
  | A_Invoke nat bool nat
  | A_Thread_end nat
  | A_Delete nat nat
  | A_Unregistered nat
  | A_Async_unregistered nat
  | A_Gone nat

text \<open>The handlers of a broadcast: those of the alarms that are installed, in any order.\<close>

definition listens :: "alarm_system \<Rightarrow> nat \<Rightarrow> bool" where
  "listens s i \<longleftrightarrow> (\<exists>a. as_alarms s i = Some a \<and> al_closing a < 2)"

definition open_alarm :: "alarm_system \<Rightarrow> nat \<Rightarrow> bool" where
  "open_alarm s i \<longleftrightarrow> (\<exists>a. as_alarms s i = Some a \<and> al_closing a = 0)"

definition closing :: "nat \<Rightarrow> alarm_system \<Rightarrow> nat \<Rightarrow> bool" where
  "closing n s i \<longleftrightarrow> (\<exists>a. as_alarms s i = Some a \<and> al_closing a = n)"

definition dispatched :: "alarm_system \<Rightarrow> nat list" where
  "dispatched s = (case as_dispatch s of None \<Rightarrow> [] | Some (_, js) \<Rightarrow> js)"

fun enabled :: "alarm_event \<Rightarrow> alarm_system \<Rightarrow> bool" where
  "enabled (A_New i t d) s \<longleftrightarrow> as_alarms s i = None \<and> as_started s i = 0"
| "enabled (A_Start i after now posted) s \<longleftrightarrow> open_alarm s i"
| "enabled (A_Cancel i now) s \<longleftrightarrow> open_alarm s i"
| "enabled (A_Deliver seq js) s \<longleftrightarrow> seq \<in> set (as_broadcasts s) \<and> dispatched s = [] \<and> distinct js \<and> (\<forall>j. j \<in> set js \<longleftrightarrow> listens s j)"
| "enabled (A_Handle ok now) s \<longleftrightarrow> dispatched s \<noteq> []"
| "enabled (A_Pop i) s \<longleftrightarrow> i \<in> fst ` set (as_async s) \<and> as_running s i = None"
| "enabled (A_Invoke i ok now) s \<longleftrightarrow> as_running s i \<noteq> None"
| "enabled (A_Thread_end i) s \<longleftrightarrow> (\<exists>a. as_alarms s i = Some a \<and> al_thread a)"
| "enabled (A_Delete i now) s \<longleftrightarrow> open_alarm s i"
| "enabled (A_Unregistered i) s \<longleftrightarrow> closing 1 s i \<and> i \<notin> set (dispatched s)"
| "enabled (A_Async_unregistered i) s \<longleftrightarrow> closing 2 s i \<and> as_running s i = None"
| "enabled (A_Gone i) s \<longleftrightarrow> closing 3 s i \<and> (\<exists>a. as_alarms s i = Some a \<and> \<not> al_thread a)"

definition pop_async :: "nat \<Rightarrow> (nat \<times> async_call) list \<Rightarrow> async_call \<times> (nat \<times> async_call) list" where
  "pop_async i xs = (let k = length (takeWhile (\<lambda>(j, _). j \<noteq> i) xs) in (snd (xs ! k), take k xs @ drop (Suc k) xs))"

definition invoke :: "nat \<Rightarrow> bool \<Rightarrow> async_call \<Rightarrow> nat \<Rightarrow> alarm_system \<Rightarrow> alarm_system result" where
  "invoke i ok c now s = (case c of
     Call_OnAlarm seq \<Rightarrow> OnAlarm True ok i seq now s
   | Call_Run \<Rightarrow> with_alarm i s (\<lambda>_. Inr (Alarm_Run i s)))"

fun alarm_step :: "alarm_event \<Rightarrow> alarm_system \<Rightarrow> alarm_system result" where
  "alarm_step (A_New i t d) s = Inr (put_alarm i (Alarm_new t d) s)"
| "alarm_step (A_Start i after now posted) s = rbind (Alarm_Start i after now posted s) (\<lambda>(_, s'). Inr s')"
| "alarm_step (A_Cancel i now) s = rbind (Alarm_Cancel i now s) (\<lambda>(_, s'). Inr s')"
| "alarm_step (A_Deliver seq js) s = Inr (s\<lparr>as_broadcasts := remove1 seq (as_broadcasts s), as_dispatch := Some (seq, js)\<rparr>)"
| "alarm_step (A_Handle ok now) s = (case as_dispatch s of
     Some (seq, i # js) \<Rightarrow>
       with_alarm i s (\<lambda>a. OnAlarm (al_def_queue a) ok i seq now (s\<lparr>as_dispatch := Some (seq, js)\<rparr>))
   | _ \<Rightarrow> Inr s)"
| "alarm_step (A_Pop i) s = (case pop_async i (as_async s) of
     (c, xs) \<Rightarrow> Inr (s\<lparr>as_async := xs, as_running := (as_running s)(i \<mapsto> c)\<rparr>))"
| "alarm_step (A_Invoke i ok now) s = (case as_running s i of
     None \<Rightarrow> Inr s
   | Some c \<Rightarrow> invoke i ok c now (s\<lparr>as_running := (as_running s)(i := None)\<rparr>))"
| "alarm_step (A_Thread_end i) s = with_alarm i s (\<lambda>a. Inr (put_alarm i (a\<lparr>al_thread := False\<rparr>) s))"
| "alarm_step (A_Delete i now) s = Alarm_delete i now s"
| "alarm_step (A_Unregistered i) s = Alarm_unregistered i s"
| "alarm_step (A_Async_unregistered i) s = Alarm_async_unregistered i s"
| "alarm_step (A_Gone i) s = Inr (Alarm_gone i s)"

inductive alarm_run :: "(alarm_event \<Rightarrow> bool) \<Rightarrow> alarm_system \<Rightarrow> alarm_system \<Rightarrow> bool" for P s0 where
  alarm_refl: "alarm_run P s0 s0"
| alarm_more: "alarm_run P s0 s \<Longrightarrow> P e \<Longrightarrow> enabled e s \<Longrightarrow> alarm_step e s = Inr s' \<Longrightarrow> alarm_run P s0 s'"

end
