(* ===== verification/Alarm_Inv.thy ===== *)
theory Alarm_Inv
  imports Alarm
begin

text \<open>
  What becomes of a started alarm, over all interleavings: it is accounted for, its broadcast finds it, and nobody touches it
  after its destructor. An alarm that fires while its thread still runs is lost.
\<close>

section \<open>How the operations change the state\<close>

lemma put_alarm_simps [simp]:
  "as_alarms (put_alarm i a s) = (as_alarms s)(i \<mapsto> a)" "as_sg_seq (put_alarm i a s) = as_sg_seq s" "as_refused (put_alarm i a s) = as_refused s"
  "as_broadcasts (put_alarm i a s) = as_broadcasts s" "as_dispatch (put_alarm i a s) = as_dispatch s"
  "as_async (put_alarm i a s) = as_async s" "as_running (put_alarm i a s) = as_running s"
  "as_started (put_alarm i a s) = as_started s" "as_ran (put_alarm i a s) = as_ran s" "as_killed (put_alarm i a s) = as_killed s"
  "as_lost (put_alarm i a s) = as_lost s"
  by (simp_all add: put_alarm_def)

lemma cancel_async_simps [simp]:
  "as_alarms (cancel_async i s) = as_alarms s" "as_sg_seq (cancel_async i s) = as_sg_seq s" "as_refused (cancel_async i s) = as_refused s"
  "as_broadcasts (cancel_async i s) = as_broadcasts s" "as_dispatch (cancel_async i s) = as_dispatch s"
  "as_async (cancel_async i s) = filter (\<lambda>(j, c). j \<noteq> i) (as_async s)" "as_running (cancel_async i s) = as_running s"
  "as_started (cancel_async i s) = as_started s" "as_ran (cancel_async i s) = as_ran s" "as_lost (cancel_async i s) = as_lost s"
  by (simp_all add: cancel_async_def)

lemma Alarm_Run_simps [simp]:
  "as_alarms (Alarm_Run i s) = as_alarms s" "as_sg_seq (Alarm_Run i s) = as_sg_seq s" "as_refused (Alarm_Run i s) = as_refused s"
  "as_broadcasts (Alarm_Run i s) = as_broadcasts s" "as_dispatch (Alarm_Run i s) = as_dispatch s"
  "as_async (Alarm_Run i s) = as_async s" "as_running (Alarm_Run i s) = as_running s"
  "as_started (Alarm_Run i s) = as_started s" "as_killed (Alarm_Run i s) = as_killed s" "as_lost (Alarm_Run i s) = as_lost s"
  "as_ran (Alarm_Run i s) = bump i 1 (as_ran s)"
  by (simp_all add: Alarm_Run_def)

lemma bump_app [simp]: "bump i n f j = (if j = i then f j + n else f j)"
  by (simp add: bump_def)

lemmas alarm_defs = Alarm_Start_def Alarm_Cancel_def OnAlarm_def start_runthread_def Alarm_delete_def Alarm_unregistered_def
  Alarm_async_unregistered_def Alarm_gone_def set_closing_def with_alarm_def invoke_def Let_def Alarm_new_def INVAILD_SEQ_def

text \<open>The call that is taken out of the waiting ones is the first of its alarm.\<close>

lemma pop_async_split:
  assumes "i \<in> fst ` set xs" "pop_async i xs = (c, ys)"
  shows "\<exists>us vs. xs = us @ (i, c) # vs \<and> ys = us @ vs"
proof -
  let ?us = "takeWhile (\<lambda>(j, _). j \<noteq> i) xs"
  let ?k = "length ?us"
  have "takeWhile (\<lambda>(j, _). j \<noteq> i) xs \<noteq> xs" using assms(1) by (auto simp: takeWhile_eq_all_conv)
  then have k: "?k < length xs" by (metis append_Nil2 length_takeWhile_le nat_less_le takeWhile_dropWhile_id takeWhile_eq_take take_all le_refl)
  have n: "\<not> (\<lambda>(j, _). j \<noteq> i) (xs ! ?k)" using k by (rule nth_length_takeWhile)
  have us: "take ?k xs = ?us" by (metis takeWhile_eq_take)
  have "xs = take ?k xs @ xs ! ?k # drop (Suc ?k) xs" using k by (simp add: id_take_nth_drop)
  moreover have "xs ! ?k = (i, c)" "ys = take ?k xs @ drop (Suc ?k) xs"
    using assms(2) n by (auto simp: pop_async_def Let_def prod_eq_iff split: prod.splits)
  ultimately show ?thesis by metis
qed

text \<open>What \<^verbatim>\<open>OnAlarm\<close> may do.\<close>

definition fired :: "nat \<Rightarrow> Alarm \<Rightarrow> nat \<Rightarrow> Alarm" where
  "fired i a now = a\<lparr>al_status := kOnAlarm, al_seq := 0, al_endtime := now\<rparr>"

definition post_call :: "nat \<Rightarrow> async_call \<Rightarrow> alarm_system \<Rightarrow> alarm_system" where
  "post_call i c s = s\<lparr>as_async := as_async s @ [(i, c)]\<rparr>"

lemma post_call_simps [simp]:
  "as_alarms (post_call i c s) = as_alarms s" "as_sg_seq (post_call i c s) = as_sg_seq s" "as_refused (post_call i c s) = as_refused s"
  "as_broadcasts (post_call i c s) = as_broadcasts s" "as_dispatch (post_call i c s) = as_dispatch s"
  "as_async (post_call i c s) = as_async s @ [(i, c)]" "as_running (post_call i c s) = as_running s"
  "as_started (post_call i c s) = as_started s" "as_ran (post_call i c s) = as_ran s" "as_killed (post_call i c s) = as_killed s"
  "as_lost (post_call i c s) = as_lost s"
  by (simp_all add: post_call_def)

lemma OnAlarm_cases:
  assumes "OnAlarm here ok i seq now s = Inr s'"
  obtains (forward) "\<not> here" "s' = post_call i (Call_OnAlarm seq) s"
  | (stale) a where "here" "as_alarms s i = Some a" "al_seq a \<noteq> seq" "s' = s"
  | (refused) "\<not> here" "s' = s\<lparr>as_refused := (as_refused s)(i := True)\<rparr>"
  | (lost) a where "here" "as_alarms s i = Some a" "al_seq a = seq"
      "s' = (put_alarm i (fired i a now) s)\<lparr>as_lost := bump i 1 (as_lost s)\<rparr>"
  | (thread) a where "here" "as_alarms s i = Some a" "al_seq a = seq" "\<not> al_thread a"
      "s' = Alarm_Run i (put_alarm i ((fired i a now)\<lparr>al_thread := True\<rparr>) s)"
  | (queue) a where "here" "as_alarms s i = Some a" "al_seq a = seq"
      "s' = post_call i Call_Run (put_alarm i (fired i a now) s)"
proof -
  obtain a where a: "as_alarms s i = Some a" using assms by (auto simp: OnAlarm_def with_alarm_def split: option.splits)
  note run = assms [unfolded OnAlarm_def with_alarm_def a option.case Let_def INVAILD_SEQ_def]
  show ?thesis
  proof (cases "here")
    case False
    with run show ?thesis by (cases ok) (auto simp: post_call_def intro: that(1,3))
  next
    case h: True
    show ?thesis
    proof (cases "al_seq a = seq")
      case False
      with run h a show ?thesis by (intro that(2)) auto
    next
      case q: True
      show ?thesis
      proof (cases "al_inthread a")
        case False
        with run h a q show ?thesis
          by (cases ok) (auto simp: fired_def post_call_def put_alarm_def intro: that(4,6))
      next
        case t: True
        show ?thesis
        proof (cases "al_thread a \<or> \<not> ok")
          case True
          with run h a q t show ?thesis by (intro that(4)) (auto simp: fired_def start_runthread_def)
        next
          case False
          with run h a q t show ?thesis by (intro that(5)) (auto simp: fired_def start_runthread_def put_alarm_def)
        qed
      qed
    qed
  qed
qed

section \<open>The account of an alarm\<close>

definition pending_runs :: "nat \<Rightarrow> alarm_system \<Rightarrow> nat" where
  "pending_runs i s = length (filter (\<lambda>x. x = (i, Call_Run)) (as_async s)) + (if as_running s i = Some Call_Run then 1 else 0)"

definition armed :: "nat \<Rightarrow> alarm_system \<Rightarrow> nat" where
  "armed i s = (case as_alarms s i of None \<Rightarrow> 0 | Some a \<Rightarrow> if al_seq a = 0 then 0 else 1)"

definition account_of :: "nat \<Rightarrow> alarm_system \<Rightarrow> bool" where
  "account_of i s \<longleftrightarrow> as_started s i = as_ran s i + as_killed s i + as_lost s i + pending_runs i s + armed i s"

text \<open>Numbers are not reused, an armed alarm is carried unless its queue refused a call, an alarm being destroyed is not armed, and who is waited for exists.\<close>

definition carried :: "alarm_system \<Rightarrow> nat \<Rightarrow> int \<Rightarrow> bool" where
  "carried s i seq \<longleftrightarrow> seq \<in> set (as_broadcasts s) \<or> (\<exists>js. as_dispatch s = Some (seq, js) \<and> i \<in> set js)
     \<or> (i, Call_OnAlarm seq) \<in> set (as_async s) \<or> as_running s i = Some (Call_OnAlarm seq)"

definition tidy :: "alarm_system \<Rightarrow> bool" where
  "tidy s \<longleftrightarrow> 0 < as_sg_seq s \<and> (\<forall>seq i. carried s i seq \<longrightarrow> seq \<noteq> 0)
     \<and> (\<forall>i a. as_alarms s i = Some a \<longrightarrow> al_seq a < as_sg_seq s \<and> (al_closing a \<noteq> 0 \<longrightarrow> al_seq a = 0))
     \<and> (\<forall>i a j b. as_alarms s i = Some a \<longrightarrow> as_alarms s j = Some b \<longrightarrow> al_seq a = al_seq b \<longrightarrow> al_seq a \<noteq> 0 \<longrightarrow> i = j)
     \<and> (\<forall>i. i \<in> set (dispatched s) \<longrightarrow> (\<exists>a. as_alarms s i = Some a \<and> al_closing a < 2))
     \<and> (\<forall>i. i \<in> fst ` set (as_async s) \<or> as_running s i \<noteq> None \<longrightarrow> (\<exists>a. as_alarms s i = Some a \<and> al_closing a < 3))"

definition found :: "alarm_system \<Rightarrow> bool" where
  "found s \<longleftrightarrow> (\<forall>i a. as_alarms s i = Some a \<longrightarrow> al_seq a \<noteq> 0 \<longrightarrow> carried s i (al_seq a) \<or> as_refused s i)"

lemma no_alarms_ok: "account_of i no_alarms" "tidy no_alarms" "found no_alarms"
  by (simp_all add: no_alarms_def account_of_def tidy_def found_def pending_runs_def armed_def dispatched_def carried_def)

lemma OnAlarm_account:
  assumes "account_of j s" "OnAlarm here ok i seq now s = Inr s'" "seq \<noteq> 0"
  shows "account_of j s'"
  using assms(2)
proof (cases rule: OnAlarm_cases)
  case forward
  then show ?thesis using assms(1) by (simp add: account_of_def pending_runs_def armed_def)
qed (use assms(1,3) in \<open>auto simp: account_of_def pending_runs_def armed_def fired_def\<close>)

lemma OnAlarm_runs: "as_alarms s i = Some a \<Longrightarrow> \<exists>s'. OnAlarm here ok i seq now s = Inr s'"
  by (simp add: OnAlarm_def with_alarm_def Let_def)

lemma tidyD:
  assumes "tidy s"
  shows "0 < as_sg_seq s" "carried s i seq \<Longrightarrow> seq \<noteq> 0" "as_alarms s i = Some a \<Longrightarrow> al_seq a < as_sg_seq s"
    "as_alarms s i = Some a \<Longrightarrow> al_closing a \<noteq> 0 \<Longrightarrow> al_seq a = 0"
    "as_alarms s i = Some a \<Longrightarrow> as_alarms s j = Some b \<Longrightarrow> al_seq a = al_seq b \<Longrightarrow> al_seq a \<noteq> 0 \<Longrightarrow> i = j"
    "i \<in> set (dispatched s) \<Longrightarrow> \<exists>a. as_alarms s i = Some a \<and> al_closing a < 2"
    "i \<in> fst ` set (as_async s) \<or> as_running s i \<noteq> None \<Longrightarrow> \<exists>a. as_alarms s i = Some a \<and> al_closing a < 3"
proof -
  note c = assms [unfolded tidy_def]
  note d = c [THEN conjunct2, THEN conjunct2]
  show "0 < as_sg_seq s" using c by (rule conjunct1)
  show "carried s i seq \<Longrightarrow> seq \<noteq> 0" using c [THEN conjunct2, THEN conjunct1] by blast
  show "as_alarms s i = Some a \<Longrightarrow> al_seq a < as_sg_seq s" "as_alarms s i = Some a \<Longrightarrow> al_closing a \<noteq> 0 \<Longrightarrow> al_seq a = 0"
    using d [THEN conjunct1] by blast+
  show "as_alarms s i = Some a \<Longrightarrow> as_alarms s j = Some b \<Longrightarrow> al_seq a = al_seq b \<Longrightarrow> al_seq a \<noteq> 0 \<Longrightarrow> i = j"
    using d [THEN conjunct2, THEN conjunct1] by blast
  show "i \<in> set (dispatched s) \<Longrightarrow> \<exists>a. as_alarms s i = Some a \<and> al_closing a < 2"
    using d [THEN conjunct2, THEN conjunct2, THEN conjunct1] by blast
  show "i \<in> fst ` set (as_async s) \<or> as_running s i \<noteq> None \<Longrightarrow> \<exists>a. as_alarms s i = Some a \<and> al_closing a < 3"
    using d [THEN conjunct2, THEN conjunct2, THEN conjunct2] by blast
qed

lemma tidyI:
  assumes "0 < as_sg_seq s" "\<And>seq i. carried s i seq \<Longrightarrow> seq \<noteq> 0"
    "\<And>i a. as_alarms s i = Some a \<Longrightarrow> al_seq a < as_sg_seq s"
    "\<And>i a. as_alarms s i = Some a \<Longrightarrow> al_closing a \<noteq> 0 \<Longrightarrow> al_seq a = 0"
    "\<And>i a j b. as_alarms s i = Some a \<Longrightarrow> as_alarms s j = Some b \<Longrightarrow> al_seq a = al_seq b \<Longrightarrow> al_seq a \<noteq> 0 \<Longrightarrow> i = j"
    "\<And>i. i \<in> set (dispatched s) \<Longrightarrow> \<exists>a. as_alarms s i = Some a \<and> al_closing a < 2"
    "\<And>i. i \<in> fst ` set (as_async s) \<or> as_running s i \<noteq> None \<Longrightarrow> \<exists>a. as_alarms s i = Some a \<and> al_closing a < 3"
  shows "tidy s"
  unfolding tidy_def
  by (intro conjI allI impI) (rule assms(1), erule assms(2), erule assms(3), erule (1) assms(4), erule (3) assms(5),
      erule assms(6), erule assms(7))

text \<open>A change of one alarm that does not arm it.\<close>

lemma tidy_update:
  assumes "tidy s" "as_alarms s i = Some a" "al_seq b = al_seq a \<or> al_seq b = 0" "al_closing b \<noteq> 0 \<longrightarrow> al_seq b = 0"
    and "as_alarms s' = (as_alarms s)(i \<mapsto> b)" "as_sg_seq s' = as_sg_seq s" "\<And>j q. carried s' j q \<Longrightarrow> q \<noteq> 0"
    and "\<And>j. j \<in> set (dispatched s') \<Longrightarrow> if j = i then al_closing b < 2 else j \<in> set (dispatched s)"
    and "\<And>j. j \<in> fst ` set (as_async s') \<or> as_running s' j \<noteq> None \<Longrightarrow>
      if j = i then al_closing b < 3 else j \<in> fst ` set (as_async s) \<or> as_running s j \<noteq> None"
  shows "tidy s'"
proof -
  note t = tidyD [OF assms(1)]
  show ?thesis
  proof (rule tidyI)
    show "0 < as_sg_seq s'" using t(1) assms(6) by simp
    show "carried s' j q \<Longrightarrow> q \<noteq> 0" for q j by (rule assms(7))
    show "as_alarms s' j = Some c \<Longrightarrow> al_seq c < as_sg_seq s'" "as_alarms s' j = Some c \<Longrightarrow> al_closing c \<noteq> 0 \<Longrightarrow> al_seq c = 0" for j c
      using t(1,3,4) assms(2-6) by (auto split: if_splits)
    show "j = k" if "as_alarms s' j = Some c" "as_alarms s' k = Some d" "al_seq c = al_seq d" "al_seq c \<noteq> 0" for j c k d
    proof -
      have "\<exists>c'. as_alarms s j = Some c' \<and> al_seq c' = al_seq c" "\<exists>d'. as_alarms s k = Some d' \<and> al_seq d' = al_seq d"
        using that assms(2,3,5) by (cases "j = i"; cases "k = i"; simp)+
      with t(5) that(3,4) show ?thesis by metis
    qed
    show "\<exists>c. as_alarms s' j = Some c \<and> al_closing c < 2" if "j \<in> set (dispatched s')" for j
      using t(6) [of j] assms(8) [OF that] assms(5) by (cases "j = i") auto
    show "\<exists>c. as_alarms s' j = Some c \<and> al_closing c < 3" if "j \<in> fst ` set (as_async s') \<or> as_running s' j \<noteq> None" for j
      using t(7) [of j] assms(9) [OF that] assms(5) by (cases "j = i") auto
  qed
qed

lemma tidy_change:
  assumes "tidy s" "as_alarms s i = Some a" "al_seq b = al_seq a \<or> al_seq b = 0" "al_closing b = al_closing a"
    and "as_alarms s' = (as_alarms s)(i \<mapsto> b)" "as_sg_seq s' = as_sg_seq s" "\<And>j q. carried s' j q \<Longrightarrow> q \<noteq> 0"
    and "set (dispatched s') \<subseteq> set (dispatched s)"
    and "\<And>j. j \<in> fst ` set (as_async s') \<or> as_running s' j \<noteq> None \<Longrightarrow>
      j \<in> fst ` set (as_async s) \<or> as_running s j \<noteq> None \<or> j = i \<and> al_closing a < 3"
  shows "tidy s'"
proof (rule tidy_update [OF assms(1-3) _ assms(5-7)])
  note t = tidyD [OF assms(1)]
  show "al_closing b \<noteq> 0 \<longrightarrow> al_seq b = 0" using t(4) [OF assms(2)] assms(3,4) by auto
  show "if j = i then al_closing b < 2 else j \<in> set (dispatched s)" if "j \<in> set (dispatched s')" for j
    using t(6) [of j] that assms(2,4,8) by auto
  show "if j = i then al_closing b < 3 else j \<in> fst ` set (as_async s) \<or> as_running s j \<noteq> None"
    if "j \<in> fst ` set (as_async s') \<or> as_running s' j \<noteq> None" for j
  proof (cases "j = i")
    case True
    with t(7) [of i] assms(2) assms(9) [OF that] have "al_closing a < 3" by fastforce
    with True assms(4) show ?thesis by simp
  qed (use assms(9) [OF that] in simp)
qed

lemma OnAlarm_tidy:
  assumes "tidy s" "as_alarms s i = Some a" "al_closing a < 3" "seq \<noteq> 0" "OnAlarm here ok i seq now s = Inr s'"
  shows "tidy s'"
  using assms(5)
proof (cases rule: OnAlarm_cases)
  case forward
  show ?thesis
    by (rule tidy_change [OF assms(1,2), where b = a])
      (use forward assms(2,3,4) tidyD(2) [OF assms(1)] in \<open>auto simp: carried_def dispatched_def\<close>)
next
  case refused
  show ?thesis
    by (rule tidy_change [OF assms(1,2), where b = a])
      (use refused assms(2,3,4) tidyD(2) [OF assms(1)] in \<open>auto simp: carried_def dispatched_def\<close>)
next
  case (stale b)
  with assms(1) show ?thesis by simp
next
  case (lost b)
  show ?thesis
    by (rule tidy_change [OF assms(1,2), where b = "fired i b now"])
      (use lost assms(2,3,4) tidyD(2) [OF assms(1)] in \<open>auto simp: carried_def dispatched_def fired_def\<close>)
next
  case (thread b)
  show ?thesis
    by (rule tidy_change [OF assms(1,2), where b = "(fired i b now)\<lparr>al_thread := True\<rparr>"])
      (use thread assms(2,3,4) tidyD(2) [OF assms(1)] in \<open>auto simp: carried_def dispatched_def fired_def\<close>)
next
  case (queue b)
  show ?thesis
    by (rule tidy_change [OF assms(1,2), where b = "fired i b now"])
      (use queue assms(2,3,4) tidyD(2) [OF assms(1)] in \<open>auto simp: carried_def dispatched_def fired_def\<close>)
qed

text \<open>The number that was just taken out of its carrier is in the hands of \<^verbatim>\<open>OnAlarm\<close>.\<close>

lemma OnAlarm_found:
  assumes "\<And>j a. as_alarms s j = Some a \<Longrightarrow> al_seq a \<noteq> 0 \<Longrightarrow> carried s j (al_seq a) \<or> as_refused s j \<or> j = i \<and> al_seq a = seq"
    and "OnAlarm here ok i seq now s = Inr s'"
  shows "found s'"
  using assms(2)
proof (cases rule: OnAlarm_cases)
  case forward
  with assms(1) show ?thesis by (auto simp: found_def carried_def)
next
  case refused
  with assms(1) show ?thesis by (auto simp: found_def carried_def)
next
  case (stale a)
  have "carried s j (al_seq b) \<or> as_refused s j" if "as_alarms s j = Some b" "al_seq b \<noteq> 0" for j b
    using assms(1) [OF that] stale(2,3) that(1) by auto
  with stale(4) show ?thesis by (simp add: found_def)
next
  case (lost a)
  with assms(1) show ?thesis by (fastforce simp: found_def carried_def fired_def split: if_splits)
next
  case (thread a)
  with assms(1) show ?thesis by (fastforce simp: found_def carried_def fired_def split: if_splits)
next
  case (queue a)
  with assms(1) show ?thesis by (fastforce simp: found_def carried_def fired_def split: if_splits)
qed

section \<open>Every step keeps the invariant and touches no deleted alarm\<close>

definition alarm_inv :: "alarm_system \<Rightarrow> bool" where
  "alarm_inv s \<longleftrightarrow> tidy s \<and> found s \<and> (\<forall>i. account_of i s)"

definition keeps :: "alarm_system result \<Rightarrow> bool" where
  "keeps r \<longleftrightarrow> (\<exists>s'. r = Inr s' \<and> alarm_inv s')"

lemma keeps_Inr [simp]: "keeps (Inr s) \<longleftrightarrow> alarm_inv s"
  by (simp add: keeps_def)

lemma alarm_invI: "tidy s \<Longrightarrow> found s \<Longrightarrow> (\<And>i. account_of i s) \<Longrightarrow> alarm_inv s"
  by (simp add: alarm_inv_def)

text \<open>Steps that change the system outside the alarms and what refers to them.\<close>

lemma New_keeps:
  assumes "alarm_inv s" "enabled (A_New i t d) s"
  shows "keeps (alarm_step (A_New i t d) s)"
proof -
  have inv: "tidy s" "found s" "\<And>i. account_of i s" using assms(1) by (simp_all add: alarm_inv_def)
  note t = tidyD [OF inv(1)]
  have new: "as_alarms s i = None" using assms(2) by simp
  let ?s = "put_alarm i (Alarm_new t d) s"
  have seq: "al_seq (Alarm_new t d) = 0" "al_closing (Alarm_new t d) = 0" by (simp_all add: Alarm_new_def)
  have "tidy ?s"
  proof (rule tidyI)
    show "carried ?s j q \<Longrightarrow> q \<noteq> 0" for j q using t(2) [of j q] by (simp add: carried_def)
    show "j = k" if "as_alarms ?s j = Some a" "as_alarms ?s k = Some b" "al_seq a = al_seq b" "al_seq a \<noteq> 0" for j a k b
      using t(5) [of j a k b] that seq by (auto split: if_splits)
    show "j \<in> set (dispatched ?s) \<Longrightarrow> \<exists>a. as_alarms ?s j = Some a \<and> al_closing a < 2" for j
      using t(6) [of j] seq by (simp add: dispatched_def)
    show "j \<in> fst ` set (as_async ?s) \<or> as_running ?s j \<noteq> None \<Longrightarrow> \<exists>a. as_alarms ?s j = Some a \<and> al_closing a < 3" for j
      using t(7) [of j] seq by simp
  qed (use t(1,3,4) seq in \<open>auto split: if_splits\<close>)
  moreover have "found ?s"
    using inv(2) seq(1) by (auto simp: found_def carried_def)
  moreover have "account_of j ?s" for j
    using inv(3) [of j] new seq(1) by (simp add: account_of_def pending_runs_def armed_def)
  ultimately show ?thesis by (simp add: alarm_invI)
qed

lemma Start_keeps:
  assumes "alarm_inv s" "enabled (A_Start i after now posted) s"
  shows "keeps (alarm_step (A_Start i after now posted) s)"
proof -
  have inv: "tidy s" "found s" "\<And>i. account_of i s" using assms(1) by (simp_all add: alarm_inv_def)
  note t = tidyD [OF inv(1)]
  obtain a where a: "as_alarms s i = Some a" "al_closing a = 0" using assms(2) by (auto simp: open_alarm_def)
  let ?q = "as_sg_seq s"
  let ?s1 = "s\<lparr>as_sg_seq := ?q + 1\<rparr>"
  define b where "b = a\<lparr>al_status := kStart, al_starttime := now, al_endtime := 0, al_after := after, al_seq := ?q\<rparr>"
  define s2 where "s2 = (put_alarm i b ?s1)\<lparr>as_broadcasts := as_broadcasts s @ [?q], as_started := bump i 1 (as_started s)\<rparr>"
  have start: "alarm_step (A_Start i after now posted) s = Inr (if al_seq a \<noteq> 0 then s else if posted then s2 else ?s1)"
    using a(1) t(1) by (simp add: Alarm_Start_def with_alarm_def Let_def INVAILD_SEQ_def s2_def b_def)
  have s1: "tidy ?s1 \<and> found ?s1 \<and> (\<forall>j. account_of j ?s1)"
  proof (intro conjI allI)
    show "tidy ?s1"
    proof (rule tidyI)
      show "al_seq a < as_sg_seq ?s1" if "as_alarms ?s1 j = Some a" for j a using t(3) [of j a] that by simp
    qed (use t in \<open>auto simp: carried_def dispatched_def\<close>)
    show "found ?s1" using inv(2) by (simp add: found_def carried_def)
    show "account_of j ?s1" for j using inv(3) [of j] by (simp add: account_of_def pending_runs_def armed_def)
  qed
  have s2: "alarm_inv s2" if zero: "al_seq a = 0"
  proof (rule alarm_invI)
    have alarms: "as_alarms s2 = (as_alarms s)(i \<mapsto> b)" "al_seq b = ?q" "al_closing b = 0" by (simp_all add: s2_def b_def a(2))
    show "tidy s2"
    proof (rule tidyI)
      show "carried s2 j q \<Longrightarrow> q \<noteq> 0" for j q using t(1) t(2) [of j q] by (auto simp: s2_def carried_def)
      have was: "as_alarms s j = Some c \<and> al_seq c < ?q \<or> j = i \<and> al_seq c = ?q" if "as_alarms s2 j = Some c" for j c
        using t(3) [of j c] that alarms by (cases "j = i") simp_all
      show "j = k" if "as_alarms s2 j = Some c" "as_alarms s2 k = Some d" "al_seq c = al_seq d" "al_seq c \<noteq> 0" for j c k d
        using was [OF that(1)] was [OF that(2)] t(5) [OF _ _ that(3,4)] that(3) by (metis order_less_irrefl)
      show "al_seq c < as_sg_seq s2" if "as_alarms s2 j = Some c" for j c
        using t(3) [of j c] that alarms by (cases "j = i") (auto simp: s2_def)
      show "al_closing c \<noteq> 0 \<Longrightarrow> al_seq c = 0" if "as_alarms s2 j = Some c" for j c
        using t(4) [of j c] that alarms by (cases "j = i") auto
      show "j \<in> set (dispatched s2) \<Longrightarrow> \<exists>c. as_alarms s2 j = Some c \<and> al_closing c < 2" for j
        using t(6) [of j] alarms by (cases "j = i") (auto simp: s2_def dispatched_def)
      show "j \<in> fst ` set (as_async s2) \<or> as_running s2 j \<noteq> None \<Longrightarrow> \<exists>c. as_alarms s2 j = Some c \<and> al_closing c < 3" for j
        using t(7) [of j] alarms by (cases "j = i") (auto simp: s2_def)
      show "0 < as_sg_seq s2" using t(1) by (simp add: s2_def)
    qed
    show "found s2" using inv(2) alarms by (auto simp: found_def carried_def s2_def)
    show "account_of j s2" for j
      using inv(3) [of j] a(1) zero t(1) alarms by (cases "j = i") (simp_all add: account_of_def pending_runs_def armed_def s2_def)
  qed
  from s1 s2 assms(1) show ?thesis unfolding start by (auto intro: alarm_invI)
qed

text \<open>Taking back the calls that wait.\<close>

lemma filter_other [simp]:
  "filter (\<lambda>x. (case x of (k, _) \<Rightarrow> k \<noteq> i) \<and> x = (j, c)) xs = (if j = i then [] else filter (\<lambda>x. x = (j, c)) xs)"
  by (induction xs) auto

lemma cancel_account: "account_of j s \<Longrightarrow> account_of j (cancel_async i s)"
  by (simp add: account_of_def pending_runs_def armed_def cancel_async_def)

lemma cancel_carried: "carried (cancel_async i s) j q \<Longrightarrow> carried s j q" "j \<noteq> i \<Longrightarrow> carried s j q \<Longrightarrow> carried (cancel_async i s) j q"
  by (auto simp: carried_def)

lemma Cancel_keeps:
  assumes "alarm_inv s" "as_alarms s i = Some a"
  shows "\<exists>r s' b. Alarm_Cancel i now s = Inr (r, s') \<and> alarm_inv s' \<and> as_alarms s' i = Some b \<and> al_seq b = 0
    \<and> al_closing b = al_closing a \<and> i \<notin> fst ` set (as_async s')"
proof -
  have inv: "tidy s" "found s" "\<And>i. account_of i s" using assms(1) by (simp_all add: alarm_inv_def)
  note t = tidyD [OF inv(1)]
  let ?s1 = "cancel_async i s"
  define b where "b = (if al_seq a = 0 then a else a\<lparr>al_status := kCancel, al_endtime := now, al_seq := 0\<rparr>)"
  define s2 where "s2 = (if al_seq a = 0 then ?s1 else (put_alarm i b ?s1)\<lparr>as_killed := bump i 1 (as_killed ?s1)\<rparr>)"
  have b: "al_seq b = 0" "al_closing b = al_closing a" by (simp_all add: b_def)
  have alarms: "as_alarms s2 = (as_alarms s)(i \<mapsto> b)" using assms(2) by (auto simp: s2_def b_def)
  have parts: "as_sg_seq s2 = as_sg_seq s" "dispatched s2 = dispatched s" "as_async s2 = as_async ?s1" "as_running s2 = as_running s" "as_refused s2 = as_refused s"
    "carried s2 j q \<longleftrightarrow> carried ?s1 j q" for j q
    by (simp_all add: s2_def dispatched_def carried_def)
  have "tidy s2"
  proof (rule tidy_change [OF inv(1) assms(2), where b = b])
    show "carried s2 j q \<Longrightarrow> q \<noteq> 0" for j q using parts(6) cancel_carried(1) t(2) by blast
    show "j \<in> fst ` set (as_async s) \<or> as_running s j \<noteq> None \<or> j = i \<and> al_closing a < 3"
      if "j \<in> fst ` set (as_async s2) \<or> as_running s2 j \<noteq> None" for j
      using that by (auto simp: parts)
  qed (use b alarms parts in auto)
  moreover have "found s2"
    unfolding found_def
  proof (intro allI impI)
    fix j c assume c: "as_alarms s2 j = Some c" "al_seq c \<noteq> 0"
    then have j: "j \<noteq> i" "as_alarms s j = Some c" using b(1) by (auto simp: alarms split: if_splits)
    with c(2) inv(2) have "carried s j (al_seq c) \<or> as_refused s j" by (simp add: found_def)
    then show "carried s2 j (al_seq c) \<or> as_refused s2 j" using cancel_carried(2) [OF j(1)] parts(5,6) by auto
  qed
  moreover have "account_of j s2" for j
    using cancel_account [OF inv(3) [of j], of i] assms(2) b(1)
    by (auto simp: s2_def account_of_def pending_runs_def armed_def)
  moreover have "Alarm_Cancel i now s = Inr (True, s2)"
    using assms(2) by (simp add: Alarm_Cancel_def with_alarm_def Let_def INVAILD_SEQ_def s2_def b_def)
  moreover have "i \<notin> fst ` set (as_async s2)" by (auto simp: parts)
  ultimately show ?thesis using alarms b by (auto simp: alarm_inv_def)
qed

text \<open>The steps of the destructor.\<close>

lemma set_closing_keeps:
  assumes "alarm_inv s" "as_alarms s i = Some a" "al_seq a = 0" "n = 2 \<longrightarrow> i \<notin> set (dispatched s)"
    and "n = 3 \<longrightarrow> i \<notin> set (dispatched s) \<and> i \<notin> fst ` set (as_async s) \<and> as_running s i = None" "n \<in> {1, 2, 3}"
  shows "keeps (set_closing i n s)"
proof -
  have inv: "tidy s" "found s" "\<And>i. account_of i s" using assms(1) by (simp_all add: alarm_inv_def)
  note t = tidyD [OF inv(1)]
  let ?b = "a\<lparr>al_closing := n\<rparr>"
  let ?s = "put_alarm i ?b s"
  have "tidy ?s"
    by (rule tidy_update [OF inv(1) assms(2), where b = ?b])
      (use assms(3-6) t(2) t(6) [of i] t(7) [of i] in \<open>auto simp: carried_def dispatched_def\<close>)
  moreover have "found ?s" using inv(2) assms(3) by (auto simp: found_def carried_def)
  moreover have "account_of j ?s" for j
    using inv(3) [of j] assms(2,3) by (simp add: account_of_def pending_runs_def armed_def)
  ultimately show ?thesis using assms(2) by (simp add: set_closing_def with_alarm_def alarm_invI)
qed

text \<open>A broadcast in work, and a call in work.\<close>

lemma Deliver_keeps:
  assumes "alarm_inv s" "enabled (A_Deliver seq js) s"
  shows "keeps (alarm_step (A_Deliver seq js) s)"
proof -
  have inv: "tidy s" "found s" "\<And>i. account_of i s" using assms(1) by (simp_all add: alarm_inv_def)
  note t = tidyD [OF inv(1)]
  have e: "seq \<in> set (as_broadcasts s)" "dispatched s = []" "\<And>j. j \<in> set js \<longleftrightarrow> listens s j" using assms(2) by auto
  let ?s = "s\<lparr>as_broadcasts := remove1 seq (as_broadcasts s), as_dispatch := Some (seq, js)\<rparr>"
  have "carried s i seq" for i using e(1) by (simp add: carried_def)
  then have seq: "seq \<noteq> 0" using t(2) by blast
  have down: "carried ?s j q \<Longrightarrow> carried s j q \<or> q = seq" for j q
    by (auto simp: carried_def dest: notin_set_remove1)
  have "tidy ?s"
  proof (rule tidyI)
    show "carried ?s j q \<Longrightarrow> q \<noteq> 0" for j q using down t(2) seq by blast
    show "j \<in> set (dispatched ?s) \<Longrightarrow> \<exists>a. as_alarms ?s j = Some a \<and> al_closing a < 2" for j
      using e(3) by (simp add: dispatched_def listens_def)
    show "j = k" if "as_alarms ?s j = Some a" "as_alarms ?s k = Some b" "al_seq a = al_seq b" "al_seq a \<noteq> 0" for j a k b
      using t(5) that by simp
    show "j \<in> fst ` set (as_async ?s) \<or> as_running ?s j \<noteq> None \<Longrightarrow> \<exists>a. as_alarms ?s j = Some a \<and> al_closing a < 3" for j
      using t(7) [of j] by simp
  qed (use t(1,3,4) in auto)
  moreover have "found ?s" unfolding found_def
  proof (intro allI impI)
    fix i a assume a: "as_alarms ?s i = Some a" "al_seq a \<noteq> 0"
    then have c: "carried s i (al_seq a) \<or> as_refused s i" and "al_closing a = 0" using inv(2) t(4) [of i a] by (auto simp: found_def)
    with a(1) have "listens s i" by (simp add: listens_def)
    then have "i \<in> set js" using e(3) by simp
    then show "carried ?s i (al_seq a) \<or> as_refused ?s i" using c e(2) by (cases "al_seq a = seq") (auto simp: carried_def dispatched_def)
  qed
  moreover have "account_of j ?s" for j using inv(3) [of j] by (simp add: account_of_def pending_runs_def armed_def)
  ultimately show ?thesis by (simp add: alarm_invI)
qed

text \<open>What \<open>s1\<close> lacks of the references of \<open>s\<close>.\<close>

lemma tidy_fewer:
  assumes "tidy s" "as_alarms s1 = as_alarms s" "as_sg_seq s1 = as_sg_seq s" "\<And>j q. carried s1 j q \<Longrightarrow> carried s j q"
    and "set (dispatched s1) \<subseteq> set (dispatched s)"
    and "\<And>j. j \<in> fst ` set (as_async s1) \<or> as_running s1 j \<noteq> None \<Longrightarrow> j \<in> fst ` set (as_async s) \<or> as_running s j \<noteq> None"
  shows "tidy s1"
proof (rule tidyI)
  note t = tidyD [OF assms(1)]
  show "carried s1 j q \<Longrightarrow> q \<noteq> 0" for j q using assms(4) t(2) by blast
  show "j \<in> set (dispatched s1) \<Longrightarrow> \<exists>a. as_alarms s1 j = Some a \<and> al_closing a < 2" for j
    using assms(2,5) t(6) by auto
  show "j = k" if "as_alarms s1 j = Some a" "as_alarms s1 k = Some b" "al_seq a = al_seq b" "al_seq a \<noteq> 0" for j a k b
    using t(5) that assms(2) by simp
  show "j \<in> fst ` set (as_async s1) \<or> as_running s1 j \<noteq> None \<Longrightarrow> \<exists>a. as_alarms s1 j = Some a \<and> al_closing a < 3" for j
    using assms(2) assms(6) [of j] t(7) [of j] by simp
qed (use tidyD(1,3,4) [OF assms(1)] assms(2,3) in auto)

lemma Handle_keeps:
  assumes "alarm_inv s" "enabled (A_Handle ok now) s"
  shows "keeps (alarm_step (A_Handle ok now) s)"
proof -
  have inv: "tidy s" "found s" "\<And>i. account_of i s" using assms(1) by (simp_all add: alarm_inv_def)
  note t = tidyD [OF inv(1)]
  obtain seq i js where d: "as_dispatch s = Some (seq, i # js)"
    using assms(2) by (auto simp: dispatched_def neq_Nil_conv split: option.splits)
  then have "i \<in> set (dispatched s)" "carried s i seq" by (auto simp: dispatched_def carried_def)
  then obtain a where a: "as_alarms s i = Some a" "al_closing a < 2" and seq: "seq \<noteq> 0" using t(2,6) by blast
  let ?s1 = "s\<lparr>as_dispatch := Some (seq, js)\<rparr>"
  obtain s' where s': "OnAlarm (al_def_queue a) ok i seq now ?s1 = Inr s'"
    using OnAlarm_runs [of ?s1 i a "al_def_queue a" ok seq now] a(1) by auto
  have tidy1: "tidy ?s1"
    by (rule tidy_fewer [OF inv(1)]) (use d in \<open>auto simp: carried_def dispatched_def\<close>)
  have "account_of j ?s1" for j using inv(3) [of j] by (simp add: account_of_def pending_runs_def armed_def)
  then have "account_of j s'" for j using OnAlarm_account [OF _ s' seq] by blast
  moreover have "tidy s'" by (rule OnAlarm_tidy [OF tidy1 _ _ seq s', of a]) (use a in simp_all)
  moreover have "found s'"
  proof (rule OnAlarm_found [OF _ s'])
    fix j b assume b: "as_alarms ?s1 j = Some b" "al_seq b \<noteq> 0"
    then have "carried s j (al_seq b) \<or> as_refused s j" using inv(2) by (simp add: found_def)
    then show "carried ?s1 j (al_seq b) \<or> as_refused ?s1 j \<or> j = i \<and> al_seq b = seq" using d by (auto simp: carried_def)
  qed
  ultimately show ?thesis using a(1) d s' by (simp add: with_alarm_def alarm_invI)
qed

lemma Pop_keeps:
  assumes "alarm_inv s" "enabled (A_Pop i) s"
  shows "keeps (alarm_step (A_Pop i) s)"
proof -
  have inv: "tidy s" "found s" "\<And>i. account_of i s" using assms(1) by (simp_all add: alarm_inv_def)
  obtain c ys where p: "pop_async i (as_async s) = (c, ys)" by (cases "pop_async i (as_async s)")
  have e: "i \<in> fst ` set (as_async s)" "as_running s i = None" using assms(2) by simp_all
  obtain us vs where x: "as_async s = us @ (i, c) # vs" "ys = us @ vs" using pop_async_split [OF e(1) p] by blast
  let ?s = "s\<lparr>as_async := ys, as_running := (as_running s)(i \<mapsto> c)\<rparr>"
  have same: "carried ?s j q \<longleftrightarrow> carried s j q" for j q using x e(2) by (auto simp: carried_def)
  have "tidy ?s"
    by (rule tidy_fewer [OF inv(1)]) (use x e(2) same in \<open>auto simp: dispatched_def split: if_splits\<close>)
  moreover have "found ?s" using inv(2) same by (simp add: found_def)
  moreover have "account_of j ?s" for j
    using inv(3) [of j] x e(2) by (cases "j = i") (auto simp: account_of_def pending_runs_def armed_def)
  ultimately show ?thesis by (simp add: p alarm_invI)
qed

lemma Invoke_keeps:
  assumes "alarm_inv s" "enabled (A_Invoke i ok now) s"
  shows "keeps (alarm_step (A_Invoke i ok now) s)"
proof -
  have inv: "tidy s" "found s" "\<And>i. account_of i s" using assms(1) by (simp_all add: alarm_inv_def)
  note t = tidyD [OF inv(1)]
  obtain c where c: "as_running s i = Some c" using assms(2) by auto
  obtain a where a: "as_alarms s i = Some a" "al_closing a < 3" using t(7) [of i] c by auto
  let ?s1 = "s\<lparr>as_running := (as_running s)(i := None)\<rparr>"
  have tidy1: "tidy ?s1"
    by (rule tidy_fewer [OF inv(1)]) (auto simp: carried_def dispatched_def split: if_splits)
  show ?thesis
  proof (cases c)
    case (Call_OnAlarm seq)
    have "carried s i seq" using c Call_OnAlarm by (simp add: carried_def)
    then have seq: "seq \<noteq> 0" using t(2) by blast
    obtain s' where s': "OnAlarm True ok i seq now ?s1 = Inr s'"
      using OnAlarm_runs [of ?s1 i a True ok seq now] a(1) by auto
    have "account_of j ?s1" for j
      using inv(3) [of j] c Call_OnAlarm by (auto simp: account_of_def pending_runs_def armed_def)
    then have "account_of j s'" for j using OnAlarm_account [OF _ s' seq] by blast
    moreover have "tidy s'" by (rule OnAlarm_tidy [OF tidy1 _ _ seq s', of a]) (use a in simp_all)
    moreover have "found s'"
    proof (rule OnAlarm_found [OF _ s'])
      fix j b assume b: "as_alarms ?s1 j = Some b" "al_seq b \<noteq> 0"
      then have "carried s j (al_seq b) \<or> as_refused s j" using inv(2) by (simp add: found_def)
      then show "carried ?s1 j (al_seq b) \<or> as_refused ?s1 j \<or> j = i \<and> al_seq b = seq" using c Call_OnAlarm by (auto simp: carried_def)
    qed
    ultimately show ?thesis using c Call_OnAlarm s' by (simp add: invoke_def alarm_invI)
  next
    case Call_Run
    let ?s = "Alarm_Run i ?s1"
    have "tidy ?s"
      by (rule tidy_fewer [OF tidy1]) (auto simp: carried_def dispatched_def)
    moreover have "carried ?s j q \<longleftrightarrow> carried s j q" for j q using c Call_Run by (cases "j = i") (simp_all add: carried_def)
    then have "found ?s" using inv(2) by (simp add: found_def)
    moreover have "account_of j ?s" for j
      using inv(3) [of j] c Call_Run by (auto simp: account_of_def pending_runs_def armed_def)
    ultimately show ?thesis using c Call_Run a(1) by (simp add: invoke_def with_alarm_def alarm_invI)
  qed
qed

lemma Thread_end_keeps:
  assumes "alarm_inv s" "enabled (A_Thread_end i) s"
  shows "keeps (alarm_step (A_Thread_end i) s)"
proof -
  have inv: "tidy s" "found s" "\<And>i. account_of i s" using assms(1) by (simp_all add: alarm_inv_def)
  obtain a where a: "as_alarms s i = Some a" using assms(2) by auto
  let ?s = "put_alarm i (a\<lparr>al_thread := False\<rparr>) s"
  have "tidy ?s"
    by (rule tidy_change [OF inv(1) a, where b = "a\<lparr>al_thread := False\<rparr>"])
      (use tidyD(2) [OF inv(1)] in \<open>auto simp: carried_def dispatched_def\<close>)
  moreover have "found ?s" using inv(2) a by (auto simp: found_def carried_def)
  moreover have "account_of j ?s" for j using inv(3) [of j] a by (simp add: account_of_def pending_runs_def armed_def)
  ultimately show ?thesis using a by (simp add: with_alarm_def alarm_invI)
qed

lemma Delete_keeps:
  assumes "alarm_inv s" "enabled (A_Delete i now) s"
  shows "keeps (alarm_step (A_Delete i now) s)"
proof -
  obtain a where a: "as_alarms s i = Some a" using assms(2) by (auto simp: open_alarm_def)
  obtain r s1 b where c: "Alarm_Cancel i now s = Inr (r, s1)" "alarm_inv s1" "as_alarms s1 i = Some b" "al_seq b = 0"
    using Cancel_keeps [OF assms(1) a] by blast
  then show ?thesis using set_closing_keeps [OF c(2,3,4), of 1] by (simp add: Alarm_delete_def)
qed

lemma Unregistered_keeps:
  assumes "alarm_inv s" "enabled (A_Unregistered i) s"
  shows "keeps (alarm_step (A_Unregistered i) s)"
proof -
  obtain a where a: "as_alarms s i = Some a" "al_closing a = 1" using assms(2) by (auto simp: closing_def)
  then have "al_seq a = 0" using assms(1) tidyD(4) [of s i a] by (simp add: alarm_inv_def)
  then show ?thesis using set_closing_keeps [OF assms(1) a(1), of 2] assms(2) by (simp add: Alarm_unregistered_def)
qed

lemma cancel_async_inv:
  assumes "alarm_inv s" "as_alarms s i = Some a" "al_seq a = 0"
  shows "alarm_inv (cancel_async i s)"
proof -
  obtain r s1 where "Alarm_Cancel i 0 s = Inr (r, s1)" "alarm_inv s1" using Cancel_keeps [OF assms(1,2)] by blast
  then show ?thesis using assms(2,3) by (simp add: Alarm_Cancel_def with_alarm_def Let_def INVAILD_SEQ_def)
qed

lemma Async_unregistered_keeps:
  assumes "alarm_inv s" "enabled (A_Async_unregistered i) s"
  shows "keeps (alarm_step (A_Async_unregistered i) s)"
proof -
  obtain a where a: "as_alarms s i = Some a" "al_closing a = 2" "as_running s i = None" using assms(2) by (auto simp: closing_def)
  have tidy: "tidy s" using assms(1) by (simp add: alarm_inv_def)
  have seq: "al_seq a = 0" using tidyD(4) [OF tidy a(1)] a(2) by simp
  have "i \<notin> set (dispatched s)" using tidyD(6) [OF tidy, of i] a(1,2) by auto
  then have d: "i \<notin> set (dispatched (cancel_async i s))" by (simp add: dispatched_def)
  have w: "i \<notin> fst ` set (as_async (cancel_async i s))" by auto
  show ?thesis
    using set_closing_keeps [OF cancel_async_inv [OF assms(1) a(1) seq], of i a 3] a seq d w
    by (simp add: Alarm_async_unregistered_def)
qed

lemma Gone_keeps:
  assumes "alarm_inv s" "enabled (A_Gone i) s"
  shows "keeps (alarm_step (A_Gone i) s)"
proof -
  have inv: "tidy s" "found s" "\<And>i. account_of i s" using assms(1) by (simp_all add: alarm_inv_def)
  note t = tidyD [OF inv(1)]
  obtain a where a: "as_alarms s i = Some a" "al_closing a = 3" using assms(2) by (auto simp: closing_def)
  have seq: "al_seq a = 0" using t(4) [OF a(1)] a(2) by simp
  have none: "i \<notin> set (dispatched s)" using t(6) [of i] a by auto
  have idle: "\<not> (i \<in> fst ` set (as_async s) \<or> as_running s i \<noteq> None)"
  proof
    assume "i \<in> fst ` set (as_async s) \<or> as_running s i \<noteq> None"
    from t(7) [OF this] a show False by simp
  qed
  let ?s = "Alarm_gone i s"
  have s: "as_alarms ?s = (as_alarms s)(i := None)" "as_sg_seq ?s = as_sg_seq s" "dispatched ?s = dispatched s"
    "as_async ?s = as_async s" "as_running ?s = as_running s" "as_refused ?s = as_refused s" "carried ?s j q \<longleftrightarrow> carried s j q" for j q
    by (simp_all add: Alarm_gone_def dispatched_def carried_def)
  have "tidy ?s"
  proof (rule tidyI)
    show "carried ?s j q \<Longrightarrow> q \<noteq> 0" for j q using s(7) t(2) by blast
    show "j = k" if "as_alarms ?s j = Some a" "as_alarms ?s k = Some b" "al_seq a = al_seq b" "al_seq a \<noteq> 0" for j a k b
      using t(5) [of j a k b] that s(1) by (auto split: if_splits)
    show "\<exists>a. as_alarms ?s j = Some a \<and> al_closing a < 2" if "j \<in> set (dispatched ?s)" for j
      using t(6) [of j] that s none by (cases "j = i") auto
    show "\<exists>a. as_alarms ?s j = Some a \<and> al_closing a < 3" if "j \<in> fst ` set (as_async ?s) \<or> as_running ?s j \<noteq> None" for j
      using t(7) [of j] that s idle by (cases "j = i") auto
  qed (use t(1,3,4) s in \<open>auto split: if_splits\<close>)
  moreover have "found ?s" using inv(2) s by (auto simp: found_def split: if_splits)
  moreover have "account_of j ?s" for j
    using inv(3) [of j] a(1) seq by (cases "j = i") (simp_all add: Alarm_gone_def account_of_def pending_runs_def armed_def)
  ultimately show ?thesis by (simp add: alarm_invI)
qed

lemma step_keeps:
  assumes "alarm_inv s" "enabled e s"
  shows "keeps (alarm_step e s)"
proof (cases e)
  case (A_Cancel i now)
  then obtain a where "as_alarms s i = Some a" using assms(2) by (auto simp: open_alarm_def)
  then show ?thesis using Cancel_keeps [OF assms(1), of i a now] A_Cancel by auto
qed (use assms New_keeps Start_keeps Deliver_keeps Handle_keeps Pop_keeps Invoke_keeps Thread_end_keeps Delete_keeps Unregistered_keeps
    Async_unregistered_keeps Gone_keeps in \<open>simp_all del: alarm_step.simps enabled.simps\<close>)

lemma run_keeps: "alarm_run P no_alarms s \<Longrightarrow> alarm_inv s"
proof (induction rule: alarm_run.induct)
  case alarm_refl
  show ?case using no_alarms_ok by (simp add: alarm_inv_def)
next
  case (alarm_more s e s')
  then show ?case using step_keeps [of s e] by (simp del: alarm_step.simps enabled.simps)
qed

end
