(* ===== verification/Alarm_Props.thy ===== *)
theory Alarm_Props
  imports Alarm_Inv
begin

text \<open>
  The properties of \<open>Alarm\<close>: every start is accounted for and no step touches a destroyed alarm; a cancelled alarm does not
  fire; an alarm with a thread of its own loses what fires while the thread is at work, one on a queue loses nothing.
\<close>

text \<open>Nothing is left to be done for alarm \<open>i\<close>.\<close>

definition quiet :: "nat \<Rightarrow> alarm_system \<Rightarrow> bool" where
  "quiet i s \<longleftrightarrow> as_broadcasts s = [] \<and> dispatched s = [] \<and> as_async s = [] \<and> as_running s i = None"

lemma quiet_account:
  assumes "alarm_inv s" "quiet i s" "\<not> as_refused s i"
  shows "as_started s i = as_ran s i + as_killed s i + as_lost s i"
proof -
  have "found s" "account_of i s" using assms(1) by (simp_all add: alarm_inv_def)
  moreover have "\<not> carried s i q" for q using assms(2) by (auto simp: quiet_def carried_def dispatched_def)
  ultimately have "armed i s = 0" using assms(3) by (auto simp: found_def armed_def split: option.splits)
  moreover have "pending_runs i s = 0" using assms(2) by (simp add: quiet_def pending_runs_def)
  ultimately show ?thesis using \<open>account_of i s\<close> by (simp add: account_of_def)
qed

text \<open>C13: in every interleaving of the operations of any number of alarms with the queues, the next step that may happen succeeds
  (no handler, call or thread reaches an alarm that its destructor has left); the starts of an alarm are its runs, those taken
  back, those lost (to a thread still at work, to a thread that cannot be created, or to a queue that is gone), the runs still waiting and
  the alarm still armed; and when nothing waits any more, and no queue refused a call of \<^verbatim>\<open>OnAlarm\<close> for it, no start is missing.\<close>

theorem Alarm_accounted:
  assumes "alarm_run P no_alarms s"
  shows "(enabled e s \<longrightarrow> (\<exists>s'. alarm_step e s = Inr s'))
    \<and> as_started s i = as_ran s i + as_killed s i + as_lost s i + pending_runs i s + armed i s
    \<and> (quiet i s \<and> \<not> as_refused s i \<longrightarrow> as_started s i = as_ran s i + as_killed s i + as_lost s i)"
proof -
  have inv: "alarm_inv s" using run_keeps [OF assms] .
  then have "enabled e s \<Longrightarrow> keeps (alarm_step e s)" by (rule step_keeps)
  moreover have "account_of i s" using inv by (simp add: alarm_inv_def)
  ultimately show ?thesis using quiet_account [OF inv] by (auto simp: keeps_def account_of_def)
qed

section \<open>After Cancel\<close>

text \<open>What a step that does not start alarm \<open>i\<close> does to its counters.\<close>

definition no_start :: "nat \<Rightarrow> alarm_event \<Rightarrow> bool" where
  "no_start i e \<longleftrightarrow> (case e of A_Start j _ _ _ \<Rightarrow> j \<noteq> i | _ \<Rightarrow> True)"

definition after_step :: "nat \<Rightarrow> alarm_system \<Rightarrow> alarm_system \<Rightarrow> bool" where
  "after_step i s s' \<longleftrightarrow> as_started s' i = as_started s i \<and> as_killed s i \<le> as_killed s' i \<and> as_lost s i \<le> as_lost s' i
     \<and> (armed i s = 0 \<longrightarrow> armed i s' = 0)"

lemma after_stepI:
  assumes "as_started s' i = as_started s i" "as_killed s i \<le> as_killed s' i" "as_lost s i \<le> as_lost s' i"
    and "as_alarms s' i = as_alarms s i \<or> armed i s' = 0 \<or> (\<exists>a b. as_alarms s i = Some a \<and> as_alarms s' i = Some b \<and> al_seq b = al_seq a)"
  shows "after_step i s s'"
  using assms by (auto simp: after_step_def armed_def)

lemma OnAlarm_after:
  assumes "OnAlarm here ok j seq now s = Inr s'"
  shows "after_step i s s'"
  using assms
proof (cases rule: OnAlarm_cases)
qed (auto intro!: after_stepI simp: armed_def fired_def)

lemma Cancel_after:
  assumes "Alarm_Cancel j now s = Inr (r, s')"
  shows "after_step i s s'"
proof -
  obtain a where a: "as_alarms s j = Some a" using assms by (auto simp: Alarm_Cancel_def with_alarm_def split: option.splits)
  have "as_killed s i \<le> as_killed (cancel_async j s) i" by (simp add: cancel_async_def)
  with assms a show ?thesis
    by (cases "al_seq a = 0") (auto intro!: after_stepI simp: Alarm_Cancel_def with_alarm_def Let_def INVAILD_SEQ_def armed_def)
qed

lemma set_closing_after: "set_closing j n s = Inr s' \<Longrightarrow> after_step i s s'"
  by (cases "i = j") (auto intro!: after_stepI simp: set_closing_def with_alarm_def split: option.splits)

lemma after_step_trans: "after_step i s t \<Longrightarrow> after_step i t u \<Longrightarrow> after_step i s u"
  by (auto simp: after_step_def)

lemma after_step_refl [simp]: "after_step i s s"
  by (simp add: after_step_def)

lemma after_step_queue [simp]:
  "after_step i (s\<lparr>as_dispatch := d\<rparr>) u \<longleftrightarrow> after_step i s u" "after_step i (s\<lparr>as_running := q\<rparr>) u \<longleftrightarrow> after_step i s u"
  by (simp_all add: after_step_def armed_def)

lemma Run_after: "after_step i s (Alarm_Run j (s\<lparr>as_running := q\<rparr>))"
  by (rule after_stepI) simp_all

lemma Start_after:
  assumes "Alarm_Start j after now posted s = Inr (r, s')" "j \<noteq> i"
  shows "after_step i s s'"
  using assms
  by (auto intro!: after_stepI simp: Alarm_Start_def with_alarm_def Let_def split: option.splits if_splits)

lemma cancel_async_after: "after_step i s (cancel_async j s)"
  by (rule after_stepI) (simp_all add: cancel_async_def)

lemma step_after:
  assumes "alarm_step e s = Inr s'" "no_start i e"
  shows "after_step i s s'"
proof (cases e)
  case (A_New j t d)
  with assms show ?thesis by (auto intro!: after_stepI simp: armed_def Alarm_new_def)
next
  case (A_Start j after now posted)
  with assms show ?thesis by (auto simp: rbind_eq_Inr_iff no_start_def dest: Start_after)
next
  case (A_Cancel j now)
  with assms show ?thesis by (auto simp: rbind_eq_Inr_iff dest: Cancel_after)
next
  case (A_Deliver seq js)
  with assms show ?thesis by (auto intro!: after_stepI)
next
  case (A_Handle ok now)
  with assms show ?thesis
    by (auto simp: with_alarm_def split: option.splits list.splits dest!: OnAlarm_after [of _ _ _ _ _ _ s' i])
next
  case (A_Pop j)
  with assms show ?thesis by (auto intro!: after_stepI split: prod.splits)
next
  case (A_Invoke j ok now)
  with assms show ?thesis
    by (auto simp: invoke_def with_alarm_def Run_after split: option.splits async_call.splits dest!: OnAlarm_after [of _ _ _ _ _ _ s' i])
next
  case (A_Thread_end j)
  with assms show ?thesis by (cases "i = j") (auto intro!: after_stepI simp: with_alarm_def split: option.splits)
next
  case (A_Delete j now)
  with assms show ?thesis
    by (auto simp: Alarm_delete_def rbind_eq_Inr_iff dest!: Cancel_after [of _ _ _ _ _ i] set_closing_after [of _ _ _ _ i] intro: after_step_trans)
next
  case (A_Unregistered j)
  with assms show ?thesis by (auto simp: Alarm_unregistered_def dest: set_closing_after)
next
  case (A_Async_unregistered j)
  with assms show ?thesis
    by (auto simp: Alarm_async_unregistered_def dest!: set_closing_after [of _ _ _ _ i] intro: after_step_trans cancel_async_after)
next
  case (A_Gone j)
  with assms show ?thesis by (auto intro!: after_stepI simp: Alarm_gone_def armed_def)
qed

lemma run_after:
  assumes "alarm_run (no_start i) s s'" "alarm_inv s"
  shows "after_step i s s' \<and> alarm_inv s'"
  using assms(1)
proof (induction rule: alarm_run.induct)
  case alarm_refl
  then show ?case using assms(2) by (simp add: after_step_def)
next
  case (alarm_more t e u)
  have "after_step i t u" using alarm_more.hyps by (intro step_after)
  moreover have "alarm_inv u" using step_keeps [of t e] alarm_more.IH alarm_more.hyps by (simp add: keeps_def)
  ultimately show ?case using alarm_more.IH by (blast intro: after_step_trans)
qed

lemma Cancel_none_pending:
  assumes "Alarm_Cancel i now s = Inr (r, s')" "alarm_inv s"
  shows "r" "armed i s' = 0" "pending_runs i s' = (if as_running s i = Some Call_Run then 1 else 0)" "as_ran s' = as_ran s"
proof -
  obtain a where a: "as_alarms s i = Some a" using assms by (auto simp: Alarm_Cancel_def with_alarm_def split: option.splits)
  then show r "armed i s' = 0" "pending_runs i s' = (if as_running s i = Some Call_Run then 1 else 0)" "as_ran s' = as_ran s"
    using assms(1)
    by (cases "al_seq a = 0"; auto simp: Alarm_Cancel_def with_alarm_def Let_def INVAILD_SEQ_def armed_def pending_runs_def cancel_async_def)+
qed

text \<open>Cancel always succeeds, and after it, whatever the queues, the other alarms and the threads do, the target does not run
  before the next Start, but for the one call that the queue had begun when Cancel was called.\<close>

theorem Alarm_Cancel_stops:
  assumes "alarm_run P no_alarms s" "Alarm_Cancel i now s = Inr (r, s1)" "alarm_run (no_start i) s1 s2"
  shows "r \<and> as_ran s2 i \<le> as_ran s i + (if as_running s i = Some Call_Run then 1 else 0)
    \<and> (\<forall>a. as_alarms s2 i = Some a \<longrightarrow> al_seq a = INVAILD_SEQ)"
proof -
  have inv: "alarm_inv s" using run_keeps [OF assms(1)] .
  note c = Cancel_none_pending [OF assms(2) inv]
  obtain a where "as_alarms s i = Some a" using assms(2) by (auto simp: Alarm_Cancel_def with_alarm_def split: option.splits)
  then have inv1: "alarm_inv s1" using Cancel_keeps [OF inv, of i a now] assms(2) by auto
  have k: "after_step i s1 s2" "alarm_inv s2" using run_after [OF assms(3) inv1] by simp_all
  have "account_of i s1" "account_of i s2" using inv1 k(2) by (simp_all add: alarm_inv_def)
  moreover have "armed i s2 = 0" using k(1) c(2) by (simp add: after_step_def)
  ultimately show ?thesis using k(1) c
    by (auto simp: account_of_def after_step_def armed_def INVAILD_SEQ_def split: option.splits if_splits)
qed

section \<open>Alarms on a queue\<close>

text \<open>Alarm \<open>i\<close> is made without a thread of its own and is neither cancelled nor destroyed, and the queues take every call.\<close>

definition undisturbed :: "nat \<Rightarrow> alarm_event \<Rightarrow> bool" where
  "undisturbed i e \<longleftrightarrow> (case e of A_New j t _ \<Rightarrow> j = i \<longrightarrow> \<not> t | A_Cancel j _ \<Rightarrow> j \<noteq> i | A_Delete j _ \<Rightarrow> j \<noteq> i
     | A_Handle ok _ \<Rightarrow> ok | A_Invoke j ok _ \<Rightarrow> ok | _ \<Rightarrow> True)"

definition calm :: "nat \<Rightarrow> alarm_system \<Rightarrow> bool" where
  "calm i s \<longleftrightarrow> as_killed s i = 0 \<and> as_lost s i = 0 \<and> \<not> as_refused s i
     \<and> (\<forall>a. as_alarms s i = Some a \<longrightarrow> \<not> al_inthread a \<and> \<not> al_thread a \<and> al_closing a = 0)"

lemma calm_parts [simp]:
  "calm i (s\<lparr>as_dispatch := d\<rparr>) \<longleftrightarrow> calm i s" "calm i (s\<lparr>as_running := q\<rparr>) \<longleftrightarrow> calm i s" "calm i (Alarm_Run j s) \<longleftrightarrow> calm i s"
  "calm i (s\<lparr>as_broadcasts := bs\<rparr>) \<longleftrightarrow> calm i s" "calm i (s\<lparr>as_async := xs\<rparr>) \<longleftrightarrow> calm i s"
  "calm i (s\<lparr>as_started := f\<rparr>) \<longleftrightarrow> calm i s" "calm i (s\<lparr>as_sg_seq := q'\<rparr>) \<longleftrightarrow> calm i s" "calm i (post_call j c s) \<longleftrightarrow> calm i s"
  by (simp_all add: calm_def Alarm_Run_def post_call_def)

lemma calm_put:
  "calm i s \<Longrightarrow> (j = i \<Longrightarrow> \<not> al_inthread a \<and> \<not> al_thread a \<and> al_closing a = 0) \<Longrightarrow> calm i (put_alarm j a s)"
  by (auto simp: calm_def)

lemma calm_killed: "calm i s \<Longrightarrow> j \<noteq> i \<Longrightarrow> calm i (cancel_async j s)"
  "calm i s \<Longrightarrow> j \<noteq> i \<Longrightarrow> calm i (s\<lparr>as_killed := bump j n f\<rparr>) \<longleftrightarrow> f i = 0"
  "calm i s \<Longrightarrow> j \<noteq> i \<Longrightarrow> calm i (s\<lparr>as_lost := bump j n f\<rparr>) \<longleftrightarrow> f i = 0"
  by (simp_all add: calm_def cancel_async_def)

lemma calmD: "calm i s \<Longrightarrow> as_alarms s i = Some a \<Longrightarrow> \<not> al_inthread a \<and> \<not> al_thread a \<and> al_closing a = 0"
  "calm i s \<Longrightarrow> as_killed s i = 0" "calm i s \<Longrightarrow> as_lost s i = 0"
  "calm i s \<Longrightarrow> \<not> as_refused s i"
  by (simp_all add: calm_def)

lemma OnAlarm_calm:
  assumes "OnAlarm here True j seq now s = Inr s'" "calm i s"
  shows "calm i s'"
proof -
  obtain a where a: "as_alarms s j = Some a" using assms by (auto simp: OnAlarm_def with_alarm_def split: option.splits)
  show ?thesis
  proof (cases "j = i")
    case True
    then have c: "\<not> al_inthread a" "\<not> al_thread a" "al_closing a = 0" using calmD(1) [OF assms(2)] a by auto
    with assms a True show ?thesis
      by (auto simp: OnAlarm_def with_alarm_def Let_def intro!: calm_put split: if_splits)
  next
    case False
    show ?thesis using assms(1)
    proof (cases rule: OnAlarm_cases)
    qed (use assms(2) False in \<open>auto intro!: calm_put simp: calm_def\<close>)
  qed
qed

lemma set_closing_calm: "set_closing j n s = Inr s' \<Longrightarrow> calm i s \<Longrightarrow> j \<noteq> i \<Longrightarrow> calm i s'"
  by (auto simp: set_closing_def with_alarm_def intro!: calm_put split: option.splits)

lemma Cancel_calm: "Alarm_Cancel j now s = Inr (r, s') \<Longrightarrow> calm i s \<Longrightarrow> j \<noteq> i \<Longrightarrow> calm i s'"
  by (auto simp: Alarm_Cancel_def with_alarm_def Let_def calm_def cancel_async_def split: option.splits if_splits)

lemma step_calm:
  assumes "calm i s" "undisturbed i e" "enabled e s" "alarm_step e s = Inr s'"
  shows "calm i s'"
proof (cases e)
  case (A_New j t d)
  with assms show ?thesis by (auto intro!: calm_put simp: Alarm_new_def undisturbed_def)
next
  case (A_Start j after now posted)
  with assms show ?thesis
    by (auto simp: rbind_eq_Inr_iff Alarm_Start_def with_alarm_def Let_def intro!: calm_put dest!: calmD(1) [OF assms(1)] split: option.splits if_splits)
next
  case (A_Handle ok now)
  with assms show ?thesis
    by (auto simp: with_alarm_def undisturbed_def split: option.splits list.splits dest!: OnAlarm_calm [of _ _ _ _ _ s' i])
next
  case (A_Invoke j ok now)
  with assms show ?thesis
    by (auto simp: invoke_def with_alarm_def undisturbed_def split: option.splits async_call.splits dest!: OnAlarm_calm [of _ _ _ _ _ s' i])
next
  case (A_Delete j now)
  with assms show ?thesis
    by (auto simp: Alarm_delete_def rbind_eq_Inr_iff undisturbed_def dest!: Cancel_calm [of _ _ _ _ _ i] set_closing_calm [of _ _ _ _ i])
next
  case (A_Thread_end j)
  with assms show ?thesis by (auto simp: with_alarm_def intro!: calm_put dest!: calmD(1) [OF assms(1)] split: option.splits)
next
  case (A_Unregistered j)
  with assms have "j \<noteq> i" by (auto simp: closing_def dest: calmD(1) [OF assms(1)])
  with A_Unregistered assms show ?thesis by (auto simp: Alarm_unregistered_def dest: set_closing_calm)
next
  case (A_Async_unregistered j)
  with assms have "j \<noteq> i" by (auto simp: closing_def dest: calmD(1) [OF assms(1)])
  with A_Async_unregistered assms show ?thesis
    by (auto simp: Alarm_async_unregistered_def dest!: set_closing_calm [of _ _ _ _ i] calm_killed(1) [of i s j])
next
  case (A_Gone j)
  with assms show ?thesis by (auto simp: Alarm_gone_def calm_def split: if_splits)
next
  case (A_Cancel j now)
  with assms show ?thesis by (auto simp: rbind_eq_Inr_iff undisturbed_def dest: Cancel_calm)
qed (use assms in \<open>auto split: prod.splits\<close>)

lemma run_calm: "alarm_run (undisturbed i) no_alarms s \<Longrightarrow> calm i s"
proof (induction rule: alarm_run.induct)
  case alarm_refl
  show ?case by (simp add: calm_def no_alarms_def)
qed (blast intro: step_calm)

text \<open>An alarm on a queue that nobody cancels or destroys runs its target never more often than it was started, and when
  nothing waits any more, exactly as often, whatever the other alarms do.\<close>

theorem Alarm_on_queue_fires:
  assumes "alarm_run (undisturbed i) no_alarms s"
  shows "as_ran s i \<le> as_started s i \<and> (quiet i s \<longrightarrow> as_ran s i = as_started s i)"
proof -
  have inv: "alarm_inv s" using run_keeps [OF assms] .
  then have "account_of i s" by (simp add: alarm_inv_def)
  then show ?thesis using quiet_account [OF inv, of i] calmD(2-4) [OF run_calm [OF assms]] by (auto simp: account_of_def)
qed

section \<open>Concrete runs\<close>

primrec run_alarm_events :: "(alarm_event \<Rightarrow> bool) \<Rightarrow> alarm_event list \<Rightarrow> alarm_system \<Rightarrow> alarm_system option" where
  "run_alarm_events P [] s = Some s"
| "run_alarm_events P (e # es) s = (if P e \<and> enabled e s then
     (case alarm_step e s of Inl _ \<Rightarrow> None | Inr s' \<Rightarrow> run_alarm_events P es s') else None)"

lemma run_alarm_events_run: "run_alarm_events P es s = Some s' \<Longrightarrow> alarm_run P s0 s \<Longrightarrow> alarm_run P s0 s'"
  by (induction es arbitrary: s) (auto split: if_splits sum.splits intro: alarm_more)

lemmas alarm_eval = Alarm_Start_def Alarm_Cancel_def OnAlarm_def start_runthread_def with_alarm_def invoke_def Let_def Alarm_new_def
  INVAILD_SEQ_def put_alarm_def cancel_async_def Alarm_Run_def no_alarms_def dispatched_def open_alarm_def listens_def pop_async_def

text \<open>An alarm on the queue of its own fires, is started again and cancelled while its first call is in work.\<close>

definition busy_alarm :: alarm_system where
  "busy_alarm = the (run_alarm_events (\<lambda>_. True)
     [A_New 0 False True, A_Start 0 10 3 True, A_Deliver 1 [0], A_Handle True 13, A_Start 0 10 14 True, A_Pop 0] no_alarms)"

definition cancelled_alarm :: alarm_system where
  "cancelled_alarm = (case Alarm_Cancel 0 15 busy_alarm of Inr (_, s) \<Rightarrow> s | _ \<Rightarrow> busy_alarm)"

lemma busy_events:
  "run_alarm_events (\<lambda>_. True)
     [A_New 0 False True, A_Start 0 10 3 True, A_Deliver 1 [0], A_Handle True 13, A_Start 0 10 14 True, A_Pop 0] no_alarms
   = Some busy_alarm"
  unfolding busy_alarm_def by (simp add: alarm_eval)

lemma busy_run: "alarm_run (\<lambda>_. True) no_alarms busy_alarm"
  by (rule run_alarm_events_run [OF busy_events alarm_refl])

lemma busy_values: "as_started busy_alarm 0 = 2" "as_ran busy_alarm 0 = 0" "as_running busy_alarm 0 = Some Call_Run"
  "Alarm_Cancel 0 15 busy_alarm = Inr (True, cancelled_alarm)" "as_ran cancelled_alarm 0 = 0"
  "as_running cancelled_alarm 0 = Some Call_Run" "as_alarms cancelled_alarm 0 \<noteq> None" "enabled (A_Invoke 0 True 16) busy_alarm"
  by (simp_all add: busy_alarm_def cancelled_alarm_def alarm_eval)

lemma Alarm_accounted_witness:
  "as_started busy_alarm 0 = as_ran busy_alarm 0 + as_killed busy_alarm 0 + as_lost busy_alarm 0
     + pending_runs 0 busy_alarm + armed 0 busy_alarm
   \<and> as_started busy_alarm 0 = 2 \<and> (\<exists>s'. alarm_step (A_Invoke 0 True 16) busy_alarm = Inr s')"
  using Alarm_accounted [OF busy_run, of "A_Invoke 0 True 16" 0] busy_values(1,8) by blast

lemma Alarm_Cancel_stops_witness: "\<exists>s2. alarm_run (no_start 0) cancelled_alarm s2 \<and> as_ran s2 0 = 1"
proof -
  let ?s = "Alarm_Run 0 (cancelled_alarm\<lparr>as_running := (as_running cancelled_alarm)(0 := None)\<rparr>)"
  obtain a where "as_alarms cancelled_alarm 0 = Some a" using busy_values(7) by blast
  then have step: "alarm_step (A_Invoke 0 True 16) cancelled_alarm = Inr ?s" using busy_values(6) by (simp add: invoke_def with_alarm_def)
  have run: "alarm_run (no_start 0) cancelled_alarm ?s"
    by (rule alarm_more [OF alarm_refl _ _ step]) (simp_all add: no_start_def busy_values)
  have "as_ran ?s 0 \<le> 1" using Alarm_Cancel_stops [OF busy_run busy_values(4) run] busy_values(2,3) by simp
  moreover have "as_ran ?s 0 = 1" using busy_values(5) by simp
  ultimately show ?thesis using run by blast
qed

definition rung_alarm :: alarm_system where
  "rung_alarm = the (run_alarm_events (undisturbed 0)
     [A_New 0 False True, A_Start 0 10 3 True, A_Deliver 1 [0], A_Handle True 13, A_Pop 0, A_Invoke 0 True 14] no_alarms)"

lemma Alarm_on_queue_fires_witness: "quiet 0 rung_alarm \<and> as_ran rung_alarm 0 = 1"
proof -
  have "run_alarm_events (undisturbed 0)
      [A_New 0 False True, A_Start 0 10 3 True, A_Deliver 1 [0], A_Handle True 13, A_Pop 0, A_Invoke 0 True 14] no_alarms = Some rung_alarm"
    unfolding rung_alarm_def by (simp add: alarm_eval undisturbed_def)
  then have "alarm_run (undisturbed 0) no_alarms rung_alarm" by (rule run_alarm_events_run [OF _ alarm_refl])
  moreover have "quiet 0 rung_alarm" "as_started rung_alarm 0 = 1"
    by (simp_all add: rung_alarm_def alarm_eval undisturbed_def quiet_def)
  ultimately show ?thesis using Alarm_on_queue_fires [of 0 rung_alarm] by simp
qed

text \<open>An alarm with a thread of its own that fires again while the thread is in \<^verbatim>\<open>run\<close> is lost: \<^verbatim>\<open>runthread_.start()\<close> does
  nothing, its result is not looked at, and the alarm is no longer armed.\<close>

definition deaf_alarm :: alarm_system where
  "deaf_alarm = the (run_alarm_events (\<lambda>_. True)
     [A_New 0 True True, A_Start 0 10 3 True, A_Deliver 1 [0], A_Handle True 13, A_Start 0 10 14 True, A_Deliver 2 [0], A_Handle True 24,
      A_Thread_end 0] no_alarms)"

lemma Alarm_lost_in_thread:
  "alarm_run (\<lambda>_. True) no_alarms deaf_alarm" "quiet 0 deaf_alarm" "as_started deaf_alarm 0 = 2" "as_ran deaf_alarm 0 = 1"
  "as_lost deaf_alarm 0 = 1"
proof -
  have "run_alarm_events (\<lambda>_. True)
     [A_New 0 True True, A_Start 0 10 3 True, A_Deliver 1 [0], A_Handle True 13, A_Start 0 10 14 True, A_Deliver 2 [0], A_Handle True 24,
      A_Thread_end 0] no_alarms = Some deaf_alarm"
    unfolding deaf_alarm_def by (simp add: alarm_eval)
  then show "alarm_run (\<lambda>_. True) no_alarms deaf_alarm" by (rule run_alarm_events_run [OF _ alarm_refl])
  show "quiet 0 deaf_alarm" "as_started deaf_alarm 0 = 2" "as_ran deaf_alarm 0 = 1" "as_lost deaf_alarm 0 = 1"
    by (simp_all add: deaf_alarm_def alarm_eval quiet_def)
qed

end
