(* ===== verification/Inet_Text.thy ===== *)
theory Inet_Text
  imports Cpp_String
begin

text \<open>
  The text of addresses in src/mars/comm/socket/unix_socket.cc: \<^verbatim>\<open>socket_inet_pton\<close> and \<^verbatim>\<open>socket_inet_ntop\<close>, which replace the
  calls that Windows lacks. A C string is the list of its characters before the final NUL; an IPv4 address is its four bytes, an
  IPv6 address its eight groups in host order (what \<^verbatim>\<open>ntohs\<close> gives of \<^verbatim>\<open>as_shorts\<close>). A pointer into an address is an index,
  which may run out of the array; a write there is the fault \<open>Out_Of_Bounds\<close>.
\<close>

type_synonym groups = "16 word list"

section \<open>IPv4\<close>

record pton4_state =
  p4_tmp :: bytes
  p4_tp :: nat
  p4_saw_digit :: bool
  p4_octets :: nat

text \<open>\<open>octet_write\<close>: \<^verbatim>\<open>*tp = b\<close>. \<^verbatim>\<open>tmp\<close> is read only where it was written.\<close>

definition octet_write :: "byte \<Rightarrow> pton4_state \<Rightarrow> pton4_state result" where
  "octet_write b st =
     (if p4_tp st < length (p4_tmp st) then Inr (st\<lparr>p4_tmp := (p4_tmp st)[p4_tp st := b]\<rparr>) else Inl Out_Of_Bounds)"

fun pton4_loop :: "string \<Rightarrow> pton4_state \<Rightarrow> pton4_state option result" where
  "pton4_loop [] st = Inr (Some st)"
| "pton4_loop (ch # src) st =
     (if isdigit ch then
        let newNum = unat (p4_tmp st ! p4_tp st) * 10 + (of_char ch - 48) in
        if newNum > 255 then Inr None
        else rbind (octet_write (of_nat newNum) st) (\<lambda>st.
          if p4_saw_digit st then pton4_loop src st
          else if p4_octets st + 1 > 4 then Inr None
          else pton4_loop src (st\<lparr>p4_octets := p4_octets st + 1, p4_saw_digit := True\<rparr>))
      else if ch = CHR ''.'' \<and> p4_saw_digit st then
        if p4_octets st = 4 then Inr None
        else rbind (octet_write 0 (st\<lparr>p4_tp := p4_tp st + 1\<rparr>)) (\<lambda>st. pton4_loop src (st\<lparr>p4_saw_digit := False\<rparr>))
      else Inr None)"

definition socket_inet_pton4 :: "string \<Rightarrow> bytes option result" where
  "socket_inet_pton4 src =
     rbind (pton4_loop src \<lparr>p4_tmp = [0, 0, 0, 0], p4_tp = 0, p4_saw_digit = False, p4_octets = 0\<rparr>) (\<lambda>r.
       case r of None \<Rightarrow> Inr None | Some st \<Rightarrow> if p4_octets st < 4 then Inr None else Inr (Some (p4_tmp st)))"

definition octet_text :: "nat \<Rightarrow> string" where
  "octet_text n0 =
     (let (hs, n, nz) = (if n0 div 100 > 0 then ([char_of (48 + n0 div 100)], n0 mod 100, True) else ([], n0, False));
          (ts, n) = (if nz \<or> n div 10 > 0 then ([char_of (48 + n div 10)], n mod 10) else ([], n))
      in hs @ ts @ [char_of (48 + n)])"

definition inet_ntop_v4 :: "bytes \<Rightarrow> nat \<Rightarrow> string option" where
  "inet_ntop_v4 src size_of_dst =
     (if size_of_dst < 16 then None
      else Some (concat (map (\<lambda>i. octet_text (unat (src ! i)) @ (if i \<noteq> 3 then ''.'' else '''')) [0..<4])))"

section \<open>Reading an IPv6 address\<close>

text \<open>
  \<^verbatim>\<open>sscanf(s, "%hx%n", &word, &n)\<close>: white space, a sign, \<^verbatim>\<open>0x\<close>, hexadecimal digits. What is stored for a number that does not
  fit into 16 bits the standard leaves open: the argument \<open>unfit\<close>.
\<close>

definition scan_sign :: "string \<Rightarrow> bool \<times> string" where
  "scan_sign s = (case s of c # cs \<Rightarrow> if c = CHR ''-'' then (True, cs) else if c = CHR ''+'' then (False, cs) else (False, s) | [] \<Rightarrow> (False, []))"

definition scan_0x :: "string \<Rightarrow> string" where
  "scan_0x s = (case s of z # x # cs \<Rightarrow> if z = CHR ''0'' \<and> (x = CHR ''x'' \<or> x = CHR ''X'') then cs else s | _ \<Rightarrow> s)"

definition sscanf_hx :: "(string \<Rightarrow> 16 word) \<Rightarrow> string \<Rightarrow> (16 word \<times> nat) option" where
  "sscanf_hx unfit s =
     (let (neg, t) = scan_sign (dropWhile isspace s);
          u = scan_0x t;
          ds = takeWhile (\<lambda>c. hexval c \<noteq> None) u;
          n = hex_run ds 0 in
      if ds = [] then None
      else Some (if n < 65536 \<and> (\<not> neg \<or> n = 0) then of_nat n else unfit s, length s - length u + length ds))"

lemma sscanf_hx_progress: "sscanf_hx unfit s = Some (w, n) \<Longrightarrow> 0 < n"
  by (auto simp: sscanf_hx_def Let_def split: prod.splits if_splits)

definition strchr :: "string \<Rightarrow> char \<Rightarrow> string option" where
  "strchr s c = (case dropWhile (\<lambda>x. x \<noteq> c) s of [] \<Rightarrow> None | t \<Rightarrow> Some t)"

record pton6_state =
  p6_addr :: groups
  p6_cursor :: int
  p6_seencompressed :: bool

definition group_write :: "16 word \<Rightarrow> pton6_state \<Rightarrow> pton6_state result" where
  "group_write w st =
     (if 0 \<le> p6_cursor st \<and> p6_cursor st < int (length (p6_addr st))
      then Inr (st\<lparr>p6_addr := (p6_addr st)[nat (p6_cursor st) := w]\<rparr>) else Inl Out_Of_Bounds)"

function pton6_loop :: "(string \<Rightarrow> 16 word) \<Rightarrow> string \<Rightarrow> pton6_state \<Rightarrow> (string \<times> pton6_state) option result" where
  "pton6_loop unfit rc st =
     (if rc = [] \<or> \<not> p6_cursor st < 8 then Inr (Some (rc, st))
      else if hd rc = CHR '':'' then
        if tl rc \<noteq> [] \<and> hd (tl rc) = CHR '':'' then
          if p6_seencompressed st then Inr None
          else
            let rc' = tl (tl rc) in
            if rc' = [] then pton6_loop unfit rc' (st\<lparr>p6_cursor := 8\<rparr>)
            else
              let coloncount = length (filter (\<lambda>c. c = CHR '':'') rc') in
              pton6_loop unfit rc' (st\<lparr>p6_cursor := 8 - (int coloncount + 1), p6_seencompressed := True\<rparr>)
        else pton6_loop unfit (tl rc) st
      else
        case sscanf_hx unfit rc of
          None \<Rightarrow> Inr None
        | Some (word, bytesread) \<Rightarrow>
            rbind (group_write word st) (\<lambda>st.
              let st = st\<lparr>p6_cursor := p6_cursor st + 1\<rparr>; rc' = drop bytesread rc in
              if rc' \<noteq> [] \<and> hd rc' \<noteq> CHR '':'' then Inr None else pton6_loop unfit rc' st))"
  by pat_completeness auto
termination
  by (relation "measure (\<lambda>(_, rc, _). length rc)") (auto simp: neq_Nil_conv dest: sscanf_hx_progress)

declare pton6_loop.simps [simp del]

text \<open>The groups of four bytes.\<close>

definition join_bytes :: "byte \<Rightarrow> byte \<Rightarrow> 16 word" where
  "join_bytes a b = of_nat (unat a * 256 + unat b)"

definition put_v4 :: "groups \<Rightarrow> bytes \<Rightarrow> groups" where
  "put_v4 g b = g[6 := join_bytes (b ! 0) (b ! 1), 7 := join_bytes (b ! 2) (b ! 3)]"

definition pton6_mapped :: "(string \<Rightarrow> 16 word) \<Rightarrow> string \<Rightarrow> groups option result" where
  "pton6_mapped unfit addrstart =
     (let zero = replicate 8 0;
          v4 = (\<lambda>g t. rbind (socket_inet_pton4 t) (\<lambda>r. Inr (case r of None \<Rightarrow> None | Some b \<Rightarrow> Some (put_v4 g b)))) in
      case strchr addrstart CHR '':'' of
        None \<Rightarrow> v4 zero addrstart
      | Some colon \<Rightarrow>
          (case sscanf_hx unfit addrstart of
             Some (a_short, bytesread) \<Rightarrow>
               if a_short \<noteq> 0xFFFF \<or> bytesread \<noteq> 4 then Inr None else v4 (zero[5 := 0xFFFF]) (tl colon)
           | None \<Rightarrow> Inr None))"

definition socket_inet_pton6 :: "(string \<Rightarrow> 16 word) \<Rightarrow> string \<Rightarrow> groups option result" where
  "socket_inet_pton6 unfit src =
     (if CHR ''x'' \<in> set src then Inr None
      else if take 2 src = ''::'' \<and> drop 2 src \<noteq> [] \<and> CHR ''.'' \<in> set (drop 2 src) then pton6_mapped unfit (drop 2 src)
      else
        rbind (pton6_loop unfit src \<lparr>p6_addr = replicate 8 0, p6_cursor = 0, p6_seencompressed = False\<rparr>) (\<lambda>r.
          case r of
            None \<Rightarrow> Inr None
          | Some (rc, st) \<Rightarrow> if rc \<noteq> [] \<or> p6_cursor st < 8 then Inr None else Inr (Some (p6_addr st))))"

section \<open>Printing an IPv6 address\<close>

text \<open>The runs of zeros: \<^verbatim>\<open>runpos\<close> holds for each group its place in its run, \<open>- 1\<close> outside runs.\<close>

record zero_runs =
  zr_runpos :: "int list"
  zr_current :: int
  zr_max :: int
  zr_maxpos :: int

definition mark_zero :: "bool \<Rightarrow> nat \<Rightarrow> zero_runs \<Rightarrow> zero_runs" where
  "mark_zero is_zero i z =
     (if is_zero then
        (let z = z\<lparr>zr_runpos := (zr_runpos z)[i := zr_current z]\<rparr>;
             z = (if zr_current z > zr_max z then z\<lparr>zr_maxpos := int i, zr_max := zr_current z\<rparr> else z)
         in z\<lparr>zr_current := zr_current z + 1\<rparr>)
      else z\<lparr>zr_runpos := (zr_runpos z)[i := - 1], zr_current := 1\<rparr>)"

definition mark_zeros :: "bool list \<Rightarrow> zero_runs" where
  "mark_zeros zs = fold (\<lambda>i. mark_zero (zs ! i) i) [0..<8]
     \<lparr>zr_runpos = replicate 8 0, zr_current = 1, zr_max = 1, zr_maxpos = - 1\<rparr>"

text \<open>Back through the groups: all but the longest run become \<open>- 1\<close>.\<close>

definition keep_longest :: "zero_runs \<Rightarrow> int list" where
  "keep_longest z =
     (if zr_max z > 1 then
        fst (fold (\<lambda>i (runpos, tmpmax).
              if int i > tmpmax then (runpos[i := - 1], tmpmax)
              else if runpos ! i = - 1 then (runpos, - 1)
              else (runpos, tmpmax)) (rev [0..<8]) (zr_runpos z, zr_maxpos z))
      else zr_runpos z)"

text \<open>The pieces of the text: the number of a group, or a colon.\<close>

datatype piece = Group nat | Colon

function print_pieces :: "int list \<Rightarrow> nat \<Rightarrow> nat \<Rightarrow> piece list" where
  "print_pieces runpos mx i =
     (if i < 8 then
        if runpos ! i = - 1 then
          Group i # (if i \<noteq> 7 \<and> runpos ! (i + 1) \<noteq> 1 then [Colon] else []) @ print_pieces runpos mx (i + 1)
        else if runpos ! i = 1 then Colon # Colon # print_pieces runpos mx (i + (mx - 1) + 1)
        else print_pieces runpos mx (i + 1)
      else [])"
  by pat_completeness auto
termination by (relation "measure (\<lambda>(_, _, i). 8 - i)") auto

declare print_pieces.simps [simp del]

definition piece_text :: "groups \<Rightarrow> piece \<Rightarrow> string" where
  "piece_text g p = (case p of Group i \<Rightarrow> hexdigits (unat (g ! i)) | Colon \<Rightarrow> '':'')"

definition split_bytes :: "16 word \<Rightarrow> bytes" where
  "split_bytes w = [of_nat (unat w div 256), of_nat (unat w mod 256)]"

definition INET6_ADDRSTRLEN :: nat where "INET6_ADDRSTRLEN = 46"

definition inet_ntop_v6 :: "groups \<Rightarrow> nat \<Rightarrow> string option" where
  "inet_ntop_v6 g size_of_dst =
     (if size_of_dst < INET6_ADDRSTRLEN then None
      else
        let z = mark_zeros (map (\<lambda>w. w = 0) g); runpos = keep_longest z in
        if runpos ! 0 = 1 \<and> (zr_maxpos z = 5 \<or> zr_maxpos z = 4 \<and> g ! 5 = 0xFFFF) then
          let cursor = ''::'' @ (if zr_maxpos z = 4 then ''ffff:'' else []) in
          Some (cursor @ (case inet_ntop_v4 (split_bytes (g ! 6) @ split_bytes (g ! 7)) (INET6_ADDRSTRLEN - length cursor) of
            Some t \<Rightarrow> t | None \<Rightarrow> []))
        else Some (concat (map (piece_text g) (print_pieces runpos (nat (zr_max z)) 0))))"

section \<open>The two families\<close>

datatype address_family = AF_INET | AF_INET6 | AF_OTHER
datatype address = V4 bytes | V6 groups

definition socket_inet_pton :: "(string \<Rightarrow> 16 word) \<Rightarrow> address_family \<Rightarrow> string \<Rightarrow> address option result" where
  "socket_inet_pton unfit af src = (case af of
     AF_INET \<Rightarrow> rbind (socket_inet_pton4 src) (\<lambda>r. Inr (map_option V4 r))
   | AF_INET6 \<Rightarrow> rbind (socket_inet_pton6 unfit src) (\<lambda>r. Inr (map_option V6 r))
   | AF_OTHER \<Rightarrow> Inr None)"

definition socket_inet_ntop :: "address \<Rightarrow> nat \<Rightarrow> string option" where
  "socket_inet_ntop src size_of_dst = (case src of V4 b \<Rightarrow> inet_ntop_v4 b size_of_dst | V6 g \<Rightarrow> inet_ntop_v6 g size_of_dst)"

end
