(* ===== verification/Inet_Props.thy ===== *)
theory Inet_Props
  imports Inet_Text
begin

text \<open>
  What \<^verbatim>\<open>socket_inet_pton\<close> accepts, that it reads what \<^verbatim>\<open>socket_inet_ntop\<close> prints, and where both fail: an address with two
  single zeros is printed with two \<^verbatim>\<open>::\<close>, and a text with more than eight groups behind a \<^verbatim>\<open>::\<close> is written in front of the
  address.
\<close>

section \<open>IPv4: exactly the dotted quads\<close>

fun split_dots :: "string \<Rightarrow> string list" where
  "split_dots [] = [[]]"
| "split_dots (c # cs) = (if c = CHR ''.'' then [] # split_dots cs else (c # hd (split_dots cs)) # tl (split_dots cs))"

definition octet_ok :: "string \<Rightarrow> bool" where
  "octet_ok p \<longleftrightarrow> p \<noteq> [] \<and> list_all isdigit p \<and> dec_run p 0 \<le> 255"

definition octet_value :: "string \<Rightarrow> byte" where
  "octet_value p = of_nat (dec_run p 0)"

lemma split_dots_nonempty [simp]: "split_dots s \<noteq> []"
  by (cases s) simp_all

lemma dec_run_mono: "v \<le> dec_run p v"
proof (induction p arbitrary: v)
  case (Cons c p)
  have "v \<le> v * 10 + (of_char c - 48)" by simp
  with Cons.IH [of "v * 10 + (of_char c - 48)"] show ?case by simp
qed simp

definition pton4_end :: "pton4_state option result \<Rightarrow> bytes option result" where
  "pton4_end r = rbind r (\<lambda>r. case r of None \<Rightarrow> Inr None | Some st \<Rightarrow> if p4_octets st < 4 then Inr None else Inr (Some (p4_tmp st)))"

lemma pton4_end_simps [simp]:
  "pton4_end (Inr None) = Inr None" "pton4_end (Inr (Some st)) = (if p4_octets st < 4 then Inr None else Inr (Some (p4_tmp st)))"
  by (simp_all add: pton4_end_def)

lemma isdigit_dot: "\<not> isdigit CHR ''.''"
  by (simp add: isdigit_def)

text \<open>The loop with \<open>k\<close> bytes done and the number \<open>v\<close> so far in the byte it is at.\<close>

lemma pton4_loop_result:
  assumes "p4_tp st = k" "k \<le> 3" "length (p4_tmp st) = 4" "p4_tmp st ! k = of_nat v" "v \<le> 255"
    and "p4_octets st = k + (if p4_saw_digit st then 1 else 0)"
  shows "pton4_end (pton4_loop s st) = Inr
    (if list_all isdigit (hd (split_dots s)) \<and> (p4_saw_digit st \<or> hd (split_dots s) \<noteq> []) \<and> dec_run (hd (split_dots s)) v \<le> 255
        \<and> list_all octet_ok (tl (split_dots s)) \<and> k + length (tl (split_dots s)) = 3
     then Some (take k (p4_tmp st) @ of_nat (dec_run (hd (split_dots s)) v) # map octet_value (tl (split_dots s))) else None)"
  using assms
proof (induction s arbitrary: st k v)
  case Nil
  have "take k (p4_tmp st) @ [of_nat v] = take (Suc k) (p4_tmp st)"
    using Nil.prems by (simp add: take_Suc_conv_app_nth)
  then show ?case using Nil.prems by auto
next
  case (Cons c s)
  have len: "k < length (p4_tmp st)" using Cons.prems by simp
  consider (digit) "isdigit c" | (dot) "c = CHR ''.''" "p4_saw_digit st" | (bad) "\<not> isdigit c" "c = CHR ''.'' \<longrightarrow> \<not> p4_saw_digit st"
    using isdigit_dot by blast
  then show ?case
  proof cases
    case digit
    then have c: "c \<noteq> CHR ''.''" using isdigit_dot by blast
    let ?n = "v * 10 + (of_char c - 48)"
    have v: "unat (p4_tmp st ! k) = v" using Cons.prems by (simp add: unat_of_nat)
    show ?thesis
    proof (cases "?n \<le> 255")
      case False
      then have "\<not> dec_run (hd (split_dots s)) ?n \<le> 255" using dec_run_mono [of ?n "hd (split_dots s)"] by linarith
      with False digit c v Cons.prems(1) show ?thesis by (simp add: Let_def)
    next
      case True
      let ?st = "st\<lparr>p4_tmp := (p4_tmp st)[k := of_nat ?n]\<rparr>"
      let ?st' = "if p4_saw_digit st then ?st else ?st\<lparr>p4_octets := p4_octets st + 1, p4_saw_digit := True\<rparr>"
      have step: "pton4_loop (c # s) st = pton4_loop s ?st'"
        using True digit v len Cons.prems(1,2,6) by (auto simp: Let_def octet_write_def)
      have "pton4_end (pton4_loop s ?st') = Inr
        (if list_all isdigit (hd (split_dots s)) \<and> (p4_saw_digit ?st' \<or> hd (split_dots s) \<noteq> []) \<and> dec_run (hd (split_dots s)) ?n \<le> 255
            \<and> list_all octet_ok (tl (split_dots s)) \<and> k + length (tl (split_dots s)) = 3
         then Some (take k (p4_tmp ?st') @ of_nat (dec_run (hd (split_dots s)) ?n) # map octet_value (tl (split_dots s))) else None)"
        by (rule Cons.IH) (use True len Cons.prems in auto)
      then show ?thesis unfolding step using c digit by (simp add: if_distrib [of p4_saw_digit] if_distrib [of p4_tmp] cong: if_cong)
    qed
  next
    case dot
    show ?thesis
    proof (cases "k = 3")
      case True
      then have "k + length (split_dots s) \<noteq> 3" by simp
      then show ?thesis using dot True Cons.prems isdigit_dot by simp
    next
      case False
      let ?st = "st\<lparr>p4_tp := k + 1, p4_tmp := (p4_tmp st)[k + 1 := 0], p4_saw_digit := False\<rparr>"
      have k: "k + 1 < 4" using False Cons.prems(2) by simp
      have step: "pton4_loop (c # s) st = pton4_loop s ?st"
        using dot k Cons.prems isdigit_dot by (simp add: octet_write_def)
      have "pton4_end (pton4_loop s ?st) = Inr
        (if list_all isdigit (hd (split_dots s)) \<and> (p4_saw_digit ?st \<or> hd (split_dots s) \<noteq> []) \<and> dec_run (hd (split_dots s)) 0 \<le> 255
            \<and> list_all octet_ok (tl (split_dots s)) \<and> k + 1 + length (tl (split_dots s)) = 3
         then Some (take (k + 1) (p4_tmp ?st) @ of_nat (dec_run (hd (split_dots s)) 0) # map octet_value (tl (split_dots s))) else None)"
        by (rule Cons.IH) (use dot k Cons.prems in auto)
      moreover obtain q qs where q: "split_dots s = q # qs" by (cases "split_dots s") simp_all
      moreover have "take (k + 1) (p4_tmp ?st) = take k (p4_tmp st) @ [of_nat v]"
        using len Cons.prems(4) by (simp add: take_Suc_conv_app_nth)
      ultimately show ?thesis unfolding step using dot Cons.prems(5)
        by (auto simp: octet_ok_def [of q] octet_value_def [of q])
    qed
  next
    case bad
    then show ?thesis by auto
  qed
qed

lemma pton4_parts:
  assumes q: "split_dots s = q # qs"
  shows "socket_inet_pton4 s = Inr (if octet_ok q \<and> list_all octet_ok qs \<and> length qs = 3
    then Some (octet_value q # map octet_value qs) else None)"
proof -
  let ?st = "\<lparr>p4_tmp = [0, 0, 0, 0], p4_tp = 0, p4_saw_digit = False, p4_octets = 0\<rparr>"
  have "socket_inet_pton4 s = pton4_end (pton4_loop s ?st)" by (simp add: socket_inet_pton4_def pton4_end_def)
  also have "\<dots> = Inr
    (if list_all isdigit (hd (split_dots s)) \<and> (p4_saw_digit ?st \<or> hd (split_dots s) \<noteq> []) \<and> dec_run (hd (split_dots s)) 0 \<le> 255
        \<and> list_all octet_ok (tl (split_dots s)) \<and> 0 + length (tl (split_dots s)) = 3
     then Some (take 0 (p4_tmp ?st) @ of_nat (dec_run (hd (split_dots s)) 0) # map octet_value (tl (split_dots s))) else None)"
    by (rule pton4_loop_result) simp_all
  finally have end_: "socket_inet_pton4 s = \<dots>" .
  show ?thesis unfolding end_ q by (auto simp: octet_ok_def [of q] octet_value_def [of q])
qed

text \<open>Socket_inet_pton4 accepts exactly the four decimal numbers up to 255 with dots between them, and gives their values; it
  never writes outside its four bytes.\<close>

theorem socket_inet_pton4_exact:
  "socket_inet_pton4 s = Inr (if length (split_dots s) = 4 \<and> list_all octet_ok (split_dots s)
     then Some (map octet_value (split_dots s)) else None)"
proof -
  obtain q qs where "split_dots s = q # qs" by (cases "split_dots s") simp_all
  then show ?thesis by (auto simp: pton4_parts)
qed

section \<open>Printed IPv4 addresses are read back\<close>

lemma octet_text_digits: "n < 256 \<Longrightarrow> octet_text n = digits n"
proof -
  assume n: "n < 256"
  consider "n < 10" | "10 \<le> n" "n < 100" | "100 \<le> n" by linarith
  then show ?thesis
  proof cases
    case 1
    then show ?thesis by (simp add: octet_text_def digits.simps [of n])
  next
    case 2
    then have "n div 10 < 10" "0 < n div 10" "n div 100 = 0" by simp_all
    with 2 show ?thesis by (simp add: octet_text_def digits.simps [of n] digits.simps [of "n div 10"])
  next
    case 3
    have "n div 100 < 10" "0 < n div 100" "n div 10 div 10 = n div 100" "\<not> n div 10 < 10" "\<not> n < 10"
      using 3 n by (simp_all add: div_mult2_eq [symmetric])
    moreover have "n mod 100 div 10 = n div 10 mod 10" "n mod 100 mod 10 = n mod 10"
      using mod_mult2_eq [of n 10 10] by (simp_all add: mod_mod_cancel)
    ultimately show ?thesis
      by (simp add: octet_text_def Let_def digits.simps [of n] digits.simps [of "n div 10"] digits.simps [of "n div 100"])
  qed
qed

lemma split_dots_digits: "split_dots (digits n @ CHR ''.'' # s) = digits n # split_dots s" "split_dots (digits n) = [digits n]"
proof -
  have "split_dots (p @ CHR ''.'' # s) = p # split_dots s \<and> split_dots p = [p]" if "CHR ''.'' \<notin> set p" for p
    using that by (induction p) auto
  moreover have "CHR ''.'' \<notin> set (digits n)" using digits_isdigit isdigit_dot by blast
  ultimately show "split_dots (digits n @ CHR ''.'' # s) = digits n # split_dots s" "split_dots (digits n) = [digits n]" by blast+
qed

lemma octet_byte: "octet_ok (digits (unat b))" "octet_value (digits (unat b)) = (b :: byte)"
  using dec_run_digits [of "unat b"] unat_byte_le [of b] digits_isdigit
  by (auto simp: octet_ok_def octet_value_def list_all_iff)

definition v4_text :: "bytes \<Rightarrow> string" where
  "v4_text b = digits (unat (b ! 0)) @ ''.'' @ digits (unat (b ! 1)) @ ''.'' @ digits (unat (b ! 2)) @ ''.'' @ digits (unat (b ! 3))"

lemma inet_ntop_v4_text: "16 \<le> n \<Longrightarrow> inet_ntop_v4 b n = Some (v4_text b)"
  by (simp add: inet_ntop_v4_def v4_text_def octet_text_digits unat_byte_less upt_rec numeral_2_eq_2 numeral_3_eq_3)

lemma pton4_v4_text: "length b = 4 \<Longrightarrow> socket_inet_pton4 (v4_text b) = Inr (Some b)"
proof -
  assume "length b = 4"
  then have "b = [b ! 0, b ! 1, b ! 2, b ! 3]"
    by (intro nth_equalityI) (auto simp: less_Suc_eq numeral_eq_Suc)
  moreover have "split_dots (v4_text b) = [digits (unat (b ! 0)), digits (unat (b ! 1)), digits (unat (b ! 2)), digits (unat (b ! 3))]"
    by (simp add: v4_text_def split_dots_digits)
  ultimately show ?thesis by (simp add: pton4_parts octet_byte)
qed

lemma digits_length: "n < 256 \<Longrightarrow> length (digits n) \<le> 3"
  by (subst octet_text_digits [symmetric]) (auto simp: octet_text_def Let_def)

lemma v4_text_length: "length (v4_text b) \<le> 15"
  using digits_length [OF unat_byte_less, of "b ! 0"] digits_length [OF unat_byte_less, of "b ! 1"]
    digits_length [OF unat_byte_less, of "b ! 2"] digits_length [OF unat_byte_less, of "b ! 3"]
  by (simp add: v4_text_def)

section \<open>The IPv6 loop on printed groups\<close>

fun groups_text :: "groups \<Rightarrow> string" where
  "groups_text [] = []"
| "groups_text [w] = hexdigits (unat w)"
| "groups_text (w # ws) = hexdigits (unat w) @ CHR '':'' # groups_text ws"

lemma hexdigits_chars: "c \<in> set (hexdigits n) \<Longrightarrow> hexval c \<noteq> None"
  using hexdigits_hexval by blast

lemma hexval_colon: "hexval CHR '':'' = None" "hexval CHR ''.'' = None" "hexval CHR ''x'' = None"
  by (simp_all add: hexval_def isdigit_def)

lemma hexdigits_not: "CHR '':'' \<notin> set (hexdigits n)" "CHR ''.'' \<notin> set (hexdigits n)" "CHR ''x'' \<notin> set (hexdigits n)"
  using hexdigits_chars hexval_colon by metis+

definition at_colon :: "string \<Rightarrow> bool" where
  "at_colon s \<longleftrightarrow> s = [] \<or> hd s = CHR '':''"

lemma sscanf_hexdigits:
  assumes "n < 65536" "at_colon s"
  shows "sscanf_hx unfit (hexdigits n @ s) = Some (of_nat n, length (hexdigits n))"
proof -
  obtain c cs where c: "hexdigits n = c # cs" by (cases "hexdigits n") auto
  obtain d where d: "hexval c = Some d" using hexdigits_chars [of c n] c by auto
  have nos: "\<not> isspace c" "c \<noteq> CHR ''-''" "c \<noteq> CHR ''+''" using hexval_not_special [OF d] by blast+
  have "scan_0x (c # cs @ s) = c # cs @ s"
  proof (cases "cs @ s")
    case (Cons x xs)
    have "x \<noteq> CHR ''x'' \<and> x \<noteq> CHR ''X''"
    proof (cases cs)
      case Nil
      then show ?thesis using Cons assms(2) by (auto simp: at_colon_def)
    next
      case (Cons y ys)
      then have "y = x" using \<open>cs @ s = x # xs\<close> by simp
      then obtain e where "hexval x = Some e" using hexdigits_chars [of x n] c Cons by auto
      then show ?thesis using hexval_not_special(4,5) by blast
    qed
    then show ?thesis using Cons by (simp add: scan_0x_def)
  qed (simp add: scan_0x_def)
  moreover have "takeWhile (\<lambda>c. hexval c \<noteq> None) (hexdigits n @ s) = hexdigits n"
  proof -
    have "takeWhile (\<lambda>c. hexval c \<noteq> None) s = []" using assms(2) hexval_colon by (cases s) (auto simp: at_colon_def)
    then show ?thesis using hexdigits_chars by (simp add: takeWhile_append2)
  qed
  ultimately show ?thesis
    using nos assms(1) hex_run_hexdigits [of n] unfolding c by (simp add: sscanf_hx_def scan_sign_def)
qed

lemma word16: "unat (w :: 16 word) < 65536"
  using unsigned_less [of w] by simp

lemma loop_group:
  assumes "p6_cursor st = int k" "k < 8" "length (p6_addr st) = 8" "at_colon s"
  shows "pton6_loop unfit (hexdigits (unat w) @ s) st = pton6_loop unfit s (st\<lparr>p6_addr := (p6_addr st)[k := w], p6_cursor := int k + 1\<rparr>)"
proof -
  obtain c cs where c: "hexdigits (unat w) = c # cs" by (cases "hexdigits (unat w)") auto
  then have "c \<noteq> CHR '':''" using hexdigits_not(1) [of "unat w"] by auto
  then show ?thesis
    using assms sscanf_hexdigits [OF word16 assms(4), of unfit w] c
    by (subst pton6_loop.simps) (auto simp: group_write_def at_colon_def Let_def)
qed

lemma loop_colon:
  assumes "p6_cursor st < 8" "s \<noteq> []" "hd s \<noteq> CHR '':''"
  shows "pton6_loop unfit (CHR '':'' # s) st = pton6_loop unfit s st"
  using assms by (subst pton6_loop.simps) simp

lemma groups_text_hd: "ws \<noteq> [] \<Longrightarrow> groups_text ws @ s \<noteq> [] \<and> hd (groups_text ws @ s) \<noteq> CHR '':''"
proof -
  assume ws: "ws \<noteq> []"
  have "\<exists>t. groups_text ws @ s = hexdigits (unat (hd ws)) @ t" using ws by (cases ws rule: groups_text.cases) auto
  then show ?thesis using hexdigits_not(1) [of "unat (hd ws)"] by (cases "hexdigits (unat (hd ws))") auto
qed

lemma loop_groups:
  assumes "ws \<noteq> []" "p6_cursor st = int k" "k + length ws \<le> 8" "length (p6_addr st) = 8" "at_colon s"
  shows "pton6_loop unfit (groups_text ws @ s) st
    = pton6_loop unfit s (st\<lparr>p6_addr := overwrite k ws (p6_addr st), p6_cursor := int (k + length ws)\<rparr>)"
  using assms
proof (induction ws arbitrary: st k rule: groups_text.induct)
  case (2 w)
  then show ?case
    using loop_group [of st k s unfit w] by (simp add: overwrite_def upd_conv_take_nth_drop add.commute)
next
  case (3 w v ws)
  let ?st = "st\<lparr>p6_addr := (p6_addr st)[k := w], p6_cursor := int k + 1\<rparr>"
  have "pton6_loop unfit (groups_text (w # v # ws) @ s) st = pton6_loop unfit (CHR '':'' # groups_text (v # ws) @ s) ?st"
    using loop_group [of st k "CHR '':'' # groups_text (v # ws) @ s" unfit w] 3 by (simp add: at_colon_def)
  also have "\<dots> = pton6_loop unfit (groups_text (v # ws) @ s) ?st"
    by (rule loop_colon) (use 3 groups_text_hd [of "v # ws" s] in auto)
  also have "\<dots> = pton6_loop unfit s (?st\<lparr>p6_addr := overwrite (k + 1) (v # ws) (p6_addr ?st), p6_cursor := int (k + 1 + length (v # ws))\<rparr>)"
    by (rule "3.IH") (use 3 in auto)
  finally have "pton6_loop unfit (groups_text (w # v # ws) @ s) st = \<dots>" .
  moreover have "overwrite (k + 1) (v # ws) ((p6_addr st)[k := w]) = overwrite k (w # v # ws) (p6_addr st)"
    using 3 by (simp add: overwrite_def take_Suc_conv_app_nth)
  ultimately show ?case by (simp add: add.commute add.left_commute)
qed simp

lemma groups_text_colons: "length (filter (\<lambda>c. c = CHR '':'') (groups_text ws)) = length ws - 1"
proof (induction ws rule: groups_text.induct)
  case (2 w)
  have "filter (\<lambda>c. c = CHR '':'') (hexdigits (unat w)) = []" using hexdigits_not(1) by (simp add: filter_empty_conv) metis
  then show ?case by simp
next
  case (3 w v ws)
  have "filter (\<lambda>c. c = CHR '':'') (hexdigits (unat w)) = []" using hexdigits_not(1) by (simp add: filter_empty_conv) metis
  then show ?case using 3 by simp
qed simp

text \<open>The \<^verbatim>\<open>::\<close> before what is left.\<close>

lemma loop_gap:
  assumes "p6_cursor st < 8" "\<not> p6_seencompressed st" "s \<noteq> []"
  shows "pton6_loop unfit (CHR '':'' # CHR '':'' # s) st
    = pton6_loop unfit s (st\<lparr>p6_cursor := 7 - int (length (filter (\<lambda>c. c = CHR '':'') s)), p6_seencompressed := True\<rparr>)"
  using assms by (subst pton6_loop.simps) (simp add: Let_def)

lemma loop_gap_end:
  assumes "p6_cursor st < 8" "\<not> p6_seencompressed st"
  shows "pton6_loop unfit ''::'' st = Inr (Some ([], st\<lparr>p6_cursor := 8\<rparr>))"
  using assms by (subst pton6_loop.simps) (simp add: Let_def pton6_loop.simps [of unfit "[]"])

lemma loop_second_gap:
  assumes "p6_cursor st < 8" "p6_seencompressed st"
  shows "pton6_loop unfit (CHR '':'' # CHR '':'' # s) st = Inr None"
  using assms by (subst pton6_loop.simps) simp

lemma loop_end: "pton6_loop unfit [] st = Inr (Some ([], st))"
  by (subst pton6_loop.simps) simp

section \<open>The shape of a printed address\<close>

fun join_pieces :: "nat list \<Rightarrow> piece list" where
  "join_pieces [] = []"
| "join_pieces [i] = [Group i]"
| "join_pieces (i # is) = Group i # Colon # join_pieces is"

definition one_gap :: "bool list \<Rightarrow> piece list \<Rightarrow> bool" where
  "one_gap zs ps \<longleftrightarrow> (\<exists>a\<in>set [0..<8]. \<exists>b\<in>set [a + 1..<9]. (\<forall>i\<in>set [a..<b]. zs ! i)
     \<and> ps = join_pieces [0..<a] @ [Colon, Colon] @ join_pieces [b..<8])"

text \<open>At most one zero, or somewhere two side by side.\<close>

definition printable6 :: "bool list \<Rightarrow> bool" where
  "printable6 zs \<longleftrightarrow> length (filter id zs) \<le> 1 \<or> (\<exists>i\<in>set [0..<7]. zs ! i \<and> zs ! (i + 1))"

definition two_gaps :: "piece list \<Rightarrow> bool" where
  "two_gaps ps \<longleftrightarrow> (\<exists>a\<in>set [0..<8]. \<exists>c\<in>set [a + 2..<8].
     let r = join_pieces [a + 1..<c] @ [Colon, Colon]; n = length (join_pieces [0..<a]) + 2 in
     take (n + length r) ps = join_pieces [0..<a] @ [Colon, Colon] @ r
     \<and> length (filter (\<lambda>p. p = Colon) (drop n ps)) \<le> 7)"

definition pieces_size :: "piece list \<Rightarrow> nat" where
  "pieces_size ps = sum_list (map (\<lambda>p. if p = Colon then 1 else 4) ps)"

definition shape_ok :: "bool list \<Rightarrow> bool" where
  "shape_ok zs \<longleftrightarrow> (let z = mark_zeros zs; r = keep_longest z; ps = print_pieces r (nat (zr_max z)) 0 in
     (if printable6 zs then ps = join_pieces [0..<8] \<or> one_gap zs ps else two_gaps ps)
     \<and> pieces_size ps \<le> 45
     \<and> (r ! 0 = 1 \<longrightarrow> zr_maxpos z = 5 \<longrightarrow> (\<forall>i\<in>set [0..<6]. zs ! i))
     \<and> (r ! 0 = 1 \<longrightarrow> zr_maxpos z = 4 \<longrightarrow> (\<forall>i\<in>set [0..<5]. zs ! i)))"

text \<open>All 256 patterns of zero groups.\<close>

lemma all_shapes_ok: "\<forall>zs \<in> set (List.n_lists 8 [True, False]). shape_ok zs"
  by code_simp

lemma shape_ok: "length zs = 8 \<Longrightarrow> shape_ok zs"
  using all_shapes_ok by (auto simp: set_n_lists)

definition pieces_text :: "groups \<Rightarrow> piece list \<Rightarrow> string" where
  "pieces_text g ps = concat (map (piece_text g) ps)"

lemma pieces_text_simps [simp]:
  "pieces_text g [] = []" "pieces_text g (p # ps) = piece_text g p @ pieces_text g ps"
  "pieces_text g (ps @ qs) = pieces_text g ps @ pieces_text g qs" "piece_text g Colon = '':''"
  by (simp_all add: pieces_text_def piece_text_def)

lemma pieces_text_join: "pieces_text g (join_pieces is) = groups_text (map ((!) g) is)"
  by (induction "is" rule: join_pieces.induct) (simp_all add: piece_text_def)

lemma pieces_text_colons: "length (filter (\<lambda>c. c = CHR '':'') (pieces_text g ps)) = length (filter (\<lambda>p. p = Colon) ps)"
proof (induction ps)
  case (Cons p ps)
  then show ?case
  proof (cases p)
    case (Group i)
    have "filter (\<lambda>c. c = CHR '':'') (hexdigits (unat (g ! i))) = []" using hexdigits_not(1) by (simp add: filter_empty_conv) metis
    then show ?thesis using Group Cons by (simp add: piece_text_def)
  qed simp
qed simp

lemma pieces_text_chars: "CHR ''.'' \<notin> set (pieces_text g ps)" "CHR ''x'' \<notin> set (pieces_text g ps)"
  using hexdigits_not(2,3) by (induction ps) (auto simp: piece_text_def split: piece.splits)

definition pton6_end :: "(string \<times> pton6_state) option result \<Rightarrow> groups option result" where
  "pton6_end r = rbind r (\<lambda>r. case r of None \<Rightarrow> Inr None
     | Some (rc, st) \<Rightarrow> if rc \<noteq> [] \<or> p6_cursor st < 8 then Inr None else Inr (Some (p6_addr st)))"

lemma pton6_end_simps [simp]: "pton6_end (Inr None) = Inr None"
  "pton6_end (Inr (Some (rc, st))) = (if rc \<noteq> [] \<or> p6_cursor st < 8 then Inr None else Inr (Some (p6_addr st)))"
  by (simp_all add: pton6_end_def)

abbreviation start6 :: pton6_state where
  "start6 \<equiv> \<lparr>p6_addr = replicate 8 0, p6_cursor = 0, p6_seencompressed = False\<rparr>"

lemma pton6_plain: "CHR ''x'' \<notin> set s \<Longrightarrow> CHR ''.'' \<notin> set s \<Longrightarrow> socket_inet_pton6 unfit s = pton6_end (pton6_loop unfit s start6)"
proof -
  assume "CHR ''x'' \<notin> set s" "CHR ''.'' \<notin> set s"
  moreover then have "CHR ''.'' \<notin> set (drop 2 s)" using in_set_dropD by metis
  ultimately show ?thesis unfolding socket_inet_pton6_def pton6_end_def by simp
qed

text \<open>What stands before the first gap.\<close>

lemma loop_before_gap:
  assumes "length ws < 8" "at_colon s"
  shows "pton6_loop unfit (groups_text ws @ s) start6
    = pton6_loop unfit s (start6\<lparr>p6_addr := ws @ replicate (8 - length ws) 0, p6_cursor := int (length ws)\<rparr>)"
proof (cases "ws = []")
  case False
  then show ?thesis using loop_groups [OF False, of start6 0 s unfit] assms by (simp add: overwrite_def)
qed (simp add: numeral_eq_Suc)

lemma pton6_all_groups: "length g = 8 \<Longrightarrow> pton6_end (pton6_loop unfit (groups_text g) start6) = Inr (Some g)"
proof -
  assume g: "length g = 8"
  then have "g \<noteq> []" by auto
  then show ?thesis using loop_groups [of g start6 0 "[]" unfit] g by (simp add: overwrite_def loop_end at_colon_def)
qed

lemma pton6_one_gap:
  assumes "length g = 8" "a < b" "b \<le> 8" "\<And>i. a \<le> i \<Longrightarrow> i < b \<Longrightarrow> g ! i = 0"
  shows "pton6_end (pton6_loop unfit (groups_text (take a g) @ ''::'' @ groups_text (drop b g)) start6) = Inr (Some g)"
proof -
  let ?st = "start6\<lparr>p6_addr := take a g @ replicate (8 - a) 0, p6_cursor := int a\<rparr>"
  have before: "pton6_loop unfit (groups_text (take a g) @ ''::'' @ groups_text (drop b g)) start6
      = pton6_loop unfit (''::'' @ groups_text (drop b g)) ?st"
    using loop_before_gap [of "take a g" "''::'' @ groups_text (drop b g)" unfit] assms(1-3) by (simp add: at_colon_def min_def)
  have zeros: "take a g @ replicate (b - a) 0 = take b g"
    by (rule nth_equalityI) (use assms in \<open>auto simp: nth_append\<close>)
  show ?thesis
  proof (cases "b = 8")
    case True
    then show ?thesis unfolding before using loop_gap_end [of ?st unfit] assms zeros by simp
  next
    case False
    let ?st2 = "?st\<lparr>p6_cursor := int b, p6_seencompressed := True\<rparr>"
    have ne: "drop b g \<noteq> []" using False assms(1,3) by simp
    then have t: "groups_text (drop b g) \<noteq> []" using groups_text_hd [of "drop b g" "[]"] by simp
    have "pton6_loop unfit (''::'' @ groups_text (drop b g)) ?st = pton6_loop unfit (groups_text (drop b g)) ?st2"
      using loop_gap [of ?st "groups_text (drop b g)" unfit] t assms False by (simp add: groups_text_colons of_nat_diff)
    also have "\<dots> = Inr (Some ([], ?st2\<lparr>p6_addr := overwrite b (drop b g) (p6_addr ?st2), p6_cursor := 8\<rparr>))"
      using loop_groups [OF ne, of ?st2 b "[]" unfit] assms(1,3) assms(2) by (simp add: at_colon_def loop_end)
    also have "overwrite b (drop b g) (p6_addr ?st2) = g"
    proof -
      have "take b (take a g @ replicate (8 - a) 0) = take a g @ replicate (b - a) (0 :: 16 word)"
        using assms by (simp add: min_def)
      then show ?thesis using zeros assms by (simp add: overwrite_def)
    qed
    finally show ?thesis unfolding before by simp
  qed
qed

lemma pton6_two_gaps:
  assumes "length us < 8" "vs \<noteq> []" "length (filter (\<lambda>c. c = CHR '':'') (groups_text vs @ ''::'' @ s)) \<le> 7"
  shows "pton6_end (pton6_loop unfit (groups_text us @ ''::'' @ groups_text vs @ ''::'' @ s) start6) = Inr None"
proof -
  let ?t = "groups_text vs @ ''::'' @ s"
  let ?st = "start6\<lparr>p6_addr := us @ replicate (8 - length us) 0, p6_cursor := int (length us)\<rparr>"
  let ?cc = "length (filter (\<lambda>c. c = CHR '':'') ?t)"
  let ?k = "7 - ?cc"
  let ?st2 = "?st\<lparr>p6_cursor := int ?k, p6_seencompressed := True\<rparr>"
  have before: "pton6_loop unfit (groups_text us @ ''::'' @ ?t) start6 = pton6_loop unfit (''::'' @ ?t) ?st"
    using loop_before_gap [of us "''::'' @ ?t" unfit] assms(1) by (simp add: at_colon_def)
  have cc: "length vs + 1 \<le> ?cc" using groups_text_colons [of vs] assms(2) by (cases vs) auto
  have "?t \<noteq> []" using groups_text_hd [OF assms(2), of "''::'' @ s"] by simp
  moreover have "int ?k = 7 - int ?cc" by (simp only: of_nat_diff [OF assms(3)] of_nat_numeral)
  ultimately have "pton6_loop unfit (''::'' @ ?t) ?st = pton6_loop unfit ?t ?st2"
    using loop_gap [of ?st ?t unfit] assms(1) by simp
  also have "\<dots> = pton6_loop unfit (''::'' @ s) (?st2\<lparr>p6_addr := overwrite ?k vs (p6_addr ?st2), p6_cursor := int (?k + length vs)\<rparr>)"
    by (rule loop_groups [OF assms(2)]) (use assms cc in \<open>auto simp: at_colon_def\<close>)
  also have "\<dots> = Inr None"
    unfolding append_Cons append_Nil by (rule loop_second_gap) (use assms(3) cc in auto)
  finally show ?thesis unfolding before by simp
qed

section \<open>What is printed is read back\<close>

lemma hexdigits_length: "length (hexdigits (unat (w :: 16 word))) \<le> 4"
proof -
  have "length (hexdigits n) \<le> k + 1" if "n < 16 ^ (k + 1)" for n k
    using that
  proof (induction k arbitrary: n)
    case 0
    then show ?case by (simp add: hexdigits.simps [of n])
  next
    case (Suc k)
    then have "n div 16 < 16 ^ (k + 1)" by (simp add: less_mult_imp_div_less mult.commute)
    with Suc.IH [of "n div 16"] show ?case by (simp add: hexdigits.simps [of n])
  qed
  from this [of "unat w" 3] word16 [of w] show ?thesis by simp
qed

lemma pieces_text_length: "length (pieces_text g ps) \<le> pieces_size ps"
proof (induction ps)
  case (Cons p ps)
  then show ?case using hexdigits_length [of "g ! i" for i] by (cases p) (auto simp: pieces_size_def piece_text_def intro: add_mono)
qed simp

definition zeros_of :: "groups \<Rightarrow> bool list" where
  "zeros_of g = map (\<lambda>w. w = 0) g"

lemma map_nth_upt: "length g = 8 \<Longrightarrow> b \<le> 8 \<Longrightarrow> map ((!) g) [b..<8] = drop b g" "length g = 8 \<Longrightarrow> a \<le> 8 \<Longrightarrow> map ((!) g) [0..<a] = take a g"
  by (auto intro: nth_equalityI)

lemma pieces_read_back:
  assumes g: "length g = 8"
  defines "z \<equiv> mark_zeros (zeros_of g)"
  defines "ps \<equiv> print_pieces (keep_longest z) (nat (zr_max z)) 0"
  shows "pton6_end (pton6_loop unfit (pieces_text g ps) start6) = Inr (if printable6 (zeros_of g) then Some g else None)"
proof -
  have len: "length (zeros_of g) = 8" using g by (simp add: zeros_of_def)
  have zero: "i < 8 \<Longrightarrow> zeros_of g ! i \<Longrightarrow> g ! i = 0" for i using g by (simp add: zeros_of_def)
  have shape: "if printable6 (zeros_of g) then ps = join_pieces [0..<8] \<or> one_gap (zeros_of g) ps else two_gaps ps"
    using shape_ok [OF len] unfolding shape_ok_def Let_def z_def ps_def by blast
  show ?thesis
  proof (cases "printable6 (zeros_of g)")
    case True
    with shape consider "ps = join_pieces [0..<8]" | "one_gap (zeros_of g) ps" by auto
    then show ?thesis
    proof cases
      case 1
      then show ?thesis using True pton6_all_groups [OF g] map_nth_upt(1) [OF g, of 0] by (simp add: pieces_text_join)
    next
      case 2
      then obtain a b where b: "b \<in> set [a + 1..<9]" and ab': "\<forall>i\<in>set [a..<b]. zeros_of g ! i"
          "ps = join_pieces [0..<a] @ [Colon, Colon] @ join_pieces [b..<8]" unfolding one_gap_def by blast
      then have ab: "a < b" "b \<le> 8" by auto
      have "pieces_text g ps = groups_text (take a g) @ ''::'' @ groups_text (drop b g)"
        using ab ab'(2) map_nth_upt [OF g] by (simp add: pieces_text_join)
      moreover have "g ! i = 0" if "a \<le> i" "i < b" for i using that ab ab'(1) zero by simp
      ultimately show ?thesis using True pton6_one_gap [OF g ab(1,2)] by simp
    qed
  next
    case False
    with shape obtain a c where ac: "a < 8" "a + 2 \<le> c" "c < 8"
        "take (length (join_pieces [0..<a]) + 2 + length (join_pieces [a + 1..<c] @ [Colon, Colon])) ps
          = join_pieces [0..<a] @ [Colon, Colon] @ join_pieces [a + 1..<c] @ [Colon, Colon]"
        "length (filter (\<lambda>p. p = Colon) (drop (length (join_pieces [0..<a]) + 2) ps)) \<le> 7"
      by (auto simp: two_gaps_def Let_def)
    then obtain qs where ps: "ps = join_pieces [0..<a] @ [Colon, Colon] @ join_pieces [a + 1..<c] @ [Colon, Colon] @ qs"
      by (metis append.assoc append_take_drop_id)
    let ?us = "map ((!) g) [0..<a]" and ?vs = "map ((!) g) [a + 1..<c]"
    have "drop (length (join_pieces [0..<a]) + 2) ps = join_pieces [a + 1..<c] @ [Colon, Colon] @ qs" unfolding ps by simp
    then have "length (filter (\<lambda>c. c = CHR '':'') (pieces_text g (join_pieces [a + 1..<c] @ [Colon, Colon] @ qs))) \<le> 7"
      using ac(5) pieces_text_colons by metis
    then have cc: "length (filter (\<lambda>c. c = CHR '':'') (groups_text ?vs @ ''::'' @ pieces_text g qs)) \<le> 7"
      by (simp add: pieces_text_join)
    have "pieces_text g ps = groups_text ?us @ ''::'' @ groups_text ?vs @ ''::'' @ pieces_text g qs"
      unfolding ps by (simp add: pieces_text_join)
    moreover have "length ?us < 8" "?vs \<noteq> []" using ac by simp_all
    ultimately show ?thesis using False pton6_two_gaps [OF _ _ cc, of ?us unfit] by simp
  qed
qed

text \<open>Addresses printed with an IPv4 tail.\<close>

lemma v4_text_chars: "CHR '':'' \<notin> set (v4_text b)" "CHR ''x'' \<notin> set (v4_text b)" "CHR ''.'' \<in> set (v4_text b)"
proof -
  have "CHR '':'' \<notin> set (digits n)" "CHR ''x'' \<notin> set (digits n)" for n
    using digits_isdigit [of "CHR '':''" n] digits_isdigit [of "CHR ''x''" n] by (auto simp: isdigit_def)
  then show "CHR '':'' \<notin> set (v4_text b)" "CHR ''x'' \<notin> set (v4_text b)" "CHR ''.'' \<in> set (v4_text b)"
    by (simp_all add: v4_text_def)
qed

lemma join_split: "join_bytes (of_nat (unat (w :: 16 word) div 256)) (of_nat (unat w mod 256)) = w"
proof -
  have "unat w div 256 < 256" using word16 [of w] by (simp add: less_mult_imp_div_less)
  then have "unat (of_nat (unat w div 256) :: byte) = unat w div 256" "unat (of_nat (unat w mod 256) :: byte) = unat w mod 256"
    by (simp_all add: unat_of_nat)
  then show ?thesis by (simp add: join_bytes_def div_mult_mod_eq)
qed

abbreviation tail4 :: "groups \<Rightarrow> bytes" where
  "tail4 g \<equiv> split_bytes (g ! 6) @ split_bytes (g ! 7)"

lemma put_tail4:
  assumes "length g = 8" "\<And>i. i < 5 \<Longrightarrow> g ! i = 0" "g ! 5 = w"
  shows "put_v4 ((replicate 8 0)[5 := w]) (tail4 g) = g"
proof -
  have "put_v4 ((replicate 8 0)[5 := w]) (tail4 g) = (replicate 8 0)[5 := w, 6 := g ! 6, 7 := g ! 7]"
    by (simp add: put_v4_def split_bytes_def join_split)
  also have "\<dots> = [0, 0, 0, 0, 0, w, g ! 6, g ! 7]" by (simp add: numeral_eq_Suc)
  also have "\<dots> = [g ! 0, g ! 1, g ! 2, g ! 3, g ! 4, g ! 5, g ! 6, g ! 7]" using assms(2,3) by simp
  also have "\<dots> = map ((!) g) [0..<8]" by (simp add: upt_rec numeral_eq_Suc)
  also have "\<dots> = g" using map_nth [of g] assms(1) by simp
  finally show ?thesis .
qed

lemma strchr_none: "c \<notin> set s \<Longrightarrow> strchr s c = None"
proof -
  assume "c \<notin> set s"
  then have "\<forall>x\<in>set s. x \<noteq> c" by blast
  then have none: "dropWhile (\<lambda>x. x \<noteq> c) s = []" unfolding dropWhile_eq_Nil_conv .
  show ?thesis unfolding strchr_def none by simp
qed

lemma pton6_compat:
  assumes "length g = 8" "\<And>i. i < 6 \<Longrightarrow> g ! i = 0"
  shows "socket_inet_pton6 unfit (''::'' @ v4_text (tail4 g)) = Inr (Some g)"
proof -
  have "pton6_mapped unfit (v4_text (tail4 g)) = Inr (Some (put_v4 (replicate 8 0) (tail4 g)))"
    by (simp add: pton6_mapped_def strchr_none v4_text_chars pton4_v4_text split_bytes_def)
  moreover have "replicate 8 0 = (replicate 8 0)[5 := (0 :: 16 word)]" by (simp add: numeral_eq_Suc)
  ultimately have "pton6_mapped unfit (v4_text (tail4 g)) = Inr (Some g)" using put_tail4 [of g 0] assms by simp
  then show ?thesis using v4_text_chars [of "tail4 g"] by (auto simp: socket_inet_pton6_def)
qed

lemma pton6_v4mapped:
  assumes "length g = 8" "\<And>i. i < 5 \<Longrightarrow> g ! i = 0" "g ! 5 = 0xFFFF"
  shows "socket_inet_pton6 unfit (''::ffff:'' @ v4_text (tail4 g)) = Inr (Some g)"
proof -
  let ?t = "CHR '':'' # v4_text (tail4 g)"
  have f: "char_of (102 :: nat) = CHR ''f''" by code_simp
  have "hexdigits 15 = ''f''" "hexdigits 255 = ''ff''" "hexdigits 4095 = ''fff''" "hexdigits 65535 = ''ffff''"
    by (simp_all add: hexdigits.simps [of 15] hexdigits.simps [of 255] hexdigits.simps [of 4095] hexdigits.simps [of 65535]
        hexdigit_def f)
  then have hex: "''ffff'' = hexdigits 65535" by simp
  have "sscanf_hx unfit (hexdigits 65535 @ ?t) = Some (of_nat 65535, length (hexdigits 65535))"
    by (rule sscanf_hexdigits) (simp_all add: at_colon_def)
  then have scan: "sscanf_hx unfit (''ffff'' @ ?t) = Some (0xFFFF, 4)" unfolding hex [symmetric] by simp
  have "strchr (''ffff'' @ ?t) CHR '':'' = Some ?t" by (simp add: strchr_def)
  then have "pton6_mapped unfit (''ffff'' @ ?t) = Inr (Some g)"
    using scan put_tail4 [OF assms(1,2) assms(3)] by (simp add: pton6_mapped_def pton4_v4_text split_bytes_def)
  then show ?thesis using v4_text_chars [of "tail4 g"] by (auto simp: socket_inet_pton6_def)
qed

lemma inet_ntop_v6_text:
  assumes g: "length g = 8" and n: "46 \<le> n"
  shows "\<exists>t. inet_ntop_v6 g n = Some t \<and> length t \<le> 45
    \<and> socket_inet_pton6 unfit t = Inr (if printable6 (zeros_of g) then Some g else None)"
proof -
  let ?z = "mark_zeros (zeros_of g)"
  let ?r = "keep_longest ?z"
  let ?ps = "print_pieces ?r (nat (zr_max ?z)) 0"
  have len: "length (zeros_of g) = 8" using g by (simp add: zeros_of_def)
  note shape = shape_ok [OF len, unfolded shape_ok_def Let_def]
  have zero: "i < 8 \<Longrightarrow> zeros_of g ! i \<Longrightarrow> g ! i = 0" for i using g by (simp add: zeros_of_def)
  have pair: "printable6 (zeros_of g)" if "\<forall>i\<in>set [0..<5]. zeros_of g ! i" using that by (auto simp: printable6_def intro!: bexI [of _ 0])
  have printed: "inet_ntop_v6 g n = Some (if ?r ! 0 = 1 \<and> (zr_maxpos ?z = 5 \<or> zr_maxpos ?z = 4 \<and> g ! 5 = 0xFFFF)
      then ''::'' @ (if zr_maxpos ?z = 4 then ''ffff:'' else []) @ v4_text (tail4 g) else pieces_text g ?ps)"
    using n by (auto simp: inet_ntop_v6_def INET6_ADDRSTRLEN_def Let_def zeros_of_def inet_ntop_v4_text pieces_text_def)
  consider (compat) "?r ! 0 = 1" "zr_maxpos ?z = 5" | (mapped) "?r ! 0 = 1" "zr_maxpos ?z = 4" "g ! 5 = 0xFFFF"
    | (plain) "\<not> (?r ! 0 = 1 \<and> (zr_maxpos ?z = 5 \<or> zr_maxpos ?z = 4 \<and> g ! 5 = 0xFFFF))" by blast
  then show ?thesis
  proof cases
    case compat
    then have z: "\<forall>i\<in>set [0..<6]. zeros_of g ! i" using shape by blast
    then have "g ! i = 0" if "i < 6" for i using that zero by simp
    moreover have "printable6 (zeros_of g)" using z by (intro pair) simp
    ultimately show ?thesis using printed compat pton6_compat [OF g] v4_text_length [of "tail4 g"] by simp
  next
    case mapped
    then have z: "\<forall>i\<in>set [0..<5]. zeros_of g ! i" using shape by blast
    then have "g ! i = 0" if "i < 5" for i using that zero by simp
    then show ?thesis using printed mapped pair [OF z] pton6_v4mapped [OF g _ mapped(3)] v4_text_length [of "tail4 g"] by simp
  next
    case plain
    have "length (pieces_text g ?ps) \<le> 45" using pieces_text_length [of g ?ps] shape by linarith
    moreover have "socket_inet_pton6 unfit (pieces_text g ?ps) = pton6_end (pton6_loop unfit (pieces_text g ?ps) start6)"
      by (rule pton6_plain) (rule pieces_text_chars)+
    ultimately show ?thesis using printed plain pieces_read_back [OF g, of unfit] by auto
  qed
qed

text \<open>C24: what socket_inet_ntop prints fits into the buffer it asks for, and socket_inet_pton reads it back: every IPv4 address,
  and every IPv6 address that has at most one zero group, or somewhere two zero groups side by side. An IPv6 address with several
  zero groups, no two of them side by side, is printed with several double colons, and socket_inet_pton refuses the text.\<close>

theorem socket_inet_roundtrip:
  "(length b = 4 \<longrightarrow> (\<exists>t. socket_inet_ntop (V4 b) 16 = Some t \<and> length t < 16
      \<and> socket_inet_pton unfit AF_INET t = Inr (Some (V4 b))))
   \<and> (length g = 8 \<longrightarrow> (\<exists>t. socket_inet_ntop (V6 g) INET6_ADDRSTRLEN = Some t \<and> length t < INET6_ADDRSTRLEN
      \<and> socket_inet_pton unfit AF_INET6 t = Inr (if printable6 (map (\<lambda>w. w = 0) g) then Some (V6 g) else None)))"
proof (intro conjI impI)
  assume "length b = 4"
  then show "\<exists>t. socket_inet_ntop (V4 b) 16 = Some t \<and> length t < 16 \<and> socket_inet_pton unfit AF_INET t = Inr (Some (V4 b))"
    using v4_text_length [of b] by (simp add: socket_inet_ntop_def socket_inet_pton_def inet_ntop_v4_text pton4_v4_text)
next
  assume "length g = 8"
  from inet_ntop_v6_text [OF this, of INET6_ADDRSTRLEN unfit]
  obtain t where "inet_ntop_v6 g INET6_ADDRSTRLEN = Some t" "length t \<le> 45"
      "socket_inet_pton6 unfit t = Inr (if printable6 (zeros_of g) then Some g else None)" by (auto simp: INET6_ADDRSTRLEN_def)
  then show "\<exists>t. socket_inet_ntop (V6 g) INET6_ADDRSTRLEN = Some t \<and> length t < INET6_ADDRSTRLEN
      \<and> socket_inet_pton unfit AF_INET6 t = Inr (if printable6 (map (\<lambda>w. w = 0) g) then Some (V6 g) else None)"
    by (intro exI [of _ t]) (simp add: socket_inet_ntop_def socket_inet_pton_def INET6_ADDRSTRLEN_def zeros_of_def)
qed

theorem socket_inet_roundtrip_witness:
  "\<exists>t. socket_inet_ntop (V6 [0x2001, 0xDB8, 0, 0, 0, 0, 0, 1]) INET6_ADDRSTRLEN = Some t
    \<and> socket_inet_pton (\<lambda>_. 0) AF_INET6 t = Inr (Some (V6 [0x2001, 0xDB8, 0, 0, 0, 0, 0, 1]))"
  using socket_inet_roundtrip [of "[]" "\<lambda>_. 0" "[0x2001, 0xDB8, 0, 0, 0, 0, 0, 1]"] by (auto simp: printable6_def upt_rec)

section \<open>Out of the address\<close>

lemma pton4_returns: "\<exists>r. socket_inet_pton4 s = Inr r"
  by (cases "split_dots s") (auto simp: pton4_parts)

abbreviation colons :: "string \<Rightarrow> nat" where
  "colons s \<equiv> length (filter (\<lambda>c. c = CHR '':'') s)"

lemma colons_drop: "colons (drop n s) \<le> colons s"
proof -
  have "colons s = colons (take n s) + colons (drop n s)" by (metis append_take_drop_id filter_append length_append)
  then show ?thesis by simp
qed

lemma loop_single_colon:
  "p6_cursor st < 8 \<Longrightarrow> cs = [] \<or> hd cs \<noteq> CHR '':'' \<Longrightarrow> pton6_loop unfit (CHR '':'' # cs) st = pton6_loop unfit cs st"
  by (subst pton6_loop.simps) auto

lemma loop_group_step:
  "p6_cursor st < 8 \<Longrightarrow> c \<noteq> CHR '':'' \<Longrightarrow> pton6_loop unfit (c # cs) st = (case sscanf_hx unfit (c # cs) of
     None \<Rightarrow> Inr None
   | Some (w, n) \<Rightarrow> rbind (group_write w st) (\<lambda>st.
       if drop n (c # cs) \<noteq> [] \<and> hd (drop n (c # cs)) \<noteq> CHR '':'' then Inr None
       else pton6_loop unfit (drop n (c # cs)) (st\<lparr>p6_cursor := p6_cursor st + 1\<rparr>)))"
  by (subst pton6_loop.simps) (simp add: Let_def cong: option.case_cong)

lemma pton6_loop_inside:
  assumes "0 \<le> p6_cursor st" "length (p6_addr st) = 8" "p6_seencompressed st \<or> colons rc < 10"
  shows "\<exists>r. pton6_loop unfit rc st = Inr r"
  using assms
proof (induction rc arbitrary: st rule: length_induct)
  case (1 rc)
  show ?case
  proof (cases "rc = [] \<or> \<not> p6_cursor st < 8")
    case True
    then show ?thesis by (subst pton6_loop.simps) simp
  next
    case more: False
    then obtain c cs where rc: "rc = c # cs" by (cases rc) auto
    have less: "p6_cursor st < 8" using more by simp
    note IH = "1.IH" [rule_format]
    consider (gap) ds where "c = CHR '':''" "cs = CHR '':'' # ds" | (colon) "c = CHR '':''" "cs = [] \<or> hd cs \<noteq> CHR '':''"
      | (group) "c \<noteq> CHR '':''" by (cases cs) auto
    then show ?thesis
    proof cases
      case gap
      show ?thesis
      proof (cases "p6_seencompressed st")
        case True
        then show ?thesis using loop_second_gap [OF less] rc gap by simp
      next
        case False
        then have few: "colons ds \<le> 7" using "1.prems"(3) rc gap by simp
        show ?thesis
        proof (cases "ds = []")
          case True
          then show ?thesis using loop_gap_end [OF less False] rc gap by simp
        next
          case ne: False
          have "\<exists>r. pton6_loop unfit ds (st\<lparr>p6_cursor := 7 - int (colons ds), p6_seencompressed := True\<rparr>) = Inr r"
            by (rule IH) (use rc gap few "1.prems" in simp_all)
          then show ?thesis using loop_gap [OF less False ne] rc gap by simp
        qed
      qed
    next
      case colon
      have "\<exists>r. pton6_loop unfit cs st = Inr r" by (rule IH) (use rc colon "1.prems" in auto)
      then show ?thesis using loop_single_colon [OF less colon(2)] rc colon(1) by simp
    next
      case group
      show ?thesis
      proof (cases "sscanf_hx unfit rc")
        case None
        then show ?thesis using loop_group_step [OF less group] rc by simp
      next
        case (Some wn)
        then obtain w n where wn: "sscanf_hx unfit rc = Some (w, n)" by (cases wn) auto
        let ?st = "st\<lparr>p6_addr := (p6_addr st)[nat (p6_cursor st) := w], p6_cursor := p6_cursor st + 1\<rparr>"
        have few: "p6_seencompressed st \<or> colons (drop n rc) < 10" using "1.prems"(3) colons_drop [of n rc] by linarith
        have wr: "group_write w st = Inr (st\<lparr>p6_addr := (p6_addr st)[nat (p6_cursor st) := w]\<rparr>)"
          using less "1.prems" by (simp add: group_write_def)
        have "0 < n" by (rule sscanf_hx_progress [OF wn])
        then have "\<exists>r. pton6_loop unfit (drop n rc) ?st = Inr r"
          by (intro IH) (use rc few "1.prems" in auto)
        then show ?thesis using loop_group_step [OF less group, of unfit cs] wr wn unfolding rc by auto
      qed
    qed
  qed
qed

text \<open>C36: a text with fewer than ten colons is read without leaving the address, but behind a double colon more than eight groups
  make the cursor start before the address, and the first group is written there.\<close>

theorem socket_inet_pton6_escapes:
  "(colons s < 10 \<longrightarrow> (\<exists>r. socket_inet_pton6 unfit s = Inr r))
   \<and> (8 < length g \<longrightarrow> socket_inet_pton6 unfit (''::'' @ groups_text g) = Inl Out_Of_Bounds)"
proof (intro conjI impI)
  assume "colons s < 10"
  then obtain r where "pton6_loop unfit s start6 = Inr r" using pton6_loop_inside [of start6 s unfit] by auto
  moreover have "\<exists>r. pton6_mapped unfit t = Inr r" for t
    using pton4_returns by (auto simp: pton6_mapped_def Let_def rbind_eq_Inr_iff split: option.splits)
  ultimately show "\<exists>r. socket_inet_pton6 unfit s = Inr r" by (auto simp: socket_inet_pton6_def split: option.splits)
next
  assume g: "8 < length g"
  then obtain w v ws where ws: "g = w # v # ws" by (cases g rule: groups_text.cases) auto
  let ?s = "groups_text g"
  let ?st = "start6\<lparr>p6_cursor := 7 - int (colons ?s), p6_seencompressed := True\<rparr>"
  have chars: "CHR ''x'' \<notin> set ?s" "CHR ''.'' \<notin> set ?s"
    using hexdigits_not(2,3) by (induction g rule: groups_text.induct) auto
  have ne: "?s \<noteq> []" "hd ?s \<noteq> CHR '':''" using groups_text_hd [of g "[]"] ws by simp_all
  have neg: "7 - int (colons ?s) < 0" using g groups_text_colons [of g] by simp
  have "sscanf_hx unfit ?s = Some (w, length (hexdigits (unat w)))"
    using sscanf_hexdigits [OF word16, of "CHR '':'' # groups_text (v # ws)" unfit w] ws by (simp add: at_colon_def)
  then have "pton6_loop unfit ?s ?st = Inl Out_Of_Bounds"
    using loop_group_step [of ?st "hd ?s" unfit "tl ?s"] ne neg by (simp add: group_write_def)
  moreover have "pton6_loop unfit (''::'' @ ?s) start6 = pton6_loop unfit ?s ?st"
    using loop_gap [of start6 ?s unfit] ne by simp
  ultimately show "socket_inet_pton6 unfit (''::'' @ ?s) = Inl Out_Of_Bounds"
    using pton6_plain [of "''::'' @ ?s" unfit] chars by (simp add: pton6_end_def)
qed

theorem socket_inet_pton6_escapes_witness:
  "socket_inet_pton6 (\<lambda>_. 0) (''::'' @ groups_text [1, 2, 3, 4, 5, 6, 7, 8, 9]) = Inl Out_Of_Bounds
   \<and> (\<exists>r. socket_inet_pton6 (\<lambda>_. 0) ''::1'' = Inr r)"
  using socket_inet_pton6_escapes [of "''::1''" "\<lambda>_. 0" "[1, 2, 3, 4, 5, 6, 7, 8, 9]"] by simp

end
