(* ===== verification/MQ_Creater.thy ===== *)
theory MQ_Creater
  imports MQ_Api
begin

text \<open>
  What message_queue.h and message_queue.cc build around the queues: \<^verbatim>\<open>AsyncResult\<close>, a call with its result and its callback that
  is shared by its copies, \<^verbatim>\<open>WaitInvoke\<close>, and \<^verbatim>\<open>MessageQueueCreater\<close>, which starts the thread of a queue. The thread calls are
  those of \<^verbatim>\<open>Thread\<close>; what they answer is an argument.
\<close>

section \<open>AsyncResult\<close>

text \<open>
  The template, its instance for \<^verbatim>\<open>void\<close> and its instances for references. \<open>ar_result\<close> is what the pointer \<^verbatim>\<open>result\<close> points
  to, \<open>None\<close> for \<^verbatim>\<open>NULL\<close>; \<open>ar_called\<close> are the calls of \<^verbatim>\<open>callback_function\<close>, \<open>ar_refs\<close> counts the copies that share the wrapper.
\<close>

datatype result_kind = By_value | By_reference | No_value

record 'r AsyncResult =
  ar_kind :: result_kind
  ar_refs :: nat
  ar_result :: "'r option"
  ar_valid :: bool
  ar_callback :: bool
  ar_called :: "('r option \<times> bool) list"

definition AsyncResult_new :: "'r \<Rightarrow> bool \<Rightarrow> 'r AsyncResult" where
  "AsyncResult_new initial callback = \<lparr>ar_kind = By_value, ar_refs = 1, ar_result = Some initial, ar_valid = False,
     ar_callback = callback, ar_called = []\<rparr>"

definition AsyncResult_new_holder :: "'r option \<Rightarrow> bool \<Rightarrow> 'r AsyncResult" where
  "AsyncResult_new_holder result_holder callback = \<lparr>ar_kind = By_value, ar_refs = 1, ar_result = result_holder, ar_valid = False,
     ar_callback = callback, ar_called = []\<rparr>"

definition AsyncResult_new_void :: "bool \<Rightarrow> 'r AsyncResult" where
  "AsyncResult_new_void callback = \<lparr>ar_kind = No_value, ar_refs = 1, ar_result = None, ar_valid = False,
     ar_callback = callback, ar_called = []\<rparr>"

definition AsyncResult_new_ref :: "bool \<Rightarrow> 'r AsyncResult" where
  "AsyncResult_new_ref callback = \<lparr>ar_kind = By_reference, ar_refs = 1, ar_result = None, ar_valid = False,
     ar_callback = callback, ar_called = []\<rparr>"

definition ar_call :: "'r option \<Rightarrow> bool \<Rightarrow> 'r AsyncResult \<Rightarrow> 'r AsyncResult" where
  "ar_call arg ok a = (if ar_callback a then a\<lparr>ar_called := ar_called a @ [(arg, ok)]\<rparr> else a)"

text \<open>\<^verbatim>\<open>Result()\<close>: nothing for \<^verbatim>\<open>void\<close>.\<close>

definition Result :: "'r AsyncResult \<Rightarrow> 'r option result" where
  "Result a = (case ar_kind a of No_value \<Rightarrow> Inr None
     | _ \<Rightarrow> (case ar_result a of None \<Rightarrow> Inl Null_Deref | Some v \<Rightarrow> Inr (Some v)))"

text \<open>\<^verbatim>\<open>operator()\<close>; \<open>r\<close> is what \<^verbatim>\<open>invoke_function\<close> returns.\<close>

definition Invoke :: "'r \<Rightarrow> 'r AsyncResult \<Rightarrow> 'r AsyncResult" where
  "Invoke r a = (case ar_kind a of
     By_value \<Rightarrow> ar_call (Some r) True (a\<lparr>ar_result := map_option (\<lambda>_. r) (ar_result a), ar_valid := True\<rparr>)
   | By_reference \<Rightarrow> ar_call (Some r) True (a\<lparr>ar_result := Some r, ar_valid := True\<rparr>)
   | No_value \<Rightarrow> ar_call None True (a\<lparr>ar_valid := True\<rparr>))"

definition AsyncResult_copy :: "'r AsyncResult \<Rightarrow> 'r AsyncResult" where
  "AsyncResult_copy a = a\<lparr>ar_refs := ar_refs a + 1\<rparr>"

text \<open>The end of one copy; the last one deletes the wrapper.\<close>

definition AsyncResult_drop :: "'r AsyncResult \<Rightarrow> 'r AsyncResult result" where
  "AsyncResult_drop a =
     (let a = a\<lparr>ar_refs := ar_refs a - 1\<rparr> in
      if ar_refs a \<noteq> 0 \<or> ar_valid a \<or> \<not> ar_callback a then Inr a
      else rbind (Result a) (\<lambda>r. Inr (ar_call r False a)))"

section \<open>WaitInvoke\<close>

text \<open>On the thread of the handler's queue the function is called, elsewhere it is posted and waited for.\<close>

datatype 'r wait_invoke = Invoked_Here "'r AsyncResult" | Waits_For MessagePost_t wait_result

definition WaitInvoke ::
  "nat \<Rightarrow> MessageQueue_t \<Rightarrow> 'a \<Rightarrow> 'r \<Rightarrow> 'r AsyncResult \<Rightarrow> MessageHandler_t \<Rightarrow> ('a, 'h) mq_state
    \<Rightarrow> ('r wait_invoke \<times> ('a, 'h) mq_state) result" where
  "WaitInvoke now tid func r a handlerid s =
     (if CurrentThreadMessageQueue tid s = Handler2Queue handlerid then Inr (Invoked_Here (Invoke r a), s)
      else rbind (AsyncInvoke now func 0 handlerid s) (\<lambda>(post, s1).
        let (w, s2) = WaitMessage tid post s1 in Inr (Waits_For post w, s2)))"

section \<open>MessageQueueCreater\<close>

text \<open>\<open>started\<close>: the thread that \<^verbatim>\<open>thread_.start()\<close> creates, \<open>None\<close> when it fails. \<open>running\<close>: \<^verbatim>\<open>thread_.isruning()\<close>.\<close>

record MessageQueueCreater =
  qc_messagequeue_id :: MessageQueue_t
  qc_breaker :: "addr option"
  qc_tid :: "64 word"

definition CreateMessageQueue ::
  "bool \<Rightarrow> 64 word option \<Rightarrow> MessageQueueCreater \<Rightarrow> ('a, 'h) mq_state
    \<Rightarrow> MessageQueue_t \<times> MessageQueueCreater \<times> ('a, 'h) mq_state" where
  "CreateMessageQueue running started c s =
     (if running then (qc_messagequeue_id c, c, s)
      else case started of
        None \<Rightarrow> (KInvalidQueueID, c, s)
      | Some tid \<Rightarrow>
          let (qid, s1) = CreateMessageQueueInfo (qc_breaker c) tid s
          in (qid, c\<lparr>qc_messagequeue_id := qid, qc_tid := tid\<rparr>, s1))"

definition MessageQueueCreater_new ::
  "addr option \<Rightarrow> bool \<Rightarrow> 64 word option \<Rightarrow> ('a, 'h) mq_state \<Rightarrow> MessageQueueCreater \<times> ('a, 'h) mq_state" where
  "MessageQueueCreater_new breaker iscreate started s =
     (let c = \<lparr>qc_messagequeue_id = KInvalidQueueID, qc_breaker = breaker, qc_tid = 0\<rparr> in
      if iscreate then snd (CreateMessageQueue False started c s) else (c, s))"

definition GetMessageQueue :: "MessageQueueCreater \<Rightarrow> MessageQueue_t" where
  "GetMessageQueue c = qc_messagequeue_id c"

text \<open>The boolean: the caller joins the thread.\<close>

definition Creater_CancelAndWait ::
  "64 word \<Rightarrow> MessageQueueCreater \<Rightarrow> ('a, 'h) mq_state \<Rightarrow> (bool \<times> MessageQueueCreater \<times> ('a, 'h) mq_state) result" where
  "Creater_CancelAndWait currentthread c s =
     (if KInvalidQueueID = qc_messagequeue_id c then Inr (False, c, s)
      else rbind (BreakMessageQueueRunloop (qc_messagequeue_id c) s) (\<lambda>s1.
        Inr (currentthread \<noteq> qc_tid c, c\<lparr>qc_messagequeue_id := KInvalidQueueID\<rparr>, s1)))"

text \<open>The queue of the process: \<open>static\<close> is \<^verbatim>\<open>s_defmessagequeue\<close>, made at the first call.\<close>

definition GetDefMessageQueue ::
  "bool \<Rightarrow> 64 word option \<Rightarrow> MessageQueueCreater option \<Rightarrow> ('a, 'h) mq_state \<Rightarrow> MessageQueue_t \<times> MessageQueueCreater \<times> ('a, 'h) mq_state" where
  "GetDefMessageQueue running started static s =
     CreateMessageQueue running started (case static of None \<Rightarrow> fst (MessageQueueCreater_new None False None s) | Some c \<Rightarrow> c) s"

text \<open>The outcome: what \<^verbatim>\<open>WaitForRunningLockEnd\<close> waits for before the join, \<open>None\<close> for an invalid queue.\<close>

definition ReleaseNewMessageQueue ::
  "64 word \<Rightarrow> MessageQueue_t \<Rightarrow> ('a, 'h) mq_state \<Rightarrow> (wait_outcome option \<times> ('a, 'h) mq_state) result" where
  "ReleaseNewMessageQueue currentthread qid s =
     (if KInvalidQueueID = qid then Inr (None, s)
      else rbind (BreakMessageQueueRunloop qid s) (\<lambda>s1. Inr (Some (WaitForRunningLockEnd_queue currentthread qid s1), s1)))"

text \<open>\<^verbatim>\<open>CreateNewMessageQueue\<close> on a thread that already runs.\<close>

definition CreateNewMessageQueue_on :: "addr option \<Rightarrow> 64 word \<Rightarrow> ('a, 'h) mq_state \<Rightarrow> MessageQueue_t \<times> ('a, 'h) mq_state" where
  "CreateNewMessageQueue_on breaker tid s = CreateMessageQueueInfo breaker tid s"

section \<open>CreateNewMessageQueue and its thread\<close>

text \<open>
  The spin lock that keeps the new thread from its run loop until the queue is made is on the heap, and the new thread deletes it:
  \<open>Some held\<close>, or \<open>None\<close> once deleted. The two threads interleave; a thread at the lock waits (\<open>None\<close>).
\<close>

datatype new_pc = New_Lock | New_Start | New_Create "64 word" | New_Unlock MessageQueue_t | New_Delete | New_Failed | New_Return MessageQueue_t
datatype loop_pc = Loop_Lock | Loop_Unlock | Loop_Delete | Loop_Run

record ('a, 'h) new_queue =
  nq_lock :: "bool option"
  nq_pc :: new_pc
  nq_thread :: "(64 word \<times> loop_pc) option"
  nq_mq :: "('a, 'h) mq_state"

definition new_queue_start :: "('a, 'h) mq_state \<Rightarrow> ('a, 'h) new_queue" where
  "new_queue_start s = \<lparr>nq_lock = Some False, nq_pc = New_Lock, nq_thread = None, nq_mq = s\<rparr>"

definition sp_lock :: "('a, 'h) new_queue \<Rightarrow> ('a, 'h) new_queue option result" where
  "sp_lock n = (case nq_lock n of None \<Rightarrow> Inl Use_After_Free | Some True \<Rightarrow> Inr None | Some False \<Rightarrow> Inr (Some (n\<lparr>nq_lock := Some True\<rparr>)))"

definition sp_unlock :: "('a, 'h) new_queue \<Rightarrow> ('a, 'h) new_queue result" where
  "sp_unlock n = (case nq_lock n of None \<Rightarrow> Inl Use_After_Free | Some _ \<Rightarrow> Inr (n\<lparr>nq_lock := Some False\<rparr>))"

definition sp_delete :: "('a, 'h) new_queue \<Rightarrow> ('a, 'h) new_queue result" where
  "sp_delete n = (case nq_lock n of None \<Rightarrow> Inl Use_After_Free | Some _ \<Rightarrow> Inr (n\<lparr>nq_lock := None\<rparr>))"

definition CreateNewMessageQueue_step ::
  "addr option \<Rightarrow> 64 word option \<Rightarrow> ('a, 'h) new_queue \<Rightarrow> ('a, 'h) new_queue option result" where
  "CreateNewMessageQueue_step breaker started n = (case nq_pc n of
     New_Lock \<Rightarrow> rbind (sp_lock n) (\<lambda>r. Inr (map_option (\<lambda>n. n\<lparr>nq_pc := New_Start\<rparr>) r))
   | New_Start \<Rightarrow> Inr (Some (case started of
         None \<Rightarrow> n\<lparr>nq_pc := New_Delete\<rparr>
       | Some tid \<Rightarrow> n\<lparr>nq_pc := New_Create tid, nq_thread := Some (tid, Loop_Lock)\<rparr>))
   | New_Create tid \<Rightarrow>
       (let (qid, s) = CreateMessageQueueInfo breaker tid (nq_mq n) in Inr (Some (n\<lparr>nq_pc := New_Unlock qid, nq_mq := s\<rparr>)))
   | New_Unlock qid \<Rightarrow> rbind (sp_unlock n) (\<lambda>n. Inr (Some (n\<lparr>nq_pc := New_Return qid\<rparr>)))
   | New_Delete \<Rightarrow> rbind (sp_delete n) (\<lambda>n. Inr (Some (n\<lparr>nq_pc := New_Failed\<rparr>)))
   | New_Failed \<Rightarrow> rbind (sp_unlock n) (\<lambda>n. Inr (Some (n\<lparr>nq_pc := New_Return KInvalidQueueID\<rparr>)))
   | New_Return _ \<Rightarrow> Inr None)"

definition ThreadNewRunloop_step :: "('a, 'h) new_queue \<Rightarrow> ('a, 'h) new_queue option result" where
  "ThreadNewRunloop_step n = (case nq_thread n of
     None \<Rightarrow> Inr None
   | Some (tid, pc) \<Rightarrow>
       (case pc of
          Loop_Lock \<Rightarrow> rbind (sp_lock n) (\<lambda>r. Inr (map_option (\<lambda>n. n\<lparr>nq_thread := Some (tid, Loop_Unlock)\<rparr>) r))
        | Loop_Unlock \<Rightarrow> rbind (sp_unlock n) (\<lambda>n. Inr (Some (n\<lparr>nq_thread := Some (tid, Loop_Delete)\<rparr>)))
        | Loop_Delete \<Rightarrow> rbind (sp_delete n) (\<lambda>n. Inr (Some (n\<lparr>nq_thread := Some (tid, Loop_Run)\<rparr>)))
        | Loop_Run \<Rightarrow> Inr None))"

text \<open>A run: who takes the next step; a thread that waits stays where it is.\<close>

primrec new_queue_run :: "addr option \<Rightarrow> 64 word option \<Rightarrow> bool list \<Rightarrow> ('a, 'h) new_queue \<Rightarrow> ('a, 'h) new_queue result" where
  "new_queue_run breaker started [] n = Inr n"
| "new_queue_run breaker started (b # bs) n =
     rbind (if b then CreateNewMessageQueue_step breaker started n else ThreadNewRunloop_step n)
       (\<lambda>r. new_queue_run breaker started bs (case r of None \<Rightarrow> n | Some n' \<Rightarrow> n'))"

end
