(* ===== verification/MQ_Creater_Props.thy ===== *)
theory MQ_Creater_Props
  imports MQ_Creater
begin

text \<open>
  The callback of an \<open>AsyncResult\<close> is called once per invocation, or once with \<^verbatim>\<open>false\<close> when there was none; the thread of a new
  queue reaches its run loop only when the queue is made, and touches no deleted lock. A start that fails, and a reference that
  was never set, are the exceptions.
\<close>

section \<open>The callback of AsyncResult\<close>

datatype 'r ar_op = Ar_Copy | Ar_Invoke 'r | Ar_Drop

fun ar_step :: "'r ar_op \<Rightarrow> 'r AsyncResult \<Rightarrow> 'r AsyncResult result" where
  "ar_step Ar_Copy a = Inr (AsyncResult_copy a)"
| "ar_step (Ar_Invoke r) a = Inr (Invoke r a)"
| "ar_step Ar_Drop a = AsyncResult_drop a"

definition ar_invoked :: "'r ar_op list \<Rightarrow> 'r list" where
  "ar_invoked xs = concat (map (\<lambda>x. case x of Ar_Invoke r \<Rightarrow> [r] | _ \<Rightarrow> []) xs)"

definition ar_arg :: "result_kind \<Rightarrow> 'r \<Rightarrow> 'r option" where
  "ar_arg k r = (if k = No_value then None else Some r)"

text \<open>While copies are left: the values \<open>rs\<close> of the invocations until now, \<open>p\<close> what the cell held at first.\<close>

definition ar_alive :: "result_kind \<Rightarrow> bool \<Rightarrow> 'r \<Rightarrow> 'r list \<Rightarrow> 'r AsyncResult \<Rightarrow> bool" where
  "ar_alive k cb p rs a \<longleftrightarrow> k \<noteq> By_reference \<and> ar_kind a = k \<and> ar_callback a = cb \<and> ar_valid a = (rs \<noteq> [])
     \<and> (k = By_value \<longrightarrow> ar_result a = Some (last (p # rs)))
     \<and> ar_called a = (if cb then map (\<lambda>r. (ar_arg k r, True)) rs else [])"

lemma Invoke_alive:
  assumes "ar_alive k cb p rs a"
  shows "ar_alive k cb p (rs @ [r]) (Invoke r a)" "ar_refs (Invoke r a) = ar_refs a"
proof -
  have k: "k = By_value \<or> k = No_value" using assms by (cases k) (simp_all add: ar_alive_def)
  then show "ar_alive k cb p (rs @ [r]) (Invoke r a)" using assms by (elim disjE) (simp_all add: ar_alive_def Invoke_def ar_call_def ar_arg_def)
  show "ar_refs (Invoke r a) = ar_refs a" using k assms by (elim disjE) (simp_all add: ar_alive_def Invoke_def ar_call_def)
qed

lemma drop_alive: "ar_alive k cb p rs a \<Longrightarrow> 1 < ar_refs a \<Longrightarrow> AsyncResult_drop a = Inr (a\<lparr>ar_refs := ar_refs a - 1\<rparr>)"
  by (simp add: AsyncResult_drop_def)

lemma refs_alive [simp]: "ar_alive k cb p rs (a\<lparr>ar_refs := n\<rparr>) \<longleftrightarrow> ar_alive k cb p rs a"
  by (simp add: ar_alive_def)

definition ar_calls :: "result_kind \<Rightarrow> bool \<Rightarrow> 'r \<Rightarrow> 'r list \<Rightarrow> ('r option \<times> bool) list" where
  "ar_calls k cb p rs = (if \<not> cb then [] else if rs = [] then [(ar_arg k p, False)] else map (\<lambda>r. (ar_arg k r, True)) rs)"

lemma drop_last:
  assumes "ar_alive k cb p rs a" "ar_refs a = 1"
  shows "\<exists>a'. AsyncResult_drop a = Inr a' \<and> ar_refs a' = 0 \<and> ar_called a' = ar_calls k cb p rs"
proof (cases "rs = [] \<and> cb")
  case True
  have "k = By_value \<or> k = No_value" using assms(1) by (cases k) (simp_all add: ar_alive_def)
  then show ?thesis using True assms
    by (elim disjE) (simp_all add: ar_alive_def AsyncResult_drop_def Result_def ar_call_def ar_calls_def ar_arg_def)
next
  case False
  then show ?thesis using assms by (auto simp: ar_alive_def AsyncResult_drop_def ar_calls_def)
qed

fun ar_balanced :: "'r ar_op list \<Rightarrow> nat \<Rightarrow> bool" where
  "ar_balanced [] n \<longleftrightarrow> n = 0"
| "ar_balanced (Ar_Copy # xs) n \<longleftrightarrow> 0 < n \<and> ar_balanced xs (n + 1)"
| "ar_balanced (Ar_Invoke r # xs) n \<longleftrightarrow> 0 < n \<and> ar_balanced xs n"
| "ar_balanced (Ar_Drop # xs) n \<longleftrightarrow> 0 < n \<and> ar_balanced xs (n - 1)"

lemma ar_balanced_0: "ar_balanced xs 0 \<longleftrightarrow> xs = []"
  by (cases xs rule: list.exhaust; simp; cases "hd xs"; simp)

fun ar_run :: "'r ar_op list \<Rightarrow> 'r AsyncResult \<Rightarrow> 'r AsyncResult result" where
  "ar_run [] a = Inr a"
| "ar_run (x # xs) a = rbind (ar_step x a) (ar_run xs)"

lemma ar_run_calls:
  assumes "ar_alive k cb p rs a" "ar_balanced xs (ar_refs a)" "0 < ar_refs a"
  shows "\<exists>a'. ar_run xs a = Inr a' \<and> ar_refs a' = 0 \<and> ar_called a' = ar_calls k cb p (rs @ ar_invoked xs)"
  using assms
proof (induction xs arbitrary: rs a)
  case (Cons x xs)
  show ?case
  proof (cases x)
    case Ar_Copy
    have "\<exists>a'. ar_run xs (AsyncResult_copy a) = Inr a' \<and> ar_refs a' = 0 \<and> ar_called a' = ar_calls k cb p (rs @ ar_invoked xs)"
      by (rule Cons.IH) (use Cons.prems Ar_Copy in \<open>simp_all add: AsyncResult_copy_def\<close>)
    then show ?thesis using Ar_Copy by (simp add: ar_invoked_def)
  next
    case (Ar_Invoke r)
    note inv = Invoke_alive [OF Cons.prems(1), of r]
    have "\<exists>a'. ar_run xs (Invoke r a) = Inr a' \<and> ar_refs a' = 0 \<and> ar_called a' = ar_calls k cb p ((rs @ [r]) @ ar_invoked xs)"
      by (rule Cons.IH [OF inv(1)]) (use inv(2) Cons.prems Ar_Invoke in simp_all)
    then show ?thesis using Ar_Invoke by (simp add: ar_invoked_def)
  next
    case Ar_Drop
    show ?thesis
    proof (cases "ar_refs a = 1")
      case True
      then have "xs = []" using Cons.prems(2) Ar_Drop by (simp add: ar_balanced_0)
      then show ?thesis using drop_last [OF Cons.prems(1) True] Ar_Drop by (auto simp: ar_invoked_def)
    next
      case False
      then have "1 < ar_refs a" using Cons.prems(3) by simp
      moreover have "\<exists>a'. ar_run xs (a\<lparr>ar_refs := ar_refs a - 1\<rparr>) = Inr a' \<and> ar_refs a' = 0
          \<and> ar_called a' = ar_calls k cb p (rs @ ar_invoked xs)"
        by (rule Cons.IH) (use Cons.prems Ar_Drop calculation in simp_all)
      ultimately show ?thesis using drop_alive [OF Cons.prems(1)] Ar_Drop by (simp add: ar_invoked_def)
    qed
  qed
qed (use assms in simp)

lemma AsyncResult_callback_calls:
  assumes "ar_balanced xs 1"
  shows "\<exists>a'. ar_run xs (AsyncResult_new p cb) = Inr a' \<and> ar_called a' = ar_calls By_value cb p (ar_invoked xs)"
    "\<exists>a'. ar_run xs (AsyncResult_new_holder (Some p) cb) = Inr a' \<and> ar_called a' = ar_calls By_value cb p (ar_invoked xs)"
    "\<exists>a'. ar_run xs (AsyncResult_new_void cb) = Inr a' \<and> ar_called a' = ar_calls No_value cb (p :: 'r) (ar_invoked xs)"
proof -
  have "ar_alive By_value cb p [] (AsyncResult_new p cb)" "ar_alive By_value cb p [] (AsyncResult_new_holder (Some p) cb)"
    "ar_alive No_value cb p [] (AsyncResult_new_void cb)"
    by (simp_all add: ar_alive_def AsyncResult_new_def AsyncResult_new_holder_def AsyncResult_new_void_def)
  from this [THEN ar_run_calls, of xs] assms
  show "\<exists>a'. ar_run xs (AsyncResult_new p cb) = Inr a' \<and> ar_called a' = ar_calls By_value cb p (ar_invoked xs)"
    "\<exists>a'. ar_run xs (AsyncResult_new_holder (Some p) cb) = Inr a' \<and> ar_called a' = ar_calls By_value cb p (ar_invoked xs)"
    "\<exists>a'. ar_run xs (AsyncResult_new_void cb) = Inr a' \<and> ar_called a' = ar_calls No_value cb p (ar_invoked xs)"
    by (auto simp: AsyncResult_new_def AsyncResult_new_holder_def AsyncResult_new_void_def)
qed

text \<open>However an AsyncResult is copied, invoked and dropped, its callback is called exactly once for each invocation, with its
  value and true, and, when the last copy goes without any invocation, once with what the cell held at first and false; never
  without a callback.\<close>

theorem AsyncResult_callback:
  assumes "ar_balanced xs 1"
  shows "\<exists>a v. ar_run xs (AsyncResult_new p cb) = Inr a \<and> ar_run xs (AsyncResult_new_void cb) = Inr v
    \<and> ar_called a = (if \<not> cb then [] else if ar_invoked xs = [] then [(Some p, False)] else map (\<lambda>r. (Some r, True)) (ar_invoked xs))
    \<and> ar_called v = (if \<not> cb then [] else if ar_invoked xs = [] then [(None, False)] else map (\<lambda>r. (None, True)) (ar_invoked xs))"
  using AsyncResult_callback_calls(1) [OF assms, where p = p and cb = cb]
    AsyncResult_callback_calls(3) [OF assms, where p = p and cb = cb] by (auto simp: ar_calls_def ar_arg_def)

theorem AsyncResult_callback_witness:
  "\<exists>a. ar_run [Ar_Copy, Ar_Invoke (5 :: nat), Ar_Drop, Ar_Drop] (AsyncResult_new 0 True) = Inr a \<and> ar_called a = [(Some 5, True)]"
  using AsyncResult_callback [of "[Ar_Copy, Ar_Invoke (5 :: nat), Ar_Drop, Ar_Drop]" 0 True] by (auto simp: ar_invoked_def)

text \<open>A reference result that is never set, or a null holder: the callback at the end is given a null reference.\<close>

lemma AsyncResult_null_callback:
  "ar_run [Ar_Drop] (AsyncResult_new_ref True) = Inl Null_Deref"
  "ar_run [Ar_Drop] (AsyncResult_new_holder None True) = Inl Null_Deref"
  by (simp_all add: AsyncResult_drop_def AsyncResult_new_ref_def AsyncResult_new_holder_def Result_def)

text \<open>\<^verbatim>\<open>WaitInvoke\<close> for a handler whose queue is gone does not wait, and hands out what the cell held at first.\<close>

lemma WaitInvoke_no_queue:
  assumes "sg_map s (mh_queue h) = None" "sg_map s tid \<noteq> None" "sg_map s KInvalidQueueID = None"
  shows "WaitInvoke now tid f r (AsyncResult_new p cb) h s = Inr (Waits_For KNullPost (WR_Return False), s)"
    "Result (AsyncResult_new p cb) = Inr (Some p)"
proof -
  have "mh_queue h \<noteq> tid" using assms(1,2) by metis
  then show "WaitInvoke now tid f r (AsyncResult_new p cb) h s = Inr (Waits_For KNullPost (WR_Return False), s)"
    using assms by (auto simp: WaitInvoke_def CurrentThreadMessageQueue_def Handler2Queue_def AsyncInvoke_def PostMessage_def
        WaitMessage_def KNullPost_def KNullHandler_def Post2Handler_def Let_def)
qed (simp add: AsyncResult_new_def Result_def)

section \<open>The thread of a new queue\<close>

definition new_queue_inv :: "64 word \<Rightarrow> ('a, 'h) new_queue \<Rightarrow> bool" where
  "new_queue_inv tid n \<longleftrightarrow> (case nq_pc n of
     New_Lock \<Rightarrow> nq_lock n = Some False \<and> nq_thread n = None
   | New_Start \<Rightarrow> nq_lock n = Some True \<and> nq_thread n = None
   | New_Create t \<Rightarrow> t = tid \<and> nq_lock n = Some True \<and> nq_thread n = Some (tid, Loop_Lock)
   | New_Unlock q \<Rightarrow> q = tid \<and> nq_lock n = Some True \<and> nq_thread n = Some (tid, Loop_Lock) \<and> sg_map (nq_mq n) tid \<noteq> None
   | New_Return q \<Rightarrow> q = tid \<and> sg_map (nq_mq n) tid \<noteq> None \<and> (\<exists>pc. nq_thread n = Some (tid, pc)
       \<and> nq_lock n = (case pc of Loop_Unlock \<Rightarrow> Some True | Loop_Run \<Rightarrow> None | _ \<Rightarrow> Some False))
   | _ \<Rightarrow> False)"

lemma CreateMessageQueueInfo_registers: "CreateMessageQueueInfo b tid s = (q, s') \<Longrightarrow> q = tid \<and> sg_map s' tid \<noteq> None"
  by (auto simp: CreateMessageQueueInfo_def set_content_def Let_def split: option.splits prod.splits)

lemma creator_step_inv:
  assumes "new_queue_inv tid n"
  shows "\<exists>r. CreateNewMessageQueue_step b (Some tid) n = Inr r \<and> (\<forall>n'. r = Some n' \<longrightarrow> new_queue_inv tid n')"
proof (cases "nq_pc n")
  case (New_Create t)
  obtain q s where q: "CreateMessageQueueInfo b tid (nq_mq n) = (q, s)" by fastforce
  from CreateMessageQueueInfo_registers [OF q] show ?thesis
    using New_Create assms q by (simp add: new_queue_inv_def CreateNewMessageQueue_step_def)
qed (use assms in \<open>simp_all add: new_queue_inv_def CreateNewMessageQueue_step_def sp_lock_def sp_unlock_def\<close>)

lemma thread_step_inv:
  assumes "new_queue_inv tid n"
  shows "\<exists>r. ThreadNewRunloop_step n = Inr r \<and> (\<forall>n'. r = Some n' \<longrightarrow> new_queue_inv tid n')"
proof (cases "nq_pc n")
  case (New_Return q)
  then obtain pc where pc: "nq_thread n = Some (tid, pc)" "q = tid" "sg_map (nq_mq n) tid \<noteq> None"
      "nq_lock n = (case pc of Loop_Unlock \<Rightarrow> Some True | Loop_Run \<Rightarrow> None | _ \<Rightarrow> Some False)"
    using assms by (auto simp: new_queue_inv_def)
  then show ?thesis using New_Return
    by (cases pc) (auto simp: ThreadNewRunloop_step_def sp_lock_def sp_unlock_def sp_delete_def new_queue_inv_def)
qed (use assms in \<open>auto simp: new_queue_inv_def ThreadNewRunloop_step_def sp_lock_def\<close>)

lemma new_queue_run_inv:
  assumes "new_queue_inv tid n"
  shows "\<exists>n'. new_queue_run b (Some tid) ws n = Inr n' \<and> new_queue_inv tid n'"
  using assms
proof (induction ws arbitrary: n)
  case (Cons w ws)
  let ?step = "if w then CreateNewMessageQueue_step b (Some tid) n else ThreadNewRunloop_step n"
  have "\<exists>r. ?step = Inr r \<and> (\<forall>n'. r = Some n' \<longrightarrow> new_queue_inv tid n')"
    using creator_step_inv [OF Cons.prems, of b] thread_step_inv [OF Cons.prems] by (cases w) simp_all
  then obtain r where r: "?step = Inr r" "\<forall>n'. r = Some n' \<longrightarrow> new_queue_inv tid n'" by blast
  then have "new_queue_inv tid (case r of None \<Rightarrow> n | Some n' \<Rightarrow> n')" using Cons.prems by (simp split: option.split)
  from Cons.IH [OF this] show ?case using r(1) by simp
qed simp

text \<open>C37: when the thread of a new queue can be started, then however the two threads take turns, nobody touches the deleted lock, and
  when the new thread enters its run loop, its queue is made, its creator is done with the lock and has returned the queue, and the
  lock is deleted.\<close>

theorem CreateNewMessageQueue_ordered:
  "\<exists>n. new_queue_run b (Some tid) ws (new_queue_start s) = Inr n
    \<and> (nq_thread n = Some (t, Loop_Run) \<longrightarrow> t = tid \<and> sg_map (nq_mq n) tid \<noteq> None \<and> nq_pc n = New_Return tid \<and> nq_lock n = None)"
proof -
  have "new_queue_inv tid (new_queue_start s)" by (simp add: new_queue_inv_def new_queue_start_def)
  from new_queue_run_inv [OF this, of b ws] obtain n where
    n: "new_queue_run b (Some tid) ws (new_queue_start s) = Inr n" "new_queue_inv tid n" by blast
  have "t = tid \<and> sg_map (nq_mq n) tid \<noteq> None \<and> nq_pc n = New_Return tid \<and> nq_lock n = None" if "nq_thread n = Some (t, Loop_Run)"
    using n(2) that by (cases "nq_pc n") (auto simp: new_queue_inv_def)
  with n(1) show ?thesis by blast
qed

theorem CreateNewMessageQueue_ordered_witness:
  "\<exists>n. new_queue_run None (Some 7) [True, True, False, True, False, True, False, False, False]
      (new_queue_start (mq_init :: (nat, nat) mq_state)) = Inr n
    \<and> nq_thread n = Some (7, Loop_Run) \<and> nq_lock n = None \<and> nq_pc n = New_Return 7"
proof -
  let ?ws = "[True, True, False, True, False, True, False, False, False]"
  obtain n where n: "new_queue_run None (Some 7) ?ws (new_queue_start (mq_init :: (nat, nat) mq_state)) = Inr n"
      "nq_thread n = Some (7, Loop_Run) \<longrightarrow> (7 :: 64 word) = 7 \<and> sg_map (nq_mq n) 7 \<noteq> None \<and> nq_pc n = New_Return 7 \<and> nq_lock n = None"
    using CreateNewMessageQueue_ordered [of None 7 ?ws "mq_init :: (nat, nat) mq_state" 7] by blast
  have "nq_thread n = Some (7, Loop_Run)"
    using n(1) by (auto simp: new_queue_start_def CreateNewMessageQueue_step_def ThreadNewRunloop_step_def sp_lock_def sp_unlock_def
        sp_delete_def split: prod.splits)
  with n show ?thesis by blast
qed

text \<open>A start that fails: the lock is deleted while it is held, and unlocked afterwards.\<close>

lemma CreateNewMessageQueue_start_fails:
  "new_queue_run b None [True, True, True, True] (new_queue_start s) = Inl Use_After_Free"
  by (simp add: new_queue_start_def CreateNewMessageQueue_step_def sp_lock_def sp_unlock_def sp_delete_def)

section \<open>MessageQueueCreater\<close>

text \<open>After \<^verbatim>\<open>CancelAndWait\<close> the queue is told to end and the creater has none; another thread waits for its end.\<close>

lemma Creater_CancelAndWait_breaks:
  assumes "Creater_CancelAndWait cur c s = Inr (join, c', s')" "qc_messagequeue_id c \<noteq> KInvalidQueueID"
    and "sg_map s (qc_messagequeue_id c) = Some q"
  shows "qc_messagequeue_id c' = KInvalidQueueID" "join = (cur \<noteq> qc_tid c)"
    "\<exists>q'. sg_map s' (qc_messagequeue_id c) = Some q' \<and> mc_breakflag q'"
  using assms
  by (auto simp: Creater_CancelAndWait_def rbind_eq_Inr_iff BreakMessageQueueRunloop_def notify_breaker_def notify_def set_content_def
      split: if_splits option.splits)

text \<open>A creater that ended its queue from the queue's own thread answers with no queue until that thread is gone.\<close>

lemma CreateMessageQueue_while_ending:
  "qc_messagequeue_id c = KInvalidQueueID \<Longrightarrow> CreateMessageQueue True started c s = (KInvalidQueueID, c, s)"
  by (simp add: CreateMessageQueue_def)

end
