(* ===== verification/Tcp_Client.thy ===== *)
theory Tcp_Client
  imports Sys_Io Auto_Buffer
begin

text \<open>
  \<^verbatim>\<open>TcpClient\<close> of src/mars/comm/socket/tcpclient.cc and tcpclient.h: one thread that connects, waits for the socket and for the
  breaker, peeks, sends the buffers in order and calls the events, and the calls of other threads. The steps are what runs under
  one mutex or between two calls of the event interface; the answers of the kernel are arguments of a step. The breaker is the
  contract of \<^verbatim>\<open>SocketBreaker\<close>: \<^verbatim>\<open>Break\<close> makes the pipe readable, a \<^verbatim>\<open>Poll\<close> with autoclear empties it when it returns. The
  fields from \<open>tc_log\<close> on belong to the specification.
\<close>

section \<open>State\<close>

datatype TTcpStatus = kTcpInit | kTcpInitErr | kSocketThreadStart | kSocketThreadStartErr | kTcpConnecting | kTcpConnectIpErr
  | kTcpConnectingErr | kTcpConnectTimeoutErr | kTcpConnected | kTcpIOErr | kTcpDisConnectedbyRemote | kTcpDisConnected

text \<open>The calls of \<^verbatim>\<open>MTcpEvent\<close>.\<close>

datatype tcp_event = OnConnect_ev | OnDisConnect_ev bool | OnError_ev TTcpStatus int | OnWrote_ev int nat | OnAllWrote_ev | OnRead_ev

text \<open>Where the thread is: \<open>W_None\<close> before \<^verbatim>\<open>Connect\<close>, \<open>W_End\<close> after \<^verbatim>\<open>__RunThread\<close>.\<close>

datatype worker_pc = W_None | W_Begin | W_Socket | W_Connect | W_Connecting | W_Connect_check | W_Round | W_Write_set | W_Select
  | W_Disconnect_check | W_Read | W_On_read | W_Write | W_On_wrote nat | W_All_wrote | W_On_all_wrote | W_Close | W_End

text \<open>\<open>tc_read_set\<close>, \<open>tc_write_set\<close>: what the select of this round asks for; \<open>tc_triggered\<close>: readable or hung up, writable, in error.\<close>

record TcpClient =
  tc_socket :: socket
  tc_have_read_data :: bool
  tc_will_disconnect :: bool
  tc_writedbufid :: int
  tc_lst_buffer :: "AutoBuffer list"
  tc_status :: TTcpStatus
  tc_pipe :: bool
  tc_pc :: worker_pc
  tc_read_set :: bool
  tc_write_set :: bool
  tc_triggered :: "bool \<times> bool \<times> bool"
  tc_write_id :: int
  tc_disconnecting :: bool
  tc_log :: "tcp_event list"
  tc_accepted :: "bytes list"
  tc_sent :: bytes
  tc_sockets :: "socket list"
  tc_closed :: "socket list"

definition TcpClient_new :: "bool \<Rightarrow> TcpClient" where
  "TcpClient_new pipe_created = \<lparr>tc_socket = INVALID_SOCKET, tc_have_read_data = False, tc_will_disconnect = False, tc_writedbufid = 0,
     tc_lst_buffer = [], tc_status = (if pipe_created then kTcpInit else kTcpInitErr), tc_pipe = False, tc_pc = W_None,
     tc_read_set = False, tc_write_set = False, tc_triggered = (False, False, False), tc_write_id = 0, tc_disconnecting = False,
     tc_log = [], tc_accepted = [], tc_sent = [], tc_sockets = [], tc_closed = []\<rparr>"

definition SendBreak :: "TcpClient \<Rightarrow> TcpClient" where
  "SendBreak c = c\<lparr>tc_pipe := True\<rparr>"

definition tcp_call :: "tcp_event \<Rightarrow> TcpClient \<Rightarrow> TcpClient" where
  "tcp_call e c = c\<lparr>tc_log := tc_log c @ [e]\<rparr>"

section \<open>The calls of other threads\<close>

definition TcpClient_Connect :: "bool \<Rightarrow> TcpClient \<Rightarrow> bool \<times> TcpClient" where
  "TcpClient_Connect started c =
     (if kTcpInit \<noteq> tc_status c then (False, c)
      else if \<not> started then (False, c\<lparr>tc_status := kSocketThreadStartErr\<rparr>)
      else (True, c\<lparr>tc_status := kSocketThreadStart, tc_pc := W_Begin\<rparr>))"

text \<open>\<^verbatim>\<open>Disconnect\<close> sets the flag and breaks under a mutex that the thread does not take to look at the flag: two steps.\<close>

definition Disconnect_flag :: "TcpClient \<Rightarrow> TcpClient" where
  "Disconnect_flag c = (if tc_will_disconnect c then c else c\<lparr>tc_will_disconnect := True, tc_disconnecting := True\<rparr>)"

definition Disconnect_break :: "TcpClient \<Rightarrow> TcpClient" where
  "Disconnect_break c = (if tc_disconnecting c then SendBreak (c\<lparr>tc_disconnecting := False\<rparr>) else c)"

definition HaveDataRead :: "TcpClient \<Rightarrow> bool" where
  "HaveDataRead c \<longleftrightarrow> kTcpConnected = tc_status c \<and> tc_have_read_data c"

definition HaveDataWrite :: "TcpClient \<Rightarrow> bool" where
  "HaveDataWrite c \<longleftrightarrow> kTcpConnected = tc_status c \<and> tc_lst_buffer c \<noteq> []"

text \<open>\<open>received\<close> is what \<^verbatim>\<open>recv\<close> returns.\<close>

definition Read_locked :: "TcpClient \<Rightarrow> TcpClient" where
  "Read_locked c = SendBreak (c\<lparr>tc_have_read_data := False\<rparr>)"

definition TcpClient_Read :: "int \<Rightarrow> TcpClient \<Rightarrow> int \<times> TcpClient" where
  "TcpClient_Read received c =
     (if kTcpConnected \<noteq> tc_status c then (- 1, c) else (received, Read_locked c))"

definition push_buffer :: "AutoBuffer \<Rightarrow> TcpClient \<Rightarrow> int \<times> TcpClient" where
  "push_buffer b c = (let c1 = c\<lparr>tc_lst_buffer := tc_lst_buffer c @ [b], tc_writedbufid := to_int (tc_writedbufid c + 1),
     tc_accepted := tc_accepted c @ [content b]\<rparr> in (tc_writedbufid c1, SendBreak c1))"

definition TcpClient_Write :: "bytes \<Rightarrow> TcpClient \<Rightarrow> (int \<times> TcpClient) result" where
  "TcpClient_Write buf c =
     (if kTcpConnected \<noteq> tc_status c then Inr (- 1, c)
      else rbind (Write_at (AutoBuffer_new 128) 0 buf) (\<lambda>b. Inr (push_buffer b c)))"

definition TcpClient_WritePostData :: "bytes \<Rightarrow> TcpClient \<Rightarrow> int \<times> TcpClient" where
  "TcpClient_WritePostData buf c =
     (if kTcpConnected \<noteq> tc_status c then (- 1, c)
      else push_buffer (Attach (AutoBuffer_new 128) (Some buf) (length buf)) c)"

section \<open>The thread\<close>

record answers =
  an_ip_ok :: bool
  an_socket :: socket
  an_connect :: int
  an_errno :: int
  an_select :: int
  an_readable :: bool
  an_writable :: bool
  an_error :: bool
  an_so_error :: "int option"
  an_so_error_again :: "int option"
  an_peek :: int
  an_send :: int

definition EADDRNOTAVAIL :: int where "EADDRNOTAVAIL = 99"

definition tcp_fail :: "TTcpStatus \<Rightarrow> int \<Rightarrow> TcpClient \<Rightarrow> TcpClient" where
  "tcp_fail st err c = (tcp_call (OnError_ev st err) (c\<lparr>tc_status := st\<rparr>))\<lparr>tc_pc := W_Close\<rparr>"

definition tcp_disconnected :: "bool \<Rightarrow> TcpClient \<Rightarrow> TcpClient" where
  "tcp_disconnected isremote c = (tcp_call (OnDisConnect_ev isremote) (c\<lparr>tc_status := kTcpDisConnected\<rparr>))\<lparr>tc_pc := W_Close\<rparr>"

text \<open>\<^verbatim>\<open>socket_error\<close>: \<open>so\<close> is what \<^verbatim>\<open>getsockopt\<close> answers. The second read of one step has an answer of its own: reading
  \<^verbatim>\<open>SO_ERROR\<close> clears it.\<close>

definition client_socket_error :: "answers \<Rightarrow> int option \<Rightarrow> int" where
  "client_socket_error k so = (case so of None \<Rightarrow> an_errno k | Some e \<Rightarrow> e)"

definition client_connect_selected :: "answers \<Rightarrow> TcpClient \<Rightarrow> TcpClient" where
  "client_connect_selected k c =
     (let c1 = c\<lparr>tc_pipe := False\<rparr> in
      if an_select k = 0 then tcp_fail kTcpConnectTimeoutErr ETIMEDOUT c1
      else if an_select k < 0 then tcp_fail kTcpConnectingErr (an_errno k) c1
      else if an_error k then tcp_fail kTcpConnectingErr (client_socket_error k (an_so_error k)) c1
      else if an_writable k \<and> client_socket_error k (an_so_error k) \<noteq> 0
      then tcp_fail kTcpConnectingErr (client_socket_error k (an_so_error_again k)) c1
      else c1\<lparr>tc_pc := W_Connect_check\<rparr>)"

definition round_selected :: "answers \<Rightarrow> TcpClient \<Rightarrow> TcpClient" where
  "round_selected k c =
     (let c1 = c\<lparr>tc_pipe := False, tc_triggered := (an_readable k, an_writable k, an_error k)\<rparr> in
      if an_select k = 0 then c1\<lparr>tc_pc := W_Round\<rparr>
      else if an_select k < 0 then tcp_fail kTcpIOErr (an_errno k) c1
      else c1\<lparr>tc_pc := W_Disconnect_check\<rparr>)"

definition peek_read :: "answers \<Rightarrow> TcpClient \<Rightarrow> TcpClient" where
  "peek_read k c =
     (if 0 < an_peek k then c\<lparr>tc_have_read_data := True, tc_pc := W_On_read\<rparr>
      else if an_peek k = 0 then tcp_disconnected True (c\<lparr>tc_have_read_data := False\<rparr>)
      else if IS_NOBLOCK_READ_ERRNO (an_errno k) then c\<lparr>tc_pc := W_Write\<rparr>
      else tcp_fail kTcpIOErr (an_errno k) c)"

definition write_front :: "answers \<Rightarrow> TcpClient \<Rightarrow> TcpClient result" where
  "write_front k c = (case tc_lst_buffer c of
     [] \<Rightarrow> Inl Empty_Container
   | buf # bufs \<Rightarrow>
       let len = Length buf in
       if Pos buf < int len then
         rbind (PosPtr_bytes buf (to_size (int len - Pos buf))) (\<lambda>d.
           let send_len = an_send k in
           if send_len = 0 \<or> send_len < 0 \<and> \<not> IS_NOBLOCK_SEND_ERRNO (an_errno k) then Inr (tcp_fail kTcpIOErr (an_errno k) c)
           else if 0 < send_len then
             Inr (c\<lparr>tc_lst_buffer := Seek buf send_len ESeekCur # bufs, tc_sent := tc_sent c @ take (nat send_len) d, tc_pc := W_Round\<rparr>)
           else Inr (c\<lparr>tc_pc := W_Round\<rparr>))
       else Inr (c\<lparr>tc_lst_buffer := bufs, tc_pc := W_On_wrote len\<rparr>))"

definition worker_step :: "answers \<Rightarrow> TcpClient \<Rightarrow> TcpClient result" where
  "worker_step k c = (case tc_pc c of
     W_None \<Rightarrow> Inr c
   | W_Begin \<Rightarrow>
       (let c1 = c\<lparr>tc_status := kTcpConnecting\<rparr> in
        Inr (if \<not> an_ip_ok k then tcp_fail kTcpConnectIpErr EADDRNOTAVAIL c1 else c1\<lparr>tc_pc := W_Socket\<rparr>))
   | W_Socket \<Rightarrow>
       (let c1 = c\<lparr>tc_socket := an_socket k\<rparr> in
        Inr (if an_socket k = INVALID_SOCKET then tcp_fail kTcpConnectingErr (an_errno k) c1
             else c1\<lparr>tc_sockets := tc_sockets c @ [an_socket k], tc_pc := W_Connect\<rparr>))
   | W_Connect \<Rightarrow>
       Inr (if 0 > an_connect k \<and> \<not> IS_NOBLOCK_CONNECT_ERRNO (an_errno k) then tcp_fail kTcpConnectingErr (an_errno k) c
            else c\<lparr>tc_pc := W_Connecting\<rparr>)
   | W_Connecting \<Rightarrow> Inr (client_connect_selected k c)
   | W_Connect_check \<Rightarrow>
       Inr (if tc_will_disconnect c then tcp_disconnected False c
            else (tcp_call OnConnect_ev (c\<lparr>tc_status := kTcpConnected\<rparr>))\<lparr>tc_pc := W_Round\<rparr>)
   | W_Round \<Rightarrow> Inr (c\<lparr>tc_read_set := \<not> tc_have_read_data c, tc_pc := W_Write_set\<rparr>)
   | W_Write_set \<Rightarrow> Inr (c\<lparr>tc_write_set := tc_lst_buffer c \<noteq> [], tc_pc := W_Select\<rparr>)
   | W_Select \<Rightarrow> Inr (round_selected k c)
   | W_Disconnect_check \<Rightarrow>
       (case tc_triggered c of (readable, writable, err) \<Rightarrow>
        Inr (if tc_will_disconnect c then tcp_disconnected False c
             else if err then tcp_fail kTcpIOErr (case an_so_error k of None \<Rightarrow> 0 | Some e \<Rightarrow> e) c
             else c\<lparr>tc_pc := (if readable then W_Read else W_Write)\<rparr>))
   | W_Read \<Rightarrow> Inr (peek_read k c)
   | W_On_read \<Rightarrow> Inr ((tcp_call OnRead_ev c)\<lparr>tc_pc := W_Write\<rparr>)
   | W_Write \<Rightarrow> (case tc_triggered c of (_, writable, _) \<Rightarrow> if writable then write_front k c else Inr (c\<lparr>tc_pc := W_Round\<rparr>))
   | W_On_wrote len \<Rightarrow>
       (let i = to_int (tc_write_id c + 1) in
        Inr ((tcp_call (OnWrote_ev i (to_uint (int len))) (c\<lparr>tc_write_id := i\<rparr>))\<lparr>tc_pc := W_All_wrote\<rparr>))
   | W_All_wrote \<Rightarrow> Inr (c\<lparr>tc_pc := (if tc_lst_buffer c = [] then W_On_all_wrote else W_Round)\<rparr>)
   | W_On_all_wrote \<Rightarrow> Inr ((tcp_call OnAllWrote_ev c)\<lparr>tc_pc := W_Round\<rparr>)
   | W_Close \<Rightarrow>
       Inr (if INVALID_SOCKET \<noteq> tc_socket c
            then c\<lparr>tc_closed := tc_closed c @ [tc_socket c], tc_socket := INVALID_SOCKET, tc_pc := W_End\<rparr>
            else c\<lparr>tc_pc := W_End\<rparr>)
   | W_End \<Rightarrow> Inr c)"

section \<open>Runs\<close>

text \<open>What the kernel may answer: a select without a timeout that reports something has a reason, only what was asked for is
  ready, and \<^verbatim>\<open>send\<close> takes no more than it is given and less than 2 GB.\<close>

definition possible :: "answers \<Rightarrow> TcpClient \<Rightarrow> bool" where
  "possible k c \<longleftrightarrow>
     (tc_pc c = W_Select \<longrightarrow> an_select k \<noteq> 0 \<and> (an_readable k \<longrightarrow> 0 < an_select k) \<and> (an_writable k \<longrightarrow> tc_write_set c)
        \<and> (0 < an_select k \<longrightarrow> tc_pipe c \<or> an_readable k \<or> an_writable k \<or> an_error k))
     \<and> (case tc_lst_buffer c of [] \<Rightarrow> True | buf # _ \<Rightarrow> Pos buf < int (Length buf) \<longrightarrow> an_send k \<le> int (Length buf) - Pos buf) \<and> an_send k < 2 ^ 31"

text \<open>The calls look at \<^verbatim>\<open>status_\<close> before they take the mutex. \<open>Late_Read\<close> and \<open>Late_push\<close> are the rest of a call that saw
  \<^verbatim>\<open>kTcpConnected\<close> and goes on after the thread has changed it. \<open>Call_Break\<close> is the second half of \<^verbatim>\<open>Disconnect\<close>.\<close>

datatype tcp_step =
    Worker answers
  | Call_Connect bool
  | Call_Disconnect
  | Call_Break
  | Call_Read int
  | Late_Read
  | Call_Write bytes
  | Call_WritePostData bytes
  | Late_push bytes

fun tcp_allowed :: "tcp_step \<Rightarrow> TcpClient \<Rightarrow> bool" where
  "tcp_allowed (Worker k) c \<longleftrightarrow> possible k c"
| "tcp_allowed (Call_Write buf) c \<longleftrightarrow> length buf < 2 ^ 32"
| "tcp_allowed (Call_WritePostData buf) c \<longleftrightarrow> length buf < 2 ^ 32"
| "tcp_allowed (Late_push buf) c \<longleftrightarrow> length buf < 2 ^ 32 \<and> OnConnect_ev \<in> set (tc_log c)"
| "tcp_allowed Late_Read c \<longleftrightarrow> OnConnect_ev \<in> set (tc_log c)"
| "tcp_allowed _ c \<longleftrightarrow> True"

fun tcp_do :: "tcp_step \<Rightarrow> TcpClient \<Rightarrow> TcpClient result" where
  "tcp_do (Worker k) c = worker_step k c"
| "tcp_do (Call_Connect started) c = Inr (snd (TcpClient_Connect started c))"
| "tcp_do Call_Disconnect c = Inr (Disconnect_flag c)"
| "tcp_do Call_Break c = Inr (Disconnect_break c)"
| "tcp_do (Call_Read received) c = Inr (snd (TcpClient_Read received c))"
| "tcp_do Late_Read c = Inr (Read_locked c)"
| "tcp_do (Call_Write buf) c = rbind (TcpClient_Write buf c) (\<lambda>(_, c'). Inr c')"
| "tcp_do (Call_WritePostData buf) c = Inr (snd (TcpClient_WritePostData buf c))"
| "tcp_do (Late_push buf) c = rbind (Write_at (AutoBuffer_new 128) 0 buf) (\<lambda>b. Inr (snd (push_buffer b c)))"

inductive tcp_reach :: "TcpClient \<Rightarrow> bool" where
  tcp_new: "tcp_reach (TcpClient_new ok)"
| tcp_more: "tcp_reach c \<Longrightarrow> tcp_allowed e c \<Longrightarrow> tcp_do e c = Inr c' \<Longrightarrow> tcp_reach c'"

fun tcp_run :: "tcp_step list \<Rightarrow> TcpClient \<Rightarrow> TcpClient result" where
  "tcp_run [] c = Inr c"
| "tcp_run (e # es) c = rbind (tcp_do e c) (tcp_run es)"

fun run_allowed :: "tcp_step list \<Rightarrow> TcpClient \<Rightarrow> bool" where
  "run_allowed [] c \<longleftrightarrow> True"
| "run_allowed (e # es) c \<longleftrightarrow> tcp_allowed e c \<and> (case tcp_do e c of Inl _ \<Rightarrow> True | Inr c' \<Rightarrow> run_allowed es c')"

end
