(* ===== verification/Tcp_Client_Props.thy ===== *)
theory Tcp_Client_Props
  imports Tcp_Client
begin

text \<open>
  What \<^verbatim>\<open>TcpClient\<close> promises in every state that the thread and the calls of other threads can reach: the bytes and the buffers
  it has sent, in their order, no fault, no lost wake-up, the order of the events, the socket closed, and its end after
  \<^verbatim>\<open>Disconnect\<close>.
\<close>

section \<open>Buffers\<close>

lemma new_buffer_ok:
  assumes "length buf < 2 ^ 32"
  shows "\<exists>b. Write_at (AutoBuffer_new 128) 0 buf = Inr b \<and> wf_buf b \<and> cursor b = 0 \<and> content b = buf"
  using Write_at_ok [of "AutoBuffer_new 128" 0 buf] assms by (auto simp: wf_buf_new overwrite_def)

lemma attached_buffer_ok:
  assumes "length buf < 2 ^ 32"
  shows "wf_buf (Attach (AutoBuffer_new 128) (Some buf) (length buf))" "cursor (Attach (AutoBuffer_new 128) (Some buf) (length buf)) = 0"
    "content (Attach (AutoBuffer_new 128) (Some buf) (length buf)) = buf"
  using assms by (simp_all add: Attach_def Reset_def AutoBuffer_new_def wf_buf_def cursor_def content_def ab_block_def PTRDIFF_MAX_val)

definition is_wrote :: "tcp_event \<Rightarrow> bool" where
  "is_wrote e = (case e of OnWrote_ev _ _ \<Rightarrow> True | _ \<Rightarrow> False)"

lemma is_wrote_simps [simp]:
  "is_wrote (OnWrote_ev i n)" "\<not> is_wrote OnConnect_ev" "\<not> is_wrote (OnDisConnect_ev r)" "\<not> is_wrote (OnError_ev st e)"
  "\<not> is_wrote OnAllWrote_ev" "\<not> is_wrote OnRead_ev"
  by (simp_all add: is_wrote_def)

definition wrotes :: "TcpClient \<Rightarrow> tcp_event list" where
  "wrotes c = filter is_wrote (tc_log c)"

text \<open>The buffers that have left the list.\<close>

definition popped :: "TcpClient \<Rightarrow> nat" where
  "popped c = length (wrotes c) + (case tc_pc c of W_On_wrote _ \<Rightarrow> 1 | _ \<Rightarrow> 0)"

definition sent_of :: "AutoBuffer list \<Rightarrow> bytes" where
  "sent_of bs = (case bs of [] \<Rightarrow> [] | b # _ \<Rightarrow> take (cursor b) (content b))"

definition small_buf :: "AutoBuffer \<Rightarrow> bool" where
  "small_buf b \<longleftrightarrow> wf_buf b \<and> length (content b) < 2 ^ 32"

text \<open>The calls of \<^verbatim>\<open>OnWrote\<close> for the first \<open>n\<close> buffers.\<close>

definition acknowledged :: "bytes list \<Rightarrow> nat \<Rightarrow> tcp_event list" where
  "acknowledged acc n = map (\<lambda>i. OnWrote_ev (to_int (int i + 1)) (length (acc ! i))) [0..<n]"

lemma acknowledged_app: "n \<le> length acc \<Longrightarrow> acknowledged (acc @ as) n = acknowledged acc n"
  by (auto simp: acknowledged_def nth_append)

lemma acknowledged_Suc:
  "acknowledged acc (Suc n) = acknowledged acc n @ [OnWrote_ev (to_int (int n + 1)) (length (acc ! n))]"
  by (simp add: acknowledged_def)

text \<open>The queue: what is left of the accepted buffers, the first one partly sent.\<close>

definition outq_inv :: "nat \<Rightarrow> bytes list \<Rightarrow> AutoBuffer list \<Rightarrow> bytes \<Rightarrow> bool" where
  "outq_inv n acc bs out \<longleftrightarrow> n \<le> length acc \<and> map content bs = drop n acc \<and> (\<forall>b \<in> set bs. small_buf b) \<and> (\<forall>b \<in> set (tl bs). cursor b = 0)
     \<and> out = concat (take n acc) @ sent_of bs"

lemma outq_inv_push:
  assumes "outq_inv n acc bs out" "small_buf b" "cursor b = 0"
  shows "outq_inv n (acc @ [content b]) (bs @ [b]) out"
  using assms by (cases bs) (auto simp: outq_inv_def sent_of_def)

lemma outq_inv_sent:
  assumes "outq_inv n acc (b # bs) out" "k < 2 ^ 31" "nat k \<le> length (content b) - cursor b" "0 < k"
  shows "outq_inv n acc (Seek b k ESeekCur # bs) (out @ take (nat k) (drop (cursor b) (content b)))"
proof -
  have b: "wf_buf b" "length (content b) < 2 ^ 32" using assms(1) by (simp_all add: outq_inv_def small_buf_def)
  have c: "cursor (Seek b k ESeekCur) = cursor b + nat k"
    using cursor_Seek(2) [of b k] b assms(2-4) cursor_le [OF b(1)] by (simp add: nat_add_distrib)
  have "take (cursor b) (content b) @ take (nat k) (drop (cursor b) (content b)) = take (cursor b + nat k) (content b)"
    by (simp add: take_add)
  moreover have "small_buf (Seek b k ESeekCur)" using b assms(2,4) by (simp add: small_buf_def wf_Seek)
  ultimately show ?thesis using assms(1) c by (auto simp: outq_inv_def sent_of_def)
qed

lemma outq_inv_pop:
  assumes "outq_inv n acc (b # bs) out" "\<not> Pos b < int (Length b)"
  shows "outq_inv (Suc n) acc bs out" "n < length acc" "Length b = length (acc ! n)"
proof -
  have b: "wf_buf b" "\<forall>x \<in> set bs. cursor x = 0" using assms(1) by (simp_all add: outq_inv_def small_buf_def)
  have m: "content b # map content bs = drop n acc" "n \<le> length acc" "out = concat (take n acc) @ take (cursor b) (content b)"
    using assms(1) by (simp_all add: outq_inv_def sent_of_def)
  then show n: "n < length acc" by (metis drop_all leI list.distinct(1))
  then have h: "content b = acc ! n" "map content bs = drop (Suc n) acc"
    using m(1) by (simp_all add: Cons_nth_drop_Suc [symmetric])
  show "Length b = length (acc ! n)" using length_content [OF b(1)] h(1) by (simp add: Length_def)
  have "cursor b = length (content b)"
    using assms(2) length_content [OF b(1)] cursor_le [OF b(1)] by (simp add: cursor_def Pos_def Length_def)
  then have "out = concat (take (Suc n) acc)" using m(3) h(1) n by (simp add: take_Suc_conv_app_nth)
  moreover have "sent_of bs = []" using b(2) by (cases bs) (simp_all add: sent_of_def)
  ultimately show "outq_inv (Suc n) acc bs out" using assms(1) h(2) n by (cases bs) (auto simp: outq_inv_def)
qed

section \<open>The invariants of the state\<close>

fun late_pc :: "worker_pc \<Rightarrow> bool" where
  "late_pc W_Close = True" | "late_pc W_End = True" | "late_pc _ = False"

fun early_pc :: "worker_pc \<Rightarrow> bool" where
  "early_pc W_None = True" | "early_pc W_Begin = True" | "early_pc W_Socket = True" | "early_pc W_Connect = True"
| "early_pc W_Connecting = True" | "early_pc W_Connect_check = True" | "early_pc _ = False"

fun triggered_pc :: "worker_pc \<Rightarrow> bool" where
  "triggered_pc W_Disconnect_check = True" | "triggered_pc W_Read = True" | "triggered_pc W_On_read = True"
| "triggered_pc W_Write = True" | "triggered_pc _ = False"

definition buffers_inv :: "TcpClient \<Rightarrow> bool" where
  "buffers_inv c \<longleftrightarrow> outq_inv (popped c) (tc_accepted c) (tc_lst_buffer c) (tc_sent c)
     \<and> wrotes c = acknowledged (tc_accepted c) (length (wrotes c))
     \<and> (\<forall>n. tc_pc c = W_On_wrote n \<longrightarrow> n = length (tc_accepted c ! length (wrotes c)))
     \<and> tc_write_id c = to_int (int (length (wrotes c))) \<and> tc_writedbufid c = to_int (int (length (tc_accepted c)))
     \<and> (\<forall>a \<in> set (tc_accepted c). length a < 2 ^ 32)"

definition status_inv :: "TcpClient \<Rightarrow> bool" where
  "status_inv c \<longleftrightarrow> (tc_status c = kTcpConnected \<longleftrightarrow> \<not> early_pc (tc_pc c) \<and> \<not> late_pc (tc_pc c))
     \<and> (tc_status c = kTcpInit \<longrightarrow> tc_pc c = W_None)"

definition ready_inv :: "TcpClient \<Rightarrow> bool" where
  "ready_inv c \<longleftrightarrow> (tc_pc c = W_Select \<and> tc_write_set c \<longrightarrow> tc_lst_buffer c \<noteq> [])
     \<and> (triggered_pc (tc_pc c) \<and> fst (snd (tc_triggered c)) \<longrightarrow> tc_lst_buffer c \<noteq> [])"

definition read_wake :: "TcpClient \<Rightarrow> bool" where
  "read_wake c \<longleftrightarrow> tc_pc c \<in> {W_Write_set, W_Select} \<and> \<not> tc_have_read_data c \<longrightarrow> tc_read_set c \<or> tc_pipe c"

definition write_wake :: "TcpClient \<Rightarrow> bool" where
  "write_wake c \<longleftrightarrow> tc_pc c = W_Select \<and> tc_lst_buffer c \<noteq> [] \<longrightarrow> tc_write_set c \<or> tc_pipe c"

definition end_wake :: "TcpClient \<Rightarrow> bool" where
  "end_wake c \<longleftrightarrow> tc_will_disconnect c \<and> \<not> tc_disconnecting c \<longrightarrow>
     tc_pipe c \<or> tc_pc c \<in> {W_Connect_check, W_Disconnect_check, W_Close, W_End}"

definition socket_inv :: "TcpClient \<Rightarrow> bool" where
  "socket_inv c \<longleftrightarrow> tc_sockets c = tc_closed c @ (if tc_socket c = INVALID_SOCKET then [] else [tc_socket c])
     \<and> (tc_pc c \<in> {W_None, W_Begin, W_Socket, W_End} \<longrightarrow> tc_socket c = INVALID_SOCKET)"

definition is_last :: "tcp_event \<Rightarrow> bool" where
  "is_last e = (case e of OnDisConnect_ev _ \<Rightarrow> True | OnError_ev _ _ \<Rightarrow> True | _ \<Rightarrow> False)"

text \<open>The calls of the interface before the last one: \<^verbatim>\<open>OnConnect\<close> once and first, if at all.\<close>

definition proper_log :: "tcp_event list \<Rightarrow> bool" where
  "proper_log es \<longleftrightarrow> es = [] \<or> (\<exists>es'. es = OnConnect_ev # es' \<and> OnConnect_ev \<notin> set es' \<and> (\<forall>e \<in> set es'. \<not> is_last e))"

definition log_inv :: "TcpClient \<Rightarrow> bool" where
  "log_inv c \<longleftrightarrow> (early_pc (tc_pc c) \<longrightarrow> tc_log c = [])
     \<and> (\<not> early_pc (tc_pc c) \<and> \<not> late_pc (tc_pc c) \<longrightarrow> proper_log (tc_log c) \<and> tc_log c \<noteq> [])
     \<and> (late_pc (tc_pc c) \<longrightarrow> (\<exists>es e. tc_log c = es @ [e] \<and> proper_log es \<and> is_last e))"

definition tcp_inv :: "TcpClient \<Rightarrow> bool" where
  "tcp_inv c \<longleftrightarrow> buffers_inv c \<and> status_inv c \<and> ready_inv c \<and> read_wake c \<and> write_wake c \<and> end_wake c \<and> socket_inv c \<and> log_inv c"

lemma is_last_simps [simp]:
  "is_last (OnDisConnect_ev r)" "is_last (OnError_ev st e)" "\<not> is_last OnConnect_ev" "\<not> is_last (OnWrote_ev i n)"
  "\<not> is_last OnAllWrote_ev" "\<not> is_last OnRead_ev"
  by (simp_all add: is_last_def)

lemma proper_log_app: "proper_log es \<Longrightarrow> es \<noteq> [] \<Longrightarrow> \<not> is_last e \<Longrightarrow> e \<noteq> OnConnect_ev \<Longrightarrow> proper_log (es @ [e])"
  by (auto simp: proper_log_def)

lemma proper_log_start [simp]: "proper_log []" "proper_log [OnConnect_ev]"
  by (auto simp: proper_log_def)

section \<open>Every step keeps the invariants\<close>

lemma to_int_next: "to_int (to_int x + 1) = to_int (x + 1)"
  unfolding to_int_def by (simp add: mod_simps algebra_simps)

lemma write_front_ok:
  assumes "tc_lst_buffer c = b # bs" "small_buf b" "Pos b < int (Length b) \<longrightarrow> an_send k \<le> int (Length b) - Pos b"
  shows "write_front k c = Inr
     (if Pos b < int (Length b) then
        if an_send k = 0 \<or> an_send k < 0 \<and> \<not> IS_NOBLOCK_SEND_ERRNO (an_errno k) then tcp_fail kTcpIOErr (an_errno k) c
        else if 0 < an_send k then c\<lparr>tc_lst_buffer := Seek b (an_send k) ESeekCur # bs,
          tc_sent := tc_sent c @ take (nat (an_send k)) (drop (cursor b) (content b)), tc_pc := W_Round\<rparr>
        else c\<lparr>tc_pc := W_Round\<rparr>
      else c\<lparr>tc_lst_buffer := bs, tc_pc := W_On_wrote (Length b)\<rparr>)"
proof -
  have b: "wf_buf b" "length (content b) < 2 ^ 32" using assms(2) by (simp_all add: small_buf_def)
  define r where "r = length (content b) - cursor b"
  have "to_size (int (Length b) - Pos b) = r" "cursor b + r \<le> length (content b)"
    using b cursor_le [OF b(1)] int_cursor [OF b(1)] length_content [OF b(1)]
    by (simp_all add: r_def Length_def Pos_def to_size_def of_nat_diff nat_eq_iff)
  moreover have "Pos b < int (Length b) \<Longrightarrow> nat (an_send k) \<le> r"
    using assms(3) int_cursor [OF b(1)] length_content [OF b(1)] by (simp add: r_def Length_def Pos_def nat_le_iff)
  ultimately show ?thesis
    using assms(1) PosPtr_bytes_ok [OF b(1), of r] by (simp add: write_front_def Let_def min_absorb1 r_def)
qed

lemmas tcp_defs = tcp_fail_def tcp_disconnected_def tcp_call_def SendBreak_def client_connect_selected_def round_selected_def
  peek_read_def Let_def

lemma buffers_D:
  assumes "buffers_inv c"
  shows "outq_inv (popped c) (tc_accepted c) (tc_lst_buffer c) (tc_sent c)" "\<And>b. b \<in> set (tc_lst_buffer c) \<Longrightarrow> small_buf b"
  using assms by (auto simp: buffers_inv_def outq_inv_def)

lemma buffers_same:
  assumes "buffers_inv c" "tc_accepted c' = tc_accepted c" "tc_lst_buffer c' = tc_lst_buffer c" "tc_sent c' = tc_sent c"
    "wrotes c' = wrotes c" "tc_write_id c' = tc_write_id c" "tc_writedbufid c' = tc_writedbufid c"
    "tc_pc c' = tc_pc c \<or> (\<forall>n. tc_pc c \<noteq> W_On_wrote n \<and> tc_pc c' \<noteq> W_On_wrote n)"
  shows "buffers_inv c'"
proof -
  have "popped c' = popped c" using assms(5,8) by (auto simp: popped_def split: worker_pc.splits)
  then show ?thesis using assms by (auto simp: buffers_inv_def)
qed

lemma buffers_push:
  assumes "buffers_inv c" "small_buf b" "cursor b = 0"
  shows "buffers_inv (snd (push_buffer b c))"
proof -
  let ?c = "snd (push_buffer b c)"
  have f: "tc_accepted ?c = tc_accepted c @ [content b]" "tc_lst_buffer ?c = tc_lst_buffer c @ [b]" "tc_sent ?c = tc_sent c"
    "wrotes ?c = wrotes c" "tc_write_id ?c = tc_write_id c" "tc_writedbufid ?c = to_int (tc_writedbufid c + 1)" "tc_pc ?c = tc_pc c"
    by (simp_all add: push_buffer_def SendBreak_def Let_def wrotes_def)
  have p: "popped ?c = popped c" by (simp add: popped_def f)
  have n: "popped c \<le> length (tc_accepted c)" using assms(1) by (simp add: buffers_inv_def outq_inv_def)
  have q: "outq_inv (popped c) (tc_accepted c @ [content b]) (tc_lst_buffer c @ [b]) (tc_sent c)"
    using assms by (simp add: buffers_inv_def outq_inv_push)
  have le: "length (wrotes c) \<le> popped c" by (simp add: popped_def)
  have "acknowledged (tc_accepted c @ [content b]) (length (wrotes c)) = acknowledged (tc_accepted c) (length (wrotes c))"
    using n le by (intro acknowledged_app) simp
  moreover have "\<forall>m. tc_pc c = W_On_wrote m \<longrightarrow> m = length ((tc_accepted c @ [content b]) ! length (wrotes c))"
    using n assms(1) by (auto simp: popped_def buffers_inv_def nth_append)
  ultimately show ?thesis
    using assms q to_int_next [of "int (length (tc_accepted c))"]
    unfolding buffers_inv_def f p by (simp add: small_buf_def add.commute)
qed

lemma buffers_write:
  assumes "buffers_inv c" "tc_pc c = W_Write" "tc_lst_buffer c \<noteq> []" "possible k c" "write_front k c = Inr c'"
  shows "buffers_inv c'"
proof -
  obtain b bs where l: "tc_lst_buffer c = b # bs" using assms(3) by (auto simp: neq_Nil_conv)
  have q: "outq_inv (popped c) (tc_accepted c) (b # bs) (tc_sent c)" "small_buf b"
    using buffers_D [OF assms(1)] l by auto
  have b: "wf_buf b" using q(2) by (simp add: small_buf_def)
  have k: "Pos b < int (Length b) \<longrightarrow> an_send k \<le> int (Length b) - Pos b" "an_send k < 2 ^ 31" using assms(4) l by (simp_all add: possible_def)
  have kn: "Pos b < int (Length b) \<Longrightarrow> nat (an_send k) \<le> length (content b) - cursor b"
    using k int_cursor [OF b] length_content [OF b] by (simp add: Length_def Pos_def nat_le_iff)
  note w = write_front_ok [OF l q(2) k(1)]
  have p: "popped c = length (wrotes c)" using assms(2) by (simp add: popped_def)
  show ?thesis
  proof (cases "Pos b < int (Length b)")
    case True
    then show ?thesis
      using assms(1,2,5) w l q(1) outq_inv_sent [OF q(1) k(2) kn [OF True]] p
      by (auto simp: tcp_defs wrotes_def popped_def buffers_inv_def split: if_splits)
  next
    case False
    then have "c' = c\<lparr>tc_lst_buffer := bs, tc_pc := W_On_wrote (Length b)\<rparr>" using w assms(5) by simp
    then show ?thesis
      using assms(1) outq_inv_pop [OF q(1) False] p by (auto simp: wrotes_def popped_def buffers_inv_def)
  qed
qed

text \<open>A step of the thread other than a write is the value of a function, and changes the buffers only in \<^verbatim>\<open>OnWrote\<close>.\<close>

definition writes_now :: "TcpClient \<Rightarrow> bool" where
  "writes_now c \<longleftrightarrow> tc_pc c = W_Write \<and> fst (snd (tc_triggered c))"

lemma worker_write: "writes_now c \<Longrightarrow> worker_step k c = write_front k c"
  by (auto simp: writes_now_def worker_step_def split: prod.splits)

lemma worker_wrote:
  "tc_pc c = W_On_wrote n \<Longrightarrow> worker_step k c = Inr ((tcp_call (OnWrote_ev (to_int (tc_write_id c + 1)) (to_uint (int n)))
     (c\<lparr>tc_write_id := to_int (tc_write_id c + 1)\<rparr>))\<lparr>tc_pc := W_All_wrote\<rparr>)"
  by (simp add: worker_step_def Let_def)

lemma worker_other:
  assumes "\<not> writes_now c" "\<And>n. tc_pc c \<noteq> W_On_wrote n"
  obtains c' where "worker_step k c = Inr c'" "tc_accepted c' = tc_accepted c" "tc_lst_buffer c' = tc_lst_buffer c"
    "tc_sent c' = tc_sent c" "wrotes c' = wrotes c" "tc_write_id c' = tc_write_id c" "tc_writedbufid c' = tc_writedbufid c"
    "tc_will_disconnect c' = tc_will_disconnect c" "tc_disconnecting c' = tc_disconnecting c" "\<And>n. tc_pc c' \<noteq> W_On_wrote n"
proof -
  obtain r w e where "tc_triggered c = (r, w, e)" using prod_cases3 by blast
  then have "\<exists>c'. worker_step k c = Inr c' \<and> tc_accepted c' = tc_accepted c \<and> tc_lst_buffer c' = tc_lst_buffer c
    \<and> tc_sent c' = tc_sent c \<and> wrotes c' = wrotes c \<and> tc_write_id c' = tc_write_id c \<and> tc_writedbufid c' = tc_writedbufid c
    \<and> tc_will_disconnect c' = tc_will_disconnect c \<and> tc_disconnecting c' = tc_disconnecting c \<and> (\<forall>n. tc_pc c' \<noteq> W_On_wrote n)"
    using assms by (cases "tc_pc c") (auto simp: worker_step_def tcp_defs wrotes_def writes_now_def)
  then show ?thesis using that by blast
qed

lemma buffers_worker:
  assumes "buffers_inv c" "ready_inv c" "possible k c" "worker_step k c = Inr c'"
  shows "buffers_inv c'"
proof (cases "writes_now c")
  case True
  then show ?thesis
    using assms buffers_write [of c k c'] worker_write [OF True] by (simp add: writes_now_def ready_inv_def)
next
  case nw: False
  show ?thesis
  proof (cases "\<exists>n. tc_pc c = W_On_wrote n")
    case True
    then obtain n where n: "tc_pc c = W_On_wrote n" by blast
    have p: "popped c = Suc (length (wrotes c))" by (simp add: popped_def n)
    have l: "length (wrotes c) < length (tc_accepted c)" "n = length (tc_accepted c ! length (wrotes c))"
      using assms(1) n p by (simp_all add: buffers_inv_def outq_inv_def)
    have "length (tc_accepted c ! length (wrotes c)) < 2 ^ 32" using assms(1) l(1) by (simp add: buffers_inv_def)
    then have u: "to_uint (int n) = n" using to_uint_id [of "int n"] l(2) by simp
    have c': "c' = (tcp_call (OnWrote_ev (to_int (tc_write_id c + 1)) n) (c\<lparr>tc_write_id := to_int (tc_write_id c + 1)\<rparr>))\<lparr>tc_pc := W_All_wrote\<rparr>"
      using assms(4) worker_wrote [OF n, of k] u by simp
    have i: "to_int (tc_write_id c + 1) = to_int (int (length (wrotes c)) + 1)"
      using assms(1) to_int_next by (simp add: buffers_inv_def)
    have w: "wrotes c' = wrotes c @ [OnWrote_ev (to_int (int (length (wrotes c)) + 1)) n]"
      by (simp add: c' wrotes_def tcp_call_def i)
    have "popped c' = popped c" unfolding p by (simp add: popped_def w) (simp add: c' tcp_call_def)
    then show ?thesis
      using assms(1) w l(2) i by (simp add: buffers_inv_def acknowledged_Suc) (simp add: c' tcp_call_def add.commute)
  next
    case False
    then obtain d where d: "worker_step k c = Inr d" "tc_accepted d = tc_accepted c" "tc_lst_buffer d = tc_lst_buffer c"
        "tc_sent d = tc_sent c" "wrotes d = wrotes c" "tc_write_id d = tc_write_id c" "tc_writedbufid d = tc_writedbufid c"
        "\<And>n. tc_pc d \<noteq> W_On_wrote n"
      using worker_other [OF nw, of k] by metis
    then show ?thesis using assms(4) False by (intro buffers_same [OF assms(1)]) auto
  qed
qed

text \<open>The other invariants do not look inside the buffers: what a write does to the rest of the state.\<close>

lemma worker_writes:
  assumes "buffers_inv c" "tc_lst_buffer c \<noteq> []" "possible k c" "writes_now c" "worker_step k c = Inr c'"
  obtains "c' = tcp_fail kTcpIOErr (an_errno k) c"
    | bs out pc where "c' = c\<lparr>tc_lst_buffer := bs, tc_sent := out, tc_pc := pc\<rparr>" "pc = W_Round \<or> (\<exists>n. pc = W_On_wrote n)"
proof -
  obtain b bs where l: "tc_lst_buffer c = b # bs" using assms(2) by (auto simp: neq_Nil_conv)
  have q: "small_buf b" using buffers_D(2) [OF assms(1)] l by simp
  have k: "Pos b < int (Length b) \<longrightarrow> an_send k \<le> int (Length b) - Pos b" using assms(3) l by (simp add: possible_def)
  have "c' = c\<lparr>tc_lst_buffer := tc_lst_buffer c', tc_sent := tc_sent c', tc_pc := tc_pc c'\<rparr> \<and> (tc_pc c' = W_Round \<or> (\<exists>n. tc_pc c' = W_On_wrote n))"
    if "c' \<noteq> tcp_fail kTcpIOErr (an_errno k) c"
    using assms(5) that unfolding worker_write [OF assms(4)] write_front_ok [OF l q k] by (auto split: if_splits)
  then show ?thesis using that by blast
qed

lemma worker_keeps:
  assumes "buffers_inv c" "ready_inv c" "possible k c" "worker_step k c = Inr c'"
    "writes_now c \<Longrightarrow> P (tcp_fail kTcpIOErr (an_errno k) c)"
    "\<And>bs out pc. writes_now c \<Longrightarrow> pc = W_Round \<or> (\<exists>n. pc = W_On_wrote n) \<Longrightarrow> P (c\<lparr>tc_lst_buffer := bs, tc_sent := out, tc_pc := pc\<rparr>)"
    "\<not> writes_now c \<Longrightarrow> P c'"
  shows "P c'"
proof (cases "writes_now c")
  case True
  then have "tc_lst_buffer c \<noteq> []" using assms(2) by (simp add: writes_now_def ready_inv_def)
  from worker_writes [OF assms(1) this assms(3) True assms(4)] show ?thesis
    using True assms(5,6) by cases auto
qed (use assms(7) in blast)

lemma possible_select: "possible k c \<Longrightarrow> tc_pc c = W_Select \<longrightarrow> an_select k \<noteq> 0 \<and> (an_writable k \<longrightarrow> tc_write_set c)"
  by (simp add: possible_def)

lemma status_inv_worker:
  assumes "buffers_inv c" "ready_inv c" "possible k c" "worker_step k c = Inr c'" "status_inv c"
  shows "status_inv c'"
proof (rule worker_keeps [OF assms(1-4)])
  assume "\<not> writes_now c"
  then show "status_inv c'"
    using assms(4,5) by (cases "tc_pc c") (auto simp: worker_step_def tcp_defs status_inv_def writes_now_def split: if_splits prod.splits)
qed (use assms(5) in \<open>auto simp: status_inv_def writes_now_def tcp_defs\<close>)

lemma ready_inv_worker:
  assumes "buffers_inv c" "ready_inv c" "possible k c" "worker_step k c = Inr c'" "ready_inv c"
  shows "ready_inv c'"
proof (rule worker_keeps [OF assms(1-4)])
  assume "\<not> writes_now c"
  then show "ready_inv c'"
    using assms(4,5) possible_select [OF assms(3)] by (cases "tc_pc c") (auto simp: worker_step_def tcp_defs ready_inv_def writes_now_def split: if_splits prod.splits)
qed (use assms(5) in \<open>auto simp: ready_inv_def writes_now_def tcp_defs\<close>)

lemma read_wake_worker:
  assumes "buffers_inv c" "ready_inv c" "possible k c" "worker_step k c = Inr c'" "read_wake c"
  shows "read_wake c'"
proof (rule worker_keeps [OF assms(1-4)])
  assume "\<not> writes_now c"
  then show "read_wake c'"
    using assms(4,5) by (cases "tc_pc c") (auto simp: worker_step_def tcp_defs read_wake_def writes_now_def split: if_splits prod.splits)
qed (use assms(5) in \<open>auto simp: read_wake_def writes_now_def tcp_defs\<close>)

lemma write_wake_worker:
  assumes "buffers_inv c" "ready_inv c" "possible k c" "worker_step k c = Inr c'" "write_wake c"
  shows "write_wake c'"
proof (rule worker_keeps [OF assms(1-4)])
  assume "\<not> writes_now c"
  then show "write_wake c'"
    using assms(4,5) by (cases "tc_pc c") (auto simp: worker_step_def tcp_defs write_wake_def writes_now_def split: if_splits prod.splits)
qed (use assms(5) in \<open>auto simp: write_wake_def writes_now_def tcp_defs\<close>)

lemma end_wake_worker:
  assumes "buffers_inv c" "ready_inv c" "possible k c" "worker_step k c = Inr c'" "end_wake c"
  shows "end_wake c'"
proof (rule worker_keeps [OF assms(1-4)])
  assume "\<not> writes_now c"
  then show "end_wake c'"
    using assms(4,5) possible_select [OF assms(3)] by (cases "tc_pc c") (auto simp: worker_step_def tcp_defs end_wake_def writes_now_def split: if_splits prod.splits)
qed (use assms(5) in \<open>auto simp: end_wake_def writes_now_def tcp_defs\<close>)

lemma socket_inv_worker:
  assumes "buffers_inv c" "ready_inv c" "possible k c" "worker_step k c = Inr c'" "socket_inv c"
  shows "socket_inv c'"
proof (rule worker_keeps [OF assms(1-4)])
  assume "\<not> writes_now c"
  then show "socket_inv c'"
    using assms(4,5) by (cases "tc_pc c") (auto simp: worker_step_def tcp_defs socket_inv_def writes_now_def split: if_splits prod.splits)
qed (use assms(5) in \<open>auto simp: socket_inv_def writes_now_def tcp_defs\<close>)

lemma early_late: "early_pc p \<Longrightarrow> \<not> late_pc p"
  by (cases p) simp_all

lemma log_inv_add:
  assumes "log_inv c" "\<not> early_pc (tc_pc c)" "\<not> late_pc (tc_pc c)"
  shows "is_last e \<Longrightarrow> tc_log c' = tc_log c @ [e] \<Longrightarrow> tc_pc c' = W_Close \<Longrightarrow> log_inv c'"
    "\<not> is_last e \<Longrightarrow> e \<noteq> OnConnect_ev \<Longrightarrow> tc_log c' = tc_log c @ [e] \<Longrightarrow> \<not> early_pc (tc_pc c') \<Longrightarrow> \<not> late_pc (tc_pc c') \<Longrightarrow> log_inv c'"
    "tc_log c' = tc_log c \<Longrightarrow> \<not> early_pc (tc_pc c') \<Longrightarrow> \<not> late_pc (tc_pc c') \<Longrightarrow> log_inv c'"
  using assms by (auto simp: log_inv_def intro: proper_log_app)

lemma log_inv_first:
  assumes "log_inv c" "early_pc (tc_pc c)"
  shows "is_last e \<Longrightarrow> tc_log c' = tc_log c @ [e] \<Longrightarrow> tc_pc c' = W_Close \<Longrightarrow> log_inv c'"
    "tc_log c' = tc_log c \<Longrightarrow> early_pc (tc_pc c') \<Longrightarrow> log_inv c'"
    "tc_log c' = tc_log c @ [OnConnect_ev] \<Longrightarrow> tc_pc c' = W_Round \<Longrightarrow> log_inv c'"
proof -
  have l: "tc_log c = []" using assms by (simp add: log_inv_def)
  show "is_last e \<Longrightarrow> tc_log c' = tc_log c @ [e] \<Longrightarrow> tc_pc c' = W_Close \<Longrightarrow> log_inv c'"
    unfolding log_inv_def l by (intro conjI impI exI [of _ "[]"] exI [of _ e]) simp_all
  show "tc_log c' = tc_log c \<Longrightarrow> early_pc (tc_pc c') \<Longrightarrow> log_inv c'"
    unfolding log_inv_def l using early_late by simp
  show "tc_log c' = tc_log c @ [OnConnect_ev] \<Longrightarrow> tc_pc c' = W_Round \<Longrightarrow> log_inv c'"
    unfolding log_inv_def l by simp
qed

lemma log_inv_end: "log_inv c \<Longrightarrow> late_pc (tc_pc c) \<Longrightarrow> tc_log c' = tc_log c \<Longrightarrow> late_pc (tc_pc c') \<Longrightarrow> log_inv c'"
  using early_late by (auto simp: log_inv_def)

lemma log_inv_worker:
  assumes "buffers_inv c" "ready_inv c" "possible k c" "worker_step k c = Inr c'" "log_inv c"
  shows "log_inv c'"
proof (rule worker_keeps [OF assms(1-4)])
  assume nw: "\<not> writes_now c"
  obtain r w e where "tc_triggered c = (r, w, e)" using prod_cases3 by blast
  note step = this assms(4) nw and defs = worker_step_def tcp_defs writes_now_def
  consider (early) "early_pc (tc_pc c)" | (late) "late_pc (tc_pc c)" | (mid) "\<not> early_pc (tc_pc c)" "\<not> late_pc (tc_pc c)" by blast
  then show "log_inv c'"
  proof cases
    case early
    have "(\<exists>x. is_last x \<and> tc_log c' = tc_log c @ [x] \<and> tc_pc c' = W_Close) \<or> tc_log c' = tc_log c \<and> early_pc (tc_pc c')
        \<or> tc_log c' = tc_log c @ [OnConnect_ev] \<and> tc_pc c' = W_Round"
      using early step by (cases "tc_pc c") (auto simp: defs split: if_splits)
    then show ?thesis using log_inv_first [OF assms(5) early] by blast
  next
    case late
    have "tc_log c' = tc_log c \<and> late_pc (tc_pc c')" using late step by (cases "tc_pc c") (auto simp: defs split: if_splits)
    then show ?thesis using log_inv_end [OF assms(5) late] by blast
  next
    case mid
    have "(\<exists>x. is_last x \<and> tc_log c' = tc_log c @ [x] \<and> tc_pc c' = W_Close)
        \<or> (\<exists>x. \<not> is_last x \<and> x \<noteq> OnConnect_ev \<and> tc_log c' = tc_log c @ [x]) \<and> \<not> early_pc (tc_pc c') \<and> \<not> late_pc (tc_pc c')
        \<or> tc_log c' = tc_log c \<and> \<not> early_pc (tc_pc c') \<and> \<not> late_pc (tc_pc c')"
      using mid step by (cases "tc_pc c") (auto simp: defs split: if_splits)
    then show ?thesis using log_inv_add [OF assms(5) mid] by blast
  qed
next
  assume w: "writes_now c"
  then have m: "\<not> early_pc (tc_pc c)" "\<not> late_pc (tc_pc c)" by (simp_all add: writes_now_def)
  show "log_inv (tcp_fail kTcpIOErr (an_errno k) c)"
    by (rule log_inv_add(1) [OF assms(5) m, of "OnError_ev kTcpIOErr (an_errno k)"]) (simp_all add: tcp_defs)
  show "log_inv (c\<lparr>tc_lst_buffer := bs, tc_sent := out, tc_pc := pc\<rparr>)" if "pc = W_Round \<or> (\<exists>n. pc = W_On_wrote n)" for bs out pc
    using that by (intro log_inv_add(3) [OF assms(5) m]) auto
qed

lemma worker_total:
  assumes "buffers_inv c" "ready_inv c" "possible k c"
  shows "\<exists>c'. worker_step k c = Inr c'"
proof (cases "writes_now c")
  case True
  then have "tc_lst_buffer c \<noteq> []" using assms(2) by (simp add: writes_now_def ready_inv_def)
  then obtain b bs where l: "tc_lst_buffer c = b # bs" by (auto simp: neq_Nil_conv)
  have "small_buf b" "Pos b < int (Length b) \<longrightarrow> an_send k \<le> int (Length b) - Pos b" using buffers_D(2) [OF assms(1)] assms(3) l by (simp_all add: possible_def)
  then show ?thesis using worker_write [OF True] write_front_ok [OF l] by simp
next
  case False
  then show ?thesis using worker_wrote worker_other [of c k] by metis
qed

lemma tcp_inv_D:
  assumes "tcp_inv c"
  shows "buffers_inv c" "status_inv c" "ready_inv c" "read_wake c" "write_wake c" "end_wake c" "socket_inv c" "log_inv c"
  using assms by (simp_all add: tcp_inv_def)

lemma tcp_inv_worker:
  assumes "tcp_inv c" "possible k c" "worker_step k c = Inr c'"
  shows "tcp_inv c'"
proof -
  note i = tcp_inv_D [OF assms(1)] and r = assms(2,3)
  show ?thesis
    unfolding tcp_inv_def
    using buffers_worker [OF i(1,3) r] status_inv_worker [OF i(1,3) r i(2)] ready_inv_worker [OF i(1,3) r i(3)]
      read_wake_worker [OF i(1,3) r i(4)] write_wake_worker [OF i(1,3) r i(5)] end_wake_worker [OF i(1,3) r i(6)]
      socket_inv_worker [OF i(1,3) r i(7)] log_inv_worker [OF i(1,3) r i(8)]
    by blast
qed

text \<open>What a call of another thread leaves alone.\<close>

definition call_frame :: "TcpClient \<Rightarrow> TcpClient \<Rightarrow> bool" where
  "call_frame c c' \<longleftrightarrow> tc_status c' = tc_status c \<and> tc_pc c' = tc_pc c \<and> tc_log c' = tc_log c \<and> tc_socket c' = tc_socket c
     \<and> tc_sockets c' = tc_sockets c \<and> tc_closed c' = tc_closed c \<and> tc_write_set c' = tc_write_set c
     \<and> tc_triggered c' = tc_triggered c \<and> (tc_lst_buffer c \<noteq> [] \<longrightarrow> tc_lst_buffer c' \<noteq> [])"

lemma tcp_inv_framed:
  assumes "tcp_inv c" "call_frame c c'" "buffers_inv c'" "read_wake c'" "write_wake c'" "end_wake c'"
  shows "tcp_inv c'"
  using assms unfolding tcp_inv_def call_frame_def status_inv_def ready_inv_def socket_inv_def log_inv_def by simp

lemma tcp_inv_push:
  assumes "tcp_inv c" "small_buf b" "cursor b = 0"
  shows "tcp_inv (snd (push_buffer b c))"
proof (rule tcp_inv_framed [OF assms(1)])
  show "buffers_inv (snd (push_buffer b c))" using buffers_push [OF tcp_inv_D(1) [OF assms(1)] assms(2,3)] .
qed (use tcp_inv_D(6) [OF assms(1)] in
  \<open>simp_all add: call_frame_def push_buffer_def SendBreak_def Let_def read_wake_def write_wake_def end_wake_def\<close>)

lemma tcp_inv_SendBreak:
  assumes "tcp_inv c" "c' = c\<lparr>tc_pipe := True, tc_have_read_data := h, tc_will_disconnect := w, tc_disconnecting := d\<rparr>"
  shows "tcp_inv c'"
proof (rule tcp_inv_framed [OF assms(1)])
  show "buffers_inv c'" by (rule buffers_same [OF tcp_inv_D(1) [OF assms(1)]]) (simp_all add: assms(2) wrotes_def)
qed (simp_all add: assms(2) call_frame_def read_wake_def write_wake_def end_wake_def)

lemma tcp_inv_Disconnect_flag:
  assumes "tcp_inv c"
  shows "tcp_inv (Disconnect_flag c)"
proof (rule tcp_inv_framed [OF assms])
  show "buffers_inv (Disconnect_flag c)"
    by (rule buffers_same [OF tcp_inv_D(1) [OF assms]]) (simp_all add: Disconnect_flag_def wrotes_def)
qed (use tcp_inv_D [OF assms] in \<open>simp_all add: Disconnect_flag_def call_frame_def read_wake_def write_wake_def end_wake_def\<close>)

lemma tcp_inv_Connect:
  assumes "tcp_inv c"
  shows "tcp_inv (snd (TcpClient_Connect started c))"
proof (cases "tc_status c = kTcpInit")
  case True
  let ?c = "snd (TcpClient_Connect started c)"
  have p: "tc_pc c = W_None" "tc_pc ?c = (if started then W_Begin else W_None)"
    using True tcp_inv_D(2) [OF assms] by (simp_all add: TcpClient_Connect_def status_inv_def)
  have "buffers_inv ?c"
    by (rule buffers_same [OF tcp_inv_D(1) [OF assms]]) (use p in \<open>simp_all add: TcpClient_Connect_def wrotes_def\<close>)
  then show ?thesis
    using p tcp_inv_D(2-8) [OF assms] True
    unfolding tcp_inv_def status_inv_def ready_inv_def read_wake_def write_wake_def end_wake_def socket_inv_def log_inv_def
    by (simp add: TcpClient_Connect_def)
next
  case False
  then show ?thesis using assms by (simp add: TcpClient_Connect_def)
qed

lemma SendBreak_forms:
  "SendBreak c = c\<lparr>tc_pipe := True, tc_have_read_data := tc_have_read_data c, tc_will_disconnect := tc_will_disconnect c,
     tc_disconnecting := tc_disconnecting c\<rparr>"
  "SendBreak (c\<lparr>tc_disconnecting := False\<rparr>) = c\<lparr>tc_pipe := True, tc_have_read_data := tc_have_read_data c,
     tc_will_disconnect := tc_will_disconnect c, tc_disconnecting := False\<rparr>"
  "Read_locked c = c\<lparr>tc_pipe := True, tc_have_read_data := False, tc_will_disconnect := tc_will_disconnect c,
     tc_disconnecting := tc_disconnecting c\<rparr>"
  by (simp_all add: SendBreak_def Read_locked_def)

lemma tcp_inv_pushes:
  assumes "tcp_inv c" "length buf < 2 ^ 32"
  shows "\<exists>b. Write_at (AutoBuffer_new 128) 0 buf = Inr b \<and> tcp_inv (snd (push_buffer b c))"
    "tcp_inv (snd (push_buffer (Attach (AutoBuffer_new 128) (Some buf) (length buf)) c))"
  using new_buffer_ok [OF assms(2)] attached_buffer_ok [OF assms(2)] assms tcp_inv_push [OF assms(1)]
  by (auto simp: small_buf_def)

lemma tcp_inv_step:
  assumes "tcp_inv c" "tcp_allowed e c"
  shows "\<exists>c'. tcp_do e c = Inr c' \<and> tcp_inv c'"
proof (cases e)
  case (Worker k)
  then obtain c' where "worker_step k c = Inr c'"
    using assms worker_total [OF tcp_inv_D(1,3) [OF assms(1)]] by auto
  then show ?thesis using Worker assms tcp_inv_worker [OF assms(1)] by auto
next
  case (Call_Connect st)
  then show ?thesis using tcp_inv_Connect [OF assms(1)] by simp
next
  case Call_Disconnect
  then show ?thesis using tcp_inv_Disconnect_flag [OF assms(1)] by simp
next
  case Call_Break
  then show ?thesis using assms(1) tcp_inv_SendBreak [OF assms(1) SendBreak_forms(2)] by (simp add: Disconnect_break_def)
next
  case (Call_Read r)
  then show ?thesis using assms(1) tcp_inv_SendBreak [OF assms(1) SendBreak_forms(3)] by (simp add: TcpClient_Read_def)
next
  case Late_Read
  then show ?thesis using tcp_inv_SendBreak [OF assms(1) SendBreak_forms(3)] by simp
next
  case (Call_Write buf)
  then show ?thesis using assms tcp_inv_pushes(1) [OF assms(1), of buf] by (auto simp: TcpClient_Write_def split: prod.splits)
next
  case (Call_WritePostData buf)
  then show ?thesis using assms tcp_inv_pushes(2) [OF assms(1), of buf] by (simp add: TcpClient_WritePostData_def)
next
  case (Late_push buf)
  then show ?thesis using assms tcp_inv_pushes(1) [OF assms(1), of buf] by auto
qed

lemma tcp_inv_new: "tcp_inv (TcpClient_new ok)"
  by (simp add: tcp_inv_def TcpClient_new_def buffers_inv_def outq_inv_def sent_of_def popped_def wrotes_def acknowledged_def to_int_def
      status_inv_def ready_inv_def read_wake_def write_wake_def end_wake_def socket_inv_def log_inv_def)

lemma tcp_reach_inv: "tcp_reach c \<Longrightarrow> tcp_inv c"
  by (induction rule: tcp_reach.induct) (use tcp_inv_new tcp_inv_step in fastforce)+

lemma tcp_reach_run: "tcp_reach c \<Longrightarrow> run_allowed es c \<Longrightarrow> \<exists>c'. tcp_run es c = Inr c' \<and> tcp_reach c'"
proof (induction es arbitrary: c)
  case (Cons e es)
  then obtain d where d: "tcp_do e c = Inr d" using tcp_inv_step [OF tcp_reach_inv] by fastforce
  then have "tcp_reach d" "run_allowed es d" using Cons.prems tcp_more by (auto split: sum.splits)
  then show ?case using Cons.IH d by simp
qed simp

section \<open>The end\<close>

text \<open>How many steps of its own the thread is from its end when \<^verbatim>\<open>Disconnect\<close> is over.\<close>

fun steps_left :: "worker_pc \<Rightarrow> nat" where
  "steps_left W_End = 0" | "steps_left W_Close = 1" | "steps_left W_Disconnect_check = 2" | "steps_left W_Select = 3"
| "steps_left W_Write_set = 4" | "steps_left W_Round = 5" | "steps_left W_On_all_wrote = 6" | "steps_left W_All_wrote = 7"
| "steps_left (W_On_wrote n) = 8" | "steps_left W_Write = 9" | "steps_left W_On_read = 10" | "steps_left W_Read = 11"
| "steps_left W_Connect_check = 2" | "steps_left W_Connecting = 3" | "steps_left W_Connect = 4" | "steps_left W_Socket = 5"
| "steps_left W_Begin = 6" | "steps_left W_None = 0"

definition stopping :: "TcpClient \<Rightarrow> bool" where
  "stopping c \<longleftrightarrow> tc_will_disconnect c \<and> tc_pc c \<noteq> W_None"

lemma stopping_worker:
  assumes "tcp_inv c" "stopping c" "possible k c" "worker_step k c = Inr c'"
  shows "stopping c' \<and> steps_left (tc_pc c') \<le> steps_left (tc_pc c) - 1"
proof (rule worker_keeps [OF tcp_inv_D(1,3) [OF assms(1)] assms(3,4)])
  assume "\<not> writes_now c"
  then show "stopping c' \<and> steps_left (tc_pc c') \<le> steps_left (tc_pc c) - 1"
    using assms(2,4) possible_select [OF assms(3)]
    by (cases "tc_pc c") (auto simp: worker_step_def tcp_defs stopping_def writes_now_def split: if_splits prod.splits)
qed (use assms(2) in \<open>auto simp: stopping_def writes_now_def tcp_defs\<close>)

lemma stopping_call:
  assumes "tcp_inv c" "stopping c" "tcp_do e c = Inr c'" "\<And>k. e \<noteq> Worker k"
  shows "stopping c' \<and> tc_pc c' = tc_pc c"
proof -
  have "tc_status c \<noteq> kTcpInit" using assms(2) tcp_inv_D(2) [OF assms(1)] by (auto simp: stopping_def status_inv_def)
  then show ?thesis
    using assms(2-4)
    by (cases e) (auto simp: stopping_def TcpClient_Connect_def Disconnect_flag_def Disconnect_break_def TcpClient_Read_def Read_locked_def
        TcpClient_Write_def TcpClient_WritePostData_def push_buffer_def SendBreak_def Let_def rbind_eq_Inr_iff split: if_splits)
qed

fun is_Worker :: "tcp_step \<Rightarrow> bool" where
  "is_Worker (Worker k) = True" | "is_Worker _ = False"

lemma stopping_run:
  "tcp_reach c \<Longrightarrow> stopping c \<Longrightarrow> run_allowed es c \<Longrightarrow> tcp_run es c = Inr c'
   \<Longrightarrow> stopping c' \<and> steps_left (tc_pc c') \<le> steps_left (tc_pc c) - length (filter is_Worker es)"
proof (induction es arbitrary: c)
  case (Cons e es)
  obtain d where d: "tcp_do e c = Inr d" "tcp_run es d = Inr c'" using Cons.prems(4) by (auto simp: rbind_eq_Inr_iff)
  have r: "tcp_reach d" "run_allowed es d" using Cons.prems d tcp_more by auto
  have s: "stopping d \<and> steps_left (tc_pc d) \<le> steps_left (tc_pc c) - (if is_Worker e then 1 else 0)"
    using stopping_worker [OF tcp_reach_inv [OF Cons.prems(1)] Cons.prems(2)] stopping_call [OF tcp_reach_inv [OF Cons.prems(1)] Cons.prems(2) d(1)]
      Cons.prems(3) d(1) by (cases e) auto
  show ?case using Cons.IH [OF r(1) _ r(2) d(2)] s by auto
qed simp

section \<open>What the client promises\<close>

text \<open>
  C6: the bytes given to \<^verbatim>\<open>send\<close> are a prefix of the accepted buffers one after the other, in the order of their identifiers, and
  \<^verbatim>\<open>OnWrote\<close> was called once for each of the first buffers, with the identifier that \<^verbatim>\<open>Write\<close> returned for it and its length, only
  after all its bytes were sent.
\<close>

theorem TcpClient_sends_in_order:
  assumes "tcp_reach c"
  defines "n \<equiv> length (wrotes c)"
  shows "tc_sent c = take (length (tc_sent c)) (concat (tc_accepted c))
    \<and> wrotes c = map (\<lambda>i. OnWrote_ev (to_int (int i + 1)) (length (tc_accepted c ! i))) [0..<n]
    \<and> n \<le> length (tc_accepted c) \<and> length (concat (take n (tc_accepted c))) \<le> length (tc_sent c)
    \<and> tc_writedbufid c = to_int (int (length (tc_accepted c)))"
proof -
  have b: "buffers_inv c" using tcp_inv_D(1) [OF tcp_reach_inv [OF assms(1)]] .
  have q: "outq_inv (popped c) (tc_accepted c) (tc_lst_buffer c) (tc_sent c)" using buffers_D(1) [OF b] .
  let ?p = "concat (take (popped c) (tc_accepted c))"
  have split: "concat (tc_accepted c) = ?p @ concat (map content (tc_lst_buffer c))"
    using q by (simp add: outq_inv_def flip: concat_append)
  have "tc_sent c = ?p @ sent_of (tc_lst_buffer c)" using q by (simp add: outq_inv_def)
  moreover have "take (length (sent_of bs)) (concat (map content bs)) = sent_of bs" for bs
    by (cases bs) (auto simp: sent_of_def min_def)
  ultimately have "tc_sent c = take (length (tc_sent c)) (concat (tc_accepted c))" by (simp add: split)
  moreover have le: "n \<le> popped c" by (simp add: popped_def n_def)
  moreover have "length (concat (take n (tc_accepted c))) \<le> length ?p"
    using le by (metis append_take_drop_id concat_append length_append le_add1 min.absorb1 take_take)
  moreover have "length ?p \<le> length (tc_sent c)" "popped c \<le> length (tc_accepted c)" using q by (simp_all add: outq_inv_def)
  ultimately show ?thesis using b by (simp add: buffers_inv_def n_def acknowledged_def)
qed

lemma TcpClient_Write_accepts:
  assumes "tcp_reach c" "tc_status c = kTcpConnected" "length buf < 2 ^ 32"
  shows "\<exists>c'. TcpClient_Write buf c = Inr (to_int (int (length (tc_accepted c)) + 1), c') \<and> tc_accepted c' = tc_accepted c @ [buf]"
  using new_buffer_ok [OF assms(3)] assms(2) tcp_inv_D(1) [OF tcp_reach_inv [OF assms(1)]]
  by (auto simp: TcpClient_Write_def push_buffer_def SendBreak_def Let_def buffers_inv_def to_int_next)

text \<open>
  C7: no wake-up is lost. Whenever the thread waits, a buffer to write, a reader that is waiting and a finished \<^verbatim>\<open>Disconnect\<close> are
  each known to the wait or have broken it, wherever the calls fell between the steps of the thread.
\<close>

theorem TcpClient_no_lost_wakeup:
  assumes "tcp_reach c" "tc_pc c = W_Select"
  shows "(tc_lst_buffer c \<noteq> [] \<longrightarrow> tc_write_set c \<or> tc_pipe c) \<and> (\<not> tc_have_read_data c \<longrightarrow> tc_read_set c \<or> tc_pipe c)
    \<and> (tc_will_disconnect c \<and> \<not> tc_disconnecting c \<longrightarrow> tc_pipe c)"
  using tcp_inv_D(4-6) [OF tcp_reach_inv [OF assms(1)]] assms(2) by (auto simp: read_wake_def write_wake_def end_wake_def)

text \<open>
  C17: the calls of \<^verbatim>\<open>MTcpEvent\<close> come in the order a user relies on: \<^verbatim>\<open>OnConnect\<close> at most once and first, one \<^verbatim>\<open>OnError\<close> or
  \<^verbatim>\<open>OnDisConnect\<close> as the last call and exactly when the thread is ending; every socket is closed once, at the end; and no step
  of the thread or of a caller faults: the list of buffers is never read when it is empty.
\<close>

theorem TcpClient_protocol:
  assumes "tcp_reach c" "tcp_allowed e c"
  shows "(\<exists>c'. tcp_do e c = Inr c')
    \<and> OnConnect_ev \<notin> set (tl (tc_log c)) \<and> (\<forall>x \<in> set (butlast (tc_log c)). \<not> is_last x)
    \<and> (tc_log c = [] \<or> hd (tc_log c) = OnConnect_ev \<or> length (tc_log c) = 1 \<and> is_last (hd (tc_log c)))
    \<and> (tc_pc c \<in> {W_Close, W_End} \<longleftrightarrow> tc_log c \<noteq> [] \<and> is_last (last (tc_log c)))
    \<and> tc_sockets c = tc_closed c @ (if tc_socket c = INVALID_SOCKET then [] else [tc_socket c])
    \<and> (tc_pc c = W_End \<longrightarrow> tc_closed c = tc_sockets c)"
proof -
  note i = tcp_reach_inv [OF assms(1)]
  have "\<exists>c'. tcp_do e c = Inr c'" using tcp_inv_step [OF i assms(2)] by blast
  moreover have "tc_pc c \<in> {W_Close, W_End} \<longleftrightarrow> late_pc (tc_pc c)" by (cases "tc_pc c") simp_all
  moreover have "OnConnect_ev \<notin> set (tl (tc_log c)) \<and> (\<forall>x \<in> set (butlast (tc_log c)). \<not> is_last x)
      \<and> (tc_log c = [] \<or> hd (tc_log c) = OnConnect_ev \<or> length (tc_log c) = 1 \<and> is_last (hd (tc_log c)))
      \<and> (late_pc (tc_pc c) \<longleftrightarrow> tc_log c \<noteq> [] \<and> is_last (last (tc_log c)))"
  proof (cases "late_pc (tc_pc c)")
    case True
    then obtain es x where l: "tc_log c = es @ [x]" "proper_log es" "is_last x" using tcp_inv_D(8) [OF i] by (auto simp: log_inv_def)
    then show ?thesis using True by (auto simp: proper_log_def)
  next
    case False
    then have "proper_log (tc_log c)" using tcp_inv_D(8) [OF i] by (auto simp: log_inv_def)
    then show ?thesis using False by (auto simp: proper_log_def dest!: in_set_butlastD split: if_splits)
  qed
  ultimately show ?thesis using tcp_inv_D(7) [OF i] by (simp add: socket_inv_def)
qed

text \<open>
  C18: after \<^verbatim>\<open>Disconnect\<close> the thread ends by itself: within eleven of its own steps, whatever the kernel answers and whatever other
  threads call in between, its socket is closed and the last event has been delivered. With the wake-up that no wait
  loses, \<^verbatim>\<open>DisconnectAndWait\<close> returns.
\<close>

theorem TcpClient_Disconnect_ends:
  assumes "tcp_reach c" "tc_will_disconnect c" "tc_pc c \<noteq> W_None" "run_allowed es c" "11 \<le> length (filter is_Worker es)"
  shows "\<exists>c'. tcp_run es c = Inr c' \<and> tc_pc c' = W_End \<and> tc_socket c' = INVALID_SOCKET \<and> tc_closed c' = tc_sockets c'
    \<and> is_last (last (tc_log c'))"
proof -
  obtain c' where c: "tcp_run es c = Inr c'" "tcp_reach c'" using tcp_reach_run [OF assms(1,4)] by blast
  have "steps_left (tc_pc c) \<le> 11" by (cases "tc_pc c") simp_all
  then have "steps_left (tc_pc c') = 0" "tc_pc c' \<noteq> W_None"
    using stopping_run [OF assms(1) _ assms(4) c(1)] assms(2,3,5) by (simp_all add: stopping_def)
  then have "tc_pc c' = W_End" by (cases "tc_pc c'") simp_all
  then show ?thesis
    using c(1) tcp_inv_D(7,8) [OF tcp_reach_inv [OF c(2)]] by (auto simp: socket_inv_def log_inv_def)
qed

section \<open>A run\<close>

text \<open>A client that connects, accepts two bytes, sends them one by one and reports the buffer.\<close>

definition ex_answers :: answers where
  "ex_answers = \<lparr>an_ip_ok = True, an_socket = 5, an_connect = -1, an_errno = EINPROGRESS, an_select = 1, an_readable = False,
     an_writable = True, an_error = False, an_so_error = Some 0, an_so_error_again = Some 0, an_peek = 1, an_send = 1\<rparr>"

definition ex_connect :: "tcp_step list" where
  "ex_connect = [Call_Connect True, Worker ex_answers, Worker ex_answers, Worker ex_answers, Worker ex_answers, Worker ex_answers,
     Call_WritePostData [1, 2], Worker ex_answers, Worker ex_answers]"

text \<open>From the first wait to the wait after the last event, a round being the set for reading, the set for writing, the wait,
  \<^verbatim>\<open>will_disconnect_\<close>, the write.\<close>

definition ex_send :: "tcp_step list" where
  "ex_send = (let w = Worker ex_answers in
     [w, w, w] @ [w, w, w, w, w] @ [w, w, w, w, w] @ [w, w, w])"

definition ex_client :: "tcp_step list \<Rightarrow> TcpClient" where
  "ex_client es = (case tcp_run es (TcpClient_new True) of Inl _ \<Rightarrow> TcpClient_new True | Inr c \<Rightarrow> c)"

lemma ex_client_reach: "run_allowed es (TcpClient_new True) \<Longrightarrow> tcp_reach (ex_client es)"
  using tcp_reach_run [OF tcp_new] by (fastforce simp: ex_client_def)

lemmas ex_defs = ex_client_def ex_connect_def ex_send_def ex_answers_def TcpClient_new_def TcpClient_Connect_def TcpClient_WritePostData_def
  worker_step_def tcp_defs push_buffer_def possible_def write_front_def Attach_def Reset_def AutoBuffer_new_def Length_def Pos_def
  PosPtr_bytes_def Ptr_bytes_def ab_block_def content_def Seek_def to_size_def to_off_def to_int_def to_uint_def INVALID_SOCKET_def
  client_socket_error_def EINPROGRESS_def IS_NOBLOCK_CONNECT_ERRNO_def IS_NOBLOCK_SEND_ERRNO_def IS_NOBLOCK_WRITE_ERRNO_def

lemma ex_allowed: "run_allowed ex_connect (TcpClient_new True)" "run_allowed (ex_connect @ ex_send) (TcpClient_new True)"
  by (simp_all add: ex_defs)

lemma ex_values:
  "tc_pc (ex_client ex_connect) = W_Select" "tc_have_read_data (ex_client ex_connect) = False" "tc_lst_buffer (ex_client ex_connect) \<noteq> []"
  "tc_sent (ex_client (ex_connect @ ex_send)) = [1, 2]"
  "tc_log (ex_client (ex_connect @ ex_send)) = [OnConnect_ev, OnWrote_ev 1 2, OnAllWrote_ev]"
  "tc_accepted (ex_client (ex_connect @ ex_send)) = [[1, 2]]"
  by (simp_all add: ex_defs)

definition ex_end :: "tcp_step list" where
  "ex_end = (let w = Worker ex_answers in [w, w, w, w, w, w, w, w, w, w, w])"

lemma ex_end_workers: "11 \<le> length (filter is_Worker ex_end)"
  by (simp add: ex_end_def Let_def)

lemma ex_ends: "run_allowed ex_end (ex_client (ex_connect @ [Call_Disconnect]))"
    "run_allowed (ex_connect @ [Call_Disconnect]) (TcpClient_new True)" "tc_will_disconnect (ex_client (ex_connect @ [Call_Disconnect]))"
    "tc_pc (ex_client (ex_connect @ [Call_Disconnect])) = W_Select"
  by (simp_all add: ex_defs ex_end_def Disconnect_flag_def)

theorem TcpClient_sends_in_order_witness:
  "(let c = ex_client (ex_connect @ ex_send) in tc_sent c = [1, 2] \<and> wrotes c = [OnWrote_ev 1 2]
    \<and> tc_sent c = take 2 (concat (tc_accepted c)) \<and> 1 \<le> length (tc_accepted c))"
  using TcpClient_sends_in_order [OF ex_client_reach [OF ex_allowed(2)]] by (simp add: ex_values wrotes_def to_int_def)

theorem TcpClient_no_lost_wakeup_witness:
  "tc_lst_buffer (ex_client ex_connect) \<noteq> []
    \<and> (tc_write_set (ex_client ex_connect) \<or> tc_pipe (ex_client ex_connect)) \<and> (tc_read_set (ex_client ex_connect) \<or> tc_pipe (ex_client ex_connect))"
  using TcpClient_no_lost_wakeup [OF ex_client_reach [OF ex_allowed(1)] ex_values(1)] ex_values(2,3) by simp

theorem TcpClient_protocol_witness:
  "(\<exists>c'. tcp_do (Call_Read 0) (ex_client (ex_connect @ ex_send)) = Inr c')
    \<and> OnConnect_ev \<notin> set (tl (tc_log (ex_client (ex_connect @ ex_send))))
    \<and> length (tc_log (ex_client (ex_connect @ ex_send))) = 3"
  using TcpClient_protocol [OF ex_client_reach [OF ex_allowed(2)], of "Call_Read 0"] by (simp add: ex_values)

theorem TcpClient_Disconnect_ends_witness:
  "\<exists>c'. tcp_run ex_end (ex_client (ex_connect @ [Call_Disconnect])) = Inr c' \<and> tc_pc c' = W_End
    \<and> tc_closed c' = tc_sockets c'"
  using TcpClient_Disconnect_ends [OF ex_client_reach [OF ex_ends(2)] ex_ends(3) _ ex_ends(1) ex_end_workers] ex_ends(4) by auto

text \<open>
  \<^verbatim>\<open>socket_error\<close> is read twice when a connect has failed, and reading \<^verbatim>\<open>SO_ERROR\<close> clears it: with a kernel that does so a refused
  connection is reported with the error code 0.
\<close>

lemma TcpClient_refused_reports_zero:
  assumes "tc_pc c = W_Connecting" "0 < an_select k" "\<not> an_error k" "an_writable k" "an_so_error k = Some e" "e \<noteq> 0"
    "an_so_error_again k = Some 0"
  shows "\<exists>c'. worker_step k c = Inr c' \<and> tc_log c' = tc_log c @ [OnError_ev kTcpConnectingErr 0]"
  using assms by (simp add: worker_step_def tcp_defs client_socket_error_def)

end
