(* ===== verification/String_Cast.thy ===== *)
theory String_Cast
  imports Str_Util Http_Headers
begin

text \<open>
  The conversions between numbers and text of src/mars/comm/string_cast.h: \<^verbatim>\<open>string_cast_itoa\<close> with the block it writes into,
  \<^verbatim>\<open>string_cast\<close> and \<^verbatim>\<open>number_cast\<close>. An integer type is its bounds. \<^verbatim>\<open>strtoimax\<close> and \<^verbatim>\<open>strtoumax\<close> with base 0 are those of the C
  library. The floating point conversions (\<^verbatim>\<open>%E\<close>, \<^verbatim>\<open>strtod\<close>) are left out. The lemmas give the digits that are printed, their
  number, and that a printed number is read back.
\<close>

section \<open>Printing\<close>

text \<open>The division of C rounds towards zero. In \<^verbatim>\<open>35 + tmp_value - quotient * base\<close> a sum that wraps around wraps back.\<close>

definition cdiv :: "int \<Rightarrow> int \<Rightarrow> int" where
  "cdiv x b = sgn x * (\<bar>x\<bar> div b)"

definition num_mapping :: "bool \<Rightarrow> string" where
  "num_mapping upper_case =
     (if upper_case then ''ZYXWVUTSRQPONMLKJIHGFEDCBA9876543210123456789ABCDEFGHIJKLMNOPQRSTUVWXYZ''
      else ''zyxwvutsrqponmlkjihgfedcba9876543210123456789abcdefghijklmnopqrstuvwxyz'')"

text \<open>The \<^verbatim>\<open>do\<close> loop: the characters in the order they are written. The base has been checked, the test is for the recursion only.\<close>

function itoa_loop :: "bool \<Rightarrow> int \<Rightarrow> int \<Rightarrow> string" where
  "itoa_loop upper_case base tmp_value =
     (let quotient = cdiv tmp_value base;
          c = num_mapping upper_case ! nat (35 + tmp_value - quotient * base)
      in c # (if quotient \<noteq> 0 \<and> 2 \<le> base then itoa_loop upper_case base quotient else []))"
  by auto
termination
proof (relation "measure (\<lambda>(_, _, v). nat \<bar>v\<bar>)", simp)
  fix base v q :: int
  assume q: "q = cdiv v base" "q \<noteq> 0 \<and> 2 \<le> base"
  then have "\<bar>q\<bar> = \<bar>v\<bar> div base" "v \<noteq> 0" by (auto simp: cdiv_def abs_mult abs_sgn_eq pos_imp_zdiv_nonneg_iff)
  moreover have "\<bar>v\<bar> div base < \<bar>v\<bar>" using q(2) \<open>v \<noteq> 0\<close> by (intro int_div_less_self) auto
  ultimately show "((u, base, q), u, base, v) \<in> measure (\<lambda>(_, _, v). nat \<bar>v\<bar>)" for u by simp
qed

declare itoa_loop.simps [simp del]

text \<open>The loop that turns the text around, between two indices.\<close>

function turn_loop :: "string \<Rightarrow> nat \<Rightarrow> nat \<Rightarrow> string" where
  "turn_loop s ptr_left ptr_right =
     (if ptr_left < ptr_right then turn_loop (s[ptr_right := s ! ptr_left, ptr_left := s ! ptr_right]) (Suc ptr_left) (ptr_right - 1) else s)"
  by auto
termination by (relation "measure (\<lambda>(_, l, r). r - l)") auto

declare turn_loop.simps [simp del]

text \<open>The text that is left in a block of \<open>room\<close> bytes.\<close>

definition string_cast_itoa :: "nat \<Rightarrow> int \<Rightarrow> nat \<Rightarrow> bool \<Rightarrow> string result" where
  "string_cast_itoa room v base upper_case =
     (if \<not> (2 \<le> base \<and> base \<le> 36) then
        if room < 9 then Inl Out_Of_Bounds else Inr ''itoa err''
      else
        let s = itoa_loop upper_case (int base) v @ (if v < 0 then ''-'' else []) in
        if room < length s + 1 then Inl Out_Of_Bounds else Inr (turn_loop s 0 (length s - 1)))"

definition value_cache_size :: nat where "value_cache_size = 65"

definition string_cast_int :: "int \<Rightarrow> nat \<Rightarrow> string result" where
  "string_cast_int v base = string_cast_itoa value_cache_size v base True"

definition string_cast_char :: "char \<Rightarrow> string" where
  "string_cast_char c = c_str [c]"

definition string_cast_bool :: "bool \<Rightarrow> string" where
  "string_cast_bool b = (if b then ''true'' else ''false'')"

definition string_cast_ptr :: "nat \<Rightarrow> string result" where
  "string_cast_ptr p = rbind (string_cast_itoa (value_cache_size - 2) (int p) 16 True) (\<lambda>s. Inr (''0x'' @ s))"

definition string_cast_str :: "string \<Rightarrow> string" where
  "string_cast_str s = c_str s"

section \<open>Reading\<close>

definition digit_val :: "char \<Rightarrow> nat option" where
  "digit_val c = (if isdigit c then Some (of_char c - 48) else if islower c then Some (of_char c - 87)
     else if isupper c then Some (of_char c - 55) else None)"

definition digit_in :: "nat \<Rightarrow> char \<Rightarrow> bool" where
  "digit_in base c = (case digit_val c of None \<Rightarrow> False | Some v \<Rightarrow> v < base)"

definition digits_value :: "nat \<Rightarrow> string \<Rightarrow> nat" where
  "digits_value base s = foldl (\<lambda>a c. a * base + (case digit_val c of None \<Rightarrow> 0 | Some v \<Rightarrow> v)) 0 s"

text \<open>The base that the prefix gives, and the rest of the text.\<close>

definition auto_base :: "string \<Rightarrow> nat \<times> string" where
  "auto_base s = (case s of
     z # x # d # cs \<Rightarrow>
       if z = CHR ''0'' \<and> (x = CHR ''x'' \<or> x = CHR ''X'') \<and> digit_in 16 d then (16, d # cs)
       else if z = CHR ''0'' then (8, s) else (10, s)
   | z # cs \<Rightarrow> if z = CHR ''0'' then (8, s) else (10, s)
   | [] \<Rightarrow> (10, s))"

text \<open>The sign and the magnitude, \<open>None\<close> when there is no number at the front (\<^verbatim>\<open>end == str\<close>).\<close>

definition strto_scan :: "string \<Rightarrow> (bool \<times> nat) option" where
  "strto_scan s =
     (let t = dropWhile isspace s;
          neg = (t \<noteq> [] \<and> hd t = CHR ''-'');
          u = (if t \<noteq> [] \<and> (hd t = CHR ''-'' \<or> hd t = CHR ''+'') then tl t else t)
      in case auto_base u of (base, w) \<Rightarrow>
           let ds = takeWhile (digit_in base) w in
           if ds = [] then None else Some (neg, digits_value base ds))"

definition strtoimax :: "string \<Rightarrow> int option" where
  "strtoimax s = map_option (\<lambda>(neg, n). if neg then max (- (2 ^ 63)) (- int n) else min (2 ^ 63 - 1) (int n)) (strto_scan s)"

definition strtoumax :: "string \<Rightarrow> int option" where
  "strtoumax s = map_option (\<lambda>(neg, n). if 2 ^ 64 \<le> int n then 2 ^ 64 - 1 else if neg then (- int n) mod 2 ^ 64 else int n) (strto_scan s)"

text \<open>The value and \<^verbatim>\<open>valid()\<close>; a null pointer is \<open>None\<close>.\<close>

definition signed_number_cast :: "int \<Rightarrow> int \<Rightarrow> string option \<Rightarrow> int \<times> bool" where
  "signed_number_cast lo hi str = (case str of
     None \<Rightarrow> (0, False)
   | Some s \<Rightarrow> (case strtoimax (c_str s) of
       None \<Rightarrow> (0, False)
     | Some v \<Rightarrow> if v < lo then (lo, False) else if hi < v then (hi, False) else (v, True)))"

definition unsigned_number_cast :: "int \<Rightarrow> string option \<Rightarrow> int \<times> bool" where
  "unsigned_number_cast hi str = (case str of
     None \<Rightarrow> (0, False)
   | Some s \<Rightarrow> (case strtoumax (c_str s) of
       None \<Rightarrow> (0, False)
     | Some v \<Rightarrow> if v < 0 then (0, False) else if hi < v then (hi, False) else (v, True)))"

definition number_cast_cstr :: "string option \<Rightarrow> string option \<times> bool" where
  "number_cast_cstr str = (case str of None \<Rightarrow> (None, False) | Some s \<Rightarrow> (Some s, True))"

definition number_cast_bool :: "string option \<Rightarrow> bool \<times> bool" where
  "number_cast_bool str = (case str of
     None \<Rightarrow> (False, False)
   | Some s \<Rightarrow> (case SplitToken (c_str s) default_delimiters [] of
       [] \<Rightarrow> (False, False)
     | w # _ \<Rightarrow>
         let r = (if w = ''1'' \<or> 0 = strcasecmp ''true'' (c_str w) then (True, True) else (False, False)) in
         if w = ''0'' \<or> 0 = strcasecmp ''false'' (c_str w) then (False, True) else r))"

section \<open>The text that is printed\<close>

lemma div_shrinks:
  assumes "n div b \<noteq> 0" "2 \<le> (b :: nat)"
  shows "n div b < n" "n \<noteq> 0"
proof -
  show n: "n \<noteq> 0" using assms(1) by (metis div_0)
  show "n div b < n" by (rule div_less_dividend) (use assms(2) n in simp_all)
qed

text \<open>The digits of a number, the last one first.\<close>

function base_digits :: "nat \<Rightarrow> nat \<Rightarrow> nat list" where
  "base_digits b n = (n mod b) # (if n div b = 0 \<or> b < 2 then [] else base_digits b (n div b))"
  by auto
termination
proof (relation "measure snd", simp)
  fix b n :: nat
  assume "\<not> (n div b = 0 \<or> b < 2)"
  then have "n div b < n" by (intro div_shrinks(1)) auto
  then show "((b, n div b), b, n) \<in> measure snd" by simp
qed

declare base_digits.simps [simp del]

definition digit_char :: "bool \<Rightarrow> nat \<Rightarrow> char" where
  "digit_char up d = num_mapping up ! (35 + d)"

lemma num_mapping_symmetric: "d < 36 \<Longrightarrow> num_mapping up ! (35 - d) = digit_char up d"
proof -
  have "\<forall>d \<in> set [0..<36]. num_mapping True ! (35 - d) = num_mapping True ! (35 + d) \<and> num_mapping False ! (35 - d) = num_mapping False ! (35 + d)"
    by code_simp
  then show "d < 36 \<Longrightarrow> num_mapping up ! (35 - d) = digit_char up d" by (cases up) (auto simp: digit_char_def)
qed

lemma digit_val_char: "d < 36 \<Longrightarrow> digit_val (digit_char up d) = Some d"
proof -
  have "\<forall>d \<in> set [0..<36]. digit_val (num_mapping True ! (35 + d)) = Some d \<and> digit_val (num_mapping False ! (35 + d)) = Some d"
    by code_simp
  then show "d < 36 \<Longrightarrow> digit_val (digit_char up d) = Some d" by (cases up) (auto simp: digit_char_def)
qed

lemma cdiv_int: "cdiv (int n) (int b) = int (n div b)" "cdiv (- int n) (int b) = - int (n div b)"
  by (auto simp: cdiv_def zdiv_int sgn_if)

lemma itoa_loop_eq:
  assumes "2 \<le> b" "b \<le> 36"
  shows "itoa_loop up (int b) (int n) = map (digit_char up) (base_digits b n)"
    "itoa_loop up (int b) (- int n) = map (digit_char up) (base_digits b n)"
proof (induction n rule: less_induct)
  case (less n)
  have m: "n mod b < 36" using assms mod_less_divisor [of b n] by linarith
  have "int n - int (n div b) * int b = int (n mod b)" by (simp add: zmod_int zdiv_int minus_div_mult_eq_mod)
  then have i: "nat (35 + int n - int (n div b) * int b) = 35 + n mod b" "nat (35 + - int n - (- int (n div b)) * int b) = 35 - n mod b"
    by linarith+
  note d = div_shrinks(1) [OF _ assms(1), of n]
  {
    case 1
    show ?case
      unfolding itoa_loop.simps [of up "int b" "int n"] base_digits.simps [of b n] Let_def cdiv_int i
      using less.IH(1) [OF d] assms by (auto simp: digit_char_def)
  next
    case 2
    show ?case
      unfolding itoa_loop.simps [of up "int b" "- int n"] base_digits.simps [of b n] Let_def cdiv_int i
      using less.IH(2) [OF d] assms num_mapping_symmetric [OF m] by auto
  }
qed

lemma turn_loop_eq:
  assumes "length a = l" "length xs = Suc r - l" "l \<le> Suc r"
  shows "turn_loop (a @ xs @ c) l r = a @ rev xs @ c"
  using assms
proof (induction "r - l" arbitrary: l r a xs c rule: less_induct)
  case less
  show ?case
  proof (cases "l < r")
    case True
    obtain x ys where x: "xs = x # ys" using less.prems True by (cases xs) auto
    obtain zs y where y: "ys = zs @ [y]" using less.prems True x by (cases ys rule: rev_cases) auto
    have l: "length zs = r - Suc l" using less.prems x y True by simp
    have u: "(a @ xs @ c)[r := (a @ xs @ c) ! l, l := (a @ xs @ c) ! r] = (a @ [y]) @ zs @ (x # c)"
      using less.prems(1) l True by (cases "r - length a") (auto simp: x y nth_append list_update_append)
    have "turn_loop ((a @ [y]) @ zs @ (x # c)) (Suc l) (r - 1) = (a @ [y]) @ rev zs @ (x # c)"
      by (rule less.hyps) (use less.prems(1) l True in auto)
    then show ?thesis using True u by (simp add: turn_loop.simps [of _ l r] x y)
  next
    case False
    then have "length xs \<le> 1" using less.prems by auto
    then have "rev xs = xs" by (cases xs) auto
    then show ?thesis using False by (simp add: turn_loop.simps [of _ l r])
  qed
qed

lemma turn_loop_rev: "s \<noteq> [] \<Longrightarrow> turn_loop s 0 (length s - 1) = rev s"
  using turn_loop_eq [of "[]" 0 s "length s - 1" "[]"] by (cases s) simp_all

text \<open>What \<^verbatim>\<open>string_cast_itoa\<close> writes: the sign and the digits of the magnitude.\<close>

definition number_text :: "bool \<Rightarrow> nat \<Rightarrow> int \<Rightarrow> string" where
  "number_text up b v = (if v < 0 then ''-'' else []) @ map (digit_char up) (rev (base_digits b (nat \<bar>v\<bar>)))"

lemma itoa_loop_text:
  assumes "2 \<le> b" "b \<le> 36"
  shows "itoa_loop up (int b) v = map (digit_char up) (base_digits b (nat \<bar>v\<bar>))"
  using itoa_loop_eq [OF assms, of up "nat \<bar>v\<bar>"] by (cases "0 \<le> v") auto

lemma base_digits_nonempty [simp]: "base_digits b n \<noteq> []"
  by (simp add: base_digits.simps [of b n])

lemma string_cast_itoa_text:
  assumes "2 \<le> b" "b \<le> 36"
  shows "string_cast_itoa room v b up = (if room < length (number_text up b v) + 1 then Inl Out_Of_Bounds else Inr (number_text up b v))"
proof -
  let ?s = "itoa_loop up (int b) v @ (if v < 0 then ''-'' else [])"
  have "?s \<noteq> []" by (simp add: itoa_loop_text [OF assms])
  from turn_loop_rev [OF this] show ?thesis
    using assms by (simp add: string_cast_itoa_def Let_def itoa_loop_text number_text_def rev_map)
qed

lemma length_base_digits:
  assumes "2 \<le> b"
  shows "length (base_digits b n) \<le> k \<longleftrightarrow> 0 < k \<and> n < b ^ k"
proof (induction k arbitrary: n)
  case (Suc k)
  have "n div b < b ^ k \<longleftrightarrow> n < b ^ Suc k" using assms by (simp add: div_less_iff_less_mult mult.commute)
  moreover have "n div b = 0 \<Longrightarrow> n < b ^ Suc k"
    using assms by (metis calculation div_eq_0_iff less_le_trans not_numeral_le_zero one_le_numeral one_le_power power_Suc self_le_power zero_less_Suc le_trans)
  moreover have "length (base_digits b n) \<le> Suc k \<longleftrightarrow> n div b = 0 \<or> length (base_digits b (n div b)) \<le> k"
    using assms by (simp add: base_digits.simps [of b n])
  ultimately show ?case using Suc.IH [of "n div b"] by (cases k) auto
qed simp

section \<open>What is printed is read back\<close>

lemma base_digits_less: "2 \<le> b \<Longrightarrow> d \<in> set (base_digits b n) \<Longrightarrow> d < b"
proof (induction n rule: less_induct)
  case (less n)
  show ?case
  proof (cases "d = n mod b")
    case False
    then have "n div b \<noteq> 0" "d \<in> set (base_digits b (n div b))"
      using less.prems(2) unfolding base_digits.simps [of b n] by (simp_all split: if_splits)
    then show ?thesis using less.IH [OF div_shrinks(1) [OF _ less.prems(1)] less.prems(1)] by blast
  qed (use less.prems(1) in simp)
qed

lemma base_digits_one: "2 \<le> b \<Longrightarrow> n div b = 0 \<Longrightarrow> base_digits b n = [n]"
  by (simp add: base_digits.simps [of b n] div_eq_0_iff)

lemma base_digits_more: "2 \<le> b \<Longrightarrow> n div b \<noteq> 0 \<Longrightarrow> base_digits b n = (n mod b) # base_digits b (n div b)"
  unfolding base_digits.simps [of b n] by simp

lemma last_base_digits: "2 \<le> b \<Longrightarrow> last (base_digits b n) = 0 \<longleftrightarrow> n = 0"
proof (induction n rule: less_induct)
  case (less n)
  show ?case
  proof (cases "n div b = 0")
    case True
    then show ?thesis using less.prems by (simp add: base_digits_one)
  next
    case False
    note d = div_shrinks [OF False less.prems]
    show ?thesis
      using less.IH [OF d(1) less.prems] d(2) False unfolding base_digits_more [OF less.prems False] by simp
  qed
qed

lemma digits_value_snoc: "digits_value b (s @ [c]) = digits_value b s * b + (case digit_val c of None \<Rightarrow> 0 | Some v \<Rightarrow> v)"
  by (simp add: digits_value_def)

lemma digits_value_text: "2 \<le> b \<Longrightarrow> b \<le> 36 \<Longrightarrow> digits_value b (map (digit_char up) (rev (base_digits b n))) = n"
proof (induction n rule: less_induct)
  case (less n)
  have m: "n mod b < 36" using less.prems mod_less_divisor [of b n] by linarith
  show ?case
  proof (cases "n div b = 0")
    case True
    then have "base_digits b n = [n]" "n < 36" using less.prems base_digits_one m by (simp_all add: div_eq_0_iff)
    then show ?thesis by (simp add: digits_value_def digit_val_char)
  next
    case False
    have "digits_value b (map (digit_char up) (rev (base_digits b (n div b)))) = n div b"
      using less.IH [OF div_shrinks(1) [OF False less.prems(1)] less.prems] .
    then show ?thesis
      unfolding base_digits_more [OF less.prems(1) False] using m by (simp add: digits_value_snoc digit_val_char del: map_map)
  qed
qed

lemma digit_in_char: "d < b \<Longrightarrow> b \<le> 36 \<Longrightarrow> digit_in b (digit_char up d)"
  by (simp add: digit_in_def digit_val_char)

lemma digit_char_plain:
  assumes "d < 36"
  shows "\<not> isspace (digit_char up d)" "digit_char up d \<noteq> CHR ''-''" "digit_char up d \<noteq> CHR ''+''" "digit_char up d \<noteq> CHR 0x00"
    "digit_char up d = CHR ''0'' \<longleftrightarrow> d = 0" "digit_char up d = CHR ''x'' \<or> digit_char up d = CHR ''X'' \<longleftrightarrow> d = 33"
proof -
  let ?P = "\<lambda>c d. \<not> isspace c \<and> c \<noteq> CHR ''-'' \<and> c \<noteq> CHR ''+'' \<and> c \<noteq> CHR 0x00 \<and> (c = CHR ''0'' \<longleftrightarrow> d = 0)"
  have "\<forall>d \<in> set [0..<36]. ?P (num_mapping True ! (35 + d)) d \<and> ?P (num_mapping False ! (35 + d)) d"
    by code_simp
  then have "?P (digit_char up d) d" using assms by (cases up) (auto simp: digit_char_def)
  then show "\<not> isspace (digit_char up d)" "digit_char up d \<noteq> CHR ''-''" "digit_char up d \<noteq> CHR ''+''" "digit_char up d \<noteq> CHR 0x00"
    "digit_char up d = CHR ''0'' \<longleftrightarrow> d = 0" by simp_all
  have "digit_val (CHR ''x'') = Some 33" "digit_val (CHR ''X'') = Some 33" by (simp_all add: digit_val_def isdigit_def islower_def isupper_def)
  moreover have "\<forall>d \<in> set [33]. num_mapping True ! (35 + d) = CHR ''X'' \<and> num_mapping False ! (35 + d) = CHR ''x''" by code_simp
  ultimately show "digit_char up d = CHR ''x'' \<or> digit_char up d = CHR ''X'' \<longleftrightarrow> d = 33"
    using digit_val_char [OF assms, of up] by (cases up) (auto simp: digit_char_def)
qed

lemma takeWhile_all: "\<forall>x \<in> set xs. P x \<Longrightarrow> takeWhile P xs = xs"
  by (simp add: takeWhile_eq_all_conv)

text \<open>The digits of a number in base 10, without and with a sign, and in base 16 with a prefix.\<close>

definition digit_text :: "bool \<Rightarrow> nat \<Rightarrow> nat \<Rightarrow> string" where
  "digit_text up b n = map (digit_char up) (rev (base_digits b n))"

lemma digit_text_props:
  assumes "2 \<le> b" "b \<le> 36"
  shows "\<exists>c cs. digit_text up b n = c # cs \<and> \<not> isspace c \<and> c \<noteq> CHR ''-'' \<and> c \<noteq> CHR ''+'' \<and> (c = CHR ''0'' \<longleftrightarrow> n = 0) \<and> digit_in b c"
    "CHR 0x00 \<notin> set (digit_text up b n)" "takeWhile (digit_in b) (digit_text up b n) = digit_text up b n"
proof -
  have l: "d < b" "d < 36" if "d \<in> set (base_digits b n)" for d using base_digits_less [OF assms(1) that] assms(2) by simp_all
  obtain d ds where d: "rev (base_digits b n) = d # ds" by (cases "rev (base_digits b n)") simp_all
  then have "d = last (base_digits b n)" "d \<in> set (base_digits b n)" by (metis hd_rev list.sel(1), metis list.set_intros(1) set_rev)
  then have dd: "d = 0 \<longleftrightarrow> n = 0" "d < b" "d < 36" using last_base_digits [OF assms(1)] l by simp_all
  have "digit_text up b n = digit_char up d # map (digit_char up) ds" using d by (simp add: digit_text_def)
  then show "\<exists>c cs. digit_text up b n = c # cs \<and> \<not> isspace c \<and> c \<noteq> CHR ''-'' \<and> c \<noteq> CHR ''+'' \<and> (c = CHR ''0'' \<longleftrightarrow> n = 0) \<and> digit_in b c"
    using digit_char_plain [OF dd(3), of up] dd(1) digit_in_char [OF dd(2) assms(2)] by simp
  show "takeWhile (digit_in b) (digit_text up b n) = digit_text up b n" "CHR 0x00 \<notin> set (digit_text up b n)"
    using l assms(2) digit_char_plain(4) by (force simp: digit_text_def intro!: takeWhile_all digit_in_char)+
qed

lemma digit_text_0: "digit_text up b 0 = ''0''"
  by (cases up) (simp_all add: digit_text_def base_digits.simps [of b 0] digit_char_def num_mapping_def)

lemma strto_scan_signed: "strto_scan ((if neg then ''-'' else []) @ digit_text up 10 n) = Some (neg, n)"
proof (cases "n = 0")
  case True
  have "digit_in 8 (CHR ''0'')" by (simp add: digit_in_def digit_val_def isdigit_def)
  then show ?thesis
    using True by (simp add: strto_scan_def digit_text_0 auto_base_def isspace_def digits_value_def digit_val_def isdigit_def)
next
  case False
  obtain c cs where c: "digit_text up 10 n = c # cs" "\<not> isspace c" "c \<noteq> CHR ''-''" "c \<noteq> CHR ''+''" "c \<noteq> CHR ''0''"
    using digit_text_props(1) [of 10 up n] False by auto
  have t: "takeWhile (digit_in 10) (c # cs) = c # cs" using digit_text_props(3) [of 10 up n] by (simp only: c(1))
  have "auto_base (c # cs) = (10, c # cs)" using c(5) by (simp add: auto_base_def split: list.split)
  moreover have "digits_value 10 (c # cs) = n" using digits_value_text [of 10 up n] c(1) by (simp add: digit_text_def)
  moreover have "\<not> isspace (CHR ''-'')" by (simp add: isspace_def)
  ultimately show ?thesis
    unfolding c(1) using c(2-4) t by (cases neg) (simp_all add: strto_scan_def Let_def del: takeWhile.simps takeWhile_eq_all_conv)
qed

lemma strto_scan_hex: "strto_scan (''0x'' @ digit_text up 16 n) = Some (False, n)"
proof -
  obtain c cs where c: "digit_text up 16 n = c # cs" "digit_in 16 c"
    using digit_text_props(1) [of 16 up n] by auto
  have "takeWhile (digit_in 16) (c # cs) = c # cs" using digit_text_props(3) [of 16 up n] by (simp only: c(1))
  moreover have "digits_value 16 (c # cs) = n" using digits_value_text [of 16 up n] c(1) by (simp add: digit_text_def)
  moreover have "auto_base (''0x'' @ c # cs) = (16, c # cs)" using c(2) by (simp add: auto_base_def)
  moreover have "\<not> isspace (CHR ''0'')" by (simp add: isspace_def)
  ultimately show ?thesis unfolding c(1) by (simp add: strto_scan_def Let_def del: takeWhile.simps takeWhile_eq_all_conv)
qed

lemma number_text_eq: "number_text up b v = (if v < 0 then ''-'' else []) @ digit_text up b (nat \<bar>v\<bar>)"
  by (simp add: number_text_def digit_text_def)

lemma number_text_no_NUL: "2 \<le> b \<Longrightarrow> b \<le> 36 \<Longrightarrow> CHR 0x00 \<notin> set (number_text up b v)"
  using digit_text_props(2) [of b up "nat \<bar>v\<bar>"] by (simp add: number_text_eq)

lemma length_number_text:
  assumes "2 \<le> b" "- (2 ^ 63) \<le> v" "v < 2 ^ 64"
  shows "64 < length (number_text up b v) \<longleftrightarrow> b = 2 \<and> v = - (2 ^ 63)"
proof (cases "0 \<le> v")
  case True
  have "nat v < 2 ^ 64" using True assms(3) by (simp add: nat_less_iff)
  also have "(2 :: nat) ^ 64 \<le> b ^ 64" using assms(1) by (rule power_mono) simp
  finally show ?thesis
    using True length_base_digits [OF assms(1), of "nat v" 64] by (auto simp: number_text_def)
next
  case False
  have l: "64 < length (number_text up b v) \<longleftrightarrow> \<not> nat (- v) < b ^ 63"
    using False length_base_digits [OF assms(1), of "nat (- v)" 63] by (auto simp: number_text_def)
  have n: "nat (- v) \<le> 2 ^ 63" using assms(2) by (simp add: nat_le_iff)
  show ?thesis
  proof (cases "b = 2")
    case True
    then show ?thesis using l n False assms(2) by (auto simp: nat_less_iff)
  next
    case False
    then have "(3 :: nat) ^ 63 \<le> b ^ 63" using assms(1) by (intro power_mono) auto
    then have "nat (- v) < b ^ 63" using n by (simp add: le_less_trans)
    then show ?thesis using l False by simp
  qed
qed

lemma number_cast_bool_text: "number_cast_bool (Some (string_cast_bool b)) = (b, True)"
proof -
  have "number_cast_bool (Some (string_cast_bool True)) = (True, True)" "number_cast_bool (Some (string_cast_bool False)) = (False, True)"
    by code_simp+
  then show ?thesis by (cases b) simp_all
qed

section \<open>Properties\<close>

text \<open>
  C40: printing a 64-bit number, signed or unsigned, in any base from 2 to 36 writes the sign and the digits of the magnitude into
  the 65 bytes of \<^verbatim>\<open>value_cache_\<close>, with one exception: \<^verbatim>\<open>INT64_MIN\<close> in base 2 needs 66 and writes behind the array.
\<close>

theorem string_cast_int_exact:
  assumes "2 \<le> b" "b \<le> 36" "- (2 ^ 63) \<le> v" "v < 2 ^ 64"
  shows "string_cast_int v b = (if b = 2 \<and> v = - (2 ^ 63) then Inl Out_Of_Bounds
     else Inr ((if v < 0 then ''-'' else []) @ map (digit_char True) (rev (base_digits b (nat \<bar>v\<bar>)))))"
proof -
  have "65 < length (number_text True b v) + 1 \<longleftrightarrow> b = 2 \<and> v = - (2 ^ 63)"
    using length_number_text [OF assms(1,3,4), of True] by linarith
  then show ?thesis
    unfolding string_cast_int_def string_cast_itoa_text [OF assms(1,2)] value_cache_size_def number_text_def by simp
qed

theorem string_cast_int_exact_witness:
  "string_cast_int (- (2 ^ 63)) 2 = Inl Out_Of_Bounds \<and> string_cast_int 255 16 = Inr ''FF''"
proof -
  have d: "base_digits 16 255 = [15, 15]" by (simp add: base_digits.simps)
  show ?thesis
    using string_cast_int_exact [of 2 "- (2 ^ 63)"] string_cast_int_exact [of 16 255]
    by (simp add: d digit_char_def num_mapping_def)
qed

text \<open>
  \<^verbatim>\<open>number_cast\<close> reads back what \<^verbatim>\<open>string_cast\<close> prints: every value of every signed and unsigned type in base 10, every pointer,
  and both truth values.
\<close>

theorem string_cast_roundtrip:
  assumes "lo \<le> v" "v \<le> hi" "- (2 ^ 63) \<le> lo" "hi < 2 ^ 63" "n \<le> umax" "umax < 2 ^ 64"
  shows "(\<exists>s. string_cast_int v 10 = Inr s \<and> signed_number_cast lo hi (Some s) = (v, True))
    \<and> (\<exists>s. string_cast_int (int n) 10 = Inr s \<and> unsigned_number_cast (int umax) (Some s) = (int n, True))
    \<and> (\<exists>s. string_cast_ptr n = Inr s \<and> unsigned_number_cast (2 ^ 64 - 1) (Some s) = (int n, True))
    \<and> number_cast_bool (Some (string_cast_bool b)) = (b, True)"
proof -
  have s: "string_cast_int w 10 = Inr (number_text True 10 w)" if "- (2 ^ 63) \<le> w" "w < 2 ^ 64" for w
    using length_number_text [OF _ that, of 10 True] unfolding string_cast_int_def value_cache_size_def
    by (subst string_cast_itoa_text) simp_all
  have n: "int n \<le> int umax" "int n < 2 ^ 64" using assms(5,6) by auto
  have h: "string_cast_ptr n = Inr (''0x'' @ digit_text True 16 n)"
  proof -
    have "length (base_digits 16 n) \<le> 16" using n(2) by (subst length_base_digits) simp_all
    then show ?thesis
      by (simp add: string_cast_ptr_def string_cast_itoa_text value_cache_size_def number_text_eq digit_text_def)
  qed
  have "signed_number_cast lo hi (Some (number_text True 10 v)) = (v, True)"
    using assms(1-4) strto_scan_signed [of "v < 0" True "nat \<bar>v\<bar>"]
    by (cases "v < 0") (simp_all add: signed_number_cast_def c_str_id number_text_no_NUL strtoimax_def, simp_all add: number_text_eq)
  moreover have "unsigned_number_cast (int umax) (Some (number_text True 10 (int n))) = (int n, True)"
    using n strto_scan_signed [of False True n]
    by (simp add: unsigned_number_cast_def c_str_id number_text_no_NUL strtoumax_def) (simp add: number_text_eq)
  moreover have "unsigned_number_cast (2 ^ 64 - 1) (Some (''0x'' @ digit_text True 16 n)) = (int n, True)"
  proof -
    have "CHR 0x00 \<notin> set (''0x'' @ digit_text True 16 n)" using digit_text_props(2) [of 16 True n] by simp
    then show ?thesis using n(2) strto_scan_hex [of True n] by (simp add: unsigned_number_cast_def c_str_id strtoumax_def)
  qed
  moreover have "number_cast_bool (Some (string_cast_bool b)) = (b, True)" by (rule number_cast_bool_text)
  ultimately show ?thesis using s [of v] s [of "int n"] h n assms(1-4) by auto
qed

theorem string_cast_roundtrip_witness:
  "\<exists>s. string_cast_int (- 128) 10 = Inr s \<and> signed_number_cast (- 128) 127 (Some s) = (- 128, True)"
  using string_cast_roundtrip [of "- 128" "- 128" 127 0 0 True] by simp

end
