(* ===== verification/Ini_File.thy ===== *)
theory Ini_File
  imports String_Cast "HOL-Library.Char_ord"
begin

text \<open>
  The configuration files of src/mars/comm/ini.h: the class \<^verbatim>\<open>INI\<close> over a \<^verbatim>\<open>std::map\<close> of sections, its parser and its writer. A map is
  the list of its pairs in the order of the keys, a file the bytes \<^verbatim>\<open>fopen\<close> finds (\<open>None\<close> when it fails). A read or write outside
  \<^verbatim>\<open>line\<close> or \<^verbatim>\<open>ssection\<close> is \<open>Inl Out_Of_Bounds\<close>. The assertions only log. A read error in the middle of a file (\<^verbatim>\<open>ferror\<close>) is not modelled.
\<close>

section \<open>Ordered maps\<close>

type_synonym ('k, 'v) smap = "('k \<times> 'v) list"

fun smap_set :: "('k :: linorder, 'v) smap \<Rightarrow> 'k \<Rightarrow> 'v \<Rightarrow> ('k, 'v) smap" where
  "smap_set [] k v = [(k, v)]"
| "smap_set ((k', v') # m) k v =
     (if k = k' then (k, v) # m else if k < k' then (k, v) # (k', v') # m else (k', v') # smap_set m k v)"

definition smap_ok :: "('k :: linorder, 'v) smap \<Rightarrow> bool" where
  "smap_ok m \<longleftrightarrow> sorted_wrt (<) (map fst m)"

text \<open>\<^verbatim>\<open>m[k]\<close> on a map of maps: a missing entry is made.\<close>

definition smap_touch :: "('k :: linorder, 'v list) smap \<Rightarrow> 'k \<Rightarrow> ('k, 'v list) smap" where
  "smap_touch m k = (case map_of m k of None \<Rightarrow> smap_set m k [] | Some _ \<Rightarrow> m)"

definition smap_at :: "('k :: linorder, 'v list) smap \<Rightarrow> 'k \<Rightarrow> 'v list" where
  "smap_at m k = (case map_of m k of None \<Rightarrow> [] | Some v \<Rightarrow> v)"

section \<open>State\<close>

type_synonym keys_t = "(string, string) smap"
type_synonym sections_t = "(string, keys_t) smap"

record INI =
  ini_currentsection :: string
  ini_sections :: sections_t
  ini_filename :: string

definition BUFFER_SIZE :: nat where "BUFFER_SIZE = 4096"

definition name_char :: "char \<Rightarrow> bool" where
  "name_char c \<longleftrightarrow> islower c \<or> isupper c \<or> isdigit c \<or> c = CHR ''-'' \<or> c = CHR ''_'' \<or> c = CHR ''.'' \<or> c = CHR '' ''"

definition VerifyName :: "string \<Rightarrow> bool" where
  "VerifyName name \<longleftrightarrow> name \<noteq> [] \<and> list_all name_char name"

section \<open>The calls\<close>

definition INI_Select :: "string \<Rightarrow> INI \<Rightarrow> bool \<times> INI" where
  "INI_Select s i =
     (if \<not> VerifyName s then (False, i)
      else case map_of (ini_sections i) s of None \<Rightarrow> (False, i) | Some _ \<Rightarrow> (True, i\<lparr>ini_currentsection := s\<rparr>))"

definition INI_Create :: "string \<Rightarrow> INI \<Rightarrow> bool \<times> INI" where
  "INI_Create s i =
     (if \<not> VerifyName s then (False, i)
      else case INI_Select s i of
        (True, i') \<Rightarrow> (False, i')
      | (False, i') \<Rightarrow> (True, i'\<lparr>ini_currentsection := s, ini_sections := smap_touch (ini_sections i') s\<rparr>))"

text \<open>\<open>svalue\<close> is what \<^verbatim>\<open>string_cast\<close> makes of the value.\<close>

definition INI_Set :: "string \<Rightarrow> string \<Rightarrow> string \<Rightarrow> INI \<Rightarrow> bool \<times> INI" where
  "INI_Set s key svalue i =
     (if \<not> VerifyName s then (False, i)
      else if \<not> VerifyName key then (False, i)
      else if BUFFER_SIZE < length key + length svalue + 1 then (False, i)
      else (True, i\<lparr>ini_sections := smap_set (ini_sections i) s (smap_set (smap_at (ini_sections i) s) key svalue)\<rparr>))"

definition INI_Set_current :: "string \<Rightarrow> string \<Rightarrow> INI \<Rightarrow> bool \<times> INI" where
  "INI_Set_current key svalue i = INI_Set (ini_currentsection i) key svalue i"

text \<open>\<^verbatim>\<open>Get\<close> on a missing section makes it.\<close>

definition INI_Get :: "string \<Rightarrow> string \<Rightarrow> string \<Rightarrow> INI \<Rightarrow> string \<times> INI" where
  "INI_Get s key def i =
     (if \<not> VerifyName s then (def, i)
      else if \<not> VerifyName key then (def, i)
      else
        let i' = i\<lparr>ini_sections := smap_touch (ini_sections i) s\<rparr> in
        case map_of (smap_at (ini_sections i') s) key of None \<Rightarrow> (def, i') | Some v \<Rightarrow> (v, i'))"

definition INI_Get_current :: "string \<Rightarrow> string \<Rightarrow> INI \<Rightarrow> string \<times> INI" where
  "INI_Get_current key def i = INI_Get (ini_currentsection i) key def i"

text \<open>The template for a signed integer type with the given bounds.\<close>

definition INI_Get_signed :: "int \<Rightarrow> int \<Rightarrow> string \<Rightarrow> string \<Rightarrow> int \<Rightarrow> INI \<Rightarrow> int \<times> INI" where
  "INI_Get_signed lo hi s key def i =
     (if \<not> VerifyName s then (def, i)
      else if \<not> VerifyName key then (def, i)
      else
        let i' = i\<lparr>ini_sections := smap_touch (ini_sections i) s\<rparr> in
        case map_of (smap_at (ini_sections i') s) key of
          None \<Rightarrow> (def, i')
        | Some v \<Rightarrow> if v = [] then (def, i')
                   else case signed_number_cast lo hi (Some v) of (n, True) \<Rightarrow> (n, i') | (_, False) \<Rightarrow> (def, i'))"

definition INI_Clear :: "INI \<Rightarrow> INI" where
  "INI_Clear i = i\<lparr>ini_sections := [], ini_currentsection := []\<rparr>"

fun erase_except :: "string \<Rightarrow> sections_t \<Rightarrow> sections_t" where
  "erase_except s [] = []"
| "erase_except s ((k, ks) # m) = (if k = s then (k, ks) # erase_except s m else erase_except s m)"

definition INI_ClearExceptSection :: "string \<Rightarrow> INI \<Rightarrow> INI" where
  "INI_ClearExceptSection s i = i\<lparr>ini_sections := erase_except s (ini_sections i)\<rparr>"

definition INI_Sections :: "INI \<Rightarrow> sections_t \<times> INI" where
  "INI_Sections i = (ini_sections i, i\<lparr>ini_currentsection := []\<rparr>)"

section \<open>Parsing\<close>

definition newline :: char where "newline = CHR 0x0A"

text \<open>\<^verbatim>\<open>fgets(line, n, file)\<close>: the line and the rest of the file.\<close>

definition fgets :: "nat \<Rightarrow> string \<Rightarrow> string \<times> string" where
  "fgets n s =
     (let m = takeWhile (\<lambda>c. c \<noteq> newline) (take (n - 1) s) in
      if length m < length (take (n - 1) s) then (m @ [newline], drop (Suc (length m)) s) else (m, drop (length m) s))"

lemma fgets_shorter:
  assumes "s \<noteq> []" "1 < n" "fgets n s = (line, rest)"
  shows "length rest < length s"
proof -
  let ?m = "takeWhile (\<lambda>c. c \<noteq> newline) (take (n - 1) s)"
  have t: "0 < length (take (n - 1) s)" "0 < length s" using assms(1,2) by auto
  show ?thesis
  proof (cases "length ?m < length (take (n - 1) s)")
    case True
    then show ?thesis using assms(3) t by (auto simp: fgets_def Let_def)
  next
    case False
    then have "rest = drop (length ?m) s" "0 < length ?m" using assms(3) t(1) by (simp_all only: fgets_def Let_def if_False prod.inject) auto
    then show ?thesis using t(2) by simp
  qed
qed

text \<open>
  \<^verbatim>\<open>sscanf(line, "[%[.0-9a-zA-Z_ -]]", ssection)\<close> behind the bracket: the run of the scan set, which is that of \<^verbatim>\<open>VerifyName\<close>. An
  empty run leaves \<^verbatim>\<open>ssection\<close> empty, whether \<^verbatim>\<open>sscanf\<close> returns 0 or \<^verbatim>\<open>EOF\<close>.
\<close>

definition ssection_size :: nat where "ssection_size = 512"

definition section_line :: "string \<Rightarrow> string \<times> sections_t \<Rightarrow> (string \<times> sections_t) result" where
  "section_line line st =
     (let ssection = takeWhile name_char (tl line) in
      if ssection_size < length ssection + 1 then Inl Out_Of_Bounds
      else if \<not> VerifyName ssection then Inr ([], snd st)
      else Inr (ssection, smap_touch (snd st) ssection))"

definition key_line :: "string \<Rightarrow> string \<times> sections_t \<Rightarrow> string \<times> sections_t" where
  "key_line line st = (case st of (cur, sections) \<Rightarrow>
     if length cur = 0 then st
     else
       let skey = takeWhile (\<lambda>c. c \<noteq> CHR ''='') line in
       if skey = line then st
       else if \<not> VerifyName skey then st
       else (cur, smap_set sections cur (smap_set (smap_at sections cur) skey (drop (Suc (length skey)) line))))"

definition parse_line :: "string \<Rightarrow> string \<times> sections_t \<Rightarrow> (string \<times> sections_t) result" where
  "parse_line buf st =
     (let line = c_str buf in
      if 2 \<le> length line \<and> line ! 0 = CHR ''/'' \<and> line ! 1 = CHR ''/'' then Inr st
      else if line = [] then Inl Out_Of_Bounds
      else
        let line' = (if last line = newline then butlast line else line) in
        if line' \<noteq> [] \<and> hd line' = CHR ''['' then section_line line' st else Inr (key_line line' st))"

function parse_loop :: "string \<Rightarrow> string \<times> sections_t \<Rightarrow> (string \<times> sections_t) result" where
  "parse_loop s st =
     (if s = [] then Inr st else case fgets BUFFER_SIZE s of (line, rest) \<Rightarrow> rbind (parse_line line st) (parse_loop rest))"
  by auto
termination
  by (relation "measure (\<lambda>(s, _). length s)") (auto intro!: fgets_shorter [where n = BUFFER_SIZE, OF _ _ sym], simp add: BUFFER_SIZE_def)

declare parse_loop.simps [simp del]

definition INI_Parse :: "string option \<Rightarrow> INI \<Rightarrow> (bool \<times> INI) result" where
  "INI_Parse file i = (case file of
     None \<Rightarrow> Inr (False, i)
   | Some s \<Rightarrow> rbind (parse_loop s ([], ini_sections i)) (\<lambda>(cur, secs). Inr (True, i\<lparr>ini_sections := secs\<rparr>)))"

definition INI_new :: "string \<Rightarrow> bool \<Rightarrow> string option \<Rightarrow> INI result" where
  "INI_new fileName parse file =
     (let i = \<lparr>ini_currentsection = [], ini_sections = [], ini_filename = fileName\<rparr> in
      if parse then rbind (INI_Parse file i) (\<lambda>(_, i'). Inr i') else Inr i)"

section \<open>Saving\<close>

definition makeSection :: "string \<Rightarrow> string" where
  "makeSection s = ''['' @ s @ '']'' @ [newline]"

definition makeKeyValue :: "string \<Rightarrow> string \<Rightarrow> string" where
  "makeKeyValue key v = key @ ''='' @ v @ [newline]"

text \<open>The file that is written and its content; nothing is written when \<^verbatim>\<open>fopen\<close> fails.\<close>

definition save_section :: "string \<times> keys_t \<Rightarrow> string" where
  "save_section e = (case e of (s, ks) \<Rightarrow> if length ks = 0 then [] else makeSection s @ concat (map (\<lambda>(k, v). makeKeyValue k v) ks))"

definition INI_Save :: "string \<Rightarrow> INI \<Rightarrow> string \<times> string" where
  "INI_Save fileName i = (if fileName = [] then ini_filename i else fileName, concat (map save_section (ini_sections i)))"

section \<open>Laws of the maps\<close>

lemma set_smap_set: "set (smap_set m k v) \<subseteq> insert (k, v) (set m)"
  by (induction m k v rule: smap_set.induct) auto

lemma fst_smap_set: "fst ` set (smap_set m k v) = insert k (fst ` set m)"
  by (induction m k v rule: smap_set.induct) auto

lemma smap_ok_set: "smap_ok m \<Longrightarrow> smap_ok (smap_set m k v)"
proof (induction m k v rule: smap_set.induct)
  case (2 k' v' m k v)
  have "x \<in> fst ` set (smap_set m k v) \<Longrightarrow> x = k \<or> x \<in> fst ` set m" for x using fst_smap_set [of m k v] by auto
  then show ?case using 2 by (force simp: smap_ok_def)
qed (simp add: smap_ok_def)

lemma map_of_smap_set: "smap_ok m \<Longrightarrow> map_of (smap_set m k v) = (map_of m)(k \<mapsto> v)"
proof (induction m k v rule: smap_set.induct)
  case (2 k' v' m k v)
  have "k < k' \<Longrightarrow> map_of m k = None"
    using 2(2) by (auto simp: smap_ok_def map_of_eq_None_iff dest: less_asym)
  then show ?case using 2 by (auto simp: smap_ok_def fun_eq_iff)
qed simp

lemma smap_set_last: "(\<And>x. x \<in> fst ` set m \<Longrightarrow> x < k) \<Longrightarrow> smap_set m k v = m @ [(k, v)]"
  by (induction m k v rule: smap_set.induct) (auto dest: less_asym)

lemma smap_set_last_old: "(\<And>x. x \<in> fst ` set m \<Longrightarrow> x < k) \<Longrightarrow> smap_set (m @ [(k, w)]) k v = m @ [(k, v)]"
proof (induction m)
  case (Cons e m)
  obtain k' v' where e: "e = (k', v')" by (cases e)
  then have "k' < k" using Cons.prems by simp
  then show ?case using Cons e by (auto dest: less_asym)
qed simp

lemma smap_at_last: "(\<And>x. x \<in> fst ` set m \<Longrightarrow> x < k) \<Longrightarrow> smap_at (m @ [(k, w)]) k = w"
proof -
  assume a: "\<And>x. x \<in> fst ` set m \<Longrightarrow> x < k"
  have "map_of m k = None" using a [of k] by (auto simp: map_of_eq_None_iff)
  then show ?thesis by (simp add: smap_at_def map_add_def)
qed

section \<open>The state is well formed\<close>

text \<open>Sections and keys are in order, without duplicates, and have proper names.\<close>

definition keys_ok :: "keys_t \<Rightarrow> bool" where
  "keys_ok ks \<longleftrightarrow> smap_ok ks \<and> (\<forall>e \<in> set ks. VerifyName (fst e))"

definition sections_ok :: "sections_t \<Rightarrow> bool" where
  "sections_ok m \<longleftrightarrow> smap_ok m \<and> (\<forall>e \<in> set m. VerifyName (fst e) \<and> keys_ok (snd e))"

lemma keys_ok_set: "keys_ok ks \<Longrightarrow> VerifyName k \<Longrightarrow> keys_ok (smap_set ks k v)"
  using set_smap_set [of ks k v] by (auto simp: keys_ok_def smap_ok_set)

lemma keys_ok_Nil [simp]: "keys_ok []"
  by (simp add: keys_ok_def smap_ok_def)

lemma keys_ok_at: "sections_ok m \<Longrightarrow> keys_ok (smap_at m s)"
  by (auto simp: smap_at_def sections_ok_def split: option.split dest!: map_of_SomeD)

lemma sections_ok_set: "sections_ok m \<Longrightarrow> VerifyName s \<Longrightarrow> keys_ok ks \<Longrightarrow> sections_ok (smap_set m s ks)"
  using set_smap_set [of m s ks] by (auto simp: sections_ok_def smap_ok_set)

lemma sections_ok_touch: "sections_ok m \<Longrightarrow> VerifyName s \<Longrightarrow> sections_ok (smap_touch m s)"
  by (auto simp: smap_touch_def sections_ok_set split: option.split)

lemma sections_ok_erase: "sections_ok m \<Longrightarrow> sections_ok (erase_except s m)"
proof -
  have e: "erase_except s m = filter (\<lambda>e. fst e = s) m" by (induction m) auto
  show "sections_ok m \<Longrightarrow> sections_ok (erase_except s m)"
    by (auto simp: e sections_ok_def smap_ok_def sorted_wrt_map intro: sorted_wrt_filter)
qed

lemma parse_line_ok:
  assumes "sections_ok (snd st)" "fst st = [] \<or> VerifyName (fst st)" "parse_line buf st = Inr st'"
  shows "sections_ok (snd st') \<and> (fst st' = [] \<or> VerifyName (fst st'))"
  using assms
  by (auto simp: parse_line_def section_line_def key_line_def Let_def sections_ok_touch sections_ok_set keys_ok_set keys_ok_at
      split: if_splits prod.splits)

lemma parse_loop_ok:
  "sections_ok (snd st) \<Longrightarrow> fst st = [] \<or> VerifyName (fst st) \<Longrightarrow> parse_loop s st = Inr st' \<Longrightarrow> sections_ok (snd st')"
proof (induction s st rule: parse_loop.induct)
  case (1 s st)
  show ?case
  proof (cases "s = []")
    case True
    then show ?thesis using 1(2,4) by (simp add: parse_loop.simps [of "[]"])
  next
    case False
    obtain line rest where f: "fgets BUFFER_SIZE s = (line, rest)" by (cases "fgets BUFFER_SIZE s")
    obtain st1 where l: "parse_line line st = Inr st1" "parse_loop rest st1 = Inr st'"
      using 1(4) False f by (auto simp: parse_loop.simps [of s] rbind_eq_Inr_iff)
    then show ?thesis using 1(1) [OF False f [symmetric], of st1] parse_line_ok [OF 1(2,3) l(1)] f by auto
  qed
qed

section \<open>Reading what was written\<close>

abbreviation NUL :: char where "NUL \<equiv> CHR 0x00"

lemma newline_not [simp]:
  "newline \<noteq> NUL" "newline \<noteq> CHR ''/''" "newline \<noteq> CHR ''[''" "newline \<noteq> CHR '']''" "newline \<noteq> CHR ''=''"
  "NUL \<noteq> newline" "CHR ''/'' \<noteq> newline" "CHR ''['' \<noteq> newline" "CHR '']'' \<noteq> newline" "CHR ''='' \<noteq> newline"
  by (simp_all add: newline_def)

lemma name_char_not: "name_char c \<Longrightarrow> c \<noteq> newline \<and> c \<noteq> NUL \<and> c \<noteq> CHR ''='' \<and> c \<noteq> CHR ''['' \<and> c \<noteq> CHR '']'' \<and> c \<noteq> CHR ''/''"
  by (auto simp: name_char_def newline_def islower_def isupper_def isdigit_def)

lemma name_not: "VerifyName s \<Longrightarrow> newline \<notin> set s \<and> NUL \<notin> set s \<and> CHR ''='' \<notin> set s \<and> CHR '']'' \<notin> set s"
  using name_char_not by (auto simp: VerifyName_def list_all_iff)

lemma takeWhile_until: "c \<notin> set s \<Longrightarrow> takeWhile (\<lambda>x. x \<noteq> c) (s @ c # r) = s"
  by (induction s) auto

lemma fgets_line:
  assumes "newline \<notin> set l"
  shows "length l < n - 1 \<Longrightarrow> fgets n (l @ newline # r) = (l @ [newline], r)" "length l = n - 1 \<Longrightarrow> fgets n (l @ r) = (l, r)"
proof -
  assume n: "length l < n - 1"
  then obtain m where "n - 1 = Suc (length l + m)" using less_imp_Suc_add by blast
  then have "take (n - 1) (l @ newline # r) = l @ newline # take m r" by simp
  then show "fgets n (l @ newline # r) = (l @ [newline], r)"
    using assms n by (simp add: fgets_def Let_def takeWhile_until)
next
  assume "length l = n - 1"
  moreover have "takeWhile (\<lambda>c. c \<noteq> newline) l = l" using assms by (simp add: takeWhile_eq_all_conv) metis
  ultimately show "fgets n (l @ r) = (l, r)" by (simp add: fgets_def Let_def del: takeWhile_eq_all_conv)
qed

lemma parse_line_newline: "parse_line [newline] st = Inr st"
  by (cases st) (simp add: parse_line_def c_str_def key_line_def)

lemma parse_line_terminated:
  assumes "l \<noteq> []" "newline \<notin> set l" "NUL \<notin> set l"
  shows "parse_line (l @ [newline]) st = parse_line l st"
proof -
  have "c_str (l @ [newline]) = l @ [newline]" "c_str l = l" using assms(3) by (auto intro!: c_str_id)
  moreover have "last l \<noteq> newline" using assms(1,2) last_in_set by metis
  moreover have "2 \<le> length (l @ [newline]) \<and> (l @ [newline]) ! 0 = CHR ''/'' \<and> (l @ [newline]) ! 1 = CHR ''/''
      \<longleftrightarrow> 2 \<le> length l \<and> l ! 0 = CHR ''/'' \<and> l ! 1 = CHR ''/''"
    using assms(1) by (cases l rule: list.exhaust; cases "tl l") (auto simp: nth_append)
  ultimately show ?thesis using assms(1) unfolding parse_line_def by (simp add: Let_def)
qed

lemma parse_loop_line:
  assumes "l \<noteq> []" "newline \<notin> set l" "NUL \<notin> set l" "length l \<le> 4095"
  shows "parse_loop (l @ newline # r) st = rbind (parse_line l st) (parse_loop r)"
proof (cases "length l = 4095")
  case True
  have "fgets BUFFER_SIZE (l @ newline # r) = (l, newline # r)"
    using fgets_line(2) [OF assms(2), of BUFFER_SIZE "newline # r"] True by (simp add: BUFFER_SIZE_def)
  then have "parse_loop (l @ newline # r) st = rbind (parse_line l st) (parse_loop (newline # r))"
    by (simp add: parse_loop.simps [of "l @ newline # r"])
  moreover have "parse_loop (newline # r) = parse_loop r"
  proof
    fix st
    have "fgets BUFFER_SIZE (newline # r) = ([newline], r)"
      using fgets_line(1) [of "[]" BUFFER_SIZE r] by (simp add: BUFFER_SIZE_def)
    then show "parse_loop (newline # r) st = parse_loop r st"
      by (simp add: parse_loop.simps [of "newline # r"] parse_line_newline)
  qed
  ultimately show ?thesis by simp
next
  case False
  then have "fgets BUFFER_SIZE (l @ newline # r) = (l @ [newline], r)"
    using fgets_line(1) [OF assms(2), of BUFFER_SIZE r] assms(4) by (simp add: BUFFER_SIZE_def)
  then show ?thesis
    by (simp add: parse_loop.simps [of "l @ newline # r"] parse_line_terminated [OF assms(1-3)])
qed

lemma parse_section_line:
  assumes "VerifyName s" "length s < ssection_size"
  shows "parse_line (''['' @ s @ '']'') st = Inr (s, smap_touch (snd st) s)"
proof -
  have "c_str (''['' @ s @ '']'') = ''['' @ s @ '']''" using name_not [OF assms(1)] by (intro c_str_id) auto
  moreover have "takeWhile name_char (s @ '']'') = s"
    using assms(1) by (auto simp: VerifyName_def list_all_iff name_char_def islower_def isupper_def isdigit_def)
  ultimately show ?thesis using assms by (simp add: parse_line_def section_line_def)
qed

lemma parse_key_line:
  assumes "VerifyName k" "newline \<notin> set v" "NUL \<notin> set v" "cur \<noteq> []"
  shows "parse_line (k @ ''='' @ v) (cur, m) = Inr (cur, smap_set m cur (smap_set (smap_at m cur) k v))"
proof -
  obtain c cs where k: "k = c # cs" "name_char c" using assms(1) by (cases k) (auto simp: VerifyName_def)
  have "c_str (k @ ''='' @ v) = k @ ''='' @ v" using name_not [OF assms(1)] assms(3) by (intro c_str_id) auto
  moreover have "last (k @ ''='' @ v) \<noteq> newline" using assms(2) by (cases "v = []") (auto dest: last_in_set)
  moreover have "takeWhile (\<lambda>c. c \<noteq> CHR ''='') (k @ ''='' @ v) = k" using name_not [OF assms(1)] by (simp add: takeWhile_until)
  ultimately show ?thesis
    using name_char_not [OF k(2)] assms(1,4) k(1) by (simp add: parse_line_def key_line_def Let_def)
qed

text \<open>What a file can hold: a line has at most 4095 bytes and ends at a newline, a string at a NUL.\<close>

definition keys_fit :: "keys_t \<Rightarrow> bool" where
  "keys_fit ks \<longleftrightarrow> (\<forall>(k, v) \<in> set ks. length k + length v + 1 \<le> 4095 \<and> newline \<notin> set v \<and> NUL \<notin> set v)"

definition sections_fit :: "sections_t \<Rightarrow> bool" where
  "sections_fit m \<longleftrightarrow> (\<forall>(s, ks) \<in> set m. length s < ssection_size \<and> keys_fit ks)"

lemma smap_ok_app: "smap_ok (xs @ ys) \<Longrightarrow> smap_ok xs \<and> smap_ok ys \<and> (\<forall>x \<in> fst ` set xs. \<forall>y \<in> fst ` set ys. x < y)"
  by (auto simp: smap_ok_def sorted_wrt_append)

lemma parse_keys:
  assumes "keys_ok (pre @ ks)" "keys_fit ks" "cur \<noteq> []" "\<And>x. x \<in> fst ` set m \<Longrightarrow> x < cur"
  shows "parse_loop (concat (map (\<lambda>(k, v). makeKeyValue k v) ks) @ r) (cur, m @ [(cur, pre)]) = parse_loop r (cur, m @ [(cur, pre @ ks)])"
  using assms(1,2)
proof (induction ks arbitrary: pre)
  case (Cons e ks)
  obtain k v where e: "e = (k, v)" by (cases e)
  have k: "VerifyName k" "length (k @ ''='' @ v) \<le> 4095" "newline \<notin> set v" "NUL \<notin> set v"
    using Cons.prems by (auto simp: e keys_ok_def keys_fit_def)
  have lt: "\<And>x. x \<in> fst ` set pre \<Longrightarrow> x < k"
    using Cons.prems(1) smap_ok_app [of pre "e # ks"] by (auto simp: e keys_ok_def)
  let ?t = "concat (map (\<lambda>(k, v). makeKeyValue k v) ks) @ r"
  have "parse_loop ((k @ ''='' @ v) @ newline # ?t) (cur, m @ [(cur, pre)])
      = rbind (parse_line (k @ ''='' @ v) (cur, m @ [(cur, pre)])) (parse_loop ?t)"
    using k name_not [OF k(1)] by (intro parse_loop_line) auto
  also have "\<dots> = parse_loop ?t (cur, m @ [(cur, pre @ [e])])"
    using parse_key_line [OF k(1,3,4) assms(3)] smap_at_last [of m cur pre, OF assms(4)] smap_set_last [of pre k v, OF lt]
      smap_set_last_old [of m cur pre "pre @ [(k, v)]", OF assms(4)]
    by (simp add: e)
  also have "\<dots> = parse_loop r (cur, m @ [(cur, (pre @ [e]) @ ks)])"
    using Cons.prems by (intro Cons.IH) (auto simp: keys_fit_def)
  finally show ?case by (simp add: e makeKeyValue_def)
qed simp

lemma parse_saved:
  assumes "sections_ok (m @ secs)" "sections_fit secs"
  shows "\<exists>cur. parse_loop (concat (map save_section secs)) (c, m) = Inr (cur, m @ filter (\<lambda>e. snd e \<noteq> []) secs)"
  using assms
proof (induction secs arbitrary: c m)
  case (Cons e secs)
  obtain s ks where e: "e = (s, ks)" by (cases e)
  have p: "VerifyName s" "keys_ok ks" "length s < ssection_size" "keys_fit ks" "sections_fit secs"
    using Cons.prems by (auto simp: e sections_ok_def sections_fit_def)
  have lt: "\<And>x. x \<in> fst ` set m \<Longrightarrow> x < s"
    using Cons.prems(1) smap_ok_app [of m "e # secs"] by (auto simp: e sections_ok_def)
  show ?case
  proof (cases "ks = []")
    case True
    have "sections_ok (m @ secs)" using Cons.prems(1) by (auto simp: e sections_ok_def smap_ok_def sorted_wrt_append)
    then show ?thesis using Cons.IH [OF _ p(5)] True by (simp add: e save_section_def)
  next
    case False
    let ?t = "concat (map save_section secs)" and ?k = "concat (map (\<lambda>(k, v). makeKeyValue k v) ks)"
    have "map_of m s = None" using lt [of s] by (auto simp: map_of_eq_None_iff)
    then have "smap_touch m s = m @ [(s, [])]" using smap_set_last [of m s "[]", OF lt] by (simp add: smap_touch_def)
    then have "parse_loop ((''['' @ s @ '']'') @ newline # (?k @ ?t)) (c, m) = parse_loop (?k @ ?t) (s, m @ [(s, [])])"
      using p(1,3) name_not [OF p(1)] parse_section_line [OF p(1,3)]
      by (subst parse_loop_line) (auto simp: ssection_size_def)
    also have "\<dots> = parse_loop ?t (s, m @ [(s, ks)])"
      using parse_keys [of "[]" ks s m ?t] p(1,2,4) lt by (simp add: VerifyName_def)
    finally have "parse_loop (concat (map save_section (e # secs))) (c, m) = parse_loop ?t (s, (m @ [e]))"
      using False by (simp add: e save_section_def makeSection_def)
    then show ?thesis using Cons.IH [of "m @ [e]" s] Cons.prems(1) p(5) False by (simp add: e)
  qed
qed (simp add: parse_loop.simps)

section \<open>Files that cannot be parsed\<close>

function file_lines :: "string \<Rightarrow> string list" where
  "file_lines s = (if s = [] then [] else case fgets BUFFER_SIZE s of (line, rest) \<Rightarrow> line # file_lines rest)"
  by auto
termination
  by (relation "measure length") (auto intro!: fgets_shorter [where n = BUFFER_SIZE, OF _ _ sym], simp add: BUFFER_SIZE_def)

declare file_lines.simps [simp del]

text \<open>A line that starts with a NUL, and a section whose name has 512 characters or more.\<close>

definition bad_line :: "string \<Rightarrow> bool" where
  "bad_line line \<longleftrightarrow> hd line = NUL \<or> hd line = CHR ''['' \<and> ssection_size \<le> length (takeWhile name_char (tl line))"

lemma fgets_nonempty: "s \<noteq> [] \<Longrightarrow> fgets BUFFER_SIZE s = (line, rest) \<Longrightarrow> line \<noteq> []"
  by (cases s) (auto simp: fgets_def BUFFER_SIZE_def Let_def split: if_splits)

lemma takeWhile_name_char: "takeWhile name_char (takeWhile (\<lambda>c. c \<noteq> NUL) xs) = takeWhile name_char xs"
  by (induction xs) (auto dest: name_char_not)

lemma takeWhile_name_butlast: "xs \<noteq> [] \<Longrightarrow> last xs = newline \<Longrightarrow> takeWhile name_char (butlast xs) = takeWhile name_char xs"
  by (induction xs) (auto dest: name_char_not split: if_splits)

lemma section_name_cut:
  assumes "c_str l = CHR ''['' # xs"
  shows "takeWhile name_char (tl (if last (c_str l) = newline then butlast (c_str l) else c_str l)) = takeWhile name_char (tl l)"
proof -
  have l: "hd l = CHR ''[''" "xs = takeWhile (\<lambda>c. c \<noteq> NUL) (tl l)" using assms by (cases l; auto simp: c_str_def split: if_splits)+
  have n: "takeWhile name_char xs = takeWhile name_char (tl l)" unfolding l(2) by (rule takeWhile_name_char)
  show ?thesis using n takeWhile_name_butlast [of xs] by (cases "xs = []") (auto simp: assms)
qed

lemma parse_line_cases:
  assumes "l \<noteq> []"
  shows "if bad_line l then parse_line l st = Inl Out_Of_Bounds else \<exists>st'. parse_line l st = Inr st'"
proof (cases "c_str l")
  case Nil
  then have "hd l = NUL" using assms by (cases l) (auto simp: c_str_def split: if_splits)
  then show ?thesis using Nil by (simp add: bad_line_def parse_line_def)
next
  case (Cons c xs)
  then have h: "hd l = c" "c \<noteq> NUL" by (cases l; auto simp: c_str_def split: if_splits)+
  show ?thesis
  proof (cases "c = CHR ''[''")
    case True
    let ?line = "if last (c_str l) = newline then butlast (c_str l) else c_str l"
    have p: "?line \<noteq> [] \<and> hd ?line = CHR ''[''" using Cons True by (cases xs rule: rev_cases) auto
    have "parse_line l st = section_line ?line st" using Cons True p by (simp add: parse_line_def Let_def)
    then show ?thesis
      using section_name_cut [of l xs] Cons True h by (auto simp: section_line_def bad_line_def Let_def)
  next
    case False
    have "hd (if last (c_str l) = newline then butlast (c_str l) else c_str l) \<noteq> CHR ''[''
        \<or> (if last (c_str l) = newline then butlast (c_str l) else c_str l) = []"
      using Cons False by (cases xs rule: rev_cases) auto
    then have "\<exists>st'. parse_line l st = Inr st'" using Cons by (auto simp: parse_line_def Let_def)
    then show ?thesis using h False by (simp add: bad_line_def)
  qed
qed

lemma parse_loop_cases:
  "if \<exists>l \<in> set (file_lines s). bad_line l then parse_loop s st = Inl Out_Of_Bounds else \<exists>st'. parse_loop s st = Inr st'"
proof (induction s arbitrary: st rule: file_lines.induct)
  case (1 s)
  show ?case
  proof (cases "s = []")
    case True
    then show ?thesis by (simp add: file_lines.simps parse_loop.simps)
  next
    case False
    obtain line rest where f: "fgets BUFFER_SIZE s = (line, rest)" by (cases "fgets BUFFER_SIZE s")
    have l: "file_lines s = line # file_lines rest" "parse_loop s st = rbind (parse_line line st) (parse_loop rest)"
      using False f by (simp_all add: file_lines.simps [of s] parse_loop.simps [of s])
    have r: "if \<exists>l \<in> set (file_lines rest). bad_line l then parse_loop rest st = Inl Out_Of_Bounds else \<exists>st'. parse_loop rest st = Inr st'" for st
      using 1 [OF False f [symmetric]] .
    note p = parse_line_cases [OF fgets_nonempty [OF False f], of st]
    show ?thesis
    proof (cases "bad_line line")
      case True
      then show ?thesis using p by (simp add: l)
    next
      case False
      then obtain st1 where "parse_line line st = Inr st1" using p by auto
      then show ?thesis using r [of st1] False by (simp add: l del: split_paired_Ex)
    qed
  qed
qed

section \<open>Properties\<close>

text \<open>
  C14: what \<^verbatim>\<open>Save\<close> writes, \<^verbatim>\<open>Parse\<close> reads: the sections that have keys come back with the same keys and values, when their names have
  fewer than 512 characters, the lines at most 4095, and the values no newline and no NUL. \<^verbatim>\<open>Set\<close> enforces none of this.
\<close>

theorem INI_save_parse:
  assumes "sections_ok (ini_sections i)" "sections_fit (ini_sections i)" "ini_sections j = []"
  shows "INI_Parse (Some (snd (INI_Save fileName i))) j = Inr (True, j\<lparr>ini_sections := filter (\<lambda>e. snd e \<noteq> []) (ini_sections i)\<rparr>)"
  using parse_saved [of "[]" "ini_sections i" "[]"] assms by (auto simp: INI_Parse_def INI_Save_def)

text \<open>
  C39: every call keeps the sections and their keys in order, without duplicates and with proper names, whatever names, values and
  files it is given; a file that cannot be parsed is a fault and leaves nothing to check.
\<close>

theorem INI_well_formed:
  assumes "sections_ok (ini_sections i)"
  shows "sections_ok (ini_sections (snd (INI_Select s i))) \<and> sections_ok (ini_sections (snd (INI_Create s i)))
    \<and> sections_ok (ini_sections (snd (INI_Set s key v i))) \<and> sections_ok (ini_sections (snd (INI_Get s key v i)))
    \<and> sections_ok (ini_sections (INI_ClearExceptSection s i)) \<and> sections_ok (ini_sections (INI_Clear i))
    \<and> (\<forall>b i'. INI_Parse file i = Inr (b, i') \<longrightarrow> sections_ok (ini_sections i'))"
proof -
  have "sections_ok (ini_sections (snd (INI_Get s key v i)))"
    using assms by (auto simp: INI_Get_def Let_def sections_ok_touch split: option.split)
  moreover have "INI_Parse file i = Inr (b, i') \<Longrightarrow> sections_ok (ini_sections i')" for b i'
    using assms parse_loop_ok [of "([], ini_sections i)"] by (fastforce simp: INI_Parse_def rbind_eq_Inr_iff split: option.splits)
  moreover have "sections_ok (ini_sections (snd (INI_Create s i)))"
    using assms by (auto simp: INI_Create_def INI_Select_def sections_ok_touch split: option.split)
  moreover have "sections_ok (ini_sections (snd (INI_Set s key v i)))"
    using assms by (simp add: INI_Set_def sections_ok_set keys_ok_set keys_ok_at)
  ultimately show ?thesis
    using assms by (auto simp: INI_Select_def INI_ClearExceptSection_def INI_Clear_def sections_ok_erase split: option.split)
      (simp_all add: sections_ok_def smap_ok_def)
qed

text \<open>
  C38: exactly which files make \<^verbatim>\<open>Parse\<close> leave its arrays: those with a line that starts with a NUL, where the byte before the line is
  read, and those with a section name of 512 characters or more, which \<^verbatim>\<open>sscanf\<close> writes behind \<^verbatim>\<open>ssection\<close>. Every other file is
  parsed.
\<close>

theorem INI_Parse_faults_iff:
  "(if \<exists>l \<in> set (file_lines s). hd l = NUL \<or> hd l = CHR ''['' \<and> 512 \<le> length (takeWhile name_char (tl l))
    then INI_Parse (Some s) i = Inl Out_Of_Bounds else \<exists>i'. INI_Parse (Some s) i = Inr (True, i'))"
  using parse_loop_cases [of s "([], ini_sections i)"] by (auto simp: INI_Parse_def bad_line_def ssection_size_def split: if_splits)

text \<open>
  \<^verbatim>\<open>Set\<close> accepts a key and a value of 4095 bytes together, but their line with the equals sign does not fit one \<^verbatim>\<open>fgets\<close>: after
  \<^verbatim>\<open>Save\<close> and \<^verbatim>\<open>Parse\<close> the value has lost its last byte.
\<close>

lemma INI_value_at_limit:
  assumes "VerifyName s" "length s < ssection_size" "VerifyName k" "length k + length v + 1 = BUFFER_SIZE" "newline \<notin> set v" "NUL \<notin> set v"
    "v \<noteq> []" "last v \<noteq> CHR ''[''" "ini_sections i = []" "ini_sections j = []"
  shows "INI_Set s k v i = (True, i\<lparr>ini_sections := [(s, [(k, v)])]\<rparr>)"
    "INI_Parse (Some (snd (INI_Save f (snd (INI_Set s k v i))))) j = Inr (True, j\<lparr>ini_sections := [(s, [(k, butlast v)])]\<rparr>)"
proof -
  show set: "INI_Set s k v i = (True, i\<lparr>ini_sections := [(s, [(k, v)])]\<rparr>)"
    using assms(1,3,4,9) by (simp add: INI_Set_def smap_at_def)
  let ?l = "k @ ''='' @ butlast v"
  have v: "v = butlast v @ [last v]" using assms(7) by simp
  have l: "newline \<notin> set ?l" "NUL \<notin> set ?l" "length ?l = BUFFER_SIZE - 1"
    using name_not [OF assms(3)] assms(4-7) by (auto dest: in_set_butlastD simp: BUFFER_SIZE_def)
  let ?rest = "[last v, newline]"
  have "parse_loop ((''['' @ s @ '']'') @ newline # (?l @ ?rest)) ([], []) = parse_loop (?l @ ?rest) (s, [(s, [])])"
    using assms(2) name_not [OF assms(1)] parse_section_line [OF assms(1,2)]
    by (subst parse_loop_line) (auto simp: ssection_size_def smap_touch_def)
  also have "\<dots> = rbind (parse_line ?l (s, [(s, [])])) (parse_loop ?rest)"
    unfolding parse_loop.simps [of "?l @ ?rest"] fgets_line(2) [OF l(1,3), of ?rest] by simp
  also have "\<dots> = parse_loop ?rest (s, [(s, [(k, butlast v)])])"
    using parse_key_line [OF assms(3), of "butlast v" s "[(s, [])]"] l(1,2) assms(1) by (simp add: VerifyName_def smap_at_def)
  also have "\<dots> = Inr (s, [(s, [(k, butlast v)])])"
  proof -
    have c: "last v \<noteq> newline" "last v \<noteq> NUL" using assms(5-7) last_in_set by metis+
    have "parse_loop ([last v] @ newline # []) st = rbind (parse_line [last v] st) (parse_loop [])" for st
      using c by (intro parse_loop_line) auto
    moreover have "parse_line [last v] (s, m) = Inr (s, m)" for m
      using c assms(8) by (simp add: parse_line_def c_str_def key_line_def VerifyName_def Let_def)
    ultimately show ?thesis by (simp add: parse_loop.simps [of "[]"])
  qed
  finally have "parse_loop (makeSection s @ makeKeyValue k v) ([], []) = Inr (s, [(s, [(k, butlast v)])])"
    using v by (simp add: makeSection_def makeKeyValue_def) (metis append.assoc append_Cons append_Nil)
  then show "INI_Parse (Some (snd (INI_Save f (snd (INI_Set s k v i))))) j = Inr (True, j\<lparr>ini_sections := [(s, [(k, butlast v)])]\<rparr>)"
    using assms(10) by (simp add: set INI_Save_def save_section_def INI_Parse_def)
qed

section \<open>Examples\<close>

definition ex_ini :: INI where
  "ex_ini = \<lparr>ini_currentsection = ''net'', ini_sections = [(''a'', []), (''net'', [(''host'', ''h''), (''port'', ''80'')])], ini_filename = ''f''\<rparr>"

lemma ex_ini_ok: "sections_ok (ini_sections ex_ini)" "sections_fit (ini_sections ex_ini)"
  by (simp_all add: ex_ini_def sections_ok_def sections_fit_def keys_fit_def keys_ok_def smap_ok_def VerifyName_def name_char_def
      islower_def isupper_def isdigit_def ssection_size_def less_char_def newline_def)

theorem INI_save_parse_witness:
  "INI_Parse (Some (snd (INI_Save [] ex_ini))) (INI_Clear ex_ini)
    = Inr (True, (INI_Clear ex_ini)\<lparr>ini_sections := [(''net'', [(''host'', ''h''), (''port'', ''80'')])]\<rparr>)"
  using INI_save_parse [OF ex_ini_ok, of "INI_Clear ex_ini" "[]"] by (simp add: INI_Clear_def) (simp add: ex_ini_def)

theorem INI_well_formed_witness:
  "sections_ok (ini_sections (snd (INI_Set ''z'' ''k'' ''v'' ex_ini)))"
  using INI_well_formed [OF ex_ini_ok(1), of "''z''" "''k''" "''v''" None] by blast

theorem INI_Parse_faults_iff_witness:
  "INI_Parse (Some [NUL]) ex_ini = Inl Out_Of_Bounds"
proof -
  have "file_lines [NUL] = [[NUL]]" by (simp add: file_lines.simps fgets_def BUFFER_SIZE_def)
  then show ?thesis using INI_Parse_faults_iff [of "[NUL]" ex_ini] by simp
qed

end
