(* ===== verification/Tcp_Server.thy ===== *)
theory Tcp_Server
  imports Sys_Io
begin

text \<open>
  \<^verbatim>\<open>TcpServer\<close> of src/mars/comm/socket/tcpserver.h and tcpserver.cc: the listening thread and the calls of its owner. \<^verbatim>\<open>StopAndWait\<close>
  works under the mutex, the end of the thread does not take it, so both are sequences of steps that interleave: each reads or writes
  \<^verbatim>\<open>listen_sock_\<close> once. The answers of the kernel are arguments of a step. The breaker is a flag that stays until \<^verbatim>\<open>Clear\<close>; the fields
  from \<open>ls_opened\<close> on belong to the specification. Not modelled: a \<^verbatim>\<open>Break\<close> that fails (the pipe could not be written; \<^verbatim>\<open>StopAndWait\<close>
  then makes the breaker anew), a thread that cannot be created, and the wait of \<^verbatim>\<open>StartAndWait\<close> for the thread to have begun.
\<close>

section \<open>State\<close>

datatype listen_pc = T_None | T_Lock | T_OnCreate | T_Select | T_Accept | T_OnAccept socket | T_End | T_End_close | T_End_clear | T_OnError | T_Done

text \<open>The caller of \<^verbatim>\<open>StopAndWait\<close>: in the section of the mutex up to \<open>S_Clear\<close>, then joining the thread.\<close>

datatype stop_pc = S_None | S_Check | S_Close | S_Clear | S_Join

datatype server_event = OnCreate_ev | OnAccept_ev socket | OnServerError_ev

record TcpServer =
  ls_listen_sock :: socket
  ls_broken :: bool
  ls_pc :: listen_pc
  ls_stop :: stop_pc
  ls_log :: "server_event list"
  ls_opened :: "socket multiset"
  ls_closed :: "socket multiset"

definition TcpServer_new :: TcpServer where
  "TcpServer_new = \<lparr>ls_listen_sock = INVALID_SOCKET, ls_broken = False, ls_pc = T_None, ls_stop = S_None, ls_log = [],
     ls_opened = {#}, ls_closed = {#}\<rparr>"

text \<open>The mutex is free: the section of \<^verbatim>\<open>__ListenThread\<close> under it is one step.\<close>

definition mutex_free :: "TcpServer \<Rightarrow> bool" where
  "mutex_free s \<longleftrightarrow> ls_stop s = S_None \<or> ls_stop s = S_Join"

definition server_close :: "TcpServer \<Rightarrow> TcpServer" where
  "server_close s = s\<lparr>ls_closed := add_mset (ls_listen_sock s) (ls_closed s)\<rparr>"

section \<open>The calls of the owner\<close>

text \<open>\<^verbatim>\<open>StartAndWait\<close>: a thread is started when none is running, and the breaker cleared before the thread can take the mutex.\<close>

definition StartAndWait :: "TcpServer \<Rightarrow> TcpServer option" where
  "StartAndWait s =
     (if \<not> mutex_free s then None
      else if ls_pc s = T_None \<or> ls_pc s = T_Done then Some (s\<lparr>ls_pc := T_Lock, ls_broken := False\<rparr>)
      else Some s)"

definition StopAndWait_step :: "TcpServer \<Rightarrow> TcpServer option" where
  "StopAndWait_step s = (case ls_stop s of
     S_None \<Rightarrow> Some (s\<lparr>ls_broken := True, ls_stop := S_Check\<rparr>)
   | S_Check \<Rightarrow> Some (s\<lparr>ls_stop := (if INVALID_SOCKET \<noteq> ls_listen_sock s then S_Close else S_Join)\<rparr>)
   | S_Close \<Rightarrow> Some ((server_close s)\<lparr>ls_stop := S_Clear\<rparr>)
   | S_Clear \<Rightarrow> Some (s\<lparr>ls_listen_sock := INVALID_SOCKET, ls_stop := S_Join\<rparr>)
   | S_Join \<Rightarrow> if ls_pc s = T_None \<or> ls_pc s = T_Done then Some (s\<lparr>ls_stop := S_None\<rparr>) else None)"

section \<open>The thread\<close>

record server_answers =
  la_socket :: socket
  la_reuseaddr :: int
  la_bind :: int
  la_listen :: int
  la_select :: int
  la_breaker_error :: bool
  la_exception :: bool
  la_readable :: bool
  la_client :: socket

definition listen_open :: "server_answers \<Rightarrow> TcpServer \<Rightarrow> TcpServer" where
  "listen_open k s =
     (if INVALID_SOCKET = la_socket k then s\<lparr>ls_pc := T_End\<rparr>
      else
        let s1 = s\<lparr>ls_opened := add_mset (la_socket k) (ls_opened s)\<rparr> in
        if 0 > la_reuseaddr k \<or> 0 > la_bind k \<or> 0 > la_listen k
        then s1\<lparr>ls_closed := add_mset (la_socket k) (ls_closed s), ls_pc := T_End\<rparr>
        else s1\<lparr>ls_listen_sock := la_socket k, ls_pc := T_OnCreate\<rparr>)"

definition listen_selected :: "server_answers \<Rightarrow> TcpServer \<Rightarrow> TcpServer" where
  "listen_selected k s =
     s\<lparr>ls_pc := (if 0 > la_select k then T_End
        else if la_breaker_error k then T_End
        else if ls_broken s then T_End
        else if la_exception k then T_End
        else if \<not> la_readable k then T_End
        else T_Accept)\<rparr>"

definition ListenThread_step :: "server_answers \<Rightarrow> TcpServer \<Rightarrow> TcpServer option" where
  "ListenThread_step k s = (case ls_pc s of
     T_None \<Rightarrow> None
   | T_Lock \<Rightarrow> if mutex_free s then Some (listen_open k s) else None
   | T_OnCreate \<Rightarrow> Some (s\<lparr>ls_log := ls_log s @ [OnCreate_ev], ls_pc := T_Select\<rparr>)
   | T_Select \<Rightarrow> Some (listen_selected k s)
   | T_Accept \<Rightarrow> Some (s\<lparr>ls_pc := (if INVALID_SOCKET = la_client k then T_End else T_OnAccept (la_client k))\<rparr>)
   | T_OnAccept client \<Rightarrow> Some (s\<lparr>ls_log := ls_log s @ [OnAccept_ev client], ls_pc := T_Select\<rparr>)
   | T_End \<Rightarrow> Some (s\<lparr>ls_pc := (if INVALID_SOCKET \<noteq> ls_listen_sock s then T_End_close else T_OnError)\<rparr>)
   | T_End_close \<Rightarrow> Some ((server_close s)\<lparr>ls_pc := T_End_clear\<rparr>)
   | T_End_clear \<Rightarrow> Some (s\<lparr>ls_listen_sock := INVALID_SOCKET, ls_pc := T_OnError\<rparr>)
   | T_OnError \<Rightarrow> Some (s\<lparr>ls_log := ls_log s @ [OnServerError_ev], ls_pc := T_Done\<rparr>)
   | T_Done \<Rightarrow> None)"

section \<open>Runs\<close>

datatype server_step = Server_thread server_answers | Server_start | Server_stop

fun server_do :: "server_step \<Rightarrow> TcpServer \<Rightarrow> TcpServer option" where
  "server_do (Server_thread k) s = ListenThread_step k s"
| "server_do Server_start s = StartAndWait s"
| "server_do Server_stop s = StopAndWait_step s"

fun server_run :: "server_step list \<Rightarrow> TcpServer \<Rightarrow> TcpServer option" where
  "server_run [] s = Some s"
| "server_run (e # es) s = (case server_do e s of None \<Rightarrow> None | Some s' \<Rightarrow> server_run es s')"

section \<open>No descriptor is lost\<close>

definition clearing :: "TcpServer \<Rightarrow> bool" where
  "clearing s \<longleftrightarrow> ls_pc s = T_End_clear \<or> ls_stop s = S_Clear"

definition server_inv :: "TcpServer \<Rightarrow> bool" where
  "server_inv s \<longleftrightarrow> ls_opened s \<subseteq># ls_closed s + (if ls_listen_sock s = INVALID_SOCKET then {#} else {#ls_listen_sock s#})
     \<and> (clearing s \<longrightarrow> ls_opened s \<subseteq># ls_closed s)
     \<and> (ls_pc s \<in> {T_None, T_Lock, T_OnError, T_Done} \<longrightarrow> ls_listen_sock s = INVALID_SOCKET)"

lemma server_inv_new: "server_inv TcpServer_new"
  by (simp add: server_inv_def TcpServer_new_def clearing_def)

lemma covered_close:
  assumes "A \<subseteq># B + (if c then {#} else {#x#})"
  shows "A \<subseteq># add_mset x B" "A \<subseteq># add_mset x (add_mset x B)"
proof -
  have "B + (if c then {#} else {#x#}) \<subseteq># add_mset x B" by simp
  then show a: "A \<subseteq># add_mset x B" using assms subset_mset.order_trans by blast
  have "add_mset x B \<subseteq># add_mset x (add_mset x B)" by simp
  then show "A \<subseteq># add_mset x (add_mset x B)" using a subset_mset.order_trans by blast
qed

lemma server_inv_thread:
  assumes "server_inv s" "ListenThread_step k s = Some s'"
  shows "server_inv s'"
proof -
  have i: "ls_opened s \<subseteq># ls_closed s + (if ls_listen_sock s = INVALID_SOCKET then {#} else {#ls_listen_sock s#})"
    "clearing s \<Longrightarrow> ls_opened s \<subseteq># ls_closed s" "ls_pc s \<in> {T_None, T_Lock, T_OnError, T_Done} \<Longrightarrow> ls_listen_sock s = INVALID_SOCKET"
    using assms(1) by (simp_all add: server_inv_def)
  show ?thesis
  proof (cases "ls_pc s = T_Lock \<or> ls_pc s = T_End_close")
    case True
    then show ?thesis
    proof
      assume p: "ls_pc s = T_Lock"
      then have l: "ls_listen_sock s = INVALID_SOCKET" "ls_opened s \<subseteq># ls_closed s" using i by auto
      have "\<not> clearing s" "mutex_free s" using p assms(2) by (auto simp: clearing_def ListenThread_step_def mutex_free_def split: if_splits)
      then show ?thesis
        using l p assms(2) by (auto simp: ListenThread_step_def listen_open_def server_inv_def clearing_def Let_def mutex_free_def split: if_splits)
    next
      assume p: "ls_pc s = T_End_close"
      show ?thesis
        using p covered_close [OF i(1)] assms(2) by (auto simp: ListenThread_step_def server_close_def server_inv_def)
    qed
  next
    case False
    then show ?thesis
      using i assms(2) by (cases "ls_pc s") (auto simp: ListenThread_step_def listen_selected_def server_inv_def clearing_def split: if_splits)
  qed
qed

lemma server_inv_stop:
  assumes "server_inv s" "StopAndWait_step s = Some s'"
  shows "server_inv s'"
proof -
  have i: "ls_opened s \<subseteq># ls_closed s + (if ls_listen_sock s = INVALID_SOCKET then {#} else {#ls_listen_sock s#})"
    "clearing s \<Longrightarrow> ls_opened s \<subseteq># ls_closed s" "ls_pc s \<in> {T_None, T_Lock, T_OnError, T_Done} \<Longrightarrow> ls_listen_sock s = INVALID_SOCKET"
    using assms(1) by (simp_all add: server_inv_def)
  show ?thesis
  proof (cases "ls_stop s = S_Close")
    case True
    show ?thesis
      using True covered_close [OF i(1)] i(3) assms(2) by (auto simp: StopAndWait_step_def server_close_def server_inv_def)
  next
    case False
    then show ?thesis
      using i assms(2) by (cases "ls_stop s") (auto simp: StopAndWait_step_def server_inv_def clearing_def split: if_splits)
  qed
qed

lemma server_inv_step:
  assumes "server_inv s" "server_do e s = Some s'"
  shows "server_inv s'"
proof (cases e)
  case Server_start
  then show ?thesis
    using assms by (auto simp: StartAndWait_def server_inv_def clearing_def mutex_free_def split: if_splits)
next
  case (Server_thread k)
  then show ?thesis using server_inv_thread [OF assms(1)] assms(2) by simp
next
  case Server_stop
  then show ?thesis using server_inv_stop [OF assms(1)] assms(2) by simp
qed

lemma server_run_inv: "server_inv s \<Longrightarrow> server_run es s = Some s' \<Longrightarrow> server_inv s'"
  by (induction es arbitrary: s) (auto split: option.splits dest: server_inv_step)

section \<open>The end of the thread\<close>

fun listen_steps :: "listen_pc \<Rightarrow> nat" where
  "listen_steps T_Done = 0" | "listen_steps T_OnError = 1" | "listen_steps T_End_clear = 2" | "listen_steps T_End_close = 3"
| "listen_steps T_End = 4" | "listen_steps T_Select = 5" | "listen_steps T_OnCreate = 6" | "listen_steps (T_OnAccept c) = 6"
| "listen_steps T_Accept = 7" | "listen_steps T_Lock = 7" | "listen_steps T_None = 0"

fun is_thread :: "server_step \<Rightarrow> bool" where
  "is_thread (Server_thread k) = True" | "is_thread _ = False"

text \<open>From \<^verbatim>\<open>Break\<close> on, when nobody starts the server again.\<close>

lemma broken_step:
  assumes "ls_broken s" "server_do e s = Some s'" "e \<noteq> Server_start"
  shows "ls_broken s' \<and> listen_steps (ls_pc s') + (if is_thread e then 1 else 0) \<le> listen_steps (ls_pc s)"
proof (cases e)
  case (Server_thread k)
  then show ?thesis
    using assms by (cases "ls_pc s") (auto simp: ListenThread_step_def listen_open_def listen_selected_def server_close_def Let_def split: if_splits)
next
  case Server_stop
  then show ?thesis
    using assms by (cases "ls_stop s") (auto simp: StopAndWait_step_def server_close_def split: if_splits)
qed (use assms(3) in simp)

lemma broken_run:
  "ls_broken s \<Longrightarrow> server_run es s = Some s' \<Longrightarrow> Server_start \<notin> set es
    \<Longrightarrow> listen_steps (ls_pc s') + length (filter is_thread es) \<le> listen_steps (ls_pc s)"
proof (induction es arbitrary: s)
  case (Cons e es)
  obtain s1 where s1: "server_do e s = Some s1" "server_run es s1 = Some s'" using Cons.prems(2) by (auto split: option.splits)
  have "ls_broken s1" "listen_steps (ls_pc s1) + (if is_thread e then 1 else 0) \<le> listen_steps (ls_pc s)" "Server_start \<notin> set es"
    using broken_step [OF Cons.prems(1) s1(1)] Cons.prems(3) by auto
  then show ?case using Cons.IH [OF _ s1(2)] by auto
qed simp

section \<open>Properties\<close>

text \<open>
  C19: the listening socket is never lost: in every interleaving of the thread with starts and stops every socket that was opened and
  is not \<^verbatim>\<open>listen_sock_\<close> has been closed, and when the thread has ended \<^verbatim>\<open>listen_sock_\<close> is invalid. After the break of
  \<^verbatim>\<open>StopAndWait\<close> the thread can make at most seven more steps, and as long as it has not ended it can make one whenever the mutex is
  free, so it ends.
\<close>

theorem TcpServer_no_leak:
  assumes "server_run es TcpServer_new = Some s"
  shows "ls_opened s \<subseteq># ls_closed s + (if ls_listen_sock s = INVALID_SOCKET then {#} else {#ls_listen_sock s#})
    \<and> (ls_pc s \<in> {T_None, T_Done} \<longrightarrow> ls_listen_sock s = INVALID_SOCKET \<and> ls_opened s \<subseteq># ls_closed s)
    \<and> (ls_broken s \<and> Server_start \<notin> set es' \<and> server_run es' s = Some s' \<longrightarrow> length (filter is_thread es') \<le> 7)
    \<and> (ls_pc s \<notin> {T_None, T_Done} \<and> mutex_free s \<longrightarrow> ListenThread_step k s \<noteq> None)"
proof -
  have i: "server_inv s" using server_run_inv [OF server_inv_new assms] .
  have "listen_steps (ls_pc s) \<le> 7" by (cases "ls_pc s") simp_all
  then have "ls_broken s \<Longrightarrow> Server_start \<notin> set es' \<Longrightarrow> server_run es' s = Some s' \<Longrightarrow> length (filter is_thread es') \<le> 7"
    using broken_run [of s es' s'] by linarith
  moreover have "ls_pc s \<notin> {T_None, T_Done} \<Longrightarrow> mutex_free s \<Longrightarrow> ListenThread_step k s \<noteq> None"
    by (cases "ls_pc s") (simp_all add: ListenThread_step_def)
  ultimately show ?thesis using i by (auto simp: server_inv_def)
qed

definition ex_listen :: server_answers where
  "ex_listen = \<lparr>la_socket = 5, la_reuseaddr = 0, la_bind = 0, la_listen = 0, la_select = 1, la_breaker_error = False, la_exception = False,
     la_readable = True, la_client = 6\<rparr>"

lemmas ex_server_defs = ex_listen_def TcpServer_new_def StartAndWait_def mutex_free_def ListenThread_step_def listen_open_def
  listen_selected_def StopAndWait_step_def server_close_def INVALID_SOCKET_def Let_def

text \<open>The owner stops the server while the thread waits; the thread ends between the close and the reset of \<^verbatim>\<open>listen_sock_\<close>.\<close>

definition ex_race :: "server_step list" where
  "ex_race = (let t = Server_thread ex_listen in
     [Server_start, t, t, Server_stop, Server_stop, t, Server_stop, t, t])"

lemma TcpServer_double_close:
  "\<exists>es s. server_run es TcpServer_new = Some s \<and> count (ls_opened s) 5 = 1 \<and> count (ls_closed s) 5 = 2
    \<and> length (filter (\<lambda>e. e = Server_start) es) = 1"
proof (intro exI conjI)
  show "server_run ex_race TcpServer_new = Some (the (server_run ex_race TcpServer_new))"
    "count (ls_opened (the (server_run ex_race TcpServer_new))) 5 = 1" "count (ls_closed (the (server_run ex_race TcpServer_new))) 5 = 2"
    "length (filter (\<lambda>e. e = Server_start) ex_race) = 1"
    by (simp_all add: ex_race_def ex_server_defs)
qed

section \<open>Closed once, when the two ends do not overlap\<close>

text \<open>The thread and the owner are both between their test of \<^verbatim>\<open>listen_sock_\<close> and its reset.\<close>

definition overlap :: "TcpServer \<Rightarrow> bool" where
  "overlap s \<longleftrightarrow> (ls_pc s = T_End_close \<or> ls_pc s = T_End_clear) \<and> (ls_stop s = S_Close \<or> ls_stop s = S_Clear)"

text \<open>No state of the run, the first and the last included, is such a state.\<close>

fun apart :: "server_step list \<Rightarrow> TcpServer \<Rightarrow> bool" where
  "apart [] s \<longleftrightarrow> \<not> overlap s"
| "apart (e # es) s \<longleftrightarrow> \<not> overlap s \<and> (case server_do e s of None \<Rightarrow> True | Some s' \<Rightarrow> apart es s')"

definition exact_inv :: "TcpServer \<Rightarrow> bool" where
  "exact_inv s \<longleftrightarrow> ls_opened s = ls_closed s + (if ls_listen_sock s = INVALID_SOCKET \<or> clearing s then {#} else {#ls_listen_sock s#})
     \<and> (ls_pc s \<in> {T_None, T_Lock, T_OnError, T_Done} \<longrightarrow> ls_listen_sock s = INVALID_SOCKET)
     \<and> (ls_pc s = T_End_close \<or> ls_pc s = T_End_clear \<or> ls_stop s = S_Close \<or> ls_stop s = S_Clear
        \<longrightarrow> ls_listen_sock s \<noteq> INVALID_SOCKET)"

lemma exact_inv_new: "exact_inv TcpServer_new"
  by (simp add: exact_inv_def TcpServer_new_def clearing_def)

lemma exact_inv_move:
  assumes "exact_inv s" "ls_opened s' = ls_opened s" "ls_closed s' = ls_closed s" "ls_listen_sock s' = ls_listen_sock s"
    and "clearing s' = clearing s" "ls_pc s' \<in> {T_None, T_Lock, T_OnError, T_Done} \<Longrightarrow> ls_listen_sock s = INVALID_SOCKET"
    and "ls_pc s' = T_End_close \<or> ls_pc s' = T_End_clear \<or> ls_stop s' = S_Close \<or> ls_stop s' = S_Clear
      \<Longrightarrow> ls_listen_sock s \<noteq> INVALID_SOCKET"
  shows "exact_inv s'"
  using assms unfolding exact_inv_def by presburger

lemma listen_moves:
  assumes "ListenThread_step k s = Some s'" "ls_pc s \<notin> {T_Lock, T_End_close, T_End_clear}"
  shows "ls_opened s' = ls_opened s" "ls_closed s' = ls_closed s" "ls_listen_sock s' = ls_listen_sock s" "ls_stop s' = ls_stop s"
    "ls_pc s' \<noteq> T_End_clear" "ls_pc s' = T_End_close \<Longrightarrow> ls_listen_sock s \<noteq> INVALID_SOCKET"
    "ls_pc s' \<in> {T_None, T_Lock, T_OnError, T_Done} \<Longrightarrow> ls_pc s = T_OnError \<or> ls_listen_sock s = INVALID_SOCKET"
  using assms by (auto simp: ListenThread_step_def listen_selected_def split: listen_pc.splits if_splits)

lemma stop_moves:
  assumes "StopAndWait_step s = Some s'" "ls_stop s \<notin> {S_Close, S_Clear}"
  shows "ls_opened s' = ls_opened s" "ls_closed s' = ls_closed s" "ls_listen_sock s' = ls_listen_sock s" "ls_pc s' = ls_pc s"
    "ls_stop s' \<noteq> S_Clear" "ls_stop s' = S_Close \<Longrightarrow> ls_listen_sock s \<noteq> INVALID_SOCKET"
  using assms by (auto simp: StopAndWait_step_def split: stop_pc.splits if_splits)

lemma exact_inv_step:
  assumes i: "exact_inv s" and o: "\<not> overlap s" and s': "server_do e s = Some s'"
  shows "exact_inv s'"
proof (cases e)
  case Server_start
  with s' have "s' = s \<or> ((ls_pc s = T_None \<or> ls_pc s = T_Done) \<and> (ls_stop s = S_None \<or> ls_stop s = S_Join)
      \<and> s' = s\<lparr>ls_pc := T_Lock, ls_broken := False\<rparr>)"
    by (auto simp: StartAndWait_def mutex_free_def split: if_splits)
  then show ?thesis
  proof (elim disjE)
    assume "(ls_pc s = T_None \<or> ls_pc s = T_Done) \<and> (ls_stop s = S_None \<or> ls_stop s = S_Join)
      \<and> s' = s\<lparr>ls_pc := T_Lock, ls_broken := False\<rparr>"
    moreover from this have "ls_listen_sock s = INVALID_SOCKET" "ls_opened s = ls_closed s" using i by (auto simp: exact_inv_def)
    ultimately show ?thesis by (auto simp: exact_inv_def clearing_def)
  qed (use i in auto)
next
  case (Server_thread k)
  with s' have t: "ListenThread_step k s = Some s'" by simp
  show ?thesis
  proof (cases "ls_pc s \<in> {T_Lock, T_End_close, T_End_clear}")
    case True
    then consider "ls_pc s = T_Lock" | "ls_pc s = T_End_close" | "ls_pc s = T_End_clear" by blast
    then show ?thesis
    proof cases
      case 1
      then have "mutex_free s" "ls_listen_sock s = INVALID_SOCKET" "ls_opened s = ls_closed s"
        using t i by (auto simp: ListenThread_step_def exact_inv_def split: if_splits)
      then show ?thesis
        using 1 t by (auto simp: ListenThread_step_def listen_open_def exact_inv_def clearing_def mutex_free_def Let_def split: if_splits)
    next
      case 2
      then have "ls_opened s = add_mset (ls_listen_sock s) (ls_closed s)" "ls_listen_sock s \<noteq> INVALID_SOCKET"
        using i o by (auto simp: exact_inv_def clearing_def overlap_def)
      then show ?thesis using 2 t by (auto simp: ListenThread_step_def server_close_def exact_inv_def clearing_def)
    next
      case 3
      then have "ls_opened s = ls_closed s" "\<not> (ls_stop s = S_Close \<or> ls_stop s = S_Clear)"
        using i o by (auto simp: exact_inv_def clearing_def overlap_def)
      then show ?thesis using 3 t by (auto simp: ListenThread_step_def exact_inv_def clearing_def)
    qed
  next
    case False
    note m = listen_moves [OF t False]
    show ?thesis
      by (rule exact_inv_move [OF i m(1-3)]) (use False m i in \<open>auto simp: clearing_def exact_inv_def\<close>)
  qed
next
  case Server_stop
  with s' have t: "StopAndWait_step s = Some s'" by simp
  show ?thesis
  proof (cases "ls_stop s \<in> {S_Close, S_Clear}")
    case True
    then consider "ls_stop s = S_Close" | "ls_stop s = S_Clear" by blast
    then show ?thesis
    proof cases
      case 1
      then have "ls_opened s = add_mset (ls_listen_sock s) (ls_closed s)" "ls_listen_sock s \<noteq> INVALID_SOCKET"
          "ls_pc s \<notin> {T_None, T_Lock, T_OnError, T_Done}"
        using i o by (auto simp: exact_inv_def clearing_def overlap_def)
      then show ?thesis using 1 t by (auto simp: StopAndWait_step_def server_close_def exact_inv_def clearing_def)
    next
      case 2
      then have "ls_opened s = ls_closed s" "\<not> (ls_pc s = T_End_close \<or> ls_pc s = T_End_clear)"
        using i o by (auto simp: exact_inv_def clearing_def overlap_def)
      then show ?thesis using 2 t by (auto simp: StopAndWait_step_def exact_inv_def clearing_def)
    qed
  next
    case False
    note m = stop_moves [OF t False]
    show ?thesis
      by (rule exact_inv_move [OF i m(1-3)]) (use False m i in \<open>auto simp: clearing_def exact_inv_def\<close>)
  qed
qed

lemma exact_run: "exact_inv s \<Longrightarrow> server_run es s = Some s' \<Longrightarrow> apart es s \<Longrightarrow> exact_inv s' \<and> \<not> overlap s'"
  by (induction es arbitrary: s) (auto split: option.splits dest: exact_inv_step)

text \<open>
  C20: the listening socket is closed exactly once as long as the thread and \<^verbatim>\<open>StopAndWait\<close> are never both between their test of
  \<^verbatim>\<open>listen_sock_\<close> and its reset: in every such interleaving the opened sockets are the closed ones and \<^verbatim>\<open>listen_sock_\<close>, until its
  close. Nothing keeps the two apart, for the end of the thread does not take the mutex: in every state in which both have found
  \<^verbatim>\<open>listen_sock_\<close> valid and neither has closed it, both close it, in whichever order they go on, and a descriptor that another part of
  the program got in between is closed.
\<close>

theorem TcpServer_closed_once:
  assumes "server_run es TcpServer_new = Some s"
  shows "(apart es TcpServer_new \<longrightarrow>
      ls_opened s = ls_closed s + (if ls_listen_sock s = INVALID_SOCKET \<or> clearing s then {#} else {#ls_listen_sock s#}))
    \<and> (ls_pc s = T_End_close \<and> ls_stop s = S_Close \<longrightarrow>
      (\<forall>run. run = [Server_stop, Server_thread k] \<or> run = [Server_thread k, Server_stop] \<longrightarrow>
        (\<exists>s'. server_run run s = Some s' \<and> ls_closed s' = ls_closed s + {#ls_listen_sock s, ls_listen_sock s#})))"
proof (intro conjI impI)
  assume "apart es TcpServer_new"
  then show "ls_opened s = ls_closed s + (if ls_listen_sock s = INVALID_SOCKET \<or> clearing s then {#} else {#ls_listen_sock s#})"
    using exact_run [OF exact_inv_new assms] by (simp add: exact_inv_def)
next
  assume "ls_pc s = T_End_close \<and> ls_stop s = S_Close"
  then show "\<forall>run. run = [Server_stop, Server_thread k] \<or> run = [Server_thread k, Server_stop] \<longrightarrow>
      (\<exists>s'. server_run run s = Some s' \<and> ls_closed s' = ls_closed s + {#ls_listen_sock s, ls_listen_sock s#})"
    by (auto simp: StopAndWait_step_def ListenThread_step_def server_close_def)
qed

theorem TcpServer_closed_once_witness:
  "\<exists>s1 s2 s3. server_run [Server_start, Server_thread ex_listen, Server_stop] TcpServer_new = Some s1
    \<and> ls_opened s1 = ls_closed s1 + {#5#} \<and> ls_closed s1 = {#}
    \<and> server_run (take 5 ex_race @ [Server_thread ex_listen, Server_thread ex_listen]) TcpServer_new = Some s2
    \<and> server_run [Server_stop, Server_thread ex_listen] s2 = Some s3 \<and> ls_closed s3 = {#5, 5#}"
proof -
  define s1 where "s1 = the (server_run [Server_start, Server_thread ex_listen, Server_stop] TcpServer_new)"
  define s2 where "s2 = the (server_run (take 5 ex_race @ [Server_thread ex_listen, Server_thread ex_listen]) TcpServer_new)"
  have r1: "server_run [Server_start, Server_thread ex_listen, Server_stop] TcpServer_new = Some s1" "ls_listen_sock s1 = 5"
    "apart [Server_start, Server_thread ex_listen, Server_stop] TcpServer_new" "\<not> clearing s1" "ls_closed s1 = {#}"
    by (simp_all add: s1_def ex_server_defs overlap_def clearing_def)
  have r2: "server_run (take 5 ex_race @ [Server_thread ex_listen, Server_thread ex_listen]) TcpServer_new = Some s2"
    "ls_listen_sock s2 = 5" "ls_closed s2 = {#}" "ls_pc s2 = T_End_close" "ls_stop s2 = S_Close"
    by (simp_all add: s2_def ex_race_def ex_server_defs)
  obtain s3 where "server_run [Server_stop, Server_thread ex_listen] s2 = Some s3" "ls_closed s3 = {#5, 5#}"
    using TcpServer_closed_once [OF r2(1), of ex_listen] r2 by auto
  then show ?thesis
    using TcpServer_closed_once [OF r1(1)] r1 r2(1) by (auto simp: INVALID_SOCKET_def)
qed

theorem TcpServer_no_leak_witness:
  "\<exists>s. server_run [Server_start, Server_thread ex_listen, Server_stop] TcpServer_new = Some s \<and> ls_listen_sock s = 5
    \<and> ls_opened s \<subseteq># ls_closed s + {#5#} \<and> length (filter is_thread [Server_stop, Server_stop]) \<le> 7"
proof -
  define s where "s = the (server_run [Server_start, Server_thread ex_listen, Server_stop] TcpServer_new)"
  have r: "server_run [Server_start, Server_thread ex_listen, Server_stop] TcpServer_new = Some s" "ls_listen_sock s = 5" "ls_broken s"
    "\<exists>s'. server_run [Server_stop, Server_stop] s = Some s'"
    by (simp_all add: s_def ex_server_defs)
  then obtain s' where "server_run [Server_stop, Server_stop] s = Some s'" by blast
  then show ?thesis
    using TcpServer_no_leak [OF r(1), of "[Server_stop, Server_stop]" s'] r by (auto simp: INVALID_SOCKET_def)
qed

end
