(* ===== verification/Server_Fsm.thy ===== *)
theory Server_Fsm
  imports Conn_Props
begin

text \<open>
  \<^verbatim>\<open>TcpServerFSM\<close> of src/mars/comm/socket/tcpserver_fsm.h and tcpserver_fsm.cc: one accepted connection, driven by \<^verbatim>\<open>PreSelect\<close> and
  \<^verbatim>\<open>AfterSelect\<close>. Its virtual functions are a record (\<open>server_class\<close>), a derived class extends the record of the object. The address
  and the log lines are left out. The property follows an object over its life: no fault, and its descriptor is closed exactly once.
\<close>

section \<open>The object\<close>

datatype ServerStatus = kAccept | kServerReadWrite | kServerEnd

record TcpServerFSM =
  sv_status :: ServerStatus
  sv_sock :: socket
  sv_send_buf :: AutoBuffer
  sv_recv_buf :: AutoBuffer
  sv_is_write_fd_set :: bool

record 'f server_class =
  vs_OnAccept :: "'f \<Rightarrow> 'f io"
  vs_OnRecv :: "int \<Rightarrow> 'f \<Rightarrow> 'f io"
  vs_OnSend :: "int \<Rightarrow> 'f \<Rightarrow> 'f io"
  vs_OnClose :: "ServerStatus \<Rightarrow> int \<Rightarrow> bool \<Rightarrow> 'f \<Rightarrow> 'f io"
  vs_ReadWriteTimeout :: "'f \<Rightarrow> int io"

definition TcpServerFSM_new :: "socket \<Rightarrow> TcpServerFSM" where
  "TcpServerFSM_new s = \<lparr>sv_status = kAccept, sv_sock = s, sv_send_buf = AutoBuffer_new 128, sv_recv_buf = AutoBuffer_new 128,
     sv_is_write_fd_set = False\<rparr>"

definition Server_IsEndStatus :: "'x TcpServerFSM_scheme \<Rightarrow> bool" where
  "Server_IsEndStatus f \<longleftrightarrow> sv_status f = kServerEnd"

definition WriteFDSet :: "bool \<Rightarrow> 'x TcpServerFSM_scheme \<Rightarrow> 'x TcpServerFSM_scheme" where
  "WriteFDSet is_set f = f\<lparr>sv_is_write_fd_set := is_set\<rparr>"

definition Server_Close :: "('x TcpServerFSM_scheme) server_class \<Rightarrow> bool \<Rightarrow> 'x TcpServerFSM_scheme \<Rightarrow> ('x TcpServerFSM_scheme) io" where
  "Server_Close vt notify f =
     (if INVALID_SOCKET = sv_sock f then io_return f
      else io_then (socket_close (sv_sock f))
        (let status = sv_status f; f1 = f\<lparr>sv_sock := INVALID_SOCKET, sv_status := kServerEnd\<rparr> in
         if notify then vs_OnClose vt status 0 True f1 else io_return f1))"

definition Server_delete :: "('x TcpServerFSM_scheme) server_class \<Rightarrow> 'x TcpServerFSM_scheme \<Rightarrow> ('x TcpServerFSM_scheme) io" where
  "Server_delete vt f = Server_Close vt False f"

section \<open>Before the select\<close>

definition Server_PreReadWriteSelect :: "'x TcpServerFSM_scheme \<Rightarrow> SocketSelect \<Rightarrow> 'x TcpServerFSM_scheme \<times> SocketSelect" where
  "Server_PreReadWriteSelect f sel =
     (let sel1 = Exception_FD_SET (sv_sock f) (Read_FD_SET (sv_sock f) sel) in
      if 0 < Length (sv_send_buf f) then (WriteFDSet True f, Write_FD_SET (sv_sock f) sel1) else (WriteFDSet False f, sel1))"

definition Server_PreSelect ::
  "('x TcpServerFSM_scheme) server_class \<Rightarrow> 'x TcpServerFSM_scheme \<Rightarrow> SocketSelect \<Rightarrow> ('x TcpServerFSM_scheme \<times> SocketSelect) io" where
  "Server_PreSelect vt f sel =
     io_bind (if kAccept = sv_status f then io_bind (vs_OnAccept vt f) (\<lambda>f1. io_return (f1\<lparr>sv_status := kServerReadWrite\<rparr>)) else io_return f)
       (\<lambda>f1. io_return (if kServerReadWrite = sv_status f1 then Server_PreReadWriteSelect f1 sel else (f1, sel)))"

section \<open>After the select\<close>

text \<open>\<^verbatim>\<open>socket_close(sock_); sock_ = INVALID_SOCKET; status_ = kEnd; _OnClose(kReadWrite, ..., false);\<close>\<close>

definition server_end :: "('x TcpServerFSM_scheme) server_class \<Rightarrow> int io \<Rightarrow> 'x TcpServerFSM_scheme \<Rightarrow> ('x TcpServerFSM_scheme \<times> bool) io" where
  "server_end vt err f =
     io_then (socket_close (sv_sock f))
       (io_bind err (\<lambda>e. io_bind (vs_OnClose vt kServerReadWrite e False (f\<lparr>sv_sock := INVALID_SOCKET, sv_status := kServerEnd\<rparr>))
         (\<lambda>f1. io_return (f1, True))))"

definition server_ended :: "('x TcpServerFSM_scheme) server_class \<Rightarrow> int io \<Rightarrow> 'x TcpServerFSM_scheme \<Rightarrow> ('x TcpServerFSM_scheme) io" where
  "server_ended vt err f = io_bind (server_end vt err f) (\<lambda>(f1, _). io_return f1)"

text \<open>The parts on a writable and on a readable descriptor; the flag says that they return early.\<close>

definition server_write :: "env \<Rightarrow> ('x TcpServerFSM_scheme) server_class \<Rightarrow> 'x TcpServerFSM_scheme \<Rightarrow> ('x TcpServerFSM_scheme \<times> bool) io" where
  "server_write E vt f =
     io_bind (io_lift (Ptr_bytes (sv_send_buf f) 0 (Length (sv_send_buf f)))) (\<lambda>d.
     io_bind (send_to E (sv_sock f) d) (\<lambda>ret.
       if 0 < ret then
         io_bind (io_lift (Move (sv_send_buf f) (- ret))) (\<lambda>b.
         io_bind (vs_OnSend vt ret (f\<lparr>sv_send_buf := b\<rparr>)) (\<lambda>f1. io_return (f1, False)))
       else
         io_bind (socket_errno E) (\<lambda>e.
           if IS_NOBLOCK_SEND_ERRNO e then io_return (f, False) else server_end vt (socket_errno E) f)))"

definition server_read :: "env \<Rightarrow> ('x TcpServerFSM_scheme) server_class \<Rightarrow> 'x TcpServerFSM_scheme \<Rightarrow> ('x TcpServerFSM_scheme \<times> bool) io" where
  "server_read E vt f =
     io_bind (io_lift (recv_room (sv_recv_buf f))) (\<lambda>b. let f1 = f\<lparr>sv_recv_buf := b\<rparr> in
     io_bind (recv_from E (sv_sock f1) (to_size (int (Capacity b) - int (Length b)))) (\<lambda>r.
       case r of
         None \<Rightarrow>
           io_bind (socket_errno E) (\<lambda>e.
             if IS_NOBLOCK_READ_ERRNO e then io_return (f1, False) else server_end vt (socket_errno E) f1)
       | Some d \<Rightarrow>
           if d \<noteq> [] then
             io_bind (io_lift (memcpy_to b (int (Length b)) d)) (\<lambda>b'.
               io_bind (vs_OnRecv vt (int (length d))
                 (f1\<lparr>sv_recv_buf := Length_set b' (Pos b') (to_size (int (Length b') + int (length d)))\<rparr>)) (\<lambda>f2. io_return (f2, False)))
           else server_end vt (io_return 0) f1))"

text \<open>What follows the part on a readable descriptor, and the part on a writable one.\<close>

definition server_after_read ::
  "('x TcpServerFSM_scheme) server_class \<Rightarrow> SocketSelect \<Rightarrow> int \<Rightarrow> 'x TcpServerFSM_scheme \<times> bool \<Rightarrow> ('x TcpServerFSM_scheme) io" where
  "server_after_read vt sel timeout r = (case r of (f, returned) \<Rightarrow>
     if returned then io_return f
     else if \<not> Write_FD_ISSET sel (sv_sock f) \<and> \<not> Read_FD_ISSET sel (sv_sock f) \<and> timeout \<le> 0 then
       server_ended vt (io_return ETIMEDOUT) f
     else io_return f)"

definition server_after_write ::
  "env \<Rightarrow> ('x TcpServerFSM_scheme) server_class \<Rightarrow> SocketSelect \<Rightarrow> int \<Rightarrow> 'x TcpServerFSM_scheme \<times> bool \<Rightarrow> ('x TcpServerFSM_scheme) io" where
  "server_after_write E vt sel timeout r = (case r of (f, returned) \<Rightarrow>
     if returned then io_return f
     else io_bind (if Read_FD_ISSET sel (sv_sock f) then server_read E vt f else io_return (f, False)) (server_after_read vt sel timeout))"

definition Server_AfterReadWriteSelect ::
  "env \<Rightarrow> ('x TcpServerFSM_scheme) server_class \<Rightarrow> SocketSelect \<Rightarrow> 'x TcpServerFSM_scheme \<Rightarrow> ('x TcpServerFSM_scheme) io" where
  "Server_AfterReadWriteSelect E vt sel f =
     io_bind (vs_ReadWriteTimeout vt f) (\<lambda>timeout.
       if Exception_FD_ISSET sel (sv_sock f) then
         io_bind (socket_error E (sv_sock f)) (\<lambda>e. server_ended vt (io_return e) f)
       else
         io_bind (if Write_FD_ISSET sel (sv_sock f) then server_write E vt f else io_return (f, False)) (server_after_write E vt sel timeout))"

definition Server_AfterSelect ::
  "env \<Rightarrow> ('x TcpServerFSM_scheme) server_class \<Rightarrow> SocketSelect \<Rightarrow> 'x TcpServerFSM_scheme \<Rightarrow> ('x TcpServerFSM_scheme) io" where
  "Server_AfterSelect E vt sel f =
     (if kServerReadWrite = sv_status f then Server_AfterReadWriteSelect E vt sel f else io_return f)"

definition Server_Timeout :: "('x TcpServerFSM_scheme) server_class \<Rightarrow> 'x TcpServerFSM_scheme \<Rightarrow> int io" where
  "Server_Timeout vt f =
     (if kServerReadWrite = sv_status f then vs_ReadWriteTimeout vt f else if kServerEnd = sv_status f then io_return 0 else io_return INT_MAX)"

text \<open>The life of an object: rounds, each with the select before and the select after the wait, then the destructor.\<close>

fun server_rounds ::
  "env \<Rightarrow> ('x TcpServerFSM_scheme) server_class \<Rightarrow> (SocketSelect \<times> SocketSelect) list \<Rightarrow> 'x TcpServerFSM_scheme \<Rightarrow> ('x TcpServerFSM_scheme) io" where
  "server_rounds E vt [] f = io_return f"
| "server_rounds E vt ((before, after) # rs) f =
     io_bind (Server_PreSelect vt f before) (\<lambda>(f1, _). io_bind (Server_AfterSelect E vt after f1) (server_rounds E vt rs))"

definition server_life ::
  "env \<Rightarrow> ('x TcpServerFSM_scheme) server_class \<Rightarrow> (SocketSelect \<times> SocketSelect) list \<Rightarrow> 'x TcpServerFSM_scheme \<Rightarrow> ('x TcpServerFSM_scheme) io" where
  "server_life E vt rs f = io_bind (server_rounds E vt rs f) (Server_delete vt)"

section \<open>Computations that succeed\<close>

definition io_ok :: "'a io \<Rightarrow> log \<Rightarrow> ('a \<Rightarrow> log \<Rightarrow> bool) \<Rightarrow> bool" where
  "io_ok m h Q \<longleftrightarrow> (\<exists>x h'. m h = Some (Inr (x, h')) \<and> Q x h')"

lemma io_ok_return [simp]: "io_ok (io_return x) h Q \<longleftrightarrow> Q x h"
  by (auto simp: io_ok_def io_return_def split: option.splits sum.splits)

lemma io_ok_bind [simp]: "io_ok (io_bind m f) h Q \<longleftrightarrow> io_ok m h (\<lambda>x h'. io_ok (f x) h' Q)"
  by (auto simp: io_ok_def io_bind_def split: option.splits sum.splits)

lemma io_ok_then [simp]: "io_ok (io_then m n) h Q \<longleftrightarrow> io_ok m h (\<lambda>_ h'. io_ok n h' Q)"
  by (auto simp: io_ok_def io_then_def io_bind_def split: option.splits sum.splits)

lemma io_ok_call [simp]: "io_ok (io_call ask ev) h Q \<longleftrightarrow> Q (ask h) (ev (ask h) # h)"
  by (auto simp: io_ok_def io_call_def split: option.splits sum.splits)

lemma io_ok_log [simp]: "io_ok (io_log e) h Q \<longleftrightarrow> Q () (e # h)"
  by (auto simp: io_ok_def io_log_def split: option.splits sum.splits)

lemma io_ok_lift [simp]: "io_ok (io_lift r) h Q \<longleftrightarrow> (\<exists>x. r = Inr x \<and> Q x h)"
  by (auto simp: io_ok_def io_lift_def split: option.splits sum.splits)

lemma io_ok_mono: "io_ok m h Q \<Longrightarrow> (\<And>x h'. Q x h' \<Longrightarrow> R x h') \<Longrightarrow> io_ok m h R"
  by (auto simp: io_ok_def)

section \<open>What a callback may do\<close>

text \<open>A callback comes back, leaves the connection alone, opens and closes nothing, and leaves buffers below 1 GB.\<close>

definition server_bufs :: "nat \<Rightarrow> 'x TcpServerFSM_scheme \<Rightarrow> bool" where
  "server_bufs n f \<longleftrightarrow> wf_buf (sv_send_buf f) \<and> wf_buf (sv_recv_buf f) \<and> length (content (sv_send_buf f)) < n \<and> length (content (sv_recv_buf f)) < n"

definition server_callback :: "('x TcpServerFSM_scheme \<Rightarrow> ('x TcpServerFSM_scheme) io) \<Rightarrow> bool" where
  "server_callback m \<longleftrightarrow> (\<forall>f h. server_bufs (2 ^ 31) f \<longrightarrow>
     io_ok (m f) h (\<lambda>f' h'. quiet h h' \<and> sv_sock f' = sv_sock f \<and> sv_status f' = sv_status f \<and> server_bufs (2 ^ 30) f'))"

definition server_callbacks :: "('x TcpServerFSM_scheme) server_class \<Rightarrow> bool" where
  "server_callbacks vt \<longleftrightarrow> server_callback (vs_OnAccept vt) \<and> (\<forall>n. server_callback (vs_OnRecv vt n)) \<and> (\<forall>n. server_callback (vs_OnSend vt n))
     \<and> (\<forall>st e u. server_callback (vs_OnClose vt st e u)) \<and> (\<forall>f h. io_ok (vs_ReadWriteTimeout vt f) h (\<lambda>_ h'. quiet h h'))"

text \<open>What \<^verbatim>\<open>send\<close> and \<^verbatim>\<open>recv\<close> promise, and that one \<^verbatim>\<open>recv\<close> brings less than 1 GB.\<close>

definition server_env :: "env \<Rightarrow> bool" where
  "server_env E \<longleftrightarrow> (\<forall>h s d. env_send E h s d \<le> int (length d)) \<and> (\<forall>h s n d. env_recv E h s n = Some d \<longrightarrow> length d \<le> n \<and> length d < 2 ^ 30)"

text \<open>The descriptor \<open>s\<close>, open or closed once since \<open>C\<close> was closed.\<close>

definition server_at :: "socket multiset \<Rightarrow> socket \<Rightarrow> log \<Rightarrow> 'x TcpServerFSM_scheme \<Rightarrow> bool" where
  "server_at C s h f \<longleftrightarrow> s \<noteq> INVALID_SOCKET \<and> server_bufs (2 ^ 30) f
     \<and> (if sv_sock f = INVALID_SOCKET then sv_status f = kServerEnd \<and> closed h = add_mset s C
        else sv_sock f = s \<and> sv_status f \<noteq> kServerEnd \<and> closed h = C)"

lemma server_bufs_mono: "server_bufs n f \<Longrightarrow> n \<le> m \<Longrightarrow> server_bufs m f"
  by (auto simp: server_bufs_def)

lemma server_callback_ok:
  assumes "server_callback m" "server_bufs (2 ^ 31) f"
    "\<And>f' h'. quiet h h' \<Longrightarrow> sv_sock f' = sv_sock f \<Longrightarrow> sv_status f' = sv_status f \<Longrightarrow> server_bufs (2 ^ 30) f' \<Longrightarrow> Q f' h'"
  shows "io_ok (m f) h Q"
  using assms(1,2) unfolding server_callback_def by (blast intro: io_ok_mono assms(3))

lemma server_at_quiet: "server_at C s h f \<Longrightarrow> quiet h h' \<Longrightarrow> sv_sock f' = sv_sock f \<Longrightarrow> sv_status f' = sv_status f \<Longrightarrow> server_bufs (2 ^ 30) f' \<Longrightarrow> server_at C s h' f'"
  using quiet_fds [of h h'] by (auto simp: server_at_def)

lemma server_at_bufs: "server_at C s h f \<Longrightarrow> server_bufs (2 ^ 31) f"
  by (auto simp: server_at_def intro: server_bufs_mono)

lemma server_at_log: "\<not> fd_event e \<Longrightarrow> server_at C s (e # h) f \<longleftrightarrow> server_at C s h f"
  by (simp add: server_at_def closed_quiet_event del: closed.simps)

definition server_result :: "socket multiset \<Rightarrow> socket \<Rightarrow> ('x TcpServerFSM_scheme \<times> bool) \<Rightarrow> log \<Rightarrow> bool" where
  "server_result C s r h \<longleftrightarrow> server_at C s h (fst r) \<and> (snd r \<longrightarrow> sv_status (fst r) = kServerEnd) \<and> (\<not> snd r \<longrightarrow> sv_sock (fst r) = s)"

lemma server_end_ok:
  assumes "server_callbacks vt" "server_at C s h f" "sv_sock f = s" "\<And>h. io_ok err h (\<lambda>_ h'. quiet h h')"
  shows "io_ok (server_end vt err f) h (server_result C s)"
proof -
  let ?f = "f\<lparr>sv_sock := INVALID_SOCKET, sv_status := kServerEnd\<rparr>"
  have at: "server_at C s (Close_fd s # h) ?f"
    using assms(2,3) by (auto simp: server_at_def server_bufs_def)
  have "io_ok (vs_OnClose vt kServerReadWrite e False ?f) h' (\<lambda>f1 h''. server_result C s (f1, True) h'')"
    if "quiet (Close_fd s # h) h'" for e h'
  proof (rule server_callback_ok)
    show "server_callback (vs_OnClose vt kServerReadWrite e False)" using assms(1) by (simp add: server_callbacks_def)
    show "server_bufs (2 ^ 31) ?f" by (rule server_at_bufs [OF at])
    show "server_result C s (f', True) h''"
      if "quiet h' h''" "sv_sock f' = sv_sock ?f" "sv_status f' = sv_status ?f" "server_bufs (2 ^ 30) f'" for f' h''
      using server_at_quiet [OF at quiet_trans [OF \<open>quiet (Close_fd s # h) h'\<close> that(1)] that(2-4)] that(3) by (simp add: server_result_def)
  qed
  then show ?thesis
    using assms(3,4) by (auto simp: server_end_def socket_close_def intro: io_ok_mono [OF assms(4)])
qed

lemma server_write_ok:
  assumes "server_callbacks vt" "server_env E" "server_at C s h f" "sv_sock f = s"
  shows "io_ok (server_write E vt f) h (server_result C s)"
proof -
  have b: "wf_buf (sv_send_buf f)" "server_bufs (2 ^ 30) f" using assms(3) by (simp_all add: server_at_def server_bufs_def)
  let ?d = "content (sv_send_buf f)"
  have d: "Ptr_bytes (sv_send_buf f) 0 (Length (sv_send_buf f)) = Inr ?d"
    using b(1) by (simp add: Ptr_bytes_def Length_def content_def wf_buf_def)
  let ?r = "env_send E h s ?d"
  have r: "?r \<le> int (length ?d)" "length ?d < 2 ^ 30" using assms(2) b(2) by (simp_all add: server_env_def server_bufs_def)
  have at: "server_at C s (Send s ?d ?r # h) f" using assms(3) by (simp add: server_at_log)
  have e: "io_ok (server_end vt (socket_errno E) f) (Errno x # Send s ?d ?r # h) (server_result C s)" for x
    using at by (intro server_end_ok [OF assms(1) _ assms(4)]) (simp_all add: server_at_log socket_errno_def quiet_Cons)
  have go: "server_result C s (f, False) (Errno x # Send s ?d ?r # h)" for x
    using at assms(4) by (simp add: server_result_def server_at_log)
  have "\<exists>b'. Move (sv_send_buf f) (- ?r) = Inr b' \<and> io_ok (vs_OnSend vt ?r (f\<lparr>sv_send_buf := b'\<rparr>)) (Send s ?d ?r # h)
      (\<lambda>f1. server_result C s (f1, False))" if pos: "0 < ?r"
  proof -
    have n: "int (nat ?r) = ?r" "nat ?r < 2 ^ 63" using pos r by simp_all
    obtain b' where b': "Move (sv_send_buf f) (- ?r) = Inr b'" "wf_buf b'" "content b' = drop (nat ?r) ?d"
      using Move_left_ok [OF b(1) n(2)] unfolding n(1) by blast
    let ?f = "f\<lparr>sv_send_buf := b'\<rparr>"
    have at': "server_at C s (Send s ?d ?r # h) ?f" using at b' b(2) by (auto simp: server_at_def server_bufs_def)
    have "io_ok (vs_OnSend vt ?r ?f) (Send s ?d ?r # h) (\<lambda>f1. server_result C s (f1, False))"
    proof (rule server_callback_ok)
      show "server_callback (vs_OnSend vt ?r)" using assms(1) by (simp add: server_callbacks_def)
      show "server_bufs (2 ^ 31) ?f" by (rule server_at_bufs [OF at'])
      show "server_result C s (f', False) h'"
        if "quiet (Send s ?d ?r # h) h'" "sv_sock f' = sv_sock ?f" "sv_status f' = sv_status ?f" "server_bufs (2 ^ 30) f'" for f' h'
        using server_at_quiet [OF at' that] that(2) assms(4) by (simp add: server_result_def)
    qed
    then show ?thesis using b'(1) by blast
  qed
  then show ?thesis
    using d e go assms(4) unfolding server_write_def send_to_def socket_errno_def by (auto simp: socket_errno_def)
qed

lemma server_read_ok:
  assumes "server_callbacks vt" "server_env E" "server_at C s h f" "sv_sock f = s"
  shows "io_ok (server_read E vt f) h (server_result C s)"
proof -
  have b: "wf_buf (sv_recv_buf f)" "length (content (sv_recv_buf f)) < 2 ^ 30" "server_bufs (2 ^ 30) f"
    using assms(3) by (simp_all add: server_at_def server_bufs_def)
  obtain b1 where b1: "recv_room (sv_recv_buf f) = Inr b1" "wf_buf b1" "content b1 = content (sv_recv_buf f)"
      "length (content (sv_recv_buf f)) + 8192 \<le> Capacity b1"
    using recv_room_ok [OF b(1)] b(2) by auto
  have L: "Length b1 = length (content b1)" using length_content [OF b1(2)] by (simp add: Length_def)
  let ?f = "f\<lparr>sv_recv_buf := b1\<rparr>" and ?n = "to_size (int (Capacity b1) - int (Length b1))"
  let ?r = "env_recv E h s ?n"
  let ?h = "Recv_from s ?n ?r # h"
  have at: "server_at C s ?h ?f" using assms(3) b1 by (auto simp: server_at_log server_at_def server_bufs_def)
  have e: "io_ok (server_end vt err ?f) h' (server_result C s)"
    if "h' = ?h \<or> (\<exists>x. h' = Errno x # ?h)" "err = io_return 0 \<or> err = socket_errno E" for err h'
    using that at assms(4)
    by (intro server_end_ok [OF assms(1)]) (auto simp: server_at_log socket_errno_def quiet_Cons)
  have go: "server_result C s (?f, False) (Errno x # ?h)" for x
    using at assms(4) by (simp add: server_result_def server_at_log)
  have got: "\<exists>b2. memcpy_to b1 (int (Length b1)) d = Inr b2 \<and>
      io_ok (vs_OnRecv vt (int (length d)) (?f\<lparr>sv_recv_buf := Length_set b2 (Pos b2) (to_size (int (Length b2) + int (length d)))\<rparr>)) ?h
        (\<lambda>f2. server_result C s (f2, False))" if d: "?r = Some d" "d \<noteq> []" for d
  proof -
    have "int (Capacity b1) - int (Length b1) = int (Capacity b1 - Length b1)" using b1(3,4) L by (simp add: of_nat_diff)
    moreover have "Capacity b1 - Length b1 < 2 ^ 64" using b1(2) by (simp add: wf_buf_def Capacity_def PTRDIFF_MAX_val) linarith
    ultimately have "?n = Capacity b1 - Length b1" by (simp only: to_size_of_nat)
    then have dl: "length d \<le> Capacity b1 - Length b1" "length d < 2 ^ 30" using d(1) assms(2) by (auto simp: server_env_def)
    then have "length (content b1) + length d \<le> Capacity b1" "Length b1 + length d < 2 ^ 62"
      using L b1(3,4) b(2) by auto
    from received_ok [OF b1(2) this(1) d(2) this(2)] obtain b2 where b2: "memcpy_to b1 (int (Length b1)) d = Inr b2"
      and "let r = Length_set b2 (Pos b2) (to_size (int (Length b2) + int (length d))) in wf_buf r \<and> content r = content b1 @ d"
      by blast
    then have w: "wf_buf (Length_set b2 (Pos b2) (to_size (int (Length b2) + int (length d))))"
        "content (Length_set b2 (Pos b2) (to_size (int (Length b2) + int (length d)))) = content b1 @ d"
      by (simp_all add: Let_def)
    let ?g = "?f\<lparr>sv_recv_buf := Length_set b2 (Pos b2) (to_size (int (Length b2) + int (length d)))\<rparr>"
    have gb: "server_bufs (2 ^ 31) ?g" using w b1(3) b dl(2) by (simp add: server_bufs_def)
    have gc: "server_callback (vs_OnRecv vt (int (length d)))" using assms(1) by (simp add: server_callbacks_def)
    have "io_ok (vs_OnRecv vt (int (length d)) ?g) ?h (\<lambda>f2. server_result C s (f2, False))"
    proof (rule server_callback_ok [OF gc gb])
      show "server_result C s (f', False) h'"
        if "quiet ?h h'" "sv_sock f' = sv_sock ?g" "sv_status f' = sv_status ?g" "server_bufs (2 ^ 30) f'" for f' h'
        using server_at_quiet [OF at that(1) _ _ that(4)] that(2,3) assms(4) by (simp add: server_result_def)
    qed
    then show ?thesis using b2 by blast
  qed
  show ?thesis
    using b1(1) e go got assms(4) unfolding server_read_def recv_from_def
    by (cases ?r) (auto simp: socket_errno_def Let_def)
qed

lemma server_ended_ok:
  assumes "server_callbacks vt" "server_at C s h f" "sv_sock f = s"
  shows "io_ok (server_ended vt (io_return e) f) h (\<lambda>f' h'. server_at C s h' f')"
  unfolding server_ended_def io_ok_bind
  by (rule io_ok_mono [OF server_end_ok [OF assms]]) (auto simp: server_result_def)

lemma server_after_read_ok:
  assumes "server_callbacks vt" "server_result C s r h"
  shows "io_ok (server_after_read vt sel timeout r) h (\<lambda>f' h'. server_at C s h' f')"
proof -
  obtain f returned where r: "r = (f, returned)" by (cases r)
  have "server_at C s h f" "\<not> returned \<Longrightarrow> sv_sock f = s" using assms(2) by (simp_all add: r server_result_def)
  then show ?thesis using server_ended_ok [OF assms(1)] by (simp add: r server_after_read_def)
qed

lemma server_after_write_ok:
  assumes "server_callbacks vt" "server_env E" "server_result C s r h"
  shows "io_ok (server_after_write E vt sel timeout r) h (\<lambda>f' h'. server_at C s h' f')"
proof -
  obtain f returned where r: "r = (f, returned)" by (cases r)
  have f: "server_at C s h f" "\<not> returned \<Longrightarrow> sv_sock f = s" using assms(3) by (simp_all add: r server_result_def)
  show ?thesis
  proof (cases returned)
    case False
    note s = f(2) [OF False]
    have "io_ok (if Read_FD_ISSET sel (sv_sock f) then server_read E vt f else io_return (f, False)) h (server_result C s)"
      using server_read_ok [OF assms(1,2) f(1) s] f(1) s by (simp add: server_result_def)
    then show ?thesis
      unfolding server_after_write_def r prod.case if_not_P [OF False] io_ok_bind
      by (rule io_ok_mono) (rule server_after_read_ok [OF assms(1)])
  qed (use f(1) in \<open>simp add: r server_after_write_def\<close>)
qed

lemma server_after_ok:
  assumes "server_callbacks vt" "server_env E" "server_at C s h f"
  shows "io_ok (Server_AfterSelect E vt sel f) h (\<lambda>f' h'. server_at C s h' f')"
proof (cases "sv_status f = kServerReadWrite")
  case True
  have s: "sv_sock f = s" using assms(3) True by (auto simp: server_at_def split: if_splits)
  have "io_ok (vs_ReadWriteTimeout vt f) h (\<lambda>_ h'. quiet h h')" using assms(1) by (simp add: server_callbacks_def)
  then have "io_ok (Server_AfterReadWriteSelect E vt sel f) h (\<lambda>f' h'. server_at C s h' f')"
    unfolding Server_AfterReadWriteSelect_def io_ok_bind
  proof (rule io_ok_mono)
    fix timeout h'
    assume q: "quiet h h'"
    have "server_bufs (2 ^ 30) f" using assms(3) by (simp add: server_at_def)
    then have at: "server_at C s h' f" by (rule server_at_quiet [OF assms(3) q refl refl])
    show "io_ok (if Exception_FD_ISSET sel (sv_sock f) then io_bind (socket_error E (sv_sock f)) (\<lambda>e. server_ended vt (io_return e) f)
       else io_bind (if Write_FD_ISSET sel (sv_sock f) then server_write E vt f else io_return (f, False)) (server_after_write E vt sel timeout))
       h' (\<lambda>f' h'. server_at C s h' f')"
    proof (cases "Exception_FD_ISSET sel (sv_sock f)")
      case True
      have "io_ok (server_ended vt (io_return e) f) h'' (\<lambda>g h''. server_at C s h'' g)"
        if "h'' = Getsockopt_error s r # h' \<or> (\<exists>x. h'' = Errno x # Getsockopt_error s r # h')" for e h'' r
        using that at by (intro server_ended_ok [OF assms(1) _ s]) (auto simp: server_at_log)
      then show ?thesis
        using True s by (auto simp: socket_error_def getsockopt_error_def socket_errno_def split: option.split)
    next
      case False
      have "io_ok (if Write_FD_ISSET sel (sv_sock f) then server_write E vt f else io_return (f, False)) h' (server_result C s)"
        using server_write_ok [OF assms(1,2) at s] at s by (simp add: server_result_def)
      then show ?thesis
        unfolding if_not_P [OF False] io_ok_bind by (rule io_ok_mono) (rule server_after_write_ok [OF assms(1,2)])
    qed
  qed
  then show ?thesis using True by (simp add: Server_AfterSelect_def)
next
  case False
  then show ?thesis using assms(3) by (simp add: Server_AfterSelect_def)
qed

lemma server_pre_ok:
  assumes "server_callbacks vt" "server_at C s h f"
  shows "io_ok (Server_PreSelect vt f sel) h (\<lambda>(f', _) h'. server_at C s h' f')"
proof -
  have p: "server_at C s h' (fst (Server_PreReadWriteSelect f' sel))" if "server_at C s h' f'" for f' h'
    using that by (auto simp: Server_PreReadWriteSelect_def Let_def WriteFDSet_def server_at_def server_bufs_def)
  show ?thesis
  proof (cases "kAccept = sv_status f")
    case True
    have "io_ok (vs_OnAccept vt f) h (\<lambda>f1 h'. server_at C s h' (f1\<lparr>sv_status := kServerReadWrite\<rparr>))"
    proof (rule server_callback_ok [OF _ server_at_bufs [OF assms(2)]])
      show "server_callback (vs_OnAccept vt)" using assms(1) by (simp add: server_callbacks_def)
      show "server_at C s h' (f'\<lparr>sv_status := kServerReadWrite\<rparr>)"
        if "quiet h h'" "sv_sock f' = sv_sock f" "sv_status f' = sv_status f" "server_bufs (2 ^ 30) f'" for f' h'
        using server_at_quiet [OF assms(2) that] True that(2,3) by (auto simp: server_at_def server_bufs_def split: if_splits)
    qed
    then have "io_ok (vs_OnAccept vt f) h (\<lambda>f1 h'. server_at C s h' (fst (Server_PreReadWriteSelect (f1\<lparr>sv_status := kServerReadWrite\<rparr>) sel)))"
      by (rule io_ok_mono) (rule p)
    then show ?thesis using True by (simp add: Server_PreSelect_def case_prod_beta)
  next
    case False
    then show ?thesis using assms(2) p [OF assms(2)] by (auto simp: Server_PreSelect_def case_prod_beta)
  qed
qed

lemma server_rounds_ok:
  assumes "server_callbacks vt" "server_env E"
  shows "server_at C s h f \<Longrightarrow> io_ok (server_rounds E vt rs f) h (\<lambda>f' h'. server_at C s h' f')"
proof (induction rs arbitrary: f h)
  case (Cons r rs)
  obtain before aft where r: "r = (before, aft)" by (cases r)
  have "io_ok (Server_AfterSelect E vt aft f1) h1 (\<lambda>f2 h2. io_ok (server_rounds E vt rs f2) h2 (\<lambda>f' h'. server_at C s h' f'))"
    if "server_at C s h1 f1" for f1 h1
    using Cons.IH by (rule io_ok_mono [OF server_after_ok [OF assms that]])
  then show ?case
    unfolding r server_rounds.simps io_ok_bind
    by (intro io_ok_mono [OF server_pre_ok [OF assms(1) Cons.prems]]) (auto split: prod.split)
qed simp

section \<open>Properties\<close>

text \<open>
  C21: an accepted connection that its owner drives, however often, and then deletes, without calling \<^verbatim>\<open>Close\<close> itself, is closed
  exactly once in its life, and no step faults, whatever the kernel answers within the contracts of \<^verbatim>\<open>send\<close> and \<^verbatim>\<open>recv\<close> and
  whatever the waits report; with callbacks that come back, leave the connection alone and keep the buffers below 1 GB (a callback
  that closes the connection breaks this: \<open>Server_PreSelect_revives\<close>).
\<close>

theorem TcpServerFSM_closed_once:
  assumes "server_callbacks vt" "server_env E" "server_bufs (2 ^ 30) f" "sv_sock f = s" "s \<noteq> INVALID_SOCKET" "sv_status f \<noteq> kServerEnd"
  shows "\<exists>f' h'. server_life E vt rs f h = Some (Inr (f', h')) \<and> closed h' = add_mset s (closed h) \<and> sv_sock f' = INVALID_SOCKET
    \<and> Server_IsEndStatus f'"
proof -
  have "server_at (closed h) s h f" using assms(3-6) by (simp add: server_at_def)
  from server_rounds_ok [OF assms(1,2) this]
  have "io_ok (server_rounds E vt rs f) h (\<lambda>f1 h1. io_ok (Server_delete vt f1) h1 (\<lambda>f' h'. closed h' = add_mset s (closed h)
      \<and> sv_sock f' = INVALID_SOCKET \<and> Server_IsEndStatus f'))"
    by (rule io_ok_mono)
      (auto simp: Server_delete_def Server_Close_def server_at_def Server_IsEndStatus_def socket_close_def Let_def split: if_splits)
  then have "io_ok (server_life E vt rs f) h (\<lambda>f' h'. closed h' = add_mset s (closed h) \<and> sv_sock f' = INVALID_SOCKET \<and> Server_IsEndStatus f')"
    by (simp add: server_life_def)
  then show ?thesis by (simp add: io_ok_def)
qed

text \<open>\<^verbatim>\<open>PreSelect\<close> overwrites the status after \<^verbatim>\<open>_OnAccept\<close>: a connection that is closed there is driven on with an invalid descriptor.\<close>

lemma Server_PreSelect_revives:
  assumes "sv_status f = kAccept" "sv_sock f \<noteq> INVALID_SOCKET" "vs_OnAccept vt = Server_Close vt False"
  shows "io_ok (Server_PreSelect vt f sel) h (\<lambda>(f', _) h'. sv_status f' = kServerReadWrite \<and> sv_sock f' = INVALID_SOCKET)"
  using assms by (simp add: Server_PreSelect_def Server_Close_def socket_close_def Let_def Server_PreReadWriteSelect_def WriteFDSet_def)

text \<open>A server that takes what it receives and answers nothing.\<close>

definition ex_taken :: "TcpServerFSM \<Rightarrow> TcpServerFSM io" where
  "ex_taken f = io_return (f\<lparr>sv_recv_buf := AutoBuffer_new 128, sv_send_buf := AutoBuffer_new 128\<rparr>)"

definition ex_server :: "TcpServerFSM server_class" where
  "ex_server = \<lparr>vs_OnAccept = ex_taken, vs_OnRecv = \<lambda>_. ex_taken, vs_OnSend = \<lambda>_. ex_taken, vs_OnClose = \<lambda>_ _ _. ex_taken,
     vs_ReadWriteTimeout = \<lambda>_. io_return INT_MAX\<rparr>"

lemma ex_server_callbacks: "server_callbacks ex_server"
proof -
  have "server_callback ex_taken" by (simp add: server_callback_def ex_taken_def server_bufs_def wf_buf_new)
  then show ?thesis by (simp add: server_callbacks_def ex_server_def)
qed

theorem TcpServerFSM_closed_once_witness:
  "\<exists>f' h'. server_life (ex_env (\<lambda>_ _ _. (0, \<lambda>_. 0))) ex_server [(ex_poll, ex_poll), (ex_poll, ex_poll)] (TcpServerFSM_new 5) [] = Some (Inr (f', h')) \<and> closed h' = {#5#}"
proof -
  have "server_bufs (2 ^ 30) (TcpServerFSM_new 5)" by (simp add: server_bufs_def TcpServerFSM_new_def wf_buf_new)
  moreover have "server_env (ex_env p)" for p by (simp add: server_env_def ex_env_def)
  moreover have "sv_sock (TcpServerFSM_new 5) = 5" "5 \<noteq> INVALID_SOCKET" "sv_status (TcpServerFSM_new 5) \<noteq> kServerEnd"
    by (simp_all add: TcpServerFSM_new_def INVALID_SOCKET_def)
  ultimately show ?thesis
    using TcpServerFSM_closed_once [OF ex_server_callbacks, of _ "TcpServerFSM_new 5" 5 "[(ex_poll, ex_poll), (ex_poll, ex_poll)]" "[]"]
    by (metis closed.simps(1))
qed

end
