(* ===== verification/Udp_Client.thy ===== *)
theory Udp_Client
  imports Sys_Io
begin

text \<open>
  \<^verbatim>\<open>UdpClient\<close> of src/mars/comm/socket/udpclient.h and udpclient.cc: the thread that sends the queued datagrams and reads while there
  are none, the calls of other threads, and the blocking calls. A step is what runs under the mutex or between two accesses to shared
  state; the answers of the kernel are arguments of a step. The selector clears the breaker when a wait returns. The fields from
  \<open>uc_log\<close> on belong to the specification.
\<close>

section \<open>State\<close>

text \<open>The thread: \<open>U_Exit\<close> has left the loop and still counts as running.\<close>

datatype udp_pc = U_None | U_Top | U_Select bool | U_Send | U_Recv | U_Pop | U_Fail int | U_Break | U_Exit

datatype udp_event = OnUdpError int | OnDataGramRead bytes | OnDataSent

record UdpClient =
  uc_fd_socket :: socket
  uc_event :: bool
  uc_pipe :: bool
  uc_pc :: udp_pc
  uc_list_buffer :: "bytes list"
  uc_log :: "udp_event list"
  uc_accepted :: "bytes list"
  uc_sent :: "bytes list"

definition UdpClient_new :: "socket \<Rightarrow> bool \<Rightarrow> UdpClient" where
  "UdpClient_new fd event = \<lparr>uc_fd_socket = fd, uc_event = event, uc_pipe = False, uc_pc = U_None, uc_list_buffer = [], uc_log = [],
     uc_accepted = [], uc_sent = []\<rparr>"

definition udp_call :: "udp_event \<Rightarrow> UdpClient \<Rightarrow> UdpClient" where
  "udp_call e c = (if uc_event c then c\<lparr>uc_log := uc_log c @ [e]\<rparr> else c)"

section \<open>The wait\<close>

record udp_answers =
  ua_select :: int
  ua_breaker_error :: bool
  ua_exception :: bool
  ua_writable :: bool
  ua_readable :: bool
  ua_errno :: int
  ua_sendto :: int
  ua_recvfrom :: "bytes option"

text \<open>\<^verbatim>\<open>__DoSelect\<close> up to the transfer: -1 with an error, 0 for a time out, -2 for a break, or the transfer to make.\<close>

datatype waited = Wait_error int | Wait_timeout | Wait_break | Wait_write | Wait_read

definition DoSelect_wait :: "bool \<Rightarrow> bool \<Rightarrow> udp_answers \<Rightarrow> waited" where
  "DoSelect_wait write_set broken k =
     (if ua_select k < 0 then Wait_error (ua_errno k)
      else if ua_select k = 0 then Wait_timeout
      else if ua_breaker_error k then Wait_error (ua_errno k)
      else if broken then Wait_break
      else if ua_exception k then Wait_error (ua_errno k)
      else if write_set \<and> ua_writable k then Wait_write
      else if \<not> write_set \<and> ua_readable k then Wait_read
      else Wait_error 0)"

text \<open>The blocking calls: the result and the data read. Both pass -1, no time limit, to \<^verbatim>\<open>__DoSelect\<close>.\<close>

definition DoSelect_block :: "bool \<Rightarrow> bool \<Rightarrow> udp_answers \<Rightarrow> int \<times> bytes" where
  "DoSelect_block write_set broken k = (case DoSelect_wait write_set broken k of
     Wait_error _ \<Rightarrow> (- 1, []) | Wait_timeout \<Rightarrow> (0, []) | Wait_break \<Rightarrow> (- 2, [])
   | Wait_write \<Rightarrow> (ua_sendto k, [])
   | Wait_read \<Rightarrow> (case ua_recvfrom k of None \<Rightarrow> (- 1, []) | Some d \<Rightarrow> (int (length d), d)))"

definition SendBlock :: "udp_answers \<Rightarrow> UdpClient \<Rightarrow> int" where
  "SendBlock k c = (if uc_fd_socket c = INVALID_SOCKET \<or> uc_event c then - 1 else fst (DoSelect_block True (uc_pipe c) k))"

definition ReadBlock :: "int \<Rightarrow> udp_answers \<Rightarrow> UdpClient \<Rightarrow> int \<times> bytes" where
  "ReadBlock timeOutMs k c = (if uc_fd_socket c = INVALID_SOCKET \<or> uc_event c then (- 1, []) else DoSelect_block False (uc_pipe c) k)"

section \<open>The calls of other threads\<close>

definition HasBuuferToSend :: "UdpClient \<Rightarrow> bool" where
  "HasBuuferToSend c \<longleftrightarrow> uc_list_buffer c \<noteq> []"

definition SendAsync :: "bytes \<Rightarrow> UdpClient \<Rightarrow> UdpClient" where
  "SendAsync buf c =
     (if uc_fd_socket c = INVALID_SOCKET \<or> \<not> uc_event c then c
      else
        let c1 = c\<lparr>uc_list_buffer := uc_list_buffer c @ [buf], uc_accepted := uc_accepted c @ [buf]\<rparr>;
            c2 = (if uc_pc c1 = U_None then c1\<lparr>uc_pc := U_Top\<rparr> else c1)
        in c2\<lparr>uc_pipe := True\<rparr>)"

text \<open>The destructor up to the join: no more events, and a break.\<close>

definition UdpClient_delete :: "UdpClient \<Rightarrow> UdpClient" where
  "UdpClient_delete c = (if uc_pc c \<noteq> U_None then c\<lparr>uc_event := False, uc_pipe := True\<rparr> else c\<lparr>uc_pipe := True\<rparr>)"

section \<open>The thread\<close>

definition udp_selected :: "bool \<Rightarrow> udp_answers \<Rightarrow> UdpClient \<Rightarrow> UdpClient" where
  "udp_selected w k c = c\<lparr>uc_pipe := False, uc_pc := (case DoSelect_wait w (uc_pipe c) k of
     Wait_error e \<Rightarrow> U_Fail e | Wait_timeout \<Rightarrow> if w then U_Pop else U_Top | Wait_break \<Rightarrow> U_Break | Wait_write \<Rightarrow> U_Send | Wait_read \<Rightarrow> U_Recv)\<rparr>"

definition RunLoop_step :: "udp_answers \<Rightarrow> UdpClient \<Rightarrow> UdpClient result" where
  "RunLoop_step k c = (case uc_pc c of
     U_None \<Rightarrow> Inr c
   | U_Top \<Rightarrow> Inr (c\<lparr>uc_pc := U_Select (0 < length (uc_list_buffer c))\<rparr>)
   | U_Select w \<Rightarrow> Inr (udp_selected w k c)
   | U_Send \<Rightarrow> (case uc_list_buffer c of
       [] \<Rightarrow> Inl Empty_Container
     | d # _ \<Rightarrow> Inr (if ua_sendto k = - 1 then c\<lparr>uc_pc := U_Fail (ua_errno k)\<rparr>
                   else (udp_call OnDataSent (c\<lparr>uc_sent := uc_sent c @ [d]\<rparr>))\<lparr>uc_pc := U_Pop\<rparr>))
   | U_Recv \<Rightarrow> Inr (case ua_recvfrom k of
       None \<Rightarrow> c\<lparr>uc_pc := U_Fail (ua_errno k)\<rparr>
     | Some d \<Rightarrow> (udp_call (OnDataGramRead d) c)\<lparr>uc_pc := U_Top\<rparr>)
   | U_Pop \<Rightarrow> (case uc_list_buffer c of [] \<Rightarrow> Inl Empty_Container | _ # ds \<Rightarrow> Inr (c\<lparr>uc_list_buffer := ds, uc_pc := U_Top\<rparr>))
   | U_Fail e \<Rightarrow> Inr ((udp_call (OnUdpError e) c)\<lparr>uc_pc := U_Exit\<rparr>)
   | U_Break \<Rightarrow> Inr (c\<lparr>uc_pc := (if \<not> uc_event c then U_Exit else U_Top)\<rparr>)
   | U_Exit \<Rightarrow> Inr (c\<lparr>uc_pc := U_None\<rparr>))"

section \<open>Runs\<close>

datatype udp_step = Udp_thread udp_answers | Udp_send bytes | Udp_break | Udp_delete

text \<open>A wait without a time limit does not time out.\<close>

fun udp_allowed :: "udp_step \<Rightarrow> UdpClient \<Rightarrow> bool" where
  "udp_allowed (Udp_thread k) c \<longleftrightarrow> ua_select k \<noteq> 0"
| "udp_allowed _ c \<longleftrightarrow> True"

fun udp_do :: "udp_step \<Rightarrow> UdpClient \<Rightarrow> UdpClient result" where
  "udp_do (Udp_thread k) c = RunLoop_step k c"
| "udp_do (Udp_send d) c = Inr (SendAsync d c)"
| "udp_do Udp_break c = Inr (c\<lparr>uc_pipe := True\<rparr>)"
| "udp_do Udp_delete c = Inr (UdpClient_delete c)"

fun udp_run :: "udp_step list \<Rightarrow> UdpClient \<Rightarrow> UdpClient result" where
  "udp_run [] c = Inr c"
| "udp_run (e # es) c = rbind (udp_do e c) (udp_run es)"

fun udp_run_allowed :: "udp_step list \<Rightarrow> UdpClient \<Rightarrow> bool" where
  "udp_run_allowed [] c \<longleftrightarrow> True"
| "udp_run_allowed (e # es) c \<longleftrightarrow> udp_allowed e c \<and> (case udp_do e c of Inl _ \<Rightarrow> True | Inr c' \<Rightarrow> udp_run_allowed es c')"

section \<open>The invariant\<close>

definition sending :: "udp_pc \<Rightarrow> bool" where
  "sending p \<longleftrightarrow> p = U_Select True \<or> p = U_Send \<or> p = U_Pop"

definition udp_inv :: "UdpClient \<Rightarrow> bool" where
  "udp_inv c \<longleftrightarrow> (\<exists>n. uc_list_buffer c = drop n (uc_accepted c) \<and> n \<le> length (uc_accepted c)
       \<and> uc_sent c = take (if uc_pc c = U_Pop then Suc n else n) (uc_accepted c))
     \<and> (sending (uc_pc c) \<longrightarrow> uc_list_buffer c \<noteq> [])
     \<and> (uc_pc c = U_Select False \<and> uc_list_buffer c \<noteq> [] \<longrightarrow> uc_pipe c)"

lemma udp_inv_new: "udp_inv (UdpClient_new fd ev)"
  by (simp add: udp_inv_def UdpClient_new_def sending_def)

lemma udp_inv_I:
  assumes "uc_list_buffer c = drop n (uc_accepted c)" "n \<le> length (uc_accepted c)"
    "uc_sent c = take (if uc_pc c = U_Pop then Suc n else n) (uc_accepted c)" "sending (uc_pc c) \<Longrightarrow> uc_list_buffer c \<noteq> []"
    "uc_pc c = U_Select False \<Longrightarrow> uc_list_buffer c \<noteq> [] \<Longrightarrow> uc_pipe c"
  shows "udp_inv c"
  using assms by (auto simp: udp_inv_def)

text \<open>A thread that does not write keeps the invariant whatever it does next, as long as it does not start to write.\<close>

lemma udp_inv_selected:
  assumes "udp_inv c" "uc_pc c = U_Select w" "ua_select k \<noteq> 0"
  shows "udp_inv (udp_selected w k c)"
proof -
  have "uc_pc (udp_selected w k c) \<noteq> U_Pop" "\<And>b. uc_pc (udp_selected w k c) \<noteq> U_Select b"
    "uc_pc (udp_selected w k c) = U_Send \<Longrightarrow> w"
    using assms(3) by (auto simp: udp_selected_def DoSelect_wait_def split: waited.splits if_splits)
  moreover have "uc_list_buffer (udp_selected w k c) = uc_list_buffer c" "uc_accepted (udp_selected w k c) = uc_accepted c"
    "uc_sent (udp_selected w k c) = uc_sent c"
    by (simp_all add: udp_selected_def)
  ultimately show ?thesis
    using assms(1,2) by (auto simp: udp_inv_def sending_def)
qed

lemma udp_inv_quiet:
  assumes "udp_inv c" "uc_pc c \<noteq> U_Pop" "uc_list_buffer c' = uc_list_buffer c" "uc_accepted c' = uc_accepted c" "uc_sent c' = uc_sent c"
    "\<not> sending (uc_pc c')" "uc_pc c' \<noteq> U_Select False"
  shows "udp_inv c'"
  using assms by (auto simp: udp_inv_def sending_def)

lemma udp_call_fields [simp]:
  "uc_list_buffer (udp_call e c) = uc_list_buffer c" "uc_accepted (udp_call e c) = uc_accepted c" "uc_sent (udp_call e c) = uc_sent c"
  "uc_pc (udp_call e c) = uc_pc c" "uc_pipe (udp_call e c) = uc_pipe c" "uc_event (udp_call e c) = uc_event c"
  "uc_fd_socket (udp_call e c) = uc_fd_socket c"
  by (simp_all add: udp_call_def)

lemma udp_inv_front:
  assumes "udp_inv c" "uc_pc c = U_Send \<or> uc_pc c = U_Pop"
  obtains n where "n < length (uc_accepted c)" "uc_list_buffer c = uc_accepted c ! n # drop (Suc n) (uc_accepted c)"
    "uc_sent c = take (if uc_pc c = U_Pop then Suc n else n) (uc_accepted c)"
proof -
  obtain n where n: "uc_list_buffer c = drop n (uc_accepted c)" "n \<le> length (uc_accepted c)"
      "uc_sent c = take (if uc_pc c = U_Pop then Suc n else n) (uc_accepted c)"
    using assms(1) unfolding udp_inv_def by blast
  have "uc_list_buffer c \<noteq> []" using assms by (auto simp: udp_inv_def sending_def)
  then have "n < length (uc_accepted c)" using n(1) by simp
  then show thesis using that [of n] n by (simp add: Cons_nth_drop_Suc)
qed

lemma udp_inv_send:
  assumes "udp_inv c" "uc_pc c = U_Send"
  shows "\<exists>c'. RunLoop_step k c = Inr c' \<and> udp_inv c'"
proof -
  obtain n where n: "n < length (uc_accepted c)" "uc_list_buffer c = uc_accepted c ! n # drop (Suc n) (uc_accepted c)"
      "uc_sent c = take (if uc_pc c = U_Pop then Suc n else n) (uc_accepted c)"
    by (rule udp_inv_front [OF assms(1)]) (simp_all add: assms(2))
  show ?thesis
  proof (cases "ua_sendto k = - 1")
    case True
    then show ?thesis
      using assms n(2) by (auto simp: RunLoop_step_def sending_def intro!: udp_inv_quiet [OF assms(1)])
  next
    case False
    have "udp_inv ((udp_call OnDataSent (c\<lparr>uc_sent := uc_sent c @ [uc_accepted c ! n]\<rparr>))\<lparr>uc_pc := U_Pop\<rparr>)"
      by (rule udp_inv_I [where n = n]) (use n assms(2) in \<open>simp_all add: Cons_nth_drop_Suc take_Suc_conv_app_nth\<close>)
    then show ?thesis using assms(2) n(2) False by (simp add: RunLoop_step_def)
  qed
qed

lemma udp_inv_pop:
  assumes "udp_inv c" "uc_pc c = U_Pop"
  shows "\<exists>c'. RunLoop_step k c = Inr c' \<and> udp_inv c'"
proof -
  obtain n where n: "n < length (uc_accepted c)" "uc_list_buffer c = uc_accepted c ! n # drop (Suc n) (uc_accepted c)"
      "uc_sent c = take (if uc_pc c = U_Pop then Suc n else n) (uc_accepted c)"
    by (rule udp_inv_front [OF assms(1)]) (simp_all add: assms(2))
  then show ?thesis
    using assms(2) by (auto simp: RunLoop_step_def sending_def intro!: udp_inv_I [where n = "Suc n"])
qed

lemma udp_inv_top:
  assumes "udp_inv c" "uc_pc c = U_Top"
  shows "udp_inv (c\<lparr>uc_pc := U_Select (0 < length (uc_list_buffer c))\<rparr>)"
  using assms by (auto simp: udp_inv_def sending_def)

lemma udp_inv_thread:
  assumes "udp_inv c" "ua_select k \<noteq> 0"
  shows "\<exists>c'. RunLoop_step k c = Inr c' \<and> udp_inv c'"
proof (cases "uc_pc c")
  case U_None
  then show ?thesis using assms(1) by (simp add: RunLoop_step_def)
next
  case U_Top
  then show ?thesis using udp_inv_top [OF assms(1)] by (simp add: RunLoop_step_def)
next
  case (U_Select w)
  then show ?thesis using udp_inv_selected [OF assms(1) U_Select assms(2)] by (simp add: RunLoop_step_def)
next
  case U_Send
  then show ?thesis by (rule udp_inv_send [OF assms(1)])
next
  case U_Pop
  then show ?thesis by (rule udp_inv_pop [OF assms(1)])
qed (auto simp: RunLoop_step_def sending_def split: option.split intro!: udp_inv_quiet [OF assms(1)])

lemma udp_inv_SendAsync:
  assumes "udp_inv c"
  shows "udp_inv (SendAsync d c)"
proof -
  obtain n where n: "uc_list_buffer c = drop n (uc_accepted c)" "n \<le> length (uc_accepted c)"
      "uc_sent c = take (if uc_pc c = U_Pop then Suc n else n) (uc_accepted c)"
    using assms(1) unfolding udp_inv_def by blast
  have s: "uc_pc c = U_Pop \<Longrightarrow> n < length (uc_accepted c)"
    using assms n by (auto simp: udp_inv_def sending_def)
  show ?thesis
  proof (cases "uc_fd_socket c = INVALID_SOCKET \<or> \<not> uc_event c")
    case True
    then show ?thesis using assms by (simp add: SendAsync_def)
  next
    case False
    then show ?thesis
      using n s by (auto simp: SendAsync_def Let_def sending_def intro!: udp_inv_I [where n = n])
  qed
qed

lemma udp_inv_do:
  assumes "udp_inv c" "udp_allowed e c"
  shows "\<exists>c'. udp_do e c = Inr c' \<and> udp_inv c'"
proof (cases e)
  case (Udp_thread k)
  then show ?thesis using udp_inv_thread [OF assms(1)] assms(2) by simp
next
  case (Udp_send d)
  then show ?thesis using udp_inv_SendAsync [OF assms(1)] by simp
qed (use assms(1) in \<open>auto simp: udp_inv_def UdpClient_delete_def\<close>)

lemma udp_inv_run:
  assumes "udp_inv c" "udp_run_allowed es c"
  shows "\<exists>c'. udp_run es c = Inr c' \<and> udp_inv c'"
  using assms
proof (induction es arbitrary: c)
  case (Cons e es)
  from udp_inv_do [OF Cons.prems(1)] Cons.prems(2) obtain c1 where "udp_do e c = Inr c1" "udp_inv c1"
    by auto
  then show ?case using Cons.IH [of c1] Cons.prems(2) by simp
qed simp

section \<open>The end of the thread\<close>

text \<open>How many steps a thread without events and with a pending break still makes, at most.\<close>

fun udp_left :: "udp_pc \<Rightarrow> nat" where
  "udp_left U_None = 0" | "udp_left U_Exit = 1" | "udp_left (U_Fail e) = 2" | "udp_left U_Break = 2" | "udp_left (U_Select w) = 3"
| "udp_left U_Top = 4" | "udp_left U_Recv = 5" | "udp_left U_Pop = 5" | "udp_left U_Send = 6"

definition udp_dying :: "UdpClient \<Rightarrow> bool" where
  "udp_dying c \<longleftrightarrow> udp_inv c \<and> \<not> uc_event c \<and> (2 < udp_left (uc_pc c) \<longrightarrow> uc_pipe c)"

lemma udp_left_le: "udp_left p \<le> 6"
  by (cases p) auto

lemma RunLoop_step_event: "RunLoop_step k c = Inr c' \<Longrightarrow> uc_event c' = uc_event c"
  by (auto simp: RunLoop_step_def udp_selected_def split: udp_pc.splits list.splits option.splits if_splits)

lemma RunLoop_step_dying:
  assumes "RunLoop_step k c = Inr c'" "\<not> uc_event c" "2 < udp_left (uc_pc c) \<Longrightarrow> uc_pipe c" "ua_select k \<noteq> 0"
  shows "udp_left (uc_pc c') \<le> udp_left (uc_pc c) - 1 \<and> (2 < udp_left (uc_pc c') \<longrightarrow> uc_pipe c')"
proof (cases "uc_pc c")
  case (U_Select w)
  then show ?thesis
    using assms by (auto simp: RunLoop_step_def udp_selected_def DoSelect_wait_def split: waited.splits if_splits)
qed (use assms in \<open>auto simp: RunLoop_step_def split: list.splits option.splits if_splits\<close>)

text \<open>After the destructor has begun the thread ends within six steps, so the join returns.\<close>

lemma udp_dying_ends:
  assumes "udp_dying c" "list_all (\<lambda>k. ua_select k \<noteq> 0) ks" "udp_left (uc_pc c) \<le> length ks"
  shows "\<exists>c'. udp_run (map Udp_thread ks) c = Inr c' \<and> uc_pc c' = U_None"
  using assms
proof (induction ks arbitrary: c)
  case Nil
  then show ?case by (cases "uc_pc c") auto
next
  case (Cons k ks)
  have k: "ua_select k \<noteq> 0" using Cons.prems(2) by simp
  obtain c1 where c1: "RunLoop_step k c = Inr c1" "udp_inv c1"
    using udp_inv_thread [of c k] Cons.prems(1) k by (auto simp: udp_dying_def)
  have d: "\<not> uc_event c" "2 < udp_left (uc_pc c) \<Longrightarrow> uc_pipe c"
    using Cons.prems(1) by (auto simp: udp_dying_def)
  have l: "udp_left (uc_pc c1) \<le> udp_left (uc_pc c) - 1 \<and> (2 < udp_left (uc_pc c1) \<longrightarrow> uc_pipe c1)"
    by (rule RunLoop_step_dying [OF c1(1) d k])
  then have "udp_dying c1" using c1 d(1) RunLoop_step_event [OF c1(1)] by (simp add: udp_dying_def)
  moreover have "udp_left (uc_pc c1) \<le> length ks" using conjunct1 [OF l] Cons.prems(3) by simp
  ultimately show ?case using Cons.IH [of c1] Cons.prems(2) c1(1) by simp
qed

theorem UdpClient_delete_ends:
  assumes "udp_inv c" "uc_pc c \<noteq> U_None" "list_all (\<lambda>k. ua_select k \<noteq> 0) ks" "length ks = 6"
  shows "\<exists>c'. udp_run (map Udp_thread ks) (UdpClient_delete c) = Inr c' \<and> uc_pc c' = U_None"
proof (rule udp_dying_ends)
  show "udp_dying (UdpClient_delete c)"
    using assms(1,2) by (auto simp: udp_dying_def UdpClient_delete_def udp_inv_def)
qed (use assms(3,4) udp_left_le in auto)

section \<open>Properties\<close>

text \<open>C23: Whatever the interleaving of the thread, of \<^verbatim>\<open>SendAsync\<close>, of breaks and of the destructor, and whatever the kernel answers, the
  thread never reads or pops an empty list; the datagrams handed to \<^verbatim>\<open>sendto\<close> are the first ones accepted, each once and in order, those not
  yet sent are still in the list (the one just sent is popped next), and a thread that waits to read while a datagram is queued has a break
  pending.\<close>

theorem UdpClient_sends_in_order:
  assumes "udp_run_allowed es (UdpClient_new fd ev)"
  shows "\<exists>c n. udp_run es (UdpClient_new fd ev) = Inr c \<and> n \<le> length (uc_accepted c) \<and> uc_list_buffer c = drop n (uc_accepted c)
    \<and> uc_sent c = take (if uc_pc c = U_Pop then Suc n else n) (uc_accepted c)
    \<and> (uc_pc c = U_Select False \<and> uc_list_buffer c \<noteq> [] \<longrightarrow> uc_pipe c)"
proof -
  obtain c where c: "udp_run es (UdpClient_new fd ev) = Inr c" "udp_inv c"
    using udp_inv_run [OF udp_inv_new assms] by blast
  then show ?thesis unfolding udp_inv_def by blast
qed

definition udp_ok :: udp_answers where
  "udp_ok = \<lparr>ua_select = 1, ua_breaker_error = False, ua_exception = False, ua_writable = True, ua_readable = False, ua_errno = 0,
     ua_sendto = 2, ua_recvfrom = None\<rparr>"

definition udp_demo :: "udp_step list" where
  "udp_demo = [Udp_send [1, 2], Udp_thread udp_ok, Udp_thread udp_ok, Udp_send [3, 4], Udp_thread udp_ok, Udp_thread udp_ok, Udp_thread udp_ok,
     Udp_thread udp_ok, Udp_thread udp_ok]"

lemma UdpClient_sends_in_order_witness:
  "\<exists>c n. udp_run udp_demo (UdpClient_new 3 True) = Inr c \<and> n \<le> length (uc_accepted c) \<and> uc_list_buffer c = drop n (uc_accepted c)
    \<and> uc_sent c = take (if uc_pc c = U_Pop then Suc n else n) (uc_accepted c)
    \<and> (uc_pc c = U_Select False \<and> uc_list_buffer c \<noteq> [] \<longrightarrow> uc_pipe c)"
  by (rule UdpClient_sends_in_order) code_simp

text \<open>A datagram given to \<^verbatim>\<open>SendAsync\<close> after the thread has left its loop and before it has ended is accepted and stays in the list with
  no thread to send it: the thread still counts as running, so the call does not start another.\<close>

lemma SendAsync_strands:
  "\<exists>c. udp_run [Udp_send [1], Udp_thread udp_ok, Udp_thread (udp_ok\<lparr>ua_select := -1, ua_errno := 9\<rparr>),
        Udp_thread udp_ok, Udp_send [2], Udp_thread udp_ok] (UdpClient_new 3 True) = Inr c
     \<and> uc_pc c = U_None \<and> uc_event c \<and> uc_accepted c = [[1], [2]] \<and> uc_list_buffer c = [[1], [2]] \<and> uc_sent c = []
     \<and> uc_log c = [OnUdpError 9]"
  by (simp add: UdpClient_new_def SendAsync_def RunLoop_step_def udp_selected_def DoSelect_wait_def udp_call_def udp_ok_def INVALID_SOCKET_def)

text \<open>The time limit of \<^verbatim>\<open>ReadBlock\<close> has no effect.\<close>

lemma ReadBlock_no_limit: "ReadBlock t k c = ReadBlock u k c"
  by (simp add: ReadBlock_def)

end
