(* ===== verification/Dns.thy ===== *)
theory Dns
  imports Comm_Prelude "HOL-Library.Word"
begin

text \<open>
  src/mars/comm/dns/dns.cc: lookups of host names, each by a thread of its own, with a shared table \<^verbatim>\<open>sg_dnsinfo_vec\<close> under \<^verbatim>\<open>sg_mutex\<close> and
  a condition variable. A step is what runs under the mutex. \<^verbatim>\<open>DNSBreaker::dnsstatus\<close> points into the vector: it is kept as the block the
  vector had when the pointer was taken and an index, so that a reallocation and a shift by \<^verbatim>\<open>erase\<close> show. The answers of
  \<^verbatim>\<open>getaddrinfo\<close> and of the user's \<^verbatim>\<open>DNSFunc\<close>, the text of an address and the capacity of a grown vector are arguments.
\<close>

section \<open>State\<close>

datatype GetIPStatus = kGetIPDoing | kGetIPTimeout | kGetIPCancel | kGetIPSuc | kGetIPFail

text \<open>\<open>di_func\<close>: whether the lookup has a \<^verbatim>\<open>DNSFunc\<close>.\<close>

record dnsinfo =
  di_threadid :: nat
  di_dns :: nat
  di_func :: bool
  di_host_name :: string
  di_result :: "string list"
  di_status :: GetIPStatus

record DNSBreaker =
  br_isbreak :: bool
  br_dnsstatus :: "(nat \<times> nat) option"

definition DNSBreaker_new :: DNSBreaker where
  "DNSBreaker_new = \<lparr>br_isbreak = False, br_dnsstatus = None\<rparr>"

text \<open>A thread of a lookup has not begun, or resolves a name with the mutex released.\<close>

datatype dns_worker = Wk_begin | Wk_resolve bool string

record dns_caller =
  ca_host :: string
  ca_breaker :: "nat option"

text \<open>The last two fields belong to the specification: what the threads answered, and what \<^verbatim>\<open>GetHostByName\<close> returned (\<open>None\<close> for
  \<^verbatim>\<open>false\<close>).\<close>

record dns_state =
  dn_vec :: "dnsinfo list"
  dn_block :: nat
  dn_capacity :: nat
  dn_breakers :: "nat \<Rightarrow> DNSBreaker"
  dn_workers :: "nat \<Rightarrow> dns_worker option"
  dn_callers :: "nat \<Rightarrow> dns_caller option"
  dn_answers :: "(nat \<times> string \<times> string list) list"
  dn_returned :: "(nat \<times> string \<times> string list option) list"

definition dns_init :: dns_state where
  "dns_init = \<lparr>dn_vec = [], dn_block = 0, dn_capacity = 0, dn_breakers = (\<lambda>_. DNSBreaker_new), dn_workers = (\<lambda>_. None),
     dn_callers = (\<lambda>_. None), dn_answers = [], dn_returned = []\<rparr>"

section \<open>The vector\<close>

text \<open>The iterator at the entry of a thread, or the end.\<close>

fun dns_find :: "nat \<Rightarrow> dnsinfo list \<Rightarrow> nat" where
  "dns_find t [] = 0"
| "dns_find t (i # is) = (if di_threadid i = t then 0 else Suc (dns_find t is))"

definition vec_push :: "nat \<Rightarrow> dnsinfo \<Rightarrow> dns_state \<Rightarrow> dns_state" where
  "vec_push newcap i s =
     (if length (dn_vec s) < dn_capacity s then s\<lparr>dn_vec := dn_vec s @ [i]\<rparr>
      else s\<lparr>dn_vec := dn_vec s @ [i], dn_block := Suc (dn_block s), dn_capacity := newcap\<rparr>)"

definition vec_erase :: "nat \<Rightarrow> dns_state \<Rightarrow> dns_state" where
  "vec_erase n s = s\<lparr>dn_vec := take n (dn_vec s) @ drop (Suc n) (dn_vec s)\<rparr>"

definition vec_modify :: "nat \<Rightarrow> (dnsinfo \<Rightarrow> dnsinfo) \<Rightarrow> dns_state \<Rightarrow> dns_state" where
  "vec_modify n f s = s\<lparr>dn_vec := (dn_vec s)[n := f (dn_vec s ! n)]\<rparr>"

text \<open>A write of the status through \<^verbatim>\<open>DNSBreaker::dnsstatus\<close>.\<close>

definition status_write :: "nat \<times> nat \<Rightarrow> GetIPStatus \<Rightarrow> dns_state \<Rightarrow> dns_state result" where
  "status_write p v s =
     (if fst p \<noteq> dn_block s then Inl Use_After_Free
      else if length (dn_vec s) \<le> snd p then Inl Out_Of_Bounds
      else Inr (vec_modify (snd p) (\<lambda>i. i\<lparr>di_status := v\<rparr>) s))"

section \<open>The thread of a lookup\<close>

text \<open>The first part of \<^verbatim>\<open>__GetIP\<close>: what to resolve.\<close>

definition GetIP_begin :: "nat \<Rightarrow> dns_state \<Rightarrow> dns_state" where
  "GetIP_begin t s =
     (let iter = dns_find t (dn_vec s)
      in s\<lparr>dn_workers := (dn_workers s)(t \<mapsto>
           (if iter < length (dn_vec s) then Wk_resolve (di_func (dn_vec s ! iter)) (di_host_name (dn_vec s ! iter))
            else Wk_resolve False []))\<rparr>)"

record addrinfo =
  ai_inet :: bool
  ai_s_addr :: "32 word"

text \<open>The addresses kept of an answer of \<^verbatim>\<open>getaddrinfo\<close>; \<open>ip\<close> and \<open>valid\<close> stand for \<^verbatim>\<open>socket_address\<close>.\<close>

fun addrinfo_ips :: "(32 word \<Rightarrow> string) \<Rightarrow> (string \<Rightarrow> bool) \<Rightarrow> addrinfo list \<Rightarrow> string list" where
  "addrinfo_ips ip valid [] = []"
| "addrinfo_ips ip valid (a # as) =
     (if \<not> ai_inet a then addrinfo_ips ip valid as
      else if ai_s_addr a = 0 \<or> ai_s_addr a = 0xffffffff then addrinfo_ips ip valid as
      else if \<not> valid (ip (ai_s_addr a)) then addrinfo_ips ip valid as
      else ip (ai_s_addr a) # addrinfo_ips ip valid as)"

datatype dns_answer = Addr_error | Addr_list "addrinfo list" | Func_ips "string list"

text \<open>The second part of \<^verbatim>\<open>__GetIP\<close>, with the mutex held again, and the end of the thread.\<close>

definition GetIP_end :: "(32 word \<Rightarrow> string) \<Rightarrow> (string \<Rightarrow> bool) \<Rightarrow> nat \<Rightarrow> string \<Rightarrow> dns_answer \<Rightarrow> dns_state \<Rightarrow> dns_state" where
  "GetIP_end ip valid t host ans s =
     (let iter = dns_find t (dn_vec s);
          there = iter < length (dn_vec s);
          s1 = s\<lparr>dn_workers := (dn_workers s)(t := None)\<rparr>
      in case ans of
           Addr_error \<Rightarrow> if there then vec_modify iter (\<lambda>i. i\<lparr>di_status := kGetIPFail\<rparr>) s1 else s1
         | Addr_list as \<Rightarrow>
             if there
             then (vec_modify iter (\<lambda>i. i\<lparr>di_result := di_result i @ addrinfo_ips ip valid as, di_status := kGetIPSuc\<rparr>) s1)
                    \<lparr>dn_answers := dn_answers s @ [(t, host, addrinfo_ips ip valid as)]\<rparr>
             else s1
         | Func_ips ips \<Rightarrow>
             if there
             then (vec_modify iter (\<lambda>i. i\<lparr>di_status := (if ips = [] then kGetIPFail else kGetIPSuc), di_result := ips\<rparr>) s1)
                    \<lparr>dn_answers := dn_answers s @ [(t, host, ips)]\<rparr>
             else s1)"

section \<open>GetHostByName\<close>

text \<open>Up to the first wait. \<open>started\<close> is the thread that \<^verbatim>\<open>Thread::start\<close> has started, \<open>None\<close> when it fails. A call that leaves the
  state as it is has returned \<^verbatim>\<open>false\<close>.\<close>

definition GetHostByName_begin ::
  "nat \<Rightarrow> bool \<Rightarrow> string \<Rightarrow> nat option \<Rightarrow> nat option \<Rightarrow> nat \<Rightarrow> dns_state \<Rightarrow> dns_state" where
  "GetHostByName_begin dns func host breaker started newcap s =
     (if host = [] then s
      else if (case breaker of None \<Rightarrow> False | Some b \<Rightarrow> br_isbreak (dn_breakers s b)) then s
      else case started of
        None \<Rightarrow> s
      | Some t \<Rightarrow>
          let s1 = vec_push newcap \<lparr>di_threadid = t, di_dns = dns, di_func = func, di_host_name = host, di_result = [],
                     di_status = kGetIPDoing\<rparr> s;
              s2 = s1\<lparr>dn_workers := (dn_workers s1)(t \<mapsto> Wk_begin),
                      dn_callers := (dn_callers s1)(t \<mapsto> \<lparr>ca_host = host, ca_breaker = breaker\<rparr>)\<rparr>
          in case breaker of
               None \<Rightarrow> s2
             | Some b \<Rightarrow> s2\<lparr>dn_breakers := (dn_breakers s2)
                          (b := (dn_breakers s2 b)\<lparr>br_dnsstatus := Some (dn_block s2, length (dn_vec s2) - 1)\<rparr>)\<rparr>)"

definition breaker_clear :: "nat option \<Rightarrow> dns_state \<Rightarrow> dns_state" where
  "breaker_clear breaker s = (case breaker of None \<Rightarrow> s
     | Some b \<Rightarrow> s\<lparr>dn_breakers := (dn_breakers s)(b := (dn_breakers s b)\<lparr>br_dnsstatus := None\<rparr>)\<rparr>)"

definition caller_returns :: "nat \<Rightarrow> string \<Rightarrow> string list option \<Rightarrow> dns_state \<Rightarrow> dns_state" where
  "caller_returns t host r s = s\<lparr>dn_callers := (dn_callers s)(t := None), dn_returned := dn_returned s @ [(t, host, r)]\<rparr>"

text \<open>One round of the loop after a wait, \<open>timedout\<close> when the wait returned \<^verbatim>\<open>ETIMEDOUT\<close>.\<close>

definition GetHostByName_wake :: "nat \<Rightarrow> dns_caller \<Rightarrow> bool \<Rightarrow> dns_state \<Rightarrow> dns_state" where
  "GetHostByName_wake t ca timedout s =
     (let it = dns_find t (dn_vec s)
      in if \<not> it < length (dn_vec s) then caller_returns t (ca_host ca) None s
         else
           let s1 = (if timedout then vec_modify it (\<lambda>i. i\<lparr>di_status := kGetIPTimeout\<rparr>) s else s);
               i = dn_vec s1 ! it
           in if di_status i = kGetIPDoing then s1
              else if di_status i = kGetIPSuc
              then (if ca_host ca = di_host_name i
                    then caller_returns t (ca_host ca) (Some (di_result i)) (vec_erase it (breaker_clear (ca_breaker ca) s1))
                    else caller_returns t (ca_host ca) None s1)
              else caller_returns t (ca_host ca) None (vec_erase it (breaker_clear (ca_breaker ca) s1)))"

section \<open>Cancel\<close>

definition cancel_entry :: "nat \<Rightarrow> string \<Rightarrow> dnsinfo \<Rightarrow> dnsinfo" where
  "cancel_entry dns host i =
     (let i1 = (if host = [] \<and> di_dns i = dns then i\<lparr>di_status := kGetIPCancel\<rparr> else i)
      in if di_host_name i1 = host \<and> di_dns i1 = dns then i1\<lparr>di_status := kGetIPCancel\<rparr> else i1)"

definition Cancel_host :: "nat \<Rightarrow> string \<Rightarrow> dns_state \<Rightarrow> dns_state" where
  "Cancel_host dns host s = s\<lparr>dn_vec := map (cancel_entry dns host) (dn_vec s)\<rparr>"

definition DNS_delete :: "nat \<Rightarrow> dns_state \<Rightarrow> dns_state" where
  "DNS_delete dns = Cancel_host dns []"

definition Cancel_breaker :: "nat \<Rightarrow> dns_state \<Rightarrow> dns_state result" where
  "Cancel_breaker b s =
     (let s1 = s\<lparr>dn_breakers := (dn_breakers s)(b := (dn_breakers s b)\<lparr>br_isbreak := True\<rparr>)\<rparr>
      in case br_dnsstatus (dn_breakers s1 b) of None \<Rightarrow> Inr s1 | Some p \<Rightarrow> status_write p kGetIPCancel s1)"

section \<open>Runs\<close>

datatype dns_step =
    Dns_lookup nat bool string "nat option" "nat option" nat
  | Dns_wake nat bool
  | Dns_begin nat
  | Dns_end nat dns_answer
  | Dns_cancel nat string
  | Dns_delete nat
  | Dns_break nat

text \<open>A started thread has an id of its own: no other thread of a lookup that still runs has it, nor one whose \<^verbatim>\<open>Thread\<close> object is still
  in the frame of a call. A vector that grows gets room for the new element.\<close>

fun dns_allowed :: "dns_step \<Rightarrow> dns_state \<Rightarrow> bool" where
  "dns_allowed (Dns_lookup dns func host breaker started newcap) s \<longleftrightarrow>
     length (dn_vec s) < newcap \<and> (case started of None \<Rightarrow> True | Some t \<Rightarrow> dn_workers s t = None \<and> dn_callers s t = None)"
| "dns_allowed (Dns_wake t timedout) s \<longleftrightarrow> dn_callers s t \<noteq> None"
| "dns_allowed (Dns_begin t) s \<longleftrightarrow> dn_workers s t = Some Wk_begin"
| "dns_allowed (Dns_end t ans) s \<longleftrightarrow> (case dn_workers s t of Some (Wk_resolve func host) \<Rightarrow> (case ans of Func_ips _ \<Rightarrow> func | _ \<Rightarrow> \<not> func) | _ \<Rightarrow> False)"
| "dns_allowed _ s \<longleftrightarrow> True"

definition worker_host :: "dns_worker option \<Rightarrow> string" where
  "worker_host w = (case w of Some (Wk_resolve func host) \<Rightarrow> host | _ \<Rightarrow> [])"

fun dns_do :: "(32 word \<Rightarrow> string) \<Rightarrow> (string \<Rightarrow> bool) \<Rightarrow> dns_step \<Rightarrow> dns_state \<Rightarrow> dns_state result" where
  "dns_do ip valid (Dns_lookup dns func host breaker started newcap) s = Inr (GetHostByName_begin dns func host breaker started newcap s)"
| "dns_do ip valid (Dns_wake t timedout) s = (case dn_callers s t of None \<Rightarrow> Inr s | Some ca \<Rightarrow> Inr (GetHostByName_wake t ca timedout s))"
| "dns_do ip valid (Dns_begin t) s = Inr (GetIP_begin t s)"
| "dns_do ip valid (Dns_end t ans) s = Inr (GetIP_end ip valid t (worker_host (dn_workers s t)) ans s)"
| "dns_do ip valid (Dns_cancel dns host) s = Inr (Cancel_host dns host s)"
| "dns_do ip valid (Dns_delete dns) s = Inr (DNS_delete dns s)"
| "dns_do ip valid (Dns_break b) s = Cancel_breaker b s"

fun dns_run :: "(32 word \<Rightarrow> string) \<Rightarrow> (string \<Rightarrow> bool) \<Rightarrow> dns_step list \<Rightarrow> dns_state \<Rightarrow> dns_state result" where
  "dns_run ip valid [] s = Inr s"
| "dns_run ip valid (e # es) s = rbind (dns_do ip valid e s) (dns_run ip valid es)"

fun dns_run_allowed :: "(32 word \<Rightarrow> string) \<Rightarrow> (string \<Rightarrow> bool) \<Rightarrow> dns_step list \<Rightarrow> dns_state \<Rightarrow> bool" where
  "dns_run_allowed ip valid [] s \<longleftrightarrow> True"
| "dns_run_allowed ip valid (e # es) s \<longleftrightarrow> dns_allowed e s \<and> (case dns_do ip valid e s of Inl _ \<Rightarrow> True | Inr s' \<Rightarrow> dns_run_allowed ip valid es s')"

section \<open>The table\<close>

definition dns_tids :: "dns_state \<Rightarrow> nat list" where
  "dns_tids s = map di_threadid (dn_vec s)"

lemma dns_find_le: "dns_find t is \<le> length is"
  by (induction "is") auto

lemma dns_find_less_iff: "dns_find t is < length is \<longleftrightarrow> t \<in> set (map di_threadid is)"
  by (induction "is") auto

lemma dns_find_nth: "dns_find t is < length is \<Longrightarrow> di_threadid (is ! dns_find t is) = t"
  by (induction "is") (auto split: if_splits)

lemma tids_update:
  assumes "n < length is" "di_threadid j = di_threadid (is ! n)"
  shows "map di_threadid (is[n := j]) = map di_threadid is"
  using assms by (metis list_update_id map_update nth_map)

lemma update_entries:
  assumes "distinct (map di_threadid is)" "n < length is" "di_threadid j = di_threadid (is ! n)" "i \<in> set (is[n := j])"
  shows "i = j \<or> i \<in> set is \<and> di_threadid i \<noteq> di_threadid j"
proof -
  obtain m where m: "m < length is" "i = is[n := j] ! m" using assms(4) by (auto simp: in_set_conv_nth)
  show ?thesis
  proof (cases "m = n")
    case True
    then show ?thesis using m by simp
  next
    case False
    then have "di_threadid (is ! m) \<noteq> di_threadid (is ! n)"
      using assms(1,2) m(1) by (simp add: distinct_conv_nth)
    then show ?thesis using False m assms(3) by simp
  qed
qed

lemma erase_tids:
  assumes "distinct (map di_threadid is)" "n < length is"
  shows "distinct (map di_threadid (take n is @ drop (Suc n) is))"
    "set (map di_threadid (take n is @ drop (Suc n) is)) = set (map di_threadid is) - {di_threadid (is ! n)}"
proof -
  have e: "is = take n is @ is ! n # drop (Suc n) is" by (rule id_take_nth_drop [OF assms(2)])
  have "distinct (map di_threadid (take n is @ is ! n # drop (Suc n) is))" using assms(1) e by simp
  then show "distinct (map di_threadid (take n is @ drop (Suc n) is))" by auto
  have "set (map di_threadid (take n is @ is ! n # drop (Suc n) is)) = set (map di_threadid is)" using e by simp
  then show "set (map di_threadid (take n is @ drop (Suc n) is)) = set (map di_threadid is) - {di_threadid (is ! n)}"
    using \<open>distinct (map di_threadid (take n is @ is ! n # drop (Suc n) is))\<close> by auto
qed

lemma erase_entries: "i \<in> set (take n is @ drop (Suc n) is) \<Longrightarrow> i \<in> set is"
  by (auto dest: in_set_takeD in_set_dropD)

section \<open>The invariant\<close>

text \<open>The entry of a lookup whose thread is at work has no result yet; the thread resolves the name of its own entry. When the thread has
  ended the lookup is decided, and its result, if it has one, is what its own thread answered for its own name.\<close>

definition entry_ok :: "(nat \<Rightarrow> dns_worker option) \<Rightarrow> (nat \<times> string \<times> string list) set \<Rightarrow> dnsinfo \<Rightarrow> bool" where
  "entry_ok W A i = (case W (di_threadid i) of
     None \<Rightarrow> di_status i \<noteq> kGetIPDoing \<and> (di_status i = kGetIPSuc \<longrightarrow> (di_threadid i, di_host_name i, di_result i) \<in> A)
   | Some w \<Rightarrow> di_status i \<noteq> kGetIPSuc \<and> di_result i = [] \<and> (w = Wk_begin \<or> w = Wk_resolve (di_func i) (di_host_name i)))"

definition dns_inv :: "dns_state \<Rightarrow> bool" where
  "dns_inv s \<longleftrightarrow> distinct (dns_tids s) \<and> dom (dn_callers s) = set (dns_tids s)
     \<and> (\<forall>i\<in>set (dn_vec s). map_option ca_host (dn_callers s (di_threadid i)) = Some (di_host_name i))
     \<and> (\<forall>i\<in>set (dn_vec s). entry_ok (dn_workers s) (set (dn_answers s)) i)
     \<and> (\<forall>t h ips. (t, h, Some ips) \<in> set (dn_returned s) \<longrightarrow> (t, h, ips) \<in> set (dn_answers s))"

lemma dns_inv_init: "dns_inv dns_init"
  by (simp add: dns_inv_def dns_init_def dns_tids_def)

lemma entry_ok_mono: "entry_ok W A i \<Longrightarrow> W' (di_threadid i) = W (di_threadid i) \<Longrightarrow> A \<subseteq> A' \<Longrightarrow> entry_ok W' A' i"
  by (auto simp: entry_ok_def split: option.splits)

lemma dns_inv_entry:
  assumes "dns_inv s" "dns_find t (dn_vec s) < length (dn_vec s)"
  shows "entry_ok (dn_workers s) (set (dn_answers s)) (dn_vec s ! dns_find t (dn_vec s))"
    "map_option ca_host (dn_callers s t) = Some (di_host_name (dn_vec s ! dns_find t (dn_vec s)))"
  using assms dns_find_nth [OF assms(2)] nth_mem [OF assms(2)] unfolding dns_inv_def by (blast, metis)

text \<open>A step that changes one entry and what belongs to its thread.\<close>

lemma dns_inv_update:
  assumes inv: "dns_inv s" and n: "n < length (dn_vec s)" and vec: "dn_vec s' = (dn_vec s)[n := j]"
    and j: "di_threadid j = di_threadid (dn_vec s ! n)" "di_host_name j = di_host_name (dn_vec s ! n)"
    and same: "dn_callers s' = dn_callers s" "dn_returned s' = dn_returned s" "set (dn_answers s) \<subseteq> set (dn_answers s')"
    and W: "\<And>t. t \<noteq> di_threadid j \<Longrightarrow> dn_workers s' t = dn_workers s t"
    and ok: "entry_ok (dn_workers s') (set (dn_answers s')) j"
  shows "dns_inv s'"
proof -
  have d: "distinct (map di_threadid (dn_vec s))" using inv by (simp add: dns_inv_def dns_tids_def)
  have t: "dns_tids s' = dns_tids s" using tids_update [OF n j(1)] by (simp add: dns_tids_def vec)
  have e: "i = j \<or> i \<in> set (dn_vec s) \<and> di_threadid i \<noteq> di_threadid j" if "i \<in> set (dn_vec s')" for i
    using update_entries [OF d n j(1)] that by (simp add: vec)
  have h: "map_option ca_host (dn_callers s' (di_threadid i)) = Some (di_host_name i)" if "i \<in> set (dn_vec s')" for i
    using e [OF that] inv nth_mem [OF n] j same(1) by (auto simp: dns_inv_def)
  have o: "entry_ok (dn_workers s') (set (dn_answers s')) i" if "i \<in> set (dn_vec s')" for i
    using e [OF that] ok inv W same(3) by (auto simp: dns_inv_def intro: entry_ok_mono)
  show ?thesis
    using inv t h o same by (auto simp: dns_inv_def)
qed

lemma dns_inv_idle:
  assumes "dns_inv s" "t \<notin> set (dns_tids s)" "dn_vec s' = dn_vec s" "dn_callers s' = dn_callers s" "dn_returned s' = dn_returned s"
    "dn_answers s' = dn_answers s" "\<And>u. u \<noteq> t \<Longrightarrow> dn_workers s' u = dn_workers s u"
  shows "dns_inv s'"
proof -
  have "entry_ok (dn_workers s') (set (dn_answers s)) i" if "i \<in> set (dn_vec s)" for i
  proof (rule entry_ok_mono)
    show "entry_ok (dn_workers s) (set (dn_answers s)) i" using assms(1) that by (simp add: dns_inv_def)
    have "di_threadid i \<noteq> t" using assms(2) that by (auto simp: dns_tids_def)
    then show "dn_workers s' (di_threadid i) = dn_workers s (di_threadid i)" by (rule assms(7))
  qed simp
  then show ?thesis using assms(1,3-6) by (simp add: dns_inv_def dns_tids_def)
qed

lemma dns_inv_frame:
  assumes "dns_inv s" "dn_vec s' = dn_vec s" "dn_callers s' = dn_callers s" "dn_returned s' = dn_returned s"
    "dn_answers s' = dn_answers s" "dn_workers s' = dn_workers s"
  shows "dns_inv s'"
  using assms by (auto simp: dns_inv_def dns_tids_def)

text \<open>A call that returns and erases its entry.\<close>

lemma dns_inv_erase:
  assumes inv: "dns_inv s" and n: "n < length (dn_vec s)" and t: "di_threadid (dn_vec s ! n) = t"
    and r: "\<And>ips. r = Some ips \<Longrightarrow> (t, h, ips) \<in> set (dn_answers s)"
  shows "dns_inv (caller_returns t h r (vec_erase n s))"
proof -
  let ?vec = "take n (dn_vec s) @ drop (Suc n) (dn_vec s)"
  have d: "distinct (map di_threadid (dn_vec s))" using inv by (simp add: dns_inv_def dns_tids_def)
  note e = erase_tids [OF d n]
  have m: "i \<in> set (dn_vec s) \<and> di_threadid i \<noteq> t" if "i \<in> set ?vec" for i
    using erase_entries [OF that] e(2) that t by fastforce
  show ?thesis
    using inv e m r t
    by (auto simp: dns_inv_def dns_tids_def caller_returns_def vec_erase_def)
qed

section \<open>Every step keeps the invariant\<close>

lemma breaker_clear_fields [simp]:
  "dn_vec (breaker_clear b s) = dn_vec s" "dn_callers (breaker_clear b s) = dn_callers s" "dn_returned (breaker_clear b s) = dn_returned s"
  "dn_answers (breaker_clear b s) = dn_answers s" "dn_workers (breaker_clear b s) = dn_workers s"
  by (simp_all add: breaker_clear_def split: option.split)

lemma dns_inv_breaker_clear: "dns_inv s \<Longrightarrow> dns_inv (breaker_clear b s)"
  by (erule dns_inv_frame) simp_all

lemma vec_modify_fields [simp]:
  "dn_vec (vec_modify n f s) = (dn_vec s)[n := f (dn_vec s ! n)]" "dn_callers (vec_modify n f s) = dn_callers s"
  "dn_returned (vec_modify n f s) = dn_returned s" "dn_answers (vec_modify n f s) = dn_answers s"
  "dn_workers (vec_modify n f s) = dn_workers s"
  by (simp_all add: vec_modify_def)

text \<open>To decide a lookup without a result is always possible.\<close>

lemma entry_ok_decide:
  assumes "entry_ok W A i" "v = kGetIPCancel \<or> v = kGetIPTimeout"
  shows "entry_ok W A (i\<lparr>di_status := v\<rparr>)"
  using assms by (auto simp: entry_ok_def split: option.splits)

lemma dns_inv_decide:
  assumes "dns_inv s" "n < length (dn_vec s)" "v = kGetIPCancel \<or> v = kGetIPTimeout"
  shows "dns_inv (vec_modify n (\<lambda>i. i\<lparr>di_status := v\<rparr>) s)"
proof (rule dns_inv_update [OF assms(1,2)])
  have "entry_ok (dn_workers s) (set (dn_answers s)) (dn_vec s ! n)" using assms(1,2) by (simp add: dns_inv_def)
  then show "entry_ok (dn_workers (vec_modify n (\<lambda>i. i\<lparr>di_status := v\<rparr>) s)) (set (dn_answers (vec_modify n (\<lambda>i. i\<lparr>di_status := v\<rparr>) s)))
     ((dn_vec s ! n)\<lparr>di_status := v\<rparr>)"
    using entry_ok_decide assms(3) by simp
qed simp_all

lemma dns_inv_begin:
  assumes "dns_inv s" "dn_workers s t = Some Wk_begin"
  shows "dns_inv (GetIP_begin t s)"
proof (cases "dns_find t (dn_vec s) < length (dn_vec s)")
  case True
  note i = dns_find_nth [OF True]
  have "entry_ok (dn_workers s) (set (dn_answers s)) (dn_vec s ! dns_find t (dn_vec s))" using dns_inv_entry(1) [OF assms(1) True] .
  then show ?thesis
    using True i assms(2)
    by (intro dns_inv_update [where j = "dn_vec s ! dns_find t (dn_vec s)", OF assms(1) True]) (auto simp: GetIP_begin_def Let_def entry_ok_def)
next
  case False
  then have "t \<notin> set (dns_tids s)" by (simp add: dns_tids_def dns_find_less_iff)
  then show ?thesis by (rule dns_inv_idle [OF assms(1)]) (simp_all add: GetIP_begin_def Let_def)
qed

lemma dns_inv_end:
  assumes inv: "dns_inv s" and w: "dn_workers s t = Some (Wk_resolve func host)"
  shows "dns_inv (GetIP_end ip valid t host ans s)"
proof (cases "dns_find t (dn_vec s) < length (dn_vec s)")
  case True
  let ?i = "dn_vec s ! dns_find t (dn_vec s)"
  note i = dns_find_nth [OF True]
  have e: "di_result (dn_vec s ! dns_find t (dn_vec s)) = []" "di_host_name (dn_vec s ! dns_find t (dn_vec s)) = host"
    using dns_inv_entry(1) [OF inv True] w i by (auto simp: entry_ok_def)
  show ?thesis
  proof (cases ans)
    case Addr_error
    then show ?thesis
      using True i by (intro dns_inv_update [where j = "?i\<lparr>di_status := kGetIPFail\<rparr>", OF inv True]) (auto simp: GetIP_end_def Let_def entry_ok_def)
  next
    case (Addr_list as)
    then show ?thesis
      using True i e by (intro dns_inv_update [where j = "?i\<lparr>di_result := di_result ?i @ addrinfo_ips ip valid as, di_status := kGetIPSuc\<rparr>", OF inv True]) (auto simp: GetIP_end_def Let_def entry_ok_def)
  next
    case (Func_ips ips)
    then show ?thesis
      using True i e by (intro dns_inv_update [where j = "?i\<lparr>di_status := (if ips = [] then kGetIPFail else kGetIPSuc), di_result := ips\<rparr>", OF inv True]) (auto simp: GetIP_end_def Let_def entry_ok_def)
  qed
next
  case False
  then have t: "t \<notin> set (dns_tids s)" by (simp add: dns_tids_def dns_find_less_iff)
  show ?thesis
    using False by (intro dns_inv_idle [OF inv t]) (simp_all add: GetIP_end_def Let_def split: dns_answer.split)
qed

lemma dns_inv_wake:
  assumes inv: "dns_inv s" and ca: "dn_callers s t = Some ca"
  shows "dns_inv (GetHostByName_wake t ca timedout s)"
proof -
  have "t \<in> set (dns_tids s)" using inv ca by (auto simp: dns_inv_def)
  then have n: "dns_find t (dn_vec s) < length (dn_vec s)" by (simp add: dns_tids_def dns_find_less_iff)
  define it where "it = dns_find t (dn_vec s)"
  define s1 where "s1 = (if timedout then vec_modify it (\<lambda>i. i\<lparr>di_status := kGetIPTimeout\<rparr>) s else s)"
  have len: "it < length (dn_vec s)" using n by (simp add: it_def)
  have inv1: "dns_inv s1" using dns_inv_decide [OF inv len] inv by (simp add: s1_def)
  have len1: "it < length (dn_vec s1)" and t1: "di_threadid (dn_vec s1 ! it) = t"
    using len dns_find_nth [OF n] by (simp_all add: s1_def it_def)
  have h: "ca_host ca = di_host_name (dn_vec s1 ! it)"
    using dns_inv_entry(2) [OF inv n] ca len by (simp add: s1_def it_def)
  have ok: "entry_ok (dn_workers s1) (set (dn_answers s1)) (dn_vec s1 ! it)"
    using inv1 len1 by (simp add: dns_inv_def)
  have suc: "(t, ca_host ca, di_result (dn_vec s1 ! it)) \<in> set (dn_answers s1)" if "di_status (dn_vec s1 ! it) = kGetIPSuc"
    using ok that t1 h by (auto simp: entry_ok_def split: option.splits)
  have er: "dns_inv (caller_returns t (ca_host ca) r (vec_erase it (breaker_clear (ca_breaker ca) s1)))"
    if "\<And>ips. r = Some ips \<Longrightarrow> (t, ca_host ca, ips) \<in> set (dn_answers s1)" for r
    by (rule dns_inv_erase [OF dns_inv_breaker_clear [OF inv1]]) (use len1 t1 that in simp_all)
  have "GetHostByName_wake t ca timedout s =
     (if di_status (dn_vec s1 ! it) = kGetIPDoing then s1
      else if di_status (dn_vec s1 ! it) = kGetIPSuc
      then caller_returns t (ca_host ca) (Some (di_result (dn_vec s1 ! it))) (vec_erase it (breaker_clear (ca_breaker ca) s1))
      else caller_returns t (ca_host ca) None (vec_erase it (breaker_clear (ca_breaker ca) s1)))"
    using len h by (simp add: GetHostByName_wake_def Let_def it_def [symmetric] s1_def [symmetric])
  then show ?thesis using inv1 er [of None] er [of "Some (di_result (dn_vec s1 ! it))"] suc by auto
qed

lemma dns_inv_push:
  assumes inv: "dns_inv s" and t: "dn_callers s (di_threadid j) = None"
    and s': "dn_vec s' = dn_vec s @ [j]" "dn_workers s' = (dn_workers s)(di_threadid j \<mapsto> Wk_begin)"
      "dn_callers s' = (dn_callers s)(di_threadid j \<mapsto> ca)" "dn_answers s' = dn_answers s" "dn_returned s' = dn_returned s"
    and j: "ca_host ca = di_host_name j" "di_result j = []" "di_status j = kGetIPDoing"
  shows "dns_inv s'"
proof -
  have d: "di_threadid j \<notin> set (dns_tids s)" using inv t by (auto simp: dns_inv_def domIff)
  have ne: "di_threadid i \<noteq> di_threadid j" if "i \<in> set (dn_vec s)" for i
    using d that by (auto simp: dns_tids_def image_iff dest: sym)
  have o: "entry_ok (dn_workers s') (set (dn_answers s')) i" if "i \<in> set (dn_vec s)" for i
  proof (rule entry_ok_mono)
    show "entry_ok (dn_workers s) (set (dn_answers s)) i" using inv that by (simp add: dns_inv_def)
  qed (use ne [OF that] s' in simp_all)
  have oj: "entry_ok (dn_workers s') (set (dn_answers s')) j" using s'(2) j by (simp add: entry_ok_def)
  have "dns_tids s' = dns_tids s @ [di_threadid j]" using s'(1) by (simp add: dns_tids_def)
  then show ?thesis
    using inv d ne o oj s' j by (simp add: dns_inv_def)
qed

lemma dns_inv_lookup:
  assumes "dns_inv s" "dns_allowed (Dns_lookup dns func host breaker started newcap) s"
  shows "dns_inv (GetHostByName_begin dns func host breaker started newcap s)"
proof (cases started)
  case None
  then show ?thesis using assms(1) by (simp add: GetHostByName_begin_def)
next
  case (Some t)
  then have "dn_callers s t = None" using assms(2) by simp
  then have "dns_inv (GetHostByName_begin dns func host breaker started newcap s)"
    if "\<not> (host = [] \<or> (case breaker of None \<Rightarrow> False | Some b \<Rightarrow> br_isbreak (dn_breakers s b)))"
    using that Some
    by (intro dns_inv_push [where j = "\<lparr>di_threadid = t, di_dns = dns, di_func = func, di_host_name = host, di_result = [], di_status = kGetIPDoing\<rparr>"
          and ca = "\<lparr>ca_host = host, ca_breaker = breaker\<rparr>", OF assms(1)])
      (simp_all add: GetHostByName_begin_def vec_push_def Let_def split: option.split)
  then show ?thesis using assms(1) by (cases "host = []") (auto simp: GetHostByName_begin_def)
qed

lemma cancel_entry_cases: "cancel_entry dns host i = i \<or> cancel_entry dns host i = i\<lparr>di_status := kGetIPCancel\<rparr>"
  by (simp add: cancel_entry_def Let_def)

lemma cancel_entry_fields [simp]:
  "di_threadid (cancel_entry dns host i) = di_threadid i" "di_host_name (cancel_entry dns host i) = di_host_name i"
  by (simp_all add: cancel_entry_def Let_def)

lemma dns_inv_cancel:
  assumes "dns_inv s"
  shows "dns_inv (Cancel_host dns host s)"
proof -
  have "entry_ok (dn_workers s) (set (dn_answers s)) (cancel_entry dns host i)" if "i \<in> set (dn_vec s)" for i
    using cancel_entry_cases [of dns host i] entry_ok_decide assms that by (metis dns_inv_def)
  then show ?thesis using assms by (simp add: dns_inv_def Cancel_host_def dns_tids_def comp_def)
qed

lemma dns_inv_break:
  assumes "dns_inv s" "Cancel_breaker b s = Inr s'"
  shows "dns_inv s'"
proof -
  define s1 where "s1 = s\<lparr>dn_breakers := (dn_breakers s)(b := (dn_breakers s b)\<lparr>br_isbreak := True\<rparr>)\<rparr>"
  have inv1: "dns_inv s1" by (rule dns_inv_frame [OF assms(1)]) (simp_all add: s1_def)
  then show ?thesis
    using assms(2) dns_inv_decide [OF inv1]
    by (auto simp: Cancel_breaker_def s1_def [symmetric] status_write_def Let_def split: option.splits if_splits)
qed

lemma dns_inv_do:
  assumes "dns_inv s" "dns_allowed e s" "dns_do ip valid e s = Inr s'"
  shows "dns_inv s'"
proof (cases e)
  case (Dns_lookup dns func host breaker started newcap)
  then show ?thesis using dns_inv_lookup [OF assms(1)] assms(2,3) by auto
next
  case (Dns_wake t timedout)
  then show ?thesis using dns_inv_wake [OF assms(1)] assms(2,3) by auto
next
  case (Dns_begin t)
  then show ?thesis using dns_inv_begin [OF assms(1)] assms(2,3) by auto
next
  case (Dns_end t ans)
  then obtain func host where "dn_workers s t = Some (Wk_resolve func host)"
    using assms(2) by (auto split: option.splits dns_worker.splits)
  then show ?thesis using dns_inv_end [OF assms(1)] assms(3) Dns_end by (auto simp: worker_host_def)
next
  case (Dns_cancel dns host)
  then show ?thesis using dns_inv_cancel [OF assms(1)] assms(3) by auto
next
  case (Dns_delete dns)
  then show ?thesis using dns_inv_cancel [OF assms(1)] assms(3) by (auto simp: DNS_delete_def)
next
  case (Dns_break b)
  then show ?thesis using dns_inv_break [OF assms(1)] assms(3) by auto
qed

lemma dns_inv_run:
  assumes "dns_inv s" "dns_run_allowed ip valid es s" "dns_run ip valid es s = Inr s'"
  shows "dns_inv s'"
  using assms
proof (induction es arbitrary: s)
  case (Cons e es)
  then obtain s1 where s1: "dns_do ip valid e s = Inr s1" "dns_run ip valid es s1 = Inr s'"
    by (auto simp: rbind_eq_Inr_iff)
  then have "dns_inv s1" using dns_inv_do [OF Cons.prems(1)] Cons.prems(2) by auto
  then show ?case using Cons.IH Cons.prems(2) s1 by simp
qed simp

section \<open>Properties\<close>

text \<open>C10: In every interleaving of lookups, of their threads, of wakeups, timeouts and cancellations that does not fault, the table has
  exactly one entry for each call of \<^verbatim>\<open>GetHostByName\<close> that waits (so the call finds its entry, and no entry outlives its call); what a call
  returned with success is what its own thread answered for its own host name, whatever other lookups did; and a lookup whose thread has
  ended is decided, so the next wakeup ends the call.\<close>

theorem DNS_lookups_accounted:
  assumes "dns_run_allowed ip valid es dns_init" "dns_run ip valid es dns_init = Inr s"
  shows "distinct (map di_threadid (dn_vec s)) \<and> set (map di_threadid (dn_vec s)) = dom (dn_callers s)
    \<and> (\<forall>t h ips. (t, h, Some ips) \<in> set (dn_returned s) \<longrightarrow> (t, h, ips) \<in> set (dn_answers s))
    \<and> (\<forall>i\<in>set (dn_vec s). dn_workers s (di_threadid i) = None \<longrightarrow> di_status i \<noteq> kGetIPDoing)"
proof -
  have inv: "dns_inv s" by (rule dns_inv_run [OF dns_inv_init assms])
  have "di_status i \<noteq> kGetIPDoing" if "i \<in> set (dn_vec s)" "dn_workers s (di_threadid i) = None" for i
  proof -
    have "entry_ok (dn_workers s) (set (dn_answers s)) i" using inv that(1) by (simp add: dns_inv_def)
    then show ?thesis using that(2) by (simp add: entry_ok_def)
  qed
  then show ?thesis using inv by (simp add: dns_inv_def dns_tids_def)
qed

definition demo_ip :: "32 word \<Rightarrow> string" where
  "demo_ip a = (if a = 1 then ''1.0.0.0'' else ''2.0.0.0'')"

definition demo_lookups :: "dns_step list" where
  "demo_lookups = [Dns_lookup 0 False ''a'' None (Some 1) 4, Dns_lookup 0 False ''b'' (Some 0) (Some 2) 4, Dns_begin 2, Dns_begin 1,
     Dns_end 1 (Addr_list [\<lparr>ai_inet = True, ai_s_addr = 0\<rparr>, \<lparr>ai_inet = True, ai_s_addr = 1\<rparr>]), Dns_wake 2 False, Dns_wake 1 False]"

lemmas dns_eval = dns_init_def DNSBreaker_new_def GetHostByName_begin_def vec_push_def GetIP_begin_def GetIP_end_def GetHostByName_wake_def
  vec_modify_def vec_erase_def caller_returns_def breaker_clear_def Cancel_breaker_def status_write_def worker_host_def Let_def

definition demo_state :: dns_state where
  "demo_state = \<lparr>dn_vec = [\<lparr>di_threadid = 2, di_dns = 0, di_func = False, di_host_name = ''b'', di_result = [], di_status = kGetIPDoing\<rparr>],
     dn_block = 1, dn_capacity = 4, dn_breakers = (\<lambda>_. DNSBreaker_new)(0 := \<lparr>br_isbreak = False, br_dnsstatus = Some (1, 1)\<rparr>),
     dn_workers = (\<lambda>_. None)(2 \<mapsto> Wk_resolve False ''b''), dn_callers = (\<lambda>_. None)(2 \<mapsto> \<lparr>ca_host = ''b'', ca_breaker = Some 0\<rparr>),
     dn_answers = [(1, ''a'', [''1.0.0.0''])], dn_returned = [(1, ''a'', Some [''1.0.0.0''])]\<rparr>"

lemma demo_run: "dns_run demo_ip (\<lambda>_. True) demo_lookups dns_init = Inr demo_state"
  by (simp add: demo_lookups_def dns_eval demo_ip_def demo_state_def fun_eq_iff)

lemma demo_allowed: "dns_run_allowed demo_ip (\<lambda>_. True) demo_lookups dns_init"
  by (simp add: demo_lookups_def dns_eval demo_ip_def)

lemma DNS_lookups_accounted_witness:
  "distinct (map di_threadid (dn_vec demo_state)) \<and> set (map di_threadid (dn_vec demo_state)) = dom (dn_callers demo_state)
    \<and> (1, ''a'', [''1.0.0.0'']) \<in> set (dn_answers demo_state)"
proof -
  have "(1, ''a'', Some [''1.0.0.0'']) \<in> set (dn_returned demo_state)" by (simp add: demo_state_def)
  then show ?thesis using DNS_lookups_accounted [OF demo_allowed demo_run] by blast
qed

section \<open>The pointers of the breakers\<close>

text \<open>The call of thread \<open>t\<close>'s lookup waits and was given breaker \<open>b\<close>.\<close>

definition given :: "nat \<Rightarrow> nat \<Rightarrow> dns_state \<Rightarrow> bool" where
  "given b t s \<longleftrightarrow> (case dn_callers s t of None \<Rightarrow> False | Some ca \<Rightarrow> ca_breaker ca = Some b)"

text \<open>No entry moves: a push has room, or there is nothing to move, and a call that returns erases the last entry. A breaker is given to a
  lookup only when no lookup that waits has it.\<close>

fun still :: "dns_step \<Rightarrow> dns_state \<Rightarrow> bool" where
  "still (Dns_lookup dns func host breaker started newcap) s \<longleftrightarrow> (length (dn_vec s) < dn_capacity s \<or> dn_vec s = [])
     \<and> (case breaker of None \<Rightarrow> True | Some b \<Rightarrow> list_all (\<lambda>t. \<not> given b t s) (dns_tids s))"
| "still (Dns_wake t timedout) s \<longleftrightarrow> (case dn_callers s t of None \<Rightarrow> True
     | Some ca \<Rightarrow> length (dn_vec (GetHostByName_wake t ca timedout s)) = length (dn_vec s) \<or> Suc (dns_find t (dn_vec s)) = length (dn_vec s))"
| "still _ s \<longleftrightarrow> True"

fun still_run :: "(32 word \<Rightarrow> string) \<Rightarrow> (string \<Rightarrow> bool) \<Rightarrow> dns_step list \<Rightarrow> dns_state \<Rightarrow> bool" where
  "still_run ip valid [] s \<longleftrightarrow> True"
| "still_run ip valid (e # es) s \<longleftrightarrow> still e s \<and> (case dns_do ip valid e s of Inl _ \<Rightarrow> True | Inr s' \<Rightarrow> still_run ip valid es s')"

text \<open>The pointer of a breaker that a waiting lookup has is that of its entry, and the others are null.\<close>

definition breaker_inv :: "dns_state \<Rightarrow> bool" where
  "breaker_inv s \<longleftrightarrow> (\<forall>b. case br_dnsstatus (dn_breakers s b) of None \<Rightarrow> \<forall>t. \<not> given b t s
     | Some (blk, n) \<Rightarrow> blk = dn_block s \<and> n < length (dns_tids s) \<and> (\<forall>t. given b t s \<longleftrightarrow> t = dns_tids s ! n))"

lemma breaker_invD:
  assumes "breaker_inv s"
  shows "br_dnsstatus (dn_breakers s b) = None \<Longrightarrow> \<not> given b t s"
    "br_dnsstatus (dn_breakers s b) = Some (blk, n) \<Longrightarrow> blk = dn_block s"
    "br_dnsstatus (dn_breakers s b) = Some (blk, n) \<Longrightarrow> n < length (dns_tids s)"
    "br_dnsstatus (dn_breakers s b) = Some (blk, n) \<Longrightarrow> given b t s \<longleftrightarrow> t = dns_tids s ! n"
  using assms by (auto simp: breaker_inv_def dest!: spec [of _ b])

lemma breaker_invI:
  assumes "\<And>b t. br_dnsstatus (dn_breakers s b) = None \<Longrightarrow> \<not> given b t s"
    "\<And>b blk n. br_dnsstatus (dn_breakers s b) = Some (blk, n) \<Longrightarrow>
       blk = dn_block s \<and> n < length (dns_tids s) \<and> (\<forall>t. given b t s \<longleftrightarrow> t = dns_tids s ! n)"
  shows "breaker_inv s"
  using assms unfolding breaker_inv_def by (auto split: option.split)

lemma breaker_inv_init: "breaker_inv dns_init"
  by (simp add: breaker_inv_def given_def dns_init_def DNSBreaker_new_def)

lemma breaker_inv_frame:
  assumes "breaker_inv s" "dns_tids s' = dns_tids s" "dn_block s' = dn_block s" "dn_callers s' = dn_callers s"
    "\<And>b. br_dnsstatus (dn_breakers s' b) = br_dnsstatus (dn_breakers s b)"
  shows "breaker_inv s'"
proof -
  have g: "given b t s' \<longleftrightarrow> given b t s" for b t using assms(4) by (simp add: given_def)
  show ?thesis by (rule breaker_invI) (use breaker_invD [OF assms(1)] assms(2,3,5) g in auto)
qed

lemma tids_modify: "(\<And>i. di_threadid (f i) = di_threadid i) \<Longrightarrow> dns_tids (vec_modify n f s) = dns_tids s"
  by (cases "n < length (dn_vec s)") (simp_all add: dns_tids_def tids_update list_update_beyond)

lemma modify_rest [simp]: "dn_block (vec_modify n f s) = dn_block s" "dn_breakers (vec_modify n f s) = dn_breakers s"
  by (simp_all add: vec_modify_def)

lemma wake_shape [consumes 2]:
  assumes inv: "dns_inv s" and ca: "dn_callers s t = Some ca"
  obtains (waits) "dns_tids (GetHostByName_wake t ca timedout s) = dns_tids s" "dn_block (GetHostByName_wake t ca timedout s) = dn_block s"
      "dn_callers (GetHostByName_wake t ca timedout s) = dn_callers s" "dn_breakers (GetHostByName_wake t ca timedout s) = dn_breakers s"
  | (returns) s1 r where "dns_find t (dn_vec s) < length (dn_vec s)" "dns_tids s1 = dns_tids s" "dn_block s1 = dn_block s"
      "dn_callers s1 = dn_callers s" "dn_breakers s1 = dn_breakers s"
      "GetHostByName_wake t ca timedout s
        = caller_returns t (ca_host ca) r (vec_erase (dns_find t (dn_vec s)) (breaker_clear (ca_breaker ca) s1))"
proof -
  have "t \<in> set (dns_tids s)" using inv ca by (auto simp: dns_inv_def)
  then have n: "dns_find t (dn_vec s) < length (dn_vec s)" by (simp add: dns_tids_def dns_find_less_iff)
  define it where "it = dns_find t (dn_vec s)"
  define s1 where "s1 = (if timedout then vec_modify it (\<lambda>i. i\<lparr>di_status := kGetIPTimeout\<rparr>) s else s)"
  have f: "dns_tids s1 = dns_tids s" "dn_block s1 = dn_block s" "dn_callers s1 = dn_callers s" "dn_breakers s1 = dn_breakers s"
    by (simp_all add: s1_def tids_modify)
  have h: "ca_host ca = di_host_name (dn_vec s1 ! it)"
    using dns_inv_entry(2) [OF inv n] ca n by (simp add: s1_def it_def)
  have "GetHostByName_wake t ca timedout s =
     (if di_status (dn_vec s1 ! it) = kGetIPDoing then s1
      else caller_returns t (ca_host ca) (if di_status (dn_vec s1 ! it) = kGetIPSuc then Some (di_result (dn_vec s1 ! it)) else None)
        (vec_erase it (breaker_clear (ca_breaker ca) s1)))"
    using n h by (simp add: GetHostByName_wake_def Let_def it_def [symmetric] s1_def [symmetric])
  then show thesis
    using f n waits returns [of s1] by (metis it_def)
qed

lemma erased:
  "dns_tids (vec_erase n s) = take n (dns_tids s) @ drop (Suc n) (dns_tids s)"
  "dn_block (vec_erase n s) = dn_block s" "dn_callers (vec_erase n s) = dn_callers s" "dn_breakers (vec_erase n s) = dn_breakers s"
  by (simp_all add: vec_erase_def dns_tids_def take_map drop_map)

lemma returned:
  "dns_tids (caller_returns t h r s) = dns_tids s" "dn_block (caller_returns t h r s) = dn_block s"
  "dn_breakers (caller_returns t h r s) = dn_breakers s" "dn_callers (caller_returns t h r s) = (dn_callers s)(t := None)"
  by (simp_all add: caller_returns_def dns_tids_def)

lemma cleared_breaker:
  "br_dnsstatus (dn_breakers (breaker_clear breaker s) b) = (if breaker = Some b then None else br_dnsstatus (dn_breakers s b))"
  "dn_block (breaker_clear breaker s) = dn_block s" "dns_tids (breaker_clear breaker s) = dns_tids s"
  by (simp_all add: breaker_clear_def dns_tids_def split: option.split)

lemma breaker_inv_wake:
  assumes inv: "dns_inv s" "breaker_inv s" and ca: "dn_callers s t = Some ca" and st: "still (Dns_wake t timedout) s"
  shows "breaker_inv (GetHostByName_wake t ca timedout s)"
  using inv(1) ca
proof (cases rule: wake_shape [where timedout = timedout])
  case waits
  then show ?thesis by (intro breaker_inv_frame [OF inv(2)]) simp_all
next
  case (returns s1 r)
  let ?n = "dns_find t (dn_vec s)" and ?w = "GetHostByName_wake t ca timedout s"
  have len: "length (dns_tids s) = length (dn_vec s)" by (simp add: dns_tids_def)
  have "length (dns_tids ?w) < length (dns_tids s)"
    unfolding returns(6) using returns(1) len by (simp add: returned erased cleared_breaker returns(2))
  then have last: "Suc ?n = length (dns_tids s)" using st ca len by (auto simp: dns_tids_def)
  have tid: "dns_tids s ! ?n = t" using dns_find_nth [OF returns(1)] returns(1) by (simp add: dns_tids_def)
  have g: "given b u ?w \<longleftrightarrow> u \<noteq> t \<and> given b u s" for b u
    unfolding returns(6) by (simp add: given_def returned erased returns(4))
  have p: "br_dnsstatus (dn_breakers ?w b) = (if ca_breaker ca = Some b then None else br_dnsstatus (dn_breakers s b))" for b
    unfolding returns(6) by (simp add: returned erased cleared_breaker returns(5))
  have w: "dn_block ?w = dn_block s" "dns_tids ?w = take ?n (dns_tids s)"
    unfolding returns(6) using last by (simp_all add: returned erased cleared_breaker returns(2,3))
  show ?thesis
  proof (rule breaker_invI)
    fix b u assume n: "br_dnsstatus (dn_breakers ?w b) = None"
    show "\<not> given b u ?w"
    proof (cases "br_dnsstatus (dn_breakers s b)")
      case None
      then show ?thesis using breaker_invD(1) [OF inv(2)] g by simp
    next
      case (Some q)
      obtain blk m where q: "q = (blk, m)" by (cases q)
      then have "given b t s" using n p Some ca by (auto simp: given_def split: if_splits)
      then show ?thesis using breaker_invD(4) [OF inv(2) Some [unfolded q]] g by simp
    qed
  next
    fix b blk m assume "br_dnsstatus (dn_breakers ?w b) = Some (blk, m)"
    then have b: "ca_breaker ca \<noteq> Some b" "br_dnsstatus (dn_breakers s b) = Some (blk, m)" using p by (auto split: if_splits)
    note v = breaker_invD(2-4) [OF inv(2) b(2)]
    have "\<not> given b t s" using ca b(1) by (simp add: given_def)
    then have ne: "t \<noteq> dns_tids s ! m" using v(3) by blast
    then have "m < ?n" using v(2) last tid by (metis less_SucE)
    then show "blk = dn_block ?w \<and> m < length (dns_tids ?w) \<and> (\<forall>u. given b u ?w \<longleftrightarrow> u = dns_tids ?w ! m)"
      using v ne w g last by auto
  qed
qed

lemma lookup_shape:
  assumes a: "dns_allowed (Dns_lookup dns func host breaker started newcap) s"
  obtains (refused) "GetHostByName_begin dns func host breaker started newcap s = s"
  | (pushed) t s' where "s' = GetHostByName_begin dns func host breaker started newcap s"
      "dn_callers s t = None" "dns_tids s' = dns_tids s @ [t]"
      "dn_callers s' = (dn_callers s)(t \<mapsto> \<lparr>ca_host = host, ca_breaker = breaker\<rparr>)"
      "dn_block s' = (if length (dn_vec s) < dn_capacity s then dn_block s else Suc (dn_block s))"
      "\<And>b. br_dnsstatus (dn_breakers s' b) = (if breaker = Some b then Some (dn_block s', length (dns_tids s)) else br_dnsstatus (dn_breakers s b))"
proof (cases "host = [] \<or> (case breaker of None \<Rightarrow> False | Some b \<Rightarrow> br_isbreak (dn_breakers s b)) \<or> started = None")
  case True
  then have "GetHostByName_begin dns func host breaker started newcap s = s" by (auto simp: GetHostByName_begin_def)
  then show thesis by (rule refused)
next
  case False
  then obtain t where t: "started = Some t" by auto
  show thesis
    by (rule pushed [OF refl, of t])
      (use False t a in \<open>auto simp: GetHostByName_begin_def vec_push_def Let_def dns_tids_def split: option.splits\<close>)
qed

lemma breaker_inv_lookup:
  assumes inv: "dns_inv s" "breaker_inv s" and st: "still (Dns_lookup dns func host breaker started newcap) s"
    and a: "dns_allowed (Dns_lookup dns func host breaker started newcap) s"
  shows "breaker_inv (GetHostByName_begin dns func host breaker started newcap s)"
proof -
  let ?s = "GetHostByName_begin dns func host breaker started newcap s"
  consider "?s = s" | t where "dn_callers s t = None" "dns_tids ?s = dns_tids s @ [t]"
      "dn_callers ?s = (dn_callers s)(t \<mapsto> \<lparr>ca_host = host, ca_breaker = breaker\<rparr>)" "dn_block ?s = dn_block s \<or> dns_tids s = []"
      "\<And>b. br_dnsstatus (dn_breakers ?s b) = (if breaker = Some b then Some (dn_block ?s, length (dns_tids s)) else br_dnsstatus (dn_breakers s b))"
    by (rule lookup_shape [OF a]) (use st in \<open>auto simp: dns_tids_def split: if_splits\<close>)
  then show ?thesis
  proof cases
    case 1
    then show ?thesis using inv(2) by simp
  next
    case (2 t)
    have none: "\<not> given b u s" if "breaker = Some b" for b u
    proof -
      have "\<forall>v\<in>set (dns_tids s). \<not> given b v s" using st that by (simp add: list_all_iff)
      moreover have "u \<in> set (dns_tids s)" if "given b u s" using that inv(1) by (auto simp: given_def dns_inv_def split: option.splits)
      ultimately show ?thesis by blast
    qed
    have g: "given b u ?s \<longleftrightarrow> (if breaker = Some b then u = t else given b u s)" for b u
      using 2(1,3) none by (auto simp: given_def)
    show ?thesis
    proof (rule breaker_invI)
      fix b u assume "br_dnsstatus (dn_breakers ?s b) = None"
      then show "\<not> given b u ?s" using 2(5) g breaker_invD(1) [OF inv(2)] by (auto split: if_splits)
    next
      fix b blk n assume p: "br_dnsstatus (dn_breakers ?s b) = Some (blk, n)"
      show "blk = dn_block ?s \<and> n < length (dns_tids ?s) \<and> (\<forall>u. given b u ?s \<longleftrightarrow> u = dns_tids ?s ! n)"
      proof (cases "breaker = Some b")
        case True
        then show ?thesis using p 2(2,5) g by auto
      next
        case False
        then have "br_dnsstatus (dn_breakers s b) = Some (blk, n)" using p 2(5) by simp
        note v = breaker_invD(2-4) [OF inv(2) this]
        then show ?thesis using 2(2,4) False g by (auto simp: nth_append)
      qed
    qed
  qed
qed

text \<open>The steps that are not of a call of \<^verbatim>\<open>GetHostByName\<close> move nothing.\<close>

fun of_call :: "dns_step \<Rightarrow> bool" where
  "of_call (Dns_lookup dns func host breaker started newcap) \<longleftrightarrow> True"
| "of_call (Dns_wake t timedout) \<longleftrightarrow> True"
| "of_call _ \<longleftrightarrow> False"

lemma dns_step_keeps:
  assumes e: "dns_do ip valid e s = Inr s'" and "\<not> of_call e"
  shows "dns_tids s' = dns_tids s" "dn_block s' = dn_block s" "dn_callers s' = dn_callers s"
    "br_dnsstatus (dn_breakers s' b) = br_dnsstatus (dn_breakers s b)"
proof -
  have "dns_tids s' = dns_tids s \<and> dn_block s' = dn_block s \<and> dn_callers s' = dn_callers s
    \<and> br_dnsstatus (dn_breakers s' b) = br_dnsstatus (dn_breakers s b)"
  proof (cases e)
    case (Dns_begin t)
    then show ?thesis using e by (auto simp: GetIP_begin_def Let_def dns_tids_def)
  next
    case (Dns_end t ans)
    then show ?thesis using e by (auto simp: GetIP_end_def Let_def dns_tids_def tids_update split: dns_answer.splits if_splits)
  next
    case (Dns_cancel dns host)
    then show ?thesis using e by (auto simp: Cancel_host_def dns_tids_def)
  next
    case (Dns_delete dns)
    then show ?thesis using e by (auto simp: DNS_delete_def Cancel_host_def dns_tids_def)
  next
    case (Dns_break c)
    then show ?thesis
      using e by (auto simp: Cancel_breaker_def status_write_def Let_def dns_tids_def tids_update split: option.splits if_splits)
  qed (use assms in simp_all)
  then show "dns_tids s' = dns_tids s" "dn_block s' = dn_block s" "dn_callers s' = dn_callers s"
    "br_dnsstatus (dn_breakers s' b) = br_dnsstatus (dn_breakers s b)" by simp_all
qed

lemma breaker_inv_do:
  assumes inv: "dns_inv s" "breaker_inv s" and e: "dns_allowed e s" "still e s" "dns_do ip valid e s = Inr s'"
  shows "breaker_inv s'"
proof (cases "of_call e")
  case True
  then show ?thesis using breaker_inv_lookup [OF inv] breaker_inv_wake [OF inv] e by (cases e) auto
next
  case False
  show ?thesis by (rule breaker_inv_frame [OF inv(2) dns_step_keeps [OF e(3) False]])
qed

lemma breaker_inv_run:
  assumes "dns_inv s" "breaker_inv s" "dns_run_allowed ip valid es s" "still_run ip valid es s" "dns_run ip valid es s = Inr s'"
  shows "breaker_inv s'"
  using assms
proof (induction es arbitrary: s)
  case (Cons e es)
  then obtain s1 where s1: "dns_do ip valid e s = Inr s1" "dns_run ip valid es s1 = Inr s'"
    by (auto simp: rbind_eq_Inr_iff)
  then have "dns_inv s1" "breaker_inv s1"
    using dns_inv_do [OF Cons.prems(1)] breaker_inv_do [OF Cons.prems(1,2)] Cons.prems(3,4) by auto
  then show ?case using Cons.IH Cons.prems(3,4) s1 by simp
qed simp

lemma find_tids: "m < length (dns_tids s) \<Longrightarrow> distinct (dns_tids s) \<Longrightarrow> dns_find (dns_tids s ! m) (dn_vec s) = m"
proof -
  assume m: "m < length (dns_tids s)" and d: "distinct (dns_tids s)"
  let ?f = "dns_find (dns_tids s ! m) (dn_vec s)"
  have "dns_tids s ! m \<in> set (dns_tids s)" using m by (rule nth_mem)
  then have f: "?f < length (dn_vec s)" by (simp add: dns_tids_def dns_find_less_iff)
  then have "dns_tids s ! ?f = dns_tids s ! m" using dns_find_nth [OF f] by (simp add: dns_tids_def)
  moreover have "?f < length (dns_tids s)" using f by (simp add: dns_tids_def)
  ultimately show "?f = m" using d m by (simp add: nth_eq_iff_index_eq)
qed

lemma find_same: "map di_threadid is = map di_threadid js \<Longrightarrow> dns_find t is = dns_find t js"
  by (induction "is" js rule: list_induct2') auto

lemma find_same_tids: "dns_tids s' = dns_tids s \<Longrightarrow> dns_find t (dn_vec s') = dns_find t (dn_vec s)"
  unfolding dns_tids_def by (rule find_same)

text \<open>What \<^verbatim>\<open>Cancel\<close> with a breaker does to the entries.\<close>

definition cancel_given :: "nat \<Rightarrow> dns_state \<Rightarrow> dnsinfo list" where
  "cancel_given b s = map (\<lambda>i. if given b (di_threadid i) s then i\<lparr>di_status := kGetIPCancel\<rparr> else i) (dn_vec s)"

lemma Cancel_breaker_eq:
  "Cancel_breaker b s = (let s1 = s\<lparr>dn_breakers := (dn_breakers s)(b := (dn_breakers s b)\<lparr>br_isbreak := True\<rparr>)\<rparr> in
     case br_dnsstatus (dn_breakers s b) of None \<Rightarrow> Inr s1
     | Some (blk, n) \<Rightarrow> if blk \<noteq> dn_block s then Inl Use_After_Free
         else if length (dn_vec s) \<le> n then Inl Out_Of_Bounds
         else Inr (vec_modify n (\<lambda>i. i\<lparr>di_status := kGetIPCancel\<rparr>) s1))"
  by (simp add: Cancel_breaker_def status_write_def Let_def split: option.split)

lemma breaker_inv_cancels:
  assumes inv: "dns_inv s" "breaker_inv s"
  shows "\<exists>s'. Cancel_breaker b s = Inr s' \<and> br_isbreak (dn_breakers s' b) \<and> dn_vec s' = cancel_given b s"
proof (cases "br_dnsstatus (dn_breakers s b)")
  case None
  then show ?thesis using breaker_invD(1) [OF inv(2)] by (simp add: Cancel_breaker_eq cancel_given_def Let_def)
next
  case (Some q)
  obtain blk n where q: "br_dnsstatus (dn_breakers s b) = Some (blk, n)" using Some by (cases q) auto
  note v = breaker_invD(2-4) [OF inv(2) q]
  have d: "distinct (map di_threadid (dn_vec s))" using inv(1) by (simp add: dns_inv_def dns_tids_def)
  have "(dn_vec s)[n := (dn_vec s ! n)\<lparr>di_status := kGetIPCancel\<rparr>] = cancel_given b s"
  proof (rule nth_equalityI)
    fix m assume "m < length ((dn_vec s)[n := (dn_vec s ! n)\<lparr>di_status := kGetIPCancel\<rparr>])"
    then show "(dn_vec s)[n := (dn_vec s ! n)\<lparr>di_status := kGetIPCancel\<rparr>] ! m = cancel_given b s ! m"
      using v(2,3) d by (auto simp: cancel_given_def dns_tids_def distinct_conv_nth nth_list_update)
  qed (simp add: cancel_given_def)
  then show ?thesis using q v(1,2) by (simp add: Cancel_breaker_eq Let_def dns_tids_def vec_modify_def)
qed

text \<open>After a step that moves the entry of the lookup that has the breaker.\<close>

lemma breaker_moved:
  assumes inv: "dns_inv s" "breaker_inv s" and a: "dns_allowed e s" "dns_do ip valid e s = Inr s1"
    and g: "given b t s" "given b t s1"
    and m: "dn_block s1 \<noteq> dn_block s \<or> dns_find t (dn_vec s1) < dns_find t (dn_vec s)"
  shows "Cancel_breaker b s1 = Inl Use_After_Free \<or> Cancel_breaker b s1 = Inl Out_Of_Bounds
    \<or> (\<exists>n s2. Cancel_breaker b s1 = Inr s2 \<and> n < length (dn_vec s1) \<and> di_threadid (dn_vec s1 ! n) \<noteq> t
        \<and> dn_vec s2 = (dn_vec s1)[n := (dn_vec s1 ! n)\<lparr>di_status := kGetIPCancel\<rparr>])"
proof -
  have inv1: "dns_inv s1" using dns_inv_do [OF inv(1) a] .
  have d: "distinct (dns_tids s)" "distinct (dns_tids s1)" using inv(1) inv1 by (simp_all add: dns_inv_def)
  obtain blk n where p: "br_dnsstatus (dn_breakers s b) = Some (blk, n)"
    using breaker_invD(1) [OF inv(2)] g(1) by (cases "br_dnsstatus (dn_breakers s b)") auto
  note v = breaker_invD(2-4) [OF inv(2) p]
  have n: "n < length (dns_tids s)" "t = dns_tids s ! n" "dns_find t (dn_vec s) = n"
    using v(2,3) g(1) find_tids [OF v(2) d(1)] by auto
  show ?thesis
  proof (cases "of_call e")
    case False
    then show ?thesis using m dns_step_keeps(2) [OF a(2) False] find_same_tids [OF dns_step_keeps(1) [OF a(2) False]] by simp
  next
    case True
    then consider d' f h c st k where "e = Dns_lookup d' f h c st k" | u x where "e = Dns_wake u x" by (cases e) auto
    then show ?thesis
    proof cases
      case e: (1 d' f h c st k)
      with a(2) have s1: "s1 = GetHostByName_begin d' f h c st k s" by simp
      show ?thesis
      proof (rule lookup_shape [OF a(1) [unfolded e]])
        assume "GetHostByName_begin d' f h c st k s = s"
        then show ?thesis using s1 m by simp
      next
        fix u s2
        assume "s2 = GetHostByName_begin d' f h c st k s" and u: "dn_callers s u = None" "dns_tids s2 = dns_tids s @ [u]"
          and q: "\<And>b. br_dnsstatus (dn_breakers s2 b) = (if c = Some b then Some (dn_block s2, length (dns_tids s)) else br_dnsstatus (dn_breakers s b))"
        then have s2: "s2 = s1" using s1 by simp
        have "dns_tids s1 ! n = t" "n < length (dns_tids s1)" using u(2) n by (simp_all add: s2 nth_append)
        then have "dns_find t (dn_vec s1) = n" using find_tids [OF _ d(2)] by metis
        then have blk: "blk \<noteq> dn_block s1" using m n(3) v(1) by simp
        have l: "length (dn_vec s1) = Suc (length (dns_tids s))" using u(2) by (metis s2 dns_tids_def length_append_singleton length_map)
        have "di_threadid (dn_vec s1 ! length (dns_tids s)) = dns_tids s1 ! length (dns_tids s)" using l by (simp add: dns_tids_def)
        then have "di_threadid (dn_vec s1 ! length (dns_tids s)) = u" using u(2) by (simp add: s2)
        moreover have "u \<noteq> t" using u(1) g(1) by (auto simp: given_def)
        ultimately show ?thesis using q [of b] p blk l by (auto simp: Cancel_breaker_eq Let_def s2 vec_modify_def)
      qed
    next
      case e: (2 u x)
      then obtain ca where ca: "dn_callers s u = Some ca" using a(1) by auto
      then have s1: "s1 = GetHostByName_wake u ca x s" using a(2) e by simp
      show ?thesis using inv(1) ca
      proof (cases rule: wake_shape [where timedout = x])
        case waits
        then show ?thesis using m find_same_tids [of s1 s] by (simp add: s1)
      next
        case (returns s2 r)
        have "u \<noteq> t" using g(2) unfolding s1 returns(6) by (auto simp: given_def returned)
        then have "\<not> given b u s" using v(3) n(2) by simp
        then have "ca_breaker ca \<noteq> Some b" using ca by (simp add: given_def)
        then have q: "br_dnsstatus (dn_breakers s1 b) = Some (blk, n)" "dn_block s1 = dn_block s"
          unfolding s1 returns(6) using p by (simp_all add: returned erased cleared_breaker returns(3,5))
        have "di_threadid (dn_vec s1 ! n) \<noteq> t" if "n < length (dn_vec s1)"
        proof
          assume "di_threadid (dn_vec s1 ! n) = t"
          then have "dns_find t (dn_vec s1) = n" using find_tids [OF _ d(2)] that by (metis dns_tids_def length_map nth_map)
          then show False using m q(2) n(3) by simp
        qed
        then show ?thesis using q v(1) by (auto simp: Cancel_breaker_eq Let_def vec_modify_def not_less intro!: exI [of _ n])
      qed
    qed
  qed
qed

text \<open>C22: \<^verbatim>\<open>Cancel\<close> with a breaker cancels the waiting lookup that the breaker was given to, and no other, in every interleaving in which
  no entry of the table moves: a push finds room or an empty table, the calls that return have the last entry, and a breaker is given to one
  lookup at a time. The pointer of the breaker does not follow its entry: after any step that moves the entry, which another lookup that
  begins or returns makes, \<^verbatim>\<open>Cancel\<close> writes to freed memory, behind the vector, or cancels another lookup.\<close>

theorem DNS_breaker_cancels:
  assumes "dns_run_allowed ip valid es dns_init" "still_run ip valid es dns_init" "dns_run ip valid es dns_init = Inr s"
  shows "(\<exists>s'. Cancel_breaker b s = Inr s' \<and> br_isbreak (dn_breakers s' b) \<and> dn_vec s' = cancel_given b s)
    \<and> (dns_allowed e s \<and> dns_do ip valid e s = Inr s1 \<and> given b t s \<and> given b t s1
        \<and> (dn_block s1 \<noteq> dn_block s \<or> dns_find t (dn_vec s1) < dns_find t (dn_vec s))
      \<longrightarrow> Cancel_breaker b s1 = Inl Use_After_Free \<or> Cancel_breaker b s1 = Inl Out_Of_Bounds
        \<or> (\<exists>n s2. Cancel_breaker b s1 = Inr s2 \<and> n < length (dn_vec s1) \<and> di_threadid (dn_vec s1 ! n) \<noteq> t
            \<and> dn_vec s2 = (dn_vec s1)[n := (dn_vec s1 ! n)\<lparr>di_status := kGetIPCancel\<rparr>]))"
proof -
  have inv: "dns_inv s" by (rule dns_inv_run [OF dns_inv_init assms(1,3)])
  have b: "breaker_inv s" by (rule breaker_inv_run [OF dns_inv_init breaker_inv_init assms])
  show ?thesis using breaker_inv_cancels [OF inv b] breaker_moved [OF inv b] by blast
qed

definition still_lookups :: "dns_step list" where
  "still_lookups = [Dns_lookup 0 False ''a'' None (Some 1) 4, Dns_lookup 0 False ''b'' (Some 0) (Some 2) 4, Dns_begin 1,
     Dns_end 1 Addr_error]"

text \<open>The call of \<open>''a''\<close> returns and its entry, in front of that of \<open>''b''\<close>, is erased.\<close>

lemma DNS_breaker_cancels_witness:
  "\<exists>s s1. dns_run demo_ip (\<lambda>_. True) still_lookups dns_init = Inr s \<and> dns_do demo_ip (\<lambda>_. True) (Dns_wake 1 False) s = Inr s1
    \<and> (\<exists>s'. Cancel_breaker 0 s = Inr s' \<and> dn_vec s' = cancel_given 0 s)
    \<and> map di_status (cancel_given 0 s) = [kGetIPFail, kGetIPCancel] \<and> length (dn_vec s1) = 1
    \<and> (Cancel_breaker 0 s1 = Inl Use_After_Free \<or> Cancel_breaker 0 s1 = Inl Out_Of_Bounds
      \<or> (\<exists>n s2. Cancel_breaker 0 s1 = Inr s2 \<and> n < length (dn_vec s1) \<and> di_threadid (dn_vec s1 ! n) \<noteq> 2))"
proof -
  define s where "s = projr (dns_run demo_ip (\<lambda>_. True) still_lookups dns_init)"
  define s1 where "s1 = projr (dns_do demo_ip (\<lambda>_. True) (Dns_wake 1 False) s)"
  have a: "dns_run_allowed demo_ip (\<lambda>_. True) still_lookups dns_init" "still_run demo_ip (\<lambda>_. True) still_lookups dns_init"
    by (simp_all add: still_lookups_def dns_eval demo_ip_def dns_tids_def given_def)
  have r: "dns_run demo_ip (\<lambda>_. True) still_lookups dns_init = Inr s" "map di_status (cancel_given 0 s) = [kGetIPFail, kGetIPCancel]"
    "given 0 2 s" "dns_allowed (Dns_wake 1 False) s" "dns_find 2 (dn_vec s) = 1"
    by (simp_all add: s_def still_lookups_def dns_eval demo_ip_def cancel_given_def given_def)
  have r1: "dns_do demo_ip (\<lambda>_. True) (Dns_wake 1 False) s = Inr s1" "given 0 2 s1" "dns_find 2 (dn_vec s1) = 0" "length (dn_vec s1) = 1"
    by (simp_all add: s1_def s_def still_lookups_def dns_eval demo_ip_def given_def)
  show ?thesis using DNS_breaker_cancels [OF a r(1), of 0 "Dns_wake 1 False" s1 2] r r1 by auto
qed

text \<open>The three outcomes, in runs that are allowed.\<close>

lemma DNS_breaker_hits_other:
  "dns_run demo_ip (\<lambda>_. True) (demo_lookups @ [Dns_break 0]) dns_init = Inl Out_Of_Bounds
   \<and> map_sum id (\<lambda>s. map (\<lambda>i. (di_host_name i, di_status i)) (dn_vec s))
       (dns_run demo_ip (\<lambda>_. True) (demo_lookups @ [Dns_lookup 0 False ''c'' None (Some 3) 4, Dns_break 0]) dns_init)
     = Inr [(''b'', kGetIPDoing), (''c'', kGetIPCancel)]
   \<and> dns_run demo_ip (\<lambda>_. True) [Dns_lookup 0 False ''a'' (Some 0) (Some 1) 1, Dns_lookup 0 False ''b'' None (Some 2) 2, Dns_break 0] dns_init
     = Inl Use_After_Free
   \<and> dns_run_allowed demo_ip (\<lambda>_. True) (demo_lookups @ [Dns_lookup 0 False ''c'' None (Some 3) 4, Dns_break 0]) dns_init
   \<and> dns_run_allowed demo_ip (\<lambda>_. True)
       [Dns_lookup 0 False ''a'' (Some 0) (Some 1) 1, Dns_lookup 0 False ''b'' None (Some 2) 2, Dns_break 0] dns_init"
  by (simp add: demo_lookups_def dns_eval demo_ip_def)

text \<open>With no other lookup in the table the breaker does what it should: the call returns \<^verbatim>\<open>false\<close> at its next wakeup.\<close>

lemma Cancel_breaker_alone:
  assumes "dn_vec s = []" "\<not> br_isbreak (dn_breakers s b)" "host \<noteq> []"
  shows "\<exists>s'. Cancel_breaker b (GetHostByName_begin dns func host (Some b) (Some t) newcap s) = Inr s'
    \<and> dn_returned (GetHostByName_wake t \<lparr>ca_host = host, ca_breaker = Some b\<rparr> timedout s') = dn_returned s @ [(t, host, None)]
    \<and> dn_vec (GetHostByName_wake t \<lparr>ca_host = host, ca_breaker = Some b\<rparr> timedout s') = []"
  using assms by (simp add: dns_eval)

text \<open>An answer that is already in the table is dropped when the wait reports that the time is over.\<close>

lemma wake_drops_answer:
  assumes "dns_find t (dn_vec s) < length (dn_vec s)"
  shows "dn_returned (GetHostByName_wake t ca True s) = dn_returned s @ [(t, ca_host ca, None)]"
  using assms by (simp add: GetHostByName_wake_def caller_returns_def vec_erase_def Let_def)

end
