(* ===== verification/Spec2Isabelle.thy ===== *)
theory Spec2Isabelle
  imports MQ_Props Ptr_Buffer Adler32 Base_Packer Base64 Str_Util Http_Loop Freq_Limit Complex_Props Conn_Props Thread_Cancel Block_Props Alarm_Props Inet_Props MQ_Creater_Props Tcp_Client_Props Ini_File Tcp_Server Server_Fsm Udp_Client Dns
begin

text \<open>
  Verification of the communication library of this repository, src/mars/comm (C++): buffers, checksums and encodings, the
  packet format, HTTP, threads, the message queue, alarms, the rate limit and the socket code up to the racing connection
  \<^verbatim>\<open>ComplexConnect\<close>.

  \<^bold>\<open>Parts and how they interact.\<close> \<^verbatim>\<open>AutoBuffer\<close> is the byte buffer of all the others. \<^verbatim>\<open>http::Builder\<close> writes a message
  into one, \<^verbatim>\<open>http::Parser\<close> reads one in pieces. \<^verbatim>\<open>MessageQueue\<close> runs handlers on run loops of threads. A \<^verbatim>\<open>SocketSelect\<close>
  waits with \<^verbatim>\<open>poll\<close> for descriptors and for the self-pipe of a \<^verbatim>\<open>SocketBreaker\<close>; \<^verbatim>\<open>TcpClientFSM\<close> is the state machine of one
  connection over it, its subclasses verify a connection or speak to an HTTP or SOCKS5 proxy (with \<^verbatim>\<open>Builder\<close>, \<^verbatim>\<open>Parser\<close> and
  base64), and \<^verbatim>\<open>ComplexConnect\<close> races several of them.

  \<^bold>\<open>Theories and sources.\<close>
  \<^item> \<open>Comm_Prelude\<close>: bytes, machine integers (\<open>to_size\<close>, \<open>to_off\<close>, \<open>to_int\<close>, \<open>to_uint\<close> write out the wrap-around at 64 and
    32 bits), the fault datatype and the result type that every read or write out of bounds goes to.
  \<^item> \<open>Auto_Buffer\<close> (autobuffer.cc), \<open>Byte_Sink\<close> (the interface of a buffer that is only appended to), \<open>Ptr_Buffer\<close>
    (ptrbuffer.cc), \<open>Base_Packer\<close> (basepacker.cc), \<open>Adler32\<close> (adler32.c: the checksum, and combining two), \<open>Base64\<close> (crypt/ibase64.cc), \<open>Cpp_String\<close> and
    \<open>Str_Util\<close> (strutil.cc), \<open>String_Cast\<close> (string_cast.h: numbers printed and read), \<open>Ini_File\<close> (ini.h: configuration files, parsed and
    saved), \<open>Freq_Limit\<close> (comm_frequency_limit.cc).
  \<^item> \<open>Http_Lines\<close>, \<open>Http_Headers\<close>, \<open>Http_Builder\<close>, \<open>Http_Search\<close>, \<open>Http_Parser\<close>, \<open>Http_Recv\<close>, \<open>Http_Bodies\<close>, \<open>Http_Loop\<close>
    (http.cc, http.h): lines, header map, builder, parser, and the proofs about whole messages.
  \<^item> \<open>MQ_Types\<close>, \<open>MQ_RunLoop\<close>, \<open>MQ_Api\<close>, \<open>MQ_Clients\<close>, \<open>MQ_Laws\<close>, \<open>MQ_System\<close>, \<open>MQ_Props\<close> (messagequeue/message_queue.cc, .h):
    the registry of queues, one pass of a run loop, the calls, what is built on them, the contract of one
    critical section, all interleavings of threads and loops, the properties; \<open>MQ_Creater\<close>, \<open>MQ_Creater_Props\<close>: \<^verbatim>\<open>AsyncResult\<close>,
    \<^verbatim>\<open>WaitInvoke\<close>, \<^verbatim>\<open>MessageQueueCreater\<close> and the start of the thread of a queue.
  \<^item> \<open>Sys_Io\<close>: the kernel. Its answers are not code of the repository, so an environment gives an arbitrary answer to every
    call, depending on all calls before; computations keep the log of calls and answers.
  \<^item> \<open>Socket_Poll\<close> (unix/socket/socketbreaker.cc, socketpoll.cc, socketselect.cc), \<open>Io_Loop\<close> (the loops around a select, and
    how a breaker ends them), \<open>Block_Socket\<close> and \<open>Block_Props\<close> (socket/block_socket.cc, unix_socket.cc), \<open>Tcp_Fsm\<close> (socket/tcpclient_fsm.cc),
    \<open>Conn_Check\<close>, \<open>Conn_Proxy\<close>, \<open>Complex_Connect\<close> (socket/complexconnect.cc), \<open>Complex_Inv\<close>, \<open>Complex_Live\<close>,
    \<open>Complex_Props\<close> (its invariant, its return, its properties), \<open>Conn_Props\<close> (the SOCKS5 handshake as a dialogue with a
    proxy, driven through \<^verbatim>\<open>PreReadWriteSelect\<close> and \<^verbatim>\<open>AfterSelect\<close>, over the bytes on the wire).
  \<^item> \<open>Inet_Text\<close>, \<open>Inet_Props\<close> (socket/unix_socket.cc): the text of IPv4 and IPv6 addresses, read and printed.
  \<^item> \<open>Tcp_Client\<close>, \<open>Tcp_Client_Props\<close> (socket/tcpclient.cc): one connection with a thread of its own, as a program counter whose steps
    interleave with \<^verbatim>\<open>Connect\<close>, \<^verbatim>\<open>Write\<close>, \<^verbatim>\<open>Read\<close> and \<^verbatim>\<open>Disconnect\<close> of other threads: bytes and events in order, no wait that misses
    a call, the end after \<^verbatim>\<open>Disconnect\<close>.
  \<^item> \<open>Tcp_Server\<close> (socket/tcpserver.cc): the listening thread against starts and stops, with the race for its socket: no socket is lost, and it is closed once
    exactly as long as the thread and \<^verbatim>\<open>StopAndWait\<close> do not overlap in closing it; \<open>Server_Fsm\<close>
    (socket/tcpserver_fsm.cc): an accepted connection, closed once.
  \<^item> \<open>Udp_Client\<close> (socket/udpclient.cc): the thread that sends queued datagrams against the calls of other threads: datagrams in order,
    no wait that misses one, the end after the destructor.
  \<^item> \<open>Dns\<close> (dns/dns.cc): lookups of host names by threads, their shared table, and the pointer of a breaker into it: the table and the
    answers are accounted for; a breaker cancels its own lookup as long as no entry moves, since the pointer does not follow its
    entry.
  \<^item> \<open>Thread_Ref\<close> (unix/thread/thread.h, the timed wait of condition.h), \<open>Thread_Safe\<close>, \<open>Thread_Props\<close>, \<open>Thread_Cancel\<close>: a
    \<^verbatim>\<open>Thread\<close> object and its pthreads as program counters over the sections of the spin lock, the life time of the object
    they share, the joining or detaching of every pthread, what cancelling means.

  \<^bold>\<open>State and operations.\<close> A class is a record with its members, a member function is a function from the old to the new
  record (with its result), a virtual class is a record of functions (\<open>tcp_class\<close>), a callback interface a parameter
  (\<open>observer\<close>). Locks are the grain of the steps: what runs under one lock is one step. Errors are values: \<open>Inl\<close> with the
  fault (out of bounds, null, empty container), and \<open>None\<close> where a loop does not come back (\<open>partial_function\<close>).

  \<^bold>\<open>What the lemmas show.\<close> Each component has a well-formedness invariant with one preservation lemma per operation
  (\<open>wf_buf\<close>, \<open>parser_at\<close>, the queue invariant of \<open>MQ_Laws\<close>, \<open>poll_ok\<close>, \<open>fsm_inv\<close>, \<open>settled\<close>). Locales hold the contracts:
  a byte sink, the critical sections of the queue, a body of a message, the callbacks of a connection
  (\<open>tcp_callbacks\<close>, \<open>tcp_returning\<close>), the loop over a class of connections (\<open>impatient_class\<close>, \<open>impatient_returning\<close>); each is
  interpreted on the definitions of the code.

  \<^bold>\<open>Bounds and fuel.\<close> There is no fuel: loops are structural or well-founded recursions, or partial functions whose return
  is a theorem (\<open>Recv_returns_iff\<close>, \<open>ConnectImpatient_breaks\<close>). The size bounds in hypotheses (a buffer below \<open>2 ^ 62\<close>, a
  message below \<open>2 ^ 29\<close> bytes) keep the machine integers of the code from wrapping; they are far above what memory holds.

  \<^bold>\<open>Not modelled.\<close> Vendored libraries (boost, zlib, tinyxml2, md5, the pods of wcdbTest) and the Objective-C demos; log
  statements; platform glue (JNI, Objective-C, Windows); the wrappers of mutexes, spin locks and atomic operations, whose mutual
  exclusion is the grain of the steps; the conversions of
  floating point numbers; the stack size and \<^verbatim>\<open>unsafe_exit\<close> of a \<^verbatim>\<open>Thread\<close>; the parts of \<^verbatim>\<open>Alarm\<close> for Android; \<^verbatim>\<open>UdpServer\<close>, a copy
  of the loop of \<^verbatim>\<open>UdpClient\<close>; the watchdog anr.cc; code that only inspects \<^verbatim>\<open>sockaddr\<close> structures by casts.
\<close>

text \<open>
  C12: what \<open>Builder\<close> writes, \<open>Parser\<close> reads: a request with a well-formed line and fields and a non-empty block body below
  \<open>2 ^ 29\<close> bytes, whose fields already announce the length of the body and no chunked encoding (\<open>HttpToBuffer\<close> adds no
  such field), is written by \<open>HttpToBuffer\<close>, and passing what was written to \<open>Recv\<close> in any blocks ends in success
  with the same request line, the same fields and the same body.
\<close>

theorem Http_build_parse:
  assumes "bd_csmode b = kRequest" "request_ok (bd_requestline b)" "fields_ok (bd_headfields b)"
    "bd_blockbody b = Some q" "objs q = Some body" "wf_buf body" "content body \<noteq> []" "length (content body) < 2 ^ 29"
    "\<not> IsTransferEncodingChunked (bd_headfields b)" "ContentLength (bd_headfields b) = int (length (content body))"
  shows "\<exists>http. HttpToBuffer have_data data b objs st (AutoBuffer_new 128) = Inr (True, objs(q \<mapsto> Reset body), st, http)
    \<and> (\<forall>ds. concat ds = written http \<longrightarrow>
        (\<exists>p r bb. Recv_all (Parser_new (Some (MemoryBodyReceiver_new (AutoBuffer_new 128))) manage) ds = Some (Inr p)
          \<and> Success p \<and> ps_csmode p = kRequest \<and> ps_requestline p = bd_requestline b \<and> ps_headfields p = bd_headfields b
          \<and> ps_bodyreceiver p = Some r \<and> br_body r = Some bb \<and> written bb = content body))"
proof -
  let ?r = "bd_requestline b" and ?h = "bd_headfields b" and ?new = "AutoBuffer_new 128"
  obtain s where s: "RequestLine_ToString ?r = Inr s"
    using RequestLine_reparse [of ?r] assms(2) by (auto simp: request_ok_def)
  let ?t = "s @ HeaderFields_ToString ?h @ KStringCRLF"
  have t: "head_text b = Inr ?t" using assms(1) s by (simp add: head_text_def)
  have "length ?t \<le> 8192 + 131072"
    using request_line_text(4) [OF assms(2) s] header_block_text(5) [OF assms(3)] by simp
  then have room: "length ?t + length (content body) \<le> sink_room ?new"
    using assms(8) unfolding sink_ok_new(2) by simp
  have ne: "hf_headers ?h \<noteq> []" using assms(3) by (simp add: fields_ok_def)
  obtain http where http: "HttpToBuffer have_data data b objs st ?new = Inr (True, objs(q \<mapsto> Reset body), st, http)"
      "written http = bytes_of ?t @ content body"
    using HttpToBuffer_writes [where b = b and objs = objs and have_data = have_data and data = data and st = st,
        OF assms(4-7) t ne sink_ok_new(1) room] by auto
  have cl: "length_ok ?h (content body)" using assms(9,10) by (simp add: length_ok_def)
  have "\<exists>p r bb. Recv_all (Parser_new (Some (MemoryBodyReceiver_new ?new)) manage) ds = Some (Inr p)
      \<and> Success p \<and> ps_csmode p = kRequest \<and> ps_requestline p = ?r \<and> ps_headfields p = ?h
      \<and> ps_bodyreceiver p = Some r \<and> br_body r = Some bb \<and> written bb = content body"
    if "concat ds = written http" for ds
  proof -
    have "concat ds = bytes_of s @ bytes_of (HeaderFields_ToString ?h @ KStringCRLF) @ content body"
      using that http(2) by simp
    from cl.Recv_all_message [OF head_ok_request [OF assms(2) s assms(3)] cl assms(8) _ sink_ok_new(1) this, of manage]
    show ?thesis using parser_at_end [of "written ?new" _ "content body"] by (fastforce simp: parsed_def)
  qed
  with http(1) show ?thesis by blast
qed

definition ex_post :: Builder where
  "ex_post = (Builder_new kRequest)\<lparr>bd_requestline := ex_request, bd_headfields := ex_fields ''Content-Length'' ''5'',
     bd_blockbody := Some 1\<rparr>"

theorem Http_build_parse_witness:
  "\<exists>http. HttpToBuffer (\<lambda>_. False) (\<lambda>s b. Inr (False, s, b)) ex_post [1 \<mapsto> ex_buffer (bytes_of ''hello'')] () (AutoBuffer_new 128)
      = Inr (True, [1 \<mapsto> Reset (ex_buffer (bytes_of ''hello''))], (), http)
    \<and> (\<exists>p r bb. Recv_all (Parser_new (Some (MemoryBodyReceiver_new (AutoBuffer_new 128))) True) [written http] = Some (Inr p)
        \<and> Success p \<and> ps_requestline p = ex_request \<and> ps_bodyreceiver p = Some r \<and> br_body r = Some bb
        \<and> written bb = bytes_of ''hello'')"
proof -
  let ?body = "ex_buffer (bytes_of ''hello'')"
  have b: "wf_buf ?body" "content ?body = bytes_of ''hello''"
    by (simp_all add: ex_buffer_def wf_buf_def ab_block_def PTRDIFF_MAX_def content_def)
  obtain http where http: "HttpToBuffer (\<lambda>_. False) (\<lambda>s b. Inr (False, s, b)) ex_post [1 \<mapsto> ?body] () (AutoBuffer_new 128)
      = Inr (True, [1 \<mapsto> ?body](1 \<mapsto> Reset ?body), (), http)"
    "\<forall>ds. concat ds = written http \<longrightarrow>
        (\<exists>p r bb. Recv_all (Parser_new (Some (MemoryBodyReceiver_new (AutoBuffer_new 128))) True) ds = Some (Inr p)
          \<and> Success p \<and> ps_csmode p = kRequest \<and> ps_requestline p = bd_requestline ex_post \<and> ps_headfields p = bd_headfields ex_post
          \<and> ps_bodyreceiver p = Some r \<and> br_body r = Some bb \<and> written bb = content ?body)"
    using Http_build_parse [of ex_post 1 "[1 \<mapsto> ?body]" ?body "\<lambda>_. False" "\<lambda>s b. Inr (False, s, b)" "()" True]
      ex_length_ok ex_request_ok(1) b by (auto simp: ex_post_def Builder_new_def)
  show ?thesis
    using http(1) http(2) [THEN spec, of "[written http]"] b(2) by (auto simp: ex_post_def)
qed

end
